(* ===== verification/Prelude.thy ===== *)
theory Prelude
  imports Main "HOL-Library.Word" "HOL-Library.Multiset" "HOL-Library.List_Lexorder"
    "HOL-Library.Char_ord" "HOL-Library.Product_Lexorder"
begin

text \<open>
  What the components share: results of operations that may throw, the standard library's
  ordered containers as strictly sorted lists over an explicit comparator, and the list facts
  the component proofs use.  An exception of the code is the left summand of a sum type, each
  component with an error datatype of its own.
\<close>

named_theorems flat_simps "rewrite rules for the ordered containers"

section \<open>Results that may be an exception\<close>

type_synonym ('e, 'a) result = "'e + 'a"

definition bind_res :: "('e, 'a) result \<Rightarrow> ('a \<Rightarrow> ('e, 'b) result) \<Rightarrow> ('e, 'b) result" where
  "bind_res m f = (case m of Inl e \<Rightarrow> Inl e | Inr a \<Rightarrow> f a)"

lemma bind_res_simps [simp]:
  "bind_res (Inl e) f = Inl e"
  "bind_res (Inr a) f = f a"
  by (simp_all add: bind_res_def)

lemma bind_res_Inr:
  "bind_res m f = Inr b \<longleftrightarrow> (\<exists>a. m = Inr a \<and> f a = Inr b)"
  by (cases m) simp_all

fun map_res :: "('a \<Rightarrow> ('e, 'b) result) \<Rightarrow> 'a list \<Rightarrow> ('e, 'b list) result" where
  "map_res f [] = Inr []"
| "map_res f (x # xs) = bind_res (f x) (\<lambda>y. bind_res (map_res f xs) (\<lambda>ys. Inr (y # ys)))"

fun fold_res :: "('b \<Rightarrow> 'a \<Rightarrow> ('e, 'b) result) \<Rightarrow> 'b \<Rightarrow> 'a list \<Rightarrow> ('e, 'b) result" where
  "fold_res f s [] = Inr s"
| "fold_res f s (x # xs) = bind_res (f s x) (\<lambda>s'. fold_res f s' xs)"

section \<open>Ordered containers over a comparator\<close>

text \<open>
  \<open>std::set\<close> and \<open>std::map\<close> (and the flat containers of the code) keep their elements strictly
  sorted by a strict weak order \<open>lt\<close>; two elements neither of which is less than the other are
  one element.  \<open>lower_bound\<close> is the position of the first element not less than \<open>v\<close>.
\<close>

definition lower_bound :: "('a \<Rightarrow> 'a \<Rightarrow> bool) \<Rightarrow> 'a list \<Rightarrow> 'a \<Rightarrow> nat" where
  "lower_bound lt xs v = length (takeWhile (\<lambda>x. lt x v) xs)"

definition insert_at :: "nat \<Rightarrow> 'a \<Rightarrow> 'a list \<Rightarrow> 'a list" where
  "insert_at n v xs = take n xs @ v # drop n xs"

definition erase_at :: "nat \<Rightarrow> 'a list \<Rightarrow> 'a list" where
  "erase_at n xs = take n xs @ drop (Suc n) xs"

definition flat_find :: "('a \<Rightarrow> 'a \<Rightarrow> bool) \<Rightarrow> 'a list \<Rightarrow> 'a \<Rightarrow> nat option" where
  "flat_find lt xs v =
     (let n = lower_bound lt xs v
      in if n < length xs \<and> \<not> lt v (xs ! n) then Some n else None)"

definition flat_insert :: "('a \<Rightarrow> 'a \<Rightarrow> bool) \<Rightarrow> 'a list \<Rightarrow> 'a \<Rightarrow> 'a list" where
  "flat_insert lt xs v =
     (case flat_find lt xs v of Some _ \<Rightarrow> xs | None \<Rightarrow> insert_at (lower_bound lt xs v) v xs)"

locale strict_weak_order =
  fixes lt :: "'a \<Rightarrow> 'a \<Rightarrow> bool"
  assumes lt_irrefl: "\<not> lt x x"
    and lt_trans: "lt x y \<Longrightarrow> lt y z \<Longrightarrow> lt x z"
    and incomp_trans: "\<not> lt x y \<Longrightarrow> \<not> lt y z \<Longrightarrow> \<not> lt x z"
begin

lemma lt_asym: "lt x y \<Longrightarrow> \<not> lt y x"
  using lt_irrefl lt_trans by blast

lemma lower_bound_Nil: "lower_bound lt [] v = 0"
  by (simp add: lower_bound_def)

lemma lower_bound_Cons:
  "lower_bound lt (x # xs) v = (if lt x v then Suc (lower_bound lt xs v) else 0)"
  by (simp add: lower_bound_def)

lemma flat_find_Nil: "flat_find lt [] v = None"
  by (simp add: flat_find_def lower_bound_Nil)

lemma flat_find_Cons:
  "flat_find lt (x # xs) v =
     (if lt x v then map_option Suc (flat_find lt xs v) else if lt v x then None else Some 0)"
  by (auto simp: flat_find_def lower_bound_Cons Let_def)

lemma flat_insert_Nil: "flat_insert lt [] v = [v]"
  by (simp add: flat_insert_def flat_find_Nil insert_at_def)

lemma flat_insert_Cons:
  "flat_insert lt (x # xs) v =
     (if lt x v then x # flat_insert lt xs v else if lt v x then v # x # xs else x # xs)"
  by (auto simp: flat_insert_def flat_find_Cons lower_bound_Cons insert_at_def split: option.splits)

lemmas flat_rec = flat_find_Nil flat_find_Cons flat_insert_Nil flat_insert_Cons
  lower_bound_Nil lower_bound_Cons

lemma set_flat_insert_sub: "set (flat_insert lt xs v) \<subseteq> insert v (set xs)"
  by (induction xs) (auto simp: flat_rec)

lemma set_flat_insert_super: "set xs \<subseteq> set (flat_insert lt xs v)"
  by (induction xs) (auto simp: flat_rec)

lemma sorted_flat_insert:
  "sorted_wrt lt xs \<Longrightarrow> sorted_wrt lt (flat_insert lt xs v)"
proof (induction xs)
  case Nil
  then show ?case by (simp add: flat_rec)
next
  case (Cons x xs)
  then have srt: "sorted_wrt lt (flat_insert lt xs v)" by simp
  show ?case
    using Cons.prems srt set_flat_insert_sub [of xs v] by (auto simp: flat_rec intro: lt_trans)
qed

lemma flat_find_sound:
  "flat_find lt xs v = Some n \<Longrightarrow> n < length xs \<and> \<not> lt (xs ! n) v \<and> \<not> lt v (xs ! n)"
proof (induction xs arbitrary: n)
  case Nil
  then show ?case by (simp add: flat_rec)
next
  case (Cons x xs)
  then show ?case by (auto simp: flat_rec split: if_splits)
qed

lemma flat_find_complete:
  "sorted_wrt lt xs \<Longrightarrow> y \<in> set xs \<Longrightarrow> \<not> lt y v \<Longrightarrow> \<not> lt v y \<Longrightarrow> flat_find lt xs v \<noteq> None"
  by (induction xs) (auto simp: flat_rec intro: lt_trans)

lemma flat_insert_mem:
  "sorted_wrt lt xs \<Longrightarrow> \<exists>y \<in> set (flat_insert lt xs v). \<not> lt y v \<and> \<not> lt v y"
  by (induction xs) (auto simp: flat_rec lt_irrefl)

lemma sorted_lt_unique:
  "sorted_wrt lt xs \<Longrightarrow> sorted_wrt lt ys \<Longrightarrow> set xs = set ys \<Longrightarrow> xs = ys"
proof (induction xs arbitrary: ys)
  case Nil
  then show ?case by simp
next
  case (Cons x xs)
  then obtain y zs where ys: "ys = y # zs" by (cases ys) auto
  have "x = y"
    using Cons.prems lt_asym unfolding ys by (metis list.set_intros(1) set_ConsD sorted_wrt.simps(2))
  moreover have "x \<notin> set xs" "y \<notin> set zs" using Cons.prems lt_irrefl unfolding ys by auto
  ultimately have "set xs = set zs" using Cons.prems(3) unfolding ys by (metis insert_ident list.simps(15))
  then have "xs = zs" using Cons.prems(1,2) unfolding ys by (intro Cons.IH) auto
  with \<open>x = y\<close> show ?case by (simp add: ys)
qed

end

text \<open>A linear order's \<open><\<close> is such a comparator, and there equivalence is equality.\<close>

interpretation linorder_swo: strict_weak_order "(<) :: 'a::linorder \<Rightarrow> 'a \<Rightarrow> bool"
  by unfold_locales auto

lemma set_flat_insert_linorder:
  fixes xs :: "'a::linorder list"
  shows "set (flat_insert (<) xs v) = insert v (set xs)"
proof -
  have "v \<in> set (flat_insert (<) xs v)"
    by (induction xs) (auto simp: linorder_swo.flat_rec)
  then show ?thesis
    using linorder_swo.set_flat_insert_sub [of xs v] linorder_swo.set_flat_insert_super [of xs v]
    by blast
qed

section \<open>Strictly sorted lists of a linear order\<close>

abbreviation ssorted :: "'a::linorder list \<Rightarrow> bool" where
  "ssorted xs \<equiv> sorted_wrt (<) xs"

lemma ssorted_unique: "ssorted xs \<Longrightarrow> ssorted ys \<Longrightarrow> set xs = set ys \<Longrightarrow> xs = ys"
  by (metis strict_sorted_equal)

lemma ssorted_distinct: "ssorted xs \<Longrightarrow> distinct xs"
  by (simp add: strict_sorted_iff)

section \<open>Lists\<close>

lemma insert_at_length [simp]: "n \<le> length xs \<Longrightarrow> length (insert_at n v xs) = Suc (length xs)"
  by (simp add: insert_at_def)

lemma upt_append: "i \<le> j \<Longrightarrow> j \<le> k \<Longrightarrow> [i..<k] = [i..<j] @ [j..<k]"
  using upt_add_eq_append [of i j "k - j"] by simp

lemma foldl_invariant:
  "P a \<Longrightarrow> (\<And>b x. P b \<Longrightarrow> x \<in> set xs \<Longrightarrow> P (f b x)) \<Longrightarrow> P (foldl f a xs)"
  by (induction xs arbitrary: a) auto

section \<open>Numbers as text\<close>

text \<open>\<open>std::to_string\<close> of an unsigned integer.\<close>

fun show_nat :: "nat \<Rightarrow> string" where
  "show_nat n = (if n < 10 then [char_of (48 + n)] else show_nat (n div 10) @ [char_of (48 + n mod 10)])"

declare show_nat.simps [simp del]

end
