(* ===== verification/IrrepSets.thy ===== *)
theory IrrepSets
  imports Prelude
begin

text \<open>
  SeQuant/core/irreps/algebra.hpp: the set of IRREPs a quantity spans, with its absorbing "any"
  state, and the product and conjugate of such sets over an algebra of IRREPs.  The algebra (the
  concept \<open>IrrepAlgebra\<close>) is the locale \<open>irrep_algebra\<close>; Z2Irreps and TableAlgebra provide it.
\<close>

section \<open>The class IrrepSet\<close>

record 'i irrep_set =
  m_irreps :: "'i list"
  m_any :: bool

definition irs_none :: "'i irrep_set" where
  "irs_none = \<lparr>m_irreps = [], m_any = False\<rparr>"

definition irs_any :: "'i irrep_set" where
  "irs_any = \<lparr>m_irreps = [], m_any = True\<rparr>"

definition irs_is_any :: "'i irrep_set \<Rightarrow> bool" where
  "irs_is_any s = m_any s"

definition irs_empty :: "'i irrep_set \<Rightarrow> bool" where
  "irs_empty s \<longleftrightarrow> \<not> m_any s \<and> m_irreps s = []"

definition irs_size :: "'i irrep_set \<Rightarrow> nat" where
  "irs_size s = length (m_irreps s)"

text \<open>\<open>std::ranges::binary_search\<close>: the element at the lower bound is not greater than the value.\<close>

definition irs_contains :: "'i::linorder irrep_set \<Rightarrow> 'i \<Rightarrow> bool" where
  "irs_contains s i \<longleftrightarrow>
     m_any s \<or> (let n = lower_bound (<) (m_irreps s) i
                 in n < length (m_irreps s) \<and> \<not> i < m_irreps s ! n)"

definition irs_insert :: "'i::linorder irrep_set \<Rightarrow> 'i \<Rightarrow> 'i irrep_set" where
  "irs_insert s i =
     (if m_any s then s
      else let it = lower_bound (<) (m_irreps s) i
           in if it = length (m_irreps s) \<or> m_irreps s ! it \<noteq> i
              then s\<lparr>m_irreps := insert_at it i (m_irreps s)\<rparr>
              else s)"

definition irs_of :: "'i::linorder list \<Rightarrow> 'i irrep_set" where
  "irs_of js = foldl irs_insert irs_none js"

definition irs_unite :: "'i::linorder irrep_set \<Rightarrow> 'i irrep_set \<Rightarrow> 'i irrep_set" where
  "irs_unite s t = (if m_any t then irs_any else foldl irs_insert s (m_irreps t))"

definition irs_eq :: "'i irrep_set \<Rightarrow> 'i irrep_set \<Rightarrow> bool" where
  "irs_eq s t \<longleftrightarrow> m_any s = m_any t \<and> m_irreps s = m_irreps t"

text \<open>The three-way comparison: a set that is not "any" comes first, then lexicographically.\<close>

definition irs_less :: "'i::linorder irrep_set \<Rightarrow> 'i irrep_set \<Rightarrow> bool" where
  "irs_less s t \<longleftrightarrow> (if m_any s \<noteq> m_any t then \<not> m_any s else m_irreps s < m_irreps t)"

fun comma_list :: "string list \<Rightarrow> string" where
  "comma_list [] = []"
| "comma_list [x] = x"
| "comma_list (x # xs) = x @ '','' @ comma_list xs"

definition irs_to_string :: "('i \<Rightarrow> string) \<Rightarrow> 'i irrep_set \<Rightarrow> string" where
  "irs_to_string str s =
     (if m_any s then ''*'' else ''{'' @ comma_list (map str (m_irreps s)) @ ''}'')"

section \<open>Invariant and abstraction\<close>

text \<open>The list is strictly ascending, and the "any" state stores no IRREPs.\<close>

definition irs_ok :: "'i::linorder irrep_set \<Rightarrow> bool" where
  "irs_ok s \<longleftrightarrow> ssorted (m_irreps s) \<and> (m_any s \<longrightarrow> m_irreps s = [])"

text \<open>What a set denotes: \<open>None\<close> is a quantity of unknown symmetry.\<close>

definition irs_abs :: "'i irrep_set \<Rightarrow> 'i set option" where
  "irs_abs s = (if m_any s then None else Some (set (m_irreps s)))"

fun top_union :: "'i set option \<Rightarrow> 'i set option \<Rightarrow> 'i set option" where
  "top_union (Some A) (Some B) = Some (A \<union> B)"
| "top_union _ _ = None"

lemma irs_abs_eq_iff:
  assumes "irs_ok s" "irs_ok t"
  shows "irs_abs s = irs_abs t \<longleftrightarrow> s = t"
  using assms by (auto simp: irs_abs_def irs_ok_def split: if_splits
      intro!: irrep_set.equality intro: ssorted_unique)

lemma irs_abs_eqI: "irs_ok s \<Longrightarrow> irs_ok t \<Longrightarrow> irs_abs s = irs_abs t \<Longrightarrow> s = t"
  by (simp add: irs_abs_eq_iff)

lemma irs_insert_flat:
  "irs_insert s i = (if m_any s then s else s\<lparr>m_irreps := flat_insert (<) (m_irreps s) i\<rparr>)"
proof -
  let ?xs = "m_irreps s"
  have "(let it = lower_bound (<) ?xs i in if it = length ?xs \<or> ?xs ! it \<noteq> i
           then insert_at it i ?xs else ?xs) = flat_insert (<) ?xs i"
  proof -
    have le: "lower_bound (<) ?xs i \<le> length ?xs"
      by (simp add: lower_bound_def length_takeWhile_le)
    have ge: "lower_bound (<) ?xs i < length ?xs \<Longrightarrow> \<not> ?xs ! lower_bound (<) ?xs i < i"
      unfolding lower_bound_def by (metis nth_length_takeWhile)
    show ?thesis using le ge
      by (auto simp: flat_insert_def flat_find_def Let_def)
  qed
  then show ?thesis by (auto simp: irs_insert_def Let_def split: if_splits)
qed

lemma irs_none_ok [simp]: "irs_ok irs_none"
  and irs_any_ok [simp]: "irs_ok irs_any"
  by (simp_all add: irs_ok_def irs_none_def irs_any_def)

lemma irs_insert_ok [simp]: "irs_ok s \<Longrightarrow> irs_ok (irs_insert s i)"
  by (auto simp: irs_insert_flat irs_ok_def linorder_swo.sorted_flat_insert)

lemma irs_abs_insert: "irs_abs (irs_insert s i) = map_option (insert i) (irs_abs s)"
  by (simp add: irs_insert_flat irs_abs_def set_flat_insert_linorder)

lemma foldl_insert_ok: "irs_ok s \<Longrightarrow> irs_ok (foldl irs_insert s js)"
  by (rule foldl_invariant) simp_all

lemma irs_abs_foldl_insert:
  "irs_abs (foldl irs_insert s js) = map_option (\<lambda>A. A \<union> set js) (irs_abs s)"
proof (induction js arbitrary: s)
  case Nil
  then show ?case by (cases "irs_abs s") simp_all
next
  case (Cons i js)
  then show ?case by (cases "irs_abs s") (auto simp: irs_abs_insert)
qed

lemma irs_abs_any [simp]: "irs_abs irs_any = None"
  and irs_abs_none [simp]: "irs_abs irs_none = Some {}"
  by (simp_all add: irs_abs_def irs_any_def irs_none_def)

lemma irs_of_ok [simp]: "irs_ok (irs_of js)"
  by (simp add: irs_of_def foldl_insert_ok)

lemma irs_of_single: "m_irreps (irs_of [a]) = [a]" "\<not> m_any (irs_of [a])"
  by (simp_all add: irs_of_def irs_none_def irs_insert_def lower_bound_def insert_at_def)

lemma irs_abs_of [simp]: "irs_abs (irs_of js) = Some (set js)"
  by (simp add: irs_of_def irs_abs_foldl_insert)

lemma irs_unite_ok [simp]: "irs_ok s \<Longrightarrow> irs_ok (irs_unite s t)"
  by (simp add: irs_unite_def foldl_insert_ok)

lemma irs_abs_unite: "irs_abs (irs_unite s t) = top_union (irs_abs s) (irs_abs t)"
proof (cases "m_any t")
  case True
  then show ?thesis by (cases "irs_abs s") (simp_all add: irs_unite_def irs_abs_def irs_any_def)
next
  case False
  then show ?thesis
    by (cases "irs_abs s") (simp_all add: irs_unite_def irs_abs_foldl_insert,
        simp_all add: irs_abs_def)
qed

lemma irs_contains_abs:
  assumes "irs_ok s"
  shows "irs_contains s i \<longleftrightarrow> (case irs_abs s of None \<Rightarrow> True | Some A \<Rightarrow> i \<in> A)"
proof (cases "m_any s")
  case True
  then show ?thesis by (simp add: irs_contains_def irs_abs_def)
next
  case False
  let ?xs = "m_irreps s"
  have "irs_contains s i \<longleftrightarrow> flat_find (<) ?xs i \<noteq> None"
    using False by (simp add: irs_contains_def flat_find_def Let_def)
  also have "\<dots> \<longleftrightarrow> i \<in> set ?xs"
  proof
    assume "flat_find (<) ?xs i \<noteq> None"
    then obtain n where "flat_find (<) ?xs i = Some n" by blast
    from linorder_swo.flat_find_sound [OF this] show "i \<in> set ?xs"
      by (metis nth_mem not_less_iff_gr_or_eq)
  next
    assume "i \<in> set ?xs"
    with assms show "flat_find (<) ?xs i \<noteq> None"
      by (intro linorder_swo.flat_find_complete [of _ i]) (auto simp: irs_ok_def)
  qed
  finally show ?thesis using False by (simp add: irs_abs_def)
qed

lemma irs_empty_abs: "irs_empty s \<longleftrightarrow> irs_abs s = Some {}"
  by (auto simp: irs_empty_def irs_abs_def)

lemma irs_is_any_abs: "irs_is_any s \<longleftrightarrow> irs_abs s = None"
  by (simp add: irs_is_any_def irs_abs_def)

lemma irs_eq_abs: "irs_ok s \<Longrightarrow> irs_ok t \<Longrightarrow> irs_eq s t \<longleftrightarrow> irs_abs s = irs_abs t"
  by (auto simp: irs_eq_def irs_abs_eq_iff)

lemma irs_set_finite: "irs_abs s = Some A \<Longrightarrow> set (m_irreps s) = A"
  by (auto simp: irs_abs_def split: if_splits)

end
