(* ===== verification/IrrepAlgebra.thy ===== *)
theory IrrepAlgebra
  imports IrrepSets
begin

text \<open>
  The product and the conjugate of IRREP sets (SeQuant/core/irreps/algebra.hpp), and the contract
  of an IRREP algebra as a locale: what the concept \<open>IrrepAlgebra\<close> asks of \<open>totally_symmetric\<close>,
  \<open>product\<close> and \<open>conjugate\<close>, with the laws every provider keeps.  The product of two IRREPs may
  throw, so its result is a sum.
\<close>

section \<open>Products and conjugates of sets\<close>

fun unite_row :: "('i \<Rightarrow> 'i \<Rightarrow> ('e, 'i::linorder irrep_set) result) \<Rightarrow> 'i \<Rightarrow> 'i list
    \<Rightarrow> 'i irrep_set \<Rightarrow> ('e, 'i irrep_set) result" where
  "unite_row prd left [] res = Inr res"
| "unite_row prd left (right # rs) res =
     bind_res (prd left right) (\<lambda>s. unite_row prd left rs (irs_unite res s))"

fun unite_rows :: "('i \<Rightarrow> 'i \<Rightarrow> ('e, 'i::linorder irrep_set) result) \<Rightarrow> 'i list \<Rightarrow> 'i list
    \<Rightarrow> 'i irrep_set \<Rightarrow> ('e, 'i irrep_set) result" where
  "unite_rows prd [] rs res = Inr res"
| "unite_rows prd (left # ls) rs res =
     bind_res (unite_row prd left rs res) (unite_rows prd ls rs)"

definition irs_product :: "('i \<Rightarrow> 'i \<Rightarrow> ('e, 'i::linorder irrep_set) result)
    \<Rightarrow> 'i irrep_set \<Rightarrow> 'i irrep_set \<Rightarrow> ('e, 'i irrep_set) result" where
  "irs_product prd lhs rhs =
     (if irs_empty lhs \<or> irs_empty rhs then Inr irs_none
      else if irs_is_any lhs \<or> irs_is_any rhs then Inr irs_any
      else unite_rows prd (m_irreps lhs) (m_irreps rhs) irs_none)"

definition irs_conjugate :: "('i \<Rightarrow> 'i) \<Rightarrow> 'i::linorder irrep_set \<Rightarrow> 'i irrep_set" where
  "irs_conjugate cnj s =
     (if irs_is_any s then irs_any
      else foldl (\<lambda>res current. irs_insert res (cnj current)) irs_none (m_irreps s))"

text \<open>The IRREPs that the pairwise products of two collections contain.\<close>

definition pair_products :: "('i \<Rightarrow> 'i \<Rightarrow> ('e, 'i irrep_set) result) \<Rightarrow> 'i set \<Rightarrow> 'i set \<Rightarrow> 'i set" where
  "pair_products prd A B = {c. \<exists>a\<in>A. \<exists>b\<in>B. \<exists>s. prd a b = Inr s \<and> c \<in> set (m_irreps s)}"

lemma unite_row_ok:
  "unite_row prd l rs r = Inr t \<Longrightarrow> irs_ok r \<Longrightarrow> irs_ok t"
  by (induction rs arbitrary: r) (auto simp: bind_res_Inr)

lemma unite_rows_ok:
  "unite_rows prd ls rs r = Inr t \<Longrightarrow> irs_ok r \<Longrightarrow> irs_ok t"
  by (induction ls arbitrary: r) (auto simp: bind_res_Inr dest: unite_row_ok)

lemma unite_row_abs:
  "unite_row prd l rs r = Inr t \<Longrightarrow> irs_abs r = Some R \<Longrightarrow>
   (\<And>b s. b \<in> set rs \<Longrightarrow> prd l b = Inr s \<Longrightarrow> \<not> m_any s) \<Longrightarrow>
   irs_abs t = Some (R \<union> pair_products prd {l} (set rs))"
proof (induction rs arbitrary: r R)
  case Nil
  then show ?case by (simp add: pair_products_def)
next
  case (Cons b rs)
  then obtain s where s: "prd l b = Inr s" "unite_row prd l rs (irs_unite r s) = Inr t"
    by (auto simp: bind_res_Inr)
  have "irs_abs (irs_unite r s) = Some (R \<union> set (m_irreps s))"
  proof -
    have "irs_abs s = Some (set (m_irreps s))"
      using Cons.prems(3) [of b s] s(1) by (simp add: irs_abs_def)
    then show ?thesis using Cons.prems(2) by (simp add: irs_abs_unite)
  qed
  have "irs_abs t = Some ((R \<union> set (m_irreps s)) \<union> pair_products prd {l} (set rs))"
    using Cons.prems(3) by (intro Cons.IH [OF s(2) \<open>irs_abs (irs_unite r s) = _\<close>]) auto
  then show ?case using s(1) by (auto simp: pair_products_def)
qed

lemma unite_rows_abs:
  "unite_rows prd ls rs r = Inr t \<Longrightarrow> irs_abs r = Some R \<Longrightarrow>
   (\<And>a b s. a \<in> set ls \<Longrightarrow> b \<in> set rs \<Longrightarrow> prd a b = Inr s \<Longrightarrow> \<not> m_any s) \<Longrightarrow>
   irs_abs t = Some (R \<union> pair_products prd (set ls) (set rs))"
proof (induction ls arbitrary: r R)
  case Nil
  then show ?case by (simp add: pair_products_def)
next
  case (Cons a ls)
  then obtain u where u: "unite_row prd a rs r = Inr u" "unite_rows prd ls rs u = Inr t"
    by (auto simp: bind_res_Inr)
  have "irs_abs u = Some (R \<union> pair_products prd {a} (set rs))"
    using unite_row_abs [OF u(1)] Cons.prems by auto
  have "irs_abs t = Some ((R \<union> pair_products prd {a} (set rs)) \<union> pair_products prd (set ls) (set rs))"
    using Cons.prems(3) by (intro Cons.IH [OF u(2) \<open>irs_abs u = _\<close>]) auto
  then show ?case by (auto simp: pair_products_def)
qed

lemma unite_row_total:
  "(\<And>b. b \<in> set rs \<Longrightarrow> \<exists>s. prd l b = Inr s) \<Longrightarrow> \<exists>t. unite_row prd l rs r = Inr t"
proof (induction rs arbitrary: r)
  case Nil
  then show ?case by simp
next
  case (Cons b rs)
  then obtain s where "prd l b = Inr s" by auto
  with Cons show ?case by simp
qed

lemma unite_rows_total:
  "(\<And>a b. a \<in> set ls \<Longrightarrow> b \<in> set rs \<Longrightarrow> \<exists>s. prd a b = Inr s) \<Longrightarrow> \<exists>t. unite_rows prd ls rs r = Inr t"
proof (induction ls arbitrary: r)
  case Nil
  then show ?case by simp
next
  case (Cons a ls)
  then obtain u where "unite_row prd a rs r = Inr u"
    using unite_row_total [of rs prd a r] by auto
  with Cons show ?case by simp
qed

lemma unite_row_defined:
  "unite_row prd l rs r = Inr t \<Longrightarrow> b \<in> set rs \<Longrightarrow> \<exists>s. prd l b = Inr s"
  by (induction rs arbitrary: r) (auto simp: bind_res_Inr)

lemma unite_rows_defined:
  "unite_rows prd ls rs r = Inr t \<Longrightarrow> a \<in> set ls \<Longrightarrow> b \<in> set rs \<Longrightarrow> \<exists>s. prd a b = Inr s"
  by (induction ls arbitrary: r) (auto simp: bind_res_Inr dest: unite_row_defined)

lemma irs_product_ok: "irs_product prd A B = Inr S \<Longrightarrow> irs_ok S"
  by (auto simp: irs_product_def split: if_splits dest: unite_rows_ok)

text \<open>The product on what the sets denote: zero annihilates, then "any" absorbs.\<close>

fun top_product :: "('i set \<Rightarrow> 'i set \<Rightarrow> 'i set) \<Rightarrow> 'i set option \<Rightarrow> 'i set option \<Rightarrow> 'i set option" where
  "top_product f A B =
     (if A = Some {} \<or> B = Some {} then Some {}
      else case (A, B) of (Some X, Some Y) \<Rightarrow> Some (f X Y) | _ \<Rightarrow> None)"

lemma irs_product_abs:
  assumes "\<And>a b s. prd a b = Inr s \<Longrightarrow> \<not> m_any s" and "irs_product prd A B = Inr S"
  shows "irs_abs S = top_product (pair_products prd) (irs_abs A) (irs_abs B)"
proof (cases "irs_empty A \<or> irs_empty B \<or> irs_is_any A \<or> irs_is_any B")
  case True
  then show ?thesis using assms(2)
    by (auto simp: irs_product_def irs_empty_abs irs_is_any_abs split: if_splits option.splits)
next
  case False
  then have rows: "unite_rows prd (m_irreps A) (m_irreps B) irs_none = Inr S"
    using assms(2) by (auto simp: irs_product_def)
  have "irs_abs S = Some ({} \<union> pair_products prd (set (m_irreps A)) (set (m_irreps B)))"
    using assms(1) by (intro unite_rows_abs [OF rows]) auto
  then show ?thesis using False by (auto simp: irs_empty_def irs_is_any_def irs_abs_def)
qed

lemma irs_product_defined:
  assumes "irs_product prd A B = Inr S" "irs_abs A = Some X" "irs_abs B = Some Y" "a \<in> X" "b \<in> Y"
  shows "\<exists>s. prd a b = Inr s"
proof -
  have "unite_rows prd (m_irreps A) (m_irreps B) irs_none = Inr S"
    using assms by (auto simp: irs_product_def irs_empty_def irs_is_any_def irs_abs_def split: if_splits)
  then show ?thesis
    using assms irs_set_finite unite_rows_defined by metis
qed

lemma irs_product_total:
  assumes "\<And>X Y a b. irs_abs A = Some X \<Longrightarrow> irs_abs B = Some Y \<Longrightarrow> a \<in> X \<Longrightarrow> b \<in> Y \<Longrightarrow> \<exists>s. prd a b = Inr s"
  shows "\<exists>S. irs_product prd A B = Inr S"
proof (cases "m_any A \<or> m_any B")
  case True
  then show ?thesis by (auto simp: irs_product_def irs_is_any_def)
next
  case False
  then have "\<exists>t. unite_rows prd (m_irreps A) (m_irreps B) irs_none = Inr t"
    using assms by (intro unite_rows_total) (auto simp: irs_abs_def)
  then show ?thesis by (auto simp: irs_product_def)
qed

lemma irs_conjugate_map:
  "irs_conjugate cnj s =
     (if irs_is_any s then irs_any else foldl irs_insert irs_none (map cnj (m_irreps s)))"
  by (simp add: irs_conjugate_def foldl_map)

lemma irs_conjugate_ok [simp]: "irs_ok (irs_conjugate cnj s)"
  by (simp add: irs_conjugate_map foldl_insert_ok)

lemma irs_conjugate_abs: "irs_abs (irs_conjugate cnj s) = map_option (image cnj) (irs_abs s)"
proof (cases "m_any s")
  case True
  then show ?thesis by (simp add: irs_conjugate_map irs_is_any_def) (simp add: irs_abs_def)
next
  case False
  then show ?thesis
    by (simp add: irs_conjugate_map irs_is_any_def irs_abs_foldl_insert) (simp add: irs_abs_def)
qed

section \<open>The contract of an IRREP algebra\<close>

text \<open>
  \<open>valid g\<close>: the algebra object was constructed (its constructor did not throw).  \<open>elem g i\<close>: the
  IRREP is in the algebra's canonical form.
\<close>

locale irrep_algebra =
  fixes valid :: "'g \<Rightarrow> bool"
    and elem :: "'g \<Rightarrow> 'i::linorder \<Rightarrow> bool"
    and ts :: "'g \<Rightarrow> 'i"
    and prd :: "'g \<Rightarrow> 'i \<Rightarrow> 'i \<Rightarrow> ('e, 'i irrep_set) result"
    and cnj :: "'g \<Rightarrow> 'i \<Rightarrow> 'i"
  assumes ts_elem: "valid g \<Longrightarrow> elem g (ts g)"
    and prod_set: "valid g \<Longrightarrow> prd g a b = Inr s \<Longrightarrow> irs_ok s \<and> \<not> m_any s \<and> m_irreps s \<noteq> []"
    and prod_elem: "valid g \<Longrightarrow> elem g a \<Longrightarrow> elem g b \<Longrightarrow> prd g a b = Inr s \<Longrightarrow> c \<in> set (m_irreps s) \<Longrightarrow> elem g c"
    and prod_comm: "valid g \<Longrightarrow> elem g a \<Longrightarrow> elem g b \<Longrightarrow> prd g a b = Inr s \<Longrightarrow> prd g b a = Inr s"
    and prod_ts: "valid g \<Longrightarrow> elem g a \<Longrightarrow> prd g (ts g) a = Inr (irs_of [a])"
    and conj_elem: "valid g \<Longrightarrow> elem g a \<Longrightarrow> elem g (cnj g a)"
    and conj_ts: "valid g \<Longrightarrow> cnj g (ts g) = ts g"
    and conj_conj: "valid g \<Longrightarrow> elem g a \<Longrightarrow> cnj g (cnj g a) = a"
begin

definition elems :: "'g \<Rightarrow> 'i irrep_set \<Rightarrow> bool" where
  "elems g A \<longleftrightarrow> irs_ok A \<and> (\<forall>a \<in> set (m_irreps A). elem g a)"

lemma elemsD: "elems g A \<Longrightarrow> irs_abs A = Some X \<Longrightarrow> a \<in> X \<Longrightarrow> elem g a"
  using irs_set_finite by (auto simp: elems_def)

lemma product_abs:
  "valid g \<Longrightarrow> irs_product (prd g) A B = Inr S \<Longrightarrow>
   irs_abs S = top_product (pair_products (prd g)) (irs_abs A) (irs_abs B)"
  by (rule irs_product_abs) (use prod_set in blast)+

lemma pair_products_comm:
  assumes "valid g" "\<forall>a\<in>X. elem g a" "\<forall>b\<in>Y. elem g b"
  shows "pair_products (prd g) X Y = pair_products (prd g) Y X"
  using assms prod_comm unfolding pair_products_def by blast

lemma product_comm:
  assumes v: "valid g" and A: "elems g A" and B: "elems g B"
    and S: "irs_product (prd g) A B = Inr S"
  shows "irs_product (prd g) B A = Inr S"
proof -
  have "\<exists>T. irs_product (prd g) B A = Inr T"
  proof (rule irs_product_total)
    fix X Y a b assume XY: "irs_abs B = Some X" "irs_abs A = Some Y" "a \<in> X" "b \<in> Y"
    obtain s where "prd g b a = Inr s" using irs_product_defined [OF S XY(2,1,4,3)] by blast
    then show "\<exists>s. prd g a b = Inr s"
      using prod_comm [OF v elemsD [OF A XY(2,4)] elemsD [OF B XY(1,3)]] by blast
  qed
  then obtain T where T: "irs_product (prd g) B A = Inr T" by blast
  have "irs_abs T = irs_abs S"
    unfolding product_abs [OF v T] product_abs [OF v S]
    using pair_products_comm [OF v] elemsD [OF A] elemsD [OF B]
    by (cases "irs_abs A"; cases "irs_abs B") auto
  then have "T = S"
    using irs_product_ok [OF T] irs_product_ok [OF S] by (intro irs_abs_eqI)
  with T show ?thesis by simp
qed

lemma product_ts:
  assumes v: "valid g" and A: "elems g A"
  shows "irs_product (prd g) (irs_of [ts g]) A = Inr A"
proof -
  have "\<exists>S. irs_product (prd g) (irs_of [ts g]) A = Inr S"
    using prod_ts [OF v] elemsD [OF A] by (intro irs_product_total) auto
  then obtain S where S: "irs_product (prd g) (irs_of [ts g]) A = Inr S" by blast
  have pp: "pair_products (prd g) {ts g} X = X" if "irs_abs A = Some X" for X
  proof -
    have "set (m_irreps (irs_of [a])) = {a}" for a :: 'i
      by (rule irs_set_finite) simp
    then show ?thesis
      using prod_ts [OF v] elemsD [OF A that] by (auto simp: pair_products_def)
  qed
  have "irs_abs S = irs_abs A"
    unfolding product_abs [OF v S] using pp by (cases "irs_abs A") auto
  then have "S = A" using irs_product_ok [OF S] A by (intro irs_abs_eqI) (auto simp: elems_def)
  with S show ?thesis by simp
qed

lemma product_elems:
  assumes v: "valid g" and A: "elems g A" and B: "elems g B"
    and S: "irs_product (prd g) A B = Inr S"
  shows "elems g S"
proof -
  have "elem g c" if "irs_abs S = Some Z" "c \<in> Z" for Z c
    using that product_abs [OF v S] prod_elem [OF v] elemsD [OF A] elemsD [OF B]
    by (fastforce simp: pair_products_def split: if_splits option.splits)
  moreover have "irs_abs S = None \<Longrightarrow> m_irreps S = []"
    using irs_product_ok [OF S] by (auto simp: irs_abs_def irs_ok_def split: if_splits)
  ultimately show ?thesis
    using irs_product_ok [OF S] irs_set_finite by (cases "irs_abs S") (auto simp: elems_def)
qed

lemma conjugate_involution:
  assumes v: "valid g" and A: "elems g A"
  shows "irs_conjugate (cnj g) (irs_conjugate (cnj g) A) = A"
proof -
  have "irs_abs (irs_conjugate (cnj g) (irs_conjugate (cnj g) A)) = irs_abs A"
    using conj_conj [OF v] elemsD [OF A]
    by (cases "irs_abs A") (auto simp: irs_conjugate_abs image_image intro: rev_image_eqI)
  then show ?thesis using A by (intro irs_abs_eqI) (auto simp: elems_def)
qed

lemma conjugate_elems:
  assumes v: "valid g" and A: "elems g A"
  shows "elems g (irs_conjugate (cnj g) A)"
proof (cases "irs_abs A")
  case None
  then have "irs_conjugate (cnj g) A = irs_any"
    by (auto simp: irs_conjugate_def irs_is_any_abs)
  then show ?thesis by (simp add: elems_def) (simp add: irs_any_def)
next
  case (Some X)
  then have "set (m_irreps (irs_conjugate (cnj g) A)) = cnj g ` X"
    by (intro irs_set_finite) (simp add: irs_conjugate_abs)
  then show ?thesis using conj_elem [OF v] elemsD [OF A Some] by (auto simp: elems_def)
qed

end

text \<open>An algebra whose products are total, single IRREPs and associative: an abelian group.\<close>

locale irrep_group = irrep_algebra +
  fixes mul :: "'a \<Rightarrow> 'b \<Rightarrow> 'b \<Rightarrow> 'b"
  assumes prod_mul: "valid g \<Longrightarrow> elem g a \<Longrightarrow> elem g b \<Longrightarrow> prd g a b = Inr (irs_of [mul g a b])"
    and mul_assoc: "valid g \<Longrightarrow> elem g a \<Longrightarrow> elem g b \<Longrightarrow> elem g c \<Longrightarrow>
      mul g (mul g a b) c = mul g a (mul g b c)"
begin

lemma mul_elem: "valid g \<Longrightarrow> elem g a \<Longrightarrow> elem g b \<Longrightarrow> elem g (mul g a b)"
  using prod_elem [of g a b "irs_of [mul g a b]" "mul g a b"] prod_mul [of g a b]
    irs_set_finite [of "irs_of [mul g a b]" "{mul g a b}"] by simp

lemma product_total:
  assumes "valid g" "elems g A" "elems g B"
  shows "\<exists>S. irs_product (prd g) A B = Inr S"
  using prod_mul [OF assms(1)] elemsD [OF assms(2)] elemsD [OF assms(3)]
  by (intro irs_product_total) blast

lemma pair_products_mul:
  assumes "valid g" "\<forall>a\<in>X. elem g a" "\<forall>b\<in>Y. elem g b"
  shows "pair_products (prd g) X Y = {mul g a b |a b. a \<in> X \<and> b \<in> Y}"
proof -
  have "set (m_irreps (irs_of [c])) = {c}" for c :: 'b by (rule irs_set_finite) simp
  then show ?thesis using prod_mul [OF assms(1)] assms(2,3)
    by (fastforce simp: pair_products_def)
qed

end

end
