(* ===== verification/Z2Reduce.thy ===== *)
theory Z2Reduce
  imports Z2Irreps
begin

unbundle bit_operations_syntax

text \<open>
  The IRREPs of Z2Irreps form an elementary abelian group under multiplication; the relations of an
  algebra span a subgroup, and \<open>reduce\<close> returns the least element of an IRREP's coset.  The Gray
  code's walk over the coset is proved to visit all of it.  The algebra is an \<open>irrep_group\<close>.
\<close>

section \<open>Multiplication is the group operation\<close>

definition z2_ok :: "z2_irrep \<Rightarrow> bool" where
  "z2_ok z \<longleftrightarrow> ssorted (symbols z)"

lemma set_set_symmetric_difference:
  "ssorted xs \<Longrightarrow> ssorted ys \<Longrightarrow>
   set (set_symmetric_difference xs ys) = (set xs - set ys) \<union> (set ys - set xs)"
proof (induction xs ys rule: set_symmetric_difference.induct)
  case (3 x xs y ys)
  have x: "x \<notin> set xs" "\<forall>z \<in> set xs. x < z" and y: "y \<notin> set ys" "\<forall>z \<in> set ys. y < z"
    using "3.prems" by auto
  consider "x < y" | "y < x" | "x = y" by fastforce
  then show ?case
  proof cases
    case 1
    then have "x \<notin> set (y # ys)" using y by auto
    with 1 3 show ?thesis by auto
  next
    case 2
    then have "y \<notin> set (x # xs)" using x by auto
    with 2 3 show ?thesis by auto
  next
    case 3
    with "3.IH" "3.prems" x y show ?thesis by auto
  qed
qed auto

lemma ssorted_set_symmetric_difference:
  "ssorted xs \<Longrightarrow> ssorted ys \<Longrightarrow> ssorted (set_symmetric_difference xs ys)"
proof (induction xs ys rule: set_symmetric_difference.induct)
  case (3 x xs y ys)
  then show ?case by (auto simp: set_set_symmetric_difference)
qed auto

lemma z2_multiply_ok [simp]: "z2_ok a \<Longrightarrow> z2_ok b \<Longrightarrow> z2_ok (z2_multiply a b)"
  by (simp add: z2_ok_def z2_multiply_def ssorted_set_symmetric_difference)

lemma z2_ts_ok [simp]: "z2_ok z2_ts"
  by (simp add: z2_ok_def z2_ts_def)

lemma concrete_multiply [simp]: "concrete (z2_multiply a b) = concrete a XOR concrete b"
  by (simp add: z2_multiply_def)

lemma symbols_multiply:
  "z2_ok a \<Longrightarrow> z2_ok b \<Longrightarrow> set (symbols (z2_multiply a b)) =
     (set (symbols a) - set (symbols b)) \<union> (set (symbols b) - set (symbols a))"
  by (simp add: z2_multiply_def z2_ok_def set_set_symmetric_difference)

text \<open>An IRREP is determined by its concrete part and the set of its symbols.\<close>

lemma z2_eqI:
  "z2_ok a \<Longrightarrow> z2_ok b \<Longrightarrow> concrete a = concrete b \<Longrightarrow> set (symbols a) = set (symbols b) \<Longrightarrow> a = b"
  by (cases a; cases b) (auto simp: z2_ok_def intro: ssorted_unique)

lemma z2_multiply_commute: "z2_ok a \<Longrightarrow> z2_ok b \<Longrightarrow> z2_multiply a b = z2_multiply b a"
  by (rule z2_eqI) (auto simp: symbols_multiply xor.commute)

lemma z2_multiply_assoc:
  "z2_ok a \<Longrightarrow> z2_ok b \<Longrightarrow> z2_ok c \<Longrightarrow>
   z2_multiply (z2_multiply a b) c = z2_multiply a (z2_multiply b c)"
  by (rule z2_eqI) (auto simp: symbols_multiply xor.assoc)

lemma z2_multiply_ts [simp]: "z2_ok a \<Longrightarrow> z2_multiply a z2_ts = a"
  by (rule z2_eqI) (auto simp: symbols_multiply, auto simp: z2_ts_def)

lemma z2_ts_multiply [simp]: "z2_ok a \<Longrightarrow> z2_multiply z2_ts a = a"
  by (simp add: z2_multiply_commute [of z2_ts])

lemma z2_multiply_self [simp]: "z2_ok a \<Longrightarrow> z2_multiply a a = z2_ts"
  by (rule z2_eqI) (auto simp: symbols_multiply, auto simp: z2_ts_def)

lemma z2_multiply_cancel [simp]: "z2_ok a \<Longrightarrow> z2_ok b \<Longrightarrow> z2_multiply (z2_multiply a b) b = a"
  by (simp add: z2_multiply_assoc)

section \<open>The span of the relations\<close>

definition z2_span :: "z2_irrep list \<Rightarrow> z2_irrep set" where
  "z2_span rels = set (foldl (\<lambda>span r. span @ map (\<lambda>s. z2_multiply s r) span) [z2_ts] rels)"

lemma z2_span_Nil [simp]: "z2_span [] = {z2_ts}"
  by (simp add: z2_span_def)

lemma z2_span_snoc: "z2_span (rels @ [r]) = z2_span rels \<union> (\<lambda>s. z2_multiply s r) ` z2_span rels"
  by (simp add: z2_span_def)

definition rels_ok :: "z2_irrep list \<Rightarrow> bool" where
  "rels_ok rels \<longleftrightarrow> (\<forall>r \<in> set rels. z2_ok r)"

lemma rels_ok_snoc [simp]: "rels_ok (rels @ [r]) \<longleftrightarrow> rels_ok rels \<and> z2_ok r"
  by (auto simp: rels_ok_def)

lemma z2_span_ok: "rels_ok rels \<Longrightarrow> s \<in> z2_span rels \<Longrightarrow> z2_ok s"
  by (induction rels arbitrary: s rule: rev_induct) (auto simp: z2_span_snoc)

lemma z2_span_ts [simp]: "z2_ts \<in> z2_span rels"
  by (induction rels rule: rev_induct) (auto simp: z2_span_snoc)

lemma z2_span_multiply:
  "rels_ok rels \<Longrightarrow> s \<in> z2_span rels \<Longrightarrow> t \<in> z2_span rels \<Longrightarrow> z2_multiply s t \<in> z2_span rels"
proof (induction rels arbitrary: s t rule: rev_induct)
  case Nil
  then show ?case by simp
next
  case (snoc r rels)
  let ?P = "z2_span rels"
  have ok: "rels_ok rels" "z2_ok r" using snoc.prems(1) by simp_all
  note oks = z2_span_ok [OF ok(1)]
  have IH: "a \<in> ?P \<Longrightarrow> b \<in> ?P \<Longrightarrow> z2_multiply a b \<in> ?P" for a b
    by (rule snoc.IH [OF ok(1)])
  have mix: "z2_multiply (z2_multiply a r) b = z2_multiply (z2_multiply a b) r"
    if "a \<in> ?P" "b \<in> ?P" for a b
    using oks that ok(2) by (simp add: z2_multiply_assoc z2_multiply_commute [of r b])
  have mix2: "z2_multiply a (z2_multiply b r) = z2_multiply (z2_multiply a b) r"
    if "a \<in> ?P" "b \<in> ?P" for a b
    using oks that ok(2) by (simp add: z2_multiply_assoc)
  have mix3: "z2_multiply (z2_multiply a r) (z2_multiply b r) = z2_multiply a b"
    if "a \<in> ?P" "b \<in> ?P" for a b
    using mix [OF that(1) that(2)] oks that ok(2)
    by (simp add: z2_multiply_assoc [symmetric])
  show ?case
    using snoc.prems(2,3) IH mix mix2 mix3 by (auto simp: z2_span_snoc)
qed

definition coset :: "z2_irrep list \<Rightarrow> z2_irrep \<Rightarrow> z2_irrep set" where
  "coset rels x = z2_multiply x ` z2_span rels"

lemma coset_self: "z2_ok x \<Longrightarrow> x \<in> coset rels x"
  using z2_span_ts by (auto simp: coset_def intro!: image_eqI [of _ _ z2_ts])

lemma coset_ok: "rels_ok rels \<Longrightarrow> z2_ok x \<Longrightarrow> y \<in> coset rels x \<Longrightarrow> z2_ok y"
  by (auto simp: coset_def dest: z2_span_ok)

lemma coset_shift:
  assumes "rels_ok rels" "z2_ok x" "s \<in> z2_span rels"
  shows "coset rels (z2_multiply x s) = coset rels x"
proof -
  have sub: "coset rels (z2_multiply y t) \<subseteq> coset rels y" if "z2_ok y" "t \<in> z2_span rels" for y t
    using that z2_span_ok [OF assms(1)] z2_span_multiply [OF assms(1)]
    by (auto simp: coset_def z2_multiply_assoc)
  have "coset rels x = coset rels (z2_multiply (z2_multiply x s) s)"
    using assms z2_span_ok by simp
  also have "\<dots> \<subseteq> coset rels (z2_multiply x s)"
    using assms z2_span_ok by (intro sub) simp_all
  finally show ?thesis using sub [OF assms(2,3)] by blast
qed

lemma coset_eq:
  assumes "rels_ok rels" "z2_ok x" "y \<in> coset rels x"
  shows "coset rels y = coset rels x"
proof -
  obtain s where "s \<in> z2_span rels" "y = z2_multiply x s"
    using assms(3) by (auto simp: coset_def)
  with coset_shift [OF assms(1,2)] show ?thesis by simp
qed

section \<open>The Gray-code walk\<close>

lemma countr_zero_odd [simp]: "odd n \<Longrightarrow> countr_zero n = 0"
  by (cases "n = 0") (simp_all add: countr_zero.simps)

lemma countr_zero_double [simp]: "0 < n \<Longrightarrow> countr_zero (2 * n) = Suc (countr_zero n)"
  by (simp add: countr_zero.simps [of "2 * n"])

lemma countr_zero_pow2 [simp]: "countr_zero (2 ^ k) = k"
  by (induction k) simp_all

lemma countr_zero_less: "0 < n \<Longrightarrow> n < 2 ^ k \<Longrightarrow> countr_zero n < k"
proof (induction k arbitrary: n)
  case 0
  then show ?case by simp
next
  case (Suc k)
  show ?case
  proof (cases "odd n")
    case False
    then obtain m where m: "n = 2 * m" by blast
    with Suc show ?thesis by simp
  qed simp
qed

lemma countr_zero_add_pow2: "0 < n \<Longrightarrow> n < 2 ^ k \<Longrightarrow> countr_zero (2 ^ k + n) = countr_zero n"
proof (induction k arbitrary: n)
  case 0
  then show ?case by simp
next
  case (Suc k)
  show ?case
  proof (cases "odd n")
    case False
    then obtain m where m: "n = 2 * m" by blast
    have "2 ^ Suc k + n = 2 * (2 ^ k + m)" using m by simp
    then have "countr_zero (2 ^ Suc k + n) = Suc (countr_zero (2 ^ k + m))"
      by (metis countr_zero_double m Suc.prems(1) add_gr_0 nat_0_less_mult_iff)
    with Suc m show ?thesis by simp
  qed simp
qed

definition gray :: "z2_irrep list \<Rightarrow> z2_irrep \<Rightarrow> nat \<Rightarrow> z2_irrep" where
  "gray rels x n = foldl (\<lambda>c i. z2_multiply c (rels ! countr_zero i)) x [1..<Suc n]"

lemma gray_0 [simp]: "gray rels x 0 = x"
  by (simp add: gray_def)

lemma gray_Suc: "gray rels x (Suc n) = z2_multiply (gray rels x n) (rels ! countr_zero (Suc n))"
  by (simp add: gray_def)

lemma gray_second_half:
  "i < 2 ^ k \<Longrightarrow> gray rels x (2 ^ k + i) = gray rels (gray rels x (2 ^ k)) i"
  by (induction i) (simp_all add: gray_Suc countr_zero_add_pow2 [of "Suc _", simplified])

lemma gray_coset:
  "k \<le> length rels \<Longrightarrow> rels_ok rels \<Longrightarrow> z2_ok x \<Longrightarrow>
   gray rels x ` {..<2 ^ k} = coset (take k rels) x"
proof (induction k arbitrary: x)
  case 0
  then show ?case by (simp add: coset_def lessThan_Suc)
next
  case (Suc k)
  let ?r = "rels ! k"
  let ?R = "take k rels"
  have kl: "k < length rels" using Suc.prems(1) by simp
  have tk: "take (Suc k) rels = ?R @ [?r]" using kl by (simp add: take_Suc_conv_app_nth)
  have ok: "rels_ok ?R" "z2_ok ?r"
    using Suc.prems(2) kl by (auto simp: rels_ok_def dest: in_set_takeD)
  have IH: "gray rels y ` {..<2 ^ k} = coset ?R y" if "z2_ok y" for y
    using Suc.IH [of y] Suc.prems that by simp
  let ?c = "gray rels x (2 ^ k - 1)"
  have c: "?c \<in> coset ?R x"
    unfolding IH [OF Suc.prems(3), symmetric] by (intro imageI) simp
  have okc: "z2_ok ?c" using coset_ok [OF ok(1) Suc.prems(3) c] .
  have y: "gray rels x (2 ^ k) = z2_multiply ?c ?r"
    using gray_Suc [of rels x "2 ^ k - 1"] by simp
  have split: "{..<2 ^ Suc k} = {..<2 ^ k} \<union> (\<lambda>i. 2 ^ k + i) ` {..<2 ^ k :: nat}"
    by (auto simp: image_iff) (metis add_diff_inverse_nat mult_2 nat_add_left_cancel_less lessThan_iff)
  have "gray rels x ` (\<lambda>i. 2 ^ k + i) ` {..<2 ^ k} = gray rels (gray rels x (2 ^ k)) ` {..<2 ^ k}"
    by (auto simp: image_image gray_second_half intro!: image_cong)
  also have "\<dots> = coset ?R (z2_multiply ?c ?r)"
    using y okc ok(2) IH by simp
  also have "\<dots> = (\<lambda>s. z2_multiply s ?r) ` coset ?R ?c"
  proof -
    have "z2_multiply (z2_multiply ?c ?r) s = z2_multiply (z2_multiply ?c s) ?r" if "s \<in> z2_span ?R" for s
      using z2_span_ok [OF ok(1) that] okc ok(2)
      by (simp add: z2_multiply_assoc z2_multiply_commute [of ?r])
    then show ?thesis by (simp add: coset_def image_image)
  qed
  also have "coset ?R ?c = coset ?R x"
    by (rule coset_eq [OF ok(1) Suc.prems(3) c])
  finally have second: "gray rels x ` (\<lambda>i. 2 ^ k + i) ` {..<2 ^ k} = (\<lambda>s. z2_multiply s ?r) ` coset ?R x" .
  have "coset (take (Suc k) rels) x = coset ?R x \<union> (\<lambda>s. z2_multiply s ?r) ` coset ?R x"
    using z2_span_ok [OF ok(1)] Suc.prems(3) ok(2)
    unfolding tk coset_def z2_span_snoc
    by (auto simp: image_Un image_image z2_multiply_assoc)
  then show ?case unfolding split image_Un second IH [OF Suc.prems(3)] by simp
qed
section \<open>Reduction to the canonical representation\<close>

definition z2_key :: "z2_irrep \<Rightarrow> nat \<times> z2_irrep" where
  "z2_key z = (length (symbols z), z)"

lemma z2_better_key: "z2_better c b \<longleftrightarrow> z2_key c < z2_key b"
  by (auto simp: z2_better_def z2_key_def less_prod_def)

lemma z2_key_inj: "z2_key a = z2_key b \<Longrightarrow> a = b"
  by (simp add: z2_key_def)

lemma reduce_walk:
  "\<exists>b. foldl (reduce_step rels) (x, x) [1..<Suc n] = (b, gray rels x n)
     \<and> b \<in> gray rels x ` {..n} \<and> (\<forall>i\<le>n. z2_key b \<le> z2_key (gray rels x i))"
proof (induction n)
  case 0
  then show ?case by simp
next
  case (Suc n)
  then obtain b where b: "foldl (reduce_step rels) (x, x) [1..<Suc n] = (b, gray rels x n)"
    "b \<in> gray rels x ` {..n}" "\<And>i. i \<le> n \<Longrightarrow> z2_key b \<le> z2_key (gray rels x i)" by blast
  let ?c = "gray rels x (Suc n)"
  let ?b = "if z2_better ?c b then ?c else b"
  have "foldl (reduce_step rels) (x, x) [1..<Suc (Suc n)] = (?b, ?c)"
    using b(1) by (simp add: reduce_step_def gray_Suc Let_def)
  moreover have "?b \<in> gray rels x ` {..Suc n}" using b(2) by auto
  moreover have "z2_key ?b \<le> z2_key (gray rels x i)" if "i \<le> Suc n" for i
  proof (cases "i = Suc n")
    case True
    then show ?thesis by (auto simp: z2_better_key not_less)
  next
    case False
    then have "z2_key b \<le> z2_key (gray rels x i)" using that b(3) by simp
    then show ?thesis by (auto simp: z2_better_key intro: order.trans less_imp_le)
  qed
  ultimately show ?case by blast
qed

lemma z2_reduce_least:
  assumes "rels_ok rels" "z2_ok x"
  shows "z2_reduce rels x \<in> coset rels x"
    and "c \<in> coset rels x \<Longrightarrow> z2_key (z2_reduce rels x) \<le> z2_key c"
proof -
  let ?m = "2 ^ length rels - Suc 0"
  have m: "2 ^ length rels = Suc ?m" by simp
  obtain b where b: "foldl (reduce_step rels) (x, x) [1..<Suc ?m] = (b, gray rels x ?m)"
    "b \<in> gray rels x ` {..?m}" "\<And>i. i \<le> ?m \<Longrightarrow> z2_key b \<le> z2_key (gray rels x i)"
    using reduce_walk [of rels x ?m] by blast
  have r: "z2_reduce rels x = b" using b(1) unfolding m [symmetric] by (simp add: z2_reduce_def)
  have "{..?m} = {..<2 ^ length rels}" using m by (metis lessThan_Suc_atMost)
  with gray_coset [of "length rels" rels x] assms
  have img: "gray rels x ` {..?m} = coset rels x" by simp
  show "z2_reduce rels x \<in> coset rels x" using r b(2) img by simp
  show "c \<in> coset rels x \<Longrightarrow> z2_key (z2_reduce rels x) \<le> z2_key c"
    using r b(3) img by force
qed

lemma z2_reduce_ok: "rels_ok rels \<Longrightarrow> z2_ok x \<Longrightarrow> z2_ok (z2_reduce rels x)"
  using coset_ok z2_reduce_least(1) by blast

lemma z2_reduce_canonical:
  assumes "rels_ok rels" "z2_ok x" "z2_ok y"
  shows "z2_reduce rels x = z2_reduce rels y \<longleftrightarrow> coset rels x = coset rels y"
proof
  assume "z2_reduce rels x = z2_reduce rels y"
  then show "coset rels x = coset rels y"
    using coset_eq [OF assms(1)] z2_reduce_least(1) [OF assms(1)] assms(2,3) by metis
next
  assume "coset rels x = coset rels y"
  then show "z2_reduce rels x = z2_reduce rels y"
    using z2_reduce_least [OF assms(1,2)] z2_reduce_least [OF assms(1,3)]
    by (intro z2_key_inj antisym) simp_all
qed

lemma coset_reduce: "rels_ok rels \<Longrightarrow> z2_ok x \<Longrightarrow> coset rels (z2_reduce rels x) = coset rels x"
  by (rule coset_eq) (simp_all add: z2_reduce_least)

lemma z2_reduce_idem: "rels_ok rels \<Longrightarrow> z2_ok x \<Longrightarrow> z2_reduce rels (z2_reduce rels x) = z2_reduce rels x"
  by (simp add: z2_reduce_canonical z2_reduce_ok coset_reduce)

lemma coset_multiply_cong:
  assumes "rels_ok rels" "z2_ok x" "z2_ok y" "z2_ok z" "coset rels x = coset rels y"
  shows "coset rels (z2_multiply x z) = coset rels (z2_multiply y z)"
proof -
  have "y \<in> coset rels x" using assms(3,5) coset_self by blast
  then obtain s where s: "s \<in> z2_span rels" "y = z2_multiply x s" by (auto simp: coset_def)
  have "z2_multiply y z = z2_multiply (z2_multiply x z) s"
    using s z2_span_ok [OF assms(1) s(1)] assms(2,4)
    by (simp add: z2_multiply_assoc z2_multiply_commute [of z s])
  then show ?thesis using coset_shift [OF assms(1) _ s(1)] assms(2,4) by simp
qed

lemma z2_reduce_multiply:
  assumes "rels_ok rels" "z2_ok x" "z2_ok y"
  shows "z2_reduce rels (z2_multiply (z2_reduce rels x) y) = z2_reduce rels (z2_multiply x y)"
proof -
  have "coset rels (z2_multiply (z2_reduce rels x) y) = coset rels (z2_multiply x y)"
    by (rule coset_multiply_cong) (simp_all add: assms z2_reduce_ok coset_reduce)
  then show ?thesis using assms by (simp add: z2_reduce_canonical z2_reduce_ok)
qed

lemma z2_reduce_ts:
  assumes "rels_ok rels" "\<forall>z \<in> z2_span rels. symbols z = [] \<longrightarrow> concrete z = 0"
  shows "z2_reduce rels z2_ts = z2_ts"
proof -
  let ?r = "z2_reduce rels z2_ts"
  have "?r \<in> coset rels z2_ts" using assms(1) by (simp add: z2_reduce_least)
  then have sp: "?r \<in> z2_span rels" using z2_span_ok [OF assms(1)] by (auto simp: coset_def)
  have "z2_key ?r \<le> z2_key z2_ts"
    using assms(1) by (simp add: z2_reduce_least coset_self)
  then have "symbols ?r = []" by (auto simp: z2_key_def z2_ts_def less_eq_prod_def)
  with sp assms(2) show ?thesis by (cases ?r) (auto simp: z2_ts_def)
qed

section \<open>The constructor of the algebra\<close>

lemma add_relations_sound:
  "add_relations rels span ids = Inr (rels', span') \<Longrightarrow> set span = z2_span rels \<Longrightarrow> rels_ok rels \<Longrightarrow>
   (\<And>l r. (l, r) \<in> set ids \<Longrightarrow> z2_ok l \<and> z2_ok r) \<Longrightarrow> length rels \<le> max_relations \<Longrightarrow>
   rels_ok rels' \<and> set span' = z2_span rels' \<and> length rels' \<le> max_relations
     \<and> z2_span rels \<subseteq> z2_span rels'
     \<and> (\<forall>(l, r) \<in> set ids. z2_multiply l r \<in> z2_span rels')"
proof (induction rels span ids rule: add_relations.induct)
  case (1 rels span)
  then show ?case by simp
next
  case (2 rels span l r ids)
  let ?rel = "z2_multiply l r"
  have rel_ok: "z2_ok ?rel" using "2.prems"(4) [of l r] by simp
  show ?case
  proof (cases "?rel \<in> set span")
    case True
    with "2.IH"(1) [OF refl True] "2.prems" show ?thesis by auto
  next
    case False
    then have room: "\<not> max_relations \<le> length rels"
      and step: "add_relations (rels @ [?rel]) (span @ map (\<lambda>s. z2_multiply s ?rel) span) ids
        = Inr (rels', span')"
      using "2.prems"(1) by (auto simp: Let_def split: if_splits)
    have "rels_ok rels' \<and> set span' = z2_span rels' \<and> length rels' \<le> max_relations
        \<and> z2_span (rels @ [?rel]) \<subseteq> z2_span rels'
        \<and> (\<forall>(l, r) \<in> set ids. z2_multiply l r \<in> z2_span rels')"
      using "2.prems"(2-5) rel_ok room
      by (intro "2.IH"(2) [OF refl False room step]) (auto simp: z2_span_snoc)
    moreover have "?rel \<in> z2_span (rels @ [?rel])"
    proof -
      have "z2_multiply z2_ts ?rel \<in> (\<lambda>s. z2_multiply s ?rel) ` z2_span rels" by (intro imageI z2_span_ts)
      then show ?thesis using rel_ok by (simp add: z2_span_snoc)
    qed
    ultimately show ?thesis by (auto simp: z2_span_snoc)
  qed
qed

text \<open>What the constructor guarantees of the relations it stores.\<close>

definition z2_consistent :: "z2_irrep list \<Rightarrow> bool" where
  "z2_consistent rels \<longleftrightarrow> rels_ok rels \<and> (\<forall>z \<in> z2_span rels. symbols z = [] \<longrightarrow> concrete z = 0)"

lemma mk_z2_algebra_sound:
  assumes "mk_z2_algebra ids = Inr rels" "\<And>l r. (l, r) \<in> set ids \<Longrightarrow> z2_ok l \<and> z2_ok r"
  shows "z2_consistent rels" "length rels \<le> max_relations"
    "(l, r) \<in> set ids \<Longrightarrow> z2_multiply l r \<in> z2_span rels"
proof -
  obtain span where s: "add_relations [] [z2_ts] ids = Inr (rels, span)"
    "\<forall>c \<in> set span. symbols c = [] \<longrightarrow> concrete c = 0"
    using assms(1) by (auto simp: mk_z2_algebra_def bind_res_Inr split: if_splits)
  have "rels_ok rels \<and> set span = z2_span rels \<and> length rels \<le> max_relations
     \<and> z2_span [] \<subseteq> z2_span rels \<and> (\<forall>(l, r) \<in> set ids. z2_multiply l r \<in> z2_span rels)"
    using assms(2) by (intro add_relations_sound [OF s(1)]) (auto simp: rels_ok_def)
  with s(2) show "z2_consistent rels" "length rels \<le> max_relations"
    "(l, r) \<in> set ids \<Longrightarrow> z2_multiply l r \<in> z2_span rels"
    by (auto simp: z2_consistent_def)
qed

lemma relation_identifies:
  assumes "rels_ok rels" "z2_ok l" "z2_ok r" "z2_multiply l r \<in> z2_span rels"
  shows "z2_reduce rels l = z2_reduce rels r"
proof -
  have "z2_multiply l (z2_multiply l r) = r"
    using assms(2,3) by (simp add: z2_multiply_assoc [symmetric])
  then have "r \<in> coset rels l"
    using imageI [OF assms(4), of "z2_multiply l"] by (simp add: coset_def)
  from coset_eq [OF assms(1,2) this] show ?thesis
    using assms(1-3) by (simp add: z2_reduce_canonical)
qed

lemma concrete_separated:
  assumes "z2_consistent rels" "z2_reduce rels (Z2Irrep a []) = z2_reduce rels (Z2Irrep b [])"
  shows "a = b"
proof -
  have ok: "z2_ok (Z2Irrep a [])" "z2_ok (Z2Irrep b [])" by (simp_all add: z2_ok_def)
  have r: "rels_ok rels" using assms(1) by (simp add: z2_consistent_def)
  have "Z2Irrep b [] \<in> coset rels (Z2Irrep a [])"
    using assms(2) z2_reduce_canonical [OF r ok] coset_self [OF ok(2)] by blast
  then obtain s where s: "s \<in> z2_span rels" "Z2Irrep b [] = z2_multiply (Z2Irrep a []) s"
    by (auto simp: coset_def)
  then have "symbols s = []" by (auto simp: z2_multiply_def)
  with assms(1) s(1) have "concrete s = 0" by (auto simp: z2_consistent_def)
  with s(2) show ?thesis by (auto simp: z2_multiply_def)
qed
section \<open>The algebra keeps its contract\<close>

definition z2_elem :: "z2_irrep list \<Rightarrow> z2_irrep \<Rightarrow> bool" where
  "z2_elem rels z \<longleftrightarrow> z2_ok z \<and> z2_reduce rels z = z"

definition z2_mul :: "z2_irrep list \<Rightarrow> z2_irrep \<Rightarrow> z2_irrep \<Rightarrow> z2_irrep" where
  "z2_mul rels a b = z2_reduce rels (z2_multiply a b)"

lemma z2_consistent_ok: "z2_consistent rels \<Longrightarrow> rels_ok rels"
  by (simp add: z2_consistent_def)

lemma z2_mul_elem: "z2_consistent rels \<Longrightarrow> z2_elem rels a \<Longrightarrow> z2_elem rels b \<Longrightarrow> z2_elem rels (z2_mul rels a b)"
  by (simp add: z2_elem_def z2_mul_def z2_reduce_ok z2_reduce_idem z2_consistent_ok)

lemma z2_mul_assoc:
  assumes "z2_consistent rels" "z2_elem rels a" "z2_elem rels b" "z2_elem rels c"
  shows "z2_mul rels (z2_mul rels a b) c = z2_mul rels a (z2_mul rels b c)"
proof -
  note r = z2_consistent_ok [OF assms(1)]
  have ok: "z2_ok a" "z2_ok b" "z2_ok c" using assms(2-4) by (simp_all add: z2_elem_def)
  have "z2_mul rels a (z2_mul rels b c) = z2_reduce rels (z2_multiply (z2_reduce rels (z2_multiply b c)) a)"
    using ok r by (simp add: z2_mul_def z2_multiply_commute z2_reduce_ok)
  also have "\<dots> = z2_reduce rels (z2_multiply (z2_multiply b c) a)"
    using ok r by (simp add: z2_reduce_multiply)
  also have "z2_multiply (z2_multiply b c) a = z2_multiply (z2_multiply a b) c"
    using ok by (simp add: z2_multiply_commute [of _ a] z2_multiply_assoc)
  finally show ?thesis using ok r by (simp add: z2_mul_def z2_reduce_multiply)
qed

interpretation z2: irrep_group z2_consistent z2_elem "\<lambda>_. z2_ts" z2_product
  "\<lambda>_. z2_conjugate" z2_mul
proof (unfold_locales, goal_cases)
  case (1 g)
  then show ?case by (simp add: z2_elem_def z2_reduce_ts z2_consistent_def)
next
  case (2 g a b s)
  then show ?case by (auto simp: z2_product_def irs_of_single)
next
  case (3 g a b s c)
  then show ?case
    using z2_mul_elem [of g a b] by (auto simp: z2_product_def irs_of_single z2_mul_def)
next
  case (4 g a b s)
  then show ?case by (simp add: z2_product_def z2_elem_def z2_multiply_commute)
next
  case (5 g a)
  then show ?case by (simp add: z2_product_def z2_elem_def)
qed (simp_all add: z2_conjugate_def z2_product_def z2_mul_def [symmetric] z2_mul_assoc)

section \<open>Properties\<close>

text \<open>
  C9: for every algebra the constructor accepts, \<open>reduce\<close> returns one representation per class of
  IRREPs the relations identify, idempotently, and it is the one with the fewest symbols, ties
  broken by the ordering of IRREPs.
\<close>

theorem z2_reduce_is_canonical_form:
  assumes "mk_z2_algebra ids = Inr rels" and "\<forall>(l, r) \<in> set ids. z2_ok l \<and> z2_ok r"
    and "z2_ok x" and "z2_ok y"
  shows "(z2_reduce rels x = z2_reduce rels y \<longleftrightarrow> (\<exists>s \<in> z2_span rels. y = z2_multiply x s))
    \<and> z2_reduce rels (z2_reduce rels x) = z2_reduce rels x
    \<and> (\<forall>s \<in> z2_span rels. \<not> z2_better (z2_multiply x s) (z2_reduce rels x))"
proof (intro conjI)
  have r: "rels_ok rels"
    using mk_z2_algebra_sound(1) [OF assms(1)] assms(2) by (auto simp: z2_consistent_def)
  have "y \<in> coset rels x \<longleftrightarrow> coset rels x = coset rels y"
    using coset_eq [OF r assms(3)] coset_self [OF assms(4)] by metis
  then show "z2_reduce rels x = z2_reduce rels y \<longleftrightarrow> (\<exists>s \<in> z2_span rels. y = z2_multiply x s)"
    unfolding z2_reduce_canonical [OF r assms(3,4)] by (simp add: coset_def image_iff)
  show "z2_reduce rels (z2_reduce rels x) = z2_reduce rels x"
    by (rule z2_reduce_idem [OF r assms(3)])
  show "\<forall>s \<in> z2_span rels. \<not> z2_better (z2_multiply x s) (z2_reduce rels x)"
    using z2_reduce_least(2) [OF r assms(3)] by (simp add: z2_better_key not_less coset_def)
qed

text \<open>The relation My1*My2 = My3 of the class documentation.\<close>

definition example_ids :: "(z2_irrep \<times> z2_irrep) list" where
  "example_ids = [(Z2Irrep 0 [''My1'', ''My2''], Z2Irrep 0 [''My3''])]"

lemma example_algebra: "mk_z2_algebra example_ids = Inr [Z2Irrep 0 [''My1'', ''My2'', ''My3'']]"
  by code_simp

lemma example_ids_ok: "\<forall>(l, r) \<in> set example_ids. z2_ok l \<and> z2_ok r"
  by code_simp

theorem z2_reduce_is_canonical_form_witness:
  "z2_reduce [Z2Irrep 0 [''My1'', ''My2'', ''My3'']] (Z2Irrep 1 [''My1'', ''My2'']) = Z2Irrep 1 [''My3'']
   \<and> (z2_reduce [Z2Irrep 0 [''My1'', ''My2'', ''My3'']] (Z2Irrep 1 [''My1'', ''My2''])
      = z2_reduce [Z2Irrep 0 [''My1'', ''My2'', ''My3'']] (Z2Irrep 1 [''My3'']))"
proof -
  have ok: "z2_ok (Z2Irrep 1 [''My1'', ''My2''])" "z2_ok (Z2Irrep 1 [''My3''])" by code_simp+
  have "z2_reduce [Z2Irrep 0 [''My1'', ''My2'', ''My3'']] (Z2Irrep 1 [''My1'', ''My2'']) = Z2Irrep 1 [''My3'']"
    by code_simp
  with z2_reduce_is_canonical_form [OF example_algebra example_ids_ok ok(1) ok(2)]
  show ?thesis by metis
qed

text \<open>
  C10: the constructor of the algebra stores at most sixteen relations, and under the algebra it
  returns the two sides of every given identity have one representation while two different
  concrete IRREPs never do.
\<close>

theorem z2_algebra_respects_identities:
  assumes "mk_z2_algebra ids = Inr rels" and "\<forall>(l, r) \<in> set ids. z2_ok l \<and> z2_ok r"
  shows "length rels \<le> max_relations
    \<and> (\<forall>(l, r) \<in> set ids. z2_reduce rels l = z2_reduce rels r)
    \<and> (\<forall>a b. z2_reduce rels (Z2Irrep a []) = z2_reduce rels (Z2Irrep b []) \<longrightarrow> a = b)"
proof -
  have ids: "\<And>l r. (l, r) \<in> set ids \<Longrightarrow> z2_ok l \<and> z2_ok r" using assms(2) by blast
  note s = mk_z2_algebra_sound [OF assms(1) ids]
  have "z2_reduce rels l = z2_reduce rels r" if "(l, r) \<in> set ids" for l r
    using relation_identifies [of rels l r] s(1) s(3) [OF _ that] ids [OF that]
    by (simp add: z2_consistent_def)
  then show ?thesis using s(1,2) concrete_separated by blast
qed

theorem z2_algebra_respects_identities_witness:
  "z2_reduce [Z2Irrep 0 [''My1'', ''My2'', ''My3'']] (Z2Irrep 0 [''My1'', ''My2''])
     = z2_reduce [Z2Irrep 0 [''My1'', ''My2'', ''My3'']] (Z2Irrep 0 [''My3''])"
  using z2_algebra_respects_identities [OF example_algebra example_ids_ok]
  by (simp add: example_ids_def)

text \<open>
  over an algebra the constructor accepts, the product of two sets of reduced IRREPs never
  throws, does not depend on the order of its factors, stays in reduced form, and has the set of
  the totally symmetric IRREP as its unit.
\<close>

theorem z2_set_product_laws:
  assumes "mk_z2_algebra ids = Inr rels" and "\<forall>(l, r) \<in> set ids. z2_ok l \<and> z2_ok r"
    and "irs_ok A" and "\<forall>a \<in> set (m_irreps A). z2_elem rels a"
    and "irs_ok B" and "\<forall>b \<in> set (m_irreps B). z2_elem rels b"
  shows "\<exists>S. irs_product (z2_product rels) A B = Inr S \<and> irs_product (z2_product rels) B A = Inr S
    \<and> irs_ok S \<and> (\<forall>c \<in> set (m_irreps S). z2_elem rels c)
    \<and> irs_product (z2_product rels) (irs_of [z2_ts]) S = Inr S"
proof -
  have v: "z2_consistent rels" using assms(2) by (intro mk_z2_algebra_sound(1) [OF assms(1)]) blast
  have A: "z2.elems rels A" and B: "z2.elems rels B"
    using assms(3-6) by (simp_all add: z2.elems_def)
  obtain S where S: "irs_product (z2_product rels) A B = Inr S"
    using z2.product_total [OF v A B] by blast
  have E: "z2.elems rels S" by (rule z2.product_elems [OF v A B S])
  show ?thesis
    using E by (intro exI [of _ S] conjI S z2.product_comm [OF v A B S] z2.product_ts [OF v E])
      (simp_all add: z2.elems_def)
qed

theorem z2_set_product_laws_witness:
  "\<exists>S. irs_product (z2_product [Z2Irrep 0 [''My1'', ''My2'', ''My3'']])
      (irs_of [Z2Irrep 1 []]) (irs_of [Z2Irrep 0 [''My3'']]) = Inr S"
proof -
  have a: "\<forall>a \<in> set (m_irreps (irs_of [Z2Irrep 1 []])). z2_elem [Z2Irrep 0 [''My1'', ''My2'', ''My3'']] a"
    by code_simp
  have b: "\<forall>b \<in> set (m_irreps (irs_of [Z2Irrep 0 [''My3'']])). z2_elem [Z2Irrep 0 [''My1'', ''My2'', ''My3'']] b"
    by code_simp
  from z2_set_product_laws [OF example_algebra example_ids_ok irs_of_ok a irs_of_ok b]
  show ?thesis by (elim exE conjE) (rule exI)
qed

end
