(* ===== verification/Z2Names.thy ===== *)
theory Z2Names
  imports Z2Reduce
begin

unbundle bit_operations_syntax

text \<open>
  The constructor of an IRREP, which cancels pairs of symbols, and the names of IRREPs: a name made
  by the formatter is read back by \<open>make_irrep\<close> as the same IRREP.
\<close>

section \<open>Names and IRREPs\<close>

text \<open>What the constructor of an IRREP guarantees.\<close>

definition z2_wf :: "group \<Rightarrow> z2_irrep \<Rightarrow> bool" where
  "z2_wf names z \<longleftrightarrow> unat (concrete z) < length names \<and> z2_ok z
     \<and> (\<forall>s \<in> set (symbols z). \<not> invalid_symbol names s)"

lemma cancel_symbols_sound:
  "cancel_symbols names acc ss = Inr m \<Longrightarrow> sorted ss \<Longrightarrow> ssorted acc \<Longrightarrow>
   (\<And>x y. x \<in> set acc \<Longrightarrow> y \<in> set ss \<Longrightarrow> x \<le> y) \<Longrightarrow>
   ssorted m \<and> (\<forall>s. s \<in> set m \<longleftrightarrow> odd (count (mset (acc @ ss)) s))
     \<and> (\<forall>s \<in> set ss. \<not> invalid_symbol names s)"
proof (induction names acc ss rule: cancel_symbols.induct)
  case (1 names acc)
  then have "distinct acc" by (simp add: ssorted_distinct)
  with 1 show ?case by (auto simp: distinct_count_atmost_1)
next
  case (2 names acc s ss)
  have inv: "\<not> invalid_symbol names s" using "2.prems"(1) by (auto split: if_splits)
  show ?case
  proof (cases "acc \<noteq> [] \<and> last acc = s")
    case True
    then have acc: "acc = butlast acc @ [s]" by (metis append_butlast_last_id)
    then have srt: "ssorted (butlast acc)" "\<And>x. x \<in> set (butlast acc) \<Longrightarrow> x < s"
      using "2.prems"(3) by (metis sorted_wrt_append, metis sorted_wrt_append list.set_intros(1))
    have "ssorted m \<and> (\<forall>t. t \<in> set m \<longleftrightarrow> odd (count (mset (butlast acc @ ss)) t))
        \<and> (\<forall>s \<in> set ss. \<not> invalid_symbol names s)"
      using "2.prems" inv True srt(1)
      by (intro "2.IH"(1)) (auto dest: in_set_butlastD)
    moreover have "count (mset (acc @ s # ss)) t
        = count (mset (butlast acc @ ss)) t + (if t = s then 2 else 0)" for t
      by (subst acc) simp
    ultimately show ?thesis using inv by auto
  next
    case False
    have lt: "x < s" if "x \<in> set acc" for x
    proof -
      have "acc = butlast acc @ [last acc]" using that by (cases acc rule: rev_cases) auto
      then have "x \<le> last acc"
        using that "2.prems"(3) by (metis UnE order.refl less_imp_le list.set_intros(1) set_append
            set_ConsD sorted_wrt_append empty_iff list.set(1))
      moreover have "last acc \<noteq> s" using False that by auto
      moreover have "last acc \<le> s" using "2.prems"(4) that by (metis last_in_set list.set_intros(1) empty_iff list.set(1))
      ultimately show ?thesis by simp
    qed
    have "ssorted m \<and> (\<forall>t. t \<in> set m \<longleftrightarrow> odd (count (mset ((acc @ [s]) @ ss)) t))
        \<and> (\<forall>s \<in> set ss. \<not> invalid_symbol names s)"
      using "2.prems" inv False lt by (intro "2.IH"(2)) (auto simp: sorted_wrt_append)
    then show ?thesis using inv by auto
  qed
qed

lemma cancel_symbols_total:
  "\<forall>s \<in> set ss. \<not> invalid_symbol names s \<Longrightarrow> \<exists>m. cancel_symbols names acc ss = Inr m"
  by (induction names acc ss rule: cancel_symbols.induct) auto

lemma cancel_symbols_distinct:
  "\<forall>s \<in> set ss. \<not> invalid_symbol names s \<Longrightarrow> distinct (acc @ ss) \<Longrightarrow>
   cancel_symbols names acc ss = Inr (acc @ ss)"
  by (induction names acc ss rule: cancel_symbols.induct) auto

lemma mk_z2_irrep_cases:
  "mk_z2_irrep names c ss = Inr z \<Longrightarrow>
     z2_wf names z \<and> concrete z = c \<and> (\<forall>s. s \<in> set (symbols z) \<longleftrightarrow> odd (count (mset ss) s))"
proof -
  assume a: "mk_z2_irrep names c ss = Inr z"
  then obtain m where m: "cancel_symbols names [] (sort ss) = Inr m" "z = Z2Irrep c m" "unat c < length names"
    by (auto simp: mk_z2_irrep_def bind_res_Inr split: if_splits)
  have s: "ssorted m \<and> (\<forall>s. s \<in> set m \<longleftrightarrow> odd (count (mset ([] @ sort ss)) s))
     \<and> (\<forall>s \<in> set (sort ss). \<not> invalid_symbol names s)"
    by (rule cancel_symbols_sound [OF m(1)]) simp_all
  have "s \<in> set ss" if "odd (count (mset ss) s)" for s
    using that by (metis count_mset_0_iff even_zero)
  with s m show ?thesis by (auto simp: z2_wf_def z2_ok_def)
qed

lemma mk_z2_irrep_defined:
  "(\<exists>z. mk_z2_irrep names c ss = Inr z) \<longleftrightarrow>
     unat c < length names \<and> (\<forall>s \<in> set ss. \<not> invalid_symbol names s)"
proof
  assume "\<exists>z. mk_z2_irrep names c ss = Inr z"
  then obtain m where m: "cancel_symbols names [] (sort ss) = Inr m" "unat c < length names"
    by (auto simp: mk_z2_irrep_def bind_res_Inr split: if_splits)
  have "\<forall>s \<in> set (sort ss). \<not> invalid_symbol names s"
    using cancel_symbols_sound [OF m(1)] by simp
  with m(2) show "unat c < length names \<and> (\<forall>s \<in> set ss. \<not> invalid_symbol names s)" by simp
next
  assume "unat c < length names \<and> (\<forall>s \<in> set ss. \<not> invalid_symbol names s)"
  then show "\<exists>z. mk_z2_irrep names c ss = Inr z"
    using cancel_symbols_total [of "sort ss" names "[]"] by (auto simp: mk_z2_irrep_def)
qed

lemma mk_z2_irrep_wf: "z2_wf names z \<Longrightarrow> mk_z2_irrep names (concrete z) (symbols z) = Inr z"
proof -
  assume a: "z2_wf names z"
  have "sort (symbols z) = symbols z"
    using a by (intro sort_key_id_if_sorted) (auto simp: z2_wf_def z2_ok_def strict_sorted_iff)
  then show ?thesis
    using a cancel_symbols_distinct [of "symbols z" names "[]"]
    by (cases z) (auto simp: mk_z2_irrep_def z2_wf_def z2_ok_def ssorted_distinct)
qed

text \<open>Names that can be written in a product.\<close>

definition names_ok :: "group \<Rightarrow> bool" where
  "names_ok names \<longleftrightarrow> distinct names \<and> (\<forall>n \<in> set names. n \<noteq> [] \<and> CHR ''*'' \<notin> set n)"

definition factors_of :: "group \<Rightarrow> z2_irrep \<Rightarrow> string list" where
  "factors_of names z =
     (if concrete z \<noteq> 0 \<or> symbols z = [] then names ! unat (concrete z) # symbols z else symbols z)"

fun join_star :: "string list \<Rightarrow> string" where
  "join_star [] = []"
| "join_star [f] = f"
| "join_star (f # fs) = f @ CHR ''*'' # join_star fs"

lemma join_star_char: "join_star ((c # f) # fs) = c # join_star (f # fs)"
  by (cases fs) simp_all

lemma format_symbols_join: "x @ format_symbols False ss = join_star (x # ss)"
  by (induction ss arbitrary: x) (simp_all add: join_star_char)

lemma format_irrep_join: "z2_wf names z \<Longrightarrow> format_irrep names z = join_star (factors_of names z)"
  by (cases "symbols z")
    (auto simp: format_irrep_def factors_of_def format_symbols_join join_star_char)

lemma split_star_prefix:
  "CHR ''*'' \<notin> set f \<Longrightarrow> split_star (f @ CHR ''*'' # cs) = f # split_star cs"
  "CHR ''*'' \<notin> set f \<Longrightarrow> split_star f = [f]"
  by (induction f) auto

lemma split_join: "fs \<noteq> [] \<Longrightarrow> \<forall>f \<in> set fs. CHR ''*'' \<notin> set f \<Longrightarrow> split_star (join_star fs) = fs"
  by (induction fs rule: join_star.induct) (auto simp: split_star_prefix)

lemma index_of_notin: "x \<notin> set xs \<Longrightarrow> index_of xs x = length xs"
  by (induction xs) (auto simp: index_of_def)

lemma index_of_nth: "distinct xs \<Longrightarrow> n < length xs \<Longrightarrow> index_of xs (xs ! n) = n"
proof (induction xs arbitrary: n)
  case (Cons x xs)
  then show ?case by (cases n) (auto simp: index_of_def)
qed simp

lemma collect_symbols:
  "\<forall>s \<in> set fs. \<not> invalid_symbol names s \<Longrightarrow> collect_factors names c ss fs = (c, ss @ fs)"
  by (induction names c ss fs rule: collect_factors.induct)
    (auto simp: invalid_symbol_def index_of_notin)

lemma make_irrep_format:
  assumes "names_ok names" "z2_wf names z"
  shows "make_irrep names (format_irrep names z) = Inr z"
proof -
  have fs: "factors_of names z \<noteq> []" "\<forall>f \<in> set (factors_of names z). CHR ''*'' \<notin> set f"
    using assms by (auto simp: factors_of_def z2_wf_def names_ok_def invalid_symbol_def)
  have "collect_factors names 0 [] (factors_of names z) = (concrete z, symbols z)"
  proof (cases "concrete z \<noteq> 0 \<or> symbols z = []")
    case True
    let ?n = "names ! unat (concrete z)"
    have "index_of names ?n = unat (concrete z)" "?n \<noteq> []"
      using assms by (auto simp: index_of_nth names_ok_def z2_wf_def)
    with True assms show ?thesis
      by (simp add: factors_of_def collect_symbols z2_wf_def)
  next
    case False
    with assms show ?thesis by (simp add: factors_of_def collect_symbols z2_wf_def)
  qed
  then show ?thesis
    using assms(2) by (simp add: make_irrep_def format_irrep_join split_join [OF fs] mk_z2_irrep_wf)
qed

lemma and_pred_pow2: "0 < (n::nat) \<Longrightarrow> n AND (n - 1) = 0 \<Longrightarrow> \<exists>k. n = 2 ^ k"
proof (induction n rule: less_induct)
  case (less n)
  show ?case
  proof (cases "odd n")
    case True
    then have "n AND (n - 1) = 2 * (n div 2)" by (subst and_nat_rec) (auto elim!: oddE)
    with less.prems True have "n = 1" by (auto elim!: oddE)
    then show ?thesis by (intro exI [of _ 0]) simp
  next
    case False
    then obtain m where m: "n = 2 * m" by blast
    then have "(2 * m - 1) div 2 = m - 1" using less.prems(1) by simp
    then have "n AND (n - 1) = 2 * (m AND (m - 1))" using m by (subst and_nat_rec) simp
    with less.prems have "m AND (m - 1) = 0" by simp
    with less.IH [of m] less.prems(1) m obtain k where "m = 2 ^ k" by auto
    with m show ?thesis by (intro exI [of _ "Suc k"]) simp
  qed
qed

lemma z2_group_pow2: "z2_group names \<Longrightarrow> \<exists>k. length names = 2 ^ k"
  using and_pred_pow2 by (auto simp: z2_group_def)

lemma xor_less_pow2:
  fixes a b :: "8 word"
  assumes "unat a < 2 ^ k" "unat b < 2 ^ k"
  shows "unat (a XOR b) < 2 ^ k"
proof -
  have "take_bit k (unat a) = unat a" "take_bit k (unat b) = unat b"
    using assms by (simp_all add: take_bit_nat_eq_self_iff)
  then have "take_bit k (unat (a XOR b)) = unat (a XOR b)"
    by (simp add: unsigned_xor_eq take_bit_xor)
  then show ?thesis by (simp add: take_bit_nat_eq_self_iff)
qed

lemma z2_multiply_wf:
  assumes "z2_group names" "z2_wf names a" "z2_wf names b"
  shows "z2_wf names (z2_multiply a b)"
proof -
  obtain k where "length names = 2 ^ k" using z2_group_pow2 [OF assms(1)] by blast
  then show ?thesis using assms(2,3) symbols_multiply [of a b]
    by (auto simp: z2_wf_def xor_less_pow2)
qed
section \<open>Properties\<close>

lemma point_groups_ok:
  "\<forall>g \<in> set [no_concrete_group, point_C1, point_Ci, point_C2, point_Cs, point_C2v, point_C2h,
      point_D2, point_D2h]. z2_group g \<and> names_ok g"
  by code_simp

text \<open>
  the constructor of an IRREP returns exactly when the concrete index names an IRREP of the
  group and no symbol is empty, contains a star or is the name of an IRREP; then the symbols are
  ascending and unique, and a symbol is kept exactly when it was given an odd number of times.
\<close>

theorem mk_z2_irrep_iff:
  "mk_z2_irrep names c ss = Inr z \<longleftrightarrow>
     unat c < length names \<and> (\<forall>s \<in> set ss. s \<noteq> [] \<and> CHR ''*'' \<notin> set s \<and> s \<notin> set names)
     \<and> concrete z = c \<and> ssorted (symbols z)
     \<and> (\<forall>s. s \<in> set (symbols z) \<longleftrightarrow> odd (count (mset ss) s))" (is "?L \<longleftrightarrow> ?R")
proof
  assume ?L
  then show ?R
    using mk_z2_irrep_cases [of names c ss z] mk_z2_irrep_defined [of names c ss]
    by (auto simp: z2_wf_def z2_ok_def invalid_symbol_def)
next
  assume R: ?R
  then obtain y where y: "mk_z2_irrep names c ss = Inr y"
    using mk_z2_irrep_defined [of names c ss] by (auto simp: invalid_symbol_def)
  then have "y = z"
    using R mk_z2_irrep_cases [OF y] by (intro z2_eqI) (auto simp: z2_wf_def z2_ok_def)
  with y show ?L by simp
qed

theorem mk_z2_irrep_iff_witness:
  "mk_z2_irrep point_C2v 3 [''b'', ''a'', ''b''] = Inr (Z2Irrep 3 [''a''])"
proof -
  have "odd (count (mset [''b'', ''a'', ''b'']) s) \<longleftrightarrow> s = ''a''" for s by auto
  then show ?thesis by (simp add: mk_z2_irrep_iff point_C2v_def)
qed

text \<open>
  C12: the formatted text of an IRREP the constructor made is read back by \<open>make_irrep\<close> as the same
  IRREP, for every group whose names are distinct, non-empty and free of stars.
\<close>

theorem make_irrep_format_roundtrip:
  assumes "names_ok names" and "mk_z2_irrep names c ss = Inr z"
  shows "make_irrep names (format_irrep names z) = Inr z"
  using make_irrep_format [OF assms(1)] mk_z2_irrep_cases [OF assms(2)] by blast

theorem make_irrep_format_roundtrip_witness:
  "make_irrep point_C2v (format_irrep point_C2v (Z2Irrep 3 [''a'', ''b''])) = Inr (Z2Irrep 3 [''a'', ''b''])
   \<and> format_irrep point_C2v (Z2Irrep 3 [''a'', ''b'']) = ''A2*a*b''"
proof -
  have "names_ok point_C2v" "mk_z2_irrep point_C2v 3 [''b'', ''a''] = Inr (Z2Irrep 3 [''a'', ''b''])"
    "format_irrep point_C2v (Z2Irrep 3 [''a'', ''b'']) = ''A2*a*b''"
    by code_simp+
  with make_irrep_format_roundtrip show ?thesis by metis
qed

end
