(* ===== verification/TableAlgebra.thy ===== *)
theory TableAlgebra
  imports IrrepAlgebra
begin

text \<open>
  SeQuant/core/irreps/table_algebra.{hpp,cpp}: the IRREP algebra given by a multiplication table
  and a conjugation map.  The constructor's checks make the table commutative and the conjugation
  an involution, so the class keeps the contract \<open>irrep_algebra\<close>; a product the table lacks throws.
  A \<open>container::map\<close> is an association list with distinct keys, in the order of its keys.
\<close>

type_synonym table = "((string \<times> string) \<times> string irrep_set) list"
type_synonym conjugation_map = "(string \<times> string) list"

record table_algebra =
  m_totallySymmetric :: string
  m_table :: table
  m_conjugates :: conjugation_map

datatype table_error = NotASet string string | NotUnit string | NotCommutative string string
  | TsNotSelfConjugate | InconsistentConjugation string string | MissingProduct string string

fun check_entries :: "string \<Rightarrow> table \<Rightarrow> table \<Rightarrow> (table_error, unit) result" where
  "check_entries ts t [] = Inr ()"
| "check_entries ts t (((lhs, rhs), res) # es) =
     (if irs_is_any res \<or> irs_empty res then Inl (NotASet lhs rhs)
      else let other = (if lhs = ts then rhs else lhs) in
        if (lhs = ts \<or> rhs = ts) \<and> \<not> irs_eq res (irs_of [other]) then Inl (NotUnit other)
        else (case map_of t (rhs, lhs) of
            Some res' \<Rightarrow> if \<not> irs_eq res' res then Inl (NotCommutative lhs rhs) else check_entries ts t es
          | None \<Rightarrow> check_entries ts t es))"

text \<open>\<open>try_emplace\<close> adds a key only when it is absent.\<close>

fun complete_conjugates :: "string \<Rightarrow> conjugation_map \<Rightarrow> conjugation_map
    \<Rightarrow> (table_error, conjugation_map) result" where
  "complete_conjugates ts cs [] = Inr cs"
| "complete_conjugates ts cs ((irrep, conjugate) # given) =
     (if irrep = ts \<or> conjugate = ts
      then if irrep \<noteq> conjugate then Inl TsNotSelfConjugate else complete_conjugates ts cs given
      else (case map_of cs conjugate of
          None \<Rightarrow> complete_conjugates ts ((conjugate, irrep) # cs) given
        | Some i \<Rightarrow> if i \<noteq> irrep then Inl (InconsistentConjugation irrep conjugate)
                   else complete_conjugates ts cs given))"

definition mk_table_algebra :: "string \<Rightarrow> table \<Rightarrow> conjugation_map \<Rightarrow> (table_error, table_algebra) result" where
  "mk_table_algebra ts t cs =
     bind_res (check_entries ts t t) (\<lambda>_.
     bind_res (complete_conjugates ts cs cs) (\<lambda>cs'.
       Inr \<lparr>m_totallySymmetric = ts, m_table = t, m_conjugates = cs'\<rparr>))"

definition table_product :: "table_algebra \<Rightarrow> string \<Rightarrow> string \<Rightarrow> (table_error, string irrep_set) result" where
  "table_product g lhs rhs =
     (if lhs = m_totallySymmetric g then Inr (irs_of [rhs])
      else if rhs = m_totallySymmetric g then Inr (irs_of [lhs])
      else (case map_of (m_table g) (lhs, rhs) of
          Some s \<Rightarrow> Inr s
        | None \<Rightarrow> (case map_of (m_table g) (rhs, lhs) of
            Some s \<Rightarrow> Inr s
          | None \<Rightarrow> Inl (MissingProduct lhs rhs))))"

definition table_conjugate :: "table_algebra \<Rightarrow> string \<Rightarrow> string" where
  "table_conjugate g irrep =
     (case map_of (m_conjugates g) irrep of None \<Rightarrow> irrep | Some c \<Rightarrow> c)"

section \<open>What the constructor establishes\<close>

lemma check_entries_entry:
  "check_entries ts t es = Inr () \<Longrightarrow> ((l, r), s) \<in> set es \<Longrightarrow>
   \<not> m_any s \<and> m_irreps s \<noteq> [] \<and> (l = ts \<longrightarrow> irs_eq s (irs_of [r])) \<and> (r = ts \<longrightarrow> l \<noteq> ts \<longrightarrow> irs_eq s (irs_of [l]))
     \<and> (\<forall>s'. map_of t (r, l) = Some s' \<longrightarrow> irs_eq s' s)"
proof (induction ts t es rule: check_entries.induct)
  case (1 ts t)
  then show ?case by simp
next
  case (2 ts t lhs rhs res es)
  have ok: "\<not> irs_is_any res" "\<not> irs_empty res"
    and rest: "check_entries ts t es = Inr ()"
    and unit: "(lhs = ts \<or> rhs = ts) \<longrightarrow> irs_eq res (irs_of [if lhs = ts then rhs else lhs])"
    and com: "\<And>s'. map_of t (rhs, lhs) = Some s' \<Longrightarrow> irs_eq s' res"
    using "2.prems"(1) by (auto simp: Let_def split: if_splits option.splits)
  have IH: "((l, r), s) \<in> set es \<Longrightarrow> ?case"
    using "2.IH" rest ok unit com by (cases "map_of t (rhs, lhs)") (auto simp: Let_def split: if_splits)
  show ?case
  proof (cases "((l, r), s) = ((lhs, rhs), res)")
    case True
    then show ?thesis using ok unit com by (auto simp: irs_is_any_def irs_empty_def)
  next
    case False
    with "2.prems"(2) IH show ?thesis by auto
  qed
qed

lemma complete_conjugates_mono:
  "complete_conjugates ts cs given = Inr cs' \<Longrightarrow> map_of cs k = Some v \<Longrightarrow> map_of cs' k = Some v"
proof (induction ts cs given rule: complete_conjugates.induct)
  case (2 ts cs irrep conjugate given)
  have "map_of cs conjugate = None \<Longrightarrow> k \<noteq> conjugate" using "2.prems"(2) by auto
  with 2 show ?case by (auto split: if_splits option.splits)
qed simp

lemma complete_conjugates_given:
  "complete_conjugates ts cs given = Inr cs' \<Longrightarrow> (i, c) \<in> set given \<Longrightarrow>
   (if i = ts \<or> c = ts then i = c else map_of cs' c = Some i)"
proof (induction ts cs given rule: complete_conjugates.induct)
  case (1 ts cs)
  then show ?case by simp
next
  case (2 ts cs irrep conjugate given)
  show ?case
  proof (cases "irrep = ts \<or> conjugate = ts")
    case True
    with 2 show ?thesis by (auto split: if_splits)
  next
    case False
    show ?thesis
    proof (cases "map_of cs conjugate")
      case None
      with False 2 complete_conjugates_mono [of ts "(conjugate, irrep) # cs" given cs' conjugate irrep]
      show ?thesis by auto
    next
      case (Some x)
      with False 2 complete_conjugates_mono [of ts cs given cs' conjugate irrep]
      show ?thesis by (auto split: if_splits)
    qed
  qed
qed

lemma complete_conjugates_new:
  "complete_conjugates ts cs given = Inr cs' \<Longrightarrow> map_of cs' k = Some v \<Longrightarrow>
   map_of cs k = Some v \<or> ((v, k) \<in> set given \<and> k \<noteq> ts \<and> v \<noteq> ts)"
  by (induction ts cs given rule: complete_conjugates.induct) (auto split: if_splits option.splits)

lemma completed_involution:
  assumes c: "complete_conjugates ts cs cs = Inr cs'" and d: "distinct (map fst cs)"
    and k: "map_of cs' k = Some v"
  shows "map_of cs' v = Some k"
proof -
  have "(k, v) \<in> set cs \<or> ((v, k) \<in> set cs \<and> k \<noteq> ts \<and> v \<noteq> ts)"
    using complete_conjugates_new [OF c k] map_of_SomeD by metis
  then show ?thesis
  proof
    assume "(k, v) \<in> set cs"
    from complete_conjugates_given [OF c this] k show ?thesis by (auto split: if_splits)
  next
    assume "(v, k) \<in> set cs \<and> k \<noteq> ts \<and> v \<noteq> ts"
    then have "map_of cs v = Some k" using d by simp
    then show ?thesis by (rule complete_conjugates_mono [OF c])
  qed
qed

text \<open>The algebras the constructor returns, given maps (distinct keys) of well-formed sets.\<close>

definition table_valid :: "table_algebra \<Rightarrow> bool" where
  "table_valid g \<longleftrightarrow> (\<exists>cs. distinct (map fst (m_table g)) \<and> distinct (map fst cs)
     \<and> (\<forall>(k, s) \<in> set (m_table g). irs_ok s)
     \<and> mk_table_algebra (m_totallySymmetric g) (m_table g) cs = Inr g)"

lemma table_validE:
  assumes "table_valid g"
  obtains cs where "check_entries (m_totallySymmetric g) (m_table g) (m_table g) = Inr ()"
    "complete_conjugates (m_totallySymmetric g) cs cs = Inr (m_conjugates g)"
    "distinct (map fst cs)" "\<And>k s. map_of (m_table g) k = Some s \<Longrightarrow> irs_ok s"
proof -
  obtain cs cs' where v: "distinct (map fst cs)" "\<forall>(k, s) \<in> set (m_table g). irs_ok s"
    "check_entries (m_totallySymmetric g) (m_table g) (m_table g) = Inr ()"
    "complete_conjugates (m_totallySymmetric g) cs cs = Inr cs'"
    "\<lparr>m_totallySymmetric = m_totallySymmetric g, m_table = m_table g, m_conjugates = cs'\<rparr> = g"
    using assms unfolding table_valid_def mk_table_algebra_def bind_res_Inr by auto
  have "cs' = m_conjugates g" using v(5) by (metis table_algebra.select_convs(3))
  then show ?thesis using that [of cs] v(1-4) map_of_SomeD by fastforce
qed

lemma table_lookup:
  assumes "table_valid g" "map_of (m_table g) (l, r) = Some s"
  shows "irs_ok s" "\<not> m_any s" "m_irreps s \<noteq> []" "map_of (m_table g) (r, l) = Some s' \<Longrightarrow> s' = s"
proof -
  obtain cs where c: "check_entries (m_totallySymmetric g) (m_table g) (m_table g) = Inr ()"
    "\<And>k s. map_of (m_table g) k = Some s \<Longrightarrow> irs_ok s"
    using table_validE [OF assms(1)] by metis
  note e = check_entries_entry [OF c(1) map_of_SomeD [OF assms(2)]]
  show "irs_ok s" by (rule c(2) [OF assms(2)])
  show "\<not> m_any s" "m_irreps s \<noteq> []" using e by simp_all
  show "map_of (m_table g) (r, l) = Some s' \<Longrightarrow> s' = s"
    using e by (auto simp: irs_eq_def intro: irrep_set.equality)
qed

lemma table_product_sym:
  assumes "table_valid g" "table_product g a b = Inr s"
  shows "table_product g b a = Inr s"
  using assms(2) table_lookup(4) [OF assms(1)]
  by (auto simp: table_product_def split: if_splits option.splits)

lemma table_product_set:
  assumes "table_valid g" "table_product g a b = Inr s"
  shows "irs_ok s \<and> \<not> m_any s \<and> m_irreps s \<noteq> []"
proof -
  show ?thesis
    using assms(2) table_lookup(1-3) [OF assms(1)]
    by (auto simp: table_product_def irs_of_single split: if_splits option.splits)
qed

lemma table_conjugate_involution:
  assumes "table_valid g"
  shows "table_conjugate g (table_conjugate g a) = a"
proof -
  obtain cs where c: "complete_conjugates (m_totallySymmetric g) cs cs = Inr (m_conjugates g)"
    "distinct (map fst cs)" using table_validE [OF assms] by metis
  show ?thesis
  proof (cases "map_of (m_conjugates g) a")
    case None
    then show ?thesis by (simp add: table_conjugate_def)
  next
    case (Some v)
    with completed_involution [OF c Some] show ?thesis by (simp add: table_conjugate_def)
  qed
qed

lemma table_conjugate_ts:
  assumes "table_valid g"
  shows "table_conjugate g (m_totallySymmetric g) = m_totallySymmetric g"
proof -
  obtain cs where c: "complete_conjugates (m_totallySymmetric g) cs cs = Inr (m_conjugates g)"
    using table_validE [OF assms] by metis
  have "v = m_totallySymmetric g" if "map_of (m_conjugates g) (m_totallySymmetric g) = Some v" for v
  proof -
    have "(m_totallySymmetric g, v) \<in> set cs"
      using complete_conjugates_new [OF c that] map_of_SomeD by fastforce
    from complete_conjugates_given [OF c this] show ?thesis by simp
  qed
  then show ?thesis by (auto simp: table_conjugate_def split: option.splits)
qed

interpretation tbl: irrep_algebra table_valid "\<lambda>_ _. True" m_totallySymmetric table_product table_conjugate
proof (unfold_locales, goal_cases)
  case (2 g a b s)
  then show ?case by (rule table_product_set)
next
  case (4 g a b s)
  then show ?case by (auto dest: table_product_sym)
next
  case (5 g a)
  then show ?case by (simp add: table_product_def)
qed (simp_all add: table_conjugate_involution table_conjugate_ts)

section \<open>Properties\<close>

text \<open>
  C13: an algebra the constructor returns has a commutative multiplication whose results are
  non-empty sets, the totally symmetric IRREP is its unit, and conjugation is an involution that
  fixes the unit.  (Keys of a map are distinct, and every set given is a well-formed one.)
\<close>

theorem table_algebra_laws:
  assumes "mk_table_algebra ts t cs = Inr g" and "distinct (map fst t)" and "distinct (map fst cs)"
    and "\<forall>(k, s) \<in> set t. irs_ok s"
  shows "(\<forall>a b s. table_product g a b = Inr s \<longrightarrow>
            table_product g b a = Inr s \<and> irs_ok s \<and> \<not> irs_is_any s \<and> \<not> irs_empty s)
    \<and> (\<forall>a. table_product g ts a = Inr (irs_of [a]))
    \<and> (\<forall>a. table_conjugate g (table_conjugate g a) = a) \<and> table_conjugate g ts = ts"
proof -
  have g: "m_totallySymmetric g = ts" "m_table g = t"
    using assms(1) by (auto simp: mk_table_algebra_def bind_res_Inr)
  have v: "table_valid g" using assms g unfolding table_valid_def by blast
  show ?thesis
  proof (intro conjI allI impI)
    fix a b s assume s: "table_product g a b = Inr s"
    show "table_product g b a = Inr s" by (rule tbl.prod_comm [OF v TrueI TrueI s])
    show "irs_ok s" "\<not> irs_is_any s" "\<not> irs_empty s"
      using tbl.prod_set [OF v s] by (simp_all add: irs_is_any_def irs_empty_def)
  next
    show "table_product g ts a = Inr (irs_of [a])" for a
      using tbl.prod_ts [OF v TrueI, of a] by (simp only: g)
    show "table_conjugate g (table_conjugate g a) = a" for a by (rule tbl.conj_conj [OF v TrueI])
    show "table_conjugate g ts = ts" using tbl.conj_ts [OF v] by (simp only: g)
  qed
qed

text \<open>The complex IRREPs of C3 as an instance.\<close>

definition c3_table :: table where
  "c3_table = [((''E1'', ''E1''), irs_of [''E2'']), ((''E1'', ''E2''), irs_of [''A'']),
     ((''E2'', ''E2''), irs_of [''E1''])]"

theorem table_algebra_laws_witness:
  "\<exists>g. mk_table_algebra ''A'' c3_table [(''E1'', ''E2'')] = Inr g
     \<and> table_product g ''E2'' ''E1'' = Inr (irs_of [''A'']) \<and> table_conjugate g ''E2'' = ''E1''
     \<and> table_conjugate g (table_conjugate g ''E2'') = ''E2''"
proof -
  define g where "g = \<lparr>m_totallySymmetric = ''A'', m_table = c3_table,
    m_conjugates = [(''E2'', ''E1''), (''E1'', ''E2'')]\<rparr>"
  have mk: "mk_table_algebra ''A'' c3_table [(''E1'', ''E2'')] = Inr g"
    unfolding g_def by code_simp
  have h: "distinct (map fst c3_table)" "distinct (map fst [(''E1'', ''E2'')])"
    "\<forall>(k, s) \<in> set c3_table. irs_ok s" by (simp_all add: c3_table_def)
  have "table_product g ''E2'' ''E1'' = Inr (irs_of [''A''])" "table_conjugate g ''E2'' = ''E1''"
    unfolding g_def by code_simp+
  with mk table_algebra_laws [OF mk h] show ?thesis by blast
qed

end
