(* ===== verification/IrrepPropagation.thy ===== *)
theory IrrepPropagation
  imports Z2Reduce TableAlgebra
begin

text \<open>
  SeQuant/core/irreps/propagation.hpp: the bottom-up computation of the IRREPs of a node
  (\<open>detail::fold_irreps\<close>) with its per-node callback.  Nodes are the five kinds of
  \<open>IrrepNodeKind\<close>; what a leaf contributes (\<open>leaf_irreps\<close>) is stored in it, already resolved.  The
  fold is proved to compute the denotation of the node in the algebra of sets with an absorbing top.
\<close>

declare top_product.simps [simp del]

datatype 'l irrep_node =
    LeafN 'l
  | ProductN "'l irrep_node list"
  | SumN "'l irrep_node list"
  | AdjointN "'l irrep_node list"
  | BroadcastN "'l irrep_node list"

text \<open>
  The context: the algebra's operations lifted to sets, and the resolver of leaves.  The callback
  is invoked on every visited node in post-order; its invocations are the list returned.
\<close>

record ('l, 'i, 'e) irrep_ctx =
  ctx_ts :: 'i
  ctx_prod :: "'i \<Rightarrow> 'i \<Rightarrow> ('e, 'i irrep_set) result"
  ctx_conj :: "'i \<Rightarrow> 'i"
  ctx_leaf :: "'l \<Rightarrow> ('e, 'i irrep_set) result"

type_synonym ('l, 'i) visits = "('l irrep_node \<times> 'i irrep_set) list"

definition totally_symmetric_set :: "('l, 'i::linorder, 'e) irrep_ctx \<Rightarrow> 'i irrep_set" where
  "totally_symmetric_set ctx = irs_of [ctx_ts ctx]"

fun fold_irreps :: "('l, 'i::linorder, 'e) irrep_ctx \<Rightarrow> 'l irrep_node
      \<Rightarrow> ('e, 'i irrep_set \<times> ('l, 'i) visits) result"
  and fold_product :: "('l, 'i::linorder, 'e) irrep_ctx \<Rightarrow> 'l irrep_node list \<Rightarrow> 'i irrep_set
      \<Rightarrow> ('e, 'i irrep_set \<times> ('l, 'i) visits) result"
  and fold_union :: "('l, 'i::linorder, 'e) irrep_ctx \<Rightarrow> bool \<Rightarrow> 'l irrep_node list \<Rightarrow> 'i irrep_set
      \<Rightarrow> ('e, 'i irrep_set \<times> ('l, 'i) visits) result" where
  "fold_irreps ctx (LeafN l) =
     bind_res (ctx_leaf ctx l) (\<lambda>res. Inr (res, [(LeafN l, res)]))"
| "fold_irreps ctx (ProductN cs) =
     bind_res (fold_product ctx cs (totally_symmetric_set ctx)) (\<lambda>(res, vs).
       Inr (res, vs @ [(ProductN cs, res)]))"
| "fold_irreps ctx (SumN cs) =
     bind_res (fold_union ctx False cs irs_none) (\<lambda>(res, vs). Inr (res, vs @ [(SumN cs, res)]))"
| "fold_irreps ctx (AdjointN cs) =
     bind_res (fold_union ctx True cs irs_none) (\<lambda>(res, vs). Inr (res, vs @ [(AdjointN cs, res)]))"
| "fold_irreps ctx (BroadcastN cs) =
     bind_res (fold_union ctx False cs irs_none) (\<lambda>(res, vs).
       let res' = (if irs_empty res then res else irs_any)
       in Inr (res', vs @ [(BroadcastN cs, res')]))"
| "fold_product ctx [] res = Inr (res, [])"
| "fold_product ctx (c # cs) res =
     bind_res (fold_irreps ctx c) (\<lambda>(s, vs).
     bind_res (irs_product (ctx_prod ctx) res s) (\<lambda>res'.
     bind_res (fold_product ctx cs res') (\<lambda>(res'', vs'). Inr (res'', vs @ vs'))))"
| "fold_union ctx adj [] res = Inr (res, [])"
| "fold_union ctx adj (c # cs) res =
     bind_res (fold_irreps ctx c) (\<lambda>(s, vs).
     bind_res (fold_union ctx adj cs
         (irs_unite res (if adj then irs_conjugate (ctx_conj ctx) s else s))) (\<lambda>(res', vs').
       Inr (res', vs @ vs')))"

section \<open>The denotation of a node\<close>

text \<open>
  \<open>None\<close> is a quantity spanning every IRREP.  A product is the pairwise product of its children, a
  sum their union, an adjoint the union of the conjugates, a broadcast everything unless empty.
\<close>

fun denote :: "('i \<Rightarrow> 'i \<Rightarrow> ('e, 'i irrep_set) result) \<Rightarrow> 'i \<Rightarrow> ('i \<Rightarrow> 'i) \<Rightarrow> ('l \<Rightarrow> 'i set option)
    \<Rightarrow> 'l irrep_node \<Rightarrow> 'i set option" where
  "denote prd t cnj leaf (LeafN l) = leaf l"
| "denote prd t cnj leaf (ProductN cs) =
     foldl (top_product (pair_products prd)) (Some {t}) (map (denote prd t cnj leaf) cs)"
| "denote prd t cnj leaf (SumN cs) = foldl top_union (Some {}) (map (denote prd t cnj leaf) cs)"
| "denote prd t cnj leaf (AdjointN cs) =
     foldl top_union (Some {}) (map (map_option (image cnj) \<circ> denote prd t cnj leaf) cs)"
| "denote prd t cnj leaf (BroadcastN cs) =
     (if foldl top_union (Some {}) (map (denote prd t cnj leaf) cs) = Some {} then Some {} else None)"

fun irrep_subnodes :: "'l irrep_node \<Rightarrow> 'l irrep_node list" where
  "irrep_subnodes (LeafN l) = [LeafN l]"
| "irrep_subnodes (ProductN cs) = concat (map irrep_subnodes cs) @ [ProductN cs]"
| "irrep_subnodes (SumN cs) = concat (map irrep_subnodes cs) @ [SumN cs]"
| "irrep_subnodes (AdjointN cs) = concat (map irrep_subnodes cs) @ [AdjointN cs]"
| "irrep_subnodes (BroadcastN cs) = concat (map irrep_subnodes cs) @ [BroadcastN cs]"

definition ctx_denote :: "('l, 'i::linorder, 'e) irrep_ctx \<Rightarrow> 'l irrep_node \<Rightarrow> 'i set option" where
  "ctx_denote ctx = denote (ctx_prod ctx) (ctx_ts ctx) (ctx_conj ctx)
     (\<lambda>l. case ctx_leaf ctx l of Inr s \<Rightarrow> irs_abs s | Inl _ \<Rightarrow> Some {})"

text \<open>Products of the context are single-valued sets, never "any".\<close>

definition ctx_proper :: "('l, 'i::linorder, 'e) irrep_ctx \<Rightarrow> bool" where
  "ctx_proper ctx \<longleftrightarrow> (\<forall>a b s. ctx_prod ctx a b = Inr s \<longrightarrow> \<not> m_any s)"

lemma ctx_denote_simps [simp]:
  "ctx_denote ctx (ProductN cs) =
     foldl (top_product (pair_products (ctx_prod ctx))) (Some {ctx_ts ctx}) (map (ctx_denote ctx) cs)"
  "ctx_denote ctx (SumN cs) = foldl top_union (Some {}) (map (ctx_denote ctx) cs)"
  "ctx_denote ctx (AdjointN cs) =
     foldl top_union (Some {}) (map (map_option (image (ctx_conj ctx)) \<circ> ctx_denote ctx) cs)"
  "ctx_denote ctx (BroadcastN cs) =
     (if foldl top_union (Some {}) (map (ctx_denote ctx) cs) = Some {} then Some {} else None)"
  by (simp_all add: ctx_denote_def)

lemma ctx_denote_leaf: "ctx_leaf ctx l = Inr s \<Longrightarrow> ctx_denote ctx (LeafN l) = irs_abs s"
  by (simp add: ctx_denote_def)

definition visits_ok :: "('l, 'i::linorder, 'e) irrep_ctx \<Rightarrow> ('l, 'i) visits \<Rightarrow> bool" where
  "visits_ok ctx vs \<longleftrightarrow> (\<forall>(m, s) \<in> set vs. irs_abs s = ctx_denote ctx m)"

lemma visits_ok_append [simp]: "visits_ok ctx (vs @ ws) \<longleftrightarrow> visits_ok ctx vs \<and> visits_ok ctx ws"
  by (auto simp: visits_ok_def)

lemma visits_ok_simps [simp]:
  "visits_ok ctx []" "visits_ok ctx ((m, s) # vs) \<longleftrightarrow> irs_abs s = ctx_denote ctx m \<and> visits_ok ctx vs"
  by (auto simp: visits_ok_def)

lemma fold_irreps_denote:
  fixes ctx :: "('l, 'i::linorder, 'e) irrep_ctx"
  shows "ctx_proper ctx \<Longrightarrow> fold_irreps ctx n = Inr (res, vs) \<Longrightarrow>
      irs_abs res = ctx_denote ctx n \<and> map fst vs = irrep_subnodes n \<and> visits_ok ctx vs"
    and "ctx_proper ctx \<Longrightarrow> fold_product ctx cs acc = Inr (res, vs) \<Longrightarrow>
      irs_abs res = foldl (top_product (pair_products (ctx_prod ctx))) (irs_abs acc) (map (ctx_denote ctx) cs)
      \<and> map fst vs = concat (map irrep_subnodes cs) \<and> visits_ok ctx vs"
    and "ctx_proper ctx \<Longrightarrow> fold_union ctx adj cs acc = Inr (res, vs) \<Longrightarrow>
      irs_abs res = foldl top_union (irs_abs acc)
        (map ((if adj then map_option (image (ctx_conj ctx)) else id) \<circ> ctx_denote ctx) cs)
      \<and> map fst vs = concat (map irrep_subnodes cs) \<and> visits_ok ctx vs"
proof (induction ctx n and ctx cs acc and ctx adj cs acc arbitrary: res vs and res vs and res vs
    rule: fold_irreps_fold_product_fold_union.induct)
  case (1 ctx l)
  then show ?case by (auto simp: bind_res_Inr ctx_denote_leaf)
next
  case (2 ctx cs)
  then obtain ws where "fold_product ctx cs (totally_symmetric_set ctx) = Inr (res, ws)"
    "vs = ws @ [(ProductN cs, res)]" by (auto simp: bind_res_Inr)
  with 2 show ?case by (simp add: totally_symmetric_set_def)
next
  case (3 ctx cs)
  then obtain ws where "fold_union ctx False cs irs_none = Inr (res, ws)" "vs = ws @ [(SumN cs, res)]"
    by (auto simp: bind_res_Inr)
  with 3 show ?case by (simp add: comp_def)
next
  case (4 ctx cs)
  then obtain ws where "fold_union ctx True cs irs_none = Inr (res, ws)" "vs = ws @ [(AdjointN cs, res)]"
    by (auto simp: bind_res_Inr)
  with 4 show ?case by (simp add: comp_def)
next
  case (5 ctx cs)
  then obtain r ws where "fold_union ctx False cs irs_none = Inr (r, ws)"
    "res = (if irs_empty r then r else irs_any)" "vs = ws @ [(BroadcastN cs, res)]"
    by (auto simp: bind_res_Inr Let_def)
  with 5 show ?case by (simp add: comp_def irs_empty_abs)
next
  case (6 ctx res)
  then show ?case by simp
next
  case (7 ctx c cs acc)
  obtain s us acc' ws where e: "fold_irreps ctx c = Inr (s, us)"
    "irs_product (ctx_prod ctx) acc s = Inr acc'" "fold_product ctx cs acc' = Inr (res, ws)" "vs = us @ ws"
    using "7.prems"(2) by (auto simp: bind_res_Inr)
  have p: "\<And>a b s. ctx_prod ctx a b = Inr s \<Longrightarrow> \<not> m_any s"
    using "7.prems"(1) by (auto simp: ctx_proper_def)
  from "7.IH"(1) [OF "7.prems"(1) e(1)] "7.IH"(2) [OF "7.prems"(1) e(3)] e(4)
    irs_product_abs [OF p e(2)]
  show ?case by simp
next
  case (8 ctx adj res)
  then show ?case by simp
next
  case (9 ctx adj c cs acc)
  let ?t = "\<lambda>s. if adj then irs_conjugate (ctx_conj ctx) s else s"
  obtain s us ws where e: "fold_irreps ctx c = Inr (s, us)"
    "fold_union ctx adj cs (irs_unite acc (?t s)) = Inr (res, ws)" "vs = us @ ws"
    using "9.prems"(2) by (auto simp: bind_res_Inr)
  from "9.IH"(1) [OF "9.prems"(1) e(1)] "9.IH"(2) [OF "9.prems"(1) e(2)] e(3)
  show ?case by (simp add: irs_abs_unite irs_conjugate_abs)
qed

section \<open>Properties\<close>

text \<open>
  C14: whenever the fold returns, the set it returns is the denotation of the node (the pairwise
  products of a product's children, the union of a sum's, of the conjugates of an adjoint's, all
  IRREPs for a non-vanishing broadcast), and the callback ran once on every node of the tree in
  post-order, each time with that node's own denotation.
\<close>

theorem fold_irreps_computes_denotation:
  assumes "\<forall>a b s. ctx_prod ctx a b = Inr s \<longrightarrow> \<not> irs_is_any s"
    and "fold_irreps ctx n = Inr (res, vs)"
  shows "irs_abs res = ctx_denote ctx n \<and> map fst vs = irrep_subnodes n
    \<and> (\<forall>(m, s) \<in> set vs. irs_abs s = ctx_denote ctx m)"
proof -
  have "ctx_proper ctx" using assms(1) by (simp add: ctx_proper_def irs_is_any_def)
  from fold_irreps_denote(1) [OF this assms(2)] show ?thesis by (simp add: visits_ok_def)
qed

definition example_ctx :: "(nat, string, table_error) irrep_ctx" where
  "example_ctx = \<lparr>ctx_ts = ''A'', ctx_prod = table_product \<lparr>m_totallySymmetric = ''A'',
       m_table = c3_table, m_conjugates = [(''E2'', ''E1''), (''E1'', ''E2'')]\<rparr>,
     ctx_conj = table_conjugate \<lparr>m_totallySymmetric = ''A'',
       m_table = c3_table, m_conjugates = [(''E2'', ''E1''), (''E1'', ''E2'')]\<rparr>,
     ctx_leaf = (\<lambda>n. Inr (if n = 0 then irs_of [''E1''] else irs_of [''A'', ''E2'']))\<rparr>"

lemma example_ctx_proper: "\<forall>a b s. ctx_prod example_ctx a b = Inr s \<longrightarrow> \<not> irs_is_any s"
  by (auto simp: example_ctx_def table_product_def irs_is_any_def irs_of_single c3_table_def
      split: if_splits option.splits)

theorem fold_irreps_computes_denotation_witness:
  "\<exists>vs. fold_irreps example_ctx (ProductN [LeafN 0, AdjointN [LeafN 1]])
      = Inr (irs_of [''E1'', ''E2''], vs) \<and> length vs = 4
      \<and> ctx_denote example_ctx (ProductN [LeafN 0, AdjointN [LeafN 1]]) = Some {''E1'', ''E2''}"
proof -
  let ?n = "ProductN [LeafN 0, AdjointN [LeafN 1]] :: nat irrep_node"
  obtain vs where v: "fold_irreps example_ctx ?n = Inr (irs_of [''E1'', ''E2''], vs)"
  proof -
    have "fst (projr (fold_irreps example_ctx ?n)) = irs_of [''E1'', ''E2'']
      \<and> isl (fold_irreps example_ctx ?n) = False" by code_simp
    then show ?thesis using that by (cases "fold_irreps example_ctx ?n") auto
  qed
  from fold_irreps_computes_denotation [OF example_ctx_proper v]
  have d: "Some {''E1'', ''E2''} = ctx_denote example_ctx ?n" "map fst vs = irrep_subnodes ?n" by simp_all
  then have "length vs = length (irrep_subnodes ?n)" by (metis length_map)
  then have "length vs = 4" by simp
  with v d show ?thesis by auto
qed

end
