(* ===== verification/AsyCost.thy ===== *)
theory AsyCost
  imports Complex_Main Prelude
begin

text \<open>
  SeQuant/core/asy_cost.{hpp,cpp}: symbolic asymptotic costs, polynomials in the sizes of index
  bases.  A basis is any linearly ordered type (\<open>IndexBasis\<close> with its own ordering); an exponent map
  is an association list ascending in its keys; a cost is the strictly sorted list of its terms
  under the terms' ordering (\<open>container::set<AsyCostEntry>\<close>).  Rationals are exact.  Numerical
  evaluation (\<open>ops\<close>, in doubles) and printing are not modelled.
\<close>

type_synonym 'b exponent_map = "('b \<times> nat) list"

record 'b asy_entry =
  exponents :: "'b exponent_map"
  prefactor :: rat
  is_max :: bool

section \<open>Entries\<close>

definition entry_zero :: "'b asy_entry" where
  "entry_zero = \<lparr>exponents = [], prefactor = 0, is_max = False\<rparr>"

text \<open>
  The argument is \<open>std::numeric_limits<intmax_t>::max()\<close>, of the multiprecision library's integer.
\<close>

definition entry_max :: "rat \<Rightarrow> 'b asy_entry" where
  "entry_max limit = \<lparr>exponents = [], prefactor = limit, is_max = True\<rparr>"

definition mk_entry :: "'b exponent_map \<Rightarrow> rat \<Rightarrow> 'b asy_entry" where
  "mk_entry es p =
     (let es' = filter (\<lambda>(b, k). k \<noteq> 0) es
      in if p = 0 \<or> es' = [] then \<lparr>exponents = [], prefactor = 0, is_max = False\<rparr>
         else \<lparr>exponents = es', prefactor = p, is_max = False\<rparr>)"

definition entry_is_zero :: "'b asy_entry \<Rightarrow> bool" where
  "entry_is_zero e \<longleftrightarrow> \<not> is_max e \<and> exponents e = [] \<and> prefactor e = 0"

definition exp_for :: "'b exponent_map \<Rightarrow> 'b \<Rightarrow> nat" where
  "exp_for m s = (case map_of m s of None \<Rightarrow> 0 | Some k \<Rightarrow> k)"

definition total_degree :: "'b exponent_map \<Rightarrow> nat" where
  "total_degree m = sum_list (map snd m)"

definition all_bases :: "'b::linorder exponent_map \<Rightarrow> 'b exponent_map \<Rightarrow> 'b list" where
  "all_bases l r = foldl (flat_insert (<)) (foldl (flat_insert (<)) [] (map fst l)) (map fst r)"

fun exps_less :: "'b exponent_map \<Rightarrow> 'b exponent_map \<Rightarrow> 'b list \<Rightarrow> bool" where
  "exps_less l r [] = False"
| "exps_less l r (b # bs) =
     (if exp_for l b \<noteq> exp_for r b then exp_for l b < exp_for r b else exps_less l r bs)"

definition entry_less :: "'b::linorder asy_entry \<Rightarrow> 'b asy_entry \<Rightarrow> bool" where
  "entry_less a b =
     (if is_max a \<noteq> is_max b then \<not> is_max a
      else if total_degree (exponents a) \<noteq> total_degree (exponents b)
      then total_degree (exponents a) < total_degree (exponents b)
      else exps_less (exponents a) (exponents b) (rev (all_bases (exponents a) (exponents b))))"

definition entry_eq :: "'b asy_entry \<Rightarrow> 'b asy_entry \<Rightarrow> bool" where
  "entry_eq a b \<longleftrightarrow> is_max a = is_max b \<and> exponents a = exponents b"

section \<open>Costs\<close>

type_synonym 'b asy_cost = "'b asy_entry list"

definition cost_of_entry :: "'b::linorder asy_entry \<Rightarrow> 'b asy_cost" where
  "cost_of_entry e = (if entry_is_zero e then [] else flat_insert entry_less [] e)"

definition cost_zero :: "'b::linorder asy_cost" where
  "cost_zero = cost_of_entry entry_zero"

definition cost_max :: "rat \<Rightarrow> 'b::linorder asy_cost" where
  "cost_max limit = cost_of_entry (entry_max limit)"

definition mk_cost :: "'b::linorder exponent_map \<Rightarrow> rat \<Rightarrow> 'b asy_cost" where
  "mk_cost es p = cost_of_entry (mk_entry es p)"

definition add_entry :: "'b::linorder asy_cost \<Rightarrow> 'b asy_entry \<Rightarrow> 'b asy_cost" where
  "add_entry data c =
     (case flat_find entry_less data c of
        Some n \<Rightarrow>
          let found = (data ! n)\<lparr>prefactor := prefactor (data ! n) + prefactor c\<rparr>
          in if prefactor found = 0 then erase_at n data else data[n := found]
      | None \<Rightarrow> flat_insert entry_less data c)"

definition cost_add :: "'b::linorder asy_cost \<Rightarrow> 'b asy_cost \<Rightarrow> 'b asy_cost" where
  "cost_add lhs rhs = foldl add_entry lhs rhs"

definition cost_scale :: "'b asy_cost \<Rightarrow> rat \<Rightarrow> 'b asy_cost" where
  "cost_scale cost scale = map (\<lambda>c. c\<lparr>prefactor := prefactor c * scale\<rparr>) cost"

definition cost_sub :: "'b::linorder asy_cost \<Rightarrow> 'b asy_cost \<Rightarrow> 'b asy_cost" where
  "cost_sub lhs rhs = cost_add lhs (cost_scale rhs (- 1))"

text \<open>Division by the zero rational throws.\<close>

datatype cost_error = DivisionByZero

definition cost_div :: "'b asy_cost \<Rightarrow> rat \<Rightarrow> (cost_error, 'b asy_cost) result" where
  "cost_div cost scale = (if scale = 0 then Inl DivisionByZero else Inr (cost_scale cost (1 / scale)))"

text \<open>The loop over the zipped terms returns at the first decisive pair.\<close>

fun pairs_less :: "('b::linorder asy_entry \<times> 'b asy_entry) list \<Rightarrow> bool option" where
  "pairs_less [] = None"
| "pairs_less ((c1, c2) # ps) =
     (if entry_less c1 c2 then Some True
      else if entry_eq c1 c2 then
        (if prefactor c1 < prefactor c2 then Some True
         else if prefactor c2 < prefactor c1 then Some False
         else pairs_less ps)
      else Some False)"

definition cost_less :: "'b::linorder asy_cost \<Rightarrow> 'b asy_cost \<Rightarrow> bool" where
  "cost_less lhs rhs =
     (case pairs_less (rev (zip lhs rhs)) of Some b \<Rightarrow> b | None \<Rightarrow> length lhs < length rhs)"

definition cost_eq :: "'b::linorder asy_cost \<Rightarrow> 'b asy_cost \<Rightarrow> bool" where
  "cost_eq lhs rhs \<longleftrightarrow> length lhs = length rhs \<and> \<not> (cost_less lhs rhs \<or> cost_less rhs lhs)"

definition cost_neq :: "'b::linorder asy_cost \<Rightarrow> 'b asy_cost \<Rightarrow> bool" where
  "cost_neq lhs rhs \<longleftrightarrow> \<not> cost_eq lhs rhs"

definition cost_greater :: "'b::linorder asy_cost \<Rightarrow> 'b asy_cost \<Rightarrow> bool" where
  "cost_greater lhs rhs \<longleftrightarrow> \<not> (cost_less lhs rhs \<or> cost_eq lhs rhs)"

definition cost_le :: "'b::linorder asy_cost \<Rightarrow> 'b asy_cost \<Rightarrow> bool" where
  "cost_le lhs rhs \<longleftrightarrow> cost_less lhs rhs \<or> cost_eq lhs rhs"

definition cost_ge :: "'b::linorder asy_cost \<Rightarrow> 'b asy_cost \<Rightarrow> bool" where
  "cost_ge lhs rhs \<longleftrightarrow> cost_greater lhs rhs \<or> cost_eq lhs rhs"

section \<open>The order of entries\<close>

text \<open>The greatest basis on which two exponent functions differ decides.\<close>

definition top_less :: "('b::linorder \<Rightarrow> nat) \<Rightarrow> ('b \<Rightarrow> nat) \<Rightarrow> bool" where
  "top_less f g \<longleftrightarrow> (\<exists>b. f b < g b \<and> (\<forall>c > b. f c = g c))"

lemma top_less_irrefl: "\<not> top_less f f"
  by (simp add: top_less_def)

lemma top_less_trans: "top_less f g \<Longrightarrow> top_less g h \<Longrightarrow> top_less f h"
proof -
  assume "top_less f g" "top_less g h"
  then obtain b c where bc: "f b < g b" "\<forall>d > b. f d = g d" "g c < h c" "\<forall>d > c. g d = h d"
    by (auto simp: top_less_def)
  show ?thesis
  proof (cases b c rule: linorder_cases)
    case less
    with bc show ?thesis by (auto simp: top_less_def intro!: exI [of _ c])
  next
    case equal
    with bc show ?thesis by (auto simp: top_less_def intro!: exI [of _ c])
  next
    case greater
    with bc show ?thesis by (auto simp: top_less_def intro!: exI [of _ b])
  qed
qed

lemma top_less_total:
  assumes "finite S" "\<And>b. b \<notin> S \<Longrightarrow> f b = g b" "f \<noteq> g"
  shows "top_less f g \<or> top_less g f"
proof -
  let ?D = "{b. f b \<noteq> g b}"
  have fin: "finite ?D" using assms(1,2) by (metis (mono_tags, lifting) finite_subset mem_Collect_eq subsetI)
  have ne: "?D \<noteq> {}" using assms(3) by auto
  define m where "m = Max ?D"
  have "f m \<noteq> g m" using Max_in [OF fin ne] by (simp add: m_def)
  moreover have "f c = g c" if "c > m" for c
    using Max_ge [OF fin, of c] that by (force simp: m_def)
  ultimately show ?thesis by (auto simp: top_less_def nat_neq_iff intro!: exI [of _ m])
qed

lemma foldl_flat_insert:
  fixes xs :: "'b::linorder list"
  shows "set (foldl (flat_insert (<)) acc xs) = set acc \<union> set xs"
    and "ssorted acc \<Longrightarrow> ssorted (foldl (flat_insert (<)) acc xs)"
  by (induction xs arbitrary: acc)
    (auto simp: set_flat_insert_linorder linorder_swo.sorted_flat_insert)

lemma all_bases_set: "set (all_bases l r) = fst ` set l \<union> fst ` set r"
  and all_bases_sorted: "ssorted (all_bases l r)"
  by (simp_all add: all_bases_def foldl_flat_insert)

lemma exp_for_outside: "b \<notin> fst ` set m \<Longrightarrow> exp_for m b = 0"
  by (auto simp: exp_for_def split: option.splits dest: map_of_SomeD intro: rev_image_eqI)

lemma exps_less_top:
  assumes "sorted_wrt (>) bs" "\<And>b. b \<notin> set bs \<Longrightarrow> exp_for l b = exp_for r b"
  shows "exps_less l r bs \<longleftrightarrow> top_less (exp_for l) (exp_for r)"
  using assms
proof (induction bs)
  case Nil
  then have "exp_for l = exp_for r" by auto
  then show ?case by (simp add: top_less_irrefl)
next
  case (Cons b bs)
  show ?case
  proof (cases "exp_for l b = exp_for r b")
    case True
    then have "\<And>c. c \<notin> set bs \<Longrightarrow> exp_for l c = exp_for r c" using Cons.prems(2) by (metis set_ConsD)
    with True Cons show ?thesis by simp
  next
    case False
    have above: "exp_for l c = exp_for r c" if "c > b" for c
      using Cons.prems that by (metis not_less_iff_gr_or_eq set_ConsD sorted_wrt.simps(2))
    have "top_less (exp_for l) (exp_for r) \<longleftrightarrow> exp_for l b < exp_for r b"
      using False above by (auto simp: top_less_def) (metis not_less_iff_gr_or_eq)
    with False show ?thesis by simp
  qed
qed

lemma entry_less_top:
  "entry_less a b =
     (if is_max a \<noteq> is_max b then \<not> is_max a
      else if total_degree (exponents a) \<noteq> total_degree (exponents b)
      then total_degree (exponents a) < total_degree (exponents b)
      else top_less (exp_for (exponents a)) (exp_for (exponents b)))"
proof -
  let ?bs = "rev (all_bases (exponents a) (exponents b))"
  have "sorted_wrt (>) ?bs" using all_bases_sorted by (simp add: sorted_wrt_rev)
  moreover have "\<And>c. c \<notin> set ?bs \<Longrightarrow> exp_for (exponents a) c = exp_for (exponents b) c"
    by (simp add: all_bases_set exp_for_outside)
  ultimately have "exps_less (exponents a) (exponents b) ?bs
      = top_less (exp_for (exponents a)) (exp_for (exponents b))"
    by (rule exps_less_top)
  then show ?thesis by (simp add: entry_less_def)
qed

lemma top_less_exps_total:
  "\<not> top_less (exp_for l) (exp_for r) \<Longrightarrow> \<not> top_less (exp_for r) (exp_for l) \<Longrightarrow> exp_for l = exp_for r"
  using top_less_total [of "fst ` set l \<union> fst ` set r" "exp_for l" "exp_for r"]
  by (auto simp: exp_for_outside)

interpretation entry_order: strict_weak_order "entry_less :: 'b::linorder asy_entry \<Rightarrow> _"
proof
  fix x y z :: "'b asy_entry"
  show "\<not> entry_less x x" by (simp add: entry_less_top top_less_irrefl)
  show "entry_less x y \<Longrightarrow> entry_less y z \<Longrightarrow> entry_less x z"
    by (auto simp: entry_less_top intro: top_less_trans split: if_splits)
  show "\<not> entry_less x y \<Longrightarrow> \<not> entry_less y z \<Longrightarrow> \<not> entry_less x z"
    by (auto simp: entry_less_top split: if_splits)
      (metis top_less_exps_total top_less_trans)+
qed

section \<open>Well-formed entries and costs\<close>

definition entry_wf :: "'b::linorder asy_entry \<Rightarrow> bool" where
  "entry_wf e \<longleftrightarrow> ssorted (map fst (exponents e)) \<and> (\<forall>(b, k) \<in> set (exponents e). k \<noteq> 0)"

definition cost_wf :: "'b::linorder asy_cost \<Rightarrow> bool" where
  "cost_wf c \<longleftrightarrow> sorted_wrt entry_less c \<and> (\<forall>e \<in> set c. entry_wf e \<and> prefactor e \<noteq> 0)"

lemma wf_exponents_unique:
  assumes "ssorted (map fst l)" "\<forall>(b, k) \<in> set l. k \<noteq> 0"
    and "ssorted (map fst r)" "\<forall>(b, k) \<in> set r. k \<noteq> 0" and "exp_for l = exp_for r"
  shows "l = r"
proof -
  have in_iff: "(b, k) \<in> set m \<longleftrightarrow> k \<noteq> 0 \<and> exp_for m b = k"
    if "ssorted (map fst m)" "\<forall>(b, k) \<in> set m. k \<noteq> 0" for m and b :: 'a and k
  proof -
    have "distinct (map fst m)" using that(1) by (rule ssorted_distinct)
    then have "(b, k) \<in> set m \<longleftrightarrow> map_of m b = Some k" by simp
    moreover have "map_of m b \<noteq> Some 0"
    proof
      assume "map_of m b = Some 0"
      then have "(b, 0) \<in> set m" by (rule map_of_SomeD)
      with that(2) show False by auto
    qed
    ultimately show ?thesis by (cases "map_of m b") (auto simp: exp_for_def)
  qed
  have "p \<in> set l \<longleftrightarrow> p \<in> set r" for p
    using in_iff [OF assms(1,2), of "fst p" "snd p"] in_iff [OF assms(3,4), of "fst p" "snd p"] assms(5)
    by simp
  then have "set l = set r" by blast
  moreover have "ssorted m" if "ssorted (map fst m)" for m :: "('a \<times> nat) list"
    using that by (induction m) (auto simp: less_prod_def)
  ultimately show ?thesis using assms(1,3) ssorted_unique by blast
qed

lemma entry_equiv:
  assumes "entry_wf a" "entry_wf b"
  shows "\<not> entry_less a b \<and> \<not> entry_less b a \<longleftrightarrow> entry_eq a b"
proof
  assume asm: "\<not> entry_less a b \<and> \<not> entry_less b a"
  then have mx: "is_max a = is_max b" by (auto simp: entry_less_top split: if_splits)
  with asm have "\<not> top_less (exp_for (exponents a)) (exp_for (exponents b))"
    "\<not> top_less (exp_for (exponents b)) (exp_for (exponents a))"
    by (auto simp: entry_less_top split: if_splits)
  then have "exp_for (exponents a) = exp_for (exponents b)" by (rule top_less_exps_total)
  with mx have "is_max a = is_max b" "exp_for (exponents a) = exp_for (exponents b)"
    by simp_all
  then show "entry_eq a b"
    using assms wf_exponents_unique by (auto simp: entry_eq_def entry_wf_def)
next
  assume "entry_eq a b"
  then show "\<not> entry_less a b \<and> \<not> entry_less b a"
    by (auto simp: entry_eq_def entry_less_top top_less_irrefl)
qed

lemma mk_entry_wf: "ssorted (map fst es) \<Longrightarrow> entry_wf (mk_entry es p)"
  by (auto simp: mk_entry_def entry_wf_def Let_def sorted_wrt_map intro: sorted_wrt_filter)

lemma mk_cost_wf: "ssorted (map fst es) \<Longrightarrow> cost_wf (mk_cost es p)"
  using mk_entry_wf [of es p]
  by (auto simp: mk_cost_def cost_of_entry_def cost_wf_def entry_order.flat_rec mk_entry_def Let_def
      entry_is_zero_def split: if_splits)

text \<open>The coefficient of a monomial.\<close>

definition monomial :: "'b asy_entry \<Rightarrow> bool \<times> 'b exponent_map" where
  "monomial e = (is_max e, exponents e)"

definition coeff :: "'b asy_cost \<Rightarrow> bool \<times> 'b exponent_map \<Rightarrow> rat" where
  "coeff c m = (\<Sum>e\<leftarrow>c. if monomial e = m then prefactor e else 0)"

lemma coeff_simps [simp]:
  "coeff [] m = 0"
  "coeff (e # c) m = (if monomial e = m then prefactor e else 0) + coeff c m"
  by (simp_all add: coeff_def)

lemma coeff_absent: "(\<And>e. e \<in> set c \<Longrightarrow> monomial e \<noteq> m) \<Longrightarrow> coeff c m = 0"
  by (induction c) auto

lemma entry_eq_monomial: "entry_eq a b \<longleftrightarrow> monomial a = monomial b"
  by (auto simp: entry_eq_def monomial_def)

lemma entry_less_monomial: "entry_less a b \<Longrightarrow> monomial a \<noteq> monomial b"
  by (auto simp: monomial_def entry_less_top top_less_irrefl split: if_splits)

lemma coeff_member:
  assumes "cost_wf c" "e \<in> set c"
  shows "coeff c (monomial e) = prefactor e"
  using assms
proof (induction c)
  case (Cons x c)
  then have wf: "cost_wf c" and lt: "\<forall>y \<in> set c. entry_less x y" by (auto simp: cost_wf_def)
  show ?case
  proof (cases "e = x")
    case True
    moreover have "coeff c (monomial x) = 0"
      using lt by (intro coeff_absent) (metis entry_less_monomial)
    ultimately show ?thesis by simp
  next
    case False
    then have "e \<in> set c" "monomial x \<noteq> monomial e" using Cons.prems(2) lt entry_less_monomial by auto
    with Cons.IH wf show ?thesis by simp
  qed
qed simp

lemma cost_wf_unique:
  assumes c: "cost_wf c" and d: "cost_wf d" and eq: "coeff c = coeff d"
  shows "c = d"
proof -
  have sub: "e \<in> set d" if wf: "cost_wf c" "cost_wf d" "coeff c = coeff d" and e: "e \<in> set c" for c d e
  proof -
    have "coeff d (monomial e) \<noteq> 0"
      using coeff_member [OF wf(1) e] wf e by (auto simp: cost_wf_def)
    then obtain f where f: "f \<in> set d" "monomial f = monomial e" using coeff_absent by metis
    then have "prefactor f = prefactor e"
      using coeff_member [OF wf(1) e] coeff_member [OF wf(2) f(1)] wf(3) by simp
    with f show ?thesis by (metis asy_entry.equality monomial_def old.unit.exhaust prod.inject)
  qed
  have "set c = set d" using sub [OF c d eq] sub [OF d c eq [symmetric]] by blast
  then show ?thesis using c d by (intro entry_order.sorted_lt_unique) (auto simp: cost_wf_def)
qed

section \<open>Addition\<close>

lemma add_entry_Nil: "add_entry [] c = [c]"
  by (simp add: add_entry_def entry_order.flat_rec)

lemma add_entry_Cons:
  "add_entry (x # xs) c =
     (if entry_less x c then x # add_entry xs c
      else if entry_less c x then c # x # xs
      else if prefactor x + prefactor c = 0 then xs
      else x\<lparr>prefactor := prefactor x + prefactor c\<rparr> # xs)"
  by (auto simp: add_entry_def entry_order.flat_rec erase_at_def Let_def split: option.splits)

lemma entry_less_prefactor [simp]:
  "entry_less (x\<lparr>prefactor := p\<rparr>) y = entry_less x y" "entry_less y (x\<lparr>prefactor := p\<rparr>) = entry_less y x"
  by (simp_all add: entry_less_def)

lemma entry_wf_prefactor [simp]: "entry_wf (x\<lparr>prefactor := p\<rparr>) = entry_wf x"
  by (simp add: entry_wf_def)

lemma monomial_prefactor [simp]: "monomial (x\<lparr>prefactor := p\<rparr>) = monomial x"
  by (simp add: monomial_def)

lemma add_entry_bound:
  "entry_less y c \<Longrightarrow> \<forall>x \<in> set xs. entry_less y x \<Longrightarrow> \<forall>x \<in> set (add_entry xs c). entry_less y x"
  by (induction xs) (auto simp: add_entry_Nil add_entry_Cons)

lemma add_entry_wf:
  "cost_wf xs \<Longrightarrow> entry_wf c \<Longrightarrow> prefactor c \<noteq> 0 \<Longrightarrow> cost_wf (add_entry xs c)"
proof (induction xs)
  case Nil
  then show ?case by (simp add: add_entry_Nil cost_wf_def)
next
  case (Cons x xs)
  have wf: "cost_wf xs" "entry_wf x" "prefactor x \<noteq> 0" "\<forall>y \<in> set xs. entry_less x y"
    using Cons.prems(1) by (auto simp: cost_wf_def)
  have IH: "cost_wf (add_entry xs c)" using Cons.IH Cons.prems(2,3) wf(1) by blast
  consider "entry_less x c" | "\<not> entry_less x c" "entry_less c x" | "\<not> entry_less x c" "\<not> entry_less c x"
    by blast
  then show ?case
  proof cases
    case 1
    have "\<forall>y \<in> set (add_entry xs c). entry_less x y" using 1 wf(4) by (rule add_entry_bound)
    with 1 IH wf(2,3) show ?thesis by (simp add: add_entry_Cons cost_wf_def)
  next
    case 2
    with Cons.prems wf show ?thesis
      by (auto simp: add_entry_Cons cost_wf_def intro: entry_order.lt_trans)
  next
    case 3
    with wf show ?thesis by (auto simp: add_entry_Cons cost_wf_def)
  qed
qed

lemma coeff_add_entry:
  "cost_wf xs \<Longrightarrow> entry_wf c \<Longrightarrow>
   coeff (add_entry xs c) m = coeff xs m + (if monomial c = m then prefactor c else 0)"
proof (induction xs)
  case Nil
  then show ?case by (simp add: add_entry_Nil)
next
  case (Cons x xs)
  then have wf: "cost_wf xs" "entry_wf x" by (auto simp: cost_wf_def)
  have "\<not> entry_less x c \<Longrightarrow> \<not> entry_less c x \<Longrightarrow> monomial x = monomial c"
    using entry_equiv [OF wf(2) Cons.prems(2)] by (simp add: entry_eq_monomial)
  with Cons wf show ?case by (auto simp: add_entry_Cons)
qed

lemma cost_add_wf: "cost_wf a \<Longrightarrow> cost_wf b \<Longrightarrow> cost_wf (cost_add a b)"
  unfolding cost_add_def by (rule foldl_invariant) (auto simp: cost_wf_def [of b] intro: add_entry_wf)

lemma coeff_cost_add:
  assumes "cost_wf a" "cost_wf b"
  shows "coeff (cost_add a b) m = coeff a m + coeff b m"
proof -
  have "coeff (foldl add_entry a es) m = coeff a m + coeff es m"
    if "\<forall>e \<in> set es. entry_wf e \<and> prefactor e \<noteq> 0" for es
    using that assms(1)
  proof (induction es arbitrary: a)
    case (Cons e es)
    then show ?case using add_entry_wf [of a e] coeff_add_entry [of a e] by simp
  qed simp
  then show ?thesis using assms(2) by (simp add: cost_add_def cost_wf_def)
qed

lemma cost_scale_wf: "cost_wf a \<Longrightarrow> r \<noteq> 0 \<Longrightarrow> cost_wf (cost_scale a r)"
  by (auto simp: cost_wf_def cost_scale_def sorted_wrt_map)

lemma coeff_cost_scale: "coeff (cost_scale a r) m = coeff a m * r"
  by (induction a) (simp_all add: cost_scale_def distrib_right)

lemma cost_zero_Nil: "cost_zero = []"
  by (simp add: cost_zero_def cost_of_entry_def entry_is_zero_def entry_zero_def)

lemma cost_wf_Nil [simp]: "cost_wf []"
  by (simp add: cost_wf_def)

section \<open>The order of costs\<close>

lemma pairs_less_swap:
  assumes "\<forall>(a, b) \<in> set ps. entry_wf a \<and> entry_wf b"
  shows "pairs_less (map (\<lambda>(a, b). (b, a)) ps) = map_option Not (pairs_less ps)"
  using assms
proof (induction ps)
  case (Cons p ps)
  obtain a b where p: "p = (a, b)" by fastforce
  have "entry_eq a b \<longleftrightarrow> \<not> entry_less a b \<and> \<not> entry_less b a" "entry_eq a b \<longleftrightarrow> entry_eq b a"
    using entry_equiv [of a b] Cons.prems p by (auto simp: entry_eq_def)
  with Cons p show ?case using entry_order.lt_asym by auto
qed simp

lemma pairs_less_None:
  "pairs_less ps = None \<Longrightarrow> (a, b) \<in> set ps \<Longrightarrow> (a :: 'b::linorder asy_entry) = b"
proof (induction ps rule: pairs_less.induct)
  case (2 c1 c2 ps)
  then have "entry_eq c1 c2" "prefactor c1 = prefactor c2" "pairs_less ps = None"
    by (auto split: if_splits)
  with 2 show ?case by (auto simp: entry_eq_def split: if_splits)
qed simp

lemma pairs_less_same: "pairs_less (rev (zip b b)) = None"
proof -
  have "pairs_less (map (\<lambda>x. (x, x)) c) = None" for c :: "'a asy_cost"
    by (induction c) (auto simp: entry_order.lt_irrefl entry_eq_def)
  then show ?thesis by (simp add: zip_same_conv_map rev_map)
qed

lemma cost_less_irrefl: "\<not> cost_less b b"
  by (simp add: cost_less_def pairs_less_same)

lemma cost_less_swap:
  assumes "cost_wf a" "cost_wf b"
  shows "cost_less b a \<longleftrightarrow> \<not> cost_less a b \<and> a \<noteq> b"
proof -
  let ?ps = "rev (zip a b)"
  have wf: "\<forall>(x, y) \<in> set ?ps. entry_wf x \<and> entry_wf y"
    using assms by (auto simp: cost_wf_def dest: set_zip_leftD set_zip_rightD)
  have sw: "rev (zip b a) = map (\<lambda>(x, y). (y, x)) ?ps"
    by (subst zip_commute) (simp add: rev_map)
  have ne: "a \<noteq> b" if "pairs_less ?ps = Some r" for r
    using that pairs_less_same [of b] by auto
  show ?thesis
  proof (cases "pairs_less ?ps")
    case None
    have "length a = length b \<Longrightarrow> a = b"
    proof (rule nth_equalityI)
      fix i assume "length a = length b" "i < length a"
      then have "(a ! i, b ! i) \<in> set ?ps" by (auto simp: set_zip)
      then show "a ! i = b ! i" by (rule pairs_less_None [OF None])
    qed
    then have "length a = length b \<longleftrightarrow> a = b" by auto
    with None show ?thesis
      by (auto simp: cost_less_def sw pairs_less_swap [OF wf] linorder_not_less)
  next
    case (Some r)
    with ne show ?thesis by (auto simp: cost_less_def sw pairs_less_swap [OF wf])
  qed
qed

lemma cost_eq_iff: "cost_wf a \<Longrightarrow> cost_wf b \<Longrightarrow> cost_eq a b \<longleftrightarrow> a = b"
  using cost_less_swap [of a b] cost_less_swap [of a a] by (auto simp: cost_eq_def)

text \<open>On equally many terms the comparison is lexicographic from the most expensive term down.\<close>

fun term_list_less :: "'b::linorder asy_cost \<Rightarrow> 'b asy_cost \<Rightarrow> bool" where
  "term_list_less (x # xs) (y # ys) =
     (entry_less x y \<or> (entry_eq x y \<and> (prefactor x < prefactor y
        \<or> (prefactor x = prefactor y \<and> term_list_less xs ys))))"
| "term_list_less _ _ = False"

lemma pairs_less_lex:
  "length xs = length ys \<Longrightarrow>
   (case pairs_less (zip xs ys) of Some b \<Rightarrow> b | None \<Rightarrow> False) = term_list_less xs ys"
  by (induction xs ys rule: list_induct2) (auto simp: entry_eq_def entry_less_top top_less_irrefl)

lemma cost_less_same_length:
  "length a = length b \<Longrightarrow> cost_less a b = term_list_less (rev a) (rev b)"
  using pairs_less_lex [of "rev a" "rev b"] by (auto simp: cost_less_def zip_rev split: option.splits)

lemma term_list_less_trans:
  "term_list_less xs ys \<Longrightarrow> term_list_less ys zs \<Longrightarrow> term_list_less xs zs"
proof (induction xs zs arbitrary: ys rule: term_list_less.induct)
  case (1 x xs z zs)
  then obtain y ys' where ys: "ys = y # ys'" by (cases ys) auto
  have eqs: "entry_eq x y \<Longrightarrow> entry_less y z \<Longrightarrow> entry_less x z"
    "entry_less x y \<Longrightarrow> entry_eq y z \<Longrightarrow> entry_less x z"
    "entry_eq x y \<Longrightarrow> entry_eq y z \<Longrightarrow> entry_eq x z"
    by (auto simp: entry_eq_def entry_less_top)
  from 1 eqs show ?case unfolding ys
    by (auto intro: entry_order.lt_trans)
qed (simp, case_tac ys, auto)

section \<open>Properties\<close>

lemma cost_add_laws:
  assumes "cost_wf a" "cost_wf b" "cost_wf c"
  shows "cost_add a b = cost_add b a"
    and "cost_add (cost_add a b) c = cost_add a (cost_add b c)"
    and "cost_add a cost_zero = a"
    and "cost_sub a a = cost_zero"
    and "cost_sub (cost_add a b) b = a"
proof -
  have neg: "cost_wf (cost_scale x (- 1))" if "cost_wf x" for x :: "'a asy_cost"
    using that by (simp add: cost_scale_wf)
  note wf = cost_add_wf neg
  note co = coeff_cost_add coeff_cost_scale
  show "cost_add a b = cost_add b a"
    using assms by (intro cost_wf_unique ext) (simp_all add: co wf)
  show "cost_add (cost_add a b) c = cost_add a (cost_add b c)"
    using assms by (intro cost_wf_unique ext) (simp_all add: co wf)
  show "cost_add a cost_zero = a" by (simp add: cost_add_def cost_zero_Nil)
  show "cost_sub a a = cost_zero"
    using assms by (intro cost_wf_unique ext) (simp_all add: co wf cost_sub_def cost_zero_Nil)
  show "cost_sub (cost_add a b) b = a"
    using assms by (intro cost_wf_unique ext) (simp_all add: co wf cost_sub_def)
qed

lemma cost_scale_laws:
  assumes "cost_wf a" "cost_wf b" "r \<noteq> 0"
  shows "cost_scale (cost_add a b) r = cost_add (cost_scale a r) (cost_scale b r)"
    and "cost_div (cost_scale a r) r = Inr a"
proof -
  note co = coeff_cost_add coeff_cost_scale
  show "cost_scale (cost_add a b) r = cost_add (cost_scale a r) (cost_scale b r)"
    using assms by (intro cost_wf_unique ext) (simp_all add: co cost_scale_wf cost_add_wf distrib_right)
  have "cost_scale (cost_scale a r) (1 / r) = a"
    using assms by (intro cost_wf_unique ext) (simp_all add: co cost_scale_wf)
  with assms(3) show "cost_div (cost_scale a r) r = Inr a" by (simp add: cost_div_def)
qed

text \<open>The terms' ordering is a strict weak order in which the total degree decides first and, between
  well-formed terms of one degree, the highest-priority basis on which the exponents differ; its
  equivalence is exactly \<open>operator==\<close>, so that the ordered set of a cost holds one term per monomial.\<close>
theorem entry_less_strict_weak_order:
  assumes "entry_wf a" and "entry_wf b" and "entry_wf c"
  shows "\<not> entry_less a a
    \<and> (entry_less a b \<longrightarrow> entry_less b c \<longrightarrow> entry_less a c)
    \<and> (\<not> entry_less a b \<longrightarrow> \<not> entry_less b c \<longrightarrow> \<not> entry_less a c)
    \<and> (entry_eq a b \<longleftrightarrow> \<not> entry_less a b \<and> \<not> entry_less b a)
    \<and> (is_max a = is_max b \<longrightarrow> total_degree (exponents a) < total_degree (exponents b) \<longrightarrow> entry_less a b)
    \<and> (is_max a = is_max b \<longrightarrow> total_degree (exponents a) = total_degree (exponents b) \<longrightarrow>
        entry_less a b = (\<exists>s. exp_for (exponents a) s < exp_for (exponents b) s
          \<and> (\<forall>t > s. exp_for (exponents a) t = exp_for (exponents b) t)))"
proof (intro conjI)
  show "\<not> entry_less a a" by (rule entry_order.lt_irrefl)
  show "entry_less a b \<longrightarrow> entry_less b c \<longrightarrow> entry_less a c" using entry_order.lt_trans by blast
  show "\<not> entry_less a b \<longrightarrow> \<not> entry_less b c \<longrightarrow> \<not> entry_less a c"
    using entry_order.incomp_trans by blast
  show "entry_eq a b \<longleftrightarrow> \<not> entry_less a b \<and> \<not> entry_less b a"
    using entry_equiv [OF assms(1,2)] by blast
qed (simp_all add: entry_less_top top_less_def)

theorem entry_less_strict_weak_order_witness:
  "entry_less (mk_entry [(1::nat, 3)] 1) (mk_entry [(1, 1), (2, 2)] 1)
    \<and> \<not> entry_eq (mk_entry [(1::nat, 3)] 1) (mk_entry [(1, 1), (2, 2)] 1)
    \<and> entry_less (mk_entry [(1::nat, 3)] 1) (mk_entry [(1, 4)] 1)"
proof -
  let ?a = "mk_entry [(1::nat, 3)] 1" and ?b = "mk_entry [(1::nat, 1), (2, 2)] 1"
    and ?c = "mk_entry [(1::nat, 4)] 1"
  have "entry_wf ?a" "entry_wf ?b" "entry_wf ?c" by code_simp+
  moreover have "entry_less ?a ?b" "entry_less ?b ?c" by code_simp+
  ultimately show ?thesis using entry_less_strict_weak_order [of ?a ?b ?c] by blast
qed

text \<open>C15: Costs form an abelian group: on well-formed costs (terms ascending, one per monomial, no zero
  prefactor) addition keeps the invariant, adds the prefactor of every monomial, is commutative and
  associative with \<open>zero()\<close> neutral, and subtraction undoes it term for term, cancelled terms being
  erased; scaling by a nonzero rational distributes and division undoes it.\<close>
theorem cost_arithmetic_laws:
  assumes "cost_wf a" and "cost_wf b" and "cost_wf c" and "r \<noteq> 0"
  shows "cost_wf (cost_add a b) \<and> cost_wf (cost_sub a b) \<and> cost_wf (cost_scale a r)
    \<and> (\<forall>m. coeff (cost_add a b) m = coeff a m + coeff b m)
    \<and> cost_add a b = cost_add b a
    \<and> cost_add (cost_add a b) c = cost_add a (cost_add b c)
    \<and> cost_add a cost_zero = a
    \<and> cost_sub a a = cost_zero
    \<and> cost_sub (cost_add a b) b = a
    \<and> cost_scale (cost_add a b) r = cost_add (cost_scale a r) (cost_scale b r)
    \<and> cost_div (cost_scale a r) r = Inr a"
proof -
  have "cost_wf (cost_sub a b)"
    using assms by (simp add: cost_sub_def cost_add_wf cost_scale_wf)
  then show ?thesis
    using cost_add_laws [OF assms(1-3)] cost_scale_laws [OF assms(1,2,4)] cost_add_wf [OF assms(1,2)]
      coeff_cost_add [OF assms(1,2)] cost_scale_wf [OF assms(1,4)]
    by blast
qed

theorem cost_arithmetic_laws_witness:
  "cost_sub (cost_add (mk_cost [(1::nat, 2)] 3) (mk_cost [(2, 2)] 1)) (mk_cost [(2, 2)] 1) = mk_cost [(1, 2)] 3
    \<and> length (cost_add (mk_cost [(1::nat, 2)] 3) (mk_cost [(2, 2)] 1)) = 2"
proof -
  let ?a = "mk_cost [(1::nat, 2)] 3" and ?b = "mk_cost [(2::nat, 2)] 1"
  have wf: "cost_wf ?a" "cost_wf ?b" by code_simp+
  have "length (cost_add ?a ?b) = 2" by code_simp
  moreover have "(1 :: rat) \<noteq> 0" by simp
  ultimately show ?thesis using cost_arithmetic_laws [OF wf wf(1), of 1] by blast
qed

text \<open>The comparisons of costs are consistent: for well-formed costs exactly one of \<open>a < b\<close>, \<open>a == b\<close>,
  \<open>b < a\<close> holds, \<open>==\<close> is equality of the term lists, \<open>>\<close>, \<open><=\<close> and \<open>>=\<close> are the ones \<open><\<close> gives, and
  between costs with equally many terms \<open><\<close> is transitive.\<close>
theorem cost_comparisons_consistent:
  assumes "cost_wf a" and "cost_wf b" and "cost_wf c"
  shows "(cost_eq a b \<longleftrightarrow> a = b) \<and> (cost_neq a b \<longleftrightarrow> a \<noteq> b)
    \<and> (cost_less b a \<longleftrightarrow> \<not> cost_less a b \<and> a \<noteq> b)
    \<and> (cost_greater a b \<longleftrightarrow> cost_less b a)
    \<and> (cost_le a b \<longleftrightarrow> \<not> cost_less b a) \<and> (cost_ge a b \<longleftrightarrow> \<not> cost_less a b)
    \<and> (length a = length b \<longrightarrow> length b = length c \<longrightarrow> cost_less a b \<longrightarrow> cost_less b c \<longrightarrow> cost_less a c)"
proof -
  have "length a = length b \<longrightarrow> length b = length c \<longrightarrow> cost_less a b \<longrightarrow> cost_less b c \<longrightarrow> cost_less a c"
    by (auto simp: cost_less_same_length intro: term_list_less_trans)
  then show ?thesis
    using cost_eq_iff [OF assms(1,2)] cost_less_swap [OF assms(1,2)]
    by (auto simp: cost_neq_def cost_greater_def cost_le_def cost_ge_def)
qed

theorem cost_comparisons_consistent_witness:
  "cost_less (mk_cost [(1::nat, 2)] 1) (mk_cost [(2, 3)] 1)
    \<and> \<not> cost_eq (mk_cost [(1::nat, 2)] 1) (mk_cost [(2, 3)] 1)
    \<and> cost_greater (mk_cost [(2, 3)] 1) (mk_cost [(1::nat, 2)] 1)"
proof -
  let ?a = "mk_cost [(1::nat, 2)] 1" and ?b = "mk_cost [(2::nat, 3)] 1"
  have wf: "cost_wf ?a" "cost_wf ?b" by code_simp+
  have "cost_less ?a ?b" "?a \<noteq> ?b" by code_simp+
  then show ?thesis using cost_comparisons_consistent [OF wf wf(1)] cost_comparisons_consistent [OF wf(2,1,1)]
    by simp
qed

text \<open>Between costs with different numbers of terms \<open>operator<\<close> is not an order: the terms are zipped
  from the cheapest end, so the dearest terms need not meet.  With one basis \<open>N\<close>, the cost
  \<open>N + N^4\<close> is less than \<open>N^2\<close>, and \<open>N^2 < N^2 + N^3 < N + N^4 < N^2\<close> is a cycle of well-formed costs.\<close>
theorem cost_less_has_cycle:
  "\<exists>a b c :: nat asy_cost. cost_wf a \<and> cost_wf b \<and> cost_wf c
     \<and> a = mk_cost [(0, 2)] 1
     \<and> b = cost_add (mk_cost [(0, 2)] 1) (mk_cost [(0, 3)] 1)
     \<and> c = cost_add (mk_cost [(0, 1)] 1) (mk_cost [(0, 4)] 1)
     \<and> cost_less a b \<and> cost_less b c \<and> cost_less c a"
proof -
  let ?a = "mk_cost [(0, 2)] 1 :: nat asy_cost"
  let ?b = "cost_add (mk_cost [(0, 2)] 1) (mk_cost [(0, 3)] 1) :: nat asy_cost"
  let ?c = "cost_add (mk_cost [(0, 1)] 1) (mk_cost [(0, 4)] 1) :: nat asy_cost"
  have "cost_wf ?a" "cost_wf ?b" "cost_wf ?c" by code_simp+
  moreover have "cost_less ?a ?b" "cost_less ?b ?c" "cost_less ?c ?a" by code_simp+
  ultimately show ?thesis by blast
qed

end
