(* ===== verification/BitSets.thy ===== *)
theory BitSets
  imports Prelude
begin

text \<open>
  SeQuant/core/algorithm.hpp, namespace \<open>bits\<close>: sets of positions as the set bits of an unsigned
  integer of any width, and the views that enumerate submasks, bipartitions and positions.  A view is
  the list of what one traversal yields; the captured state of its transform is threaded through.
\<close>

unbundle bit_operations_syntax

text \<open>\<open>std::popcount\<close> and \<open>std::countr_zero\<close> at the width of the mask.\<close>

definition popcount :: "'a::len word \<Rightarrow> nat" where
  "popcount w = length (filter (bit w) [0..<LENGTH('a)])"

definition ctz :: "'a::len word \<Rightarrow> nat" where
  "ctz w = length (takeWhile (\<lambda>n. \<not> bit w n) [0..<LENGTH('a)])"

text \<open>The transform's state \<open>p\<close> starts at the mask; each of the given number of calls yields a pair.\<close>

fun bipartition_pairs :: "'a::len word \<Rightarrow> 'a word \<Rightarrow> nat \<Rightarrow> ('a word \<times> 'a word) list" where
  "bipartition_pairs msk p 0 = []"
| "bipartition_pairs msk p (Suc n) =
     (p XOR msk, p) # bipartition_pairs msk ((p - 1) AND msk) n"

definition bipartitions_ordered :: "'a::len word \<Rightarrow> ('a word \<times> 'a word) list" where
  "bipartitions_ordered msk = bipartition_pairs msk msk (2 ^ popcount msk)"

definition bipartitions_unordered :: "'a::len word \<Rightarrow> ('a word \<times> 'a word) list" where
  "bipartitions_unordered msk =
     (let bps = bipartitions_ordered msk in take (length bps div 2) bps)"

definition bipartitions :: "'a::len word \<Rightarrow> ('a word \<times> 'a word) list" where
  "bipartitions msk = bipartitions_unordered msk"

definition subsets_ascending :: "'a::len word \<Rightarrow> 'a word list" where
  "subsets_ascending msk = map fst (bipartitions_ordered msk)"

definition subsets_descending :: "'a::len word \<Rightarrow> 'a word list" where
  "subsets_descending msk = map snd (bipartitions_ordered msk)"

definition subsets :: "'a::len word \<Rightarrow> 'a word list" where
  "subsets msk = subsets_ascending msk"

fun on_bits_from :: "'a::len word \<Rightarrow> nat \<Rightarrow> nat list" where
  "on_bits_from m 0 = []"
| "on_bits_from m (Suc n) = ctz m # on_bits_from (m AND (m - 1)) n"

definition on_bits_index :: "'a::len word \<Rightarrow> nat list" where
  "on_bits_index msk = on_bits_from msk (popcount msk)"

text \<open>\<open>sieve\<close> maps indices into the range; an index outside it is undefined behaviour of the code.\<close>

definition sieve :: "'b list \<Rightarrow> nat list \<Rightarrow> 'b option list" where
  "sieve rng idx = map (\<lambda>i. if i < length rng then Some (rng ! i) else None) idx"

section \<open>The predecessor of a submask\<close>

lemma and_nat_bits:
  fixes a b :: nat
  shows "(2 * a) AND (2 * b) = 2 * (a AND b)" "(2 * a) AND (Suc (2 * b)) = 2 * (a AND b)"
    "(Suc (2 * a)) AND (2 * b) = 2 * (a AND b)" "(Suc (2 * a)) AND (Suc (2 * b)) = Suc (2 * (a AND b))"
  by (simp_all add: and_nat_rec [of "2 * a"] and_nat_rec [of "Suc (2 * a)"])

lemma nat_bit_cases:
  obtains (even) k where "n = 2 * k" | (odd) k where "n = Suc (2 * k)"
  by (metis evenE oddE Suc_eq_plus1)

lemma pred_submask_nat:
  fixes p m :: nat
  assumes "p AND m = p" "0 < p"
  shows "(p - 1) AND m < p \<and> ((p - 1) AND m) AND m = (p - 1) AND m
    \<and> (\<forall>q. q AND m = q \<longrightarrow> q < p \<longrightarrow> q \<le> (p - 1) AND m)"
proof (intro conjI allI impI)
  show "((p - 1) AND m) AND m = (p - 1) AND m" by (simp add: and.assoc)
  have "(p - 1) AND m \<le> p - 1" by (simp add: and_nat_def nat_le_iff)
  with assms(2) show "(p - 1) AND m < p" by simp
  fix q assume "q AND m = q" "q < p"
  with assms show "q \<le> (p - 1) AND m"
  proof (induction p arbitrary: m q rule: less_induct)
    case (less p)
    show ?case
    proof (cases p rule: nat_bit_cases)
      case (odd p')
      show ?thesis
      proof (cases m rule: nat_bit_cases)
        case even
        with less.prems(1) odd show ?thesis by (auto simp: and_nat_bits) presburger
      next
        case (odd m')
        with less.prems \<open>p = Suc (2 * p')\<close> show ?thesis by (auto simp: and_nat_bits)
      qed
    next
      case (even p')
      with less.prems(2) obtain r where r: "p' = Suc r" by (cases p') auto
      have IH: "q' AND m' = q' \<Longrightarrow> q' < p' \<Longrightarrow> p' AND m' = p' \<Longrightarrow> q' \<le> r AND m'" for q' m'
        using less.IH [of p' m' q'] even r by simp
      have pred: "p - 1 = Suc (2 * r)" using even r by simp
      obtain m' where m': "m = 2 * m' \<or> m = Suc (2 * m')" by (cases m rule: nat_bit_cases) auto
      have pm: "p' AND m' = p'" using less.prems(1) m' by (auto simp: even and_nat_bits)
      obtain q' where q': "q = 2 * q' \<or> q = Suc (2 * q')" by (cases q rule: nat_bit_cases) auto
      then have lt: "q' < p'" using less.prems(4) even by auto
      have qm: "q' AND m' = q'" "m = 2 * m' \<longrightarrow> q = 2 * q'"
        using less.prems(3) q' m' by (auto simp: and_nat_bits) presburger+
      have "q' \<le> r AND m'" using IH qm(1) lt pm by blast
      then show ?thesis using m' q' qm(2) unfolding pred by (auto simp: and_nat_bits)
    qed
  qed
qed

lemma pred_submask:
  fixes p m :: "'a::len word"
  assumes "p AND m = p" "p \<noteq> 0"
  shows "(p - 1) AND m < p" "((p - 1) AND m) AND m = (p - 1) AND m"
    and "q AND m = q \<Longrightarrow> q < p \<Longrightarrow> q \<le> (p - 1) AND m"
proof -
  have n: "unat p AND unat m = unat p" "0 < unat p" "unat (p - 1) = unat p - 1"
    using assms by (metis unsigned_and_eq, simp add: unat_gt_0, simp add: unat_minus_one)
  note pr = pred_submask_nat [OF n(1,2)]
  show "(p - 1) AND m < p" using pr n(3) by (simp add: word_less_nat_alt unsigned_and_eq)
  show "((p - 1) AND m) AND m = (p - 1) AND m" by (simp add: and.assoc)
  assume "q AND m = q" "q < p"
  then have "unat q AND unat m = unat q" "unat q < unat p" by (metis unsigned_and_eq, simp add: word_less_nat_alt)
  with pr n(3) show "q \<le> (p - 1) AND m" by (simp add: word_le_nat_alt unsigned_and_eq)
qed

definition submasks :: "'a::len word \<Rightarrow> 'a word set" where
  "submasks m = {q. q AND m = q}"

lemma submasks_alt: "q \<in> submasks m \<longleftrightarrow> (\<forall>n. bit q n \<longrightarrow> bit m n)"
proof
  assume "q \<in> submasks m"
  then have "q AND m = q" by (simp add: submasks_def)
  then show "\<forall>n. bit q n \<longrightarrow> bit m n" by (metis bit_and_iff)
next
  assume "\<forall>n. bit q n \<longrightarrow> bit m n"
  then have "q AND m = q" by (intro bit_eqI) (auto simp: bit_and_iff)
  then show "q \<in> submasks m" by (simp add: submasks_def)
qed

lemma finite_submasks: "finite (submasks m)"
  by (rule finite)

lemma card_submasks: "card (submasks m) = 2 ^ popcount (m :: 'a::len word)"
proof -
  let ?B = "{n. bit m n}"
  have B: "?B = set (filter (bit m) [0..<LENGTH('a)])" by (auto dest: bit_imp_le_length)
  then have cB: "card ?B = popcount m" by (metis B distinct_card distinct_filter distinct_upt popcount_def)
  have fB: "finite ?B" unfolding B by simp
  have "bij_betw (\<lambda>q. {n. bit q n}) (submasks m) (Pow ?B)"
  proof (rule bij_betw_imageI)
    show "inj_on (\<lambda>q. {n. bit q n}) (submasks m)"
      by (rule inj_onI) (auto intro!: bit_eqI)
    show "(\<lambda>q. {n. bit q n}) ` submasks m = Pow ?B"
    proof (intro equalityI subsetI)
      fix A assume "A \<in> (\<lambda>q. {n. bit q n}) ` submasks m"
      then show "A \<in> Pow ?B" by (auto simp: submasks_alt)
    next
      fix A assume A: "A \<in> Pow ?B"
      define q :: "'a word" where "q = horner_sum of_bool 2 (map (\<lambda>n. n \<in> A) [0..<LENGTH('a)])"
      have "n < LENGTH('a)" if "n \<in> A" for n using A that by (auto intro: bit_imp_le_length)
      then have "bit q n = (n \<in> A)" for n
        by (cases "n < LENGTH('a)") (auto simp: q_def bit_horner_sum_bit_iff)
      then show "A \<in> (\<lambda>q. {n. bit q n}) ` submasks m"
        using A by (intro image_eqI [of _ _ q]) (auto simp: submasks_alt)
    qed
  qed
  then have "card (submasks m) = card (Pow ?B)" by (rule bij_betw_same_card)
  then show ?thesis using cB fB by (simp add: card_Pow)
qed

lemma bipartition_pairs_snd:
  assumes "p \<in> submasks m" "n = card {q \<in> submasks m. q \<le> p}"
  shows "set (map snd (bipartition_pairs m p n)) = {q \<in> submasks m. q \<le> p}
    \<and> sorted_wrt (>) (map snd (bipartition_pairs m p n))"
  using assms
proof (induction n arbitrary: p)
  case 0
  then show ?case by (simp add: finite_submasks)
next
  case (Suc n)
  let ?p = "(p - 1) AND m"
  show ?case
  proof (cases "p = 0")
    case True
    then have "{q \<in> submasks m. q \<le> p} = {0}" by (auto simp: submasks_def)
    with Suc.prems True show ?thesis by simp
  next
    case False
    have pm: "p AND m = p" using Suc.prems(1) by (simp add: submasks_def)
    note pr = pred_submask [OF pm False]
    have eq: "{q \<in> submasks m. q \<le> p} = insert p {q \<in> submasks m. q \<le> ?p}"
      using pr(1,3) Suc.prems(1) by (auto simp: submasks_def order_le_less intro: order.strict_trans1)
    have sub: "?p \<in> submasks m" using pr(2) by (simp add: submasks_def)
    have "p \<notin> {q \<in> submasks m. q \<le> ?p}" using pr(1) by (simp add: not_le)
    then have "n = card {q \<in> submasks m. q \<le> ?p}" using Suc.prems(2) eq finite_submasks by simp
    from Suc.IH [OF sub this] have IH: "set (map snd (bipartition_pairs m ?p n)) = {q \<in> submasks m. q \<le> ?p}"
      "sorted_wrt (>) (map snd (bipartition_pairs m ?p n))" by auto
    show ?thesis using IH eq pr(1) by auto
  qed
qed

lemma subsets_descending_correct:
  "set (subsets_descending m) = submasks m \<and> sorted_wrt (>) (subsets_descending m)"
proof -
  have "{q \<in> submasks m. q \<le> m} = submasks m" by (auto simp: submasks_def word_and_le1) (metis word_and_le1)
  moreover have "m \<in> submasks m" by (simp add: submasks_def)
  ultimately show ?thesis
    using bipartition_pairs_snd [of m m "2 ^ popcount m"]
    by (simp add: subsets_descending_def bipartitions_ordered_def card_submasks)
qed

lemma bipartitions_fst: "bipartitions_ordered m = map (\<lambda>q. (q XOR m, q)) (subsets_descending m)"
proof -
  have "bipartition_pairs m p n = map (\<lambda>q. (q XOR m, q)) (map snd (bipartition_pairs m p n))" for p n
    by (induction m p n rule: bipartition_pairs.induct) auto
  then show ?thesis by (simp add: bipartitions_ordered_def subsets_descending_def comp_def)
qed

lemma xor_submask: "q \<in> submasks m \<Longrightarrow> q XOR m \<in> submasks m"
  by (auto simp: submasks_alt bit_xor_iff)

lemma complement_antimono: "q \<in> submasks m \<Longrightarrow> unat (q XOR m) = unat m - unat q"
proof -
  assume "q \<in> submasks m"
  then have "q AND (q XOR m) = 0" "q OR (q XOR m) = m"
    by (auto simp: submasks_alt bit_eq_iff bit_and_iff bit_or_iff bit_xor_iff)
  then have "m = q + (q XOR m)" using disjunctive_add_eq_or [of q "q XOR m"] by simp
  moreover have "q \<le> m" using \<open>q \<in> submasks m\<close> by (metis (mono_tags, lifting) mem_Collect_eq submasks_def word_and_le1)
  ultimately show ?thesis by (metis add_diff_cancel_left' unat_sub)
qed

lemma subsets_ascending_correct:
  "set (subsets_ascending m) = submasks m \<and> sorted_wrt (<) (subsets_ascending m)"
proof -
  have eq: "subsets_ascending m = map (\<lambda>q. q XOR m) (subsets_descending m)"
    by (simp add: subsets_ascending_def bipartitions_fst comp_def)
  have "sorted_wrt (\<lambda>x y. x XOR m < y XOR m) (subsets_descending m)"
  proof (rule sorted_wrt_mono_rel [of _ "(>)"])
    fix x y assume "x \<in> set (subsets_descending m)" "y \<in> set (subsets_descending m)" "x > y"
    then have s: "x \<in> submasks m" "y \<in> submasks m" using subsets_descending_correct [of m] by auto
    then have "x \<le> m" by (metis (mono_tags, lifting) mem_Collect_eq submasks_def word_and_le1)
    with \<open>x > y\<close> s show "x XOR m < y XOR m"
      by (simp add: word_less_nat_alt word_le_nat_alt complement_antimono)
  qed (use subsets_descending_correct in blast)
  moreover have "(\<lambda>q. q XOR m) ` submasks m = submasks m"
  proof (intro equalityI subsetI)
    fix q assume "q \<in> submasks m"
    then show "q \<in> (\<lambda>q. q XOR m) ` submasks m"
      by (intro image_eqI [of _ _ "q XOR m"]) (simp_all add: xor.assoc xor_submask)
  qed (auto simp: xor_submask)
  ultimately show ?thesis using subsets_descending_correct [of m] by (simp add: eq sorted_wrt_map)
qed

lemma on_bits_nat:
  fixes m :: nat
  assumes "0 < m"
  shows "\<exists>k. bit m k \<and> (\<forall>j < k. \<not> bit m j) \<and> (\<forall>n. bit (m AND (m - 1)) n \<longleftrightarrow> bit m n \<and> n \<noteq> k)"
  using assms
proof (induction m rule: less_induct)
  case (less m)
  show ?case
  proof (cases m rule: nat_bit_cases)
    case (odd a)
    then have "m AND (m - 1) = 2 * a" by (simp add: and_nat_bits)
    moreover have "bit (Suc (2 * a)) n \<longleftrightarrow> n = 0 \<or> bit (2 * a) n" for n
      by (cases n) (simp_all add: bit_0 bit_Suc)
    ultimately show ?thesis using odd by (intro exI [of _ 0]) (auto simp: bit_0 intro!: gr0I)
  next
    case (even a)
    with less.prems obtain b where b: "a = Suc b" by (cases a) auto
    have "m - 1 = Suc (2 * b)" using even b by simp
    then have eq: "m AND (m - 1) = 2 * (a AND (a - 1))" using even b by (simp only: and_nat_bits) simp
    obtain k where k: "bit a k" "\<forall>j < k. \<not> bit a j" "\<forall>n. bit (a AND (a - 1)) n \<longleftrightarrow> bit a n \<and> n \<noteq> k"
      using less.IH [of a] even less.prems by auto
    have "bit (2 * x) n \<longleftrightarrow> 0 < n \<and> bit x (n - 1)" for x n :: nat by (cases n) (auto simp: bit_double_iff)
    then have dbl: "bit (2 * x) 0 = False" "bit (2 * x) (Suc n) = bit x n" for x n :: nat by simp_all
    have 1: "bit (2 * (a AND (a - 1))) n \<longleftrightarrow> bit (2 * a) n \<and> n \<noteq> Suc k" for n
      using k(3) by (cases n) (simp_all only: dbl, simp_all)
    have 2: "\<not> bit (2 * a) j" if "j < Suc k" for j
      using k(2) that by (cases j) (simp_all only: dbl, simp_all)
    have 3: "bit (2 * a) (Suc k)" using k(1) by (simp only: dbl)
    show ?thesis unfolding eq unfolding even
      by (rule exI [of _ "Suc k"], intro conjI allI impI) (rule 3, erule 2, rule 1)
  qed
qed

lemma on_bits_step:
  fixes m :: "'a::len word"
  assumes "m \<noteq> 0"
  shows "filter (bit m) [0..<LENGTH('a)] = ctz m # filter (bit (m AND (m - 1))) [0..<LENGTH('a)]"
proof -
  have n: "0 < unat m" "unat (m - 1) = unat m - 1" using assms by (simp add: unat_gt_0, simp add: unat_minus_one)
  obtain k where "bit (unat m) k" "\<forall>j < k. \<not> bit (unat m) j"
    "\<forall>n. bit (unat m AND (unat m - 1)) n \<longleftrightarrow> bit (unat m) n \<and> n \<noteq> k"
    using on_bits_nat [OF n(1)] by blast
  then have k: "bit m k" "\<forall>j < k. \<not> bit m j" "\<forall>n. bit (m AND (m - 1)) n \<longleftrightarrow> bit m n \<and> n \<noteq> k"
    unfolding n(2) [symmetric] unsigned_and_eq [symmetric] by (auto simp: bit_unsigned_iff)
  have lt: "k < LENGTH('a)" using k(1) by (rule bit_imp_le_length)
  then have split: "[0..<LENGTH('a)] = [0..<k] @ k # [Suc k..<LENGTH('a)]"
    by (metis le0 less_imp_le_nat upt_conv_Cons upt_append)
  have low: "filter (bit w) [0..<k] = []" if "\<forall>j < k. \<not> bit w j" for w :: "'a word"
    using that by (auto simp: filter_empty_conv)
  have "ctz m = k" unfolding ctz_def split using k(1,2) by (subst takeWhile_append2) auto
  moreover have "filter (bit m) [Suc k..<LENGTH('a)] = filter (bit (m AND (m - 1))) [Suc k..<LENGTH('a)]"
    using k(3) by (intro filter_cong) auto
  ultimately show ?thesis unfolding split using k low by simp
qed

lemma on_bits_index_eq: "on_bits_index m = filter (bit m) [0..<LENGTH('a)]" for m :: "'a::len word"
proof -
  have "on_bits_from m n = filter (bit m) [0..<LENGTH('a)]" if "n = popcount m" for n and m :: "'a word"
    using that
  proof (induction n arbitrary: m)
    case 0
    then show ?case by (simp add: popcount_def)
  next
    case (Suc n)
    then have "m \<noteq> 0" by (auto simp: popcount_def)
    from on_bits_step [OF this] Suc show ?case by (simp add: popcount_def)
  qed
  then show ?thesis by (simp add: on_bits_index_def)
qed

lemma subsets_ascending_rev: "subsets_ascending m = rev (subsets_descending m)"
  using subsets_ascending_correct [of m] subsets_descending_correct [of m]
  by (intro ssorted_unique) (simp_all add: sorted_wrt_rev)

text \<open>C17: \<open>subsets_ascending\<close> and \<open>subsets_descending\<close> list every submask exactly once, in strictly ascending
  and descending numerical order, and \<open>on_bits_index\<close> the positions of the set bits in ascending order.\<close>
theorem subset_views_enumerate:
  fixes m :: "'a::len word"
  shows "set (subsets m) = {q. q AND m = q} \<and> sorted_wrt (<) (subsets m)
    \<and> set (subsets_descending m) = {q. q AND m = q} \<and> sorted_wrt (>) (subsets_descending m)
    \<and> subsets_ascending m = rev (subsets_descending m)
    \<and> length (subsets m) = 2 ^ popcount m
    \<and> on_bits_index m = filter (bit m) [0..<LENGTH('a)]"
proof -
  note asc = subsets_ascending_correct [of m] and desc = subsets_descending_correct [of m]
  have "length (subsets_ascending m) = 2 ^ popcount m"
    using asc card_submasks [of m] ssorted_distinct distinct_card by metis
  then show ?thesis using asc desc by (simp add: subsets_def submasks_def on_bits_index_eq subsets_ascending_rev)
qed

lemma bipartition_facts:
  fixes m :: "'a::len word"
  shows "set (bipartitions_ordered m) = {(a, b). a OR b = m \<and> a AND b = 0}
    \<and> distinct (bipartitions_ordered m)
    \<and> (m \<noteq> 0 \<longrightarrow> (\<forall>a b. a OR b = m \<longrightarrow> a AND b = 0 \<longrightarrow>
          ((a, b) \<in> set (bipartitions m)) \<noteq> ((b, a) \<in> set (bipartitions m))))
    \<and> bipartitions (0 :: 'a word) = []"
proof -
  let ?D = "subsets_descending m"
  have D: "set ?D = submasks m" "sorted_wrt (>) ?D" using subsets_descending_correct [of m] by auto
  have dist: "distinct ?D" using D(2) by (metis distinct_rev sorted_wrt_rev ssorted_distinct)
  have len: "length ?D = 2 ^ popcount m" using D(1) dist card_submasks [of m] distinct_card by metis
  have part: "a OR b = m \<and> a AND b = 0 \<longleftrightarrow> b \<in> submasks m \<and> a = b XOR m" for a b :: "'a word"
  proof
    assume ab: "a OR b = m \<and> a AND b = 0"
    have bits: "bit m n \<longleftrightarrow> bit a n \<or> bit b n" "\<not> (bit a n \<and> bit b n)" for n
    proof -
      show "bit m n \<longleftrightarrow> bit a n \<or> bit b n" using ab by (auto simp: bit_or_iff)
      have "\<not> bit (a AND b) n" using ab by simp
      then show "\<not> (bit a n \<and> bit b n)" unfolding bit_and_iff .
    qed
    then have "b AND m = b" "b XOR m = a"
      by (intro bit_eqI; auto simp: bit_and_iff bit_xor_iff)+
    then show "b \<in> submasks m \<and> a = b XOR m" by (simp add: submasks_def)
  next
    assume "b \<in> submasks m \<and> a = b XOR m"
    then show "a OR b = m \<and> a AND b = 0"
      by (auto simp: submasks_alt bit_simps intro!: bit_eqI)
  qed
  have ordered: "set (bipartitions_ordered m) = {(a, b). a OR b = m \<and> a AND b = 0}"
    unfolding part by (auto simp: bipartitions_fst D(1))
  have "distinct (bipartitions_ordered m)" using dist by (simp add: bipartitions_fst distinct_map inj_on_def)
  moreover have "((a, b) \<in> set (bipartitions m)) \<noteq> ((b, a) \<in> set (bipartitions m))"
    if m0: "m \<noteq> 0" and ab: "a OR b = m" "a AND b = 0" for a b
  proof -
    define h where "h = length ?D div 2"
    have b: "b \<in> submasks m" "a = b XOR m" and a: "a \<in> submasks m" "b = a XOR m"
      using part [of a b] part [of b a] ab by (auto simp: or.commute and.commute)
    have "popcount m \<noteq> 0" using m0 on_bits_step [OF m0] by (auto simp: popcount_def)
    then obtain k where "popcount m = Suc k" by (cases "popcount m") auto
    then have h: "length ?D = 2 * h" using len by (simp add: h_def)
    have mem: "(x, y) \<in> set (bipartitions m) \<longleftrightarrow> y \<in> set (take h ?D)" if "y \<in> submasks m" "x = y XOR m" for x y
      using that by (auto simp: bipartitions_def bipartitions_unordered_def Let_def bipartitions_fst h_def
          take_map image_iff)
    have comp_nth: "?D ! i XOR m = ?D ! (length ?D - Suc i)" if "i < length ?D" for i
    proof -
      have "rev ?D = map (\<lambda>q. q XOR m) ?D"
        using subsets_ascending_rev [of m] by (simp add: subsets_ascending_def bipartitions_fst comp_def)
      then show ?thesis using that by (metis nth_map rev_nth)
    qed
    obtain i where i: "i < length ?D" "b = ?D ! i" using b(1) D(1) by (metis in_set_conv_nth)
    have a_nth: "a = ?D ! (length ?D - Suc i)" using comp_nth [OF i(1)] b(2) i(2) by simp
    have idx: "?D ! j \<in> set (take h ?D) \<longleftrightarrow> j < h" if "j < length ?D" for j
      using that h dist by (auto simp: in_set_conv_nth nth_eq_iff_index_eq)
    have "(a, b) \<in> set (bipartitions m) \<longleftrightarrow> i < h" using mem [OF b] idx [OF i(1)] i(2) by simp
    moreover have "(b, a) \<in> set (bipartitions m) \<longleftrightarrow> length ?D - Suc i < h"
      using mem [OF a] idx [of "length ?D - Suc i"] i(1) a_nth by simp
    moreover have "length ?D - Suc i < h \<longleftrightarrow> \<not> i < h" using h i(1) by linarith
    ultimately show ?thesis by simp
  qed
  moreover have "bipartitions (0 :: 'a word) = []"
    by (simp add: bipartitions_def bipartitions_unordered_def bipartitions_ordered_def popcount_def)
  ultimately show ?thesis using ordered by blast
qed

text \<open>\<open>bipartitions_ordered\<close> lists exactly the pairs of complementary submasks, and the unordered
  \<open>bipartitions\<close> of a nonzero mask hold each of them in exactly one of its two orders; of the zero mask,
  whose only bipartition is the pair of empty sets, they hold none.\<close>
theorem bipartitions_enumerate:
  fixes m :: "'a::len word"
  shows "set (bipartitions_ordered m) = {(a, b). a OR b = m \<and> a AND b = 0}
    \<and> distinct (bipartitions_ordered m)
    \<and> (m \<noteq> 0 \<longrightarrow> (\<forall>a b. a OR b = m \<longrightarrow> a AND b = 0 \<longrightarrow>
          ((a, b) \<in> set (bipartitions m)) \<noteq> ((b, a) \<in> set (bipartitions m))))
    \<and> bipartitions (0 :: 'a word) = []"
  by (rule bipartition_facts)

lemma bipartitions_enumerate_witness:
  "((1, 4) \<in> set (bipartitions (5 :: 8 word))) \<noteq> ((4, 1) \<in> set (bipartitions (5 :: 8 word)))"
proof -
  have "(5 :: 8 word) \<noteq> 0" "(1 :: 8 word) OR 4 = 5" "(1 :: 8 word) AND 4 = 0" by simp_all
  then show ?thesis using bipartitions_enumerate [of "5 :: 8 word"] by blast
qed

end
