(* ===== verification/Sorting.thy ===== *)
theory Sorting
  imports Prelude "HOL-Library.Signed_Division"
begin

text \<open>
  SeQuant/core/algorithm.hpp, the part on sequences: \<open>bubble_sort\<close> with the count of its swaps,
  \<open>bubble_sort_parity\<close>, \<open>find_position\<close>, \<open>has_duplicates\<close> and \<open>next_permutation_parity\<close>.  A range is a
  list, a zipped range a list of pairs whose components are swapped one after the other.  The
  do-while loop of \<open>bubble_sort\<close> may run forever, so its result is an option.
\<close>

section \<open>The operations\<close>

text \<open>One run of the inner loop: the list after it and the number of its swaps (\<open>swapped\<close> is \<open>0 < n\<close>).\<close>

fun bubble_pass :: "('a \<Rightarrow> 'a \<Rightarrow> bool) \<Rightarrow> 'a list \<Rightarrow> 'a list \<times> nat" where
  "bubble_pass cmp (x # y # zs) =
     (if cmp y x then (let (r, n) = bubble_pass cmp (x # zs) in (y # r, Suc n))
      else (let (r, n) = bubble_pass cmp (y # zs) in (x # r, n)))"
| "bubble_pass cmp xs = (xs, 0)"

partial_function (option) bubble_sort :: "('a \<Rightarrow> 'a \<Rightarrow> bool) \<Rightarrow> 'a list \<Rightarrow> ('a list \<times> nat) option" where
  "bubble_sort cmp xs =
     (let (ys, n) = bubble_pass cmp xs
      in if n = 0 then Some (ys, 0)
         else Option.bind (bubble_sort cmp ys) (\<lambda>(zs, m). Some (zs, n + m)))"

declare bubble_sort.simps [code]

text \<open>The comparator of zipped ranges.\<close>

definition composite_compare :: "('a \<Rightarrow> 'a \<Rightarrow> bool) \<Rightarrow> 'a \<times> 'a \<Rightarrow> 'a \<times> 'a \<Rightarrow> bool" where
  "composite_compare cmp c0 c1 =
     (if cmp (fst c0) (fst c1) then True
      else if \<not> cmp (fst c1) (fst c0) then cmp (snd c0) (snd c1)
      else False)"

text \<open>
  The branch of zipped ranges: neighbours are exchanged by swapping their components, so each exchange is two
  swaps of the counted element type.
\<close>

definition composite_swap :: "'a \<times> 'a \<Rightarrow> 'a \<times> 'a \<Rightarrow> ('a \<times> 'a) \<times> ('a \<times> 'a)" where
  "composite_swap c0 c1 = (let (a, b) = (fst c1, fst c0); (a', b') = (snd c1, snd c0) in ((a, a'), (b, b')))"

fun zipped_pass :: "('a \<Rightarrow> 'a \<Rightarrow> bool) \<Rightarrow> ('a \<times> 'a) list \<Rightarrow> ('a \<times> 'a) list \<times> nat" where
  "zipped_pass cmp (x # y # zs) =
     (if composite_compare cmp y x
      then (let (x', y') = composite_swap x y; (r, n) = zipped_pass cmp (y' # zs) in (x' # r, n + 2))
      else (let (r, n) = zipped_pass cmp (y # zs) in (x # r, n)))"
| "zipped_pass cmp xs = (xs, 0)"

partial_function (option) bubble_sort_zipped :: "('a \<Rightarrow> 'a \<Rightarrow> bool) \<Rightarrow> ('a \<times> 'a) list \<Rightarrow> (('a \<times> 'a) list \<times> nat) option" where
  "bubble_sort_zipped cmp xs =
     (let (ys, n) = zipped_pass cmp xs
      in if n = 0 then Some (ys, 0)
         else Option.bind (bubble_sort_zipped cmp ys) (\<lambda>(zs, m). Some (zs, n + m)))"

declare bubble_sort_zipped.simps [code]

text \<open>The swap counter is reset, the range sorted, and the counter read.\<close>

definition bubble_sort_parity :: "('a \<Rightarrow> 'a \<Rightarrow> bool) \<Rightarrow> 'a list \<Rightarrow> ('a list \<times> int) option" where
  "bubble_sort_parity cmp xs =
     map_option (\<lambda>(ys, n). (ys, if even n then 1 else - 1)) (bubble_sort cmp xs)"

fun find_position_from :: "nat \<Rightarrow> 'a list \<Rightarrow> 'a \<Rightarrow> nat option" where
  "find_position_from pos [] v = None"
| "find_position_from pos (x # xs) v = (if x = v then Some pos else find_position_from (Suc pos) xs v)"

definition find_position :: "'a list \<Rightarrow> 'a \<Rightarrow> nat option" where
  "find_position xs v = find_position_from 0 xs v"

fun has_duplicates :: "'a list \<Rightarrow> bool" where
  "has_duplicates [] = False"
| "has_duplicates (x # xs) = (if List.find (\<lambda>y. y = x) xs \<noteq> None then True else has_duplicates xs)"

text \<open>The inner search \<open>while (!comp(*i, *(--j)))\<close> starts at \<open>last\<close>.\<close>

fun last_greater :: "('a \<Rightarrow> 'a \<Rightarrow> bool) \<Rightarrow> 'a list \<Rightarrow> 'a \<Rightarrow> nat \<Rightarrow> nat" where
  "last_greater cmp xs v 0 = 0"
| "last_greater cmp xs v (Suc k) = (if cmp v (xs ! k) then k else last_greater cmp xs v k)"

definition iter_swap :: "'a list \<Rightarrow> nat \<Rightarrow> nat \<Rightarrow> 'a list" where
  "iter_swap xs i j = xs[i := xs ! j, j := xs ! i]"

text \<open>\<open>p % 2\<close> of the code truncates towards zero.\<close>

fun next_perm_loop :: "('a \<Rightarrow> 'a \<Rightarrow> bool) \<Rightarrow> int \<Rightarrow> 'a list \<Rightarrow> nat \<Rightarrow> bool \<times> int \<times> 'a list" where
  "next_perm_loop cmp parity xs 0 = (False, parity, xs)"
| "next_perm_loop cmp parity xs (Suc i) =
     (if cmp (xs ! i) (xs ! Suc i)
      then (let j = last_greater cmp xs (xs ! i) (length xs);
                p = parity + 1 + int ((length xs - Suc i) div 2);
                ys = iter_swap xs i j
            in (True, p smod 2, take (Suc i) ys @ rev (drop (Suc i) ys)))
      else if i = 0 then (False, (parity + int (length xs div 2)) smod 2, rev xs)
      else next_perm_loop cmp parity xs i)"

definition next_permutation_parity ::
    "('a \<Rightarrow> 'a \<Rightarrow> bool) \<Rightarrow> int \<Rightarrow> 'a list \<Rightarrow> bool \<times> int \<times> 'a list" where
  "next_permutation_parity cmp parity xs =
     (if xs = [] \<or> length xs - 1 = 0 then (False, parity, xs)
      else next_perm_loop cmp parity xs (length xs - 1))"

section \<open>Searching\<close>

lemma find_position_from_eq:
  "find_position_from pos xs v =
     (if v \<in> set xs then Some (pos + length (takeWhile (\<lambda>x. x \<noteq> v) xs)) else None)"
  by (induction xs arbitrary: pos) auto

lemma find_position_Some:
  "find_position xs v = Some n \<longleftrightarrow> n < length xs \<and> xs ! n = v \<and> (\<forall>m < n. xs ! m \<noteq> v)"
proof -
  let ?k = "length (takeWhile (\<lambda>x. x \<noteq> v) xs)"
  have before: "m < ?k \<Longrightarrow> xs ! m \<noteq> v" for m by (metis (mono_tags, lifting) nth_mem set_takeWhileD takeWhile_nth)
  show ?thesis
  proof (cases "v \<in> set xs")
    case True
    then have k: "?k < length xs" by (metis (mono_tags, lifting) length_takeWhile_le nat_less_le takeWhile_eq_all_conv takeWhile_eq_take take_all_iff)
    then have "xs ! ?k = v" using nth_length_takeWhile by blast
    then show ?thesis using True k before by (auto simp: find_position_def find_position_from_eq) (metis linorder_neqE_nat)
  next
    case False
    then show ?thesis by (auto simp: find_position_def find_position_from_eq)
  qed
qed

lemma has_duplicates_iff: "has_duplicates xs \<longleftrightarrow> \<not> distinct xs"
  by (induction xs) (auto simp: find_None_iff)

section \<open>Bubble sort\<close>

text \<open>The pairs of positions in the wrong order.\<close>

fun inversions :: "('a \<Rightarrow> 'a \<Rightarrow> bool) \<Rightarrow> 'a list \<Rightarrow> nat" where
  "inversions cmp [] = 0"
| "inversions cmp (x # xs) = size (filter_mset (\<lambda>y. cmp y x) (mset xs)) + inversions cmp xs"

lemma pass_induct [case_names step Nil single]:
  assumes "\<And>x y zs. (cmp y x \<Longrightarrow> P (x # zs)) \<Longrightarrow> (\<not> cmp y x \<Longrightarrow> P (y # zs)) \<Longrightarrow> P (x # y # zs)"
    and "P []" and "\<And>x. P [x]"
  shows "P xs"
proof (induction "length xs" arbitrary: xs rule: less_induct)
  case less
  consider "xs = []" | x where "xs = [x]" | x y zs where "xs = x # y # zs" by (metis list.exhaust)
  then show ?case using less assms by cases auto
qed

lemma bubble_pass_mset: "mset (fst (bubble_pass cmp xs)) = mset xs"
  by (induction xs rule: pass_induct [of cmp]) (auto simp: Let_def split: prod.splits)

lemma inversions_sorted: "sorted_wrt (\<lambda>x y. \<not> cmp y x) xs \<Longrightarrow> inversions cmp xs = 0"
  by (induction xs) (auto simp flip: mset_filter simp: filter_empty_conv)

lemma bubble_sort_reflexive:
  assumes "cmp x x"
  shows "bubble_sort cmp [x, x] = None"
proof -
  have "cmp x x \<longrightarrow> xs \<noteq> [x, x]" if "bubble_sort cmp xs = Some r" for xs r
    by (rule bubble_sort.raw_induct [where P = "\<lambda>cmp xs r. cmp x x \<longrightarrow> xs \<noteq> [x, x]", OF _ that])
      (auto simp: Let_def bind_eq_Some_conv split: prod.splits if_splits, blast)
  with assms show ?thesis by (cases "bubble_sort cmp [x, x]") auto
qed

context strict_weak_order
begin

lemma pass_inversions:
  "inversions lt (fst (bubble_pass lt xs)) + snd (bubble_pass lt xs) = inversions lt xs"
proof (induction xs rule: pass_induct [of lt])
  case (step x y zs)
  have "mset (fst (bubble_pass lt (x # zs))) = mset (x # zs)" "mset (fst (bubble_pass lt (y # zs))) = mset (y # zs)"
    by (rule bubble_pass_mset)+
  with step lt_asym [of y x] show ?case by (auto simp: Let_def split: prod.splits)
qed auto

lemma pass_class:
  "filter (\<lambda>x. \<not> lt x v \<and> \<not> lt v x) (fst (bubble_pass lt xs)) = filter (\<lambda>x. \<not> lt x v \<and> \<not> lt v x) xs"
proof (induction xs rule: pass_induct [of lt])
  case (step x y zs)
  have "lt y x \<Longrightarrow> \<not> lt x v \<Longrightarrow> \<not> lt v x \<Longrightarrow> \<not> lt y v \<Longrightarrow> \<not> lt v y \<Longrightarrow> False"
    using incomp_trans by blast
  then show ?case using step by (auto simp: Let_def split: prod.splits)
qed auto

lemma pass_done: "snd (bubble_pass lt xs) = 0 \<Longrightarrow> fst (bubble_pass lt xs) = xs \<and> sorted_wrt (\<lambda>x y. \<not> lt y x) xs"
proof (induction xs rule: pass_induct [of lt])
  case (step x y zs)
  then have nxy: "\<not> lt y x" and IH: "fst (bubble_pass lt (y # zs)) = y # zs" "sorted_wrt (\<lambda>x y. \<not> lt y x) (y # zs)"
    by (auto simp: Let_def split: prod.splits if_splits)
  then have "\<forall>z \<in> set zs. \<not> lt z x" using incomp_trans by auto
  with nxy IH show ?case by (auto simp: Let_def split: prod.splits)
qed auto

lemma bubble_sort_total:
  "\<exists>ys. bubble_sort lt xs = Some (ys, inversions lt xs) \<and> mset ys = mset xs
     \<and> sorted_wrt (\<lambda>x y. \<not> lt y x) ys
     \<and> (\<forall>v. filter (\<lambda>x. \<not> lt x v \<and> \<not> lt v x) ys = filter (\<lambda>x. \<not> lt x v \<and> \<not> lt v x) xs)"
proof (induction "inversions lt xs" arbitrary: xs rule: less_induct)
  case less
  obtain ys n where p: "bubble_pass lt xs = (ys, n)" by fastforce
  show ?case
  proof (cases "n = 0")
    case True
    with p pass_done [of xs] pass_inversions [of xs] pass_class [where xs = xs] show ?thesis
      by (subst bubble_sort.simps) (auto simp: inversions_sorted)
  next
    case False
    with p pass_inversions [of xs] have inv: "inversions lt ys + n = inversions lt xs"
      "inversions lt ys < inversions lt xs" by auto
    from less [OF inv(2)] obtain zs where zs: "bubble_sort lt ys = Some (zs, inversions lt ys)"
      "mset zs = mset ys" "sorted_wrt (\<lambda>x y. \<not> lt y x) zs"
      "\<forall>v. filter (\<lambda>x. \<not> lt x v \<and> \<not> lt v x) zs = filter (\<lambda>x. \<not> lt x v \<and> \<not> lt v x) ys" by blast
    have "bubble_sort lt xs = Some (zs, inversions lt xs)"
      using p False zs(1) inv(1) by (subst bubble_sort.simps) (simp add: add.commute)
    moreover have "mset ys = mset xs" using bubble_pass_mset [of lt xs] p by simp
    ultimately show ?thesis using zs pass_class [where xs = xs] p by auto
  qed
qed

end

lemma composite_compare_swo:
  assumes "strict_weak_order cmp"
  shows "strict_weak_order (composite_compare cmp)"
proof
  note swo = strict_weak_order.lt_irrefl [OF assms] strict_weak_order.lt_trans [OF assms]
    strict_weak_order.incomp_trans [OF assms]
  fix x y z :: "'a \<times> 'a"
  show "\<not> composite_compare cmp x x" using swo(1) by (simp add: composite_compare_def)
  show "composite_compare cmp x y \<Longrightarrow> composite_compare cmp y z \<Longrightarrow> composite_compare cmp x z"
    unfolding composite_compare_def using swo(2,3) by (smt (verit))
  show "\<not> composite_compare cmp x y \<Longrightarrow> \<not> composite_compare cmp y z \<Longrightarrow> \<not> composite_compare cmp x z"
    unfolding composite_compare_def using swo(2,3) by (smt (verit))
qed

lemma zipped_pass_eq:
  "zipped_pass cmp xs = (fst (bubble_pass (composite_compare cmp) xs), 2 * snd (bubble_pass (composite_compare cmp) xs))"
proof (induction xs rule: pass_induct [of "composite_compare cmp"])
  case (step x y zs)
  show ?case
  proof (cases "composite_compare cmp y x")
    case True
    have "composite_swap x y = (y, x)" by (cases x; cases y) (simp add: composite_swap_def)
    then show ?thesis using True step(1) [OF True] by (simp add: Let_def split_beta)
  next
    case False
    then show ?thesis using step(2) [OF False] by (simp add: Let_def split_beta)
  qed
qed simp_all

lemma zipped_sort_eq:
  assumes "strict_weak_order cmp"
  shows "bubble_sort_zipped cmp xs = map_option (\<lambda>(ys, n). (ys, 2 * n)) (bubble_sort (composite_compare cmp) xs)"
proof (induction "inversions (composite_compare cmp) xs" arbitrary: xs rule: less_induct)
  case less
  note swo = composite_compare_swo [OF assms]
  let ?ys = "fst (bubble_pass (composite_compare cmp) xs)" and ?n = "snd (bubble_pass (composite_compare cmp) xs)"
  have s: "bubble_sort (composite_compare cmp) xs
      = (if ?n = 0 then Some (?ys, 0) else Option.bind (bubble_sort (composite_compare cmp) ?ys) (\<lambda>(zs, m). Some (zs, ?n + m)))"
    by (subst bubble_sort.simps) (simp add: split_beta)
  have z: "bubble_sort_zipped cmp xs
      = (if ?n = 0 then Some (?ys, 0) else Option.bind (bubble_sort_zipped cmp ?ys) (\<lambda>(zs, m). Some (zs, 2 * ?n + m)))"
    by (subst bubble_sort_zipped.simps) (simp add: zipped_pass_eq)
  show ?case
  proof (cases "?n = 0")
    case True
    then show ?thesis unfolding s z by simp
  next
    case False
    have "inversions (composite_compare cmp) ?ys < inversions (composite_compare cmp) xs"
      using strict_weak_order.pass_inversions [OF swo, of xs] False by linarith
    from less [OF this] show ?thesis
      unfolding s z using False by (cases "bubble_sort (composite_compare cmp) ?ys") (auto simp: algebra_simps)
  qed
qed

text \<open>C16: On a strict weak order \<open>bubble_sort\<close> returns: the range sorted, the same elements, elements that
  compare equivalent in their old order; it swaps once per inverted pair, so that
  \<open>bubble_sort_parity\<close> is the parity of the number of inversions.  A zipped range is sorted stably by the first
  components and then the second ones, each pair kept together, and every exchange is two swaps, so that
  the parity of a swap counter shared by the components is left as it was whatever the permutation.\<close>
theorem bubble_sort_correct:
  assumes "strict_weak_order cmp"
  shows "(\<exists>ys. bubble_sort cmp xs = Some (ys, inversions cmp xs)
     \<and> bubble_sort_parity cmp xs = Some (ys, if even (inversions cmp xs) then 1 else - 1)
     \<and> mset ys = mset xs \<and> sorted_wrt (\<lambda>x y. \<not> cmp y x) ys
     \<and> (\<forall>v. filter (\<lambda>x. \<not> cmp x v \<and> \<not> cmp v x) ys = filter (\<lambda>x. \<not> cmp x v \<and> \<not> cmp v x) xs))
    \<and> strict_weak_order (composite_compare cmp)
    \<and> (\<exists>qs. bubble_sort_zipped cmp ps = Some (qs, 2 * inversions (composite_compare cmp) ps)
     \<and> mset qs = mset ps \<and> sorted_wrt (\<lambda>p q. \<not> composite_compare cmp q p) qs
     \<and> (\<forall>v. filter (\<lambda>p. \<not> composite_compare cmp p v \<and> \<not> composite_compare cmp v p) qs
           = filter (\<lambda>p. \<not> composite_compare cmp p v \<and> \<not> composite_compare cmp v p) ps))"
proof (intro conjI)
  obtain ys where "bubble_sort cmp xs = Some (ys, inversions cmp xs)"
    and "mset ys = mset xs" "sorted_wrt (\<lambda>x y. \<not> cmp y x) ys"
    and "\<forall>v. filter (\<lambda>x. \<not> cmp x v \<and> \<not> cmp v x) ys = filter (\<lambda>x. \<not> cmp x v \<and> \<not> cmp v x) xs"
    using strict_weak_order.bubble_sort_total [OF assms] by blast
  then show "\<exists>ys. bubble_sort cmp xs = Some (ys, inversions cmp xs)
     \<and> bubble_sort_parity cmp xs = Some (ys, if even (inversions cmp xs) then 1 else - 1)
     \<and> mset ys = mset xs \<and> sorted_wrt (\<lambda>x y. \<not> cmp y x) ys
     \<and> (\<forall>v. filter (\<lambda>x. \<not> cmp x v \<and> \<not> cmp v x) ys = filter (\<lambda>x. \<not> cmp x v \<and> \<not> cmp v x) xs)"
    by (intro exI [of _ ys]) (simp_all add: bubble_sort_parity_def)
  show swo: "strict_weak_order (composite_compare cmp)" by (rule composite_compare_swo [OF assms])
  let ?c = "composite_compare cmp"
  obtain qs where "bubble_sort ?c ps = Some (qs, inversions ?c ps)" "mset qs = mset ps"
    "sorted_wrt (\<lambda>p q. \<not> ?c q p) qs"
    "\<forall>v. filter (\<lambda>p. \<not> ?c p v \<and> \<not> ?c v p) qs = filter (\<lambda>p. \<not> ?c p v \<and> \<not> ?c v p) ps"
    using strict_weak_order.bubble_sort_total [OF swo] by blast
  then show "\<exists>qs. bubble_sort_zipped cmp ps = Some (qs, 2 * inversions ?c ps)
     \<and> mset qs = mset ps \<and> sorted_wrt (\<lambda>p q. \<not> ?c q p) qs
     \<and> (\<forall>v. filter (\<lambda>p. \<not> ?c p v \<and> \<not> ?c v p) qs = filter (\<lambda>p. \<not> ?c p v \<and> \<not> ?c v p) ps)"
    by (intro exI [of _ qs]) (simp add: zipped_sort_eq [OF assms])
qed

theorem bubble_sort_correct_witness:
  "(\<exists>ys. bubble_sort_parity (<) [3, 1, 2 :: nat] = Some (ys, 1) \<and> mset ys = {#1, 2, 3#} \<and> sorted_wrt (\<lambda>x y. \<not> y < x) ys)
   \<and> (\<exists>qs. bubble_sort_zipped (<) [(3, 7), (1, 9), (1, 8 :: nat)] = Some (qs, 6))"
proof -
  have "inversions (<) [3, 1, 2 :: nat] = 2" by simp
  moreover have "inversions (composite_compare (<)) [(3, 7), (1, 9), (1, 8 :: nat)] = 3" by (simp add: composite_compare_def)
  ultimately show ?thesis
    using bubble_sort_correct [OF linorder_swo.strict_weak_order_axioms, of "[3, 1, 2 :: nat]" "[(3, 7), (1, 9), (1, 8)]"]
    by (fastforce simp: add_mset_commute)
qed

text \<open>\<open>bubble_sort\<close> needs a strict comparator: with one that holds of an element and itself, it never
  returns on a range of two such elements, for it swaps them forever.\<close>
theorem bubble_sort_diverges_on_nonstrict:
  assumes "cmp x x"
  shows "bubble_sort cmp [x, x] = None \<and> bubble_sort_parity cmp [x, x] = None"
  using bubble_sort_reflexive [of cmp x] assms by (simp add: bubble_sort_parity_def)

theorem bubble_sort_diverges_on_nonstrict_witness: "bubble_sort (\<le>) [0, 0 :: nat] = None"
  using bubble_sort_diverges_on_nonstrict [of "(\<le>)" "0 :: nat"] by simp

section \<open>The next permutation\<close>

lemma parity_inversions_Cons:
  fixes xs ys :: "'a::linorder list"
  assumes "mset xs = mset ys"
  shows "even (inversions (<) (as @ xs)) = even (inversions (<) (as @ ys))
     \<longleftrightarrow> even (inversions (<) xs) = even (inversions (<) ys)"
  using assms by (induction as) auto

lemma parity_swap_adjacent:
  fixes x y :: "'a::linorder"
  assumes "x \<noteq> y"
  shows "even (inversions (<) (as @ x # y # bs)) \<longleftrightarrow> odd (inversions (<) (as @ y # x # bs))"
proof -
  have "even (inversions (<) (x # y # bs)) \<longleftrightarrow> odd (inversions (<) (y # x # bs))"
    using assms by auto
  then show ?thesis using parity_inversions_Cons [of "x # y # bs" "y # x # bs" as] by auto
qed

lemma parity_move:
  fixes x :: "'a::linorder"
  assumes "x \<notin> set bs"
  shows "even (inversions (<) (as @ x # bs @ cs)) \<longleftrightarrow> even (inversions (<) (as @ bs @ x # cs) + length bs)"
  using assms
proof (induction bs arbitrary: as)
  case (Cons b bs)
  have "even (inversions (<) (as @ x # (b # bs) @ cs)) \<longleftrightarrow> odd (inversions (<) ((as @ [b]) @ x # bs @ cs))"
    using parity_swap_adjacent [of x b as "bs @ cs"] Cons.prems by simp
  also have "\<dots> \<longleftrightarrow> odd (inversions (<) ((as @ [b]) @ bs @ x # cs) + length bs)"
    using Cons.IH [of "as @ [b]"] Cons.prems by simp
  finally show ?case by simp
qed simp

lemma parity_swap:
  fixes x y :: "'a::linorder"
  assumes "distinct (as @ x # bs @ y # cs)"
  shows "even (inversions (<) (as @ x # bs @ y # cs)) \<longleftrightarrow> odd (inversions (<) (as @ y # bs @ x # cs))"
proof -
  have "even (inversions (<) (as @ x # bs @ y # cs)) \<longleftrightarrow> even (inversions (<) (as @ bs @ x # y # cs) + length bs)"
    using parity_move [of x bs as "y # cs"] assms by auto
  also have "\<dots> \<longleftrightarrow> even (inversions (<) (as @ bs @ y # x # cs) + length bs + 1)"
    using parity_swap_adjacent [of x y "as @ bs" cs] assms by auto
  also have "\<dots> \<longleftrightarrow> odd (inversions (<) (as @ y # bs @ x # cs))"
    using parity_move [of y bs as "x # cs"] assms by auto
  finally show ?thesis .
qed

lemma parity_rev:
  fixes bs :: "'a::linorder list"
  assumes "distinct bs"
  shows "even (inversions (<) (rev bs)) \<longleftrightarrow> even (inversions (<) bs + length bs div 2)"
  using assms
proof (induction "length bs" arbitrary: bs rule: less_induct)
  case less
  consider "bs = []" | x where "bs = [x]" | x ms y where "bs = x # ms @ [y]"
    by (metis append_Cons append_Nil neq_Nil_conv rev_exhaust)
  then show ?case
  proof cases
    case (3 x ms y)
    have d: "distinct ms" and dd: "distinct ([] @ x # ms @ y # [])" using less.prems 3 by auto
    have "even (inversions (<) ([] @ y # rev ms @ x # [])) \<longleftrightarrow> odd (inversions (<) ([] @ x # rev ms @ y # []))"
      using dd by (intro parity_swap) auto
    moreover have "even (inversions (<) (x # rev ms @ [y])) \<longleftrightarrow> even (inversions (<) (x # ms @ [y]) + length ms div 2)"
    proof -
      have "even (inversions (<) (rev ms @ [y])) = even (inversions (<) (y # rev ms) + length ms)"
        using parity_move [of y "rev ms" "[]" "[]"] dd by auto
      moreover have "even (inversions (<) (ms @ [y])) = even (inversions (<) (y # ms) + length ms)"
        using parity_move [of y ms "[]" "[]"] dd by auto
      moreover have "even (inversions (<) (rev ms)) = even (inversions (<) ms + length ms div 2)"
        using less.hyps [of ms] d 3 by auto
      ultimately show ?thesis by auto
    qed
    ultimately show ?thesis using 3 by auto
  qed auto
qed

lemma even_smod2: "even (a smod (2 :: int)) = even a"
proof -
  have "even (\<bar>a\<bar> mod 2) = even a" by presburger
  then show ?thesis by (cases a "0 :: int" rule: linorder_cases) (simp_all add: signed_modulo_int_def)
qed

lemma smod2_range: "0 \<le> a \<Longrightarrow> a smod (2 :: int) \<in> {0, 1}"
proof -
  assume "0 \<le> a"
  then have "a smod 2 = a mod 2" by (cases "a = 0") (simp_all add: signed_modulo_int_def)
  then show ?thesis by auto
qed

lemma last_greater_props:
  "k < n \<Longrightarrow> cmp v (xs ! k) \<Longrightarrow>
   (let j = last_greater cmp xs v n in k \<le> j \<and> j < n \<and> cmp v (xs ! j) \<and> (\<forall>m. j < m \<longrightarrow> m < n \<longrightarrow> \<not> cmp v (xs ! m)))"
proof (induction n)
  case (Suc n)
  show ?case
  proof (cases "cmp v (xs ! n)")
    case True
    with Suc.prems show ?thesis by (simp add: Let_def)
  next
    case False
    with Suc.prems have "k < n" by (metis less_SucE)
    with False Suc show ?thesis by (auto simp: Let_def less_Suc_eq)
  qed
qed simp

lemma iter_swap_split:
  "iter_swap (as @ x # bs @ y # cs) (length as) (length as + Suc (length bs)) = as @ y # bs @ x # cs"
  by (simp add: iter_swap_def nth_append list_update_append)

definition descending :: "'a::linorder list \<Rightarrow> bool" where
  "descending xs \<longleftrightarrow> sorted_wrt (\<ge>) xs"

lemma descending_rev: "sorted (rev xs) = descending xs"
  by (simp add: descending_def sorted_wrt_rev)

lemma next_perm_loop_cases:
  fixes xs :: "'a::linorder list"
  assumes "0 < i" "i < length xs" "descending (drop i xs)"
  shows "(next_perm_loop (<) p xs i = (False, (p + int (length xs div 2)) smod 2, rev xs) \<and> descending xs)
    \<or> (\<exists>as x bs y cs. xs = as @ x # bs @ y # cs \<and> descending (bs @ y # cs) \<and> x < y \<and> (\<forall>z \<in> set cs. z \<le> x)
        \<and> next_perm_loop (<) p xs i
            = (True, (p + 1 + int (length (bs @ y # cs) div 2)) smod 2, as @ y # rev (bs @ x # cs)))"
  using assms
proof (induction i)
  case (Suc i)
  have split: "drop i xs = xs ! i # drop (Suc i) xs" using Suc.prems by (simp add: Cons_nth_drop_Suc)
  show ?case
  proof (cases "xs ! i < xs ! Suc i")
    case True
    define j where "j = last_greater (<) xs (xs ! i) (length xs)"
    have j: "Suc i \<le> j" "j < length xs" "xs ! i < xs ! j" "\<And>m. j < m \<Longrightarrow> m < length xs \<Longrightarrow> \<not> xs ! i < xs ! m"
      using last_greater_props [of "Suc i" "length xs" "(<)" "xs ! i" xs] True Suc.prems by (auto simp: j_def Let_def)
    define as bs cs where "as = take i xs" and "bs = take (j - Suc i) (drop (Suc i) xs)" and "cs = drop (Suc j) xs"
    have "drop (Suc i) xs = bs @ xs ! j # cs"
      using j unfolding bs_def cs_def
      by (metis (no_types, lifting) Cons_nth_drop_Suc append_take_drop_id drop_drop le_add_diff_inverse2)
    with split have xs: "xs = as @ xs ! i # bs @ xs ! j # cs"
      unfolding as_def by (metis append_take_drop_id)
    have len: "length as = i" "length bs = j - Suc i" using j Suc.prems by (auto simp: as_def bs_def)
    have desc: "descending (bs @ xs ! j # cs)" using Suc.prems(3) \<open>drop (Suc i) xs = _\<close> by simp
    have cs: "\<forall>z \<in> set cs. z \<le> xs ! i"
    proof
      fix z assume "z \<in> set cs"
      then obtain m where "m < length cs" "z = cs ! m" by (auto simp: in_set_conv_nth)
      then have "z = xs ! (Suc j + m)" "Suc j + m < length xs" by (auto simp: cs_def)
      with j(4) [of "Suc j + m"] show "z \<le> xs ! i" by (simp add: not_less)
    qed
    have sw: "iter_swap xs i j = as @ xs ! j # bs @ xs ! i # cs"
      using iter_swap_split [of as "xs ! i" bs "xs ! j" cs] xs len j(1) by simp
    have "length xs - Suc i = length (bs @ xs ! j # cs)" using arg_cong [OF xs, of length] len by simp
    then have "next_perm_loop (<) p xs (Suc i)
        = (True, (p + 1 + int (length (bs @ xs ! j # cs) div 2)) smod 2, as @ xs ! j # rev (bs @ xs ! i # cs))"
      using True len(1) by (simp add: j_def [symmetric] Let_def sw)
    with xs desc j(3) cs show ?thesis by blast
  next
    case False
    have "descending (drop i xs)"
    proof -
      have "\<forall>z \<in> set (drop (Suc i) xs). z \<le> xs ! Suc i"
        using Suc.prems by (subst Cons_nth_drop_Suc [symmetric, of "Suc i"]) (auto simp: descending_def Cons_nth_drop_Suc [symmetric, of "Suc i"])
      with False Suc.prems(3) show ?thesis unfolding split by (fastforce simp: descending_def)
    qed
    with False Suc show ?thesis by (cases "i = 0") auto
  qed
qed simp

lemma sorted_least: "sorted xs \<Longrightarrow> mset zs = mset xs \<Longrightarrow> xs \<le> (zs :: 'a::linorder list)"
proof (induction xs arbitrary: zs)
  case (Cons x xs)
  then obtain z zs' where zs: "zs = z # zs'" by (cases zs) auto
  with Cons.prems have "x \<le> z" by (metis list.set_intros(1) set_ConsD set_mset_mset sorted_simps(2) order_refl)
  with Cons zs show ?case by (cases "x = z") (auto simp: less_le)
qed simp

lemma descending_greatest: "descending xs \<Longrightarrow> mset zs = mset xs \<Longrightarrow> (zs :: 'a::linorder list) \<le> xs"
proof (induction xs arbitrary: zs)
  case (Cons x xs)
  then obtain z zs' where zs: "zs = z # zs'" by (cases zs) auto
  have "z \<in> set (x # xs)" using Cons.prems(2) zs by (metis list.set_intros(1) set_mset_mset)
  with Cons.prems(1) have "z \<le> x" by (auto simp: descending_def)
  with Cons zs show ?case by (cases "x = z") (auto simp: less_le descending_def)
qed simp

lemma next_perm_parity:
  fixes x :: "'a::linorder"
  assumes "distinct (as @ x # bs @ y # cs)"
  shows "even (inversions (<) (as @ y # rev (bs @ x # cs)))
    \<longleftrightarrow> odd (inversions (<) (as @ x # bs @ y # cs) + length (bs @ y # cs) div 2)"
proof -
  have d: "distinct (bs @ x # cs)" using assms by auto
  have "even (inversions (<) (as @ y # rev (bs @ x # cs)))
      = even (inversions (<) (as @ y # bs @ x # cs) + length (bs @ x # cs) div 2)"
    using parity_rev [OF d] parity_inversions_Cons [of "rev (bs @ x # cs)" "bs @ x # cs" "as @ [y]"] by auto
  with parity_swap [OF assms] show ?thesis by auto
qed

lemma next_perm_successor:
  fixes xs :: "'a::linorder list"
  assumes "descending (bs @ y # cs)" "x < y" "\<forall>z \<in> set cs. z \<le> x"
    and "mset zs = mset (as @ x # bs @ y # cs)" "as @ x # bs @ y # cs < zs"
  shows "as @ y # rev (bs @ x # cs) \<le> zs"
  using assms(4,5)
proof (induction as arbitrary: zs)
  case Nil
  then obtain z zs' where zs: "zs = z # zs'" by (cases zs) auto
  have "descending (bs @ x # cs)" using assms(1-3) by (auto simp: descending_def sorted_wrt_append)
  then have srt: "sorted (rev (bs @ x # cs))" by (simp only: descending_rev)
  consider "z = x" | "z > x" using Nil zs by auto
  then show ?case
  proof cases
    case 1
    then have "zs' \<le> bs @ y # cs" using Nil.prems(1) zs assms(1) by (intro descending_greatest) auto
    with Nil.prems(2) zs 1 show ?thesis by simp
  next
    case 2
    have "z \<in> set (x # bs @ y # cs)" using Nil.prems(1) zs by (metis append_Nil list.set_intros(1) set_mset_mset)
    with 2 assms(1,3) have "y \<le> z" by (auto simp: descending_def sorted_wrt_append)
    moreover have "rev (bs @ x # cs) \<le> zs'" if "z = y"
      using Nil.prems(1) zs that by (intro sorted_least [OF srt]) auto
    ultimately show ?thesis using zs by (cases "z = y") (auto simp: less_le)
  qed
next
  case (Cons a as)
  then obtain z zs' where zs: "zs = z # zs'" by (cases zs) auto
  with Cons show ?case by (cases "a = z") auto
qed

text \<open>\<open>next_permutation_parity\<close> gives the lexicographic successor among the permutations of the range:
  true with the least permutation above it, or false with the first permutation when the range was
  the last; and \<open>parity\<close> is flipped exactly when the permutation between the two ranges is odd.\<close>
theorem next_permutation_parity_correct:
  fixes xs :: "'a::linorder list"
  assumes "next_permutation_parity (<) p xs = (b, q, ys)"
  shows "mset ys = mset xs
    \<and> (b \<longrightarrow> xs < ys \<and> (\<forall>zs. mset zs = mset xs \<longrightarrow> xs < zs \<longrightarrow> ys \<le> zs))
    \<and> (\<not> b \<longrightarrow> (\<forall>zs. mset zs = mset xs \<longrightarrow> ys \<le> zs \<and> zs \<le> xs))
    \<and> (distinct xs \<longrightarrow> (even p = even q) = (even (inversions (<) xs) = even (inversions (<) ys)))
    \<and> (p \<in> {0, 1} \<longrightarrow> q \<in> {0, 1})"
proof (cases "length xs \<le> 1")
  case True
  then have "next_permutation_parity (<) p xs = (False, p, xs)" by (auto simp: next_permutation_parity_def)
  moreover have "descending xs" "sorted xs" using True by (cases xs; simp add: descending_def)+
  ultimately show ?thesis using assms sorted_least descending_greatest by auto
next
  case False
  then have np: "next_permutation_parity (<) p xs = next_perm_loop (<) p xs (length xs - 1)"
    by (auto simp: next_permutation_parity_def)
  have "0 < length xs - 1" "length xs - 1 < length xs" using False by auto
  moreover have "descending (drop (length xs - 1) xs)"
    using False by (cases xs rule: rev_cases) (auto simp: descending_def)
  ultimately consider
      "(b, q, ys) = (False, (p + int (length xs div 2)) smod 2, rev xs)" "descending xs"
    | as x bs y cs where "xs = as @ x # bs @ y # cs" "descending (bs @ y # cs)" "x < y" "\<forall>z \<in> set cs. z \<le> x"
        "(b, q, ys) = (True, (p + 1 + int (length (bs @ y # cs) div 2)) smod 2, as @ y # rev (bs @ x # cs))"
    using next_perm_loop_cases [of "length xs - 1" xs p] assms np by metis
  then show ?thesis
  proof cases
    case 1
    then have srt: "sorted ys" by (simp add: descending_rev)
    have "distinct xs \<longrightarrow> (even p = even q) = (even (inversions (<) xs) = even (inversions (<) ys))"
      using 1(1) parity_rev [of xs] by (auto simp: even_smod2)
    moreover have "p \<in> {0, 1} \<longrightarrow> q \<in> {0, 1}" using 1(1) smod2_range [of "p + int (length xs div 2)"] by auto
    ultimately show ?thesis
      using 1 sorted_least [OF srt] descending_greatest [OF 1(2)] by auto
  next
    case 2
    have "distinct xs \<longrightarrow> (even p = even q) = (even (inversions (<) xs) = even (inversions (<) ys))"
      using 2(1,5) next_perm_parity [of as x bs y cs] by (auto simp: even_smod2)
    moreover have "p \<in> {0, 1} \<longrightarrow> q \<in> {0, 1}"
      using 2(5) smod2_range [of "p + 1 + int (length (bs @ y # cs) div 2)"] by auto
    moreover have "xs < ys" using 2(1,3,5) by (induction as arbitrary: xs ys) auto
    moreover have "\<forall>zs. mset zs = mset xs \<longrightarrow> xs < zs \<longrightarrow> ys \<le> zs"
      using next_perm_successor [OF 2(2-4), of _ as] 2(1,5) by auto
    ultimately show ?thesis using 2(1,5) by auto
  qed
qed

theorem next_permutation_parity_correct_witness:
  "next_permutation_parity (<) 0 [1, 3, 2 :: nat] = (True, 0, [2, 1, 3])
    \<and> mset [2, 1, 3] = mset [1, 3, 2 :: nat] \<and> [1, 3, 2 :: nat] < [2, 1, 3]"
proof -
  have "next_permutation_parity (<) 0 [1, 3, 2 :: nat] = (True, 0, [2, 1, 3])" by code_simp
  with next_permutation_parity_correct [OF this] show ?thesis by blast
qed

end
