(* ===== verification/Permutations.thy ===== *)
theory Permutations
  imports Sorting
begin

text \<open>
  SeQuant/core/utility/permutation.hpp: \<open>permutation_parity\<close>, which walks the cycles of a permutation
  marking entries in place, and \<open>count_cycles\<close>, the number of spin loops of two rows of index slots
  by a union-find with path halving.  Loops whose end depends on the data are partial functions; that
  they end is proved.  Entries are natural numbers; the marks \<open>p[i] + N\<close> are taken not to overflow \<open>T\<close>.
\<close>

section \<open>The parity of a permutation\<close>

text \<open>The do-while loop along one cycle, and the loop over the possible starts.\<close>

partial_function (option) mark_cycle :: "nat list \<Rightarrow> nat \<Rightarrow> nat \<Rightarrow> (nat list \<times> nat) option" where
  "mark_cycle p i cycle_length =
     (let nxt = p ! i;
          p' = p[i := p ! i + length p]
      in if p' ! nxt < length p then mark_cycle p' nxt (cycle_length + 1)
         else Some (p', cycle_length + 1))"

declare mark_cycle.simps [code]

fun parity_loop :: "nat list \<Rightarrow> nat list \<Rightarrow> int \<Rightarrow> (nat list \<times> int) option" where
  "parity_loop [] p parity = Some (p, parity)"
| "parity_loop (k # ks) p parity =
     (if length p \<le> p ! k then parity_loop ks p parity
      else Option.bind (mark_cycle p k 0) (\<lambda>(p', cycle_length).
        parity_loop ks p' (if cycle_length mod 2 = 0 then parity * (- 1) else parity)))"

definition permutation_parity :: "nat list \<Rightarrow> bool \<Rightarrow> (nat list \<times> int) option" where
  "permutation_parity p restore =
     Option.bind (parity_loop [0..<length p] p 1) (\<lambda>(p', parity).
       Some (if restore then map (\<lambda>e. e - length p) p' else p', parity))"

section \<open>Spin loops\<close>

partial_function (option) uf_find :: "nat list \<Rightarrow> nat \<Rightarrow> (nat list \<times> nat) option" where
  "uf_find parent x =
     (if parent ! x \<noteq> x
      then (let parent' = parent[x := parent ! (parent ! x)] in uf_find parent' (parent' ! x))
      else Some (parent, x))"

declare uf_find.simps [code]

text \<open>The right operand of the assignment \<open>parent[find(a)] = find(b)\<close> is evaluated first.\<close>

definition uf_unite :: "nat list \<Rightarrow> nat \<Rightarrow> nat \<Rightarrow> nat list option" where
  "uf_unite parent a b =
     Option.bind (uf_find parent b) (\<lambda>(p1, rb).
     Option.bind (uf_find p1 a) (\<lambda>(p2, ra). Some (p2[ra := rb])))"

fun unite_columns :: "nat \<Rightarrow> nat list \<Rightarrow> nat list \<Rightarrow> nat list option" where
  "unite_columns n0 [] parent = Some parent"
| "unite_columns n0 (i # is) parent = Option.bind (uf_unite parent i (n0 + i)) (unite_columns n0 is)"

text \<open>\<open>add_slot\<close> over the slots in order, with the map of first slots.\<close>

fun add_slots :: "('v \<times> nat) list \<Rightarrow> ('v \<rightharpoonup> nat) \<Rightarrow> nat list \<Rightarrow> nat list option" where
  "add_slots [] first_slot parent = Some parent"
| "add_slots ((idx, slot) # rest) first_slot parent =
     (case first_slot idx of
        None \<Rightarrow> add_slots rest (first_slot(idx \<mapsto> slot)) parent
      | Some s \<Rightarrow> Option.bind (uf_unite parent s slot) (add_slots rest first_slot))"

fun count_roots :: "nat list \<Rightarrow> nat list \<Rightarrow> nat \<Rightarrow> nat option" where
  "count_roots [] parent n_cycles = Some n_cycles"
| "count_roots (i # is) parent n_cycles =
     Option.bind (uf_find parent i) (\<lambda>(p, r). count_roots is p (if r = i then n_cycles + 1 else n_cycles))"

text \<open>What \<open>count_cycles\<close> does past its assertions.\<close>

definition cycle_count :: "'v list \<Rightarrow> 'v list \<Rightarrow> nat option" where
  "cycle_count v0 v1 =
     (let n0 = length v0; n1 = length v1; n = n0 + n1
      in Option.bind (unite_columns n0 [0..<min n0 n1] [0..<n]) (\<lambda>p1.
         Option.bind (add_slots (zip v0 [0..<n0] @ zip v1 (map (\<lambda>i. n0 + i) [0..<n1])) (\<lambda>_. None) p1) (\<lambda>p2.
         count_roots [0..<n] p2 0)))"

text \<open>The two assertions: rows of one length, and every value in exactly two slots.\<close>

definition slots_paired :: "'v list \<Rightarrow> 'v list \<Rightarrow> bool" where
  "slots_paired v0 v1 \<longleftrightarrow> length v0 = length v1
     \<and> list_all (\<lambda>x. length (filter (\<lambda>y. y = x) (v0 @ v1)) = 2) (v0 @ v1)"

datatype cycle_error = SlotsAssertion

definition count_cycles :: "'v list \<Rightarrow> 'v list \<Rightarrow> (cycle_error, nat) result option" where
  "count_cycles v0 v1 =
     (if \<not> slots_paired v0 v1 then Some (Inl SlotsAssertion) else map_option Inr (cycle_count v0 v1))"

section \<open>The parity is the sign\<close>

lemma parity_iter_swap:
  fixes q :: "'a::linorder list"
  assumes "distinct q" "i < length q" "j < length q" "i \<noteq> j"
  shows "even (inversions (<) (iter_swap q i j)) \<longleftrightarrow> odd (inversions (<) q)"
proof -
  have main: "even (inversions (<) (iter_swap q i j)) \<longleftrightarrow> odd (inversions (<) q)"
    if ij: "i < j" "j < length q" for i j
  proof -
    define as bs cs where "as = take i q" and "bs = take (j - Suc i) (drop (Suc i) q)" and "cs = drop (Suc j) q"
    have "drop (Suc i) q = bs @ q ! j # cs"
      using ij unfolding bs_def cs_def
      by (metis Cons_nth_drop_Suc Suc_leI append_take_drop_id drop_drop le_add_diff_inverse2)
    then have q: "q = as @ q ! i # bs @ q ! j # cs"
      using ij unfolding as_def by (metis append_take_drop_id Cons_nth_drop_Suc less_trans)
    have "iter_swap q i j = as @ q ! j # bs @ q ! i # cs"
      using iter_swap_split [of as "q ! i" bs "q ! j" cs] q ij by (simp add: as_def bs_def)
    moreover have "even (inversions (<) (as @ q ! i # bs @ q ! j # cs))
        \<longleftrightarrow> odd (inversions (<) (as @ q ! j # bs @ q ! i # cs))"
      using assms(1) by (intro parity_swap) (simp flip: q)
    ultimately show ?thesis using q by simp
  qed
  have "iter_swap q i j = iter_swap q j i" if "i \<noteq> j"
    using that by (simp add: iter_swap_def list_update_swap)
  with main [of i j] main [of j i] assms show ?thesis by (cases "i < j") auto
qed

definition is_perm :: "nat list \<Rightarrow> bool" where
  "is_perm p \<longleftrightarrow> distinct p \<and> set p = {0..<length p}"

lemma is_perm_nth: "is_perm p \<Longrightarrow> i < length p \<Longrightarrow> p ! i < length p"
  unfolding is_perm_def by (metis atLeastLessThan_iff nth_mem)

lemma is_perm_inj: "is_perm q \<Longrightarrow> i < length q \<Longrightarrow> j < length q \<Longrightarrow> q ! i = q ! j \<Longrightarrow> i = j"
  by (simp add: is_perm_def nth_eq_iff_index_eq)

lemma is_perm_swap: "is_perm q \<Longrightarrow> i < length q \<Longrightarrow> j < length q \<Longrightarrow> is_perm (iter_swap q i j)"
  by (simp add: is_perm_def iter_swap_def distinct_swap)

lemma iter_swap_nth:
  "i < length q \<Longrightarrow> j < length q \<Longrightarrow>
   iter_swap q i j ! m = (if m = i then q ! j else if m = j then q ! i else q ! m)"
  by (auto simp: iter_swap_def nth_list_update)

lemma iter_swap_length [simp]: "length (iter_swap q i j) = length q"
  by (simp add: iter_swap_def)

text \<open>
  \<open>q\<close> is the permutation in which the cycles marked so far, but for the open position, are undone.
\<close>

definition marking :: "nat list \<Rightarrow> nat list \<Rightarrow> nat list \<Rightarrow> nat option \<Rightarrow> bool" where
  "marking p0 p q open \<longleftrightarrow> is_perm p0 \<and> is_perm q \<and> length p = length p0 \<and> length q = length p0
     \<and> (\<forall>j < length p0. p ! j = p0 ! j \<or> p ! j = p0 ! j + length p0)
     \<and> (\<forall>j < length p0. p ! j < length p0 \<longrightarrow> q ! j = p ! j)
     \<and> (\<forall>j < length p0. length p0 \<le> p ! j \<longrightarrow> Some j \<noteq> open \<longrightarrow> q ! j = j)"

definition unmarked :: "nat list \<Rightarrow> nat" where
  "unmarked p = length (filter (\<lambda>e. e < length p) p)"

lemma unmarked_mark: "i < length p \<Longrightarrow> p ! i < length p \<Longrightarrow> unmarked (p[i := p ! i + length p]) < unmarked p"
proof -
  assume i: "i < length p" "p ! i < length p"
  define as x bs where "as = take i p" and "x = p ! i" and "bs = drop (Suc i) p"
  have p: "p = as @ x # bs" using i(1) by (simp add: as_def x_def bs_def id_take_nth_drop)
  have "length as = i" using i(1) by (simp add: as_def)
  then have "p[i := p ! i + length p] = as @ (x + length p) # bs"
    by (simp add: p nth_append list_update_append)
  moreover have "x < length p" using i(2) by (simp add: x_def)
  ultimately show ?thesis by (simp add: unmarked_def p)
qed

text \<open>One step of the walk inside a cycle that is already open at \<open>k\<close>.\<close>

lemma mark_cycle_open:
  assumes "marking p0 p q (Some k)" "k < length p0" "length p0 \<le> p ! k" "q ! k = i" "i \<noteq> k"
    "i < length p0" "p ! i < length p0"
  shows "\<exists>p' q' s. mark_cycle p i len = Some (p', len + Suc s) \<and> marking p0 p' q' None
    \<and> (even (inversions (<) q') \<longleftrightarrow> even (inversions (<) q + Suc s))
    \<and> (\<forall>j < length p0. length p0 \<le> p ! j \<longrightarrow> length p0 \<le> p' ! j)"
  using assms
proof (induction "unmarked p" arbitrary: p q i len rule: less_induct)
  case less
  note m = less.prems(1) [unfolded marking_def]
  have len: "length p = length p0" "length q = length p0" using m by auto
  define n where "n = p ! i"
  have n: "n = q ! i" "n < length p0" "p0 ! i = n" using m less.prems by (auto simp: n_def)
  define p1 where "p1 = p[i := p ! i + length p]"
  define q1 where "q1 = iter_swap q k i"
  have p1: "p1 ! j = (if j = i then n + length p0 else p ! j)" if "j < length p0" for j
    using that less.prems len by (simp add: p1_def n_def)
  have q1: "q1 ! j = (if j = k then n else if j = i then i else q ! j)" for j
    using less.prems len n by (auto simp: q1_def iter_swap_nth)
  have permq1: "is_perm q1" using m less.prems by (simp add: q1_def is_perm_swap)
  have parity: "even (inversions (<) q1) \<longleftrightarrow> odd (inversions (<) q)"
    unfolding q1_def using m less.prems by (intro parity_iter_swap) (auto simp: is_perm_def)
  have mark1: "marking p0 p1 q1 (Some k)"
    unfolding marking_def using m permq1 p1 q1 less.prems n by (auto simp: p1_def q1_def)
  have keep: "length p0 \<le> p ! j \<Longrightarrow> length p0 \<le> p1 ! j" if "j < length p0" for j using p1 [OF that] by auto
  show ?case
  proof (cases "p1 ! n < length p0")
    case True
    have "n \<noteq> k" using True p1 [of k] less.prems by auto
    moreover have "unmarked p1 < unmarked p" unfolding p1_def using less.prems len by (intro unmarked_mark) auto
    ultimately obtain p' q' s where "mark_cycle p1 n (len + 1) = Some (p', len + 1 + Suc s)" "marking p0 p' q' None"
      "even (inversions (<) q') \<longleftrightarrow> even (inversions (<) q1 + Suc s)"
      "\<forall>j < length p0. length p0 \<le> p1 ! j \<longrightarrow> length p0 \<le> p' ! j"
      using less.hyps [of p1 q1 n "len + 1"] mark1 less.prems(2) keep [of k] less.prems(3) q1 [of k] n(2) True by auto
    moreover from this True have "mark_cycle p i len = Some (p', len + Suc (Suc s))"
      by (subst mark_cycle.simps) (simp add: p1_def n_def Let_def len)
    ultimately show ?thesis using parity keep by (intro exI [of _ p'] exI [of _ q'] exI [of _ "Suc s"]) auto
  next
    case False
    have nk: "n = k"
    proof (rule ccontr)
      assume "n \<noteq> k"
      then have "q1 ! n = n" using mark1 False n(2) by (auto simp: marking_def)
      then have "q1 ! n = q1 ! k" using q1 [of k] by simp
      with is_perm_inj [OF permq1, of n k] \<open>n \<noteq> k\<close> less.prems(2) n(2) mark1 show False by (auto simp: marking_def)
    qed
    then have "marking p0 p1 q1 None" using mark1 q1 [of k] by (auto simp: marking_def)
    moreover have "mark_cycle p i len = Some (p1, len + Suc 0)"
      using False by (subst mark_cycle.simps) (simp add: p1_def n_def Let_def len)
    ultimately show ?thesis using parity keep by (intro exI [of _ p1] exI [of _ q1] exI [of _ 0]) auto
  qed
qed

lemma mark_cycle_walk:
  assumes "marking p0 p q None" "k < length p0" "p ! k < length p0"
  shows "\<exists>p' q' s. mark_cycle p k 0 = Some (p', Suc s) \<and> marking p0 p' q' None
    \<and> (even (inversions (<) q') \<longleftrightarrow> even (inversions (<) q + s))
    \<and> (\<forall>j < length p0. length p0 \<le> p ! j \<or> j = k \<longrightarrow> length p0 \<le> p' ! j)"
proof -
  note m = assms(1) [unfolded marking_def]
  have len: "length p = length p0" "length q = length p0" using m by auto
  define n where "n = p ! k"
  define p1 where "p1 = p[k := p ! k + length p]"
  have n: "n < length p0" "q ! k = n" using m assms by (auto simp: n_def)
  have p1: "p1 ! j = (if j = k then n + length p0 else p ! j)" if "j < length p0" for j
    using that assms len by (simp add: p1_def n_def)
  have mark1: "marking p0 p1 q (Some k)"
    unfolding marking_def using m p1 assms n by (auto simp: p1_def n_def)
  show ?thesis
  proof (cases "p1 ! n < length p0")
    case True
    then have "n \<noteq> k" using p1 [OF assms(2)] by auto
    obtain p' q' s where "mark_cycle p1 n 1 = Some (p', 1 + Suc s)" "marking p0 p' q' None"
      "even (inversions (<) q') \<longleftrightarrow> even (inversions (<) q + Suc s)"
      "\<forall>j < length p0. length p0 \<le> p1 ! j \<longrightarrow> length p0 \<le> p' ! j"
      using mark_cycle_open [OF mark1 assms(2) _ n(2) \<open>n \<noteq> k\<close> n(1) True, of 1] p1 [OF assms(2)] by auto
    moreover from this True have "mark_cycle p k 0 = Some (p', Suc (Suc s))"
      by (subst mark_cycle.simps) (simp add: p1_def n_def Let_def len)
    ultimately show ?thesis using p1 by (intro exI [of _ p'] exI [of _ q'] exI [of _ "Suc s"]) auto
  next
    case False
    have "n = k"
    proof (rule ccontr)
      assume "n \<noteq> k"
      then have "q ! n = n" using mark1 False n(1) by (auto simp: marking_def)
      with is_perm_inj [of q n k] \<open>n \<noteq> k\<close> assms(2) n m show False by auto
    qed
    then have "marking p0 p1 q None" using mark1 n by (auto simp: marking_def)
    moreover have "mark_cycle p k 0 = Some (p1, Suc 0)"
      using False by (subst mark_cycle.simps) (simp add: p1_def n_def Let_def len)
    ultimately show ?thesis using p1 by (intro exI [of _ p1] exI [of _ q] exI [of _ 0]) auto
  qed
qed

lemma inversions_upt: "inversions (<) [0..<n] = 0"
  by (rule inversions_sorted) (simp add: sorted_wrt_iff_nth_less)

lemma parity_loop_walk:
  assumes "marking p0 p q None" "\<forall>k \<in> set ks. k < length p0"
    and "parity = (if even (inversions (<) q + c) then 1 else - 1)"
  shows "\<exists>p' q'. marking p0 p' q' None
    \<and> parity_loop ks p parity = Some (p', if even (inversions (<) q' + c) then 1 else - 1)
    \<and> (\<forall>j < length p0. length p0 \<le> p ! j \<or> j \<in> set ks \<longrightarrow> length p0 \<le> p' ! j)"
  using assms
proof (induction ks arbitrary: p q parity)
  case Nil
  then show ?case by auto
next
  case (Cons k ks)
  have len: "length p = length p0" using Cons.prems by (simp add: marking_def)
  show ?case
  proof (cases "p ! k < length p0")
    case False
    obtain p' q' where "marking p0 p' q' None"
      "parity_loop ks p parity = Some (p', if even (inversions (<) q' + c) then 1 else - 1)"
      "\<forall>j < length p0. length p0 \<le> p ! j \<or> j \<in> set ks \<longrightarrow> length p0 \<le> p' ! j"
      using Cons.IH [OF Cons.prems(1) _ Cons.prems(3)] Cons.prems(2) by auto
    with False len show ?thesis by (intro exI [of _ p'] exI [of _ q']) auto
  next
    case True
    obtain p1 q1 s where w: "mark_cycle p k 0 = Some (p1, Suc s)" "marking p0 p1 q1 None"
      "even (inversions (<) q1) \<longleftrightarrow> even (inversions (<) q + s)"
      "\<forall>j < length p0. length p0 \<le> p ! j \<or> j = k \<longrightarrow> length p0 \<le> p1 ! j"
      using mark_cycle_walk [OF Cons.prems(1) _ True] Cons.prems(2) by auto
    define parity' where "parity' = (if Suc s mod 2 = 0 then parity * (- 1) else parity)"
    have loop: "parity_loop (k # ks) p parity = parity_loop ks p1 parity'"
      using True w(1) len by (simp add: parity'_def)
    have "parity' = (if even (inversions (<) q1 + c) then 1 else - 1)"
      unfolding parity'_def using w(3) Cons.prems(3) by (auto simp flip: even_iff_mod_2_eq_zero)
    from Cons.IH [OF w(2) _ this] obtain p' q' where "marking p0 p' q' None"
      "parity_loop ks p1 parity' = Some (p', if even (inversions (<) q' + c) then 1 else - 1)"
      "\<forall>j < length p0. length p0 \<le> p1 ! j \<or> j \<in> set ks \<longrightarrow> length p0 \<le> p' ! j"
      using Cons.prems(2) by auto
    then show ?thesis unfolding loop using w(4) by (intro exI [of _ p'] exI [of _ q'] conjI) auto
  qed
qed

text \<open>C18: On a permutation of \<open>0 ... N-1\<close>, \<open>permutation_parity\<close> ends and returns its sign, \<open>+1\<close> or \<open>-1\<close> by the
  parity of its inversions; with \<open>restore\<close> the range is left as it was, else with \<open>N\<close> added to every entry.\<close>
theorem permutation_parity_is_sign:
  assumes "distinct p" and "set p = {0..<length p}"
  shows "permutation_parity p restore
    = Some (if restore then p else map (\<lambda>e. e + length p) p, if even (inversions (<) p) then 1 else - 1)"
proof -
  have perm: "is_perm p" using assms by (simp add: is_perm_def)
  have "\<forall>j < length p. \<not> length p \<le> p ! j" using is_perm_nth [OF perm] by (simp add: not_le)
  then have m: "marking p p p None" using perm by (simp add: marking_def)
  obtain p' q' where w: "marking p p' q' None"
    "parity_loop [0..<length p] p 1 = Some (p', if even (inversions (<) q' + inversions (<) p) then 1 else - 1)"
    "\<forall>j < length p. length p \<le> p' ! j"
    using parity_loop_walk [OF m, of "[0..<length p]" 1 "inversions (<) p"] by auto
  have "q' = [0..<length p]" using w(1,3) by (intro nth_equalityI) (auto simp: marking_def)
  moreover have "p' = map (\<lambda>e. e + length p) p"
    using w(1,3) is_perm_nth [OF perm] by (intro nth_equalityI) (auto simp: marking_def, fastforce)
  ultimately show ?thesis using w(2) by (simp add: permutation_parity_def inversions_upt comp_def)
qed

theorem permutation_parity_is_sign_witness:
  "permutation_parity [2, 0, 1, 4, 3] True = Some ([2, 0, 1, 4, 3], - 1)"
proof -
  have "distinct [2, 0, 1, 4, 3 :: nat]" "set [2, 0, 1, 4, 3] = {0..<length [2, 0, 1, 4, 3 :: nat]}" by code_simp+
  from permutation_parity_is_sign [OF this, of True] show ?thesis by simp
qed

section \<open>Union-find\<close>

text \<open>\<open>rep\<close> gives the root of every slot; \<open>d\<close> decreases along the parent links.\<close>

definition forest :: "nat \<Rightarrow> nat list \<Rightarrow> (nat \<Rightarrow> nat) \<Rightarrow> (nat \<Rightarrow> nat) \<Rightarrow> bool" where
  "forest n p rep d \<longleftrightarrow> length p = n \<and> (\<forall>x < n. p ! x < n \<and> rep (p ! x) = rep x \<and> rep x < n
     \<and> (p ! x = x \<longleftrightarrow> rep x = x) \<and> (p ! x \<noteq> x \<longrightarrow> d (p ! x) < d x) \<and> rep (rep x) = rep x)"

lemma forestD:
  assumes "forest n p rep d" "x < n"
  shows "p ! x < n" "rep (p ! x) = rep x" "rep x < n" "p ! x = x \<longleftrightarrow> rep x = x"
    "p ! x \<noteq> x \<Longrightarrow> d (p ! x) < d x" "rep (rep x) = rep x" "length p = n"
  using assms by (auto simp: forest_def)

lemma uf_find_forest:
  assumes "forest n p rep d" "x < n"
  shows "\<exists>p'. uf_find p x = Some (p', rep x) \<and> forest n p' rep d"
  using assms
proof (induction "d x" arbitrary: x p rule: less_induct)
  case less
  note f = forestD [OF less.prems]
  show ?case
  proof (cases "p ! x = x")
    case True
    with f less.prems show ?thesis by (subst uf_find.simps) auto
  next
    case False
    define g where "g = p ! (p ! x)"
    note h = forestD [OF less.prems(1) f(1)]
    have dg: "d g < d x" using f(5) [OF False] h(5) by (cases "p ! (p ! x) = p ! x") (auto simp: g_def)
    then have gx: "g \<noteq> x" by auto
    have gn: "g < n" "rep g = rep x" using h(1,2) f(2) by (auto simp: g_def)
    define p1 where "p1 = p[x := g]"
    have p1: "p1 ! y = (if y = x then g else p ! y)" if "y < n" for y
      using that f(7) less.prems(2) by (simp add: p1_def nth_list_update)
    have "forest n p1 rep d"
      unfolding forest_def
    proof (intro conjI allI impI)
      show "length p1 = n" using f(7) by (simp add: p1_def)
      fix y assume y: "y < n"
      note fy = forestD [OF less.prems(1) y]
      show "p1 ! y < n" "rep (p1 ! y) = rep y" "rep y < n" "rep (rep y) = rep y" using p1 [OF y] fy gn by auto
      show "(p1 ! y = y) = (rep y = y)" using p1 [OF y] fy gx f(4) False by auto
      show "p1 ! y \<noteq> y \<Longrightarrow> d (p1 ! y) < d y" using p1 [OF y] fy dg by auto
    qed
    from less.hyps [OF dg this gn(1)] obtain p' where "uf_find p1 g = Some (p', rep x)" "forest n p' rep d"
      using gn(2) by auto
    moreover have "p1 ! x = g" using p1 less.prems(2) by simp
    ultimately show ?thesis using False by (subst uf_find.simps) (simp add: Let_def p1_def g_def)
  qed
qed

definition merge_rep :: "(nat \<Rightarrow> nat) \<Rightarrow> nat \<Rightarrow> nat \<Rightarrow> nat \<Rightarrow> nat" where
  "merge_rep rep a b z = (if rep z = rep a then rep b else rep z)"

lemma uf_unite_forest:
  assumes "forest n p rep d" "a < n" "b < n"
  shows "\<exists>p' d'. uf_unite p a b = Some p' \<and> forest n p' (merge_rep rep a b) d'"
proof -
  obtain p1 where p1: "uf_find p b = Some (p1, rep b)" "forest n p1 rep d"
    using uf_find_forest [OF assms(1,3)] by auto
  obtain p2 where p2: "uf_find p1 a = Some (p2, rep a)" "forest n p2 rep d"
    using uf_find_forest [OF p1(2) assms(2)] by auto
  define p' where "p' = p2[rep a := rep b]"
  define d' where "d' z = (if rep z = rep a \<and> rep a \<noteq> rep b then d z + d (rep b) + 1 else d z)" for z
  note ra = forestD [OF assms(1,2)] and rb = forestD [OF assms(1,3)]
  have p': "p' ! z = (if z = rep a then rep b else p2 ! z)" if "z < n" for z
    using that ra(3) forestD(7) [OF p2(2) assms(2)] by (simp add: p'_def nth_list_update)
  have "forest n p' (merge_rep rep a b) d'"
    unfolding forest_def
  proof (intro conjI allI impI)
    show "length p' = n" using forestD(7) [OF p2(2) assms(2)] by (simp add: p'_def)
    fix z assume z: "z < n"
    note fz = forestD [OF p2(2) z]
    show "p' ! z < n" using p' [OF z] fz rb(3) by auto
    show "merge_rep rep a b (p' ! z) = merge_rep rep a b z"
      using p' [OF z] fz(2) ra(6) rb(6) by (auto simp: merge_rep_def)
    show "merge_rep rep a b z < n" using fz(3) rb(3) by (simp add: merge_rep_def)
    show "(p' ! z = z) = (merge_rep rep a b z = z)"
      using p' [OF z] fz(4) ra(6) rb(6) by (auto simp: merge_rep_def)
    show "merge_rep rep a b (merge_rep rep a b z) = merge_rep rep a b z"
      using fz(6) rb(6) by (auto simp: merge_rep_def)
    assume ne: "p' ! z \<noteq> z"
    show "d' (p' ! z) < d' z"
      using p' [OF z] fz(2,5) ra(6) rb(6) ne by (cases "z = rep a") (auto simp: d'_def)
  qed
  moreover have "uf_unite p a b = Some p'" using p1 p2 by (simp add: uf_unite_def p'_def)
  ultimately show ?thesis by blast
qed

text \<open>The partition by roots is the equivalence closure of the united pairs.\<close>

definition closure :: "nat \<Rightarrow> (nat \<times> nat) set \<Rightarrow> (nat \<times> nat) set" where
  "closure n E = {(x, y). x < n \<and> y < n \<and> (x, y) \<in> (E \<union> E\<inverse>)\<^sup>*}"

definition same_root :: "nat \<Rightarrow> (nat \<Rightarrow> nat) \<Rightarrow> (nat \<times> nat) set" where
  "same_root n rep = {(x, y). x < n \<and> y < n \<and> rep x = rep y}"

lemma closure_equiv: "equiv {0..<n} (closure n E)"
proof (rule equivI)
  show "refl_on {0..<n} (closure n E)" by (auto simp: refl_on_def closure_def)
  show "sym (closure n E)"
    unfolding closure_def sym_def by (auto simp: Un_commute dest: rtrancl_converseI) (metis converse_Un converse_converse rtrancl_converseD Un_commute)
  show "trans (closure n E)" by (auto simp: trans_def closure_def)
qed (auto simp: closure_def)

lemma same_root_merge:
  assumes "same_root n rep = closure n E" "a < n" "b < n" "E \<subseteq> {0..<n} \<times> {0..<n}"
  shows "same_root n (merge_rep rep a b) = closure n (insert (a, b) E)"
proof (intro equalityI subrelI)
  let ?E = "insert (a, b) E"
  have mono: "(x, y) \<in> closure n ?E" if "(x, y) \<in> closure n E" for x y
    using that rtrancl_mono [of "E \<union> E\<inverse>" "?E \<union> ?E\<inverse>"] by (auto simp: closure_def)
  have ab: "(a, b) \<in> closure n ?E" using assms(2,3) by (auto simp: closure_def)
  have symt: "(x, y) \<in> closure n ?E \<Longrightarrow> (y, x) \<in> closure n ?E" for x y
    using equivE [OF closure_equiv [of n ?E]] by (meson symD)
  have tr: "(x, y) \<in> closure n ?E \<Longrightarrow> (y, z) \<in> closure n ?E \<Longrightarrow> (x, z) \<in> closure n ?E" for x y z
    using equivE [OF closure_equiv [of n ?E]] by (meson transD)
  have old: "rep x = rep y \<Longrightarrow> x < n \<Longrightarrow> y < n \<Longrightarrow> (x, y) \<in> closure n ?E" for x y
    using assms(1) mono by (auto simp: same_root_def)
  fix x y assume "(x, y) \<in> same_root n (merge_rep rep a b)"
  then have xy: "x < n" "y < n" "merge_rep rep a b x = merge_rep rep a b y" by (auto simp: same_root_def)
  show "(x, y) \<in> closure n ?E"
  proof (cases "rep x = rep y")
    case True
    with old xy show ?thesis by blast
  next
    case False
    with xy(3) consider "rep x = rep a" "rep y = rep b" | "rep y = rep a" "rep x = rep b"
      by (auto simp: merge_rep_def split: if_splits)
    then show ?thesis
    proof cases
      case 1
      then have "(x, a) \<in> closure n ?E" "(b, y) \<in> closure n ?E" using old xy assms(2,3) by auto
      with ab tr show ?thesis by blast
    next
      case 2
      then have "(x, b) \<in> closure n ?E" "(a, y) \<in> closure n ?E" using old xy assms(2,3) by auto
      with symt [OF ab] tr show ?thesis by blast
    qed
  qed
next
  let ?E = "insert (a, b) E"
  have edge: "merge_rep rep a b u = merge_rep rep a b v" if "(u, v) \<in> ?E" for u v
  proof (cases "(u, v) = (a, b)")
    case False
    with that have "(u, v) \<in> E" by blast
    then have "(u, v) \<in> closure n E" using assms(4) by (auto simp: closure_def)
    then have "rep u = rep v" unfolding assms(1) [symmetric] by (simp add: same_root_def)
    then show ?thesis by (simp add: merge_rep_def)
  qed (auto simp: merge_rep_def)
  fix x y assume "(x, y) \<in> closure n ?E"
  then have xy: "x < n" "y < n" "(x, y) \<in> (?E \<union> ?E\<inverse>)\<^sup>*" by (auto simp: closure_def)
  from xy(3) have "merge_rep rep a b x = merge_rep rep a b y"
  proof (induction rule: rtrancl_induct)
    case (step u v)
    then show ?case using edge [of u v] edge [of v u] by auto
  qed simp
  with xy show "(x, y) \<in> same_root n (merge_rep rep a b)" by (simp add: same_root_def)
qed

lemma uf_unite_closure:
  assumes "forest n p rep d" "same_root n rep = closure n E" "E \<subseteq> {0..<n} \<times> {0..<n}" "a < n" "b < n"
  shows "\<exists>p' rep' d'. uf_unite p a b = Some p' \<and> forest n p' rep' d' \<and> same_root n rep' = closure n (insert (a, b) E)"
  using uf_unite_forest [OF assms(1,4,5)] same_root_merge [OF assms(2,4,5,3)] by blast

lemma unite_columns_closure:
  assumes "forest n p rep d" "same_root n rep = closure n E" "E \<subseteq> {0..<n} \<times> {0..<n}"
    and "\<forall>i \<in> set ks. n0 + i < n"
  shows "\<exists>p' rep' d'. unite_columns n0 ks p = Some p' \<and> forest n p' rep' d'
    \<and> same_root n rep' = closure n (E \<union> (\<lambda>i. (i, n0 + i)) ` set ks)"
  using assms
proof (induction ks arbitrary: p rep d E)
  case Nil
  then show ?case by auto
next
  case (Cons i ks)
  have i: "i < n" "n0 + i < n" using Cons.prems(4) by auto
  obtain p1 r1 d1 where s: "uf_unite p i (n0 + i) = Some p1" "forest n p1 r1 d1"
    "same_root n r1 = closure n (insert (i, n0 + i) E)"
    using uf_unite_closure [OF Cons.prems(1-3) i] by blast
  have "insert (i, n0 + i) E \<subseteq> {0..<n} \<times> {0..<n}" using Cons.prems(3) i by auto
  from Cons.IH [OF s(2,3) this] Cons.prems(4) s(1) show ?case by (simp add: Un_insert_right)
qed

text \<open>The pairs \<open>add_slot\<close> unites: a slot with the first slot of its value.\<close>

fun slot_edges :: "('v \<rightharpoonup> nat) \<Rightarrow> ('v \<times> nat) list \<Rightarrow> (nat \<times> nat) set" where
  "slot_edges first [] = {}"
| "slot_edges first ((v, t) # vs) =
     (case first v of None \<Rightarrow> slot_edges (first(v \<mapsto> t)) vs | Some s \<Rightarrow> insert (s, t) (slot_edges first vs))"

lemma add_slots_closure:
  assumes "forest n p rep d" "same_root n rep = closure n E" "E \<subseteq> {0..<n} \<times> {0..<n}"
    and "\<forall>(v, s) \<in> set vs. s < n" "\<forall>s \<in> ran first. s < n"
  shows "\<exists>p' rep' d'. add_slots vs first p = Some p' \<and> forest n p' rep' d'
    \<and> same_root n rep' = closure n (E \<union> slot_edges first vs)"
  using assms
proof (induction first vs arbitrary: p rep d E rule: slot_edges.induct)
  case (1 first)
  then show ?case by auto
next
  case (2 first v t vs)
  show ?case
  proof (cases "first v")
    case None
    have "\<forall>s \<in> ran (first(v \<mapsto> t)). s < n" using 2(6,7) None by (auto simp: ran_def)
    moreover have "\<forall>(v, s) \<in> set vs. s < n" using 2(6) by simp
    ultimately show ?thesis using 2(1) [OF None 2(3-5)] None by (simp del: fun_upd_apply)
  next
    case (Some s)
    have st: "s < n" "t < n" using 2(6,7) Some by (auto simp: ran_def)
    obtain p1 r1 d1 where u: "uf_unite p s t = Some p1" "forest n p1 r1 d1"
      "same_root n r1 = closure n (insert (s, t) E)"
      using uf_unite_closure [OF 2(3-5) st] by blast
    have "insert (s, t) E \<subseteq> {0..<n} \<times> {0..<n}" using 2(5) st by auto
    from 2(2) [OF Some u(2,3) this] 2(6,7) u(1) Some show ?thesis by simp
  qed
qed

lemma slot_edges_same_value:
  "(s, t) \<in> slot_edges first vs \<Longrightarrow> \<exists>v. (first v = Some s \<or> (v, s) \<in> set vs) \<and> (v, t) \<in> set vs"
proof (induction first vs rule: slot_edges.induct)
  case (2 first v t' vs)
  show ?case
  proof (cases "first v")
    case None
    then obtain w where "(first(v \<mapsto> t')) w = Some s \<or> (w, s) \<in> set vs" "(w, t) \<in> set vs"
      using 2(1) [OF None] 2(3) None by (auto simp del: fun_upd_apply)
    then show ?thesis by (intro exI [of _ w]) (auto split: if_splits)
  next
    case (Some s')
    with 2(2,3) show ?thesis by (cases "(s, t) = (s', t')") auto
  qed
qed simp

lemma slot_edges_known: "(v, t) \<in> set vs \<Longrightarrow> first v = Some s \<Longrightarrow> (s, t) \<in> slot_edges first vs"
proof (induction first vs rule: slot_edges.induct)
  case (2 first w t' vs)
  show ?case
  proof (cases "first w")
    case None
    then have "(v, t) \<in> set vs" "(first(w \<mapsto> t')) v = Some s" using 2(3,4) by (auto split: if_splits)
    from 2(1) [OF None this] None show ?thesis by (simp del: fun_upd_apply)
  next
    case (Some s')
    with 2(2-4) show ?thesis by auto
  qed
qed simp

lemma slot_edges_first:
  "(v, t) \<in> set vs \<Longrightarrow> first v = None \<Longrightarrow>
   \<exists>s. (v, s) \<in> set vs \<and> (\<forall>t'. (v, t') \<in> set vs \<longrightarrow> t' = s \<or> (s, t') \<in> slot_edges first vs)"
proof (induction first vs rule: slot_edges.induct)
  case (2 first w t' vs)
  show ?case
  proof (cases "w = v")
    case True
    have "slot_edges first ((w, t') # vs) = slot_edges (first(v \<mapsto> t')) vs" using True 2(4) by simp
    then show ?thesis
      using True slot_edges_known [of v _ vs "first(v \<mapsto> t')" t'] by (intro exI [of _ t']) auto
  next
    case False
    then have v: "(v, t) \<in> set vs" using 2(3) by auto
    show ?thesis
    proof (cases "first w")
      case None
      have "(first(w \<mapsto> t')) v = None" using False 2(4) by simp
      from 2(1) [OF None v this] False None show ?thesis by (auto simp del: fun_upd_apply)
    next
      case (Some s')
      from 2(2) [OF Some v 2(4)] False Some show ?thesis by auto
    qed
  qed
qed simp

lemma closure_cong:
  assumes "E \<subseteq> (F \<union> F\<inverse>)\<^sup>*" "F \<subseteq> (E \<union> E\<inverse>)\<^sup>*"
  shows "closure n E = closure n F"
proof -
  have conv: "((R \<union> R\<inverse>)\<^sup>*)\<inverse> = (R \<union> R\<inverse>)\<^sup>*" for R :: "(nat \<times> nat) set"
    by (simp add: rtrancl_converse [symmetric] converse_Un Un_commute)
  have "(E \<union> E\<inverse>)\<^sup>* = (F \<union> F\<inverse>)\<^sup>*"
  proof (rule rtrancl_subset_rtrancl [THEN equalityI])
    show "E \<union> E\<inverse> \<subseteq> (F \<union> F\<inverse>)\<^sup>*" using assms(1) conv [of F] by auto
    show "(F \<union> F\<inverse>)\<^sup>* \<subseteq> (E \<union> E\<inverse>)\<^sup>*" using assms(2) conv [of E] by (intro rtrancl_subset_rtrancl) auto
  qed
  then show ?thesis by (simp add: closure_def)
qed

lemma count_roots_forest:
  assumes "forest n p rep d" "\<forall>i \<in> set is. i < n"
  shows "count_roots is p c = Some (c + length (filter (\<lambda>i. rep i = i) is))"
  using assms
proof (induction "is" arbitrary: p c)
  case (Cons i is')
  obtain p' where "uf_find p i = Some (p', rep i)" "forest n p' rep d"
    using uf_find_forest [OF Cons.prems(1), of i] Cons.prems(2) by auto
  with Cons show ?case by simp
qed simp

lemma count_classes:
  assumes "forest n p rep d" "same_root n rep = closure n E"
  shows "length (filter (\<lambda>i. rep i = i) [0..<n]) = card ({0..<n} // closure n E)"
proof -
  have "bij_betw (\<lambda>i. closure n E `` {i}) {i. i < n \<and> rep i = i} ({0..<n} // closure n E)"
    unfolding assms(2) [symmetric]
  proof (rule bij_betw_imageI)
    show "inj_on (\<lambda>i. same_root n rep `` {i}) {i. i < n \<and> rep i = i}"
    proof (rule inj_onI)
      fix i j assume ij: "i \<in> {i. i < n \<and> rep i = i}" "j \<in> {i. i < n \<and> rep i = i}"
        "same_root n rep `` {i} = same_root n rep `` {j}"
      then have "j \<in> same_root n rep `` {i}" by (auto simp: same_root_def)
      with ij(1,2) show "i = j" by (simp add: same_root_def)
    qed
    show "(\<lambda>i. same_root n rep `` {i}) ` {i. i < n \<and> rep i = i} = {0..<n} // same_root n rep"
    proof (intro equalityI subsetI)
      fix X assume "X \<in> {0..<n} // same_root n rep"
      then obtain x where x: "x < n" "X = same_root n rep `` {x}" by (auto simp: quotient_def)
      then have "X = same_root n rep `` {rep x}" "rep x < n" "rep (rep x) = rep x"
        using forestD [OF assms(1) x(1)] by (auto simp: same_root_def)
      then show "X \<in> (\<lambda>i. same_root n rep `` {i}) ` {i. i < n \<and> rep i = i}" by auto
    qed (auto simp: quotient_def)
  qed
  then have "card ({0..<n} // closure n E) = card {i. i < n \<and> rep i = i}" by (simp add: bij_betw_same_card)
  also have "{i. i < n \<and> rep i = i} = set (filter (\<lambda>i. rep i = i) [0..<n])" by auto
  also have "card \<dots> = length (filter (\<lambda>i. rep i = i) [0..<n])" by (intro distinct_card) simp
  finally show ?thesis by simp
qed

section \<open>The number of spin loops\<close>

text \<open>Two slots carry the same spin in one column, or with one value.\<close>

definition spin_edges :: "'v list \<Rightarrow> 'v list \<Rightarrow> (nat \<times> nat) set" where
  "spin_edges v0 v1 = {(i, length v0 + i) |i. i < min (length v0) (length v1)}
     \<union> {(i, j). i < length (v0 @ v1) \<and> j < length (v0 @ v1) \<and> (v0 @ v1) ! i = (v0 @ v1) ! j}"

definition spin_loops :: "'v list \<Rightarrow> 'v list \<Rightarrow> nat set set" where
  "spin_loops v0 v1 = {0..<length v0 + length v1} // closure (length v0 + length v1) (spin_edges v0 v1)"

lemma forest_initial: "forest n [0..<n] (\<lambda>x. x) (\<lambda>x. 0)" "same_root n (\<lambda>x. x) = closure n {}"
  by (auto simp: forest_def same_root_def closure_def)

lemma slots_set:
  "set (zip v0 [0..<length v0] @ zip v1 (map (\<lambda>i. length v0 + i) [0..<length v1]))
     = {(v, s). s < length (v0 @ v1) \<and> v = (v0 @ v1) ! s}"
proof -
  have "zip v0 [0..<length v0] @ zip v1 (map (\<lambda>i. length v0 + i) [0..<length v1])
      = zip (v0 @ v1) [0..<length (v0 @ v1)]"
    by (intro nth_equalityI) (auto simp: nth_append)
  then show ?thesis by (auto simp: set_zip)
qed

lemma cycle_count_loops: "cycle_count v0 v1 = Some (card (spin_loops v0 v1))"
proof -
  define n where "n = length v0 + length v1"
  define vs where "vs = zip v0 [0..<length v0] @ zip v1 (map (\<lambda>i. length v0 + i) [0..<length v1])"
  define C where "C = (\<lambda>i. (i, length v0 + i)) ` {0..<min (length v0) (length v1)}"
  have vs: "(v, s) \<in> set vs \<longleftrightarrow> s < n \<and> v = (v0 @ v1) ! s" for v s
    unfolding vs_def slots_set by (simp add: n_def)
  have "\<forall>i \<in> set [0..<min (length v0) (length v1)]. length v0 + i < n" by (auto simp: n_def)
  from unite_columns_closure [OF forest_initial(1) forest_initial(2) empty_subsetI this]
  obtain p1 r1 d1 where c: "unite_columns (length v0) [0..<min (length v0) (length v1)] [0..<n] = Some p1"
    "forest n p1 r1 d1" "same_root n r1 = closure n C"
    by (auto simp: C_def)
  have "C \<subseteq> {0..<n} \<times> {0..<n}" by (auto simp: C_def n_def)
  moreover have "\<forall>(v, s) \<in> set vs. s < n" using vs by auto
  ultimately obtain p2 r2 d2 where a: "add_slots vs (\<lambda>_. None) p1 = Some p2" "forest n p2 r2 d2"
    "same_root n r2 = closure n (C \<union> slot_edges (\<lambda>_. None) vs)"
    using add_slots_closure [OF c(2,3), of vs "\<lambda>_. None"] by auto
  have "closure n (C \<union> slot_edges (\<lambda>_. None) vs) = closure n (spin_edges v0 v1)"
  proof (rule closure_cong)
    have "C \<union> slot_edges (\<lambda>_. None) vs \<subseteq> spin_edges v0 v1"
    proof (intro Un_least subrelI)
      fix s t assume "(s, t) \<in> slot_edges (\<lambda>_. None) vs"
      from slot_edges_same_value [OF this] show "(s, t) \<in> spin_edges v0 v1"
        using vs by (auto simp: spin_edges_def n_def)
    qed (auto simp: C_def spin_edges_def)
    then show "C \<union> slot_edges (\<lambda>_. None) vs \<subseteq> (spin_edges v0 v1 \<union> (spin_edges v0 v1)\<inverse>)\<^sup>*" by blast
    let ?R = "(C \<union> slot_edges (\<lambda>_. None) vs) \<union> (C \<union> slot_edges (\<lambda>_. None) vs)\<inverse>"
    show "spin_edges v0 v1 \<subseteq> ?R\<^sup>*"
    proof (intro subrelI)
      fix i j assume "(i, j) \<in> spin_edges v0 v1"
      then consider "(i, j) \<in> C" | "i < n" "j < n" "(v0 @ v1) ! i = (v0 @ v1) ! j"
        by (auto simp: spin_edges_def C_def n_def)
      then show "(i, j) \<in> ?R\<^sup>*"
      proof cases
        case 2
        then have "((v0 @ v1) ! i, i) \<in> set vs" "((v0 @ v1) ! i, j) \<in> set vs" using vs by auto
        with slot_edges_first [OF this(1), of "\<lambda>_. None"] obtain s
          where "i = s \<or> (s, i) \<in> slot_edges (\<lambda>_. None) vs" "j = s \<or> (s, j) \<in> slot_edges (\<lambda>_. None) vs" by auto
        then have "(i, s) \<in> ?R\<^sup>*" "(s, j) \<in> ?R\<^sup>*" by auto
        then show ?thesis by (rule rtrancl_trans)
      qed auto
    qed
  qed
  with a count_classes [of n p2 r2 d2 "spin_edges v0 v1"]
  have "length (filter (\<lambda>i. r2 i = i) [0..<n]) = card (spin_loops v0 v1)"
    by (simp add: spin_loops_def n_def)
  moreover have "count_roots [0..<n] p2 0 = Some (length (filter (\<lambda>i. r2 i = i) [0..<n]))"
    using count_roots_forest [OF a(2), of "[0..<n]" 0] by simp
  ultimately show ?thesis
    using c(1) a(1) by (simp add: cycle_count_def Let_def vs_def n_def)
qed

text \<open>A bijection of the slots that respects the edges keeps the number of loops.\<close>

lemma closure_map:
  assumes "\<And>x y. (x, y) \<in> E \<Longrightarrow> (f x, f y) \<in> (F \<union> F\<inverse>)\<^sup>*" "\<And>x. x < n \<Longrightarrow> f x < n" "(x, y) \<in> closure n E"
  shows "(f x, f y) \<in> closure n F"
proof -
  have conv: "(u, v) \<in> (F \<union> F\<inverse>)\<^sup>* \<Longrightarrow> (v, u) \<in> (F \<union> F\<inverse>)\<^sup>*" for u v
    by (rule symD [OF sym_rtrancl [OF sym_Un_converse]])
  have "(x, y) \<in> (E \<union> E\<inverse>)\<^sup>* \<Longrightarrow> (f x, f y) \<in> (F \<union> F\<inverse>)\<^sup>*"
  proof (induction rule: rtrancl_induct)
    case (step u v)
    then have "(f u, f v) \<in> (F \<union> F\<inverse>)\<^sup>*" using assms(1) conv by auto
    with step.IH show ?case by (rule rtrancl_trans)
  qed simp
  with assms(2,3) show ?thesis by (auto simp: closure_def)
qed

lemma card_quotient_involution:
  assumes "\<And>x. x < n \<Longrightarrow> f x < n \<and> f (f x) = x"
    and "\<And>x y. (x, y) \<in> closure n E \<Longrightarrow> (f x, f y) \<in> closure n F"
    and "\<And>x y. (x, y) \<in> closure n F \<Longrightarrow> (f x, f y) \<in> closure n E"
  shows "card ({0..<n} // closure n E) = card ({0..<n} // closure n F)"
proof -
  have img: "f ` (closure n E `` {x}) = closure n F `` {f x}" if "x < n" "\<And>x y. (x, y) \<in> closure n E \<Longrightarrow> (f x, f y) \<in> closure n F"
    "\<And>x y. (x, y) \<in> closure n F \<Longrightarrow> (f x, f y) \<in> closure n E" for x E F
  proof (intro equalityI subsetI)
    fix y assume "y \<in> closure n F `` {f x}"
    then have "(f x, y) \<in> closure n F" by simp
    then have "(f (f x), f y) \<in> closure n E" "y < n" using that(3) by (auto simp: closure_def)
    then have "f y \<in> closure n E `` {x}" "y = f (f y)" using assms(1) that(1) by auto
    then show "y \<in> f ` (closure n E `` {x})" by blast
  qed (use that in auto)
  have "bij_betw ((`) f) ({0..<n} // closure n E) ({0..<n} // closure n F)"
  proof (rule bij_betw_imageI)
    show "inj_on ((`) f) ({0..<n} // closure n E)"
    proof (rule inj_on_subset [of _ "Pow {0..<n}"])
      have "inj_on f {0..<n}" using assms(1) by (intro inj_onI) (metis atLeastLessThan_iff)
      then show "inj_on ((`) f) (Pow {0..<n})" by (rule inj_on_image_Pow)
      show "{0..<n} // closure n E \<subseteq> Pow {0..<n}" by (auto simp: quotient_def closure_def)
    qed
    show "(`) f ` ({0..<n} // closure n E) = {0..<n} // closure n F"
    proof (intro equalityI subsetI)
      fix X assume "X \<in> (`) f ` ({0..<n} // closure n E)"
      then obtain x where "x < n" "X = f ` (closure n E `` {x})" by (auto simp: quotient_def)
      with img [of x E F] assms show "X \<in> {0..<n} // closure n F" by (auto simp: quotient_def)
    next
      fix X assume "X \<in> {0..<n} // closure n F"
      then obtain x where x: "x < n" "X = closure n F `` {x}" by (auto simp: quotient_def)
      with img [of "f x" E F] assms have "X = f ` (closure n E `` {f x})" "f x < n" by auto
      then have "closure n E `` {f x} \<in> {0..<n} // closure n E" by (auto simp: quotient_def)
      with \<open>X = f ` (closure n E `` {f x})\<close> show "X \<in> (`) f ` ({0..<n} // closure n E)" by blast
    qed
  qed
  then show ?thesis by (rule bij_betw_same_card)
qed

definition swap_row :: "nat \<Rightarrow> nat \<Rightarrow> nat \<Rightarrow> nat" where
  "swap_row n i x = (if x = i then n + i else if x = n + i then i else x)"

lemma swap_row_edges:
  assumes "length v0 = length v1" "i < length v0" "(x, y) \<in> spin_edges v0 v1"
  shows "(swap_row (length v0) i x, swap_row (length v0) i y)
    \<in> (spin_edges (v0[i := v1 ! i]) (v1[i := v0 ! i]) \<union> (spin_edges (v0[i := v1 ! i]) (v1[i := v0 ! i]))\<inverse>)\<^sup>*"
proof -
  let ?n = "length v0" and ?f = "swap_row (length v0) i"
  let ?w0 = "v0[i := v1 ! i]" and ?w1 = "v1[i := v0 ! i]"
  have val: "(?w0 @ ?w1) ! ?f z = (v0 @ v1) ! z" "?f z < length (v0 @ v1)" if "z < length (v0 @ v1)" for z
    using assms(1,2) that by (auto simp: swap_row_def nth_append nth_list_update)
  from assms(3) consider j where "x = j" "y = ?n + j" "j < ?n"
    | "x < length (v0 @ v1)" "y < length (v0 @ v1)" "(v0 @ v1) ! x = (v0 @ v1) ! y"
    using assms(1) by (auto simp: spin_edges_def)
  then have "(?f x, ?f y) \<in> spin_edges ?w0 ?w1 \<union> (spin_edges ?w0 ?w1)\<inverse>"
  proof cases
    case 1
    then show ?thesis using assms(1,2) by (auto simp: spin_edges_def swap_row_def)
  next
    case 2
    with val [of x] val [of y] show ?thesis by (auto simp: spin_edges_def)
  qed
  then show ?thesis by blast
qed

lemma spin_loops_swap_row:
  assumes "length v0 = length v1" "i < length v0"
  shows "card (spin_loops (v0[i := v1 ! i]) (v1[i := v0 ! i])) = card (spin_loops v0 v1)"
proof -
  let ?n = "length v0" and ?f = "swap_row (length v0) i"
  let ?w0 = "v0[i := v1 ! i]" and ?w1 = "v1[i := v0 ! i]"
  have bound: "?f x < ?n + ?n \<and> ?f (?f x) = x" if "x < ?n + ?n" for x
    using that assms(2) by (auto simp: swap_row_def)
  have undo: "?w0[i := ?w1 ! i] = v0" "?w1[i := ?w0 ! i] = v1" using assms by simp_all
  have edges': "(?f x, ?f y) \<in> (spin_edges v0 v1 \<union> (spin_edges v0 v1)\<inverse>)\<^sup>*"
    if "(x, y) \<in> spin_edges ?w0 ?w1" for x y
    using swap_row_edges [of ?w0 ?w1 i x y] that assms by (simp only: undo length_list_update)
  have "card ({0..<?n + ?n} // closure (?n + ?n) (spin_edges v0 v1))
      = card ({0..<?n + ?n} // closure (?n + ?n) (spin_edges ?w0 ?w1))"
  proof (rule card_quotient_involution [where f = ?f])
    fix x y
    show "x < ?n + ?n \<Longrightarrow> ?f x < ?n + ?n \<and> ?f (?f x) = x" using bound by simp
    show "(x, y) \<in> closure (?n + ?n) (spin_edges v0 v1) \<Longrightarrow> (?f x, ?f y) \<in> closure (?n + ?n) (spin_edges ?w0 ?w1)"
      by (rule closure_map [OF swap_row_edges [OF assms]]) (simp_all add: bound)
    show "(x, y) \<in> closure (?n + ?n) (spin_edges ?w0 ?w1) \<Longrightarrow> (?f x, ?f y) \<in> closure (?n + ?n) (spin_edges v0 v1)"
      by (rule closure_map [OF edges']) (simp_all add: bound)
  qed
  then show ?thesis using assms(1) by (simp add: spin_loops_def)
qed

lemma slots_paired_count:
  "slots_paired v0 v1 \<longleftrightarrow> length v0 = length v1 \<and> (\<forall>x\<in>#mset (v0 @ v1). size (filter_mset (\<lambda>y. y = x) (mset (v0 @ v1))) = 2)"
proof -
  have "length (filter (\<lambda>y. y = x) vs) = size (filter_mset (\<lambda>y. y = x) (mset vs))" for x and vs :: "'a list"
    by (metis mset_filter size_mset)
  then show ?thesis by (simp only: slots_paired_def list_all_iff set_mset_mset)
qed

lemma slots_paired_swap:
  assumes "length v0 = length v1" "i < length v0"
  shows "slots_paired (v0[i := v1 ! i]) (v1[i := v0 ! i]) \<longleftrightarrow> slots_paired v0 v1"
proof -
  obtain a x b where v0: "v0 = a @ x # b" "length a = i" using assms(2) by (metis id_take_nth_drop length_take min.absorb4)
  obtain c y d where v1: "v1 = c @ y # d" "length c = i" using assms by (metis id_take_nth_drop length_take min.absorb4)
  have "mset (v0[i := v1 ! i] @ v1[i := v0 ! i]) = mset (v0 @ v1)" using v0 v1 by (simp add: nth_append list_update_append)
  then show ?thesis unfolding slots_paired_count using assms by simp
qed

text \<open>C19: On rows of one length in which every value fills exactly two slots, \<open>count_cycles\<close> ends and returns the
  number of spin loops: the classes of slots under the smallest equivalence that joins the two rows of a column
  and the slots of one value; it asserts on all other arguments.  Exchanging the two entries of a column (a
  bra-ket swap) keeps the precondition and does not change the result.\<close>
theorem count_cycles_counts_loops:
  "count_cycles v0 v1 = Some (if slots_paired v0 v1 then Inr (card (spin_loops v0 v1)) else Inl SlotsAssertion)
   \<and> (length v0 = length v1 \<longrightarrow> i < length v0 \<longrightarrow>
       count_cycles (v0[i := v1 ! i]) (v1[i := v0 ! i]) = count_cycles v0 v1)"
  by (simp add: count_cycles_def cycle_count_loops spin_loops_swap_row slots_paired_swap)

theorem count_cycles_counts_loops_witness:
  "card (spin_loops [0, 1, 2, 3 :: nat] [1, 0, 2, 3]) = 3
   \<and> count_cycles ([0, 1, 2, 3 :: nat][1 := 0]) ([1, 0, 2, 3][1 := 1]) = Some (Inr 3)"
proof -
  have "count_cycles [0, 1, 2, 3 :: nat] [1, 0, 2, 3] = Some (Inr 3)" by code_simp
  moreover have "slots_paired [0, 1, 2, 3 :: nat] [1, 0, 2, 3]" by (simp add: slots_paired_def)
  ultimately show ?thesis using count_cycles_counts_loops [of "[0, 1, 2, 3 :: nat]" "[1, 0, 2, 3]" 1] by simp
qed

end
