(* ===== verification/Topological.thy ===== *)
theory Topological
  imports Prelude
begin

text \<open>
  SeQuant/core/utility/topological.hpp: Kahn's algorithm with a deterministic choice among the ready
  elements.  The dependency query is a function to lists; the comparator is optional.  The while loop
  is a partial function, proved to end.
\<close>

datatype topo_error =
    OutOfRange  \<comment> \<open>\<open>dependents.at(dep)\<close>\<close>
  | ImpossibleDependencies

definition tie_broken_less :: "(nat \<Rightarrow> nat \<Rightarrow> bool) option \<Rightarrow> nat \<Rightarrow> nat \<Rightarrow> bool" where
  "tie_broken_less cmp a b =
     (case cmp of None \<Rightarrow> a < b
      | Some c \<Rightarrow> if c a b then True else if c b a then False else a < b)"

text \<open>The edges are entered one by one: \<open>++indegree.at(i); dependents.at(dep).push_back(i)\<close>.\<close>

fun add_deps :: "nat \<Rightarrow> nat list \<Rightarrow> nat list \<times> nat list list \<Rightarrow> (topo_error, nat list \<times> nat list list) result" where
  "add_deps i [] st = Inr st"
| "add_deps i (dep # ds) (indegree, dependents) =
     (if dep < length dependents
      then add_deps i ds (indegree[i := Suc (indegree ! i)], dependents[dep := dependents ! dep @ [i]])
      else Inl OutOfRange)"

fun build_edges :: "nat list \<Rightarrow> (nat \<Rightarrow> nat list) \<Rightarrow> nat list \<times> nat list list \<Rightarrow> (topo_error, nat list \<times> nat list list) result" where
  "build_edges [] deps st = Inr st"
| "build_edges (i # is) deps st = bind_res (add_deps i (deps i) st) (build_edges is deps)"

text \<open>\<open>std::ranges::min_element\<close>: the first of the smallest elements.\<close>

fun min_element :: "('a \<Rightarrow> 'a \<Rightarrow> bool) \<Rightarrow> 'a list \<Rightarrow> 'a \<Rightarrow> 'a" where
  "min_element lt [] best = best"
| "min_element lt (x # xs) best = min_element lt xs (if lt x best then x else best)"

text \<open>The inner loop releases the dependents of the chosen index.\<close>

fun release :: "nat list \<Rightarrow> nat list \<times> nat list \<Rightarrow> nat list \<times> nat list" where
  "release [] st = st"
| "release (dep # ds) (indegree, ready) =
     (let ind = indegree[dep := indegree ! dep - 1]
      in release ds (ind, if ind ! dep = 0 then ready @ [dep] else ready))"

partial_function (option) kahn :: "(nat \<Rightarrow> nat \<Rightarrow> bool) \<Rightarrow> nat list list \<Rightarrow> nat list \<Rightarrow> nat list \<Rightarrow> nat list \<Rightarrow> nat list option" where
  "kahn lt dependents indegree ready order =
     (case ready of [] \<Rightarrow> Some order
      | r # rs \<Rightarrow>
         (let idx = min_element lt rs r;
              (ind, rdy) = release (dependents ! idx) (indegree, remove1 idx ready)
          in kahn lt dependents ind rdy (order @ [idx])))"

declare kahn.simps [code]

definition topological_order_indexed ::
    "nat \<Rightarrow> (nat \<Rightarrow> nat list) \<Rightarrow> (nat \<Rightarrow> nat \<Rightarrow> bool) option \<Rightarrow> (topo_error, nat list) result option" where
  "topological_order_indexed n deps cmp =
     (case build_edges [0..<n] deps (replicate n 0, replicate n []) of
        Inl e \<Rightarrow> Some (Inl e)
      | Inr (indegree, dependents) \<Rightarrow>
          Option.bind (kahn (tie_broken_less cmp) dependents indegree (filter (\<lambda>i. indegree ! i = 0) [0..<n]) [])
            (\<lambda>order. Some (if length order \<noteq> n then Inl ImpossibleDependencies else Inr order)))"

text \<open>The overload on a range of values finds each dependency's first position; a dependency that is not
  in the range fails an assertion, \<open>None\<close> here.\<close>

fun dep_positions :: "'a list \<Rightarrow> 'a list \<Rightarrow> nat list option" where
  "dep_positions rng [] = Some []"
| "dep_positions rng (d # ds) =
     (if d \<in> set rng
      then map_option (Cons (length (takeWhile (\<lambda>x. x \<noteq> d) rng))) (dep_positions rng ds)
      else None)"

definition topological_order ::
    "'a list \<Rightarrow> ('a \<Rightarrow> 'a list) \<Rightarrow> ('a \<Rightarrow> 'a \<Rightarrow> bool) option \<Rightarrow> (topo_error, nat list) result option" where
  "topological_order rng deps cmp =
     (let table = map (\<lambda>x. dep_positions rng (deps x)) rng
      in if None \<in> set table then None
         else topological_order_indexed (length rng) (\<lambda>i. the (table ! i))
                (map_option (\<lambda>c a b. c (rng ! a) (rng ! b)) cmp))"

section \<open>The choice of the next index\<close>

lemma tie_broken_swo:
  assumes "\<And>c. cmp = Some c \<Longrightarrow> strict_weak_order c"
  shows "strict_weak_order (tie_broken_less cmp)"
proof (cases cmp)
  case None
  then show ?thesis by unfold_locales (auto simp: tie_broken_less_def)
next
  case (Some c)
  note swo = assms [OF Some]
  note f = strict_weak_order.lt_irrefl [OF swo] strict_weak_order.lt_trans [OF swo]
    strict_weak_order.incomp_trans [OF swo] strict_weak_order.lt_asym [OF swo]
  show ?thesis
  proof
    fix x y z :: nat
    show "\<not> tie_broken_less cmp x x" using f(1) by (simp add: tie_broken_less_def Some)
    show "tie_broken_less cmp x y \<Longrightarrow> tie_broken_less cmp y z \<Longrightarrow> tie_broken_less cmp x z"
      unfolding tie_broken_less_def Some by (simp split: if_splits) (use f in \<open>metis less_trans\<close>)+
    show "\<not> tie_broken_less cmp x y \<Longrightarrow> \<not> tie_broken_less cmp y z \<Longrightarrow> \<not> tie_broken_less cmp x z"
      unfolding tie_broken_less_def Some by (simp split: if_splits) (use f in \<open>metis order_less_le_trans not_less order_trans\<close>)+
  qed
qed

lemma min_element_least:
  assumes "strict_weak_order lt"
  shows "min_element lt xs best \<in> set (best # xs) \<and> (\<forall>x \<in> set (best # xs). \<not> lt x (min_element lt xs best))"
proof (induction xs arbitrary: best)
  case Nil
  then show ?case using strict_weak_order.lt_irrefl [OF assms] by simp
next
  case (Cons x xs)
  define b where "b = (if lt x best then x else best)"
  have "\<not> lt x b" "\<not> lt best b"
    using strict_weak_order.lt_irrefl [OF assms] strict_weak_order.lt_asym [OF assms] by (auto simp: b_def)
  moreover have "\<not> lt b (min_element lt xs b)" using Cons.IH [of b] by simp
  ultimately have "\<not> lt x (min_element lt xs b)" "\<not> lt best (min_element lt xs b)"
    using strict_weak_order.incomp_trans [OF assms] by blast+
  with Cons.IH [of b] show ?case by (auto simp: b_def)
qed

section \<open>Building the edges\<close>

lemma add_deps_spec:
  assumes "\<forall>d \<in> set ds. d < length dependents" "i < length indegree"
  shows "\<exists>ind dps. add_deps i ds (indegree, dependents) = Inr (ind, dps)
    \<and> length ind = length indegree \<and> length dps = length dependents
    \<and> (\<forall>j < length indegree. ind ! j = indegree ! j + (if j = i then length ds else 0))
    \<and> (\<forall>d < length dependents. mset (dps ! d) = mset (dependents ! d) + replicate_mset (count (mset ds) d) i)"
  using assms
proof (induction ds arbitrary: indegree dependents)
  case (Cons d ds)
  let ?ind = "indegree[i := Suc (indegree ! i)]" and ?dps = "dependents[d := dependents ! d @ [i]]"
  obtain ind dps where r: "add_deps i ds (?ind, ?dps) = Inr (ind, dps)"
    "length ind = length ?ind" "length dps = length ?dps"
    "\<forall>j < length ?ind. ind ! j = ?ind ! j + (if j = i then length ds else 0)"
    "\<forall>d' < length ?dps. mset (dps ! d') = mset (?dps ! d') + replicate_mset (count (mset ds) d') i"
    using Cons.IH [of ?dps ?ind] Cons.prems by auto
  have "\<forall>j < length indegree. ind ! j = indegree ! j + (if j = i then length (d # ds) else 0)"
    using r(4) Cons.prems(2) by (auto simp: nth_list_update)
  moreover have "\<forall>d' < length dependents. mset (dps ! d') = mset (dependents ! d') + replicate_mset (count (mset (d # ds)) d') i"
    using r(5) Cons.prems(1) by (auto simp: nth_list_update)
  ultimately show ?case using r(1-3) Cons.prems(1) by auto
qed auto

lemma add_deps_out:
  "\<exists>d \<in> set ds. \<not> d < length dependents \<Longrightarrow> add_deps i ds (indegree, dependents) = Inl OutOfRange"
  by (induction ds arbitrary: indegree dependents) auto

lemma build_edges_spec:
  assumes "\<forall>i \<in> set is. i < length indegree \<and> (\<forall>d \<in> set (deps i). d < length dependents)" "distinct is"
  shows "\<exists>ind dps. build_edges is deps (indegree, dependents) = Inr (ind, dps)
    \<and> length ind = length indegree \<and> length dps = length dependents
    \<and> (\<forall>j < length indegree. ind ! j = indegree ! j + (if j \<in> set is then length (deps j) else 0))
    \<and> (\<forall>d < length dependents. \<forall>j. count (mset (dps ! d)) j
         = count (mset (dependents ! d)) j + (if j \<in> set is then count (mset (deps j)) d else 0))"
  using assms
proof (induction "is" arbitrary: indegree dependents)
  case (Cons i is')
  obtain ind dps where a: "add_deps i (deps i) (indegree, dependents) = Inr (ind, dps)"
    "length ind = length indegree" "length dps = length dependents"
    "\<forall>j < length indegree. ind ! j = indegree ! j + (if j = i then length (deps i) else 0)"
    "\<forall>d < length dependents. mset (dps ! d) = mset (dependents ! d) + replicate_mset (count (mset (deps i)) d) i"
    using add_deps_spec [of "deps i" dependents i indegree] Cons.prems by auto
  obtain ind' dps' where b: "build_edges is' deps (ind, dps) = Inr (ind', dps')"
    "length ind' = length ind" "length dps' = length dps"
    "\<forall>j < length ind. ind' ! j = ind ! j + (if j \<in> set is' then length (deps j) else 0)"
    "\<forall>d < length dps. \<forall>j. count (mset (dps' ! d)) j
         = count (mset (dps ! d)) j + (if j \<in> set is' then count (mset (deps j)) d else 0)"
    using Cons.IH [of ind dps] Cons.prems a(2,3) by auto
  have "i \<notin> set is'" using Cons.prems(2) by simp
  then have "\<forall>j < length indegree. ind' ! j = indegree ! j + (if j \<in> set (i # is') then length (deps j) else 0)"
    using a(2,4) b(4) by auto
  moreover have "\<forall>d < length dependents. \<forall>j. count (mset (dps' ! d)) j
         = count (mset (dependents ! d)) j + (if j \<in> set (i # is') then count (mset (deps j)) d else 0)"
    using a(3,5) b(5) \<open>i \<notin> set is'\<close> by auto
  ultimately show ?case using a(1-3) b(1-3) by auto
qed auto

lemma build_edges_out:
  assumes "\<exists>i \<in> set is. \<exists>d \<in> set (deps i). \<not> d < length dependents" "\<forall>i \<in> set is. i < length indegree"
  shows "build_edges is deps (indegree, dependents) = Inl OutOfRange"
  using assms
proof (induction "is" arbitrary: indegree dependents)
  case (Cons i is')
  show ?case
  proof (cases "\<exists>d \<in> set (deps i). \<not> d < length dependents")
    case True
    then show ?thesis by (simp add: add_deps_out)
  next
    case False
    then obtain ind dps where "add_deps i (deps i) (indegree, dependents) = Inr (ind, dps)"
      "length ind = length indegree" "length dps = length dependents"
      using add_deps_spec [of "deps i" dependents i indegree] Cons.prems by auto
    with False Cons show ?thesis by auto
  qed
qed simp

section \<open>Kahn's loop\<close>

lemma release_spec:
  assumes "\<forall>j. count (mset ds) j \<le> (if j < length ind then ind ! j else 0)"
    and "distinct ready" "\<forall>j \<in> set ready. j < length ind \<and> ind ! j = 0"
  shows "\<exists>ind' ready'. release ds (ind, ready) = (ind', ready') \<and> length ind' = length ind
    \<and> (\<forall>j < length ind. ind' ! j = ind ! j - count (mset ds) j)
    \<and> distinct ready' \<and> set ready' = set ready \<union> {j \<in> set ds. ind ! j = count (mset ds) j}"
  using assms
proof (induction ds arbitrary: ind ready)
  case (Cons d ds)
  have d: "d < length ind" "Suc (count (mset ds) d) \<le> ind ! d"
    using Cons.prems(1) [rule_format, of d] by (auto split: if_splits)
  define ind1 where "ind1 = ind[d := ind ! d - 1]"
  define rdy1 where "rdy1 = (if ind1 ! d = 0 then ready @ [d] else ready)"
  have ind1: "ind1 ! j = (if j = d then ind ! d - 1 else ind ! j)" if "j < length ind" for j
    using that by (simp add: ind1_def nth_list_update)
  have "\<forall>j. count (mset ds) j \<le> (if j < length ind1 then ind1 ! j else 0)"
  proof
    fix j show "count (mset ds) j \<le> (if j < length ind1 then ind1 ! j else 0)"
      using Cons.prems(1) [rule_format, of j] d ind1 [of j] by (auto simp: ind1_def split: if_splits)
  qed
  moreover have "distinct rdy1" using Cons.prems(2,3) d by (auto simp: rdy1_def)
  moreover have "\<forall>j \<in> set rdy1. j < length ind1 \<and> ind1 ! j = 0"
    using Cons.prems(3) d ind1 by (auto simp: rdy1_def ind1_def)
  ultimately obtain ind' rdy' where r: "release ds (ind1, rdy1) = (ind', rdy')" "length ind' = length ind1"
    "\<forall>j < length ind1. ind' ! j = ind1 ! j - count (mset ds) j" "distinct rdy'"
    "set rdy' = set rdy1 \<union> {j \<in> set ds. ind1 ! j = count (mset ds) j}"
    using Cons.IH [of ind1 rdy1] by blast
  have "release (d # ds) (ind, ready) = (ind', rdy')" using r(1) by (simp add: Let_def ind1_def rdy1_def)
  moreover have "\<forall>j < length ind. ind' ! j = ind ! j - count (mset (d # ds)) j"
    using r(3) ind1 by (auto simp: ind1_def)
  moreover have "set rdy' = set ready \<union> {j \<in> set (d # ds). ind ! j = count (mset (d # ds)) j}"
  proof -
    have lt: "j < length ind" if "j \<in> set ds" for j
      using Cons.prems(1) [rule_format, of j] that by (auto split: if_splits simp: count_eq_zero_iff)
    have "set rdy1 = set ready \<union> (if ind ! d = 1 then {d} else {})" using d ind1 by (auto simp: rdy1_def)
    moreover have "{j \<in> set ds. ind1 ! j = count (mset ds) j}
        = {j \<in> set ds. ind ! j = count (mset (d # ds)) j}" using ind1 lt d by auto
    moreover have "d \<notin> set ds" if "ind ! d = 1" using d that by (auto simp: count_eq_zero_iff)
    moreover have "ind ! d = Suc 0 \<or> d \<in> set ds" if "ind ! d = Suc (count (mset ds) d)"
      using that by (auto simp: count_eq_zero_iff)
    ultimately show ?thesis using r(5) by (auto simp: count_eq_zero_iff split: if_splits)
  qed
  ultimately show ?case using r(2,4) by (auto simp: ind1_def)
qed auto

definition waiting :: "(nat \<Rightarrow> nat list) \<Rightarrow> nat list \<Rightarrow> nat \<Rightarrow> nat" where
  "waiting deps order i = length (filter (\<lambda>d. d \<notin> set order) (deps i))"

definition topo_prefix :: "nat \<Rightarrow> (nat \<Rightarrow> nat list) \<Rightarrow> (nat \<Rightarrow> nat \<Rightarrow> bool) \<Rightarrow> nat list \<Rightarrow> bool" where
  "topo_prefix n deps lt order \<longleftrightarrow> distinct order \<and> set order \<subseteq> {0..<n}
     \<and> (\<forall>k < length order. set (deps (order ! k)) \<subseteq> set (take k order)
         \<and> (\<forall>j < n. j \<notin> set (take k order) \<longrightarrow> set (deps j) \<subseteq> set (take k order) \<longrightarrow> \<not> lt j (order ! k)))"

definition kahn_inv :: "nat \<Rightarrow> (nat \<Rightarrow> nat list) \<Rightarrow> (nat \<Rightarrow> nat \<Rightarrow> bool) \<Rightarrow> nat list \<Rightarrow> nat list \<Rightarrow> nat list \<Rightarrow> bool" where
  "kahn_inv n deps lt ind ready order \<longleftrightarrow> topo_prefix n deps lt order
     \<and> length ind = n \<and> (\<forall>i < n. ind ! i = waiting deps order i)
     \<and> distinct ready \<and> set ready = {i. i < n \<and> i \<notin> set order \<and> waiting deps order i = 0}"

lemma waiting_0: "waiting deps order i = 0 \<longleftrightarrow> set (deps i) \<subseteq> set order"
  by (auto simp: waiting_def filter_empty_conv)

lemma waiting_snoc:
  "x \<notin> set order \<Longrightarrow> waiting deps order i = waiting deps (order @ [x]) i + count (mset (deps i)) x"
proof -
  assume x: "x \<notin> set order"
  have "length (filter (\<lambda>d. d \<notin> set order) ds)
      = length (filter (\<lambda>d. d \<notin> set (order @ [x])) ds) + count (mset ds) x" for ds
    using x by (induction ds) auto
  then show ?thesis by (simp add: waiting_def)
qed

lemma kahn_step:
  assumes inv: "kahn_inv n deps lt ind ready order" and swo: "strict_weak_order lt" and rd: "ready = r # rs"
    and dpt: "\<forall>d < n. \<forall>j. count (mset (dependents ! d)) j = (if j < n then count (mset (deps j)) d else 0)"
  defines "idx \<equiv> min_element lt rs r"
  shows "\<exists>ind' rdy'. release (dependents ! idx) (ind, remove1 idx ready) = (ind', rdy')
    \<and> kahn_inv n deps lt ind' rdy' (order @ [idx])"
proof -
  note i = inv [unfolded kahn_inv_def]
  have idx: "idx \<in> set ready" "\<forall>x \<in> set ready. \<not> lt x idx"
    using min_element_least [OF swo, of rs r] by (auto simp: rd idx_def)
  then have ix: "idx < n" "idx \<notin> set order" "set (deps idx) \<subseteq> set order" "ind ! idx = 0"
    using i by (auto simp: waiting_0)
  let ?ds = "dependents ! idx"
  have cnt: "count (mset ?ds) j = (if j < n then count (mset (deps j)) idx else 0)" for j using dpt ix(1) by simp
  have w: "waiting deps order j = waiting deps (order @ [idx]) j + count (mset (deps j)) idx" for j
    using ix(2) by (rule waiting_snoc)
  have "\<forall>j. count (mset ?ds) j \<le> (if j < length ind then ind ! j else 0)" using cnt w i by simp
  moreover have "distinct (remove1 idx ready)" using i by simp
  moreover have "\<forall>j \<in> set (remove1 idx ready). j < length ind \<and> ind ! j = 0"
    using i by (auto dest: notin_set_remove1 set_remove1_subset [THEN subsetD])
  ultimately obtain ind' rdy' where r: "release ?ds (ind, remove1 idx ready) = (ind', rdy')"
    "length ind' = length ind" "\<forall>j < length ind. ind' ! j = ind ! j - count (mset ?ds) j" "distinct rdy'"
    "set rdy' = set (remove1 idx ready) \<union> {j \<in> set ?ds. ind ! j = count (mset ?ds) j}"
    using release_spec by blast
  have tp: "topo_prefix n deps lt (order @ [idx])"
    unfolding topo_prefix_def
  proof (intro conjI allI impI)
    show "distinct (order @ [idx])" "set (order @ [idx]) \<subseteq> {0..<n}" using i ix by (auto simp: topo_prefix_def)
    fix k assume k: "k < length (order @ [idx])"
    show "set (deps ((order @ [idx]) ! k)) \<subseteq> set (take k (order @ [idx]))"
      using i ix k by (cases "k < length order") (auto simp: topo_prefix_def nth_append less_Suc_eq)
    fix j assume "j < n" "j \<notin> set (take k (order @ [idx]))" "set (deps j) \<subseteq> set (take k (order @ [idx]))"
    then show "\<not> lt j ((order @ [idx]) ! k)"
      using i idx k by (cases "k < length order") (auto simp: topo_prefix_def nth_append less_Suc_eq waiting_0)
  qed
  have "ind' ! j = waiting deps (order @ [idx]) j" if "j < n" for j
    using r(3) i w [of j] cnt [of j] that by simp
  moreover have "set rdy' = {j. j < n \<and> j \<notin> set (order @ [idx]) \<and> waiting deps (order @ [idx]) j = 0}"
  proof (intro equalityI subsetI)
    fix j assume "j \<in> set rdy'"
    then consider "j \<in> set ready" "j \<noteq> idx" | "j \<in> set ?ds" "ind ! j = count (mset ?ds) j"
      using r(5) i by auto
    then show "j \<in> {j. j < n \<and> j \<notin> set (order @ [idx]) \<and> waiting deps (order @ [idx]) j = 0}"
    proof cases
      case 1
      with i w [of j] show ?thesis by auto
    next
      case 2
      then have pos: "0 < count (mset ?ds) j" by (simp add: count_greater_zero_iff)
      then have jn: "j < n" using cnt [of j] by (auto split: if_splits)
      have indj: "ind ! j = waiting deps order j" using i jn by simp
      have "j \<notin> set order"
      proof
        assume "j \<in> set order"
        then obtain k where k: "k < length order" "order ! k = j" by (metis in_set_conv_nth)
        then have "set (deps j) \<subseteq> set order" using i by (auto simp: topo_prefix_def dest: in_set_takeD)
        then have "waiting deps order j = 0" by (simp add: waiting_0)
        then show False using indj pos 2(2) by simp
      qed
      moreover have "j \<noteq> idx" using ix(4) pos 2(2) by auto
      moreover have "waiting deps (order @ [idx]) j = 0" using w [of j] indj 2(2) cnt [of j] jn by simp
      ultimately show ?thesis using jn by simp
    qed
  next
    fix j assume j: "j \<in> {j. j < n \<and> j \<notin> set (order @ [idx]) \<and> waiting deps (order @ [idx]) j = 0}"
    then have indj: "ind ! j = count (mset ?ds) j" using i w [of j] cnt [of j] by auto
    show "j \<in> set rdy'"
    proof (cases "ind ! j = 0")
      case True
      with j i show ?thesis by (auto simp: r(5))
    next
      case False
      then have "j \<in> set ?ds" using indj by (metis count_mset_0_iff)
      with indj show ?thesis by (simp add: r(5))
    qed
  qed
  ultimately have "kahn_inv n deps lt ind' rdy' (order @ [idx])"
    using tp r(2,4) i by (simp add: kahn_inv_def)
  with r(1) show ?thesis by blast
qed

lemma kahn_total:
  assumes "kahn_inv n deps lt ind ready order" "strict_weak_order lt"
    and "\<forall>d < n. \<forall>j. count (mset (dependents ! d)) j = (if j < n then count (mset (deps j)) d else 0)"
  shows "\<exists>order'. kahn lt dependents ind ready order = Some order' \<and> topo_prefix n deps lt order'
    \<and> (\<forall>i < n. i \<notin> set order' \<longrightarrow> \<not> set (deps i) \<subseteq> set order')"
  using assms(1)
proof (induction "n - length order" arbitrary: ind ready order rule: less_induct)
  case less
  show ?case
  proof (cases ready)
    case Nil
    with less.prems show ?thesis
      by (subst kahn.simps) (auto simp: kahn_inv_def waiting_0)
  next
    case (Cons r rs)
    obtain ind' rdy' where s: "release (dependents ! min_element lt rs r) (ind, remove1 (min_element lt rs r) ready) = (ind', rdy')"
      "kahn_inv n deps lt ind' rdy' (order @ [min_element lt rs r])"
      using kahn_step [OF less.prems assms(2) Cons assms(3)] by blast
    have "card (set (order @ [min_element lt rs r])) \<le> card {0..<n}"
      using s(2) by (intro card_mono) (auto simp: kahn_inv_def topo_prefix_def)
    moreover have "distinct (order @ [min_element lt rs r])" using s(2) by (simp add: kahn_inv_def topo_prefix_def)
    ultimately have "n - length (order @ [min_element lt rs r]) < n - length order"
      using distinct_card by fastforce
    from less.hyps [OF this s(2)] s(1) Cons show ?thesis by (subst kahn.simps) (simp add: Let_def)
  qed
qed

lemma topo_prefix_acyclic:
  assumes "topo_prefix n deps lt order" "length order = n"
  shows "acyclic {(d, i). i < n \<and> d \<in> set (deps i)}"
proof -
  have "card (set order) = card {0..<n}" using assms by (simp add: topo_prefix_def distinct_card)
  then have all: "set order = {0..<n}" using assms(1) by (intro card_subset_eq) (auto simp: topo_prefix_def)
  define pos where "pos x = length (takeWhile (\<lambda>y. y \<noteq> x) order)" for x
  have pos: "pos (order ! k) = k" if "k < length order" for k
  proof -
    have "order = take k order @ order ! k # drop (Suc k) order" using that by (rule id_take_nth_drop)
    moreover have "order ! k \<notin> set (take k order)"
      using assms(1) that by (auto simp: topo_prefix_def in_set_conv_nth nth_eq_iff_index_eq)
    ultimately have "takeWhile (\<lambda>y. y \<noteq> order ! k) order = take k order"
      by (subst \<open>order = _\<close>, subst takeWhile_append2) auto
    then show ?thesis using that by (simp add: pos_def)
  qed
  have "{(d, i). i < n \<and> d \<in> set (deps i)} \<subseteq> measure pos"
  proof (intro subrelI)
    fix d i assume "(d, i) \<in> {(d, i). i < n \<and> d \<in> set (deps i)}"
    then obtain k where k: "k < length order" "order ! k = i" "d \<in> set (deps i)"
      using all by (metis (no_types, lifting) atLeastLessThan_iff case_prodD in_set_conv_nth le0 mem_Collect_eq)
    then have "d \<in> set (take k order)" using assms(1) by (auto simp: topo_prefix_def)
    then obtain m where "m < k" "m < length order" "order ! m = d" by (auto simp: in_set_conv_nth)
    with pos k show "(d, i) \<in> measure pos" by auto
  qed
  then show ?thesis by (rule acyclic_subset [OF wf_acyclic [OF wf_measure]])
qed

lemma topo_stuck_cyclic:
  assumes "\<forall>i < n. i \<notin> set order \<longrightarrow> \<not> set (deps i) \<subseteq> set order" "length order \<noteq> n" "distinct order" "set order \<subseteq> {0..<n}"
    and "\<forall>i < n. \<forall>d \<in> set (deps i). d < n"
  shows "\<not> acyclic {(d, i). i < n \<and> d \<in> set (deps i)}"
proof
  let ?R = "{(d, i). i < n \<and> d \<in> set (deps i)}"
  assume ac: "acyclic ?R"
  have "finite ?R" by (rule finite_subset [of _ "{0..<n} \<times> {0..<n}"]) (use assms(5) in auto)
  then have wf: "wf ?R" using ac by (rule finite_acyclic_wf)
  have "set order \<noteq> {0..<n}" using assms(2,3) distinct_card by fastforce
  then obtain x where "x \<in> {0..<n} - set order" using assms(4) by blast
  then obtain z where z: "z \<in> {0..<n} - set order" "\<And>d. (d, z) \<in> ?R \<Longrightarrow> d \<notin> {0..<n} - set order"
    using wf unfolding wf_eq_minimal by meson
  then obtain d where "d \<in> set (deps z)" "d \<notin> set order" using assms(1) by auto
  with z assms(5) show False by auto
qed

lemma topo_indexed_cases:
  assumes "\<forall>c. cmp = Some c \<longrightarrow> strict_weak_order c"
  shows "((\<exists>i < n. \<exists>d \<in> set (deps i). n \<le> d) \<longrightarrow> topological_order_indexed n deps cmp = Some (Inl OutOfRange))
    \<and> ((\<forall>i < n. \<forall>d \<in> set (deps i). d < n) \<longrightarrow> \<not> acyclic {(d, i). i < n \<and> d \<in> set (deps i)} \<longrightarrow>
        topological_order_indexed n deps cmp = Some (Inl ImpossibleDependencies))
    \<and> ((\<forall>i < n. \<forall>d \<in> set (deps i). d < n) \<longrightarrow> acyclic {(d, i). i < n \<and> d \<in> set (deps i)} \<longrightarrow>
        (\<exists>order. topological_order_indexed n deps cmp = Some (Inr order)
          \<and> distinct order \<and> set order = {0..<n}
          \<and> (\<forall>k < n. set (deps (order ! k)) \<subseteq> set (take k order))
          \<and> (\<forall>k < n. \<forall>j < n. j \<notin> set (take k order) \<longrightarrow> set (deps j) \<subseteq> set (take k order) \<longrightarrow>
               \<not> tie_broken_less cmp j (order ! k))))"
proof (cases "\<forall>i < n. \<forall>d \<in> set (deps i). d < n")
  case False
  then have "build_edges [0..<n] deps (replicate n 0, replicate n []) = Inl OutOfRange"
    by (intro build_edges_out) auto
  with False show ?thesis by (auto simp: topological_order_indexed_def)
next
  case True
  obtain ind dps where b: "build_edges [0..<n] deps (replicate n 0, replicate n []) = Inr (ind, dps)"
    "length ind = n" "\<forall>j < n. ind ! j = length (deps j)"
    "\<forall>d < n. \<forall>j. count (mset (dps ! d)) j = (if j < n then count (mset (deps j)) d else 0)"
    using build_edges_spec [of "[0..<n]" "replicate n 0" deps "replicate n []"] True by auto
  define lt where "lt = tie_broken_less cmp"
  have swo: "strict_weak_order lt" unfolding lt_def by (rule tie_broken_swo) (use assms in blast)
  have "kahn_inv n deps lt ind (filter (\<lambda>i. ind ! i = 0) [0..<n]) []"
    using b(2,3) by (auto simp: kahn_inv_def topo_prefix_def waiting_def)
  from kahn_total [OF this swo b(4)] obtain order where k: "kahn lt dps ind (filter (\<lambda>i. ind ! i = 0) [0..<n]) [] = Some order"
    "topo_prefix n deps lt order" "\<forall>i < n. i \<notin> set order \<longrightarrow> \<not> set (deps i) \<subseteq> set order" by blast
  have res: "topological_order_indexed n deps cmp
      = Some (if length order \<noteq> n then Inl ImpossibleDependencies else Inr order)"
    using b(1) k(1) by (simp add: topological_order_indexed_def lt_def)
  show ?thesis
  proof (cases "length order = n")
    case True
    then have "set order = {0..<n}"
      using k(2) by (intro card_subset_eq) (auto simp: topo_prefix_def distinct_card)
    with True k(2) res topo_prefix_acyclic [OF k(2) True] \<open>\<forall>i < n. \<forall>d \<in> set (deps i). d < n\<close>
    show ?thesis by (auto simp: topo_prefix_def lt_def not_le [symmetric])
  next
    case False
    with topo_stuck_cyclic [OF k(3) False] k(2) res True show ?thesis
      by (auto simp: topo_prefix_def not_le [symmetric])
  qed
qed

lemma topo_indexed_ok:
  assumes "\<forall>c. cmp = Some c \<longrightarrow> strict_weak_order c" "\<forall>i < n. \<forall>d \<in> set (deps i). d < n"
    and "acyclic {(d, i). i < n \<and> d \<in> set (deps i)}"
  shows "\<exists>order. topological_order_indexed n deps cmp = Some (Inr order) \<and> distinct order \<and> set order = {0..<n}
    \<and> (\<forall>k < n. set (deps (order ! k)) \<subseteq> set (take k order))"
proof -
  obtain order where "topological_order_indexed n deps cmp = Some (Inr order)
    \<and> distinct order \<and> set order = {0..<n}
    \<and> (\<forall>k < n. set (deps (order ! k)) \<subseteq> set (take k order))
    \<and> (\<forall>k < n. \<forall>j < n. j \<notin> set (take k order) \<longrightarrow> set (deps j) \<subseteq> set (take k order) \<longrightarrow>
         \<not> tie_broken_less cmp j (order ! k))"
    using topo_indexed_cases [OF assms(1), THEN conjunct2, THEN conjunct2, THEN mp, OF assms(2), THEN mp, OF assms(3)]
    by (elim exE)
  then show ?thesis by blast
qed

text \<open>C4: \<open>topological_order_indexed\<close> always ends.  It throws from \<open>at\<close> when a dependency is out of range;
  otherwise it returns exactly when the dependencies are acyclic, an order of all indices in which every
  index follows its dependencies and is, at its turn, least by the comparator and the index among the
  indices whose dependencies are done; on a cycle it throws.\<close>
theorem topological_order_indexed_correct:
  assumes "\<forall>c. cmp = Some c \<longrightarrow> strict_weak_order c"
  shows "((\<exists>i < n. \<exists>d \<in> set (deps i). n \<le> d) \<longrightarrow> topological_order_indexed n deps cmp = Some (Inl OutOfRange))
    \<and> ((\<forall>i < n. \<forall>d \<in> set (deps i). d < n) \<longrightarrow> \<not> acyclic {(d, i). i < n \<and> d \<in> set (deps i)} \<longrightarrow>
        topological_order_indexed n deps cmp = Some (Inl ImpossibleDependencies))
    \<and> ((\<forall>i < n. \<forall>d \<in> set (deps i). d < n) \<longrightarrow> acyclic {(d, i). i < n \<and> d \<in> set (deps i)} \<longrightarrow>
        (\<exists>order. topological_order_indexed n deps cmp = Some (Inr order)
          \<and> distinct order \<and> set order = {0..<n}
          \<and> (\<forall>k < n. set (deps (order ! k)) \<subseteq> set (take k order))
          \<and> (\<forall>k < n. \<forall>j < n. j \<notin> set (take k order) \<longrightarrow> set (deps j) \<subseteq> set (take k order) \<longrightarrow>
               \<not> tie_broken_less cmp j (order ! k))))"
  using assms by (rule topo_indexed_cases)

theorem topological_order_indexed_correct_witness:
  "topological_order_indexed 3 (\<lambda>i. if i = 0 then [2, 1, 2] else if i = 1 then [2] else []) None = Some (Inr [2, 1, 0])
    \<and> topological_order_indexed 2 (\<lambda>i. [1 - i]) None = Some (Inl ImpossibleDependencies)"
proof -
  have "\<not> acyclic {(d, i :: nat). i < 2 \<and> d \<in> set [1 - i]}"
  proof -
    have "(0, 1) \<in> {(d, i :: nat). i < 2 \<and> d \<in> set [1 - i]}" "(1, 0) \<in> {(d, i :: nat). i < 2 \<and> d \<in> set [1 - i]}"
      by auto
    then have "(0, 0) \<in> {(d, i :: nat). i < 2 \<and> d \<in> set [1 - i]}\<^sup>+" by (meson trancl.simps)
    then show ?thesis by (auto simp: acyclic_def)
  qed
  then have "topological_order_indexed 2 (\<lambda>i. [1 - i]) None = Some (Inl ImpossibleDependencies)"
    using topological_order_indexed_correct [of None 2 "\<lambda>i. [1 - i]"] by (simp add: less_2_cases_iff)
  moreover have "topological_order_indexed 3 (\<lambda>i. if i = 0 then [2, 1, 2] else if i = 1 then [2] else []) None
      = Some (Inr [2, 1, 0])" by code_simp
  ultimately show ?thesis by simp
qed

text \<open>The overload on values orders the positions of the range by the positions its dependencies have:
  when every dependency is in the range and the dependencies are acyclic, the returned positions are a
  permutation in which every value comes after the values it depends on.\<close>
theorem topological_order_values:
  fixes rng :: "'a list"
  assumes "distinct rng" and "\<forall>x \<in> set rng. set (deps x) \<subseteq> set rng"
    and "acyclic {(d, x). x \<in> set rng \<and> d \<in> set (deps x)}"
    and "\<forall>c. cmp = Some c \<longrightarrow> strict_weak_order c"
  shows "\<exists>order. topological_order rng deps cmp = Some (Inr order) \<and> distinct order \<and> set order = {0..<length rng}
    \<and> (\<forall>k < length rng. set (deps (rng ! (order ! k))) \<subseteq> set (map ((!) rng) (take k order)))"
proof -
  let ?n = "length rng"
  define pos where "pos d = length (takeWhile (\<lambda>x. x \<noteq> d) rng)" for d
  have pos: "pos d < ?n" "rng ! pos d = d" if "d \<in> set rng" for d
    using that nth_length_takeWhile [of "\<lambda>x. x \<noteq> d" rng] takeWhile_eq_all_conv [of "\<lambda>x. x \<noteq> d" rng]
      length_takeWhile_le [of "\<lambda>x. x \<noteq> d" rng] takeWhile_eq_take [of "\<lambda>x. x \<noteq> d" rng]
    by (auto simp: pos_def le_less)
  have dp: "dep_positions rng ds = Some (map pos ds)" if "set ds \<subseteq> set rng" for ds
    using that by (induction ds) (auto simp: pos_def)
  define table where "table = map (\<lambda>x. dep_positions rng (deps x)) rng"
  have table: "i < ?n \<Longrightarrow> table ! i = Some (map pos (deps (rng ! i)))" for i
    using assms(2) dp by (simp add: table_def)
  have "None \<notin> set table" using assms(2) dp by (auto simp: table_def)
  define deps' where "deps' i = the (table ! i)" for i
  have deps': "i < ?n \<Longrightarrow> deps' i = map pos (deps (rng ! i))" for i using table by (simp add: deps'_def)
  define cmp' where "cmp' = map_option (\<lambda>c a b. c (rng ! a) (rng ! b)) cmp"
  have res: "topological_order rng deps cmp = topological_order_indexed ?n deps' cmp'"
    using \<open>None \<notin> set table\<close> unfolding topological_order_def table_def deps'_def cmp'_def Let_def by simp
  have swo: "\<forall>c'. cmp' = Some c' \<longrightarrow> strict_weak_order c'"
  proof (intro allI impI)
    fix c' assume cc: "cmp' = Some c'"
    obtain c where c: "cmp = Some c" "c' = (\<lambda>a b. c (rng ! a) (rng ! b))" using cc by (auto simp: cmp'_def)
    have sw: "strict_weak_order c" using assms(4) c(1) by blast
    show "strict_weak_order c'" unfolding c(2)
      using strict_weak_order.lt_irrefl [OF sw] strict_weak_order.lt_trans [OF sw] strict_weak_order.incomp_trans [OF sw]
      by unfold_locales blast+
  qed
  have rng_dep: "d \<in> set rng" if "i < ?n" "d \<in> set (deps (rng ! i))" for i d using assms(2) that nth_mem by blast
  have range: "\<forall>i < ?n. \<forall>d \<in> set (deps' i). d < ?n" using pos(1) rng_dep by (auto simp: deps')
  let ?R = "{(d, x). x \<in> set rng \<and> d \<in> set (deps x)}" and ?S = "{(d, i). i < ?n \<and> d \<in> set (deps' i)}"
  have "finite ?R" by (rule finite_subset [of _ "set rng \<times> set rng"]) (use assms(2) in auto)
  then have "wf ?R" using assms(3) by (rule finite_acyclic_wf)
  then have "wf (inv_image ?R ((!) rng))" by (rule wf_inv_image)
  moreover have "?S \<subseteq> inv_image ?R ((!) rng)" proof (intro subrelI)
    fix d i assume "(d, i) \<in> ?S"
    then have i: "i < ?n" and "d \<in> set (deps' i)" by auto
    then obtain e where e: "e \<in> set (deps (rng ! i))" "d = pos e" by (auto simp: deps')
    then show "(d, i) \<in> inv_image ?R ((!) rng)" using pos(2) [OF rng_dep [OF i e(1)]] i by simp
  qed
  ultimately have "wf ?S" by (rule wf_subset)
  then have "acyclic ?S" by (rule wf_acyclic)
  from topo_indexed_ok [OF swo range this] obtain order where o: "topological_order_indexed ?n deps' cmp' = Some (Inr order)" "distinct order"
    "set order = {0..<?n}" "\<forall>k < ?n. set (deps' (order ! k)) \<subseteq> set (take k order)"
    by blast
  have "set (deps (rng ! (order ! k))) \<subseteq> set (map ((!) rng) (take k order))" if k: "k < ?n" for k
  proof
    fix d assume d: "d \<in> set (deps (rng ! (order ! k)))"
    have "length order = ?n" using o(2,3) by (metis card_atLeastLessThan diff_zero distinct_card)
    then have ok: "order ! k < ?n" using k o(3) by (metis atLeastLessThan_iff nth_mem)
    have "set (deps' (order ! k)) \<subseteq> set (take k order)" using o(4) k by blast
    with d have "pos d \<in> set (take k order)" unfolding deps' [OF ok] by auto
    moreover have "rng ! pos d = d" using pos(2) rng_dep [OF ok d] by simp
    ultimately show "d \<in> set (map ((!) rng) (take k order))" by (metis image_eqI list.set_map)
  qed
  with o res show ?thesis by auto
qed

theorem topological_order_values_witness:
  "topological_order [5, 7, 9 :: nat] (\<lambda>x. if x = 5 then [9] else []) None = Some (Inr [1, 2, 0])
   \<and> (\<exists>order. topological_order [5, 7, 9 :: nat] (\<lambda>x. if x = 5 then [9] else []) None = Some (Inr order) \<and> distinct order)"
proof -
  let ?d = "\<lambda>x :: nat. if x = 5 then [9] else []"
  have "acyclic {(d, x). x \<in> set [5, 7, 9 :: nat] \<and> d \<in> set (?d x)}"
  proof (rule acyclic_subset [OF wf_acyclic [OF wf_measure]])
    show "{(d, x). x \<in> set [5, 7, 9 :: nat] \<and> d \<in> set (?d x)} \<subseteq> measure (\<lambda>x. 10 - x)"
      by (auto split: if_splits)
  qed
  then have "\<exists>order. topological_order [5, 7, 9 :: nat] ?d None = Some (Inr order) \<and> distinct order"
    using topological_order_values [of "[5, 7, 9 :: nat]" ?d None] by auto
  moreover have "topological_order [5, 7, 9 :: nat] ?d None = Some (Inr [1, 2, 0])" by code_simp
  ultimately show ?thesis by blast
qed

end
