(* ===== verification/BinaryNode.thy ===== *)
theory BinaryNode
  imports Prelude
begin

text \<open>
  SeQuant/core/binary_node.hpp: full binary trees with a cached node count, the stack machines that
  clone and transform them, the traversal loop, left folds, comparison, the iterative destructor and
  the printed digraph.  A node of a tree is its path from the root (\<open>False\<close> is left), so that the
  pointers of the code are paths and \<open>parent\<close> is the path without its last step.  A node has both
  children or none, as every constructor of the class is used.
\<close>

unbundle bit_operations_syntax

section \<open>Nodes\<close>

text \<open>The last component is the member \<open>size_\<close>.\<close>

datatype 'a node = Leaf 'a nat | Node 'a "'a node" "'a node" nat

fun data_of :: "'a node \<Rightarrow> 'a" where
  "data_of (Leaf d _) = d"
| "data_of (Node d _ _ _) = d"

fun leaf :: "'a node \<Rightarrow> bool" where
  "leaf (Leaf _ _) = True"
| "leaf (Node _ _ _ _) = False"

fun csize :: "'a node \<Rightarrow> nat" where
  "csize (Leaf _ n) = n"
| "csize (Node _ _ _ n) = n"

definition refresh_size :: "'a node \<Rightarrow> 'a node" where
  "refresh_size t =
     (case t of Leaf d _ \<Rightarrow> Leaf d 1 | Node d l r _ \<Rightarrow> Node d l r (1 + csize l + csize r))"

definition mk_leaf :: "'a \<Rightarrow> 'a node" where
  "mk_leaf d = Leaf d 1"

definition mk_node :: "'a \<Rightarrow> 'a node \<Rightarrow> 'a node \<Rightarrow> 'a node" where
  "mk_node d l r = refresh_size (Node d l r 1)"

datatype node_error = NullDereference | AssertionFailed

definition left_of :: "'a node \<Rightarrow> (node_error, 'a node) result" where
  "left_of t = (case t of Leaf _ _ \<Rightarrow> Inl NullDereference | Node _ l _ _ \<Rightarrow> Inr l)"

definition right_of :: "'a node \<Rightarrow> (node_error, 'a node) result" where
  "right_of t = (case t of Leaf _ _ \<Rightarrow> Inl NullDereference | Node _ _ r _ \<Rightarrow> Inr r)"

section \<open>Cloning and transforming\<close>

record 'a clone_frame =
  src :: "'a node"
  stage :: nat
  left_copy :: "'a node option"

definition frame :: "'a node \<Rightarrow> 'a clone_frame" where
  "frame t = \<lparr>src = t, stage = 0, left_copy = None\<rparr>"

text \<open>
  One loop for \<open>deep_copy\<close>; the top of the stack is the head of the list, and \<open>ret\<close> holds the last
  finished copy.  \<open>f.right\<close> is set and moved out in the same step.
\<close>

partial_function (option) deep_copy_loop :: "'a clone_frame list \<Rightarrow> 'a node option \<Rightarrow> 'a node option option" where
  "deep_copy_loop stk ret =
     (case stk of [] \<Rightarrow> Some ret
      | f # fs \<Rightarrow>
         (case src f of
            Leaf d n \<Rightarrow> deep_copy_loop fs (Some (mk_leaf d))
          | Node d l r n \<Rightarrow>
              (if stage f = 0 then deep_copy_loop (frame l # f\<lparr>stage := 1\<rparr> # fs) ret
               else if stage f = 1 then deep_copy_loop (frame r # f\<lparr>stage := 2, left_copy := ret\<rparr> # fs) None
               else deep_copy_loop fs (Some (mk_node d (the (left_copy f)) (the ret))))))"

declare deep_copy_loop.simps [code]

definition deep_copy :: "'a node \<Rightarrow> 'a node option" where
  "deep_copy t = Option.bind (deep_copy_loop [frame t] None) (\<lambda>r. r)"

record ('a, 'b) map_frame =
  msrc :: "'a node"
  mstage :: nat
  mleft :: "'b node option"

definition mframe :: "'a node \<Rightarrow> ('a, 'b) map_frame" where
  "mframe t = \<lparr>msrc = t, mstage = 0, mleft = None\<rparr>"

partial_function (option) transform_loop ::
    "('a \<Rightarrow> 'b) \<Rightarrow> ('a, 'b) map_frame list \<Rightarrow> 'b node option \<Rightarrow> 'b node option option" where
  "transform_loop fn stk ret =
     (case stk of [] \<Rightarrow> Some ret
      | f # fs \<Rightarrow>
         (case msrc f of
            Leaf d n \<Rightarrow> transform_loop fn fs (Some (mk_leaf (fn d)))
          | Node d l r n \<Rightarrow>
              (if mstage f = 0 then transform_loop fn (mframe l # f\<lparr>mstage := 1\<rparr> # fs) ret
               else if mstage f = 1 then transform_loop fn (mframe r # f\<lparr>mstage := 2, mleft := ret\<rparr> # fs) None
               else transform_loop fn fs (Some (mk_node (fn d) (the (mleft f)) (the ret))))))"

declare transform_loop.simps [code]

definition transform_node :: "('a \<Rightarrow> 'b) \<Rightarrow> 'a node \<Rightarrow> 'b node option" where
  "transform_node fn t = Option.bind (transform_loop fn [mframe t] None) (\<lambda>r. r)"

section \<open>Folding a range\<close>

text \<open>The constructor from a container, with the unary and the binary call of its binarizer.\<close>

definition binarize_container :: "('v \<Rightarrow> 'a) \<Rightarrow> ('a \<Rightarrow> 'a \<Rightarrow> 'a) \<Rightarrow> 'v list \<Rightarrow> 'a node" where
  "binarize_container f1 f2 cont =
     foldl (\<lambda>acc v. let rnode = mk_leaf (f1 v) in mk_node (f2 (data_of acc) (data_of rnode)) acc rnode)
       (mk_leaf (f1 (hd cont))) (tl cont)"

text \<open>\<open>op\<close> may take the nodes or their values; the latter is the former on \<open>data_of\<close>.\<close>

definition fold_left_to_node :: "('a node \<Rightarrow> 'a node \<Rightarrow> 'a) \<Rightarrow> 'a node list \<Rightarrow> (node_error, 'a node) result" where
  "fold_left_to_node f rng =
     (if rng = [] then Inl AssertionFailed
      else Inr (foldl (\<lambda>l r. mk_node (f l r) l r) (hd rng) (tl rng)))"

section \<open>Comparison\<close>

fun node_eq :: "'a node \<Rightarrow> 'a node \<Rightarrow> (node_error, bool) result" where
  "node_eq (Leaf d n) (Leaf e m) = Inr (d = e)"
| "node_eq (Leaf d n) (Node e l r m) = (if d = e then Inl NullDereference else Inr False)"
| "node_eq (Node d l r n) (Leaf e m) = (if d = e then Inl NullDereference else Inr False)"
| "node_eq (Node d l r n) (Node e l' r' m) =
     (if d = e then bind_res (node_eq l l') (\<lambda>b. if b then node_eq r r' else Inr False) else Inr False)"

section \<open>Traversal\<close>

type_synonym traversal = "8 word"

definition NoOrder :: traversal where "NoOrder = 0"
definition PreOrder :: traversal where "PreOrder = 1"
definition PostOrder :: traversal where "PostOrder = 2"
definition InOrder :: traversal where "InOrder = 4"
definition AnyOrder :: traversal where "AnyOrder = PreOrder OR PostOrder OR InOrder"

datatype node_kind = VisitLeaf | VisitInternal | VisitAll

fun subtree :: "'a node \<Rightarrow> bool list \<Rightarrow> 'a node" where
  "subtree t [] = t"
| "subtree (Node d l r n) (b # bs) = subtree (if b then r else l) bs"
| "subtree (Leaf d n) (b # bs) = Leaf d n"

definition parent_path :: "bool list \<Rightarrow> bool list option" where
  "parent_path p = (if p = [] then None else Some (butlast p))"

text \<open>
  A visitor maps its node, the context and its own state to whether to continue with the subtree.
  The loop runs until the current pointer is null; \<open>Inl\<close> is the failed assertion of the third branch.
\<close>

type_synonym ('a, 's) visitor = "'a node \<Rightarrow> traversal \<Rightarrow> 's \<Rightarrow> bool \<times> 's"

definition call_if :: "bool \<Rightarrow> ('a, 's) visitor \<Rightarrow> 'a node \<Rightarrow> traversal \<Rightarrow> 's \<Rightarrow> bool \<times> 's" where
  "call_if c f t ctx s = (if c then f t ctx s else (True, s))"

definition visit_step ::
    "traversal \<Rightarrow> node_kind \<Rightarrow> ('a, 's) visitor \<Rightarrow> 'a node \<Rightarrow> bool list \<Rightarrow> bool list \<Rightarrow> 's
       \<Rightarrow> (node_error, bool list option \<times> 's) result" where
  "visit_step order kind f t cur prev s =
     (let c = subtree t cur; inner = (kind \<noteq> VisitLeaf)
      in bind_res
        (if leaf c then
           (let (cont, s') = call_if (kind \<noteq> VisitInternal) f c AnyOrder s in Inr (cont, parent_path cur, s'))
         else if prev = cur @ [False] then
           (let (cont, s') = call_if (order AND InOrder = InOrder \<and> inner) f c InOrder s
            in Inr (cont, Some (cur @ [True]), s'))
         else if prev = cur @ [True] then
           (let (cont, s') = call_if (order AND PostOrder = PostOrder \<and> inner) f c PostOrder s
            in Inr (cont, parent_path cur, s'))
         else if cur = [] \<or> prev = butlast cur then
           (let (cont, s') = call_if (order AND PreOrder = PreOrder \<and> inner) f c PreOrder s
            in Inr (cont, Some (cur @ [False]), s'))
         else Inl AssertionFailed)
        (\<lambda>(cont, nxt, s'). Inr (if cont then nxt else parent_path cur, s')))"

text \<open>
  The loop moves by the parent and child pointers until it leaves the tree.  A visitor threads a state of its own
  and reads the node; that it may also change the node, as a comment in the loop allows, is not modelled.
\<close>

partial_function (option) visit_loop ::
    "traversal \<Rightarrow> node_kind \<Rightarrow> ('a, 's) visitor \<Rightarrow> 'a node \<Rightarrow> bool list option \<Rightarrow> bool list \<Rightarrow> 's
       \<Rightarrow> (node_error, 's) result option" where
  "visit_loop order kind f t cur prev s =
     (case cur of None \<Rightarrow> Some (Inr s)
      | Some p \<Rightarrow>
         (case visit_step order kind f t p prev s of
            Inl e \<Rightarrow> Some (Inl e)
          | Inr (nxt, s') \<Rightarrow> visit_loop order kind f t nxt p s'))"

declare visit_loop.simps [code]

text \<open>The dispatch on the order does nothing for \<open>None\<close>; the visit starts at the given node.\<close>

definition visit :: "traversal \<Rightarrow> node_kind \<Rightarrow> ('a, 's) visitor \<Rightarrow> 'a node \<Rightarrow> bool list \<Rightarrow> 's \<Rightarrow> (node_error, 's) result option" where
  "visit order kind f t start s =
     (if order = NoOrder \<or> order > AnyOrder then Some (Inr s)
      else visit_loop order kind f t (Some start) start s)"

section \<open>Destruction\<close>

text \<open>The destructor's loop; the result lists the data of the nodes in the order they are destroyed.\<close>

partial_function (option) destroy_loop :: "'a node list \<Rightarrow> 'a list \<Rightarrow> 'a list option" where
  "destroy_loop pending destroyed =
     (case pending of [] \<Rightarrow> Some destroyed
      | n # rest \<Rightarrow>
         (case n of
            Leaf d _ \<Rightarrow> destroy_loop rest (destroyed @ [d])
          | Node d l r _ \<Rightarrow> destroy_loop (r # l # rest) (destroyed @ [d])))"

declare destroy_loop.simps [code]

definition destroy :: "'a node \<Rightarrow> 'a list option" where
  "destroy t = (case t of Leaf _ _ \<Rightarrow> Some [] | Node _ l r _ \<Rightarrow> destroy_loop [r, l] [])"

section \<open>Assignment inside a tree\<close>

fun replace_at :: "'a node \<Rightarrow> bool list \<Rightarrow> 'a node \<Rightarrow> 'a node" where
  "replace_at t [] u = u"
| "replace_at (Node d l r n) (b # bs) u =
     (if b then Node d l (replace_at r bs u) n else Node d (replace_at l bs u) r n)"
| "replace_at (Leaf d n) (b # bs) u = Leaf d n"

text \<open>\<open>refresh_size_up\<close> walks from the node along the parents.\<close>

fun refresh_size_up :: "'a node \<Rightarrow> bool list \<Rightarrow> nat \<Rightarrow> 'a node" where
  "refresh_size_up t p 0 = replace_at t (take 0 p) (refresh_size (subtree t (take 0 p)))"
| "refresh_size_up t p (Suc k) =
     refresh_size_up (replace_at t (take (Suc k) p) (refresh_size (subtree t (take (Suc k) p)))) p k"

text \<open>Copy assignment to the node at path \<open>p\<close> of \<open>t\<close>.\<close>

definition copy_assign :: "'a node \<Rightarrow> bool list \<Rightarrow> 'a node \<Rightarrow> 'a node option" where
  "copy_assign t p other =
     map_option (\<lambda>tmp. refresh_size_up (replace_at t p tmp) p (length p)) (deep_copy other)"

section \<open>Printing\<close>

datatype 'l dot_line = DotNode nat 'l | DotEdge nat nat

fun digraph :: "('a node \<Rightarrow> 'l) \<Rightarrow> 'a node \<Rightarrow> nat \<Rightarrow> nat \<times> 'l dot_line list" where
  "digraph label (Leaf d n) k = (k, [DotNode k (label (Leaf d n))])"
| "digraph label (Node d l r n) k =
     (let (lcount, lout) = digraph label l (k + 1);
          (rcount, rout) = digraph label r (lcount + 1)
      in (rcount, DotNode k (label (Node d l r n)) # lout @ rout
                    @ [DotEdge k (k + 1), DotEdge k (lcount + 1)]))"

section \<open>The cached size\<close>

fun sized :: "'a node \<Rightarrow> bool" where
  "sized (Leaf d n) \<longleftrightarrow> n = 1"
| "sized (Node d l r n) \<longleftrightarrow> sized l \<and> sized r \<and> n = 1 + csize l + csize r"

fun node_list :: "'a node \<Rightarrow> 'a list" where
  "node_list (Leaf d n) = [d]"
| "node_list (Node d l r n) = d # node_list l @ node_list r"

lemma csize_nodes: "sized t \<Longrightarrow> csize t = length (node_list t)"
  by (induction t) auto

lemma mk_node_eq [simp]: "mk_node d l r = Node d l r (1 + csize l + csize r)"
  by (simp add: mk_node_def refresh_size_def)

fun rebuild :: "('a \<Rightarrow> 'b) \<Rightarrow> 'a node \<Rightarrow> 'b node" where
  "rebuild fn (Leaf d n) = mk_leaf (fn d)"
| "rebuild fn (Node d l r n) = mk_node (fn d) (rebuild fn l) (rebuild fn r)"

lemma rebuild_sized: "sized (rebuild fn t)"
  by (induction t) (auto simp: mk_leaf_def)

lemma rebuild_map: "sized t \<Longrightarrow> rebuild fn t = map_node fn t"
proof -
  have "csize (map_node fn t) = csize t" for t by (cases t) auto
  then show "sized t \<Longrightarrow> ?thesis" by (induction t) (auto simp: mk_leaf_def)
qed

lemma deep_copy_loop_frame:
  "deep_copy_loop (frame t # fs) ret = deep_copy_loop fs (Some (rebuild (\<lambda>d. d) t))"
proof (induction t arbitrary: fs ret)
  case (Leaf d n)
  show ?case by (subst deep_copy_loop.simps) (simp add: frame_def)
next
  case (Node d l r n)
  let ?f = "frame (Node d l r n)"
  have "deep_copy_loop (?f # fs) ret = deep_copy_loop (frame l # ?f\<lparr>stage := 1\<rparr> # fs) ret"
    by (subst deep_copy_loop.simps) (simp add: frame_def)
  also have "\<dots> = deep_copy_loop (?f\<lparr>stage := 1\<rparr> # fs) (Some (rebuild (\<lambda>d. d) l))" by (rule Node.IH)
  also have "\<dots> = deep_copy_loop (frame r # ?f\<lparr>stage := 2, left_copy := Some (rebuild (\<lambda>d. d) l)\<rparr> # fs) None"
    by (subst deep_copy_loop.simps) (simp add: frame_def)
  also have "\<dots> = deep_copy_loop (?f\<lparr>stage := 2, left_copy := Some (rebuild (\<lambda>d. d) l)\<rparr> # fs) (Some (rebuild (\<lambda>d. d) r))"
    by (rule Node.IH)
  also have "\<dots> = deep_copy_loop fs (Some (rebuild (\<lambda>d. d) (Node d l r n)))"
    by (subst deep_copy_loop.simps) (simp add: frame_def)
  finally show ?case .
qed

lemma transform_loop_frame:
  "transform_loop fn (mframe t # fs) ret = transform_loop fn fs (Some (rebuild fn t))"
proof (induction t arbitrary: fs ret)
  case (Leaf d n)
  show ?case by (subst transform_loop.simps) (simp add: mframe_def)
next
  case (Node d l r n)
  let ?f = "mframe (Node d l r n)"
  have "transform_loop fn (?f # fs) ret = transform_loop fn (mframe l # ?f\<lparr>mstage := 1\<rparr> # fs) ret"
    by (subst transform_loop.simps) (simp add: mframe_def)
  also have "\<dots> = transform_loop fn (?f\<lparr>mstage := 1\<rparr> # fs) (Some (rebuild fn l))" by (rule Node.IH)
  also have "\<dots> = transform_loop fn (mframe r # ?f\<lparr>mstage := 2, mleft := Some (rebuild fn l)\<rparr> # fs) None"
    by (subst transform_loop.simps) (simp add: mframe_def)
  also have "\<dots> = transform_loop fn (?f\<lparr>mstage := 2, mleft := Some (rebuild fn l)\<rparr> # fs) (Some (rebuild fn r))"
    by (rule Node.IH)
  also have "\<dots> = transform_loop fn fs (Some (rebuild fn (Node d l r n)))"
    by (subst transform_loop.simps) (simp add: mframe_def)
  finally show ?case .
qed

lemma deep_copy_eq: "deep_copy t = Some (rebuild (\<lambda>d. d) t)"
  by (simp add: deep_copy_def deep_copy_loop_frame) (subst deep_copy_loop.simps, simp)

lemma transform_node_eq: "transform_node fn t = Some (rebuild fn t)"
  by (simp add: transform_node_def transform_loop_frame) (subst transform_loop.simps, simp)

text \<open>The order of destruction: a node, its right subtree, its left subtree.\<close>

fun destroy_order :: "'a node \<Rightarrow> 'a list" where
  "destroy_order (Leaf d n) = [d]"
| "destroy_order (Node d l r n) = d # destroy_order r @ destroy_order l"

lemma destroy_loop_node: "destroy_loop (t # rest) acc = destroy_loop rest (acc @ destroy_order t)"
proof (induction t arbitrary: rest acc)
  case (Leaf d n)
  show ?case by (subst destroy_loop.simps) simp
next
  case (Node d l r n)
  have "destroy_loop (Node d l r n # rest) acc = destroy_loop (r # l # rest) (acc @ [d])"
    by (subst destroy_loop.simps) simp
  with Node show ?case by simp
qed

lemma mset_destroy_order: "mset (destroy_order t) = mset (node_list t)"
  by (induction t) auto

text \<open>The destructor ends and destroys every proper descendant exactly once.\<close>

lemma destroy_all: "\<exists>ds. destroy t = Some ds \<and> mset ds = mset (tl (node_list t))"
proof (cases t)
  case (Node d l r n)
  then have "destroy t = destroy_loop [] (destroy_order r @ destroy_order l)"
    by (simp add: destroy_def destroy_loop_node)
  then show ?thesis using Node by (subst (asm) destroy_loop.simps) (simp add: mset_destroy_order)
qed (simp add: destroy_def)

section \<open>Folds\<close>

lemma fold_nodes_sized:
  "sized a \<Longrightarrow> \<forall>t \<in> set ts. sized t \<Longrightarrow> sized (foldl (\<lambda>l r. mk_node (f l r) l r) a ts)"
  by (induction ts arbitrary: a) auto

fun leaf_list :: "'a node \<Rightarrow> 'a list" where
  "leaf_list (Leaf d n) = [d]"
| "leaf_list (Node d l r n) = leaf_list l @ leaf_list r"

lemma fold_nodes_leaves:
  "leaf_list (foldl (\<lambda>l r. mk_node (f l r) l r) a ts) = leaf_list a @ concat (map leaf_list ts)"
  by (induction ts arbitrary: a) auto

lemma binarize_container_fold:
  "binarize_container f1 f2 cont =
     foldl (\<lambda>l r. mk_node (f2 (data_of l) (data_of r)) l r) (mk_leaf (f1 (hd cont))) (map (mk_leaf \<circ> f1) (tl cont))"
  by (simp add: binarize_container_def foldl_map Let_def)

lemma mk_leaf_simps [simp]: "sized (mk_leaf d)" "leaf_list (mk_leaf d) = [d]" "data_of (mk_leaf d) = d"
  by (simp_all add: mk_leaf_def)

lemma binarize_container_props:
  "cont \<noteq> [] \<Longrightarrow> sized (binarize_container f1 f2 cont) \<and> leaf_list (binarize_container f1 f2 cont) = map f1 cont"
  by (cases cont) (auto simp: binarize_container_fold fold_nodes_leaves comp_def simp del: mk_node_eq intro!: fold_nodes_sized)

section \<open>Assignment\<close>

fun unsize :: "'a node \<Rightarrow> 'a node" where
  "unsize (Leaf d n) = Leaf d 0"
| "unsize (Node d l r n) = Node d (unsize l) (unsize r) 0"

fun valid_path :: "'a node \<Rightarrow> bool list \<Rightarrow> bool" where
  "valid_path t [] = True"
| "valid_path (Node d l r n) (b # bs) = valid_path (if b then r else l) bs"
| "valid_path (Leaf d n) (b # bs) = False"

text \<open>Sizes are right everywhere but on the way down to the end of the path.\<close>

fun sized_off :: "'a node \<Rightarrow> bool list \<Rightarrow> bool" where
  "sized_off t [] = sized (refresh_size t)"
| "sized_off (Node d l r n) (b # bs) = (if b then sized l \<and> sized_off r bs else sized r \<and> sized_off l bs)"
| "sized_off (Leaf d n) (b # bs) = False"

lemma sized_refresh: "sized t \<Longrightarrow> refresh_size t = t"
  by (cases t) (auto simp: refresh_size_def)

lemma unsize_refresh [simp]: "unsize (refresh_size t) = unsize t"
  by (cases t) (auto simp: refresh_size_def)

lemma replace_subtree_unsize: "valid_path t p \<Longrightarrow> unsize (replace_at t p (refresh_size (subtree t p))) = unsize t"
  by (induction t p rule: valid_path.induct) auto

lemma sized_off_up:
  "valid_path t (p @ [b]) \<Longrightarrow> sized_off t (p @ [b]) \<Longrightarrow>
   sized_off (replace_at t (p @ [b]) (refresh_size (subtree t (p @ [b])))) p
   \<and> valid_path (replace_at t (p @ [b]) (refresh_size (subtree t (p @ [b])))) p"
proof (induction t p rule: valid_path.induct)
  case (1 t)
  then show ?case by (cases t) (auto simp: refresh_size_def)
next
  case (2 d l r n c bs)
  then show ?case by (auto split: if_splits)
next
  case (3 d n c bs)
  then show ?case by simp
qed

lemma refresh_size_up_sized:
  "k \<le> length p \<Longrightarrow> valid_path t (take k p) \<Longrightarrow> sized_off t (take k p) \<Longrightarrow>
   sized (refresh_size_up t p k) \<and> unsize (refresh_size_up t p k) = unsize t"
proof (induction k arbitrary: t)
  case 0
  then show ?case by simp
next
  case (Suc k)
  have tk: "take (Suc k) p = take k p @ [p ! k]" using Suc.prems(1) by (simp add: take_Suc_conv_app_nth)
  define t1 where "t1 = replace_at t (take (Suc k) p) (refresh_size (subtree t (take (Suc k) p)))"
  have "sized_off t1 (take k p)" "valid_path t1 (take k p)"
    using sized_off_up [of t "take k p" "p ! k"] Suc.prems(2,3) unfolding t1_def tk by auto
  with Suc.IH [of t1] Suc.prems(1)
  have "sized (refresh_size_up t1 p k) \<and> unsize (refresh_size_up t1 p k) = unsize t1" by simp
  moreover have "unsize t1 = unsize t" unfolding t1_def using Suc.prems(2) by (rule replace_subtree_unsize)
  ultimately show ?case by (simp add: t1_def)
qed

lemma sized_off_replace: "valid_path t p \<Longrightarrow> sized t \<Longrightarrow> sized u \<Longrightarrow> sized_off (replace_at t p u) p \<and> valid_path (replace_at t p u) p"
  by (induction t p rule: valid_path.induct) (auto simp: sized_refresh)

lemma copy_assign_sized:
  assumes "sized t" "sized u" "valid_path t p"
  shows "\<exists>t'. copy_assign t p u = Some t' \<and> sized t' \<and> unsize t' = unsize (replace_at t p u)"
proof -
  have u: "rebuild (\<lambda>d. d) u = u" using rebuild_map [OF assms(2), of "\<lambda>d. d"] by (simp add: node.map_ident)
  have "sized_off (replace_at t p u) p \<and> valid_path (replace_at t p u) p"
    using assms by (intro sized_off_replace)
  then show ?thesis
    using refresh_size_up_sized [of "length p" p "replace_at t p u"] by (simp add: copy_assign_def deep_copy_eq u)
qed

section \<open>The digraph\<close>

text \<open>The nodes are numbered consecutively from the first number.\<close>

lemma digraph_numbers:
  "fst (digraph label t k) + 1 = k + length (node_list t)
   \<and> concat (map (\<lambda>x. case x of DotNode i _ \<Rightarrow> [i] | _ \<Rightarrow> []) (snd (digraph label t k))) = [k..<k + length (node_list t)]"
proof (induction t arbitrary: k)
  case (Leaf d n)
  then show ?case by simp
next
  case (Node d l r n)
  obtain lc lo where l: "digraph label l (k + 1) = (lc, lo)" by fastforce
  obtain rc ro where r: "digraph label r (lc + 1) = (rc, ro)" by fastforce
  have lc: "lc + 1 = k + 1 + length (node_list l)" and rc: "rc + 1 = lc + 1 + length (node_list r)"
    using Node.IH(1) [of "k + 1"] Node.IH(2) [of "lc + 1"] l r by auto
  let ?a = "length (node_list l)" and ?b = "length (node_list r)"
  have split: "[k..<k + Suc (?a + ?b)] = k # [Suc k..<Suc k + ?a] @ [Suc k + ?a..<Suc k + ?a + ?b]"
  proof -
    have eq: "k + Suc (?a + ?b) = Suc k + ?a + ?b" by simp
    have "[k..<Suc k + ?a + ?b] = k # [Suc k..<Suc k + ?a + ?b]" by (rule upt_conv_Cons) simp
    also have "[Suc k..<Suc k + ?a + ?b] = [Suc k..<Suc k + ?a] @ [Suc k + ?a..<Suc k + ?a + ?b]"
      by (rule upt_append) simp_all
    finally show ?thesis unfolding eq .
  qed
  have outs: "concat (map (\<lambda>x. case x of DotNode i _ \<Rightarrow> [i] | _ \<Rightarrow> []) lo) = [Suc k..<Suc k + ?a]"
    "concat (map (\<lambda>x. case x of DotNode i _ \<Rightarrow> [i] | _ \<Rightarrow> []) ro) = [Suc k + ?a..<Suc k + ?a + ?b]"
    using Node.IH(1) [of "k + 1"] Node.IH(2) [of "lc + 1"] l r lc by simp_all
  have "length (node_list (Node d l r n)) = Suc (?a + ?b)" by simp
  moreover have "fst (digraph label (Node d l r n) k) = rc"
    "concat (map (\<lambda>x. case x of DotNode i _ \<Rightarrow> [i] | _ \<Rightarrow> []) (snd (digraph label (Node d l r n) k)))
       = k # [Suc k..<Suc k + ?a] @ [Suc k + ?a..<Suc k + ?a + ?b]"
    using l r outs by (simp_all add: Let_def del: upt_Suc)
  ultimately show ?case using split lc rc by (simp del: upt_Suc)
qed

section \<open>The traversal\<close>

text \<open>The traversal as a recursion.\<close>

fun visit_rec :: "traversal \<Rightarrow> node_kind \<Rightarrow> ('a, 's) visitor \<Rightarrow> 'a node \<Rightarrow> 's \<Rightarrow> 's" where
  "visit_rec order kind f (Leaf d n) s = snd (call_if (kind \<noteq> VisitInternal) f (Leaf d n) AnyOrder s)"
| "visit_rec order kind f (Node d l r n) s =
     (let (c1, s1) = call_if (order AND PreOrder = PreOrder \<and> kind \<noteq> VisitLeaf) f (Node d l r n) PreOrder s
      in if \<not> c1 then s1
         else (let s2 = visit_rec order kind f l s1;
                   (c3, s3) = call_if (order AND InOrder = InOrder \<and> kind \<noteq> VisitLeaf) f (Node d l r n) InOrder s2
               in if \<not> c3 then s3
                  else (let s4 = visit_rec order kind f r s3
                        in snd (call_if (order AND PostOrder = PostOrder \<and> kind \<noteq> VisitLeaf) f (Node d l r n) PostOrder s4))))"

lemma subtree_append: "subtree t (p @ q) = subtree (subtree t p) q"
proof (induction t p rule: subtree.induct)
  case (3 d n b bs)
  have "subtree (Leaf d n) q = Leaf d n" for q by (cases q) auto
  then show ?case by simp
qed auto

lemma visit_loop_node:
  assumes "subtree t p = u" "prev \<noteq> p @ [False]" "prev \<noteq> p @ [True]" "p = [] \<or> prev = butlast p"
  shows "visit_loop order kind f t (Some p) prev s = visit_loop order kind f t (parent_path p) p (visit_rec order kind f u s)"
  using assms
proof (induction u arbitrary: p prev s)
  case (Leaf d n)
  then show ?case
    by (subst visit_loop.simps) (simp add: visit_step_def Let_def split: prod.splits)
next
  case (Node d l r n)
  have lp: "subtree t (p @ [False]) = l" "subtree t (p @ [True]) = r"
    using Node.prems(1) by (simp_all add: subtree_append)
  have par: "parent_path (p @ [b]) = Some p" for b by (simp add: parent_path_def)
  obtain c1 s1 where 1: "call_if (order AND PreOrder = PreOrder \<and> kind \<noteq> VisitLeaf) f (Node d l r n) PreOrder s = (c1, s1)"
    by fastforce
  show ?case
  proof (cases c1)
    case False
    with 1 Node.prems show ?thesis
      by (subst visit_loop.simps) (simp add: visit_step_def Let_def)
  next
    case True
    have a: "visit_loop order kind f t (Some p) prev s = visit_loop order kind f t (Some (p @ [False])) p s1"
      using 1 True Node.prems by (subst visit_loop.simps) (simp add: visit_step_def Let_def)
    define s2 where "s2 = visit_rec order kind f l s1"
    have b: "visit_loop order kind f t (Some (p @ [False])) p s1 = visit_loop order kind f t (Some p) (p @ [False]) s2"
      using Node.IH(1) [OF lp(1), of p s1] by (simp add: par s2_def)
    obtain c3 s3 where 3: "call_if (order AND InOrder = InOrder \<and> kind \<noteq> VisitLeaf) f (Node d l r n) InOrder s2 = (c3, s3)"
      by fastforce
    show ?thesis
    proof (cases c3)
      case False
      have "visit_loop order kind f t (Some p) (p @ [False]) s2 = visit_loop order kind f t (parent_path p) p s3"
        using 3 False Node.prems(1) by (subst visit_loop.simps) (simp add: visit_step_def Let_def)
      with a b 1 3 True False show ?thesis by (simp add: s2_def Let_def)
    next
      case c3: True
      have c: "visit_loop order kind f t (Some p) (p @ [False]) s2 = visit_loop order kind f t (Some (p @ [True])) p s3"
        using 3 c3 Node.prems(1) by (subst visit_loop.simps) (simp add: visit_step_def Let_def)
      define s4 where "s4 = visit_rec order kind f r s3"
      have e: "visit_loop order kind f t (Some (p @ [True])) p s3 = visit_loop order kind f t (Some p) (p @ [True]) s4"
        using Node.IH(2) [OF lp(2), of p s3] by (simp add: par s4_def)
      have g: "visit_loop order kind f t (Some p) (p @ [True]) s4 = visit_loop order kind f t (parent_path p) p
          (snd (call_if (order AND PostOrder = PostOrder \<and> kind \<noteq> VisitLeaf) f (Node d l r n) PostOrder s4))"
        using Node.prems(1) by (subst visit_loop.simps) (simp add: visit_step_def Let_def split: prod.splits)
      from a b c e g 1 3 True c3 show ?thesis by (simp add: s2_def s4_def Let_def)
    qed
  qed
qed

section \<open>Properties\<close>

text \<open>C21: The cached \<open>size_\<close> is the number of nodes: a clone of a correctly sized tree is that tree, a
  transformed tree is its image, both by stack machines that always end; left folds and containers give
  correctly sized trees with the given leaves in order; and assigning a copy to any node of a tree
  refreshes every ancestor, so that the result is the tree with that subtree replaced, sizes right.\<close>
theorem cached_sizes_maintained:
  assumes "sized t" and "sized u" and "valid_path t p" and "\<forall>x \<in> set ts. sized x"
  shows "csize t = length (node_list t)
    \<and> deep_copy t = Some t
    \<and> transform_node fn t = Some (map_node fn t) \<and> sized (map_node fn t)
    \<and> (ts \<noteq> [] \<longrightarrow> (\<exists>v. fold_left_to_node f ts = Inr v \<and> sized v \<and> leaf_list v = concat (map leaf_list ts)))
    \<and> (cont \<noteq> [] \<longrightarrow> sized (binarize_container f1 f2 cont) \<and> leaf_list (binarize_container f1 f2 cont) = map f1 cont)
    \<and> (\<exists>t'. copy_assign t p u = Some t' \<and> sized t' \<and> unsize t' = unsize (replace_at t p u))"
proof -
  have map: "transform_node fn t = Some (map_node fn t)" "sized (map_node fn t)"
    using rebuild_sized [of fn t] by (simp_all add: transform_node_eq rebuild_map [OF assms(1)])
  have copy: "deep_copy t = Some t"
    using rebuild_map [OF assms(1), of "\<lambda>d. d"] by (simp add: deep_copy_eq node.map_ident)
  have fold: "\<exists>v. fold_left_to_node f ts = Inr v \<and> sized v \<and> leaf_list v = concat (map leaf_list ts)" if "ts \<noteq> []"
    using that assms(4) by (cases ts) (auto simp: fold_left_to_node_def fold_nodes_leaves simp del: mk_node_eq intro!: fold_nodes_sized)
  show ?thesis
    using csize_nodes [OF assms(1)] map copy fold binarize_container_props [of cont f1 f2]
      copy_assign_sized [OF assms(1-3)] by blast
qed

theorem cached_sizes_maintained_witness:
  "deep_copy (Node 1 (Leaf 2 1) (Leaf (3::nat) 1) 3) = Some (Node 1 (Leaf 2 1) (Leaf 3 1) 3)
   \<and> copy_assign (Node 1 (Leaf 2 1) (Leaf (3::nat) 1) 3) [True] (Node 4 (Leaf 5 1) (Leaf 6 1) 3)
      = Some (Node 1 (Leaf 2 1) (Node 4 (Leaf 5 1) (Leaf 6 1) 3) 5)"
proof -
  let ?t = "Node 1 (Leaf 2 1) (Leaf (3::nat) 1) 3" and ?u = "Node 4 (Leaf 5 1) (Leaf (6::nat) 1) 3"
  have "sized ?t" "sized ?u" "valid_path ?t [True]" "\<forall>x \<in> set []. sized (x :: nat node)" by simp_all
  note c = cached_sizes_maintained [OF this, of "\<lambda>x. x" "\<lambda>_ _. 0" "[]" "\<lambda>x :: nat. x" "(+)"]
  have "copy_assign ?t [True] ?u = Some (Node 1 (Leaf 2 1) ?u 5)" by code_simp
  with c show ?thesis by blast
qed

lemma visit_is_rec:
  "visit order kind f t [] s =
     Some (Inr (if order = NoOrder \<or> order > AnyOrder then s else visit_rec order kind f t s))"
proof -
  have "visit_loop order kind f t (Some []) [] s = visit_loop order kind f t None [] (visit_rec order kind f t s)"
    using visit_loop_node [of t "[]" t "[]"] by (simp add: parent_path_def)
  also have "\<dots> = Some (Inr (visit_rec order kind f t s))" by (subst visit_loop.simps) simp
  finally show ?thesis by (simp add: visit_def)
qed

text \<open>C20: Started at the root, the traversal loop ends and is the recursive traversal: leaves are visited
  once, whatever the order, internal nodes in the contexts of the order, and a visitor that declines
  skips what is left of the node's subtree.\<close>
theorem visit_refines_recursion:
  "visit order kind f t [] s =
     Some (Inr (if order = NoOrder \<or> order > AnyOrder then s else visit_rec order kind f t s))"
  by (rule visit_is_rec)

text \<open>Started at a leaf that is not the root, the traversal does not stay in the subtree it was asked to
  visit: from a left leaf it goes on to the parent and visits the right sibling's subtree as well.\<close>
theorem visit_escapes_subtree:
  "\<exists>t p. subtree t p = Leaf (2 :: nat) 1
     \<and> visit PreOrder VisitAll (\<lambda>n _ seen. (True, seen @ [data_of n])) (subtree t p) [] [] = Some (Inr [2])
     \<and> visit PreOrder VisitAll (\<lambda>n _ seen. (True, seen @ [data_of n])) t p [] = Some (Inr [2, 3])"
proof -
  let ?t = "Node 1 (Leaf 2 1) (Leaf (3::nat) 1) 3"
  have "subtree ?t [False] = Leaf 2 1" by simp
  moreover have "visit PreOrder VisitAll (\<lambda>n _ seen. (True, seen @ [data_of n])) (subtree ?t [False]) [] [] = Some (Inr [2])"
    by code_simp
  moreover have "visit PreOrder VisitAll (\<lambda>n _ seen. (True, seen @ [data_of n])) ?t [False] [] = Some (Inr [2, 3])"
    by code_simp
  ultimately show ?thesis by blast
qed

lemma node_eq_value: "node_eq t u = Inr b \<Longrightarrow> b \<longleftrightarrow> unsize t = unsize u"
proof (induction t u arbitrary: b rule: node_eq.induct)
  case (4 d l r n e l' r' m)
  then show ?case by (auto simp: bind_res_Inr split: if_splits)
qed (auto split: if_splits)

lemma node_eq_same_shape: "unsize (map_node (\<lambda>_. ()) t) = unsize (map_node (\<lambda>_. ()) u) \<Longrightarrow> \<exists>b. node_eq t u = Inr b"
proof (induction t u rule: node_eq.induct)
  case (4 d l r n e l' r' m)
  show ?case
  proof (cases "d = e")
    case True
    obtain b1 where "node_eq l l' = Inr b1" using 4(1) [OF True] 4(3) by auto
    moreover obtain b2 where "node_eq r r' = Inr b2" using 4(2) [OF True TrueI] 4(3) by auto
    ultimately have "node_eq l l' = Inr b1" "node_eq r r' = Inr b2" by simp_all
    then show ?thesis by (cases b1) (auto simp: True)
  qed auto
qed auto

text \<open>C22: \<open>operator==\<close> of nodes, whenever it returns, is equality of the trees' data and shape; it does return
  on trees of one shape, but comparing a leaf with an internal node that holds equal data throws.\<close>
theorem node_eq_correct:
  "(node_eq t u = Inr b \<longrightarrow> (b \<longleftrightarrow> unsize t = unsize u))
   \<and> (unsize (map_node (\<lambda>_. ()) t) = unsize (map_node (\<lambda>_. ()) u) \<longrightarrow> node_eq t u = Inr (unsize t = unsize u))
   \<and> (\<forall>d l r n m. node_eq (Leaf d n) (Node d l r m) = Inl NullDereference
        \<and> node_eq (Node d l r m) (Leaf d n) = Inl NullDereference)"
  using node_eq_value [of t u] node_eq_same_shape [of t u] by auto

theorem node_eq_correct_witness:
  "node_eq (Node (1::nat) (Leaf 2 1) (Leaf 3 1) 3) (Node 1 (Leaf 2 1) (Leaf 4 1) 3) = Inr False"
  using node_eq_correct [of "Node (1::nat) (Leaf 2 1) (Leaf 3 1) 3" "Node 1 (Leaf 2 1) (Leaf 4 1) 3" False] by simp

end
