(* ===== verification/EvalExprs.thy ===== *)
theory EvalExprs
  imports BinaryNode
begin

unbundle bit_operations_syntax

text \<open>
  SeQuant/core/eval/eval_expr.hpp, eval_expr.cpp and eval_node_compare.hpp: the payload of the evaluation
  trees (\<open>EvalExpr\<close>), the indices a node contracts, and the identity of evaluation nodes
  (\<open>canonical_operand_cmp\<close>, \<open>canonical_children\<close>, \<open>TreeNodeEqualityComparator\<close>).  The held expression is
  the constructor of its kind over an opaque payload; the graph library's comparison, the comparison of
  tensor blocks and the equality of held expressions are parameters.
\<close>

section \<open>The payload of an evaluation node\<close>

datatype eval_op = SumOp | ProductOp | AdjointOp | PowerOp | BroadcastOp

definition is_unary :: "eval_op \<Rightarrow> bool" where
  "is_unary op \<longleftrightarrow> op = AdjointOp \<or> op = PowerOp \<or> op = BroadcastOp"

datatype result_type = TensorResult | ScalarResult

text \<open>An \<open>ExprPtr\<close> by the dynamic type of its object; the number of another expression is its type id.\<close>

datatype 'e held_expr = TensorExpr 'e | ConstantExpr 'e | VariableExpr 'e | PowerExpr 'e | OtherExpr nat 'e

datatype batch_mode_type = External | Contracted

record ('i, 'e, 'g) eval_expr =
  op_type :: "eval_op option"
  result_type_of :: result_type
  held :: "'e held_expr"
  canon_indices :: "'i list"
  canon_phase :: int
  hash_value :: "64 word"
  connectivity :: "'g option"
  node_slice_mask :: "('i \<times> batch_mode_type) list"
  batch_loops_opened_here :: "('i \<times> batch_mode_type) list"
  sliced_modes :: "'i list"
  occurrence_home :: "'i list"
  value_key_stamp :: "64 word"
  batch_order_aware :: bool
  batch_effective_count :: nat
  accumulate_in_place :: bool
  equation_boundary :: bool

type_synonym ('i, 'e, 'g) eval_node = "('i, 'e, 'g) eval_expr node"

datatype eval_error = EvalAssertion | BadExprCast

fun type_id :: "'e held_expr \<Rightarrow> nat" where
  "type_id (TensorExpr _) = 0"
| "type_id (ConstantExpr _) = 1"
| "type_id (VariableExpr _) = 2"
| "type_id (PowerExpr _) = 3"
| "type_id (OtherExpr k _) = 4 + k"

fun holds_tensor :: "'e held_expr \<Rightarrow> bool" where
  "holds_tensor (TensorExpr _) = True"
| "holds_tensor _ = False"

text \<open>The constructor of a non-primary payload; the members it does not name have their initializers.\<close>

definition eval_expr_default :: "'e held_expr \<Rightarrow> result_type \<Rightarrow> ('i, 'e, 'g) eval_expr" where
  "eval_expr_default ex res =
     \<lparr>op_type = None, result_type_of = res, held = ex, canon_indices = [], canon_phase = 1, hash_value = 0,
      connectivity = None, node_slice_mask = [], batch_loops_opened_here = [], sliced_modes = [],
      occurrence_home = [], value_key_stamp = 0, batch_order_aware = False, batch_effective_count = 1,
      accumulate_in_place = False, equation_boundary = False\<rparr>"

definition mk_eval_expr ::
    "eval_op \<Rightarrow> result_type \<Rightarrow> 'e held_expr \<Rightarrow> 'i list \<Rightarrow> int \<Rightarrow> 64 word \<Rightarrow> 'g option
     \<Rightarrow> (eval_error, ('i, 'e, 'g) eval_expr) result" where
  "mk_eval_expr op res ex ixs p h g =
     (if holds_tensor ex \<noteq> (res = TensorResult) then Inl EvalAssertion
      else Inr ((eval_expr_default ex res)
        \<lparr>op_type := Some op, canon_indices := ixs, canon_phase := p, hash_value := h, connectivity := g\<rparr>))"

text \<open>The constructor from a Constant, a Variable or a Power with its hash.\<close>

definition scalar_eval_expr :: "'e held_expr \<Rightarrow> 64 word \<Rightarrow> ('i, 'e, 'g) eval_expr" where
  "scalar_eval_expr ex h = (eval_expr_default ex ScalarResult)\<lparr>hash_value := h\<rparr>"

definition is_tensor :: "('i, 'e, 'g) eval_expr \<Rightarrow> bool" where
  "is_tensor x \<longleftrightarrow> holds_tensor (held x) \<and> result_type_of x = TensorResult"

definition is_scalar :: "('i, 'e, 'g) eval_expr \<Rightarrow> bool" where
  "is_scalar x \<longleftrightarrow> \<not> is_tensor x"

definition is_constant :: "('i, 'e, 'g) eval_expr \<Rightarrow> bool" where
  "is_constant x \<longleftrightarrow> (case held x of ConstantExpr _ \<Rightarrow> True | _ \<Rightarrow> False) \<and> result_type_of x = ScalarResult"

definition is_variable :: "('i, 'e, 'g) eval_expr \<Rightarrow> bool" where
  "is_variable x \<longleftrightarrow> (case held x of VariableExpr _ \<Rightarrow> True | _ \<Rightarrow> False) \<and> result_type_of x = ScalarResult"

definition is_power :: "('i, 'e, 'g) eval_expr \<Rightarrow> bool" where
  "is_power x \<longleftrightarrow> (case held x of PowerExpr _ \<Rightarrow> True | _ \<Rightarrow> False) \<and> result_type_of x = ScalarResult"

definition is_primary :: "('i, 'e, 'g) eval_expr \<Rightarrow> bool" where
  "is_primary x \<longleftrightarrow> op_type x = None"

definition is_sum :: "('i, 'e, 'g) eval_expr \<Rightarrow> bool" where
  "is_sum x \<longleftrightarrow> op_type x = Some SumOp"

definition is_product :: "('i, 'e, 'g) eval_expr \<Rightarrow> bool" where
  "is_product x \<longleftrightarrow> op_type x = Some ProductOp"

definition is_adjoint :: "('i, 'e, 'g) eval_expr \<Rightarrow> bool" where
  "is_adjoint x \<longleftrightarrow> op_type x = Some AdjointOp"

definition is_elementwise_power :: "('i, 'e, 'g) eval_expr \<Rightarrow> bool" where
  "is_elementwise_power x \<longleftrightarrow> op_type x = Some PowerOp"

definition is_broadcast :: "('i, 'e, 'g) eval_expr \<Rightarrow> bool" where
  "is_broadcast x \<longleftrightarrow> op_type x = Some BroadcastOp"

definition has_connectivity_graph :: "('i, 'e, 'g) eval_expr \<Rightarrow> bool" where
  "has_connectivity_graph x \<longleftrightarrow> connectivity x \<noteq> None"

definition connectivity_graph :: "('i, 'e, 'g) eval_expr \<Rightarrow> (eval_error, 'g) result" where
  "connectivity_graph x = (case connectivity x of None \<Rightarrow> Inl EvalAssertion | Some g \<Rightarrow> Inr g)"

definition mask_all_full :: "('i, 'e, 'g) eval_expr \<Rightarrow> bool" where
  "mask_all_full x \<longleftrightarrow> sliced_modes x = []"

text \<open>\<open>contracted_indices\<close>: what both children carry and the node does not.\<close>

fun contracted_indices :: "('i, 'e, 'g) eval_node \<Rightarrow> 'i list" where
  "contracted_indices (Leaf d _) = []"
| "contracted_indices (Node d l r _) =
     (if \<not> is_product d then []
      else filter (\<lambda>ix. ix \<in> set (canon_indices (data_of r)) \<and> ix \<notin> set (canon_indices d))
             (canon_indices (data_of l)))"

section \<open>The identity of evaluation nodes\<close>

datatype strong_ordering = SOLess | SOEqual | SOGreater

text \<open>\<open>canonical_operand_cmp\<close>; the test of the addresses is subsumed, an object compares equal to itself.\<close>

definition canonical_operand_cmp :: "('i, 'e, 'g) eval_node \<Rightarrow> ('i, 'e, 'g) eval_node \<Rightarrow> strong_ordering" where
  "canonical_operand_cmp a b =
     (if is_scalar (data_of a) \<noteq> is_scalar (data_of b)
      then if is_scalar (data_of a) then SOGreater else SOLess
      else if hash_value (data_of a) \<noteq> hash_value (data_of b)
      then if hash_value (data_of a) < hash_value (data_of b) then SOLess else SOGreater
      else SOEqual)"

definition canonical_pair ::
    "('i, 'e, 'g) eval_node \<Rightarrow> ('i, 'e, 'g) eval_node \<Rightarrow> ('i, 'e, 'g) eval_node \<times> ('i, 'e, 'g) eval_node" where
  "canonical_pair l r = (if canonical_operand_cmp l r = SOGreater then (r, l) else (l, r))"

fun canonical_children ::
    "('i, 'e, 'g) eval_node \<Rightarrow> (eval_error, ('i, 'e, 'g) eval_node \<times> ('i, 'e, 'g) eval_node) result" where
  "canonical_children (Leaf d k) = Inl EvalAssertion"
| "canonical_children (Node d l r k) = Inr (canonical_pair l r)"

text \<open>
  The parameters of the comparison: equality of held expressions, the block comparison of tensors and the
  comparison of connectivity graphs (equal when it gives 0).
\<close>

record ('e, 'g) node_compare =
  expr_equal :: "'e held_expr \<Rightarrow> 'e held_expr \<Rightarrow> bool"
  block_equal :: "'e held_expr \<Rightarrow> 'e held_expr \<Rightarrow> bool"
  graph_equal :: "'g \<Rightarrow> 'g \<Rightarrow> bool"

text \<open>Everything one turn of the loop compares before the children.\<close>

definition same_payload :: "('e, 'g) node_compare \<Rightarrow> ('i, 'e, 'g) eval_node \<Rightarrow> ('i, 'e, 'g) eval_node \<Rightarrow> bool" where
  "same_payload nc a b =
     (let x = data_of a; y = data_of b
      in if leaf a \<noteq> leaf b then False
         else if hash_value x \<noteq> hash_value y then False
         else if csize a \<noteq> csize b then False
         else if type_id (held x) \<noteq> type_id (held y) then False
         else if (is_constant x \<or> is_variable x \<or> is_power x) \<and> \<not> expr_equal nc (held x) (held y) then False
         else if \<not> (is_constant x \<or> is_variable x \<or> is_power x) \<and> is_tensor x \<and> \<not> has_connectivity_graph x
                 \<and> \<not> block_equal nc (held x) (held y) then False
         else if has_connectivity_graph x \<noteq> has_connectivity_graph y then False
         else (case (connectivity x, connectivity y) of (Some g, Some h) \<Rightarrow> graph_equal nc g h | _ \<Rightarrow> True))"

text \<open>
  The functor: a Product compares its children in the canonical order, recursing into both; any other node
  recurses into the right children and starts over with the left ones.
\<close>

function (sequential) node_equal ::
    "('e, 'g) node_compare \<Rightarrow> ('i, 'e, 'g) eval_node \<Rightarrow> ('i, 'e, 'g) eval_node \<Rightarrow> bool" where
  "node_equal nc (Node d l r k) (Node d' l' r' k') =
     (if \<not> same_payload nc (Node d l r k) (Node d' l' r' k') then False
      else if op_type d = Some ProductOp
      then (let (p, q) = canonical_pair l r; (p', q') = canonical_pair l' r'
            in node_equal nc p p' \<and> node_equal nc q q')
      else if \<not> node_equal nc r r' then False
      else node_equal nc l l')"
| "node_equal nc a b = same_payload nc a b"
  by pat_completeness auto
termination
  by (relation "measure (\<lambda>(nc, a, b). size a)") (auto simp: canonical_pair_def split: if_splits)

section \<open>The comparison of evaluation nodes is an equivalence\<close>

definition operand_view :: "('i, 'e, 'g) eval_expr \<Rightarrow> ('i, 'e, 'g) eval_node \<Rightarrow> ('i, 'e, 'g) eval_node
    \<Rightarrow> ('i, 'e, 'g) eval_node \<times> ('i, 'e, 'g) eval_node" where
  "operand_view d l r = (if is_product d then canonical_pair l r else (l, r))"

lemma node_equal_Node:
  "op_type d = op_type d' \<Longrightarrow>
   node_equal nc (Node d l r k) (Node d' l' r' k') \<longleftrightarrow>
     same_payload nc (Node d l r k) (Node d' l' r' k')
     \<and> node_equal nc (fst (operand_view d l r)) (fst (operand_view d' l' r'))
     \<and> node_equal nc (snd (operand_view d l r)) (snd (operand_view d' l' r'))"
  by (auto simp: operand_view_def is_product_def split: prod.splits)

lemma operand_view_sizes:
  "size (fst (operand_view d l r)) < size (Node d l r k)" "size (snd (operand_view d l r)) < size (Node d l r k)"
  by (auto simp: operand_view_def canonical_pair_def)

lemma node_equal_payload: "node_equal nc a b \<Longrightarrow> same_payload nc a b"
  by (cases "(nc, a, b)" rule: node_equal.cases) (auto split: if_splits)

text \<open>What the comparison is used on: a set of nodes closed under children in which equal payloads have one operation.\<close>

definition payload_ok :: "('i, 'e, 'g) eval_expr \<Rightarrow> bool" where
  "payload_ok x \<longleftrightarrow> (holds_tensor (held x) \<longleftrightarrow> result_type_of x = TensorResult)"

definition closed_children :: "'a node set \<Rightarrow> bool" where
  "closed_children S \<longleftrightarrow> (\<forall>d l r k. Node d l r k \<in> S \<longrightarrow> l \<in> S \<and> r \<in> S)"

definition eval_forest :: "('e, 'g) node_compare \<Rightarrow> ('i, 'e, 'g) eval_node set \<Rightarrow> bool" where
  "eval_forest nc S \<longleftrightarrow> closed_children S \<and> (\<forall>a\<in>S. payload_ok (data_of a)) \<and>
     (\<forall>a\<in>S. \<forall>b\<in>S. same_payload nc a b \<longrightarrow> op_type (data_of a) = op_type (data_of b))"

definition compares_equivalences :: "('e, 'g) node_compare \<Rightarrow> bool" where
  "compares_equivalences nc \<longleftrightarrow> equivp (expr_equal nc) \<and> equivp (block_equal nc) \<and> equivp (graph_equal nc)"

lemma forest_children:
  assumes "eval_forest nc S" "Node d l r k \<in> S"
  shows "fst (operand_view d l r) \<in> S" "snd (operand_view d l r) \<in> S"
proof -
  have "l \<in> S" "r \<in> S"
    using assms unfolding eval_forest_def closed_children_def by blast+
  then show "fst (operand_view d l r) \<in> S" "snd (operand_view d l r) \<in> S"
    by (simp_all add: operand_view_def canonical_pair_def)
qed

lemma forest_op:
  assumes "eval_forest nc S" "a \<in> S" "b \<in> S" "same_payload nc a b"
  shows "op_type (data_of a) = op_type (data_of b)"
  using assms unfolding eval_forest_def by blast

lemma forest_payload: "eval_forest nc S \<Longrightarrow> a \<in> S \<Longrightarrow> payload_ok (data_of a)"
  unfolding eval_forest_def by blast

text \<open>On sound payloads one turn of the comparison is the conjunction of these, by the kind of the held expression.\<close>

fun same_held :: "('e, 'g) node_compare \<Rightarrow> bool \<Rightarrow> 'e held_expr \<Rightarrow> 'e held_expr \<Rightarrow> bool" where
  "same_held nc graph (TensorExpr e) y \<longleftrightarrow> (graph \<or> block_equal nc (TensorExpr e) y)"
| "same_held nc graph (OtherExpr k e) y \<longleftrightarrow> True"
| "same_held nc graph x y \<longleftrightarrow> expr_equal nc x y"

lemma same_payload_iff:
  assumes "payload_ok (data_of a)"
  shows "same_payload nc a b \<longleftrightarrow>
    leaf a = leaf b \<and> hash_value (data_of a) = hash_value (data_of b) \<and> csize a = csize b
    \<and> type_id (held (data_of a)) = type_id (held (data_of b))
    \<and> same_held nc (has_connectivity_graph (data_of a)) (held (data_of a)) (held (data_of b))
    \<and> rel_option (graph_equal nc) (connectivity (data_of a)) (connectivity (data_of b))"
proof -
  have graphs: "rel_option (graph_equal nc) g h \<longleftrightarrow>
      (g \<noteq> None) = (h \<noteq> None) \<and> (case (g, h) of (Some g', Some h') \<Rightarrow> graph_equal nc g' h' | _ \<Rightarrow> True)" for g h
    by (cases g; cases h) auto
  have chain: "(if P then False else Q) \<longleftrightarrow> \<not> P \<and> Q" for P Q
    by simp
  let ?x = "data_of a" and ?y = "data_of b"
  have t: "is_tensor ?x = holds_tensor (held ?x)"
    using assms by (auto simp: is_tensor_def payload_ok_def)
  have k: "(is_constant ?x \<or> is_variable ?x \<or> is_power ?x) =
      (\<not> holds_tensor (held ?x) \<and> type_id (held ?x) < 4)"
    using assms
    by (cases "held ?x"; cases "result_type_of ?x")
      (simp_all add: payload_ok_def is_constant_def is_variable_def is_power_def)
  have h: "same_held nc g x y =
      (if \<not> holds_tensor x \<and> type_id x < 4 then expr_equal nc x y
       else holds_tensor x \<and> \<not> g \<longrightarrow> block_equal nc x y)" for g x y
    by (cases x) auto
  show ?thesis
    unfolding same_payload_def Let_def graphs k t h has_connectivity_graph_def chain
    by (cases "\<not> holds_tensor (held ?x) \<and> type_id (held ?x) < 4") (simp_all only: if_True if_False simp_thms, blast+)
qed


lemma same_held_sym:
  assumes "compares_equivalences nc" "type_id x = type_id y"
  shows "same_held nc g x y = same_held nc g y x"
  using assms by (cases x; cases y) (auto simp: compares_equivalences_def dest: equivp_symp)

lemma same_held_trans:
  assumes "compares_equivalences nc" "type_id x = type_id y" "type_id y = type_id z"
    "same_held nc g x y" "same_held nc g y z"
  shows "same_held nc g x z"
proof (cases "(\<exists>e. x = TensorExpr e) \<or> (\<exists>k e. x = OtherExpr k e)")
  case True
  then show ?thesis
    using assms by (cases y) (auto simp: compares_equivalences_def intro: equivp_transp)
next
  case False
  then have "same_held nc g x = expr_equal nc x" "type_id x < 4" "type_id x \<noteq> 0" by (cases x; auto)+
  moreover from this have "same_held nc g y = expr_equal nc y"
    using assms(2) by (cases y) auto
  ultimately show ?thesis
    using assms unfolding compares_equivalences_def by (metis equivp_transp)
qed

lemma same_payload_sym:
  assumes eq: "compares_equivalences nc" and ok: "payload_ok (data_of a)" "payload_ok (data_of b)"
    and ab: "same_payload nc a b"
  shows "same_payload nc b a"
proof -
  note ab' = ab [unfolded same_payload_iff [OF ok(1)]]
  have graph_sym: "graph_equal nc x y \<Longrightarrow> graph_equal nc y x" for x y
    using eq unfolding compares_equivalences_def by (meson equivp_symp)
  have "has_connectivity_graph (data_of a) = has_connectivity_graph (data_of b)"
    using ab' by (cases "connectivity (data_of a)"; cases "connectivity (data_of b)") (simp_all add: has_connectivity_graph_def)
  moreover have "rel_option (graph_equal nc) (connectivity (data_of b)) (connectivity (data_of a))"
    using ab' graph_sym by (cases "connectivity (data_of a)"; cases "connectivity (data_of b)") simp_all
  ultimately show ?thesis
    using ab' same_held_sym [OF eq, of "held (data_of a)" "held (data_of b)"]
    unfolding same_payload_iff [OF ok(2)] by simp
qed

lemma same_payload_trans:
  assumes eq: "compares_equivalences nc" and ok: "payload_ok (data_of a)" "payload_ok (data_of b)"
    and ab: "same_payload nc a b" and bc: "same_payload nc b c"
  shows "same_payload nc a c"
proof -
  note ab' = ab [unfolded same_payload_iff [OF ok(1)]]
  note bc' = bc [unfolded same_payload_iff [OF ok(2)]]
  have "has_connectivity_graph (data_of a) = has_connectivity_graph (data_of b)"
    using ab' by (cases "connectivity (data_of a)"; cases "connectivity (data_of b)") (simp_all add: has_connectivity_graph_def)
  moreover have "rel_option (graph_equal nc) (connectivity (data_of a)) (connectivity (data_of c))"
    using ab' bc' eq unfolding compares_equivalences_def
    by (cases "connectivity (data_of a)"; cases "connectivity (data_of b)"; cases "connectivity (data_of c)")
      (auto intro: equivp_transp)
  ultimately show ?thesis
    using ab' bc' same_held_trans [OF eq, of "held (data_of a)" "held (data_of b)" "held (data_of c)" "has_connectivity_graph (data_of a)"]
    unfolding same_payload_iff [OF ok(1)] by simp
qed

lemma same_payload_refl:
  assumes "compares_equivalences nc"
  shows "same_payload nc a a"
proof -
  have "expr_equal nc x x" "block_equal nc x x" "graph_equal nc g g" for x g
    using assms by (simp_all add: compares_equivalences_def equivp_reflp)
  then show ?thesis
    by (cases "connectivity (data_of a)") (simp_all add: same_payload_def)
qed

lemma node_equal_refl: "compares_equivalences nc \<Longrightarrow> node_equal nc a a"
proof (induction a rule: measure_induct_rule [where f = size])
  case (less a)
  show ?case
  proof (cases a)
    case (Leaf d k)
    then show ?thesis using same_payload_refl [OF less.prems] by simp
  next
    case (Node d l r k)
    show ?thesis
      unfolding Node node_equal_Node [OF refl]
      using same_payload_refl [OF less.prems] less.IH operand_view_sizes less.prems Node by metis
  qed
qed

lemma node_equal_sym:
  assumes eq: "compares_equivalences nc" and S: "eval_forest nc S"
  shows "a \<in> S \<Longrightarrow> b \<in> S \<Longrightarrow> node_equal nc a b \<Longrightarrow> node_equal nc b a"
proof (induction a arbitrary: b rule: measure_induct_rule [where f = size])
  case (less a)
  have pay: "same_payload nc b a"
    by (rule same_payload_sym [OF eq forest_payload [OF S less.prems(1)] forest_payload [OF S less.prems(2)]
          node_equal_payload [OF less.prems(3)]])
  show ?case
  proof (cases "leaf a")
    case True
    then have "leaf b" using pay by (simp add: same_payload_iff [OF forest_payload [OF S less.prems(2)]])
    with pay True show ?thesis by (cases b; cases a) auto
  next
    case False
    then have "\<not> leaf b" using pay by (simp add: same_payload_iff [OF forest_payload [OF S less.prems(2)]])
    then obtain d l r k d' l' r' k' where ab: "a = Node d l r k" "b = Node d' l' r' k'"
      using False by (cases a; cases b) auto
    have op: "op_type d = op_type d'"
      using forest_op [OF S less.prems(2,1) pay] ab by simp
    show ?thesis
      using pay less.prems(3) less.IH [OF _ forest_children(1) [OF S] forest_children(1) [OF S]]
        less.IH [OF _ forest_children(2) [OF S] forest_children(2) [OF S]] less.prems(1,2) operand_view_sizes
      unfolding ab node_equal_Node [OF op] node_equal_Node [OF op [symmetric]] by metis
  qed
qed

declare node_equal.simps(1) [simp del]

lemma node_equal_trans:
  assumes eq: "compares_equivalences nc" and S: "eval_forest nc S"
  shows "a \<in> S \<Longrightarrow> b \<in> S \<Longrightarrow> c \<in> S \<Longrightarrow> node_equal nc a b \<Longrightarrow> node_equal nc b c \<Longrightarrow> node_equal nc a c"
proof (induction a arbitrary: b c rule: measure_induct_rule [where f = size])
  case (less a)
  note paya = node_equal_payload [OF less.prems(4)] and payb = node_equal_payload [OF less.prems(5)]
  have pay: "same_payload nc a c"
    by (rule same_payload_trans [OF eq forest_payload [OF S less.prems(1)] forest_payload [OF S less.prems(2)] paya payb])
  have leaves: "leaf a = leaf b" "leaf b = leaf c"
    using paya payb by (simp_all add: same_payload_iff [OF forest_payload [OF S less.prems(1)]]
        same_payload_iff [OF forest_payload [OF S less.prems(2)]])
  show ?case
  proof (cases "leaf a")
    case True
    with pay leaves show ?thesis by (cases c; cases a) auto
  next
    case False
    then obtain d l r k d' l' r' k' d'' l'' r'' k''
      where abc: "a = Node d l r k" "b = Node d' l' r' k'" "c = Node d'' l'' r'' k''"
      using leaves by (cases a; cases b; cases c) auto
    have op: "op_type d = op_type d'" "op_type d' = op_type d''"
      using forest_op [OF S less.prems(1,2) paya] forest_op [OF S less.prems(2,3) payb] abc by simp_all
    note mem = less.prems(1-3) [unfolded abc]
    note ab = less.prems(4) [unfolded abc node_equal_Node [OF op(1)]]
    note bc = less.prems(5) [unfolded abc node_equal_Node [OF op(2)]]
    have "node_equal nc (fst (operand_view d l r)) (fst (operand_view d'' l'' r''))"
      by (rule less.IH [OF _ forest_children(1) [OF S mem(1)] forest_children(1) [OF S mem(2)] forest_children(1) [OF S mem(3)]])
        (use ab bc operand_view_sizes [of d l r k] in \<open>simp_all add: abc\<close>)
    moreover have "node_equal nc (snd (operand_view d l r)) (snd (operand_view d'' l'' r''))"
      by (rule less.IH [OF _ forest_children(2) [OF S mem(1)] forest_children(2) [OF S mem(2)] forest_children(2) [OF S mem(3)]])
        (use ab bc operand_view_sizes [of d l r k] in \<open>simp_all add: abc\<close>)
    ultimately show ?thesis
      using pay op unfolding abc by (simp add: node_equal_Node)
  qed
qed

lemma node_equal_swap:
  assumes eq: "compares_equivalences nc" and S: "eval_forest nc S"
    and nodes: "Node d l r k \<in> S" "Node d r l k \<in> S" and prd: "is_product d"
    and cmp: "canonical_operand_cmp l r \<noteq> SOEqual \<or> node_equal nc l r"
  shows "node_equal nc (Node d l r k) (Node d r l k)"
proof -
  have "same_payload nc (Node d l r k) (Node d l r k)" by (rule same_payload_refl [OF eq])
  then have pay: "same_payload nc (Node d l r k) (Node d r l k)"
    by (simp add: same_payload_def)
  have lr: "l \<in> S" "r \<in> S" using S nodes(1) unfolding eval_forest_def closed_children_def by blast+
  show ?thesis
  proof (cases "canonical_operand_cmp l r = SOEqual")
    case False
    then have "canonical_pair l r = canonical_pair r l"
      by (auto simp: canonical_pair_def canonical_operand_cmp_def split: if_splits)
    then show ?thesis
      using pay prd by (auto simp: node_equal_Node operand_view_def intro: node_equal_refl [OF eq])
  next
    case True
    then have "canonical_operand_cmp r l = SOEqual"
      by (auto simp: canonical_operand_cmp_def split: if_splits)
    then show ?thesis
      using pay prd True cmp node_equal_sym [OF eq S lr] by (simp add: node_equal_Node operand_view_def canonical_pair_def)
  qed
qed

lemma node_equal_equiv:
  assumes "compares_equivalences nc" and "eval_forest nc S"
  shows "equiv S {(a, b). a \<in> S \<and> b \<in> S \<and> node_equal nc a b}"
proof (intro equivI refl_onI symI transI)
  fix a b c
  assume "(a, b) \<in> {(a, b). a \<in> S \<and> b \<in> S \<and> node_equal nc a b}" "(b, c) \<in> {(a, b). a \<in> S \<and> b \<in> S \<and> node_equal nc a b}"
  then show "(a, c) \<in> {(a, b). a \<in> S \<and> b \<in> S \<and> node_equal nc a b}"
    using node_equal_trans [OF assms, of a b c] by simp
qed (use node_equal_refl [OF assms(1)] node_equal_sym [OF assms] in auto)

text \<open>
  C8: on the nodes of an evaluation forest (closed under children, payloads as the constructors make them,
  equal payloads of one operation) with equivalences as its comparisons of expressions, tensors and graphs,
  TreeNodeEqualityComparator is an equivalence, and a contraction equals the same contraction with its
  operands emitted in the other order, unless the operands are two values that tie in canonical_operand_cmp.
\<close>

theorem node_equal_equivalence:
  assumes "compares_equivalences nc" and "eval_forest nc S"
  shows "equiv S {(a, b). a \<in> S \<and> b \<in> S \<and> node_equal nc a b}
    \<and> (\<forall>d l r k. Node d l r k \<in> S \<longrightarrow> Node d r l k \<in> S \<longrightarrow> is_product d \<longrightarrow>
         (canonical_operand_cmp l r \<noteq> SOEqual \<or> node_equal nc l r) \<longrightarrow>
         node_equal nc (Node d l r k) (Node d r l k))"
  using node_equal_equiv [OF assms] node_equal_swap [OF assms] by blast

definition sample_leaf :: "nat \<Rightarrow> 64 word \<Rightarrow> (nat, nat, nat) eval_node" where
  "sample_leaf e h = Leaf ((eval_expr_default (TensorExpr e) TensorResult)\<lparr>hash_value := h, canon_indices := [e]\<rparr>) 1"

definition sample_product :: "(nat, nat, nat) eval_node \<Rightarrow> (nat, nat, nat) eval_node \<Rightarrow> (nat, nat, nat) eval_node" where
  "sample_product l r =
     Node ((eval_expr_default (TensorExpr 0) TensorResult)\<lparr>op_type := Some ProductOp, hash_value := 9, connectivity := Some 4\<rparr>) l r 3"

lemma sample_forest:
  "eval_forest \<lparr>expr_equal = (=), block_equal = (=), graph_equal = (=)\<rparr>
     {sample_leaf 1 7, sample_leaf 2 5, sample_product (sample_leaf 1 7) (sample_leaf 2 5),
      sample_product (sample_leaf 2 5) (sample_leaf 1 7)}"
  by (simp add: eval_forest_def closed_children_def sample_leaf_def sample_product_def payload_ok_def
      eval_expr_default_def same_payload_def)

lemma node_equal_equivalence_witness:
  "node_equal \<lparr>expr_equal = (=), block_equal = (=), graph_equal = (=)\<rparr>
     (sample_product (sample_leaf 1 7) (sample_leaf 2 5)) (sample_product (sample_leaf 2 5) (sample_leaf 1 7))"
proof -
  have "canonical_operand_cmp (sample_leaf 1 7) (sample_leaf 2 5) \<noteq> SOEqual" by code_simp
  moreover have "compares_equivalences \<lparr>expr_equal = (=), block_equal = (=), graph_equal = (=)\<rparr>"
    by (simp add: compares_equivalences_def identity_equivp)
  ultimately show ?thesis
    unfolding sample_product_def
    by (intro node_equal_equivalence [OF _ sample_forest, THEN conjunct2, rule_format])
      (simp_all add: sample_product_def is_product_def)
qed

end
