(* ===== verification/CellTable.thy ===== *)
theory CellTable
  imports Prelude
begin

text \<open>
  SeQuant/core/eval/cell_table.hpp and the loop identities of eval/dag_scope.hpp: the table of value
  cells of a batched evaluation schedule, residency, the choice of the visible form of a value, read
  multiplicities, and the static validator with its five rules.  Ids and counts are natural numbers,
  taken not to exceed \<open>std::size_t\<close>; the reserved parameter \<open>root\<close> of the validator is left out.
\<close>

section \<open>Loops, scopes and cells\<close>

record loop_key =
  depth :: nat
  loop_slot :: int

record dag_scope_level =
  level_depth :: nat
  space :: string
  level_slot :: int
  altitude_ordinal :: int
  latitude_ordinal :: int

definition level_key :: "dag_scope_level \<Rightarrow> loop_key" where
  "level_key l = \<lparr>depth = level_depth l, loop_slot = level_slot l\<rparr>"

type_synonym cell_id = nat

text \<open>Enclosing loop instances outermost first, each with its latitude.\<close>

type_synonym cell_scope = "(loop_key \<times> int) list"

definition encloses :: "cell_scope \<Rightarrow> cell_scope \<Rightarrow> bool" where
  "encloses outer inner =
     (if length outer > length inner then False
      else list_all (\<lambda>i. outer ! i = inner ! i) [0..<length outer])"

definition scope_eq :: "cell_scope \<Rightarrow> cell_scope \<Rightarrow> bool" where
  "scope_eq a b \<longleftrightarrow> length a = length b \<and> encloses a b"

datatype production_kind = Build | Assemble | LeafCell

datatype assemble_kind = SumParts | Scatter

record production =
  kind :: production_kind
  assemble :: assemble_kind
  asm_source :: cell_id
  scatter_map :: "(nat \<times> loop_key) list"

record table_cell =
  value_id :: nat
  sliced :: "(nat \<times> loop_key) list"
  partial_over :: "loop_key list"
  scope :: cell_scope
  prod_of :: production
  produce_if_absent :: bool
  persistent :: bool
  life :: nat

record read =
  consumer :: cell_id
  operand_value_id :: nat
  source :: cell_id
  slice :: "(nat \<times> loop_key) list"
  invariant_on :: "loop_key list"

record cell_table =
  cells :: "table_cell list"
  reads :: "read list"
  unresolved :: "(cell_id \<times> nat) list"

record cell_violation =
  rule_name :: string
  what :: string

definition cell_str :: "cell_table \<Rightarrow> cell_id \<Rightarrow> string" where
  "cell_str t i =
     (let c = cells t ! i
      in ''cell#'' @ show_nat i @ ''(value '' @ show_nat (value_id c) @ '', scope depth ''
         @ show_nat (length (scope c)) @ '', ''
         @ (case kind (prod_of c) of Build \<Rightarrow> ''Build'' | Assemble \<Rightarrow> ''Assemble'' | LeafCell \<Rightarrow> ''Leaf'') @ '')'')"

definition same_key :: "loop_key \<Rightarrow> loop_key \<Rightarrow> bool" where
  "same_key a b \<longleftrightarrow> depth a = depth b \<and> loop_slot a = loop_slot b"

definition bound_instances :: "table_cell \<Rightarrow> loop_key list" where
  "bound_instances c = map snd (sliced c) @ partial_over c"

section \<open>Residency, visible forms and multiplicities\<close>

text \<open>The deepest position of the scope whose instance the cell is bound to.\<close>

definition deepest_bound :: "loop_key list \<Rightarrow> cell_scope \<Rightarrow> nat option" where
  "deepest_bound bi path =
     foldl (\<lambda>acc i. if list_ex (\<lambda>k. same_key k (fst (path ! i))) bi then Some i else acc) None [0..<length path]"

definition residency_scope :: "table_cell \<Rightarrow> cell_scope" where
  "residency_scope s =
     (case kind (prod_of s) of
        LeafCell \<Rightarrow> []
      | Build \<Rightarrow> scope s
      | Assemble \<Rightarrow>
          (case deepest_bound (bound_instances s) (scope s) of
             None \<Rightarrow> []
           | Some d \<Rightarrow> take (d + 1) (scope s)))"

fun deepest_form_loop :: "cell_table \<Rightarrow> cell_id list \<Rightarrow> cell_scope \<Rightarrow> cell_id option \<Rightarrow> cell_id option" where
  "deepest_form_loop t [] query best = best"
| "deepest_form_loop t (c # cs) query best =
     (let cell = cells t ! c
      in if \<not> encloses (residency_scope cell) query then deepest_form_loop t cs query best
         else deepest_form_loop t cs query
           (if best = None \<or> length (scope cell) > length (scope (cells t ! the best)) then Some c else best))"

definition deepest_visible_form :: "cell_table \<Rightarrow> cell_id list \<Rightarrow> cell_scope \<Rightarrow> cell_id option" where
  "deepest_visible_form t candidates query = deepest_form_loop t candidates query None"

text \<open>A missing batch count is one batch everywhere.\<close>

definition read_multiplicity :: "table_cell \<Rightarrow> cell_scope \<Rightarrow> (loop_key \<Rightarrow> nat) option \<Rightarrow> nat" where
  "read_multiplicity src consumer_scope n_batches_of =
     (let residency = residency_scope src
      in foldl (\<lambda>mult (pk, lat).
           if list_ex (\<lambda>(sk, slat). same_key sk pk) residency then mult
           else mult * max 1 (case n_batches_of of None \<Rightarrow> 1 | Some f \<Rightarrow> f pk)) 1 consumer_scope)"

section \<open>The validator\<close>

definition violation :: "string \<Rightarrow> string \<Rightarrow> cell_violation" where
  "violation r w = \<lparr>rule_name = r, what = w\<rparr>"

text \<open>Rule 1.  The cells are produced in order; a leaf is always there.\<close>

definition reads_of :: "cell_table \<Rightarrow> cell_id \<Rightarrow> read list" where
  "reads_of t i = filter (\<lambda>r. consumer r = i) (reads t)"

definition visibility_of :: "cell_table \<Rightarrow> bool list \<Rightarrow> cell_id \<Rightarrow> cell_violation list" where
  "visibility_of t produced i =
     concat (map (\<lambda>r.
         if produced ! source r \<and> encloses (residency_scope (cells t ! source r)) (scope (cells t ! i)) then []
         else [violation ''visibility'' (cell_str t (source r) @ '' not resident when '' @ cell_str t i @ '' is produced'')])
       (reads_of t i))
     @ (if kind (prod_of (cells t ! i)) = Assemble
           \<and> (asm_source (prod_of (cells t ! i)) \<ge> length (cells t) \<or> \<not> produced ! asm_source (prod_of (cells t ! i)))
        then [violation ''visibility'' (cell_str t i @ '' assembles a cell not produced'')] else [])"

fun visibility_loop :: "cell_table \<Rightarrow> cell_id list \<Rightarrow> bool list \<Rightarrow> cell_violation list" where
  "visibility_loop t [] produced = []"
| "visibility_loop t (i # is) produced =
     (if kind (prod_of (cells t ! i)) = LeafCell then visibility_loop t is produced
      else visibility_of t produced i @ visibility_loop t is (produced[i := True]))"

definition initially_produced :: "cell_table \<Rightarrow> bool list" where
  "initially_produced t = map (\<lambda>c. kind (prod_of c) = LeafCell) (cells t)"

text \<open>Rule 2.  What a read is bound to in the loop group of an instance.\<close>

definition read_keys :: "cell_table \<Rightarrow> read \<Rightarrow> loop_key list" where
  "read_keys t r = bound_instances (cells t ! source r) @ map snd (slice r)"

definition bound_here :: "cell_table \<Rightarrow> read \<Rightarrow> loop_key \<Rightarrow> bool" where
  "bound_here t r L = list_ex (\<lambda>k. depth k = depth L \<and> loop_slot k = loop_slot L) (read_keys t r)"

definition bound_other :: "cell_table \<Rightarrow> read \<Rightarrow> loop_key \<Rightarrow> bool" where
  "bound_other t r L = list_ex (\<lambda>k. depth k = depth L \<and> loop_slot k \<noteq> loop_slot L) (read_keys t r)"

definition invariant_here :: "read \<Rightarrow> loop_key \<Rightarrow> bool" where
  "invariant_here r L = list_ex (\<lambda>k. same_key k L) (invariant_on r)"

definition form_at :: "cell_table \<Rightarrow> cell_id \<Rightarrow> loop_key \<Rightarrow> cell_violation list" where
  "form_at t i L =
     concat (map (\<lambda>r. if bound_other t r L
         then [violation ''form'' (cell_str t (source r) @ '' bound to another instance of loop group ''
                 @ show_nat (depth L) @ '' than '' @ cell_str t i)] else []) (reads_of t i))
     @ (if list_ex (\<lambda>r. bound_here t r L) (reads_of t i)
           \<and> list_ex (\<lambda>r. \<not> bound_here t r L \<and> \<not> bound_other t r L \<and> \<not> invariant_here r L) (reads_of t i)
        then [violation ''form'' (cell_str t i @ '': one operand whole and another bound on loop group ''
                @ show_nat (depth L))] else [])"

fun form_loop :: "cell_table \<Rightarrow> cell_id \<Rightarrow> loop_key list \<Rightarrow> loop_key list \<Rightarrow> cell_violation list" where
  "form_loop t i seen [] = []"
| "form_loop t i seen (L # Ls) =
     (if list_ex (\<lambda>k. same_key k L) seen then form_loop t i seen Ls
      else form_at t i L @ form_loop t i (seen @ [L]) Ls)"

definition form_of :: "cell_table \<Rightarrow> cell_id \<Rightarrow> cell_violation list" where
  "form_of t i =
     (if kind (prod_of (cells t ! i)) \<noteq> Build then []
      else form_loop t i [] (bound_instances (cells t ! i)))"

text \<open>Rule 3.  An assembly sits above its source and closes the loop just below it.\<close>

definition scatter_violations :: "cell_table \<Rightarrow> cell_id \<Rightarrow> table_cell \<Rightarrow> cell_violation list" where
  "scatter_violations t i s =
     (let m = scatter_map (prod_of (cells t ! i))
      in concat (map (\<lambda>(pos, k).
             if list_ex (\<lambda>(sp, sk). sp = pos \<and> same_key sk k) (sliced s) then []
             else [violation ''chain'' (cell_str t i @ '' scatters position '' @ show_nat pos
                     @ '' from a source not sliced by that instance'')]) m)
         @ (if m = [] then [violation ''chain'' (cell_str t i @ '' scatters nothing: empty scatter map'')] else []))"

definition sum_violations :: "cell_table \<Rightarrow> cell_id \<Rightarrow> table_cell \<Rightarrow> cell_violation list" where
  "sum_violations t i s =
     (let at = length (scope (cells t ! i))
      in if length (scope s) > at then
           (let closing = fst (scope s ! at)
            in (if list_ex (\<lambda>k. same_key k closing) (partial_over s) then []
                else [violation ''chain'' (cell_str t i @ '' sums a source whose partial_over lacks the closing instance'')])
               @ concat (map (\<lambda>j. concat (map (\<lambda>b.
                    if same_key b (fst (scope s ! j))
                    then [violation ''chain'' (cell_str t i
                            @ '' sums a source still bound to an instance inside the one it closes'')] else [])
                  (bound_instances s))) [at + 1..<length (scope s)]))
         else [])"

definition chain_of :: "cell_table \<Rightarrow> cell_id \<Rightarrow> cell_violation list" where
  "chain_of t i =
     (let c = cells t ! i; src = asm_source (prod_of c)
      in if kind (prod_of c) \<noteq> Assemble then []
         else if src \<ge> length (cells t) then []
         else (let s = cells t ! src
               in (if encloses (scope c) (scope s) \<and> length (scope s) > length (scope c) then []
                   else [violation ''chain'' (cell_str t i @ '' does not enclose its source scope'')])
                  @ (if value_id s \<noteq> value_id c
                     then [violation ''chain'' (cell_str t i @ '' assembles a source of a different value'')] else [])
                  @ (if assemble (prod_of c) = Scatter then scatter_violations t i s
                     else if scope s \<noteq> [] then sum_violations t i s else [])))"

definition partial_reads :: "cell_table \<Rightarrow> cell_violation list" where
  "partial_reads t =
     concat (map (\<lambda>r. if partial_over (cells t ! source r) \<noteq> []
        then [violation ''chain'' (cell_str t (consumer r) @ '' reads '' @ cell_str t (source r) @ '', a partial sum'')]
        else []) (reads t))"

text \<open>Rule 4.  The declared life is what the reads and the assemblies consume.\<close>

definition consumed :: "cell_table \<Rightarrow> (loop_key \<Rightarrow> nat) option \<Rightarrow> cell_id \<Rightarrow> nat" where
  "consumed t nb i =
     foldl (\<lambda>n o'. if kind (prod_of (cells t ! o')) = Assemble \<and> asm_source (prod_of (cells t ! o')) = i
                   then n + 1 else n)
       (foldl (\<lambda>n r. if source r = i then n + read_multiplicity (cells t ! i) (scope (cells t ! consumer r)) nb else n)
          0 (reads t))
       [0..<length (cells t)]"

definition life_of :: "cell_table \<Rightarrow> (loop_key \<Rightarrow> nat) option \<Rightarrow> cell_id \<Rightarrow> cell_violation list" where
  "life_of t nb i =
     (let c = cells t ! i
      in if kind (prod_of c) = LeafCell then []
         else (if consumed t nb i \<noteq> life c
               then [violation ''life'' (cell_str t i @ '' life '' @ show_nat (life c) @ '' != reads '' @ show_nat (consumed t nb i))]
               else [])
              @ (if life c = 0 \<and> residency_scope c \<noteq> []
                 then [violation ''life'' (cell_str t i @ '' zero-read cell at a non-root scope'')] else []))"

text \<open>Rule 5.\<close>

definition uniqueness_of :: "cell_table \<Rightarrow> cell_id \<Rightarrow> cell_violation list" where
  "uniqueness_of t a =
     concat (map (\<lambda>b. let x = cells t ! a; y = cells t ! b
        in if kind (prod_of x) = Build \<and> kind (prod_of y) = Build \<and> value_id x = value_id y \<and> scope_eq (scope x) (scope y)
           then [violation ''uniqueness'' (cell_str t a @ '' and '' @ cell_str t b @ '' build one value in one scope'')]
           else []) [a + 1..<length (cells t)])"

definition validate_cell_table :: "cell_table \<Rightarrow> (loop_key \<Rightarrow> nat) option \<Rightarrow> cell_violation list" where
  "validate_cell_table t nb =
     (let n = length (cells t); ids = [0..<n]
      in if list_ex (\<lambda>r. consumer r \<ge> n \<or> source r \<ge> n) (reads t)
         then [violation ''visibility'' ''read with out-of-range cell id'']
         else visibility_loop t ids (initially_produced t)
              @ concat (map (form_of t) ids)
              @ concat (map (chain_of t) ids)
              @ partial_reads t
              @ concat (map (life_of t nb) ids)
              @ concat (map (uniqueness_of t) ids))"

text \<open>The message of the exception; nothing when the table is valid.\<close>

definition assert_valid_cell_table :: "cell_table \<Rightarrow> (loop_key \<Rightarrow> nat) option \<Rightarrow> (string, unit) result" where
  "assert_valid_cell_table t nb =
     (let v = validate_cell_table t nb
      in if v = [] then Inr ()
         else Inl (foldl (\<lambda>msg x. msg @ [CHR 0x0A] @ ''  ['' @ rule_name x @ ''] '' @ what x)
                ''cell table invalid ('' v @ show_nat (length v) @ '' violation(s)):''))"

section \<open>Scopes\<close>

lemma encloses_iff: "encloses a b \<longleftrightarrow> (\<exists>c. b = a @ c)"
proof
  assume e: "encloses a b"
  then have "take (length a) b = a"
    by (intro nth_equalityI) (auto simp: encloses_def list_all_iff split: if_splits)
  then show "\<exists>c. b = a @ c" by (metis append_take_drop_id)
qed (auto simp: encloses_def list_all_iff nth_append)

lemma scope_eq_iff: "scope_eq a b \<longleftrightarrow> a = b"
  by (auto simp: scope_eq_def encloses_iff)

lemma encloses_refl: "encloses a a"
  and encloses_trans: "encloses a b \<Longrightarrow> encloses b c \<Longrightarrow> encloses a c"
  and encloses_antisym: "encloses a b \<Longrightarrow> encloses b a \<Longrightarrow> a = b"
  and encloses_linear: "encloses a c \<Longrightarrow> encloses b c \<Longrightarrow> encloses a b \<or> encloses b a"
  by (auto simp: encloses_iff append_eq_append_conv2)

lemma same_key_iff: "same_key (a :: loop_key) b \<longleftrightarrow> a = b"
  by (cases a, cases b) (auto simp: same_key_def)

lemma deepest_bound_spec:
  "case deepest_bound bi path of
     None \<Rightarrow> \<forall>i < length path. fst (path ! i) \<notin> set bi
   | Some d \<Rightarrow> d < length path \<and> fst (path ! d) \<in> set bi \<and> (\<forall>i. d < i \<longrightarrow> i < length path \<longrightarrow> fst (path ! i) \<notin> set bi)"
proof -
  have "case foldl (\<lambda>acc i. if list_ex (\<lambda>k. same_key k (fst (path ! i))) bi then Some i else acc) None [0..<n] of
     None \<Rightarrow> \<forall>i < n. fst (path ! i) \<notin> set bi
   | Some d \<Rightarrow> d < n \<and> fst (path ! d) \<in> set bi \<and> (\<forall>i. d < i \<longrightarrow> i < n \<longrightarrow> fst (path ! i) \<notin> set bi)" for n
  proof (induction n)
    case (Suc n)
    then show ?case
      by (cases "fst (path ! n) \<in> set bi")
        (auto simp: list_ex_iff same_key_iff less_Suc_eq split: option.splits)
  qed simp
  then show ?thesis by (simp add: deepest_bound_def)
qed

lemma residency_encloses: "encloses (residency_scope c) (scope c)"
  by (auto simp: residency_scope_def encloses_iff split: production_kind.splits option.splits)
    (metis append_take_drop_id)

section \<open>What the rules say\<close>

definition is_kind :: "cell_table \<Rightarrow> cell_id \<Rightarrow> production_kind \<Rightarrow> bool" where
  "is_kind t i k \<longleftrightarrow> kind (prod_of (cells t ! i)) = k"

definition available :: "cell_table \<Rightarrow> cell_id \<Rightarrow> cell_id \<Rightarrow> bool" where
  "available t i s \<longleftrightarrow> s < length (cells t) \<and> (is_kind t s LeafCell \<or> s < i)"

definition reads_in_range :: "cell_table \<Rightarrow> bool" where
  "reads_in_range t \<longleftrightarrow> (\<forall>r \<in> set (reads t). consumer r < length (cells t) \<and> source r < length (cells t))"

definition visible_rule :: "cell_table \<Rightarrow> bool" where
  "visible_rule t \<longleftrightarrow>
     (\<forall>r \<in> set (reads t). \<not> is_kind t (consumer r) LeafCell \<longrightarrow> available t (consumer r) (source r)
        \<and> encloses (residency_scope (cells t ! source r)) (scope (cells t ! consumer r)))
     \<and> (\<forall>i < length (cells t). is_kind t i Assemble \<longrightarrow> available t i (asm_source (prod_of (cells t ! i))))"

definition form_rule :: "cell_table \<Rightarrow> bool" where
  "form_rule t \<longleftrightarrow>
     (\<forall>i < length (cells t). is_kind t i Build \<longrightarrow> (\<forall>L \<in> set (bound_instances (cells t ! i)).
        (\<forall>r \<in> set (reads_of t i). \<forall>k \<in> set (read_keys t r). depth k = depth L \<longrightarrow> k = L)
        \<and> ((\<exists>r \<in> set (reads_of t i). L \<in> set (read_keys t r)) \<longrightarrow>
           (\<forall>r \<in> set (reads_of t i). L \<in> set (read_keys t r) \<or> L \<in> set (invariant_on r)))))"

definition chain_rule :: "cell_table \<Rightarrow> bool" where
  "chain_rule t \<longleftrightarrow>
     (\<forall>i < length (cells t). is_kind t i Assemble \<longrightarrow> asm_source (prod_of (cells t ! i)) < length (cells t) \<longrightarrow>
        (let c = cells t ! i; s = cells t ! asm_source (prod_of c)
         in (\<exists>L lat below. scope s = scope c @ (L, lat) # below
              \<and> value_id s = value_id c
              \<and> (if assemble (prod_of c) = Scatter
                 then scatter_map (prod_of c) \<noteq> [] \<and> set (scatter_map (prod_of c)) \<subseteq> set (sliced s)
                 else L \<in> set (partial_over s) \<and> fst ` set below \<inter> set (bound_instances s) = {}))))"

definition life_rule :: "cell_table \<Rightarrow> (loop_key \<Rightarrow> nat) option \<Rightarrow> bool" where
  "life_rule t nb \<longleftrightarrow>
     (\<forall>i < length (cells t). \<not> is_kind t i LeafCell \<longrightarrow>
        life (cells t ! i)
          = (\<Sum>r\<leftarrow>filter (\<lambda>r. source r = i) (reads t). read_multiplicity (cells t ! i) (scope (cells t ! consumer r)) nb)
            + length (filter (\<lambda>j. is_kind t j Assemble \<and> asm_source (prod_of (cells t ! j)) = i) [0..<length (cells t)])
        \<and> (life (cells t ! i) = 0 \<longrightarrow> residency_scope (cells t ! i) = []))"

definition unique_rule :: "cell_table \<Rightarrow> bool" where
  "unique_rule t \<longleftrightarrow>
     (\<forall>b < length (cells t). \<forall>a < b. is_kind t a Build \<longrightarrow> is_kind t b Build \<longrightarrow>
        value_id (cells t ! a) = value_id (cells t ! b) \<longrightarrow> scope (cells t ! a) \<noteq> scope (cells t ! b))"

definition valid_table :: "cell_table \<Rightarrow> (loop_key \<Rightarrow> nat) option \<Rightarrow> bool" where
  "valid_table t nb \<longleftrightarrow> reads_in_range t \<and> visible_rule t \<and> form_rule t \<and> chain_rule t
     \<and> (\<forall>r \<in> set (reads t). partial_over (cells t ! source r) = []) \<and> life_rule t nb \<and> unique_rule t"

section \<open>The validator decides the rules\<close>

lemma visibility_of_Nil:
  assumes "reads_in_range t" "i < length (cells t)" "length produced = length (cells t)"
    and "\<And>j. j < length (cells t) \<Longrightarrow> produced ! j = (is_kind t j LeafCell \<or> j < i)"
  shows "visibility_of t produced i = [] \<longleftrightarrow>
     (\<forall>r \<in> set (reads_of t i). available t i (source r) \<and> encloses (residency_scope (cells t ! source r)) (scope (cells t ! i)))
     \<and> (is_kind t i Assemble \<longrightarrow> available t i (asm_source (prod_of (cells t ! i))))"
proof -
  have src: "source r < length (cells t)" if "r \<in> set (reads_of t i)" for r
    using assms(1) that by (auto simp: reads_in_range_def reads_of_def)
  have reads: "(\<forall>r \<in> set (reads_of t i). produced ! source r \<and> encloses (residency_scope (cells t ! source r)) (scope (cells t ! i)))
     \<longleftrightarrow> (\<forall>r \<in> set (reads_of t i). available t i (source r) \<and> encloses (residency_scope (cells t ! source r)) (scope (cells t ! i)))"
    using src assms(4) by (auto simp: available_def)
  have asm: "\<not> (is_kind t i Assemble \<and> (a \<ge> length (cells t) \<or> \<not> produced ! a)) \<longleftrightarrow> (is_kind t i Assemble \<longrightarrow> available t i a)" for a
    using assms(4) by (cases "a < length (cells t)") (auto simp: available_def)
  show ?thesis
    unfolding reads [symmetric] asm [symmetric]
    by (auto simp: visibility_of_def is_kind_def concat_eq_Nil_conv split: if_splits)
qed

lemma all_from_Suc: "(\<forall>i. k \<le> i \<longrightarrow> Q i) \<longleftrightarrow> Q k \<and> (\<forall>i. Suc k \<le> i \<longrightarrow> Q i)" for k :: nat
  by (metis Suc_le_eq le_eq_less_or_eq)

lemma concat_upt_Nil: "concat (map f [0..<n]) = [] \<longleftrightarrow> (\<forall>i < n. f i = [])"
  by (auto simp: concat_eq_Nil_conv)

lemma visibility_loop_Nil:
  assumes "reads_in_range t" "k \<le> length (cells t)" "length produced = length (cells t)"
    and "\<And>j. j < length (cells t) \<Longrightarrow> produced ! j = (is_kind t j LeafCell \<or> j < k)"
  shows "visibility_loop t [k..<length (cells t)] produced = [] \<longleftrightarrow>
     (\<forall>i. k \<le> i \<longrightarrow> i < length (cells t) \<longrightarrow> \<not> is_kind t i LeafCell \<longrightarrow>
       (\<forall>r \<in> set (reads_of t i). available t i (source r) \<and> encloses (residency_scope (cells t ! source r)) (scope (cells t ! i)))
       \<and> (is_kind t i Assemble \<longrightarrow> available t i (asm_source (prod_of (cells t ! i)))))"
  using assms(2-4)
proof (induction "length (cells t) - k" arbitrary: k produced)
  case 0
  then show ?case by auto
next
  case (Suc m)
  let ?n = "length (cells t)"
  let ?P = "\<lambda>i. \<not> is_kind t i LeafCell \<longrightarrow>
       (\<forall>r \<in> set (reads_of t i). available t i (source r) \<and> encloses (residency_scope (cells t ! source r)) (scope (cells t ! i)))
       \<and> (is_kind t i Assemble \<longrightarrow> available t i (asm_source (prod_of (cells t ! i))))"
  have k: "k < ?n" and m: "m = ?n - Suc k" using Suc.hyps(2) by auto
  have upt: "[k..<?n] = k # [Suc k..<?n]" using k by (rule upt_conv_Cons)
  have split: "(\<forall>i. k \<le> i \<longrightarrow> i < ?n \<longrightarrow> ?P i) \<longleftrightarrow> ?P k \<and> (\<forall>i. Suc k \<le> i \<longrightarrow> i < ?n \<longrightarrow> ?P i)"
    by (subst all_from_Suc) (use k in blast)
  show ?case
  proof (cases "is_kind t k LeafCell")
    case True
    have "produced ! j = (is_kind t j LeafCell \<or> j < Suc k)" if "j < ?n" for j
      using Suc.prems(3) [OF that] True by (auto simp: less_Suc_eq)
    from Suc.hyps(1) [OF m _ Suc.prems(2) this] k have
      "visibility_loop t [Suc k..<?n] produced = [] \<longleftrightarrow> (\<forall>i. Suc k \<le> i \<longrightarrow> i < ?n \<longrightarrow> ?P i)" by simp
    then show ?thesis unfolding upt split using True by (simp add: is_kind_def)
  next
    case False
    let ?p = "produced[k := True]"
    have "?p ! j = (is_kind t j LeafCell \<or> j < Suc k)" if "j < ?n" for j
      using Suc.prems(2) Suc.prems(3) [OF that] that by (cases "j = k") (auto simp: less_Suc_eq)
    from Suc.hyps(1) [OF m _ _ this] k Suc.prems(2) have
      "visibility_loop t [Suc k..<?n] ?p = [] \<longleftrightarrow> (\<forall>i. Suc k \<le> i \<longrightarrow> i < ?n \<longrightarrow> ?P i)" by simp
    moreover have "visibility_of t produced k = [] \<longleftrightarrow> ?P k"
      using visibility_of_Nil [OF assms(1) k Suc.prems(2,3)] False by simp
    ultimately show ?thesis unfolding upt split using False by (simp add: is_kind_def)
  qed
qed

lemma visible_rule_iff:
  assumes "reads_in_range t"
  shows "visibility_loop t [0..<length (cells t)] (initially_produced t) = [] \<longleftrightarrow> visible_rule t"
proof -
  have "visibility_loop t [0..<length (cells t)] (initially_produced t) = [] \<longleftrightarrow>
     (\<forall>i < length (cells t). \<not> is_kind t i LeafCell \<longrightarrow>
       (\<forall>r \<in> set (reads_of t i). available t i (source r) \<and> encloses (residency_scope (cells t ! source r)) (scope (cells t ! i)))
       \<and> (is_kind t i Assemble \<longrightarrow> available t i (asm_source (prod_of (cells t ! i)))))"
    using visibility_loop_Nil [of t 0 "initially_produced t"] assms
    by (simp add: initially_produced_def is_kind_def)
  also have "\<dots> \<longleftrightarrow> visible_rule t"
    using assms unfolding visible_rule_def reads_in_range_def reads_of_def
    by (auto simp: is_kind_def)
  finally show ?thesis .
qed

lemma form_at_Nil:
  "form_at t i L = [] \<longleftrightarrow>
     (\<forall>r \<in> set (reads_of t i). \<forall>k \<in> set (read_keys t r). depth k = depth L \<longrightarrow> k = L)
     \<and> ((\<exists>r \<in> set (reads_of t i). L \<in> set (read_keys t r)) \<longrightarrow>
        (\<forall>r \<in> set (reads_of t i). L \<in> set (read_keys t r) \<or> L \<in> set (invariant_on r)))"
proof -
  have eq: "depth k = depth L \<and> loop_slot k = loop_slot L \<longleftrightarrow> k = L" for k :: loop_key by (cases k, cases L) auto
  have here: "bound_here t r L \<longleftrightarrow> L \<in> set (read_keys t r)" for r by (auto simp: bound_here_def list_ex_iff eq)
  have other: "bound_other t r L \<longleftrightarrow> (\<exists>k \<in> set (read_keys t r). depth k = depth L \<and> k \<noteq> L)" for r
    using eq by (auto simp: bound_other_def list_ex_iff)
  have inv: "invariant_here r L \<longleftrightarrow> L \<in> set (invariant_on r)" for r by (auto simp: invariant_here_def list_ex_iff same_key_iff)
  have "form_at t i L = [] \<longleftrightarrow> (\<forall>r \<in> set (reads_of t i). \<not> bound_other t r L)
      \<and> \<not> ((\<exists>r \<in> set (reads_of t i). bound_here t r L)
         \<and> (\<exists>r \<in> set (reads_of t i). \<not> bound_here t r L \<and> \<not> bound_other t r L \<and> \<not> invariant_here r L))"
    by (auto simp: form_at_def list_ex_iff concat_eq_Nil_conv split: if_splits)
  then show ?thesis unfolding here other inv by blast
qed

lemma form_loop_Nil:
  "(\<And>L. L \<in> set seen \<Longrightarrow> form_at t i L = []) \<Longrightarrow>
   form_loop t i seen Ls = [] \<longleftrightarrow> (\<forall>L \<in> set Ls. form_at t i L = [])"
proof (induction Ls arbitrary: seen)
  case (Cons L Ls)
  show ?case
  proof (cases "L \<in> set seen")
    case True
    then have "list_ex (\<lambda>k. same_key k L) seen" by (auto simp: list_ex_iff same_key_iff)
    with Cons True show ?thesis by simp
  next
    case False
    then have "\<not> list_ex (\<lambda>k. same_key k L) seen" by (auto simp: list_ex_iff same_key_iff)
    moreover have "form_at t i L = [] \<Longrightarrow> form_loop t i (seen @ [L]) Ls = [] \<longleftrightarrow> (\<forall>L \<in> set Ls. form_at t i L = [])"
      using Cons.IH [of "seen @ [L]"] Cons.prems by auto
    ultimately show ?thesis by auto
  qed
qed simp

lemma form_rule_iff: "concat (map (form_of t) [0..<length (cells t)]) = [] \<longleftrightarrow> form_rule t"
proof -
  have "form_of t i = [] \<longleftrightarrow> (is_kind t i Build \<longrightarrow> (\<forall>L \<in> set (bound_instances (cells t ! i)). form_at t i L = []))" for i
    using form_loop_Nil [of "[]" t i "bound_instances (cells t ! i)"] by (simp add: form_of_def is_kind_def)
  then show ?thesis by (simp only: concat_upt_Nil form_rule_def form_at_Nil)
qed

lemma chain_of_Nil:
  assumes "is_kind t i Assemble" "asm_source (prod_of (cells t ! i)) < length (cells t)"
  shows "chain_of t i = [] \<longleftrightarrow>
     (let c = cells t ! i; s = cells t ! asm_source (prod_of c)
      in (\<exists>L lat below. scope s = scope c @ (L, lat) # below
           \<and> value_id s = value_id c
           \<and> (if assemble (prod_of c) = Scatter
              then scatter_map (prod_of c) \<noteq> [] \<and> set (scatter_map (prod_of c)) \<subseteq> set (sliced s)
              else L \<in> set (partial_over s) \<and> fst ` set below \<inter> set (bound_instances s) = {})))"
proof -
  define c where "c = cells t ! i"
  define s where "s = cells t ! asm_source (prod_of c)"
  have src: "\<not> length (cells t) \<le> asm_source (prod_of c)" "kind (prod_of c) = Assemble"
    using assms by (auto simp: c_def is_kind_def)
  have nest: "encloses (scope c) (scope s) \<and> length (scope s) > length (scope c)
      \<longleftrightarrow> (\<exists>L lat below. scope s = scope c @ (L, lat) # below)"
    by (auto simp: encloses_iff) (metis append_Nil2 list.exhaust prod.exhaust less_irrefl)
  have scat: "scatter_violations t i s = [] \<longleftrightarrow>
      scatter_map (prod_of c) \<noteq> [] \<and> set (scatter_map (prod_of c)) \<subseteq> set (sliced s)"
  proof -
    have mem: "list_ex (\<lambda>(sp, sk). sp = pos \<and> same_key sk k) (sliced s) \<longleftrightarrow> (pos, k) \<in> set (sliced s)" for pos k
      by (auto simp: list_ex_iff same_key_iff)
    show ?thesis by (auto simp: scatter_violations_def Let_def c_def [symmetric] mem split: if_splits)
  qed
  have sum: "sum_violations t i s = [] \<longleftrightarrow>
      L \<in> set (partial_over s) \<and> fst ` set below \<inter> set (bound_instances s) = {}"
    if sc: "scope s = scope c @ (L, lat) # below" for L lat below
  proof -
    let ?at = "length (scope c)"
    have closing: "fst (scope s ! ?at) = L" by (simp add: sc)
    have tail: "(\<forall>j \<in> {?at + 1..<length (scope s)}. \<forall>b \<in> set (bound_instances s). \<not> same_key b (fst (scope s ! j)))
        \<longleftrightarrow> fst ` set below \<inter> set (bound_instances s) = {}"
    proof -
      have all_tail: "(\<forall>j \<in> {?at + 1..<length (scope s)}. Q (scope s ! j)) \<longleftrightarrow> (\<forall>x \<in> set below. Q x)" for Q
      proof
        assume Q: "\<forall>j \<in> {?at + 1..<length (scope s)}. Q (scope s ! j)"
        show "\<forall>x \<in> set below. Q x"
        proof
          fix x assume "x \<in> set below"
          then obtain m where "m < length below" "x = below ! m" by (auto simp: in_set_conv_nth)
          with Q show "Q x" using Q [rule_format, of "?at + 1 + m"] by (simp add: sc nth_append)
        qed
      next
        assume Q: "\<forall>x \<in> set below. Q x"
        show "\<forall>j \<in> {?at + 1..<length (scope s)}. Q (scope s ! j)"
        proof
          fix j assume j: "j \<in> {?at + 1..<length (scope s)}"
          then have "scope s ! j = below ! (j - ?at - 1)" "j - ?at - 1 < length below" by (auto simp: sc nth_append)
          with Q show "Q (scope s ! j)" by simp
        qed
      qed
      show ?thesis
        unfolding all_tail [of "\<lambda>x. \<forall>b \<in> set (bound_instances s). \<not> same_key b (fst x)"]
        by (auto simp: same_key_iff)
    qed
    have "sum_violations t i s = [] \<longleftrightarrow> L \<in> set (partial_over s)
        \<and> (\<forall>j \<in> {?at + 1..<length (scope s)}. \<forall>b \<in> set (bound_instances s). \<not> same_key b (fst (scope s ! j)))"
      using sc closing
      by (auto simp: sum_violations_def Let_def c_def [symmetric] list_ex_iff same_key_iff concat_eq_Nil_conv split: if_splits)
    then show ?thesis unfolding tail .
  qed
  have "chain_of t i = [] \<longleftrightarrow> (encloses (scope c) (scope s) \<and> length (scope s) > length (scope c))
      \<and> value_id s = value_id c
      \<and> (if assemble (prod_of c) = Scatter then scatter_violations t i s = [] else scope s \<noteq> [] \<longrightarrow> sum_violations t i s = [])"
    using src by (cases "encloses (scope c) (scope s) \<and> length (scope s) > length (scope c)")
      (auto simp: chain_of_def Let_def c_def [symmetric] s_def [symmetric])
  also have "\<dots> \<longleftrightarrow> (\<exists>L lat below. scope s = scope c @ (L, lat) # below \<and> value_id s = value_id c
        \<and> (if assemble (prod_of c) = Scatter
              then scatter_map (prod_of c) \<noteq> [] \<and> set (scatter_map (prod_of c)) \<subseteq> set (sliced s)
              else L \<in> set (partial_over s) \<and> fst ` set below \<inter> set (bound_instances s) = {}))"
    unfolding nest scat using sum by (cases "assemble (prod_of c) = Scatter") auto
  finally show ?thesis by (simp add: Let_def c_def s_def)
qed

lemma chain_rule_iff: "concat (map (chain_of t) [0..<length (cells t)]) = [] \<longleftrightarrow> chain_rule t"
proof -
  have "chain_of t i = []"
    if "\<not> (is_kind t i Assemble \<and> asm_source (prod_of (cells t ! i)) < length (cells t))" for i
    using that by (auto simp: chain_of_def Let_def is_kind_def)
  then show ?thesis unfolding concat_upt_Nil chain_rule_def using chain_of_Nil [of t] by blast
qed

lemma consumed_eq:
  "consumed t nb i =
     (\<Sum>r\<leftarrow>filter (\<lambda>r. source r = i) (reads t). read_multiplicity (cells t ! i) (scope (cells t ! consumer r)) nb)
     + length (filter (\<lambda>j. is_kind t j Assemble \<and> asm_source (prod_of (cells t ! j)) = i) [0..<length (cells t)])"
proof -
  have cnt: "foldl (\<lambda>n j. if Q j then n + 1 else n) a js = a + length (filter Q js)" for Q :: "nat \<Rightarrow> bool" and a :: nat and js
    by (induction js arbitrary: a) auto
  have sum: "foldl (\<lambda>n r. if source r = i then n + m r else n) a rs = a + (\<Sum>r\<leftarrow>filter (\<lambda>r. source r = i) rs. m r)"
    for m :: "read \<Rightarrow> nat" and a rs
    by (induction rs arbitrary: a) auto
  show ?thesis unfolding consumed_def cnt sum is_kind_def by simp
qed

lemma life_rule_iff: "concat (map (life_of t nb) [0..<length (cells t)]) = [] \<longleftrightarrow> life_rule t nb"
proof -
  have "life_of t nb i = [] \<longleftrightarrow> (\<not> is_kind t i LeafCell \<longrightarrow>
        life (cells t ! i) = consumed t nb i \<and> (life (cells t ! i) = 0 \<longrightarrow> residency_scope (cells t ! i) = []))" for i
    by (auto simp: life_of_def Let_def is_kind_def split: if_splits)
  then show ?thesis by (simp only: concat_upt_Nil life_rule_def consumed_eq)
qed

lemma unique_rule_iff: "concat (map (uniqueness_of t) [0..<length (cells t)]) = [] \<longleftrightarrow> unique_rule t"
proof -
  define Q where "Q a b \<longleftrightarrow> is_kind t a Build \<and> is_kind t b Build
    \<and> value_id (cells t ! a) = value_id (cells t ! b) \<and> scope (cells t ! a) = scope (cells t ! b)" for a b
  have "uniqueness_of t a = [] \<longleftrightarrow> (\<forall>b. a < b \<longrightarrow> b < length (cells t) \<longrightarrow> \<not> Q a b)" for a
  proof -
    have range: "(\<forall>b \<in> {a + 1..<n}. P b) \<longleftrightarrow> (\<forall>b. a < b \<longrightarrow> b < n \<longrightarrow> P b)" for P n by auto
    have nil: "(if P then [x] else []) = [] \<longleftrightarrow> \<not> P" for P and x :: cell_violation by simp
    show ?thesis
      by (simp only: uniqueness_of_def Let_def scope_eq_iff concat_eq_Nil_conv set_map set_upt ball_simps nil
          Q_def is_kind_def range)
  qed
  then have "concat (map (uniqueness_of t) [0..<length (cells t)]) = []
      \<longleftrightarrow> (\<forall>a < length (cells t). \<forall>b. a < b \<longrightarrow> b < length (cells t) \<longrightarrow> \<not> Q a b)"
    by (simp only: concat_upt_Nil)
  also have "\<dots> \<longleftrightarrow> (\<forall>b < length (cells t). \<forall>a < b. \<not> Q a b)"
  proof (intro iffI allI impI)
    fix a b assume all: "\<forall>a < length (cells t). \<forall>b. a < b \<longrightarrow> b < length (cells t) \<longrightarrow> \<not> Q a b"
      and b: "b < length (cells t)" "a < b"
    then have "a < length (cells t)" by simp
    with all b show "\<not> Q a b" by simp
  qed simp
  also have "\<dots> \<longleftrightarrow> unique_rule t" unfolding unique_rule_def Q_def by blast
  finally show ?thesis .
qed

lemma validate_iff: "validate_cell_table t nb = [] \<longleftrightarrow> valid_table t nb"
proof -
  have range: "list_ex (\<lambda>r. consumer r \<ge> length (cells t) \<or> source r \<ge> length (cells t)) (reads t) \<longleftrightarrow> \<not> reads_in_range t"
    by (auto simp: list_ex_iff reads_in_range_def not_less)
  have part: "partial_reads t = [] \<longleftrightarrow> (\<forall>r \<in> set (reads t). partial_over (cells t ! source r) = [])"
    by (auto simp: partial_reads_def concat_eq_Nil_conv split: if_splits)
  show ?thesis
  proof (cases "reads_in_range t")
    case True
    then show ?thesis
      unfolding validate_cell_table_def valid_table_def Let_def range
      by (simp only: append_is_Nil_conv visible_rule_iff [OF True] form_rule_iff chain_rule_iff part life_rule_iff unique_rule_iff
          if_False not_True_eq_False simp_thms)
  next
    case False
    then show ?thesis by (simp add: validate_cell_table_def valid_table_def range)
  qed
qed

section \<open>Forms and multiplicities\<close>

lemma deepest_form_loop_spec:
  fixes t :: cell_table
  defines "dpt c \<equiv> length (scope (cells t ! c))"
    and "vis q c \<equiv> encloses (residency_scope (cells t ! c)) q"
  assumes "deepest_form_loop t cs q best = res"
  shows "(res = None \<longleftrightarrow> best = None \<and> (\<forall>c \<in> set cs. \<not> vis q c))
    \<and> (\<forall>b. res = Some b \<longrightarrow>
         (best = Some b \<and> (\<forall>c \<in> set cs. vis q c \<longrightarrow> dpt c \<le> dpt b))
         \<or> (\<exists>ps ss. cs = ps @ b # ss \<and> vis q b \<and> (\<forall>a. best = Some a \<longrightarrow> dpt a < dpt b)
              \<and> (\<forall>c \<in> set ps. vis q c \<longrightarrow> dpt c < dpt b) \<and> (\<forall>c \<in> set ss. vis q c \<longrightarrow> dpt c \<le> dpt b)))"
  using assms(3)
proof (induction cs arbitrary: best)
  case Nil
  then show ?case by simp
next
  case (Cons c cs)
  show ?case
  proof (cases "vis q c \<and> (best = None \<or> dpt c > dpt (the best))")
    case True
    then have "deepest_form_loop t cs q (Some c) = res" using Cons.prems by (simp add: vis_def dpt_def)
    note IH = Cons.IH [OF this]
    show ?thesis
    proof (intro conjI allI impI)
      show "res = None \<longleftrightarrow> best = None \<and> (\<forall>c \<in> set (c # cs). \<not> vis q c)" using IH True by auto
      fix b assume "res = Some b"
      with IH consider "c = b" "\<forall>c \<in> set cs. vis q c \<longrightarrow> dpt c \<le> dpt b"
        | ps ss where "cs = ps @ b # ss" "vis q b" "dpt c < dpt b"
            "\<forall>c \<in> set ps. vis q c \<longrightarrow> dpt c < dpt b" "\<forall>c \<in> set ss. vis q c \<longrightarrow> dpt c \<le> dpt b" by blast
      then have "\<exists>ps ss. c # cs = ps @ b # ss \<and> vis q b \<and> (\<forall>a. best = Some a \<longrightarrow> dpt a < dpt b)
              \<and> (\<forall>c \<in> set ps. vis q c \<longrightarrow> dpt c < dpt b) \<and> (\<forall>c \<in> set ss. vis q c \<longrightarrow> dpt c \<le> dpt b)"
      proof cases
        case 1
        with True show ?thesis by (intro exI [of _ "[]"] exI [of _ cs]) auto
      next
        case 2
        with True show ?thesis by (intro exI [of _ "c # ps"] exI [of _ ss]) auto
      qed
      then show "(best = Some b \<and> (\<forall>c \<in> set (c # cs). vis q c \<longrightarrow> dpt c \<le> dpt b))
         \<or> (\<exists>ps ss. c # cs = ps @ b # ss \<and> vis q b \<and> (\<forall>a. best = Some a \<longrightarrow> dpt a < dpt b)
              \<and> (\<forall>c \<in> set ps. vis q c \<longrightarrow> dpt c < dpt b) \<and> (\<forall>c \<in> set ss. vis q c \<longrightarrow> dpt c \<le> dpt b))" by blast
    qed
  next
    case False
    then have rec: "deepest_form_loop t cs q best = res" 
      using Cons.prems by (cases best) (simp_all add: vis_def dpt_def Let_def split: if_splits)
    note IH = Cons.IH [OF rec]
    show ?thesis
    proof (intro conjI allI impI)
      show "res = None \<longleftrightarrow> best = None \<and> (\<forall>c \<in> set (c # cs). \<not> vis q c)" using IH False by auto
      fix b assume "res = Some b"
      with IH consider "best = Some b" "\<forall>c \<in> set cs. vis q c \<longrightarrow> dpt c \<le> dpt b"
        | ps ss where "cs = ps @ b # ss" "vis q b" "\<forall>a. best = Some a \<longrightarrow> dpt a < dpt b"
            "\<forall>c \<in> set ps. vis q c \<longrightarrow> dpt c < dpt b" "\<forall>c \<in> set ss. vis q c \<longrightarrow> dpt c \<le> dpt b" by blast
      then show "(best = Some b \<and> (\<forall>c \<in> set (c # cs). vis q c \<longrightarrow> dpt c \<le> dpt b))
         \<or> (\<exists>ps ss. c # cs = ps @ b # ss \<and> vis q b \<and> (\<forall>a. best = Some a \<longrightarrow> dpt a < dpt b)
              \<and> (\<forall>c \<in> set ps. vis q c \<longrightarrow> dpt c < dpt b) \<and> (\<forall>c \<in> set ss. vis q c \<longrightarrow> dpt c \<le> dpt b))"
      proof cases
        case 1
        with False show ?thesis by (auto simp: not_less)
      next
        case 2
        have "vis q c \<longrightarrow> dpt c < dpt b" using False 2(3) by (cases best) (auto simp: not_less)
        with 2 have "c # cs = (c # ps) @ b # ss \<and> vis q b \<and> (\<forall>a. best = Some a \<longrightarrow> dpt a < dpt b)
              \<and> (\<forall>c \<in> set (c # ps). vis q c \<longrightarrow> dpt c < dpt b) \<and> (\<forall>c \<in> set ss. vis q c \<longrightarrow> dpt c \<le> dpt b)" by auto
        then show ?thesis by blast
      qed
    qed
  qed
qed

lemma build_form_unique:
  assumes "unique_rule t" "a < length (cells t)" "b < length (cells t)" "is_kind t a Build" "is_kind t b Build"
    and "value_id (cells t ! a) = value_id (cells t ! b)" "length (scope (cells t ! a)) = length (scope (cells t ! b))"
    and "encloses (residency_scope (cells t ! a)) q" "encloses (residency_scope (cells t ! b)) q"
  shows "a = b"
proof -
  have "encloses (scope (cells t ! a)) q" "encloses (scope (cells t ! b)) q"
    using assms(4,5,8,9) by (auto simp: residency_scope_def is_kind_def)
  then have "scope (cells t ! a) = scope (cells t ! b)"
    using assms(7) encloses_linear by (auto simp: encloses_iff)
  with assms show ?thesis
    unfolding unique_rule_def by (metis linorder_neqE_nat)
qed

lemma read_multiplicity_visible:
  assumes "encloses (residency_scope s) q" "distinct (map fst q)"
  shows "read_multiplicity s q nb
    = prod_list (map (\<lambda>(k, lat). max 1 (case nb of None \<Rightarrow> 1 | Some f \<Rightarrow> f k)) (drop (length (residency_scope s)) q))"
proof -
  let ?r = "residency_scope s" and ?m = "\<lambda>k. max 1 (case nb of None \<Rightarrow> 1 | Some f \<Rightarrow> f k)"
  obtain c where q: "q = ?r @ c" using assms(1) by (auto simp: encloses_iff)
  have mem: "list_ex (\<lambda>(sk, slat). same_key sk pk) ?r \<longleftrightarrow> pk \<in> fst ` set ?r" for pk
    by (force simp: list_ex_iff same_key_iff)
  have stay: "foldl (\<lambda>mult (pk, lat). if pk \<in> fst ` set ?r then mult else mult * ?m pk) a xs = a"
    if "fst ` set xs \<subseteq> fst ` set ?r" for a xs
    using that by (induction xs arbitrary: a) (force simp: image_iff)+
  have go: "foldl (\<lambda>mult (pk, lat). if pk \<in> fst ` set ?r then mult else mult * ?m pk) a xs
      = a * prod_list (map (\<lambda>(k, lat). ?m k) xs)" if "fst ` set xs \<inter> fst ` set ?r = {}" for a xs
    using that by (induction xs arbitrary: a) (auto simp: mult.assoc)
  have "fst ` set c \<inter> fst ` set ?r = {}" using assms(2) unfolding q by auto
  then show ?thesis
    unfolding read_multiplicity_def Let_def mem q foldl_append using stay [of ?r] go [of c] by simp
qed

lemma violation_rules:
  "v \<in> set (validate_cell_table t nb) \<Longrightarrow>
   rule_name v \<in> {''visibility'', ''form'', ''chain'', ''life'', ''uniqueness''}"
proof -
  have vis: "v \<in> set (visibility_loop t ks p) \<Longrightarrow> rule_name v = ''visibility''" for ks p
    by (induction t ks p rule: visibility_loop.induct)
      (auto simp: visibility_of_def violation_def split: if_splits)
  have form: "v \<in> set (form_loop t i seen Ls) \<Longrightarrow> rule_name v = ''form''" for i seen Ls
    by (induction t i seen Ls rule: form_loop.induct) (auto simp: form_at_def violation_def split: if_splits)
  assume "v \<in> set (validate_cell_table t nb)"
  then consider "rule_name v = ''visibility''" | i where "v \<in> set (form_of t i)" | i where "v \<in> set (chain_of t i)"
    | "v \<in> set (partial_reads t)" | i where "v \<in> set (life_of t nb i)" | i where "v \<in> set (uniqueness_of t i)"
    by (auto simp: validate_cell_table_def Let_def violation_def dest: vis split: if_splits)
  then show ?thesis
  proof cases
    case 2
    then show ?thesis using form by (auto simp: form_of_def split: if_splits)
  next
    case 3
    then show ?thesis
      by (auto simp: chain_of_def scatter_violations_def sum_violations_def violation_def Let_def split: if_splits)
  next
    case 4
    then show ?thesis by (auto simp: partial_reads_def violation_def split: if_splits)
  next
    case 5
    then show ?thesis by (auto simp: life_of_def violation_def Let_def split: if_splits)
  next
    case 6
    then show ?thesis by (auto simp: uniqueness_of_def violation_def Let_def split: if_splits)
  qed simp
qed

section \<open>Properties\<close>

text \<open>
  Without batch counts every loop has one batch; rule 4 is then still decided, although the documentation of
  \<open>assert_valid_cell_table\<close> says that it is skipped.
\<close>

lemma no_counts_one_batch: "validate_cell_table t None = validate_cell_table t (Some (\<lambda>_. 1))"
proof -
  have "read_multiplicity c s None = read_multiplicity c s (Some (\<lambda>_. 1))" for c s
    by (simp add: read_multiplicity_def cong: if_cong option.case_cong)
  then have "consumed t None i = consumed t (Some (\<lambda>_. 1)) i" for i by (simp add: consumed_def cong: if_cong)
  then have "life_of t None i = life_of t (Some (\<lambda>_. 1)) i" for i by (simp add: life_of_def cong: if_cong)
  then have "life_of t None = life_of t (Some (\<lambda>_. 1))" by blast
  then show ?thesis unfolding validate_cell_table_def Let_def by (simp only:)
qed

lemma life_checked_without_counts:
  "map rule_name (validate_cell_table
      \<lparr>cells = [\<lparr>value_id = 1, sliced = [], partial_over = [], scope = [],
          prod_of = \<lparr>kind = Build, assemble = SumParts, asm_source = 0, scatter_map = []\<rparr>,
          produce_if_absent = False, persistent = False, life = 5\<rparr>], reads = [], unresolved = []\<rparr> None) = [''life'']"
  by code_simp

text \<open>
  A build bound to no loop is resident in its own scope only, although the comment on rule 1 counts a whole cell
  as resident at the root: a reader outside that scope makes the table invalid.
\<close>

lemma whole_build_not_resident_at_root:
  "let loop = \<lparr>depth = 0, loop_slot = 0\<rparr>; build = \<lparr>kind = Build, assemble = SumParts, asm_source = 0, scatter_map = []\<rparr>;
       whole = \<lparr>value_id = 1, sliced = [], partial_over = [], scope = [(loop, 0)], prod_of = build,
         produce_if_absent = False, persistent = False, life = 1\<rparr>;
       reader = \<lparr>value_id = 2, sliced = [], partial_over = [], scope = [], prod_of = build,
         produce_if_absent = False, persistent = False, life = 0\<rparr>
   in bound_instances whole = []
      \<and> map rule_name (validate_cell_table
           \<lparr>cells = [whole, reader],
            reads = [\<lparr>consumer = 1, operand_value_id = 1, source = 0, slice = [], invariant_on = []\<rparr>], unresolved = []\<rparr> None) = [''visibility'']"
  by code_simp

text \<open>C7: The validator, as it is implemented, decides the five rules: it reports nothing exactly on the tables in
  which every read and assembly uses an available source that is resident at the reader (a leaf everywhere, a
  build in its own scope, an assembly up to the innermost loop it is bound to), the operands of a build agree on
  every loop instance it is bound to, assemblies sit directly above complete sources of their own value, no
  partial sum is read, every produced cell's life is the number of its uses, and no value is built twice in a
  scope.  The block tree \<open>root\<close> is not consulted, and without batch counts the lives are checked with one batch
  per loop.  Every report names one of the rules, and \<open>assert_valid_cell_table\<close> throws exactly on the other
  tables.\<close>
theorem validator_decides_rules:
  "(validate_cell_table t nb = [] \<longleftrightarrow> valid_table t nb)
   \<and> (assert_valid_cell_table t nb = Inr () \<longleftrightarrow> valid_table t nb)
   \<and> rule_name ` set (validate_cell_table t nb) \<subseteq> {''visibility'', ''form'', ''chain'', ''life'', ''uniqueness''}
   \<and> (validate_cell_table t None = [] \<longleftrightarrow> valid_table t (Some (\<lambda>_. 1)))"
  using validate_iff [of t nb] validate_iff [of t "Some (\<lambda>_. 1)"] violation_rules [of _ t nb]
  by (auto simp: assert_valid_cell_table_def Let_def no_counts_one_batch)

definition depends :: "cell_table \<Rightarrow> (cell_id \<times> cell_id) set" where
  "depends t = {(s, i). i < length (cells t) \<and> \<not> is_kind t i LeafCell
     \<and> ((\<exists>r \<in> set (reads t). consumer r = i \<and> source r = s)
        \<or> (is_kind t i Assemble \<and> asm_source (prod_of (cells t ! i)) = s))}"

text \<open>C23: A table the validator accepts can be evaluated in its order of cells: what a cell depends on, by a
  read or an assembly, is a leaf or an earlier cell, so the dependencies are acyclic; and a read by a
  produced cell whose enclosing loops are distinct is charged once per batch of each loop between the
  scope where its source is resident and the reader.\<close>
theorem valid_table_evaluable:
  assumes "validate_cell_table t nb = []"
  shows "acyclic (depends t)
    \<and> (\<forall>(s, i) \<in> depends t. s < length (cells t) \<and> (is_kind t s LeafCell \<or> s < i))
    \<and> (\<forall>r \<in> set (reads t). \<not> is_kind t (consumer r) LeafCell \<longrightarrow>
         partial_over (cells t ! source r) = []
         \<and> (distinct (map fst (scope (cells t ! consumer r))) \<longrightarrow>
            read_multiplicity (cells t ! source r) (scope (cells t ! consumer r)) nb
              = prod_list (map (\<lambda>(k, lat). max 1 (case nb of None \<Rightarrow> 1 | Some f \<Rightarrow> f k))
                  (drop (length (residency_scope (cells t ! source r))) (scope (cells t ! consumer r))))))"
proof -
  have v: "reads_in_range t" "visible_rule t" "\<forall>r \<in> set (reads t). partial_over (cells t ! source r) = []"
    using assms validate_iff [of t nb] by (auto simp: valid_table_def)
  have dep: "available t i s" if "(s, i) \<in> depends t" for s i
    using v(2) that by (auto simp: depends_def visible_rule_def)
  have "depends t \<subseteq> measure (\<lambda>i. if is_kind t i LeafCell then 0 else Suc i)"
  proof (intro subrelI)
    fix s i assume si: "(s, i) \<in> depends t"
    then have "\<not> is_kind t i LeafCell" by (simp add: depends_def)
    with dep [OF si] show "(s, i) \<in> measure (\<lambda>i. if is_kind t i LeafCell then 0 else Suc i)"
      by (auto simp: available_def)
  qed
  then have "acyclic (depends t)" by (rule acyclic_subset [OF wf_acyclic [OF wf_measure]])
  moreover have "\<forall>(s, i) \<in> depends t. s < length (cells t) \<and> (is_kind t s LeafCell \<or> s < i)"
    using dep by (auto simp: available_def)
  moreover have "encloses (residency_scope (cells t ! source r)) (scope (cells t ! consumer r))"
    if "r \<in> set (reads t)" "\<not> is_kind t (consumer r) LeafCell" for r
    using v(2) that by (simp add: visible_rule_def)
  ultimately show ?thesis using v(3) read_multiplicity_visible by blast
qed

definition sample_loop :: loop_key where
  "sample_loop = \<lparr>depth = 0, loop_slot = 0\<rparr>"

text \<open>A leaf, a sliced build in a loop of three batches, and the assembly of its partial sums at the root.\<close>

definition sample_table :: cell_table where
  "sample_table =
     \<lparr>cells =
        [\<lparr>value_id = 1, sliced = [], partial_over = [], scope = [], prod_of = \<lparr>kind = LeafCell, assemble = SumParts, asm_source = 0, scatter_map = []\<rparr>,
           produce_if_absent = False, persistent = False, life = 0\<rparr>,
         \<lparr>value_id = 2, sliced = [], partial_over = [sample_loop], scope = [(sample_loop, 0)],
           prod_of = \<lparr>kind = Build, assemble = SumParts, asm_source = 0, scatter_map = []\<rparr>,
           produce_if_absent = False, persistent = False, life = 1\<rparr>,
         \<lparr>value_id = 2, sliced = [], partial_over = [], scope = [], prod_of = \<lparr>kind = Assemble, assemble = SumParts, asm_source = 1, scatter_map = []\<rparr>,
           produce_if_absent = False, persistent = False, life = 0\<rparr>],
      reads = [\<lparr>consumer = 1, operand_value_id = 1, source = 0, slice = [(0, sample_loop)], invariant_on = []\<rparr>],
      unresolved = []\<rparr>"

theorem valid_table_evaluable_witness:
  "validate_cell_table sample_table (Some (\<lambda>_. 3)) = [] \<and> acyclic (depends sample_table)
   \<and> read_multiplicity (cells sample_table ! 0) (scope (cells sample_table ! 1)) (Some (\<lambda>_. 3)) = 3"
proof -
  have "validate_cell_table sample_table (Some (\<lambda>_. 3)) = []" by code_simp
  moreover have "read_multiplicity (cells sample_table ! 0) (scope (cells sample_table ! 1)) (Some (\<lambda>_. 3)) = 3" by code_simp
  ultimately show ?thesis using valid_table_evaluable [of sample_table "Some (\<lambda>_. 3)"] by blast
qed

text \<open>\<open>deepest_visible_form\<close> returns the first of the deepest candidates whose residency encloses the query,
  and nothing exactly when no candidate is resident there; on a table the validator accepts, the choice
  among builds of one value does not depend on the order of the candidates.\<close>
theorem deepest_visible_form_correct:
  "(deepest_visible_form t cs q = None \<longleftrightarrow> (\<forall>c \<in> set cs. \<not> encloses (residency_scope (cells t ! c)) q))
   \<and> (\<forall>b. deepest_visible_form t cs q = Some b \<longrightarrow>
        (\<exists>ps ss. cs = ps @ b # ss \<and> encloses (residency_scope (cells t ! b)) q
          \<and> (\<forall>c \<in> set ps. encloses (residency_scope (cells t ! c)) q \<longrightarrow> length (scope (cells t ! c)) < length (scope (cells t ! b)))
          \<and> (\<forall>c \<in> set ss. encloses (residency_scope (cells t ! c)) q \<longrightarrow> length (scope (cells t ! c)) \<le> length (scope (cells t ! b)))))
   \<and> (validate_cell_table t nb = [] \<longrightarrow> set cs = set cs' \<longrightarrow>
        (\<forall>c \<in> set cs. c < length (cells t) \<and> is_kind t c Build \<and> value_id (cells t ! c) = v) \<longrightarrow>
        deepest_visible_form t cs q = deepest_visible_form t cs' q)"
proof -
  let ?vis = "\<lambda>c. encloses (residency_scope (cells t ! c)) q" and ?dpt = "\<lambda>c. length (scope (cells t ! c))"
  have none: "deepest_visible_form t cs q = None \<longleftrightarrow> (\<forall>c \<in> set cs. \<not> ?vis c)" for cs
    using deepest_form_loop_spec [of t cs q None] by (simp add: deepest_visible_form_def)
  have some: "\<exists>ps ss. cs = ps @ b # ss \<and> ?vis b \<and> (\<forall>c \<in> set ps. ?vis c \<longrightarrow> ?dpt c < ?dpt b) \<and> (\<forall>c \<in> set ss. ?vis c \<longrightarrow> ?dpt c \<le> ?dpt b)"
    if "deepest_visible_form t cs q = Some b" for cs b
    using deepest_form_loop_spec [of t cs q None "Some b"] that by (simp add: deepest_visible_form_def)
  have best: "b \<in> set cs" "?vis b" "\<forall>c \<in> set cs. ?vis c \<longrightarrow> ?dpt c \<le> ?dpt b"
    if "deepest_visible_form t cs q = Some b" for cs b
    using some [OF that] by (fastforce intro: less_imp_le)+
  have order: "deepest_visible_form t cs q = deepest_visible_form t cs' q"
    if valid: "validate_cell_table t nb = []" and eq: "set cs = set cs'"
      and build: "\<forall>c \<in> set cs. c < length (cells t) \<and> is_kind t c Build \<and> value_id (cells t ! c) = v"
  proof (cases "deepest_visible_form t cs q")
    case None
    then have "deepest_visible_form t cs' q = None" using none [of cs] none [of cs'] eq by simp
    with None show ?thesis by simp
  next
    case (Some a)
    then obtain b where b: "deepest_visible_form t cs' q = Some b" using none [of cs] none [of cs'] eq by fastforce
    have u: "unique_rule t" using valid validate_iff [of t nb] by (simp add: valid_table_def)
    note A = best [OF Some] and B = best [OF b]
    have ab: "a \<in> set cs" "b \<in> set cs" using A(1) B(1) eq by simp_all
    have "?dpt a \<le> ?dpt b" using B(3) A(1,2) eq by simp
    moreover have "?dpt b \<le> ?dpt a" using A(3) B(1,2) eq by simp
    ultimately have "?dpt a = ?dpt b" by simp
    then have "a = b"
      using build_form_unique [OF u, of a b q] build [rule_format, OF ab(1)] build [rule_format, OF ab(2)] A(2) B(2)
      by simp
    with Some b show ?thesis by simp
  qed
  show ?thesis
  proof (intro conjI allI impI)
    show "deepest_visible_form t cs q = None \<longleftrightarrow> (\<forall>c \<in> set cs. \<not> ?vis c)" by (rule none)
  qed (use some order in simp_all)
qed

theorem deepest_visible_form_correct_witness:
  "deepest_visible_form sample_table [2, 1, 0] [(sample_loop, 0)] = Some 1
   \<and> deepest_visible_form sample_table [1] [] = None"
proof -
  have "deepest_visible_form sample_table [2, 1, 0] [(sample_loop, 0)] = Some 1" by code_simp
  moreover have "\<not> encloses (residency_scope (cells sample_table ! 1)) []" by code_simp
  ultimately show ?thesis using deepest_visible_form_correct [of sample_table "[1]" "[]"] by simp
qed

end
