(* ===== verification/LifetimeMask.thy ===== *)
theory LifetimeMask
  imports EvalExprs CellTable Sorting
begin

text \<open>
  SeQuant/core/eval/lifetime_mask.hpp and eval/slicing_signature.hpp: the residency masks of the
  evaluation nodes of a forest (the meet over the occurrences of a value), the home of every single
  occurrence, the value keys, and the slicing signatures.  The structural comparison of nodes and the hash combination are parameters.  An
  occurrence is the number of its tree and its path in it.
\<close>

definition lifetime_mask_intersect :: "'i list \<Rightarrow> 'i list \<Rightarrow> 'i list" where
  "lifetime_mask_intersect acc other = filter (\<lambda>ix. ix \<in> set other) acc"

definition slot_modes_of :: "('i, 'e, 'g) eval_node \<Rightarrow> 'i list" where
  "slot_modes_of n = canon_indices (data_of n)"

section \<open>The cross-occurrence meet\<close>

type_synonym occurrence = "nat \<times> bool list"

text \<open>
  A frame of the walk is an occurrence, its node and the loops opened above it.  The map from nodes to
  meets is the list of its entries in the order of insertion, an entry's position being the pointer to it.
\<close>

type_synonym ('i, 'e, 'g) walk_frame = "occurrence \<times> ('i, 'e, 'g) eval_node \<times> 'i list"
type_synonym ('i, 'e, 'g) meet_map = "(('i, 'e, 'g) eval_node \<times> 'i list) list"
type_synonym ('i, 'e, 'g) walk_state = "('i, 'e, 'g) meet_map \<times> (occurrence \<times> nat) list"

fun meet_find :: "(('i, 'e, 'g) eval_node \<Rightarrow> ('i, 'e, 'g) eval_node \<Rightarrow> bool) \<Rightarrow> ('i, 'e, 'g) meet_map \<Rightarrow> ('i, 'e, 'g) eval_node \<Rightarrow> nat option" where
  "meet_find same [] n = None"
| "meet_find same ((m, _) # es) n = (if same m n then Some 0 else map_option Suc (meet_find same es n))"

definition node_modes :: "('i, 'e, 'g) eval_node \<Rightarrow> 'i list \<Rightarrow> 'i list" where
  "node_modes n acc = filter (\<lambda>m. m \<in> set (slot_modes_of n)) acc"

text \<open>The contribution of one internal occurrence.\<close>

definition meet_update ::
    "(('i, 'e, 'g) eval_node \<Rightarrow> ('i, 'e, 'g) eval_node \<Rightarrow> bool) \<Rightarrow> occurrence \<Rightarrow> ('i, 'e, 'g) eval_node \<Rightarrow> 'i list \<Rightarrow> ('i, 'e, 'g) walk_state \<Rightarrow> ('i, 'e, 'g) walk_state" where
  "meet_update same oc n modes st =
     (let (meet, occ) = st
      in case meet_find same meet n of
           None \<Rightarrow> (meet @ [(n, modes)], occ @ [(oc, length meet)])
         | Some k \<Rightarrow>
             (meet[k := (fst (meet ! k), lifetime_mask_intersect (snd (meet ! k)) modes)], occ @ [(oc, k)]))"

fun tree_nodes :: "'a node \<Rightarrow> nat" where
  "tree_nodes (Leaf d n) = 1"
| "tree_nodes (Node d l r n) = 1 + tree_nodes l + tree_nodes r"

lemma tree_nodes_pos [simp]: "0 < tree_nodes t"
  by (cases t) auto

text \<open>The explicit stack, its top at the head: the right child is pushed before the left one.\<close>

function meet_walk ::
    "(('i, 'e, 'g) eval_node \<Rightarrow> ('i, 'e, 'g) eval_node \<Rightarrow> bool) \<Rightarrow> ('i, 'e, 'g) walk_frame list \<Rightarrow> ('i, 'e, 'g) walk_state \<Rightarrow> ('i, 'e, 'g) walk_state" where
  "meet_walk same [] st = st"
| "meet_walk same ((oc, Leaf d k, acc) # stack) st = meet_walk same stack st"
| "meet_walk same ((oc, Node d l r k, acc) # stack) st =
     (let acc' = acc @ map fst (batch_loops_opened_here d)
      in meet_walk same
           (((fst oc, snd oc @ [False]), l, acc') # ((fst oc, snd oc @ [True]), r, acc') # stack)
           (meet_update same oc (Node d l r k) (node_modes (Node d l r k) acc') st))"
  by pat_completeness auto
termination
  by (relation "measure (\<lambda>(same, stack, st). sum_list (map (\<lambda>(oc, n, acc). tree_nodes n) stack))") auto

fun walk_forest ::
    "(('i, 'e, 'g) eval_node \<Rightarrow> ('i, 'e, 'g) eval_node \<Rightarrow> bool) \<Rightarrow> nat \<Rightarrow> ('i, 'e, 'g) eval_node list \<Rightarrow> ('i, 'e, 'g) walk_state \<Rightarrow> ('i, 'e, 'g) walk_state" where
  "walk_forest same k [] st = st"
| "walk_forest same k (t # ts) st = walk_forest same (Suc k) ts (meet_walk same [((k, []), t, [])] st)"

text \<open>The second pass: the stamps in the order in which they are set.\<close>

definition stamp_lifetime_masks :: "(('i, 'e, 'g) eval_node \<Rightarrow> ('i, 'e, 'g) eval_node \<Rightarrow> bool) \<Rightarrow> ('i, 'e, 'g) eval_node list \<Rightarrow> (occurrence \<times> 'i list) list" where
  "stamp_lifetime_masks same forest =
     (let (meet, occ) = walk_forest same 0 forest ([], [])
      in map (\<lambda>(oc, k). (oc, snd (meet ! k))) occ)"

section \<open>The home of every occurrence\<close>

function home_walk :: "('i, 'e, 'g) walk_frame list \<Rightarrow> (occurrence \<times> 'i list) list \<Rightarrow> (occurrence \<times> 'i list) list" where
  "home_walk [] out = out"
| "home_walk ((oc, Leaf d k, acc) # stack) out = home_walk stack out"
| "home_walk ((oc, Node d l r k, acc) # stack) out =
     (let acc' = acc @ map fst (batch_loops_opened_here d)
      in home_walk (((fst oc, snd oc @ [False]), l, acc') # ((fst oc, snd oc @ [True]), r, acc') # stack)
           (out @ [(oc, node_modes (Node d l r k) acc')]))"
  by pat_completeness auto
termination
  by (relation "measure (\<lambda>(stack, out). sum_list (map (\<lambda>(oc, n, acc). tree_nodes n) stack))") auto

fun stamp_occurrence_homes_from :: "nat \<Rightarrow> ('i, 'e, 'g) eval_node list \<Rightarrow> (occurrence \<times> 'i list) list \<Rightarrow> (occurrence \<times> 'i list) list" where
  "stamp_occurrence_homes_from k [] out = out"
| "stamp_occurrence_homes_from k (t # ts) out = stamp_occurrence_homes_from (Suc k) ts (home_walk [((k, []), t, [])] out)"

definition stamp_occurrence_homes :: "('i, 'e, 'g) eval_node list \<Rightarrow> (occurrence \<times> 'i list) list" where
  "stamp_occurrence_homes forest = stamp_occurrence_homes_from 0 forest []"

section \<open>What the walks compute\<close>

text \<open>The internal occurrences of a subtree in preorder, each with its own modes.\<close>

fun local_occurrences :: "occurrence \<Rightarrow> ('i, 'e, 'g) eval_node \<Rightarrow> 'i list \<Rightarrow> (occurrence \<times> ('i, 'e, 'g) eval_node \<times> 'i list) list" where
  "local_occurrences oc (Leaf d k) acc = []"
| "local_occurrences oc (Node d l r k) acc =
     (let acc' = acc @ map fst (batch_loops_opened_here d)
      in (oc, Node d l r k, node_modes (Node d l r k) acc')
         # local_occurrences (fst oc, snd oc @ [False]) l acc' @ local_occurrences (fst oc, snd oc @ [True]) r acc')"

fun forest_occurrences :: "nat \<Rightarrow> ('i, 'e, 'g) eval_node list \<Rightarrow> (occurrence \<times> ('i, 'e, 'g) eval_node \<times> 'i list) list" where
  "forest_occurrences k [] = []"
| "forest_occurrences k (t # ts) = local_occurrences (k, []) t [] @ forest_occurrences (Suc k) ts"

abbreviation frame_occurrences :: "('i, 'e, 'g) walk_frame list \<Rightarrow> (occurrence \<times> ('i, 'e, 'g) eval_node \<times> 'i list) list" where
  "frame_occurrences stack \<equiv> concat (map (\<lambda>(oc, n, acc). local_occurrences oc n acc) stack)"

abbreviation fold_meets where
  "fold_meets same L st \<equiv> foldl (\<lambda>st (oc, n, ms). meet_update same oc n ms st) st L"

lemma meet_walk_fold: "meet_walk same stack st = fold_meets same (frame_occurrences stack) st"
  by (induction same stack st rule: meet_walk.induct) (simp_all add: Let_def)

lemma walk_forest_fold: "walk_forest same k ts st = fold_meets same (forest_occurrences k ts) st"
  by (induction k ts arbitrary: st rule: forest_occurrences.induct) (simp_all add: meet_walk_fold)

lemma home_walk_fold: "home_walk stack out = out @ map (\<lambda>(oc, n, ms). (oc, ms)) (frame_occurrences stack)"
  by (induction stack out rule: home_walk.induct) (simp_all add: Let_def)

lemma stamp_homes_from:
  "stamp_occurrence_homes_from k ts out = out @ map (\<lambda>(oc, n, ms). (oc, ms)) (forest_occurrences k ts)"
  by (induction k ts arbitrary: out rule: forest_occurrences.induct) (simp_all add: home_walk_fold)

lemma meet_find_bound: "meet_find same es n = Some k \<Longrightarrow> k < length es \<and> same (fst (es ! k)) n"
  by (induction same es n arbitrary: k rule: meet_find.induct) (auto split: if_splits)

lemma meet_find_append:
  "meet_find same (es @ [(n, ms)]) x =
     (case meet_find same es x of Some k \<Rightarrow> Some k | None \<Rightarrow> if same n x then Some (length es) else None)"
  by (induction same es x rule: meet_find.induct) (auto split: option.splits)

lemma meet_find_keys: "map fst es = map fst es' \<Longrightarrow> meet_find same es n = meet_find same es' n"
proof (induction same es n arbitrary: es' rule: meet_find.induct)
  case (2 same m a es n)
  then show ?case by (cases es') auto
qed simp

lemma meet_find_same:
  assumes "equivp same" "same x y"
  shows "meet_find same es x = meet_find same es y"
proof (induction es)
  case (Cons e es)
  have "same (fst e) x = same (fst e) y"
    using assms by (metis equivp_symp equivp_transp)
  with Cons show ?case by (cases e) simp
qed simp

lemma meet_find_class:
  assumes "equivp same" "meet_find same es x = Some k" "meet_find same es y = Some k"
  shows "same x y"
  using meet_find_bound [OF assms(2)] meet_find_bound [OF assms(3)] assms(1)
  by (metis equivp_symp equivp_transp)

text \<open>The meet of a value over a list of occurrences: the modes of its first occurrence that all the others have.\<close>

definition class_modes where
  "class_modes same L n = map (\<lambda>(oc, n', ms). ms) (filter (\<lambda>(oc, n', ms). same n n') L)"

definition class_meet where
  "class_meet same L n = filter (\<lambda>m. \<forall>ms\<in>set (class_modes same L n). m \<in> set ms) (hd (class_modes same L n))"

lemma class_modes_snoc [simp]:
  "class_modes same (L @ [(oc, n', ms)]) n = class_modes same L n @ (if same n n' then [ms] else [])"
  by (simp add: class_modes_def)

lemma class_modes_same:
  "equivp same \<Longrightarrow> same x y \<Longrightarrow> class_modes same L x = class_modes same L y"
  unfolding class_modes_def by (metis (no_types) equivp_def)

definition meets_ok where
  "meets_ok same L meet occ \<longleftrightarrow>
     occ = map (\<lambda>(oc, n, ms). (oc, the (meet_find same meet n))) L \<and>
     (\<forall>x. if class_modes same L x = [] then meet_find same meet x = None
          else \<exists>k. meet_find same meet x = Some k \<and> snd (meet ! k) = class_meet same L x)"

lemma class_meet_snoc:
  assumes "class_modes same L x \<noteq> []" "same x n"
  shows "class_meet same (L @ [(oc, n, ms)]) x = lifetime_mask_intersect (class_meet same L x) ms"
  using assms by (auto simp: class_meet_def lifetime_mask_intersect_def filter_filter intro: filter_cong)

lemma class_meet_cong: "class_modes same L x = class_modes same L' y \<Longrightarrow> class_meet same L x = class_meet same L' y"
  by (simp add: class_meet_def)

lemma occurrence_order_keys:
  assumes "map fst meet' = map fst meet"
  shows "map (\<lambda>(oc, n, ms). (oc, the (meet_find same meet' n))) L = map (\<lambda>(oc, n, ms). (oc, the (meet_find same meet n))) L"
  using meet_find_keys [OF assms] by simp

lemma meets_ok_new:
  assumes eq: "equivp same" and ok: "meets_ok same L meet occ" and none: "meet_find same meet n = None"
  shows "meets_ok same (L @ [(oc, n, ms)]) (meet @ [(n, ms)]) (occ @ [(oc, length meet)])"
proof -
  have ne: "class_modes same L n = []"
    using ok none by (auto simp: meets_ok_def split: if_splits dest: spec [of _ n])
  have seen: "meet_find same meet n' \<noteq> None" if "(oc', n', ms') \<in> set L" for oc' n' ms'
  proof -
    have "ms' \<in> set (class_modes same L n')"
      using that equivp_reflp [OF eq, of n'] by (force simp: class_modes_def)
    then show ?thesis
      using ok [unfolded meets_ok_def, THEN conjunct2, rule_format, of n'] by (auto split: if_splits)
  qed
  have "the (meet_find same (meet @ [(n, ms)]) n') = the (meet_find same meet n')" if "(oc', n', ms') \<in> set L" for oc' n' ms'
    using seen [OF that] by (auto simp: meet_find_append split: option.splits)
  then have occ: "occ @ [(oc, length meet)] = map (\<lambda>(oc, n', ms'). (oc, the (meet_find same (meet @ [(n, ms)]) n'))) (L @ [(oc, n, ms)])"
    using ok [unfolded meets_ok_def, THEN conjunct1] none equivp_reflp [OF eq, of n]
    by (auto simp: meet_find_append [of same meet n ms n])
  have "if class_modes same (L @ [(oc, n, ms)]) x = [] then meet_find same (meet @ [(n, ms)]) x = None
          else \<exists>k. meet_find same (meet @ [(n, ms)]) x = Some k \<and> snd ((meet @ [(n, ms)]) ! k) = class_meet same (L @ [(oc, n, ms)]) x" for x
  proof (cases "same x n")
    case True
    then have "same n x" using eq by (rule equivp_symp [rotated])
    moreover have "class_modes same L x = []" "meet_find same meet x = None"
      using class_modes_same [OF eq True, of L] meet_find_same [OF eq True, of meet] ne none by auto
    ultimately show ?thesis
      using True by (auto simp: meet_find_append class_meet_def)
  next
    case False
    then have "\<not> same n x" using eq by (meson equivp_symp)
    moreover have "class_meet same (L @ [(oc, n, ms)]) x = class_meet same L x"
      using False by (intro class_meet_cong) simp
    ultimately show ?thesis
      using False ok [unfolded meets_ok_def, THEN conjunct2, rule_format, of x] meet_find_bound [of same meet x]
      by (cases "meet_find same meet x") (auto simp: meet_find_append nth_append split: if_splits)
  qed
  with occ show ?thesis by (simp add: meets_ok_def)
qed

lemma meets_ok_known:
  assumes eq: "equivp same" and ok: "meets_ok same L meet occ" and some: "meet_find same meet n = Some k"
  shows "meets_ok same (L @ [(oc, n, ms)])
           (meet[k := (fst (meet ! k), lifetime_mask_intersect (snd (meet ! k)) ms)]) (occ @ [(oc, k)])"
proof -
  let ?meet = "meet[k := (fst (meet ! k), lifetime_mask_intersect (snd (meet ! k)) ms)]"
  have k: "k < length meet" using meet_find_bound [OF some] by simp
  have keys: "map fst ?meet = map fst meet"
    using k by (simp add: map_update list_update_same_conv)
  have find: "meet_find same ?meet x = meet_find same meet x" for x
    by (rule meet_find_keys [OF keys])
  have occ: "occ @ [(oc, k)] = map (\<lambda>(oc, n', ms'). (oc, the (meet_find same ?meet n'))) (L @ [(oc, n, ms)])"
    using ok some by (simp add: meets_ok_def find)
  have "if class_modes same (L @ [(oc, n, ms)]) x = [] then meet_find same ?meet x = None
          else \<exists>j. meet_find same ?meet x = Some j \<and> snd (?meet ! j) = class_meet same (L @ [(oc, n, ms)]) x" for x
  proof (cases "same x n")
    case True
    have fx: "meet_find same meet x = Some k" using meet_find_same [OF eq True] some by simp
    then have "class_modes same L x \<noteq> []" "snd (meet ! k) = class_meet same L x"
      using ok [unfolded meets_ok_def, THEN conjunct2, rule_format, of x] by (auto split: if_splits)
    then show ?thesis
      using True fx k find [of x] by (simp add: class_meet_snoc)
  next
    case False
    have "meet_find same meet x \<noteq> Some k" using meet_find_class [OF eq _ some] False by blast
    moreover have "class_meet same (L @ [(oc, n, ms)]) x = class_meet same L x"
      using False by (intro class_meet_cong) simp
    ultimately show ?thesis
      using False ok [unfolded meets_ok_def, THEN conjunct2, rule_format, of x]
      by (auto simp: find split: if_splits)
  qed
  with occ show ?thesis by (simp add: meets_ok_def)
qed

lemma fold_meets_ok:
  assumes "equivp same"
  shows "case fold_meets same L ([], []) of (meet, occ) \<Rightarrow> meets_ok same L meet occ"
proof (induction L rule: rev_induct)
  case Nil
  show ?case by (simp add: meets_ok_def class_modes_def)
next
  case (snoc e L)
  obtain meet occ where st: "fold_meets same L ([], []) = (meet, occ)" by fastforce
  obtain oc n ms where e: "e = (oc, n, ms)" by (cases e)
  from snoc st have ok: "meets_ok same L meet occ" by simp
  have "fold_meets same (L @ [e]) ([], []) = meet_update same oc n ms (meet, occ)"
    by (simp add: st e)
  moreover have "case meet_update same oc n ms (meet, occ) of (meet', occ') \<Rightarrow> meets_ok same (L @ [(oc, n, ms)]) meet' occ'"
    using meets_ok_new [OF assms ok, of n oc ms] meets_ok_known [OF assms ok, of n _ oc ms]
    by (cases "meet_find same meet n") (simp_all add: meet_update_def)
  ultimately show ?case
    by (simp add: e)
qed

lemma meets_ok_stamp:
  assumes eq: "equivp same" and ok: "meets_ok same L meet occ"
  shows "map (\<lambda>(oc, k). (oc, snd (meet ! k))) occ = map (\<lambda>(oc, n, ms). (oc, class_meet same L n)) L"
proof -
  have "snd (meet ! the (meet_find same meet n)) = class_meet same L n" if "(oc, n, ms) \<in> set L" for oc n ms
  proof -
    have "class_modes same L n \<noteq> []"
      using that equivp_reflp [OF eq, of n] by (force simp: class_modes_def filter_empty_conv)
    then show ?thesis
      using ok [unfolded meets_ok_def, THEN conjunct2, rule_format, of n] by auto
  qed
  then show ?thesis using ok by (auto simp: meets_ok_def)
qed

lemma stamp_meet_equivp:
  assumes "equivp same"
  shows "stamp_lifetime_masks same forest =
           map (\<lambda>(oc, n, ms). (oc, class_meet same (forest_occurrences 0 forest) n)) (forest_occurrences 0 forest)"
  using fold_meets_ok [OF assms, of "forest_occurrences 0 forest"] meets_ok_stamp [OF assms]
  by (simp add: stamp_lifetime_masks_def walk_forest_fold split: prod.splits)

text \<open>Only the comparisons of nodes of the forest matter.\<close>

definition on_set :: "'n set \<Rightarrow> ('n \<Rightarrow> 'n \<Rightarrow> bool) \<Rightarrow> 'n \<Rightarrow> 'n \<Rightarrow> bool" where
  "on_set S same x y \<longleftrightarrow> x = y \<or> x \<in> S \<and> y \<in> S \<and> same x y"

lemma on_set_equivp:
  assumes "equiv S {(a, b). a \<in> S \<and> b \<in> S \<and> same a b}"
  shows "equivp (on_set S same)"
proof (rule equivpI)
  show "reflp (on_set S same)" by (simp add: on_set_def reflp_def)
  show "symp (on_set S same)"
    using assms unfolding equiv_def sym_def symp_def on_set_def by blast
  show "transp (on_set S same)"
    using assms unfolding equiv_def trans_def transp_def on_set_def by blast
qed

lemma on_set_same:
  assumes "equiv S {(a, b). a \<in> S \<and> b \<in> S \<and> same a b}" "x \<in> S" "y \<in> S"
  shows "on_set S same x y = same x y"
  using assms unfolding equiv_def refl_on_def on_set_def by blast

lemma meet_find_cong:
  "\<forall>m\<in>fst ` set es. same m n = same' m n \<Longrightarrow> meet_find same es n = meet_find same' es n"
  by (induction es) auto

lemma fold_meets_cong:
  assumes "\<And>x y. x \<in> S \<Longrightarrow> y \<in> S \<Longrightarrow> same x y = same' x y"
  shows "\<forall>(oc, n, ms)\<in>set L. n \<in> S \<Longrightarrow>
    fold_meets same L ([], []) = fold_meets same' L ([], []) \<and> fst ` set (fst (fold_meets same L ([], []))) \<subseteq> S"
proof (induction L rule: rev_induct)
  case (snoc e L)
  obtain oc n ms where e: "e = (oc, n, ms)" by (cases e)
  obtain meet occ where st: "fold_meets same L ([], []) = (meet, occ)" by fastforce
  have IH: "fold_meets same' L ([], []) = (meet, occ)" "fst ` set meet \<subseteq> S" "n \<in> S"
    using snoc st e by auto
  have find: "meet_find same meet n = meet_find same' meet n"
    using IH(2,3) assms by (intro meet_find_cong) blast
  have "fst ` set (fst (meet_update same oc n ms (meet, occ))) \<subseteq> S"
  proof (cases "meet_find same meet n")
    case None
    then show ?thesis using IH by (simp add: meet_update_def)
  next
    case (Some k)
    then have "fst (meet ! k) \<in> S" using meet_find_bound [OF Some] IH(2) by (auto simp: subset_iff)
    then show ?thesis using Some IH(2) set_update_subset_insert [of meet k] by (fastforce simp: meet_update_def)
  qed
  moreover have "meet_update same oc n ms (meet, occ) = meet_update same' oc n ms (meet, occ)"
    by (simp add: meet_update_def find)
  moreover have "fold_meets same (L @ [e]) ([], []) = meet_update same oc n ms (meet, occ)"
    "fold_meets same' (L @ [e]) ([], []) = meet_update same' oc n ms (meet, occ)"
    by (simp_all add: st IH(1) e)
  ultimately show ?case by simp
qed simp

lemma class_meet_same_on:
  assumes "\<And>x y. x \<in> S \<Longrightarrow> y \<in> S \<Longrightarrow> same x y = same' x y" "\<forall>(oc, n, ms)\<in>set L. n \<in> S" "n \<in> S"
  shows "class_meet same L n = class_meet same' L n"
proof -
  have "filter (\<lambda>(oc, n', ms). same n n') L = filter (\<lambda>(oc, n', ms). same' n n') L"
    using assms by (intro filter_cong) auto
  then show ?thesis by (simp add: class_meet_def class_modes_def)
qed

lemma stamp_meet_on:
  assumes eq: "equiv S {(a, b). a \<in> S \<and> b \<in> S \<and> same a b}"
    and mem: "\<forall>(oc, n, ms)\<in>set (forest_occurrences 0 forest). n \<in> S"
  shows "stamp_lifetime_masks same forest =
           map (\<lambda>(oc, n, ms). (oc, class_meet same (forest_occurrences 0 forest) n)) (forest_occurrences 0 forest)"
proof -
  note agree = on_set_same [OF eq, symmetric]
  have "stamp_lifetime_masks same forest = stamp_lifetime_masks (on_set S same) forest"
    using fold_meets_cong [OF agree mem] by (simp add: stamp_lifetime_masks_def walk_forest_fold)
  also have "\<dots> = map (\<lambda>(oc, n, ms). (oc, class_meet (on_set S same) (forest_occurrences 0 forest) n)) (forest_occurrences 0 forest)"
    by (rule stamp_meet_equivp [OF on_set_equivp [OF eq]])
  also have "\<dots> = map (\<lambda>(oc, n, ms). (oc, class_meet same (forest_occurrences 0 forest) n)) (forest_occurrences 0 forest)"
    using mem class_meet_same_on [OF agree mem] by (intro map_cong) auto
  finally show ?thesis .
qed

lemma local_occurrences_closed:
  "closed_children S \<Longrightarrow> t \<in> S \<Longrightarrow> (oc', n, ms) \<in> set (local_occurrences oc t acc) \<Longrightarrow> n \<in> S"
proof (induction oc t acc rule: local_occurrences.induct)
  case (2 oc d l r k acc)
  then have "l \<in> S" "r \<in> S" unfolding closed_children_def by blast+
  with 2 show ?case by (auto simp: Let_def)
qed simp

lemma forest_occurrences_closed:
  "closed_children S \<Longrightarrow> set ts \<subseteq> S \<Longrightarrow> (oc, n, ms) \<in> set (forest_occurrences k ts) \<Longrightarrow> n \<in> S"
  by (induction k ts rule: forest_occurrences.induct) (auto dest: local_occurrences_closed)

lemma stamp_meet_nodes:
  assumes "compares_equivalences nc" and "eval_forest nc S" and "set forest \<subseteq> S"
  shows "stamp_lifetime_masks (node_equal nc) forest =
           map (\<lambda>(oc, n, ms). (oc, class_meet (node_equal nc) (forest_occurrences 0 forest) n))
             (forest_occurrences 0 forest)"
proof (rule stamp_meet_on)
  show "equiv S {(a, b). a \<in> S \<and> b \<in> S \<and> node_equal nc a b}"
    by (rule node_equal_equiv [OF assms(1,2)])
  show "\<forall>(oc, n, ms)\<in>set (forest_occurrences 0 forest). n \<in> S"
    using assms forest_occurrences_closed [of S forest] by (auto simp: eval_forest_def)
qed

text \<open>
  C24: with the comparator of evaluation nodes as the identity of values, stamp_lifetime_masks stamps every
  internal occurrence of the forest exactly once, in preorder, and stamps on it the meet of its value: the
  modes, in the order of the first occurrence of the value, that every occurrence of the value in the whole
  forest has among the loops opened at or above it and carries on a slot of its own.
\<close>

theorem stamp_lifetime_masks_meet:
  assumes "compares_equivalences nc" and "eval_forest nc S" and "set forest \<subseteq> S"
  shows "stamp_lifetime_masks (node_equal nc) forest =
           map (\<lambda>(oc, n, ms). (oc, class_meet (node_equal nc) (forest_occurrences 0 forest) n))
             (forest_occurrences 0 forest)"
  using assms by (rule stamp_meet_nodes)

definition witness_tree :: "nat list \<Rightarrow> nat list \<Rightarrow> (nat, nat, nat) eval_node" where
  "witness_tree opened inner =
     (let payload = \<lambda>ix open. (eval_expr_default (TensorExpr 0) TensorResult)
            \<lparr>canon_indices := ix, batch_loops_opened_here := map (\<lambda>i. (i, External)) open\<rparr>
      in Node (payload [7, 8] opened) (Node (payload [5, 6] inner) (Leaf (payload [5] []) 1) (Leaf (payload [6] []) 1) 3)
           (Leaf (payload [9] []) 1) 5)"

lemma witness_forest:
  "eval_forest nc {n :: (nat, nat, nat) eval_node. \<forall>x\<in>set (node_list n). payload_ok x \<and> op_type x = None}"
proof -
  have "data_of n \<in> set (node_list n)" for n :: "(nat, nat, nat) eval_node"
    by (cases n) auto
  then show ?thesis
    by (simp add: eval_forest_def closed_children_def)
qed

lemma stamp_lifetime_masks_meet_witness:
  "stamp_lifetime_masks (node_equal \<lparr>expr_equal = (=), block_equal = (=), graph_equal = (=)\<rparr>)
     [witness_tree [7] [5, 6], witness_tree [6, 8, 7] []] =
     [((0, []), [7]), ((0, [False]), [6]), ((1, []), [7]), ((1, [False]), [6])]"
proof -
  let ?nc = "\<lparr>expr_equal = (=), block_equal = (=), graph_equal = (=)\<rparr> :: (nat, nat) node_compare"
  let ?forest = "[witness_tree [7] [5, 6], witness_tree [6, 8, 7] []]"
  have "stamp_lifetime_masks (node_equal ?nc) ?forest =
      map (\<lambda>(oc, n, ms). (oc, class_meet (node_equal ?nc) (forest_occurrences 0 ?forest) n)) (forest_occurrences 0 ?forest)"
    by (rule stamp_lifetime_masks_meet [OF _ witness_forest])
      (simp_all add: compares_equivalences_def identity_equivp witness_tree_def eval_expr_default_def payload_ok_def)
  also have "\<dots> = [((0, []), [7]), ((0, [False]), [6]), ((1, []), [7]), ((1, [False]), [6])]"
    by code_simp
  finally show ?thesis .
qed

end
