(* ===== verification/ValueKey.thy ===== *)
theory ValueKey
  imports LifetimeMask
begin

text \<open>
  The value keys of SeQuant/core/eval/lifetime_mask.hpp (\<open>value_key\<close>, \<open>value_key_impl\<close>, \<open>value_key_of\<close>), the
  runtime-cache identity of eval/value_id.hpp, and eval/slicing_signature.hpp: the positions at which a node
  carries the loop modes, and the levels of its modes.  \<open>boost::hash_combine\<close> of a \<open>size_t\<close> into a
  seed is a parameter.
\<close>

type_synonym hash_combine = "64 word \<Rightarrow> 64 word \<Rightarrow> 64 word"

definition value_key :: "hash_combine \<Rightarrow> 64 word \<Rightarrow> nat list \<Rightarrow> 64 word" where
  "value_key comb node_hash positions =
     (if positions = [] then node_hash
      else foldl (\<lambda>h p. comb h (of_nat p)) (comb node_hash (of_nat (length positions))) (sort positions))"

text \<open>The position of every home mode that the node carries, in the order of the home.\<close>

fun first_position :: "nat \<Rightarrow> 'i list \<Rightarrow> 'i \<Rightarrow> nat option" where
  "first_position p [] m = None"
| "first_position p (c # carried) m = (if c = m then Some p else first_position (Suc p) carried m)"

definition home_positions :: "('i, 'e, 'g) eval_node \<Rightarrow> nat list" where
  "home_positions n =
     concat (map (\<lambda>m. case first_position 0 (canon_indices (data_of n)) m of None \<Rightarrow> [] | Some p \<Rightarrow> [p])
       (occurrence_home (data_of n)))"

fun left_spine :: "'a node \<Rightarrow> 'a node list" where
  "left_spine (Leaf d k) = [Leaf d k]"
| "left_spine (Node d l r k) = Node d l r k # left_spine l"

lemma left_spine_size: "c \<in> set (left_spine t) \<Longrightarrow> size c \<le> size t"
  by (induction t) auto

text \<open>
  One turn of the bottom-up loop: \<open>below\<close> is the result of the left child, \<open>right\<close> that of the right child.
\<close>

definition key_step :: "hash_combine \<Rightarrow> ('i, 'e, 'g) eval_node \<Rightarrow> 64 word \<times> bool \<Rightarrow> 64 word \<times> bool \<Rightarrow> 64 word \<times> bool" where
  "key_step comb nd below right =
     (let pos = home_positions nd;
          sliced = (pos \<noteq> []);
          h = value_key comb (hash_value (data_of nd)) pos;
          (h', sliced') =
            (if leaf nd then (h, sliced)
             else (let (lk, ls) = below; (rk, rs) = right
                   in if ls \<or> rs
                      then (let (lk', rk') = (if is_product (data_of nd) \<and> lk > rk then (rk, lk) else (lk, rk))
                            in (comb (comb h lk') rk', True))
                      else (h, sliced)))
      in (if sliced' then h' else hash_value (data_of nd), sliced'))"

function value_key_impl :: "hash_combine \<Rightarrow> ('i, 'e, 'g) eval_node \<Rightarrow> 64 word \<times> bool" where
  "value_key_impl comb n =
     foldl (\<lambda>below nd. key_step comb nd below
              (case nd of Leaf d k \<Rightarrow> (0, False) | Node d l r k \<Rightarrow> value_key_impl comb r))
       (0, False) (rev (left_spine n))"
  by pat_completeness auto
termination
proof (relation "measure (\<lambda>(comb, n). size n)")
  fix comb :: hash_combine and n x and d and l r :: "('i, 'e, 'g) eval_node" and k
  assume "x \<in> set (rev (left_spine n))" "x = Node d l r k"
  then show "((comb, r), comb, n) \<in> measure (\<lambda>(comb, n). size n)"
    using left_spine_size [of x n] by simp
qed simp

declare value_key_impl.simps [simp del]

definition value_key_of :: "hash_combine \<Rightarrow> ('i, 'e, 'g) eval_node \<Rightarrow> 64 word" where
  "value_key_of comb n =
     (if value_key_stamp (data_of n) \<noteq> 0 then value_key_stamp (data_of n) else fst (value_key_impl comb n))"

section \<open>Slicing signatures\<close>

definition index_position :: "('i, 'e, 'g) eval_node \<Rightarrow> 'i \<Rightarrow> nat option" where
  "index_position n ix = find_position (canon_indices (data_of n)) ix"

definition slicing_signature :: "('i, 'e, 'g) eval_node \<Rightarrow> 'i list \<Rightarrow> nat option list" where
  "slicing_signature n modes = map (index_position n) modes"

fun signatures_loop :: "'i list \<Rightarrow> nat option list option \<Rightarrow> ('i, 'e, 'g) eval_node list \<Rightarrow> bool" where
  "signatures_loop modes first [] = True"
| "signatures_loop modes first (n # ns) =
     (let sig = slicing_signature n modes
      in case first of
           None \<Rightarrow> signatures_loop modes (Some sig) ns
         | Some s \<Rightarrow> if s \<noteq> sig then False else signatures_loop modes first ns)"

definition signatures_consistent :: "('i, 'e, 'g) eval_node list \<Rightarrow> 'i list \<Rightarrow> bool" where
  "signatures_consistent occurrences modes = signatures_loop modes None occurrences"

datatype signature_error = SignatureAssertion | ModeOutOfRange

fun level_loop :: "nat option list \<Rightarrow> dag_scope_level list \<Rightarrow> dag_scope_level option list
    \<Rightarrow> (signature_error, dag_scope_level option list) result" where
  "level_loop (Some p # sig) (v # levels) by_mode =
     (if p < length by_mode then level_loop sig levels (by_mode[p := Some v]) else Inl ModeOutOfRange)"
| "level_loop (None # sig) (v # levels) by_mode = level_loop sig levels by_mode"
| "level_loop _ _ by_mode = Inr by_mode"

definition mode_to_level_from_signature ::
    "nat \<Rightarrow> nat option list \<Rightarrow> dag_scope_level list \<Rightarrow> (signature_error, dag_scope_level option list) result" where
  "mode_to_level_from_signature rank sig levels =
     (if length sig \<noteq> length levels then Inl SignatureAssertion
      else level_loop sig levels (replicate rank None))"

section \<open>The value key is its recursive form\<close>

text \<open>What the code's comment calls the recursive form: over both children, without the spine.\<close>

fun value_key_rec :: "hash_combine \<Rightarrow> ('i, 'e, 'g) eval_node \<Rightarrow> 64 word \<times> bool" where
  "value_key_rec comb (Leaf d k) = key_step comb (Leaf d k) (0, False) (0, False)"
| "value_key_rec comb (Node d l r k) =
     key_step comb (Node d l r k) (value_key_rec comb l) (value_key_rec comb r)"

lemma value_key_impl_rec: "value_key_impl comb n = value_key_rec comb n"
proof (induction n)
  case (Node d l r k)
  then show ?case
    by (subst value_key_impl.simps) (simp add: value_key_impl.simps [of comb l])
qed (simp add: value_key_impl.simps)

text \<open>Whether the subtree has a node that is sliced on one of its own positions.\<close>

fun home_sliced :: "('i, 'e, 'g) eval_node \<Rightarrow> bool" where
  "home_sliced (Leaf d k) \<longleftrightarrow> home_positions (Leaf d k) \<noteq> []"
| "home_sliced (Node d l r k) \<longleftrightarrow> home_positions (Node d l r k) \<noteq> [] \<or> home_sliced l \<or> home_sliced r"

lemma key_step_snd:
  "snd (key_step comb nd below right) \<longleftrightarrow> home_positions nd \<noteq> [] \<or> \<not> leaf nd \<and> (snd below \<or> snd right)"
  by (cases below; cases right) (simp add: key_step_def Let_def split: prod.splits)

lemma value_key_rec_snd: "snd (value_key_rec comb n) = home_sliced n"
  by (induction n) (simp_all add: key_step_snd)

lemma key_step_whole: "\<not> snd (key_step comb nd below right) \<Longrightarrow> fst (key_step comb nd below right) = hash_value (data_of nd)"
  by (cases below; cases right) (auto simp: key_step_def Let_def split: prod.splits if_splits)

lemma value_key_rec_whole: "\<not> home_sliced n \<Longrightarrow> fst (value_key_rec comb n) = hash_value (data_of n)"
  using value_key_rec_snd [of comb n] by (cases n) (auto dest!: key_step_whole)

lemma home_positions_data: "data_of a = data_of b \<Longrightarrow> home_positions a = home_positions b"
  by (simp add: home_positions_def)

lemma value_key_rec_swap:
  assumes "is_product d"
  shows "value_key_rec comb (Node d l r k) = value_key_rec comb (Node d r l k)"
proof -
  obtain lk ls rk rs where lr: "value_key_rec comb l = (lk, ls)" "value_key_rec comb r = (rk, rs)"
    by fastforce
  show ?thesis
    using home_positions_data [of "Node d l r k" "Node d r l k"] assms
    by (cases "lk = rk"; cases "lk > rk") (auto simp: lr key_step_def Let_def)
qed

lemma value_key_perm: "mset ps = mset qs \<Longrightarrow> value_key comb h ps = value_key comb h qs"
proof -
  assume eq: "mset ps = mset qs"
  then have "sort ps = sort qs" "length ps = length qs" "ps = [] \<longleftrightarrow> qs = []"
    using properties_for_sort [of "sort ps" qs] by (auto dest: mset_eq_length)
  then show ?thesis by (simp add: value_key_def)
qed

text \<open>
  the key of a value computed by unwinding the left spine is the key of the recursion over both children;
  it is the node's own hash where nothing in the production subtree is sliced on a position the node carries;
  it does not depend on the order of the positions, nor on the order in which the operands of a contraction
  were emitted; and a stamped key takes precedence.
\<close>

theorem value_key_recursive:
  "value_key_impl comb n = value_key_rec comb n
   \<and> snd (value_key_impl comb n) = home_sliced n
   \<and> (\<not> home_sliced n \<longrightarrow> value_key_stamp (data_of n) = 0 \<longrightarrow> value_key_of comb n = hash_value (data_of n))
   \<and> (mset ps = mset qs \<longrightarrow> value_key comb h ps = value_key comb h qs)
   \<and> (is_product d \<longrightarrow> value_key_of comb (Node d l r k) = value_key_of comb (Node d r l k))
   \<and> (value_key_stamp (data_of n) \<noteq> 0 \<longrightarrow> value_key_of comb n = value_key_stamp (data_of n))"
proof (intro conjI impI)
  show "value_key_impl comb n = value_key_rec comb n" by (rule value_key_impl_rec)
  show "snd (value_key_impl comb n) = home_sliced n" by (simp only: value_key_impl_rec value_key_rec_snd)
  show "value_key_of comb n = hash_value (data_of n)" if "\<not> home_sliced n" "value_key_stamp (data_of n) = 0"
    using that by (simp only: value_key_of_def value_key_impl_rec value_key_rec_whole simp_thms if_False)
  show "value_key comb h ps = value_key comb h qs" if "mset ps = mset qs"
    using that by (rule value_key_perm)
  show "value_key_of comb (Node d l r k) = value_key_of comb (Node d r l k)" if "is_product d"
    using value_key_rec_swap [OF that] by (simp only: value_key_of_def value_key_impl_rec data_of.simps)
  show "value_key_of comb n = value_key_stamp (data_of n)" if "value_key_stamp (data_of n) \<noteq> 0"
    using that by (simp only: value_key_of_def simp_thms if_True)
qed

lemma value_key_recursive_witness:
  "value_key_of (\<lambda>s v. s * 31 + v)
     (Node ((eval_expr_default (TensorExpr 0) TensorResult)\<lparr>op_type := Some ProductOp, canon_indices := [4, 5], occurrence_home := [5], hash_value := 8\<rparr>)
       (sample_leaf 1 7) (sample_leaf 2 5) 3) =
   value_key_of (\<lambda>s v. s * 31 + v)
     (Node ((eval_expr_default (TensorExpr 0) TensorResult)\<lparr>op_type := Some ProductOp, canon_indices := [4, 5], occurrence_home := [5], hash_value := 8\<rparr>)
       (sample_leaf 2 5) (sample_leaf 1 7) 3)"
  by (rule value_key_recursive [THEN conjunct2, THEN conjunct2, THEN conjunct2, THEN conjunct2, THEN conjunct1, rule_format])
    (simp add: is_product_def)

section \<open>What signatures and homes are\<close>

lemma signatures_loop_first:
  "signatures_loop modes (Some s) ns \<longleftrightarrow> (\<forall>n\<in>set ns. slicing_signature n modes = s)"
  by (induction ns) (auto simp: Let_def)

lemma signatures_consistent_iff:
  "signatures_consistent ns modes \<longleftrightarrow> (\<forall>a\<in>set ns. \<forall>b\<in>set ns. slicing_signature a modes = slicing_signature b modes)"
  by (cases ns) (auto simp: signatures_consistent_def signatures_loop_first Let_def)

lemma level_loop_ok:
  assumes "length sig = length levels" "\<forall>p. Some p \<in> set sig \<longrightarrow> p < length m"
  shows "\<exists>m'. level_loop sig levels m = Inr m' \<and> length m' = length m
     \<and> (\<forall>q < length m. (if Some q \<in> set sig then \<exists>i < length sig. sig ! i = Some q \<and> m' ! q = Some (levels ! i) else m' ! q = m ! q))"
  using assms
proof (induction sig levels m rule: level_loop.induct)
  case (1 p sig v levels m)
  then obtain m' where m': "level_loop sig levels (m[p := Some v]) = Inr m'" "length m' = length m"
    and at: "\<forall>q < length m. (if Some q \<in> set sig then \<exists>i < length sig. sig ! i = Some q \<and> m' ! q = Some (levels ! i) else m' ! q = m[p := Some v] ! q)"
    by auto
  have concl: "if Some q \<in> set (Some p # sig) then \<exists>i < length (Some p # sig). (Some p # sig) ! i = Some q \<and> m' ! q = Some ((v # levels) ! i) else m' ! q = m ! q"
    if "q < length m" for q
  proof (cases "Some q \<in> set sig")
    case True
    then have "\<exists>i < length sig. sig ! i = Some q \<and> m' ! q = Some (levels ! i)"
      using at [rule_format, of q] that by simp
    then obtain i where "i < length sig" "sig ! i = Some q" "m' ! q = Some (levels ! i)" by blast
    then show ?thesis using True by (simp, intro exI [of _ "Suc i"], simp)
  next
    case False
    then have "m' ! q = m[p := Some v] ! q" using at [rule_format, of q] that by auto
    then show ?thesis using that False by (cases "p = q") (auto intro!: exI [of _ 0])
  qed
  show ?case using 1(3) m' by (intro exI [of _ m'] conjI allI impI) (simp, simp, rule concl)
next
  case (2 sig v levels m)
  then obtain m' where m': "level_loop sig levels m = Inr m'" "length m' = length m"
    and at: "\<forall>q < length m. (if Some q \<in> set sig then \<exists>i < length sig. sig ! i = Some q \<and> m' ! q = Some (levels ! i) else m' ! q = m ! q)"
    by auto
  have concl: "if Some q \<in> set (None # sig) then \<exists>i < length (None # sig). (None # sig) ! i = Some q \<and> m' ! q = Some ((v # levels) ! i) else m' ! q = m ! q"
    if "q < length m" for q
  proof (cases "Some q \<in> set sig")
    case True
    then have "\<exists>i < length sig. sig ! i = Some q \<and> m' ! q = Some (levels ! i)"
      using at [rule_format, of q] that by simp
    then obtain i where "i < length sig" "sig ! i = Some q" "m' ! q = Some (levels ! i)" by blast
    then show ?thesis using True by (simp, intro exI [of _ "Suc i"], simp)
  qed (use at [rule_format, of q] that in auto)
  show ?case using m' by (intro exI [of _ m'] conjI allI impI) (simp, simp, rule concl)
qed auto

text \<open>
  the slicing signature of a node names, for every loop mode, the first slot that carries it, so the levels
  computed from it fit the node's rank and never write out of range: a slot gets the level of a mode bound to
  it, and no level exactly when no mode is bound to it; and the occurrences of a value are consistent exactly
  when any two of them have one signature.
\<close>

theorem mode_levels_of_signature:
  assumes "length modes = length levels"
  shows "(\<exists>m. mode_to_level_from_signature (length (canon_indices (data_of n))) (slicing_signature n modes) levels = Inr m
       \<and> length m = length (canon_indices (data_of n))
       \<and> (\<forall>q < length m. case m ! q of
             None \<Rightarrow> \<forall>i < length modes. index_position n (modes ! i) \<noteq> Some q
           | Some v \<Rightarrow> \<exists>i < length modes. index_position n (modes ! i) = Some q \<and> canon_indices (data_of n) ! q = modes ! i \<and> v = levels ! i))
    \<and> (signatures_consistent ns modes \<longleftrightarrow>
        (\<forall>a\<in>set ns. \<forall>b\<in>set ns. slicing_signature a modes = slicing_signature b modes))"
proof (rule conjI [OF _ signatures_consistent_iff])
  let ?sig = "slicing_signature n modes" and ?m = "replicate (length (canon_indices (data_of n))) (None :: dag_scope_level option)"
  have len: "length ?sig = length levels" using assms by (simp add: slicing_signature_def)
  have "\<forall>p. Some p \<in> set ?sig \<longrightarrow> p < length ?m"
    by (auto simp: slicing_signature_def index_position_def find_position_Some dest!: sym [of "Some _"])
  from level_loop_ok [OF len this] obtain m where m: "level_loop ?sig levels ?m = Inr m" "length m = length ?m"
    and at: "\<forall>q < length ?m. (if Some q \<in> set ?sig then \<exists>i < length ?sig. ?sig ! i = Some q \<and> m ! q = Some (levels ! i) else m ! q = ?m ! q)"
    by blast
  have "case m ! q of None \<Rightarrow> \<forall>i < length modes. index_position n (modes ! i) \<noteq> Some q
      | Some v \<Rightarrow> \<exists>i < length modes. index_position n (modes ! i) = Some q \<and> canon_indices (data_of n) ! q = modes ! i \<and> v = levels ! i"
    if "q < length m" for q
  proof (cases "Some q \<in> set ?sig")
    case True
    then have "\<exists>i < length ?sig. ?sig ! i = Some q \<and> m ! q = Some (levels ! i)"
      using at [rule_format, of q] that m(2) by simp
    then obtain i where i: "i < length modes" "?sig ! i = Some q" "m ! q = Some (levels ! i)"
      by (auto simp: slicing_signature_def)
    then have "index_position n (modes ! i) = Some q" by (simp add: slicing_signature_def)
    then show ?thesis using i by (auto simp: index_position_def find_position_Some)
  next
    case False
    then have "m ! q = None" using at [rule_format, of q] that m(2) by simp
    moreover have "index_position n (modes ! i) \<noteq> Some q" if "i < length modes" for i
      using False imageI [OF nth_mem [OF that], of "index_position n"] by (auto simp: slicing_signature_def)
    ultimately show ?thesis by simp
  qed
  with m show "\<exists>m. mode_to_level_from_signature (length (canon_indices (data_of n))) ?sig levels = Inr m
      \<and> length m = length (canon_indices (data_of n))
      \<and> (\<forall>q < length m. case m ! q of
             None \<Rightarrow> \<forall>i < length modes. index_position n (modes ! i) \<noteq> Some q
           | Some v \<Rightarrow> \<exists>i < length modes. index_position n (modes ! i) = Some q \<and> canon_indices (data_of n) ! q = modes ! i \<and> v = levels ! i)"
    using len by (intro exI [of _ m]) (simp add: mode_to_level_from_signature_def)
qed

lemma mode_levels_of_signature_witness:
  "\<exists>m. mode_to_level_from_signature 2 (slicing_signature (witness_tree [7] [5]) [9, 8])
     [\<lparr>level_depth = 0, space = [], level_slot = 0, altitude_ordinal = 0, latitude_ordinal = 0\<rparr>,
      \<lparr>level_depth = 1, space = [], level_slot = 0, altitude_ordinal = 0, latitude_ordinal = 0\<rparr>] = Inr m
     \<and> length m = 2"
proof -
  have "length (canon_indices (data_of (witness_tree [7] [5]))) = 2" by code_simp
  then show ?thesis
    using mode_levels_of_signature [of "[9, 8 :: nat]"
      "[\<lparr>level_depth = 0, space = [], level_slot = 0, altitude_ordinal = 0, latitude_ordinal = 0\<rparr>,
        \<lparr>level_depth = 1, space = [], level_slot = 0, altitude_ordinal = 0, latitude_ordinal = 0\<rparr>]" "witness_tree [7] [5]"]
    by fastforce
qed

section \<open>The homes of the occurrences\<close>

definition under :: "occurrence \<Rightarrow> occurrence set" where
  "under oc = {oc'. fst oc' = fst oc \<and> (\<exists>s. snd oc' = snd oc @ s)}"

lemma under_child: "under (fst oc, snd oc @ [b]) \<subseteq> under oc" "oc \<in> under oc" "oc \<notin> under (fst oc, snd oc @ [b])"
  by (auto simp: under_def)

lemma under_siblings: "under (k, p @ [False]) \<inter> under (k, p @ [True]) = {}"
  by (auto simp: under_def)

lemma local_occurrence_paths: "fst ` set (local_occurrences oc t acc) \<subseteq> under oc"
proof (induction oc t acc rule: local_occurrences.induct)
  case (2 oc d l r k acc)
  note IH = 2 [OF refl]
  show ?case
    using IH(1) IH(2) under_child(1) [of oc False] under_child(1) [of oc True] under_child(2) [of oc]
    by (simp add: Let_def) blast
qed simp

lemma distinct_local_occurrences: "distinct (map fst (local_occurrences oc t acc))"
proof (induction oc t acc rule: local_occurrences.induct)
  case (2 oc d l r k acc)
  let ?acc = "acc @ map fst (batch_loops_opened_here d)"
  let ?L = "local_occurrences (fst oc, snd oc @ [False]) l ?acc"
  let ?R = "local_occurrences (fst oc, snd oc @ [True]) r ?acc"
  note left = local_occurrence_paths [of "(fst oc, snd oc @ [False])" l ?acc]
    and right = local_occurrence_paths [of "(fst oc, snd oc @ [True])" r ?acc]
  have "oc \<notin> fst ` set ?L" "oc \<notin> fst ` set ?R"
    using left right under_child(3) [of oc] by blast+
  moreover have "fst ` set ?L \<inter> fst ` set ?R = {}"
    using left right under_siblings [of "fst oc" "snd oc"] by blast
  ultimately show ?case using 2 [OF refl] by (simp add: Let_def)
qed simp

lemma forest_occurrence_trees: "fst ` set (forest_occurrences k ts) \<subseteq> {oc. k \<le> fst oc}"
proof (induction k ts rule: forest_occurrences.induct)
  case (2 k t ts)
  have "under (k, []) \<subseteq> {oc. k \<le> fst oc}" by (auto simp: under_def)
  moreover have "{oc. Suc k \<le> fst oc} \<subseteq> {oc. k \<le> fst oc}" by auto
  ultimately show ?case
    using 2 local_occurrence_paths [of "(k, [])" t "[]"] by (simp only: forest_occurrences.simps set_append image_Un) blast
qed simp

lemma distinct_forest_occurrences: "distinct (map fst (forest_occurrences k ts))"
proof (induction k ts rule: forest_occurrences.induct)
  case (2 k t ts)
  have "under (k, []) \<inter> {oc. Suc k \<le> fst oc} = {}" by (auto simp: under_def)
  then have "fst ` set (local_occurrences (k, []) t []) \<inter> fst ` set (forest_occurrences (Suc k) ts) = {}"
    using local_occurrence_paths [of "(k, [])" t "[]"] forest_occurrence_trees [of "Suc k" ts] by blast
  with 2 show ?case by (simp add: distinct_local_occurrences)
qed simp

lemma class_meet_subset:
  assumes "same n n" "(oc, n, ms) \<in> set L"
  shows "set (class_meet same L n) \<subseteq> set ms"
proof -
  have "ms \<in> set (class_modes same L n)" using assms by (force simp: class_modes_def)
  then show ?thesis by (auto simp: class_meet_def)
qed

text \<open>
  the two stampings of a forest visit the same internal occurrences, each exactly once and in the same
  order; the home of an occurrence has the loops opened at or above it that the node carries; and the mask of
  an occurrence, the meet over its value, never has a mode its own home lacks.
\<close>

theorem masks_within_homes:
  assumes "compares_equivalences nc" and "eval_forest nc S" and "set forest \<subseteq> S"
  shows "stamp_occurrence_homes forest = map (\<lambda>(oc, n, ms). (oc, ms)) (forest_occurrences 0 forest)
    \<and> distinct (map fst (stamp_occurrence_homes forest))
    \<and> list_all2 (\<lambda>(oc, mask) (oc', home). oc = oc' \<and> set mask \<subseteq> set home)
        (stamp_lifetime_masks (node_equal nc) forest) (stamp_occurrence_homes forest)"
proof -
  let ?L = "forest_occurrences 0 forest"
  have homes: "stamp_occurrence_homes forest = map (\<lambda>(oc, n, ms). (oc, ms)) ?L"
    by (simp add: stamp_occurrence_homes_def stamp_homes_from)
  have masks: "stamp_lifetime_masks (node_equal nc) forest = map (\<lambda>(oc, n, ms). (oc, class_meet (node_equal nc) ?L n)) ?L"
    using assms by (rule stamp_meet_nodes)
  have within: "\<forall>(oc, n, ms)\<in>set ?L. set (class_meet (node_equal nc) ?L n) \<subseteq> set ms"
    using class_meet_subset [where same = "node_equal nc" and L = ?L] node_equal_refl [OF assms(1)] by fast
  have "list_all2 (\<lambda>(oc, mask) (oc', home). oc = oc' \<and> set mask \<subseteq> set home)
      (stamp_lifetime_masks (node_equal nc) forest) (stamp_occurrence_homes forest)"
    unfolding masks homes list_all2_map1 list_all2_map2 by (intro list.rel_refl_strong) (use within in fast)
  moreover have "map fst (map (\<lambda>(oc, n, ms). (oc, ms)) ?L) = map fst ?L" by (simp add: case_prod_beta)
  ultimately show ?thesis
    using distinct_forest_occurrences [of 0 forest] homes by metis
qed

lemma masks_within_homes_witness:
  "distinct (map fst (stamp_occurrence_homes [witness_tree [7] [5, 6], witness_tree [6, 8, 7] []]))"
  by (rule masks_within_homes [THEN conjunct2, THEN conjunct1, OF _ witness_forest,
        of "\<lparr>expr_equal = (=), block_equal = (=), graph_equal = (=)\<rparr>"])
    (simp_all add: compares_equivalences_def identity_equivp witness_tree_def eval_expr_default_def payload_ok_def)

end
