(* ===== verification/IndexUtils.thy ===== *)
theory IndexUtils
  imports Prelude
begin

unbundle bit_operations_syntax

text \<open>
  SeQuant/core/utility/indices.hpp: the groups of indices of an expression (unique, used with counts,
  external), the split of the modes of a tensor of tensors, and the open atoms of the parts of a network.
  The index type is a parameter (a label is the list of its code points); \<open>protos\<close> gives the protoindices of an index, \<open>valid\<close> is \<open>nonnull\<close>.
  \<open>get_unique_indices\<close> compares indices both by \<open>Index::operator==\<close> and by \<open>Index::operator<=>\<close>, which disagree on
  equal indices with different tags: both are its parameters.  Elsewhere equality is the one of the type.  An expression is what these functions see of it: its tree and the slots of its
  tensors.  A set of indices is a HOL set, an ordered map the list of its entries.
\<close>

section \<open>Expressions as far as their indices\<close>

record 'i index_groups =
  bra_of :: "'i list"
  ket_of :: "'i list"
  aux_of :: "'i list"

record 'i tensor =
  tensor_label :: "nat list"
  slots_of :: "'i index_groups"

datatype 'i iexpr =
    ConstantX
  | VariableX
  | PowerX "'i iexpr"
  | TensorX "'i tensor"
  | TensorPowerX "'i tensor"
  | OperatorsX "'i index_groups list"
  | SumX "'i iexpr list"
  | ProductX "'i iexpr list"
  | OtherX

datatype index_error = IndexAssertion | UnsupportedExpression | UnpairedSymmetrizer

definition symm_label :: "nat list" where "symm_label = [348]"
definition antisymm_label :: "nat list" where "antisymm_label = [194]"

datatype slot_type = BraSlot | KetSlot | AuxSlot | ProtoSlot

abbreviation no_groups :: "'i index_groups" where
  "no_groups \<equiv> \<lparr>bra_of = [], ket_of = [], aux_of = []\<rparr>"

abbreviation tensor_slots :: "'i index_groups \<Rightarrow> 'i list" where
  "tensor_slots g \<equiv> bra_of g @ ket_of g @ aux_of g"

section \<open>Groups of indices\<close>

text \<open>\<open>operator==\<close> and \<open>operator<\<close> of indices.\<close>

record 'i index_order =
  same_index :: "'i \<Rightarrow> 'i \<Rightarrow> bool"
  index_before :: "'i \<Rightarrow> 'i \<Rightarrow> bool"

text \<open>\<open>std::find\<close> compares with \<open>operator==\<close>; the first element found is erased.\<close>

fun remove_one :: "'i index_order \<Rightarrow> 'i list \<Rightarrow> 'i \<Rightarrow> 'i list" where
  "remove_one ix [] e = []"
| "remove_one ix (x # xs) e = (if same_index ix x e then xs else x # remove_one ix xs e)"

text \<open>Membership in a \<open>std::set<Index>\<close>: an element that the order does not separate from \<open>i\<close>.\<close>

definition encountered :: "'i index_order \<Rightarrow> 'i list \<Rightarrow> 'i \<Rightarrow> bool" where
  "encountered ix seen i = list_ex (\<lambda>x. \<not> index_before ix x i \<and> \<not> index_before ix i x) seen"

definition not_in :: "'i list \<Rightarrow> 'i \<Rightarrow> bool" where
  "not_in rng e \<longleftrightarrow> List.find (\<lambda>x. x = e) rng = None"

definition get_uncontracted_indices :: "'i index_groups \<Rightarrow> 'i index_groups \<Rightarrow> 'i index_groups" where
  "get_uncontracted_indices t1 t2 =
     \<lparr>bra_of = filter (not_in (ket_of t2)) (bra_of t1) @ filter (not_in (ket_of t1)) (bra_of t2),
      ket_of = filter (not_in (bra_of t2)) (ket_of t1) @ filter (not_in (bra_of t1)) (ket_of t2),
      aux_of = filter (not_in (aux_of t2)) (aux_of t1) @ filter (not_in (aux_of t1)) (aux_of t2)\<rparr>"

text \<open>One index of a slot: recorded at its first encounter, removed from the groups filled so far at any later one.\<close>

type_synonym 'i unique_state = "'i list \<times> 'i index_groups"

fun unique_bra :: "'i index_order \<Rightarrow> 'i unique_state \<Rightarrow> 'i \<Rightarrow> 'i unique_state" where
  "unique_bra ix (seen, g) i =
     (if \<not> encountered ix seen i then (i # seen, g\<lparr>bra_of := bra_of g @ [i]\<rparr>)
      else (seen, g\<lparr>bra_of := remove_one ix (bra_of g) i\<rparr>))"

fun unique_ket :: "'i index_order \<Rightarrow> 'i unique_state \<Rightarrow> 'i \<Rightarrow> 'i unique_state" where
  "unique_ket ix (seen, g) i =
     (if \<not> encountered ix seen i then (i # seen, g\<lparr>ket_of := ket_of g @ [i]\<rparr>)
      else (seen, g\<lparr>bra_of := remove_one ix (bra_of g) i, ket_of := remove_one ix (ket_of g) i\<rparr>))"

definition remove_everywhere :: "'i index_order \<Rightarrow> 'i index_groups \<Rightarrow> 'i \<Rightarrow> 'i index_groups" where
  "remove_everywhere ix g i =
     \<lparr>bra_of = remove_one ix (bra_of g) i, ket_of = remove_one ix (ket_of g) i, aux_of = remove_one ix (aux_of g) i\<rparr>"

fun unique_aux :: "'i index_order \<Rightarrow> 'i unique_state \<Rightarrow> 'i \<Rightarrow> 'i unique_state" where
  "unique_aux ix (seen, g) i =
     (if \<not> encountered ix seen i then (i # seen, g\<lparr>aux_of := aux_of g @ [i]\<rparr>) else (seen, remove_everywhere ix g i))"

definition get_unique_tensor :: "'i index_order \<Rightarrow> 'i index_groups \<Rightarrow> 'i index_groups" where
  "get_unique_tensor ix t =
     snd (foldl (unique_aux ix) (foldl (unique_ket ix) (foldl (unique_bra ix) ([], no_groups) (bra_of t)) (ket_of t)) (aux_of t))"

text \<open>The three loops over the groups of a factor of a product differ in the group they append to.\<close>

fun merge_bra :: "'i index_order \<Rightarrow> 'i unique_state \<Rightarrow> 'i \<Rightarrow> 'i unique_state" where
  "merge_bra ix (seen, g) i =
     (if \<not> encountered ix seen i then (i # seen, g\<lparr>bra_of := bra_of g @ [i]\<rparr>) else (seen, remove_everywhere ix g i))"

fun merge_ket :: "'i index_order \<Rightarrow> 'i unique_state \<Rightarrow> 'i \<Rightarrow> 'i unique_state" where
  "merge_ket ix (seen, g) i =
     (if \<not> encountered ix seen i then (i # seen, g\<lparr>ket_of := ket_of g @ [i]\<rparr>) else (seen, remove_everywhere ix g i))"

fun merge_aux :: "'i index_order \<Rightarrow> 'i unique_state \<Rightarrow> 'i \<Rightarrow> 'i unique_state" where
  "merge_aux ix (seen, g) i =
     (if \<not> encountered ix seen i then (i # seen, g\<lparr>aux_of := aux_of g @ [i]\<rparr>) else (seen, remove_everywhere ix g i))"

definition merge_factor :: "'i index_order \<Rightarrow> 'i unique_state \<Rightarrow> 'i index_groups \<Rightarrow> 'i unique_state" where
  "merge_factor ix st f = foldl (merge_aux ix) (foldl (merge_ket ix) (foldl (merge_bra ix) st (bra_of f)) (ket_of f)) (aux_of f)"

function (sequential) get_unique_indices :: "'i index_order \<Rightarrow> 'i iexpr \<Rightarrow> (index_error, 'i index_groups) result"
  and unique_factors :: "'i index_order \<Rightarrow> 'i iexpr list \<Rightarrow> 'i unique_state \<Rightarrow> (index_error, 'i index_groups) result" where
  "get_unique_indices ix ConstantX = Inr no_groups"
| "get_unique_indices ix VariableX = Inr no_groups"
| "get_unique_indices ix (PowerX b) = (if b = ConstantX \<or> b = VariableX then Inr no_groups else Inl IndexAssertion)"
| "get_unique_indices ix (TensorX t) = Inr (get_unique_tensor ix (slots_of t))"
| "get_unique_indices ix (TensorPowerX t) = Inr (get_unique_tensor ix (slots_of t))"
| "get_unique_indices ix (SumX []) = Inr no_groups"
| "get_unique_indices ix (SumX (e # es)) = get_unique_indices ix e"
| "get_unique_indices ix (ProductX es) = unique_factors ix es ([], no_groups)"
| "get_unique_indices ix _ = Inl UnsupportedExpression"
| "unique_factors ix [] st = Inr (snd st)"
| "unique_factors ix (e # es) st = bind_res (get_unique_indices ix e) (\<lambda>f. unique_factors ix es (merge_factor ix st f))"
  by pat_completeness auto
termination
  by (relation "measure (\<lambda>x. case x of Inl (ix, e) \<Rightarrow> 2 * size e | Inr (ix, es, st) \<Rightarrow> 2 * size_list size es + 1)") auto

section \<open>Used indices with counts\<close>

record slot_counters =
  n_bra :: nat
  n_ket :: nat
  n_aux :: nat
  n_proto :: nat

definition total :: "slot_counters \<Rightarrow> nat" where
  "total c = n_bra c + n_ket c + n_aux c + n_proto c"

definition nonproto :: "slot_counters \<Rightarrow> nat" where
  "nonproto c = n_bra c + n_ket c + n_aux c"

fun increment :: "slot_type \<Rightarrow> slot_counters \<Rightarrow> slot_counters" where
  "increment BraSlot c = c\<lparr>n_bra := Suc (n_bra c)\<rparr>"
| "increment KetSlot c = c\<lparr>n_ket := Suc (n_ket c)\<rparr>"
| "increment AuxSlot c = c\<lparr>n_aux := Suc (n_aux c)\<rparr>"
| "increment ProtoSlot c = c\<lparr>n_proto := Suc (n_proto c)\<rparr>"

type_synonym 'i counts = "('i \<times> slot_counters) list"

fun add_count :: "slot_type \<Rightarrow> 'i counts \<Rightarrow> 'i \<Rightarrow> 'i counts" where
  "add_count s [] i = [(i, increment s \<lparr>n_bra = 0, n_ket = 0, n_aux = 0, n_proto = 0\<rparr>)]"
| "add_count s ((j, c) # m) i = (if j = i then (j, increment s c) # m else (j, c) # add_count s m i)"

definition emplace_index :: "('i \<Rightarrow> bool) \<Rightarrow> ('i \<Rightarrow> 'i list) \<Rightarrow> slot_type \<Rightarrow> 'i counts \<Rightarrow> 'i \<Rightarrow> 'i counts" where
  "emplace_index valid protos s m i =
     (if \<not> valid i then m else foldl (add_count ProtoSlot) (add_count s m i) (protos i))"

definition process_tensor :: "('i \<Rightarrow> bool) \<Rightarrow> ('i \<Rightarrow> 'i list) \<Rightarrow> 'i counts \<Rightarrow> 'i index_groups \<Rightarrow> 'i counts" where
  "process_tensor valid protos m t =
     foldl (emplace_index valid protos AuxSlot)
       (foldl (emplace_index valid protos KetSlot)
         (foldl (emplace_index valid protos BraSlot) m (bra_of t)) (ket_of t)) (aux_of t)"

text \<open>The tensors in the order in which the visitor of the atoms meets them.\<close>

fun atom_tensors :: "'i iexpr \<Rightarrow> 'i index_groups list" where
  "atom_tensors (TensorX t) = [slots_of t]"
| "atom_tensors (TensorPowerX t) = [slots_of t]"
| "atom_tensors (OperatorsX ops) = ops"
| "atom_tensors (SumX es) = concat (map atom_tensors es)"
| "atom_tensors (ProductX es) = concat (map atom_tensors es)"
| "atom_tensors _ = []"

definition get_used_indices_with_counts :: "('i \<Rightarrow> bool) \<Rightarrow> ('i \<Rightarrow> 'i list) \<Rightarrow> 'i iexpr \<Rightarrow> 'i counts" where
  "get_used_indices_with_counts valid protos e = foldl (process_tensor valid protos) [] (atom_tensors e)"

definition wanted :: "slot_type set \<Rightarrow> slot_counters \<Rightarrow> bool" where
  "wanted types c \<longleftrightarrow>
     (BraSlot \<in> types \<and> n_bra c > 0) \<or> (KetSlot \<in> types \<and> n_ket c > 0)
     \<or> (AuxSlot \<in> types \<and> n_aux c > 0) \<or> (ProtoSlot \<in> types \<and> n_proto c > 0)"

definition get_used_indices :: "('i \<Rightarrow> bool) \<Rightarrow> ('i \<Rightarrow> 'i list) \<Rightarrow> slot_type set \<Rightarrow> 'i iexpr \<Rightarrow> 'i set" where
  "get_used_indices valid protos types e =
     (if types = {BraSlot, KetSlot, AuxSlot, ProtoSlot}
      then set (map fst (get_used_indices_with_counts valid protos e))
      else set (map fst (filter (\<lambda>(i, c). wanted types c) (get_used_indices_with_counts valid protos e))))"

section \<open>Modes of a tensor of tensors\<close>

record 'i tot_split =
  outer_of :: "'i list"
  inner_of :: "'i list"

definition add_new :: "'i list \<Rightarrow> 'i \<Rightarrow> 'i list" where
  "add_new out i = (if i \<in> set out then out else out @ [i])"

text \<open>\<open>uniq\<close> for an associative container, which holds an index once; its order is not modelled.\<close>

definition tot_indices :: "bool \<Rightarrow> ('i \<Rightarrow> 'i list) \<Rightarrow> 'i list \<Rightarrow> 'i tot_split" where
  "tot_indices uniq protos idxs =
     \<lparr>outer_of = foldl add_new (foldl add_new [] (concat (map protos idxs))) (filter (\<lambda>i. protos i = []) idxs),
      inner_of = (let inner = filter (\<lambda>i. protos i \<noteq> []) idxs in if uniq then foldl add_new [] inner else inner)\<rparr>"

section \<open>External indices\<close>

fun is_trace_loop :: "('i \<Rightarrow> bool) \<Rightarrow> 'i set \<Rightarrow> 'i list \<Rightarrow> bool" where
  "is_trace_loop valid seen [] = False"
| "is_trace_loop valid seen (i # js) =
     (if valid i \<and> i \<in> seen then True else is_trace_loop valid (if valid i then insert i seen else seen) js)"

definition is_symmetrizer :: "'i tensor \<Rightarrow> bool" where
  "is_symmetrizer t \<longleftrightarrow> tensor_label t = symm_label \<or> tensor_label t = antisymm_label"

definition is_trace :: "('i \<Rightarrow> bool) \<Rightarrow> 'i tensor \<Rightarrow> bool" where
  "is_trace valid t = (if is_symmetrizer t then False else is_trace_loop valid {} (tensor_slots (slots_of t)))"

type_synonym 'i slotted = "'i \<times> slot_type"

text \<open>Position by position the bra and the ket indices, then the aux indices.\<close>

definition paired_groups :: "'i index_groups \<Rightarrow> 'i slotted list list" where
  "paired_groups g =
     map (\<lambda>i. (if i < length (bra_of g) then [(bra_of g ! i, BraSlot)] else [])
            @ (if i < length (ket_of g) then [(ket_of g ! i, KetSlot)] else []))
       [0..<max (length (bra_of g)) (length (ket_of g))]
     @ map (\<lambda>i. [(i, AuxSlot)]) (aux_of g)"

text \<open>The conjugation of the positions of a symmetrizer.\<close>

fun conjugate_group :: "bool \<Rightarrow> 'i slotted list \<Rightarrow> (index_error, 'i slotted list) result" where
  "conjugate_group symm [(i, s), (j, t)] = Inr [(j, s), (i, t)]"
| "conjugate_group symm gp =
     (if symm then Inl UnpairedSymmetrizer
      else case gp of
             [(i, s)] \<Rightarrow> Inr [(i, if s = BraSlot then KetSlot else BraSlot)]
           | _ \<Rightarrow> Inl IndexAssertion)"

fun conjugate_groups :: "bool \<Rightarrow> nat \<Rightarrow> 'i slotted list list \<Rightarrow> (index_error, 'i slotted list list) result" where
  "conjugate_groups symm (Suc n) (g # gs) =
     bind_res (conjugate_group symm g) (\<lambda>g'. bind_res (conjugate_groups symm n gs) (\<lambda>gs'. Inr (g' # gs')))"
| "conjugate_groups symm n gs = Inr gs"

definition tensor_external :: "'i tensor \<Rightarrow> (index_error, 'i slotted list list) result" where
  "tensor_external t =
     (let g = slots_of t; cont = paired_groups g
      in if is_symmetrizer t
         then conjugate_groups (tensor_label t = symm_label) (max (length (bra_of g)) (length (ket_of g))) cont
         else Inr cont)"

text \<open>The tensors among the atoms in the order of the visit, and the search for the symmetrizer.\<close>

fun plain_tensors :: "'i iexpr \<Rightarrow> 'i tensor list" where
  "plain_tensors (TensorX t) = [t]"
| "plain_tensors (SumX es) = concat (map plain_tensors es)"
| "plain_tensors (ProductX es) = concat (map plain_tensors es)"
| "plain_tensors _ = []"

fun find_symmetrizer :: "'i tensor option \<Rightarrow> 'i tensor list \<Rightarrow> (index_error, 'i tensor option) result" where
  "find_symmetrizer cur [] = Inr cur"
| "find_symmetrizer cur (t # ts) =
     (if is_symmetrizer t
      then if cur \<noteq> None \<and> cur \<noteq> Some t then Inl IndexAssertion else find_symmetrizer (Some t) ts
      else find_symmetrizer cur ts)"

definition external_indices :: "'i index_order \<Rightarrow> ('i \<Rightarrow> bool) \<Rightarrow> 'i iexpr \<Rightarrow> (index_error, 'i slotted list list) result" where
  "external_indices ix valid e =
     (case e of
        SumX _ \<Rightarrow> bind_res (find_symmetrizer None (plain_tensors e)) (\<lambda>s. case s of
            Some t \<Rightarrow> tensor_external t
          | None \<Rightarrow> bind_res (get_unique_indices ix e) (\<lambda>g. Inr (paired_groups g)))
      | ProductX _ \<Rightarrow> bind_res (find_symmetrizer None (plain_tensors e)) (\<lambda>s. case s of
            Some t \<Rightarrow> tensor_external t
          | None \<Rightarrow> bind_res (get_unique_indices ix e) (\<lambda>g. Inr (paired_groups g)))
      | TensorX t \<Rightarrow>
          if \<not> is_trace valid t then tensor_external t
          else bind_res (get_unique_indices ix e) (\<lambda>g. Inr (paired_groups g))
      | _ \<Rightarrow> Inr [])"

section \<open>Open atoms\<close>

definition carried_list :: "('i \<Rightarrow> 'i list) \<Rightarrow> 'i list \<Rightarrow> 'i list" where
  "carried_list protos slots = concat (map (\<lambda>ix. ix # protos ix) slots)"

definition carried_atoms :: "('i \<Rightarrow> 'i list) \<Rightarrow> 'i set \<Rightarrow> 'i list \<Rightarrow> 'i set" where
  "carried_atoms protos atoms slots = atoms \<union> set (carried_list protos slots)"

definition open_atoms :: "'i set \<Rightarrow> 'i set \<Rightarrow> 'i set \<Rightarrow> 'i set" where
  "open_atoms part rest external = {k \<in> part. k \<in> rest \<or> k \<in> external}"

fun or_at :: "nat \<Rightarrow> ('i \<times> nat) list \<Rightarrow> 'i \<Rightarrow> ('i \<times> nat) list" where
  "or_at b [] k = [(k, b)]"
| "or_at b ((j, m) # cs) k = (if j = k then (j, m OR b) # cs else (j, m) # or_at b cs k)"

definition add_carriers :: "('i \<Rightarrow> 'i list) \<Rightarrow> 'i list list \<Rightarrow> ('i \<times> nat) list \<Rightarrow> nat \<Rightarrow> ('i \<times> nat) list" where
  "add_carriers protos rng cs t = foldl (or_at (push_bit t 1)) cs (remdups (carried_list protos (rng ! t)))"

definition carriers_of :: "('i \<Rightarrow> 'i list) \<Rightarrow> 'i list list \<Rightarrow> ('i \<times> nat) list" where
  "carriers_of protos rng = foldl (add_carriers protos rng) [] [0..<length rng]"

fun add_slot_count :: "('i \<times> nat) list \<Rightarrow> 'i \<Rightarrow> ('i \<times> nat) list" where
  "add_slot_count [] i = [(i, 1)]"
| "add_slot_count ((j, n) # cs) i = (if j = i then (j, Suc n) # cs else (j, n) # add_slot_count cs i)"

definition slot_counts :: "'i list list \<Rightarrow> ('i \<times> nat) list" where
  "slot_counts rng = foldl (\<lambda>cs slots. foldl add_slot_count cs slots) [] rng"

fun add_singles :: "'i set \<Rightarrow> ('i \<times> nat) list \<Rightarrow> 'i set" where
  "add_singles external [] = external"
| "add_singles external ((i, n) # cs) = add_singles (if n = 1 then insert i external else external) cs"

definition inferred_external :: "'i list list \<Rightarrow> 'i list \<Rightarrow> 'i set" where
  "inferred_external rng tixs = add_singles (set tixs) (slot_counts rng)"

definition subset_open :: "('i \<times> nat) list \<Rightarrow> 'i set \<Rightarrow> nat \<Rightarrow> nat \<Rightarrow> 'i set" where
  "subset_open cs external S i =
     set (map fst (filter (\<lambda>(k, m). m AND i \<noteq> 0 \<and> (m AND (S - 1 - i) \<noteq> 0 \<or> k \<in> external)) cs))"

definition add_slots_at :: "'i list list \<Rightarrow> 'i set list \<Rightarrow> nat \<Rightarrow> 'i set list" where
  "add_slots_at rng res t = res[push_bit t 1 := res ! push_bit t 1 \<union> set (rng ! t)]"

definition subset_target_indices ::
    "('i \<Rightarrow> 'i list) \<Rightarrow> 'i list list \<Rightarrow> 'i list \<Rightarrow> bool list option \<Rightarrow> (index_error, 'i set list) result" where
  "subset_target_indices protos rng tixs connected =
     (let N = length rng; S = push_bit N 1;
          cs = carriers_of protos rng;
          external = inferred_external rng tixs;
          result = map (\<lambda>i. if i = 0 then {}
                       else case connected of
                              Some c \<Rightarrow> if \<not> c ! i then {} else subset_open cs external S i
                            | None \<Rightarrow> subset_open cs external S i) [0..<S]
      in if N > 24 then Inl IndexAssertion
         else Inr (foldl (add_slots_at rng) result [0..<N]))"

record 'i ltr_indices =
  children_of :: "'i set list"
  imed_of :: "'i set list"

fun prefixes :: "'i set \<Rightarrow> 'i set list \<Rightarrow> 'i set list" where
  "prefixes acc [] = []"
| "prefixes acc (s # ss) = (acc \<union> s) # prefixes (acc \<union> s) ss"

fun suffixes :: "'i set list \<Rightarrow> 'i set list" where
  "suffixes [] = []"
| "suffixes [s] = [{}]"
| "suffixes (s # s' # ss) = (let rest = suffixes (s' # ss) in (hd rest \<union> s') # rest)"

definition left_to_right_binarization_indices :: "'i set list \<Rightarrow> 'i set \<Rightarrow> 'i ltr_indices" where
  "left_to_right_binarization_indices rng uncontract =
     (let n = length rng; prefix = prefixes {} rng; suffix = suffixes rng
      in \<lparr>children_of = map (\<lambda>i. open_atoms (rng ! i) (suffix ! i \<union> (if i > 0 then prefix ! (i - 1) else {})) uncontract) [0..<n],
          imed_of = map (\<lambda>i. open_atoms (prefix ! i) (suffix ! i) uncontract) [0..<n]\<rparr>)"

section \<open>The unique indices are those that occur once\<close>

text \<open>On these indices both comparisons are the equality: no two of them are equal up to their tags.\<close>

definition separates :: "'i index_order \<Rightarrow> 'i set \<Rightarrow> bool" where
  "separates ix I \<longleftrightarrow>
     (\<forall>a\<in>I. \<forall>b\<in>I. (same_index ix a b \<longleftrightarrow> a = b)
        \<and> (\<not> index_before ix a b \<and> \<not> index_before ix b a \<longleftrightarrow> a = b))"

lemma remove_one_eq: "separates ix I \<Longrightarrow> set xs \<subseteq> I \<Longrightarrow> e \<in> I \<Longrightarrow> remove_one ix xs e = remove1 e xs"
  by (induction xs) (auto simp: separates_def)

lemma encountered_iff: "separates ix I \<Longrightarrow> set seen \<subseteq> I \<Longrightarrow> i \<in> I \<Longrightarrow> encountered ix seen i \<longleftrightarrow> i \<in> set seen"
  by (auto simp: separates_def encountered_def list_ex_iff)

definition ev_step :: "'i set \<times> (slot_type \<times> 'i) list \<Rightarrow> slot_type \<times> 'i \<Rightarrow> 'i set \<times> (slot_type \<times> 'i) list" where
  "ev_step st e =
     (if snd e \<notin> fst st then (insert (snd e) (fst st), snd st @ [e])
      else (fst st, filter (\<lambda>e'. snd e' \<noteq> snd e) (snd st)))"

definition slot_part :: "slot_type \<Rightarrow> (slot_type \<times> 'i) list \<Rightarrow> 'i list" where
  "slot_part s evs = map snd (filter (\<lambda>e. fst e = s) evs)"

definition groups_of :: "(slot_type \<times> 'i) list \<Rightarrow> 'i index_groups" where
  "groups_of evs = \<lparr>bra_of = slot_part BraSlot evs, ket_of = slot_part KetSlot evs, aux_of = slot_part AuxSlot evs\<rparr>"

definition kept :: "(slot_type \<times> 'i) list \<Rightarrow> (slot_type \<times> 'i) list" where
  "kept L = filter (\<lambda>e. count_list (map snd L) (snd e) = 1) L"

definition tagged :: "'i index_groups \<Rightarrow> (slot_type \<times> 'i) list" where
  "tagged g = map (Pair BraSlot) (bra_of g) @ map (Pair KetSlot) (ket_of g) @ map (Pair AuxSlot) (aux_of g)"

lemma ev_steps: "foldl ev_step ({}, []) L = (snd ` set L, kept L)"
proof (induction L rule: rev_induct)
  case (snoc e L)
  show ?case
  proof (cases "snd e \<in> snd ` set L")
    case True
    then have "count_list (map snd L) (snd e) \<noteq> 0" by (simp add: count_list_0_iff)
    then have "kept (L @ [e]) = filter (\<lambda>e'. snd e' \<noteq> snd e) (kept L)"
      by (auto simp: kept_def filter_filter intro!: filter_cong)
    then show ?thesis using snoc True by (auto simp: ev_step_def)
  next
    case False
    then have zero: "count_list (map snd L) (snd e) = 0" by (simp add: count_list_0_iff)
    have "kept (L @ [e]) = kept L @ [e]"
      using False zero by (auto simp: kept_def intro!: filter_cong)
    then show ?thesis using snoc False by (simp add: ev_step_def)
  qed
qed (simp add: kept_def)

definition ev_inv :: "slot_type set \<Rightarrow> 'i set \<times> (slot_type \<times> 'i) list \<Rightarrow> bool" where
  "ev_inv A st \<longleftrightarrow> distinct (map snd (snd st)) \<and> snd ` set (snd st) \<subseteq> fst st \<and> fst ` set (snd st) \<subseteq> A"

lemma ev_inv_step: "ev_inv A st \<Longrightarrow> fst e \<in> A \<Longrightarrow> ev_inv A (ev_step st e)"
  by (auto simp: ev_inv_def ev_step_def distinct_map inj_on_def)

lemma ev_inv_mono: "ev_inv A st \<Longrightarrow> A \<subseteq> B \<Longrightarrow> ev_inv B st"
  by (auto simp: ev_inv_def)

lemma ev_inv_steps: "ev_inv A st \<Longrightarrow> fst ` set L \<subseteq> A \<Longrightarrow> ev_inv A (foldl ev_step st L)"
  by (induction L arbitrary: st) (auto simp: ev_inv_step)

lemma slot_part_append [simp]: "slot_part s (xs @ ys) = slot_part s xs @ slot_part s ys"
  by (simp add: slot_part_def)

lemma slot_part_remove:
  assumes "separates ix I" "distinct (map snd E)" "snd ` set E \<subseteq> I" "i \<in> I"
  shows "slot_part s (filter (\<lambda>e. snd e \<noteq> i) E) = remove_one ix (slot_part s E) i"
proof -
  have d: "distinct (slot_part s E)" using assms(2) by (auto simp: slot_part_def distinct_map inj_on_def)
  have "set (slot_part s E) \<subseteq> I" using assms(3) by (auto simp: slot_part_def)
  then have "remove_one ix (slot_part s E) i = filter (\<lambda>j. j \<noteq> i) (slot_part s E)"
    using d by (simp add: remove_one_eq [OF assms(1) _ assms(4)] distinct_remove1_removeAll removeAll_filter_not_eq
        eq_commute [of i])
  then show ?thesis by (simp add: slot_part_def filter_map filter_filter comp_def conj_commute)
qed

lemma slot_part_none: "fst ` set E \<subseteq> A \<Longrightarrow> s \<notin> A \<Longrightarrow> slot_part s E = []"
  by (auto simp: slot_part_def filter_empty_conv)

text \<open>A state of the code reads as a state of the events: the same set of indices, the groups of the same events.\<close>

definition reads :: "'i set \<Rightarrow> 'i unique_state \<Rightarrow> 'i set \<times> (slot_type \<times> 'i) list \<Rightarrow> bool" where
  "reads I cst st \<longleftrightarrow> set (fst cst) = fst st \<and> snd cst = groups_of (snd st) \<and> fst st \<subseteq> I"

definition refines where
  "refines I f s A \<longleftrightarrow>
     (\<forall>cst st i. ev_inv A st \<longrightarrow> reads I cst st \<longrightarrow> i \<in> I \<longrightarrow> reads I (f cst i) (ev_step st (s, i)))"

lemma refines_fold:
  assumes "refines I f s A" "s \<in> A"
  shows "ev_inv A st \<Longrightarrow> reads I cst st \<Longrightarrow> set xs \<subseteq> I \<Longrightarrow>
    reads I (foldl f cst xs) (foldl ev_step st (map (Pair s) xs))"
proof (induction xs arbitrary: cst st)
  case (Cons x xs)
  have "reads I (f cst x) (ev_step st (s, x))"
    using assms(1) [unfolded refines_def, rule_format, OF Cons.prems(1,2)] Cons.prems(3) by simp
  moreover have "ev_inv A (ev_step st (s, x))"
    using ev_inv_step [OF Cons.prems(1)] assms(2) by simp
  ultimately show ?case using Cons.IH Cons.prems(3) by simp
qed simp

lemma refines_steps:
  assumes "separates ix I"
  shows "refines I (unique_bra ix) BraSlot {BraSlot}" "refines I (unique_ket ix) KetSlot {BraSlot, KetSlot}"
    "refines I (unique_aux ix) AuxSlot {BraSlot, KetSlot, AuxSlot}" "refines I (merge_bra ix) BraSlot UNIV"
    "refines I (merge_ket ix) KetSlot UNIV" "refines I (merge_aux ix) AuxSlot UNIV"
proof -
  have facts: "\<exists>seen. cst = (seen, groups_of (snd st)) \<and> set seen = fst st \<and> (encountered ix seen i \<longleftrightarrow> i \<in> fst st)
      \<and> (\<forall>s. remove_one ix (slot_part s (snd st)) i = slot_part s (filter (\<lambda>e. snd e \<noteq> i) (snd st)))"
    if "ev_inv A st" "reads I cst st" "i \<in> I" for A cst i and st :: "'a set \<times> (slot_type \<times> 'a) list"
  proof -
    have "slot_part s (filter (\<lambda>e. snd e \<noteq> i) (snd st)) = remove_one ix (slot_part s (snd st)) i" for s
      by (rule slot_part_remove [OF assms _ _ that(3)]) (use that in \<open>auto simp: ev_inv_def reads_def\<close>)
    moreover have "encountered ix (fst cst) i \<longleftrightarrow> i \<in> fst st"
      using encountered_iff [OF assms _ that(3)] that(2) by (simp add: reads_def)
    ultimately show ?thesis using that(2) by (cases cst) (simp add: reads_def)
  qed
  have none: "slot_part s (filter P (snd st)) = []"
    if "ev_inv A st" "s \<notin> A" for A s P and st :: "'a set \<times> (slot_type \<times> 'a) list"
    by (rule slot_part_none [of _ A]) (use that in \<open>auto simp: ev_inv_def\<close>)
  have none': "slot_part s (snd st) = []"
    if "ev_inv A st" "s \<notin> A" for A s and st :: "'a set \<times> (slot_type \<times> 'a) list"
    by (rule slot_part_none [of _ A]) (use that in \<open>auto simp: ev_inv_def\<close>)
  note rules = reads_def groups_of_def ev_step_def remove_everywhere_def
  have step: "refines I f s A"
    if "\<And>seen st i. ev_inv A st \<Longrightarrow> set seen = fst st \<Longrightarrow> fst st \<subseteq> I \<Longrightarrow> i \<in> I \<Longrightarrow>
        (encountered ix seen i \<longleftrightarrow> i \<in> fst st) \<Longrightarrow>
        (\<And>s. remove_one ix (slot_part s (snd st)) i = slot_part s (filter (\<lambda>e. snd e \<noteq> i) (snd st))) \<Longrightarrow>
        reads I (f (seen, groups_of (snd st)) i) (ev_step st (s, i))"
    for f :: "'a unique_state \<Rightarrow> 'a \<Rightarrow> 'a unique_state" and s A
    unfolding refines_def
  proof (intro allI impI)
    fix cst st i
    assume h: "ev_inv A st" "reads I cst st" "i \<in> I"
    obtain seen where "cst = (seen, groups_of (snd st))" "set seen = fst st" "encountered ix seen i \<longleftrightarrow> i \<in> fst st"
      "\<forall>s. remove_one ix (slot_part s (snd st)) i = slot_part s (filter (\<lambda>e. snd e \<noteq> i) (snd st))"
      using facts [OF h] by blast
    then show "reads I (f cst i) (ev_step st (s, i))"
      using that [of st seen i] h by (simp add: reads_def)
  qed
  have single: "slot_part s [(t, i)] = (if s = t then [i] else [])" for s t and i :: 'a
    by (simp add: slot_part_def)
  show "refines I (unique_bra ix) BraSlot {BraSlot}"
    by (rule step) (simp_all add: rules single none none')
  show "refines I (unique_ket ix) KetSlot {BraSlot, KetSlot}"
    by (rule step) (simp_all add: rules single none none')
  show "refines I (unique_aux ix) AuxSlot {BraSlot, KetSlot, AuxSlot}"
    by (rule step) (simp_all add: rules single)
  show "refines I (merge_bra ix) BraSlot UNIV"
    by (rule step) (simp_all add: rules single)
  show "refines I (merge_ket ix) KetSlot UNIV"
    by (rule step) (simp_all add: rules single)
  show "refines I (merge_aux ix) AuxSlot UNIV"
    by (rule step) (simp_all add: rules single)
qed

lemma tagged_parts: "map snd (tagged g) = tensor_slots g"
  by (simp add: tagged_def comp_def)

lemma slot_part_tagged [simp]:
  "slot_part BraSlot (tagged g) = bra_of g" "slot_part KetSlot (tagged g) = ket_of g" "slot_part AuxSlot (tagged g) = aux_of g"
  by (simp_all add: slot_part_def tagged_def filter_map comp_def)

lemma reads_start: "reads I ([], no_groups) ({}, [])"
  by (simp add: reads_def groups_of_def slot_part_def)

lemma tensor_kept:
  assumes "separates ix I" "set (tensor_slots t) \<subseteq> I"
  shows "get_unique_tensor ix t = groups_of (kept (tagged t))"
proof -
  let ?b = "foldl ev_step ({}, []) (map (Pair BraSlot) (bra_of t))"
  let ?k = "foldl ev_step ?b (map (Pair KetSlot) (ket_of t))"
  have b: "ev_inv {BraSlot} ?b" by (rule ev_inv_steps) (auto simp: ev_inv_def)
  have b': "ev_inv {BraSlot, KetSlot} ?b" by (rule ev_inv_mono [OF b]) auto
  have k: "ev_inv {BraSlot, KetSlot} ?k" by (rule ev_inv_steps [OF b']) auto
  have k': "ev_inv {BraSlot, KetSlot, AuxSlot} ?k" by (rule ev_inv_mono [OF k]) auto
  have e: "ev_inv {BraSlot} ({}, [])" by (simp add: ev_inv_def)
  have sets: "set (bra_of t) \<subseteq> I" "set (ket_of t) \<subseteq> I" "set (aux_of t) \<subseteq> I" using assms(2) by auto
  note steps = refines_steps [OF assms(1)]
  have 1: "reads I (foldl (unique_bra ix) ([], no_groups) (bra_of t)) ?b"
    by (rule refines_fold [OF steps(1) _ e reads_start sets(1)]) simp
  have 2: "reads I (foldl (unique_ket ix) (foldl (unique_bra ix) ([], no_groups) (bra_of t)) (ket_of t)) ?k"
    by (rule refines_fold [OF steps(2) _ b' 1 sets(2)]) simp
  have "reads I (foldl (unique_aux ix) (foldl (unique_ket ix) (foldl (unique_bra ix) ([], no_groups) (bra_of t)) (ket_of t))
      (aux_of t)) (foldl ev_step ?k (map (Pair AuxSlot) (aux_of t)))"
    by (rule refines_fold [OF steps(3) _ k' 2 sets(3)]) simp
  then have "get_unique_tensor ix t = groups_of (snd (foldl ev_step ({}, []) (tagged t)))"
    by (simp add: get_unique_tensor_def tagged_def reads_def)
  then show ?thesis by (simp add: ev_steps)
qed

lemma merge_factor_steps:
  assumes "separates ix I" "set (tensor_slots f) \<subseteq> I" "ev_inv UNIV st" "reads I cst st"
  shows "reads I (merge_factor ix cst f) (foldl ev_step st (tagged f))"
proof -
  let ?b = "foldl ev_step st (map (Pair BraSlot) (bra_of f))"
  let ?k = "foldl ev_step ?b (map (Pair KetSlot) (ket_of f))"
  have b: "ev_inv UNIV ?b" by (rule ev_inv_steps [OF assms(3)]) auto
  have k: "ev_inv UNIV ?k" by (rule ev_inv_steps [OF b]) auto
  have sets: "set (bra_of f) \<subseteq> I" "set (ket_of f) \<subseteq> I" "set (aux_of f) \<subseteq> I" using assms(2) by auto
  note steps = refines_steps [OF assms(1)]
  have "reads I (foldl (merge_bra ix) cst (bra_of f)) ?b"
    by (rule refines_fold [OF steps(4) UNIV_I assms(3,4) sets(1)])
  then have "reads I (foldl (merge_ket ix) (foldl (merge_bra ix) cst (bra_of f)) (ket_of f)) ?k"
    by (rule refines_fold [OF steps(5) UNIV_I b _ sets(2)])
  then show ?thesis
    using refines_fold [OF steps(6) UNIV_I k _ sets(3)] by (simp add: merge_factor_def tagged_def)
qed

lemma unique_factors_steps:
  assumes "separates ix I"
  shows "list_all2 (\<lambda>e f. get_unique_indices ix e = Inr f) es fs \<Longrightarrow> \<forall>f\<in>set fs. set (tensor_slots f) \<subseteq> I \<Longrightarrow>
    ev_inv UNIV st \<Longrightarrow> reads I cst st \<Longrightarrow>
    unique_factors ix es cst = Inr (groups_of (snd (foldl ev_step st (concat (map tagged fs)))))"
proof (induction es fs arbitrary: cst st rule: list_all2_induct)
  case Nil
  then show ?case by (simp add: reads_def)
next
  case (Cons e es f fs)
  have inv: "ev_inv UNIV (foldl ev_step st (tagged f))" by (rule ev_inv_steps [OF Cons.prems(2)]) auto
  have rd: "reads I (merge_factor ix cst f) (foldl ev_step st (tagged f))"
    using merge_factor_steps [OF assms _ Cons.prems(2,3), of f] Cons.prems(1) by simp
  show ?case using Cons.IH [OF _ inv rd] Cons.hyps Cons.prems(1) by simp
qed

lemma product_kept:
  assumes "separates ix I" "list_all2 (\<lambda>e f. get_unique_indices ix e = Inr f) es fs"
    "\<forall>f\<in>set fs. set (tensor_slots f) \<subseteq> I"
  shows "get_unique_indices ix (ProductX es) = Inr (groups_of (kept (concat (map tagged fs))))"
  using unique_factors_steps [OF assms _ reads_start] by (simp add: ev_inv_def ev_steps)

text \<open>The indices of a group that occur once in all the slots.\<close>

definition once_in :: "'i list \<Rightarrow> 'i list \<Rightarrow> 'i list" where
  "once_in all_slots gp = filter (\<lambda>i. count_list all_slots i = 1) gp"

lemma slot_part_kept: "slot_part s (kept L) = once_in (map snd L) (slot_part s L)"
  by (simp add: slot_part_def kept_def once_in_def filter_map filter_filter comp_def conj_commute)

lemma slot_part_concat: "slot_part s (concat Ls) = concat (map (slot_part s) Ls)"
  by (induction Ls) (simp_all add: slot_part_def)

lemma groups_kept:
  "groups_of (kept (concat (map tagged fs))) =
     (let all_slots = concat (map tensor_slots fs)
      in \<lparr>bra_of = once_in all_slots (concat (map bra_of fs)), ket_of = once_in all_slots (concat (map ket_of fs)),
          aux_of = once_in all_slots (concat (map aux_of fs))\<rparr>)"
  by (simp add: groups_of_def slot_part_kept slot_part_concat map_concat comp_def tagged_parts Let_def)

text \<open>
  C26: on indices that both comparisons of the code tell apart, the unique indices of a tensor are, slot by slot
  and in slot order, the indices that occur once among all its slots; those of a product are, group by group in
  the order of the factors, the indices that occur once among the unique indices of the factors, so that an index
  repeated inside one factor is not seen again; and whatever the comparisons, a product fails exactly when a
  factor does.
\<close>

theorem unique_indices_occur_once:
  "(separates ix I \<longrightarrow> set (tensor_slots (slots_of t)) \<subseteq> I \<longrightarrow>
     get_unique_indices ix (TensorX t) =
       (let g = slots_of t; s = tensor_slots g
        in Inr \<lparr>bra_of = once_in s (bra_of g), ket_of = once_in s (ket_of g), aux_of = once_in s (aux_of g)\<rparr>))
   \<and> (separates ix I \<longrightarrow> list_all2 (\<lambda>e f. get_unique_indices ix e = Inr f \<and> set (tensor_slots f) \<subseteq> I) es fs \<longrightarrow>
       get_unique_indices ix (ProductX es) =
         (let s = concat (map tensor_slots fs)
          in Inr \<lparr>bra_of = once_in s (concat (map bra_of fs)), ket_of = once_in s (concat (map ket_of fs)),
                  aux_of = once_in s (concat (map aux_of fs))\<rparr>))
   \<and> ((\<exists>err. get_unique_indices ix (ProductX es) = Inl err) \<longleftrightarrow>
       (\<exists>e\<in>set es. \<exists>err. get_unique_indices ix e = Inl err))"
proof (intro conjI impI)
  show "get_unique_indices ix (TensorX t) =
     (let g = slots_of t; s = tensor_slots g
      in Inr \<lparr>bra_of = once_in s (bra_of g), ket_of = once_in s (ket_of g), aux_of = once_in s (aux_of g)\<rparr>)"
    if "separates ix I" "set (tensor_slots (slots_of t)) \<subseteq> I"
    using groups_kept [of "[slots_of t]"] by (simp add: tensor_kept [OF that] Let_def)
  show "get_unique_indices ix (ProductX es) =
         (let s = concat (map tensor_slots fs)
          in Inr \<lparr>bra_of = once_in s (concat (map bra_of fs)), ket_of = once_in s (concat (map ket_of fs)),
                  aux_of = once_in s (concat (map aux_of fs))\<rparr>)"
    if sep: "separates ix I"
      and facs: "list_all2 (\<lambda>e f. get_unique_indices ix e = Inr f \<and> set (tensor_slots f) \<subseteq> I) es fs"
  proof -
    have "list_all2 (\<lambda>e f. get_unique_indices ix e = Inr f) es fs" "\<forall>f\<in>set fs. set (tensor_slots f) \<subseteq> I"
      using facs by (auto simp: list_all2_conv_all_nth all_set_conv_all_nth)
    then show ?thesis by (simp only: product_kept [OF sep] groups_kept Let_def)
  qed
  have "(\<exists>err. unique_factors ix es st = Inl err) \<longleftrightarrow> (\<exists>e\<in>set es. \<exists>err. get_unique_indices ix e = Inl err)" for es st
  proof (induction es arbitrary: st)
    case (Cons e es)
    then show ?case by (cases "get_unique_indices ix e") auto
  qed simp
  then show "(\<exists>err. get_unique_indices ix (ProductX es) = Inl err) \<longleftrightarrow>
      (\<exists>e\<in>set es. \<exists>err. get_unique_indices ix e = Inl err)"
    by simp
qed

abbreviation nat_order :: "nat index_order" where
  "nat_order \<equiv> \<lparr>same_index = (=), index_before = (<)\<rparr>"

lemma unique_indices_occur_once_witness:
  "get_unique_indices nat_order (ProductX [TensorX \<lparr>tensor_label = [103], slots_of = \<lparr>bra_of = [1, 2], ket_of = [3], aux_of = []\<rparr>\<rparr>,
       TensorX \<lparr>tensor_label = [116], slots_of = \<lparr>bra_of = [3], ket_of = [2, 4], aux_of = [5]\<rparr>\<rparr>]) =
     Inr \<lparr>bra_of = [1], ket_of = [4], aux_of = [5]\<rparr>
   \<and> get_unique_indices nat_order (TensorX \<lparr>tensor_label = [103], slots_of = \<lparr>bra_of = [1, 2], ket_of = [2, 3], aux_of = []\<rparr>\<rparr>) =
     Inr \<lparr>bra_of = [1], ket_of = [3], aux_of = []\<rparr>"
proof -
  let ?es = "[TensorX \<lparr>tensor_label = [103], slots_of = \<lparr>bra_of = [1, 2 :: nat], ket_of = [3], aux_of = []\<rparr>\<rparr>,
       TensorX \<lparr>tensor_label = [116], slots_of = \<lparr>bra_of = [3], ket_of = [2, 4], aux_of = [5]\<rparr>\<rparr>]"
  let ?fs = "[\<lparr>bra_of = [1, 2 :: nat], ket_of = [3], aux_of = []\<rparr>, \<lparr>bra_of = [3], ket_of = [2, 4], aux_of = [5]\<rparr>]"
  let ?t = "\<lparr>tensor_label = [103], slots_of = \<lparr>bra_of = [1, 2 :: nat], ket_of = [2, 3], aux_of = []\<rparr>\<rparr>"
  have sep: "separates nat_order UNIV" by (auto simp: separates_def)
  have "list_all2 (\<lambda>e f. get_unique_indices nat_order e = Inr f \<and> set (tensor_slots f) \<subseteq> UNIV) ?es ?fs"
    by (simp add: get_unique_tensor_def encountered_def)
  from unique_indices_occur_once [THEN conjunct2, THEN conjunct1, rule_format, OF sep this]
    unique_indices_occur_once [of nat_order UNIV ?t, THEN conjunct1, rule_format, OF sep subset_UNIV]
  show ?thesis by (simp add: once_in_def)
qed

text \<open>
  Where the doc of the product says the non-repeated indices, an index repeated inside one factor and met again
  in the next is returned: the first factor does not report it.
\<close>

lemma product_reports_repeated:
  "get_unique_indices nat_order (ProductX [TensorX \<lparr>tensor_label = [65], slots_of = \<lparr>bra_of = [1], ket_of = [1], aux_of = []\<rparr>\<rparr>,
       TensorX \<lparr>tensor_label = [66], slots_of = \<lparr>bra_of = [1], ket_of = [], aux_of = []\<rparr>\<rparr>]) =
     Inr \<lparr>bra_of = [1], ket_of = [], aux_of = []\<rparr>"
  by (simp add: get_unique_tensor_def merge_factor_def encountered_def)

text \<open>
  The set of the encountered indices is ordered by a comparison that reads the tags, the removal compares without
  them: of two equal indices with different tags (a label and a tag here) both are kept.
\<close>

lemma tagged_duplicates_kept:
  "get_unique_indices \<lparr>same_index = (\<lambda>(a, _) (b, _). a = b), index_before = (\<lambda>(a, s) (b, t). a < b \<or> a = b \<and> s < t)\<rparr>
      (TensorX \<lparr>tensor_label = [65], slots_of = \<lparr>bra_of = [(1 :: nat, 0 :: nat)], ket_of = [(1, 1)], aux_of = []\<rparr>\<rparr>) =
     Inr \<lparr>bra_of = [(1, 0)], ket_of = [(1, 1)], aux_of = []\<rparr>"
  by (simp add: get_unique_tensor_def encountered_def)

section \<open>The bitmask tables implement the rule of the open atoms\<close>

definition carrier_mask :: "('i \<times> nat) list \<Rightarrow> 'i \<Rightarrow> nat" where
  "carrier_mask cs k = (case map_of cs k of None \<Rightarrow> 0 | Some m \<Rightarrow> m)"

lemma or_at_keys: "fst ` set (or_at b cs k) = insert k (fst ` set cs)"
  by (induction b cs k rule: or_at.induct) auto

lemma or_at_distinct: "distinct (map fst cs) \<Longrightarrow> distinct (map fst (or_at b cs k))"
  by (induction b cs k rule: or_at.induct) (auto simp: or_at_keys)

lemma or_at_mask: "carrier_mask (or_at b cs k) j = (if j = k then carrier_mask cs k OR b else carrier_mask cs j)"
  by (induction b cs k rule: or_at.induct) (auto simp: carrier_mask_def)

lemma or_ats_mask:
  "carrier_mask (foldl (or_at b) cs ks) j = (if j \<in> set ks then carrier_mask cs j OR b else carrier_mask cs j)"
proof (induction ks arbitrary: cs)
  case (Cons k ks)
  then show ?case by (auto simp: or_at_mask bit_eq_iff bit_or_iff)
qed simp

lemma or_ats_distinct: "distinct (map fst cs) \<Longrightarrow> distinct (map fst (foldl (or_at b) cs ks))"
  by (induction ks arbitrary: cs) (auto simp: or_at_distinct)

lemma carriers_fold:
  "distinct (map fst (foldl (add_carriers protos rng) [] ts))
   \<and> (\<forall>k n. bit (carrier_mask (foldl (add_carriers protos rng) [] ts) k) n \<longleftrightarrow> n \<in> set ts \<and> k \<in> set (carried_list protos (rng ! n)))"
proof (induction ts rule: rev_induct)
  case (snoc t ts)
  then show ?case
    by (auto simp: add_carriers_def or_ats_distinct or_ats_mask bit_or_iff bit_exp_iff)
qed (simp add: carrier_mask_def)

lemma carriers_bit:
  "bit (carrier_mask (carriers_of protos rng) k) n \<longleftrightarrow> n < length rng \<and> k \<in> set (carried_list protos (rng ! n))"
  using carriers_fold [of protos rng "[0..<length rng]"] by (simp add: carriers_of_def)

lemma and_nonzero: "(m AND i :: nat) \<noteq> 0 \<longleftrightarrow> (\<exists>t. bit m t \<and> bit i t)"
  by (metis bit_0_eq bit_and_iff bit_eqI bot_apply bot_bool_def)

lemma complement_bit:
  assumes "i < 2 ^ N"
  shows "bit (2 ^ N - 1 - i :: nat) t \<longleftrightarrow> t < N \<and> \<not> bit i t"
proof -
  have "bit (int (2 ^ N - 1 - i)) t \<longleftrightarrow> t < N \<and> \<not> bit (int i) t"
  proof -
    have "int (2 ^ N - 1 - i) = take_bit N (NOT (int i))"
      using assms by (simp add: take_bit_not_eq_mask_diff mask_eq_exp_minus_1 of_nat_diff take_bit_int_eq_self)
    then show ?thesis by (simp add: bit_take_bit_iff bit_not_iff)
  qed
  then show ?thesis by (simp add: bit_of_nat_iff_bit)
qed

lemma subset_open_eq:
  assumes "distinct (map fst cs)"
  shows "subset_open cs external S i =
     {k. carrier_mask cs k AND i \<noteq> 0 \<and> (carrier_mask cs k AND (S - 1 - i) \<noteq> 0 \<or> k \<in> external)}"
proof -
  have "k \<in> subset_open cs external S i \<longleftrightarrow>
      (\<exists>m. map_of cs k = Some m \<and> m AND i \<noteq> 0 \<and> (m AND (S - 1 - i) \<noteq> 0 \<or> k \<in> external))" for k
    using assms by (auto simp: subset_open_def map_of_eq_Some_iff image_iff)
  then show ?thesis
    by (auto simp: carrier_mask_def split: option.splits)
qed

text \<open>The external indices are the targets and the indices of exactly one slot.\<close>

definition external_of :: "'i list list \<Rightarrow> 'i list \<Rightarrow> 'i set" where
  "external_of rng tixs = set tixs \<union> {i. count_list (concat rng) i = 1}"

lemma slot_counts_fold:
  assumes "distinct (map fst cs)" "\<forall>i n. (i, n) \<in> set cs \<longleftrightarrow> n = count_list done i \<and> n > 0"
  shows "distinct (map fst (foldl add_slot_count cs xs))
    \<and> (\<forall>i n. (i, n) \<in> set (foldl add_slot_count cs xs) \<longleftrightarrow> n = count_list (done @ xs) i \<and> n > 0)"
  using assms
proof (induction xs arbitrary: cs "done")
  case (Cons x xs)
  have keys: "fst ` set (add_slot_count cs' x) = insert x (fst ` set cs')" for cs' :: "('a \<times> nat) list"
    by (induction cs' x rule: add_slot_count.induct) auto
  have step: "distinct (map fst cs') \<Longrightarrow> distinct (map fst (add_slot_count cs' x))
      \<and> ((i, n) \<in> set (add_slot_count cs' x) \<longleftrightarrow>
         (if i = x then (if \<exists>m. (x, m) \<in> set cs' then \<exists>m. n = Suc m \<and> (x, m) \<in> set cs' else n = 1)
          else (i, n) \<in> set cs'))" for cs' :: "('a \<times> nat) list" and i n
  proof (induction cs' x rule: add_slot_count.induct)
    case (2 j m cs' x)
    then show ?case
    proof (cases "j = x")
      case False
      moreover have "j \<notin> fst ` set (add_slot_count cs' x)"
      proof -
        have "fst ` set (add_slot_count cs' x) = insert x (fst ` set cs')"
          by (induction cs' x rule: add_slot_count.induct) auto
        then show ?thesis using 2(2) False by auto
      qed
      ultimately show ?thesis using 2 by auto
    qed (force simp: image_iff)
  qed auto
  have "distinct (map fst (add_slot_count cs x))" using step [OF Cons.prems(1)] by simp
  moreover have "\<forall>i n. (i, n) \<in> set (add_slot_count cs x) \<longleftrightarrow> n = count_list (done @ [x]) i \<and> n > 0"
    using step [OF Cons.prems(1)] Cons.prems(2) by auto
  ultimately show ?case using Cons.IH [of "add_slot_count cs x" "done @ [x]"] by simp
qed simp

lemma add_singles_eq: "add_singles ext cs = ext \<union> {i. (i, 1) \<in> set cs}"
  by (induction ext cs rule: add_singles.induct) auto

lemma slot_counts_concat: "slot_counts rng = foldl add_slot_count [] (concat rng)"
proof -
  have "foldl (\<lambda>cs slots. foldl add_slot_count cs slots) cs rng = foldl add_slot_count cs (concat rng)"
    for cs :: "('a \<times> nat) list"
    by (induction rng arbitrary: cs) simp_all
  then show ?thesis by (simp add: slot_counts_def)
qed

lemma inferred_external_eq: "inferred_external rng tixs = external_of rng tixs"
proof -
  have "\<forall>i n. (i, n) \<in> set (slot_counts rng) \<longleftrightarrow> n = count_list (concat rng) i \<and> n > 0"
    unfolding slot_counts_concat
    by (rule slot_counts_fold [of "[]" "[]" "concat rng", THEN conjunct2, unfolded append_Nil]) auto
  then show ?thesis by (auto simp: inferred_external_def external_of_def add_singles_eq)
qed

text \<open>The atoms that the tensors of a mask carry.\<close>

definition part_atoms :: "('i \<Rightarrow> 'i list) \<Rightarrow> 'i list list \<Rightarrow> (nat \<Rightarrow> bool) \<Rightarrow> 'i set" where
  "part_atoms protos rng P = (\<Union>t\<in>{t. t < length rng \<and> P t}. carried_atoms protos {} (rng ! t))"

lemma subset_open_rule:
  assumes "i < 2 ^ length rng"
  shows "subset_open (carriers_of protos rng) external (2 ^ length rng) i =
     open_atoms (part_atoms protos rng (bit i)) (part_atoms protos rng (\<lambda>t. \<not> bit i t)) external"
proof -
  have "distinct (map fst (carriers_of protos rng))"
    using carriers_fold [of protos rng "[0..<length rng]"] by (simp add: carriers_of_def)
  from subset_open_eq [OF this]
  have "subset_open (carriers_of protos rng) external (2 ^ length rng) i =
      {k. (\<exists>t. bit (carrier_mask (carriers_of protos rng) k) t \<and> bit i t) \<and>
          ((\<exists>t. bit (carrier_mask (carriers_of protos rng) k) t \<and> bit (2 ^ length rng - 1 - i) t) \<or> k \<in> external)}"
    unfolding and_nonzero by blast
  also have "\<dots> = {k. (\<exists>t<length rng. k \<in> set (carried_list protos (rng ! t)) \<and> bit i t) \<and>
          ((\<exists>t<length rng. k \<in> set (carried_list protos (rng ! t)) \<and> \<not> bit i t) \<or> k \<in> external)}"
    unfolding carriers_bit complement_bit [OF assms] by blast
  also have "\<dots> = open_atoms (part_atoms protos rng (bit i)) (part_atoms protos rng (\<lambda>t. \<not> bit i t)) external"
    by (auto simp: open_atoms_def part_atoms_def carried_atoms_def)
  finally show ?thesis .
qed

lemma add_slots_length: "length (foldl (add_slots_at rng) res ts) = length res"
  by (induction ts arbitrary: res) (simp_all add: add_slots_at_def)

lemma add_slots_nth:
  "distinct ts \<Longrightarrow> \<forall>t\<in>set ts. 2 ^ t < length res \<Longrightarrow> i < length res \<Longrightarrow>
   foldl (add_slots_at rng) res ts ! i = res ! i \<union> (\<Union>t\<in>{t\<in>set ts. i = 2 ^ t}. set (rng ! t))"
proof (induction ts rule: rev_induct)
  case (snoc t ts)
  define R where "R = foldl (add_slots_at rng) res ts"
  have IH: "R ! i = res ! i \<union> (\<Union>t\<in>{t\<in>set ts. i = 2 ^ t}. set (rng ! t))"
    using snoc unfolding R_def by simp
  have len: "length R = length res" by (simp only: R_def add_slots_length)
  have step: "foldl (add_slots_at rng) res (ts @ [t]) = R[2 ^ t := R ! (2 ^ t) \<union> set (rng ! t)]"
    by (simp add: R_def add_slots_at_def push_bit_eq_mult)
  show ?case
  proof (cases "i = 2 ^ t")
    case True
    then have "{t' \<in> set (ts @ [t]). i = 2 ^ t'} = {t}" "{t' \<in> set ts. i = 2 ^ t'} = {}"
      using snoc.prems(1) by auto
    then show ?thesis
      using IH True snoc.prems len by (simp only: step) simp
  next
    case False
    then have "{t' \<in> set (ts @ [t]). i = 2 ^ t'} = {t' \<in> set ts. i = 2 ^ t'}" by auto
    then show ?thesis using IH False by (simp only: step) simp
  qed
qed simp

lemma subset_targets_open_atoms:
  "(length rng > 24 \<longrightarrow> subset_target_indices protos rng tixs connected = Inl IndexAssertion)
   \<and> (length rng \<le> 24 \<longrightarrow>
      (\<exists>res. subset_target_indices protos rng tixs connected = Inr res \<and> length res = 2 ^ length rng
        \<and> (\<forall>i < 2 ^ length rng.
             res ! i =
               (if i \<noteq> 0 \<and> (case connected of None \<Rightarrow> True | Some c \<Rightarrow> c ! i)
                then open_atoms (part_atoms protos rng (bit i)) (part_atoms protos rng (\<lambda>t. \<not> bit i t)) (external_of rng tixs)
                else {})
               \<union> (\<Union>t\<in>{t. t < length rng \<and> i = 2 ^ t}. set (rng ! t)))))"
proof (intro conjI impI)
  assume n: "length rng \<le> 24"
  let ?S = "2 ^ length rng :: nat"
  let ?open = "\<lambda>i. open_atoms (part_atoms protos rng (bit i)) (part_atoms protos rng (\<lambda>t. \<not> bit i t)) (external_of rng tixs)"
  let ?res = "map (\<lambda>i. if i \<noteq> 0 \<and> (case connected of None \<Rightarrow> True | Some c \<Rightarrow> c ! i) then ?open i else {}) [0..<?S]"
  have "subset_target_indices protos rng tixs connected = Inr (foldl (add_slots_at rng) ?res [0..<length rng])"
    using n by (auto simp: subset_target_indices_def Let_def push_bit_eq_mult inferred_external_eq subset_open_rule [of _ rng protos "external_of rng tixs"]
        intro!: arg_cong [where f = "\<lambda>r. foldl (add_slots_at rng) r [0..<length rng]"] split: option.splits)
  moreover have "foldl (add_slots_at rng) ?res [0..<length rng] ! i =
      ?res ! i \<union> (\<Union>t\<in>{t\<in>set [0..<length rng]. i = 2 ^ t}. set (rng ! t))" if "i < ?S" for i
    using that by (intro add_slots_nth) auto
  moreover have "?res ! i = (if i \<noteq> 0 \<and> (case connected of None \<Rightarrow> True | Some c \<Rightarrow> c ! i) then ?open i else {})" if "i < ?S" for i
  proof -
    have "[0..<?S] ! i = i" using that by simp
    then show ?thesis using that by (simp cong: option.case_cong)
  qed
  ultimately show "\<exists>res. subset_target_indices protos rng tixs connected = Inr res \<and> length res = ?S
        \<and> (\<forall>i < ?S. res ! i =
               (if i \<noteq> 0 \<and> (case connected of None \<Rightarrow> True | Some c \<Rightarrow> c ! i) then ?open i else {})
               \<union> (\<Union>t\<in>{t. t < length rng \<and> i = 2 ^ t}. set (rng ! t)))"
    by (intro exI [of _ "foldl (add_slots_at rng) ?res [0..<length rng]"] conjI allI impI)
      (simp_all only: add_slots_length length_map length_upt diff_zero set_upt atLeastLessThan_iff le0 simp_thms)
qed (simp add: subset_target_indices_def)

text \<open>
  C27: for up to 24 tensors the table holds, for every nonempty mask that is not pruned, the open atoms of its
  tensors in the rest of the network with the targets and the indices that occur once as the external ones; a
  single tensor also keeps all its slots, and a pruned mask of several tensors has nothing.  More tensors are refused.
\<close>

theorem subset_targets_are_open_atoms:
  "(length rng > 24 \<longrightarrow> subset_target_indices protos rng tixs connected = Inl IndexAssertion)
   \<and> (length rng \<le> 24 \<longrightarrow>
      (\<exists>res. subset_target_indices protos rng tixs connected = Inr res \<and> length res = 2 ^ length rng
        \<and> (\<forall>i < 2 ^ length rng.
             res ! i =
               (if i \<noteq> 0 \<and> (case connected of None \<Rightarrow> True | Some c \<Rightarrow> c ! i)
                then open_atoms (part_atoms protos rng (bit i)) (part_atoms protos rng (\<lambda>t. \<not> bit i t)) (external_of rng tixs)
                else {})
               \<union> (\<Union>t\<in>{t. t < length rng \<and> i = 2 ^ t}. set (rng ! t)))))"
  by (rule subset_targets_open_atoms)

lemma subset_targets_are_open_atoms_witness:
  "\<exists>res. subset_target_indices (\<lambda>i. if i = 9 then [1] else []) [[1, 2], [2, 9], [9 :: nat]] [1] None = Inr res \<and> length res = 8
     \<and> res ! 5 = open_atoms (part_atoms (\<lambda>i. if i = 9 then [1] else []) [[1, 2], [2, 9], [9]] (bit (5 :: nat)))
         (part_atoms (\<lambda>i. if i = 9 then [1] else []) [[1, 2], [2, 9], [9]] (\<lambda>t. \<not> bit (5 :: nat) t)) (external_of [[1, 2], [2, 9], [9]] [1])"
proof -
  let ?p = "\<lambda>i. if i = 9 then [1 :: nat] else []" and ?rng = "[[1, 2], [2, 9], [9 :: nat]]"
  obtain res where res: "subset_target_indices ?p ?rng [1] None = Inr res" "length res = 2 ^ length ?rng"
    and at: "\<forall>i < 2 ^ length ?rng. res ! i =
               (if i \<noteq> 0 \<and> (case None of None \<Rightarrow> True | Some c \<Rightarrow> c ! i)
                then open_atoms (part_atoms ?p ?rng (bit i)) (part_atoms ?p ?rng (\<lambda>t. \<not> bit i t)) (external_of ?rng [1])
                else {}) \<union> (\<Union>t\<in>{t. t < length ?rng \<and> i = 2 ^ t}. set (?rng ! t))"
    using subset_targets_are_open_atoms [of ?rng ?p "[1]" None] by auto
  have "t < 3 \<Longrightarrow> 5 \<noteq> (2 :: nat) ^ t" for t
    by (cases "t = 0"; cases "t = 1"; cases "t = 2") auto
  then have "{t. t < length ?rng \<and> 5 = (2 :: nat) ^ t} = {}" by auto
  then have "res ! 5 = open_atoms (part_atoms ?p ?rng (bit (5 :: nat))) (part_atoms ?p ?rng (\<lambda>t. \<not> bit (5 :: nat) t)) (external_of ?rng [1])"
    using at [rule_format, of 5] by (simp only:) simp
  then show ?thesis using res by simp
qed

section \<open>Left-to-right intermediates\<close>

lemma prefixes_nth: "i < length ss \<Longrightarrow> prefixes acc ss ! i = acc \<union> \<Union> (set (take (Suc i) ss))"
  by (induction acc ss arbitrary: i rule: prefixes.induct) (auto simp: nth_Cons split: nat.splits)

lemma length_suffixes: "length (suffixes ss) = length ss"
  by (induction ss rule: suffixes.induct) (simp_all add: Let_def)

lemma suffixes_nth: "i < length ss \<Longrightarrow> suffixes ss ! i = \<Union> (set (drop (Suc i) ss))"
proof (induction ss arbitrary: i rule: suffixes.induct)
  case (3 s s' ss)
  have "hd (suffixes (s' # ss)) = suffixes (s' # ss) ! 0"
    using length_suffixes [of "s' # ss"] by (cases "suffixes (s' # ss)") auto
  then have "hd (suffixes (s' # ss)) = \<Union> (set ss)" using 3(1) [of 0] by simp
  with 3 show ?case by (cases i) (auto simp: Let_def)
qed simp_all

text \<open>
  the intermediate after the first (i+1) factors keeps exactly the atoms of these that a later factor carries
  or that are declared external, and a factor keeps the atoms that any other factor carries or that are external;
  so, with the external indices that subset_target_indices infers declared, the intermediates of two or more
  factors are the entries of its table at the prefix masks.
\<close>

theorem left_to_right_prefixes:
  assumes "length slots \<le> 24" and "rng = map (carried_atoms protos {}) slots" and "i < length slots"
  shows "imed_of (left_to_right_binarization_indices rng ext) ! i = open_atoms (\<Union> (set (take (Suc i) rng))) (\<Union> (set (drop (Suc i) rng))) ext
    \<and> children_of (left_to_right_binarization_indices rng ext) ! i = open_atoms (rng ! i) (\<Union> (set (take i rng)) \<union> \<Union> (set (drop (Suc i) rng))) ext
    \<and> (ext = external_of slots tixs \<longrightarrow> i > 0 \<longrightarrow>
        (\<exists>res. subset_target_indices protos slots tixs None = Inr res
           \<and> imed_of (left_to_right_binarization_indices rng ext) ! i = res ! (2 ^ Suc i - 1)))"
proof (intro conjI impI)
  let ?ltr = "left_to_right_binarization_indices rng ext"
  let ?first = "\<Union> (set (take (Suc i) rng))" and ?rest = "\<Union> (set (drop (Suc i) rng))"
  have len: "length rng = length slots" by (simp add: assms(2))
  show imed: "imed_of ?ltr ! i = open_atoms ?first ?rest ext"
    using assms(3) len by (simp add: left_to_right_binarization_indices_def Let_def prefixes_nth suffixes_nth)
  show "children_of ?ltr ! i = open_atoms (rng ! i) (\<Union> (set (take i rng)) \<union> ?rest) ext"
    using assms(3) len by (cases i) (simp_all add: left_to_right_binarization_indices_def Let_def prefixes_nth suffixes_nth Un_commute)
  assume ext: "ext = external_of slots tixs" and i: "i > 0"
  let ?m = "2 ^ Suc i - 1 :: nat"
  have mb: "bit ?m t \<longleftrightarrow> t < Suc i" for t
    using bit_mask_iff [of "Suc i" t, where 'a = nat] by (simp add: mask_eq_exp_minus_1)
  have m: "?m < 2 ^ length slots" "?m \<noteq> 0"
  proof -
    have "(2 :: nat) ^ Suc i \<le> 2 ^ length slots" using assms(3) by (intro power_increasing) auto
    moreover have "2 \<le> (2 :: nat) ^ Suc i" by simp
    ultimately show "?m < 2 ^ length slots" "?m \<noteq> 0" by linarith+
  qed
  have single: "{t. t < length slots \<and> ?m = 2 ^ t} = {}"
  proof -
    have "?m \<noteq> 2 ^ t" for t
    proof
      assume "?m = 2 ^ t"
      then have "bit ?m n \<longleftrightarrow> n = t" for n by (simp only: bit_exp_iff) auto
      then show False using mb [of 0] mb [of 1] i by (metis One_nat_def Suc_lessI Suc_less_eq zero_less_Suc zero_neq_one)
    qed
    then show ?thesis by blast
  qed
  have parts: "part_atoms protos slots (bit ?m) = ?first" "part_atoms protos slots (\<lambda>t. \<not> bit ?m t) = ?rest"
  proof -
    have t: "set (take (Suc i) rng) = (\<lambda>t. carried_atoms protos {} (slots ! t)) ` {t. t < length slots \<and> t < Suc i}"
    proof -
      have "set (take (Suc i) rng) = (!) rng ` {0..<Suc i}" using assms(3) len by (simp only: nth_image Suc_leI)
      also have "\<dots> = (\<lambda>t. carried_atoms protos {} (slots ! t)) ` {t. t < length slots \<and> t < Suc i}"
        using assms(3) by (intro image_cong) (auto simp: assms(2))
      finally show ?thesis .
    qed
    have d: "set (drop (Suc i) rng) = (\<lambda>t. carried_atoms protos {} (slots ! t)) ` {t. t < length slots \<and> \<not> t < Suc i}"
    proof
      show "set (drop (Suc i) rng) \<subseteq> (\<lambda>t. carried_atoms protos {} (slots ! t)) ` {t. t < length slots \<and> \<not> t < Suc i}"
      proof
        fix x assume "x \<in> set (drop (Suc i) rng)"
        then obtain n where "n < length slots - Suc i" "x = carried_atoms protos {} (slots ! (Suc i + n))"
          using len by (auto simp: in_set_conv_nth assms(2))
        then show "x \<in> (\<lambda>t. carried_atoms protos {} (slots ! t)) ` {t. t < length slots \<and> \<not> t < Suc i}"
          by (intro image_eqI [of _ _ "Suc i + n"]) auto
      qed
      show "(\<lambda>t. carried_atoms protos {} (slots ! t)) ` {t. t < length slots \<and> \<not> t < Suc i} \<subseteq> set (drop (Suc i) rng)"
      proof (clarsimp)
        fix t assume "t < length slots" "\<not> t < Suc i"
        then show "carried_atoms protos {} (slots ! t) \<in> set (drop (Suc i) rng)"
          unfolding in_set_conv_nth using len by (intro exI [of _ "t - Suc i"]) (simp add: assms(2))
      qed
    qed
    show "part_atoms protos slots (bit ?m) = ?first" unfolding part_atoms_def mb t by simp
    show "part_atoms protos slots (\<lambda>t. \<not> bit ?m t) = ?rest" unfolding part_atoms_def mb d by simp
  qed
  obtain res where "subset_target_indices protos slots tixs None = Inr res"
    and at: "\<forall>i < 2 ^ length slots. res ! i =
               (if i \<noteq> 0 \<and> (case None of None \<Rightarrow> True | Some c \<Rightarrow> c ! i)
                then open_atoms (part_atoms protos slots (bit i)) (part_atoms protos slots (\<lambda>t. \<not> bit i t)) (external_of slots tixs)
                else {}) \<union> (\<Union>t\<in>{t. t < length slots \<and> i = 2 ^ t}. set (slots ! t))"
    using subset_targets_open_atoms [of slots protos tixs None] assms(1) by auto
  moreover have "res ! ?m = open_atoms ?first ?rest ext"
    using at [rule_format, OF m(1)] m(2) unfolding single parts ext by simp
  ultimately show "\<exists>res. subset_target_indices protos slots tixs None = Inr res \<and> imed_of ?ltr ! i = res ! ?m"
    using imed by auto
qed

lemma left_to_right_prefixes_witness:
  "imed_of (left_to_right_binarization_indices [{1, 2}, {2, 3}, {3, 4 :: nat}] {1, 4}) ! 1 = open_atoms {1, 2, 3} {3, 4} {1, 4}"
  using left_to_right_prefixes [of "[[1, 2], [2, 3], [3, 4]]" "[{1, 2}, {2, 3}, {3, 4 :: nat}]" "\<lambda>i. []" 1 "{1, 4}"]
  by (simp add: carried_atoms_def carried_list_def insert_commute)

end
