(* ===== verification/SingleTerm.thy ===== *)
theory SingleTerm
  imports Complex_Main IndexUtils BitSets Sorting
begin

text \<open>
  SeQuant/core/optimize/single_term_detail.hpp: the cost counters and the tables over the subsets of a
  network that the single-term optimizers share.  A subset of the tensors is a 64-bit mask, a table is the
  list of its entries by the numerical value of the mask.  A tensor of the network is its slots and what
  \<open>dynamic_cast\<close> tells of it.  A \<open>double\<close> is a real number: rounding is not modelled.  An \<open>IndexSet\<close> is
  traversed in the order of the index type, which stands for \<open>Index::FullLabelCompare\<close>.
\<close>

section \<open>Networks\<close>

type_synonym mask = "64 word"

text \<open>What an \<open>AbstractTensor\<close> is cast to: a \<open>Tensor\<close>, a \<open>TensorPower\<close> (with its base, when that is a \<open>Tensor\<close>).\<close>

datatype 't abstract_tensor = PlainTensor 't | PowerOf "'t option" | OtherAbstract

record ('i, 't) net_tensor =
  net_slots :: "'i list"
  net_kind :: "'t abstract_tensor"

datatype opt_error = CompositeExtent | NoInnerPow | TableAssertion index_error | ResultsMismatch | NotATensor | CseUnsupported

section \<open>Cost counters\<close>

definition outer_extent :: "('i \<Rightarrow> 'i list) \<Rightarrow> ('i \<Rightarrow> nat) \<Rightarrow> 'i \<Rightarrow> (opt_error, nat) result" where
  "outer_extent protos ixex ix = (if protos ix \<noteq> [] then Inl CompositeExtent else Inr (ixex ix))"

definition inner_aware_volume ::
    "('i \<Rightarrow> 'i list) \<Rightarrow> ('i \<Rightarrow> (opt_error, nat) result) \<Rightarrow> ('i \<Rightarrow> nat \<Rightarrow> real) option \<Rightarrow> 'i tot_split
       \<Rightarrow> (opt_error, real) result" where
  "inner_aware_volume protos ixex inner_pow tot =
     bind_res (fold_res (\<lambda>mem ix. bind_res (ixex ix) (\<lambda>e. Inr (mem * real e))) 1 (outer_of tot)) (\<lambda>mem.
       case inner_pow of
         Some pw \<Rightarrow>
           Inr (foldl (\<lambda>mem c. mem * pw c (length (filter (\<lambda>ix. protos ix = protos c) (inner_of tot)))) mem (inner_of tot))
       | None \<Rightarrow> if inner_of tot \<noteq> [] then Inl NoInnerPow else Inr mem)"

text \<open>
  The extent hook handed to a counter is checked by \<open>outer_extent\<close>; that of \<open>sliced_footprints\<close>
  may throw by itself, so it is a function into results.
\<close>

type_synonym 'i extent_fn = "'i \<Rightarrow> (opt_error, nat) result"

definition checked_extent :: "('i \<Rightarrow> 'i list) \<Rightarrow> 'i extent_fn \<Rightarrow> 'i extent_fn" where
  "checked_extent protos ixex ix = bind_res (outer_extent protos (\<lambda>_. 0) ix) (\<lambda>_. ixex ix)"

definition flops_counter ::
    "('i::linorder \<Rightarrow> 'i list) \<Rightarrow> 'i extent_fn \<Rightarrow> ('i \<Rightarrow> nat \<Rightarrow> real) option \<Rightarrow> 'i set \<Rightarrow> 'i set \<Rightarrow> 'i set
       \<Rightarrow> (opt_error, real) result" where
  "flops_counter protos ixex inner_pow lhs rhs res =
     bind_res (inner_aware_volume protos (checked_extent protos ixex) inner_pow
         (tot_indices True protos (sorted_list_of_set lhs @ sorted_list_of_set rhs @ sorted_list_of_set res)))
       (\<lambda>total. Inr (if total = 1 then 0 else total))"

definition footprint_counter ::
    "('i::linorder \<Rightarrow> 'i list) \<Rightarrow> 'i extent_fn \<Rightarrow> ('i \<Rightarrow> nat \<Rightarrow> real) option \<Rightarrow> 'i set \<Rightarrow> (opt_error, real) result" where
  "footprint_counter protos ixex inner_pow res =
     bind_res (inner_aware_volume protos (checked_extent protos ixex) inner_pow
         (tot_indices False protos (sorted_list_of_set res)))
       (\<lambda>mem. Inr (if mem = 1 then 0 else mem))"

definition memsize_counter ::
    "('i::linorder \<Rightarrow> 'i list) \<Rightarrow> 'i extent_fn \<Rightarrow> ('i \<Rightarrow> nat \<Rightarrow> real) option \<Rightarrow> 'i set \<Rightarrow> 'i set \<Rightarrow> 'i set
       \<Rightarrow> (opt_error, real) result" where
  "memsize_counter protos ixex inner_pow lhs rhs res =
     fold_res (\<lambda>total tot.
         bind_res (inner_aware_volume protos (checked_extent protos ixex) inner_pow tot)
           (\<lambda>mem. Inr (if mem \<noteq> 1 then total + mem else total)))
       0 (map (\<lambda>s. tot_indices False protos (sorted_list_of_set s)) [lhs, rhs, res])"

section \<open>Tables over the subsets of a network\<close>

definition dbl_max :: real where
  "dbl_max = (2 - (1 / 2) ^ 52) * 2 ^ 1023"

text \<open>A value-initialised \<open>OptRes\<close>.\<close>

record 'i opt_res =
  res_indices :: "'i set"
  res_ops :: real
  res_sequence :: "int list"
  res_lp :: mask
  res_rp :: mask
  res_subnets :: "nat list"

definition no_res :: "'i opt_res" where
  "no_res = \<lparr>res_indices = {}, res_ops = 0, res_sequence = [], res_lp = 0, res_rp = 0, res_subnets = []\<rparr>"

text \<open>The entry of subset \<open>i\<close> is filled from the table of open indices.\<close>

definition init_entry :: "bool list option \<Rightarrow> 'i set list \<Rightarrow> nat \<Rightarrow> 'i opt_res \<Rightarrow> 'i opt_res" where
  "init_entry conn imed i r =
     (let w = of_nat i :: mask
      in if (case conn of Some c \<Rightarrow> \<not> c ! i | None \<Rightarrow> False) then r\<lparr>res_ops := dbl_max\<rparr>
         else r\<lparr>res_indices := imed ! i,
                res_ops := (if popcount w > 1 then dbl_max else 0),
                res_sequence := (if popcount w = 1 then res_sequence r @ [int (ctz w)] else res_sequence r)\<rparr>)"

definition init_results ::
    "('i \<Rightarrow> 'i list) \<Rightarrow> ('i, 't) net_tensor list \<Rightarrow> 'i list \<Rightarrow> 'i opt_res list \<Rightarrow> bool list option
       \<Rightarrow> (opt_error, 'i opt_res list) result" where
  "init_results protos net tidxs results conn =
     (case subset_target_indices protos (map net_slots net) tidxs conn of
        Inl e \<Rightarrow> Inl (TableAssertion e)
      | Inr imed \<Rightarrow>
          if length imed \<noteq> length results then Inl ResultsMismatch
          else Inr (map (\<lambda>i. init_entry conn imed i (results ! i)) [0..<length results]))"

definition subset_footprints ::
    "('i::linorder \<Rightarrow> 'i list) \<Rightarrow> ('i, 't) net_tensor list \<Rightarrow> 'i list \<Rightarrow> 'i extent_fn
       \<Rightarrow> ('i \<Rightarrow> nat \<Rightarrow> real) option \<Rightarrow> bool list option \<Rightarrow> (opt_error, real list) result" where
  "subset_footprints protos net tidxs idxsz inner_pow conn =
     bind_res (init_results protos net tidxs (replicate (2 ^ length net) no_res) conn) (\<lambda>results.
       map_res (\<lambda>n. if n = 0 \<or> (case conn of Some c \<Rightarrow> \<not> c ! n | None \<Rightarrow> False) then Inr 0
                    else footprint_counter protos idxsz inner_pow (res_indices (results ! n)))
         [0..<length results])"

text \<open>The modes that one of the predicates (each possibly absent) accepts, in order of appearance.\<close>

definition engaged :: "('a \<Rightarrow> bool) option \<Rightarrow> 'a \<Rightarrow> bool" where
  "engaged p x = (case p of None \<Rightarrow> False | Some q \<Rightarrow> q x)"

definition batchable_mode_list ::
    "('i \<Rightarrow> 'i list) \<Rightarrow> ('i, 't) net_tensor list \<Rightarrow> ('i \<Rightarrow> bool) option \<Rightarrow> ('i \<Rightarrow> bool) option \<Rightarrow> 'i list" where
  "batchable_mode_list protos net is_batchable is_batchable_external =
     (let match = (\<lambda>ix. engaged is_batchable ix \<or> engaged is_batchable_external ix);
          admit = (\<lambda>aux ix. if match ix \<and> ix \<notin> set aux then aux @ [ix] else aux)
      in foldl (\<lambda>aux t. foldl (\<lambda>aux ix. foldl admit (admit aux ix) (protos ix)) aux (net_slots t)) [] net)"

text \<open>The extent of an index in the sliced set \<open>B\<close>.\<close>

definition sliced_extent :: "('i \<Rightarrow> 'i list) \<Rightarrow> ('i \<Rightarrow> nat) \<Rightarrow> ('i \<Rightarrow> nat) \<Rightarrow> 'i list \<Rightarrow> nat \<Rightarrow> 'i extent_fn" where
  "sliced_extent protos idxsz target aux_list B ix =
     bind_res (outer_extent protos idxsz ix) (\<lambda>e.
       case find_position aux_list ix of
         Some k \<Rightarrow> if bit B k then Inr (min e (max (target ix) 1)) else Inr e
       | None \<Rightarrow> Inr e)"

definition sliced_footprints ::
    "('i::linorder \<Rightarrow> 'i list) \<Rightarrow> ('i, 't) net_tensor list \<Rightarrow> 'i list \<Rightarrow> ('i \<Rightarrow> nat) \<Rightarrow> ('i \<Rightarrow> nat) \<Rightarrow> 'i list
       \<Rightarrow> ('i \<Rightarrow> nat \<Rightarrow> real) option \<Rightarrow> bool list option \<Rightarrow> (opt_error, real list list) result" where
  "sliced_footprints protos net tidxs idxsz target aux_list inner_pow conn =
     map_res (\<lambda>B. subset_footprints protos net tidxs (sliced_extent protos idxsz target aux_list B) inner_pow conn)
       [0..<2 ^ length aux_list]"

text \<open>The volatile tensors of the network.\<close>

definition volatile_bit :: "('t \<Rightarrow> bool) \<Rightarrow> mask \<Rightarrow> nat \<Rightarrow> 't abstract_tensor \<Rightarrow> (opt_error, mask) result" where
  "volatile_bit vol msk i k =
     (case k of
        PlainTensor t \<Rightarrow> Inr (if vol t then msk OR push_bit i 1 else msk)
      | PowerOf None \<Rightarrow> Inl NotATensor
      | PowerOf (Some t) \<Rightarrow> Inr (if vol t then msk OR push_bit i 1 else msk)
      | OtherAbstract \<Rightarrow> Inr msk)"

definition leaf_volatile_mask :: "('i, 't) net_tensor list \<Rightarrow> ('t \<Rightarrow> bool) option \<Rightarrow> (opt_error, mask) result" where
  "leaf_volatile_mask net is_volatile_leaf =
     (case is_volatile_leaf of
        None \<Rightarrow> Inr 0
      | Some vol \<Rightarrow> fold_res (\<lambda>msk i. volatile_bit vol msk i (net_kind (net ! i))) 0 [0..<length net])"

section \<open>Connectivity\<close>

text \<open>\<open>carriers[ix] |= 1 << i\<close>; the map is the list of its entries.\<close>

fun carry_at :: "mask \<Rightarrow> ('i \<times> mask) list \<Rightarrow> 'i \<Rightarrow> ('i \<times> mask) list" where
  "carry_at b [] k = [(k, b)]"
| "carry_at b ((j, m) # cs) k = (if j = k then (j, m OR b) # cs else (j, m) # carry_at b cs k)"

definition contractible_carriers ::
    "('i \<Rightarrow> bool) \<Rightarrow> ('i, 't) net_tensor list \<Rightarrow> 'i list \<Rightarrow> ('i \<times> mask) list" where
  "contractible_carriers valid net tidxs =
     foldl (\<lambda>cs i. foldl (\<lambda>cs ix. if \<not> valid ix \<or> ix \<in> set tidxs then cs else carry_at (push_bit i 1) cs ix)
                     cs (net_slots (net ! i)))
       [] [0..<length net]"

text \<open>
  The loops over the set bits of a mask: \<open>adj[b] |= cm & ~(1 << b)\<close> for every carrier, and the union of
  the neighbours of a frontier.
\<close>

function spread_edges :: "mask \<Rightarrow> mask \<Rightarrow> mask list \<Rightarrow> mask list" where
  "spread_edges cm rest adj =
     (if rest = 0 then adj
      else let b = ctz rest
           in spread_edges cm (rest AND (rest - 1)) (adj[b := adj ! b OR (cm AND NOT (push_bit b 1))]))"
  by pat_completeness auto

function neighbours :: "mask list \<Rightarrow> mask \<Rightarrow> mask \<Rightarrow> mask" where
  "neighbours adj nxt f =
     (if f = 0 then nxt else neighbours adj (nxt OR adj ! ctz f) (f AND (f - 1)))"
  by pat_completeness auto

definition contractible_adjacency :: "('i \<Rightarrow> bool) \<Rightarrow> ('i, 't) net_tensor list \<Rightarrow> 'i list \<Rightarrow> mask list" where
  "contractible_adjacency valid net tidxs =
     foldl (\<lambda>adj (ix, cm). if popcount cm < 2 then adj else spread_edges cm cm adj)
       (replicate (length net) 0) (contractible_carriers valid net tidxs)"

text \<open>The breadth-first search of one subset: \<open>reached\<close> after the loop.\<close>

function reach :: "mask list \<Rightarrow> mask \<Rightarrow> mask \<Rightarrow> mask \<Rightarrow> mask" where
  "reach adj n reached frontier =
     (if frontier = 0 then reached
      else let nxt = neighbours adj 0 frontier AND (n AND NOT reached)
           in reach adj n (reached OR nxt) nxt)"
  by pat_completeness auto

lemma clear_lowest_less: "f \<noteq> 0 \<Longrightarrow> unat (f AND (f - 1)) < unat (f :: mask)"
proof -
  assume f: "f \<noteq> 0"
  have "f AND (f - 1) \<le> f - 1" by (simp add: word_and_le1)
  also have "f - 1 < f" using f by (metis measure_unat word_less_nat_alt)
  finally show ?thesis by (simp add: word_less_nat_alt)
qed

termination spread_edges by (relation "measure (\<lambda>(cm, rest, adj). unat rest)") (auto simp: clear_lowest_less)
termination neighbours by (relation "measure (\<lambda>(adj, nxt, f). unat f)") (auto simp: clear_lowest_less)

declare spread_edges.simps [simp del] neighbours.simps [simp del]

text \<open>What is left to reach shrinks until the frontier is empty.\<close>

lemma unreached_less:
  fixes n reached nxt :: mask
  assumes "nxt AND (n AND NOT reached) = nxt" "nxt \<noteq> 0"
  shows "unat (n AND NOT (reached OR nxt)) < unat (n AND NOT reached)"
proof -
  let ?a = "n AND NOT reached"
  have b: "bit nxt i \<Longrightarrow> bit ?a i" for i using assms(1) by (metis bit_and_iff)
  have "n AND NOT (reached OR nxt) = ?a AND NOT nxt"
    by (intro bit_eqI) (auto simp: bit_and_iff bit_or_iff bit_not_iff)
  moreover have "?a AND NOT nxt \<le> ?a" by (simp add: word_and_le2)
  moreover have "?a AND NOT nxt \<noteq> ?a"
  proof
    assume eq: "?a AND NOT nxt = ?a"
    obtain i where "bit nxt i" using assms(2) by (metis bit_eq_iff bit_0_eq bot_apply bot_bool_def)
    then have "bit ?a i" "\<not> bit (?a AND NOT nxt) i" using b by (auto simp: bit_and_iff bit_not_iff)
    then show False using eq by simp
  qed
  ultimately show ?thesis by (simp add: word_less_nat_alt [symmetric])
qed

termination reach
proof (relation "measures [\<lambda>(adj, n, reached, frontier). unat (n AND NOT reached), \<lambda>(adj, n, reached, frontier). unat frontier]", goal_cases)
  case (2 adj n reached frontier nxt)
  show ?case
  proof (cases "nxt = 0")
    case True
    then show ?thesis using 2(1) by (simp add: unat_gt_0)
  next
    case False
    have "nxt AND (n AND NOT reached) = nxt" unfolding 2(2)
      by (intro bit_eqI) (auto simp: bit_and_iff)
    then show ?thesis using unreached_less [OF _ False] by simp
  qed
qed auto

declare reach.simps [simp del]

definition connected_subsets :: "mask list \<Rightarrow> nat \<Rightarrow> bool list" where
  "connected_subsets adj nt =
     map (\<lambda>i. let n = of_nat i :: mask
               in popcount n \<le> 1
                  \<or> (let start = n AND (NOT n + 1) in reach adj n start start = n))
       [0..<2 ^ nt]"

text \<open>\<open>disable\<close> is the value of the environment variable, if it is set.\<close>

definition outer_product_connectivity ::
    "string option \<Rightarrow> ('i \<Rightarrow> bool) \<Rightarrow> ('i, 't) net_tensor list \<Rightarrow> 'i list \<Rightarrow> bool \<Rightarrow> bool list" where
  "outer_product_connectivity disable valid net tidxs prune =
     (let nt = length net
      in if \<not> prune \<or> (case disable of None \<Rightarrow> False | Some v \<Rightarrow> v \<noteq> '''') then replicate (2 ^ nt) True
         else (let msk = connected_subsets (contractible_adjacency valid net tidxs) nt
               in if msk \<noteq> [] \<and> \<not> last msk then replicate (2 ^ nt) True else msk))"

section \<open>Open modes and canonical subnetworks\<close>

definition open_here :: "('i \<Rightarrow> 'i list) \<Rightarrow> 'i set \<Rightarrow> 'i \<Rightarrow> bool" where
  "open_here protos idx ax \<longleftrightarrow> ax \<in> idx \<or> (\<exists>ix\<in>idx. ax \<in> set (protos ix))"

definition subset_open_aux ::
    "('i \<Rightarrow> 'i list) \<Rightarrow> ('i, 't) net_tensor list \<Rightarrow> 'i list \<Rightarrow> 'i list \<Rightarrow> (opt_error, mask list) result" where
  "subset_open_aux protos net tidxs aux_list =
     bind_res (init_results protos net tidxs (replicate (2 ^ length net) no_res) None) (\<lambda>results.
       Inr (map (\<lambda>n. foldl (\<lambda>msk k. if open_here protos (res_indices (results ! n)) (aux_list ! k)
                                     then msk OR push_bit k 1 else msk) 0 [0..<length aux_list])
              [0..<length results]))"

text \<open>
  The canonical form of the subnetwork of a list of positions is a parameter (\<open>canonicalize_slots\<close>);
  the map from forms to ids is the list of the forms in the order of their ids.
\<close>

record subnet_metadata =
  meta_ids :: "nat list"
  unique_meta_costs :: "real list"

definition no_meta :: nat where "no_meta = 2 ^ 64 - 1"

definition try_emplace :: "'m list \<Rightarrow> 'm \<Rightarrow> 'm list \<times> nat" where
  "try_emplace forms m =
     (case find_position forms m of
        Some k \<Rightarrow> (forms, k)
      | None \<Rightarrow> (forms @ [m], length (forms @ [m]) - 1))"

definition meta_step :: "(nat list \<Rightarrow> 'm) \<Rightarrow> bool list \<Rightarrow> 'm list \<times> nat list \<Rightarrow> nat \<Rightarrow> 'm list \<times> nat list" where
  "meta_step canonical conn st n =
     (let (forms, ids) = st; w = of_nat n :: mask
      in if popcount w < 2 \<or> \<not> conn ! n then (forms, ids)
         else (let (forms', k) = try_emplace forms (canonical (on_bits_index w)) in (forms', ids[n := k])))"

definition build_subnet_metadata :: "(nat list \<Rightarrow> 'm) \<Rightarrow> nat \<Rightarrow> bool list \<Rightarrow> subnet_metadata" where
  "build_subnet_metadata canonical len conn =
     (let (forms, ids) = foldl (meta_step canonical conn) ([], replicate len no_meta) [0..<len]
      in \<lparr>meta_ids = ids, unique_meta_costs = replicate (length forms) 0\<rparr>)"

section \<open>The bits of a mask\<close>

lemma mask_bit_less: "bit (w :: mask) n \<Longrightarrow> n < 64"
  using bit_imp_le_length [of w n] by simp

lemma bit_one_at: "b < 64 \<Longrightarrow> bit (push_bit b 1 :: mask) j \<longleftrightarrow> j = b"
  by (auto simp: bit_push_bit_iff bit_1_iff simp del: push_bit_of_1)

lemma mask_eqI: "(\<And>j. bit a j \<longleftrightarrow> bit b j) \<Longrightarrow> a = (b :: mask)"
  by (rule bit_eqI)

lemma lowest_bit:
  fixes m :: mask
  assumes "m \<noteq> 0"
  shows "bit m (ctz m)" "bit (m AND (m - 1)) n \<longleftrightarrow> bit m n \<and> n \<noteq> ctz m" "bit m n \<Longrightarrow> ctz m \<le> n"
proof -
  let ?f = "\<lambda>w. filter (bit w) [0..<LENGTH(64)]"
  note step = on_bits_step [OF assms]
  have mem: "n \<in> set (?f w) \<longleftrightarrow> bit w n" for w :: mask and n using mask_bit_less by auto
  have d: "sorted_wrt (<) (?f m)" by (rule sorted_wrt_filter) simp
  show "bit m (ctz m)" using mem [of "ctz m" m] unfolding step by simp
  show "bit (m AND (m - 1)) n \<longleftrightarrow> bit m n \<and> n \<noteq> ctz m"
    using mem [of n m] mem [of n "m AND (m - 1)"] d unfolding step by auto
  show "bit m n \<Longrightarrow> ctz m \<le> n" using mem [of n m] d unfolding step by (auto simp: less_imp_le)
qed

lemma lowest_set_bit:
  fixes m :: mask
  assumes "m \<noteq> 0"
  shows "bit (m AND (NOT m + 1)) n \<longleftrightarrow> n = ctz m"
proof -
  have "NOT m + 1 = NOT (m - 1)" by (simp add: not_eq_complement)
  then have "bit (m AND (NOT m + 1)) n \<longleftrightarrow> bit m n \<and> \<not> bit (m - 1) n"
    using mask_bit_less by (auto simp: bit_and_iff bit_not_iff)
  then show ?thesis using lowest_bit [OF assms] by (auto simp: bit_and_iff)
qed

lemma neighbours_bit:
  "bit (neighbours adj nxt f) j \<longleftrightarrow> bit nxt j \<or> (\<exists>i. bit f i \<and> bit (adj ! i) j)"
proof (induction adj nxt f rule: neighbours.induct)
  case (1 adj nxt f)
  show ?case
  proof (cases "f = 0")
    case True
    then show ?thesis by (subst neighbours.simps) simp
  next
    case False
    have "bit (neighbours adj nxt f) j \<longleftrightarrow>
        bit (nxt OR adj ! ctz f) j \<or> (\<exists>i. bit (f AND (f - 1)) i \<and> bit (adj ! i) j)"
      using False by (subst neighbours.simps) (simp add: "1"(1))
    also have "\<dots> \<longleftrightarrow> bit nxt j \<or> (\<exists>i. bit f i \<and> bit (adj ! i) j)"
      unfolding lowest_bit(2) [OF False] using lowest_bit(1) [OF False] by (auto simp: bit_or_iff)
    finally show ?thesis .
  qed
qed

lemma spread_edges_length: "length (spread_edges cm rest adj) = length adj"
  by (induction cm rest adj rule: spread_edges.induct) (subst spread_edges.simps, simp add: Let_def)

lemma spread_edges_bit:
  "i < length adj \<Longrightarrow>
     bit (spread_edges cm rest adj ! i) j \<longleftrightarrow> bit (adj ! i) j \<or> (bit rest i \<and> bit cm j \<and> i \<noteq> j)"
proof (induction cm rest adj rule: spread_edges.induct)
  case (1 cm rest adj)
  show ?case
  proof (cases "rest = 0")
    case True
    then show ?thesis by (subst spread_edges.simps) simp
  next
    case False
    let ?b = "ctz rest"
    let ?adj = "adj[?b := adj ! ?b OR (cm AND NOT (push_bit ?b 1))]"
    have "bit (spread_edges cm rest adj ! i) j \<longleftrightarrow>
        bit (?adj ! i) j \<or> (bit (rest AND (rest - 1)) i \<and> bit cm j \<and> i \<noteq> j)"
      using False 1 by (subst spread_edges.simps) (simp add: Let_def)
    also have "bit (?adj ! i) j \<longleftrightarrow> bit (adj ! i) j \<or> (i = ?b \<and> bit cm j \<and> i \<noteq> j)"
      using 1(2) mask_bit_less [of cm j] bit_one_at [OF mask_bit_less [OF lowest_bit(1) [OF False]], of j]
      by (cases "i = ?b") (auto simp: bit_or_iff bit_and_iff bit_not_iff simp del: push_bit_of_1)
    finally show ?thesis
      unfolding lowest_bit(2) [OF False] using lowest_bit(1) [OF False] by auto
  qed
qed

section \<open>The breadth-first search\<close>

definition edges_in :: "mask list \<Rightarrow> mask \<Rightarrow> (nat \<times> nat) set" where
  "edges_in adj n = {(i, j). bit n i \<and> bit n j \<and> bit (adj ! i) j}"

lemma reach_bit:
  assumes "\<And>i. bit frontier i \<Longrightarrow> bit reached i" "\<And>i. bit reached i \<Longrightarrow> bit n i"
    and "\<And>i j. bit reached i \<Longrightarrow> \<not> bit frontier i \<Longrightarrow> (i, j) \<in> edges_in adj n \<Longrightarrow> bit reached j"
  shows "bit (reach adj n reached frontier) j \<longleftrightarrow> (\<exists>i. bit reached i \<and> (i, j) \<in> (edges_in adj n)\<^sup>*)"
  using assms
proof (induction adj n reached frontier rule: reach.induct)
  case (1 adj n reached frontier)
  show ?case
  proof (cases "frontier = 0")
    case True
    have "bit reached j" if i: "bit reached i" and path: "(i, j) \<in> (edges_in adj n)\<^sup>*" for i
      using path by (induction rule: rtrancl_induct) (use i 1(4) True in auto)
    moreover have "reach adj n reached frontier = reached" using True by (subst reach.simps) simp
    ultimately show ?thesis by auto
  next
    case False
    define nxt where "nxt = neighbours adj 0 frontier AND (n AND NOT reached)"
    have nxt: "bit nxt j \<longleftrightarrow> (\<exists>i. bit frontier i \<and> bit (adj ! i) j) \<and> bit n j \<and> \<not> bit reached j" for j
      using mask_bit_less [of n j] unfolding nxt_def by (auto simp: bit_and_iff bit_not_iff neighbours_bit)
    have edge: "\<exists>i. bit reached i \<and> (i, j) \<in> edges_in adj n" if "bit nxt j" for j
      using that 1(2,3) nxt by (auto simp: edges_in_def)
    have eq: "reach adj n reached frontier = reach adj n (reached OR nxt) nxt"
      using False by (subst reach.simps) (simp add: nxt_def Let_def)
    have "bit (reach adj n (reached OR nxt) nxt) j
        \<longleftrightarrow> (\<exists>i. bit (reached OR nxt) i \<and> (i, j) \<in> (edges_in adj n)\<^sup>*)"
    proof (rule 1(1) [OF False nxt_def])
      show "\<And>i. bit nxt i \<Longrightarrow> bit (reached OR nxt) i" by (simp add: bit_or_iff)
      show "\<And>i. bit (reached OR nxt) i \<Longrightarrow> bit n i" using 1(3) nxt by (auto simp: bit_or_iff)
      fix i k assume i: "bit (reached OR nxt) i" "\<not> bit nxt i" and e: "(i, k) \<in> edges_in adj n"
      then have r: "bit reached i" by (simp add: bit_or_iff)
      show "bit (reached OR nxt) k"
      proof (cases "bit frontier i")
        case True
        then show ?thesis using e nxt [of k] by (auto simp: bit_or_iff edges_in_def)
      next
        case False
        then show ?thesis using 1(4) [OF r False e] by (simp add: bit_or_iff)
      qed
    qed
    also have "\<dots> \<longleftrightarrow> (\<exists>i. bit reached i \<and> (i, j) \<in> (edges_in adj n)\<^sup>*)"
      using edge by (auto simp: bit_or_iff intro: converse_rtrancl_into_rtrancl)
    finally show ?thesis using eq by simp
  qed
qed

text \<open>A set of positions is linked when each of them reaches each other one inside the set.\<close>

definition linked :: "(nat \<times> nat) set \<Rightarrow> nat set \<Rightarrow> bool" where
  "linked E A \<longleftrightarrow> (\<forall>x\<in>A. \<forall>y\<in>A. (x, y) \<in> (E \<inter> A \<times> A)\<^sup>*)"

definition bits_of :: "mask \<Rightarrow> nat set" where
  "bits_of m = {i. bit m i}"

lemma bits_of_finite [simp]: "finite (bits_of m)"
proof -
  have "bits_of m \<subseteq> {..<64}" using mask_bit_less by (auto simp: bits_of_def)
  then show ?thesis by (rule finite_subset) simp
qed

lemma popcount_card: "popcount m = card (bits_of m)"
proof -
  have "bits_of m = set (filter (bit m) [0..<LENGTH(64)])" using mask_bit_less by (auto simp: bits_of_def)
  then show ?thesis unfolding popcount_def by (simp only:) (rule distinct_card [symmetric], simp)
qed

lemma linked_small: "card A \<le> 1 \<Longrightarrow> finite A \<Longrightarrow> linked E A"
  by (auto simp: linked_def card_le_Suc0_iff_eq)

lemma bits_of_iff [simp]: "i \<in> bits_of m \<longleftrightarrow> bit m i"
  by (simp add: bits_of_def)

lemma reach_linked:
  assumes "n \<noteq> 0" "sym E" "\<forall>i j. bit n i \<longrightarrow> bit n j \<longrightarrow> (bit (adj ! i) j \<longleftrightarrow> (i, j) \<in> E)"
  shows "(let start = n AND (NOT n + 1) in reach adj n start start = n) \<longleftrightarrow> linked E (bits_of n)"
proof -
  let ?s = "n AND (NOT n + 1)" and ?R = "E \<inter> bits_of n \<times> bits_of n"
  have R: "edges_in adj n = ?R" using assms(3) by (auto simp: edges_in_def bits_of_def)
  have s: "bit ?s i \<longleftrightarrow> i = ctz n" for i by (rule lowest_set_bit [OF assms(1)])
  have r: "bit (reach adj n ?s ?s) j \<longleftrightarrow> (ctz n, j) \<in> ?R\<^sup>*" for j
    using reach_bit [of ?s ?s n adj j] lowest_bit(1) [OF assms(1)] unfolding s R by auto
  have low: "ctz n \<in> bits_of n" using lowest_bit(1) [OF assms(1)] by (simp add: bits_of_def)
  have inside: "bit n j" if "(ctz n, j) \<in> ?R\<^sup>*" for j
    using that low by (cases rule: rtranclE) (auto simp: bits_of_def)
  have "reach adj n ?s ?s = n \<longleftrightarrow> (\<forall>j. bit n j \<longrightarrow> (ctz n, j) \<in> ?R\<^sup>*)"
    using inside r by (metis mask_eqI)
  also have "\<dots> \<longleftrightarrow> linked E (bits_of n)"
  proof
    assume all: "\<forall>j. bit n j \<longrightarrow> (ctz n, j) \<in> ?R\<^sup>*"
    have "sym (?R\<^sup>*)" using assms(2) by (intro sym_rtrancl) (auto simp: sym_def)
    then show "linked E (bits_of n)"
      using all unfolding linked_def by (auto simp: bits_of_def dest: symD intro: rtrancl_trans)
  next
    assume "linked E (bits_of n)"
    then show "\<forall>j. bit n j \<longrightarrow> (ctz n, j) \<in> ?R\<^sup>*" using low by (auto simp: linked_def bits_of_def)
  qed
  finally show ?thesis by simp
qed

section \<open>The graph of a network\<close>

text \<open>Two tensors are joined when they share a nonnull index in a slot that is no target of the network.\<close>

definition summed_on :: "('i \<Rightarrow> bool) \<Rightarrow> ('i, 't) net_tensor list \<Rightarrow> 'i list \<Rightarrow> 'i \<Rightarrow> nat \<Rightarrow> bool" where
  "summed_on valid net tidxs ix i \<longleftrightarrow>
     i < length net \<and> ix \<in> set (net_slots (net ! i)) \<and> valid ix \<and> ix \<notin> set tidxs"

definition joined :: "('i \<Rightarrow> bool) \<Rightarrow> ('i, 't) net_tensor list \<Rightarrow> 'i list \<Rightarrow> (nat \<times> nat) set" where
  "joined valid net tidxs = {(i, j). i \<noteq> j \<and> (\<exists>ix. summed_on valid net tidxs ix i \<and> summed_on valid net tidxs ix j)}"

definition mask_at :: "('i \<times> mask) list \<Rightarrow> 'i \<Rightarrow> mask" where
  "mask_at cs k = (case map_of cs k of None \<Rightarrow> 0 | Some m \<Rightarrow> m)"

lemma carry_at_keys: "fst ` set (carry_at b cs k) = insert k (fst ` set cs)"
  by (induction b cs k rule: carry_at.induct) auto

lemma carry_at_distinct: "distinct (map fst cs) \<Longrightarrow> distinct (map fst (carry_at b cs k))"
  by (induction b cs k rule: carry_at.induct) (auto simp: carry_at_keys)

lemma mask_at_carry: "mask_at (carry_at b cs k) j = (if j = k then mask_at cs k OR b else mask_at cs j)"
  by (induction b cs k rule: carry_at.induct) (auto simp: mask_at_def)

lemma carry_slots:
  fixes valid tidxs
  defines "step \<equiv> \<lambda>b cs ix. if \<not> valid ix \<or> ix \<in> set tidxs then cs else carry_at b cs ix"
  shows "mask_at (foldl (step b) cs ixs) k =
           (if k \<in> set ixs \<and> valid k \<and> k \<notin> set tidxs then mask_at cs k OR b else mask_at cs k)"
    and "distinct (map fst cs) \<Longrightarrow> distinct (map fst (foldl (step b) cs ixs))"
proof (induction ixs arbitrary: cs)
  case (Cons x xs)
  case 1
  show ?case using Cons(1) [of "step b cs x"] by (auto simp: step_def mask_at_carry or.assoc)
  case 2
  show ?case using Cons(2) [of "step b cs x"] 2 by (auto simp: step_def carry_at_distinct)
qed simp_all

lemma carriers_correct:
  fixes net :: "('i, 't) net_tensor list"
  assumes "length net \<le> 64"
  shows "bit (mask_at (contractible_carriers valid net tidxs) k) i \<longleftrightarrow> summed_on valid net tidxs k i"
    and "distinct (map fst (contractible_carriers valid net tidxs))"
proof -
  let ?in = "\<lambda>cs ix b. if \<not> valid ix \<or> ix \<in> set tidxs then cs else carry_at b cs ix"
  let ?step = "\<lambda>cs i. foldl (\<lambda>cs ix. ?in cs ix (push_bit i 1)) cs (net_slots (net ! i))"
  have "N \<le> length net \<Longrightarrow>
      (bit (mask_at (foldl ?step [] [0..<N]) k) i \<longleftrightarrow> i < N \<and> summed_on valid net tidxs k i)
      \<and> distinct (map fst (foldl ?step [] [0..<N]))" for N
  proof (induction N)
    case 0
    then show ?case by (simp add: mask_at_def)
  next
    case (Suc N)
    have N: "N < 64" using Suc.prems assms by simp
    let ?cs = "foldl ?step [] [0..<N]" and ?b = "push_bit N 1 :: mask"
    have unroll: "foldl ?step [] [0..<Suc N] = foldl (\<lambda>cs ix. ?in cs ix ?b) ?cs (net_slots (net ! N))"
      by (simp del: push_bit_of_1)
    have IH: "bit (mask_at ?cs k) i \<longleftrightarrow> i < N \<and> summed_on valid net tidxs k i" "distinct (map fst ?cs)"
      using Suc by simp_all
    have b: "bit ?b i \<longleftrightarrow> i = N" by (rule bit_one_at [OF N])
    have "bit (mask_at (foldl ?step [] [0..<Suc N]) k) i
        \<longleftrightarrow> (i < N \<and> summed_on valid net tidxs k i) \<or> (summed_on valid net tidxs k N \<and> i = N)"
      unfolding unroll carry_slots(1) using Suc.prems by (simp only: bit_or_iff b IH(1) if_bool_eq_disj if_distrib [of "\<lambda>m. bit m i"]) (auto simp: summed_on_def)
    moreover have "distinct (map fst (foldl ?step [] [0..<Suc N]))"
      unfolding unroll by (rule carry_slots(2) [OF IH(2)])
    ultimately show ?case by (auto simp: less_Suc_eq simp del: upt_Suc foldl_append)
  qed
  from this [of "length net"]
  show "bit (mask_at (contractible_carriers valid net tidxs) k) i \<longleftrightarrow> summed_on valid net tidxs k i"
    "distinct (map fst (contractible_carriers valid net tidxs))"
    unfolding contractible_carriers_def by (auto simp: summed_on_def)
qed

lemma two_bits: "bit cm i \<Longrightarrow> bit cm j \<Longrightarrow> i \<noteq> j \<Longrightarrow> \<not> popcount (cm :: mask) < 2"
proof -
  assume "bit cm i" "bit cm j" "i \<noteq> j"
  then have "card {i, j} \<le> card (bits_of cm)" by (intro card_mono) auto
  then show ?thesis using \<open>i \<noteq> j\<close> by (simp add: popcount_card)
qed

lemma adjacency_fold:
  assumes "i < length adj"
  shows "length (foldl (\<lambda>adj (ix, cm). if popcount cm < 2 then adj else spread_edges cm cm adj) adj cs) = length adj \<and>
    (bit (foldl (\<lambda>adj (ix, cm). if popcount cm < 2 then adj else spread_edges cm cm adj) adj cs ! i) j
       \<longleftrightarrow> bit (adj ! i) j \<or> (\<exists>(ix, cm) \<in> set cs. bit cm i \<and> bit cm j \<and> i \<noteq> j))"
  using assms
proof (induction cs arbitrary: adj)
  case (Cons c cs)
  obtain ix cm where c: "c = (ix, cm)" by (cases c)
  let ?adj = "if popcount cm < 2 then adj else spread_edges cm cm adj"
  have len: "length ?adj = length adj" by (simp add: spread_edges_length)
  have "bit (?adj ! i) j \<longleftrightarrow> bit (adj ! i) j \<or> (bit cm i \<and> bit cm j \<and> i \<noteq> j)"
    using two_bits [of cm i j] Cons.prems by (auto simp: spread_edges_bit)
  then show ?case using Cons.IH [of ?adj] Cons.prems len by (auto simp: c)
qed simp

lemma adjacency_correct:
  assumes "length net \<le> 64" "i < length net"
  shows "bit (contractible_adjacency valid net tidxs ! i) j \<longleftrightarrow> (i, j) \<in> joined valid net tidxs"
proof -
  let ?cs = "contractible_carriers valid net tidxs"
  note cc = carriers_correct [OF assms(1), of valid tidxs]
  have entry: "(ix, cm) \<in> set ?cs \<Longrightarrow> bit cm i \<longleftrightarrow> summed_on valid net tidxs ix i" for ix cm i
    using cc(1) [of ix i] cc(2) by (simp add: mask_at_def)
  have ex: "summed_on valid net tidxs ix i \<Longrightarrow> \<exists>cm. (ix, cm) \<in> set ?cs" for ix i
    using cc(1) [of ix i] by (auto simp: mask_at_def split: option.splits dest: map_of_SomeD)
  have "bit (contractible_adjacency valid net tidxs ! i) j
      \<longleftrightarrow> (\<exists>(ix, cm) \<in> set ?cs. bit cm i \<and> bit cm j \<and> i \<noteq> j)"
    using adjacency_fold [of i "replicate (length net) 0" ?cs j] assms(2)
    unfolding contractible_adjacency_def by simp
  also have "\<dots> \<longleftrightarrow> (i, j) \<in> joined valid net tidxs"
    unfolding joined_def using entry ex by fastforce
  finally show ?thesis .
qed

lemma joined_sym: "sym (joined valid net tidxs)"
  by (auto simp: sym_def joined_def)

lemma bit_nat_less: "bit (i :: nat) k \<Longrightarrow> i < 2 ^ nt \<Longrightarrow> k < nt"
  by (metis bit_take_bit_iff take_bit_nat_eq_self)

lemma mask_of_nat_bit: "i < 2 ^ nt \<Longrightarrow> nt \<le> 64 \<Longrightarrow> bit (of_nat i :: mask) k \<longleftrightarrow> bit i k"
proof -
  assume i: "i < 2 ^ nt" "nt \<le> 64"
  have "bit i k \<Longrightarrow> k < 64" using bit_nat_less [OF _ i(1)] i(2) by fastforce
  then show ?thesis by (auto simp: bit_of_nat_iff)
qed

lemma connected_subsets_linked:
  assumes "length net \<le> 64" "i < 2 ^ length net"
  shows "connected_subsets (contractible_adjacency valid net tidxs) (length net) ! i
         \<longleftrightarrow> linked (joined valid net tidxs) (bits_of (of_nat i))"
proof -
  let ?n = "of_nat i :: mask" and ?adj = "contractible_adjacency valid net tidxs"
  have len: "bit ?n k \<Longrightarrow> k < length net" for k
    using bit_nat_less [OF _ assms(2)] mask_of_nat_bit [OF assms(2,1)] by blast
  have "connected_subsets ?adj (length net) ! i \<longleftrightarrow>
      popcount ?n \<le> 1 \<or> (let start = ?n AND (NOT ?n + 1) in reach ?adj ?n start start = ?n)"
    using assms(2) by (simp add: connected_subsets_def Let_def)
  also have "\<dots> \<longleftrightarrow> linked (joined valid net tidxs) (bits_of ?n)"
  proof (cases "popcount ?n \<le> 1")
    case True
    then show ?thesis by (simp add: popcount_card linked_small)
  next
    case False
    then have "?n \<noteq> 0" by (auto simp: popcount_def)
    from reach_linked [OF this joined_sym, of ?adj valid net tidxs]
    show ?thesis using False adjacency_correct [OF assms(1)] len by simp
  qed
  finally show ?thesis .
qed

lemma full_mask_bits: "nt \<le> 64 \<Longrightarrow> bits_of (of_nat (2 ^ nt - 1)) = {..<nt}"
  by (auto simp: mask_of_nat_bit [of _ nt] bit_simps mask_eq_exp_minus_1 [symmetric])

definition pruned :: "string option \<Rightarrow> ('i \<Rightarrow> bool) \<Rightarrow> ('i, 't) net_tensor list \<Rightarrow> 'i list \<Rightarrow> bool \<Rightarrow> bool" where
  "pruned disable valid net tidxs prune \<longleftrightarrow>
     prune \<and> (case disable of None \<Rightarrow> True | Some v \<Rightarrow> v = '''') \<and> linked (joined valid net tidxs) {..<length net}"

lemma connectivity_length:
  "length (outer_product_connectivity disable valid net tidxs prune) = 2 ^ length net"
  by (simp add: outer_product_connectivity_def connected_subsets_def Let_def)

lemma connectivity_nth:
  assumes "length net \<le> 64" "i < 2 ^ length net"
  shows "outer_product_connectivity disable valid net tidxs prune ! i
         \<longleftrightarrow> (pruned disable valid net tidxs prune \<longrightarrow> linked (joined valid net tidxs) (bits_of (of_nat i)))"
proof -
  let ?m = "connected_subsets (contractible_adjacency valid net tidxs) (length net)"
  have len: "length ?m = 2 ^ length net" by (simp add: connected_subsets_def)
  then have "last ?m = ?m ! (2 ^ length net - 1)" by (metis last_conv_nth length_0_conv power_not_zero zero_neq_numeral)
  also have "\<dots> \<longleftrightarrow> linked (joined valid net tidxs) {..<length net}"
    using connected_subsets_linked [OF assms(1)] full_mask_bits [OF assms(1)] by simp
  finally have last: "last ?m \<longleftrightarrow> linked (joined valid net tidxs) {..<length net}" .
  have "?m \<noteq> []" using len by auto
  then show ?thesis
    using connected_subsets_linked [OF assms, of valid tidxs] assms(2) last
    by (cases disable) (auto simp: outer_product_connectivity_def pruned_def Let_def)
qed

text \<open>C28: The breadth-first searches of \<open>connected_subsets\<close> end and mark exactly the subsets whose tensors
  are linked to each other by indices that are summed and not shared through tensors outside the subset;
  \<open>outer_product_connectivity\<close> marks the same subsets, or all of them when pruning is off or the whole
  network falls apart, and always the empty set, the single tensors and the whole network.\<close>
theorem connectivity_is_linkage:
  assumes "length net \<le> 64"
  shows "length (outer_product_connectivity disable valid net tidxs prune) = 2 ^ length net
    \<and> (\<forall>i < 2 ^ length net.
         (outer_product_connectivity disable valid net tidxs prune ! i
            \<longleftrightarrow> (pruned disable valid net tidxs prune \<longrightarrow> linked (joined valid net tidxs) (bits_of (of_nat i))))
         \<and> (connected_subsets (contractible_adjacency valid net tidxs) (length net) ! i
            \<longleftrightarrow> linked (joined valid net tidxs) (bits_of (of_nat i)))
         \<and> (popcount (of_nat i :: mask) \<le> 1 \<or> i = 2 ^ length net - 1
              \<longrightarrow> outer_product_connectivity disable valid net tidxs prune ! i))"
proof (intro conjI allI impI)
  fix i :: nat assume i: "i < 2 ^ length net"
  show "outer_product_connectivity disable valid net tidxs prune ! i
        \<longleftrightarrow> (pruned disable valid net tidxs prune \<longrightarrow> linked (joined valid net tidxs) (bits_of (of_nat i)))"
    by (rule connectivity_nth [OF assms i])
  show "connected_subsets (contractible_adjacency valid net tidxs) (length net) ! i
        \<longleftrightarrow> linked (joined valid net tidxs) (bits_of (of_nat i))"
    by (rule connected_subsets_linked [OF assms i])
  show "popcount (of_nat i :: mask) \<le> 1 \<or> i = 2 ^ length net - 1
        \<Longrightarrow> outer_product_connectivity disable valid net tidxs prune ! i"
    unfolding connectivity_nth [OF assms i] popcount_card
    using linked_small full_mask_bits [OF assms] by (auto simp: pruned_def)
qed (rule connectivity_length)

text \<open>Three tensors in a chain: the outer two share nothing that is summed.\<close>

definition chain_net :: "(nat, nat) net_tensor list" where
  "chain_net = map (\<lambda>s. \<lparr>net_slots = s, net_kind = PlainTensor 0\<rparr>) [[1, 2], [2, 3], [3, 4]]"

lemma chain_net_length [simp]: "length chain_net = 3"
  by (simp add: chain_net_def)

lemma connectivity_is_linkage_witness:
  "outer_product_connectivity None (\<lambda>_. True) chain_net [1, 4] True ! 7
   \<and> \<not> linked (joined (\<lambda>_. True) chain_net [1, 4]) (bits_of 5)"
proof -
  have "\<not> connected_subsets (contractible_adjacency (\<lambda>_. True) chain_net [1, 4]) 3 ! 5" by code_simp
  moreover have "length chain_net = 3" by simp
  moreover have "(7 :: nat) < 2 ^ length chain_net" "(5 :: nat) < 2 ^ length chain_net" by simp_all
  moreover have "(7 :: nat) = 2 ^ length chain_net - 1" "length chain_net \<le> 64" by simp_all
  ultimately show ?thesis
    using connectivity_is_linkage [of chain_net None "\<lambda>_. True" "[1, 4]" True] by (metis of_nat_numeral)
qed

end
