(* ===== verification/CostModel.thy ===== *)
theory CostModel
  imports SingleTerm
begin

text \<open>
  SeQuant/core/optimize/cost_model.hpp: the dynamic programming over the subsets of
  a network with the hooks of a cost model, and the additive model (flops or operand sizes).  A cost model
  is the record of its hooks; a hook that calls a counter may throw.  What the driver computes is stated
  over plans, the orders of binary contractions, for every model with optimal substructure.
\<close>

section \<open>The driver\<close>

record ('i, 't, 'c, 's) cost_model =
  build_context :: "('i, 't) net_tensor list \<Rightarrow> 'i list \<Rightarrow> (opt_error, 'c) result"
  default_state :: 's
  leaf_state :: "'c \<Rightarrow> mask \<Rightarrow> 's"
  init_state :: "'c \<Rightarrow> mask \<Rightarrow> 's"
  relax :: "'c \<Rightarrow> mask \<Rightarrow> mask \<Rightarrow> mask \<Rightarrow> 's \<Rightarrow> 's \<Rightarrow> 's \<Rightarrow> (opt_error, 's) result"
  finalize :: "'c \<Rightarrow> mask \<Rightarrow> 's list \<Rightarrow> (opt_error, 'c \<times> 's list) result"
  reconstruct :: "'c \<Rightarrow> 's list \<Rightarrow> int list option"
  prune_outer_products :: bool

text \<open>The value of the environment variable and the test \<open>nonnull\<close> of an index, which the connectivity uses.\<close>

record 'i opt_env =
  disable_pruning :: "string option"
  nonnull :: "'i \<Rightarrow> bool"

definition relax_split ::
    "('i, 't, 'c, 's) cost_model \<Rightarrow> bool list \<Rightarrow> 'c \<Rightarrow> mask \<Rightarrow> 's list \<Rightarrow> 's \<Rightarrow> mask \<times> mask \<Rightarrow> (opt_error, 's) result" where
  "relax_split m conn ctx n st acc split =
     (let (lp, rp) = split
      in if lp \<noteq> 0 \<and> rp \<noteq> 0 \<and> conn ! unat lp \<and> conn ! unat rp
         then relax m ctx n lp rp (st ! unat lp) (st ! unat rp) acc
         else Inr acc)"

definition solve_step ::
    "('i, 't, 'c, 's) cost_model \<Rightarrow> bool list \<Rightarrow> 'c \<times> 's list \<Rightarrow> nat \<Rightarrow> (opt_error, 'c \<times> 's list) result" where
  "solve_step m conn cs i =
     (let (ctx, st) = cs; n = of_nat i :: mask
      in if popcount n = 1 then Inr (ctx, st[i := leaf_state m ctx n])
         else if \<not> conn ! i then Inr (ctx, st)
         else bind_res (fold_res (relax_split m conn ctx n st) (init_state m ctx n) (bipartitions n)) (\<lambda>acc.
                finalize m ctx n (st[i := acc])))"

definition solve_single_term ::
    "'i opt_env \<Rightarrow> ('i, 't, 'c, 's) cost_model \<Rightarrow> ('i, 't) net_tensor list \<Rightarrow> 'i list \<Rightarrow> 'c
       \<Rightarrow> (opt_error, 'c \<times> 's list) result" where
  "solve_single_term env m net tidxs ctx =
     (let conn = outer_product_connectivity (disable_pruning env) (nonnull env) net tidxs (prune_outer_products m)
      in fold_res (solve_step m conn) (ctx, replicate (2 ^ length net) (default_state m)) [1..<2 ^ length net])"

text \<open>The sequence is \<open>None\<close> if the model's reconstruction does not end.\<close>

definition run_single_term_opt ::
    "'i opt_env \<Rightarrow> ('i, 't, 'c, 's) cost_model \<Rightarrow> ('i, 't) net_tensor list \<Rightarrow> 'i list
       \<Rightarrow> (opt_error, int list option) result" where
  "run_single_term_opt env m net tidxs =
     (if length net = 1 then Inr (Some [0])
      else if length net = 2 then Inr (Some [0, 1, -1])
      else bind_res (build_context m net tidxs) (\<lambda>ctx.
           bind_res (solve_single_term env m net tidxs ctx) (\<lambda>(ctx', st). Inr (reconstruct m ctx' st))))"

section \<open>The additive model\<close>

record ('i, 'm) additive_params =
  cost_fn :: "'i set \<Rightarrow> 'i set \<Rightarrow> 'i set \<Rightarrow> (opt_error, real) result"
  footprint_fn :: "'i set \<Rightarrow> (opt_error, real) result"
  volatile_mask :: mask
  volatile_weight :: real
  footprint_weight :: real
  subnet_cse :: bool
  canonical :: "nat list \<Rightarrow> 'm"
  additive_prune :: bool

record additive_state =
  ops :: real
  lp_of :: mask
  rp_of :: mask
  subnets :: "nat list"

record 'i additive_ctx =
  results :: "'i opt_res list"
  ctx_meta_ids :: "nat list"
  ctx_meta_costs :: "real list"

definition additive_context ::
    "'i opt_env \<Rightarrow> ('i \<Rightarrow> 'i list) \<Rightarrow> ('i, 'm) additive_params \<Rightarrow> ('i, 't) net_tensor list \<Rightarrow> 'i list
       \<Rightarrow> (opt_error, 'i additive_ctx) result" where
  "additive_context env protos a net tidxs =
     (let conn = outer_product_connectivity (disable_pruning env) (nonnull env) net tidxs (additive_prune a)
      in bind_res (init_results protos net tidxs (replicate (2 ^ length net) no_res) (Some conn)) (\<lambda>rs.
           Inr (if subnet_cse a
                then let md = build_subnet_metadata (canonical a) (length rs) conn
                     in \<lparr>results = rs, ctx_meta_ids = meta_ids md, ctx_meta_costs = unique_meta_costs md\<rparr>
                else \<lparr>results = rs, ctx_meta_ids = [], ctx_meta_costs = []\<rparr>)))"

definition additive_leaf :: "'i additive_ctx \<Rightarrow> mask \<Rightarrow> additive_state" where
  "additive_leaf ctx n = \<lparr>ops = 0, lp_of = 0, rp_of = 0, subnets = []\<rparr>"

definition additive_init :: "'i additive_ctx \<Rightarrow> mask \<Rightarrow> additive_state" where
  "additive_init ctx n = \<lparr>ops = dbl_max, lp_of = 0, rp_of = 0, subnets = []\<rparr>"

text \<open>\<open>std::set_union\<close> of sorted ranges.\<close>

fun set_union :: "'a::linorder list \<Rightarrow> 'a list \<Rightarrow> 'a list" where
  "set_union [] ys = ys"
| "set_union xs [] = xs"
| "set_union (x # xs) (y # ys) =
     (if x < y then x # set_union xs (y # ys)
      else if y < x then y # set_union (x # xs) ys
      else x # set_union xs ys)"

definition open_of :: "'i additive_ctx \<Rightarrow> mask \<Rightarrow> 'i set" where
  "open_of ctx n = res_indices (results ctx ! unat n)"

text \<open>The cost of forming subset \<open>n\<close> from two parts: the weighted cost and the footprint penalty.\<close>

definition split_cost :: "('i, 'm) additive_params \<Rightarrow> 'i additive_ctx \<Rightarrow> mask \<Rightarrow> mask \<Rightarrow> mask \<Rightarrow> (opt_error, real) result" where
  "split_cost a ctx n lp rp =
     (let w = (if volatile_mask a AND n \<noteq> 0 then volatile_weight a else 1)
      in bind_res (if footprint_weight a \<noteq> 0
                   then bind_res (footprint_fn a (open_of ctx n)) (\<lambda>f. Inr (footprint_weight a * f)) else Inr 0) (\<lambda>fp.
         bind_res (cost_fn a (open_of ctx lp) (open_of ctx rp) (open_of ctx n)) (\<lambda>c. Inr (w * c + fp))))"

definition additive_relax ::
    "('i, 'm) additive_params \<Rightarrow> 'i additive_ctx \<Rightarrow> mask \<Rightarrow> mask \<Rightarrow> mask \<Rightarrow> additive_state \<Rightarrow> additive_state
       \<Rightarrow> additive_state \<Rightarrow> (opt_error, additive_state) result" where
  "additive_relax a ctx n lp rp l r acc =
     bind_res (split_cost a ctx n lp rp) (\<lambda>c.
       let combined = (if subnet_cse a then set_union (subnets l) (subnets r) else []);
           new_cost = (if subnet_cse a then foldl (\<lambda>s k. s + ctx_meta_costs ctx ! k) c combined
                       else c + ops l + ops r)
       in Inr (if new_cost \<le> ops acc
               then \<lparr>ops = new_cost, lp_of = lp, rp_of = rp,
                     subnets = (if subnet_cse a then combined else subnets acc)\<rparr>
               else acc))"

definition additive_finalize ::
    "('i, 'm) additive_params \<Rightarrow> 'i additive_ctx \<Rightarrow> mask \<Rightarrow> additive_state list
       \<Rightarrow> (opt_error, 'i additive_ctx \<times> additive_state list) result" where
  "additive_finalize a ctx n st =
     (if \<not> subnet_cse a then Inr (ctx, st)
      else let mid = ctx_meta_ids ctx ! unat n; s = st ! unat n
           in bind_res (split_cost a ctx n (lp_of s) (rp_of s)) (\<lambda>c.
                Inr (ctx\<lparr>ctx_meta_costs := (ctx_meta_costs ctx)[mid := c]\<rparr>,
                     st[unat n := s\<lparr>subnets := flat_insert (<) (subnets s) mid\<rparr>])))"

text \<open>One step of the bottom-up rebuilding of the sequences.\<close>

definition sequence_step :: "additive_state list \<Rightarrow> int list list \<Rightarrow> nat \<Rightarrow> int list list" where
  "sequence_step st sq i =
     (let n = of_nat i :: mask; lp = lp_of (st ! i); rp = rp_of (st ! i)
      in if popcount n = 1 then sq[i := sq ! i @ [int (ctz n)]]
         else if popcount n \<ge> 2 \<and> \<not> (lp = 0 \<and> rp = 0)
         then let lseq = sq ! unat lp; rseq = sq ! unat rp
              in sq[i := (if lseq ! 0 < rseq ! 0 then lseq @ rseq else rseq @ lseq) @ [-1]]
         else sq)"

definition additive_reconstruct :: "'i additive_ctx \<Rightarrow> additive_state list \<Rightarrow> int list option" where
  "additive_reconstruct ctx st =
     Some (last (foldl (sequence_step st) (replicate (length st) []) [0..<length st]))"

definition additive_model ::
    "'i opt_env \<Rightarrow> ('i \<Rightarrow> 'i list) \<Rightarrow> ('i, 'm) additive_params \<Rightarrow> ('i, 't, 'i additive_ctx, additive_state) cost_model" where
  "additive_model env protos a =
     \<lparr>build_context = additive_context env protos a,
      default_state = \<lparr>ops = dbl_max, lp_of = 0, rp_of = 0, subnets = []\<rparr>,
      leaf_state = additive_leaf, init_state = additive_init, relax = additive_relax a,
      finalize = additive_finalize a, reconstruct = additive_reconstruct,
      prune_outer_products = additive_prune a\<rparr>"

section \<open>Plans\<close>

text \<open>
  A plan is an order of binary contractions with the order of evaluation of the two sides; its postfix
  form is the \<open>EvalSequence\<close> of the code.  It is legal when it loads tensors of the network, contracts
  disjoint parts and forms connected subsets only.
\<close>

datatype plan = Load nat | Contract plan plan

primrec plan_mask :: "plan \<Rightarrow> mask" where
  "plan_mask (Load i) = push_bit i 1"
| "plan_mask (Contract a b) = plan_mask a OR plan_mask b"

primrec postfix :: "plan \<Rightarrow> int list" where
  "postfix (Load i) = [int i]"
| "postfix (Contract a b) = postfix a @ postfix b @ [-1]"

primrec legal :: "bool list \<Rightarrow> nat \<Rightarrow> plan \<Rightarrow> bool" where
  "legal conn nt (Load i) \<longleftrightarrow> i < nt"
| "legal conn nt (Contract a b) \<longleftrightarrow> legal conn nt a \<and> legal conn nt b
     \<and> plan_mask a AND plan_mask b = 0 \<and> conn ! unat (plan_mask a OR plan_mask b)"

primrec plan_value :: "(mask \<Rightarrow> 'v) \<Rightarrow> (mask \<Rightarrow> mask \<Rightarrow> 'v \<Rightarrow> 'v \<Rightarrow> 'v) \<Rightarrow> plan \<Rightarrow> 'v" where
  "plan_value lv jn (Load i) = lv (push_bit i 1)"
| "plan_value lv jn (Contract a b) = jn (plan_mask a) (plan_mask b) (plan_value lv jn a) (plan_value lv jn b)"

lemma unat_disjoint: "a AND b = (0 :: mask) \<Longrightarrow> unat (a OR b) = unat a + unat b"
proof -
  assume "a AND b = 0"
  then have "unat a AND unat b = 0" by (metis unsigned_0 unsigned_and_eq)
  then show ?thesis by (simp add: unsigned_or_eq disjunctive_add_eq_or)
qed

lemma bits_of_or: "bits_of (a OR b) = bits_of a \<union> bits_of b"
  by (auto simp: bit_or_iff)

lemma bits_of_disjoint: "a AND b = 0 \<longleftrightarrow> bits_of a \<inter> bits_of b = {}"
  by (auto simp: bit_eq_iff bit_and_iff set_eq_iff) (metis mask_bit_less)+

lemma popcount_disjoint: "a AND b = (0 :: mask) \<Longrightarrow> popcount (a OR b) = popcount a + popcount b"
  by (simp add: popcount_card bits_of_or bits_of_disjoint card_Un_disjoint)

lemma bits_of_one: "i < 64 \<Longrightarrow> bits_of (push_bit i 1) = {i}"
  by (auto simp: bit_one_at simp del: push_bit_of_1)

lemma popcount_one: "popcount (n :: mask) = 1 \<longleftrightarrow> (\<exists>i < 64. n = push_bit i 1)"
proof
  assume "popcount n = 1"
  then obtain i where i: "bits_of n = {i}" by (auto simp: popcount_card card_1_singleton_iff)
  then have "i < 64" using mask_bit_less by (metis bits_of_iff singletonI)
  moreover have "n = push_bit i 1"
    using i bits_of_one [OF \<open>i < 64\<close>] by (intro mask_eqI) (metis bits_of_iff)
  ultimately show "\<exists>i < 64. n = push_bit i 1" by blast
qed (auto simp: popcount_card bits_of_one simp del: push_bit_of_1)

lemma unat_of_small: "i < 2 ^ 64 \<Longrightarrow> unat (of_nat i :: mask) = i"
  by (simp add: unat_of_nat take_bit_nat_eq_self)

lemma ctz_one: "i < 64 \<Longrightarrow> ctz (push_bit i 1 :: mask) = i"
  using lowest_bit(1) [of "push_bit i 1"] bit_one_at [of i] by (metis bit_0_eq bot_apply bot_bool_def)

lemma popcount_pos: "n \<noteq> 0 \<longleftrightarrow> 0 < popcount (n :: mask)"
proof
  assume "n \<noteq> 0"
  then have "ctz n \<in> bits_of n" using lowest_bit(1) by simp
  then show "0 < popcount n" unfolding popcount_card by (intro card_gt_0_iff [THEN iffD2]) auto
qed (auto simp: popcount_def)

lemma unat_mask_less: "unat n < 2 ^ nt" if "\<And>i. bit n i \<Longrightarrow> i < nt" "nt \<le> 64" for n :: mask
proof -
  have "take_bit nt (unat n) = unat n"
    using that(1) by (intro bit_eqI) (auto simp: bit_take_bit_iff bit_unsigned_iff)
  then show ?thesis by (metis take_bit_nat_less_exp)
qed

lemma legal_mask:
  assumes "legal conn nt t" "nt \<le> 64"
  shows "plan_mask t \<noteq> 0" "unat (plan_mask t) < 2 ^ nt" "bits_of (plan_mask t) \<subseteq> {..<nt}"
proof -
  show sub: "bits_of (plan_mask t) \<subseteq> {..<nt}"
    using assms by (induction t) (auto simp: bits_of_one bits_of_or bit_one_at simp del: push_bit_of_1 bits_of_iff)
  show "unat (plan_mask t) < 2 ^ nt" using sub assms(2) by (intro unat_mask_less) auto
  show "plan_mask t \<noteq> 0" using assms
  proof (induction t)
    case (Load i)
    then show ?case using popcount_one [of "push_bit i 1"] popcount_pos [of "push_bit i 1"] by auto
  next
    case (Contract a b)
    then show ?case using unat_disjoint [of "plan_mask a" "plan_mask b"] by (auto simp: unat_eq_0)
  qed
qed

lemma split_facts:
  assumes "(lp, rp) \<in> set (bipartitions n)"
  shows "lp OR rp = n" "lp AND rp = 0"
proof -
  have "(lp, rp) \<in> set (bipartitions_ordered n)"
    using assms set_take_subset by (fastforce simp: bipartitions_def bipartitions_unordered_def Let_def)
  then show "lp OR rp = n" "lp AND rp = 0" using bipartition_facts [of n] by auto
qed

lemma split_exists:
  "a OR b = n \<Longrightarrow> a AND b = 0 \<Longrightarrow> n \<noteq> 0 \<Longrightarrow> (a, b) \<in> set (bipartitions n) \<or> (b, a) \<in> set (bipartitions n)"
  using bipartition_facts [of n] by blast

lemma split_less:
  fixes lp rp :: mask
  assumes "lp AND rp = 0" "lp \<noteq> 0" "rp \<noteq> 0"
  shows "unat lp < unat (lp OR rp)" "unat rp < unat (lp OR rp)"
  using unat_disjoint [OF assms(1)] assms(2,3) by (auto simp: unat_gt_0 unat_eq_0 intro: gr0I)

section \<open>What the driver computes\<close>

lemma fold_res_cong:
  "(\<And>x s. x \<in> set xs \<Longrightarrow> f s x = g s x) \<Longrightarrow> fold_res f s xs = fold_res g s xs"
  by (induction xs arbitrary: s) (auto simp: bind_res_def split: sum.splits)

lemma fold_res_append: "fold_res f s (xs @ ys) = bind_res (fold_res f s xs) (\<lambda>s'. fold_res f s' ys)"
  by (induction xs arbitrary: s) (auto simp: bind_res_def split: sum.splits)

lemma relax_split_cong:
  assumes "(lp, rp) \<in> set (bipartitions n)" "\<And>i. i < unat n \<Longrightarrow> st ! i = st' ! i"
  shows "relax_split m conn ctx n st acc (lp, rp) = relax_split m conn ctx n st' acc (lp, rp)"
  using assms(2) split_less [OF split_facts(2) [OF assms(1)]] split_facts(1) [OF assms(1)]
  by (auto simp: relax_split_def)

text \<open>The table the driver fills: every entry is folded from the final entries of smaller subsets.\<close>

definition table_ok ::
    "('i, 't, 'c, 's) cost_model \<Rightarrow> bool list \<Rightarrow> 'c \<Rightarrow> 's list \<Rightarrow> nat \<Rightarrow> bool" where
  "table_ok m conn ctx st k \<longleftrightarrow>
     (\<forall>i. 1 \<le> i \<longrightarrow> i < k \<longrightarrow>
        (let n = of_nat i :: mask
         in if popcount n = 1 then st ! i = leaf_state m ctx n
            else conn ! i \<longrightarrow> fold_res (relax_split m conn ctx n st) (init_state m ctx n) (bipartitions n) = Inr (st ! i)))"

lemma table_ok_update:
  assumes "table_ok m conn ctx st k" "k \<le> 2 ^ 64"
  shows "table_ok m conn ctx (st[k := s]) k"
  unfolding table_ok_def
proof (intro allI impI)
  fix i :: nat
  assume i: "1 \<le> i" "i < k"
  let ?n = "of_nat i :: mask"
  have n: "unat ?n = i" using i assms(2) by (intro unat_of_small) simp
  have "fold_res (relax_split m conn ctx ?n (st[k := s])) (init_state m ctx ?n) (bipartitions ?n)
      = fold_res (relax_split m conn ctx ?n st) (init_state m ctx ?n) (bipartitions ?n)"
    using i n by (intro fold_res_cong) (auto intro!: relax_split_cong)
  then show "let n = of_nat i :: mask
     in if popcount n = 1 then st[k := s] ! i = leaf_state m ctx n
        else conn ! i \<longrightarrow> fold_res (relax_split m conn ctx n (st[k := s])) (init_state m ctx n) (bipartitions n) = Inr (st[k := s] ! i)"
    using assms(1) i by (auto simp: table_ok_def Let_def)
qed

lemma fold_res_snoc: "fold_res f s (xs @ [x]) = bind_res (fold_res f s xs) (\<lambda>s'. f s' x)"
  by (simp add: fold_res_append bind_res_def split: sum.splits)

definition model_conn ::
    "'i opt_env \<Rightarrow> ('i, 't, 'c, 's) cost_model \<Rightarrow> ('i, 't) net_tensor list \<Rightarrow> 'i list \<Rightarrow> bool list" where
  "model_conn env m net tidxs =
     outer_product_connectivity (disable_pruning env) (nonnull env) net tidxs (prune_outer_products m)"

lemma solve_table:
  assumes "\<And>c n st. finalize m c n st = Inr (c, st)" "length net \<le> 64"
    and "solve_single_term env m net tidxs ctx = Inr (ctx', st)"
  shows "ctx' = ctx \<and> length st = 2 ^ length net \<and> table_ok m (model_conn env m net tidxs) ctx st (2 ^ length net)"
proof -
  let ?conn = "model_conn env m net tidxs" and ?st0 = "replicate (2 ^ length net) (default_state m)"
  have "fold_res (solve_step m ?conn) (ctx, ?st0) [1..<k] = Inr (c, st) \<Longrightarrow> k \<le> 2 ^ length net
      \<Longrightarrow> c = ctx \<and> length st = 2 ^ length net \<and> table_ok m ?conn ctx st k" for c st k
  proof (induction k arbitrary: c st)
    case 0
    then show ?case by (auto simp: table_ok_def)
  next
    case (Suc k)
    show ?case
    proof (cases "k = 0")
      case True
      then show ?thesis using Suc.prems by (auto simp: table_ok_def)
    next
      case False
      then have upt: "[1..<Suc k] = [1..<k] @ [k]" by simp
      let ?n = "of_nat k :: mask"
      obtain c' st' where prev: "fold_res (solve_step m ?conn) (ctx, ?st0) [1..<k] = Inr (c', st')"
        and step: "solve_step m ?conn (c', st') k = Inr (c, st)"
        using Suc.prems(1) unfolding upt fold_res_snoc by (auto simp: bind_res_Inr)
      from Suc.IH [OF prev] Suc.prems(2)
      have IH: "c' = ctx" "length st' = 2 ^ length net" "table_ok m ?conn ctx st' k" by auto
      have k64: "k < 2 ^ 64" using Suc.prems(2) assms(2) power_increasing [of "length net" 64 "2 :: nat"] by linarith
      have klen: "k < length st'" using Suc.prems(2) IH(2) by simp
      obtain s where st: "c = ctx" "st = st'[k := s]"
        and s: "if popcount ?n = 1 then s = leaf_state m ctx ?n
           else ?conn ! k \<longrightarrow> fold_res (relax_split m ?conn ctx ?n st') (init_state m ctx ?n) (bipartitions ?n) = Inr s"
      proof (cases "popcount ?n \<noteq> 1 \<and> \<not> ?conn ! k")
        case True
        then show ?thesis using step IH(1) klen that [of "st' ! k"] by (auto simp: solve_step_def Let_def)
      next
        case False
        then show ?thesis using step IH(1) assms(1) that
          by (auto simp: solve_step_def Let_def bind_res_Inr split: if_splits)
      qed
      have eq: "fold_res (relax_split m ?conn ctx ?n st) (init_state m ctx ?n) (bipartitions ?n)
          = fold_res (relax_split m ?conn ctx ?n st') (init_state m ctx ?n) (bipartitions ?n)"
        unfolding st using unat_of_small [OF k64] by (intro fold_res_cong) (auto intro!: relax_split_cong)
      have "table_ok m ?conn ctx st k" unfolding st(2) using table_ok_update [OF IH(3)] k64 by simp
      then have "table_ok m ?conn ctx st (Suc k)"
        using s eq klen unfolding table_ok_def st(2) by (auto simp: less_Suc_eq Let_def)
      then show ?thesis using st IH(2) by simp
    qed
  qed
  from this [of "2 ^ length net" ctx' st] assms(3) show ?thesis
    unfolding solve_single_term_def model_conn_def Let_def by simp
qed

lemma table_row:
  assumes "table_ok m conn ctx st k" "n \<noteq> 0" "unat n < k"
  shows "popcount n = 1 \<Longrightarrow> st ! unat n = leaf_state m ctx n"
    and "popcount n \<noteq> 1 \<Longrightarrow> conn ! unat n \<Longrightarrow>
      fold_res (relax_split m conn ctx n st) (init_state m ctx n) (bipartitions n) = Inr (st ! unat n)"
proof -
  have "1 \<le> unat n" "of_nat (unat n) = n" using assms(2) unat_gt_0 [of n] by auto
  then show "popcount n = 1 \<Longrightarrow> st ! unat n = leaf_state m ctx n"
    "popcount n \<noteq> 1 \<Longrightarrow> conn ! unat n \<Longrightarrow>
      fold_res (relax_split m conn ctx n st) (init_state m ctx n) (bipartitions n) = Inr (st ! unat n)"
    using assms(1,3) unfolding table_ok_def Let_def by (metis, metis)
qed

text \<open>
  A cost model has optimal substructure for a value of plans when its states cover the values of the
  plans of their subset: the leaf state covers the value of loading a tensor, and relaxing over a split
  keeps what was covered and covers the contractions of covered values in both orders of evaluation.
\<close>

locale optimal_substructure =
  fixes m :: "('i, 't, 'c, 's) cost_model"
    and covers :: "'s \<Rightarrow> 'v \<Rightarrow> bool"
    and lv :: "'c \<Rightarrow> mask \<Rightarrow> 'v"
    and jn :: "'c \<Rightarrow> mask \<Rightarrow> mask \<Rightarrow> 'v \<Rightarrow> 'v \<Rightarrow> 'v"
  assumes finalize_id: "finalize m c n st = Inr (c, st)"
    and covers_leaf: "covers (leaf_state m c n) (lv c n)"
    and relax_keeps: "relax m c n lp rp l r acc = Inr acc' \<Longrightarrow> covers acc v \<Longrightarrow> covers acc' v"
    and relax_covers: "relax m c (lp OR rp) lp rp l r acc = Inr acc' \<Longrightarrow> covers l x \<Longrightarrow> covers r y
           \<Longrightarrow> covers acc' (jn c lp rp x y) \<and> covers acc' (jn c rp lp y x)"
begin

lemma fold_keeps:
  "fold_res (relax_split m conn c n st) acc xs = Inr acc' \<Longrightarrow> covers acc v \<Longrightarrow> covers acc' v"
proof (induction xs arbitrary: acc)
  case (Cons x xs)
  then show ?case by (cases x) (auto simp: relax_split_def bind_res_Inr split: if_splits dest: relax_keeps)
qed simp

lemma fold_covers:
  assumes "fold_res (relax_split m conn c n st) acc xs = Inr acc'" "(lp, rp) \<in> set xs" "n = lp OR rp"
    and "lp \<noteq> 0" "rp \<noteq> 0" "conn ! unat lp" "conn ! unat rp"
    and "covers (st ! unat lp) x" "covers (st ! unat rp) y"
  shows "covers acc' (jn c lp rp x y) \<and> covers acc' (jn c rp lp y x)"
  using assms(1,2)
proof (induction xs arbitrary: acc)
  case (Cons p xs)
  from Cons.prems(1) obtain s where s: "relax_split m conn c n st acc p = Inr s"
    and rest: "fold_res (relax_split m conn c n st) s xs = Inr acc'" by (auto simp: bind_res_Inr)
  show ?case
  proof (cases "p = (lp, rp)")
    case True
    then have "covers s (jn c lp rp x y) \<and> covers s (jn c rp lp y x)"
      using s assms(3-) relax_covers [of c lp rp] by (simp add: relax_split_def)
    then show ?thesis using fold_keeps [OF rest] by blast
  next
    case False
    then show ?thesis using Cons.IH [OF rest] Cons.prems(2) by simp
  qed
qed simp

lemma table_covers:
  assumes ok: "table_ok m conn ctx st (2 ^ nt)" and nt: "nt \<le> 64"
    and single: "\<And>i. i < nt \<Longrightarrow> conn ! unat (push_bit i 1 :: mask)"
  shows "legal conn nt t \<Longrightarrow> covers (st ! unat (plan_mask t)) (plan_value (lv ctx) (jn ctx) t)"
proof (induction t)
  case (Load i)
  let ?n = "push_bit i 1 :: mask"
  have "i < 64" using Load nt by simp
  then have "popcount ?n = 1" unfolding popcount_one by blast
  moreover have "?n \<noteq> 0" "unat ?n < 2 ^ nt" using legal_mask [OF Load nt] by (simp_all del: push_bit_of_1)
  ultimately have "st ! unat ?n = leaf_state m ctx ?n"
    using table_row(1) [OF ok] by blast
  then show ?case using covers_leaf by (simp del: push_bit_of_1)
next
  case (Contract a b)
  let ?a = "plan_mask a" and ?b = "plan_mask b"
  let ?n = "?a OR ?b"
  have leg: "legal conn nt a" "legal conn nt b" and dis: "?a AND ?b = 0" and cn: "conn ! unat ?n"
    using Contract.prems by auto
  have ne: "?a \<noteq> 0" "?b \<noteq> 0" using leg legal_mask(1) nt by blast+
  have n: "unat ?n < 2 ^ nt" "?n \<noteq> 0" using legal_mask [OF Contract.prems nt] by auto
  have "popcount ?n \<noteq> 1" using popcount_disjoint [OF dis] ne popcount_pos by force
  then have row: "fold_res (relax_split m conn ctx ?n st) (init_state m ctx ?n) (bipartitions ?n) = Inr (st ! unat ?n)"
    using table_row(2) [OF ok n(2,1)] cn by blast
  have conn: "conn ! unat (plan_mask t)" if "legal conn nt t" for t
    using that single by (cases t) auto
  have IH: "covers (st ! unat ?a) (plan_value (lv ctx) (jn ctx) a)" "covers (st ! unat ?b) (plan_value (lv ctx) (jn ctx) b)"
    using Contract.IH leg by auto
  let ?x = "plan_value (lv ctx) (jn ctx) a" and ?y = "plan_value (lv ctx) (jn ctx) b"
  have "covers (st ! unat ?n) (jn ctx ?a ?b ?x ?y)" if "(?a, ?b) \<in> set (bipartitions ?n)"
    using fold_covers [OF row that refl ne conn [OF leg(1)] conn [OF leg(2)] IH] by blast
  moreover have "covers (st ! unat ?n) (jn ctx ?a ?b ?x ?y)" if "(?b, ?a) \<in> set (bipartitions ?n)"
    using fold_covers [OF row that or.commute ne(2,1) conn [OF leg(2)] conn [OF leg(1)] IH(2,1)] by blast
  ultimately show ?case using split_exists [OF refl dis n(2)] by auto
qed

end

section \<open>Connected subsets have legal plans\<close>

lemma linked_grow:
  assumes "linked E B" "sym E" "b \<in> B" "(b, x) \<in> E"
  shows "linked E (insert x B)"
proof -
  let ?R = "E \<inter> insert x B \<times> insert x B"
  have B: "(u, v) \<in> ?R\<^sup>*" if "u \<in> B" "v \<in> B" for u v
    using assms(1) that rtrancl_mono [of "E \<inter> B \<times> B" ?R] by (auto simp: linked_def)
  have "(b, x) \<in> ?R" "(x, b) \<in> ?R" using assms(2-4) by (auto dest: symD)
  then have "(u, x) \<in> ?R\<^sup>*" "(x, u) \<in> ?R\<^sup>*" if "u \<in> B" for u
    using B [OF that assms(3)] B [OF assms(3) that]
    by (auto intro: rtrancl_into_rtrancl converse_rtrancl_into_rtrancl)
  then show ?thesis using B by (auto simp: linked_def)
qed

lemma linked_crossing:
  assumes "linked E A" "B \<subseteq> A" "B \<noteq> {}" "B \<noteq> A"
  shows "\<exists>b\<in>B. \<exists>x\<in>A - B. (b, x) \<in> E"
proof (rule ccontr)
  assume none: "\<not> ?thesis"
  obtain b x where b: "b \<in> B" and x: "x \<in> A - B" using assms by blast
  have "(b, x) \<in> (E \<inter> A \<times> A)\<^sup>*" using assms(1,2) b x by (auto simp: linked_def)
  then have "x \<in> B" by (induction rule: rtrancl_induct) (use b none in auto)
  then show False using x by simp
qed

text \<open>A linked set of at least two elements stays linked without one of them.\<close>

lemma linked_remove_one:
  assumes "linked E A" "sym E" "finite A" "2 \<le> card A"
  shows "\<exists>v\<in>A. linked E (A - {v})"
proof -
  define good where "good B \<longleftrightarrow> B \<subset> A \<and> B \<noteq> {} \<and> linked E B" for B
  obtain a where a: "a \<in> A" using assms(4) by fastforce
  have "good {a}" using a assms(3,4) linked_small [of "{a}" E] by (auto simp: good_def)
  moreover have "\<forall>B. good B \<longrightarrow> card B < Suc (card A)" using assms(3) by (auto simp: good_def less_Suc_eq_le intro: card_mono)
  ultimately obtain B where B: "good B" and top: "\<And>C. good C \<Longrightarrow> card C \<le> card B"
    using ex_has_greatest_nat [of good "{a}" card "Suc (card A)"] by (metis less_Suc_eq_le)
  have fin: "finite B" using B assms(3) by (auto simp: good_def intro: finite_subset)
  obtain b x where bx: "b \<in> B" "x \<in> A - B" "(b, x) \<in> E"
    using linked_crossing [OF assms(1), of B] B unfolding good_def by blast
  have "\<not> good (insert x B)" using top [of "insert x B"] bx fin by auto
  then have "insert x B = A" using linked_grow [OF _ assms(2) bx(1,3)] B bx(2) by (auto simp: good_def)
  then have "A - {x} = B" using bx(2) by auto
  then show ?thesis using bx(2) B by (auto simp: good_def)
qed

lemma mask_without:
  fixes n :: mask
  assumes "bit n v"
  shows "bits_of (n AND NOT (push_bit v 1)) = bits_of n - {v}"
    and "(n AND NOT (push_bit v 1)) OR push_bit v 1 = n"
    and "(n AND NOT (push_bit v 1)) AND push_bit v 1 = 0"
proof -
  have v: "v < 64" using assms by (rule mask_bit_less)
  note b = bit_one_at [OF v]
  show "bits_of (n AND NOT (push_bit v 1)) = bits_of n - {v}"
    using mask_bit_less [of n] by (auto simp: bit_and_iff bit_not_iff b simp del: push_bit_of_1)
  show "(n AND NOT (push_bit v 1)) OR push_bit v 1 = n"
    using assms mask_bit_less [of n] by (intro mask_eqI) (auto simp: bit_and_iff bit_or_iff bit_not_iff b simp del: push_bit_of_1)
  show "(n AND NOT (push_bit v 1)) AND push_bit v 1 = 0"
    by (intro mask_eqI) (auto simp: bit_and_iff bit_not_iff simp del: push_bit_of_1)
qed

lemma bits_of_inj: "bits_of a = bits_of b \<Longrightarrow> a = b"
  by (intro mask_eqI) (metis bits_of_iff)

lemma of_nat_unat_mask: "of_nat (unat n) = (n :: mask)"
  by simp

text \<open>The connectivity of the driver lets every connected subset be built one tensor at a time.\<close>

lemma conn_remove_one:
  fixes net :: "('i, 't) net_tensor list" and n :: mask
  assumes conn: "conn = outer_product_connectivity disable valid net tidxs prune"
    and net: "length net \<le> 64" and n: "unat n < 2 ^ length net" "2 \<le> popcount n" "conn ! unat n"
  shows "\<exists>v. bit n v \<and> conn ! unat (n AND NOT (push_bit v 1))"
proof -
  have "\<exists>v. bit n v \<and> (pruned disable valid net tidxs prune \<longrightarrow> linked (joined valid net tidxs) (bits_of n - {v}))"
  proof (cases "pruned disable valid net tidxs prune")
    case True
    then have "linked (joined valid net tidxs) (bits_of n)"
      using n(3) connectivity_nth [OF net n(1)] by (simp add: conn)
    from linked_remove_one [OF this joined_sym] n(2) show ?thesis by (auto simp: popcount_card)
  next
    case False
    have "bits_of n \<noteq> {}" using n(2) by (auto simp: popcount_card)
    then obtain v where "v \<in> bits_of n" by blast
    then show ?thesis using False by auto
  qed
  then obtain v where v: "bit n v"
    and lk: "pruned disable valid net tidxs prune \<longrightarrow> linked (joined valid net tidxs) (bits_of n - {v})" by blast
  let ?m = "n AND NOT (push_bit v 1)"
  have "?m \<le> n" by (simp add: word_and_le2 del: push_bit_of_1)
  then have m: "unat ?m < 2 ^ length net" using n(1) by (simp add: word_le_nat_alt del: push_bit_of_1)
  have "conn ! unat ?m" unfolding conn connectivity_nth [OF net m] of_nat_unat_mask mask_without(1) [OF v] by (rule lk)
  then show ?thesis using v by blast
qed

lemma conn_small:
  fixes net :: "('i, 't) net_tensor list" and n :: mask
  assumes "length net \<le> 64" "unat n < 2 ^ length net" "popcount n \<le> 1"
  shows "outer_product_connectivity disable valid net tidxs prune ! unat n"
  unfolding connectivity_nth [OF assms(1,2)] of_nat_unat_mask
  using assms(3) linked_small by (auto simp: popcount_card)

lemma connected_has_plan:
  fixes net :: "('i, 't) net_tensor list" and n :: mask
  assumes conn: "conn = outer_product_connectivity disable valid net tidxs prune"
    and net: "length net \<le> 64" and n: "unat n < 2 ^ length net" "n \<noteq> 0" "conn ! unat n"
  shows "\<exists>t. legal conn (length net) t \<and> plan_mask t = n"
  using n
proof (induction "popcount n" arbitrary: n rule: less_induct)
  case less
  have load: "legal conn (length net) (Load v)" if "bit n v" for v
  proof -
    have "bit (unat n) v" using that mask_bit_less [OF that] by (simp add: bit_unsigned_iff)
    then show ?thesis using bit_nat_less [OF _ less.prems(1)] by simp
  qed
  show ?case
  proof (cases "popcount n = 1")
    case True
    then obtain i where i: "i < 64" "n = push_bit i 1" unfolding popcount_one by blast
    then have "legal conn (length net) (Load i)" using load [of i] bit_one_at [of i i] by (simp del: push_bit_of_1)
    then show ?thesis using i(2) by (intro exI [of _ "Load i"]) (simp del: push_bit_of_1)
  next
    case False
    then have two: "2 \<le> popcount n" using less.prems(2) popcount_pos [of n] by linarith
    from conn_remove_one [OF conn net less.prems(1) two less.prems(3)]
    obtain v where v: "bit n v" "conn ! unat (n AND NOT (push_bit v 1))" by blast
    let ?m = "n AND NOT (push_bit v 1)"
    have pc: "popcount ?m + 1 = popcount n"
      unfolding popcount_card mask_without(1) [OF v(1)] using v(1) two
      by (simp add: popcount_card)
    then have "popcount ?m < popcount n" "?m \<noteq> 0"
      using two popcount_pos [of ?m] by (simp_all del: push_bit_of_1)
    moreover have "unat ?m < 2 ^ length net"
      using less.prems(1) word_and_le2 [of n "NOT (push_bit v 1)"] by (simp add: word_le_nat_alt del: push_bit_of_1)
    ultimately obtain t where t: "legal conn (length net) t" "plan_mask t = ?m"
      using less.hyps [of ?m] v(2) by blast
    then have "legal conn (length net) (Contract t (Load v)) \<and> plan_mask (Contract t (Load v)) = n"
      using load [OF v(1)] mask_without(2,3) [OF v(1)] less.prems(3) by (simp del: push_bit_of_1)
    then show ?thesis by blast
  qed
qed

section \<open>The counters do not depend on the order of the operands\<close>

lemma add_news: "set (foldl add_new acc xs) = set acc \<union> set xs"
    "distinct acc \<Longrightarrow> distinct (foldl add_new acc xs)"
  by (induction xs arbitrary: acc) (auto simp: add_new_def)

lemma fold_mult:
  "fold_res (\<lambda>mem ix. bind_res (ex ix) (\<lambda>e. Inr (mem * real e))) m0 xs = Inr v
   \<longleftrightarrow> (\<forall>x\<in>set xs. \<not> isl (ex x)) \<and> v = m0 * prod_list (map (\<lambda>x. real (projr (ex x))) xs)"
proof (induction xs arbitrary: m0)
  case (Cons x xs)
  then show ?case by (cases "ex x") auto
qed auto

lemma foldl_mult: "foldl (\<lambda>mem c. mem * f c) m xs = m * prod_list (map f xs)" for m :: real
  by (induction xs arbitrary: m) simp_all

text \<open>On duplicate-free splits the volume is a function of the two sets.\<close>

lemma volume_cong:
  assumes "distinct (outer_of t)" "distinct (inner_of t)" "distinct (outer_of t')" "distinct (inner_of t')"
    and "set (outer_of t) = set (outer_of t')" "set (inner_of t) = set (inner_of t')"
    and "inner_aware_volume protos ex pw t = Inr v"
  shows "inner_aware_volume protos ex pw t' = Inr v"
proof -
  have prod: "prod_list (map f xs) = prod_list (map f ys)" if "distinct xs" "distinct ys" "set xs = set ys"
    for f :: "'a \<Rightarrow> real" and xs ys
    using that by (metis prod.distinct_set_conv_list)
  have cnt: "length (filter P (inner_of t)) = length (filter P (inner_of t'))" for P
    using assms(2,4,6) by (metis distinct_card distinct_filter set_filter)
  obtain mem where mem: "fold_res (\<lambda>mem ix. bind_res (ex ix) (\<lambda>e. Inr (mem * real e))) 1 (outer_of t) = Inr mem"
    using assms(7) by (auto simp: inner_aware_volume_def bind_res_Inr)
  then have "fold_res (\<lambda>mem ix. bind_res (ex ix) (\<lambda>e. Inr (mem * real e))) 1 (outer_of t') = Inr mem"
    unfolding fold_mult assms(5) [symmetric] using prod [OF assms(3,1) assms(5) [symmetric]] by simp
  then show ?thesis
    using assms(7) mem prod [OF assms(4,2) assms(6) [symmetric]] assms(6)
    unfolding inner_aware_volume_def by (auto simp: foldl_mult cnt split: option.splits if_splits)
qed

lemma tot_indices_sets:
  "set (outer_of (tot_indices uniq protos xs)) = \<Union> (set ` protos ` set xs) \<union> {i \<in> set xs. protos i = []}"
  "set (inner_of (tot_indices uniq protos xs)) = {i \<in> set xs. protos i \<noteq> []}"
  "distinct (outer_of (tot_indices uniq protos xs))"
  "distinct (inner_of (tot_indices True protos xs))"
  by (auto simp: tot_indices_def add_news Let_def)

lemma flops_symmetric:
  "flops_counter protos ex pw l r n = Inr v \<Longrightarrow> flops_counter protos ex pw r l n = Inr v"
proof -
  assume "flops_counter protos ex pw l r n = Inr v"
  then obtain total where t: "inner_aware_volume protos (checked_extent protos ex) pw
      (tot_indices True protos (sorted_list_of_set l @ sorted_list_of_set r @ sorted_list_of_set n)) = Inr total"
    and v: "v = (if total = 1 then 0 else total)"
    unfolding flops_counter_def bind_res_Inr by auto
  from t have "inner_aware_volume protos (checked_extent protos ex) pw
      (tot_indices True protos (sorted_list_of_set r @ sorted_list_of_set l @ sorted_list_of_set n)) = Inr total"
    by (rule volume_cong [rotated 6]) (auto simp: tot_indices_sets simp del: set_sorted_list_of_set)
  then show ?thesis using v unfolding flops_counter_def by simp
qed

lemma memsize_symmetric:
  "memsize_counter protos ex pw l r n = Inr v \<Longrightarrow> memsize_counter protos ex pw r l n = Inr v"
proof -
  let ?V = "\<lambda>s. inner_aware_volume protos (checked_extent protos ex) pw (tot_indices False protos (sorted_list_of_set s))"
  assume "memsize_counter protos ex pw l r n = Inr v"
  then show ?thesis
    unfolding memsize_counter_def by (cases "?V l"; cases "?V r"; cases "?V n") (simp_all add: add.commute add.left_commute split: if_splits)
qed

section \<open>The additive model\<close>

definition cost_value :: "('e, real) result \<Rightarrow> real" where
  "cost_value r = (case r of Inl _ \<Rightarrow> 0 | Inr c \<Rightarrow> c)"

lemma cost_value_Inr [simp]: "cost_value (Inr c) = c"
  by (simp add: cost_value_def)

definition additive_join :: "('i, 'm) additive_params \<Rightarrow> 'i additive_ctx \<Rightarrow> mask \<Rightarrow> mask \<Rightarrow> real \<Rightarrow> real \<Rightarrow> real" where
  "additive_join a ctx lp rp x y = cost_value (split_cost a ctx (lp OR rp) lp rp) + x + y"

abbreviation additive_cost :: "('i, 'm) additive_params \<Rightarrow> 'i additive_ctx \<Rightarrow> plan \<Rightarrow> real" where
  "additive_cost a ctx \<equiv> plan_value (\<lambda>_. 0) (additive_join a ctx)"

definition symmetric_cost :: "('i, 'm) additive_params \<Rightarrow> bool" where
  "symmetric_cost a \<longleftrightarrow> (\<forall>l r n v. cost_fn a l r n = Inr v \<longrightarrow> cost_fn a r l n = Inr v)"

lemma split_cost_symmetric:
  "symmetric_cost a \<Longrightarrow> split_cost a ctx n lp rp = Inr c \<Longrightarrow> split_cost a ctx n rp lp = Inr c"
  unfolding split_cost_def Let_def bind_res_Inr symmetric_cost_def by blast

lemma additive_substructure:
  assumes "symmetric_cost a" "\<not> subnet_cse a"
  shows "optimal_substructure (additive_model env protos a :: ('i, 't, 'i additive_ctx, additive_state) cost_model)
           (\<lambda>s v. ops s \<le> v) (\<lambda>_ _. 0) (additive_join a)"
proof
  fix c :: "'i additive_ctx" and lp rp l r acc acc' x y
  assume rx: "relax (additive_model env protos a :: ('i, 't, 'i additive_ctx, additive_state) cost_model) c (lp OR rp) lp rp l r acc = Inr acc'"
    and xy: "ops l \<le> x" "ops r \<le> y"
  from rx assms(2) obtain k where k: "split_cost a c (lp OR rp) lp rp = Inr k"
    and "acc' = (if k + ops l + ops r \<le> ops acc
                 then \<lparr>ops = k + ops l + ops r, lp_of = lp, rp_of = rp, subnets = subnets acc\<rparr> else acc)"
    unfolding additive_model_def additive_relax_def Let_def by (auto simp: bind_res_Inr)
  then have acc': "ops acc' \<le> k + ops l + ops r" by simp
  have "split_cost a c (rp OR lp) rp lp = Inr k"
    using split_cost_symmetric [OF assms(1) k] by (simp add: or.commute)
  then show "ops acc' \<le> additive_join a c lp rp x y \<and> ops acc' \<le> additive_join a c rp lp y x"
    using k acc' xy by (simp add: additive_join_def)
qed (use assms(2) in \<open>auto simp: additive_model_def additive_finalize_def additive_leaf_def additive_relax_def
       bind_res_Inr Let_def split: if_splits\<close>)

lemma fold_res_total:
  assumes "P s" "\<And>x s. x \<in> set xs \<Longrightarrow> P s \<Longrightarrow> \<exists>s'. f s x = Inr s' \<and> P s'"
  shows "\<exists>s'. fold_res f s xs = Inr s' \<and> P s'"
  using assms
proof (induction xs arbitrary: s)
  case (Cons x xs)
  have "\<exists>s'. f s x = Inr s' \<and> P s'" by (rule Cons.prems(2)) (simp_all add: Cons.prems(1))
  then obtain s' where s': "f s x = Inr s'" "P s'" by blast
  then show ?case using Cons.IH [OF s'(2)] Cons.prems(2) by simp
qed simp

lemma fold_res_invariant:
  assumes "fold_res f s xs = Inr s'" "P s" "\<And>x s s'. x \<in> set xs \<Longrightarrow> P s \<Longrightarrow> f s x = Inr s' \<Longrightarrow> P s'"
  shows "P s'"
  using assms
proof (induction xs arbitrary: s)
  case (Cons x xs)
  then show ?case by (auto simp: bind_res_Inr)
qed simp

text \<open>The driver returns when the hooks do.\<close>

lemma solve_total:
  fixes m :: "('i, 't, 'c, 's) cost_model"
  assumes fin: "\<And>c n st. finalize m c n st = Inr (c, st)"
    and rx: "\<And>lp rp l r acc. lp AND rp = 0 \<Longrightarrow> \<exists>acc'. relax m ctx (lp OR rp) lp rp l r acc = Inr acc'"
  shows "\<exists>st. solve_single_term env m net tidxs ctx = Inr (ctx, st)"
proof -
  let ?conn = "outer_product_connectivity (disable_pruning env) (nonnull env) net tidxs (prune_outer_products m)"
  have row: "\<exists>acc. fold_res (relax_split m ?conn ctx n st) s (bipartitions n) = Inr acc" for n st s
  proof -
    have "\<exists>acc. fold_res (relax_split m ?conn ctx n st) s (bipartitions n) = Inr acc \<and> True"
    proof (rule fold_res_total)
      fix p and s assume "p \<in> set (bipartitions n)"
      then have "n = fst p OR snd p" "fst p AND snd p = 0" using split_facts [of "fst p" "snd p" n] by simp_all
      then obtain lp rp where lr: "p = (lp, rp)" "n = lp OR rp" "lp AND rp = 0" by (cases p) simp
      show "\<exists>s'. relax_split m ?conn ctx n st s p = Inr s' \<and> True"
        using rx [OF lr(3)] unfolding lr relax_split_def by auto
    qed simp
    then show ?thesis by simp
  qed
  have "\<exists>cs. fold_res (solve_step m ?conn) (ctx, replicate (2 ^ length net) (default_state m)) [1..<2 ^ length net] = Inr cs
      \<and> fst cs = ctx"
  proof (rule fold_res_total)
    fix i and cs :: "'c \<times> 's list" assume cs: "fst cs = ctx"
    obtain acc where "fold_res (relax_split m ?conn ctx (of_nat i) (snd cs)) (init_state m ctx (of_nat i)) (bipartitions (of_nat i)) = Inr acc"
      using row by blast
    then show "\<exists>cs'. solve_step m ?conn cs i = Inr cs' \<and> fst cs' = ctx"
      using cs fin by (cases cs) (auto simp: solve_step_def Let_def)
  qed simp
  then show ?thesis by (auto simp: solve_single_term_def Let_def)
qed

section \<open>The sequences of the additive model\<close>

primrec first_leaf :: "plan \<Rightarrow> nat" where
  "first_leaf (Load i) = i"
| "first_leaf (Contract a b) = first_leaf a"

primrec leaf_ordered :: "plan \<Rightarrow> bool" where
  "leaf_ordered (Load i) \<longleftrightarrow> True"
| "leaf_ordered (Contract a b) \<longleftrightarrow> leaf_ordered a \<and> leaf_ordered b \<and> first_leaf a < first_leaf b"

lemma postfix_first: "postfix t \<noteq> [] \<and> postfix t ! 0 = int (first_leaf t)"
  by (induction t) (auto simp: nth_append)

lemma first_leaf_bit: "legal conn nt t \<Longrightarrow> nt \<le> 64 \<Longrightarrow> bit (plan_mask t) (first_leaf t)"
  by (induction t) (auto simp: bit_or_iff bit_one_at simp del: push_bit_of_1)

definition sequences :: "additive_state list \<Rightarrow> nat \<Rightarrow> int list list" where
  "sequences st k = foldl (sequence_step st) (replicate (length st) []) [0..<k]"

lemma sequences_Suc: "sequences st (Suc k) = sequence_step st (sequences st k) k"
  by (simp add: sequences_def)

lemma sequence_step_facts:
  "length (sequence_step st sq k) = length sq" "i \<noteq> k \<Longrightarrow> sequence_step st sq k ! i = sq ! i"
  by (simp_all add: sequence_step_def Let_def)

lemma sequences_length [simp]: "length (sequences st k) = length st"
  by (induction k) (simp_all add: sequences_Suc sequence_step_facts, simp add: sequences_def)

lemma sequences_stable: "i < k \<Longrightarrow> k \<le> l \<Longrightarrow> sequences st l ! i = sequences st k ! i"
proof (induction l)
  case (Suc l)
  then show ?case by (cases "k = Suc l") (auto simp: sequences_Suc sequence_step_facts)
qed simp

lemma sequences_fresh: "k \<le> i \<Longrightarrow> i < length st \<Longrightarrow> sequences st k ! i = []"
proof (induction k)
  case 0
  then show ?case by (simp add: sequences_def)
next
  case (Suc k)
  then show ?case by (simp add: sequences_Suc sequence_step_facts)
qed

lemma sequences_row:
  assumes i: "i < length st" "i < 2 ^ 64"
  defines "n \<equiv> of_nat i :: mask" and "sq \<equiv> sequences st (length st)"
  shows "popcount n = 1 \<Longrightarrow> sq ! i = [int (ctz n)]"
    and "2 \<le> popcount n \<Longrightarrow> \<not> (lp_of (st ! i) = 0 \<and> rp_of (st ! i) = 0) \<Longrightarrow> unat (lp_of (st ! i)) < i \<Longrightarrow> unat (rp_of (st ! i)) < i
      \<Longrightarrow> sq ! i = (let lseq = sq ! unat (lp_of (st ! i)); rseq = sq ! unat (rp_of (st ! i))
                    in (if lseq ! 0 < rseq ! 0 then lseq @ rseq else rseq @ lseq) @ [-1])"
proof -
  have at: "sq ! i = sequence_step st (sequences st i) i ! i"
    using sequences_stable [of i "Suc i" "length st" st] i(1) by (simp add: sq_def sequences_Suc)
  have low: "j < i \<Longrightarrow> sequences st i ! j = sq ! j" for j
    using sequences_stable [of j i "length st" st] i(1) by (simp add: sq_def)
  show "popcount n = 1 \<Longrightarrow> sq ! i = [int (ctz n)]"
    unfolding at using i(1) sequences_fresh [of i i st] by (simp add: sequence_step_def n_def Let_def)
  show "2 \<le> popcount n \<Longrightarrow> \<not> (lp_of (st ! i) = 0 \<and> rp_of (st ! i) = 0) \<Longrightarrow> unat (lp_of (st ! i)) < i \<Longrightarrow> unat (rp_of (st ! i)) < i
      \<Longrightarrow> sq ! i = (let lseq = sq ! unat (lp_of (st ! i)); rseq = sq ! unat (rp_of (st ! i))
                    in (if lseq ! 0 < rseq ! 0 then lseq @ rseq else rseq @ lseq) @ [-1])"
    unfolding at using i(1) low by (simp add: sequence_step_def n_def Let_def)
qed

text \<open>The back-pointers of a relaxed state are a split it was relaxed over.\<close>

definition points_to_split ::
    "('i, 'm) additive_params \<Rightarrow> bool list \<Rightarrow> 'i additive_ctx \<Rightarrow> additive_state list \<Rightarrow> mask \<Rightarrow> additive_state \<Rightarrow> bool" where
  "points_to_split a conn ctx st n s \<longleftrightarrow>
     (let lp = lp_of s; rp = rp_of s
      in lp OR rp = n \<and> lp AND rp = 0 \<and> lp \<noteq> 0 \<and> rp \<noteq> 0 \<and> conn ! unat lp \<and> conn ! unat rp
         \<and> ops s = additive_join a ctx lp rp (ops (st ! unat lp)) (ops (st ! unat rp)))"

lemma additive_row:
  assumes "fold_res (relax_split (additive_model env protos a) conn ctx n st) (additive_init ctx n) (bipartitions n) = Inr s"
    and "\<not> subnet_cse a" "ops s < dbl_max"
  shows "points_to_split a conn ctx st n s"
proof -
  let ?m = "additive_model env protos a"
  have "ops s = dbl_max \<or> points_to_split a conn ctx st n s"
  proof (rule fold_res_invariant [OF assms(1), where P = "\<lambda>s. ops s = dbl_max \<or> points_to_split a conn ctx st n s"])
    show "ops (additive_init ctx n) = dbl_max \<or> points_to_split a conn ctx st n (additive_init ctx n)"
      by (simp add: additive_init_def)
    fix p s s' assume p: "p \<in> set (bipartitions n)" and IH: "ops s = dbl_max \<or> points_to_split a conn ctx st n s"
      and step: "relax_split ?m conn ctx n st s p = Inr s'"
    obtain lp rp where lr: "p = (lp, rp)" by (cases p)
    have sp: "lp OR rp = n" "lp AND rp = 0" using split_facts p lr by auto
    show "ops s' = dbl_max \<or> points_to_split a conn ctx st n s'"
    proof (cases "lp \<noteq> 0 \<and> rp \<noteq> 0 \<and> conn ! unat lp \<and> conn ! unat rp")
      case True
      then have "additive_relax a ctx n lp rp (st ! unat lp) (st ! unat rp) s = Inr s'"
        using step lr by (simp add: relax_split_def additive_model_def)
      then obtain k where k: "split_cost a ctx n lp rp = Inr k"
        and "s' = (let c = k + ops (st ! unat lp) + ops (st ! unat rp)
                   in if c \<le> ops s then \<lparr>ops = c, lp_of = lp, rp_of = rp, subnets = subnets s\<rparr> else s)"
        using assms(2) unfolding additive_relax_def Let_def by (auto simp: bind_res_Inr)
      then show ?thesis using IH sp True
        by (auto simp: Let_def points_to_split_def additive_join_def split: if_splits)
    next
      case False
      then show ?thesis using step lr IH by (simp add: relax_split_def split: if_splits)
    qed
  qed
  then show ?thesis using assms(3) by simp
qed

lemma additive_join_sym:
  assumes "symmetric_cost a"
  shows "additive_join a ctx rp lp y x = additive_join a ctx lp rp x y"
proof -
  have "cost_value (split_cost a ctx (rp OR lp) rp lp) = cost_value (split_cost a ctx (lp OR rp) lp rp)"
    using split_cost_symmetric [OF assms, of ctx "lp OR rp" lp rp] split_cost_symmetric [OF assms, of ctx "lp OR rp" rp lp]
    by (cases "split_cost a ctx (lp OR rp) lp rp"; cases "split_cost a ctx (lp OR rp) rp lp") (auto simp: or.commute cost_value_def)
  then show ?thesis by (simp add: additive_join_def)
qed

lemma conn_single:
  fixes net :: "('i, 't) net_tensor list"
  assumes "length net \<le> 64" "i < length net"
  shows "outer_product_connectivity disable valid net tidxs prune ! unat (push_bit i 1 :: mask)"
proof (rule conn_small [OF assms(1)])
  show "unat (push_bit i 1 :: mask) < 2 ^ length net"
    using legal_mask(2) [of "[]" "length net" "Load i"] assms by (simp del: push_bit_of_1)
  have "popcount (push_bit i 1 :: mask) = 1" unfolding popcount_one using assms by (intro exI [of _ i]) simp
  then show "popcount (push_bit i 1 :: mask) \<le> 1" by simp
qed

lemma additive_attained:
  fixes net :: "('i, 't) net_tensor list" and a :: "('i, 'm) additive_params" and st :: "additive_state list"
    and M :: "('i, 't, 'i additive_ctx, additive_state) cost_model"
  assumes M: "M = additive_model env protos a"
    and conn: "conn = outer_product_connectivity disable valid net tidxs prune"
    and a: "symmetric_cost a" "\<not> subnet_cse a" and nt: "length net \<le> 64"
    and ok: "table_ok M conn ctx st (2 ^ length net)" and len: "length st = 2 ^ length net"
    and bound: "\<forall>t. legal conn (length net) t \<longrightarrow> additive_cost a ctx t < dbl_max"
    and n: "n \<noteq> 0" "unat n < 2 ^ length net" "conn ! unat n"
  shows "\<exists>t. legal conn (length net) t \<and> plan_mask t = n \<and> leaf_ordered t
             \<and> additive_cost a ctx t = ops (st ! unat n) \<and> sequences st (length st) ! unat n = postfix t"
  using n
proof (induction "unat n" arbitrary: n rule: less_induct)
  case less
  let ?nt = "length net" and ?sq = "sequences st (length st)"
  have covers: "legal conn ?nt t \<Longrightarrow> ops (st ! unat (plan_mask t)) \<le> additive_cost a ctx t" for t
    using optimal_substructure.table_covers [OF additive_substructure [OF a], of env protos conn ctx st ?nt t]
      ok nt conn_single [OF nt] unfolding M conn by simp
  have n64: "unat n < length st" "unat n < 2 ^ 64" using less.prems(2) len unsigned_less [of n] by simp_all
  show ?case
  proof (cases "popcount n = 1")
    case True
    then obtain i where i: "i < 64" "n = push_bit i 1" unfolding popcount_one by blast
    have "bit (unat n) i" using i bit_one_at [OF i(1), of i] by (simp add: bit_unsigned_iff del: push_bit_of_1)
    then have "i < ?nt" using bit_nat_less less.prems(2) by blast
    moreover have "?sq ! unat n = [int i]"
      using sequences_row(1) [OF n64] True ctz_one [OF i(1)] i(2) by (simp del: push_bit_of_1)
    moreover have "ops (st ! unat n) = 0"
      using table_row(1) [OF ok less.prems(1,2) True] by (simp add: M additive_model_def additive_leaf_def)
    ultimately show ?thesis using i(2) by (intro exI [of _ "Load i"]) (simp del: push_bit_of_1)
  next
    case False
    then have two: "2 \<le> popcount n" using less.prems(1) popcount_pos [of n] by linarith
    obtain t0 where t0: "legal conn ?nt t0" "plan_mask t0 = n"
      using connected_has_plan [OF conn nt less.prems(2,1,3)] by blast
    have "ops (st ! unat n) \<le> additive_cost a ctx t0"
      using covers [OF t0(1)] t0(2) by simp
    then have lt: "ops (st ! unat n) < dbl_max" using bound t0(1) by (meson le_less_trans)
    have "fold_res (relax_split M conn ctx n st) (init_state M ctx n) (bipartitions n) = Inr (st ! unat n)"
      using table_row(2) [OF ok less.prems(1,2) False less.prems(3)] .
    then have "points_to_split a conn ctx st n (st ! unat n)"
      using additive_row [OF _ a(2) lt] by (simp add: M additive_model_def)
    then obtain lp rp where lr: "lp = lp_of (st ! unat n)" "rp = rp_of (st ! unat n)"
      and sp: "lp OR rp = n" "lp AND rp = 0" "lp \<noteq> 0" "rp \<noteq> 0" "conn ! unat lp" "conn ! unat rp"
      and cost: "ops (st ! unat n) = additive_join a ctx lp rp (ops (st ! unat lp)) (ops (st ! unat rp))"
      by (auto simp: points_to_split_def Let_def)
    have small: "unat lp < unat n" "unat rp < unat n" using split_less [OF sp(2,3,4)] sp(1) by auto
    obtain tl where tl: "legal conn ?nt tl" "plan_mask tl = lp" "leaf_ordered tl"
      "additive_cost a ctx tl = ops (st ! unat lp)" "?sq ! unat lp = postfix tl"
      using less.hyps [OF small(1) sp(3)] small less.prems(2) sp(5) by auto
    obtain tr where tr: "legal conn ?nt tr" "plan_mask tr = rp" "leaf_ordered tr"
      "additive_cost a ctx tr = ops (st ! unat rp)" "?sq ! unat rp = postfix tr"
      using less.hyps [OF small(2) sp(4)] small less.prems(2) sp(6) by auto
    have row: "?sq ! unat n = (if first_leaf tl < first_leaf tr then postfix tl @ postfix tr else postfix tr @ postfix tl) @ [-1]"
      using sequences_row(2) [OF n64] two small sp(3) tl(5) tr(5) postfix_first [of tl] postfix_first [of tr]
      by (simp add: lr [symmetric] Let_def)
    have ne: "first_leaf tl \<noteq> first_leaf tr"
      using first_leaf_bit [OF tl(1) nt] first_leaf_bit [OF tr(1) nt] sp(2) tl(2) tr(2)
      by (metis bit_and_iff bit_0_eq bot_apply bot_bool_def)
    have both: "additive_cost a ctx (Contract tl tr) = ops (st ! unat n)" "additive_cost a ctx (Contract tr tl) = ops (st ! unat n)"
      using cost tl(2,4) tr(2,4) additive_join_sym [OF a(1)] by simp_all
    show ?thesis
    proof (cases "first_leaf tl < first_leaf tr")
      case True
      then show ?thesis
        using row both(1) tl tr sp less.prems(3) by (intro exI [of _ "Contract tl tr"]) simp
    next
      case False
      then show ?thesis
        using row both(2) ne tl tr sp less.prems(3) by (intro exI [of _ "Contract tr tl"]) (simp add: or.commute and.commute)
    qed
  qed
qed

section \<open>When the counters return\<close>

text \<open>
  Protoindices have no protoindices themselves, and the composite extents are given where there are
  composites.
\<close>

definition sized :: "('i \<Rightarrow> 'i list) \<Rightarrow> ('i \<Rightarrow> nat \<Rightarrow> real) option \<Rightarrow> bool" where
  "sized protos pw \<longleftrightarrow> (\<forall>ix. \<forall>q\<in>set (protos ix). protos q = [])
     \<and> (case pw of None \<Rightarrow> \<forall>ix. protos ix = [] | Some f \<Rightarrow> \<forall>ix k. 0 \<le> f ix k)"

lemma volume_total:
  assumes "sized protos pw"
  shows "\<exists>v. inner_aware_volume protos (checked_extent protos (\<lambda>ix. Inr (ext ix))) pw (tot_indices u protos xs) = Inr v \<and> 0 \<le> v"
proof -
  let ?ex = "checked_extent protos (\<lambda>ix. Inr (ext ix))" and ?t = "tot_indices u protos xs"
  have plain: "protos x = []" if "x \<in> set (outer_of ?t)" for x
    using that assms unfolding tot_indices_sets sized_def by auto
  have ok: "\<forall>x\<in>set (outer_of ?t). \<not> isl (?ex x)"
    using plain by (auto simp: checked_extent_def outer_extent_def)
  define mem where "mem = prod_list (map (\<lambda>x. real (projr (?ex x))) (outer_of ?t))"
  have run: "fold_res (\<lambda>mem ix. bind_res (?ex ix) (\<lambda>e. Inr (mem * real e))) 1 (outer_of ?t) = Inr mem"
    unfolding fold_mult using ok by (simp add: mem_def)
  have nonneg: "0 \<le> prod_list (map f xs)" if "\<And>x. 0 \<le> f x" for f :: "'a \<Rightarrow> real" and xs
    using that by (induction xs) simp_all
  have mem: "0 \<le> mem" unfolding mem_def by (rule nonneg) simp
  show ?thesis
  proof (cases pw)
    case None
    then have "inner_of ?t = []" using assms by (simp add: sized_def tot_indices_def)
    then show ?thesis using None run mem by (simp add: inner_aware_volume_def)
  next
    case (Some f)
    then have "0 \<le> f c k" for c k using assms by (simp add: sized_def)
    then show ?thesis using Some run mem by (simp add: inner_aware_volume_def foldl_mult nonneg)
  qed
qed

lemma flops_total:
  assumes "sized protos pw"
  shows "\<exists>v. flops_counter protos (\<lambda>ix. Inr (ext ix)) pw l r n = Inr v"
  using volume_total [OF assms, of ext True] unfolding flops_counter_def by (metis bind_res_simps(2))

lemma footprint_total:
  assumes "sized protos pw"
  shows "\<exists>v. footprint_counter protos (\<lambda>ix. Inr (ext ix)) pw n = Inr v \<and> 0 \<le> v"
proof -
  obtain v where "inner_aware_volume protos (checked_extent protos (\<lambda>ix. Inr (ext ix))) pw
      (tot_indices False protos (sorted_list_of_set n)) = Inr v" "0 \<le> v"
    using volume_total [OF assms, of ext False "sorted_list_of_set n"] by blast
  then show ?thesis by (auto simp: footprint_counter_def)
qed

lemma memsize_total:
  assumes "sized protos pw"
  shows "\<exists>v. memsize_counter protos (\<lambda>ix. Inr (ext ix)) pw l r n = Inr v"
proof -
  let ?V = "\<lambda>s. inner_aware_volume protos (checked_extent protos (\<lambda>ix. Inr (ext ix))) pw (tot_indices False protos (sorted_list_of_set s))"
  obtain a b c where "?V l = Inr a" "?V r = Inr b" "?V n = Inr c"
    using volume_total [OF assms, of ext False] by metis
  then show ?thesis unfolding memsize_counter_def by simp
qed

lemma init_results_total:
  assumes "length net \<le> 24"
  shows "\<exists>rs. init_results protos net tidxs (replicate (2 ^ length net) no_res) c = Inr rs \<and> length rs = 2 ^ length net"
proof -
  obtain imed where "subset_target_indices protos (map net_slots net) tidxs c = Inr imed" "length imed = 2 ^ length net"
    using subset_targets_open_atoms [of "map net_slots net" protos tidxs c] assms by auto
  then show ?thesis by (simp add: init_results_def)
qed

lemma map_res_total:
  assumes "\<And>x. x \<in> set xs \<Longrightarrow> \<exists>y. f x = Inr y \<and> P y"
  shows "\<exists>ys. map_res f xs = Inr ys \<and> length ys = length xs \<and> (\<forall>y\<in>set ys. P y)"
  using assms
proof (induction xs)
  case (Cons x xs)
  obtain y where "f x = Inr y" "P y" using Cons.prems [of x] by auto
  moreover obtain ys where "map_res f xs = Inr ys" "length ys = length xs" "\<forall>y\<in>set ys. P y"
    using Cons by auto
  ultimately show ?case by simp
qed simp

lemma volatile_mask_total:
  assumes "\<forall>t\<in>set net. net_kind t \<noteq> PowerOf None"
  shows "\<exists>msk. leaf_volatile_mask net vol = Inr msk"
proof (cases vol)
  case (Some v)
  have "\<exists>msk. fold_res (\<lambda>msk i. volatile_bit v msk i (net_kind (net ! i))) 0 [0..<length net] = Inr msk \<and> True"
  proof (rule fold_res_total)
    fix i and s :: mask assume "i \<in> set [0..<length net]"
    then have "net_kind (net ! i) \<noteq> PowerOf None" using assms by simp
    then show "\<exists>s'. volatile_bit v s i (net_kind (net ! i)) = Inr s' \<and> True"
      by (auto simp: volatile_bit_def split: abstract_tensor.splits option.splits)
  qed simp
  then show ?thesis by (simp add: leaf_volatile_mask_def Some)
qed (simp add: leaf_volatile_mask_def)

end
