(* ===== verification/PeakModel.thy ===== *)
theory PeakModel
  imports CostModel
begin

text \<open>
  SeQuant/core/optimize/cost_model.hpp: the peak-memory model, whose states are Pareto frontiers of peak
  memory and flops.  The batched peak model is not modelled.
\<close>

section \<open>The peak-memory model\<close>

record front_point =
  peak :: real
  flops :: real
  fp_lp :: mask
  fp_rp :: mask
  lp_first :: bool
  lp_idx :: int
  rp_idx :: int

type_synonym frontier = "front_point list"

definition pareto_insert :: "frontier \<Rightarrow> front_point \<Rightarrow> frontier" where
  "pareto_insert f p =
     (if \<exists>e \<in> set f. peak e \<le> peak p \<and> flops e \<le> flops p then f
      else filter (\<lambda>e. \<not> (peak p \<le> peak e \<and> flops p \<le> flops e)) f @ [p])"

definition pareto_best :: "frontier \<Rightarrow> nat" where
  "pareto_best f =
     foldl (\<lambda>best i. if peak (f ! i) < peak (f ! best) \<or> (peak (f ! i) = peak (f ! best) \<and> flops (f ! i) < flops (f ! best))
                     then i else best) 0 [1..<length f]"

definition roofline_op_cost :: "real \<Rightarrow> real \<Rightarrow> real \<Rightarrow> real \<Rightarrow> real \<Rightarrow> real \<Rightarrow> real" where
  "roofline_op_cost fl traffic machine_balance fast_mem_elems block_tiles block_prefactor =
     (if machine_balance \<le> 0 then fl
      else let Q = (if fast_mem_elems > 0 \<and> block_tiles > 0
                    then max traffic (block_prefactor * fl / sqrt (fast_mem_elems / block_tiles)) else traffic)
           in max fl (machine_balance * Q))"

record ('i, 't) peak_params =
  idxsz :: "'i \<Rightarrow> nat"
  inner_pow :: "('i \<Rightarrow> nat \<Rightarrow> real) option"
  is_volatile_leaf :: "('t \<Rightarrow> bool) option"
  peak_volatile_weight :: real
  machine_balance :: real
  fast_mem_elems :: real
  block_tiles :: real
  block_prefactor :: real
  peak_flops_tolerance :: real
  perf_first :: bool
  peak_prune :: bool

record 'i peak_ctx =
  ctx_S :: "real list"
  ctx_L :: "real list"
  ctx_idx :: "'i set list"
  ctx_volatile :: mask

definition leaf_sum :: "nat \<Rightarrow> real list \<Rightarrow> nat \<Rightarrow> real" where
  "leaf_sum nt S n = foldl (\<lambda>s b. if bit n b then s + S ! (push_bit b 1) else s) 0 [0..<nt]"

definition peak_context ::
    "'i::linorder opt_env \<Rightarrow> ('i \<Rightarrow> 'i list) \<Rightarrow> ('i, 't) peak_params \<Rightarrow> ('i, 't) net_tensor list \<Rightarrow> 'i list
       \<Rightarrow> (opt_error, 'i peak_ctx) result" where
  "peak_context env protos p net tidxs =
     (let nt = length net; sz = 2 ^ nt;
          conn = outer_product_connectivity (disable_pruning env) (nonnull env) net tidxs (peak_prune p)
      in bind_res (init_results protos net tidxs (replicate sz no_res) (Some conn)) (\<lambda>rs.
         bind_res (map_res (\<lambda>n. if n = 0 \<or> \<not> conn ! n then Inr 0
                                else footprint_counter protos (\<lambda>ix. Inr (idxsz p ix)) (inner_pow p) (res_indices (rs ! n)))
                     [0..<sz]) (\<lambda>S.
         bind_res (leaf_volatile_mask net (is_volatile_leaf p)) (\<lambda>vm.
           Inr \<lparr>ctx_S = S, ctx_L = map (leaf_sum nt S) [0..<sz], ctx_idx = map res_indices rs, ctx_volatile = vm\<rparr>))))"

definition peak_leaf :: "'i peak_ctx \<Rightarrow> mask \<Rightarrow> frontier" where
  "peak_leaf ctx n =
     [\<lparr>peak = ctx_S ctx ! unat n, flops = 0, fp_lp = 0, fp_rp = 0, lp_first = True, lp_idx = -1, rp_idx = -1\<rparr>]"

text \<open>The flops of a contraction as the tie-break counts them.\<close>

definition contraction_cost ::
    "('i::linorder \<Rightarrow> 'i list) \<Rightarrow> ('i, 't) peak_params \<Rightarrow> 'i peak_ctx \<Rightarrow> mask \<Rightarrow> mask \<Rightarrow> mask \<Rightarrow> (opt_error, real) result" where
  "contraction_cost protos p ctx n lp rp =
     (let w = (if ctx_volatile ctx AND n \<noteq> 0 then peak_volatile_weight p else 1);
          S = (\<lambda>m :: mask. ctx_S ctx ! unat m); idx = (\<lambda>m :: mask. ctx_idx ctx ! unat m)
      in bind_res (flops_counter protos (\<lambda>ix. Inr (idxsz p ix)) (inner_pow p) (idx lp) (idx rp) (idx n)) (\<lambda>fl.
           Inr (w * roofline_op_cost fl (S lp + S rp + S n) (machine_balance p) (fast_mem_elems p)
                  (block_tiles p) (block_prefactor p))))"

definition join_point ::
    "'i peak_ctx \<Rightarrow> mask \<Rightarrow> mask \<Rightarrow> real \<Rightarrow> frontier \<Rightarrow> frontier \<Rightarrow> nat \<Rightarrow> nat \<Rightarrow> front_point" where
  "join_point ctx lp rp cflops l r li ri =
     (let S = (\<lambda>m :: mask. ctx_S ctx ! unat m); L = (\<lambda>m :: mask. ctx_L ctx ! unat m);
          both = S lp + S rp + S (lp OR rp);
          pL = peak (l ! li); pR = peak (r ! ri);
          lp_first_cand = max (L rp + pL) (max (S lp + pR) both);
          rp_first_cand = max (L lp + pR) (max (S rp + pL) both)
      in \<lparr>peak = min lp_first_cand rp_first_cand, flops = flops (l ! li) + flops (r ! ri) + cflops,
          fp_lp = lp, fp_rp = rp, lp_first = (lp_first_cand \<le> rp_first_cand), lp_idx = int li, rp_idx = int ri\<rparr>)"

definition peak_relax ::
    "('i::linorder \<Rightarrow> 'i list) \<Rightarrow> ('i, 't) peak_params \<Rightarrow> 'i peak_ctx \<Rightarrow> mask \<Rightarrow> mask \<Rightarrow> mask \<Rightarrow> frontier \<Rightarrow> frontier
       \<Rightarrow> frontier \<Rightarrow> (opt_error, frontier) result" where
  "peak_relax protos p ctx n lp rp l r acc =
     bind_res (contraction_cost protos p ctx n lp rp) (\<lambda>cflops.
       Inr (foldl (\<lambda>acc li. foldl (\<lambda>acc ri. pareto_insert acc (join_point ctx lp rp cflops l r li ri)) acc [0..<length r])
              acc [0..<length l]))"

partial_function (option) build_sequence :: "frontier list \<Rightarrow> mask \<Rightarrow> int \<Rightarrow> int list option" where
  "build_sequence st n idx =
     (if popcount n = 1 then Some [int (ctz n)]
      else let fp = st ! unat n ! nat idx;
               fs = (if lp_first fp then fp_lp fp else fp_rp fp);
               fi = (if lp_first fp then lp_idx fp else rp_idx fp);
               ss = (if lp_first fp then fp_rp fp else fp_lp fp);
               si = (if lp_first fp then rp_idx fp else lp_idx fp)
           in Option.bind (build_sequence st fs fi) (\<lambda>s.
              Option.bind (build_sequence st ss si) (\<lambda>b. Some (s @ b @ [-1]))))"

declare build_sequence.simps [code]

text \<open>The choice at the root: fewest flops first, or fewest flops within the tolerance of the least peak.\<close>

definition least_flops :: "frontier \<Rightarrow> nat" where
  "least_flops f =
     foldl (\<lambda>best i. if flops (f ! i) < flops (f ! best) \<or> (flops (f ! i) = flops (f ! best) \<and> peak (f ! i) < peak (f ! best))
                     then i else best) 0 [1..<length f]"

definition within_tolerance :: "frontier \<Rightarrow> real \<Rightarrow> int" where
  "within_tolerance f tol =
     (let minpeak = foldl (\<lambda>m fp. min m (peak fp)) dbl_max f;
          thresh = minpeak * (1 + tol)
      in foldl (\<lambda>best i. if peak (f ! i) \<le> thresh
                           \<and> (best < 0 \<or> flops (f ! i) < flops (f ! nat best)
                              \<or> (flops (f ! i) = flops (f ! nat best) \<and> peak (f ! i) < peak (f ! nat best)))
                         then int i else best) (-1) [0..<length f])"

definition peak_reconstruct :: "('i, 't) peak_params \<Rightarrow> 'i peak_ctx \<Rightarrow> frontier list \<Rightarrow> int list option" where
  "peak_reconstruct p ctx st =
     (let full = of_nat (length st - 1); root = st ! (length st - 1)
      in if perf_first p then build_sequence st full (int (least_flops root))
         else build_sequence st full (within_tolerance root (peak_flops_tolerance p)))"

definition peak_model ::
    "'i::linorder opt_env \<Rightarrow> ('i \<Rightarrow> 'i list) \<Rightarrow> ('i, 't) peak_params \<Rightarrow> ('i, 't, 'i peak_ctx, frontier) cost_model" where
  "peak_model env protos p =
     \<lparr>build_context = peak_context env protos p, default_state = [], leaf_state = peak_leaf,
      init_state = (\<lambda>_ _. []), relax = peak_relax protos p, finalize = (\<lambda>ctx _ st. Inr (ctx, st)),
      reconstruct = peak_reconstruct p, prune_outer_products = peak_prune p\<rparr>"

section \<open>Frontiers cover the values of plans\<close>

definition covers :: "frontier \<Rightarrow> real \<times> real \<Rightarrow> bool" where
  "covers f v \<longleftrightarrow> (\<exists>e\<in>set f. peak e \<le> fst v \<and> flops e \<le> snd v)"

text \<open>The peak and the flops of contracting \<open>fm\<close>, evaluated first, with \<open>sm\<close>.\<close>

definition peak_join ::
    "('i::linorder \<Rightarrow> 'i list) \<Rightarrow> ('i, 't) peak_params \<Rightarrow> 'i peak_ctx \<Rightarrow> mask \<Rightarrow> mask \<Rightarrow> real \<times> real \<Rightarrow> real \<times> real \<Rightarrow> real \<times> real" where
  "peak_join protos p ctx fm sm x y =
     (let S = (\<lambda>m :: mask. ctx_S ctx ! unat m); L = (\<lambda>m :: mask. ctx_L ctx ! unat m)
      in (max (L sm + fst x) (max (S fm + fst y) (S fm + S sm + S (fm OR sm))),
          snd x + snd y + cost_value (contraction_cost protos p ctx (fm OR sm) fm sm)))"

abbreviation peak_value ::
    "('i::linorder \<Rightarrow> 'i list) \<Rightarrow> ('i, 't) peak_params \<Rightarrow> 'i peak_ctx \<Rightarrow> plan \<Rightarrow> real \<times> real" where
  "peak_value protos p ctx \<equiv> plan_value (\<lambda>n. (ctx_S ctx ! unat n, 0)) (peak_join protos p ctx)"

lemma covers_insert: "covers (pareto_insert f p) (peak p, flops p)"
  by (auto simp: covers_def pareto_insert_def)

lemma covers_kept:
  assumes "covers f v"
  shows "covers (pareto_insert f p) v"
proof -
  obtain e where e: "e \<in> set f" "peak e \<le> fst v" "flops e \<le> snd v" using assms by (auto simp: covers_def)
  show ?thesis
  proof (cases "peak p \<le> peak e \<and> flops p \<le> flops e")
    case True
    then show ?thesis using e covers_insert [of f p] by (auto simp: covers_def intro: order_trans)
  next
    case False
    then show ?thesis using e by (auto simp: covers_def pareto_insert_def)
  qed
qed

lemma covers_mono: "covers f w \<Longrightarrow> fst w \<le> fst v \<Longrightarrow> snd w \<le> snd v \<Longrightarrow> covers f v"
  by (force simp: covers_def)

abbreviation insert_all :: "('a \<Rightarrow> front_point) \<Rightarrow> frontier \<Rightarrow> 'a list \<Rightarrow> frontier" where
  "insert_all g \<equiv> foldl (\<lambda>acc x. pareto_insert acc (g x))"

abbreviation insert_cross :: "('a \<Rightarrow> 'b \<Rightarrow> front_point) \<Rightarrow> 'b list \<Rightarrow> frontier \<Rightarrow> 'a list \<Rightarrow> frontier" where
  "insert_cross g ys \<equiv> foldl (\<lambda>acc x. insert_all (g x) acc ys)"

lemma insert_all_keeps: "covers acc v \<Longrightarrow> covers (insert_all g acc xs) v"
  by (induction xs arbitrary: acc) (simp_all add: covers_kept)

lemma insert_all_covers: "x \<in> set xs \<Longrightarrow> covers (insert_all g acc xs) (peak (g x), flops (g x))"
  by (induction xs arbitrary: acc) (auto intro: insert_all_keeps covers_insert)

lemma cross_keeps: "covers acc v \<Longrightarrow> covers (insert_cross g ys acc xs) v"
  by (induction xs arbitrary: acc) (simp_all add: insert_all_keeps)

lemma cross_covers:
  "x \<in> set xs \<Longrightarrow> y \<in> set ys \<Longrightarrow> covers (insert_cross g ys acc xs) (peak (g x y), flops (g x y))"
  by (induction xs arbitrary: acc) (auto intro: cross_keeps insert_all_covers)

lemma insert_cross_invariant:
  assumes "P acc" "\<And>b x y. P b \<Longrightarrow> x \<in> set xs \<Longrightarrow> y \<in> set ys \<Longrightarrow> P (pareto_insert b (g x y))"
  shows "P (insert_cross g ys acc xs)"
proof -
  have "P (insert_all (g x) b ys)" if "P b" "x \<in> set xs" for b x
    using that assms(2) by (rule_tac foldl_invariant) auto
  then show ?thesis using assms(1) by (rule_tac foldl_invariant) auto
qed

abbreviation cross_points :: "'i peak_ctx \<Rightarrow> mask \<Rightarrow> mask \<Rightarrow> real \<Rightarrow> frontier \<Rightarrow> frontier \<Rightarrow> frontier \<Rightarrow> frontier" where
  "cross_points ctx lp rp c l r acc \<equiv> insert_cross (join_point ctx lp rp c l r) [0..<length r] acc [0..<length l]"

lemma contraction_cost_symmetric:
  "contraction_cost protos p ctx n lp rp = Inr c \<Longrightarrow> contraction_cost protos p ctx n rp lp = Inr c"
proof -
  let ?F = "\<lambda>a b. flops_counter protos (\<lambda>ix. Inr (idxsz p ix)) (inner_pow p) (ctx_idx ctx ! unat a) (ctx_idx ctx ! unat b) (ctx_idx ctx ! unat n)"
  assume "contraction_cost protos p ctx n lp rp = Inr c"
  moreover from this obtain fl where fl: "?F lp rp = Inr fl" by (auto simp: contraction_cost_def Let_def bind_res_Inr)
  moreover have "?F rp lp = Inr fl" by (rule flops_symmetric [OF fl])
  ultimately show ?thesis by (simp add: contraction_cost_def Let_def add.commute)
qed

lemma join_point_bounds:
  assumes c: "contraction_cost protos p ctx (lp OR rp) lp rp = Inr c"
    and x: "peak (l ! li) \<le> fst x" "flops (l ! li) \<le> snd x" and y: "peak (r ! ri) \<le> fst y" "flops (r ! ri) \<le> snd y"
  defines "e \<equiv> join_point ctx lp rp c l r li ri"
  shows "peak e \<le> fst (peak_join protos p ctx lp rp x y)" "flops e \<le> snd (peak_join protos p ctx lp rp x y)"
    and "peak e \<le> fst (peak_join protos p ctx rp lp y x)" "flops e \<le> snd (peak_join protos p ctx rp lp y x)"
proof -
  have c': "contraction_cost protos p ctx (rp OR lp) rp lp = Inr c"
    using contraction_cost_symmetric [OF c] by (simp add: or.commute)
  show "peak e \<le> fst (peak_join protos p ctx lp rp x y)" "flops e \<le> snd (peak_join protos p ctx lp rp x y)"
    using x y c by (auto simp: e_def join_point_def peak_join_def Let_def)
  show "peak e \<le> fst (peak_join protos p ctx rp lp y x)" "flops e \<le> snd (peak_join protos p ctx rp lp y x)"
    using x y c' by (auto simp: e_def join_point_def peak_join_def Let_def or.commute)
qed

interpretation peak: optimal_substructure "peak_model env protos p" covers
    "\<lambda>c n. (ctx_S c ! unat n, 0)" "peak_join protos p"
proof
  fix c n lp rp l r acc acc' v
  assume "relax (peak_model env protos p) c n lp rp l r acc = Inr acc'" "covers acc v"
  then show "covers acc' v"
    by (auto simp: peak_model_def peak_relax_def bind_res_Inr intro: cross_keeps)
next
  fix c lp rp l r acc acc' x y
  assume rx: "relax (peak_model env protos p) c (lp OR rp) lp rp l r acc = Inr acc'" and "covers l x" "covers r y"
  then obtain li ri where li: "li < length l" "peak (l ! li) \<le> fst x" "flops (l ! li) \<le> snd x"
    and ri: "ri < length r" "peak (r ! ri) \<le> fst y" "flops (r ! ri) \<le> snd y"
    by (auto simp: covers_def in_set_conv_nth)
  obtain k where k: "contraction_cost protos p c (lp OR rp) lp rp = Inr k"
    and acc': "acc' = cross_points c lp rp k l r acc"
    using rx by (auto simp: peak_model_def peak_relax_def bind_res_Inr)
  show "covers acc' (peak_join protos p c lp rp x y) \<and> covers acc' (peak_join protos p c rp lp y x)"
    using cross_covers [of li "[0..<length l]" ri "[0..<length r]" "join_point c lp rp k l r" acc]
      join_point_bounds [OF k li(2,3) ri(2,3)] li(1) ri(1)
    unfolding acc' by (auto intro: covers_mono)
qed (auto simp: peak_model_def peak_leaf_def covers_def)

section \<open>Every point of a frontier is the value of a plan\<close>

definition pareto :: "frontier \<Rightarrow> bool" where
  "pareto f \<longleftrightarrow> sorted_wrt (\<lambda>e e'. \<not> (peak e \<le> peak e' \<and> flops e \<le> flops e') \<and> \<not> (peak e' \<le> peak e \<and> flops e' \<le> flops e)) f"

lemma pareto_insert_ok: "pareto f \<Longrightarrow> pareto (pareto_insert f p)"
  by (auto simp: pareto_def pareto_insert_def sorted_wrt_append intro: sorted_wrt_filter)

lemma pareto_insert_mem: "e \<in> set (pareto_insert f p) \<Longrightarrow> e \<in> set f \<or> e = p"
  by (auto simp: pareto_insert_def split: if_splits)

definition joined_from ::
    "('i::linorder \<Rightarrow> 'i list) \<Rightarrow> ('i, 't) peak_params \<Rightarrow> bool list \<Rightarrow> 'i peak_ctx \<Rightarrow> frontier list \<Rightarrow> mask \<Rightarrow> front_point \<Rightarrow> bool" where
  "joined_from protos p conn ctx st n e \<longleftrightarrow>
     (\<exists>lp rp c li ri. lp OR rp = n \<and> lp AND rp = 0 \<and> lp \<noteq> 0 \<and> rp \<noteq> 0 \<and> conn ! unat lp \<and> conn ! unat rp
        \<and> contraction_cost protos p ctx n lp rp = Inr c \<and> li < length (st ! unat lp) \<and> ri < length (st ! unat rp)
        \<and> e = join_point ctx lp rp c (st ! unat lp) (st ! unat rp) li ri)"

lemma peak_row:
  fixes m :: "('i::linorder, 't, 'i peak_ctx, frontier) cost_model"
  assumes "m = peak_model env protos p"
    and "fold_res (relax_split m conn ctx n st) [] (bipartitions n) = Inr s"
  shows "pareto s \<and> (\<forall>e\<in>set s. joined_from protos p conn ctx st n e)"
proof (rule fold_res_invariant [OF assms(2), where P = "\<lambda>s. pareto s \<and> (\<forall>e\<in>set s. joined_from protos p conn ctx st n e)"])
  fix q s s' assume q: "q \<in> set (bipartitions n)"
    and IH: "pareto s \<and> (\<forall>e\<in>set s. joined_from protos p conn ctx st n e)"
    and step: "relax_split m conn ctx n st s q = Inr s'"
  obtain lp rp where lr: "q = (lp, rp)" by (cases q)
  have sp: "lp OR rp = n" "lp AND rp = 0" using split_facts q lr by auto
  show "pareto s' \<and> (\<forall>e\<in>set s'. joined_from protos p conn ctx st n e)"
  proof (cases "lp \<noteq> 0 \<and> rp \<noteq> 0 \<and> conn ! unat lp \<and> conn ! unat rp")
    case True
    let ?l = "st ! unat lp" and ?r = "st ! unat rp"
    obtain c where c: "contraction_cost protos p ctx n lp rp = Inr c" and s': "s' = cross_points ctx lp rp c ?l ?r s"
      using step True lr assms(1) by (auto simp: relax_split_def peak_model_def peak_relax_def bind_res_Inr)
    have new: "joined_from protos p conn ctx st n (join_point ctx lp rp c ?l ?r li ri)"
      if "li < length ?l" "ri < length ?r" for li ri
      using that c sp True unfolding joined_from_def by blast
    let ?Q = "\<lambda>s. pareto s \<and> (\<forall>e\<in>set s. joined_from protos p conn ctx st n e)"
    show ?thesis unfolding s'
      by (rule insert_cross_invariant [where P = ?Q, OF IH])
         (use new in \<open>auto intro: pareto_insert_ok dest!: pareto_insert_mem\<close>)
  next
    case False
    then show ?thesis using step lr IH by (simp add: relax_split_def split: if_splits)
  qed
qed (simp add: pareto_def)

lemma join_point_peak:
  fixes lp rp :: mask and ctx :: "'i peak_ctx"
  defines "S \<equiv> \<lambda>m :: mask. ctx_S ctx ! unat m" and "L \<equiv> \<lambda>m :: mask. ctx_L ctx ! unat m"
  shows "peak (join_point ctx lp rp c l r li ri) =
      (if lp_first (join_point ctx lp rp c l r li ri)
       then max (L rp + peak (l ! li)) (max (S lp + peak (r ! ri)) (S lp + S rp + S (lp OR rp)))
       else max (L lp + peak (r ! ri)) (max (S rp + peak (l ! li)) (S rp + S lp + S (lp OR rp))))"
  unfolding S_def L_def by (simp only: join_point_def Let_def front_point.simps min_def add.commute [of "ctx_S ctx ! unat rp" "ctx_S ctx ! unat lp"])

lemma peak_attained:
  fixes st :: "frontier list" and M :: "('i::linorder, 't, 'i peak_ctx, frontier) cost_model"
  assumes M: "M = peak_model env protos p"
    and nt: "nt \<le> 64" and ok: "table_ok M conn ctx st (2 ^ nt)"
    and n: "n \<noteq> 0" "unat n < 2 ^ nt" "conn ! unat n" "idx < length (st ! unat n)"
  shows "\<exists>t. legal conn nt t \<and> plan_mask t = n \<and> build_sequence st n (int idx) = Some (postfix t)
           \<and> peak_value protos p ctx t = (peak (st ! unat n ! idx), flops (st ! unat n ! idx))"
  using n
proof (induction "unat n" arbitrary: n idx rule: less_induct)
  case less
  let ?e = "st ! unat n ! idx"
  show ?case
  proof (cases "popcount n = 1")
    case True
    then obtain i where i: "i < 64" "n = push_bit i 1" unfolding popcount_one by blast
    have "bit (unat n) i" using i bit_one_at [OF i(1), of i] by (simp add: bit_unsigned_iff del: push_bit_of_1)
    then have "i < nt" using bit_nat_less less.prems(2) by blast
    moreover have "st ! unat n = peak_leaf ctx n"
      using table_row(1) [OF ok less.prems(1,2) True] by (simp add: M peak_model_def)
    moreover have "build_sequence st n (int idx) = Some [int i]"
      using True ctz_one [OF i(1)] i(2) by (subst build_sequence.simps) (simp del: push_bit_of_1)
    ultimately show ?thesis using i(2) less.prems(4)
      by (intro exI [of _ "Load i"]) (simp add: peak_leaf_def del: push_bit_of_1)
  next
    case False
    have "fold_res (relax_split M conn ctx n st) [] (bipartitions n) = Inr (st ! unat n)"
      using table_row(2) [OF ok less.prems(1,2) False less.prems(3)] by (simp add: M peak_model_def)
    then have "joined_from protos p conn ctx st n ?e" using peak_row [OF M] less.prems(4) by simp
    then obtain lp rp c li ri where sp: "lp OR rp = n" "lp AND rp = 0" "lp \<noteq> 0" "rp \<noteq> 0" "conn ! unat lp" "conn ! unat rp"
      and c: "contraction_cost protos p ctx n lp rp = Inr c"
      and li: "li < length (st ! unat lp)" "ri < length (st ! unat rp)"
      and e: "?e = join_point ctx lp rp c (st ! unat lp) (st ! unat rp) li ri"
      by (auto simp: joined_from_def)
    have small: "unat lp < unat n" "unat rp < unat n" using split_less [OF sp(2,3,4)] sp(1) by auto
    obtain tl where tl: "legal conn nt tl" "plan_mask tl = lp" "build_sequence st lp (int li) = Some (postfix tl)"
      "peak_value protos p ctx tl = (peak (st ! unat lp ! li), flops (st ! unat lp ! li))"
      using less.hyps [OF small(1) sp(3) _ sp(5) li(1)] small less.prems(2) by auto
    obtain tr where tr: "legal conn nt tr" "plan_mask tr = rp" "build_sequence st rp (int ri) = Some (postfix tr)"
      "peak_value protos p ctx tr = (peak (st ! unat rp ! ri), flops (st ! unat rp ! ri))"
      using less.hyps [OF small(2) sp(4) _ sp(6) li(2)] small less.prems(2) by auto
    have ptr: "fp_lp ?e = lp" "fp_rp ?e = rp" "lp_idx ?e = int li" "rp_idx ?e = int ri"
      unfolding e by (simp_all add: join_point_def Let_def)
    have c': "contraction_cost protos p ctx n rp lp = Inr c" by (rule contraction_cost_symmetric [OF c])
    let ?S = "\<lambda>m :: mask. ctx_S ctx ! unat m" and ?L = "\<lambda>m :: mask. ctx_L ctx ! unat m"
    let ?pl = "peak (st ! unat lp ! li)" and ?pr = "peak (st ! unat rp ! ri)"
    have pe: "peak ?e = (if lp_first ?e then max (?L rp + ?pl) (max (?S lp + ?pr) (?S lp + ?S rp + ?S n))
        else max (?L lp + ?pr) (max (?S rp + ?pl) (?S rp + ?S lp + ?S n)))"
      unfolding e join_point_peak sp(1) ..
    have fe: "flops ?e = flops (st ! unat lp ! li) + flops (st ! unat rp ! ri) + c"
      unfolding e by (simp add: join_point_def Let_def)
    show ?thesis
    proof (cases "lp_first ?e")
      case True
      have "build_sequence st n (int idx) = Some (postfix (Contract tl tr))"
        using False True ptr tl(3) tr(3) by (subst build_sequence.simps) (simp add: Let_def)
      moreover have "peak_value protos p ctx (Contract tl tr) = (peak ?e, flops ?e)"
        unfolding pe fe using True c tl(2,4) tr(2,4) sp(1) by (simp add: peak_join_def Let_def)
      ultimately show ?thesis using tl tr sp less.prems(3) by (intro exI [of _ "Contract tl tr"]) simp
    next
      case nf: False
      have "build_sequence st n (int idx) = Some (postfix (Contract tr tl))"
        using False nf ptr tl(3) tr(3) by (subst build_sequence.simps) (simp add: Let_def)
      moreover have "peak_value protos p ctx (Contract tr tl) = (peak ?e, flops ?e)"
        unfolding pe fe using nf c' tl(2,4) tr(2,4) sp(1) by (simp add: peak_join_def Let_def or.commute)
      ultimately show ?thesis using tl tr sp less.prems(3)
        by (intro exI [of _ "Contract tr tl"]) (simp add: or.commute and.commute)
    qed
  qed
qed

section \<open>The choice at the root\<close>

abbreviation flops_first :: "front_point \<Rightarrow> front_point \<Rightarrow> bool" where
  "flops_first e e' \<equiv> flops e < flops e' \<or> (flops e = flops e' \<and> peak e \<le> peak e')"

lemma least_flops_correct:
  assumes "f \<noteq> []"
  shows "least_flops f < length f \<and> (\<forall>i < length f. flops_first (f ! least_flops f) (f ! i))"
proof -
  define pick where "pick k = foldl (\<lambda>best i. if flops (f ! i) < flops (f ! best)
      \<or> (flops (f ! i) = flops (f ! best) \<and> peak (f ! i) < peak (f ! best)) then i else best) 0 [1..<k]" for k
  have "1 \<le> k \<Longrightarrow> pick k < k \<and> (\<forall>i < k. flops_first (f ! pick k) (f ! i))" for k
  proof (induction k)
    case (Suc k)
    show ?case
    proof (cases "k = 0")
      case True
      then show ?thesis by (simp add: pick_def)
    next
      case False
      then have "pick (Suc k) = (if flops (f ! k) < flops (f ! pick k)
          \<or> (flops (f ! k) = flops (f ! pick k) \<and> peak (f ! k) < peak (f ! pick k)) then k else pick k)"
        by (simp add: pick_def)
      then show ?thesis using Suc.IH False by (fastforce simp: less_Suc_eq)
    qed
  qed simp
  from this [of "length f"] show ?thesis using assms by (simp add: least_flops_def pick_def Suc_le_eq)
qed

lemma min_peak: "foldl (\<lambda>m fp. min m (peak fp)) b f \<le> b \<and> (\<forall>e \<in> set f. foldl (\<lambda>m fp. min m (peak fp)) b f \<le> peak e)
    \<and> (foldl (\<lambda>m fp. min m (peak fp)) b f = b \<or> (\<exists>e \<in> set f. foldl (\<lambda>m fp. min m (peak fp)) b f = peak e))"
proof (induction f arbitrary: b)
  case (Cons e f)
  show ?case using Cons [of "min b (peak e)"] by (auto simp: min_def split: if_splits)
qed simp

lemma within_tolerance_correct:
  assumes "f \<noteq> []" "0 \<le> tol" "\<forall>e \<in> set f. 0 \<le> peak e \<and> peak e \<le> dbl_max"
  shows "\<exists>b least. within_tolerance f tol = int b \<and> b < length f \<and> least \<in> set f
     \<and> (\<forall>e \<in> set f. peak least \<le> peak e) \<and> peak (f ! b) \<le> peak least * (1 + tol)
     \<and> (\<forall>e \<in> set f. peak e \<le> peak least * (1 + tol) \<longrightarrow> flops_first (f ! b) e)"
proof -
  define mp where "mp = foldl (\<lambda>m fp. min m (peak fp)) dbl_max f"
  have mp: "\<forall>e \<in> set f. mp \<le> peak e" "mp = dbl_max \<or> (\<exists>e \<in> set f. mp = peak e)"
    using min_peak [of dbl_max f] by (auto simp: mp_def)
  obtain least where least: "least \<in> set f" "peak least = mp"
    using mp assms(1,3) by (metis antisym list.set_intros(1) neq_Nil_conv)
  define th where "th = mp * (1 + tol)"
  define stp where "stp best i = (if peak (f ! i) \<le> th
       \<and> (best < 0 \<or> flops (f ! i) < flops (f ! nat best) \<or> (flops (f ! i) = flops (f ! nat best) \<and> peak (f ! i) < peak (f ! nat best)))
      then int i else best)" for best :: int and i
  define pick where "pick k = foldl stp (-1) [0..<k]" for k
  have pick: "(pick k = -1 \<and> (\<forall>i < k. \<not> peak (f ! i) \<le> th))
      \<or> (\<exists>b < k. pick k = int b \<and> peak (f ! b) \<le> th \<and> (\<forall>i < k. peak (f ! i) \<le> th \<longrightarrow> flops_first (f ! b) (f ! i)))" for k
  proof (induction k)
    case 0
    then show ?case by (simp add: pick_def)
  next
    case (Suc k)
    have "pick (Suc k) = stp (pick k) k" by (simp add: pick_def)
    moreover from Suc consider "pick k = -1" "\<forall>i < k. \<not> peak (f ! i) \<le> th"
      | b where "b < k" "pick k = int b" "peak (f ! b) \<le> th" "\<forall>i < k. peak (f ! i) \<le> th \<longrightarrow> flops_first (f ! b) (f ! i)"
      by blast
    then show ?case
    proof cases
      case 1
      show ?thesis
      proof (cases "peak (f ! k) \<le> th")
        case True
        then have "stp (pick k) k = int k" using 1(1) by (simp add: stp_def)
        then show ?thesis using calculation True 1(2) by (intro disjI2 exI [of _ k]) (auto simp: less_Suc_eq)
      next
        case False
        then have "stp (pick k) k = -1" using 1(1) by (simp add: stp_def)
        then show ?thesis using calculation False 1(2) by (auto simp: less_Suc_eq)
      qed
    next
      case (2 b)
      have stp: "stp (pick k) k = (if peak (f ! k) \<le> th \<and> (flops (f ! k) < flops (f ! b)
          \<or> (flops (f ! k) = flops (f ! b) \<and> peak (f ! k) < peak (f ! b))) then int k else int b)"
        using 2(2) by (simp add: stp_def)
      show ?thesis
      proof (cases "peak (f ! k) \<le> th \<and> (flops (f ! k) < flops (f ! b)
          \<or> (flops (f ! k) = flops (f ! b) \<and> peak (f ! k) < peak (f ! b)))")
        case True
        have "flops_first (f ! k) (f ! i)" if "i < k" "peak (f ! i) \<le> th" for i
          using 2(4) that True by force
        then show ?thesis using calculation stp True by (intro disjI2 exI [of _ k]) (auto simp: less_Suc_eq)
      next
        case False
        then show ?thesis using calculation stp 2 by (intro disjI2 exI [of _ b]) (auto simp: less_Suc_eq)
      qed
    qed
  qed
  have "0 \<le> mp" using least assms(3) by force
  then have "mp \<le> th" using assms(2) by (simp add: th_def algebra_simps)
  then obtain i where "i < length f" "peak (f ! i) \<le> th" using least by (auto simp: in_set_conv_nth)
  then obtain b where b: "b < length f" "pick (length f) = int b" "peak (f ! b) \<le> th"
      "\<forall>i < length f. peak (f ! i) \<le> th \<longrightarrow> flops_first (f ! b) (f ! i)"
    using pick [of "length f"] by auto
  have "within_tolerance f tol = int b"
    using b(2) unfolding within_tolerance_def pick_def stp_def [abs_def] th_def mp_def Let_def .
  then show ?thesis using b mp(1) least th_def by (intro exI [of _ b] exI [of _ least]) (auto simp: in_set_conv_nth)
qed

section \<open>The optimal plans\<close>

lemma peak_context_total:
  assumes "length net \<le> 24" "sized protos (inner_pow p)" "\<forall>t\<in>set net. net_kind t \<noteq> PowerOf None"
  shows "\<exists>ctx. peak_context env protos p net tidxs = Inr ctx \<and> (\<forall>x\<in>set (ctx_S ctx). 0 \<le> x) \<and> length (ctx_S ctx) = 2 ^ length net"
proof -
  let ?conn = "outer_product_connectivity (disable_pruning env) (nonnull env) net tidxs (peak_prune p)"
  obtain rs where rs: "init_results protos net tidxs (replicate (2 ^ length net) no_res) (Some ?conn) = Inr rs"
    using init_results_total [OF assms(1)] by blast
  let ?f = "\<lambda>n. if n = 0 \<or> \<not> ?conn ! n then Inr 0
      else footprint_counter protos (\<lambda>ix. Inr (idxsz p ix)) (inner_pow p) (res_indices (rs ! n))"
  have "\<exists>y. ?f x = Inr y \<and> 0 \<le> y" for x using footprint_total [OF assms(2)] by simp
  then have "\<exists>S. map_res ?f [0..<2 ^ length net] = Inr S \<and> length S = length [0..<2 ^ length net :: nat] \<and> (\<forall>x\<in>set S. 0 \<le> x)"
    by (rule map_res_total)
  then obtain S where S: "map_res ?f [0..<2 ^ length net] = Inr S" "length S = 2 ^ length net" "\<forall>x\<in>set S. 0 \<le> x"
    by auto
  obtain vm where "leaf_volatile_mask net (is_volatile_leaf p) = Inr vm" using volatile_mask_total [OF assms(3)] by blast
  then show ?thesis using rs S by (simp add: peak_context_def Let_def)
qed

lemma peak_driver:
  fixes net :: "('i::linorder, 't) net_tensor list" and p :: "('i, 't) peak_params"
  assumes "length net \<le> 64" "sized protos (inner_pow p)"
    and conn_def: "conn = outer_product_connectivity (disable_pruning env) (nonnull env) net tidxs (peak_prune p)"
  shows "\<exists>st. solve_single_term env (peak_model env protos p) net tidxs ctx = Inr (ctx, st) \<and> length st = 2 ^ length net
    \<and> table_ok (peak_model env protos p) conn ctx st (2 ^ length net)"
proof -
  let ?M = "peak_model env protos p :: ('i, 't, 'i peak_ctx, frontier) cost_model"
  have "\<exists>st. solve_single_term env ?M net tidxs ctx = Inr (ctx, st)"
  proof (rule solve_total)
    fix lp rp :: mask and l r acc
    obtain fl where "flops_counter protos (\<lambda>ix. Inr (idxsz p ix)) (inner_pow p)
        (ctx_idx ctx ! unat lp) (ctx_idx ctx ! unat rp) (ctx_idx ctx ! unat (lp OR rp)) = Inr fl"
      using flops_total [OF assms(2)] by blast
    then show "\<exists>acc'. relax ?M ctx (lp OR rp) lp rp l r acc = Inr acc'"
      by (simp add: peak_model_def peak_relax_def contraction_cost_def Let_def)
  qed (simp add: peak_model_def)
  moreover have "model_conn env ?M net tidxs = conn" by (simp add: model_conn_def conn_def peak_model_def)
  ultimately show ?thesis
    using solve_table [of ?M, OF peak.finalize_id assms(1)] by metis
qed

text \<open>A plan of the whole network.\<close>

definition whole :: "bool list \<Rightarrow> nat \<Rightarrow> plan \<Rightarrow> bool" where
  "whole conn nt t \<longleftrightarrow> legal conn nt t \<and> bits_of (plan_mask t) = {..<nt}"

lemma full_mask: "nt \<le> 64 \<Longrightarrow> unat (of_nat (2 ^ nt - 1) :: mask) = 2 ^ nt - 1"
proof -
  assume "nt \<le> 64"
  then have "(2 :: nat) ^ nt \<le> 2 ^ 64" by (intro power_increasing) auto
  then have "(2 :: nat) ^ nt - 1 < 2 ^ 64" using zero_less_power [of "2 :: nat" nt] by linarith
  then show ?thesis by (rule unat_of_small)
qed

abbreviation lex_le :: "real \<times> real \<Rightarrow> real \<times> real \<Rightarrow> bool" where
  "lex_le v w \<equiv> snd v < snd w \<or> (snd v = snd w \<and> fst v \<le> fst w)"

text \<open>C29: \<open>run_single_term_opt\<close> on the peak model returns the postfix form of a plan over the whole network that is
  optimal among all plans with connected intermediates, in both orders of evaluation of every contraction:
  perf-first, it has the fewest flops and, among those, the least peak; otherwise, among the plans whose
  peak is within the tolerance of the least possible peak, it has the fewest flops and then the least peak.\<close>
theorem peak_plan_optimal:
  fixes net :: "('i::linorder, 't) net_tensor list" and p :: "('i, 't) peak_params"
  assumes "3 \<le> length net" "length net \<le> 24" "sized protos (inner_pow p)" "\<forall>t\<in>set net. net_kind t \<noteq> PowerOf None"
    and "0 \<le> peak_flops_tolerance p"
    and "conn = outer_product_connectivity (disable_pruning env) (nonnull env) net tidxs (peak_prune p)"
  shows "\<exists>ctx. peak_context env protos p net tidxs = Inr ctx
    \<and> ((\<forall>t. whole conn (length net) t \<longrightarrow> fst (peak_value protos p ctx t) \<le> dbl_max) \<longrightarrow>
       (\<exists>t least. run_single_term_opt env (peak_model env protos p) net tidxs = Inr (Some (postfix t))
          \<and> whole conn (length net) t \<and> whole conn (length net) least
          \<and> (\<forall>t'. whole conn (length net) t' \<longrightarrow> fst (peak_value protos p ctx least) \<le> fst (peak_value protos p ctx t'))
          \<and> (\<not> perf_first p \<longrightarrow> fst (peak_value protos p ctx t) \<le> fst (peak_value protos p ctx least) * (1 + peak_flops_tolerance p))
          \<and> (\<forall>t'. whole conn (length net) t' \<and> (perf_first p \<or> fst (peak_value protos p ctx t') \<le> fst (peak_value protos p ctx least) * (1 + peak_flops_tolerance p))
                 \<longrightarrow> lex_le (peak_value protos p ctx t) (peak_value protos p ctx t'))))"
proof -
  let ?nt = "length net" and ?W = "whole conn (length net)" and ?V = "peak_value protos p"
  let ?M = "peak_model env protos p :: ('i, 't, 'i peak_ctx, frontier) cost_model"
  note conn_def = assms(6)
  define full where "full = (of_nat (2 ^ ?nt - 1) :: mask)"
  have nt: "?nt \<le> 64" using assms(2) by simp
  obtain ctx where ctx: "peak_context env protos p net tidxs = Inr ctx" "\<forall>x\<in>set (ctx_S ctx). 0 \<le> x" "length (ctx_S ctx) = 2 ^ ?nt"
    using peak_context_total [OF assms(2,3,4)] by blast
  obtain st where st: "solve_single_term env ?M net tidxs ctx = Inr (ctx, st)" "length st = 2 ^ ?nt"
    and ok: "table_ok ?M conn ctx st (2 ^ ?nt)"
    using peak_driver [OF nt assms(3) conn_def] by metis
  have unat_full: "unat full = 2 ^ ?nt - 1" unfolding full_def by (rule full_mask [OF nt])
  have bits: "bits_of full = {..<?nt}" unfolding full_def by (rule full_mask_bits [OF nt])
  have whole: "?W t \<longleftrightarrow> legal conn ?nt t \<and> plan_mask t = full" for t
    unfolding whole_def using bits bits_of_inj by metis
  have "0 \<in> bits_of full" unfolding bits lessThan_iff using assms(1) by linarith
  then have full0: "full \<noteq> 0" by auto
  have full_lt: "unat full < 2 ^ ?nt" unfolding unat_full by simp
  have "conn ! unat full"
    unfolding conn_def connectivity_nth [OF nt full_lt] of_nat_unat_mask bits by (simp add: pruned_def)
  note att = peak_attained [OF refl nt ok full0 full_lt this]
  let ?f = "st ! unat full"
  have points: "\<exists>t. ?W t \<and> build_sequence st full (int i) = Some (postfix t) \<and> ?V ctx t = (peak (?f ! i), flops (?f ! i))"
    if "i < length ?f" for i using att [OF that] unfolding whole by blast
  have cov: "\<exists>e\<in>set ?f. peak e \<le> fst (?V ctx t) \<and> flops e \<le> snd (?V ctx t)" if "?W t" for t
  proof -
    have single: "conn ! unat (push_bit i 1 :: mask)" if "i < ?nt" for i
      unfolding conn_def by (rule conn_single [OF nt that])
    have "legal conn ?nt t" "plan_mask t = full" using that whole by auto
    then show ?thesis using peak.table_covers [OF ok nt single, of t] by (simp add: covers_def)
  qed
  obtain t0 where "?W t0"
    using connected_has_plan [OF conn_def nt full_lt full0 \<open>conn ! unat full\<close>] unfolding whole by blast
  then have ne: "?f \<noteq> []" using cov by fastforce
  have run: "run_single_term_opt env ?M net tidxs = Inr (peak_reconstruct p ctx st)"
    using assms(1) ctx(1) st(1) by (simp add: run_single_term_opt_def peak_model_def)
  have pos: "0 \<le> fst (?V ctx t)" if "?W t" for t
  proof -
    have S: "0 \<le> ctx_S ctx ! unat n" if "unat n < 2 ^ ?nt" for n :: mask using ctx(2,3) that by simp
    from that have "legal conn ?nt t" unfolding whole by simp
    then show ?thesis using S legal_mask(2) [OF _ nt] legal_mask(2) [of conn ?nt t, OF _ nt]
      by (cases t) (auto simp: peak_join_def Let_def le_max_iff_disj simp del: push_bit_of_1)
  qed
  have root: "st ! (length st - 1) = ?f" "of_nat (length st - 1) = full" using st(2) unat_full by (simp_all add: full_def)
  show ?thesis
  proof (intro exI [of _ ctx] conjI impI ctx(1))
    assume bound: "\<forall>t. ?W t \<longrightarrow> fst (?V ctx t) \<le> dbl_max"
    have range: "\<forall>e\<in>set ?f. 0 \<le> peak e \<and> peak e \<le> dbl_max"
    proof
      fix e assume "e \<in> set ?f"
      then obtain i where i: "i < length ?f" "e = ?f ! i" by (auto simp: in_set_conv_nth)
      from points [OF i(1)] obtain t where "?W t" "?V ctx t = (peak e, flops e)" using i(2) by blast
      then show "0 \<le> peak e \<and> peak e \<le> dbl_max" using pos [of t] bound by auto
    qed
    obtain b li where b: "within_tolerance ?f (peak_flops_tolerance p) = int b" "b < length ?f"
      and li: "li < length ?f" "\<forall>e\<in>set ?f. peak (?f ! li) \<le> peak e"
      and tol: "peak (?f ! b) \<le> peak (?f ! li) * (1 + peak_flops_tolerance p)"
      and best: "\<forall>e\<in>set ?f. peak e \<le> peak (?f ! li) * (1 + peak_flops_tolerance p) \<longrightarrow> flops_first (?f ! b) e"
      using within_tolerance_correct [OF ne assms(5) range] by (auto simp: in_set_conv_nth)
    have lf: "least_flops ?f < length ?f" "\<forall>e\<in>set ?f. flops_first (?f ! least_flops ?f) e"
      using least_flops_correct [OF ne] by (auto simp: in_set_conv_nth)
    define k where "k = (if perf_first p then least_flops ?f else b)"
    have k: "k < length ?f" using b(2) lf(1) by (simp add: k_def)
    obtain t where t: "?W t" "build_sequence st full (int k) = Some (postfix t)" "?V ctx t = (peak (?f ! k), flops (?f ! k))"
      using points [OF k] by blast
    obtain least where least: "?W least" "?V ctx least = (peak (?f ! li), flops (?f ! li))"
      using points [OF li(1)] by blast
    have "peak_reconstruct p ctx st = Some (postfix t)"
      using t(2) b(1) unfolding peak_reconstruct_def root Let_def by (auto simp: k_def split: if_splits)
    moreover have "fst (?V ctx least) \<le> fst (?V ctx t')" if "?W t'" for t'
      using cov [OF that] li(2) least(2) by fastforce
    moreover have "fst (?V ctx t) \<le> fst (?V ctx least) * (1 + peak_flops_tolerance p)" if "\<not> perf_first p"
      using that t(3) least(2) tol by (simp add: k_def)
    moreover have "lex_le (?V ctx t) (?V ctx t')"
      if t': "?W t'" and near: "perf_first p \<or> fst (?V ctx t') \<le> fst (?V ctx least) * (1 + peak_flops_tolerance p)" for t'
    proof -
      obtain e where e: "e \<in> set ?f" "peak e \<le> fst (?V ctx t')" "flops e \<le> snd (?V ctx t')" using cov [OF t'] by blast
      have "flops_first (?f ! k) e"
      proof (cases "perf_first p")
        case True
        then show ?thesis using lf(2) e(1) by (simp add: k_def)
      next
        case False
        then have "peak e \<le> peak (?f ! li) * (1 + peak_flops_tolerance p)" using near e(2) least(2) by simp
        then show ?thesis using best e(1) False by (simp add: k_def)
      qed
      then show ?thesis using e(2,3) t(3) by auto
    qed
    ultimately show "\<exists>t least. run_single_term_opt env ?M net tidxs = Inr (Some (postfix t))
          \<and> ?W t \<and> ?W least
          \<and> (\<forall>t'. ?W t' \<longrightarrow> fst (?V ctx least) \<le> fst (?V ctx t'))
          \<and> (\<not> perf_first p \<longrightarrow> fst (?V ctx t) \<le> fst (?V ctx least) * (1 + peak_flops_tolerance p))
          \<and> (\<forall>t'. ?W t' \<and> (perf_first p \<or> fst (?V ctx t') \<le> fst (?V ctx least) * (1 + peak_flops_tolerance p))
                 \<longrightarrow> lex_le (?V ctx t) (?V ctx t'))"
      using run t(1) least(1) by (intro exI [of _ t] exI [of _ least]) auto
  qed
qed

lemma peak_bounded:
  assumes "nt \<le> 64" "length (ctx_S ctx) = 2 ^ nt" "length (ctx_L ctx) = 2 ^ nt"
    and "\<forall>x\<in>set (ctx_S ctx). x \<le> K" "\<forall>x\<in>set (ctx_L ctx). x \<le> K" "0 \<le> K"
  shows "legal conn nt t \<Longrightarrow> fst (peak_value protos p ctx t) \<le> 3 * K * real (popcount (plan_mask t))"
proof (induction t)
  case (Load i)
  let ?n = "push_bit i 1 :: mask"
  have "unat ?n < 2 ^ nt" "?n \<noteq> 0" using legal_mask [OF Load assms(1)] by simp_all
  then have "ctx_S ctx ! unat ?n \<le> K" "1 \<le> popcount ?n"
    using assms(2,4) popcount_pos [of ?n] by (simp_all add: Suc_le_eq del: push_bit_of_1)
  then have "ctx_S ctx ! unat ?n \<le> 3 * K * 1" "3 * K * 1 \<le> 3 * K * real (popcount ?n)"
    using assms(6) by (simp, intro mult_left_mono, simp_all del: push_bit_of_1)
  then show ?case by (simp del: push_bit_of_1)
next
  case (Contract a b)
  let ?a = "plan_mask a" and ?b = "plan_mask b"
  have leg: "legal conn nt a" "legal conn nt b" "?a AND ?b = 0" using Contract.prems by auto
  note lt = legal_mask(1,2) [OF leg(1) assms(1)] legal_mask(1,2) [OF leg(2) assms(1)] legal_mask(2) [OF Contract.prems assms(1)]
  have le: "ctx_S ctx ! unat ?a \<le> K" "ctx_S ctx ! unat ?b \<le> K" "ctx_S ctx ! unat (?a OR ?b) \<le> K" "ctx_L ctx ! unat ?b \<le> K"
    using assms(2-5) lt by simp_all
  have "1 \<le> real (popcount ?a)" "1 \<le> real (popcount ?b)" using lt(1,3) popcount_pos by (simp_all add: Suc_le_eq)
  then have big: "3 * K \<le> 3 * K * real (popcount ?a)" "3 * K \<le> 3 * K * real (popcount ?b)"
    using assms(6) by (simp_all add: mult_left_mono [of 1 _ "3 * K", simplified])
  have "real (popcount (?a OR ?b)) = real (popcount ?a) + real (popcount ?b)" using popcount_disjoint [OF leg(3)] by simp
  then have sum: "3 * K * real (popcount (?a OR ?b)) = 3 * K * real (popcount ?a) + 3 * K * real (popcount ?b)"
    by (simp add: distrib_left)
  show ?case
    using Contract.IH(1) [OF leg(1)] Contract.IH(2) [OF leg(2)] le big assms(6) sum
    by (simp add: peak_join_def Let_def)
qed

definition sample_env :: "nat opt_env" where
  "sample_env = \<lparr>disable_pruning = None, nonnull = (\<lambda>_. True)\<rparr>"

definition sample_params :: "(nat, nat) peak_params" where
  "sample_params = \<lparr>idxsz = (\<lambda>_. 2), inner_pow = None, is_volatile_leaf = None, peak_volatile_weight = 1,
     machine_balance = 0, fast_mem_elems = 0, block_tiles = 3, block_prefactor = 1, peak_flops_tolerance = 0,
     perf_first = False, peak_prune = True\<rparr>"

lemma sample_context:
  "(case peak_context sample_env (\<lambda>_. []) sample_params chain_net [1, 4] of Inl _ \<Rightarrow> False
    | Inr c \<Rightarrow> length (ctx_S c) = 8 \<and> length (ctx_L c) = 8 \<and> (\<forall>x\<in>set (ctx_S c). x \<le> 100) \<and> (\<forall>x\<in>set (ctx_L c). x \<le> 100))"
  by code_simp

lemma dbl_max_large: "2 ^ 15 \<le> dbl_max"
proof -
  have "(1 / 2 :: real) ^ 52 \<le> 1" by (rule power_le_one) simp_all
  then have "1 * (2 :: real) ^ 1023 \<le> (2 - (1 / 2) ^ 52) * 2 ^ 1023" by (intro mult_right_mono) simp_all
  moreover have "(2 :: real) ^ 15 \<le> 2 ^ 1023" by (rule power_increasing) simp_all
  ultimately show ?thesis unfolding dbl_max_def by simp
qed

lemma peak_plan_optimal_witness:
  "\<exists>t. run_single_term_opt sample_env (peak_model sample_env (\<lambda>_. []) sample_params) chain_net [1, 4] = Inr (Some (postfix t))
       \<and> whole (outer_product_connectivity None (\<lambda>_. True) chain_net [1, 4] True) 3 t"
proof -
  let ?conn = "outer_product_connectivity None (\<lambda>_. True) chain_net [1, 4] True" and ?P = "\<lambda>_ :: nat. [] :: nat list"
  have hyps: "3 \<le> length chain_net" "length chain_net \<le> 24" "sized ?P (inner_pow sample_params)"
    "\<forall>t\<in>set chain_net. net_kind t \<noteq> PowerOf None" "0 \<le> peak_flops_tolerance sample_params"
    "?conn = outer_product_connectivity (disable_pruning sample_env) (nonnull sample_env) chain_net [1, 4] (peak_prune sample_params)"
    by (simp_all add: sized_def sample_params_def sample_env_def chain_net_def)
  from peak_plan_optimal [OF hyps]
  obtain ctx where ctx: "peak_context sample_env ?P sample_params chain_net [1, 4] = Inr ctx"
    and opt: "(\<forall>t. whole ?conn (length chain_net) t \<longrightarrow> fst (peak_value ?P sample_params ctx t) \<le> dbl_max) \<Longrightarrow>
      \<exists>t. run_single_term_opt sample_env (peak_model sample_env ?P sample_params) chain_net [1, 4] = Inr (Some (postfix t))
          \<and> whole ?conn (length chain_net) t" by blast
  have bound: "fst (peak_value ?P sample_params ctx t) \<le> dbl_max" if "whole ?conn (length chain_net) t" for t
  proof -
    have leg: "legal ?conn 3 t" using that by (simp add: whole_def)
    have "card (bits_of (plan_mask t)) \<le> card {..<3 :: nat}"
      using legal_mask(3) [OF leg] by (intro card_mono) simp_all
    then have pc: "popcount (plan_mask t) \<le> 3" by (simp add: popcount_card)
    have "fst (peak_value ?P sample_params ctx t) \<le> 3 * 100 * real (popcount (plan_mask t))"
      using sample_context ctx by (intro peak_bounded [OF _ _ _ _ _ _ leg]) simp_all
    also have "\<dots> \<le> 2 ^ 15" using pc by simp
    finally show ?thesis using dbl_max_large by linarith
  qed
  show ?thesis using opt bound by simp
qed

section \<open>The peak is the high-water mark of the evaluation\<close>

text \<open>
  The evaluation of a sequence on a stack: the leaves that are still to be loaded are resident, so are the
  operands on the stack, and the result of a contraction before its operands are freed.  The machine keeps
  the stack, the waiting leaves and the largest resident size so far.
\<close>

definition waiting_size :: "(mask \<Rightarrow> real) \<Rightarrow> nat set \<Rightarrow> real" where
  "waiting_size S W = (\<Sum>b\<in>W. S (push_bit b 1))"

definition resident :: "(mask \<Rightarrow> real) \<Rightarrow> mask list \<Rightarrow> nat set \<Rightarrow> real" where
  "resident S stack W = sum_list (map S stack) + waiting_size S W"

fun evaluate :: "(mask \<Rightarrow> real) \<Rightarrow> mask list \<times> nat set \<times> real \<Rightarrow> int list \<Rightarrow> (mask list \<times> nat set \<times> real) option" where
  "evaluate S st [] = Some st"
| "evaluate S (stack, W, h) (tok # toks) =
     (if 0 \<le> tok
      then if nat tok \<in> W
           then let stack' = push_bit (nat tok) 1 # stack; W' = W - {nat tok}
                in evaluate S (stack', W', max h (resident S stack' W')) toks
           else None
      else case stack of
             r # l # rest \<Rightarrow>
               let both = resident S stack W + S (l OR r)
               in evaluate S ((l OR r) # rest, W, max h both) toks
           | _ \<Rightarrow> None)"

text \<open>The peak as the recurrence of the model states it, over the leaves of a plan.\<close>

primrec plan_peak :: "(mask \<Rightarrow> real) \<Rightarrow> plan \<Rightarrow> real" where
  "plan_peak S (Load i) = S (push_bit i 1)"
| "plan_peak S (Contract a b) =
     max (waiting_size S (bits_of (plan_mask b)) + plan_peak S a)
       (max (S (plan_mask a) + plan_peak S b) (S (plan_mask a) + S (plan_mask b) + S (plan_mask a OR plan_mask b)))"

lemma waiting_union: "finite A \<Longrightarrow> finite B \<Longrightarrow> A \<inter> B = {} \<Longrightarrow> waiting_size S (A \<union> B) = waiting_size S A + waiting_size S B"
  by (simp add: waiting_size_def sum.union_disjoint)

lemma evaluate_plan:
  assumes "nt \<le> 64"
  shows "legal conn nt t \<Longrightarrow> finite W \<Longrightarrow> bits_of (plan_mask t) \<subseteq> W \<Longrightarrow>
    evaluate S (stack, W, h) (postfix t @ toks) =
    evaluate S (plan_mask t # stack, W - bits_of (plan_mask t),
                max h (resident S stack (W - bits_of (plan_mask t)) + plan_peak S t)) toks"
proof (induction t arbitrary: stack W h toks)
  case (Load i)
  then have i: "i < 64" using assms by simp
  have "i \<in> W" using Load.prems(3) unfolding plan_mask.simps bits_of_one [OF i] by simp
  then show ?case unfolding plan_mask.simps bits_of_one [OF i]
    by (simp add: Let_def resident_def add.commute add.left_commute del: push_bit_of_1)
next
  case (Contract a b)
  let ?A = "bits_of (plan_mask a)" and ?B = "bits_of (plan_mask b)"
  have leg: "legal conn nt a" "legal conn nt b" and dis: "?A \<inter> ?B = {}"
    using Contract.prems(1) by (auto simp: bits_of_disjoint simp del: bits_of_iff)
  have sub: "?A \<subseteq> W" "?B \<subseteq> W - ?A" using Contract.prems(3) dis by (auto simp: bits_of_or simp del: bits_of_iff)
  let ?W = "W - ?A - ?B"
  have W: "W - bits_of (plan_mask a OR plan_mask b) = ?W" by (auto simp: bits_of_or simp del: bits_of_iff)
  have split: "W - ?A = ?W \<union> ?B" using sub(2) by auto
  have wa: "waiting_size S (W - ?A) = waiting_size S ?W + waiting_size S ?B"
    using waiting_union [of ?W ?B] Contract.prems(2) unfolding split [symmetric] by auto
  have "evaluate S (stack, W, h) (postfix (Contract a b) @ toks) =
      evaluate S (plan_mask a # stack, W - ?A, max h (resident S stack (W - ?A) + plan_peak S a)) (postfix b @ [-1] @ toks)"
    using Contract.IH(1) [OF leg(1) Contract.prems(2) sub(1)] by simp
  also have "\<dots> = evaluate S (plan_mask b # plan_mask a # stack, ?W,
      max (max h (resident S stack (W - ?A) + plan_peak S a)) (resident S (plan_mask a # stack) ?W + plan_peak S b)) ([-1] @ toks)"
    by (rule Contract.IH(2) [OF leg(2) _ sub(2)]) (use Contract.prems(2) in simp)
  also have "\<dots> = evaluate S ((plan_mask a OR plan_mask b) # stack, ?W,
      max (max (max h (resident S stack (W - ?A) + plan_peak S a)) (resident S (plan_mask a # stack) ?W + plan_peak S b))
        (resident S (plan_mask b # plan_mask a # stack) ?W + S (plan_mask a OR plan_mask b))) toks"
    by (simp add: Let_def)
  also have "max (max (max h (resident S stack (W - ?A) + plan_peak S a)) (resident S (plan_mask a # stack) ?W + plan_peak S b))
        (resident S (plan_mask b # plan_mask a # stack) ?W + S (plan_mask a OR plan_mask b))
      = max h (resident S stack ?W + plan_peak S (Contract a b))"
    by (simp add: resident_def wa max_add_distrib_right max.assoc add.commute add.left_commute)
  finally show ?case by (simp add: W)
qed

lemma leaf_sum_bits:
  assumes "nt \<le> 64" "bits_of m \<subseteq> {..<nt}"
  shows "leaf_sum nt S (unat m) = waiting_size (\<lambda>m. S ! unat m) (bits_of m)"
proof -
  have one: "unat (push_bit b 1 :: mask) = push_bit b 1" if "b < 64" for b
  proof -
    have "unat (push_bit b 1 :: mask) = unat (of_nat (2 ^ b) :: mask)" by simp
    also have "\<dots> = 2 ^ b" using power_strict_increasing [OF that, of "2 :: nat"] by (intro unat_of_small) simp
    finally show ?thesis by simp
  qed
  have "foldl (\<lambda>s b. if bit (unat m) b then s + S ! (push_bit b 1) else s) 0 [0..<k]
      = (\<Sum>b\<in>{b. b < k \<and> bit m b}. S ! unat (push_bit b 1 :: mask))" if "k \<le> nt" for k
    using that
  proof (induction k)
    case (Suc k)
    have "{b. b < Suc k \<and> bit m b} = (if bit m k then insert k {b. b < k \<and> bit m b} else {b. b < k \<and> bit m b})"
      by (auto simp: less_Suc_eq)
    then show ?case using Suc assms(1) one [of k] by (simp add: bit_unsigned_iff del: push_bit_of_1)
  qed simp
  moreover have "{b. b < nt \<and> bit m b} = bits_of m" using assms(2) by auto
  ultimately show ?thesis by (simp add: leaf_sum_def waiting_size_def)
qed

lemma peak_value_plan_peak:
  assumes "nt \<le> 64" "ctx_L ctx = map (leaf_sum nt (ctx_S ctx)) [0..<2 ^ nt]"
  shows "legal conn nt t \<Longrightarrow> fst (peak_value protos p ctx t) = plan_peak (\<lambda>m. ctx_S ctx ! unat m) t"
proof (induction t)
  case (Contract a b)
  have "legal conn nt b" using Contract.prems by simp
  from legal_mask [OF this assms(1)]
  have "ctx_L ctx ! unat (plan_mask b) = waiting_size (\<lambda>m. ctx_S ctx ! unat m) (bits_of (plan_mask b))"
    using leaf_sum_bits [OF assms(1)] assms(2) by simp
  then show ?case using Contract by (simp add: peak_join_def Let_def)
qed simp

lemma context_sizes:
  assumes "peak_context env protos p net tidxs = Inr ctx" "sized protos (inner_pow p)"
  shows "ctx_L ctx = map (leaf_sum (length net) (ctx_S ctx)) [0..<2 ^ length net]
    \<and> length (ctx_S ctx) = 2 ^ length net \<and> (\<forall>y\<in>set (ctx_S ctx). 0 \<le> y)"
proof -
  let ?nt = "length net"
  let ?conn = "outer_product_connectivity (disable_pruning env) (nonnull env) net tidxs (peak_prune p)"
  obtain rs :: "'a opt_res list" and S vm where S: "map_res (\<lambda>n. if n = 0 \<or> \<not> ?conn ! n then Inr 0
      else footprint_counter protos (\<lambda>ix. Inr (idxsz p ix)) (inner_pow p) (res_indices (rs ! n))) [0..<2 ^ ?nt] = Inr S"
    and "(Inr \<lparr>ctx_S = S, ctx_L = map (leaf_sum ?nt S) [0..<2 ^ ?nt], ctx_idx = map res_indices rs, ctx_volatile = vm\<rparr> :: (opt_error, _) result) = Inr ctx"
    using assms(1) unfolding peak_context_def Let_def bind_res_Inr by blast
  then have ctx: "\<lparr>ctx_S = S, ctx_L = map (leaf_sum ?nt S) [0..<2 ^ ?nt], ctx_idx = map res_indices rs, ctx_volatile = vm\<rparr> = ctx"
    by (simp only: sum.inject)
  have L: "ctx_L ctx = map (leaf_sum ?nt (ctx_S ctx)) [0..<2 ^ ?nt]" and SS: "S = ctx_S ctx" unfolding ctx [symmetric] by simp_all
  have "\<exists>ys. map_res (\<lambda>n. if n = 0 \<or> \<not> ?conn ! n then Inr 0
      else footprint_counter protos (\<lambda>ix. Inr (idxsz p ix)) (inner_pow p) (res_indices (rs ! n))) [0..<2 ^ ?nt] = Inr ys
      \<and> length ys = length [0..<2 ^ ?nt :: nat] \<and> (\<forall>y\<in>set ys. 0 \<le> y)"
    by (rule map_res_total) (use footprint_total [OF assms(2)] in simp)
  then show ?thesis using S SS L by auto
qed

lemma plan_high_water:
  assumes "legal conn nt t" "nt \<le> 64" "ctx_L ctx = map (leaf_sum nt (ctx_S ctx)) [0..<2 ^ nt]"
    and "length (ctx_S ctx) = 2 ^ nt" "\<forall>y\<in>set (ctx_S ctx). 0 \<le> y"
  shows "evaluate (\<lambda>m. ctx_S ctx ! unat m) ([], bits_of (plan_mask t), 0) (postfix t)
         = Some ([plan_mask t], {}, fst (peak_value protos p ctx t))"
proof -
  let ?S = "\<lambda>m :: mask. ctx_S ctx ! unat m"
  have "0 \<le> plan_peak ?S t"
    using assms(1) legal_mask(2) [OF _ assms(2)] legal_mask(2) [OF assms(1,2)] assms(4,5)
    by (cases t) (auto simp: le_max_iff_disj simp del: push_bit_of_1)
  moreover have "evaluate ?S ([], bits_of (plan_mask t), 0) (postfix t @ [])
      = evaluate ?S ([plan_mask t], {}, max 0 (resident ?S [] {} + plan_peak ?S t)) []"
    using evaluate_plan [OF assms(2,1), of "bits_of (plan_mask t)" ?S "[]" 0 "[]"] by simp
  ultimately show ?thesis
    using peak_value_plan_peak [OF assms(2,3,1), of protos p] by (simp add: resident_def waiting_size_def)
qed

text \<open>
  C30: the peak that the dynamic program records is the memory that the evaluation takes.  The table is always
  filled, and for every connected mask: its frontier is not empty; for every point of it, whatever splits and
  children it was joined from, the sequence rebuilt from its back-pointers runs on the stack without getting stuck,
  ends with the result of the mask alone, and the largest total size of the waiting leaves, the stack and a result
  being formed is the peak stored in that point; and no legal plan of the mask takes less memory than the points
  of the frontier all do.
\<close>

theorem peak_is_high_water:
  fixes net :: "('i::linorder, 't) net_tensor list" and p :: "('i, 't) peak_params"
  assumes "length net \<le> 24" "sized protos (inner_pow p)"
    and "conn = outer_product_connectivity (disable_pruning env) (nonnull env) net tidxs (peak_prune p)"
    and "peak_context env protos p net tidxs = Inr ctx"
  shows "\<exists>st. solve_single_term env (peak_model env protos p) net tidxs ctx = Inr (ctx, st)
    \<and> (\<forall>n. n \<noteq> 0 \<longrightarrow> unat n < 2 ^ length net \<longrightarrow> conn ! unat n \<longrightarrow>
         st ! unat n \<noteq> []
         \<and> (\<forall>i < length (st ! unat n). \<exists>seq. build_sequence st n (int i) = Some seq
              \<and> evaluate (\<lambda>m. ctx_S ctx ! unat m) ([], bits_of n, 0) seq = Some ([n], {}, peak (st ! unat n ! i)))
         \<and> (\<forall>t. legal conn (length net) t \<longrightarrow> plan_mask t = n \<longrightarrow>
              (\<exists>w. evaluate (\<lambda>m. ctx_S ctx ! unat m) ([], bits_of n, 0) (postfix t) = Some ([n], {}, w)
                 \<and> (\<exists>e\<in>set (st ! unat n). peak e \<le> w))))"
proof -
  have nt: "length net \<le> 64" using assms(1) by simp
  obtain st where st: "solve_single_term env (peak_model env protos p) net tidxs ctx = Inr (ctx, st)"
    and ok: "table_ok (peak_model env protos p) conn ctx st (2 ^ length net)"
    using peak_driver [OF nt assms(2,3)] by blast
  note sizes = context_sizes [OF assms(4,2)]
  have high: "evaluate (\<lambda>m. ctx_S ctx ! unat m) ([], bits_of (plan_mask t), 0) (postfix t)
      = Some ([plan_mask t], {}, fst (peak_value protos p ctx t))" if "legal conn (length net) t" for t
    using plan_high_water [OF that nt] sizes by blast
  have points: "\<exists>seq. build_sequence st n (int i) = Some seq
      \<and> evaluate (\<lambda>m. ctx_S ctx ! unat m) ([], bits_of n, 0) seq = Some ([n], {}, peak (st ! unat n ! i))"
    if h: "n \<noteq> 0" "unat n < 2 ^ length net" "conn ! unat n" "i < length (st ! unat n)" for n i
  proof -
    obtain t where "legal conn (length net) t" "plan_mask t = n" "build_sequence st n (int i) = Some (postfix t)"
      "peak_value protos p ctx t = (peak (st ! unat n ! i), flops (st ! unat n ! i))"
      using peak_attained [OF refl nt ok h] by blast
    then show ?thesis using high [of t] by simp
  qed
  have below: "\<exists>e\<in>set (st ! unat (plan_mask t)). peak e \<le> fst (peak_value protos p ctx t)"
    if "legal conn (length net) t" for t
  proof -
    have "conn ! unat (push_bit i 1 :: mask)" if "i < length net" for i
      unfolding assms(3) by (rule conn_single [OF nt that])
    then show ?thesis using peak.table_covers [OF ok nt _ that] by (auto simp: covers_def)
  qed
  have "st ! unat n \<noteq> []" if "n \<noteq> 0" "unat n < 2 ^ length net" "conn ! unat n" for n :: mask
    using connected_has_plan [OF assms(3) nt that(2,1,3)] below by fastforce
  with st points below high show ?thesis by blast
qed

lemma peak_is_high_water_witness:
  "\<exists>ctx st seq. peak_context sample_env (\<lambda>_. []) sample_params chain_net [1, 4] = Inr ctx
     \<and> solve_single_term sample_env (peak_model sample_env (\<lambda>_. []) sample_params) chain_net [1, 4] ctx = Inr (ctx, st)
     \<and> build_sequence st 7 0 = Some seq
     \<and> evaluate (\<lambda>m. ctx_S ctx ! unat m) ([], bits_of 7, 0) seq = Some ([7], {}, peak (st ! 7 ! 0))"
proof -
  let ?conn = "outer_product_connectivity None (\<lambda>_. True) chain_net [1, 4] True" and ?P = "\<lambda>_ :: nat. [] :: nat list"
  have hyps: "length chain_net \<le> 24" "sized ?P (inner_pow sample_params)"
    "?conn = outer_product_connectivity (disable_pruning sample_env) (nonnull sample_env) chain_net [1, 4] (peak_prune sample_params)"
    by (simp_all add: sized_def sample_params_def sample_env_def chain_net_def)
  obtain ctx where ctx: "peak_context sample_env ?P sample_params chain_net [1, 4] = Inr ctx"
    using sample_context by (auto split: sum.splits)
  let ?S = "\<lambda>m :: mask. ctx_S ctx ! unat m"
  from peak_is_high_water [OF hyps ctx]
  obtain st where st: "solve_single_term sample_env (peak_model sample_env ?P sample_params) chain_net [1, 4] ctx = Inr (ctx, st)"
    and all: "\<forall>n. n \<noteq> 0 \<longrightarrow> unat n < 2 ^ length chain_net \<longrightarrow> ?conn ! unat n \<longrightarrow>
         st ! unat n \<noteq> []
         \<and> (\<forall>i < length (st ! unat n). \<exists>seq. build_sequence st n (int i) = Some seq
              \<and> evaluate ?S ([], bits_of n, 0) seq = Some ([n], {}, peak (st ! unat n ! i)))
         \<and> (\<forall>t. legal ?conn (length chain_net) t \<longrightarrow> plan_mask t = n \<longrightarrow>
              (\<exists>w. evaluate ?S ([], bits_of n, 0) (postfix t) = Some ([n], {}, w) \<and> (\<exists>e\<in>set (st ! unat n). peak e \<le> w)))"
    by blast
  have seven: "unat (7 :: mask) = 7" by simp
  have "7 \<noteq> (0 :: mask)" "unat (7 :: mask) < 2 ^ length chain_net" by (simp_all add: chain_net_def)
  moreover have "?conn ! unat (7 :: mask)" by code_simp
  ultimately have "st ! 7 \<noteq> [] \<and> (\<forall>i < length (st ! 7). \<exists>seq. build_sequence st 7 (int i) = Some seq
      \<and> evaluate ?S ([], bits_of 7, 0) seq = Some ([7], {}, peak (st ! 7 ! i)))"
    using all [rule_format, of 7] unfolding seven by blast
  then have ne: "st ! 7 \<noteq> []" and hw: "\<forall>i < length (st ! 7). \<exists>seq. build_sequence st 7 (int i) = Some seq
      \<and> evaluate ?S ([], bits_of 7, 0) seq = Some ([7], {}, peak (st ! 7 ! i))" by (rule conjunct1, rule conjunct2)
  have "0 < length (st ! 7)" using ne by simp
  with hw obtain seq where "build_sequence st 7 (int 0) = Some seq"
    "evaluate (\<lambda>m. ctx_S ctx ! unat m) ([], bits_of 7, 0) seq = Some ([7], {}, peak (st ! 7 ! 0))"
    by blast
  then show ?thesis using ctx st by auto
qed

end
