(* ===== verification/SingleTermOpt.thy ===== *)
theory SingleTermOpt
  imports PeakModel
begin

text \<open>
  SeQuant/core/optimize/single_term.hpp: the single-term optimizer under each objective.  The batched
  objectives are not modelled; of \<open>CostParams\<close> the fields the other objectives read are.
\<close>

section \<open>The objectives\<close>

datatype objective_function =
  DenseFLOPs | DenseSize | DenseSpaceTime | DenseSpaceTimeBatched | DenseTimeSpace | DenseTimeSpaceBatched

record roofline_params =
  rl_machine_balance :: real
  rl_fast_mem_elems :: real
  rl_block_tiles :: real
  rl_block_prefactor :: real

record ('i, 't) cost_params =
  cp_is_volatile_leaf :: "('t \<Rightarrow> bool) option"
  cp_volatile_weight :: real
  cp_footprint_weight :: real
  cp_peak_flops_tolerance :: real
  cp_roofline :: roofline_params
  cp_prune_outer_products :: bool
  cp_inner_pow :: "('i \<Rightarrow> nat \<Rightarrow> real) option"

definition flops_params ::
    "('i::linorder \<Rightarrow> 'i list) \<Rightarrow> ('i \<Rightarrow> nat) \<Rightarrow> bool \<Rightarrow> (nat list \<Rightarrow> 'm) \<Rightarrow> ('i, 't) cost_params \<Rightarrow> mask \<Rightarrow> real \<Rightarrow> ('i, 'm) additive_params" where
  "flops_params protos ixsz cse canon cost vm nr =
     \<lparr>cost_fn = flops_counter protos (\<lambda>ix. Inr (ixsz ix)) (cp_inner_pow cost),
      footprint_fn = footprint_counter protos (\<lambda>ix. Inr (ixsz ix)) (cp_inner_pow cost),
      volatile_mask = vm, volatile_weight = nr, footprint_weight = cp_footprint_weight cost,
      subnet_cse = cse, canonical = canon, additive_prune = cp_prune_outer_products cost\<rparr>"

definition flops_volatility :: "('i, 't) net_tensor list \<Rightarrow> ('i, 't) cost_params \<Rightarrow> (opt_error, mask \<times> real) result" where
  "flops_volatility net cost =
     (if cp_is_volatile_leaf cost \<noteq> None \<and> cp_volatile_weight cost > 1
      then bind_res (leaf_volatile_mask net (cp_is_volatile_leaf cost)) (\<lambda>vm. Inr (vm, cp_volatile_weight cost))
      else Inr (0, 1))"

definition single_term_flops ::
    "'i::linorder opt_env \<Rightarrow> ('i \<Rightarrow> 'i list) \<Rightarrow> ('i, 't) net_tensor list \<Rightarrow> 'i list \<Rightarrow> ('i \<Rightarrow> nat) \<Rightarrow> bool \<Rightarrow> (nat list \<Rightarrow> 'm)
       \<Rightarrow> ('i, 't) cost_params \<Rightarrow> (opt_error, int list option) result" where
  "single_term_flops env protos net tidxs ixsz cse canon cost =
     bind_res (flops_volatility net cost) (\<lambda>(vm, nr).
       run_single_term_opt env (additive_model env protos (flops_params protos ixsz cse canon cost vm nr)) net tidxs)"

definition size_params ::
    "('i::linorder \<Rightarrow> 'i list) \<Rightarrow> ('i \<Rightarrow> nat) \<Rightarrow> bool \<Rightarrow> (nat list \<Rightarrow> 'm) \<Rightarrow> ('i, 't) cost_params \<Rightarrow> ('i, 'm) additive_params" where
  "size_params protos ixsz cse canon cost =
     \<lparr>cost_fn = memsize_counter protos (\<lambda>ix. Inr (ixsz ix)) (cp_inner_pow cost),
      footprint_fn = footprint_counter protos (\<lambda>ix. Inr (ixsz ix)) (cp_inner_pow cost),
      volatile_mask = 0, volatile_weight = 1, footprint_weight = cp_footprint_weight cost,
      subnet_cse = cse, canonical = canon, additive_prune = cp_prune_outer_products cost\<rparr>"

definition single_term_size ::
    "'i::linorder opt_env \<Rightarrow> ('i \<Rightarrow> 'i list) \<Rightarrow> ('i, 't) net_tensor list \<Rightarrow> 'i list \<Rightarrow> ('i \<Rightarrow> nat) \<Rightarrow> bool \<Rightarrow> (nat list \<Rightarrow> 'm)
       \<Rightarrow> ('i, 't) cost_params \<Rightarrow> (opt_error, int list option) result" where
  "single_term_size env protos net tidxs ixsz cse canon cost =
     run_single_term_opt env (additive_model env protos (size_params protos ixsz cse canon cost)) net tidxs"

definition peak_of_cost :: "('i \<Rightarrow> nat) \<Rightarrow> bool \<Rightarrow> ('i, 't) cost_params \<Rightarrow> ('i, 't) peak_params" where
  "peak_of_cost ixsz time_first cost =
     \<lparr>idxsz = ixsz, inner_pow = cp_inner_pow cost, is_volatile_leaf = cp_is_volatile_leaf cost,
      peak_volatile_weight = cp_volatile_weight cost, machine_balance = rl_machine_balance (cp_roofline cost),
      fast_mem_elems = rl_fast_mem_elems (cp_roofline cost), block_tiles = rl_block_tiles (cp_roofline cost),
      block_prefactor = rl_block_prefactor (cp_roofline cost), peak_flops_tolerance = cp_peak_flops_tolerance cost,
      perf_first = time_first, peak_prune = cp_prune_outer_products cost\<rparr>"

text \<open>\<open>DenseTimeSpace\<close> if \<open>time_first\<close>, else \<open>DenseSpaceTime\<close>.\<close>

definition single_term_peak ::
    "'i::linorder opt_env \<Rightarrow> ('i \<Rightarrow> 'i list) \<Rightarrow> ('i, 't) net_tensor list \<Rightarrow> 'i list \<Rightarrow> ('i \<Rightarrow> nat) \<Rightarrow> bool \<Rightarrow> bool
       \<Rightarrow> ('i, 't) cost_params \<Rightarrow> (opt_error, int list option) result" where
  "single_term_peak env protos net tidxs ixsz cse time_first cost =
     (if cse then Inl CseUnsupported
      else run_single_term_opt env (peak_model env protos (peak_of_cost ixsz time_first cost)) net tidxs)"

section \<open>The optimum of the additive objectives\<close>

lemma additive_context_total:
  assumes "length net \<le> 24" "\<not> subnet_cse a"
  shows "\<exists>ctx. additive_context env protos a net tidxs = Inr ctx"
proof -
  let ?conn = "outer_product_connectivity (disable_pruning env) (nonnull env) net tidxs (additive_prune a)"
  obtain rs where "init_results protos net tidxs (replicate (2 ^ length net) no_res) (Some ?conn) = Inr rs"
    using init_results_total [OF assms(1)] by blast
  then show ?thesis using assms(2) by (simp add: additive_context_def Let_def)
qed

definition cost_total :: "('i, 'm) additive_params \<Rightarrow> bool" where
  "cost_total a \<longleftrightarrow> (\<forall>l r n. \<exists>v. cost_fn a l r n = Inr v) \<and> (\<forall>n. \<exists>v. footprint_fn a n = Inr v)"

lemma split_cost_total:
  assumes "cost_total a"
  shows "\<exists>c. split_cost a ctx n lp rp = Inr c"
proof -
  obtain f where f: "footprint_fn a (open_of ctx n) = Inr f" using assms unfolding cost_total_def by metis
  obtain c where c: "cost_fn a (open_of ctx lp) (open_of ctx rp) (open_of ctx n) = Inr c"
    using assms unfolding cost_total_def by metis
  show ?thesis using f c by (simp add: split_cost_def Let_def)
qed

lemma additive_driver:
  fixes net :: "('i, 't) net_tensor list" and a :: "('i, 'm) additive_params" and protos
  assumes "length net \<le> 64" "symmetric_cost a" "cost_total a" "\<not> subnet_cse a"
    and conn_def: "conn = outer_product_connectivity (disable_pruning env) (nonnull env) net tidxs (additive_prune a)"
  defines "M \<equiv> additive_model env protos a :: ('i, 't, 'i additive_ctx, additive_state) cost_model"
  shows "\<exists>st. solve_single_term env M net tidxs ctx = Inr (ctx, st) \<and> length st = 2 ^ length net
    \<and> table_ok M conn ctx st (2 ^ length net)"
proof -
  have fin: "finalize M c n st = Inr (c, st)" for c n st
    unfolding M_def by (rule optimal_substructure.finalize_id [OF additive_substructure [OF assms(2,4)]])
  have "\<exists>st. solve_single_term env M net tidxs ctx = Inr (ctx, st)"
  proof (rule solve_total)
    fix lp rp :: mask and l r acc
    obtain c where "split_cost a ctx (lp OR rp) lp rp = Inr c" using split_cost_total [OF assms(3)] by blast
    then show "\<exists>acc'. relax M ctx (lp OR rp) lp rp l r acc = Inr acc'"
      by (simp add: M_def additive_model_def additive_relax_def Let_def)
  qed (rule fin)
  then obtain st where st: "solve_single_term env M net tidxs ctx = Inr (ctx, st)" by blast
  have "model_conn env M net tidxs = conn" by (simp add: M_def model_conn_def conn_def additive_model_def)
  then show ?thesis using st solve_table [OF fin assms(1) st] by simp
qed

lemma additive_optimal:
  fixes net :: "('i, 't) net_tensor list" and a :: "('i, 'm) additive_params"
  assumes "3 \<le> length net" "length net \<le> 24" "symmetric_cost a" "cost_total a" "\<not> subnet_cse a"
    and "conn = outer_product_connectivity (disable_pruning env) (nonnull env) net tidxs (additive_prune a)"
  shows "\<exists>ctx. additive_context env protos a net tidxs = Inr ctx
    \<and> ((\<forall>t. legal conn (length net) t \<longrightarrow> additive_cost a ctx t < dbl_max) \<longrightarrow>
       (\<exists>t. run_single_term_opt env (additive_model env protos a) net tidxs = Inr (Some (postfix t))
          \<and> whole conn (length net) t \<and> leaf_ordered t
          \<and> (\<forall>t'. whole conn (length net) t' \<longrightarrow> additive_cost a ctx t \<le> additive_cost a ctx t')))"
proof -
  let ?nt = "length net" and ?W = "whole conn (length net)"
  let ?M = "additive_model env protos a :: ('i, 't, 'i additive_ctx, additive_state) cost_model"
  note conn_def = assms(6)
  define full where "full = (of_nat (2 ^ ?nt - 1) :: mask)"
  have nt: "?nt \<le> 64" using assms(2) by simp
  obtain ctx where ctx: "additive_context env protos a net tidxs = Inr ctx"
    using additive_context_total [OF assms(2,5)] by blast
  obtain st where st: "solve_single_term env ?M net tidxs ctx = Inr (ctx, st)" "length st = 2 ^ ?nt"
    and ok: "table_ok ?M conn ctx st (2 ^ ?nt)"
    using additive_driver [OF nt assms(3,4,5) conn_def] by metis
  have unat_full: "unat full = 2 ^ ?nt - 1" unfolding full_def by (rule full_mask [OF nt])
  have bits: "bits_of full = {..<?nt}" unfolding full_def by (rule full_mask_bits [OF nt])
  have whole: "?W t \<longleftrightarrow> legal conn ?nt t \<and> plan_mask t = full" for t
    unfolding whole_def using bits bits_of_inj by metis
  have "0 \<in> bits_of full" unfolding bits lessThan_iff using assms(1) by linarith
  then have full0: "full \<noteq> 0" by auto
  have full_lt: "unat full < 2 ^ ?nt" unfolding unat_full by simp
  have full_conn: "conn ! unat full"
    unfolding conn_def connectivity_nth [OF nt full_lt] of_nat_unat_mask bits by (simp add: pruned_def)
  have single: "conn ! unat (push_bit i 1 :: mask)" if "i < ?nt" for i
    unfolding conn_def by (rule conn_single [OF nt that])
  have cov: "ops (st ! unat full) \<le> additive_cost a ctx t" if "?W t" for t
    using optimal_substructure.table_covers [OF additive_substructure [OF assms(3,5)] ok nt single, of t] that whole by simp
  have run: "run_single_term_opt env ?M net tidxs = Inr (additive_reconstruct ctx st)"
    using assms(1) ctx st(1) by (simp add: run_single_term_opt_def additive_model_def)
  have "sequences st (length st) \<noteq> []" using st(2) by (metis sequences_length length_0_conv power_not_zero zero_neq_numeral)
  then have rec: "additive_reconstruct ctx st = Some (sequences st (length st) ! unat full)"
    unfolding additive_reconstruct_def sequences_def [symmetric] using st(2) unat_full by (simp add: last_conv_nth)
  show ?thesis
  proof (intro exI [of _ ctx] conjI impI ctx)
    assume bound: "\<forall>t. legal conn ?nt t \<longrightarrow> additive_cost a ctx t < dbl_max"
    obtain t where "legal conn ?nt t" "plan_mask t = full" "leaf_ordered t"
      "additive_cost a ctx t = ops (st ! unat full)" "sequences st (length st) ! unat full = postfix t"
      using additive_attained [OF refl conn_def assms(3,5) nt ok st(2) bound full0 full_lt full_conn] by blast
    then show "\<exists>t. run_single_term_opt env ?M net tidxs = Inr (Some (postfix t)) \<and> ?W t \<and> leaf_ordered t
          \<and> (\<forall>t'. ?W t' \<longrightarrow> additive_cost a ctx t \<le> additive_cost a ctx t')"
      using run rec cov whole by (intro exI [of _ t]) auto
  qed
qed

lemma symmetric_arms:
  assumes "sized protos (cp_inner_pow cost)"
  shows "symmetric_cost (flops_params protos ixsz cse canon cost vm nr)" "cost_total (flops_params protos ixsz cse canon cost vm nr)"
    and "symmetric_cost (size_params protos ixsz cse canon cost)" "cost_total (size_params protos ixsz cse canon cost)"
proof -
  have fp: "\<exists>v. footprint_counter protos (\<lambda>ix. Inr (ixsz ix)) (cp_inner_pow cost) n = Inr v" for n
    using footprint_total [OF assms] by blast
  show "symmetric_cost (flops_params protos ixsz cse canon cost vm nr)" "cost_total (flops_params protos ixsz cse canon cost vm nr)"
    using flops_symmetric flops_total [OF assms] fp by (auto simp: symmetric_cost_def cost_total_def flops_params_def)
  show "symmetric_cost (size_params protos ixsz cse canon cost)" "cost_total (size_params protos ixsz cse canon cost)"
    using memsize_symmetric memsize_total [OF assms] fp by (auto simp: symmetric_cost_def cost_total_def size_params_def)
qed

abbreviation best_plan ::
    "bool list \<Rightarrow> nat \<Rightarrow> (plan \<Rightarrow> real) \<Rightarrow> (opt_error, int list option) result \<Rightarrow> bool" where
  "best_plan conn nt cost r \<equiv>
     (\<exists>t. r = Inr (Some (postfix t)) \<and> whole conn nt t \<and> leaf_ordered t \<and> (\<forall>t'. whole conn nt t' \<longrightarrow> cost t \<le> cost t'))"

text \<open>C2: Without subnetwork recognition, \<open>single_term_opt\<close> under \<open>DenseFLOPs\<close> and under \<open>DenseSize\<close> returns, on a network of 3 to 24
  tensors whose extents are known and whose costs are below the largest double, the postfix form of a plan
  over the whole network that has the least total cost among the plans with connected intermediates and
  that at every contraction evaluates the operand with the earlier first tensor first.\<close>
theorem additive_plan_optimal:
  fixes net :: "('i::linorder, 't) net_tensor list" and cost :: "('i, 't) cost_params"
  assumes "3 \<le> length net" "length net \<le> 24" "sized protos (cp_inner_pow cost)" "\<forall>t\<in>set net. net_kind t \<noteq> PowerOf None"
    and "conn = outer_product_connectivity (disable_pruning env) (nonnull env) net tidxs (cp_prune_outer_products cost)"
  shows "\<exists>vm nr F S. flops_volatility net cost = Inr (vm, nr)
    \<and> additive_context env protos (flops_params protos ixsz False canon cost vm nr) net tidxs = Inr F
    \<and> additive_context env protos (size_params protos ixsz False canon cost) net tidxs = Inr S
    \<and> ((\<forall>t. legal conn (length net) t \<longrightarrow> additive_cost (flops_params protos ixsz False canon cost vm nr) F t < dbl_max) \<longrightarrow>
        best_plan conn (length net) (additive_cost (flops_params protos ixsz False canon cost vm nr) F)
          (single_term_flops env protos net tidxs ixsz False canon cost))
    \<and> ((\<forall>t. legal conn (length net) t \<longrightarrow> additive_cost (size_params protos ixsz False canon cost) S t < dbl_max) \<longrightarrow>
        best_plan conn (length net) (additive_cost (size_params protos ixsz False canon cost) S)
          (single_term_size env protos net tidxs ixsz False canon cost))"
proof -
  have "\<exists>v. flops_volatility net cost = Inr v"
    using volatile_mask_total [OF assms(4), of "cp_is_volatile_leaf cost"] by (auto simp: flops_volatility_def)
  then obtain vm nr where v: "flops_volatility net cost = Inr (vm, nr)" by (metis surj_pair)
  let ?F = "flops_params protos ixsz False canon cost vm nr" and ?S = "size_params protos ixsz False canon cost"
  note arms = symmetric_arms [OF assms(3)]
  have "\<not> subnet_cse ?F" "\<not> subnet_cse ?S" by (simp_all add: flops_params_def size_params_def)
  moreover have "conn = outer_product_connectivity (disable_pruning env) (nonnull env) net tidxs (additive_prune ?F)"
    "conn = outer_product_connectivity (disable_pruning env) (nonnull env) net tidxs (additive_prune ?S)"
    using assms(5) by (simp_all add: flops_params_def size_params_def)
  ultimately obtain F S where FS: "additive_context env protos ?F net tidxs = Inr F" "additive_context env protos ?S net tidxs = Inr S"
    and optF: "(\<forall>t. legal conn (length net) t \<longrightarrow> additive_cost ?F F t < dbl_max) \<Longrightarrow>
      best_plan conn (length net) (additive_cost ?F F) (run_single_term_opt env (additive_model env protos ?F) net tidxs)"
    and optS: "(\<forall>t. legal conn (length net) t \<longrightarrow> additive_cost ?S S t < dbl_max) \<Longrightarrow>
      best_plan conn (length net) (additive_cost ?S S) (run_single_term_opt env (additive_model env protos ?S) net tidxs)"
    using additive_optimal [OF assms(1,2) arms(1,2)] additive_optimal [OF assms(1,2) arms(3,4)] by metis
  have "single_term_flops env protos net tidxs ixsz False canon cost
      = run_single_term_opt env (additive_model env protos ?F) net tidxs"
    by (simp add: single_term_flops_def v)
  then show ?thesis
    using v FS optF optS unfolding single_term_size_def by (intro exI [of _ vm] exI [of _ nr] exI [of _ F] exI [of _ S]) simp
qed

lemma additive_bounded:
  assumes "nt \<le> 64" "\<And>lp rp. unat lp < 2 ^ nt \<Longrightarrow> unat rp < 2 ^ nt \<Longrightarrow> lp AND rp = 0 \<Longrightarrow> lp \<noteq> 0 \<Longrightarrow> rp \<noteq> 0 \<Longrightarrow> cost_value (split_cost a ctx (lp OR rp) lp rp) \<le> K" "0 \<le> K"
  shows "legal conn nt t \<Longrightarrow> additive_cost a ctx t \<le> K * (real (popcount (plan_mask t)) - 1)"
proof (induction t)
  case (Load i)
  then have "1 \<le> real (popcount (plan_mask (Load i)))"
    using legal_mask(1) [OF Load assms(1)] popcount_pos [of "plan_mask (Load i)"] by (simp add: Suc_le_eq del: plan_mask.simps)
  then show ?case using assms(3) by (simp del: push_bit_of_1)
next
  case (Contract x y)
  let ?a = "plan_mask x" and ?b = "plan_mask y"
  have leg: "legal conn nt x" "legal conn nt y" "?a AND ?b = 0" using Contract.prems by auto
  have "cost_value (split_cost a ctx (?a OR ?b) ?a ?b) \<le> K"
    using assms(2) legal_mask(1,2) [OF leg(1) assms(1)] legal_mask(1,2) [OF leg(2) assms(1)] leg(3) by blast
  moreover have "real (popcount (?a OR ?b)) = real (popcount ?a) + real (popcount ?b)" using popcount_disjoint [OF leg(3)] by simp
  ultimately show ?case using Contract.IH leg by (simp add: additive_join_def algebra_simps)
qed

definition sample_cost :: "(nat, nat) cost_params" where
  "sample_cost = \<lparr>cp_is_volatile_leaf = Some (\<lambda>t. t = 0), cp_volatile_weight = 2, cp_footprint_weight = 1,
     cp_peak_flops_tolerance = 0,
     cp_roofline = \<lparr>rl_machine_balance = 0, rl_fast_mem_elems = 0, rl_block_tiles = 3, rl_block_prefactor = 1\<rparr>,
     cp_prune_outer_products = True, cp_inner_pow = None\<rparr>"

abbreviation sample_flops :: "mask \<Rightarrow> real \<Rightarrow> (nat, nat) additive_params" where
  "sample_flops \<equiv> flops_params (\<lambda>_. []) (\<lambda>_. 2) False (\<lambda>_. 0) sample_cost"

lemma sample_volatility: "flops_volatility chain_net sample_cost = Inr (7, 2)"
  by code_simp

lemma sample_opt_context:
  "(case additive_context sample_env (\<lambda>_. []) (sample_flops 7 2) chain_net [1, 4] of Inl _ \<Rightarrow> False
    | Inr c \<Rightarrow> map res_indices (results c) = [{}, {1, 2}, {2, 3}, {1, 3}, {3, 4}, {}, {2, 4}, {1, 4}])"
  by code_simp

definition sample_open :: "nat set list" where
  "sample_open = [{}, {1, 2}, {2, 3}, {1, 3}, {3, 4}, {}, {2, 4}, {1, 4}]"

abbreviation "sample_ctx \<equiv> \<lparr>results = map (\<lambda>s. no_res\<lparr>res_indices := s\<rparr>) sample_open, ctx_meta_ids = [], ctx_meta_costs = []\<rparr>"

lemma sample_costs:
  "\<forall>(l, r) \<in> set [(1, 2), (1, 4), (1, 6), (2, 1), (2, 4), (2, 5), (3, 4), (4, 1), (4, 2), (4, 3), (5, 2), (6, 1)].
     cost_value (split_cost (sample_flops 7 2) sample_ctx (l OR r) l r) \<le> 100 \<and> unat (l OR r) < 8"
  by code_simp

lemma below_eight: "unat (n :: mask) < 8 \<Longrightarrow> n \<in> {0, 1, 2, 3, 4, 5, 6, 7}"
proof -
  assume "unat n < 8"
  then have "unat n \<in> {0, 1, 2, 3, 4, 5, 6, 7}" by auto
  then have "of_nat (unat n) \<in> (of_nat ` {0, 1, 2, 3, 4, 5, 6, 7} :: mask set)" by blast
  then show ?thesis by simp
qed

lemma split_cost_cong:
  assumes "map res_indices (results c) = map res_indices (results c')"
    and "unat n < length (results c)" "unat l < length (results c)" "unat r < length (results c)"
  shows "split_cost a c n l r = split_cost a c' n l r"
proof -
  have "length (results c') = length (results c)" using assms(1) by (metis length_map)
  then have "open_of c k = open_of c' k" if "unat k < length (results c)" for k
    using assms(1) that unfolding open_of_def by (metis nth_map)
  then show ?thesis using assms(2-4) by (simp add: split_cost_def Let_def)
qed

lemma additive_plan_optimal_witness:
  "\<exists>t. single_term_flops sample_env (\<lambda>_. []) chain_net [1, 4] (\<lambda>_. 2) False (\<lambda>_. 0 :: nat) sample_cost = Inr (Some (postfix t))
       \<and> whole (outer_product_connectivity None (\<lambda>_. True) chain_net [1, 4] True) 3 t"
proof -
  let ?conn = "outer_product_connectivity None (\<lambda>_. True) chain_net [1, 4] True" and ?P = "\<lambda>_ :: nat. [] :: nat list"
  have hyps: "3 \<le> length chain_net" "length chain_net \<le> 24" "sized ?P (cp_inner_pow sample_cost)"
    "\<forall>t\<in>set chain_net. net_kind t \<noteq> PowerOf None"
    "?conn = outer_product_connectivity (disable_pruning sample_env) (nonnull sample_env) chain_net [1, 4] (cp_prune_outer_products sample_cost)"
    by (simp_all add: sized_def sample_cost_def sample_env_def chain_net_def)
  from additive_plan_optimal [OF hyps, of "\<lambda>_. 2" "\<lambda>_. 0 :: nat"] show ?thesis
  proof (elim exE conjE)
  fix vm nr F
  assume v: "flops_volatility chain_net sample_cost = Inr (vm, nr)"
    and F0: "additive_context sample_env ?P (sample_flops vm nr) chain_net [1, 4] = Inr F"
    and opt0: "(\<forall>t. legal ?conn (length chain_net) t \<longrightarrow> additive_cost (sample_flops vm nr) F t < dbl_max) \<longrightarrow>
      best_plan ?conn (length chain_net) (additive_cost (sample_flops vm nr) F)
        (single_term_flops sample_env ?P chain_net [1, 4] (\<lambda>_. 2) False (\<lambda>_. 0 :: nat) sample_cost)"
  have "(Inr (vm, nr) :: (opt_error, mask \<times> real) result) = Inr (7, 2)" by (rule trans [OF sym [OF v] sample_volatility])
  then have vn: "vm = 7" "nr = 2" by (simp_all only: sum.inject prod.inject)
  note F = F0 [unfolded vn] and opt = opt0 [unfolded vn chain_net_length]
  have res: "map res_indices (results F) = map res_indices (results sample_ctx)"
    using sample_opt_context F by (simp add: sample_open_def no_res_def)
  have "length (map res_indices (results F)) = 8" unfolding res by (simp add: sample_open_def)
  then have len: "length (results F) = 8" by simp
  have "additive_cost (sample_flops 7 2) F t < dbl_max" if leg: "legal ?conn 3 t" for t
  proof -
    have "cost_value (split_cost (sample_flops 7 2) F (l OR r) l r) \<le> 100"
      if "unat l < 2 ^ 3" "unat r < 2 ^ 3" "l AND r = 0" "l \<noteq> 0" "r \<noteq> 0" for l r
    proof -
      have "l \<in> {0, 1, 2, 3, 4, 5, 6, 7}" "r \<in> {0, 1, 2, 3, 4, 5, 6, 7}"
        using that(1,2) below_eight [of l] below_eight [of r] by simp_all
      then have "(l, r) \<in> set [(1, 2), (1, 4), (1, 6), (2, 1), (2, 4), (2, 5), (3, 4), (4, 1), (4, 2), (4, 3), (5, 2), (6, 1)]"
        using that(3-5) by (elim insertE emptyE) simp_all
      then have "cost_value (split_cost (sample_flops 7 2) sample_ctx (l OR r) l r) \<le> 100"
        and lt: "unat (l OR r) < 8" using sample_costs by blast+
      moreover have "split_cost (sample_flops 7 2) F (l OR r) l r = split_cost (sample_flops 7 2) sample_ctx (l OR r) l r"
        by (rule split_cost_cong [OF res]) (use lt that(1,2) len in simp_all)
      ultimately show ?thesis by (simp only:)
    qed
    then have "additive_cost (sample_flops 7 2) F t \<le> 100 * (real (popcount (plan_mask t)) - 1)"
      by (rule additive_bounded [OF _ _ _ leg, rotated]) simp_all
    moreover have "card (bits_of (plan_mask t)) \<le> card {..<3 :: nat}"
      using legal_mask(3) [OF leg] by (intro card_mono) simp_all
    ultimately have "additive_cost (sample_flops 7 2) F t \<le> 200" by (simp add: popcount_card)
    then show ?thesis using dbl_max_large by simp
  qed
  then show ?thesis using opt by blast
  qed
qed

end
