(* ===== verification/Expressions.thy ===== *)
theory Expressions
  imports Complex_Main Prelude
begin

text \<open>
  SeQuant/core/complex.hpp and SeQuant/core/expressions: scalars, expression trees, \<open>Product\<close> and
  \<open>Sum\<close>.  An \<open>ExprPtr\<close> is the tree it points to.  Leaves other than constants, variables and powers (tensors,
  operators) are opaque atoms.  Expressions are given values in any ring in which the scalars are
  central; what an operation computes is stated as the value of its result.
\<close>

section \<open>Scalars\<close>

text \<open>\<open>Complex<rational>\<close>.\<close>

datatype scalar = Scalar (re: rat) (im: rat)

instantiation scalar :: "{zero, one, plus, minus, uminus, times}"
begin
definition "0 = Scalar 0 0"
definition "1 = Scalar 1 0"
definition "x + y = Scalar (re x + re y) (im x + im y)"
definition "x - y = Scalar (re x - re y) (im x - im y)"
definition "- x = Scalar (- re x) (- im x)"
definition "x * y = Scalar (re x * re y - im x * im y) (re x * im y + im x * re y)"
instance ..
end

lemmas scalar_defs = zero_scalar_def one_scalar_def plus_scalar_def minus_scalar_def uminus_scalar_def times_scalar_def

instance scalar :: comm_ring_1
  by standard (auto simp: scalar_defs algebra_simps scalar.expand)

definition conj_scalar :: "scalar \<Rightarrow> scalar" where
  "conj_scalar x = Scalar (re x) (- im x)"

definition norm_squared :: "scalar \<Rightarrow> rat" where
  "norm_squared x = re x * re x + im x * im x"

definition scale_scalar :: "rat \<Rightarrow> scalar \<Rightarrow> scalar" where
  "scale_scalar u x = Scalar (u * re x) (u * im x)"

instantiation scalar :: "{inverse, divide}"
begin
definition "x div y = scale_scalar (1 / norm_squared y) (x * conj_scalar y)"
definition "inverse (x :: scalar) = 1 div x"
instance ..
end

lemma norm_squared_eq_0: "norm_squared x = 0 \<longleftrightarrow> x = 0"
  by (auto simp: norm_squared_def scalar_defs add_nonneg_eq_0_iff scalar.expand)

instance scalar :: field
proof
  fix a b :: scalar
  show "inverse 0 = (0 :: scalar)" by (simp add: inverse_scalar_def divide_scalar_def scale_scalar_def scalar_defs conj_scalar_def)
  show "a / b = a * inverse b"
    by (simp add: inverse_scalar_def divide_scalar_def scale_scalar_def scalar_defs conj_scalar_def algebra_simps)
  assume "a \<noteq> 0"
  then have "norm_squared a \<noteq> 0" by (simp add: norm_squared_eq_0)
  then show "inverse a * a = 1"
    by (auto simp: inverse_scalar_def divide_scalar_def scale_scalar_def scalar_defs conj_scalar_def
        norm_squared_def divide_simps algebra_simps scalar.expand)
qed

lemma of_nat_scalar: "of_nat n = Scalar (of_nat n) 0"
  by (induction n) (simp_all add: scalar_defs)

instance scalar :: field_char_0
  by standard (simp add: inj_on_def of_nat_scalar)

section \<open>Expression trees\<close>

text \<open>
  A \<open>Power\<close> has a \<open>Constant\<close> or a \<open>Variable\<close> as its base.  \<open>CProduct\<close> and \<open>NCProduct\<close> report the type id
  of \<open>Product\<close>; they are products with another kind.
\<close>

datatype power_base = BConstant scalar | BVariable string bool

datatype prod_kind = Plain | Commutative | NonCommutative

datatype 'a expr =
    Constant (const_value: scalar)
  | Variable string bool
  | Power power_base rat bool
  | Atom 'a
  | Product prod_kind (prod_scalar: scalar) (prod_factors: "'a expr list")
  | SumOf (sum_summands: "'a expr list")

datatype expr_error = NotIdentical | BadConstantIndex | NotAConstant

fun children :: "'a expr \<Rightarrow> 'a expr list" where
  "children (Product k c fs) = fs"
| "children (SumOf ss) = ss"
| "children e = []"

definition is_atom :: "'a expr \<Rightarrow> bool" where
  "is_atom e \<longleftrightarrow> children e = []"

definition base_expr :: "power_base \<Rightarrow> 'a expr" where
  "base_expr b = (case b of BConstant c \<Rightarrow> Constant c | BVariable l j \<Rightarrow> Variable l j)"

fun is_zero :: "'a expr \<Rightarrow> bool" where
  "is_zero (Constant c) \<longleftrightarrow> c = 0"
| "is_zero (Product k c fs) \<longleftrightarrow> c = 0"
| "is_zero (Power b e j) \<longleftrightarrow> 0 < e \<and> b = BConstant 0"
| "is_zero e \<longleftrightarrow> False"

text \<open>\<open>Expr::is_scalar\<close>; no atom of the code overrides the default for leaves.\<close>

fun is_scalar :: "'a expr \<Rightarrow> bool" where
  "is_scalar (Product k c fs) \<longleftrightarrow> fs \<noteq> [] \<and> list_all is_scalar fs"
| "is_scalar (SumOf ss) \<longleftrightarrow> ss \<noteq> [] \<and> list_all is_scalar ss"
| "is_scalar (Atom a) \<longleftrightarrow> False"
| "is_scalar e \<longleftrightarrow> True"

text \<open>Equality compares trees without the kinds of the products.\<close>

fun expr_eq :: "'a expr \<Rightarrow> 'a expr \<Rightarrow> bool" where
  "expr_eq (Constant c) (Constant d) \<longleftrightarrow> c = d"
| "expr_eq (Variable l j) (Variable m k) \<longleftrightarrow> l = m \<and> j = k"
| "expr_eq (Power b e j) (Power b' e' j') \<longleftrightarrow> e = e' \<and> j = j' \<and> b = b'"
| "expr_eq (Atom a) (Atom b) \<longleftrightarrow> a = b"
| "expr_eq (Product k c fs) (Product l d gs) \<longleftrightarrow> c = d \<and> list_all2 expr_eq fs gs"
| "expr_eq (SumOf ss) (SumOf ts) \<longleftrightarrow> list_all2 expr_eq ss ts"
| "expr_eq a b \<longleftrightarrow> False"

text \<open>What the code asks of an atom.\<close>

record 'a atom_ops =
  cnumber :: "'a \<Rightarrow> bool"
  commutes_atoms :: "'a \<Rightarrow> 'a \<Rightarrow> bool"
  adjoint_atom :: "'a \<Rightarrow> 'a"

fun is_cnumber :: "('a, 'm) atom_ops_scheme \<Rightarrow> 'a expr \<Rightarrow> bool" where
  "is_cnumber A (Atom a) \<longleftrightarrow> cnumber A a"
| "is_cnumber A (Product k c fs) \<longleftrightarrow> list_all (is_cnumber A) fs"
| "is_cnumber A (SumOf ss) \<longleftrightarrow> list_all (is_cnumber A) ss"
| "is_cnumber A e \<longleftrightarrow> True"

fun commutes_with_atom :: "('a, 'm) atom_ops_scheme \<Rightarrow> 'a expr \<Rightarrow> 'a expr \<Rightarrow> bool" where
  "commutes_with_atom A (Atom a) (Atom b) \<longleftrightarrow> commutes_atoms A a b"
| "commutes_with_atom A x y \<longleftrightarrow> True"

lemma children_size: "x \<in> set (children e) \<Longrightarrow> size x < size e"
  by (cases e) (auto simp: less_Suc_eq_le intro: le_trans [OF _ le_add2] size_list_estimation' le_SucI)

function commutes_with :: "('a, 'm) atom_ops_scheme \<Rightarrow> 'a expr \<Rightarrow> 'a expr \<Rightarrow> bool" where
  "commutes_with A x y \<longleftrightarrow>
     (if is_atom x \<and> is_atom y then is_cnumber A x \<or> is_cnumber A y \<or> commutes_with_atom A x y
      else if is_atom x then is_cnumber A x \<or> (\<forall>y' \<in> set (children y). commutes_with A x y')
      else (\<forall>x' \<in> set (children x). commutes_with A x' y))"
  by pat_completeness auto
termination by (relation "measure (\<lambda>(A, x, y). size x + size y)") (auto dest: children_size)

declare commutes_with.simps [simp del]

definition is_commutative :: "('a, 'm) atom_ops_scheme \<Rightarrow> 'a expr \<Rightarrow> bool" where
  "is_commutative A e =
     (case e of
        Product k c fs \<Rightarrow>
          (case k of
             Plain \<Rightarrow> foldl (\<lambda>result f. foldl (\<lambda>result s. if result then commutes_with A (fs ! f) (fs ! s) else False)
                                           result [1..<length fs]) True [0..<length fs]
           | Commutative \<Rightarrow> True
           | NonCommutative \<Rightarrow> False)
      | _ \<Rightarrow> True)"

section \<open>Products\<close>

datatype flatten_tag = Once | Recursively | No

text \<open>The scalar and the factors of a product that is being built.\<close>

type_synonym 'a factors = "scalar \<times> 'a expr list"

text \<open>
  \<open>clone\<close>: products are rebuilt with \<open>append\<close> under \<open>Flatten::No\<close>, which absorbs constants, sums with
  \<open>append\<close>.  Appending clones a factor or summand once more; that changes nothing (\<open>clone_clone\<close>), so
  the second clone is left out here and \<open>clone_as_written\<close> puts it back.
\<close>

fun absorb :: "'a factors \<Rightarrow> 'a expr \<Rightarrow> 'a factors" where
  "absorb (c, fs) (Constant v) = (c * v, fs)"
| "absorb (c, fs) e = (c, fs @ [e])"

text \<open>A summand that is not a sum: zeros are left out, constants added up in place.\<close>

definition constant_position :: "'a expr list \<Rightarrow> nat option" where
  "constant_position ss = (if \<exists>s \<in> set ss. is_Constant s then Some (length (takeWhile (Not \<circ> is_Constant) ss)) else None)"

definition fold_into :: "'a expr list \<Rightarrow> nat \<Rightarrow> scalar \<Rightarrow> 'a expr list" where
  "fold_into ss i v =
     (let w = const_value (ss ! i) + v in if w = 0 then erase_at i ss else ss[i := Constant w])"

definition add_summand :: "'a expr list \<Rightarrow> 'a expr \<Rightarrow> 'a expr list" where
  "add_summand ss e =
     (if is_zero e then ss
      else case e of
        Constant v \<Rightarrow> (case constant_position ss of Some i \<Rightarrow> fold_into ss i v | None \<Rightarrow> ss @ [e])
      | _ \<Rightarrow> ss @ [e])"

fun add_summands :: "'a expr list \<Rightarrow> 'a expr \<Rightarrow> 'a expr list" where
  "add_summands ss (SumOf ts) = foldl add_summands ss ts"
| "add_summands ss e = add_summand ss e"

fun clone :: "'a expr \<Rightarrow> 'a expr" where
  "clone (Product k c fs) = (case foldl absorb (c, []) (map clone fs) of (c', fs') \<Rightarrow> Product k c' fs')"
| "clone (SumOf ss) = SumOf (foldl add_summands [] (map clone ss))"
| "clone e = e"

fun append_factor :: "flatten_tag \<Rightarrow> 'a factors \<Rightarrow> 'a expr \<Rightarrow> 'a factors" where
  "append_factor t (c, fs) (Product k d gs) =
     (if t = No then (c, fs @ [clone (Product k d gs)])
      else foldl (\<lambda>st g. append_factor (if t = Once then No else Recursively) st g) (c * d, fs) gs)"
| "append_factor t (c, fs) (Constant v) = (c * v, fs)"
| "append_factor t (c, fs) e = (c, fs @ [clone e])"

fun prepend_factor :: "flatten_tag \<Rightarrow> 'a factors \<Rightarrow> 'a expr \<Rightarrow> 'a factors" where
  "prepend_factor t (c, fs) (Product k d gs) =
     (if t = No then (c * d, clone (Product k d gs) # fs)
      else foldl (\<lambda>st g. prepend_factor (if t = Once then No else Recursively) st g) (c * d, fs) gs)"
| "prepend_factor t (c, fs) (Constant v) = (c * v, fs)"
| "prepend_factor t (c, fs) e = (c, clone e # fs)"

text \<open>\<open>Sum::append\<close> on the list of summands: what is tested is the summand, what is stored its clone.\<close>

fun append_summand :: "'a expr list \<Rightarrow> 'a expr \<Rightarrow> 'a expr list" where
  "append_summand ss (SumOf ts) = foldl append_summand ss ts"
| "append_summand ss (Constant v) = add_summand ss (Constant v)"
| "append_summand ss e = (if is_zero e then ss else ss @ [clone e])"

section \<open>Cloning settles\<close>

definition sum_ok :: "'a expr list \<Rightarrow> bool" where
  "sum_ok ss \<longleftrightarrow> (\<forall>s\<in>set ss. \<not> is_SumOf s \<and> \<not> is_zero s) \<and> length (filter is_Constant ss) \<le> 1"

text \<open>No product has a constant factor, sums are flat, without zeros and with at most one constant.\<close>

fun settled :: "'a expr \<Rightarrow> bool" where
  "settled (Product k c fs) \<longleftrightarrow> list_all settled fs \<and> (\<forall>f\<in>set fs. \<not> is_Constant f)"
| "settled (SumOf ss) \<longleftrightarrow> list_all settled ss \<and> sum_ok ss"
| "settled e \<longleftrightarrow> True"

lemma foldl_absorb: "foldl absorb (c, gs) fs =
    (c * prod_list (map const_value (filter is_Constant fs)), gs @ filter (Not \<circ> is_Constant) fs)"
proof (induction fs arbitrary: c gs)
  case (Cons f fs)
  then show ?case by (cases f) simp_all
qed simp

lemma clone_Product:
  "clone (Product k c fs) = Product k (c * prod_list (map const_value (filter is_Constant (map clone fs))))
     (filter (Not \<circ> is_Constant) (map clone fs))"
  by (simp add: foldl_absorb)

lemma constant_position_Some:
  assumes "constant_position ss = Some i"
  shows "i < length ss" "is_Constant (ss ! i)"
proof -
  have ex: "\<exists>s\<in>set ss. is_Constant s" and i: "i = length (takeWhile (Not \<circ> is_Constant) ss)"
    using assms by (auto simp: constant_position_def split: if_splits)
  have "i \<noteq> length ss" using ex i takeWhile_eq_all_conv [of "Not \<circ> is_Constant" ss] by (metis comp_apply append_take_drop_id length_append self_append_conv takeWhile_dropWhile_id takeWhile_eq_take add_left_cancel length_0_conv)
  then show "i < length ss" using i length_takeWhile_le [of "Not \<circ> is_Constant" ss] by linarith
  then show "is_Constant (ss ! i)" using nth_length_takeWhile [of "Not \<circ> is_Constant" ss] i by simp
qed

lemma constant_position_None: "constant_position ss = None \<longleftrightarrow> (\<forall>s\<in>set ss. \<not> is_Constant s)"
  by (simp add: constant_position_def)

lemma split_at: "i < length ss \<Longrightarrow> ss = take i ss @ ss ! i # drop (Suc i) ss"
  by (rule id_take_nth_drop)

lemma fold_into_cases:
  assumes "i < length ss"
  shows "fold_into ss i v = take i ss @ (if const_value (ss ! i) + v = 0 then [] else [Constant (const_value (ss ! i) + v)]) @ drop (Suc i) ss"
  using assms by (simp add: fold_into_def erase_at_def Let_def upd_conv_take_nth_drop)

lemma add_summand_ok:
  assumes "sum_ok ss" "\<not> is_SumOf e"
  shows "sum_ok (add_summand ss e)"
proof (cases "is_zero e \<or> \<not> is_Constant e \<or> constant_position ss = None")
  case True
  then have "add_summand ss e = ss \<or> (add_summand ss e = ss @ [e] \<and> \<not> is_zero e \<and> (is_Constant e \<longrightarrow> constant_position ss = None))"
    by (cases e) (auto simp: add_summand_def)
  then show ?thesis using assms by (auto simp: sum_ok_def constant_position_None filter_empty_conv)
next
  case False
  then obtain v i where v: "e = Constant v" and i: "constant_position ss = Some i" by (cases e) auto
  note ii = constant_position_Some [OF i]
  have "filter is_Constant ss = filter is_Constant (take i ss) @ ss ! i # filter is_Constant (drop (Suc i) ss)"
    by (subst split_at [OF ii(1)]) (simp add: ii(2))
  then have none: "filter is_Constant (take i ss) = []" "filter is_Constant (drop (Suc i) ss) = []"
    using assms(1) by (auto simp: sum_ok_def)
  have "add_summand ss e = fold_into ss i v" using False v i by (simp add: add_summand_def)
  moreover have "set (take i ss) \<union> set (drop (Suc i) ss) \<subseteq> set ss" by (auto dest: in_set_takeD in_set_dropD)
  ultimately show ?thesis using assms(1) none unfolding sum_ok_def fold_into_cases [OF ii(1)] by auto
qed

lemma settled_add_summand: "list_all settled ss \<Longrightarrow> settled e \<Longrightarrow> list_all settled (add_summand ss e)"
  by (cases e) (auto simp: add_summand_def fold_into_def erase_at_def Let_def list_all_iff split: option.splits
      dest: in_set_takeD in_set_dropD set_update_subset_insert [THEN subsetD])

lemma settled_add_summands:
  "list_all settled ss \<Longrightarrow> sum_ok ss \<Longrightarrow> settled e \<Longrightarrow> list_all settled (add_summands ss e) \<and> sum_ok (add_summands ss e)"
proof (induction ss e rule: add_summands.induct)
  case (1 ss ts)
  have "foldl add_summands acc ys = foldl add_summand acc ys" if "\<forall>y\<in>set ys. \<not> is_SumOf y" for acc and ys :: "'a expr list"
    using that
  proof (induction ys arbitrary: acc)
    case (Cons y ys)
    then show ?case by (cases y) auto
  qed simp
  moreover have "\<forall>y\<in>set ts. \<not> is_SumOf y \<and> settled y" using 1(4) by (auto simp: sum_ok_def list_all_iff)
  moreover have "list_all settled (foldl add_summand acc ys) \<and> sum_ok (foldl add_summand acc ys)"
    if "\<forall>y\<in>set ys. \<not> is_SumOf y \<and> settled y" "list_all settled acc" "sum_ok acc" for acc and ys :: "'a expr list"
    using that by (induction ys arbitrary: acc) (auto simp: settled_add_summand add_summand_ok)
  ultimately show ?case using 1(2,3) by simp
qed (simp_all add: settled_add_summand add_summand_ok)

lemma clone_constructor:
  "is_Constant (clone e) = is_Constant e" "is_SumOf (clone e) = is_SumOf e" "is_Product (clone e) = is_Product e"
  "is_Constant e \<Longrightarrow> clone e = e"
  by (cases e; simp add: clone_Product del: clone.simps(1))+

lemma settled_clone: "settled (clone e)"
proof (induction e rule: clone.induct)
  case (1 k c fs)
  then show ?case by (auto simp: clone_Product list_all_iff simp del: clone.simps(1))
next
  case (2 ss)
  have "list_all settled (foldl add_summands acc ys) \<and> sum_ok (foldl add_summands acc ys)"
    if "\<forall>y\<in>set ys. settled y" "list_all settled acc" "sum_ok acc" for acc and ys :: "'a expr list"
    using that
  proof (induction ys arbitrary: acc)
    case (Cons y ys)
    then show ?case using settled_add_summands [of acc y] by simp
  qed simp
  from this [of "map clone ss" "[]"] 2 show ?case by (auto simp: sum_ok_def)
qed simp_all

lemma add_summands_fresh:
  assumes "\<not> is_SumOf e" "\<not> is_zero e" "is_Constant e \<Longrightarrow> constant_position ss = None"
  shows "add_summands ss e = ss @ [e]"
  using assms by (cases e) (auto simp: add_summand_def)

lemma add_all_ok: "sum_ok (acc @ ss) \<Longrightarrow> foldl add_summands acc ss = acc @ ss"
proof (induction ss arbitrary: acc)
  case (Cons s ss)
  have "add_summands acc s = acc @ [s]"
  proof (rule add_summands_fresh)
    show "\<not> is_SumOf s" "\<not> is_zero s" using Cons.prems by (auto simp: sum_ok_def)
    show "is_Constant s \<Longrightarrow> constant_position acc = None"
      using Cons.prems by (auto simp: sum_ok_def constant_position_None filter_empty_conv)
  qed
  then show ?case using Cons.IH [of "acc @ [s]"] Cons.prems by simp
qed simp

lemma clone_settled: "settled e \<Longrightarrow> clone e = e"
proof (induction e rule: clone.induct)
  case (1 k c fs)
  have "map clone fs = fs" using 1 by (auto simp: list_all_iff intro: map_idI)
  moreover have "filter is_Constant fs = []" "filter (Not \<circ> is_Constant) fs = fs"
    using 1(2) by (auto simp: filter_empty_conv filter_id_conv)
  ultimately show ?case by (simp add: clone_Product del: clone.simps(1))
next
  case (2 ss)
  have "map clone ss = ss" using 2 by (auto simp: list_all_iff intro: map_idI)
  then show ?case using 2(2) add_all_ok [of "[]" ss] by simp
qed simp_all

lemma clone_clone [simp]: "clone (clone e) = clone e"
  by (rule clone_settled [OF settled_clone])

lemma append_summand_settled: "settled e \<Longrightarrow> append_summand ss e = add_summands ss e"
proof (induction ss e rule: append_summand.induct)
  case (1 ss ts)
  have "foldl append_summand acc ys = foldl add_summands acc ys" if "set ys \<subseteq> set ts" for acc ys
    using that
  proof (induction ys arbitrary: acc)
    case (Cons y ys)
    then show ?case using 1 by (simp add: list_all_iff)
  qed simp
  then show ?case by simp
qed (simp_all del: clone.simps(1) settled.simps(1) add: add_summand_def clone_settled)

text \<open>\<open>clone\<close> as the code composes it of \<open>append\<close>, each summand or factor cloned twice.\<close>

lemma clone_as_written:
  fixes ss fs :: "'a expr list"
  shows "clone (SumOf ss) = SumOf (foldl append_summand [] (map clone ss))"
    and "clone (Product k c fs) = (case foldl (append_factor No) (c, []) fs of (c', fs') \<Rightarrow> Product k c' fs')"
proof -
  have "foldl append_summand acc (map clone ss) = foldl add_summands acc (map clone ss)" for acc
    by (induction ss arbitrary: acc) (simp_all add: append_summand_settled settled_clone)
  then show "clone (SumOf ss) = SumOf (foldl append_summand [] (map clone ss))" by simp
  have "append_factor No st f = absorb st (clone f)" for st and f :: "'a expr"
    by (cases st; cases f) (simp_all add: clone_Product del: clone.simps(1))
  then have "foldl (append_factor No) st fs = foldl absorb st (map clone fs)" for st
    by (induction fs arbitrary: st) (simp_all del: append_factor.simps)
  then show "clone (Product k c fs) = (case foldl (append_factor No) (c, []) fs of (c', fs') \<Rightarrow> Product k c' fs')" by simp
qed

section \<open>Constructors and mutators\<close>

text \<open>A constructor of \<open>Product\<close> or \<open>Sum\<close> from a scalar and a range of factors, or a range of summands.\<close>

definition product_of :: "prod_kind \<Rightarrow> 'a factors \<Rightarrow> 'a expr" where
  "product_of k st = Product k (fst st) (snd st)"

definition mk_product :: "flatten_tag \<Rightarrow> scalar \<Rightarrow> 'a expr list \<Rightarrow> 'a factors" where
  "mk_product t c fs = foldl (append_factor t) (c, []) fs"

definition mk_sum :: "'a expr list \<Rightarrow> 'a expr" where
  "mk_sum ss = SumOf (foldl append_summand [] ss)"

definition append_scaled :: "flatten_tag \<Rightarrow> 'a factors \<Rightarrow> scalar \<Rightarrow> 'a expr \<Rightarrow> 'a factors" where
  "append_scaled t st c e = append_factor t (fst st * c, snd st) e"

definition prepend_scaled :: "flatten_tag \<Rightarrow> 'a factors \<Rightarrow> scalar \<Rightarrow> 'a expr \<Rightarrow> 'a factors" where
  "prepend_scaled t st c e = prepend_factor t (fst st * c, snd st) e"

definition scale :: "'a factors \<Rightarrow> scalar \<Rightarrow> 'a factors" where
  "scale st c = (fst st * c, snd st)"

text \<open>\<open>Sum::prepend\<close> on the list of summands.\<close>

fun prepend_summand :: "'a expr list \<Rightarrow> 'a expr \<Rightarrow> 'a expr list" where
  "prepend_summand ss (SumOf ts) = foldl prepend_summand ss ts"
| "prepend_summand ss (Constant v) =
     (if v = 0 then ss
      else case constant_position ss of Some i \<Rightarrow> fold_into ss i v | None \<Rightarrow> Constant v # ss)"
| "prepend_summand ss e = (if is_zero e then ss else clone e # ss)"

definition product_times :: "'a factors \<Rightarrow> 'a expr \<Rightarrow> 'a factors" where
  "product_times st e = (case e of Constant v \<Rightarrow> (fst st * v, snd st) | _ \<Rightarrow> append_scaled Recursively st 1 e)"

definition sum_minus :: "'a expr list \<Rightarrow> 'a expr \<Rightarrow> 'a expr list" where
  "sum_minus ss e =
     append_summand ss (case e of Constant v \<Rightarrow> Constant (- v) | _ \<Rightarrow> product_of Plain (mk_product Recursively (-1) [e]))"

text \<open>\<open>offset + count\<close> is computed in \<open>size_t\<close>; when it wraps the iterators may be out of order (\<open>None\<close>).\<close>

definition take_n :: "'a expr list \<Rightarrow> nat \<Rightarrow> nat \<Rightarrow> 'a expr option" where
  "take_n ss off cnt =
     (let oc = (off + cnt) mod 2 ^ 64;
          b = (if length ss \<le> off then length ss else off);
          e = (if length ss \<le> oc then length ss else oc)
      in if e < b then None else Some (mk_sum (take (e - b) (drop b ss))))"

definition filter_sum :: "('a expr \<Rightarrow> bool) \<Rightarrow> 'a expr list \<Rightarrow> 'a expr" where
  "filter_sum f ss = mk_sum (filter f ss)"

definition add_identical :: "'a factors \<Rightarrow> 'a expr \<Rightarrow> (expr_error, 'a factors) result" where
  "add_identical st e =
     (case e of
        Product k d gs \<Rightarrow> if list_all2 expr_eq (snd st) gs then Inr (fst st + d, snd st) else Inl NotIdentical
      | _ \<Rightarrow> if length (snd st) = 1 \<and> expr_eq (snd st ! 0) e then Inr (fst st + 1, snd st) else Inl NotIdentical)"

section \<open>Operators\<close>

definition negated :: "'a expr \<Rightarrow> 'a expr" where
  "negated e = (case e of Constant v \<Rightarrow> Constant (- v) | _ \<Rightarrow> product_of Plain (mk_product Recursively (-1) [e]))"

definition add_assign :: "'a expr \<Rightarrow> 'a expr \<Rightarrow> 'a expr" where
  "add_assign x y =
     (case x of
        SumOf ss \<Rightarrow> SumOf (append_summand ss y)
      | Constant v \<Rightarrow> (case y of Constant w \<Rightarrow> Constant (v + w) | _ \<Rightarrow> mk_sum [x, y])
      | _ \<Rightarrow> mk_sum [x, y])"

definition sub_assign :: "'a expr \<Rightarrow> 'a expr \<Rightarrow> 'a expr" where
  "sub_assign x y =
     (case x of
        SumOf ss \<Rightarrow> SumOf (sum_minus ss y)
      | Constant v \<Rightarrow> (case y of Constant w \<Rightarrow> Constant (v - w)
                                 | _ \<Rightarrow> mk_sum [x, product_of Plain (mk_product Recursively (-1) [y])])
      | _ \<Rightarrow> mk_sum [x, product_of Plain (mk_product Recursively (-1) [y])])"

definition mul_assign :: "'a expr \<Rightarrow> 'a expr \<Rightarrow> 'a expr" where
  "mul_assign x y =
     (case x of
        Product k c fs \<Rightarrow> product_of k (product_times (c, fs) y)
      | Constant v \<Rightarrow> (case y of Constant w \<Rightarrow> Constant (v * w) | _ \<Rightarrow> product_of Plain (mk_product Recursively 1 [x, y]))
      | _ \<Rightarrow> product_of Plain (mk_product Recursively 1 [x, y]))"

definition cloned_factors :: "'a expr \<Rightarrow> 'a factors" where
  "cloned_factors e = (prod_scalar (clone e), prod_factors (clone e))"

definition mul_kind :: "prod_kind \<Rightarrow> (prod_kind \<Rightarrow> prod_kind) \<Rightarrow> 'a expr \<Rightarrow> 'a expr \<Rightarrow> 'a expr" where
  "mul_kind k keep x y =
     (case x of
        Product l _ _ \<Rightarrow> product_of (keep l) (append_scaled Recursively (cloned_factors x) 1 y)
      | _ \<Rightarrow> (case y of
          Product l _ _ \<Rightarrow> product_of (keep l) (prepend_scaled Recursively (cloned_factors y) 1 x)
        | _ \<Rightarrow> product_of k (mk_product Recursively 1 [x, y])))"

definition mul_expr :: "'a expr \<Rightarrow> 'a expr \<Rightarrow> 'a expr" where
  "mul_expr x y =
     (if is_Constant x \<and> is_Constant y then Constant (const_value x * const_value y)
      else mul_kind Plain (\<lambda>l. l) x y)"

text \<open>\<open>operator^\<close>, the product that does not commute.\<close>

definition nc_mul_expr :: "'a expr \<Rightarrow> 'a expr \<Rightarrow> 'a expr" where
  "nc_mul_expr x y = mul_kind NonCommutative (\<lambda>_. NonCommutative) x y"

definition add_expr :: "'a expr \<Rightarrow> 'a expr \<Rightarrow> 'a expr" where
  "add_expr x y =
     (if is_SumOf x then SumOf (append_summand (sum_summands (clone x)) y)
      else if is_SumOf y then SumOf (prepend_summand (sum_summands (clone y)) x)
      else mk_sum [x, y])"

definition sub_expr :: "'a expr \<Rightarrow> 'a expr \<Rightarrow> 'a expr" where
  "sub_expr x y =
     (if is_SumOf x then SumOf (append_summand (sum_summands (clone x)) (negated y)) else mk_sum [x, negated y])"

section \<open>Values\<close>

text \<open>
  An interpretation of the leaves in a ring: the scalars are mapped homomorphically into its centre, the
  powers of zero to zero.
\<close>

record ('a, 'r) interp =
  scal :: "scalar \<Rightarrow> 'r"
  vari :: "string \<Rightarrow> bool \<Rightarrow> 'r"
  pwr :: "power_base \<Rightarrow> rat \<Rightarrow> bool \<Rightarrow> 'r"
  atom :: "'a \<Rightarrow> 'r"

definition sound :: "('a, 'r::ring_1) interp \<Rightarrow> bool" where
  "sound I \<longleftrightarrow> scal I 1 = 1 \<and> (\<forall>x y. scal I (x + y) = scal I x + scal I y) \<and> (\<forall>x y. scal I (x * y) = scal I x * scal I y)
     \<and> (\<forall>c r. scal I c * r = r * scal I c) \<and> (\<forall>e j. 0 < e \<longrightarrow> pwr I (BConstant 0) e j = 0)"

primrec val :: "('a, 'r::ring_1) interp \<Rightarrow> 'a expr \<Rightarrow> 'r" where
  "val I (Constant c) = scal I c"
| "val I (Variable l j) = vari I l j"
| "val I (Power b e j) = pwr I b e j"
| "val I (Atom a) = atom I a"
| "val I (Product k c fs) = scal I c * prod_list (map (val I) fs)"
| "val I (SumOf ss) = sum_list (map (val I) ss)"

definition val_factors :: "('a, 'r::ring_1) interp \<Rightarrow> 'a factors \<Rightarrow> 'r" where
  "val_factors I st = scal I (fst st) * prod_list (map (val I) (snd st))"

definition val_sum :: "('a, 'r::ring_1) interp \<Rightarrow> 'a expr list \<Rightarrow> 'r" where
  "val_sum I ss = sum_list (map (val I) ss)"

lemma sound_simps:
  assumes "sound I"
  shows "scal I 0 = 0" "scal I 1 = 1" "scal I (x + y) = scal I x + scal I y" "scal I (x * y) = scal I x * scal I y"
    "scal I (- x) = - scal I x" "scal I (x - y) = scal I x - scal I y"
proof -
  note I = assms [unfolded sound_def]
  have "scal I 0 + scal I 0 = scal I (0 + 0)" using I by (simp del: add_0_right add_0_left)
  then show z: "scal I 0 = 0" by simp
  have "scal I (x + - x) = scal I x + scal I (- x)" for x using I by blast
  then have m: "scal I (- x) = - scal I x" for x using z by (simp add: eq_neg_iff_add_eq_0 add.commute)
  show "scal I (- x) = - scal I x" by (rule m)
  have "x - y = x + - y" by simp
  then show "scal I (x - y) = scal I x - scal I y" using I m by (metis diff_conv_add_uminus)
  show "scal I 1 = 1" "scal I (x + y) = scal I x + scal I y" "scal I (x * y) = scal I x * scal I y" using I by blast+
qed

lemma central: "sound I \<Longrightarrow> r * scal I c = scal I c * r" "sound I \<Longrightarrow> r * (scal I c * s) = scal I c * (r * s)"
  unfolding sound_def by (metis, metis mult.assoc)

lemma is_zero_val: "sound I \<Longrightarrow> is_zero e \<Longrightarrow> val I e = 0"
  by (cases e) (auto simp: sound_simps, simp add: sound_def)

lemma val_factors_scale:
  assumes "sound I"
  shows "val_factors I (c * v, fs) = val_factors I (c, fs) * scal I v"
  using central(1) [OF assms, of "prod_list (map (val I) fs)" v]
  by (simp add: val_factors_def sound_simps [OF assms] mult.assoc)

lemma val_factors_snoc: "val_factors I (c, fs @ [e]) = val_factors I (c, fs) * val I e"
  by (simp add: val_factors_def mult.assoc)

lemma val_absorb: "sound I \<Longrightarrow> val_factors I (absorb st e) = val_factors I st * val I e"
  by (cases st; cases e) (simp_all add: val_factors_scale val_factors_snoc)

lemma val_add_summand:
  assumes "sound I"
  shows "val_sum I (add_summand ss e) = val_sum I ss + val I e"
proof (cases "is_zero e \<or> \<not> is_Constant e \<or> constant_position ss = None")
  case True
  then show ?thesis using is_zero_val [OF assms, of e] by (cases e) (auto simp: add_summand_def val_sum_def)
next
  case False
  then obtain v i where v: "e = Constant v" "v \<noteq> 0" and i: "constant_position ss = Some i" by (cases e) auto
  note ii = constant_position_Some [OF i]
  obtain w where w: "ss ! i = Constant w" using ii(2) by (cases "ss ! i") auto
  have "val_sum I ss = val_sum I (take i ss) + scal I w + val_sum I (drop (Suc i) ss)"
    unfolding val_sum_def by (subst split_at [OF ii(1)]) (simp add: w add.assoc)
  moreover have "add_summand ss e = fold_into ss i v" using v i by (simp add: add_summand_def)
  moreover have "scal I v + scal I w = 0" if "v + w = 0"
    using that sound_simps(1) [OF assms] sound_simps(3) [OF assms, of v w] by simp
  ultimately show ?thesis
    unfolding fold_into_cases [OF ii(1)] using v w sound_simps(1) [OF assms] sound_simps(3) [OF assms, of w v]
    by (simp add: fold_into_cases [OF ii(1)] val_sum_def algebra_simps)
qed

lemma val_foldl_sum:
  assumes "\<And>ss e. e \<in> set es \<Longrightarrow> val_sum I (g ss e) = val_sum I ss + val I e"
  shows "val_sum I (foldl g ss es) = val_sum I ss + val_sum I es"
  using assms by (induction es arbitrary: ss) (simp_all add: val_sum_def add.assoc)

lemma val_foldl_factors:
  assumes "\<And>st e. e \<in> set es \<Longrightarrow> val_factors I (g st e) = val_factors I st * val I e"
  shows "val_factors I (foldl g st es) = val_factors I st * prod_list (map (val I) es)"
  using assms by (induction es arbitrary: st) (simp_all add: mult.assoc)

lemma val_add_summands: "sound I \<Longrightarrow> val_sum I (add_summands ss e) = val_sum I ss + val I e"
proof (induction ss e rule: add_summands.induct)
  case (1 ss ts)
  then show ?case using val_foldl_sum [of ts I add_summands ss] by (simp add: val_sum_def)
qed (simp_all add: val_add_summand)

lemma val_clone: "sound I \<Longrightarrow> val I (clone e) = val I e"
proof (induction e rule: clone.induct)
  case (1 k c fs)
  have "val_factors I (foldl absorb (c, []) (map clone fs)) = val_factors I (c, []) * prod_list (map (val I) (map clone fs))"
    by (rule val_foldl_factors) (simp add: val_absorb [OF 1(2)])
  moreover have "map (val I) (map clone fs) = map (val I) fs" using 1 by simp
  ultimately have "val_factors I (foldl absorb (c, []) (map clone fs)) = val_factors I (c, []) * prod_list (map (val I) fs)"
    by (simp only:)
  then show ?case by (cases "foldl absorb (c, []) (map clone fs)") (simp add: val_factors_def)
next
  case (2 ss)
  have "val_sum I (foldl add_summands [] (map clone ss)) = val_sum I [] + val_sum I (map clone ss)"
    by (rule val_foldl_sum) (simp add: val_add_summands [OF 2(2)])
  moreover have "map (val I) (map clone ss) = map (val I) ss" using 2 by simp
  ultimately have "val_sum I (foldl add_summands [] (map clone ss)) = sum_list (map (val I) ss)"
    unfolding val_sum_def by (simp only: list.map sum_list.Nil add_0_left)
  then show ?case by (simp add: val_sum_def)
qed simp_all

lemma val_append_factor: "sound I \<Longrightarrow> val_factors I (append_factor t st e) = val_factors I st * val I e"
proof (induction t st e rule: append_factor.induct)
  case (1 t c fs k d gs)
  show ?case
  proof (cases "t = No")
    case True
    then show ?thesis using val_clone [OF 1(2), of "Product k d gs"]
      by (simp add: val_factors_snoc del: clone.simps)
  next
    case False
    then have "val_factors I (append_factor t (c, fs) (Product k d gs))
        = val_factors I (c * d, fs) * prod_list (map (val I) gs)"
      using 1 by (simp add: val_foldl_factors)
    then show ?thesis by (simp add: val_factors_scale [OF 1(2)] mult.assoc)
  qed
qed (simp_all add: val_factors_scale val_factors_snoc val_clone del: clone.simps(2) val.simps(6))

lemma val_append_summand: "sound I \<Longrightarrow> val_sum I (append_summand ss e) = val_sum I ss + val I e"
proof (induction ss e rule: append_summand.induct)
  case (1 ss ts)
  then show ?case using val_foldl_sum [of ts I append_summand ss] by (simp add: val_sum_def)
next
  case (2 ss v)
  then show ?case by (simp add: val_add_summand)
qed (auto simp: val_sum_def val_clone sound_simps(1) is_zero_val simp del: clone.simps, simp add: sound_def)


lemma val_mk_product: "sound I \<Longrightarrow> val_factors I (mk_product t c fs) = scal I c * prod_list (map (val I) fs)"
  unfolding mk_product_def by (subst val_foldl_factors) (simp_all add: val_append_factor, simp add: val_factors_def)

lemma val_mk_sum: "sound I \<Longrightarrow> val I (mk_sum ss) = val_sum I ss"
  using val_foldl_sum [of ss I append_summand "[]"] by (simp add: mk_sum_def val_append_summand) (simp add: val_sum_def)

lemma val_product_of [simp]: "val I (product_of k st) = val_factors I st"
  by (simp add: product_of_def val_factors_def)

lemma val_append_scaled:
  assumes "sound I"
  shows "val_factors I (append_scaled t st c e) = val_factors I st * scal I c * val I e"
  by (cases st) (simp add: append_scaled_def val_append_factor [OF assms] val_factors_scale [OF assms])

text \<open>A factor that is not a product is prepended as it should be.\<close>

lemma val_prepend_scaled:
  assumes "sound I" "\<not> is_Product e"
  shows "val_factors I (prepend_scaled t st c e) = scal I c * val I e * val_factors I st"
proof -
  obtain d fs where st: "st = (d, fs)" by (cases st)
  have "val_factors I (prepend_factor t (d, fs) e) = val I e * val_factors I (d, fs)" for d
  proof (cases e)
    case (Constant v)
    then show ?thesis using central(1) [OF assms(1), of "val_factors I (d, fs)" v] by (simp add: val_factors_scale [OF assms(1)])
  qed (use assms central(2) [OF assms(1), of "val I e" d] in \<open>simp_all add: val_factors_def val_clone mult.assoc del: clone.simps val.simps(6)\<close>)
  then show ?thesis
    using val_factors_scale [OF assms(1), of d c fs] central(1) [OF assms(1), of "val_factors I (d, fs)" c]
      central(2) [OF assms(1), of "val I e" c]
    by (simp add: prepend_scaled_def st mult.assoc)
qed

lemma val_prepend_summand: "sound I \<Longrightarrow> val_sum I (prepend_summand ss e) = val I e + val_sum I ss"
proof (induction ss e rule: prepend_summand.induct)
  case (1 ss ts)
  then have "val_sum I (foldl prepend_summand ss ts) = val_sum I ss + val_sum I ts"
    by (intro val_foldl_sum) (simp add: add.commute)
  then show ?case by (simp add: val_sum_def add.commute)
next
  case (2 ss v)
  show ?case
  proof (cases "constant_position ss")
    case None
    then show ?thesis using 2 by (simp add: val_sum_def sound_simps(1))
  next
    case (Some i)
    then show ?thesis using val_add_summand [OF 2, of ss "Constant v"] sound_simps(1) [OF 2]
      by (auto simp: add_summand_def add.commute split: if_splits)
  qed
qed (auto simp: val_sum_def val_clone sound_simps(1) is_zero_val simp del: clone.simps, simp add: sound_def)

lemma val_negated: "sound I \<Longrightarrow> val I (negated e) = - val I e"
proof -
  assume I: "sound I"
  have "scal I (-1) = -1" using sound_simps(2,5) [OF I] by metis
  then show ?thesis by (cases e) (simp_all add: negated_def val_mk_product [OF I] sound_simps(5) [OF I])
qed

lemma val_mul_kind:
  assumes "sound I"
  shows "val I (mul_kind k keep x y) = val I x * val I y"
proof -
  have cf: "val_factors I (cloned_factors z) = val I z" if z: "is_Product z" for z
  proof -
    from z obtain k c fs where "z = Product k c fs" by (cases z) auto
    then obtain d gs where d: "clone z = Product k d gs" by (simp add: clone_Product del: clone.simps)
    then show ?thesis using val_clone [OF assms, of z] by (simp add: cloned_factors_def val_factors_def)
  qed
  show ?thesis
  proof (cases "is_Product x")
    case True
    then show ?thesis using cf [OF True] by (cases x) (simp_all add: mul_kind_def val_append_scaled [OF assms] sound_simps(2) [OF assms])
  next
    case False
    show ?thesis
    proof (cases "is_Product y")
      case True
      then have "mul_kind k keep x y = (case y of Product l _ _ \<Rightarrow> product_of (keep l) (prepend_scaled Recursively (cloned_factors y) 1 x))"
        using False by (cases x; cases y) (simp_all add: mul_kind_def)
      then show ?thesis using cf [OF True] True False
        by (cases y) (simp_all add: val_prepend_scaled [OF assms] sound_simps(2) [OF assms])
    next
      case no: False
      then have "mul_kind k keep x y = product_of k (mk_product Recursively 1 [x, y])"
        using False by (cases x; cases y) (simp_all add: mul_kind_def)
      then show ?thesis by (simp add: val_mk_product [OF assms] sound_simps(2) [OF assms])
    qed
  qed
qed

lemma operators_value:
  assumes "sound I"
  shows "val I (add_expr x y) = val I x + val I y" "val I (sub_expr x y) = val I x - val I y"
    "val I (mul_expr x y) = val I x * val I y" "val I (nc_mul_expr x y) = val I x * val I y"
    "val I (add_assign x y) = val I x + val I y" "val I (sub_assign x y) = val I x - val I y"
    "val I (mul_assign x y) = val I x * val I y"
proof -
  note I = sound_simps [OF assms]
  have m1: "scal I (-1) = -1" using I(2,5) by metis
  have cs: "val_sum I (sum_summands (clone z)) = val I z" if "is_SumOf z" for z
    using that val_clone [OF assms, of z] by (cases z) (auto simp: val_sum_def)
  note sums = val_append_summand [OF assms] val_prepend_summand [OF assms] val_mk_sum [OF assms] val_negated [OF assms]
  have vs: "val I (SumOf ss) = val_sum I ss" for ss by (simp add: val_sum_def)
  show "val I (add_expr x y) = val I x + val I y"
    using cs by (auto simp: add_expr_def sums vs simp del: val.simps(6)) (simp_all add: val_sum_def)
  show "val I (sub_expr x y) = val I x - val I y"
    using cs by (auto simp: sub_expr_def sums vs simp del: val.simps(6)) (simp_all add: val_sum_def sums(4))
  show "val I (mul_expr x y) = val I x * val I y"
    using val_mul_kind [OF assms] I(4) by (cases x; cases y) (auto simp: mul_expr_def)
  show "val I (nc_mul_expr x y) = val I x * val I y" by (simp add: nc_mul_expr_def val_mul_kind [OF assms])
  have two: "val I (mk_sum [a, b]) = val I a + val I b" for a b by (simp add: sums val_sum_def)
  have prod2: "val I (product_of Plain (mk_product Recursively 1 [a, b])) = val I a * val I b" for a b
    by (simp add: val_mk_product [OF assms] I)
  have neg: "val I (product_of Plain (mk_product Recursively (-1) [a])) = - val I a" for a
    by (simp add: val_mk_product [OF assms] m1)
  have vsum: "val_sum I ss = val I x" if "x = SumOf ss" for ss using that by (simp add: val_sum_def)
  show "val I (add_assign x y) = val I x + val I y"
  proof (cases "is_SumOf x")
    case True
    then show ?thesis using vsum by (cases x) (simp_all add: add_assign_def vs sums(1) del: val.simps append_summand.simps)
  next
    case False
    then show ?thesis using two I(3) by (cases x; cases y) (simp_all add: add_assign_def)
  qed
  have minus: "val_sum I (sum_minus ss y) = val_sum I ss - val I y" for ss
    unfolding sum_minus_def negated_def [symmetric] by (simp add: sums)
  show "val I (sub_assign x y) = val I x - val I y"
  proof (cases "is_SumOf x")
    case True
    then show ?thesis using vsum by (cases x) (simp_all add: sub_assign_def vs minus del: val.simps append_summand.simps)
  next
    case False
    then show ?thesis using two neg I(6) by (cases x; cases y) (simp_all add: sub_assign_def)
  qed
  have times: "val_factors I (product_times st y) = val_factors I st * val I y" for st
    by (cases st; cases y) (simp_all add: product_times_def val_factors_scale [OF assms] val_append_scaled [OF assms] I(2))
  show "val I (mul_assign x y) = val I x * val I y"
    using times prod2 I(4) by (cases x; cases y) (simp_all add: mul_assign_def val_factors_def)
qed


text \<open>Upper triangular matrices over the scalars: a ring in which the scalars are central and atoms need not commute.\<close>

datatype tri = Tri (t11: scalar) (t12: scalar) (t22: scalar)

instantiation tri :: ring_1
begin
definition "0 = Tri 0 0 0"
definition "1 = Tri 1 0 1"
definition "x + y = Tri (t11 x + t11 y) (t12 x + t12 y) (t22 x + t22 y)"
definition "x - y = Tri (t11 x - t11 y) (t12 x - t12 y) (t22 x - t22 y)"
definition "- x = Tri (- t11 x) (- t12 x) (- t22 x)"
definition "x * y = Tri (t11 x * t11 y) (t11 x * t12 y + t12 x * t22 y) (t22 x * t22 y)"
instance
  by standard (simp_all add: zero_tri_def one_tri_def plus_tri_def minus_tri_def uminus_tri_def times_tri_def algebra_simps)
end

lemmas tri_defs = zero_tri_def one_tri_def plus_tri_def minus_tri_def uminus_tri_def times_tri_def

definition tri_interp :: "(nat, tri) interp" where
  "tri_interp =
     \<lparr>scal = (\<lambda>c. Tri c 0 c), vari = (\<lambda>l j. 1), pwr = (\<lambda>b e j. if b = BConstant 0 \<and> 0 < e then 0 else 1),
      atom = (\<lambda>n. if n = 0 then Tri 1 0 0 else Tri 0 1 0)\<rparr>"

lemma tri_sound: "sound tri_interp"
  by (auto simp: sound_def tri_interp_def tri_defs algebra_simps)

text \<open>C5: The operators on expressions compute the ring operations in every ring in which the scalars are
  central (sums, differences, products, noncommuting products, compound assignments), cloning keeps the value,
  and constructors and \<open>append\<close> multiply or add under every flattening tag.\<close>
theorem expression_arithmetic:
  assumes "sound I"
  shows "val I (clone x) = val I x
    \<and> val_factors I (mk_product t c fs) = scal I c * prod_list (map (val I) fs) \<and> val I (mk_sum ss) = sum_list (map (val I) ss)
    \<and> val_factors I (append_scaled t st c x) = val_factors I st * scal I c * val I x
    \<and> val_sum I (append_summand ss x) = val_sum I ss + val I x \<and> val_sum I (prepend_summand ss x) = val I x + val_sum I ss
    \<and> val I (add_expr x y) = val I x + val I y \<and> val I (sub_expr x y) = val I x - val I y
    \<and> val I (mul_expr x y) = val I x * val I y \<and> val I (nc_mul_expr x y) = val I x * val I y
    \<and> val I (add_assign x y) = val I x + val I y \<and> val I (sub_assign x y) = val I x - val I y
    \<and> val I (mul_assign x y) = val I x * val I y"
  by (simp add: val_clone val_mk_product val_mk_sum val_append_scaled val_append_summand val_prepend_summand operators_value assms
      del: clone.simps) (simp add: val_sum_def)

lemma expression_arithmetic_witness:
  "val tri_interp (mul_expr (Atom 0) (Atom 1)) = Tri 0 1 0 \<and> val tri_interp (mul_expr (Atom 1) (Atom 0)) = 0"
  using expression_arithmetic [OF tri_sound, where x = "Atom 0" and y = "Atom 1"]
    expression_arithmetic [OF tri_sound, where x = "Atom 1" and y = "Atom 0"]
  by (simp add: tri_interp_def tri_defs)

text \<open>C31: \<open>clone\<close> puts an expression into a settled form of the same value: no product keeps a constant factor, sums
  are flat, without zero summands and with at most one constant.  An expression equals its clone exactly when it
  is settled, so cloning twice is cloning once; the clone of any other expression, such as a product with a
  constant among its factors, is not equal to it, whatever the documents of \<open>clone\<close> say.  The clone is what appending
  the factors or the cloned summands to an empty product or sum gives.\<close>
theorem clone_settles:
  "settled (clone e) \<and> clone (clone e) = clone e \<and> (clone e = e \<longleftrightarrow> settled e)
   \<and> (sound I \<longrightarrow> val I (clone e) = val I e)
   \<and> clone (SumOf ss) = mk_sum (map clone ss) \<and> clone (Product k c fs) = product_of k (mk_product No c fs)"
  using clone_as_written(1) [of ss] clone_as_written(2) [of k c fs] settled_clone [of e] clone_settled [of e] val_clone [of I e]
  by (auto simp: mk_sum_def mk_product_def product_of_def split: prod.splits simp del: clone.simps)

lemma clone_settles_witness:
  "settled (clone (Product Plain 1 [Constant 2, Atom 0])) \<and> clone (Product Plain 1 [Constant 2, Atom 0]) \<noteq> Product Plain 1 [Constant 2, Atom 0]
   \<and> val tri_interp (clone (Product Plain 1 [Constant 2, Atom 0])) = val tri_interp (Product Plain 1 [Constant 2, Atom 0])"
  using clone_settles [of "Product Plain 1 [Constant 2, Atom 0]" tri_interp] tri_sound by auto

text \<open>A clone need be neither equal nor identical: a constant among the factors moves into the scalar, nested sums
  are merged and zero summands dropped.\<close>

lemma clone_not_identical:
  "clone (Product k c [Constant v, Atom a]) = Product k (c * v) [Atom a]"
  "clone (Product k c [Constant v, Atom a]) \<noteq> Product k c [Constant v, Atom a]"
  "clone (SumOf [SumOf [Atom a], Constant 0]) = SumOf [Atom a]"
  by (simp_all add: add_summand_def)

text \<open>Prepending a product does not multiply by it from the left: without flattening its scalar is counted
  twice, with flattening its factors arrive in the reverse order, so the value is wrong for noncommuting factors.\<close>
theorem prepend_of_product:
  "prepend_scaled No (d, gs) s (Product k c fs) = (d * s * c, clone (Product k c fs) # gs)
   \<and> prepend_scaled Recursively (d, gs) s (Product k c [Atom a, Atom b]) = (d * s * c, Atom b # Atom a # gs)
   \<and> val_factors tri_interp (prepend_scaled No (1, []) 1 (Product Plain 2 [Atom 0])) = Tri 4 0 0
   \<and> val tri_interp (Product Plain 2 [Atom 0]) = Tri 2 0 0
   \<and> val_factors tri_interp (prepend_scaled Recursively (1, []) 1 (Product Plain 1 [Atom 0, Atom 1])) = 0
   \<and> val tri_interp (Product Plain 1 [Atom 0, Atom 1]) = Tri 0 1 0"
proof -
  have "val tri_interp (clone (Product Plain 2 [Atom 0])) = val tri_interp (Product Plain 2 [Atom 0])"
    by (rule val_clone [OF tri_sound])
  then have "val_factors tri_interp (prepend_scaled No (1, []) 1 (Product Plain 2 [Atom 0])) = Tri 2 0 2 * Tri 2 0 0"
    by (simp add: prepend_scaled_def val_factors_def tri_interp_def tri_defs)
  then show ?thesis by (simp add: prepend_scaled_def val_factors_def tri_interp_def tri_defs del: clone.simps(1))
qed

end
