(* ===== verification/Adjoints.thy ===== *)
theory Adjoints
  imports Expressions
begin

text \<open>
  SeQuant/core/expressions: the adjoints of expressions, and the number of nodes of a tree, which cloning does
  not increase.
\<close>

section \<open>Adjoints\<close>

primrec nodes :: "'a expr \<Rightarrow> nat" where
  "nodes (Constant c) = 1"
| "nodes (Variable l j) = 1"
| "nodes (Power b e j) = 1"
| "nodes (Atom a) = 1"
| "nodes (Product k c fs) = Suc (sum_list (map nodes fs))"
| "nodes (SumOf ss) = Suc (sum_list (map nodes ss))"

lemma nodes_pos [simp]: "0 < nodes e"
  by (cases e) simp_all

lemma nodes_add_summand: "sum_list (map nodes (add_summand ss e)) \<le> sum_list (map nodes ss) + nodes e"
proof (cases "is_zero e \<or> \<not> is_Constant e \<or> constant_position ss = None")
  case True
  then show ?thesis by (cases e) (auto simp: add_summand_def)
next
  case False
  then obtain v i where v: "e = Constant v" "v \<noteq> 0" and i: "constant_position ss = Some i" by (cases e) auto
  note ii = constant_position_Some [OF i]
  have "sum_list (map nodes ss) = sum_list (map nodes (take i ss)) + nodes (ss ! i) + sum_list (map nodes (drop (Suc i) ss))"
    by (subst split_at [OF ii(1)]) simp
  moreover have "0 < nodes (ss ! i)" by simp
  ultimately show ?thesis using v i by (simp add: add_summand_def fold_into_cases [OF ii(1)])
qed

lemma nodes_foldl_sum:
  assumes "\<And>ss e. e \<in> set es \<Longrightarrow> sum_list (map nodes (g ss e)) \<le> sum_list (map nodes ss) + nodes e"
  shows "sum_list (map nodes (foldl g ss es)) \<le> sum_list (map nodes ss) + sum_list (map nodes es)"
  using assms
proof (induction es arbitrary: ss)
  case (Cons e es)
  have "sum_list (map nodes (foldl g (g ss e) es)) \<le> sum_list (map nodes (g ss e)) + sum_list (map nodes es)"
    using Cons by simp
  then show ?case using Cons.prems [of e ss] by simp
qed simp

lemma nodes_add_summands: "sum_list (map nodes (add_summands ss e)) \<le> sum_list (map nodes ss) + nodes e"
proof (induction ss e rule: add_summands.induct)
  case (1 ss ts)
  then show ?case using nodes_foldl_sum [of ts add_summands ss] by simp
qed (use nodes_add_summand in \<open>fastforce simp del: nodes.simps\<close>)+

lemma nodes_clone: "nodes (clone e) \<le> nodes e"
proof (induction e rule: clone.induct)
  case (1 k c fs)
  have "sum_list (map nodes (filter P (map clone fs))) \<le> sum_list (map nodes fs)" for P
    using 1 by (induction fs) (auto simp del: clone.simps intro: add_le_mono le_trans [OF _ le_add2] trans_le_add2)
  then show ?case by (simp add: clone_Product del: clone.simps)
next
  case (2 ss)
  have "sum_list (map nodes (foldl add_summands [] (map clone ss))) \<le> sum_list (map nodes (map clone ss))"
    using nodes_foldl_sum [of "map clone ss" add_summands "[]", OF nodes_add_summands] by (simp del: map_map)
  moreover have "sum_list (map nodes (map clone ss)) \<le> sum_list (map nodes ss)"
    using 2 by (induction ss) (auto simp del: clone.simps intro: add_le_mono)
  ultimately show ?case by simp
qed simp_all

lemma nodes_child: "f \<in> set fs \<Longrightarrow> nodes f \<le> sum_list (map nodes fs)"
  by (induction fs) auto

text \<open>\<open>Expr::adjoint\<close>; the free function \<open>adjoint\<close> applies it to a clone.\<close>

function adj :: "('a, 'm) atom_ops_scheme \<Rightarrow> 'a expr \<Rightarrow> 'a expr" where
  "adj A (Constant c) = Constant (conj_scalar c)"
| "adj A (Variable l j) = Variable l (\<not> j)"
| "adj A (Power b e j) = Power b e (\<not> j)"
| "adj A (Atom a) = Atom (adjoint_atom A a)"
| "adj A (Product k c fs) =
     product_of k (mk_product Recursively (conj_scalar c)
       (map (\<lambda>f. adj A (clone f)) (if k = Commutative then fs else rev fs)))"
| "adj A (SumOf ss) = mk_sum (map (\<lambda>s. adj A (clone s)) ss)"
  by pat_completeness auto
termination
proof (relation "measure (nodes \<circ> snd)")
  show "(((A :: ('a, 'm) atom_ops_scheme), clone f), A, Product k c fs) \<in> measure (nodes \<circ> snd)"
    if "f \<in> set (if k = Commutative then fs else rev fs)" for A and f :: "'a expr" and k c fs
    using that nodes_clone [of f] nodes_child [of f fs] by (simp split: if_splits)
  show "(((A :: ('a, 'm) atom_ops_scheme), clone s), A, SumOf ss) \<in> measure (nodes \<circ> snd)"
    if "s \<in> set ss" for A and s :: "'a expr" and ss
    using that nodes_clone [of s] nodes_child [of s ss] by simp
qed simp

text \<open>A star operation that agrees with the adjoints of the leaves.\<close>

definition star_sound :: "('a, 'r::ring_1) interp \<Rightarrow> ('a, 'm) atom_ops_scheme \<Rightarrow> ('r \<Rightarrow> 'r) \<Rightarrow> bool" where
  "star_sound I A st \<longleftrightarrow> (\<forall>x y. st (x + y) = st x + st y) \<and> (\<forall>x y. st (x * y) = st y * st x)
     \<and> (\<forall>c. st (scal I c) = scal I (conj_scalar c)) \<and> (\<forall>l j. st (vari I l j) = vari I l (\<not> j))
     \<and> (\<forall>b e j. st (pwr I b e j) = pwr I b e (\<not> j)) \<and> (\<forall>a. st (atom I a) = atom I (adjoint_atom A a))"

text \<open>The factors of the products declared commutative commute.\<close>

fun kinds_ok :: "('a, 'r::ring_1) interp \<Rightarrow> 'a expr \<Rightarrow> bool" where
  "kinds_ok I (Product k c fs) \<longleftrightarrow> list_all (kinds_ok I) fs
     \<and> (k = Commutative \<longrightarrow> (\<forall>f\<in>set fs. \<forall>g\<in>set fs. val I f * val I g = val I g * val I f))"
| "kinds_ok I (SumOf ss) \<longleftrightarrow> list_all (kinds_ok I) ss"
| "kinds_ok I e \<longleftrightarrow> True"

lemma add_summand_mem: "x \<in> set (add_summand ss e) \<Longrightarrow> x \<in> set ss \<or> x = e \<or> is_Constant x"
  by (cases e) (auto simp: add_summand_def fold_into_def erase_at_def Let_def split: option.splits if_splits
      dest: in_set_takeD in_set_dropD set_update_subset_insert [THEN subsetD])

lemma kinds_ok_add_summand: "list_all (kinds_ok I) ss \<Longrightarrow> kinds_ok I e \<Longrightarrow> list_all (kinds_ok I) (add_summand ss e)"
  unfolding list_all_iff
proof
  fix x assume "\<forall>x\<in>set ss. kinds_ok I x" "kinds_ok I e" "x \<in> set (add_summand ss e)"
  then show "kinds_ok I x" using add_summand_mem [of x ss e] by (cases x) auto
qed

lemma kinds_ok_add_summands: "list_all (kinds_ok I) ss \<Longrightarrow> kinds_ok I e \<Longrightarrow> list_all (kinds_ok I) (add_summands ss e)"
proof (induction ss e rule: add_summands.induct)
  case (1 ss ts)
  have "list_all (kinds_ok I) (foldl add_summands acc ys)" if "set ys \<subseteq> set ts" "list_all (kinds_ok I) acc" for acc ys
    using that
  proof (induction ys arbitrary: acc)
    case (Cons y ys)
    have y: "y \<in> set ts" "kinds_ok I y" using Cons.prems(1) 1(3) by (auto simp: list_all_iff)
    show ?case using Cons.IH [of "add_summands acc y"] 1(1) [OF y(1) Cons.prems(2) y(2)] Cons.prems(1) by simp
  qed simp
  then show ?case using 1(2) by simp
qed (simp_all add: kinds_ok_add_summand)

lemma kinds_ok_clone: "sound I \<Longrightarrow> kinds_ok I e \<Longrightarrow> kinds_ok I (clone e)"
proof (induction e rule: clone.induct)
  case (1 k c fs)
  then show ?case by (auto simp: clone_Product list_all_iff val_clone simp del: clone.simps(1))
next
  case (2 ss)
  have "list_all (kinds_ok I) (foldl add_summands acc ys)" if "\<forall>y\<in>set ys. kinds_ok I y" "list_all (kinds_ok I) acc" for acc ys
    using that by (induction ys arbitrary: acc) (auto simp: kinds_ok_add_summands)
  from this [of "map clone ss" "[]"] 2 show ?case by (auto simp: list_all_iff)
qed simp_all

lemma star_prod:
  assumes "star_sound I A st" "sound I"
  shows "st (prod_list xs) = prod_list (map st (rev xs))" "st (sum_list xs) = sum_list (map st xs)"
proof -
  note S = assms(1) [unfolded star_sound_def]
  have one: "conj_scalar 1 = 1" and zero: "conj_scalar 0 = 0" by (simp_all add: conj_scalar_def scalar_defs)
  have "st 1 = 1" using S sound_simps(2) [OF assms(2)] one by metis
  then show "st (prod_list xs) = prod_list (map st (rev xs))" using S by (induction xs) simp_all
  have "st 0 = 0" using S sound_simps(1) [OF assms(2)] zero by metis
  then show "st (sum_list xs) = sum_list (map st xs)" using S by (induction xs) simp_all
qed

lemma prod_list_rev:
  assumes "\<forall>x\<in>set xs. \<forall>y\<in>set xs. x * y = y * (x :: 'r::monoid_mult)"
  shows "prod_list (rev xs) = prod_list xs"
  using assms
proof (induction xs)
  case (Cons x xs)
  have "prod_list ys * x = x * prod_list ys" if "set ys \<subseteq> set xs" for ys
    using that Cons.prems by (induction ys) (auto simp: mult.assoc, metis mult.assoc)
  then show ?case using Cons by simp
qed simp

text \<open>C32: The adjoint of an expression has the adjoint value under every star operation that agrees with the
  adjoints of the leaves, provided that the factors of the products declared commutative commute: scalars
  are conjugated, the factors of other products reversed, all factors and summands adjoint.\<close>
theorem adjoint_value:
  assumes "sound I" "star_sound I A st" "kinds_ok I e"
  shows "val I (adj A e) = st (val I e) \<and> val I (adj A (clone e)) = st (val I e)"
proof -
  have main: "val I (adj A e) = st (val I e)" if "kinds_ok I e" "star_sound I A st" for A :: "('a, 'm) atom_ops_scheme" and e
    using that
  proof (induction A e rule: adj.induct)
    case (5 A k c fs)
    note S = 5(3) [unfolded star_sound_def]
    let ?fs = "if k = Commutative then fs else rev fs"
    have IH: "val I (adj A (clone f)) = st (val I f)" if "f \<in> set fs" for f
    proof -
      have "kinds_ok I (clone f)" using 5(2) that by (auto simp: list_all_iff intro: kinds_ok_clone [OF assms(1)])
      then have "val I (adj A (clone f)) = st (val I (clone f))" using 5(1) [of f] 5(3) that by auto
      then show ?thesis by (simp add: val_clone [OF assms(1)])
    qed
    have "prod_list (map (\<lambda>f. st (val I f)) ?fs) = prod_list (map st (rev (map (val I) fs)))"
    proof (cases "k = Commutative")
      case True
      then have "\<forall>x\<in>set fs. \<forall>y\<in>set fs. st (val I x) * st (val I y) = st (val I y) * st (val I x)"
        using 5(2) S by simp metis
      then have "prod_list (rev (map (\<lambda>f. st (val I f)) fs)) = prod_list (map (\<lambda>f. st (val I f)) fs)"
        by (intro prod_list_rev) auto
      then show ?thesis using True by (simp add: rev_map comp_def)
    qed (simp add: rev_map comp_def)
    moreover have "map (\<lambda>f. val I (adj A (clone f))) ?fs = map (\<lambda>f. st (val I f)) ?fs" using IH by simp
    moreover have "val I (adj A (Product k c fs)) = scal I (conj_scalar c) * prod_list (map (\<lambda>f. val I (adj A (clone f))) ?fs)"
      by (simp add: val_mk_product [OF assms(1)] comp_def del: clone.simps)
    ultimately have "val I (adj A (Product k c fs)) = scal I (conj_scalar c) * st (prod_list (map (val I) fs))"
      by (simp only: star_prod(1) [OF 5(3) assms(1)])
    then show ?case using S by (simp add: central(1) [OF assms(1)])
  next
    case (6 A ss)
    have "val I (adj A (clone s)) = st (val I s)" if "s \<in> set ss" for s
    proof -
      have "kinds_ok I (clone s)" using 6(2) that by (auto simp: list_all_iff intro: kinds_ok_clone [OF assms(1)])
      then have "val I (adj A (clone s)) = st (val I (clone s))" using 6(1) [of s] 6(3) that by auto
      then show ?thesis by (simp add: val_clone [OF assms(1)])
    qed
    then have "map (\<lambda>s. val I (adj A (clone s))) ss = map st (map (val I) ss)" by simp
    moreover have "val I (adj A (SumOf ss)) = sum_list (map (\<lambda>s. val I (adj A (clone s))) ss)"
      by (simp add: val_mk_sum [OF assms(1)] val_sum_def comp_def del: clone.simps)
    ultimately show ?case by (simp only: val.simps star_prod(2) [OF 6(3) assms(1)])
  qed (simp_all add: star_sound_def)
  show ?thesis using main [OF assms(3,2)] main [OF kinds_ok_clone [OF assms(1,3)] assms(2)] by (simp add: val_clone [OF assms(1)])
qed

definition scalar_interp :: "(nat, scalar) interp" where
  "scalar_interp =
     \<lparr>scal = (\<lambda>c. c), vari = (\<lambda>l j. 1), pwr = (\<lambda>b e j. if b = BConstant 0 \<and> 0 < e then 0 else 1),
      atom = (\<lambda>n. of_nat n)\<rparr>"

definition self_adjoint :: "nat atom_ops" where
  "self_adjoint = \<lparr>cnumber = (\<lambda>_. True), commutes_atoms = (\<lambda>_ _. True), adjoint_atom = (\<lambda>a. a)\<rparr>"

lemma scalar_interp_sound: "sound scalar_interp"
  by (auto simp: sound_def scalar_interp_def mult.commute)

lemma conj_of_nat: "conj_scalar (of_nat n) = of_nat n"
proof (induction n)
  case 0
  then show ?case by (simp add: conj_scalar_def scalar_defs)
next
  case (Suc n)
  then show ?case by (cases "of_nat n :: scalar") (simp add: conj_scalar_def scalar_defs)
qed

lemma scalar_star: "star_sound scalar_interp self_adjoint conj_scalar"
proof -
  have "conj_scalar 0 = 0" "conj_scalar 1 = 1" by (simp_all add: conj_scalar_def scalar_defs)
  moreover have "conj_scalar (x + y) = conj_scalar x + conj_scalar y" "conj_scalar (x * y) = conj_scalar y * conj_scalar x" for x y
    by (simp_all add: conj_scalar_def scalar_defs algebra_simps)
  ultimately show ?thesis by (auto simp: star_sound_def scalar_interp_def self_adjoint_def conj_of_nat)
qed

lemma adjoint_value_witness:
  "val scalar_interp (adj self_adjoint (Product Plain (Scalar 0 1) [Atom 2, Atom 3])) = Scalar 0 (- 6)"
proof -
  have "kinds_ok scalar_interp (Product Plain (Scalar 0 1) [Atom 2, Atom 3])" by simp
  from adjoint_value [OF scalar_interp_sound scalar_star this]
  have "val scalar_interp (adj self_adjoint (Product Plain (Scalar 0 1) [Atom 2, Atom 3])) = conj_scalar (Scalar 0 1 * (2 * 3))"
    by (simp add: scalar_interp_def)
  moreover have "(2 :: scalar) * 3 = Scalar 6 0"
  proof -
    have "(2 :: scalar) = 1 + 1" "(3 :: scalar) = 1 + 1 + 1" by simp_all
    then show ?thesis by (simp only: scalar_defs scalar.sel) (simp add: scalar_defs)
  qed
  ultimately show ?thesis by (simp add: conj_scalar_def times_scalar_def)
qed

end
