(* ===== verification/SumCache.thy ===== *)
theory SumCache
  imports Adjoints
begin

text \<open>
  SeQuant/core/expressions/sum.hpp, sum.cpp: the class \<open>Sum\<close> with its cached position of the constant summand.
  The cache is invalidated when mutable iterators are handed out and recomputed when it is read.
\<close>

section \<open>The state of a sum\<close>

record 'a sum_state =
  summands :: "'a expr list"
  constant_summand_idx :: "nat option"
  constant_summand_idx_valid :: bool

definition empty_sum :: "'a sum_state" where
  "empty_sum = \<lparr>summands = [], constant_summand_idx = None, constant_summand_idx_valid = True\<rparr>"

definition invalidate_summand_caches :: "'a sum_state \<Rightarrow> 'a sum_state" where
  "invalidate_summand_caches s = s\<lparr>constant_summand_idx_valid := False\<rparr>"

text \<open>\<open>begin_subexpr\<close> and \<open>end_subexpr\<close>; the caller may then replace the summands by others.\<close>

definition hand_out :: "'a sum_state \<Rightarrow> 'a sum_state" where
  "hand_out s = (if summands s \<noteq> [] then invalidate_summand_caches s else s)"

definition replace_summand :: "'a sum_state \<Rightarrow> nat \<Rightarrow> 'a expr \<Rightarrow> 'a sum_state" where
  "replace_summand s i e = (hand_out s)\<lparr>summands := (summands s)[i := e]\<rparr>"

text \<open>The function \<open>constant_summand_idx\<close>: recomputes the cache if it is not valid.\<close>

definition refresh :: "'a sum_state \<Rightarrow> 'a sum_state" where
  "refresh s =
     (if constant_summand_idx_valid s then s
      else s\<lparr>constant_summand_idx := constant_position (summands s), constant_summand_idx_valid := True\<rparr>)"

definition fold_constant :: "'a sum_state \<Rightarrow> scalar \<Rightarrow> (expr_error, 'a sum_state) result" where
  "fold_constant s v =
     (case constant_summand_idx s of
        None \<Rightarrow> Inl NotAConstant
      | Some i \<Rightarrow>
          if length (summands s) \<le> i then Inl BadConstantIndex
          else if \<not> is_Constant (summands s ! i) then Inl NotAConstant
          else Inr (s\<lparr>summands := (summands s)[i := Constant (const_value (summands s ! i) + v)]\<rparr>))"

definition drop_zero_constant :: "'a sum_state \<Rightarrow> (expr_error, 'a sum_state) result" where
  "drop_zero_constant s =
     (case constant_summand_idx s of
        None \<Rightarrow> Inr s
      | Some i \<Rightarrow>
          if length (summands s) \<le> i then Inl BadConstantIndex
          else if is_zero (summands s ! i)
          then Inr (s\<lparr>summands := erase_at i (summands s), constant_summand_idx := None\<rparr>)
          else Inr s)"

definition append_constant :: "'a sum_state \<Rightarrow> scalar \<Rightarrow> (expr_error, 'a sum_state) result" where
  "append_constant s v =
     (let s = refresh s
      in if constant_summand_idx s \<noteq> None then bind_res (fold_constant s v) drop_zero_constant
         else Inr (s\<lparr>summands := summands s @ [Constant v], constant_summand_idx := Some (length (summands s))\<rparr>))"

fun sum_append :: "'a sum_state \<Rightarrow> 'a expr \<Rightarrow> (expr_error, 'a sum_state) result" where
  "sum_append s (SumOf ts) = foldl (\<lambda>r t. bind_res r (\<lambda>s. sum_append s t)) (Inr s) ts"
| "sum_append s (Constant v) = (if v = 0 then Inr s else append_constant s v)"
| "sum_append s e = Inr (if is_zero e then s else s\<lparr>summands := summands s @ [clone e]\<rparr>)"

definition prepend_constant :: "'a sum_state \<Rightarrow> scalar \<Rightarrow> (expr_error, 'a sum_state) result" where
  "prepend_constant s v =
     (let s = refresh s
      in if constant_summand_idx s \<noteq> None then bind_res (fold_constant s v) drop_zero_constant
         else Inr (s\<lparr>summands := Constant v # summands s, constant_summand_idx := Some 0\<rparr>))"

text \<open>The summand is inserted before the cached position is read.\<close>

definition prepend_other :: "'a sum_state \<Rightarrow> 'a expr \<Rightarrow> 'a sum_state" where
  "prepend_other s e =
     (let s = refresh (s\<lparr>summands := e # summands s\<rparr>)
      in s\<lparr>constant_summand_idx := map_option Suc (constant_summand_idx s)\<rparr>)"

fun sum_prepend :: "'a sum_state \<Rightarrow> 'a expr \<Rightarrow> (expr_error, 'a sum_state) result" where
  "sum_prepend s (SumOf ts) = foldl (\<lambda>r t. bind_res r (\<lambda>s. sum_prepend s t)) (Inr s) ts"
| "sum_prepend s (Constant v) = (if v = 0 then Inr s else prepend_constant s v)"
| "sum_prepend s e = Inr (if is_zero e then s else prepend_other s (clone e))"

text \<open>The constructor that moves the summands in: the loop over \<open>it\<close> and \<open>pos\<close> is a loop over what is left.\<close>

fun move_loop :: "'a sum_state \<Rightarrow> 'a expr list \<Rightarrow> (expr_error, 'a sum_state) result" where
  "move_loop s [] = drop_zero_constant s"
| "move_loop s (e # es) =
     (if is_zero e then move_loop s es
      else if is_Constant e
      then if constant_summand_idx s \<noteq> None
           then bind_res (fold_constant s (const_value e)) (\<lambda>s. move_loop s es)
           else move_loop (s\<lparr>summands := summands s @ [e], constant_summand_idx := Some (length (summands s))\<rparr>) es
      else move_loop (s\<lparr>summands := summands s @ [e]\<rparr>) es)"

definition sum_move :: "'a expr list \<Rightarrow> (expr_error, 'a sum_state) result" where
  "sum_move es = move_loop empty_sum es"

section \<open>The cache is coherent\<close>

definition at_most_one :: "'a expr list \<Rightarrow> bool" where
  "at_most_one ss \<longleftrightarrow> length (filter is_Constant ss) \<le> 1"

definition coherent :: "'a sum_state \<Rightarrow> bool" where
  "coherent s \<longleftrightarrow> at_most_one (summands s)
     \<and> (constant_summand_idx_valid s \<longrightarrow> constant_summand_idx s = constant_position (summands s))"

lemma constant_position_snoc:
  "constant_position (ss @ [e]) = (case constant_position ss of Some i \<Rightarrow> Some i | None \<Rightarrow> if is_Constant e then Some (length ss) else None)"
proof (cases "\<exists>s\<in>set ss. is_Constant s")
  case True
  then have "takeWhile (Not \<circ> is_Constant) (ss @ [e]) = takeWhile (Not \<circ> is_Constant) ss" by (auto intro: takeWhile_append1)
  then show ?thesis using True by (simp add: constant_position_def)
next
  case False
  then have "takeWhile (Not \<circ> is_Constant) ss = ss" by (simp add: takeWhile_eq_all_conv)
  then show ?thesis using False by (auto simp: constant_position_def takeWhile_append)
qed

lemma constant_position_Cons:
  "constant_position (e # ss) = (if is_Constant e then Some 0 else map_option Suc (constant_position ss))"
  by (simp add: constant_position_def)

lemma constant_position_update:
  assumes "constant_position ss = Some i"
  shows "constant_position (ss[i := Constant w]) = Some i"
  using assms
proof (induction ss arbitrary: i)
  case (Cons s ss)
  then show ?case by (cases "is_Constant s") (auto simp: constant_position_Cons split: nat.splits)
qed (simp add: constant_position_def)

lemma at_most_one_split:
  assumes "at_most_one ss" "constant_position ss = Some i"
  shows "filter is_Constant (take i ss) = []" "filter is_Constant (drop (Suc i) ss) = []"
proof -
  note ii = constant_position_Some [OF assms(2)]
  have "filter is_Constant ss = filter is_Constant (take i ss) @ ss ! i # filter is_Constant (drop (Suc i) ss)"
    by (subst split_at [OF ii(1)]) (simp add: ii(2))
  then show "filter is_Constant (take i ss) = []" "filter is_Constant (drop (Suc i) ss) = []"
    using assms(1) by (auto simp: at_most_one_def)
qed

text \<open>Adding a constant to the recorded one is \<open>fold_into\<close>.\<close>

lemma fold_drop:
  assumes "coherent s" "constant_summand_idx_valid s" "constant_summand_idx s = Some i"
  shows "\<exists>s'. bind_res (fold_constant s v) drop_zero_constant = Inr s' \<and> coherent s' \<and> constant_summand_idx_valid s'
    \<and> summands s' = fold_into (summands s) i v"
proof -
  let ?ss = "summands s"
  have i: "constant_position ?ss = Some i" and one: "at_most_one ?ss" using assms by (auto simp: coherent_def)
  note ii = constant_position_Some [OF i]
  note none = at_most_one_split [OF one i]
  let ?w = "const_value (?ss ! i) + v"
  have drop: "drop (Suc i) (?ss[i := Constant ?w]) = drop (Suc i) ?ss" "take i (?ss[i := Constant ?w]) = take i ?ss"
    by simp_all
  have er: "erase_at i (?ss[i := x]) = erase_at i ?ss" for x by (simp add: erase_at_def)
  have "constant_position (erase_at i ?ss) = None" "at_most_one (erase_at i ?ss)"
    using none by (auto simp: erase_at_def constant_position_None at_most_one_def filter_empty_conv)
  moreover have "at_most_one (?ss[i := Constant ?w])"
    using none ii(1) by (simp add: at_most_one_def upd_conv_take_nth_drop)
  ultimately show ?thesis
    using assms(2,3) ii one i constant_position_update [OF i]
    by (auto simp: fold_constant_def drop_zero_constant_def coherent_def fold_into_def Let_def er)
qed

lemma refresh_coherent:
  "coherent s \<Longrightarrow> coherent (refresh s) \<and> constant_summand_idx_valid (refresh s) \<and> summands (refresh s) = summands s
     \<and> constant_summand_idx (refresh s) = constant_position (summands s)"
  by (auto simp: coherent_def refresh_def)

lemma append_constant_ok:
  assumes "coherent s" "v \<noteq> 0"
  shows "\<exists>s'. append_constant s v = Inr s' \<and> coherent s' \<and> summands s' = add_summand (summands s) (Constant v)"
proof -
  note r = refresh_coherent [OF assms(1)]
  show ?thesis
  proof (cases "constant_position (summands s)")
    case None
    then have "filter is_Constant (summands s) = []" by (simp add: constant_position_None filter_empty_conv)
    then show ?thesis using r assms(2) None
      by (auto simp: append_constant_def Let_def add_summand_def coherent_def at_most_one_def constant_position_snoc)
  next
    case (Some i)
    then show ?thesis using r fold_drop [of "refresh s" i v] assms(2) by (auto simp: append_constant_def Let_def add_summand_def)
  qed
qed

lemma prepend_constant_ok:
  assumes "coherent s" "v \<noteq> 0"
  shows "\<exists>s'. prepend_constant s v = Inr s' \<and> coherent s' \<and> constant_summand_idx_valid s'
    \<and> summands s' = prepend_summand (summands s) (Constant v)"
proof -
  note r = refresh_coherent [OF assms(1)]
  show ?thesis
  proof (cases "constant_position (summands s)")
    case None
    then have "filter is_Constant (summands s) = []" by (simp add: constant_position_None filter_empty_conv)
    then show ?thesis using r assms(2) None
      by (auto simp: prepend_constant_def Let_def coherent_def at_most_one_def constant_position_Cons)
  next
    case (Some i)
    then show ?thesis using r fold_drop [of "refresh s" i v] assms(2) by (auto simp: prepend_constant_def Let_def)
  qed
qed

lemma fold_states:
  assumes "\<And>s t. t \<in> set ts \<Longrightarrow> P s \<Longrightarrow> \<exists>s'. f s t = Inr s' \<and> P s' \<and> summands s' = g (summands s) t" "P s"
  shows "\<exists>s'. foldl (\<lambda>r t. bind_res r (\<lambda>s. f s t)) (Inr s) ts = Inr s' \<and> P s' \<and> summands s' = foldl g (summands s) ts"
  using assms
proof (induction ts arbitrary: s)
  case (Cons t ts)
  obtain s1 where s1: "f s t = Inr s1" "P s1" "summands s1 = g (summands s) t" using Cons.prems(1) [of t s] Cons.prems(2) by auto
  have "\<exists>s'. foldl (\<lambda>r t. bind_res r (\<lambda>s. f s t)) (Inr s1) ts = Inr s' \<and> P s' \<and> summands s' = foldl g (summands s1) ts"
    using Cons.prems(1) s1(2) by (intro Cons.IH) auto
  then show ?case using s1 by simp
qed simp

lemma sum_append_ok:
  "coherent s \<Longrightarrow> \<exists>s'. sum_append s e = Inr s' \<and> coherent s' \<and> summands s' = append_summand (summands s) e"
proof (induction s e rule: sum_append.induct)
  case (1 s ts)
  show ?case unfolding sum_append.simps append_summand.simps
    by (rule fold_states) (use 1 in auto)
next
  case (2 s v)
  then show ?case using append_constant_ok [OF 2, of v] by (auto simp: add_summand_def)
qed (auto simp: coherent_def at_most_one_def constant_position_snoc clone_Product simp del: clone.simps(1) split: option.splits)

lemma sum_prepend_ok:
  "coherent s \<Longrightarrow> constant_summand_idx_valid s \<Longrightarrow>
     \<exists>s'. sum_prepend s e = Inr s' \<and> coherent s' \<and> constant_summand_idx_valid s' \<and> summands s' = prepend_summand (summands s) e"
proof (induction s e rule: sum_prepend.induct)
  case (1 s ts)
  have "\<exists>s'. foldl (\<lambda>r t. bind_res r (\<lambda>s. sum_prepend s t)) (Inr s) ts = Inr s' \<and> (coherent s' \<and> constant_summand_idx_valid s')
      \<and> summands s' = foldl prepend_summand (summands s) ts"
    by (rule fold_states [where P = "\<lambda>s. coherent s \<and> constant_summand_idx_valid s"]) (use 1 in auto)
  then show ?case by auto
next
  case (2 s v)
  then show ?case using prepend_constant_ok [OF 2(1), of v] by auto
qed (auto simp: coherent_def at_most_one_def prepend_other_def refresh_def Let_def constant_position_Cons clone_Product simp del: clone.simps(1))

lemma fold_constant_ok:
  assumes "coherent s" "constant_summand_idx_valid s" "constant_summand_idx s = Some i"
  shows "\<exists>s'. fold_constant s v = Inr s' \<and> coherent s' \<and> constant_summand_idx_valid s'
    \<and> summands s' = (summands s)[i := Constant (const_value (summands s ! i) + v)]"
proof -
  have i: "constant_position (summands s) = Some i" and one: "at_most_one (summands s)" using assms by (auto simp: coherent_def)
  note ii = constant_position_Some [OF i]
  have "at_most_one ((summands s)[i := Constant w])" for w
    using at_most_one_split [OF one i] ii(1) by (simp add: at_most_one_def upd_conv_take_nth_drop)
  then show ?thesis
    using assms(2,3) i ii constant_position_update [OF i] by (auto simp: fold_constant_def coherent_def)
qed

text \<open>The constants of a list added up at the position of the first one, and dropped if they cancel.\<close>

definition merge_constants :: "'a expr list \<Rightarrow> 'a expr list" where
  "merge_constants es =
     (case constant_position es of
        None \<Rightarrow> es
      | Some i \<Rightarrow>
          let w = sum_list (map const_value (filter is_Constant es))
          in take i es @ (if w = 0 then [] else [Constant w]) @ filter (Not \<circ> is_Constant) (drop (Suc i) es))"

lemma constant_position_append: "constant_position ss = Some i \<Longrightarrow> constant_position (ss @ xs) = Some i"
  by (induction ss arbitrary: i) (auto simp: constant_position_Cons constant_position_def split: if_splits)

lemma merge_fold:
  assumes "constant_position ss = Some i" "at_most_one ss" "is_Constant e"
  shows "merge_constants (ss[i := Constant (const_value (ss ! i) + const_value e)] @ es) = merge_constants (ss @ e # es)"
proof -
  note ii = constant_position_Some [OF assms(1)] and none = at_most_one_split [OF assms(2,1)]
  let ?c = "Constant (const_value (ss ! i) + const_value e)"
  have "constant_position (ss[i := ?c] @ es) = Some i" "constant_position (ss @ e # es) = Some i"
    using constant_position_append [OF constant_position_update [OF assms(1)]] constant_position_append [OF assms(1)] by auto
  moreover have "filter is_Constant (ss[i := ?c]) = [?c]"
    using none ii(1) by (simp add: upd_conv_take_nth_drop)
  moreover have "filter is_Constant ss = [ss ! i]"
    using none ii by (subst split_at [OF ii(1)]) simp
  ultimately show ?thesis using ii(1) assms(3) by (simp add: merge_constants_def Let_def add.assoc)
qed

lemma drop_zero_ok:
  assumes "coherent s" "constant_summand_idx_valid s"
  shows "\<exists>s'. drop_zero_constant s = Inr s' \<and> coherent s' \<and> constant_summand_idx_valid s'
    \<and> summands s' = merge_constants (summands s)"
proof (cases "constant_summand_idx s")
  case None
  then have "constant_position (summands s) = None" using assms by (simp add: coherent_def)
  then show ?thesis using assms None by (simp add: drop_zero_constant_def merge_constants_def)
next
  case (Some i)
  let ?ss = "summands s"
  have i: "constant_position ?ss = Some i" and one: "at_most_one ?ss" using assms Some by (auto simp: coherent_def)
  note ii = constant_position_Some [OF i] and none = at_most_one_split [OF one i]
  have "constant_position (erase_at i ?ss) = None" "at_most_one (erase_at i ?ss)"
    using none by (auto simp: erase_at_def constant_position_None at_most_one_def filter_empty_conv)
  moreover have "merge_constants ?ss = (if is_zero (?ss ! i) then erase_at i ?ss else ?ss)"
  proof -
    obtain c where c: "?ss ! i = Constant c" using ii(2) by (cases "?ss ! i") auto
    have "filter is_Constant ?ss = [Constant c]" using none ii c by (subst split_at [OF ii(1)]) simp
    moreover have "filter (Not \<circ> is_Constant) (drop (Suc i) ?ss) = drop (Suc i) ?ss"
      using none(2) by (simp add: filter_empty_conv filter_id_conv)
    moreover have "take i ?ss @ Constant c # drop (Suc i) ?ss = ?ss" using split_at [OF ii(1)] c by simp
    ultimately show ?thesis using i c by (simp add: merge_constants_def erase_at_def)
  qed
  ultimately show ?thesis using assms(2) one i ii Some by (auto simp: drop_zero_constant_def coherent_def)
qed

lemma move_loop_ok:
  "coherent s \<Longrightarrow> constant_summand_idx_valid s \<Longrightarrow>
     \<exists>s'. move_loop s es = Inr s' \<and> coherent s' \<and> constant_summand_idx_valid s'
       \<and> summands s' = merge_constants (summands s @ filter (Not \<circ> is_zero) es)"
proof (induction es arbitrary: s)
  case Nil
  then show ?case using drop_zero_ok by simp
next
  case (Cons e es)
  have idx: "constant_summand_idx s = constant_position (summands s)" and one: "at_most_one (summands s)"
    using Cons.prems by (simp_all add: coherent_def)
  consider "is_zero e" | "\<not> is_zero e" "\<not> is_Constant e" | "\<not> is_zero e" "is_Constant e" "constant_position (summands s) = None"
    | i where "\<not> is_zero e" "is_Constant e" "constant_position (summands s) = Some i" by (cases "constant_position (summands s)") auto
  then show ?case
  proof cases
    case 1
    then show ?thesis using Cons by simp
  next
    case 2
    have "coherent (s\<lparr>summands := summands s @ [e]\<rparr>)"
      using 2 Cons.prems by (auto simp: coherent_def at_most_one_def constant_position_snoc split: option.splits)
    then show ?thesis using 2 Cons.prems Cons.IH [of "s\<lparr>summands := summands s @ [e]\<rparr>"] by simp
  next
    case 3
    then have "filter is_Constant (summands s) = []" by (simp add: constant_position_None filter_empty_conv)
    then have "coherent (s\<lparr>summands := summands s @ [e], constant_summand_idx := Some (length (summands s))\<rparr>)"
      using 3 Cons.prems by (simp add: coherent_def at_most_one_def constant_position_snoc)
    then show ?thesis
      using 3 Cons.prems Cons.IH [of "s\<lparr>summands := summands s @ [e], constant_summand_idx := Some (length (summands s))\<rparr>"] idx by simp
  next
    case 4
    then obtain s' where s': "fold_constant s (const_value e) = Inr s'" "coherent s'" "constant_summand_idx_valid s'"
      "summands s' = (summands s)[i := Constant (const_value (summands s ! i) + const_value e)]"
      using fold_constant_ok [OF Cons.prems, of i "const_value e"] idx by auto
    have "merge_constants (summands s' @ filter (Not \<circ> is_zero) es) = merge_constants (summands s @ e # filter (Not \<circ> is_zero) es)"
      unfolding s'(4) by (rule merge_fold [OF 4(3) one 4(2)])
    moreover obtain s'' where "move_loop s' es = Inr s''" "coherent s''" "constant_summand_idx_valid s''"
      "summands s'' = merge_constants (summands s' @ filter (Not \<circ> is_zero) es)"
      using Cons.IH [OF s'(2,3)] by blast
    ultimately show ?thesis using 4(1,2,3) idx s'(1) by (intro exI [of _ s'']) (simp add: comp_def)
  qed
qed

text \<open>Prepending to a sum whose cache is not valid: the position is right only if there is no constant to record.\<close>

lemma prepend_invalid:
  assumes "coherent s" "\<not> constant_summand_idx_valid s" "\<not> is_SumOf e"
  shows "\<exists>s'. sum_prepend s e = Inr s' \<and> summands s' = prepend_summand (summands s) e
    \<and> (coherent s' \<longleftrightarrow> is_zero e \<or> is_Constant e \<or> constant_position (summands s) = None)"
proof -
  have plain: "\<exists>s'. Inr (if is_zero e then s else prepend_other s (clone e)) = Inr s'
      \<and> summands s' = (if is_zero e then summands s else clone e # summands s)
      \<and> (coherent s' \<longleftrightarrow> is_zero e \<or> is_Constant e \<or> constant_position (summands s) = None)" if "\<not> is_Constant e"
  proof -
    have "\<not> is_Constant (clone e)" using that clone_constructor(1) by blast
    then show ?thesis using assms that
      by (cases "constant_position (summands s)") (auto simp: coherent_def at_most_one_def prepend_other_def refresh_def Let_def constant_position_Cons
          split: option.splits)
  qed
  show ?thesis
  proof (cases "is_Constant e")
    case True
    then obtain v where "e = Constant v" by (cases e) auto
    then show ?thesis using prepend_constant_ok [OF assms(1), of v] assms(1) by (cases "v = 0") auto
  next
    case False
    have "sum_prepend s e = Inr (if is_zero e then s else prepend_other s (clone e))"
      "prepend_summand (summands s) e = (if is_zero e then summands s else clone e # summands s)"
      using False assms(3) by (cases e; simp del: clone.simps)+
    then show ?thesis using plain [OF False] by simp
  qed
qed

lemma coherent_hand_out: "coherent s \<Longrightarrow> coherent (hand_out s)"
  by (auto simp: hand_out_def invalidate_summand_caches_def coherent_def)

text \<open>C33: The cached position of the constant summand.  From a coherent sum, one with at most one constant whose
  position the cache records if it is valid, \<open>append\<close> never fails, also after mutable iterators were handed out, stays
  coherent and computes the list function \<open>append_summand\<close>.  \<open>prepend\<close> does the same as long as the cache is valid;
  if it is not, prepending a summand that is not a sum still gives the right summands, but the sum is coherent
  only if the summand is zero or a constant or the sum had no constant.  The moving constructor never fails; it
  drops the zero summands and adds up the constants at the position of the first one, dropping them if they
  cancel, and the sum is coherent.\<close>
theorem sum_cache_coherent:
  assumes "coherent s"
  shows "(\<exists>s'. sum_append s e = Inr s' \<and> coherent s' \<and> summands s' = append_summand (summands s) e)
    \<and> (constant_summand_idx_valid s \<longrightarrow>
        (\<exists>s'. sum_prepend s e = Inr s' \<and> coherent s' \<and> constant_summand_idx_valid s' \<and> summands s' = prepend_summand (summands s) e))
    \<and> (\<not> constant_summand_idx_valid s \<longrightarrow> \<not> is_SumOf e \<longrightarrow>
        (\<exists>s'. sum_prepend s e = Inr s' \<and> summands s' = prepend_summand (summands s) e
           \<and> (coherent s' \<longleftrightarrow> is_zero e \<or> is_Constant e \<or> constant_position (summands s) = None)))
    \<and> coherent (hand_out s) \<and> coherent (empty_sum :: 'a sum_state)
    \<and> (\<exists>s'. sum_move es = Inr s' \<and> coherent (s' :: 'a sum_state) \<and> constant_summand_idx_valid s'
         \<and> summands s' = merge_constants (filter (Not \<circ> is_zero) es))"
proof -
  have start: "coherent (empty_sum :: 'a sum_state)" "constant_summand_idx_valid (empty_sum :: 'a sum_state)"
    by (simp_all add: empty_sum_def coherent_def at_most_one_def constant_position_def)
  then have "\<exists>s'. sum_move es = Inr s' \<and> coherent (s' :: 'a sum_state) \<and> constant_summand_idx_valid s'
      \<and> summands s' = merge_constants (filter (Not \<circ> is_zero) es)"
    using move_loop_ok [of "empty_sum :: 'a sum_state" es] by (simp add: sum_move_def empty_sum_def)
  with start show ?thesis
    using sum_append_ok [OF assms, of e] sum_prepend_ok [OF assms, of e] prepend_invalid [OF assms, of e]
      coherent_hand_out [OF assms] by blast
qed

definition one_constant :: "scalar \<Rightarrow> 'a expr list \<Rightarrow> 'a sum_state" where
  "one_constant c rest = \<lparr>summands = Constant c # rest, constant_summand_idx = Some 0, constant_summand_idx_valid = True\<rparr>"

lemma sum_cache_coherent_witness:
  "(\<exists>s'. sum_append (hand_out (one_constant 2 [Atom (0 :: nat)])) (Constant 3) = Inr s' \<and> summands s' = [Constant 5, Atom 0])
   \<and> (\<exists>s'. sum_prepend (hand_out (one_constant 2 [Atom (0 :: nat)])) (Atom 1) = Inr s' \<and> \<not> coherent s')
   \<and> (\<exists>s'. sum_move [Atom (0 :: nat), Constant 2, Atom 1, Constant 0, Constant 3] = Inr s' \<and> summands s' = [Atom 0, Constant 5, Atom 1])"
proof -
  let ?s = "hand_out (one_constant 2 [Atom (0 :: nat)])"
  let ?es = "[Atom (0 :: nat), Constant 2, Atom 1, Constant 0, Constant 3]"
  have s: "summands ?s = [Constant 2, Atom 0]" "\<not> constant_summand_idx_valid ?s"
    by (simp_all add: one_constant_def hand_out_def invalidate_summand_caches_def)
  have coh: "coherent ?s"
    by (simp add: coherent_def one_constant_def hand_out_def invalidate_summand_caches_def at_most_one_def)
  have "append_summand [Constant 2, Atom (0 :: nat)] (Constant 3) = [Constant 5, Atom 0]"
    by (simp add: add_summand_def constant_position_def fold_into_def)
  moreover have "merge_constants (filter (Not \<circ> is_zero) ?es) = [Atom 0, Constant 5, Atom 1]"
    by (simp add: merge_constants_def constant_position_def)
  moreover have "constant_position [Constant 2, Atom (0 :: nat)] \<noteq> None" by (simp add: constant_position_def)
  ultimately show ?thesis
    using sum_cache_coherent [OF coh, of "Constant 3" ?es] sum_cache_coherent [OF coh, of "Atom 1" ?es] s by auto
qed

text \<open>After mutable iterators were handed out, \<open>prepend\<close> of a summand that is not a constant records a wrong position: the cache
  is recomputed after the insertion and then incremented.  The next constant that is appended fails: the
  recorded position is past the end or that of another summand.\<close>
theorem prepend_stale_index:
  "coherent (hand_out (one_constant c [])) \<and> coherent (hand_out (one_constant c [Atom b]))
   \<and> sum_prepend (hand_out (one_constant c [])) (Atom a)
       = Inr \<lparr>summands = [Atom a, Constant c], constant_summand_idx = Some 2, constant_summand_idx_valid = True\<rparr>
   \<and> bind_res (sum_prepend (hand_out (one_constant c [])) (Atom a)) (\<lambda>s. sum_append s (Constant 1)) = Inl BadConstantIndex
   \<and> bind_res (sum_prepend (hand_out (one_constant c [Atom b])) (Atom a)) (\<lambda>s. sum_append s (Constant 1)) = Inl NotAConstant"
  by (simp add: one_constant_def hand_out_def invalidate_summand_caches_def coherent_def at_most_one_def constant_position_def
      prepend_other_def refresh_def append_constant_def fold_constant_def)

end
