(* ===== verification/Expand.thy ===== *)
theory Expand
  imports SumCache
begin

text \<open>
  SeQuant/core/expressions/expr_algorithms.cpp: \<open>expand\<close> and \<open>flatten\<close>.  The visitor replaces every node
  after its children; both end, keep the value and reach their normal form.
\<close>

section \<open>Visiting\<close>

text \<open>\<open>Expr::visit\<close> with a mutating visitor: every subexpression is replaced after its own were, the root is not.\<close>

fun visit_children :: "('a expr \<Rightarrow> 'a expr) \<Rightarrow> 'a expr \<Rightarrow> 'a expr" where
  "visit_children v (Product k c fs) = Product k c (map (\<lambda>f. v (visit_children v f)) fs)"
| "visit_children v (SumOf ss) = SumOf (map (\<lambda>s. v (visit_children v s)) ss)"
| "visit_children v e = e"

lemma visit_keeps:
  assumes "\<And>e. val I (v e) = val I e"
  shows "val I (visit_children v e) = val I e"
  by (induction e) (simp_all add: assms comp_def cong: map_cong)

section \<open>Expanding\<close>

definition first_sum :: "'a expr list \<Rightarrow> nat option" where
  "first_sum fs = (if \<exists>f \<in> set fs. is_SumOf f then Some (length (takeWhile (Not \<circ> is_SumOf) fs)) else None)"

definition expand_product :: "'a expr \<Rightarrow> 'a expr option" where
  "expand_product e =
     (case e of
        Product k c fs \<Rightarrow>
          (case first_sum fs of
             None \<Rightarrow> None
           | Some i \<Rightarrow>
               Some (SumOf (foldl (\<lambda>acc s. append_summand acc (product_of Plain (mk_product Recursively c ((map clone fs)[i := s]))))
                                  [] (sum_summands (fs ! i)))))
      | _ \<Rightarrow> None)"

text \<open>The loop of \<open>expand_sum\<close>: the summands before the first changed one are copied when it is met.\<close>

fun expand_sum_loop :: "'a expr list \<Rightarrow> 'a expr list option \<Rightarrow> 'a expr list \<Rightarrow> 'a expr list option" where
  "expand_sum_loop pre res [] = res"
| "expand_sum_loop pre res (e # es) =
     (let started = (case res of None \<Rightarrow> foldl append_summand [] pre | Some r \<Rightarrow> r)
      in if is_Product e
         then (case expand_product e of
                 Some e' \<Rightarrow> expand_sum_loop (pre @ [e]) (Some (append_summand started e')) es
               | None \<Rightarrow> expand_sum_loop (pre @ [e]) (map_option (\<lambda>r. append_summand r e) res) es)
         else if is_SumOf e then expand_sum_loop (pre @ [e]) (Some (append_summand started e)) es
         else expand_sum_loop (pre @ [e]) (map_option (\<lambda>r. append_summand r e) res) es)"

definition expand_sum :: "'a expr list \<Rightarrow> 'a expr option" where
  "expand_sum ss =
     (let res = expand_sum_loop [] None ss; ts = (case res of None \<Rightarrow> ss | Some r \<Rightarrow> r)
      in if length ts = 1 then Some (ts ! 0)
         else if length ts = 0 then Some (Constant 0)
         else if res \<noteq> None then Some (SumOf ts) else None)"

text \<open>One round: the result, if anything changed.\<close>

definition expand_step :: "'a expr \<Rightarrow> 'a expr option" where
  "expand_step e = (case e of Product k c fs \<Rightarrow> expand_product e | SumOf ss \<Rightarrow> expand_sum ss | _ \<Rightarrow> None)"

text \<open>Products weigh multiplicatively, so distributing a product over a sum makes an expression lighter.\<close>

primrec weight :: "'a expr \<Rightarrow> nat" where
  "weight (Constant c) = 1"
| "weight (Variable l j) = 2"
| "weight (Power b e j) = 2"
| "weight (Atom a) = 2"
| "weight (Product k c fs) = 2 * prod_list (map weight fs)"
| "weight (SumOf ss) = 2 + sum_list (map weight ss)"

abbreviation weights :: "'a expr list \<Rightarrow> nat" where
  "weights ss \<equiv> sum_list (map weight ss)"

abbreviation weight_factors :: "'a factors \<Rightarrow> nat" where
  "weight_factors st \<equiv> prod_list (map weight (snd st))"

lemma weight_pos [simp]: "0 < weight e"
proof (induction e)
  case (Product k c fs)
  then show ?case by (induction fs) auto
qed simp_all

lemma prod_weights_pos [simp]: "0 < prod_list (map weight fs)"
  by (induction fs) simp_all

lemma weight_absorb: "weight_factors (absorb st e) \<le> weight_factors st * weight e"
  by (cases st; cases e) simp_all

lemma weight_add_summand: "weights (add_summand ss e) \<le> weights ss + weight e"
proof (cases "is_zero e \<or> \<not> is_Constant e \<or> constant_position ss = None")
  case True
  then show ?thesis by (cases e) (auto simp: add_summand_def)
next
  case False
  then obtain v i where v: "e = Constant v" "v \<noteq> 0" and i: "constant_position ss = Some i" by (cases e) auto
  note ii = constant_position_Some [OF i]
  have "weights ss = weights (take i ss) + weight (ss ! i) + weights (drop (Suc i) ss)"
    by (subst split_at [OF ii(1)]) simp
  then show ?thesis using v i by (simp add: add_summand_def fold_into_cases [OF ii(1)])
qed

lemma weights_foldl:
  assumes "\<And>ss e. e \<in> set es \<Longrightarrow> weights (g ss e) \<le> weights ss + m e"
  shows "weights (foldl g ss es) \<le> weights ss + sum_list (map m es)"
  using assms
proof (induction es arbitrary: ss)
  case (Cons e es)
  have "weights (foldl g (g ss e) es) \<le> weights (g ss e) + sum_list (map m es)" using Cons by simp
  then show ?case using Cons.prems [of e ss] by simp
qed simp

lemma weight_factors_foldl:
  assumes "\<And>st e. e \<in> set es \<Longrightarrow> weight_factors (g st e) \<le> weight_factors st * weight e"
  shows "weight_factors (foldl g st es) \<le> weight_factors st * prod_list (map weight es)"
  using assms
proof (induction es arbitrary: st)
  case (Cons e es)
  have "weight_factors (foldl g (g st e) es) \<le> weight_factors (g st e) * prod_list (map weight es)" using Cons by simp
  also have "\<dots> \<le> (weight_factors st * weight e) * prod_list (map weight es)"
    using Cons.prems [of e st] by (intro mult_right_mono) auto
  finally show ?case by (simp add: mult.assoc)
qed simp

lemma weight_add_summands: "weights (add_summands ss e) \<le> weights ss + weight e"
proof (induction ss e rule: add_summands.induct)
  case (1 ss ts)
  then show ?case using weights_foldl [of ts add_summands weight ss] by simp
qed (use weight_add_summand in \<open>fastforce simp del: weight.simps\<close>)+

lemma prod_weights_mono:
  "(\<And>f. f \<in> set fs \<Longrightarrow> weight (g f) \<le> weight f) \<Longrightarrow> prod_list (map weight (map g fs)) \<le> prod_list (map weight fs)"
  by (induction fs) (auto intro: mult_le_mono)

lemma weight_clone: "weight (clone e) \<le> weight e"
proof (induction e rule: clone.induct)
  case (1 k c fs)
  have "weight_factors (foldl absorb (c, []) (map clone fs)) \<le> prod_list (map weight (map clone fs))"
    using weight_factors_foldl [of "map clone fs" absorb "(c, [])", OF weight_absorb] by simp
  also have "\<dots> \<le> prod_list (map weight fs)" using prod_weights_mono [of fs clone] 1 by simp
  finally show ?case by (cases "foldl absorb (c, []) (map clone fs)") simp
next
  case (2 ss)
  have "weights (foldl add_summands [] (map clone ss)) \<le> weights (map clone ss)"
    using weights_foldl [of "map clone ss" add_summands weight "[]", OF weight_add_summands] by (simp del: map_map)
  moreover have "weights (map clone ss) \<le> weights ss"
    using 2 by (induction ss) (auto simp del: clone.simps intro: add_le_mono)
  ultimately show ?case by simp
qed simp_all

lemma weight_append_factor: "weight_factors (append_factor t st e) \<le> weight_factors st * weight e"
proof (induction t st e rule: append_factor.induct)
  case (1 t c fs k d gs)
  show ?case
  proof (cases "t = No")
    case True
    then show ?thesis using weight_clone [of "Product k d gs"] by (simp del: clone.simps weight.simps)
  next
    case False
    then have "weight_factors (append_factor t (c, fs) (Product k d gs)) \<le> prod_list (map weight fs) * prod_list (map weight gs)"
      using weight_factors_foldl [of gs "\<lambda>st g. append_factor (if t = Once then No else Recursively) st g" "(c * d, fs)"] 1 by simp
    then show ?thesis by simp
  qed
qed (simp_all add: weight_clone del: clone.simps(2) weight.simps(6))

lemma weight_append_summand:
  "weights (append_summand ss e) \<le> weights ss + weight e"
  "weights (append_summand ss (SumOf ts)) \<le> weights ss + weights ts"
proof -
  show first: "weights (append_summand ss e) \<le> weights ss + weight e" for ss and e :: "'a expr"
  proof (induction ss e rule: append_summand.induct)
    case (1 ss ts)
    then show ?case using weights_foldl [of ts append_summand weight ss] by simp
  next
    case (2 ss v)
    then show ?case using weight_add_summand [of ss "Constant v"] by simp
  qed (use weight_clone in \<open>auto simp del: clone.simps weight.simps\<close>)
  show "weights (append_summand ss (SumOf ts)) \<le> weights ss + weights ts"
    using weights_foldl [of ts append_summand weight ss, OF first] by simp
qed

lemma first_sum_Some:
  assumes "first_sum fs = Some i"
  shows "i < length fs" "is_SumOf (fs ! i)"
proof -
  have ex: "\<exists>s\<in>set fs. is_SumOf s" and i: "i = length (takeWhile (Not \<circ> is_SumOf) fs)"
    using assms by (auto simp: first_sum_def split: if_splits)
  have "takeWhile (Not \<circ> is_SumOf) fs \<noteq> fs" using ex by (auto simp: takeWhile_eq_all_conv)
  then have "i \<noteq> length fs" using i by (metis append_take_drop_id length_append self_append_conv takeWhile_dropWhile_id takeWhile_eq_take add_left_cancel length_0_conv)
  then show "i < length fs" using i length_takeWhile_le [of "Not \<circ> is_SumOf" fs] by linarith
  then show "is_SumOf (fs ! i)" using nth_length_takeWhile [of "Not \<circ> is_SumOf" fs] i by simp
qed

lemma first_sum_None: "first_sum fs = None \<longleftrightarrow> (\<forall>f\<in>set fs. \<not> is_SumOf f)"
  by (simp add: first_sum_def)

lemma expand_product_Some:
  assumes "expand_product e = Some e'"
  obtains k c fs i ts where "e = Product k c fs" "i < length fs" "fs ! i = SumOf ts"
    "e' = SumOf (foldl (\<lambda>acc s. append_summand acc (product_of Plain (mk_product Recursively c ((map clone fs)[i := s])))) [] ts)"
proof -
  obtain k c fs where e: "e = Product k c fs" using assms by (cases e) (auto simp: expand_product_def)
  obtain i where i: "first_sum fs = Some i"
    and e': "e' = SumOf (foldl (\<lambda>acc s. append_summand acc (product_of Plain (mk_product Recursively c ((map clone fs)[i := s])))) [] (sum_summands (fs ! i)))"
    using assms by (auto simp: e expand_product_def split: option.splits)
  obtain ts where "fs ! i = SumOf ts" using first_sum_Some(2) [OF i] by (cases "fs ! i") auto
  then show thesis using that [OF e first_sum_Some(1) [OF i]] e' by simp
qed

lemma weight_mk_product: "weight (product_of k (mk_product t c fs)) \<le> 2 * prod_list (map weight fs)"
  using weight_factors_foldl [of fs "append_factor t" "(c, [])", OF weight_append_factor] by (simp add: product_of_def mk_product_def)

lemma prod_list_at: "i < length fs \<Longrightarrow> prod_list (map f (fs[i := x])) = prod_list (map f (take i fs)) * (f x * prod_list (map f (drop (Suc i) fs)))"
  by (simp add: upd_conv_take_nth_drop)

lemma expand_product_lighter:
  assumes "expand_product e = Some e'"
  shows "weight e' < weight e"
  using assms
proof (rule expand_product_Some)
  fix k c fs i ts
  assume e: "e = Product k c fs" and i: "i < length fs" and ts: "fs ! i = SumOf ts"
    and e': "e' = SumOf (foldl (\<lambda>acc s. append_summand acc (product_of Plain (mk_product Recursively c ((map clone fs)[i := s])))) [] ts)"
  define R where "R = prod_list (map weight (take i fs)) * prod_list (map weight (drop (Suc i) fs))"
  have R: "0 < R" by (simp add: R_def)
  have part: "weight (product_of Plain (mk_product Recursively c ((map clone fs)[i := s]))) \<le> 2 * R * weight s" for s
  proof -
    have "prod_list (map weight ((map clone fs)[i := s]))
        = prod_list (map weight (map clone (take i fs))) * (weight s * prod_list (map weight (map clone (drop (Suc i) fs))))"
      using i by (simp add: prod_list_at take_map drop_map)
    also have "\<dots> \<le> prod_list (map weight (take i fs)) * (weight s * prod_list (map weight (drop (Suc i) fs)))"
      by (intro mult_le_mono prod_weights_mono weight_clone le_refl)
    also have "\<dots> = R * weight s" by (simp add: R_def)
    finally show ?thesis using weight_mk_product [of Plain Recursively c "(map clone fs)[i := s]"] by (simp add: mult.assoc)
  qed
  have step: "weights (append_summand ss (product_of Plain (mk_product Recursively c ((map clone fs)[i := s])))) \<le> weights ss + 2 * R * weight s" for ss s
    using weight_append_summand(1) part [of s] by (meson add_left_mono le_trans)
  have "weights (foldl (\<lambda>acc s. append_summand acc (product_of Plain (mk_product Recursively c ((map clone fs)[i := s])))) [] ts)
      \<le> sum_list (map (\<lambda>s. 2 * R * weight s) ts)"
    using weights_foldl [of ts "\<lambda>acc s. append_summand acc (product_of Plain (mk_product Recursively c ((map clone fs)[i := s])))"
        "\<lambda>s. 2 * R * weight s" "[]", OF step] by simp
  also have "\<dots> = 2 * R * weights ts" by (simp add: sum_list_const_mult)
  finally have "weight e' \<le> 2 + 2 * R * weights ts" by (simp add: e')
  moreover have "weight e = 2 * R * (2 + weights ts)"
  proof -
    have split: "fs = take i fs @ SumOf ts # drop (Suc i) fs" using id_take_nth_drop [OF i] ts by simp
    have "prod_list (map weight fs) = R * (2 + weights ts)"
      by (subst split) (simp add: R_def mult_ac del: add_2_eq_Suc)
    then show ?thesis by (simp add: e)
  qed
  ultimately show "weight e' < weight e" using R by (simp add: distrib_left)
qed


lemma started_lighter: "weights (case res of None \<Rightarrow> foldl append_summand [] pre | Some r \<Rightarrow> r)
    \<le> (case res of None \<Rightarrow> weights pre | Some r \<Rightarrow> weights r)"
  using weights_foldl [of pre append_summand weight "[]", OF weight_append_summand(1)] by (simp split: option.splits)

lemma expand_sum_loop_lighter:
  assumes "expand_sum_loop pre res es = Some r"
  shows "weights r \<le> (case res of None \<Rightarrow> weights pre | Some r' \<Rightarrow> weights r') + weights es"
    and "res = None \<Longrightarrow> weights r < weights pre + weights es"
proof -
  let ?m = "\<lambda>pre res. case res of None \<Rightarrow> weights pre | Some r' \<Rightarrow> weights r'"
  have "weights r \<le> ?m pre res + weights es \<and> (res = None \<longrightarrow> weights r < weights pre + weights es)"
    using assms
  proof (induction pre res es rule: expand_sum_loop.induct)
    case (2 pre res e es)
    define started where "started = (case res of None \<Rightarrow> foldl append_summand [] pre | Some r \<Rightarrow> r)"
    have st: "weights started \<le> ?m pre res" unfolding started_def by (rule started_lighter)
    have shrink: ?case if x: "expand_sum_loop (pre @ [e]) (Some (append_summand started x)) es = Some r"
      "weights (append_summand started x) < weights started + weight e"
      "weights r \<le> weights (append_summand started x) + weights es" for x
      using x st by (auto split: option.splits)
    have keep: ?case if "expand_sum_loop (pre @ [e]) (map_option (\<lambda>r. append_summand r e) res) es = Some r"
      "weights r \<le> ?m (pre @ [e]) (map_option (\<lambda>r. append_summand r e) res) + weights es
         \<and> (map_option (\<lambda>r. append_summand r e) res = None \<longrightarrow> weights r < weights (pre @ [e]) + weights es)"
    proof (cases res)
      case (Some r')
      then show ?thesis using that weight_append_summand(1) [of r' e] by simp
    qed (use that in simp)
    consider e' where "is_Product e" "expand_product e = Some e'" | "is_Product e" "expand_product e = None"
      | "is_SumOf e" | "\<not> is_Product e" "\<not> is_SumOf e" by fastforce
    then show ?case
    proof cases
      case 1
      have "weights (append_summand started e') < weights started + weight e"
        using weight_append_summand(1) [of started e'] expand_product_lighter [OF 1(2)] by linarith
      then show ?thesis using shrink [of e'] 2 1 by (auto simp: started_def Let_def)
    next
      case 2
      then show ?thesis using keep "2.IH" "2.prems" by (auto simp: Let_def)
    next
      case 3
      then obtain ts where "e = SumOf ts" by (cases e) auto
      then have "weights (append_summand started e) < weights started + weight e"
        using weight_append_summand(2) [of started ts] by simp
      then show ?thesis using shrink [of e] 2 3 by (cases e) (auto simp: started_def Let_def)
    next
      case 4
      then show ?thesis using keep "2.IH" "2.prems" by (auto simp: Let_def)
    qed
  qed simp
  then show "weights r \<le> ?m pre res + weights es" "res = None \<Longrightarrow> weights r < weights pre + weights es" by auto
qed

lemma expand_step_lighter:
  assumes "expand_step e = Some e'"
  shows "weight e' < weight e"
proof (cases e)
  case (SumOf ss)
  define res where "res = expand_sum_loop [] None ss"
  define ts where "ts = (case res of None \<Rightarrow> ss | Some r \<Rightarrow> r)"
  have le: "weights ts \<le> weights ss" and lt: "res \<noteq> None \<Longrightarrow> weights ts < weights ss"
    using expand_sum_loop_lighter(2) [of "[]" None ss] by (auto simp: ts_def res_def less_imp_le split: option.splits)
  have "expand_sum ss = Some e'" using assms SumOf by (simp add: expand_step_def)
  then have "(if length ts = 1 then Some (ts ! 0) else if length ts = 0 then Some (Constant 0) else if res \<noteq> None then Some (SumOf ts) else None) = Some e'"
    unfolding expand_sum_def Let_def ts_def res_def .
  then consider "length ts = 1" "e' = ts ! 0" | "e' = Constant 0" | "res \<noteq> None" "e' = SumOf ts"
    by (metis option.distinct(1) option.inject)
  then show ?thesis
  proof cases
    case 1
    then obtain t where "ts = [t]" by (cases ts) auto
    then show ?thesis using 1 le SumOf by simp
  next
    case 2
    then show ?thesis using SumOf by simp
  next
    case 3
    then show ?thesis using lt SumOf by simp
  qed
next
  case (Product k c fs)
  then show ?thesis using assms expand_product_lighter [of "Product k c fs" e'] by (simp add: expand_step_def del: weight.simps)
qed (use assms in \<open>simp_all add: expand_step_def\<close>)

text \<open>The visitor: rounds until nothing changes.\<close>

function expander :: "'a expr \<Rightarrow> 'a expr" where
  "expander e = (case expand_step e of None \<Rightarrow> e | Some e' \<Rightarrow> expander e')"
  by pat_completeness auto
termination by (relation "measure weight") (simp_all add: expand_step_lighter)

declare expander.simps [simp del]

definition expand :: "'a expr \<Rightarrow> 'a expr" where
  "expand e = expander (visit_children expander e)"


section \<open>The value is kept\<close>

lemma list_update_value:
  assumes "i < length fs" "v (fs ! i) = (sum_list (map v ts) :: 'r::ring_1)"
  shows "sum_list (map (\<lambda>s. prod_list (map v (fs[i := s]))) ts) = prod_list (map v fs)"
proof -
  have "prod_list (map v fs) = prod_list (map v (fs[i := fs ! i]))" by simp
  also have "\<dots> = prod_list (map v (take i fs)) * (sum_list (map v ts) * prod_list (map v (drop (Suc i) fs)))"
    using assms by (simp only: prod_list_at)
  finally show ?thesis using assms(1) by (simp add: prod_list_at sum_list_const_mult sum_list_mult_const)
qed

lemma val_expand_product:
  assumes "sound I" "expand_product e = Some e'"
  shows "val I e' = val I e"
  using assms(2)
proof (rule expand_product_Some)
  fix k c fs i ts
  assume e: "e = Product k c fs" and i: "i < length fs" and ts: "fs ! i = SumOf ts"
    and e': "e' = SumOf (foldl (\<lambda>acc s. append_summand acc (product_of Plain (mk_product Recursively c ((map clone fs)[i := s])))) [] ts)"
  define part where "part s = product_of Plain (mk_product Recursively c ((map clone fs)[i := s]))" for s
  have clones: "map (val I) (map clone fs) = map (val I) fs" using val_clone [OF assms(1)] by simp
  have part: "val I (part s) = scal I c * prod_list (map (val I) (fs[i := s]))" for s
    using clones by (simp add: part_def val_mk_product [OF assms(1)] map_update del: map_map)
  have "foldl (\<lambda>acc s. append_summand acc (part s)) [] ts = foldl append_summand [] (map part ts)"
    by (simp add: foldl_map)
  then have "val I e' = val_sum I (map part ts)"
    using val_foldl_sum [of "map part ts" I append_summand "[]"]
    by (simp add: e' part_def [symmetric] val_sum_def [symmetric] val_append_summand [OF assms(1)]) (simp add: val_sum_def)
  also have "\<dots> = scal I c * sum_list (map (\<lambda>s. prod_list (map (val I) (fs[i := s]))) ts)"
    by (simp add: val_sum_def comp_def part sum_list_const_mult)
  also have "\<dots> = val I e" using list_update_value [OF i, of "val I" ts] ts e by simp
  finally show ?thesis .
qed

lemma summand_cases:
  obtains e' where "is_Product e" "expand_product e = Some e'" | "is_Product e" "expand_product e = None"
  | "is_SumOf e" "\<not> is_Product e" | "\<not> is_Product e" "\<not> is_SumOf e"
proof (cases e)
  case (Product k c fs)
  then show thesis using that by (cases "expand_product e") auto
qed (use that in auto)

lemma val_expand_sum_loop:
  assumes "sound I" "expand_sum_loop pre res es = Some r"
  shows "val_sum I r = (case res of None \<Rightarrow> val_sum I pre | Some r' \<Rightarrow> val_sum I r') + val_sum I es"
  using assms(2)
proof (induction pre res es rule: expand_sum_loop.induct)
  case (2 pre res e es)
  note app = val_append_summand [OF assms(1)]
  have snoc: "val_sum I (xs @ [e]) = val_sum I xs + val I e" for xs by (simp add: val_sum_def)
  have cons: "val_sum I (e # es) = val I e + val_sum I es" by (simp add: val_sum_def)
  have nil: "val_sum I [] = 0" by (simp add: val_sum_def)
  have started: "val_sum I (case res of None \<Rightarrow> foldl append_summand [] pre | Some r \<Rightarrow> r)
      = (case res of None \<Rightarrow> val_sum I pre | Some r' \<Rightarrow> val_sum I r')"
    using val_foldl_sum [of pre I append_summand "[]"] by (simp add: app nil split: option.splits)
  show ?case
  proof (cases e rule: summand_cases)
    case 1
    then show ?thesis using "2.IH"(2) [OF refl 1] "2.prems" val_expand_product [OF assms(1) 1(2)] started cons app
      by (simp add: Let_def add.assoc)
  next
    case 2
    then show ?thesis using "2.IH"(1) [OF refl 2] "2.prems" by (cases res) (simp_all add: Let_def cons snoc app add.assoc)
  next
    case 3
    then show ?thesis using "2.IH"(3) [OF refl 3(2,1)] "2.prems" started cons app by (simp add: Let_def add.assoc)
  next
    case 4
    then show ?thesis using "2.IH"(4) [OF refl 4] "2.prems" by (cases res) (simp_all add: Let_def cons snoc app add.assoc)
  qed
qed (simp add: val_sum_def)

lemma expand_sum_cases:
  assumes "expand_sum ss = Some e'" "ts = (case expand_sum_loop [] None ss of None \<Rightarrow> ss | Some r \<Rightarrow> r)"
  obtains "ts = [e']" | "ts = []" "e' = Constant 0" | "expand_sum_loop [] None ss = Some ts" "e' = SumOf ts"
proof -
  have e': "(if length ts = 1 then Some (ts ! 0) else if length ts = 0 then Some (Constant 0)
      else if expand_sum_loop [] None ss \<noteq> None then Some (SumOf ts) else None) = Some e'"
    using assms(1) unfolding expand_sum_def Let_def assms(2) .
  consider "length ts = 1" "e' = ts ! 0" | "length ts = 0" "e' = Constant 0"
    | "expand_sum_loop [] None ss \<noteq> None" "e' = SumOf ts"
    using e' by (metis option.distinct(1) option.inject)
  then show thesis
  proof cases
    case 1
    then have "ts = [e']" by (cases ts) auto
    then show ?thesis using that by blast
  next
    case 2
    then show ?thesis using that by simp
  next
    case 3
    then show ?thesis using that(3) assms(2) by auto
  qed
qed

lemma val_expand_step:
  assumes "sound I" "expand_step e = Some e'"
  shows "val I e' = val I e"
proof (cases e)
  case (Product k c fs)
  then show ?thesis using assms val_expand_product [of I e e'] by (simp add: expand_step_def)
next
  case (SumOf ss)
  define ts where "ts = (case expand_sum_loop [] None ss of None \<Rightarrow> ss | Some r \<Rightarrow> r)"
  have v: "val_sum I ts = val_sum I ss"
    using val_expand_sum_loop [OF assms(1), of "[]" None ss] by (auto simp: ts_def val_sum_def split: option.splits)
  have "expand_sum ss = Some e'" using assms(2) SumOf by (simp add: expand_step_def)
  then show ?thesis using ts_def
  proof (cases rule: expand_sum_cases)
    case 1
    then show ?thesis using v SumOf by (simp add: val_sum_def)
  next
    case 2
    then show ?thesis using v SumOf sound_simps(1) [OF assms(1)] by (simp add: val_sum_def)
  next
    case 3
    then show ?thesis using v SumOf by (simp add: val_sum_def)
  qed
qed (use assms in \<open>simp_all add: expand_step_def\<close>)

lemma val_expander: "sound I \<Longrightarrow> val I (expander e) = val I e"
proof (induction e rule: expander.induct)
  case (1 e)
  show ?case
  proof (cases "expand_step e")
    case None
    then show ?thesis by (simp add: expander.simps [of e])
  next
    case (Some e')
    then show ?thesis using 1 val_expand_step [OF 1(2) Some] by (simp add: expander.simps [of e])
  qed
qed


section \<open>What is left\<close>

fun no_sum :: "'a expr \<Rightarrow> bool" where
  "no_sum (Product k c fs) \<longleftrightarrow> list_all no_sum fs"
| "no_sum (SumOf ss) \<longleftrightarrow> False"
| "no_sum e \<longleftrightarrow> True"

text \<open>The form \<open>expand\<close> reaches, and the form the rounds keep on the way to it.\<close>

definition expanded :: "'a expr \<Rightarrow> bool" where
  "expanded e \<longleftrightarrow> (case e of SumOf ss \<Rightarrow> list_all no_sum ss | _ \<Rightarrow> no_sum e)"

definition semi :: "'a expr \<Rightarrow> bool" where
  "semi e \<longleftrightarrow> (case e of Product k c fs \<Rightarrow> list_all expanded fs | _ \<Rightarrow> expanded e)"

definition expanding :: "'a expr \<Rightarrow> bool" where
  "expanding e \<longleftrightarrow> (case e of SumOf ss \<Rightarrow> list_all semi ss | _ \<Rightarrow> semi e)"

lemmas forms = expanded_def semi_def expanding_def

lemma no_sum_expanded: "no_sum e \<Longrightarrow> expanded e"
  by (cases e) (simp_all add: expanded_def)

lemma expanded_semi: "expanded e \<Longrightarrow> semi e"
proof (cases e)
  case (Product k c fs)
  assume "expanded e"
  then have "\<forall>f\<in>set fs. no_sum f" using Product by (simp add: expanded_def list_all_iff)
  then show ?thesis using Product by (simp add: semi_def list_all_iff no_sum_expanded)
qed (simp_all add: semi_def)

lemma semi_expanding: "semi e \<Longrightarrow> expanding e"
proof (cases e)
  case (SumOf ss)
  assume "semi e"
  then have "list_all no_sum ss" using SumOf by (simp add: semi_def expanded_def)
  then show ?thesis using SumOf by (simp add: expanding_def list_all_iff no_sum_expanded expanded_semi)
qed (simp_all add: expanding_def)

lemma list_all_foldl:
  assumes "\<And>acc x. list_all P acc \<Longrightarrow> x \<in> set xs \<Longrightarrow> list_all P (g acc x)" "list_all P acc"
  shows "list_all P (foldl g acc xs)"
  using assms by (induction xs arbitrary: acc) simp_all

lemma add_summand_all:
  assumes "list_all P ss" "P e" "\<And>c. P (Constant c)"
  shows "list_all P (add_summand ss e)"
proof -
  have "list_all P (fold_into ss i v)" if "i < length ss" for i v
    unfolding fold_into_cases [OF that] using assms(1,3) by (auto simp: list_all_iff dest: in_set_takeD in_set_dropD)
  then show ?thesis using assms(1,2)
    by (cases e) (simp_all add: add_summand_def constant_position_Some(1) split: option.splits)
qed

lemma add_summands_all:
  assumes "\<And>c. P (Constant c)" "\<And>ts. P (SumOf ts) \<Longrightarrow> list_all P ts"
  shows "list_all P ss \<Longrightarrow> P e \<Longrightarrow> list_all P (add_summands ss e)"
proof (induction ss e rule: add_summands.induct)
  case (1 ss ts)
  have "list_all P ts" by (rule assms(2)) (rule 1(3))
  then have P: "\<forall>t\<in>set ts. P t" by (simp only: list_all_iff)
  have "list_all P (add_summands acc t)" if "list_all P acc" "t \<in> set ts" for acc t
    by (rule 1(1)) (use that P in blast)+
  then show ?case unfolding add_summands.simps using 1(2) by (intro list_all_foldl)
qed (simp only: add_summands.simps, rule add_summand_all, assumption+, rule assms(1))+

lemma clone_no_sum: "no_sum e \<Longrightarrow> no_sum (clone e)"
proof (induction e rule: clone.induct)
  case (1 k c fs)
  then show ?case by (auto simp: clone_Product list_all_iff simp del: clone.simps(1))
qed simp_all

lemma clone_sum_all:
  assumes "list_all P ss" "\<And>e. P e \<Longrightarrow> P (clone e)" "\<And>c. P (Constant c)" "\<And>ts. P (SumOf ts) \<Longrightarrow> list_all P ts"
  shows "list_all P (foldl add_summands [] (map clone ss))"
proof (rule list_all_foldl)
  fix acc x
  assume "list_all P acc" "x \<in> set (map clone ss)"
  then have "P x" using assms(1,2) by (auto simp: list_all_iff)
  with assms(3,4) \<open>list_all P acc\<close> show "list_all P (add_summands acc x)" by (rule add_summands_all)
qed simp

lemma clone_expanded: "expanded e \<Longrightarrow> expanded (clone e)"
proof (cases e)
  case (SumOf ss)
  assume "expanded e"
  then have "list_all no_sum (foldl add_summands [] (map clone ss))"
    using SumOf by (intro clone_sum_all) (simp_all add: expanded_def clone_no_sum)
  then show ?thesis using SumOf by (simp add: expanded_def)
next
  case (Product k c fs)
  assume "expanded e"
  then show ?thesis using Product clone_no_sum [of e] by (auto simp: expanded_def clone_Product simp del: clone.simps(1))
qed (simp_all add: expanded_def)

lemma clone_semi: "semi e \<Longrightarrow> semi (clone e)"
proof (cases e)
  case (Product k c fs)
  assume "semi e"
  then show ?thesis using Product clone_expanded by (auto simp: semi_def clone_Product list_all_iff simp del: clone.simps(1))
next
  case (SumOf ss)
  assume "semi e"
  then have "expanded (clone e)" using SumOf clone_expanded [of e] by (simp add: semi_def)
  then show ?thesis by (rule expanded_semi)
qed (simp_all add: semi_def)

lemma append_factor_expanded:
  "expanded e \<Longrightarrow> list_all expanded (snd st) \<Longrightarrow> list_all expanded (snd (append_factor Recursively st e))"
proof (induction Recursively st e rule: append_factor.induct)
  case (1 c fs k d gs)
  have "list_all expanded (snd (foldl (append_factor Recursively) st' hs))"
    if "set hs \<subseteq> set gs" "list_all expanded (snd st')" for hs st'
    using that
  proof (induction hs arbitrary: st')
    case (Cons h hs)
    have "expanded h" using 1(2) Cons.prems(1) by (auto simp: expanded_def [of "Product k d gs"] list_all_iff no_sum_expanded)
    then show ?case using Cons 1(1) by (cases st') auto
  qed simp
  then show ?case using 1 by simp
qed (simp_all add: clone_expanded del: clone.simps)

lemma mk_product_semi:
  assumes "list_all expanded fs"
  shows "semi (product_of k (mk_product Recursively c fs))"
proof -
  have "list_all expanded (snd (foldl (append_factor Recursively) st fs))" if "list_all expanded (snd st)" for st
    using assms that by (induction fs arbitrary: st) (simp_all add: append_factor_expanded)
  then show ?thesis by (simp add: mk_product_def product_of_def semi_def)
qed

lemma append_summand_semi: "expanding e \<Longrightarrow> list_all semi ss \<Longrightarrow> list_all semi (append_summand ss e)"
proof (induction ss e rule: append_summand.induct)
  case (1 ss ts)
  have "\<forall>t\<in>set ts. expanding t" using 1(2) by (auto simp: expanding_def [of "SumOf ts"] list_all_iff intro: semi_expanding)
  then show ?case unfolding append_summand.simps by (intro list_all_foldl) (use 1 in auto)
next
  case (2 ss v)
  then show ?case using add_summands_all [of semi ss "Constant v"]
    by (auto simp: semi_def [of "Constant _"] semi_def [of "SumOf _"] expanded_def [of "SumOf _"] expanded_def [of "Constant _"]
        list_all_iff intro: no_sum_expanded expanded_semi)
qed (use clone_semi in \<open>auto simp: expanding_def simp del: clone.simps\<close>)


lemma expand_product_expanding:
  assumes "semi e" "expand_product e = Some e'"
  shows "expanding e'"
  using assms(2)
proof (rule expand_product_Some)
  fix k c fs i ts
  assume e: "e = Product k c fs" and i: "i < length fs" and ts: "fs ! i = SumOf ts"
    and e': "e' = SumOf (foldl (\<lambda>acc s. append_summand acc (product_of Plain (mk_product Recursively c ((map clone fs)[i := s])))) [] ts)"
  have fs: "\<forall>f\<in>set fs. expanded f" using assms(1) e by (simp add: semi_def list_all_iff)
  then have "expanded (SumOf ts)" using i ts by (metis nth_mem)
  then have "\<forall>s\<in>set ts. expanded s" by (auto simp: expanded_def [of "SumOf ts"] list_all_iff no_sum_expanded)
  then have "\<forall>s\<in>set ts. list_all expanded ((map clone fs)[i := s])"
    using fs by (auto simp: list_all_iff clone_expanded dest!: set_update_subset_insert [THEN subsetD])
  then have "list_all semi (foldl (\<lambda>acc s. append_summand acc (product_of Plain (mk_product Recursively c ((map clone fs)[i := s])))) [] ts)"
    by (intro list_all_foldl) (simp_all add: append_summand_semi semi_expanding mk_product_semi)
  then show "expanding e'" by (simp add: e' expanding_def)
qed

lemma expand_sum_loop_semi:
  assumes "list_all semi pre" "list_all semi es" "\<forall>r'. res = Some r' \<longrightarrow> list_all semi r'"
    "expand_sum_loop pre res es = Some r"
  shows "list_all semi r"
  using assms
proof (induction pre res es rule: expand_sum_loop.induct)
  case (2 pre res e es)
  have e: "semi e" using 2(6) by simp
  have pre: "list_all semi (pre @ [e])" using 2(5) e by simp
  have started: "list_all semi (case res of None \<Rightarrow> foldl append_summand [] pre | Some r \<Rightarrow> r)"
    using 2(5,7) by (auto split: option.splits intro!: list_all_foldl simp: append_summand_semi semi_expanding list_all_iff [of semi pre])
  have old: "\<forall>r'. map_option (\<lambda>r. append_summand r e) res = Some r' \<longrightarrow> list_all semi r'"
    using 2(7) e by (auto simp: append_summand_semi semi_expanding)
  show ?case
  proof (cases e rule: summand_cases)
    case 1
    then show ?thesis using "2.IH"(2) [OF refl 1 pre] 2(6,8) append_summand_semi [OF expand_product_expanding [OF e 1(2)] started]
      by (simp add: Let_def)
  next
    case 2
    then show ?thesis using "2.IH"(1) [OF refl 2 pre] "2.prems" old by (simp add: Let_def)
  next
    case 3
    then show ?thesis using "2.IH"(3) [OF refl 3(2,1) pre] "2.prems" append_summand_semi [OF semi_expanding [OF e] started]
      by (simp add: Let_def)
  next
    case 4
    then show ?thesis using "2.IH"(4) [OF refl 4 pre] "2.prems" old by (simp add: Let_def)
  qed
qed simp

lemma expand_step_expanding:
  assumes "expanding e" "expand_step e = Some e'"
  shows "expanding e'"
proof (cases e)
  case (Product k c fs)
  then show ?thesis using assms expand_product_expanding [of e e'] by (simp add: expand_step_def expanding_def)
next
  case (SumOf ss)
  define ts where "ts = (case expand_sum_loop [] None ss of None \<Rightarrow> ss | Some r \<Rightarrow> r)"
  have ss: "list_all semi ss" using assms(1) SumOf by (simp add: expanding_def)
  then have ts: "list_all semi ts"
    using expand_sum_loop_semi [of "[]" ss None] by (auto simp: ts_def split: option.splits)
  have "expand_sum ss = Some e'" using assms(2) SumOf by (simp add: expand_step_def)
  then show ?thesis using ts_def
    by (cases rule: expand_sum_cases) (use ts in \<open>auto simp: expanding_def [of "SumOf _"] expanding_def [of "Constant _"] semi_def [of "Constant _"]
        expanded_def [of "Constant _"] intro: semi_expanding\<close>)
qed (use assms in \<open>simp_all add: expand_step_def\<close>)

lemma expand_product_None:
  assumes "semi (Product k c fs)" "expand_product (Product k c fs) = None"
  shows "no_sum (Product k c fs)"
proof -
  have "first_sum fs = None" using assms(2) by (simp add: expand_product_def split: option.splits)
  then have "\<forall>f\<in>set fs. \<not> is_SumOf f \<and> expanded f" using assms(1) by (simp add: first_sum_None semi_def list_all_iff)
  moreover have "no_sum f" if "expanded f" "\<not> is_SumOf f" for f :: "'a expr"
    using that by (cases f) (simp_all add: expanded_def)
  ultimately have "\<forall>f\<in>set fs. no_sum f" by blast
  then show ?thesis by (simp add: list_all_iff)
qed

lemma expand_sum_loop_None:
  "expand_sum_loop pre res es = None \<Longrightarrow> res = None \<and> (\<forall>e\<in>set es. \<not> is_SumOf e \<and> (is_Product e \<longrightarrow> expand_product e = None))"
proof (induction pre res es rule: expand_sum_loop.induct)
  case (2 pre res e es)
  show ?case
  proof (cases e rule: summand_cases)
    case 1
    then show ?thesis using "2.IH"(2) [OF refl 1] "2.prems" by (simp add: Let_def)
  next
    case 2
    then show ?thesis using "2.IH"(1) [OF refl 2] "2.prems" by (cases e) (simp_all add: Let_def)
  next
    case 3
    then show ?thesis using "2.IH"(3) [OF refl 3(2,1)] "2.prems" by (simp add: Let_def)
  next
    case 4
    then show ?thesis using "2.IH"(4) [OF refl 4] "2.prems" by (simp add: Let_def)
  qed
qed simp

lemma expand_step_None:
  assumes "expanding e" "expand_step e = None"
  shows "expanded e \<and> (\<forall>ss. e = SumOf ss \<longrightarrow> 2 \<le> length ss)"
proof (cases e)
  case (Product k c fs)
  then have "no_sum e" using assms expand_product_None [of k c fs] by (simp add: expand_step_def expanding_def)
  then show ?thesis using Product no_sum_expanded [of e] by simp
next
  case (SumOf ss)
  have none: "expand_sum_loop [] None ss = None" and "length ss \<noteq> 1" "length ss \<noteq> 0"
    using assms(2) SumOf by (auto simp: expand_step_def expand_sum_def Let_def split: if_splits option.splits)
  then have len: "2 \<le> length ss" by linarith
  have "no_sum s" if "s \<in> set ss" for s
  proof (cases s)
    case (Product k c fs)
    then show ?thesis using that expand_sum_loop_None [OF none] assms(1) SumOf expand_product_None [of k c fs]
      by (auto simp: expanding_def list_all_iff)
  qed (use that expand_sum_loop_None [OF none] in auto)
  then show ?thesis using SumOf len by (simp add: expanded_def list_all_iff)
qed (use assms in \<open>simp_all add: expanding_def semi_def\<close>)

lemma expander_expanded: "expanding e \<Longrightarrow> expanded (expander e) \<and> (\<forall>ss. expander e = SumOf ss \<longrightarrow> 2 \<le> length ss)"
proof (induction e rule: expander.induct)
  case (1 e)
  show ?case
  proof (cases "expand_step e")
    case None
    then show ?thesis using expand_step_None [OF 1(2) None] by (simp add: expander.simps [of e])
  next
    case (Some e')
    then show ?thesis using 1 expand_step_expanding [OF 1(2) Some] by (simp add: expander.simps [of e])
  qed
qed

lemma visit_expanding: "expanding (visit_children expander e)"
proof (induction e)
  case (Product k c fs)
  then show ?case using expander_expanded by (auto simp: expanding_def [of "Product _ _ _"] semi_def list_all_iff)
next
  case (SumOf ss)
  then show ?case by (simp add: expanding_def [of "SumOf _"] list_all_iff expanded_semi expander_expanded [THEN conjunct1])
qed (simp_all add: forms)

text \<open>C3: Expansion ends and distributes products over sums: the expression keeps its value in every ring in which the
  scalars are central, no sum is left inside a product or a summand, and a sum that remains has two summands
  or more.\<close>
theorem expand_distributes:
  assumes "sound I"
  shows "val I (expand e) = val I e \<and> expanded (expand e) \<and> (\<forall>ss. expand e = SumOf ss \<longrightarrow> 2 \<le> length ss)"
proof -
  have "val I (visit_children expander e) = val I e"
    by (rule visit_keeps) (rule val_expander [OF assms])
  then show ?thesis using val_expander [OF assms] expander_expanded [OF visit_expanding [of e]] by (simp add: expand_def)
qed

lemma expand_distributes_witness:
  "val tri_interp (expand (Product Plain 2 [SumOf [Atom 0, Atom 1], SumOf [Atom 0, Constant 3]])) = Tri 8 6 0"
  using expand_distributes [OF tri_sound, of "Product Plain 2 [SumOf [Atom 0, Atom 1], SumOf [Atom 0, Constant 3]]"]
  by (simp add: tri_interp_def tri_defs)

end
