(* ===== verification/Accumulator.thy ===== *)
theory Accumulator
  imports Expand
begin

text \<open>
  SeQuant/core/expressions/sum.cpp: \<open>HashingAccumulator\<close>, which collects summands in an unordered set whose
  equality is \<open>proportional_to\<close> (expr.cpp) and adds up those that differ by a scalar.
\<close>

section \<open>Terms\<close>

text \<open>What is left of a summand without its scalar.\<close>

fun core_factors :: "'a expr \<Rightarrow> 'a expr list" where
  "core_factors (Product k c fs) = fs"
| "core_factors e = [e]"

definition same_term :: "'a expr \<Rightarrow> 'a expr \<Rightarrow> bool" where
  "same_term x y \<longleftrightarrow> list_all2 expr_eq (core_factors x) (core_factors y)"

definition proportional_to :: "('a expr \<Rightarrow> nat) \<Rightarrow> 'a expr \<Rightarrow> 'a expr \<Rightarrow> bool" where
  "proportional_to hash x y =
     (if is_Product x \<and> \<not> is_Product y then length (prod_factors x) = 1 \<and> expr_eq (prod_factors x ! 0) y
      else if is_Product y \<and> \<not> is_Product x then length (prod_factors y) = 1 \<and> expr_eq (prod_factors y ! 0) x
      else if is_Constant x \<and> is_Constant y then True
      else if is_Product x then hash x = hash y \<and> list_all2 expr_eq (prod_factors x) (prod_factors y)
      else expr_eq x y)"

text \<open>The hash leaves out the scalar of a product.\<close>

definition hash_ok :: "('a expr \<Rightarrow> nat) \<Rightarrow> bool" where
  "hash_ok hash \<longleftrightarrow> (\<forall>x y. same_term x y \<longrightarrow> hash x = hash y)"

section \<open>The unordered set\<close>

text \<open>
  The elements in the order of iteration.  A lookup goes through the bucket of the key and compares with
  \<open>proportional_to\<close> only, not with the hashes; \<open>nb\<close> gives the number of buckets for a number of elements.
\<close>

definition find_in :: "('a expr \<Rightarrow> nat) \<Rightarrow> (nat \<Rightarrow> nat) \<Rightarrow> 'a expr list \<Rightarrow> 'a expr \<Rightarrow> nat option" where
  "find_in hash nb s k =
     List.find (\<lambda>i. hash (s ! i) mod nb (length s) = hash k mod nb (length s) \<and> proportional_to hash k (s ! i)) [0..<length s]"

definition emplace :: "('a expr list \<Rightarrow> 'a expr \<Rightarrow> nat option) \<Rightarrow> 'a expr list \<Rightarrow> 'a expr \<Rightarrow> 'a expr list" where
  "emplace lkp s x = (case lkp s x of Some i \<Rightarrow> s | None \<Rightarrow> s @ [x])"

section \<open>Accumulation\<close>

definition add_term :: "('a expr list \<Rightarrow> 'a expr \<Rightarrow> nat option) \<Rightarrow> 'a expr list \<Rightarrow> 'a expr \<Rightarrow> (expr_error, 'a expr list) result" where
  "add_term lkp s e =
     (case lkp s e of
        None \<Rightarrow> Inr (emplace lkp s e)
      | Some i \<Rightarrow>
          (let x = s ! i in
           case x of
             Product k c fs \<Rightarrow> bind_res (add_identical (c, fs) e) (\<lambda>st. Inr (s[i := product_of k st]))
           | _ \<Rightarrow>
               if is_Product e
               then bind_res (add_identical (mk_product Recursively (prod_scalar (clone e)) (prod_factors (clone e))) x)
                      (\<lambda>st. Inr (emplace lkp (erase_at i s) (product_of Plain st)))
               else Inr (emplace lkp (erase_at i s) (product_of Plain (append_scaled Recursively (1, []) 2 e)))))"

fun accumulate :: "('a expr list \<Rightarrow> 'a expr \<Rightarrow> nat option) \<Rightarrow> bool \<Rightarrow> 'a expr list \<Rightarrow> 'a expr \<Rightarrow> (expr_error, 'a expr list) result" where
  "accumulate lkp flat s (SumOf ts) =
     (if flat then foldl (\<lambda>r t. bind_res r (\<lambda>s. accumulate lkp flat s t)) (Inr s) ts else add_term lkp s (SumOf ts))"
| "accumulate lkp flat s e = add_term lkp s e"

text \<open>
  The sorted sum goes by hash, then by \<open>operator<\<close> of the pointers (\<open>address\<close>); \<open>iterate\<close> is the order in which
  the set is traversed.
\<close>

definition accumulated_sum ::
  "('a expr \<Rightarrow> nat) \<Rightarrow> ('a expr \<Rightarrow> nat) \<Rightarrow> ('a expr list \<Rightarrow> 'a expr list) \<Rightarrow> bool \<Rightarrow> 'a expr list \<Rightarrow> (expr_error, 'a sum_state) result" where
  "accumulated_sum hash address iterate canonicalize s =
     (let ts = filter (Not \<circ> is_zero) (iterate s)
      in sum_move (if canonicalize then sort_key hash (sort_key address ts) else ts))"

definition accumulated_expr ::
  "('a expr \<Rightarrow> nat) \<Rightarrow> ('a expr \<Rightarrow> nat) \<Rightarrow> ('a expr list \<Rightarrow> 'a expr list) \<Rightarrow> bool \<Rightarrow> 'a expr list \<Rightarrow> (expr_error, 'a expr) result" where
  "accumulated_expr hash address iterate canonicalize s =
     (if s = [] then Inr (Constant 0)
      else if length s = 1 then Inr (s ! 0)
      else bind_res (accumulated_sum hash address iterate canonicalize s) (\<lambda>st. Inr (SumOf (summands st))))"

section \<open>Equality of expressions\<close>

lemma list_all2_sym_on: "list_all2 P xs ys \<Longrightarrow> (\<And>x y. x \<in> set xs \<Longrightarrow> P x y \<Longrightarrow> P y x) \<Longrightarrow> list_all2 P ys xs"
  by (induction rule: list_all2_induct) auto

lemma expr_eq_refl [simp]: "expr_eq e e"
  by (induction e) (auto simp: list.rel_refl_strong)

lemma expr_eq_sym: "expr_eq a b \<Longrightarrow> expr_eq b a"
proof (induction a arbitrary: b)
  case (Product k c fs)
  then show ?case by (cases b) (auto intro: list_all2_sym_on)
next
  case (SumOf ss)
  then show ?case by (cases b) (auto intro: list_all2_sym_on)
qed (case_tac b; simp)+

lemma list_all2_trans_on:
  "list_all2 P xs ys \<Longrightarrow> list_all2 P ys zs \<Longrightarrow> (\<And>x y z. x \<in> set xs \<Longrightarrow> P x y \<Longrightarrow> P y z \<Longrightarrow> P x z) \<Longrightarrow> list_all2 P xs zs"
  by (induction arbitrary: zs rule: list_all2_induct) (auto simp: list_all2_Cons1)

lemma expr_eq_trans: "expr_eq a b \<Longrightarrow> expr_eq b c \<Longrightarrow> expr_eq a c"
proof (induction a arbitrary: b c)
  case (Product k x fs)
  then show ?case by (cases b; cases c) (auto intro: list_all2_trans_on)
next
  case (SumOf ss)
  then show ?case by (cases b; cases c) (auto intro: list_all2_trans_on)
qed (case_tac b; case_tac c; simp)+

lemma expr_eq_val: "expr_eq a b \<Longrightarrow> val I a = val I b"
proof (induction a arbitrary: b)
  case (Product k c fs)
  then obtain l gs where b: "b = Product l c gs" "list_all2 expr_eq fs gs" by (cases b) auto
  from b(2) have "map (val I) fs = map (val I) gs" using Product.IH by (induction rule: list_all2_induct) auto
  then show ?case using b by simp
next
  case (SumOf ss)
  then obtain ts where b: "b = SumOf ts" "list_all2 expr_eq ss ts" by (cases b) auto
  from b(2) have "map (val I) ss = map (val I) ts" using SumOf.IH by (induction rule: list_all2_induct) auto
  then show ?case using b by simp
qed (case_tac b; simp)+

lemma expr_eq_type: "expr_eq a b \<Longrightarrow> is_Product a = is_Product b \<and> is_Constant a = is_Constant b"
  by (cases a; cases b) simp_all

lemma same_term_refl [simp]: "same_term x x"
  by (simp add: same_term_def list.rel_refl)

lemma same_term_sym: "same_term x y \<Longrightarrow> same_term y x"
  by (auto simp: same_term_def intro: list_all2_sym_on expr_eq_sym)

lemma same_term_trans: "same_term x y \<Longrightarrow> same_term y z \<Longrightarrow> same_term x z"
  by (auto simp: same_term_def intro: list_all2_trans_on expr_eq_trans)

text \<open>Except on two constants, the predicate of the set is equality of terms.\<close>

lemma proportional_same_term:
  assumes "hash_ok hash" "\<not> (is_Constant x \<and> is_Constant y)"
  shows "proportional_to hash x y \<longleftrightarrow> same_term x y"
proof -
  have one: "length fs = 1 \<and> expr_eq (fs ! 0) z \<longleftrightarrow> list_all2 expr_eq fs [z]" for fs and z :: "'a expr"
    by (cases fs) (auto simp: list_all2_Cons1)
  have flip: "list_all2 expr_eq [z] fs \<longleftrightarrow> list_all2 expr_eq fs [z]" for fs and z :: "'a expr"
    by (auto intro: list_all2_sym_on expr_eq_sym)
  have h: "same_term x y \<Longrightarrow> hash x = hash y" using assms(1) by (simp add: hash_ok_def)
  have t: "core_factors z = (if is_Product z then prod_factors z else [z])" for z :: "'a expr" by (cases z) simp_all
  consider "is_Product x" "is_Product y" | "is_Product x" "\<not> is_Product y" | "\<not> is_Product x" "is_Product y"
    | "\<not> is_Product x" "\<not> is_Product y" by blast
  then show ?thesis
  proof cases
    case 1
    then show ?thesis using h by (auto simp: proportional_to_def same_term_def t is_Product_def)
  next
    case 2
    then show ?thesis by (simp only: proportional_to_def same_term_def t one if_True if_False simp_thms)
  next
    case 3
    then show ?thesis by (simp only: proportional_to_def same_term_def t one flip if_True if_False simp_thms)
  next
    case 4
    then show ?thesis using assms(2) by (simp only: proportional_to_def same_term_def t if_False simp_thms) simp
  qed
qed

lemma find_in_Some:
  assumes "find_in hash nb s k = Some i"
  shows "i < length s" "proportional_to hash k (s ! i)"
  using assms by (auto simp: find_in_def find_Some_iff)

lemma find_in_None:
  assumes "find_in hash nb s k = None" "hash_ok hash" "x \<in> set s"
  shows "\<not> same_term k x"
proof
  assume same: "same_term k x"
  obtain i where i: "i < length s" "s ! i = x" using assms(3) by (auto simp: in_set_conv_nth)
  have "hash x = hash k" using same assms(2) by (simp add: hash_ok_def)
  moreover have "proportional_to hash k x"
  proof (cases "is_Constant k \<and> is_Constant x")
    case True
    then show ?thesis by (auto simp: proportional_to_def is_Constant_def)
  next
    case False
    then show ?thesis using proportional_same_term [OF assms(2) False] same by simp
  qed
  ultimately show False using assms(1) i by (auto simp: find_in_def find_None_iff)
qed

section \<open>The invariant of the set\<close>

definition constants :: "'a expr list \<Rightarrow> nat" where
  "constants s = length (filter is_Constant s)"

definition table_ok :: "'a expr list \<Rightarrow> bool" where
  "table_ok s \<longleftrightarrow> list_all settled s \<and> (\<forall>i j. i < j \<longrightarrow> j < length s \<longrightarrow> \<not> same_term (s ! i) (s ! j))"

lemma table_ok_snoc: "table_ok (s @ [x]) \<longleftrightarrow> table_ok s \<and> settled x \<and> (\<forall>y\<in>set s. \<not> same_term y x)"
  by (auto simp: table_ok_def nth_append less_Suc_eq in_set_conv_nth all_set_conv_all_nth)

lemma erase_at_nth:
  assumes "i < length s"
  shows "length (erase_at i s) = length s - 1"
    "j < length s - 1 \<Longrightarrow> erase_at i s ! j = s ! (if j < i then j else Suc j)"
  using assms by (auto simp: erase_at_def nth_append)

lemma table_ok_other:
  assumes "table_ok s" "i < length s" "y \<in> set (erase_at i s)"
  shows "\<not> same_term y (s ! i)"
proof -
  obtain j where j: "j < length (erase_at i s)" "y = erase_at i s ! j" using assms(3) by (auto simp: in_set_conv_nth)
  define k where "k = (if j < i then j else Suc j)"
  have k: "k < length s" "k \<noteq> i" "y = s ! k"
    using j erase_at_nth [OF assms(2)] by (auto simp: k_def)
  then show ?thesis using assms(1,2) same_term_sym [of y "s ! i"] by (cases "i < k") (auto simp: table_ok_def)
qed

lemma table_ok_erase:
  assumes "table_ok s" "i < length s"
  shows "table_ok (erase_at i s)"
proof -
  have "\<not> same_term (erase_at i s ! j) (erase_at i s ! k)" if "j < k" "k < length s - 1" for j k
    using that assms by (auto simp: erase_at_nth(2) table_ok_def)
  then show ?thesis using assms erase_at_nth(1) [OF assms(2)]
    by (auto simp: table_ok_def list_all_iff erase_at_def dest: in_set_takeD in_set_dropD)
qed

lemma table_ok_swap:
  assumes "table_ok s" "i < length s" "same_term (s ! i) x" "settled x"
  shows "table_ok (s[i := x])"
proof -
  have "\<not> same_term (s[i := x] ! j) (s[i := x] ! k)" if "j < k" "k < length s" for j k
  proof
    assume "same_term (s[i := x] ! j) (s[i := x] ! k)"
    then have "same_term (s ! j) (s ! k)"
      using that assms(2,3) same_term_sym [OF assms(3)] by (cases "j = i"; cases "k = i") (auto intro: same_term_trans)
    then show False using that assms(1) by (auto simp: table_ok_def)
  qed
  then show ?thesis using assms by (auto simp: table_ok_def list_all_iff dest!: set_update_subset_insert [THEN subsetD])
qed


lemma val_sum_at:
  assumes "i < length s"
  shows "val_sum I (s[i := x]) = val_sum I (erase_at i s) + val I x" "val_sum I s = val_sum I (erase_at i s) + val I (s ! i)"
proof -
  have up: "val_sum I (s[i := y]) = val_sum I (erase_at i s) + val I y" for y
    using assms by (simp add: val_sum_def erase_at_def upd_conv_take_nth_drop ac_simps)
  show "val_sum I (s[i := x]) = val_sum I (erase_at i s) + val I x" by (rule up)
  show "val_sum I s = val_sum I (erase_at i s) + val I (s ! i)" using up [of "s ! i"] by simp
qed

lemma constants_at:
  assumes "i < length s" "\<not> is_Constant x"
  shows "constants (s[i := x]) \<le> constants s" "constants (erase_at i s) \<le> constants s"
proof -
  have "constants s = constants (take i s) + constants [s ! i] + constants (drop (Suc i) s)"
    unfolding constants_def by (subst split_at [OF assms(1)]) (simp only: filter_append length_append filter.simps append_Cons append_Nil, simp)
  then show "constants (s[i := x]) \<le> constants s" "constants (erase_at i s) \<le> constants s"
    using assms by (simp_all add: constants_def erase_at_def upd_conv_take_nth_drop)
qed

lemma constants_pos: "x \<in> set s \<Longrightarrow> is_Constant x \<Longrightarrow> 0 < constants s"
  by (auto simp: constants_def filter_empty_conv)

text \<open>Replacing an element by a product with the same term.\<close>

lemma replace_term:
  assumes "hash_ok hash" "table_ok s" "i < length s" "same_term y (s ! i)" "settled y" "is_Product y"
  shows "emplace (find_in hash nb) (erase_at i s) y = erase_at i s @ [y]" "table_ok (erase_at i s @ [y])"
proof -
  have other: "\<not> same_term z y" if "z \<in> set (erase_at i s)" for z
    using table_ok_other [OF assms(2,3) that] assms(4) by (meson same_term_trans)
  have "find_in hash nb (erase_at i s) y = None"
  proof (rule ccontr)
    assume "find_in hash nb (erase_at i s) y \<noteq> None"
    then obtain j where "find_in hash nb (erase_at i s) y = Some j" by auto
    note j = find_in_Some [OF this]
    have "\<not> is_Constant y" using assms(6) by (cases y) simp_all
    then have "same_term y (erase_at i s ! j)" using j(2) proportional_same_term [OF assms(1), of y "erase_at i s ! j"] by blast
    then show False using other [OF nth_mem [OF j(1)]] same_term_sym by blast
  qed
  then show "emplace (find_in hash nb) (erase_at i s) y = erase_at i s @ [y]" by (simp add: emplace_def)
  show "table_ok (erase_at i s @ [y])" using table_ok_erase [OF assms(2,3)] assms(5) other by (simp add: table_ok_snoc)
qed

definition adds_to :: "('a, 'r::ring_1) interp \<Rightarrow> 'a expr list \<Rightarrow> 'a expr list \<Rightarrow> 'a expr list \<Rightarrow> bool" where
  "adds_to I s es s' \<longleftrightarrow> table_ok s' \<and> val_sum I s' = val_sum I s + val_sum I es \<and> constants s' \<le> constants s + constants es"

lemma constants_single: "constants [e] = (if is_Constant e then 1 else 0)"
  by (simp add: constants_def)

lemma val_sum_single: "val_sum I [e] = val I e"
  by (simp add: val_sum_def)

lemma same_term_val:
  assumes "list_all2 expr_eq fs gs"
  shows "prod_list (map (val I) fs) = prod_list (map (val I) gs)"
proof -
  from assms have "map (val I) fs = map (val I) gs" by (induction rule: list_all2_induct) (auto intro: expr_eq_val)
  then show ?thesis by simp
qed

lemma add_term_ok:
  assumes I: "sound I" and h: "hash_ok hash" and s: "table_ok s" and e: "settled e" and c: "constants s + constants [e] \<le> 1"
  shows "\<exists>s'. add_term (find_in hash nb) s e = Inr s' \<and> adds_to I s [e] s'"
proof (cases "find_in hash nb s e")
  case None
  then have "add_term (find_in hash nb) s e = Inr (s @ [e])" by (simp add: add_term_def emplace_def)
  moreover have "table_ok (s @ [e])"
    using s e find_in_None [OF None h] same_term_sym by (auto simp: table_ok_snoc)
  ultimately show ?thesis by (simp add: adds_to_def val_sum_def constants_def)
next
  case (Some i)
  note i = find_in_Some [OF Some]
  define x where "x = s ! i"
  have "\<not> (is_Constant e \<and> is_Constant x)"
    using c constants_pos [OF nth_mem [OF i(1)]] by (auto simp: constants_single x_def split: if_splits)
  then have same: "same_term e x" and nc: "is_Constant e \<Longrightarrow> \<not> is_Constant x"
    using i(2) proportional_same_term [OF h, of e x] by (auto simp: x_def)
  have x: "settled x" using s i(1) by (simp add: table_ok_def list_all_length x_def)
  note at = val_sum_at [OF i(1), of I, folded x_def]
  have one: "list_all2 expr_eq [z] fs \<longleftrightarrow> (\<exists>f. fs = [f] \<and> expr_eq z f)" for z :: "'a expr" and fs
    by (auto simp: list_all2_Cons1)
  have update: ?thesis
    if "add_term (find_in hash nb) s e = Inr (s[i := y])" "same_term x y" "settled y" "\<not> is_Constant y" "val I y = val I x + val I e" for y
  proof -
    have "table_ok (s[i := y])" using table_ok_swap [OF s i(1)] that(2,3) by (simp add: x_def)
    moreover have "val_sum I (s[i := y]) = val_sum I s + val I e" using at that(5) by (simp add: add.assoc)
    ultimately show ?thesis using that(1) constants_at(1) [OF i(1) that(4)] by (auto simp: adds_to_def val_sum_single)
  qed
  have replace: ?thesis
    if "add_term (find_in hash nb) s e = Inr (emplace (find_in hash nb) (erase_at i s) y)" "same_term y x" "settled y" "is_Product y"
      "val I y = val I x + val I e" for y
  proof -
    note prem = h s i(1) that(2) [unfolded x_def] that(3,4)
    note rep = replace_term(1) [OF prem, of nb] replace_term(2) [OF prem]
    have np: "\<not> is_Constant y" using that(4) by (cases y) simp_all
    have "val_sum I (erase_at i s @ [y]) = val_sum I s + val I e" using at(2) that(5) by (simp add: val_sum_def add.assoc)
    moreover have "constants (erase_at i s @ [y]) \<le> constants s" using constants_at(2) [OF i(1) np] np by (simp add: constants_def)
    ultimately show ?thesis using that(1) rep by (auto simp: adds_to_def val_sum_single)
  qed
  show ?thesis
  proof (cases "is_Product x")
    case True
    then obtain k d fs where Product: "x = Product k d fs" by (cases x) auto
    show ?thesis
    proof (cases "is_Product e")
      case True
      then obtain l d' gs where e': "e = Product l d' gs" by (cases e) auto
      have eq: "list_all2 expr_eq fs gs" using same_term_sym [OF same] Product e' by (simp add: same_term_def)
      have "add_term (find_in hash nb) s e = Inr (s[i := Product k (d + d') fs])"
        using Some Product e' eq by (simp add: add_term_def x_def [symmetric] Let_def add_identical_def product_of_def)
      then show ?thesis
        by (rule update) (use Product x e' same_term_val [OF eq, of I] in \<open>simp_all add: same_term_def list.rel_refl sound_simps(3) [OF I] distrib_right\<close>)
    next
      case False
      then have t: "core_factors e = [e]" by (cases e) simp_all
      then obtain f where f: "fs = [f]" "expr_eq e f" using same Product by (auto simp: same_term_def one)
      have "add_term (find_in hash nb) s e = Inr (s[i := Product k (d + 1) fs])"
        using Some Product False f expr_eq_sym [OF f(2)]
        by (cases e) (simp_all add: add_term_def x_def [symmetric] Let_def add_identical_def product_of_def)
      then show ?thesis
        by (rule update) (use Product x f expr_eq_val [OF f(2), of I] in \<open>simp_all add: same_term_def sound_simps(2,3) [OF I] distrib_right\<close>)
    qed
  next
    case False
    then have tx: "core_factors x = [x]" by (cases x) simp_all
    have unfold: "add_term (find_in hash nb) s e =
        (if is_Product e
         then bind_res (add_identical (mk_product Recursively (prod_scalar (clone e)) (prod_factors (clone e))) x)
                (\<lambda>st. Inr (emplace (find_in hash nb) (erase_at i s) (product_of Plain st)))
         else Inr (emplace (find_in hash nb) (erase_at i s) (product_of Plain (append_scaled Recursively (1, []) 2 e))))"
      using Some False by (cases x) (simp_all add: add_term_def x_def [symmetric] Let_def)
    show ?thesis
    proof (cases "is_Product e")
      case True
      then obtain l d gs where e': "e = Product l d gs" by (cases e) auto
      obtain g where g: "gs = [g]" "expr_eq g x"
        using same_term_sym [OF same] tx e' expr_eq_sym by (auto simp: same_term_def one)
      have gp: "\<not> is_Product g" "\<not> is_Constant g" "settled g"
        using expr_eq_type [OF g(2)] False e e' g(1) by auto
      have "mk_product Recursively d [g] = (d, [g])"
        using gp clone_settled [OF gp(3)] by (cases g) (simp_all add: mk_product_def del: clone.simps)
      moreover have "clone e = e" by (rule clone_settled [OF e])
      moreover have "add_identical (d, [g]) x = Inr (d + 1, [g])" using g(2) False by (cases x) (simp_all add: add_identical_def)
      ultimately have "add_term (find_in hash nb) s e = Inr (emplace (find_in hash nb) (erase_at i s) (Product Plain (d + 1) [g]))"
        using unfold e' g(1) by (simp add: product_of_def)
      then show ?thesis
        by (rule replace) (use e' g gp tx expr_eq_val [OF g(2), of I] in \<open>simp_all add: same_term_def sound_simps(2,3) [OF I] distrib_right add.commute\<close>)
    next
      case np: False
      then have te: "core_factors e = [e]" by (cases e) simp_all
      then have eq: "expr_eq e x" using same tx by (simp add: same_term_def)
      have nce: "\<not> is_Constant e" using nc expr_eq_type [OF eq] by blast
      have "append_scaled Recursively (1, []) 2 e = (2, [e])"
        using np nce clone_settled [OF e] by (cases e) (simp_all add: append_scaled_def del: clone.simps)
      then have "add_term (find_in hash nb) s e = Inr (emplace (find_in hash nb) (erase_at i s) (Product Plain 2 [e]))"
        using unfold np by (simp add: product_of_def)
      moreover have "scal I 2 = 1 + 1" using sound_simps(2) [OF I] sound_simps(3) [OF I, of 1 1] by simp
      ultimately show ?thesis
        by (intro replace [of "Product Plain 2 [e]"]) (use e nce tx eq expr_eq_val [OF eq, of I] in \<open>simp_all add: same_term_def mult_2\<close>)
    qed
  qed
qed


section \<open>Accumulating summands\<close>

fun parts :: "bool \<Rightarrow> 'a expr \<Rightarrow> 'a expr list" where
  "parts flat (SumOf ts) = (if flat then ts else [SumOf ts])"
| "parts flat e = [e]"

lemma val_parts: "val_sum I (parts flat e) = val I e"
  by (cases e) (simp_all add: val_sum_def)

lemma adds_to_trans: "adds_to I s es s' \<Longrightarrow> adds_to I s' fs s'' \<Longrightarrow> adds_to I s (es @ fs) s''"
  by (auto simp: adds_to_def val_sum_def constants_def add.assoc)

lemma adds_to_Nil: "table_ok s \<Longrightarrow> adds_to I s [] s"
  by (simp add: adds_to_def val_sum_def constants_def)

lemma fold_adds:
  assumes "\<And>s e. table_ok s \<Longrightarrow> e \<in> set es \<Longrightarrow> constants s + constants (p e) \<le> 1 \<Longrightarrow> \<exists>s'. g s e = Inr s' \<and> adds_to I s (p e) s'"
    and "table_ok s" "constants s + constants (concat (map p es)) \<le> 1"
  shows "\<exists>s'. foldl (\<lambda>r e. bind_res r (\<lambda>s. g s e)) (Inr s) es = Inr s' \<and> adds_to I s (concat (map p es)) s'"
  using assms
proof (induction es arbitrary: s)
  case Nil
  then show ?case by (simp add: adds_to_Nil)
next
  case (Cons e es)
  obtain s' where s': "g s e = Inr s'" "adds_to I s (p e) s'" using Cons.prems(1) [of s e] Cons.prems(2,3) by (auto simp: constants_def)
  then have "constants s' + constants (concat (map p es)) \<le> 1" "table_ok s'"
    using Cons.prems(3) by (auto simp: adds_to_def constants_def)
  then obtain s'' where "foldl (\<lambda>r e. bind_res r (\<lambda>s. g s e)) (Inr s') es = Inr s''" "adds_to I s' (concat (map p es)) s''"
    using Cons.IH [of s'] Cons.prems(1) by auto
  then show ?case using s' adds_to_trans by auto
qed

lemma accumulate_ok:
  assumes "sound I" "hash_ok hash" "table_ok s" "settled e" "constants s + constants (parts flat e) \<le> 1"
  shows "\<exists>s'. accumulate (find_in hash nb) flat s e = Inr s' \<and> adds_to I s (parts flat e) s'"
proof -
  note one = add_term_ok [OF assms(1,2)]
  show ?thesis
  proof (cases e)
    case (SumOf ts)
    show ?thesis
    proof (cases flat)
      case True
      have "accumulate (find_in hash nb) flat s' t = add_term (find_in hash nb) s' t" if "t \<in> set ts" for s' t
      proof -
        have "\<not> is_SumOf t" using that assms(4) SumOf by (simp add: sum_ok_def)
        then show ?thesis by (cases t) simp_all
      qed
      then have g: "\<exists>s''. accumulate (find_in hash nb) flat s' t = Inr s'' \<and> adds_to I s' [t] s''"
        if "table_ok s'" "t \<in> set ts" "constants s' + constants [t] \<le> 1" for s' t
        using that assms(4) SumOf one [of s' t nb] by (auto simp: list_all_iff)
      have "concat (map (\<lambda>t. [t]) ts) = ts" by (induction ts) simp_all
      then show ?thesis
        using fold_adds [of ts "\<lambda>t. [t]" "accumulate (find_in hash nb) flat" I s, OF g] assms(3,5) SumOf True by simp
    qed (use SumOf one [of s e nb] assms in simp)
  qed (use one [of s e nb] assms in simp_all)
qed

definition accumulate_all :: "('a expr list \<Rightarrow> 'a expr \<Rightarrow> nat option) \<Rightarrow> bool \<Rightarrow> 'a expr list \<Rightarrow> (expr_error, 'a expr list) result" where
  "accumulate_all lkp flat es = foldl (\<lambda>r e. bind_res r (\<lambda>s. accumulate lkp flat s e)) (Inr []) es"

lemma accumulate_all_ok:
  assumes "sound I" "hash_ok hash" "list_all settled es" "constants (concat (map (parts flat) es)) \<le> 1"
  shows "\<exists>s. accumulate_all (find_in hash nb) flat es = Inr s \<and> table_ok s \<and> val_sum I s = val_sum I es"
proof -
  have "val_sum I (concat (map (parts flat) es)) = val_sum I es"
    by (induction es) (simp_all add: val_parts [unfolded val_sum_def] val_sum_def)
  moreover have "\<exists>s. accumulate_all (find_in hash nb) flat es = Inr s \<and> adds_to I [] (concat (map (parts flat) es)) s"
    unfolding accumulate_all_def
    by (rule fold_adds) (use assms accumulate_ok [OF assms(1,2)] in \<open>auto simp: list_all_iff table_ok_def constants_def\<close>)
  ultimately show ?thesis by (auto simp: adds_to_def val_sum_def)
qed

section \<open>The resulting sum\<close>

lemma val_fold_constant:
  assumes "sound I" "fold_constant s v = Inr s'"
  shows "val_sum I (summands s') = val_sum I (summands s) + scal I v"
proof -
  obtain i where "constant_summand_idx s = Some i" using assms(2) by (auto simp: fold_constant_def split: option.splits)
  then have i: "i < length (summands s)" "is_Constant (summands s ! i)"
    and s': "s' = s\<lparr>summands := (summands s)[i := Constant (const_value (summands s ! i) + v)]\<rparr>"
    using assms(2) by (auto simp: fold_constant_def not_le split: if_splits)
  then obtain w where w: "summands s ! i = Constant w" by (cases "summands s ! i") auto
  have "val_sum I (summands s) = val_sum I (erase_at i (summands s)) + scal I w" using val_sum_at(2) [OF i(1), of I] w by simp
  then show ?thesis using s' w val_sum_at(1) [OF i(1), of I] by (simp add: sound_simps(3) [OF assms(1)] add.assoc)
qed

lemma val_drop_zero:
  assumes "sound I" "drop_zero_constant s = Inr s'"
  shows "val_sum I (summands s') = val_sum I (summands s)"
proof -
  have "val_sum I (erase_at i xs) = val_sum I xs" if "i < length xs" "is_zero (xs ! i)" for i and xs :: "'a expr list"
    using val_sum_at(2) [OF that(1), of I] is_zero_val [OF assms(1) that(2)] by simp
  then show ?thesis using assms(2) by (auto simp: drop_zero_constant_def not_le split: option.splits if_splits)
qed

lemma val_move_loop:
  assumes "sound I"
  shows "move_loop s es = Inr s' \<Longrightarrow> val_sum I (summands s') = val_sum I (summands s) + val_sum I es"
proof (induction s es rule: move_loop.induct)
  case (1 s)
  then show ?case using val_drop_zero [OF assms] by (simp add: val_sum_def)
next
  case (2 s e es)
  have cons: "val_sum I (e # es) = val I e + val_sum I es" and snoc: "val_sum I (xs @ [e]) = val_sum I xs + val I e" for xs
    by (simp_all add: val_sum_def)
  consider "is_zero e" | "\<not> is_zero e" "\<not> is_Constant e" | "\<not> is_zero e" "is_Constant e" "constant_summand_idx s = None"
    | "\<not> is_zero e" "is_Constant e" "constant_summand_idx s \<noteq> None" by blast
  then show ?case
  proof cases
    case 1
    then show ?thesis using 2 is_zero_val [OF assms] by (simp add: cons)
  next
    case a: 2
    then show ?thesis using "2.IH"(4) [OF a] "2.prems" by (simp add: cons snoc add.assoc)
  next
    case 3
    then show ?thesis using "2.IH"(3) "2.prems" by (simp add: cons snoc add.assoc)
  next
    case 4
    obtain t where t: "fold_constant s (const_value e) = Inr t" "move_loop t es = Inr s'"
      using "2.prems" 4 by (auto simp: bind_res_Inr)
    have "scal I (const_value e) = val I e" using 4(2) by (cases e) simp_all
    then show ?thesis using "2.IH"(2) [OF 4 t(2)] val_fold_constant [OF assms t(1)] by (simp add: cons add.assoc)
  qed
qed


lemma val_sum_mset:
  fixes xs ys :: "'a expr list"
  assumes "mset xs = mset ys"
  shows "val_sum I xs = val_sum I ys"
  using assms unfolding val_sum_def by (metis mset_map sum_mset_sum_list)

lemma val_nonzero: "sound I \<Longrightarrow> val_sum I (filter (Not \<circ> is_zero) xs) = val_sum I xs"
  using is_zero_val [of I] by (induction xs) (auto simp: val_sum_def)

lemma accumulated_sum_ok:
  assumes I: "sound I" and it: "mset (iterate s) = mset s"
  shows "\<exists>st. accumulated_sum hash address iterate canonicalize s = Inr st \<and> coherent st \<and> val_sum I (summands st) = val_sum I s"
proof -
  define ts where "ts = (if canonicalize then sort_key hash (sort_key address (filter (Not \<circ> is_zero) (iterate s)))
    else filter (Not \<circ> is_zero) (iterate s))"
  have "mset ts = mset (filter (Not \<circ> is_zero) (iterate s))" by (simp add: ts_def)
  then have "val_sum I ts = val_sum I (filter (Not \<circ> is_zero) (iterate s))" by (rule val_sum_mset)
  also have "\<dots> = val_sum I (iterate s)" by (rule val_nonzero [OF I])
  also have "\<dots> = val_sum I s" using it by (rule val_sum_mset)
  finally have v: "val_sum I ts = val_sum I s" .
  have e: "coherent (empty_sum :: 'a sum_state)" "constant_summand_idx_valid (empty_sum :: 'a sum_state)" "val_sum I (summands (empty_sum :: 'a sum_state)) = 0"
    by (simp_all add: empty_sum_def coherent_def at_most_one_def constant_position_def val_sum_def)
  obtain st where "sum_move ts = Inr st" "coherent st" using move_loop_ok [OF e(1,2), of ts] by (auto simp: sum_move_def)
  moreover from this have "val_sum I (summands st) = val_sum I s"
    using val_move_loop [OF I, of empty_sum ts st] e(3) v by (simp add: sum_move_def)
  moreover have "accumulated_sum hash address iterate canonicalize s = sum_move ts"
    by (simp add: accumulated_sum_def ts_def)
  ultimately show ?thesis by auto
qed

text \<open>C36: Accumulating settled summands among which there is at most one constant never fails, whatever the hash and the
  number of buckets: the set holds every term once, up to its scalar, and its elements add up to the value of
  the summands; so does the expression that is made of it in every order of iteration.\<close>
theorem accumulator_collects_terms:
  assumes "sound I" "hash_ok hash" "list_all settled es" "constants (concat (map (parts flat) es)) \<le> 1"
    "\<And>xs. mset (iterate xs) = mset xs"
  shows "\<exists>s e. accumulate_all (find_in hash nb) flat es = Inr s \<and> table_ok s \<and> val_sum I s = val_sum I es
    \<and> accumulated_expr hash address iterate canonicalize s = Inr e \<and> val I e = val_sum I es"
proof -
  obtain s where s: "accumulate_all (find_in hash nb) flat es = Inr s" "table_ok s" "val_sum I s = val_sum I es"
    using accumulate_all_ok [OF assms(1-4), of nb] by blast
  obtain st where st: "accumulated_sum hash address iterate canonicalize s = Inr st" "val_sum I (summands st) = val_sum I s"
    using accumulated_sum_ok [where iterate = iterate and I = I and s = s, OF assms(1,5)] by blast
  consider "s = []" | x where "s = [x]" | "s \<noteq> []" "length s \<noteq> 1" by (cases s rule: list.exhaust; cases "tl s") auto
  then show ?thesis
  proof cases
    case 1
    then show ?thesis using s sound_simps(1) [OF assms(1)] by (simp add: accumulated_expr_def val_sum_def)
  next
    case 2
    then show ?thesis using s by (simp add: accumulated_expr_def val_sum_def)
  next
    case 3
    then show ?thesis using s st by (simp add: accumulated_expr_def val_sum_def [symmetric])
  qed
qed

text \<open>The number of factors as a hash.\<close>

definition small_hash :: "'a expr \<Rightarrow> nat" where
  "small_hash e = length (core_factors e)"

lemma small_hash_ok: "hash_ok small_hash"
  by (auto simp: hash_ok_def small_hash_def same_term_def dest: list_all2_lengthD)

lemma accumulator_collects_terms_witness:
  "\<exists>s e. accumulate_all (find_in small_hash (\<lambda>_. 1)) True [Atom 0, SumOf [Atom 1, Constant 2], Product Plain 3 [Atom 0]] = Inr s
     \<and> accumulated_expr small_hash (\<lambda>_. 0) rev True s = Inr e \<and> val tri_interp e = Tri 6 1 2"
proof -
  have "list_all settled [Atom (0 :: nat), SumOf [Atom 1, Constant 2], Product Plain 3 [Atom 0]]"
    by (simp add: sum_ok_def)
  moreover have "constants (concat (map (parts True) [Atom (0 :: nat), SumOf [Atom 1, Constant 2], Product Plain 3 [Atom 0]])) \<le> 1"
    by (simp add: constants_def)
  moreover have "val_sum tri_interp [Atom 0, SumOf [Atom 1, Constant 2], Product Plain 3 [Atom 0]] = Tri 6 1 2"
    by (simp add: val_sum_def tri_interp_def tri_defs)
  ultimately show ?thesis
    using accumulator_collects_terms [OF tri_sound small_hash_ok, of "[Atom 0, SumOf [Atom 1, Constant 2], Product Plain 3 [Atom 0]]" True rev
        "\<lambda>_. 1" "\<lambda>_. 0" True] by auto
qed

text \<open>Two constants in one bucket are taken for one another, and a fourth equal constant is lost.\<close>

lemma constants_collide:
  "accumulate_all (find_in hash (\<lambda>_. 1)) True [Constant 2, Constant 3] = Inr [Product Plain 6 []]"
  "accumulate_all (find_in hash nb) True [Constant 1, Constant 1, Constant 1, Constant 1] = Inr [Product Plain 2 []]"
  by (simp_all add: accumulate_all_def add_term_def emplace_def find_in_def proportional_to_def erase_at_def
      append_scaled_def product_of_def Let_def)

end
