(* ===== verification/Flatten.thy ===== *)
theory Flatten
  imports Expand
begin

text \<open>
  SeQuant/core/expressions/expr_algorithms.cpp: \<open>flatten\<close>.
\<close>

section \<open>Flattening\<close>

text \<open>
  The children are flattened in place.  The node is rebuilt from the first child of its own type on; the test
  whether the pointer of a child has changed compares it with itself.  A rebuilt product is a plain \<open>Product\<close>.
\<close>

fun flatten :: "'a expr \<Rightarrow> 'a expr" where
  "flatten (Product k c fs) =
     (let fs' = map flatten fs
      in if list_ex is_Product fs' then product_of Plain (mk_product Recursively c fs') else Product k c fs')"
| "flatten (SumOf ss) =
     (let ss' = map flatten ss in if list_ex is_SumOf ss' then mk_sum ss' else SumOf ss')"
| "flatten e = e"

fun flat :: "'a expr \<Rightarrow> bool" where
  "flat (Product k c fs) \<longleftrightarrow> list_all flat fs \<and> (\<forall>f\<in>set fs. \<not> is_Product f)"
| "flat (SumOf ss) \<longleftrightarrow> list_all flat ss \<and> (\<forall>s\<in>set ss. \<not> is_SumOf s)"
| "flat e \<longleftrightarrow> True"

lemma val_flatten: "sound I \<Longrightarrow> val I (flatten e) = val I e"
proof (induction e rule: flatten.induct)
  case (1 k c fs)
  have "map (val I) (map flatten fs) = map (val I) fs" using 1 by simp
  then have "prod_list (map (val I) (map flatten fs)) = prod_list (map (val I) fs)" by (simp only:)
  then show ?case using val_mk_product [OF 1(2), of Recursively c "map flatten fs"] by (simp add: Let_def del: map_map)
next
  case (2 ss)
  have "map (val I) (map flatten ss) = map (val I) ss" using 2 by simp
  then have "sum_list (map (val I) (map flatten ss)) = sum_list (map (val I) ss)" by (simp only:)
  then show ?case using val_mk_sum [OF 2(2), of "map flatten ss"] by (simp add: Let_def val_sum_def del: map_map)
qed simp_all

lemma flat_foldl_sum:
  "list_all (\<lambda>s. flat s \<and> \<not> is_SumOf s) acc \<Longrightarrow> \<forall>s\<in>set ss. flat s \<Longrightarrow>
     (\<And>acc s. list_all (\<lambda>s. flat s \<and> \<not> is_SumOf s) acc \<Longrightarrow> flat s \<Longrightarrow> list_all (\<lambda>s. flat s \<and> \<not> is_SumOf s) (g acc s)) \<Longrightarrow>
     list_all (\<lambda>s. flat s \<and> \<not> is_SumOf s) (foldl g acc ss)"
  by (induction ss arbitrary: acc) simp_all

lemma flat_add_summands:
  "list_all (\<lambda>s. flat s \<and> \<not> is_SumOf s) ss \<Longrightarrow> flat e \<Longrightarrow> list_all (\<lambda>s. flat s \<and> \<not> is_SumOf s) (add_summands ss e)"
proof (induction ss e rule: add_summands.induct)
  case (1 ss ts)
  have "list_all (\<lambda>s. flat s \<and> \<not> is_SumOf s) (foldl add_summands acc us)"
    if "set us \<subseteq> set ts" "list_all (\<lambda>s. flat s \<and> \<not> is_SumOf s) acc" for acc us
    using that
  proof (induction us arbitrary: acc)
    case (Cons u us)
    have u: "u \<in> set ts" "flat u" using Cons.prems(1) 1(3) by (auto simp: list_all_iff)
    show ?case using Cons.IH [OF _ 1(1) [OF u(1) Cons.prems(2) u(2)]] Cons.prems(1) by simp
  qed simp
  then show ?case using 1(2) by simp
qed (unfold add_summands.simps, (rule add_summand_all; simp)+)

lemma clone_flat: "flat e \<Longrightarrow> flat (clone e)"
proof (induction e rule: clone.induct)
  case (1 k c fs)
  then show ?case by (auto simp: clone_Product list_all_iff clone_constructor simp del: clone.simps(1))
next
  case (2 ss)
  have "list_all (\<lambda>s. flat s \<and> \<not> is_SumOf s) (foldl add_summands [] (map clone ss))"
    using 2 by (intro flat_foldl_sum flat_add_summands) (auto simp: list_all_iff)
  then show ?case by (simp add: list_all_iff)
qed simp_all

lemma flat_append_factor:
  fixes e :: "'a expr"
  assumes "flat e" "list_all (\<lambda>f. flat f \<and> \<not> is_Product f) (snd st)"
  shows "list_all (\<lambda>f. flat f \<and> \<not> is_Product f) (snd (append_factor Recursively st e))"
proof -
  have leaf: "list_all (\<lambda>f. flat f \<and> \<not> is_Product f) (snd (append_factor Recursively st e))"
    if "\<not> is_Product e" "flat e" "list_all (\<lambda>f. flat f \<and> \<not> is_Product f) (snd st)" for st and e :: "'a expr"
    using that clone_flat [of e] clone_constructor(3) [of e] by (cases st; cases e) (simp_all del: clone.simps)
  show ?thesis
  proof (cases "is_Product e")
    case True
    then obtain k d gs where e: "e = Product k d gs" by (cases e) auto
    have "list_all (\<lambda>f. flat f \<and> \<not> is_Product f) (snd (foldl (append_factor Recursively) st' hs))"
      if "\<forall>h\<in>set hs. flat h \<and> \<not> is_Product h" "list_all (\<lambda>f. flat f \<and> \<not> is_Product f) (snd st')" for hs :: "'a expr list" and st'
      using that(2,1)
    proof (induction hs arbitrary: st')
      case (Cons h hs)
      then show ?case using Cons.IH [of "append_factor Recursively st' h"] leaf [of h st'] by simp
    qed simp
    note all = this
    obtain c fs where st: "st = (c, fs)" by (cases st)
    have "\<forall>h\<in>set gs. flat h \<and> \<not> is_Product h" using assms(1) e by (simp add: list_all_iff)
    from all [OF this, of "(c * d, fs)"] show ?thesis using assms(2) by (simp add: e st)
  qed (use leaf assms in blast)
qed

lemma flatten_flat_lemma: "flat (flatten e)"
proof (induction e rule: flatten.induct)
  case (1 k c fs)
  have "list_all (\<lambda>f. flat f \<and> \<not> is_Product f) (snd (foldl (append_factor Recursively) st hs))"
    if "\<forall>h\<in>set hs. flat h" "list_all (\<lambda>f. flat f \<and> \<not> is_Product f) (snd st)" for hs :: "'a expr list" and st
    using that(2,1)
  proof (induction hs arbitrary: st)
    case (Cons h hs)
    then show ?case using Cons.IH [of "append_factor Recursively st h"] flat_append_factor [of h st] by simp
  qed simp
  from this [of "map flatten fs" "(c, [])"] 1 show ?case
    by (auto simp: Let_def mk_product_def product_of_def list_all_iff list_ex_iff)
next
  case (2 ss)
  have app: "list_all (\<lambda>s. flat s \<and> \<not> is_SumOf s) (append_summand acc s)"
    if "list_all (\<lambda>s. flat s \<and> \<not> is_SumOf s) acc" "flat s" for acc and s :: "'a expr"
    using that
  proof (induction acc s rule: append_summand.induct)
    case (1 acc ts)
    have "list_all (\<lambda>s. flat s \<and> \<not> is_SumOf s) (foldl append_summand acc us)"
      if "set us \<subseteq> set ts" "list_all (\<lambda>s. flat s \<and> \<not> is_SumOf s) acc" for acc us
      using that
    proof (induction us arbitrary: acc)
      case (Cons u us)
      have u: "u \<in> set ts" "flat u" using Cons.prems(1) 1(3) by (auto simp: list_all_iff)
      show ?case using Cons.IH [OF _ 1(1) [OF u(1) Cons.prems(2) u(2)]] Cons.prems(1) by simp
    qed simp
    then show ?case using 1(2) by simp
  next
    case (2 acc v)
    then show ?case by (simp add: add_summand_all)
  qed (simp_all add: clone_flat clone_constructor(2) del: clone.simps(1) flat.simps(1))
  have "list_all (\<lambda>s. flat s \<and> \<not> is_SumOf s) (foldl append_summand [] (map flatten ss))"
    using 2 by (intro flat_foldl_sum app) auto
  then show ?case using 2 by (auto simp: Let_def mk_sum_def list_all_iff list_ex_iff)
qed simp_all

lemma flatten_id: "flat e \<Longrightarrow> flatten e = e"
proof (induction e rule: flatten.induct)
  case (1 k c fs)
  then have "map flatten fs = fs" by (auto simp: list_all_iff intro: map_idI)
  then show ?case using 1(2) by (auto simp: Let_def list_ex_iff)
next
  case (2 ss)
  then have "map flatten ss = ss" by (auto simp: list_all_iff intro: map_idI)
  then show ?case using 2(2) by (auto simp: Let_def list_ex_iff)
qed simp_all

text \<open>C34: Flattening keeps the value, leaves no product that is a factor of a product and no sum that is a summand of
  a sum, at any depth, and changes nothing where there is none.\<close>
theorem flatten_correct:
  assumes "sound I"
  shows "val I (flatten e) = val I e \<and> flat (flatten e) \<and> (flat e \<longrightarrow> flatten e = e)"
  using val_flatten [OF assms] flatten_flat_lemma flatten_id by blast

lemma flatten_correct_witness:
  "flat (flatten (Product Plain 2 [Product Plain 3 [Atom 0, Atom (1 :: nat)], Atom 1]))
   \<and> val tri_interp (flatten (Product Plain 2 [Product Plain 3 [Atom 0], Atom 1])) = Tri 0 6 0"
  using flatten_correct [OF tri_sound, of "Product Plain 2 [Product Plain 3 [Atom 0, Atom 1], Atom 1]"]
    flatten_correct [OF tri_sound, of "Product Plain 2 [Product Plain 3 [Atom 0], Atom 1]"]
  by (simp add: tri_interp_def tri_defs del: flatten.simps)

end
