(* ===== verification/CoprimeBase.thy ===== *)
theory CoprimeBase
  imports Complex_Main Prelude
begin

text \<open>
  SeQuant/core/math.hpp: factorials, integer roots, coprime bases.  \<open>intmax_t\<close> is a multiprecision integer;
  the numbers here are not negative.
\<close>

section \<open>Powers of two and factorials\<close>

definition pow2 :: "nat \<Rightarrow> nat option" where
  "pow2 n = (if n \<le> 63 then Some (2 ^ n) else None)"

definition factorials :: "nat list" where
  "factorials =
     [1, 1, 2, 6, 24, 120, 720, 5040, 40320, 362880, 3628800, 39916800, 479001600, 6227020800, 87178291200,
      1307674368000, 20922789888000, 355687428096000, 6402373705728000, 121645100408832000, 2432902008176640000]"

text \<open>The loop that extends the memoized values, and a call: the new memoized values and the result.\<close>

definition memo_step :: "nat list \<Rightarrow> nat \<Rightarrow> nat list" where
  "memo_step m i = m @ [(if i = 0 then factorials ! 20 else last m) * (i + 20 + 1)]"

definition extend_memo :: "nat list \<Rightarrow> nat \<Rightarrow> nat list" where
  "extend_memo memo n = foldl memo_step memo [length memo..<Suc n]"

definition factorial :: "nat list \<Rightarrow> nat \<Rightarrow> nat list \<times> nat" where
  "factorial memo n =
     (if n \<le> 20 then (memo, factorials ! n)
      else let i = n - 20 - 1
           in if i < length memo then (memo, memo ! i)
              else let m = extend_memo memo i in (m, m ! i))"

definition memo_ok :: "nat list \<Rightarrow> bool" where
  "memo_ok memo \<longleftrightarrow> (\<forall>i < length memo. memo ! i = fact (i + 21))"

lemma factorials_ok:
  assumes "n \<le> 20"
  shows "factorials ! n = fact n"
proof -
  have "n \<in> {20, 19, 18, 17, 16, 15, 14, 13, 12, 11, 10, 9, 8, 7, 6, 5, 4, 3, 2, 1, 0}"
    unfolding insert_iff empty_iff using assms by presburger
  then show ?thesis by (elim insertE emptyE) (simp_all add: factorials_def fact_numeral)
qed

lemma memo_ok_step:
  assumes "memo_ok m"
  shows "memo_ok (memo_step m (length m))"
proof -
  have "(if length m = 0 then factorials ! 20 else last m) = (fact (length m + 20) :: nat)"
  proof (cases "m = []")
    case False
    then have "last m = fact (length m - 1 + 21)" using assms by (simp add: memo_ok_def last_conv_nth)
    moreover have "length m - 1 + 21 = length m + 20" using False by (cases m) simp_all
    ultimately show ?thesis using False by (simp only: length_0_conv if_False)
  qed (use factorials_ok [of 20] in simp)
  moreover have "(fact (length m + 21) :: nat) = fact (length m + 20) * (length m + 20 + 1)"
    using fact_Suc [of "length m + 20", where 'a = nat] by (simp add: ac_simps)
  ultimately have "memo_step m (length m) = m @ [fact (length m + 21)]" by (simp only: memo_step_def)
  then show ?thesis using assms by (auto simp: memo_ok_def nth_append less_Suc_eq)
qed

lemma extend_memo_ok:
  assumes "memo_ok memo" "length memo \<le> k"
  shows "memo_ok (foldl memo_step memo [length memo..<k]) \<and> length (foldl memo_step memo [length memo..<k]) = k"
  using assms(2)
proof (induction k rule: dec_induct)
  case (step k)
  then show ?case using memo_ok_step [of "foldl memo_step memo [length memo..<k]"] by (simp add: memo_step_def [of _ k])
qed (simp add: assms(1))

text \<open>With every memoized value right \<open>factorial\<close> returns the factorial and leaves every memoized value right.\<close>
theorem factorial_memoizes:
  assumes "memo_ok memo"
  shows "snd (factorial memo n) = fact n \<and> memo_ok (fst (factorial memo n))"
proof (cases "n \<le> 20 \<or> n - 21 < length memo")
  case True
  then show ?thesis using assms factorials_ok [of n] by (auto simp: factorial_def Let_def memo_ok_def)
next
  case False
  then show ?thesis using extend_memo_ok [OF assms, of "Suc (n - 21)"]
    by (auto simp: factorial_def Let_def extend_memo_def memo_ok_def simp del: upt_Suc)
qed

lemma factorial_memoizes_witness: "snd (factorial [fact 21] 22) = 1124000727777607680000"
  using factorial_memoizes [of "[fact 21]" 22] by (simp add: memo_ok_def fact_numeral)

section \<open>Integer roots\<close>

text \<open>
  Newton's iteration from an estimate that the code computes in floating point, here a parameter, and the final
  climb; \<open>k = 0\<close> is excluded by an assertion.
\<close>

function newton :: "nat \<Rightarrow> nat \<Rightarrow> nat \<Rightarrow> nat" where
  "newton n k x = (let y = ((k - 1) * x + n div x ^ (k - 1)) div k in if x \<le> y then x else newton n k y)"
  by pat_completeness auto
termination by (relation "measure (\<lambda>(n, k, x). x)") auto

function climb :: "nat \<Rightarrow> nat \<Rightarrow> nat \<Rightarrow> nat" where
  "climb n k x = (if k \<noteq> 0 \<and> (x + 1) ^ k \<le> n then climb n k (x + 1) else x)"
  by pat_completeness auto
termination
proof (relation "measure (\<lambda>(n, k, x). n - x)")
  fix n k x :: nat
  assume a: "k \<noteq> 0 \<and> (x + 1) ^ k \<le> n"
  have "x + 1 \<le> (x + 1) ^ k" using a by (simp add: self_le_power)
  then have "x < n" using a by linarith
  then show "((n, k, x + 1), n, k, x) \<in> measure (\<lambda>(n, k, x). n - x)" by simp
qed simp

declare newton.simps [simp del] climb.simps [simp del]

definition iroot :: "(nat \<Rightarrow> nat \<Rightarrow> nat) \<Rightarrow> nat \<Rightarrow> nat \<Rightarrow> nat" where
  "iroot est n k = (if k = 1 \<or> n < 2 then n else climb n k (newton n k (Suc (est n k))))"

lemma newton_below:
  assumes "2 \<le> k" "1 \<le> n" "1 \<le> x"
  shows "newton n k x ^ k \<le> n"
  using assms
proof (induction n k x rule: newton.induct)
  case (1 n k x)
  define y where "y = ((k - 1) * x + n div x ^ (k - 1)) div k"
  show ?case
  proof (cases "x \<le> y")
    case True
    have "k * x \<le> (k - 1) * x + n div x ^ (k - 1)"
      using True 1(2) unfolding y_def by (metis div_le_dividend less_eq_div_iff_mult_less_eq mult.commute zero_less_numeral less_le_trans)
    moreover have "k * x = (k - 1) * x + x" using 1(2) by (cases k) simp_all
    ultimately have "x \<le> n div x ^ (k - 1)" by linarith
    then have "x * x ^ (k - 1) \<le> n" using 1(4) by (simp add: less_eq_div_iff_mult_less_eq)
    then have "x ^ k \<le> n" using 1(2) by (simp add: power_eq_if)
    then show ?thesis using True unfolding newton.simps [of n k x] Let_def y_def [symmetric] by simp
  next
    case False
    have "1 \<le> y"
    proof (cases "x = 1")
      case True
      then show ?thesis using 1(2,3) by (simp add: y_def less_eq_div_iff_mult_less_eq)
    next
      case False
      then have "(k - 1) * 2 \<le> (k - 1) * x" using 1(4) by (intro mult_left_mono) auto
      then have "k \<le> (k - 1) * x + n div x ^ (k - 1)" using 1(2) by linarith
      then show ?thesis using 1(2) by (simp add: y_def less_eq_div_iff_mult_less_eq)
    qed
    then show ?thesis using 1(1) [OF y_def False 1(2,3)] False unfolding newton.simps [of n k x] Let_def y_def [symmetric] by simp
  qed
qed

lemma climb_floor:
  assumes "1 \<le> k" "x ^ k \<le> n"
  shows "climb n k x ^ k \<le> n" "n < (climb n k x + 1) ^ k"
proof -
  have "climb n k x ^ k \<le> n \<and> n < (climb n k x + 1) ^ k"
    using assms
  proof (induction n k x rule: climb.induct)
    case (1 n k x)
    show ?case
    proof (cases "(x + 1) ^ k \<le> n")
      case True
      then show ?thesis using 1 by (simp add: climb.simps [of n k x])
    next
      case False
      then show ?thesis using 1(2,3) by (simp add: climb.simps [of n k x])
    qed
  qed
  then show "climb n k x ^ k \<le> n" "n < (climb n k x + 1) ^ k" by auto
qed

lemma iroot_floor:
  assumes "1 \<le> k"
  shows "iroot est n k ^ k \<le> n" "n < (iroot est n k + 1) ^ k"
proof -
  have "iroot est n k ^ k \<le> n \<and> n < (iroot est n k + 1) ^ k"
  proof (cases "k = 1 \<or> n < 2")
    case True
    then consider "k = 1" | "n = 0" | "n = 1" by linarith
    then show ?thesis
    proof cases
      case 3
      have "1 < (2 :: nat) ^ k" using assms by (metis one_less_numeral_iff one_less_power semiring_norm(76) less_le_trans zero_less_one)
      then show ?thesis using 3 by (simp add: iroot_def numeral_2_eq_2)
    qed (use assms in \<open>simp_all add: iroot_def\<close>)
  next
    case False
    then have "newton n k (Suc (est n k)) ^ k \<le> n" using assms by (intro newton_below) auto
    then show ?thesis using climb_floor [OF assms] False by (simp add: iroot_def)
  qed
  then show "iroot est n k ^ k \<le> n" "n < (iroot est n k + 1) ^ k" by auto
qed

text \<open>C39: \<open>iroot\<close> returns the floor of the root, whatever the floating-point estimate it starts from.\<close>
theorem iroot_is_floor_root:
  assumes "1 \<le> k"
  shows "r = iroot est n k \<longleftrightarrow> r ^ k \<le> n \<and> n < (r + 1) ^ k"
proof
  assume r: "r ^ k \<le> n \<and> n < (r + 1) ^ k"
  have "r ^ k < (iroot est n k + 1) ^ k" "iroot est n k ^ k < (r + 1) ^ k"
    using r iroot_floor [OF assms] le_less_trans by blast+
  then have "r < iroot est n k + 1" "iroot est n k < r + 1" using power_less_imp_less_base by blast+
  then show "r = iroot est n k" by simp
qed (use iroot_floor [OF assms] in simp)

lemma iroot_is_floor_root_witness: "iroot (\<lambda>_ _. 0) 80 4 = 2 \<and> iroot (\<lambda>_ _. 1000) 1000 3 = 10"
  using iroot_is_floor_root [of 4 2 "\<lambda>_ _. 0" 80] iroot_is_floor_root [of 3 10 "\<lambda>_ _. 1000" 1000] by simp


section \<open>Coprime bases\<close>

text \<open>
  The loops over \<open>j\<close> and \<open>i\<close>, whose bounds grow while they run, and the loop until nothing is refined.  On
  zeros they would not end.
\<close>

partial_function (option) refine_inner :: "nat \<Rightarrow> nat \<Rightarrow> nat list \<Rightarrow> bool \<Rightarrow> (nat list \<times> bool) option" where
  "refine_inner i j base refined =
     (if j < length base
      then (let g = gcd (base ! i) (base ! j)
            in if g = 1 then refine_inner i (Suc j) base refined
               else refine_inner i (Suc j) (base[i := base ! i div g, j := base ! j div g] @ [g]) True)
      else Some (base, refined))"

partial_function (option) refine_outer :: "nat \<Rightarrow> nat list \<Rightarrow> bool \<Rightarrow> (nat list \<times> bool) option" where
  "refine_outer i base refined =
     (if i < length base
      then Option.bind (refine_inner i (Suc i) base refined) (\<lambda>r. refine_outer (Suc i) (fst r) (snd r))
      else Some (base, refined))"

partial_function (option) coprime_loop :: "nat list \<Rightarrow> nat list option" where
  "coprime_loop base =
     Option.bind (refine_outer 0 base False)
       (\<lambda>r. let base' = filter (\<lambda>n. n \<noteq> 1) (fst r) in if snd r then coprime_loop base' else Some base')"

declare refine_inner.simps [code] refine_outer.simps [code] coprime_loop.simps [code]

definition coprime_base :: "nat list \<Rightarrow> nat list option" where
  "coprime_base numbers = coprime_loop (filter (\<lambda>n. 1 < n) numbers)"

text \<open>A number that is a product of elements of the base.\<close>

definition product_in :: "nat set \<Rightarrow> nat \<Rightarrow> bool" where
  "product_in B n \<longleftrightarrow> (\<exists>ks. set ks \<subseteq> B \<and> n = prod_list ks)"

lemma product_in_1 [simp]: "product_in B 1"
  unfolding product_in_def by (rule exI [of _ "[]"]) simp

lemma product_in_mem: "b \<in> B \<Longrightarrow> product_in B b"
  unfolding product_in_def by (rule exI [of _ "[b]"]) simp

lemma product_in_mult: "product_in B m \<Longrightarrow> product_in B n \<Longrightarrow> product_in B (m * n)"
proof -
  assume "product_in B m" "product_in B n"
  then obtain ks ls where "set ks \<subseteq> B" "m = prod_list ks" "set ls \<subseteq> B" "n = prod_list ls" by (auto simp: product_in_def)
  then show ?thesis unfolding product_in_def by (intro exI [of _ "ks @ ls"]) simp
qed

lemma product_in_trans: "product_in B n \<Longrightarrow> (\<And>b. b \<in> B \<Longrightarrow> product_in C b) \<Longrightarrow> product_in C n"
proof -
  assume "product_in B n" and step: "\<And>b. b \<in> B \<Longrightarrow> product_in C b"
  then obtain ks where ks: "set ks \<subseteq> B" "n = prod_list ks" by (auto simp: product_in_def)
  from ks(1) have "product_in C (prod_list ks)" by (induction ks) (auto intro: product_in_mult step simp del: One_nat_def)
  then show ?thesis using ks(2) by simp
qed

definition spans :: "nat list \<Rightarrow> nat list \<Rightarrow> bool" where
  "spans B A \<longleftrightarrow> (\<forall>a \<in> set A. product_in (set B) a)"

lemma spans_refl [simp]: "spans B B"
  by (simp add: spans_def product_in_mem)

lemma spans_trans: "spans C B \<Longrightarrow> spans B A \<Longrightarrow> spans C A"
  by (auto simp: spans_def intro: product_in_trans)

definition positive :: "nat list \<Rightarrow> bool" where
  "positive base \<longleftrightarrow> (\<forall>n \<in> set base. 0 < n)"

lemma prod_list_pos: "positive base \<Longrightarrow> 0 < prod_list base"
  by (induction base) (auto simp: positive_def)

definition split_pair :: "nat list \<Rightarrow> nat \<Rightarrow> nat \<Rightarrow> nat list" where
  "split_pair base i j =
     (let g = gcd (base ! i) (base ! j) in base[i := base ! i div g, j := base ! j div g] @ [g])"

lemma prod_list_update: "i < length xs \<Longrightarrow> prod_list (xs[i := v]) * xs ! i = prod_list xs * (v :: nat)"
proof -
  assume i: "i < length xs"
  have "prod_list xs = prod_list (take i xs) * (xs ! i * prod_list (drop (Suc i) xs))"
    by (subst id_take_nth_drop [OF i]) simp
  then show ?thesis using i by (simp add: upd_conv_take_nth_drop)
qed

lemma split_pair:
  assumes "positive base" "i < j" "j < length base" "gcd (base ! i) (base ! j) \<noteq> 1"
  shows "positive (split_pair base i j)" "prod_list (split_pair base i j) < prod_list base"
    "length (split_pair base i j) = Suc (length base)" "spans (split_pair base i j) base"
proof -
  define g where "g = gcd (base ! i) (base ! j)"
  have pos: "0 < base ! i" "0 < base ! j" using assms(1-3) by (auto simp: positive_def)
  have g: "1 < g" using assms(4) pos unfolding g_def by (metis gcd_pos_nat less_one linorder_neqE_nat not_gr_zero gcd_eq_0_iff)
  obtain a b where ab: "base ! i = g * a" "base ! j = g * b" unfolding g_def by (metis dvdE gcd_dvd1 gcd_dvd2)
  have ab0: "0 < a" "0 < b" using ab pos by auto
  have sp: "split_pair base i j = base[i := a, j := b] @ [g]" using ab g unfolding split_pair_def g_def [symmetric] Let_def by simp
  show "positive (split_pair base i j)"
    using assms(1) ab0 g unfolding sp positive_def by (auto dest!: set_update_subset_insert [THEN subsetD])
  have "prod_list (base[i := a]) * (g * a) = prod_list base * a"
    using prod_list_update [of i base a] assms(2,3) ab by simp
  then have p1: "prod_list (base[i := a]) * g = prod_list base" using ab0 by simp
  have "prod_list (base[i := a, j := b]) * (g * b) = prod_list (base[i := a]) * b"
    using prod_list_update [of j "base[i := a]" b] assms(2,3) ab by simp
  then have p2: "prod_list (base[i := a, j := b]) * g = prod_list (base[i := a])" using ab0 by simp
  have "0 < prod_list base" by (rule prod_list_pos [OF assms(1)])
  then have "0 < prod_list (base[i := a])" using p1 by (metis mult_eq_0_iff not_gr_zero)
  then have "prod_list (base[i := a]) < prod_list base" using p1 g by (metis mult.right_neutral nat_mult_less_cancel1)
  then show "prod_list (split_pair base i j) < prod_list base" unfolding sp using p2 by simp
  show "length (split_pair base i j) = Suc (length base)" by (simp add: sp)
  have mem: "g \<in> set (split_pair base i j)" "a \<in> set (split_pair base i j)" "b \<in> set (split_pair base i j)"
  proof -
    have "base[i := a, j := b] ! i = a" "base[i := a, j := b] ! j = b" using assms(2,3) by simp_all
    then show "a \<in> set (split_pair base i j)" "b \<in> set (split_pair base i j)"
      using nth_mem [of i "base[i := a, j := b]"] nth_mem [of j "base[i := a, j := b]"] assms(2,3) by (auto simp: sp)
  qed (simp add: sp)
  have "product_in (set (split_pair base i j)) (base ! k)" if "k < length base" for k
  proof -
    consider "k = i" | "k = j" | "k \<noteq> i" "k \<noteq> j" by blast
    then show ?thesis
    proof cases
      case 3
      then have "base ! k \<in> set (split_pair base i j)" using that
        unfolding sp by (auto simp: in_set_conv_nth intro!: exI [of _ k] simp: nth_append)
      then show ?thesis by (rule product_in_mem)
    qed (use ab mem in \<open>auto intro: product_in_mult product_in_mem\<close>)
  qed
  then show "spans (split_pair base i j) base" by (auto simp: spans_def in_set_conv_nth)
qed

text \<open>What a loop leaves: a base that spans the old one and, if something was refined, has a smaller product.\<close>

definition refines :: "nat list \<Rightarrow> bool \<Rightarrow> nat list \<Rightarrow> bool \<Rightarrow> bool" where
  "refines base refined b r \<longleftrightarrow> positive b \<and> spans b base \<and> length base \<le> length b
     \<and> (b = base \<and> r = refined \<or> r \<and> prod_list b < prod_list base)"

lemma refines_trans: "refines base ref b r \<Longrightarrow> refines b r c r' \<Longrightarrow> refines base ref c r'"
  by (auto simp: refines_def intro: spans_trans)

lemma refine_inner_ok:
  assumes "positive base" "i < j" "i < length base"
  shows "\<exists>b r. refine_inner i j base refined = Some (b, r) \<and> refines base refined b r
    \<and> (\<not> r \<longrightarrow> (\<forall>k. j \<le> k \<longrightarrow> k < length base \<longrightarrow> coprime (base ! i) (base ! k)))"
  using assms
proof (induction "(base, j)" arbitrary: base j refined rule: wf_induct_rule [OF wf_measures [of "[prod_list \<circ> fst, \<lambda>(base, j). length base - j]"]])
  case (1 base j)
  show ?case
  proof (cases "j < length base")
    case False
    then show ?thesis using 1(2) by (simp add: refine_inner.simps [of i j] refines_def)
  next
    case j: True
    show ?thesis
    proof (cases "gcd (base ! i) (base ! j) = 1")
      case True
      then have cop: "coprime (base ! i) (base ! j)" by (simp add: coprime_iff_gcd_eq_1)
      obtain b r where r: "refine_inner i (Suc j) base refined = Some (b, r)" "refines base refined b r"
        "\<not> r \<longrightarrow> (\<forall>k. Suc j \<le> k \<longrightarrow> k < length base \<longrightarrow> coprime (base ! i) (base ! k))"
        using 1(1) [of base "Suc j" refined] 1(2-4) j diff_less_mono2 [of j "Suc j" "length base"]
        unfolding measures_def by fastforce
      have "refine_inner i j base refined = Some (b, r)" using j True r(1) by (simp add: refine_inner.simps [of i j])
      then show ?thesis using r(2,3) cop by (metis Suc_leI le_neq_implies_less)
    next
      case False
      note sp = split_pair [OF 1(2,3) j False]
      obtain b r where r: "refine_inner i (Suc j) (split_pair base i j) True = Some (b, r)" "refines (split_pair base i j) True b r"
        using 1(1) [of "split_pair base i j" "Suc j" True] sp 1(3,4) by (auto simp: measures_def)
      have "refine_inner i j base refined = Some (b, r)"
        using j False r(1) by (simp add: refine_inner.simps [of i j] split_pair_def Let_def)
      moreover have "refines base refined b r" "r" using sp r(2) by (auto simp: refines_def intro: spans_trans)
      ultimately show ?thesis by blast
    qed
  qed
qed


lemma refine_outer_ok:
  assumes "positive base"
  shows "\<exists>b r. refine_outer i base refined = Some (b, r) \<and> refines base refined b r
    \<and> (\<not> r \<longrightarrow> (\<forall>k l. i \<le> k \<longrightarrow> k < l \<longrightarrow> l < length base \<longrightarrow> coprime (base ! k) (base ! l)))"
  using assms
proof (induction "(base, i)" arbitrary: base i refined rule: wf_induct_rule [OF wf_measures [of "[prod_list \<circ> fst, \<lambda>(base, i). length base - i]"]])
  case (1 base i)
  show ?case
  proof (cases "i < length base")
    case False
    then show ?thesis using 1(2) by (simp add: refine_outer.simps [of i] refines_def)
  next
    case i: True
    obtain b r where r: "refine_inner i (Suc i) base refined = Some (b, r)" "refines base refined b r"
      "\<not> r \<longrightarrow> (\<forall>k. Suc i \<le> k \<longrightarrow> k < length base \<longrightarrow> coprime (base ! i) (base ! k))"
      using refine_inner_ok [OF 1(2), of i "Suc i" refined] i by auto
    have less: "((b, Suc i), (base, i)) \<in> measures [prod_list \<circ> fst, \<lambda>(base, i). length base - i]"
      using r(2) i by (auto simp: refines_def)
    obtain c r' where c: "refine_outer (Suc i) b r = Some (c, r')" "refines b r c r'"
      "\<not> r' \<longrightarrow> (\<forall>k l. Suc i \<le> k \<longrightarrow> k < l \<longrightarrow> l < length b \<longrightarrow> coprime (b ! k) (b ! l))"
      using 1(1) [OF less, of r] r(2) unfolding refines_def [of base] by blast
    have "refine_outer i base refined = Some (c, r')" using i r(1) c(1) by (simp add: refine_outer.simps [of i base])
    moreover have "refines base refined c r'" using r(2) c(2) by (rule refines_trans)
    moreover have "coprime (base ! k) (base ! l)" if "\<not> r'" "i \<le> k" "k < l" "l < length base" for k l
    proof -
      have "b = base" "\<not> r" using that(1) r(2) c(2) by (auto simp: refines_def)
      then show ?thesis using that r(3) c(3) by (cases "k = i") auto
    qed
    ultimately show ?thesis by blast
  qed
qed

lemma prod_list_drop_ones: "prod_list (filter (\<lambda>n. n \<noteq> 1) base) = prod_list (base :: nat list)"
  by (induction base) auto

lemma spans_drop_ones: "spans (filter (\<lambda>n. n \<noteq> 1) base) base"
  unfolding spans_def
proof
  fix n assume "n \<in> set base"
  then show "product_in (set (filter (\<lambda>n. n \<noteq> 1) base)) n"
    by (cases "n = 1") (auto intro: product_in_mem simp del: One_nat_def)
qed

definition pairwise_coprime :: "nat list \<Rightarrow> bool" where
  "pairwise_coprime base \<longleftrightarrow> (\<forall>k l. k < l \<longrightarrow> l < length base \<longrightarrow> coprime (base ! k) (base ! l))"

lemma coprime_loop_ok:
  assumes "\<forall>n\<in>set base. 1 < n"
  shows "\<exists>b. coprime_loop base = Some b \<and> spans b base \<and> pairwise_coprime b \<and> (\<forall>n\<in>set b. 1 < n)"
  using assms
proof (induction "prod_list base" arbitrary: base rule: less_induct)
  case less
  have pos: "positive base" using less(2) by (auto simp: positive_def)
  obtain b r where b: "refine_outer 0 base False = Some (b, r)" "refines base False b r"
    "\<not> r \<longrightarrow> (\<forall>k l. k < l \<longrightarrow> l < length base \<longrightarrow> coprime (base ! k) (base ! l))"
    using refine_outer_ok [OF pos, of 0 False] by auto
  define b' where "b' = filter (\<lambda>n. n \<noteq> 1) b"
  have step: "coprime_loop base = (if r then coprime_loop b' else Some b')"
    by (subst coprime_loop.simps) (simp add: b(1) b'_def Let_def)
  have big: "\<forall>n\<in>set b'. 1 < n" using b(2) by (auto simp: b'_def refines_def positive_def)
  have sp: "spans b' base" using b(2) spans_drop_ones [of b] by (auto simp: b'_def refines_def intro: spans_trans)
  show ?case
  proof (cases r)
    case True
    then have "prod_list b' < prod_list base" using b(2) prod_list_drop_ones [of b] by (auto simp: b'_def refines_def)
    then obtain c where "coprime_loop b' = Some c" "spans c b'" "pairwise_coprime c" "\<forall>n\<in>set c. 1 < n"
      using less(1) [OF _ big] by blast
    then show ?thesis using True step sp by (auto intro: spans_trans)
  next
    case False
    then have "b = base" using b(2) by (auto simp: refines_def)
    then have "b' = base" using less(2) by (auto simp: b'_def filter_id_conv)
    then show ?thesis using False step b(3) less(2) by (auto simp: pairwise_coprime_def)
  qed
qed

lemma coprime_base_ok:
  shows "\<exists>b. coprime_base numbers = Some b \<and> pairwise_coprime b \<and> (\<forall>n\<in>set b. 1 < n)
    \<and> (\<forall>n\<in>set numbers. 0 < n \<longrightarrow> product_in (set b) n)"
proof -
  obtain b where b: "coprime_base numbers = Some b" "spans b (filter (\<lambda>n. 1 < n) numbers)" "pairwise_coprime b" "\<forall>n\<in>set b. 1 < n"
    using coprime_loop_ok [of "filter (\<lambda>n. 1 < n) numbers"] by (auto simp: coprime_base_def)
  have "product_in (set b) n" if "n \<in> set numbers" "0 < n" for n
  proof (cases "n = 1")
    case False
    then have "n \<in> set (filter (\<lambda>n. 1 < n) numbers)" using that by simp
    then show ?thesis using b(2) unfolding spans_def by blast
  qed (simp only: product_in_1)
  then show ?thesis using b by blast
qed

text \<open>C38: \<open>coprime_base\<close> ends on all numbers; its result is pairwise coprime, has only numbers greater than one, and
  every positive number it was given is a product of its elements.\<close>
theorem coprime_base_correct:
  "\<exists>b. coprime_base numbers = Some b
     \<and> (\<forall>k l. k < l \<and> l < length b \<longrightarrow> coprime (b ! k) (b ! l)) \<and> (\<forall>n\<in>set b. 1 < n)
     \<and> (\<forall>n\<in>set numbers. 0 < n \<longrightarrow> (\<exists>ks. set ks \<subseteq> set b \<and> n = prod_list ks))"
  using coprime_base_ok [of numbers] by (simp only: pairwise_coprime_def product_in_def imp_conjL)

lemma coprime_base_correct_witness: "\<exists>b. coprime_base [12, 18] = Some b \<and> (\<exists>ks. set ks \<subseteq> set b \<and> 12 = prod_list ks)"
proof -
  obtain b where b: "coprime_base [12, 18] = Some b"
    and all: "\<forall>n\<in>set [12, 18]. 0 < n \<longrightarrow> (\<exists>ks. set ks \<subseteq> set b \<and> n = prod_list ks)"
    using coprime_base_correct [of "[12, 18]"] by blast
  from all have "\<exists>ks. set ks \<subseteq> set b \<and> 12 = prod_list ks" by simp
  with b show ?thesis by blast
qed

end
