(* ===== verification/Radicals.thy ===== *)
theory Radicals
  imports CoprimeBase
begin

text \<open>
  SeQuant/core/math.hpp: the simplest radical form \<open>q R^(1/D)\<close> of a product of rational powers of positive
  rationals.  The value is kept, in the reals.
\<close>

section \<open>Factoring\<close>

text \<open>How often \<open>d\<close> divides \<open>n\<close>, and what is left; \<open>d\<close> is at least two and \<open>n\<close> positive wherever it is called.\<close>

function strip :: "nat \<Rightarrow> nat \<Rightarrow> nat \<times> nat" where
  "strip d n = (if 1 < d \<and> 0 < n \<and> d dvd n then (case strip d (n div d) of (m, r) \<Rightarrow> (Suc m, r)) else (0, n))"
  by pat_completeness auto
termination by (relation "measure snd") auto

fun msb :: "nat \<Rightarrow> nat" where
  "msb n = (if n < 2 then 0 else Suc (msb (n div 2)))"

declare strip.simps [simp del] msb.simps [simp del]

type_synonym exponents = "(nat \<times> rat) list"

fun add_exponent :: "exponents \<Rightarrow> nat \<Rightarrow> rat \<Rightarrow> exponents" where
  "add_exponent [] b e = [(b, e)]"
| "add_exponent ((k, x) # m) b e =
     (if b = k then (k, x + e) # m else if b < k then (b, e) # (k, x) # m else (k, x) # add_exponent m b e)"

text \<open>Trial division of the cofactor \<open>c\<close> by 2 and the odd numbers up to \<open>mx\<close>.\<close>

function trial :: "nat \<Rightarrow> nat \<Rightarrow> nat \<Rightarrow> rat \<Rightarrow> exponents \<Rightarrow> nat \<times> nat \<times> exponents" where
  "trial mx d c e m =
     (if d \<le> mx \<and> d * d \<le> c
      then (case strip d c of (mul, c') \<Rightarrow>
              trial mx (d + (if d = 2 then 1 else 2)) c' e (if mul \<noteq> 0 then add_exponent m d (of_nat mul * e) else m))
      else (d, c, m))"
  by pat_completeness auto
termination by (relation "measure (\<lambda>(mx, d, c, e, m). Suc mx - d)") auto

declare trial.simps [simp del]

definition is_prime :: "nat \<Rightarrow> bool" where
  "is_prime k \<longleftrightarrow> list_all (\<lambda>f. k mod f \<noteq> 0) (takeWhile (\<lambda>f. f * f \<le> k) [2..<Suc k])"

text \<open>Exact \<open>k\<close>-th roots as long as there are any; the cofactor exceeds one and \<open>k\<close> is at least two.\<close>

function take_roots :: "(nat \<Rightarrow> nat \<Rightarrow> nat) \<Rightarrow> nat \<Rightarrow> nat \<Rightarrow> rat \<Rightarrow> nat \<times> rat" where
  "take_roots est k c e =
     (if 1 < c \<and> 2 \<le> k \<and> iroot est c k ^ k = c then take_roots est k (iroot est c k) (e * of_nat k) else (c, e))"
  by pat_completeness auto

lemma root_less:
  assumes "1 < c" "2 \<le> k" "r ^ k = (c :: nat)"
  shows "1 < r" "r < c"
proof -
  show r: "1 < r"
  proof (rule ccontr)
    assume "\<not> 1 < r"
    then have "r = 0 \<or> r = 1" by linarith
    then have "r ^ k \<le> 1" using assms(2) by (auto simp: power_0_left)
    then show False using assms(1,3) by simp
  qed
  have "r ^ 1 < r ^ k" using r assms(2) by (intro power_strict_increasing) auto
  then show "r < c" using assms(3) by simp
qed

termination take_roots
proof (relation "measure (\<lambda>(est, k, c, e). c)")
  fix est and k c :: nat and e :: rat
  assume "1 < c \<and> 2 \<le> k \<and> iroot est c k ^ k = c"
  then show "((est, k, iroot est c k, e * of_nat k), est, k, c, e) \<in> measure (\<lambda>(est, k, c, e). c)"
    using root_less(2) [of c k "iroot est c k"] by simp
qed simp

declare take_roots.simps [simp del]

lemma take_roots_le: "fst (take_roots est k c e) \<le> c"
proof (induction est k c e rule: take_roots.induct)
  case (1 est k c e)
  show ?case
  proof (cases "1 < c \<and> 2 \<le> k \<and> iroot est c k ^ k = c")
    case True
    then show ?thesis using 1 root_less(2) [of c k "iroot est c k"] by (simp add: take_roots.simps [of est k c])
  next
    case False
    then show ?thesis by (auto simp: take_roots.simps [of est k c])
  qed
qed

lemma msb_mono: "a \<le> b \<Longrightarrow> msb a \<le> msb b"
proof (induction b arbitrary: a rule: msb.induct)
  case (1 n)
  then show ?case using 1(1) [of "a div 2"] by (simp add: msb.simps [of a] msb.simps [of n] div_le_mono)
qed

lemma all_roots_less:
  assumes "k \<le> msb c div rb" "(c', e') = (if is_prime k then take_roots est k c e else (c, e))"
  shows "Suc (msb c' div rb) - Suc k < Suc (msb c div rb) - k"
proof -
  have "c' \<le> c" using assms(2) take_roots_le [of est k c e] by (simp split: if_splits prod.splits) (metis fst_conv)
  then have "msb c' div rb \<le> msb c div rb" by (intro div_le_mono msb_mono)
  then show ?thesis using assms(1) by simp
qed

function all_roots :: "(nat \<Rightarrow> nat \<Rightarrow> nat) \<Rightarrow> nat \<Rightarrow> nat \<Rightarrow> nat \<Rightarrow> rat \<Rightarrow> nat \<times> rat" where
  "all_roots est root_bits k c e =
     (if k \<le> msb c div root_bits
      then (case (if is_prime k then take_roots est k c e else (c, e)) of (c', e') \<Rightarrow> all_roots est root_bits (Suc k) c' e')
      else (c, e))"
  by pat_completeness auto
termination
proof (relation "measure (\<lambda>(est, rb, k, c, e). Suc (msb c div rb) - k)")
  fix est and rb k c c' :: nat and e e' :: rat
  assume "k \<le> msb c div rb" "(c', e') = (if is_prime k then take_roots est k c e else (c, e))"
  from all_roots_less [OF this]
  show "((est, rb, Suc k, c', e'), est, rb, k, c, e) \<in> measure (\<lambda>(est, rb, k, c, e). Suc (msb c div rb) - k)"
    by (simp only: in_measure prod.case)
qed simp

declare all_roots.simps [simp del]

section \<open>The form\<close>

record radical_form =
  rational_part :: rat
  radicand :: nat
  root_order :: nat

datatype radical_error = NonPositiveBase

definition numerator :: "rat \<Rightarrow> int" where
  "numerator q = fst (quotient_of q)"

definition denominator :: "rat \<Rightarrow> int" where
  "denominator q = snd (quotient_of q)"

text \<open>A numerator carries the exponent of its base, a denominator its negative.\<close>

fun radical_terms :: "(rat \<times> rat) list \<Rightarrow> (radical_error, exponents) result" where
  "radical_terms [] = Inr []"
| "radical_terms ((b, e) # ps) =
     (if b \<le> 0 then Inl NonPositiveBase
      else bind_res (radical_terms ps) (\<lambda>ts. Inr ((nat (numerator b), e) # (nat (denominator b), - e) # ts)))"

definition total_exponent :: "exponents \<Rightarrow> nat \<Rightarrow> rat" where
  "total_exponent ts c = sum_list (map (\<lambda>(n, e). of_nat (fst (strip c n)) * e) ts)"

definition radical_element ::
  "(nat \<Rightarrow> nat \<Rightarrow> nat) \<Rightarrow> nat \<Rightarrow> nat \<Rightarrow> exponents \<Rightarrow> nat \<Rightarrow> exponents \<Rightarrow> exponents option" where
  "radical_element est mx max_bits ts c m =
     (let e = total_exponent ts c; whole = nat \<bar>numerator e\<bar> div nat (denominator e)
      in if e = 0 then Some m
         else if max_bits < whole * (msb c + 1) then None
         else if denominator e = 1 then Some (add_exponent m c e)
         else (case trial mx 2 c e m of (d, c', m') \<Rightarrow>
                 if c' = 1 then Some m'
                 else case (if d * d \<le> c' then all_roots est (if mx < 2 then 1 else msb mx) 2 c' e else (c', e)) of
                        (c'', e') \<Rightarrow> Some (add_exponent m' c'' e')))"

fun radical_elements ::
  "(nat \<Rightarrow> nat \<Rightarrow> nat) \<Rightarrow> nat \<Rightarrow> nat \<Rightarrow> exponents \<Rightarrow> nat list \<Rightarrow> exponents \<Rightarrow> exponents option" where
  "radical_elements est mx max_bits ts [] m = Some m"
| "radical_elements est mx max_bits ts (c # cs) m =
     Option.bind (radical_element est mx max_bits ts c m) (radical_elements est mx max_bits ts cs)"

definition integer_part :: "rat \<Rightarrow> int" where
  "integer_part e =
     (let t = sgn (numerator e) * (\<bar>numerator e\<bar> div denominator e) in if e < of_int t then t - 1 else t)"

definition bits_of :: "nat \<Rightarrow> nat \<Rightarrow> nat" where
  "bits_of b n = n * (msb b + 1)"

text \<open>The integer parts: the bits of the numerator and of the denominator, the form so far, the terms of the radicand.\<close>

fun integer_parts :: "nat \<Rightarrow> exponents \<Rightarrow> nat \<times> nat \<times> rat \<times> nat \<times> exponents \<Rightarrow> (rat \<times> nat \<times> exponents) option" where
  "integer_parts max_bits [] (nb, db, q, D, rs) = Some (q, D, rs)"
| "integer_parts max_bits ((b, e) # m) (nb, db, q, D, rs) =
     (let i = integer_part e; f = e - of_int i;
          nb' = (if 0 < i then nb + bits_of b (nat i) else nb);
          db' = (if i < 0 then db + bits_of b (nat (- i)) else db)
      in if 0 < i \<and> max_bits < nb' \<or> i < 0 \<and> max_bits < db' then None
         else integer_parts max_bits m
                (nb', db', (if 0 < i then q * of_nat (b ^ nat i) else if i < 0 then q / of_nat (b ^ nat (- i)) else q),
                 (if f \<noteq> 0 then lcm D (nat (denominator f)) else D), (if f \<noteq> 0 then rs @ [(b, f)] else rs)))"

fun radicand_of :: "nat \<Rightarrow> nat \<Rightarrow> exponents \<Rightarrow> nat \<times> nat \<Rightarrow> nat option" where
  "radicand_of max_bits D [] (rb, R) = Some R"
| "radicand_of max_bits D ((b, f) # rs) (rb, R) =
     (let m = nat (numerator f) * (D div nat (denominator f)); rb' = rb + bits_of b m
      in if max_bits < rb' then None else radicand_of max_bits D rs (rb', R * b ^ m))"

text \<open>The outer option is the termination of \<open>coprime_base\<close>, the inner one the refusal of a form that is too large.\<close>

definition simplest_radical_form ::
  "(nat \<Rightarrow> nat \<Rightarrow> nat) \<Rightarrow> nat \<Rightarrow> nat \<Rightarrow> (rat \<times> rat) list \<Rightarrow> (radical_error, radical_form option) result option" where
  "simplest_radical_form est mx max_bits powers =
     (case radical_terms powers of
        Inl err \<Rightarrow> Some (Inl err)
      | Inr ts \<Rightarrow>
          map_option (\<lambda>cs. Inr
            (Option.bind (radical_elements est mx max_bits ts cs []) (\<lambda>m.
             Option.bind (integer_parts max_bits m (0, 0, 1, 1, [])) (\<lambda>(q, D, rs).
               map_option (\<lambda>R. \<lparr>rational_part = q, radicand = R, root_order = D\<rparr>) (radicand_of max_bits D rs (0, 1))))))
            (coprime_base (map fst ts)))"


section \<open>Values\<close>

abbreviation rpow :: "nat \<Rightarrow> rat \<Rightarrow> real" where
  "rpow b e \<equiv> real b powr of_rat e"

definition exponents_value :: "exponents \<Rightarrow> real" where
  "exponents_value m = prod_list (map (\<lambda>(b, e). rpow b e) m)"

definition keys_ok :: "exponents \<Rightarrow> bool" where
  "keys_ok m \<longleftrightarrow> (\<forall>(b, e) \<in> set m. 1 < b)"

lemma value_add_exponent: "exponents_value (add_exponent m b e) = exponents_value m * rpow b e"
  by (induction m b e rule: add_exponent.induct) (simp_all add: exponents_value_def of_rat_add powr_add)

lemma keys_add_exponent: "keys_ok m \<Longrightarrow> 1 < b \<Longrightarrow> keys_ok (add_exponent m b e)"
  by (induction m b e rule: add_exponent.induct) (auto simp: keys_ok_def)

lemma strip_power: "1 < d \<Longrightarrow> 0 < n \<Longrightarrow> strip d n = (m, r) \<Longrightarrow> n = d ^ m * r \<and> \<not> d dvd r \<and> 0 < r"
proof (induction d n arbitrary: m r rule: strip.induct)
  case (1 d n)
  show ?case
  proof (cases "d dvd n")
    case True
    obtain m' r' where s: "strip d (n div d) = (m', r')" by fastforce
    have "0 < n div d" using True 1(2,3) by (auto elim: dvdE)
    then have "n div d = d ^ m' * r' \<and> \<not> d dvd r' \<and> 0 < r'" using 1(1) 1(2,3) True s by blast
    moreover have "n = d * (n div d)" using True by simp
    moreover have "m = Suc m'" "r = r'" using 1(2-4) True s by (simp_all add: strip.simps [of d n])
    ultimately show ?thesis by (metis mult.assoc power_Suc)
  next
    case False
    then show ?thesis using 1(2-4) by (simp add: strip.simps [of d n])
  qed
qed

lemma strip_unique: "1 < d \<Longrightarrow> 0 < r \<Longrightarrow> \<not> d dvd r \<Longrightarrow> strip d (d ^ m * r) = (m, r)"
proof (induction m)
  case (Suc m)
  have "d ^ Suc m * r div d = d ^ m * r" using Suc(2) by simp
  then show ?case using Suc by (subst strip.simps) simp
qed (simp add: strip.simps)

lemma rpow_strip:
  assumes "1 < d" "0 < n" "strip d n = (m, r)"
  shows "rpow n e = rpow d (of_nat m * e) * rpow r e"
proof -
  have n: "n = d ^ m * r" using strip_power [OF assms] by simp
  have "rpow n e = (real d ^ m) powr of_rat e * rpow r e" unfolding n by (simp add: powr_mult)
  also have "(real d ^ m) powr of_rat e = rpow d (of_nat m * e)"
    using assms(1) by (simp add: powr_realpow [symmetric] powr_powr of_rat_mult)
  finally show ?thesis .
qed

lemma trial_value:
  assumes "2 \<le> d" "0 < c" "keys_ok m" "trial mx d c e m = (d', c', m')"
  shows "0 < c' \<and> keys_ok m' \<and> exponents_value m' * rpow c' e = exponents_value m * rpow c e"
  using assms
proof (induction mx d c e m rule: trial.induct)
  case (1 mx d c e m)
  show ?case
  proof (cases "d \<le> mx \<and> d * d \<le> c")
    case True
    obtain mul r where s: "strip d c = (mul, r)" by fastforce
    define m2 where "m2 = (if mul \<noteq> 0 then add_exponent m d (of_nat mul * e) else m)"
    have t: "trial mx (d + (if d = 2 then 1 else 2)) r e m2 = (d', c', m')"
      using 1(5) True s by (simp add: trial.simps [of mx d c] m2_def)
    have r: "0 < r" using strip_power [of d c] 1(2,3) s by auto
    have k: "keys_ok m2" using 1(2,4) by (auto simp: m2_def intro: keys_add_exponent)
    have "exponents_value m2 * rpow r e = exponents_value m * rpow c e"
      using rpow_strip [of d c mul r e] 1(2,3) s by (auto simp: m2_def value_add_exponent)
    moreover have "2 \<le> d + (if d = 2 then 1 else 2)" using 1(2) by simp
    ultimately show ?thesis using 1(1) [OF True s [symmetric], folded m2_def, OF _ r k t] by simp
  next
    case False
    then have "trial mx d c e m = (d, c, m)" by (subst trial.simps) (simp only: if_False)
    then show ?thesis using 1(3-5) by simp
  qed
qed

lemma take_roots_value:
  assumes "1 < c" "take_roots est k c e = (c', e')"
  shows "1 < c' \<and> rpow c' e' = rpow c e"
  using assms
proof (induction est k c e rule: take_roots.induct)
  case (1 est k c e)
  show ?case
  proof (cases "1 < c \<and> 2 \<le> k \<and> iroot est c k ^ k = c")
    case True
    define r where "r = iroot est c k"
    have r: "1 < r" "c = r ^ k" using True root_less(1) [of c k r] by (auto simp: r_def)
    have "rpow (r ^ k) e = rpow r (e * of_nat k)"
      using r(1) by (simp add: powr_realpow [symmetric] powr_powr of_rat_mult mult.commute)
    then have "rpow c e = rpow r (e * of_nat k)" by (simp only: r(2) [symmetric])
    moreover have "take_roots est k r (e * of_nat k) = (c', e')"
      using 1(3) unfolding take_roots.simps [of est k c e] if_P [OF True] r_def .
    ultimately show ?thesis using 1(1) [OF True, folded r_def, OF r(1)] by simp
  next
    case False
    then show ?thesis using 1(2,3) by (auto simp: take_roots.simps [of est k c])
  qed
qed

lemma all_roots_value:
  assumes "1 < c" "all_roots est rb k c e = (c', e')"
  shows "1 < c' \<and> rpow c' e' = rpow c e"
  using assms
proof (induction est rb k c e rule: all_roots.induct)
  case (1 est rb k c e)
  show ?case
  proof (cases "k \<le> msb c div rb")
    case True
    obtain c2 e2 where s: "(if is_prime k then take_roots est k c e else (c, e)) = (c2, e2)" by fastforce
    have v: "1 < c2 \<and> rpow c2 e2 = rpow c e"
      using s 1(2) take_roots_value [of c est k e c2 e2] by (auto split: if_splits)
    moreover have "all_roots est rb (Suc k) c2 e2 = (c', e')" using 1(3) True s by (simp add: all_roots.simps [of est rb k c])
    ultimately show ?thesis using 1(1) [OF True s [symmetric]] by simp
  next
    case False
    then show ?thesis using 1(2,3) by (simp add: all_roots.simps [of est rb k c])
  qed
qed

lemma radical_element_value:
  assumes "1 < c" "keys_ok m" "radical_element est mx max_bits ts c m = Some m'"
  shows "keys_ok m' \<and> exponents_value m' = exponents_value m * rpow c (total_exponent ts c)"
proof -
  define e where "e = total_exponent ts c"
  obtain d c1 m1 where t: "trial mx 2 c e m = (d, c1, m1)" by (cases "trial mx 2 c e m") auto
  have tv: "0 < c1 \<and> keys_ok m1 \<and> exponents_value m1 * rpow c1 e = exponents_value m * rpow c e"
    using trial_value [of 2 c m mx e d c1 m1] assms(1,2) t by simp
  obtain c2 e2 where s: "(if d * d \<le> c1 then all_roots est (if mx < 2 then 1 else msb mx) 2 c1 e else (c1, e)) = (c2, e2)" by fastforce
  have sv: "1 < c2 \<and> rpow c2 e2 = rpow c1 e" if "c1 \<noteq> 1"
    using that tv s all_roots_value [of c1 est _ 2 e c2 e2] by (auto split: if_splits)
  have r: "radical_element est mx max_bits ts c m =
      (if e = 0 then Some m
       else if max_bits < nat \<bar>numerator e\<bar> div nat (denominator e) * (msb c + 1) then None
       else if denominator e = 1 then Some (add_exponent m c e)
       else if c1 = 1 then Some m1 else Some (add_exponent m1 c2 e2))"
    unfolding radical_element_def e_def [symmetric] Let_def t prod.case s ..
  consider "e = 0" "m' = m" | "m' = add_exponent m c e" | "c1 = 1" "m' = m1" | "c1 \<noteq> 1" "m' = add_exponent m1 c2 e2"
    using assms(3) r by (auto split: if_splits)
  then have "keys_ok m' \<and> exponents_value m' = exponents_value m * rpow c e"
  proof cases
    case 3
    then show ?thesis using tv by simp
  next
    case 4
    then show ?thesis using tv sv by (simp add: keys_add_exponent value_add_exponent)
  qed (use assms(1,2) in \<open>simp_all add: keys_add_exponent value_add_exponent\<close>)
  then show ?thesis by (simp only: e_def)
qed

lemma radical_elements_value:
  assumes "\<forall>c\<in>set cs. 1 < c" "keys_ok m" "radical_elements est mx max_bits ts cs m = Some m'"
  shows "keys_ok m' \<and> exponents_value m' = exponents_value m * prod_list (map (\<lambda>c. rpow c (total_exponent ts c)) cs)"
  using assms
proof (induction cs arbitrary: m)
  case (Cons c cs)
  obtain m2 where m2: "radical_element est mx max_bits ts c m = Some m2" "radical_elements est mx max_bits ts cs m2 = Some m'"
    using Cons.prems(3) by (auto simp: bind_eq_Some_conv)
  have "keys_ok m2 \<and> exponents_value m2 = exponents_value m * rpow c (total_exponent ts c)"
    using radical_element_value [of c m est mx max_bits ts m2] Cons.prems m2(1) by simp
  then show ?case using Cons.IH [of m2] Cons.prems(1) m2(2) by simp
qed simp

section \<open>The coprime base carries the value\<close>

lemma coprime_elements:
  assumes "pairwise_coprime b" "\<forall>n\<in>set b. 1 < n"
  shows "distinct b" "c \<in> set b \<Longrightarrow> c' \<in> set b \<Longrightarrow> c \<noteq> c' \<Longrightarrow> coprime c c'"
proof -
  have cop: "coprime (b ! k) (b ! l)" if "k \<noteq> l" "k < length b" "l < length b" for k l
    using assms(1) that coprime_commute [of "b ! k"] by (cases k l rule: linorder_cases) (auto simp: pairwise_coprime_def)
  show "distinct b"
    unfolding distinct_conv_nth
  proof (intro allI impI)
    fix k l assume kl: "k < length b" "l < length b" "k \<noteq> l"
    show "b ! k \<noteq> b ! l"
    proof
      assume "b ! k = b ! l"
      then have "b ! k = 1" using cop [OF kl(3,1,2)] by simp
      then show False using assms(2) nth_mem [OF kl(1)] by force
    qed
  qed
  assume "c \<in> set b" "c' \<in> set b" "c \<noteq> c'"
  then obtain k l where "k < length b" "b ! k = c" "l < length b" "b ! l = c'" by (auto simp: in_set_conv_nth)
  then show "coprime c c'" using cop [of k l] \<open>c \<noteq> c'\<close> by fastforce
qed

lemma prod_list_count: "prod_list ks = c ^ count_list ks c * prod_list (filter (\<lambda>x. x \<noteq> c) ks)" for c :: nat
  by (induction ks) (simp_all add: ac_simps)

lemma strip_product:
  assumes b: "pairwise_coprime b" "\<forall>n\<in>set b. 1 < n" and c: "c \<in> set b" and ks: "set ks \<subseteq> set b"
  shows "strip c (prod_list ks) = (count_list ks c, prod_list (filter (\<lambda>x. x \<noteq> c) ks))"
proof -
  have "coprime c (prod_list (filter (\<lambda>x. x \<noteq> c) ls)) \<and> 0 < prod_list (filter (\<lambda>x. x \<noteq> c) ls)" if "set ls \<subseteq> set b" for ls
    using that
  proof (induction ls)
    case (Cons l ls)
    moreover have "0 < l" using b(2) Cons.prems by auto
    ultimately show ?case using coprime_elements(2) [OF b c, of l] by auto
  qed simp
  note r = this [OF ks]
  moreover have "1 < c" using b(2) c by blast
  ultimately have "\<not> c dvd prod_list (filter (\<lambda>x. x \<noteq> c) ks)" by (metis coprime_absorb_left less_irrefl nat_dvd_1_iff_1)
  then have "strip c (c ^ count_list ks c * prod_list (filter (\<lambda>x. x \<noteq> c) ks)) = (count_list ks c, prod_list (filter (\<lambda>x. x \<noteq> c) ks))"
    using strip_unique [OF \<open>1 < c\<close>] r by blast
  then show ?thesis by (simp only: prod_list_count [symmetric])
qed

lemma rpow_at:
  assumes "distinct b" "k \<in> set b"
  shows "prod_list (map (\<lambda>c. rpow c (of_nat (if c = k then Suc (f c) else f c) * e)) b)
    = rpow k e * prod_list (map (\<lambda>c. rpow c (of_nat (f c) * e)) b)"
  using assms
proof (induction b)
  case (Cons c b)
  show ?case
  proof (cases "c = k")
    case True
    then have "map (\<lambda>c. rpow c (of_nat (if c = k then Suc (f c) else f c) * e)) b = map (\<lambda>c. rpow c (of_nat (f c) * e)) b"
      using Cons.prems by (intro map_cong) auto
    moreover have "rpow k (of_nat (Suc (f k)) * e) = rpow k e * rpow k (of_nat (f k) * e)"
      by (simp add: powr_add of_rat_add of_rat_mult distrib_right)
    ultimately show ?thesis using True by (simp only: list.map prod_list.Cons refl if_True mult.assoc)
  next
    case False
    then show ?thesis using Cons by simp
  qed
qed simp

lemma rpow_product:
  assumes "distinct b" "set ks \<subseteq> set b" "\<forall>n\<in>set b. 1 < n"
  shows "rpow (prod_list ks) e = prod_list (map (\<lambda>c. rpow c (of_nat (count_list ks c) * e)) b)"
  using assms(2)
proof (induction ks)
  case Nil
  have "map (\<lambda>c. rpow c (of_nat (count_list [] c) * e)) b = map (\<lambda>c. 1) b"
    using assms(3) by (intro map_cong) auto
  then show ?case by (simp add: map_replicate_const)
next
  case (Cons k ks)
  have "rpow (prod_list (k # ks)) e = rpow k e * rpow (prod_list ks) e" by (simp add: powr_mult)
  also have "\<dots> = prod_list (map (\<lambda>c. rpow c (of_nat (if c = k then Suc (count_list ks c) else count_list ks c) * e)) b)"
    using Cons rpow_at [OF assms(1), of k "count_list ks" e] by simp
  also have "map (\<lambda>c. rpow c (of_nat (if c = k then Suc (count_list ks c) else count_list ks c) * e)) b
      = map (\<lambda>c. rpow c (of_nat (count_list (k # ks) c) * e)) b"
    by (intro map_cong) auto
  finally show ?case .
qed

lemma prod_list_mult_map: "prod_list (map (\<lambda>c. f c * g c) b) = prod_list (map f b) * (prod_list (map g b) :: 'a::comm_monoid_mult)"
  by (induction b) (simp_all add: ac_simps)

lemma terms_value:
  assumes b: "pairwise_coprime b" "\<forall>n\<in>set b. 1 < n" and ts: "\<forall>(n, e)\<in>set ts. product_in (set b) n"
  shows "exponents_value ts = prod_list (map (\<lambda>c. rpow c (total_exponent ts c)) b)"
  using ts
proof (induction ts)
  case Nil
  have "map (\<lambda>c. rpow c (total_exponent [] c)) b = map (\<lambda>c. 1) b"
    using b(2) by (intro map_cong) (auto simp: total_exponent_def)
  then show ?case by (simp add: exponents_value_def map_replicate_const)
next
  case (Cons t ts)
  obtain n e where t: "t = (n, e)" by (cases t)
  obtain ks where ks: "set ks \<subseteq> set b" "n = prod_list ks" using Cons.prems t by (auto simp: product_in_def)
  have "rpow n e = prod_list (map (\<lambda>c. rpow c (of_nat (fst (strip c n)) * e)) b)"
    unfolding rpow_product [OF coprime_elements(1) [OF b] ks(1) b(2), of e, folded ks(2)]
    using strip_product [OF b _ ks(1)] ks(2) by (intro arg_cong [where f = prod_list] map_cong) simp_all
  then have "exponents_value (t # ts) = prod_list (map (\<lambda>c. rpow c (of_nat (fst (strip c n)) * e)) b) * prod_list (map (\<lambda>c. rpow c (total_exponent ts c)) b)"
    using Cons t by (simp add: exponents_value_def)
  also have "\<dots> = prod_list (map (\<lambda>c. rpow c (total_exponent (t # ts) c)) b)"
    by (simp add: prod_list_mult_map [symmetric] total_exponent_def t of_rat_add powr_add)
  finally show ?case .
qed

lemma quotient_parts:
  shows "0 < denominator q" "q = of_int (numerator q) / of_int (denominator q)" "0 < q \<longleftrightarrow> 0 < numerator q"
proof -
  obtain p d where pd: "quotient_of q = (p, d)" by fastforce
  note d = quotient_of_denom_pos [OF pd] quotient_of_div [OF pd]
  show "0 < denominator q" "q = of_int (numerator q) / of_int (denominator q)" using pd d by (simp_all add: numerator_def denominator_def)
  then show "0 < q \<longleftrightarrow> 0 < numerator q" by (metis of_int_0_less_iff zero_less_divide_iff not_less_iff_gr_or_eq)
qed

definition powers_value :: "(rat \<times> rat) list \<Rightarrow> real" where
  "powers_value ps = prod_list (map (\<lambda>(b, e). of_rat b powr of_rat e) ps)"

lemma radical_terms_ok:
  shows "(\<exists>(b, e)\<in>set ps. b \<le> 0) \<Longrightarrow> radical_terms ps = Inl NonPositiveBase"
    and "\<forall>(b, e)\<in>set ps. 0 < b \<Longrightarrow> \<exists>ts. radical_terms ps = Inr ts \<and> (\<forall>(n, e)\<in>set ts. 0 < n) \<and> exponents_value ts = powers_value ps"
proof (induction ps)
  case (Cons p ps)
  case 1
  then show ?case using Cons by (cases p) (cases "radical_terms ps"; auto)
next
  case (Cons p ps)
  case 2
  obtain b e where p: "p = (b, e)" by (cases p)
  then have b: "0 < b" using 2 by simp
  obtain ts where ts: "radical_terms ps = Inr ts" "\<forall>(n, e)\<in>set ts. 0 < n" "exponents_value ts = powers_value ps"
    using Cons(2) 2 by auto
  have n: "0 < nat (numerator b)" "0 < nat (denominator b)" using quotient_parts [of b] b by simp_all
  have "of_rat b = real (nat (numerator b)) / real (nat (denominator b))"
  proof -
    have "(of_rat b :: real) = of_rat (of_int (numerator b) / of_int (denominator b))"
      by (subst quotient_parts(2) [of b]) (rule refl)
    also have "\<dots> = real_of_int (numerator b) / real_of_int (denominator b)" by (simp add: of_rat_divide)
    finally show ?thesis using quotient_parts(1,3) [of b] b by simp
  qed
  then have "of_rat b powr of_rat e = rpow (nat (numerator b)) e * rpow (nat (denominator b)) (- e)"
    by (simp add: powr_divide powr_minus of_rat_minus field_simps)
  then show ?case using ts n b p by (simp add: exponents_value_def powers_value_def)
qed (simp_all add: exponents_value_def powers_value_def)


section \<open>Assembling the form\<close>

lemma integer_part_floor: "integer_part e = \<lfloor>e\<rfloor>"
proof -
  define n where "n = numerator e"
  define d where "d = denominator e"
  have d: "0 < d" and e: "e = of_int n / of_int d" using quotient_parts [of e] by (simp_all add: n_def d_def)
  show ?thesis
  proof (cases "0 \<le> n")
    case True
    then have "sgn n * (\<bar>n\<bar> div d) = n div d" by (cases "n = 0") simp_all
    moreover have "\<lfloor>e\<rfloor> = n div d" using e by (simp add: floor_divide_of_int_eq)
    moreover have "\<not> e < of_int \<lfloor>e\<rfloor>" by (simp add: not_less)
    ultimately show ?thesis unfolding integer_part_def n_def [symmetric] d_def [symmetric] Let_def by simp
  next
    case False
    define q where "q = - n div d"
    define r where "r = - n mod d"
    have t: "sgn n * (\<bar>n\<bar> div d) = - q" using False by (simp add: q_def)
    have "- n = q * d + r" by (simp add: q_def r_def)
    then have n: "n = - (q * d) - r" by simp
    have r: "0 \<le> r" "r < d" using d by (simp_all add: r_def)
    have ev: "e = - of_int q - of_int r / of_int d"
      using d unfolding e n by (simp add: diff_divide_distrib)
    have "\<lfloor>e\<rfloor> = (if e < of_int (- q) then - q - 1 else - q)"
    proof (rule floor_unique)
      have "of_int r / (of_int d :: rat) < 1" "0 \<le> of_int r / (of_int d :: rat)" using r d by simp_all
      then show "of_int (if e < of_int (- q) then - q - 1 else - q) \<le> e" "e < of_int (if e < of_int (- q) then - q - 1 else - q) + 1"
        unfolding ev by auto
    qed
    then show ?thesis unfolding integer_part_def n_def [symmetric] d_def [symmetric] t Let_def by simp
  qed
qed

definition fractions_ok :: "nat \<Rightarrow> exponents \<Rightarrow> bool" where
  "fractions_ok D rs \<longleftrightarrow> (\<forall>(b, f)\<in>set rs. 1 < b \<and> 0 < f \<and> f < 1 \<and> nat (denominator f) dvd D)"

lemma rpow_integer:
  assumes "1 < b"
  shows "0 < i \<Longrightarrow> rpow b (of_int i) = of_rat (of_nat (b ^ nat i))"
    and "i < 0 \<Longrightarrow> rpow b (of_int i) = 1 / of_rat (of_nat (b ^ nat (- i)))"
proof -
  have p: "rpow b (of_int (int n)) = real b ^ n" for n using assms by (simp add: powr_realpow)
  show "0 < i \<Longrightarrow> rpow b (of_int i) = of_rat (of_nat (b ^ nat i))" using p [of "nat i"] by (simp add: of_rat_power)
  assume "i < 0"
  then have "rpow b (of_int i) = 1 / rpow b (of_int (int (nat (- i))))" by (simp add: of_rat_minus powr_minus_divide)
  then show "rpow b (of_int i) = 1 / of_rat (of_nat (b ^ nat (- i)))" unfolding p by (simp add: of_rat_power)
qed

lemma denominator_fraction: "0 < f \<Longrightarrow> f < 1 \<Longrightarrow> 1 < denominator f"
  by (metis quotient_parts int_one_le_iff_zero_less order_le_less div_by_1 of_int_1 of_int_0_less_iff of_int_less_1_iff zero_less_one not_less)

lemma integer_parts_value:
  assumes "integer_parts max_bits m (nb, db, q, D, rs) = Some (q', D', rs')"
    "keys_ok m" "0 < q" "0 < D" "fractions_ok D rs" "D = 1 \<longleftrightarrow> rs = []"
  shows "0 < q' \<and> 0 < D' \<and> fractions_ok D' rs' \<and> (D' = 1 \<longleftrightarrow> rs' = [])
    \<and> of_rat q' * exponents_value rs' = of_rat q * exponents_value rs * exponents_value m"
  using assms
proof (induction m arbitrary: nb db q D rs)
  case Nil
  then show ?case by (simp add: exponents_value_def)
next
  case (Cons be m)
  obtain b e where be: "be = (b, e)" by (cases be)
  define i where "i = integer_part e"
  define f where "f = e - of_int i"
  define q2 where "q2 = (if 0 < i then q * of_nat (b ^ nat i) else if i < 0 then q / of_nat (b ^ nat (- i)) else q)"
  define D2 where "D2 = (if f \<noteq> 0 then lcm D (nat (denominator f)) else D)"
  define rs2 where "rs2 = (if f \<noteq> 0 then rs @ [(b, f)] else rs)"
  obtain nb' db' where step: "integer_parts max_bits m (nb', db', q2, D2, rs2) = Some (q', D', rs')"
    using Cons.prems(1) unfolding be integer_parts.simps Let_def i_def [symmetric] f_def [symmetric] q2_def [symmetric] D2_def [symmetric] rs2_def [symmetric]
    by (auto split: if_splits)
  have b: "1 < b" "keys_ok m" using Cons.prems(2) be by (simp_all add: keys_ok_def)
  have f: "0 \<le> f" "f < 1" by (simp_all add: f_def i_def integer_part_floor) linarith
  have q2: "0 < q2" using Cons.prems(3) b by (simp add: q2_def)
  have den: "f \<noteq> 0 \<Longrightarrow> 1 < nat (denominator f)" using f denominator_fraction [of f] by simp
  have D2: "0 < D2" using Cons.prems(4) den by (auto simp: D2_def intro!: lcm_pos_nat)
  have fr: "fractions_ok D2 rs2"
    using Cons.prems(5) b f den by (auto simp: fractions_ok_def D2_def rs2_def intro: dvd_trans)
  have one: "D2 = 1 \<longleftrightarrow> rs2 = []"
  proof (cases "f = 0")
    case False
    then have "nat (denominator f) dvd D2" by (simp add: D2_def)
    then have "D2 \<noteq> 1" using den [OF False] by auto
    then show ?thesis using False by (simp add: rs2_def)
  qed (use Cons.prems(6) in \<open>simp add: D2_def rs2_def\<close>)
  have "rpow b e = rpow b (of_int i) * rpow b f" by (simp add: f_def of_rat_diff powr_diff b)
  moreover have "of_rat q2 = (of_rat q :: real) * rpow b (of_int i)"
    using rpow_integer [OF b(1), of i] b by (auto simp: q2_def of_rat_mult of_rat_divide)
  moreover have "exponents_value rs2 = exponents_value rs * rpow b f" using b by (simp add: rs2_def exponents_value_def)
  ultimately have "of_rat q2 * exponents_value rs2 = of_rat q * exponents_value rs * rpow b e" by (simp add: ac_simps)
  then show ?case using Cons.IH [OF step b(2) q2 D2 fr one] by (simp add: be exponents_value_def [of "_ # _"]) (simp add: exponents_value_def ac_simps)
qed

lemma bits_of_bound: "b ^ n \<le> 2 ^ bits_of b n"
proof -
  have "b < 2 ^ (msb b + 1)"
  proof (induction b rule: msb.induct)
    case (1 b)
    then show ?case by (subst msb.simps) auto
  qed
  then have "b ^ n \<le> (2 ^ (msb b + 1)) ^ n" by (intro power_mono) auto
  then show ?thesis by (simp only: bits_of_def power_mult [symmetric] mult.commute)
qed

lemma radicand_of_value:
  assumes "radicand_of max_bits D rs (rb, R) = Some R'" "fractions_ok D rs" "0 < D" "0 < R" "R \<le> 2 ^ rb" "rb \<le> max_bits"
  shows "0 < R' \<and> R' \<le> 2 ^ max_bits \<and> (R' = 1 \<longleftrightarrow> R = 1 \<and> rs = [])
    \<and> real R' powr (1 / real D) = real R powr (1 / real D) * exponents_value rs"
  using assms
proof (induction rs arbitrary: rb R)
  case Nil
  have "(2 :: nat) ^ rb \<le> 2 ^ max_bits" using Nil by (intro power_increasing) auto
  then have "R \<le> 2 ^ max_bits" using Nil(5) by (rule le_trans [rotated])
  then show ?case using Nil by (simp add: exponents_value_def)
next
  case (Cons bf rs)
  obtain b f where bf: "bf = (b, f)" by (cases bf)
  define m where "m = nat (numerator f) * (D div nat (denominator f))"
  have f: "1 < b" "0 < f" "nat (denominator f) dvd D" "fractions_ok D rs"
    using Cons.prems(2) bf by (auto simp: fractions_ok_def)
  note qf = quotient_parts [of f]
  obtain k where k: "D = nat (denominator f) * k" using f(3) by (auto elim: dvdE)
  have k0: "0 < k" using Cons.prems(3) k by (cases k) simp_all
  have m: "m = nat (numerator f) * k" "0 < m" using k k0 qf f(2) by (simp_all add: m_def)
  have step: "radicand_of max_bits D rs (rb + bits_of b m, R * b ^ m) = Some R'" and le: "rb + bits_of b m \<le> max_bits"
    using Cons.prems(1) by (simp_all add: bf Let_def m_def [symmetric] not_less split: if_splits)
  have "R * b ^ m \<le> 2 ^ (rb + bits_of b m)" using Cons.prems(5) bits_of_bound [of b m] by (simp add: power_add mult_le_mono)
  note ih = Cons.IH [OF step f(4) Cons.prems(3) _ this le]
  have bm: "1 < b ^ m" using f(1) m(2) by (rule one_less_power)
  have "R * b ^ m \<noteq> 1" using bm Cons.prems(4) by (metis less_irrefl mult_eq_1_iff nat_mult_eq_1_iff)
  moreover have "real m / real D = of_rat f"
  proof -
    have "(of_rat f :: real) = real_of_int (numerator f) / real_of_int (denominator f)"
      by (subst qf(2)) (simp add: of_rat_divide)
    then show ?thesis using qf f(2) k0 by (simp add: m k)
  qed
  then have "real (b ^ m) powr (1 / real D) = rpow b f" using f(1) by (simp add: powr_realpow [symmetric] powr_powr)
  moreover have "real (R * b ^ m) powr (1 / real D) = real R powr (1 / real D) * real (b ^ m) powr (1 / real D)"
    by (simp add: powr_mult)
  ultimately have "real (R * b ^ m) powr (1 / real D) * exponents_value rs = real R powr (1 / real D) * exponents_value (bf # rs)"
    by (simp only: bf exponents_value_def list.map prod_list.Cons prod.case mult.assoc)
  moreover have "R * b ^ m \<noteq> 1" by fact
  moreover have "0 < R * b ^ m" using f(1) Cons.prems(4) by simp
  ultimately show ?case using ih by (simp only: list.simps simp_thms)
qed

lemma simplest_radical_form_ok:
  assumes pos: "\<forall>(b, e)\<in>set powers. 0 < b"
  shows "\<exists>form. simplest_radical_form est mx max_bits powers = Some (Inr form)
        \<and> (\<forall>F. form = Some F \<longrightarrow>
              of_rat (rational_part F) * real (radicand F) powr (1 / real (root_order F)) = powers_value powers
            \<and> 0 < rational_part F \<and> 0 < root_order F \<and> 0 < radicand F \<and> radicand F \<le> 2 ^ max_bits
            \<and> (radicand F = 1 \<longleftrightarrow> root_order F = 1))"
proof -
  obtain ts where ts: "radical_terms powers = Inr ts" "\<forall>(n, e)\<in>set ts. 0 < n" "exponents_value ts = powers_value powers"
    using radical_terms_ok(2) [OF pos] by blast
  obtain cs where cs: "coprime_base (map fst ts) = Some cs" "pairwise_coprime cs" "\<forall>n\<in>set cs. 1 < n"
    "\<forall>n\<in>set (map fst ts). 0 < n \<longrightarrow> product_in (set cs) n" using coprime_base_ok by blast
  have tv: "exponents_value ts = prod_list (map (\<lambda>c. rpow c (total_exponent ts c)) cs)"
    using cs ts(2) by (intro terms_value) force+
  define form where "form = Option.bind (radical_elements est mx max_bits ts cs []) (\<lambda>m.
     Option.bind (integer_parts max_bits m (0, 0, 1, 1, [])) (\<lambda>(q, D, rs).
       map_option (\<lambda>R. \<lparr>rational_part = q, radicand = R, root_order = D\<rparr>) (radicand_of max_bits D rs (0, 1))))"
  have "of_rat (rational_part F) * real (radicand F) powr (1 / real (root_order F)) = powers_value powers
      \<and> 0 < rational_part F \<and> 0 < root_order F \<and> 0 < radicand F \<and> radicand F \<le> 2 ^ max_bits
      \<and> (radicand F = 1 \<longleftrightarrow> root_order F = 1)" if F: "form = Some F" for F
  proof -
    obtain m q D rs R where m: "radical_elements est mx max_bits ts cs [] = Some m"
      and i: "integer_parts max_bits m (0, 0, 1, 1, []) = Some (q, D, rs)" and R: "radicand_of max_bits D rs (0, 1) = Some R"
      and F': "F = \<lparr>rational_part = q, radicand = R, root_order = D\<rparr>"
      using F by (auto simp: form_def bind_eq_Some_conv)
    have mv: "keys_ok m \<and> exponents_value m = powers_value powers"
      using radical_elements_value [OF cs(3) _ m] tv ts(3) by (simp add: keys_ok_def exponents_value_def [of "[]"])
    have iv: "0 < q \<and> 0 < D \<and> fractions_ok D rs \<and> (D = 1 \<longleftrightarrow> rs = []) \<and> of_rat q * exponents_value rs = exponents_value m"
      using integer_parts_value [OF i] mv by (simp add: fractions_ok_def exponents_value_def [of "[]"])
    show ?thesis using radicand_of_value [OF R] iv mv F' by auto
  qed
  moreover have "simplest_radical_form est mx max_bits powers = Some (Inr form)"
    unfolding simplest_radical_form_def form_def by (simp add: ts(1) cs(1))
  ultimately show ?thesis by blast
qed


text \<open>C37: \<open>simplest_radical_form\<close> always ends, whatever the floating-point estimates of the roots: it throws exactly when a
  base is not positive, and a form it returns has the value of the product of powers; its radicand is positive, one
  exactly when the root order is one, and has no more than the allowed number of bits.\<close>
theorem simplest_radical_form_correct:
  "(\<exists>(b, e)\<in>set powers. b \<le> 0) \<and> simplest_radical_form est mx max_bits powers = Some (Inl NonPositiveBase)
   \<or> (\<forall>(b, e)\<in>set powers. 0 < b) \<and> (\<exists>form. simplest_radical_form est mx max_bits powers = Some (Inr form)
        \<and> (\<forall>F. form = Some F \<longrightarrow>
              of_rat (rational_part F) * real (radicand F) powr (1 / real (root_order F)) = powers_value powers
            \<and> 0 < rational_part F \<and> 0 < root_order F \<and> 0 < radicand F \<and> radicand F \<le> 2 ^ max_bits
            \<and> (radicand F = 1 \<longleftrightarrow> root_order F = 1)))"
proof (cases "\<exists>(b, e)\<in>set powers. b \<le> 0")
  case True
  then show ?thesis using radical_terms_ok(1) [OF True] by (simp add: simplest_radical_form_def)
next
  case False
  then have "\<forall>(b, e)\<in>set powers. 0 < b" by (auto simp: not_le)
  then show ?thesis using simplest_radical_form_ok [of powers est mx max_bits] by blast
qed

lemma simplest_radical_form_correct_witness:
  "simplest_radical_form (\<lambda>_ _. 0) 1000 65536 [(- 4, 3)] = Some (Inl NonPositiveBase)
   \<and> (\<exists>form. simplest_radical_form (\<lambda>_ _. 0) 1000 65536 [(8 / 9, 3 / 2)] = Some (Inr form))"
proof
  have "\<not> (\<forall>(b, e)\<in>set [(- 4 :: rat, 3 :: rat)]. 0 < b)" by simp
  then show "simplest_radical_form (\<lambda>_ _. 0) 1000 65536 [(- 4, 3)] = Some (Inl NonPositiveBase)"
    using simplest_radical_form_correct [of "[(- 4, 3)]" "\<lambda>_ _. 0" 1000 65536] by blast
  have "\<not> (\<exists>(b, e)\<in>set [(8 / 9 :: rat, 3 / 2 :: rat)]. b \<le> 0)" by simp
  then show "\<exists>form. simplest_radical_form (\<lambda>_ _. 0) 1000 65536 [(8 / 9, 3 / 2)] = Some (Inr form)"
    using simplest_radical_form_correct [of "[(8 / 9, 3 / 2)]" "\<lambda>_ _. 0" 1000 65536] by blast
qed

end
