(* ===== verification/RapidSimplify.thy ===== *)
theory RapidSimplify
  imports Flatten Radicals
begin

text \<open>
  SeQuant/core/expressions/power.cpp and expr_algorithms.cpp: powers and the rounds of \<open>rapid_simplify\<close>.
\<close>

section \<open>Powers\<close>

datatype power_error = UndefinedPower | NotCombinable

text \<open>The constructor; a base that is not a constant or a variable cannot be written down here.\<close>

definition mk_power :: "power_base \<Rightarrow> rat \<Rightarrow> (power_error, 'a expr) result" where
  "mk_power b e = (if b = BConstant 0 \<and> e < 0 then Inl UndefinedPower else Inr (Power b e False))"

text \<open>\<open>operator*=\<close> of a power with the base, exponent and flag given.\<close>

definition power_times :: "power_base \<Rightarrow> rat \<Rightarrow> bool \<Rightarrow> 'a expr \<Rightarrow> (power_error, 'a expr) result" where
  "power_times b e j that =
     (case that of
        Power b' e' j' \<Rightarrow> if j = j' \<and> b = b' then Inr (Power b (e + e') j) else Inl NotCombinable
      | Variable m k \<Rightarrow>
          (case b of
             BVariable l i \<Rightarrow> if l = m \<and> (i \<noteq> j) = k then Inr (Power b (e + 1) j) else Inl NotCombinable
           | BConstant c \<Rightarrow> if \<not> j \<and> expr_eq (base_expr b) that then Inr (Power b (e + 1) j) else Inl NotCombinable)
      | _ \<Rightarrow> if \<not> j \<and> expr_eq (base_expr b) that then Inr (Power b (e + 1) j) else Inl NotCombinable)"

text \<open>Exponentiation by squaring.\<close>

function raise :: "nat \<Rightarrow> scalar \<Rightarrow> scalar \<Rightarrow> scalar" where
  "raise n b v =
     (if 0 < n
      then let v' = (if n mod 2 \<noteq> 0 then v * b else v); n' = n div 2 in raise n' (if 0 < n' then b * b else b) v'
      else v)"
  by pat_completeness auto
termination by (relation "measure fst") auto

declare raise.simps [simp del]

definition base_bits :: "scalar \<Rightarrow> nat" where
  "base_bits c =
     (let d_re = nat (denominator (re c)); d_im = nat (denominator (im c));
          bound = nat \<bar>numerator (re c)\<bar> * d_im + nat \<bar>numerator (im c)\<bar> * d_re
      in if bound \<noteq> 0 then max (msb (d_re * d_im) + 1) (msb bound + 1) else msb (d_re * d_im) + 1)"

definition default_max_folded_bits :: nat where
  "default_max_folded_bits = 65536"

definition radical :: "(nat \<Rightarrow> nat \<Rightarrow> nat) \<Rightarrow> (rat \<times> rat) list \<Rightarrow> radical_form option" where
  "radical est ps = (case simplest_radical_form est 1000 default_max_folded_bits ps of Some (Inr f) \<Rightarrow> f | _ \<Rightarrow> None)"

text \<open>\<open>Power::flatten\<close>: the folded expression, if there is one.\<close>

definition fold_power :: "(nat \<Rightarrow> nat \<Rightarrow> nat) \<Rightarrow> power_base \<Rightarrow> rat \<Rightarrow> bool \<Rightarrow> 'a expr option" where
  "fold_power est b e j =
     (let cj = (\<lambda>v. if j then conj_scalar v else v)
      in if e = 1 then Some (case b of BConstant c \<Rightarrow> Constant (cj c) | BVariable l k \<Rightarrow> Variable l (k \<noteq> j))
         else if e = 0 then Some (Constant 1)
         else case b of
           BVariable l k \<Rightarrow> None
         | BConstant c \<Rightarrow>
             if c = 1 then Some (Constant 1)
             else if c = 0 \<and> e < 0 then None
             else if denominator e = 1
             then (let k = nat \<bar>numerator e\<bar>; v = raise k c 1
                   in if default_max_folded_bits < k * base_bits c then None
                      else Some (Constant (cj (if numerator e < 0 then 1 / v else v))))
             else if c = 0 then Some (Constant (cj 0))
             else if im c = 0 \<and> 0 < re c
             then (case radical est [(re c, e)] of
                     Some f \<Rightarrow> if root_order f = 1 then Some (Constant (cj (Scalar (rational_part f) 0))) else None
                   | None \<Rightarrow> None)
             else None)"

definition flatten_power :: "(nat \<Rightarrow> nat \<Rightarrow> nat) \<Rightarrow> 'a expr \<Rightarrow> 'a expr" where
  "flatten_power est f =
     (case f of Power b e j \<Rightarrow> (case fold_power est b e j of Some f' \<Rightarrow> f' | None \<Rightarrow> f) | _ \<Rightarrow> f)"

section \<open>Fusing\<close>

text \<open>The powers of positive rationals.\<close>

fun is_fusible :: "'a expr \<Rightarrow> bool" where
  "is_fusible (Power (BConstant v) e j) \<longleftrightarrow> im v = 0 \<and> 0 < re v"
| "is_fusible f \<longleftrightarrow> False"

fun power_of :: "'a expr \<Rightarrow> rat \<times> rat" where
  "power_of (Power (BConstant v) e j) = (re v, e)"
| "power_of f = (1, 0)"

text \<open>Of the factors selected by \<open>P\<close> the first is replaced by new ones, the others are dropped.\<close>

fun replace_first :: "('a \<Rightarrow> bool) \<Rightarrow> 'a list \<Rightarrow> 'a list \<Rightarrow> 'a list" where
  "replace_first P new [] = []"
| "replace_first P new (f # fs) = (if P f then new @ filter (Not \<circ> P) fs else f # replace_first P new fs)"

definition fuse_rational_powers :: "(nat \<Rightarrow> nat \<Rightarrow> nat) \<Rightarrow> scalar \<Rightarrow> 'a expr list \<Rightarrow> 'a factors option" where
  "fuse_rational_powers est c fs =
     (let fus = filter is_fusible fs
      in if fus = [] then None
         else case radical est (map power_of fus) of
           None \<Rightarrow> None
         | Some F \<Rightarrow>
             (let new = (if root_order F \<noteq> 1 then [Power (BConstant (Scalar (of_nat (radicand F)) 0)) (1 / of_nat (root_order F)) False] else [])
              in if rational_part F = 1 \<and> length fus = length new \<and> (new = [] \<or> expr_eq (hd fus) (hd new)) then None
                 else Some (mk_product Recursively (c * Scalar (rational_part F) 0) (replace_first is_fusible new fs))))"

text \<open>The label and the conjugation of a variable or a power of one, and its exponent.\<close>

fun key_of :: "'a expr \<Rightarrow> (string \<times> bool) option" where
  "key_of (Variable l k) = Some (l, k)"
| "key_of (Power (BVariable l k) e j) = Some (l, k \<noteq> j)"
| "key_of f = None"

fun exponent_of :: "'a expr \<Rightarrow> rat" where
  "exponent_of (Power b e j) = e"
| "exponent_of f = 1"

fun add_key :: "((string \<times> bool) \<times> rat) list \<Rightarrow> string \<times> bool \<Rightarrow> rat \<Rightarrow> ((string \<times> bool) \<times> rat) list" where
  "add_key [] k e = [(k, e)]"
| "add_key ((k', x) # m) k e = (if k' = k then (k', x + e) # m else (k', x) # add_key m k e)"

definition sum_exponents :: "'a expr list \<Rightarrow> ((string \<times> bool) \<times> rat) list" where
  "sum_exponents fs = foldl (\<lambda>m f. case key_of f of Some k \<Rightarrow> add_key m k (exponent_of f) | None \<Rightarrow> m) [] fs"

definition variable_power :: "(string \<times> bool) \<times> rat \<Rightarrow> 'a expr list" where
  "variable_power ke =
     (case ke of ((l, k), e) \<Rightarrow> if e = 0 then [] else if e = 1 then [Variable l k] else [Power (BVariable l k) e False])"

definition has_key :: "'a expr \<Rightarrow> bool" where
  "has_key f \<longleftrightarrow> key_of f \<noteq> None"

definition fuse_variable_powers :: "scalar \<Rightarrow> 'a expr list \<Rightarrow> 'a factors option" where
  "fuse_variable_powers c fs =
     (let old = filter has_key fs; new = concat (map variable_power (sum_exponents fs))
      in if old = [] then None
         else if list_all2 expr_eq old new then None
         else Some (mk_product Recursively c (replace_first has_key new fs)))"

section \<open>Rounds\<close>

text \<open>Powers are folded in place up to the first factor that is a product or a constant.\<close>

fun flatten_factors :: "(nat \<Rightarrow> nat \<Rightarrow> nat) \<Rightarrow> 'a expr list \<Rightarrow> 'a expr list \<times> bool" where
  "flatten_factors est [] = ([], False)"
| "flatten_factors est (f # fs) =
     (let f' = flatten_power est f
      in if is_Product f' \<or> is_Constant f' then (f' # fs, True)
         else case flatten_factors est fs of (fs', r) \<Rightarrow> (f' # fs', r))"

text \<open>A round on a product of some kind: whether it changed, and the result.\<close>

definition simplify_product :: "(nat \<Rightarrow> nat \<Rightarrow> nat) \<Rightarrow> prod_kind \<Rightarrow> 'a factors \<Rightarrow> bool \<times> 'a expr" where
  "simplify_product est k st =
     (let (ch1, k1, st1) = (case fuse_rational_powers est (fst st) (snd st) of Some s \<Rightarrow> (True, Plain, s) | None \<Rightarrow> (False, k, st));
          (ch2, k2, st2) = (case fuse_variable_powers (fst st1) (snd st1) of Some s \<Rightarrow> (True, Plain, s) | None \<Rightarrow> (ch1, k1, st1));
          (fs, rebuild) = flatten_factors est (snd st2);
          (ch3, k3, st3) = (if rebuild then (True, Plain, mk_product Recursively (fst st2) fs) else (ch2, k2, (fst st2, fs)))
      in if fst st3 = 0 then (True, Constant 0)
         else if snd st3 = [] then (True, Constant (fst st3))
         else if length (snd st3) = 1 \<and> fst st3 = 1 then (True, hd (snd st3))
         else (ch3, product_of k3 st3))"

text \<open>The summands are looked at up to the first reason to rebuild the sum.\<close>

fun must_rebuild :: "nat \<Rightarrow> 'a expr list \<Rightarrow> bool" where
  "must_rebuild n [] \<longleftrightarrow> False"
| "must_rebuild n (s # ss) \<longleftrightarrow>
     (if is_SumOf s then True
      else if is_Constant s then (if is_zero s then True else if Suc n = 2 then True else must_rebuild (Suc n) ss)
      else must_rebuild n ss)"

definition simplify_sum :: "'a expr list \<Rightarrow> bool \<times> 'a expr" where
  "simplify_sum ss =
     (if ss = [] then (True, Constant 0)
      else if length ss = 1 then (True, hd ss)
      else if must_rebuild 0 ss then (True, mk_sum ss)
      else (False, SumOf ss))"

definition simplify_power :: "(nat \<Rightarrow> nat \<Rightarrow> nat) \<Rightarrow> 'a expr \<Rightarrow> bool \<times> 'a expr" where
  "simplify_power est e =
     (let e' = flatten_power est e; one = mk_product Recursively 1 [e']
      in if \<not> is_Power e' then (True, e')
         else case fuse_rational_powers est (fst one) (snd one) of
           Some st \<Rightarrow> (True, product_of Plain st)
         | None \<Rightarrow> (case fuse_variable_powers (fst one) (snd one) of
                     Some st \<Rightarrow> (True, product_of Plain st)
                   | None \<Rightarrow> (False, e')))"

definition simplify_round :: "(nat \<Rightarrow> nat \<Rightarrow> nat) \<Rightarrow> 'a expr \<Rightarrow> bool \<times> 'a expr" where
  "simplify_round est e =
     (case e of
        Product k c fs \<Rightarrow> simplify_product est k (c, fs)
      | SumOf ss \<Rightarrow> simplify_sum ss
      | Power b x j \<Rightarrow> simplify_power est e
      | _ \<Rightarrow> (False, e))"

text \<open>The visitor runs rounds until nothing changes; whether that happens is the option.\<close>

partial_function (option) simplifier :: "(nat \<Rightarrow> nat \<Rightarrow> nat) \<Rightarrow> 'a expr \<Rightarrow> 'a expr option" where
  "simplifier est e = (if fst (simplify_round est e) then simplifier est (snd (simplify_round est e)) else Some (snd (simplify_round est e)))"

declare simplifier.simps [code]

fun all_some :: "'a option list \<Rightarrow> 'a list option" where
  "all_some [] = Some []"
| "all_some (x # xs) = (case x of None \<Rightarrow> None | Some y \<Rightarrow> map_option ((#) y) (all_some xs))"

fun visit_some :: "('a expr \<Rightarrow> 'a expr option) \<Rightarrow> 'a expr \<Rightarrow> 'a expr option" where
  "visit_some v (Product k c fs) = map_option (Product k c) (all_some (map (\<lambda>f. Option.bind (visit_some v f) v) fs))"
| "visit_some v (SumOf ss) = map_option SumOf (all_some (map (\<lambda>s. Option.bind (visit_some v s) v) ss))"
| "visit_some v e = Some e"

definition rapid_simplify :: "(nat \<Rightarrow> nat \<Rightarrow> nat) \<Rightarrow> 'a expr \<Rightarrow> 'a expr option" where
  "rapid_simplify est e = Option.bind (visit_some (simplifier est) e) (simplifier est)"

end
