(* ===== verification/PowerValues.thy ===== *)
theory PowerValues
  imports RapidSimplify
begin

text \<open>
  The values of powers in a ring with the real numbers in its centre, and that folding, fusing and the rounds of
  \<open>rapid_simplify\<close> (SeQuant/core/expressions/expr_algorithms.cpp) keep the value of an expression.
\<close>

section \<open>Values of powers\<close>

definition conj_if :: "bool \<Rightarrow> scalar \<Rightarrow> scalar" where
  "conj_if j v = (if j then conj_scalar v else v)"

definition int_power :: "scalar \<Rightarrow> int \<Rightarrow> scalar" where
  "int_power c n = (if 0 \<le> n then c ^ nat n else 1 / c ^ nat (- n))"

lemma raise_power: "raise n b v = v * b ^ n"
proof (induction n b v rule: raise.induct)
  case (1 n b v)
  show ?case
  proof (cases "0 < n")
    case True
    have n: "n = n mod 2 + 2 * (n div 2)" by simp
    have "b ^ n = b ^ (n mod 2) * (b * b) ^ (n div 2)"
      by (subst n, subst power_add) (simp add: power_mult power2_eq_square)
    moreover have "raise n b v = (if n mod 2 \<noteq> 0 then v * b else v) * (if 0 < n div 2 then b * b else b) ^ (n div 2)"
      using 1 [OF True refl refl] True by (simp add: raise.simps [of n b v] Let_def)
    moreover have "(if 0 < n div 2 then b * b else b) ^ (n div 2) = (b * b) ^ (n div 2)" by simp
    moreover have "v * b ^ (n mod 2) = (if n mod 2 \<noteq> 0 then v * b else v)" 
    proof (cases "n mod 2 = 0")
      case False
      then have "n mod 2 = 1" by simp
      then show ?thesis by (simp only: power_one_right one_neq_zero not_False_eq_True if_True)
    qed (simp only: power_0 mult_1_right simp_thms if_False)
    ultimately show ?thesis by (simp only: mult.assoc [symmetric])
  next
    case False
    then show ?thesis by (subst raise.simps) simp
  qed
qed

text \<open>
  What the code assumes of powers: the positive rational powers of positive rationals are the real ones (\<open>emb\<close>),
  integer powers of constants are products, the powers of a variable (\<open>vp\<close>) add up, and all of them are central.
\<close>

locale power_semantics =
  fixes I :: "('a, 'r::ring_1) interp" and emb :: "real \<Rightarrow> 'r" and vp :: "string \<Rightarrow> bool \<Rightarrow> rat \<Rightarrow> 'r"
  assumes I: "sound I"
    and emb_mult: "emb (x * y) = emb x * emb y" and emb_rat: "emb (of_rat q) = scal I (Scalar q 0)" and emb_central: "emb x * r = r * emb x"
    and pwr_positive: "0 < q \<Longrightarrow> pwr I (BConstant (Scalar q 0)) e j = emb (of_rat q powr of_rat e)"
    and pwr_integer: "c \<noteq> 0 \<or> 0 \<le> n \<Longrightarrow> pwr I (BConstant c) (of_int n) j = scal I (conj_if j (int_power c n))"
    and pwr_variable: "pwr I (BVariable l k) e j = vp l (k \<noteq> j) e"
    and vp_simps: "vp l k 0 = 1" "vp l k 1 = vari I l k" "vp l k (e + e2) = vp l k e * vp l k e2"
    and vp_central: "vp l k e * r = r * vp l k e"
begin

lemma emb_1: "emb 1 = 1"
  using emb_rat [of 1] sound_simps(2) [OF I] by (simp add: one_scalar_def)

lemmas emb_simps = emb_mult emb_rat emb_central emb_1
lemmas pwr_simps = pwr_positive pwr_integer pwr_variable

lemma radical_Some:
  assumes "radical est ps = Some F" "\<forall>(b, e)\<in>set ps. 0 < b"
  shows "emb (powers_value ps) = scal I (Scalar (rational_part F) 0) * emb (real (radicand F) powr (1 / real (root_order F)))"
    "0 < radicand F" "0 < root_order F" "radicand F = 1 \<longleftrightarrow> root_order F = 1" "0 < rational_part F"
proof -
  have "simplest_radical_form est 1000 default_max_folded_bits ps = Some (Inr (Some F))"
    using assms(1) by (auto simp: radical_def split: option.splits sum.splits)
  then have v: "of_rat (rational_part F) * real (radicand F) powr (1 / real (root_order F)) = powers_value ps"
    and *: "0 < radicand F" "0 < root_order F" "radicand F = 1 \<longleftrightarrow> root_order F = 1" "0 < rational_part F"
    using simplest_radical_form_ok [OF assms(2), of est 1000 default_max_folded_bits] by auto
  show "emb (powers_value ps) = scal I (Scalar (rational_part F) 0) * emb (real (radicand F) powr (1 / real (root_order F)))"
    unfolding v [symmetric] by (simp only: emb_simps)
  show "0 < radicand F" "0 < root_order F" "radicand F = 1 \<longleftrightarrow> root_order F = 1" "0 < rational_part F" by fact+
qed

lemma val_fold_power:
  assumes "fold_power est b e j = Some f"
  shows "val I f = pwr I b e j"
proof -
  note s = sound_simps [OF I]
  have cj: "(if j then conj_scalar v else v) = conj_if j v" for v by (simp add: conj_if_def)
  have cj1: "conj_if j 1 = 1" "conj_if j 0 = 0" "conj_if j (Scalar q 0) = Scalar q 0" for q
    by (simp_all add: conj_if_def conj_scalar_def scalar_defs)
  consider "e = 1" | "e = 0" "e \<noteq> 1" | "e \<noteq> 1" "e \<noteq> 0" by blast
  then show ?thesis
  proof cases
    case 1
    have c: "pwr I (BConstant c) 1 j = scal I (conj_if j c)" for c using pwr_simps(2) [of c 1 j] by (simp add: int_power_def)
    show ?thesis using assms 1 c pwr_simps(3) vp_simps(2)
      by (auto simp: fold_power_def Let_def cj split: power_base.splits)
  next
    case 2
    have c: "pwr I (BConstant c) 0 j = 1" for c using pwr_simps(2) [of c 0 j] s(2) by (simp add: int_power_def cj1)
    show ?thesis using assms 2 c s(2) pwr_simps(3) vp_simps(1) by (cases b) (auto simp: fold_power_def Let_def)
  next
    case 3
    then obtain c where b: "b = BConstant c" using assms by (cases b) (auto simp: fold_power_def Let_def)
    note fp = assms [unfolded fold_power_def b Let_def cj, simplified 3 if_False power_base.case]
    consider "c = 1" | "c \<noteq> 1" "c \<noteq> 0 \<or> 0 \<le> e" "denominator e = 1" | "c = 0" "0 < e" "denominator e \<noteq> 1"
      | "c \<noteq> 1" "c \<noteq> 0" "denominator e \<noteq> 1" "im c = 0" "0 < re c"
      using fp 3 by (auto split: if_splits)
    then show ?thesis
    proof cases
      case 1
      have "pwr I (BConstant (Scalar 1 0)) e j = 1" using pwr_simps(1) [of 1 e j] emb_simps(4) by simp
      then show ?thesis using 1 fp b s(2) by (auto simp: one_scalar_def)
    next
      case a: 2
      have e: "e = of_int (numerator e)" using quotient_parts(2) [of e] a(3) by simp
      have nn: "c \<noteq> 0 \<or> 0 \<le> numerator e" using a(2) e by (metis of_int_0_le_iff)
      have "val I f = scal I (conj_if j (int_power c (numerator e)))"
        using fp a by (auto simp: raise_power int_power_def Let_def split: if_splits)
      also have "\<dots> = pwr I b (of_int (numerator e)) j" using pwr_simps(2) [OF nn] b by simp
      finally show ?thesis using e by simp
    next
      case a: 3
      then have "f = Constant 0" using fp cj1 by (auto split: if_splits)
      moreover have "pwr I (BConstant 0) e j = 0" using I a(2) by (simp add: sound_def)
      ultimately show ?thesis using a(1) b s(1) by simp
    next
      case a: 4
      obtain F where F: "radical est [(re c, e)] = Some F" "root_order F = 1" "f = Constant (conj_if j (Scalar (rational_part F) 0))"
        using fp a by (auto split: if_splits option.splits)
      have "emb (powers_value [(re c, e)]) = scal I (Scalar (rational_part F) 0)"
        using radical_Some [OF F(1)] a(5) F(2) emb_simps(4) by simp
      moreover have "c = Scalar (re c) 0" using a(4) by (cases c) simp
      ultimately show ?thesis using F(3) cj1(3) b pwr_simps(1) [OF a(5), of e j] by (simp add: powers_value_def)
    qed
  qed
qed

lemma val_flatten_power: "val I (flatten_power est f) = val I f"
  by (cases f) (auto simp: flatten_power_def val_fold_power split: option.splits)

section \<open>Values of fused products\<close>

definition central_value :: "'a expr \<Rightarrow> bool" where
  "central_value f \<longleftrightarrow> (\<forall>r. val I f * r = r * val I f)"

lemma central_prod: "(\<And>f. f \<in> set fs \<Longrightarrow> central_value f) \<Longrightarrow> prod_list (map (val I) fs) * r = r * prod_list (map (val I) fs)"
proof (induction fs)
  case (Cons f fs)
  have "val I f * (prod_list (map (val I) fs) * r) = (r * val I f) * prod_list (map (val I) fs)"
    using Cons by (simp add: central_value_def mult.assoc [symmetric])
  then show ?case by (simp add: mult.assoc)
qed simp

lemma central_filter:
  assumes "\<And>f. P f \<Longrightarrow> central_value f"
  shows "prod_list (map (val I) fs) = prod_list (map (val I) (filter P fs)) * prod_list (map (val I) (filter (Not \<circ> P) fs))"
proof (induction fs)
  case (Cons f fs)
  show ?case
  proof (cases "P f")
    case False
    have "val I f * (prod_list (map (val I) (filter P fs)) * z) = prod_list (map (val I) (filter P fs)) * (val I f * z)" for z
      using central_prod [of "filter P fs" "val I f"] assms by (simp add: mult.assoc [symmetric])
    then show ?thesis using Cons False by simp
  qed (use Cons in \<open>simp add: mult.assoc\<close>)
qed simp

lemma val_replace_first:
  assumes "\<And>f. P f \<Longrightarrow> central_value f" "\<And>f. f \<in> set new \<Longrightarrow> central_value f" "list_ex P fs"
  shows "prod_list (map (val I) (replace_first P new fs)) = prod_list (map (val I) new) * prod_list (map (val I) (filter (Not \<circ> P) fs))"
  using assms(3)
proof (induction fs)
  case (Cons f fs)
  have "val I f * (prod_list (map (val I) new) * z) = prod_list (map (val I) new) * (val I f * z)" for z
    using central_prod [of new "val I f"] assms(2) by (simp add: mult.assoc [symmetric])
  then show ?case using Cons by (auto simp: mult.assoc comp_def)
qed simp

lemma val_fused:
  assumes "\<And>f. P f \<Longrightarrow> central_value f" "\<And>f. f \<in> set new \<Longrightarrow> central_value f" "list_ex P fs"
    "prod_list (map (val I) (filter P fs)) = scal I q * prod_list (map (val I) new)"
  shows "val_factors I (mk_product Recursively (c * q) (replace_first P new fs)) = val_factors I (c, fs)"
proof -
  have "val_factors I (c, fs) = scal I c * (scal I q * prod_list (map (val I) new) * prod_list (map (val I) (filter (Not \<circ> P) fs)))"
    using central_filter [OF assms(1), where fs = fs] assms(4) by (simp add: val_factors_def)
  then show ?thesis
    using val_replace_first [OF assms(1-3)] by (simp add: val_mk_product [OF I] sound_simps(4) [OF I] mult.assoc)
qed

lemma pwr_real_central: "0 < q \<Longrightarrow> pwr I (BConstant (Scalar q 0)) e j * r = r * pwr I (BConstant (Scalar q 0)) e j"
  unfolding pwr_positive by (rule emb_central)

lemma fusible_power: "is_fusible f \<Longrightarrow> \<exists>q e j. 0 < q \<and> f = Power (BConstant (Scalar q 0)) e j \<and> power_of f = (q, e)"
proof (induction f rule: is_fusible.induct)
  case (1 v e j)
  then show ?case by (cases v) simp
qed simp_all

lemma emb_powers: "(\<And>f. f \<in> set fs \<Longrightarrow> is_fusible f) \<Longrightarrow> prod_list (map (val I) fs) = emb (powers_value (map power_of fs))"
proof (induction fs)
  case Nil
  then show ?case by (simp add: powers_value_def emb_1)
next
  case (Cons f fs)
  obtain q e j where f: "0 < q" "f = Power (BConstant (Scalar q 0)) e j" "power_of f = (q, e)"
    using fusible_power [of f] Cons.prems by auto
  have "powers_value (map power_of (f # fs)) = of_rat q powr of_rat e * powers_value (map power_of fs)"
    by (simp add: powers_value_def f(3))
  moreover have "val I f = emb (of_rat q powr of_rat e)" using f pwr_positive by simp
  ultimately show ?case using Cons by (simp add: emb_mult)
qed

lemma val_fuse_rational:
  assumes "fuse_rational_powers est c fs = Some st"
  shows "val_factors I st = val_factors I (c, fs)"
proof -
  define fus where "fus = filter is_fusible fs"
  obtain F where F: "radical est (map power_of fus) = Some F" and ne: "fus \<noteq> []"
    using assms by (auto simp: fuse_rational_powers_def Let_def fus_def split: option.splits if_splits)
  define new :: "'a expr list" where
    "new = (if root_order F \<noteq> 1 then [Power (BConstant (Scalar (of_nat (radicand F)) 0)) (1 / of_nat (root_order F)) False] else [])"
  have st: "st = mk_product Recursively (c * Scalar (rational_part F) 0) (replace_first is_fusible new fs)"
    using assms F ne by (auto simp: fuse_rational_powers_def Let_def fus_def new_def split: if_splits)
  have pos: "\<forall>(b, e)\<in>set (map power_of fus). 0 < b"
  proof -
    have "0 < fst (power_of f)" if "is_fusible f" for f :: "'a expr"
      using fusible_power [OF that] by auto
    then show ?thesis by (simp add: fus_def case_prod_beta)
  qed
  note R = radical_Some [OF F pos]
  have newval: "prod_list (map (val I) new) = emb (real (radicand F) powr (1 / real (root_order F)))"
  proof (cases "root_order F = 1")
    case True
    then show ?thesis using R(4) emb_1 by (simp add: new_def)
  next
    case False
    have "(0 :: rat) < of_nat (radicand F)" using R(2) by simp
    from pwr_positive [OF this] False show ?thesis by (simp add: new_def of_rat_divide)
  qed
  show ?thesis unfolding st
  proof (rule val_fused)
    show "central_value f" if h: "is_fusible f" for f
    proof -
      obtain q e j where "0 < q" "f = Power (BConstant (Scalar q 0)) e j" using fusible_power [OF h] by blast
      then show ?thesis using pwr_real_central by (simp add: central_value_def)
    qed
    have "(0 :: rat) < of_nat (radicand F)" using R(2) by simp
    then show "central_value f" if "f \<in> set new" for f
      using that pwr_real_central by (auto simp: new_def central_value_def split: if_splits)
    show "list_ex is_fusible fs" using ne by (auto simp: fus_def list_ex_iff filter_empty_conv)
    have "prod_list (map (val I) fus) = emb (powers_value (map power_of fus))" by (rule emb_powers) (simp add: fus_def)
    then show "prod_list (map (val I) (filter is_fusible fs)) = scal I (Scalar (rational_part F) 0) * prod_list (map (val I) new)"
      using R(1) newval by (simp add: fus_def)
  qed
qed

definition keys_value :: "((string \<times> bool) \<times> rat) list \<Rightarrow> 'r" where
  "keys_value m = prod_list (map (\<lambda>((l, k), e). vp l k e) m)"

lemma keys_value_add: "keys_value (add_key m (l, k) e) = keys_value m * vp l k e"
proof (induction m "(l, k)" e rule: add_key.induct)
  case (1 e)
  then show ?case by (simp add: keys_value_def)
next
  case (2 k' x m e)
  obtain l1 k1 where k': "k' = (l1, k1)" by (cases k')
  have "vp l k e * keys_value m = keys_value m * vp l k e" by (rule vp_central)
  then show ?case using 2 k' by (auto simp: keys_value_def vp_simps(3) mult.assoc)
qed

lemma val_keyed:
  assumes "key_of f = Some (l, k)"
  shows "val I f = vp l k (exponent_of f)"
  using assms by (induction f rule: key_of.induct) (auto simp: vp_simps pwr_variable)

lemma keys_value_sum:
  "keys_value (foldl (\<lambda>m f. case key_of f of Some k \<Rightarrow> add_key m k (exponent_of f) | None \<Rightarrow> m) m fs)
     = keys_value m * prod_list (map (val I) (filter has_key fs))"
proof (induction fs arbitrary: m)
  case (Cons f fs)
  show ?case
  proof (cases "key_of f")
    case (Some lk)
    obtain l k where lk: "lk = (l, k)" by (cases lk)
    then show ?thesis using Cons [of "add_key m lk (exponent_of f)"] Some val_keyed [of f l k]
      by (simp add: has_key_def keys_value_add mult.assoc)
  qed (use Cons in \<open>simp add: has_key_def\<close>)
qed simp

lemma val_variable_power: "prod_list (map (val I) (concat (map variable_power m))) = keys_value m"
proof (induction m)
  case (Cons ke m)
  obtain l k e where ke: "ke = ((l, k), e)" by (cases ke) auto
  have "prod_list (map (val I) (variable_power ke)) = vp l k e"
    by (simp add: ke variable_power_def vp_simps pwr_variable)
  then show ?case using Cons ke by (simp add: keys_value_def)
qed (simp add: keys_value_def)

lemma val_fuse_variable:
  assumes "fuse_variable_powers c fs = Some st"
  shows "val_factors I st = val_factors I (c, fs)"
proof -
  define new :: "'a expr list" where "new = concat (map variable_power (sum_exponents fs))"
  have ne: "filter has_key fs \<noteq> []" and st: "st = mk_product Recursively (c * 1) (replace_first has_key new fs)"
    using assms by (auto simp: fuse_variable_powers_def Let_def new_def split: if_splits)
  have "keys_value (sum_exponents fs) = prod_list (map (val I) (filter has_key fs))"
    using keys_value_sum [of "[]" fs] by (simp add: sum_exponents_def keys_value_def)
  then have nv: "prod_list (map (val I) (filter has_key fs)) = scal I 1 * prod_list (map (val I) new)"
    using val_variable_power [of "sum_exponents fs"] sound_simps(2) [OF I] by (simp add: new_def)
  have central: "central_value f" if h: "has_key f" for f
  proof -
    obtain l k where k: "key_of f = Some (l, k)" using h by (cases "key_of f") (auto simp: has_key_def)
    show ?thesis unfolding central_value_def val_keyed [OF k] using vp_central by blast
  qed
  have "has_key f" if "f \<in> set new" for f
    using that by (auto simp: new_def variable_power_def has_key_def split: prod.splits if_splits)
  then show ?thesis unfolding st
    using central ne nv by (intro val_fused) (auto simp: list_ex_iff filter_empty_conv)
qed

section \<open>Rounds keep the value\<close>

lemma val_flatten_factors: "flatten_factors est fs = (fs', r) \<Longrightarrow> map (val I) fs' = map (val I) fs"
proof (induction fs arbitrary: fs' r)
  case (Cons f fs)
  obtain fs2 r2 where "flatten_factors est fs = (fs2, r2)" by fastforce
  then show ?case using Cons val_flatten_power [of est f] by (auto simp: Let_def split: if_splits)
qed simp

lemma val_simplify_product: "val I (snd (simplify_product est k st)) = val_factors I st"
proof -
  obtain ch1 k1 st1 where s1: "(case fuse_rational_powers est (fst st) (snd st) of Some s \<Rightarrow> (True, Plain, s) | None \<Rightarrow> (False, k, st)) = (ch1, k1, st1)"
    by (metis prod_cases3)
  obtain ch2 k2 st2 where s2: "(case fuse_variable_powers (fst st1) (snd st1) of Some s \<Rightarrow> (True, Plain, s) | None \<Rightarrow> (ch1, k1, st1)) = (ch2, k2, st2)"
    by (metis prod_cases3)
  obtain fs rb where s3: "flatten_factors est (snd st2) = (fs, rb)" by fastforce
  obtain ch3 k3 st3 where s4: "(if rb then (True, Plain, mk_product Recursively (fst st2) fs) else (ch2, k2, (fst st2, fs))) = (ch3, k3, st3)"
    by (metis prod_cases3)
  have "val_factors I st1 = val_factors I st"
    using s1 val_fuse_rational [of est "fst st" "snd st"] by (auto split: option.splits)
  moreover have "val_factors I st2 = val_factors I st1"
    using s2 val_fuse_variable [of "fst st1" "snd st1"] by (auto split: option.splits)
  moreover have "val_factors I st3 = val_factors I st2"
  proof -
    have "val_factors I (fst st2, fs) = val_factors I st2" using val_flatten_factors [OF s3] by (simp add: val_factors_def)
    then show ?thesis using s4 val_mk_product [OF I, of Recursively "fst st2" fs] by (auto simp: val_factors_def split: if_splits)
  qed
  moreover have "val I (if fst st3 = 0 then Constant 0 else if snd st3 = [] then Constant (fst st3)
      else if length (snd st3) = 1 \<and> fst st3 = 1 then hd (snd st3) else product_of k3 st3) = val_factors I st3"
    by (cases "snd st3") (auto simp: val_factors_def sound_simps(1,2) [OF I])
  ultimately show ?thesis
    unfolding simplify_product_def s1 Let_def prod.case s2 s3 s4
    by (simp only: if_distrib [of snd] snd_conv)
qed

lemma val_simplify_round: "val I (snd (simplify_round est e)) = val I e"
proof (cases e)
  case (Product k c fs)
  then show ?thesis using val_simplify_product [of est k "(c, fs)"] by (simp add: simplify_round_def val_factors_def)
next
  case (SumOf ss)
  have "ss \<noteq> [] \<Longrightarrow> length ss = 1 \<Longrightarrow> val I (hd ss) = sum_list (map (val I) ss)" by (cases ss) auto
  then show ?thesis using SumOf val_mk_sum [OF I, of ss] sound_simps(1) [OF I]
    by (auto simp: simplify_round_def simplify_sum_def val_sum_def)
next
  case (Power b x j)
  define e' where "e' = flatten_power est e"
  have v: "val_factors I (mk_product Recursively 1 [e']) = val I e"
    using val_mk_product [OF I, of Recursively 1 "[e']"] val_flatten_power [of est e] sound_simps(2) [OF I] by (simp add: e'_def)
  obtain c gs where one: "mk_product Recursively 1 [e'] = (c, gs)" by fastforce
  show ?thesis
    using val_fuse_rational [of est c gs] val_fuse_variable [of c gs] v one val_flatten_power [of est e]
    by (auto simp: simplify_round_def Power simplify_power_def Let_def e'_def [unfolded Power, symmetric] split: option.splits)
qed (simp_all add: simplify_round_def)

lemma val_simplifier:
  assumes "simplifier est e = Some e'"
  shows "val I e' = val I e"
proof (rule simplifier.raw_induct [of "\<lambda>est e e'. val I e' = val I e", OF _ assms])
  fix simp :: "(nat \<Rightarrow> nat \<Rightarrow> nat) \<Rightarrow> 'a expr \<Rightarrow> 'a expr option" and est and e e' :: "'a expr"
  assume "\<And>est e e'. simp est e = Some e' \<Longrightarrow> val I e' = val I e"
    "(if fst (simplify_round est e) then simp est (snd (simplify_round est e)) else Some (snd (simplify_round est e))) = Some e'"
  then show "val I e' = val I e" using val_simplify_round [of est e] by (auto split: if_splits)
qed

lemma val_all_some:
  assumes "\<And>e e'. v e = Some e' \<Longrightarrow> val I e' = val I e" "\<And>f f'. f \<in> set fs \<Longrightarrow> visit_some v f = Some f' \<Longrightarrow> val I f' = val I f"
  shows "all_some (map (\<lambda>f. Option.bind (visit_some v f) v) fs) = Some gs \<Longrightarrow> map (val I) gs = map (val I) fs"
  using assms(2)
proof (induction fs arbitrary: gs)
  case (Cons f fs)
  obtain g f' gs' where g: "visit_some v f = Some f'" "v f' = Some g" "gs = g # gs'"
    "all_some (map (\<lambda>f. Option.bind (visit_some v f) v) fs) = Some gs'"
    using Cons.prems(1) by (auto simp: bind_eq_Some_conv split: option.splits)
  have "val I g = val I f" using assms(1) [OF g(2)] Cons.prems(2) [OF _ g(1)] by simp
  then show ?case using Cons g by simp
qed simp

lemma val_visit_some:
  assumes "\<And>e e'. v e = Some e' \<Longrightarrow> val I e' = val I e"
  shows "visit_some v e = Some e' \<Longrightarrow> val I e' = val I e"
  using assms
proof (induction v e arbitrary: e' rule: visit_some.induct)
  case (1 v k c fs)
  obtain gs where gs: "all_some (map (\<lambda>f. Option.bind (visit_some v f) v) fs) = Some gs" "e' = Product k c gs"
    using 1(2) by auto
  have "map (val I) gs = map (val I) fs" using 1 by (intro val_all_some [OF _ _ gs(1)]) blast+
  then show ?case by (simp add: gs(2) del: map_eq_conv)
next
  case (2 v ss)
  obtain gs where gs: "all_some (map (\<lambda>f. Option.bind (visit_some v f) v) ss) = Some gs" "e' = SumOf gs"
    using 2(2) by auto
  have "map (val I) gs = map (val I) ss" using 2 by (intro val_all_some [OF _ _ gs(1)]) blast+
  then show ?case by (simp add: gs(2) del: map_eq_conv)
qed simp_all

lemma val_rapid_simplify: "rapid_simplify est e = Some e' \<Longrightarrow> val I e' = val I e"
  using val_visit_some [OF val_simplifier] val_simplifier by (fastforce simp: rapid_simplify_def bind_eq_Some_conv)

end

end
