(* ===== verification/RapidTermination.thy ===== *)
theory RapidTermination
  imports PowerValues
begin

text \<open>
  The rounds of \<open>rapid_simplify\<close> (SeQuant/core/expressions/expr_algorithms.cpp) come to an end on expressions without
  powers of positive rationals: every round that reports a change makes the expression lighter.
\<close>

section \<open>The weight of an expression\<close>

text \<open>A power that the fusing of variables would write in another way is heavier than a product of the new one.\<close>

definition normal_power :: "power_base \<Rightarrow> rat \<Rightarrow> bool \<Rightarrow> bool" where
  "normal_power b e j \<longleftrightarrow> (case b of BConstant c \<Rightarrow> True | BVariable l k \<Rightarrow> \<not> j \<and> e \<noteq> 0 \<and> e \<noteq> 1)"

fun heft :: "'a expr \<Rightarrow> nat" where
  "heft (Constant c) = 1"
| "heft (Power b e j) = (if normal_power b e j then 3 else 6)"
| "heft (Product k c fs) = 2 + sum_list (map heft fs)"
| "heft (SumOf ss) = 2 + sum_list (map heft ss)"
| "heft e = 2"

abbreviation hsum :: "'a expr list \<Rightarrow> nat" where
  "hsum es \<equiv> sum_list (map heft es)"

lemma heft_pos: "0 < heft e"
  by (cases e) auto

lemma hsum_fold_into:
  assumes "i < length ss" "is_Constant (ss ! i)"
  shows "hsum (fold_into ss i v) \<le> hsum ss"
proof -
  have "hsum ss = hsum (take i ss) + heft (ss ! i) + hsum (drop (Suc i) ss)"
    by (subst split_at [OF assms(1)]) simp
  then show ?thesis using heft_pos [of "ss ! i"] by (simp add: fold_into_cases [OF assms(1)])
qed

lemma hsum_add_summand:
  "hsum (add_summand ss e) \<le> hsum ss + heft e"
  "is_zero e \<or> is_Constant e \<and> constant_position ss \<noteq> None \<Longrightarrow> hsum (add_summand ss e) < hsum ss + heft e"
proof -
  have "constant_position ss = Some i \<Longrightarrow> hsum (fold_into ss i v) \<le> hsum ss" for i v
    by (intro hsum_fold_into constant_position_Some)
  note f = this
  have f1: "constant_position ss = Some i \<Longrightarrow> hsum (fold_into ss i v) \<le> Suc (hsum ss)" for i v
    using f [of i v] by simp
  show "hsum (add_summand ss e) \<le> hsum ss + heft e"
    by (cases e) (auto simp: add_summand_def f1 split: option.splits)
  assume "is_zero e \<or> is_Constant e \<and> constant_position ss \<noteq> None"
  then show "hsum (add_summand ss e) < hsum ss + heft e"
    by (cases e) (auto simp: add_summand_def f less_Suc_eq_le split: option.splits)
qed

lemma hsum_foldl:
  assumes "\<And>acc s. s \<in> set ss \<Longrightarrow> hsum (g acc s) \<le> hsum acc + heft s"
  shows "hsum (foldl g acc ss) \<le> hsum acc + hsum ss"
  using assms
proof (induction ss arbitrary: acc)
  case (Cons s ss)
  have "hsum (foldl g (g acc s) ss) \<le> hsum (g acc s) + hsum ss" using Cons by simp
  then show ?case using Cons.prems [of s acc] by simp
qed simp

lemma hsum_add_summands: "hsum (add_summands ss e) \<le> hsum ss + heft e"
proof (induction ss e rule: add_summands.induct)
  case (1 ss ts)
  then have "hsum (foldl add_summands ss ts) \<le> hsum ss + hsum ts" by (intro hsum_foldl) blast
  then show ?case by simp
qed (simp_all only: add_summands.simps hsum_add_summand(1))

lemma hsum_filter: "hsum (filter P es) \<le> hsum es"
  by (induction es) auto

lemma hsum_map: "(\<And>e. e \<in> set es \<Longrightarrow> heft (g e) \<le> heft e) \<Longrightarrow> hsum (map g es) \<le> hsum es"
  by (induction es) (auto simp: add_mono)

lemma heft_clone: "heft (clone e) \<le> heft e"
proof (induction e rule: clone.induct)
  case (1 k c fs)
  have "hsum (filter (Not \<circ> is_Constant) (map clone fs)) \<le> hsum (map clone fs)" by (rule hsum_filter)
  also have "\<dots> \<le> hsum fs" using 1 by (intro hsum_map)
  finally show ?case by (simp add: clone_Product del: clone.simps(1) map_map)
next
  case (2 ss)
  have "hsum (foldl add_summands [] (map clone ss)) \<le> hsum ([] :: 'a expr list) + hsum (map clone ss)"
    by (rule hsum_foldl) (rule hsum_add_summands)
  also have "\<dots> \<le> hsum ss" using hsum_map [of ss clone] 2 by simp
  finally show ?case by (simp del: map_map)
qed simp_all

lemma hsum_append_factor:
  fixes e :: "'a expr"
  shows "hsum (snd (append_factor Recursively st e)) \<le> hsum (snd st) + heft e"
    "is_Product e \<or> is_Constant e \<Longrightarrow> hsum (snd (append_factor Recursively st e)) < hsum (snd st) + heft e"
proof -
  have "hsum (snd (append_factor t st e)) \<le> hsum (snd st) + heft e
      \<and> (is_Product e \<or> is_Constant e \<longrightarrow> hsum (snd (append_factor t st e)) < hsum (snd st) + heft e)" if "t = Recursively" for t
    using that
  proof (induction t st e rule: append_factor.induct)
    case (1 t c fs k d gs)
    have "hsum (snd (foldl (append_factor Recursively) st' hs)) \<le> hsum (snd st') + hsum hs" if "set hs \<subseteq> set gs" for st' hs
      using that
    proof (induction hs arbitrary: st')
      case (Cons h hs)
      have "h \<in> set gs" using Cons.prems by simp
      then have "hsum (snd (append_factor Recursively st' h)) \<le> hsum (snd st') + heft h"
        using 1 by fastforce
      moreover have "hsum (snd (foldl (append_factor Recursively) (append_factor Recursively st' h) hs))
          \<le> hsum (snd (append_factor Recursively st' h)) + hsum hs"
        using Cons by simp
      ultimately show ?case by simp
    qed simp
    from this [of gs "(c * d, fs)"] show ?case using 1(2) by simp
  qed (simp_all only: append_factor.simps snd_conv map_append sum_list_append list.map sum_list.Cons sum_list.Nil add_0_right
      nat_add_left_cancel_le heft_clone, simp_all)
  then show "hsum (snd (append_factor Recursively st e)) \<le> hsum (snd st) + heft e"
    "is_Product e \<or> is_Constant e \<Longrightarrow> hsum (snd (append_factor Recursively st e)) < hsum (snd st) + heft e" by blast+
qed

lemma hsum_mk_product:
  fixes fs :: "'a expr list"
  shows "hsum (snd (foldl (append_factor Recursively) st fs)) \<le> hsum (snd st) + hsum fs"
    "list_ex (\<lambda>f. is_Product f \<or> is_Constant f) fs \<Longrightarrow> hsum (snd (foldl (append_factor Recursively) st fs)) < hsum (snd st) + hsum fs"
proof -
  show le: "hsum (snd (foldl (append_factor Recursively) st fs)) \<le> hsum (snd st) + hsum fs" for st and fs :: "'a expr list"
  proof (induction fs arbitrary: st)
    case (Cons f fs)
    show ?case using Cons.IH [of "append_factor Recursively st f"] hsum_append_factor(1) [of st f] by simp
  qed simp
  show "list_ex (\<lambda>f. is_Product f \<or> is_Constant f) fs \<Longrightarrow> hsum (snd (foldl (append_factor Recursively) st fs)) < hsum (snd st) + hsum fs"
  proof (induction fs arbitrary: st)
    case (Cons f fs)
    show ?case
    proof (cases "is_Product f \<or> is_Constant f")
      case True
      then show ?thesis using le [of "append_factor Recursively st f" fs] hsum_append_factor(2) [OF True, of st] by simp
    next
      case False
      then show ?thesis using Cons.IH [of "append_factor Recursively st f"] Cons.prems hsum_append_factor(1) [of st f] by simp
    qed
  qed simp
qed

lemma hsum_append_summand: "hsum (append_summand ss e) \<le> hsum ss + heft e"
proof (induction ss e rule: append_summand.induct)
  case (1 ss ts)
  then have "hsum (foldl append_summand ss ts) \<le> hsum ss + hsum ts" by (intro hsum_foldl) blast
  then show ?case by simp
next
  case (2 ss v)
  show ?case unfolding append_summand.simps by (rule hsum_add_summand)
qed (simp_all add: heft_clone del: clone.simps heft.simps)

lemma hsum_append_strict:
  assumes "is_SumOf e \<or> is_Constant e \<and> (is_zero e \<or> constant_position ss \<noteq> None)"
  shows "hsum (append_summand ss e) < hsum ss + heft e"
proof (cases e)
  case (SumOf ts)
  have "hsum (foldl append_summand ss ts) \<le> hsum ss + hsum ts" by (rule hsum_foldl) (rule hsum_append_summand)
  then show ?thesis by (simp add: SumOf)
qed (use assms hsum_add_summand(2) [of e ss] in auto)

lemma constant_position_kept:
  assumes "\<not> is_SumOf e" "\<not> is_Constant e" "constant_position ss \<noteq> None"
  shows "constant_position (append_summand ss e) \<noteq> None"
  using assms by (cases e) (auto simp: constant_position_None simp del: clone.simps not_None_eq)

lemma hsum_rebuild:
  "must_rebuild n ss \<Longrightarrow> (1 \<le> n \<Longrightarrow> constant_position acc \<noteq> None) \<Longrightarrow> hsum (foldl append_summand acc ss) < hsum acc + hsum ss"
proof (induction n ss arbitrary: acc rule: must_rebuild.induct)
  case (2 n s ss)
  have le: "hsum (foldl append_summand (append_summand acc s) ss) \<le> hsum (append_summand acc s) + hsum ss"
    by (rule hsum_foldl) (rule hsum_append_summand)
  show ?case
  proof (cases "is_SumOf s \<or> is_Constant s \<and> (is_zero s \<or> constant_position acc \<noteq> None)")
    case True
    then show ?thesis using hsum_append_strict [OF True] le by simp
  next
    case plain: False
    show ?thesis
    proof (cases "is_Constant s")
      case True
      then have n: "n = 0" and none: "constant_position acc = None" and nz: "\<not> is_zero s" using plain 2(4) by (cases n; auto)+
      then have "append_summand acc s = acc @ [s]" using True by (cases s) (auto simp: add_summand_def)
      moreover have "must_rebuild (Suc n) ss" using 2(3) True nz n plain by (simp split: if_splits)
      moreover have "constant_position (acc @ [s]) \<noteq> None" using True by (simp add: constant_position_None del: not_None_eq)
      ultimately show ?thesis using "2.IH"(1) [OF _ True, of "acc @ [s]"] nz n plain by simp
    next
      case False
      have "hsum (foldl append_summand (append_summand acc s) ss) < hsum (append_summand acc s) + hsum ss"
      proof (rule "2.IH"(2))
        show "\<not> is_SumOf s" "\<not> is_Constant s" "must_rebuild n ss" using plain False 2(3) by auto
        show "constant_position (append_summand acc s) \<noteq> None" if "1 \<le> n"
          using plain by (intro constant_position_kept False 2(4) that) auto
      qed
      then show ?thesis using hsum_append_summand [of acc s] by simp
    qed
  qed
qed simp

section \<open>Properties of all subexpressions\<close>

locale hereditary =
  fixes P :: "'a expr \<Rightarrow> bool"
  assumes P_Product: "P (Product k c fs) \<longleftrightarrow> list_all P fs" and P_SumOf: "P (SumOf ss) \<longleftrightarrow> list_all P ss" and P_Constant: "P (Constant c)"
begin

lemma P_foldl: "list_all P ss \<Longrightarrow> list_all P acc \<Longrightarrow> (\<And>acc s. s \<in> set ss \<Longrightarrow> P s \<Longrightarrow> list_all P acc \<Longrightarrow> list_all P (g acc s)) \<Longrightarrow> list_all P (foldl g acc ss)"
  by (induction ss arbitrary: acc) simp_all

lemma P_add_summands: "list_all P ss \<Longrightarrow> P e \<Longrightarrow> list_all P (add_summands ss e)"
proof (induction ss e rule: add_summands.induct)
  case (1 ss ts)
  then show ?case unfolding add_summands.simps P_SumOf by (intro P_foldl) blast+
qed (unfold add_summands.simps, (rule add_summand_all, assumption, assumption, rule P_Constant)+)

lemma P_clone: "P e \<Longrightarrow> P (clone e)"
proof (induction e rule: clone.induct)
  case (1 k c fs)
  then show ?case by (auto simp: clone_Product P_Product list_all_iff simp del: clone.simps(1))
next
  case (2 ss)
  have "list_all P (map clone ss)" using 2 by (auto simp: P_SumOf list_all_iff)
  then show ?case unfolding clone.simps P_SumOf by (rule P_foldl) (simp_all add: P_add_summands)
qed simp_all

lemma P_append_factor: "t = Recursively \<Longrightarrow> P e \<Longrightarrow> list_all P (snd st) \<Longrightarrow> list_all P (snd (append_factor t st e))"
proof (induction t st e rule: append_factor.induct)
  case (1 t c fs k d gs)
  have "list_all P (snd (foldl (append_factor Recursively) st' hs))" if "set hs \<subseteq> set gs" "list_all P (snd st')" for st' hs
    using that
  proof (induction hs arbitrary: st')
    case (Cons h hs)
    have h: "h \<in> set gs" "P h" using Cons.prems 1(3) by (auto simp: P_Product list_all_iff)
    have "list_all P (snd (append_factor Recursively st' h))" using 1(1) [OF _ h(1)] 1(2) h(2) Cons.prems(2) by auto
    then show ?case using Cons by simp
  qed simp
  then show ?case using 1(2,4) by simp
qed (simp_all only: append_factor.simps snd_conv list_all_append list.pred_inject P_clone)

lemma P_mk_product: "list_all P fs \<Longrightarrow> list_all P (snd (mk_product Recursively c fs))"
proof -
  have "list_all P gs \<Longrightarrow> list_all P (snd st) \<Longrightarrow> list_all P (snd (foldl (append_factor Recursively) st gs))" for gs st
    by (induction gs arbitrary: st) (simp_all add: P_append_factor)
  then show "list_all P fs \<Longrightarrow> list_all P (snd (mk_product Recursively c fs))" by (simp add: mk_product_def)
qed

lemma P_append_summand: "list_all P ss \<Longrightarrow> P e \<Longrightarrow> list_all P (append_summand ss e)"
proof (induction ss e rule: append_summand.induct)
  case (1 ss ts)
  then show ?case unfolding append_summand.simps P_SumOf by (intro P_foldl) blast+
next
  case (2 ss v)
  then show ?case unfolding append_summand.simps by (intro add_summand_all P_Constant)
qed (simp_all only: append_summand.simps if_split list_all_append list.pred_inject P_clone simp_thms)

lemma P_mk_sum: "list_all P ss \<Longrightarrow> P (mk_sum ss)"
  unfolding mk_sum_def P_SumOf by (rule P_foldl) (simp_all add: P_append_summand)

end

section \<open>Expressions without powers of positive rationals\<close>

fun quiet :: "'a expr \<Rightarrow> bool" where
  "quiet (Product k c fs) \<longleftrightarrow> list_all quiet fs"
| "quiet (SumOf ss) \<longleftrightarrow> list_all quiet ss"
| "quiet e \<longleftrightarrow> \<not> is_fusible e"

interpretation quiet: hereditary quiet
  by unfold_locales simp_all

lemma quiet_not_fusible: "quiet e \<Longrightarrow> \<not> is_fusible e"
  by (cases e) simp_all

lemma fuse_rational_quiet: "list_all quiet fs \<Longrightarrow> fuse_rational_powers est c fs = None"
  using quiet_not_fusible by (auto simp: fuse_rational_powers_def Let_def list_all_iff filter_empty_conv)

lemma flatten_power_quiet: "quiet e \<Longrightarrow> quiet (flatten_power est e)"
  by (cases e) (auto simp: flatten_power_def fold_power_def Let_def split: power_base.splits option.splits)

lemma quiet_variable_power: "list_all quiet (variable_power ke)"
  by (cases ke) (auto simp: variable_power_def)

lemma quiet_replace_first: "list_all quiet fs \<Longrightarrow> list_all quiet new \<Longrightarrow> list_all quiet (replace_first P new fs)"
  by (induction fs) (auto simp: list_all_iff)

lemma quiet_fuse_variable:
  fixes fs :: "'a expr list"
  assumes "fuse_variable_powers c fs = Some st" "list_all quiet fs"
  shows "list_all quiet (snd st)"
proof -
  have "list_all quiet (concat (map variable_power m) :: 'a expr list)" for m
    by (induction m) (simp_all add: quiet_variable_power)
  then show ?thesis using assms quiet_replace_first [OF assms(2)]
    by (auto simp: fuse_variable_powers_def Let_def quiet.P_mk_product split: if_splits)
qed

section \<open>Fusing variables makes lighter\<close>

fun entry_heft :: "(string \<times> bool) \<times> rat \<Rightarrow> nat" where
  "entry_heft (k, e) = (if e = 0 then 1 else if e = 1 then 2 else 3)"

definition entries_heft :: "((string \<times> bool) \<times> rat) list \<Rightarrow> nat" where
  "entries_heft m = sum_list (map entry_heft m)"

lemma hsum_variable_power: "hsum (concat (map variable_power m) :: 'a expr list) \<le> entries_heft m"
proof (induction m)
  case (Cons ke m)
  have "hsum (variable_power ke :: 'a expr list) \<le> entry_heft ke" by (cases ke) (auto simp: variable_power_def normal_power_def)
  then show ?case using Cons by (simp add: entries_heft_def)
qed (simp add: entries_heft_def)

text \<open>A factor as it is written by the fusing.\<close>

lemma keyed_heft:
  assumes "key_of f = Some k"
  shows "entry_heft (k, exponent_of f) < heft f \<or> entry_heft (k, exponent_of f) = heft f \<and> variable_power (k, exponent_of f) = [f]"
    "2 \<le> heft f" "exponent_of f = 1 \<or> 3 \<le> heft f"
  using assms by (cases f rule: key_of.cases; auto simp: variable_power_def normal_power_def)+

lemma add_key_old:
  assumes "k \<in> fst ` set m" "2 \<le> h" "e = 1 \<or> 3 \<le> h"
  shows "entries_heft (add_key m k e) < entries_heft m + h"
  using assms
proof (induction m k e rule: add_key.induct)
  case (2 k' x m k e)
  show ?case
  proof (cases "e = 1")
    case True
    then show ?thesis using 2 by (cases "k' = k") (auto simp: entries_heft_def)
  next
    case False
    then have "3 \<le> h" using 2(4) by simp
    then show ?thesis using 2 by (auto simp: entries_heft_def)
  qed
qed simp

lemma add_key_new: "k \<notin> fst ` set m \<Longrightarrow> add_key m k e = m @ [(k, e)]"
  by (induction m k e rule: add_key.induct) auto

lemma fused_lighter:
  fixes fs :: "'a expr list"
  assumes "entries_heft m < n \<or> entries_heft m = n \<and> concat (map variable_power m) = old"
  shows "let m' = foldl (\<lambda>m f. case key_of f of Some k \<Rightarrow> add_key m k (exponent_of f) | None \<Rightarrow> m) m fs; n' = n + hsum (filter has_key fs) in
     entries_heft m' < n' \<or> entries_heft m' = n' \<and> concat (map variable_power m') = old @ filter has_key fs"
  using assms
proof (induction fs arbitrary: m n old)
  case (Cons f fs)
  show ?case
  proof (cases "key_of f")
    case None
    then show ?thesis using Cons by (simp add: has_key_def)
  next
    case (Some k)
    define m1 where "m1 = add_key m k (exponent_of f)"
    note h = keyed_heft [OF Some]
    have "entries_heft m1 < n + heft f \<or> entries_heft m1 = n + heft f \<and> concat (map variable_power m1) = old @ [f]"
    proof (cases "k \<in> fst ` set m")
      case True
      then show ?thesis using add_key_old [OF True h(2,3)] Cons.prems by (auto simp: m1_def)
    next
      case False
      have "entries_heft m1 = entries_heft m + entry_heft (k, exponent_of f)"
        unfolding m1_def add_key_new [OF False] by (simp add: entries_heft_def)
      moreover have "concat (map variable_power m1) = concat (map variable_power m) @ (variable_power (k, exponent_of f) :: 'a expr list)"
        unfolding m1_def add_key_new [OF False] by simp
      ultimately show ?thesis using h(1) Cons.prems by auto
    qed
    from Cons.IH [OF this] show ?thesis using Some by (simp add: has_key_def m1_def Let_def add.assoc)
  qed
qed simp

lemma expr_eq_same: "expr_eq e e"
  by (induction e) (auto simp: list_all2_same)

lemma hsum_replace_first:
  "list_ex P fs \<Longrightarrow> hsum (replace_first P new fs) + hsum (filter P fs) = hsum new + hsum fs"
proof (induction fs)
  case (Cons f fs)
  have "hsum (filter P fs) + hsum (filter (Not \<circ> P) fs) = hsum fs" by (induction fs) auto
  then show ?case using Cons by (auto simp: comp_def)
qed simp

lemma fuse_variable_lighter:
  assumes "fuse_variable_powers c fs = Some st"
  shows "hsum (snd st) < hsum fs"
proof -
  define new :: "'a expr list" where "new = concat (map variable_power (sum_exponents fs))"
  have ne: "filter has_key fs \<noteq> []" and differ: "\<not> list_all2 expr_eq (filter has_key fs) new"
    and st: "st = mk_product Recursively c (replace_first has_key new fs)"
    using assms by (auto simp: fuse_variable_powers_def Let_def new_def split: if_splits)
  have "filter has_key fs \<noteq> new" using differ by (auto simp: list_all2_same expr_eq_same)
  then have "entries_heft (sum_exponents fs) < hsum (filter has_key fs)"
    using fused_lighter [of "[]" 0 "[]" fs] by (auto simp: sum_exponents_def entries_heft_def new_def Let_def)
  then have "hsum new < hsum (filter has_key fs)"
    unfolding new_def by (rule le_less_trans [OF hsum_variable_power])
  moreover have "hsum (snd st) \<le> hsum (replace_first has_key new fs)"
    unfolding st mk_product_def using hsum_mk_product(1) [where st = "(c, [])"] by simp
  moreover have "list_ex has_key fs" using ne by (auto simp: list_ex_iff filter_empty_conv)
  ultimately show ?thesis using hsum_replace_first [of has_key fs new] by simp
qed

section \<open>Rounds make lighter\<close>

lemma heft_flatten_power: "heft (flatten_power est f) \<le> heft f"
proof (cases f)
  case (Power b e j)
  show ?thesis
  proof (cases "fold_power est b e j :: 'a expr option")
    case (Some f')
    then have "is_Constant f' \<or> (\<exists>l k. f' = Variable l k \<and> e = 1 \<and> (\<exists>l' k'. b = BVariable l' k'))"
      by (auto simp: fold_power_def Let_def split: if_splits power_base.splits option.splits)
    then show ?thesis using Power Some by (auto simp: flatten_power_def normal_power_def is_Constant_def)
  qed (simp add: Power flatten_power_def)
qed (simp_all add: flatten_power_def)

lemma flatten_factors_lighter:
  assumes "flatten_factors est fs = (gs, r)"
  shows "hsum gs \<le> hsum fs \<and> (r \<longrightarrow> list_ex (\<lambda>f. is_Product f \<or> is_Constant f) gs) \<and> (list_all quiet fs \<longrightarrow> list_all quiet gs)"
  using assms
proof (induction fs arbitrary: gs r)
  case (Cons f fs)
  obtain gs2 r2 where "flatten_factors est fs = (gs2, r2)" by fastforce
  then show ?case using Cons heft_flatten_power [of est f] flatten_power_quiet [of f est]
    by (fastforce simp: Let_def add_mono split: if_splits)
qed simp

lemma simplify_product_lighter:
  assumes "list_all quiet (snd st)"
  shows "quiet (snd (simplify_product est k st))
    \<and> (fst (simplify_product est k st) \<longrightarrow> heft (snd (simplify_product est k st)) < 2 + hsum (snd st))"
proof -
  have s1: "fuse_rational_powers est (fst st) (snd st) = None" by (rule fuse_rational_quiet [OF assms])
  obtain ch2 k2 st2 where s2: "(case fuse_variable_powers (fst st) (snd st) of Some s \<Rightarrow> (True, Plain, s) | None \<Rightarrow> (False, k, st)) = (ch2, k2, st2)"
    by (metis prod_cases3)
  obtain fs rb where s3: "flatten_factors est (snd st2) = (fs, rb)" by fastforce
  obtain ch3 k3 st3 where s4: "(if rb then (True, Plain, mk_product Recursively (fst st2) fs) else (ch2, k2, (fst st2, fs))) = (ch3, k3, st3)"
    by (metis prod_cases3)
  have a: "hsum (snd st2) \<le> hsum (snd st) \<and> (ch2 \<longrightarrow> hsum (snd st2) < hsum (snd st)) \<and> list_all quiet (snd st2)"
    using s2 assms fuse_variable_lighter [of "fst st" "snd st"] quiet_fuse_variable [of "fst st" "snd st"]
    by (fastforce split: option.splits)
  have b: "hsum (snd st3) \<le> hsum (snd st2) \<and> (ch3 \<longrightarrow> hsum (snd st3) < hsum (snd st2) \<or> ch2) \<and> list_all quiet (snd st3)"
    using s4 flatten_factors_lighter [OF s3] hsum_mk_product [where fs = fs and st = "(fst st2, [])"] quiet.P_mk_product [of fs "fst st2"] a
    by (auto simp: mk_product_def split: if_splits)
  have "quiet (hd (snd st3)) \<and> heft (hd (snd st3)) \<le> hsum (snd st3)" if "snd st3 \<noteq> []"
    using that b by (cases "snd st3") auto
  then show ?thesis
    unfolding simplify_product_def s1 Let_def prod.case option.case s2 s3 s4
    using a b by (auto simp: product_of_def)
qed

lemma simplify_sum_lighter:
  assumes "list_all quiet ss"
  shows "quiet (snd (simplify_sum ss)) \<and> (fst (simplify_sum ss) \<longrightarrow> heft (snd (simplify_sum ss)) < 2 + hsum ss)"
proof -
  have "hsum (foldl append_summand [] ss) < 0 + hsum ss" if "must_rebuild 0 ss"
    using hsum_rebuild [OF that, of "[]"] by simp
  moreover have "quiet (hd ss) \<and> heft (hd ss) \<le> hsum ss" if "ss \<noteq> []"
    using that assms by (cases ss) auto
  ultimately show ?thesis using assms quiet.P_mk_sum [OF assms] by (auto simp: simplify_sum_def mk_sum_def)
qed

lemma power_cases:
  fixes b x j est
  defines "e' \<equiv> flatten_power est (Power b x j :: 'a expr)"
  shows "e' = Power b x j \<and> (\<forall>l k. b = BVariable l k \<longrightarrow> x \<noteq> 0 \<and> x \<noteq> 1) \<or> \<not> is_Power e' \<and> heft e' < heft (Power b x j :: 'a expr)"
proof (cases "fold_power est b x j :: 'a expr option")
  case (Some f')
  then have "is_Constant f' \<or> (\<exists>l k. f' = Variable l k \<and> x = 1 \<and> (\<exists>l' k'. b = BVariable l' k'))"
    by (auto simp: fold_power_def Let_def split: if_splits power_base.splits option.splits)
  then show ?thesis using Some by (auto simp: e'_def flatten_power_def normal_power_def is_Constant_def)
next
  case None
  then show ?thesis by (auto simp: e'_def flatten_power_def fold_power_def split: if_splits)
qed

lemma simplify_power_lighter:
  fixes b x j est
  defines "e \<equiv> (Power b x j :: 'a expr)"
  assumes "quiet e"
  shows "quiet (snd (simplify_power est e)) \<and> (fst (simplify_power est e) \<longrightarrow> heft (snd (simplify_power est e)) < heft e)"
proof -
  consider "flatten_power est e = e" "\<forall>l k. b = BVariable l k \<longrightarrow> x \<noteq> 0 \<and> x \<noteq> 1"
    | "\<not> is_Power (flatten_power est e)" "heft (flatten_power est e) < heft e"
    using power_cases [of est b x j] unfolding e_def by auto
  then show ?thesis
  proof cases
    case 1
    have one: "mk_product Recursively 1 [e] = (1, [e])" by (simp add: mk_product_def e_def)
    have none: "fuse_rational_powers est 1 [e] = None" using assms(2) by (intro fuse_rational_quiet) simp
    show ?thesis
    proof (cases "b = BConstant (case b of BConstant c \<Rightarrow> c) \<or> \<not> j")
      case True
      then have "fuse_variable_powers 1 [e] = None"
        using 1(2) by (cases b) (auto simp: fuse_variable_powers_def Let_def e_def has_key_def sum_exponents_def variable_power_def)
      then show ?thesis using 1(1) none one assms(2) by (simp add: simplify_power_def Let_def e_def)
    next
      case False
      then obtain l k where b: "b = BVariable l k" and j: "j" by (cases b) auto
      have "fuse_variable_powers 1 [e] = Some (1, [Power (BVariable l (\<not> k)) x False])"
        using 1(2) by (simp add: fuse_variable_powers_def Let_def e_def b j has_key_def sum_exponents_def variable_power_def mk_product_def)
      then show ?thesis using 1 none one
        by (simp add: simplify_power_def Let_def e_def b j product_of_def normal_power_def)
    qed
  next
    case 2
    then show ?thesis using flatten_power_quiet [OF assms(2), of est] by (simp add: simplify_power_def Let_def)
  qed
qed

lemma simplify_round_lighter:
  assumes "quiet e"
  shows "quiet (snd (simplify_round est e)) \<and> (fst (simplify_round est e) \<longrightarrow> heft (snd (simplify_round est e)) < heft e)"
proof (cases e)
  case (Power b x j)
  then show ?thesis using simplify_power_lighter [of b x j est] assms by (simp add: simplify_round_def del: heft.simps quiet.simps)
next
  case (Product k c fs)
  then show ?thesis using simplify_product_lighter [of "(c, fs)" est k] assms by (simp add: simplify_round_def)
next
  case (SumOf ss)
  then show ?thesis using simplify_sum_lighter [of ss] assms by (simp add: simplify_round_def)
qed (use assms in \<open>simp_all add: simplify_round_def\<close>)

section \<open>The simplifier ends\<close>

lemma simplifier_ends: "quiet e \<Longrightarrow> \<exists>e'. simplifier est e = Some e' \<and> quiet e' \<and> (\<exists>e0. simplify_round est e0 = (False, e'))"
proof (induction "heft e" arbitrary: e rule: less_induct)
  case less
  obtain c e1 where r: "simplify_round est e = (c, e1)" by fastforce
  have q: "quiet e1" "c \<Longrightarrow> heft e1 < heft e" using simplify_round_lighter [OF less.prems, of est] r by auto
  show ?case
  proof (cases c)
    case True
    then show ?thesis using less.hyps [OF q(2) q(1)] r by (subst simplifier.simps) simp
  next
    case False
    then show ?thesis using q(1) r by (subst simplifier.simps) auto
  qed
qed

lemma visit_some_ends:
  assumes "\<And>e. quiet e \<Longrightarrow> \<exists>e'. v e = Some e' \<and> quiet e'"
  shows "quiet e \<Longrightarrow> \<exists>e'. visit_some v e = Some e' \<and> quiet e'"
proof -
  have step: "\<exists>gs. all_some (map (\<lambda>f. Option.bind (visit_some v f) v) fs) = Some gs \<and> list_all quiet gs"
    if "\<forall>f\<in>set fs. \<exists>f'. visit_some v f = Some f' \<and> quiet f'" for fs :: "'a expr list"
    using that
  proof (induction fs)
    case (Cons f fs)
    obtain f' where f': "visit_some v f = Some f'" "quiet f'" using Cons.prems by auto
    obtain g where "v f' = Some g" "quiet g" using assms [OF f'(2)] by blast
    then show ?case using f' Cons by auto
  qed simp
  show "quiet e \<Longrightarrow> \<exists>e'. visit_some v e = Some e' \<and> quiet e'"
  proof (induction e)
    case (Product k c fs)
    then have "\<exists>gs. all_some (map (\<lambda>f. Option.bind (visit_some v f) v) fs) = Some gs \<and> list_all quiet gs"
      by (intro step) (auto simp: list_all_iff)
    then show ?case by auto
  next
    case (SumOf ss)
    then have "\<exists>gs. all_some (map (\<lambda>f. Option.bind (visit_some v f) v) ss) = Some gs \<and> list_all quiet gs"
      by (intro step) (auto simp: list_all_iff)
    then show ?case by auto
  qed auto
qed

lemma rapid_simplify_ends: "quiet e \<Longrightarrow> \<exists>e'. rapid_simplify est e = Some e' \<and> quiet e'"
proof -
  assume "quiet e"
  then obtain e1 where e1: "visit_some (simplifier est) e = Some e1" "quiet e1"
    using visit_some_ends [of "simplifier est"] simplifier_ends by blast
  then show ?thesis using simplifier_ends [OF e1(2), of est] by (auto simp: rapid_simplify_def)
qed

section \<open>A round without a change\<close>

lemma fuse_variable_None:
  fixes fs :: "'a expr list"
  assumes "fuse_variable_powers c fs = None" "Power (BVariable l k) e j \<in> set fs"
  shows "e \<noteq> 0 \<and> e \<noteq> 1"
proof -
  define f :: "'a expr" where "f = Power (BVariable l k) e j"
  have f: "f \<in> set (filter has_key fs)" using assms(2) by (simp add: f_def has_key_def)
  then have "filter has_key fs \<noteq> []" by (metis empty_iff empty_set)
  then have all: "list_all2 expr_eq (filter has_key fs) (concat (map variable_power (sum_exponents fs)))"
    using assms(1) by (simp add: fuse_variable_powers_def Let_def split: if_splits)
  obtain n where n: "n < length (filter has_key fs)" "filter has_key fs ! n = f" using f unfolding in_set_conv_nth by blast
  define g :: "'a expr" where "g = concat (map variable_power (sum_exponents fs)) ! n"
  have "expr_eq f g" using list_all2_nthD [OF all n(1)] n(2) by (simp add: g_def)
  moreover have "g \<in> set (concat (map variable_power (sum_exponents fs)))"
    unfolding g_def using n(1) list_all2_lengthD [OF all] by (intro nth_mem) simp
  then obtain ke where "g \<in> set (variable_power ke)" by auto
  ultimately show ?thesis by (cases g) (auto simp: f_def variable_power_def split: prod.splits if_splits)
qed

lemma flatten_factors_same:
  assumes "flatten_factors est fs = (gs, False)" "\<forall>l k e j. Power (BVariable l k) e j \<in> set fs \<longrightarrow> e \<noteq> 0 \<and> e \<noteq> 1"
  shows "gs = fs"
  using assms
proof (induction fs arbitrary: gs)
  case (Cons f fs)
  obtain gs2 r2 where r: "flatten_factors est fs = (gs2, r2)" by fastforce
  then have f: "gs = flatten_power est f # gs2" "\<not> is_Constant (flatten_power est f)" "r2 = False"
    using Cons.prems(1) by (auto simp: Let_def split: if_splits)
  have "flatten_power est f = f"
  proof (cases f)
    case (Power b e j)
    then show ?thesis using power_cases [of est b e j] f(2) Cons.prems(2)
      by (cases b) (auto simp: flatten_power_def fold_power_def Let_def split: if_splits option.splits)
  qed (simp_all add: flatten_power_def)
  moreover have "gs2 = fs" using Cons.IH r f(3) Cons.prems(2) by auto
  ultimately show ?case using f(1) by simp
qed simp

lemma simplify_round_same:
  assumes "simplify_round est e = (False, e')"
  shows "e' = e"
proof (cases e)
  case (Product k c fs)
  obtain gs r where g: "flatten_factors est fs = (gs, r)" by fastforce
  have none: "fuse_rational_powers est c fs = None" "fuse_variable_powers c fs = None" "r = False" "e' = Product k c gs"
    using assms g by (auto simp: simplify_round_def simplify_product_def Product Let_def product_of_def split: option.splits if_splits prod.splits)
  then show ?thesis using flatten_factors_same [of est fs gs] g fuse_variable_None [of c fs] Product by auto
next
  case (Power b x j)
  then show ?thesis using assms power_cases [of est b x j]
    by (auto simp: simplify_round_def simplify_power_def Let_def split: option.splits if_splits)
qed (use assms in \<open>auto simp: simplify_round_def simplify_sum_def split: if_splits\<close>)

section \<open>Complex numbers\<close>

definition complex_of :: "scalar \<Rightarrow> complex" where
  "complex_of c = Complex (of_rat (re c)) (of_rat (im c))"

definition variable_power_value :: "rat \<Rightarrow> complex" where
  "variable_power_value e = of_real (2 powr of_rat e)"

definition power_value :: "power_base \<Rightarrow> rat \<Rightarrow> bool \<Rightarrow> complex" where
  "power_value b e j =
     (case b of
        BVariable l k \<Rightarrow> variable_power_value e
      | BConstant c \<Rightarrow>
          if im c = 0 \<and> 0 < re c then of_real (of_rat (re c) powr of_rat e)
          else if denominator e = 1 then complex_of (conj_if j (int_power c (numerator e))) else 0)"

definition complex_interp :: "('a, complex) interp" where
  "complex_interp = \<lparr>scal = complex_of, vari = \<lambda>l k. 2, pwr = power_value, atom = \<lambda>a. 3\<rparr>"

lemma complex_of_simps:
  "complex_of (x + y) = complex_of x + complex_of y" "complex_of (x * y) = complex_of x * complex_of y" "complex_of 1 = 1"
  "complex_of (Scalar q 0) = of_real (of_rat q)"
  by (auto simp: complex_of_def scalar_defs complex_eq_iff of_rat_add of_rat_mult of_rat_diff)

lemma real_scalar_power: "Scalar q 0 ^ n = Scalar (q ^ n) 0"
  by (induction n) (simp_all add: one_scalar_def times_scalar_def)

lemma int_power_real:
  assumes "0 < q"
  shows "complex_of (conj_if j (int_power (Scalar q 0) n)) = of_real (of_rat q powr of_int n)"
proof -
  have inv: "1 / Scalar a 0 = Scalar (1 / a) 0" if "a \<noteq> 0" for a
    using that by (simp add: divide_scalar_def scale_scalar_def norm_squared_def conj_scalar_def one_scalar_def times_scalar_def)
  have q: "(0 :: real) < of_rat q" using assms by simp
  have "of_rat q powr real_of_int n = (if 0 \<le> n then of_rat (q ^ nat n) else of_rat (1 / q ^ nat (- n)))"
    using powr_real_of_int [OF q, of n] q by (simp add: of_rat_power of_rat_divide inverse_eq_divide)
  moreover have "conj_if j (int_power (Scalar q 0) n) = Scalar (if 0 \<le> n then q ^ nat n else 1 / q ^ nat (- n)) 0"
    using assms inv by (simp add: conj_if_def conj_scalar_def int_power_def real_scalar_power)
  ultimately show ?thesis by (simp add: complex_of_simps(4))
qed

interpretation complex_powers: power_semantics complex_interp complex_of_real "\<lambda>l k e. variable_power_value e"
proof
  show "sound complex_interp"
    unfolding sound_def
  proof (intro conjI allI impI)
    fix e :: rat and j assume "0 < e"
    then have "int_power 0 (numerator e) = 0 \<or> denominator e \<noteq> 1"
      using quotient_parts [of e] by (auto simp: int_power_def)
    then show "pwr complex_interp (BConstant 0) e j = 0"
      by (auto simp: complex_interp_def power_value_def zero_scalar_def conj_if_def conj_scalar_def complex_of_def complex_eq_iff)
  qed (simp_all add: complex_interp_def complex_of_simps)
  show "pwr complex_interp (BConstant (Scalar q 0)) e j = complex_of_real (of_rat q powr of_rat e)" if "0 < q" for q e j
    using that by (simp add: complex_interp_def power_value_def)
  show "pwr complex_interp (BConstant c) (of_int n) j = scal complex_interp (conj_if j (int_power c n))" for c n j
  proof (cases "im c = 0 \<and> 0 < re c")
    case True
    then have "c = Scalar (re c) 0" by (cases c) simp
    then show ?thesis using True int_power_real [of "re c" j n] by (simp add: complex_interp_def power_value_def)
  next
    case False
    have "denominator (of_int n) = 1" "numerator (of_int n) = n" by (simp_all add: numerator_def denominator_def)
    then show ?thesis using False by (auto simp: complex_interp_def power_value_def)
  qed
qed (simp_all add: complex_interp_def variable_power_value_def power_value_def complex_of_simps of_rat_add powr_add)

text \<open>C35: rapid_simplify keeps the value of an expression in every ring in which powers behave as the code assumes;
  it ends on every expression without powers of positive rationals, with a result to which a further round does
  nothing.\<close>
theorem rapid_simplify_correct:
  assumes "power_semantics I emb vp"
  shows "(\<forall>e'. rapid_simplify est e = Some e' \<longrightarrow> val I e' = val I e)
    \<and> (quiet e \<longrightarrow> (\<exists>e'. rapid_simplify est e = Some e' \<and> quiet e' \<and> simplify_round est e' = (False, e')))"
proof -
  have "\<exists>e'. rapid_simplify est e = Some e' \<and> quiet e' \<and> simplify_round est e' = (False, e')" if q: "quiet e"
  proof -
    obtain e1 where e1: "visit_some (simplifier est) e = Some e1" "quiet e1"
      using visit_some_ends [of "simplifier est", OF _ q] simplifier_ends by blast
    obtain e' e0 where "simplifier est e1 = Some e'" "quiet e'" "simplify_round est e0 = (False, e')"
      using simplifier_ends [OF e1(2), of est] by auto
    then show ?thesis using e1(1) simplify_round_same [of est e0 e'] by (auto simp: rapid_simplify_def)
  qed
  then show ?thesis using power_semantics.val_rapid_simplify [OF assms] by blast
qed

lemma rapid_simplify_correct_witness:
  "\<exists>e'. rapid_simplify (\<lambda>n x. 0) (Product Plain 2 [Variable ''a'' False, Power (BVariable ''a'' False) (-1) False, Constant 3, Atom CHR ''x'']) = Some e' \<and> val complex_interp e' = 18"
proof -
  let ?e = "Product Plain 2 [Variable ''a'' False, Power (BVariable ''a'' False) (-1) False, Constant 3, Atom CHR ''x'']"
  note c = rapid_simplify_correct [OF complex_powers.power_semantics_axioms, of "\<lambda>n x. 0" ?e]
  have "complex_of 2 = 2" "complex_of 3 = 3"
    using complex_of_simps(1) [of 1 1] complex_of_simps(1) [of 2 1] complex_of_simps(3) by simp_all
  then have "val complex_interp ?e = 18"
    by (simp add: complex_interp_def power_value_def variable_power_value_def powr_minus)
  moreover have "quiet ?e" by simp
  ultimately show ?thesis using c by auto
qed

end
