(* ===== verification/WickEngine.thy ===== *)
theory WickEngine
  imports Expressions BitSets
begin

text \<open>
  SeQuant/core/wick.hpp: \<open>recursive_nontensor_wick\<close>, which visits the contractions of a sequence of normal
  operators by backtracking on one mutable state, and the metadata it keeps: connections between operators, partitions of
  equivalent operators, contracted pairs.  An ordinal is the position of an operator in the flattened sequence.
\<close>

section \<open>Operators, the input and the state\<close>

datatype action = Create | Annihilate

datatype 'i op = Op (index: 'i) (action: action)

datatype vacuum = Physical | SingleProduct | MultiProduct

datatype wick_error = NoOperators | BadOrdinal | UnknownOp | PartitionMismatch | PartitionUpdate | NoConnection
  | RepeatedContraction | MissingContraction | UncontractedOps | PartnersLeft | TooDeep

text \<open>
  The members of \<open>WickTheorem\<close> the recursion reads; \<open>may_contract\<close>, \<open>is_annihilator\<close> and \<open>contraction\<close> are
  \<open>can_contract\<close>, \<open>is_qpannihilator\<close> and \<open>contract\<close>.  Partitions of operators are numbered from 1, 0 is none.
\<close>

record ('i, 'a) wick_theorem =
  input :: "'i op list list"
  full_contractions :: bool
  use_topology :: bool
  fermionic :: bool
  vacuum_of :: vacuum
  spinfree :: bool
  nop_connections :: "32 word list"
  nop_nconnections_total :: nat
  nop_avoided_connections :: "32 word list"
  input_partner_indices :: "('i \<times> 'i) list"
  nop_npartitions :: nat
  nop_partition_idx :: "nat list"
  op_npartitions :: nat
  op_partitions :: "nat list list"
  op_partition_idx :: "nat list"
  op_to_input_ordinal :: "('i op \<times> nat) list"
  may_contract :: "'i op \<Rightarrow> 'i op \<Rightarrow> bool"
  is_annihilator :: "'i op \<Rightarrow> bool"
  contraction :: "'i op \<Rightarrow> 'i op \<Rightarrow> 'a expr"

text \<open>What a contraction adds to the result before \<open>reduce\<close>, \<open>canonicalize\<close> and \<open>normalize\<close>.\<close>

record ('i, 'a) wick_term =
  term_factors :: "'a factors"
  term_ops :: "'i op list list"
  term_partners :: "('i \<times> 'i) list"

record ('i, 'a) wick_state =
  nopseq :: "'i op list list"
  op_input_ordinals :: "nat list"
  nopseq_size :: nat
  sp :: "'a factors"
  sp_initial_size :: nat
  contractions :: "('i op \<times> 'i op) list"
  level :: int
  left_op_offset :: nat
  count_only :: bool
  counter :: nat
  connections :: "32 word list"
  nop_adjacency_matrix :: "nat list"
  nop_nconnections :: "nat list"
  nop_partitions :: "nat set list"
  op_partition_cdeg_matrix :: "nat list"
  op_partition_ncontractions :: "nat list"
  num_attempted :: nat
  num_useful :: nat
  result_terms :: "('i, 'a) wick_term list"

abbreviation "target_connections w \<equiv> (if vacuum_of w \<noteq> MultiProduct then nop_connections w else [])"

section \<open>Positions in the nested sequence\<close>

fun locate :: "'x list list \<Rightarrow> nat \<Rightarrow> (nat \<times> nat) option" where
  "locate [] p = None"
| "locate (xs # xss) p = (if p < length xs then Some (0, p) else map_option (apfst Suc) (locate xss (p - length xs)))"

definition erase_op :: "nat \<times> nat \<Rightarrow> 'x list list \<Rightarrow> 'x list list" where
  "erase_op c xss = xss[fst c := erase_at (snd c) (xss ! fst c)]"

definition insert_op :: "nat \<times> nat \<Rightarrow> 'x \<Rightarrow> 'x list list \<Rightarrow> 'x list list" where
  "insert_op c x xss = xss[fst c := insert_at (snd c) x (xss ! fst c)]"

definition ntri :: "nat \<Rightarrow> (wick_error, nat) result" where
  "ntri n = (if 0 < n then Inr (n * (n - 1) div 2) else Inl NoOperators)"

definition uptri_idx :: "nat \<Rightarrow> nat \<Rightarrow> nat \<Rightarrow> (wick_error, nat) result" where
  "uptri_idx i j n = (if i < j \<and> j < n then Inr (i * (2 * n - i - 1) div 2 + j - i - 1) else Inl BadOrdinal)"

section \<open>Updating the metadata\<close>

definition op_partition_pair :: "('i, 'a) wick_theorem \<Rightarrow> 'i op \<Rightarrow> 'i op \<Rightarrow> (wick_error, nat \<times> nat) result" where
  "op_partition_pair w op1 op2 =
     (case (map_of (op_to_input_ordinal w) op1, map_of (op_to_input_ordinal w) op2) of
        (Some ord1, Some ord2) \<Rightarrow>
          (let p1 = op_partition_idx w ! ord1; p2 = op_partition_idx w ! ord2
           in if 0 < p1 \<and> 0 < p2 \<and> ord1 < ord2 \<and> p1 < p2 then Inr (p1 - 1, p2 - 1) else Inl PartitionMismatch)
      | _ \<Rightarrow> Inl UnknownOp)"

text \<open>\<open>update_nop_metadata\<close> of \<open>connect\<close> and of \<open>disconnect\<close>.\<close>

definition join_nop :: "('i, 'a) wick_theorem \<Rightarrow> nat \<Rightarrow> ('i, 'a) wick_state \<Rightarrow> (wick_error, ('i, 'a) wick_state) result" where
  "join_nop w k s =
     (let p = nop_partition_idx w ! k;
          s' = s\<lparr>nop_nconnections := (nop_nconnections s)[k := Suc (nop_nconnections s ! k)]\<rparr>
      in if nop_partitions s \<noteq> [] \<and> nop_nconnections s ! k = 0 \<and> 0 < p
         then if k \<in> nop_partitions s ! (p - 1)
              then Inr (s'\<lparr>nop_partitions := (nop_partitions s)[p - 1 := nop_partitions s ! (p - 1) - {k}]\<rparr>)
              else Inl PartitionUpdate
         else Inr s')"

definition leave_nop :: "('i, 'a) wick_theorem \<Rightarrow> nat \<Rightarrow> ('i, 'a) wick_state \<Rightarrow> (wick_error, ('i, 'a) wick_state) result" where
  "leave_nop w k s =
     (let p = nop_partition_idx w ! k; c = nop_nconnections s ! k - 1;
          s' = s\<lparr>nop_nconnections := (nop_nconnections s)[k := c]\<rparr>
      in if nop_nconnections s ! k = 0 then Inl NoConnection
         else if nop_partitions s \<noteq> [] \<and> c = 0 \<and> 0 < p
         then if k \<notin> nop_partitions s ! (p - 1)
              then Inr (s'\<lparr>nop_partitions := (nop_partitions s)[p - 1 := insert k (nop_partitions s ! (p - 1))]\<rparr>)
              else Inl PartitionUpdate
         else Inr s')"

text \<open>\<open>update_op_metadata\<close>.\<close>

definition join_ops :: "('i, 'a) wick_theorem \<Rightarrow> 'i op \<Rightarrow> 'i op \<Rightarrow> ('i, 'a) wick_state \<Rightarrow> (wick_error, ('i, 'a) wick_state) result" where
  "join_ops w a b s =
     (if op_partition_idx w = [] then Inr s
      else bind_res (op_partition_pair w a b) (\<lambda>(i, j). bind_res (uptri_idx i j (op_npartitions w)) (\<lambda>u.
        let d = op_partition_cdeg_matrix s; n = op_partition_ncontractions s
        in if u < length d
           then Inr (s\<lparr>op_partition_cdeg_matrix := d[u := d ! u + 1],
                       op_partition_ncontractions := n[i := n ! i + 1, j := n[i := n ! i + 1] ! j + 1]\<rparr>)
           else Inl BadOrdinal)))"

definition leave_ops :: "('i, 'a) wick_theorem \<Rightarrow> 'i op \<Rightarrow> 'i op \<Rightarrow> ('i, 'a) wick_state \<Rightarrow> (wick_error, ('i, 'a) wick_state) result" where
  "leave_ops w a b s =
     (if op_partition_idx w = [] then Inr s
      else bind_res (op_partition_pair w a b) (\<lambda>(i, j). bind_res (uptri_idx i j (op_npartitions w)) (\<lambda>u.
        let d = op_partition_cdeg_matrix s; n = op_partition_ncontractions s
        in if \<not> u < length d then Inl BadOrdinal
           else if 0 < d ! u \<and> 0 < n ! i \<and> 0 < n ! j
           then Inr (s\<lparr>op_partition_cdeg_matrix := d[u := d ! u - 1],
                       op_partition_ncontractions := n[i := n ! i - 1, j := n[i := n ! i - 1] ! j - 1]\<rparr>)
           else Inl NoConnection)))"

definition register_contraction :: "'i op \<Rightarrow> 'i op \<Rightarrow> ('i, 'a) wick_state \<Rightarrow> (wick_error, ('i, 'a) wick_state) result" where
  "register_contraction a b s =
     (if (a, b) \<in> set (contractions s) then Inl RepeatedContraction else Inr (s\<lparr>contractions := contractions s @ [(a, b)]\<rparr>))"

definition unregister_contraction :: "'i op \<Rightarrow> 'i op \<Rightarrow> ('i, 'a) wick_state \<Rightarrow> (wick_error, ('i, 'a) wick_state) result" where
  "unregister_contraction a b s =
     (if (a, b) \<in> set (contractions s) then Inr (s\<lparr>contractions := remove1 (a, b) (contractions s)\<rparr>) else Inl MissingContraction)"

text \<open>How many connections of the operator are still required.\<close>

definition needs :: "('i, 'a) wick_theorem \<Rightarrow> 32 word list \<Rightarrow> nat \<Rightarrow> nat" where
  "needs w conn k = popcount (not (or (conn ! k) (target_connections w ! k)))"

definition link :: "nat \<Rightarrow> nat \<Rightarrow> 32 word list \<Rightarrow> 32 word list" where
  "link m n conn = (let c = conn[m := set_bit n (conn ! m)] in c[n := set_bit m (c ! n)])"

definition unlink :: "nat \<Rightarrow> nat \<Rightarrow> 32 word list \<Rightarrow> 32 word list" where
  "unlink m n conn = (let c = conn[m := unset_bit n (conn ! m)] in c[n := unset_bit m (c ! n)])"

definition join_all :: "('i, 'a) wick_theorem \<Rightarrow> nat \<Rightarrow> nat \<Rightarrow> 'i op \<Rightarrow> 'i op \<Rightarrow> ('i, 'a) wick_state
    \<Rightarrow> (wick_error, ('i, 'a) wick_state) result" where
  "join_all w m n a b s =
     bind_res (join_nop w m s) (\<lambda>s. bind_res (join_nop w n s) (\<lambda>s. bind_res (join_ops w a b s) (register_contraction a b)))"

definition connect :: "('i, 'a) wick_theorem \<Rightarrow> nat \<Rightarrow> nat \<Rightarrow> 'i op \<Rightarrow> 'i op \<Rightarrow> ('i, 'a) wick_state
    \<Rightarrow> (wick_error, bool \<times> ('i, 'a) wick_state) result" where
  "connect w m n a b s =
     (if nop_avoided_connections w \<noteq> [] \<and> \<not> bit (nop_avoided_connections w ! m) n then Inr (False, s)
      else if target_connections w = [] then bind_res (join_all w m n a b s) (\<lambda>s. Inr (True, s))
      else
        let linked = bit (connections s ! m) n;
            s1 = (if linked then s else s\<lparr>connections := link m n (connections s)\<rparr>);
            undone = (if linked then s1 else s1\<lparr>connections := unlink m n (connections s1)\<rparr>)
        in if length (nopseq s1 ! m) - 1 < needs w (connections s1) m then Inr (False, undone)
           else if length (nopseq s1 ! n) - 1 < needs w (connections s1) n then Inr (False, undone)
           else bind_res (uptri_idx m n (length (nopseq s1))) (\<lambda>u.
                  let adj = nop_adjacency_matrix s1
                  in bind_res (join_all w m n a b (s1\<lparr>nop_adjacency_matrix := adj[u := adj ! u + 1]\<rparr>)) (\<lambda>s. Inr (True, s))))"

definition leave_all :: "('i, 'a) wick_theorem \<Rightarrow> nat \<Rightarrow> nat \<Rightarrow> 'i op \<Rightarrow> 'i op \<Rightarrow> ('i, 'a) wick_state
    \<Rightarrow> (wick_error, ('i, 'a) wick_state) result" where
  "leave_all w m n a b s =
     bind_res (leave_nop w m s) (\<lambda>s. bind_res (leave_nop w n s) (\<lambda>s. bind_res (leave_ops w a b s) (unregister_contraction a b)))"

definition disconnect :: "('i, 'a) wick_theorem \<Rightarrow> nat \<Rightarrow> nat \<Rightarrow> 'i op \<Rightarrow> 'i op \<Rightarrow> ('i, 'a) wick_state
    \<Rightarrow> (wick_error, ('i, 'a) wick_state) result" where
  "disconnect w m n a b s =
     bind_res (leave_all w m n a b s) (\<lambda>s.
       if target_connections w = [] then Inr s
       else if \<not> bit (connections s ! m) n then Inl NoConnection
       else bind_res (uptri_idx m n (length (nopseq s))) (\<lambda>u.
         let adj = nop_adjacency_matrix s; c = adj ! u - 1
         in if adj ! u = 0 then Inl NoConnection
            else Inr (s\<lparr>nop_adjacency_matrix := adj[u := c], connections := (if c = 0 then unlink m n (connections s) else connections s)\<rparr>)))"

section \<open>Symmetry\<close>

definition position_in :: "nat list \<Rightarrow> nat \<Rightarrow> nat" where
  "position_in part x = length (takeWhile (\<lambda>y. y \<noteq> x) part)"

text \<open>\<open>is_topologically_unique\<close> for the input ordinals of the two operators; the normal operator weight is always 1.\<close>

definition is_topologically_unique ::
  "('i, 'a) wick_theorem \<Rightarrow> ('i, 'a) wick_state \<Rightarrow> nat \<Rightarrow> nat \<Rightarrow> (wick_error, bool) result" where
  "is_topologically_unique w s lo ro =
     (if \<not> use_topology w then Inr True
      else
        let l = op_partition_idx w ! lo - 1; r = op_partition_idx w ! ro - 1;
            n = op_partition_ncontractions s;
            first_left = (full_contractions w \<or> n ! l = position_in (op_partitions w ! l) lo);
            first_right = (n ! r = position_in (op_partitions w ! r) ro)
        in if first_left \<and> r + 1 < op_npartitions w
           then bind_res (uptri_idx l (r + 1) (op_npartitions w)) (\<lambda>u.
                  let past = take (op_npartitions w - (r + 1)) (drop u (op_partition_cdeg_matrix s))
                  in Inr (\<not> list_ex (\<lambda>x. 0 < x) past \<and> first_right))
           else Inr (first_left \<and> first_right))"

text \<open>\<open>op_permutational_degeneracy\<close>; \<open>factorial\<close> is \<open>fact\<close> (CoprimeBase).\<close>

fun pair_degeneracy :: "('i, 'a) wick_theorem \<Rightarrow> ('i, 'a) wick_state \<Rightarrow> nat \<Rightarrow> nat list \<Rightarrow> rat \<Rightarrow> (wick_error, rat) result" where
  "pair_degeneracy w s i [] v = Inr v"
| "pair_degeneracy w s i (j # js) v =
     bind_res (uptri_idx i j (op_npartitions w)) (\<lambda>u.
       let c = op_partition_cdeg_matrix s ! u in pair_degeneracy w s i js (if 1 < c then v / of_nat (fact c) else v))"

fun degeneracy :: "('i, 'a) wick_theorem \<Rightarrow> ('i, 'a) wick_state \<Rightarrow> nat list \<Rightarrow> rat \<Rightarrow> (wick_error, rat) result" where
  "degeneracy w s [] v = Inr v"
| "degeneracy w s (i # is) v =
     (let size = length (op_partitions w ! i); free = size - op_partition_ncontractions s ! i
      in if 1 < size
         then bind_res (pair_degeneracy w s i [i + 1..<op_npartitions w] (v * of_nat (fact size))) (\<lambda>v.
                if full_contractions w \<and> free \<noteq> 0 then Inl UncontractedOps
                else degeneracy w s is (if 1 < free then v / of_nat (fact free) else v))
         else degeneracy w s is v)"

definition op_permutational_degeneracy :: "('i, 'a) wick_theorem \<Rightarrow> ('i, 'a) wick_state \<Rightarrow> (wick_error, rat) result" where
  "op_permutational_degeneracy w s = degeneracy w s [0..<op_npartitions w] 1"

section \<open>Pairs of partner indices\<close>

definition find_pos :: "('x \<Rightarrow> bool) \<Rightarrow> 'x list \<Rightarrow> nat option" where
  "find_pos P xs = (if list_ex P xs then Some (length (takeWhile (Not \<circ> P) xs)) else None)"

definition merge_partners :: "('i \<times> 'i) list \<times> nat \<Rightarrow> 'i op \<times> 'i op \<Rightarrow> ('i \<times> 'i) list \<times> nat" where
  "merge_partners st ab =
     (let (ps, ncycles) = st; (a, b) = ab
      in case (find_pos (\<lambda>p. action a = Annihilate \<and> snd p = index a \<or> action b = Annihilate \<and> snd p = index b) ps,
               find_pos (\<lambda>p. action b = Create \<and> fst p = index b \<or> action a = Create \<and> fst p = index a) ps) of
           (Some i, Some j) \<Rightarrow>
             if i = j then (erase_at j ps, ncycles + 1)
             else if i < j then (erase_at j (ps[i := (fst (ps ! i), snd (ps ! j))]), ncycles)
             else (erase_at i (ps[j := (fst (ps ! i), snd (ps ! j))]), ncycles)
         | _ \<Rightarrow> (ps, ncycles))"

definition make_target_partner_indices :: "('i, 'a) wick_theorem \<Rightarrow> ('i, 'a) wick_state \<Rightarrow> ('i \<times> 'i) list \<times> nat" where
  "make_target_partner_indices w s = foldl merge_partners (input_partner_indices w, 0) (contractions s)"

section \<open>The recursion\<close>

text \<open>\<open>Product::scale\<close> by a rational.\<close>

definition scale_rat :: "'a factors \<Rightarrow> rat \<Rightarrow> 'a factors" where
  "scale_rat st q = (fst st * Scalar q 0, snd st)"

definition closed_shell :: "('i, 'a) wick_theorem \<Rightarrow> bool" where
  "closed_shell w \<longleftrightarrow> vacuum_of w = SingleProduct \<and> spinfree w"

definition make_term :: "('i, 'a) wick_theorem \<Rightarrow> ('i, 'a) wick_state \<Rightarrow> (wick_error, ('i, 'a) wick_term) result" where
  "make_term w s =
     bind_res (op_permutational_degeneracy w s) (\<lambda>v.
       let (partners, ncycles) = make_target_partner_indices w s
       in if full_contractions w
          then if fermionic w \<and> closed_shell w
               then if partners = []
                    then Inr \<lparr>term_factors = scale_rat (sp s) (v * 2 ^ ncycles), term_ops = nopseq s, term_partners = []\<rparr>
                    else Inl PartnersLeft
               else Inr \<lparr>term_factors = scale_rat (sp s) v, term_ops = nopseq s, term_partners = []\<rparr>
          else Inr \<lparr>term_factors = scale_rat (sp s) (if 0 < ncycles \<and> closed_shell w then v * 2 ^ ncycles else v),
                    term_ops = nopseq s, term_partners = partners\<rparr>)"

definition emit :: "('i, 'a) wick_theorem \<Rightarrow> ('i, 'a) wick_state \<Rightarrow> (wick_error, ('i, 'a) wick_state) result" where
  "emit w s =
     (if length (snd (sp s)) \<noteq> sp_initial_size s \<and> (\<not> full_contractions w \<or> nopseq_size s = 0)
      then if count_only s then Inr (s\<lparr>counter := counter s + 1, num_useful := num_useful s + 1\<rparr>)
           else bind_res (make_term w s) (\<lambda>t.
                  Inr (s\<lparr>result_terms := result_terms s @ [t], num_useful := num_useful s + 1\<rparr>))
      else Inr s)"

definition op_at :: "('i, 'a) wick_state \<Rightarrow> nat \<times> nat \<Rightarrow> 'i op" where
  "op_at s c = nopseq s ! fst c ! snd c"

definition phase_of :: "('i, 'a) wick_theorem \<Rightarrow> nat \<Rightarrow> nat \<Rightarrow> scalar" where
  "phase_of w l r = (if fermionic w \<and> odd (r - l - 1) then - 1 else 1)"

definition erase_pair ::
  "('i, 'a) wick_theorem \<Rightarrow> nat \<Rightarrow> nat \<Rightarrow> nat \<times> nat \<Rightarrow> nat \<times> nat \<Rightarrow> ('i, 'a) wick_state \<Rightarrow> ('i, 'a) wick_state" where
  "erase_pair w l r cl cr s =
     s\<lparr>sp := append_scaled Recursively (sp s) (phase_of w l r) (contraction w (op_at s cl) (op_at s cr)),
       num_attempted := num_attempted s + 1,
       nopseq := erase_op cl (erase_op cr (nopseq s)),
       op_input_ordinals := erase_at l (erase_at r (op_input_ordinals s)),
       nopseq_size := nopseq_size s - 2\<rparr>"

definition restore_pair ::
  "nat \<Rightarrow> nat \<Rightarrow> nat \<times> nat \<Rightarrow> nat \<times> nat \<Rightarrow> ('i, 'a) wick_state \<Rightarrow> ('i, 'a) wick_state \<Rightarrow> ('i, 'a) wick_state" where
  "restore_pair l r cl cr old s =
     s\<lparr>sp := sp old,
       nopseq := insert_op cr (op_at old cr) (insert_op cl (op_at old cl) (nopseq s)),
       op_input_ordinals := insert_at r (op_input_ordinals old ! r) (insert_at l (op_input_ordinals old ! l) (op_input_ordinals s)),
       nopseq_size := nopseq_size s + 2\<rparr>"

definition descend ::
  "(('i, 'a) wick_state \<Rightarrow> (wick_error, ('i, 'a) wick_state) result) \<Rightarrow> nat \<Rightarrow> ('i, 'a) wick_state
    \<Rightarrow> (wick_error, ('i, 'a) wick_state) result" where
  "descend rc l s =
     (if nopseq_size s = 0 then Inr s
      else bind_res (rc (s\<lparr>level := level s + 1, left_op_offset := l\<rparr>)) (\<lambda>s'.
        Inr (s'\<lparr>level := level s' - 1, num_useful := (if num_useful s' \<noteq> num_useful s then num_useful s' + 1 else num_useful s')\<rparr>)))"

text \<open>The body of the two loops for the operators at the ordinals \<open>l\<close> and \<open>r\<close>.\<close>

definition contract_ops ::
  "('i, 'a) wick_theorem \<Rightarrow> (('i, 'a) wick_state \<Rightarrow> (wick_error, ('i, 'a) wick_state) result) \<Rightarrow> nat \<Rightarrow> nat
    \<Rightarrow> ('i, 'a) wick_state \<Rightarrow> (wick_error, ('i, 'a) wick_state) result" where
  "contract_ops w rc l r s =
     (case (locate (nopseq s) l, locate (nopseq s) r) of
        (Some cl, Some cr) \<Rightarrow>
          (let a = op_at s cl; b = op_at s cr; lo = op_input_ordinals s ! l; ro = op_input_ordinals s ! r
           in if map_of (op_to_input_ordinal w) a \<noteq> Some lo \<or> map_of (op_to_input_ordinal w) b \<noteq> Some ro then Inl UnknownOp
              else if fst cl = fst cr \<or> \<not> may_contract w a b then Inr s
              else bind_res (is_topologically_unique w s lo ro) (\<lambda>unique.
                if \<not> unique then Inr s
                else bind_res (connect w (fst cl) (fst cr) a b s) (\<lambda>(ok, s1).
                  if \<not> ok then Inr s1
                  else bind_res (emit w (erase_pair w l r cl cr s1)) (\<lambda>s2.
                    bind_res (descend rc l s2) (\<lambda>s3.
                      disconnect w (fst cl) (fst cr) a b (restore_pair l r cl cr s1 s3))))))
      | _ \<Rightarrow> Inl BadOrdinal)"

text \<open>\<open>recursive_nontensor_wick\<close>; the first argument bounds the depth of the recursion.\<close>

primrec recursive_nontensor_wick ::
  "nat \<Rightarrow> ('i, 'a) wick_theorem \<Rightarrow> ('i, 'a) wick_state \<Rightarrow> (wick_error, ('i, 'a) wick_state) result" where
  "recursive_nontensor_wick 0 w s = Inl TooDeep"
| "recursive_nontensor_wick (Suc n) w s =
     (let ops = concat (nopseq s); l0 = left_op_offset s
      in if full_contractions w \<and> length ops \<le> l0 then Inl BadOrdinal
         else if full_contractions w \<and> \<not> is_annihilator w (ops ! l0) then Inr s
         else fold_res (\<lambda>s l. fold_res (\<lambda>s r. contract_ops w (recursive_nontensor_wick n w) l r s) s [Suc l..<length ops])
                s (if full_contractions w then [l0] else [l0..<length ops]))"

section \<open>Setting up\<close>

definition initial_partitions :: "('i, 'a) wick_theorem \<Rightarrow> nat set list" where
  "initial_partitions w = map (\<lambda>p. set (filter (\<lambda>k. nop_partition_idx w ! k = Suc p) [0..<length (nop_partition_idx w)])) [0..<nop_npartitions w]"

definition initial_state :: "('i, 'a) wick_theorem \<Rightarrow> bool \<Rightarrow> 'a factors \<Rightarrow> (wick_error, ('i, 'a) wick_state) result" where
  "initial_state w co pre =
     bind_res (ntri (length (input w))) (\<lambda>nadj. bind_res (ntri (op_npartitions w)) (\<lambda>ncdeg.
       let ops = concat (input w)
       in if list_ex ((=) {}) (initial_partitions w) then Inl PartitionMismatch
          else if list_ex (\<lambda>a. map_of (op_to_input_ordinal w) a = None) ops then Inl UnknownOp
          else Inr \<lparr>nopseq = input w, op_input_ordinals = map (\<lambda>a. the (map_of (op_to_input_ordinal w) a)) ops,
            nopseq_size = length ops, sp = pre, sp_initial_size = length (snd pre), contractions = [], level = 0, left_op_offset = 0,
            count_only = co, counter = 0, connections = replicate (length (input w)) 0,
            nop_adjacency_matrix = replicate nadj 0, nop_nconnections = replicate (length (input w)) 0,
            nop_partitions = initial_partitions w, op_partition_cdeg_matrix = replicate ncdeg 0,
            op_partition_ncontractions = replicate (op_npartitions w) 0, num_attempted = 0, num_useful = 0, result_terms = []\<rparr>))"

text \<open>\<open>compute_nontensor_wick\<close> up to the accumulation of the terms; the last one is the sequence itself.\<close>

definition compute_nontensor_wick :: "('i, 'a) wick_theorem \<Rightarrow> bool \<Rightarrow> 'a factors \<Rightarrow> (wick_error, ('i, 'a) wick_state) result" where
  "compute_nontensor_wick w co pre =
     bind_res (initial_state w co pre) (\<lambda>s. bind_res (recursive_nontensor_wick (Suc (length (concat (input w)))) w s) (\<lambda>s.
       if \<not> full_contractions w \<and> (nop_nconnections_total w = 0 \<or> vacuum_of w = MultiProduct)
       then if count_only s then Inr (s\<lparr>counter := counter s + 1\<rparr>)
            else Inr (s\<lparr>result_terms := result_terms s @ [\<lparr>term_factors = pre, term_ops = input w, term_partners = input_partner_indices w\<rparr>]\<rparr>)
       else Inr s))"

end
