(* ===== verification/WickMetadata.thy ===== *)
theory WickMetadata
  imports WickEngine Sorting
begin

text \<open>
  The state of the contraction engine (SeQuant/core/wick.hpp) as a function of the pairs contracted so far:
  \<open>connect\<close> and \<open>disconnect\<close> take one such state to another and never fail an assertion.
\<close>

section \<open>The nested sequence and its flat view\<close>

fun flat_from :: "nat \<Rightarrow> 'x list list \<Rightarrow> (nat \<times> 'x) list" where
  "flat_from k [] = []"
| "flat_from k (xs # xss) = map (Pair k) xs @ flat_from (Suc k) xss"

abbreviation "flat \<equiv> flat_from 0"

lemma map_snd_flat [simp]: "map snd (flat_from k xss) = concat xss"
  by (induction k xss rule: flat_from.induct) (simp_all add: comp_def)

lemma length_flat [simp]: "length (flat_from k xss) = length (concat xss)"
  by (metis length_map map_snd_flat)

lemma locate_flat:
  "p < length (concat xss) \<Longrightarrow> \<exists>r e. locate xss p = Some (r, e) \<and> r < length xss \<and> e < length (xss ! r)
     \<and> flat_from k xss ! p = (k + r, xss ! r ! e)"
proof (induction xss arbitrary: k p)
  case (Cons xs xss)
  show ?case
  proof (cases "p < length xs")
    case True
    then show ?thesis by (simp add: nth_append)
  next
    case False
    then have "p - length xs < length (concat xss)" using Cons.prems by simp
    from Cons.IH [OF this, of "Suc k"] show ?thesis using False by (auto simp: nth_append)
  qed
qed simp

lemma erase_at_Cons: "erase_at (Suc n) (x # xs) = x # erase_at n xs" "erase_at 0 (x # xs) = xs"
  by (simp_all add: erase_at_def)

lemma erase_at_append: "erase_at n (xs @ ys) = (if n < length xs then erase_at n xs @ ys else xs @ erase_at (n - length xs) ys)"
  by (auto simp: erase_at_def Suc_diff_le)

lemma erase_at_map: "erase_at n (map f xs) = map f (erase_at n xs)"
  by (simp add: erase_at_def take_map drop_map)

lemma insert_at_append: "insert_at n x (xs @ ys) = (if n < length xs then insert_at n x xs @ ys else xs @ insert_at (n - length xs) x ys)"
  by (simp add: insert_at_def)

lemma flat_erase:
  assumes "locate xss p = Some c"
  shows "flat_from k (erase_op c xss) = erase_at p (flat_from k xss)"
  using assms
proof (induction xss p arbitrary: k c rule: locate.induct)
  case (2 xs xss p)
  then show ?case by (auto simp: erase_op_def erase_at_append erase_at_map split: if_splits)
qed simp

lemma length_erase_op [simp]: "length (erase_op c xss) = length xss"
  by (simp add: erase_op_def)

lemma length_insert_op [simp]: "length (insert_op c x xss) = length xss"
  by (simp add: insert_op_def)

lemma insert_erase_at: "n < length xs \<Longrightarrow> insert_at n (xs ! n) (erase_at n xs) = xs"
  by (simp add: insert_at_def erase_at_def id_take_nth_drop [symmetric] min_def)

lemma insert_erase_op:
  assumes "r < length xss" "e < length (xss ! r)"
  shows "insert_op (r, e) (xss ! r ! e) (erase_op (r, e) xss) = xss"
  using assms by (simp add: insert_op_def erase_op_def insert_erase_at)

text \<open>Two operators in different inner lists are erased and restored independently.\<close>

lemma restore_two:
  assumes "r1 < length xss" "e1 < length (xss ! r1)" "r2 < length xss" "e2 < length (xss ! r2)" "r1 \<noteq> r2"
  shows "insert_op (r2, e2) (xss ! r2 ! e2) (insert_op (r1, e1) (xss ! r1 ! e1) (erase_op (r1, e1) (erase_op (r2, e2) xss))) = xss"
proof -
  have "erase_op (r2, e2) xss ! r1 = xss ! r1" using assms by (simp add: erase_op_def)
  then have "insert_op (r1, e1) (xss ! r1 ! e1) (erase_op (r1, e1) (erase_op (r2, e2) xss)) = erase_op (r2, e2) xss"
    using insert_erase_op [of r1 "erase_op (r2, e2) xss" e1] assms by simp
  then show ?thesis using insert_erase_op [of r2 xss e2] assms by simp
qed

lemma locate_erase:
  assumes "locate xss l = Some cl" "locate xss r = Some cr" "l < r" "fst cl \<noteq> fst cr"
  shows "locate (erase_op cr xss) l = Some cl"
  using assms
proof (induction xss l arbitrary: r cl cr rule: locate.induct)
  case (2 xs xss l)
  show ?case
  proof (cases "l < length xs")
    case True
    then show ?thesis using 2 by (auto simp: erase_op_def split: if_splits nat.splits)
  next
    case False
    then have "\<not> r < length xs" using 2(4) by simp
    then obtain cl' cr' where "locate xss (l - length xs) = Some cl'" "cl = apfst Suc cl'"
      "locate xss (r - length xs) = Some cr'" "cr = apfst Suc cr'"
      using 2(2,3) False by (auto split: if_splits)
    then show ?thesis using 2(1) [OF False] 2(4,5) False by (auto simp: erase_op_def)
  qed
qed simp

text \<open>The flat view determines the nested list.\<close>

lemma nested_of_flat: "xss = map (\<lambda>j. map snd (filter (\<lambda>y. fst y = k + j) (flat_from k xss))) [0..<length xss]"
proof (induction xss arbitrary: k)
  case (Cons xs xss)
  have none: "filter (\<lambda>y. fst y = k) (flat_from (Suc k) xss) = []" for xss :: "'a list list"
  proof -
    have "\<forall>y\<in>set (flat_from j xss). j \<le> fst y" for j and xss :: "'a list list"
      by (induction j xss rule: flat_from.induct) fastforce+
    then show ?thesis by (fastforce simp: filter_empty_conv)
  qed
  have "map (\<lambda>j. map snd (filter (\<lambda>y. fst y = k + j) (flat_from k (xs # xss)))) [0..<length (xs # xss)]
      = map snd (filter (\<lambda>y. fst y = k) (flat_from k (xs # xss)))
        # map (\<lambda>j. map snd (filter (\<lambda>y. fst y = k + Suc j) (flat_from k (xs # xss)))) [0..<length xss]"
    by (simp only: length_Cons upt_conv_Cons map_Suc_upt [symmetric] zero_less_Suc list.map map_map comp_def add_0_right)
  moreover have "map snd (filter (\<lambda>y. fst y = k) (flat_from k (xs # xss))) = xs"
    using none by (simp add: filter_map comp_def)
  moreover have "filter (\<lambda>y. fst y = k + Suc j) (flat_from k (xs # xss)) = filter (\<lambda>y. fst y = Suc k + j) (flat_from (Suc k) xss)" for j
    by (simp add: filter_map comp_def)
  ultimately show ?case using Cons.IH [of "Suc k"] by simp
qed simp

section \<open>The triangle of pairs\<close>

lemma uptri_row: "(i :: nat) < n \<Longrightarrow> i * (2 * n - i - 1) div 2 + (n - i - 1) = Suc i * (2 * n - Suc i - 1) div 2"
proof -
  assume "i < n"
  then obtain d where n: "n = i + Suc d" using less_imp_Suc_add by auto
  have "Suc i * (2 * n - Suc i - 1) = i * (2 * n - i - 1) + 2 * (n - i - 1)"
    unfolding n by (simp add: algebra_simps)
  then show ?thesis by simp
qed

lemma uptri_row_le: "(i :: nat) \<le> j \<Longrightarrow> j \<le> n \<Longrightarrow> i * (2 * n - i - 1) div 2 \<le> j * (2 * n - j - 1) div 2"
proof (induction j)
  case (Suc j)
  show ?case
  proof (cases "i = Suc j")
    case False
    then have "i * (2 * n - i - 1) div 2 \<le> j * (2 * n - j - 1) div 2" using Suc by simp
    then show ?thesis using uptri_row [of j n] Suc.prems by linarith
  qed simp
qed simp

definition tri :: "nat \<Rightarrow> nat \<Rightarrow> nat \<Rightarrow> nat" where
  "tri n i j = i * (2 * n - i - 1) div 2 + j - i - 1"

lemma uptri_idx_tri: "i < j \<Longrightarrow> j < n \<Longrightarrow> uptri_idx i j n = Inr (tri n i j)"
  by (simp add: uptri_idx_def tri_def)

lemma tri_row:
  assumes "i < j" "j < n"
  shows "tri n i j < Suc i * (2 * n - Suc i - 1) div 2"
proof -
  have "x + j - i - 1 < x + (n - i - 1)" for x using assms by linarith
  moreover have "i < n" using assms by simp
  ultimately show ?thesis unfolding tri_def uptri_row [OF \<open>i < n\<close>, symmetric] by blast
qed

lemma tri_bound:
  assumes "i < j" "j < n"
  shows "tri n i j < n * (n - 1) div 2"
proof -
  have "tri n i j < Suc i * (2 * n - Suc i - 1) div 2" by (rule tri_row [OF assms])
  also have "\<dots> \<le> n * (2 * n - n - 1) div 2" using assms by (intro uptri_row_le) auto
  finally show ?thesis by (simp add: mult_2)
qed

lemma tri_inj:
  assumes "i < j" "j < n" "i' < j'" "j' < n" "tri n i j = tri n i' j'"
  shows "i = i' \<and> j = j'"
proof -
  have less: "tri n a b < tri n a' b'" if "a < a'" "a < b" "b < n" "a' < b'" "b' < n" for a b a' b'
  proof -
    have "tri n a b < Suc a * (2 * n - Suc a - 1) div 2" using that by (intro tri_row)
    also have "\<dots> \<le> a' * (2 * n - a' - 1) div 2" using that by (intro uptri_row_le) auto
    also have "\<dots> \<le> tri n a' b'" using that by (simp add: tri_def)
    finally show ?thesis .
  qed
  have "i = i'" using less [of i i' j j'] less [of i' i j' j] assms by (cases i i' rule: linorder_cases) auto
  then show ?thesis using assms by (simp add: tri_def)
qed

section \<open>Counts of a list of contractions\<close>

abbreviation all_ops :: "('i, 'a) wick_theorem \<Rightarrow> 'i op list" where
  "all_ops w \<equiv> concat (input w)"

abbreviation nops :: "('i, 'a) wick_theorem \<Rightarrow> nat" where
  "nops w \<equiv> length (all_ops w)"

definition nop_of :: "('i, 'a) wick_theorem \<Rightarrow> nat \<Rightarrow> nat" where
  "nop_of w i = fst (flat (input w) ! i)"

type_synonym pairing = "(nat \<times> nat) list"

definition used :: "pairing \<Rightarrow> nat set" where
  "used ps = fst ` set ps \<union> snd ` set ps"

definition rest :: "('i, 'a) wick_theorem \<Rightarrow> pairing \<Rightarrow> nat list" where
  "rest w ps = filter (\<lambda>i. i \<notin> used ps) [0..<nops w]"

text \<open>Contractions of a normal operator, between two of them, and between two partitions of one operator each.\<close>

definition touches :: "('i, 'a) wick_theorem \<Rightarrow> pairing \<Rightarrow> nat \<Rightarrow> nat" where
  "touches w ps k = length (filter (\<lambda>(l, r). nop_of w l = k \<or> nop_of w r = k) ps)"

definition joined :: "('i, 'a) wick_theorem \<Rightarrow> pairing \<Rightarrow> nat \<Rightarrow> nat \<Rightarrow> nat" where
  "joined w ps j k = length (filter (\<lambda>(l, r). {nop_of w l, nop_of w r} = {j, k}) ps)"

definition symmetric_mask :: "nat \<Rightarrow> 32 word list \<Rightarrow> bool" where
  "symmetric_mask n c \<longleftrightarrow> c = [] \<or> length c = n \<and> (\<forall>j<n. \<forall>k<n. bit (c ! j) k = bit (c ! k) j)"

text \<open>Distinct operators, each equivalent to none but itself, which is what \<open>make_default_op_partitions\<close> sets up.\<close>

definition plain :: "('i, 'a) wick_theorem \<Rightarrow> bool" where
  "plain w \<longleftrightarrow> 0 < nops w \<and> length (input w) \<le> 32 \<and> distinct (all_ops w)
     \<and> op_to_input_ordinal w = zip (all_ops w) [0..<nops w]
     \<and> op_npartitions w = nops w \<and> op_partitions w = map (\<lambda>i. [i]) [0..<nops w] \<and> op_partition_idx w = map Suc [0..<nops w]
     \<and> symmetric_mask (length (input w)) (nop_connections w) \<and> symmetric_mask (length (input w)) (nop_avoided_connections w)
     \<and> length (nop_partition_idx w) = length (input w) \<and> (\<forall>p\<in>set (nop_partition_idx w). p \<le> nop_npartitions w)
     \<and> (\<forall>p<nop_npartitions w. Suc p \<in> set (nop_partition_idx w))"

lemma plain_lookup:
  assumes "plain w" "i < nops w"
  shows "map_of (op_to_input_ordinal w) (all_ops w ! i) = Some i"
proof -
  have "map_of (zip (all_ops w) [0..<nops w]) (all_ops w ! i) = Some ([0..<nops w] ! i)"
    using assms by (intro map_of_zip_nth) (auto simp: plain_def)
  then show ?thesis using assms by (simp add: plain_def)
qed

lemma flat_ordered: "i < j \<Longrightarrow> j < length (concat xss) \<Longrightarrow> fst (flat_from k xss ! i) \<le> fst (flat_from k xss ! j)"
proof (induction k xss arbitrary: i j rule: flat_from.induct)
  case (2 k xs xss)
  have "Suc k \<le> fst (flat_from (Suc k) xss ! p)" if "p < length (concat xss)" for p
    using locate_flat [OF that, of "Suc k"] by auto
  then show ?case using 2 by (auto simp: nth_append intro: Suc_leD)
qed simp

lemma nop_of_mono: "l < r \<Longrightarrow> r < nops w \<Longrightarrow> nop_of w l \<le> nop_of w r"
  unfolding nop_of_def by (rule flat_ordered)

lemma nop_of_less: "i < nops w \<Longrightarrow> nop_of w i < length (input w)"
  using locate_flat [of i "input w" 0] by (auto simp: nop_of_def)

section \<open>Metadata of operators and partitions\<close>

definition nop_meta :: "('i, 'a) wick_theorem \<Rightarrow> (nat \<Rightarrow> nat) \<Rightarrow> ('i, 'a) wick_state \<Rightarrow> bool" where
  "nop_meta w f s \<longleftrightarrow> nop_nconnections s = map f [0..<length (input w)]
     \<and> nop_partitions s = map (\<lambda>p. {k. k < length (input w) \<and> nop_partition_idx w ! k = Suc p \<and> f k = 0}) [0..<nop_npartitions w]"

definition op_meta :: "('i, 'a) wick_theorem \<Rightarrow> (nat \<Rightarrow> nat \<Rightarrow> nat) \<Rightarrow> (nat \<Rightarrow> nat) \<Rightarrow> ('i, 'a) wick_state \<Rightarrow> bool" where
  "op_meta w g h s \<longleftrightarrow> length (op_partition_cdeg_matrix s) = nops w * (nops w - 1) div 2
     \<and> (\<forall>i j. i < j \<longrightarrow> j < nops w \<longrightarrow> op_partition_cdeg_matrix s ! tri (nops w) i j = g i j)
     \<and> op_partition_ncontractions s = map h [0..<nops w]"

definition link_meta :: "('i, 'a) wick_theorem \<Rightarrow> (nat \<Rightarrow> nat \<Rightarrow> nat) \<Rightarrow> ('i, 'a) wick_state \<Rightarrow> bool" where
  "link_meta w t s \<longleftrightarrow> target_connections w = [] \<or>
     length (connections s) = length (input w) \<and> (\<forall>j<length (input w). \<forall>k. bit (connections s ! j) k \<longleftrightarrow> 0 < t j k)
     \<and> length (nop_adjacency_matrix s) = length (input w) * (length (input w) - 1) div 2
     \<and> (\<forall>j k. j < k \<longrightarrow> k < length (input w) \<longrightarrow> nop_adjacency_matrix s ! tri (length (input w)) j k = t j k)"

abbreviation bump :: "(nat \<Rightarrow> nat) \<Rightarrow> nat \<Rightarrow> nat \<Rightarrow> nat" where
  "bump f k \<equiv> f(k := Suc (f k))"

abbreviation bump2 :: "(nat \<Rightarrow> nat \<Rightarrow> nat) \<Rightarrow> nat \<Rightarrow> nat \<Rightarrow> nat \<Rightarrow> nat \<Rightarrow> nat" where
  "bump2 g i j \<equiv> g(i := bump (g i) j)"

lemma map_upt_update: "k < n \<Longrightarrow> (map f [0..<n])[k := v] = map (f(k := v)) [0..<n]"
  by (rule nth_equalityI) (auto simp: nth_list_update)

lemma join_nop_meta:
  assumes "plain w" "nop_meta w f s" "k < length (input w)"
  shows "\<exists>a b. join_nop w k s = Inr (s\<lparr>nop_nconnections := a, nop_partitions := b\<rparr>)
    \<and> nop_meta w (bump f k) (s\<lparr>nop_nconnections := a, nop_partitions := b\<rparr>)"
proof -
  define p where "p = nop_partition_idx w ! k"
  have n: "nop_nconnections s ! k = f k" "nop_nconnections s = map f [0..<length (input w)]"
    using assms(2,3) by (simp_all add: nop_meta_def)
  have parts: "nop_partitions s = map (\<lambda>p. {k. k < length (input w) \<and> nop_partition_idx w ! k = Suc p \<and> f k = 0}) [0..<nop_npartitions w]"
    using assms(2) by (simp add: nop_meta_def)
  have p: "p \<le> nop_npartitions w" using assms(1,3) by (auto simp: plain_def p_def)
  let ?parts = "map (\<lambda>p. {i. i < length (input w) \<and> nop_partition_idx w ! i = Suc p \<and> bump f k i = 0}) [0..<nop_npartitions w]"
  have nc: "(nop_nconnections s)[k := Suc (f k)] = map (bump f k) [0..<length (input w)]"
    unfolding n(2) by (rule map_upt_update [OF assms(3)])
  have meta: "nop_meta w (bump f k) (s\<lparr>nop_nconnections := map (bump f k) [0..<length (input w)], nop_partitions := ?parts\<rparr>)"
    by (simp add: nop_meta_def)
  show ?thesis
  proof (cases "nop_partitions s \<noteq> [] \<and> f k = 0 \<and> 0 < p")
    case True
    have q: "p - 1 < nop_npartitions w" using True p by (cases p) auto
    have mem: "k \<in> nop_partitions s ! (p - 1)" using True q assms(3) by (simp add: parts p_def)
    have upd: "(nop_partitions s)[p - 1 := nop_partitions s ! (p - 1) - {k}] = ?parts"
      using True q by (intro nth_equalityI) (auto simp: parts nth_list_update p_def)
    have "join_nop w k s = Inr (s\<lparr>nop_nconnections := map (bump f k) [0..<length (input w)], nop_partitions := ?parts\<rparr>)"
      unfolding join_nop_def Let_def p_def [symmetric] n(1) nc upd using True mem by simp
    then show ?thesis using meta by blast
  next
    case False
    have "nop_partitions s = ?parts"
    proof (cases "f k = 0 \<and> nop_partitions s \<noteq> []")
      case True
      then have "p = 0" using False by simp
      then show ?thesis using True by (auto simp: parts p_def)
    qed (auto simp: parts)
    then have same: "s\<lparr>nop_partitions := ?parts\<rparr> = s" by simp
    have "join_nop w k s = Inr (s\<lparr>nop_nconnections := map (bump f k) [0..<length (input w)]\<rparr>)"
      unfolding join_nop_def Let_def p_def [symmetric] n(1) nc using False by auto
    also have "\<dots> = Inr (s\<lparr>nop_partitions := ?parts\<rparr>\<lparr>nop_nconnections := map (bump f k) [0..<length (input w)]\<rparr>)"
      unfolding same ..
    also have "\<dots> = Inr (s\<lparr>nop_nconnections := map (bump f k) [0..<length (input w)], nop_partitions := ?parts\<rparr>)" by simp
    finally show ?thesis using meta by blast
  qed
qed

lemma leave_nop_meta:
  assumes "plain w" "nop_meta w (bump f k) s" "k < length (input w)"
  shows "\<exists>a b. leave_nop w k s = Inr (s\<lparr>nop_nconnections := a, nop_partitions := b\<rparr>)
    \<and> nop_meta w f (s\<lparr>nop_nconnections := a, nop_partitions := b\<rparr>)"
proof -
  define p where "p = nop_partition_idx w ! k"
  have n: "nop_nconnections s ! k = Suc (f k)" "nop_nconnections s = map (bump f k) [0..<length (input w)]"
    using assms(2,3) by (simp_all add: nop_meta_def)
  have parts: "nop_partitions s = map (\<lambda>p. {i. i < length (input w) \<and> nop_partition_idx w ! i = Suc p \<and> bump f k i = 0}) [0..<nop_npartitions w]"
    using assms(2) by (simp add: nop_meta_def)
  have p: "p \<le> nop_npartitions w" using assms(1,3) by (auto simp: plain_def p_def)
  have f: "(bump f k)(k := f k) = f" by auto
  let ?parts = "map (\<lambda>p. {i. i < length (input w) \<and> nop_partition_idx w ! i = Suc p \<and> f i = 0}) [0..<nop_npartitions w]"
  have nc: "(nop_nconnections s)[k := f k] = map f [0..<length (input w)]"
    unfolding n(2) map_upt_update [OF assms(3)] f ..
  have meta: "nop_meta w f (s\<lparr>nop_nconnections := map f [0..<length (input w)], nop_partitions := ?parts\<rparr>)"
    by (simp add: nop_meta_def)
  show ?thesis
  proof (cases "nop_partitions s \<noteq> [] \<and> f k = 0 \<and> 0 < p")
    case True
    have q: "p - 1 < nop_npartitions w" using True p by (cases p) auto
    have mem: "k \<notin> nop_partitions s ! (p - 1)" using True q assms(3) by (simp add: parts p_def)
    have upd: "(nop_partitions s)[p - 1 := insert k (nop_partitions s ! (p - 1))] = ?parts"
      using True q assms(3) by (intro nth_equalityI) (auto simp: parts nth_list_update p_def)
    have "leave_nop w k s = Inr (s\<lparr>nop_nconnections := map f [0..<length (input w)], nop_partitions := ?parts\<rparr>)"
      unfolding leave_nop_def Let_def p_def [symmetric] n(1) diff_Suc_1 nc upd using True mem by simp
    then show ?thesis using meta by blast
  next
    case False
    have "nop_partitions s = ?parts"
    proof (cases "f k = 0 \<and> nop_partitions s \<noteq> []")
      case True
      then have "p = 0" using False by simp
      then show ?thesis using True by (auto simp: parts p_def)
    qed (auto simp: parts)
    then have same: "s\<lparr>nop_partitions := ?parts\<rparr> = s" by simp
    have "leave_nop w k s = Inr (s\<lparr>nop_nconnections := map f [0..<length (input w)]\<rparr>)"
      unfolding leave_nop_def Let_def p_def [symmetric] n(1) diff_Suc_1 nc using False by auto
    also have "\<dots> = Inr (s\<lparr>nop_partitions := ?parts\<rparr>\<lparr>nop_nconnections := map f [0..<length (input w)]\<rparr>)"
      unfolding same ..
    also have "\<dots> = Inr (s\<lparr>nop_nconnections := map f [0..<length (input w)], nop_partitions := ?parts\<rparr>)" by simp
    finally show ?thesis using meta by blast
  qed
qed

lemma op_partition_pair_plain:
  assumes "plain w" "l < r" "r < nops w"
  shows "op_partition_pair w (all_ops w ! l) (all_ops w ! r) = Inr (l, r)"
proof -
  have "op_partition_idx w ! l = Suc l" "op_partition_idx w ! r = Suc r" using assms by (simp_all add: plain_def)
  then show ?thesis using assms plain_lookup [OF assms(1), of l] plain_lookup [OF assms(1), of r]
    by (simp add: op_partition_pair_def)
qed

lemma join_ops_meta:
  assumes "plain w" "op_meta w g h s" "l < r" "r < nops w"
  shows "\<exists>a b. join_ops w (all_ops w ! l) (all_ops w ! r) s = Inr (s\<lparr>op_partition_cdeg_matrix := a, op_partition_ncontractions := b\<rparr>)
    \<and> op_meta w (bump2 g l r) (bump (bump h l) r) (s\<lparr>op_partition_cdeg_matrix := a, op_partition_ncontractions := b\<rparr>)"
proof -
  let ?d = "op_partition_cdeg_matrix s" and ?u = "tri (nops w) l r"
  have ne: "op_partition_idx w \<noteq> []" "op_npartitions w = nops w" using assms(1) by (auto simp: plain_def)
  have u: "?u < length ?d" using tri_bound [OF assms(3,4)] assms(2) by (simp add: op_meta_def)
  have d: "?d[?u := ?d ! ?u + 1] ! tri (nops w) i j = bump2 g l r i j" if "i < j" "j < nops w" for i j
    using tri_inj [OF that assms(3,4)] that assms(2-4) u by (auto simp: op_meta_def nth_list_update)
  have n: "op_partition_ncontractions s = map h [0..<nops w]" using assms(2) by (simp add: op_meta_def)
  have h: "(op_partition_ncontractions s)[l := op_partition_ncontractions s ! l + 1,
      r := (op_partition_ncontractions s)[l := op_partition_ncontractions s ! l + 1] ! r + 1] = map (bump (bump h l) r) [0..<nops w]"
    using assms(3,4) unfolding n by (intro nth_equalityI) (auto simp: nth_list_update)
  let ?s = "s\<lparr>op_partition_cdeg_matrix := ?d[?u := ?d ! ?u + 1], op_partition_ncontractions := map (bump (bump h l) r) [0..<nops w]\<rparr>"
  have "join_ops w (all_ops w ! l) (all_ops w ! r) s = Inr ?s"
    unfolding join_ops_def op_partition_pair_plain [OF assms(1,3,4)] bind_res_simps prod.case ne(2) uptri_idx_tri [OF assms(3,4)] Let_def h
    using ne(1) u by simp
  moreover have "op_meta w (bump2 g l r) (bump (bump h l) r) ?s"
    using d assms(2) unfolding op_meta_def by simp
  ultimately show ?thesis by blast
qed

lemma leave_ops_meta:
  assumes "plain w" "op_meta w (bump2 g l r) (bump (bump h l) r) s" "l < r" "r < nops w"
  shows "\<exists>a b. leave_ops w (all_ops w ! l) (all_ops w ! r) s = Inr (s\<lparr>op_partition_cdeg_matrix := a, op_partition_ncontractions := b\<rparr>)
    \<and> op_meta w g h (s\<lparr>op_partition_cdeg_matrix := a, op_partition_ncontractions := b\<rparr>)"
proof -
  let ?d = "op_partition_cdeg_matrix s" and ?u = "tri (nops w) l r"
  have ne: "op_partition_idx w \<noteq> []" "op_npartitions w = nops w" using assms(1) by (auto simp: plain_def)
  have u: "?u < length ?d" using tri_bound [OF assms(3,4)] assms(2) by (simp add: op_meta_def)
  have du: "?d ! ?u = Suc (g l r)" using assms(2-4) by (simp add: op_meta_def)
  have d: "?d[?u := g l r] ! tri (nops w) i j = g i j" if "i < j" "j < nops w" for i j
    using tri_inj [OF that assms(3,4)] that assms(2-4) u by (auto simp: op_meta_def nth_list_update split: if_splits)
  have n: "op_partition_ncontractions s = map (bump (bump h l) r) [0..<nops w]" using assms(2) by (simp add: op_meta_def)
  have h: "(map (bump (bump h l) r) [0..<nops w])[l := h l, r := h r] = map h [0..<nops w]"
    using assms(3,4) by (intro nth_equalityI) (auto simp: nth_list_update)
  have n2: "(op_partition_ncontractions s)[l := op_partition_ncontractions s ! l - 1,
      r := (op_partition_ncontractions s)[l := op_partition_ncontractions s ! l - 1] ! r - 1] = map h [0..<nops w]"
    using assms(3,4) unfolding n by (intro nth_equalityI) (auto simp: nth_list_update)
  have pos: "0 < op_partition_ncontractions s ! l" "0 < op_partition_ncontractions s ! r" using assms(3,4) by (simp_all add: n)
  let ?s = "s\<lparr>op_partition_cdeg_matrix := ?d[?u := g l r], op_partition_ncontractions := map h [0..<nops w]\<rparr>"
  have "leave_ops w (all_ops w ! l) (all_ops w ! r) s = Inr ?s"
    unfolding leave_ops_def op_partition_pair_plain [OF assms(1,3,4)] bind_res_simps prod.case ne(2) uptri_idx_tri [OF assms(3,4)] Let_def n2
    using ne(1) u du pos by simp
  moreover have "op_meta w g h ?s"
    using d assms(2) unfolding op_meta_def by simp
  ultimately show ?thesis by blast
qed

definition meta :: "('i, 'a) wick_theorem \<Rightarrow> (nat \<Rightarrow> nat) \<Rightarrow> (nat \<Rightarrow> nat \<Rightarrow> nat) \<Rightarrow> (nat \<Rightarrow> nat) \<Rightarrow> ('i op \<times> 'i op) list
    \<Rightarrow> ('i, 'a) wick_state \<Rightarrow> bool" where
  "meta w f g h c s \<longleftrightarrow> nop_meta w f s \<and> op_meta w g h s \<and> contractions s = c"

text \<open>The fields that the metadata updates write.\<close>

definition same_but_meta :: "('i, 'a) wick_state \<Rightarrow> ('i, 'a) wick_state \<Rightarrow> bool" where
  "same_but_meta s s' \<longleftrightarrow> (\<exists>a b c d e. s' = s\<lparr>contractions := a, nop_nconnections := b, nop_partitions := c,
     op_partition_cdeg_matrix := d, op_partition_ncontractions := e\<rparr>)"

lemma nop_meta_cong:
  "nop_nconnections s = nop_nconnections s' \<Longrightarrow> nop_partitions s = nop_partitions s' \<Longrightarrow> nop_meta w f s = nop_meta w f s'"
  by (simp add: nop_meta_def)

lemma op_meta_cong:
  "op_partition_cdeg_matrix s = op_partition_cdeg_matrix s' \<Longrightarrow> op_partition_ncontractions s = op_partition_ncontractions s'
    \<Longrightarrow> op_meta w g h s = op_meta w g h s'"
  by (simp add: op_meta_def)

lemma join_all_meta:
  assumes "plain w" "meta w f g h c s" "l < r" "r < nops w" "m < length (input w)" "n < length (input w)"
    "(all_ops w ! l, all_ops w ! r) \<notin> set c"
  shows "\<exists>s'. join_all w m n (all_ops w ! l) (all_ops w ! r) s = Inr s' \<and> same_but_meta s s'
    \<and> meta w (bump (bump f m) n) (bump2 g l r) (bump (bump h l) r) (c @ [(all_ops w ! l, all_ops w ! r)]) s'"
proof -
  have M: "nop_meta w f s" "op_meta w g h s" "contractions s = c" using assms(2) by (auto simp: meta_def)
  obtain a b where j1: "join_nop w m s = Inr (s\<lparr>nop_nconnections := a, nop_partitions := b\<rparr>)"
    "nop_meta w (bump f m) (s\<lparr>nop_nconnections := a, nop_partitions := b\<rparr>)"
    using join_nop_meta [OF assms(1) M(1) assms(5)] by blast
  let ?s1 = "s\<lparr>nop_nconnections := a, nop_partitions := b\<rparr>"
  obtain a2 b2 where j2: "join_nop w n ?s1 = Inr (?s1\<lparr>nop_nconnections := a2, nop_partitions := b2\<rparr>)"
    "nop_meta w (bump (bump f m) n) (?s1\<lparr>nop_nconnections := a2, nop_partitions := b2\<rparr>)"
    using join_nop_meta [OF assms(1) j1(2) assms(6)] by blast
  let ?s2 = "?s1\<lparr>nop_nconnections := a2, nop_partitions := b2\<rparr>"
  have "op_meta w g h ?s2" using M(2) op_meta_cong [of ?s2 s] by simp
  then obtain d e where j3: "join_ops w (all_ops w ! l) (all_ops w ! r) ?s2
        = Inr (?s2\<lparr>op_partition_cdeg_matrix := d, op_partition_ncontractions := e\<rparr>)"
    "op_meta w (bump2 g l r) (bump (bump h l) r) (?s2\<lparr>op_partition_cdeg_matrix := d, op_partition_ncontractions := e\<rparr>)"
    using join_ops_meta [OF assms(1) _ assms(3,4)] by blast
  let ?s3 = "?s2\<lparr>op_partition_cdeg_matrix := d, op_partition_ncontractions := e\<rparr>"
  let ?s4 = "?s3\<lparr>contractions := c @ [(all_ops w ! l, all_ops w ! r)]\<rparr>"
  have "register_contraction (all_ops w ! l) (all_ops w ! r) ?s3 = Inr ?s4"
    using assms(7) M(3) by (simp add: register_contraction_def)
  moreover have "nop_meta w (bump (bump f m) n) ?s4" using j2(2) nop_meta_cong [of ?s4 ?s2] by simp
  moreover have "op_meta w (bump2 g l r) (bump (bump h l) r) ?s4" using j3(2) op_meta_cong [of ?s4 ?s3] by simp
  moreover have "same_but_meta s ?s4"
    unfolding same_but_meta_def
    by (intro exI [of _ "c @ [(all_ops w ! l, all_ops w ! r)]"] exI [of _ a2] exI [of _ b2] exI [of _ d] exI [of _ e]) simp
  ultimately show ?thesis using j1(1) j2(1) j3(1) by (auto simp: join_all_def meta_def simp del: wick_state.update_convs)
qed

lemma leave_all_meta:
  assumes "plain w" "meta w (bump (bump f m) n) (bump2 g l r) (bump (bump h l) r) (c @ [(all_ops w ! l, all_ops w ! r)]) s"
    "l < r" "r < nops w" "m < length (input w)" "n < length (input w)" "m \<noteq> n" "(all_ops w ! l, all_ops w ! r) \<notin> set c"
  shows "\<exists>s'. leave_all w m n (all_ops w ! l) (all_ops w ! r) s = Inr s' \<and> same_but_meta s s' \<and> meta w f g h c s'"
proof -
  have M: "nop_meta w (bump (bump f m) n) s" "op_meta w (bump2 g l r) (bump (bump h l) r) s"
    "contractions s = c @ [(all_ops w ! l, all_ops w ! r)]" using assms(2) by (auto simp: meta_def)
  have "bump (bump f m) n = bump (bump f n) m" using assms(7) by auto
  then have "nop_meta w (bump (bump f n) m) s" using M(1) by simp
  then obtain a b where j1: "leave_nop w m s = Inr (s\<lparr>nop_nconnections := a, nop_partitions := b\<rparr>)"
    "nop_meta w (bump f n) (s\<lparr>nop_nconnections := a, nop_partitions := b\<rparr>)"
    using leave_nop_meta [OF assms(1) _ assms(5)] by blast
  let ?s1 = "s\<lparr>nop_nconnections := a, nop_partitions := b\<rparr>"
  obtain a2 b2 where j2: "leave_nop w n ?s1 = Inr (?s1\<lparr>nop_nconnections := a2, nop_partitions := b2\<rparr>)"
    "nop_meta w f (?s1\<lparr>nop_nconnections := a2, nop_partitions := b2\<rparr>)"
    using leave_nop_meta [OF assms(1) j1(2) assms(6)] by blast
  let ?s2 = "?s1\<lparr>nop_nconnections := a2, nop_partitions := b2\<rparr>"
  have "op_meta w (bump2 g l r) (bump (bump h l) r) ?s2" using M(2) op_meta_cong [of ?s2 s] by simp
  then obtain d e where j3: "leave_ops w (all_ops w ! l) (all_ops w ! r) ?s2
        = Inr (?s2\<lparr>op_partition_cdeg_matrix := d, op_partition_ncontractions := e\<rparr>)"
    "op_meta w g h (?s2\<lparr>op_partition_cdeg_matrix := d, op_partition_ncontractions := e\<rparr>)"
    using leave_ops_meta [OF assms(1) _ assms(3,4)] by blast
  let ?s3 = "?s2\<lparr>op_partition_cdeg_matrix := d, op_partition_ncontractions := e\<rparr>"
  let ?s4 = "?s3\<lparr>contractions := c\<rparr>"
  have "unregister_contraction (all_ops w ! l) (all_ops w ! r) ?s3 = Inr ?s4"
    using assms(8) M(3) by (simp add: unregister_contraction_def remove1_append)
  moreover have "nop_meta w f ?s4" using j2(2) nop_meta_cong [of ?s4 ?s2] by simp
  moreover have "op_meta w g h ?s4" using j3(2) op_meta_cong [of ?s4 ?s3] by simp
  moreover have "same_but_meta s ?s4"
    unfolding same_but_meta_def
    by (intro exI [of _ c] exI [of _ a2] exI [of _ b2] exI [of _ d] exI [of _ e]) simp
  ultimately show ?thesis using j1(1) j2(1) j3(1) by (auto simp: leave_all_def meta_def simp del: wick_state.update_convs)
qed

section \<open>Links between normal operators\<close>

definition needs_of :: "('i, 'a) wick_theorem \<Rightarrow> (nat \<Rightarrow> nat \<Rightarrow> nat) \<Rightarrow> nat \<Rightarrow> nat" where
  "needs_of w t k = card {j. j < 32 \<and> \<not> bit (target_connections w ! k) j \<and> t k j = 0}"

definition joined_more :: "(nat \<Rightarrow> nat \<Rightarrow> nat) \<Rightarrow> nat \<Rightarrow> nat \<Rightarrow> nat \<Rightarrow> nat \<Rightarrow> nat" where
  "joined_more t m n j k = (if {j, k} = {m, n} then Suc (t j k) else t j k)"

text \<open>Whether \<open>connect\<close> accepts a contraction between two normal operators.\<close>

definition accepts :: "('i, 'a) wick_theorem \<Rightarrow> (nat \<Rightarrow> nat \<Rightarrow> nat) \<Rightarrow> (nat \<Rightarrow> nat) \<Rightarrow> nat \<Rightarrow> nat \<Rightarrow> bool" where
  "accepts w t left m n \<longleftrightarrow> (nop_avoided_connections w \<noteq> [] \<longrightarrow> bit (nop_avoided_connections w ! m) n)
     \<and> (target_connections w \<noteq> [] \<longrightarrow> needs_of w (joined_more t m n) m \<le> left m - 1 \<and> needs_of w (joined_more t m n) n \<le> left n - 1)"

text \<open>The fields that \<open>connect\<close> and \<open>disconnect\<close> write.\<close>

definition same_but_links :: "('i, 'a) wick_state \<Rightarrow> ('i, 'a) wick_state \<Rightarrow> bool" where
  "same_but_links s s' \<longleftrightarrow> (\<exists>a b c d e f g. s' = s\<lparr>contractions := a, connections := b, nop_adjacency_matrix := c, nop_nconnections := d,
     nop_partitions := e, op_partition_cdeg_matrix := f, op_partition_ncontractions := g\<rparr>)"

lemma same_but_linksD:
  assumes "same_but_links s s'"
  shows "nopseq s' = nopseq s" "op_input_ordinals s' = op_input_ordinals s" "nopseq_size s' = nopseq_size s" "sp s' = sp s"
    "sp_initial_size s' = sp_initial_size s" "level s' = level s" "left_op_offset s' = left_op_offset s" "count_only s' = count_only s"
    "counter s' = counter s" "num_attempted s' = num_attempted s" "num_useful s' = num_useful s" "result_terms s' = result_terms s"
  using assms by (auto simp: same_but_links_def)

lemma same_but_links_refl: "same_but_links s s"
  unfolding same_but_links_def by (intro exI [of _ "contractions s"] exI [of _ "connections s"] exI [of _ "nop_adjacency_matrix s"]
    exI [of _ "nop_nconnections s"] exI [of _ "nop_partitions s"] exI [of _ "op_partition_cdeg_matrix s"]
    exI [of _ "op_partition_ncontractions s"]) simp

lemma same_but_links_meta:
  assumes "same_but_meta s s'"
  shows "same_but_links s s'"
proof -
  obtain a b c d e where s': "s' = s\<lparr>contractions := a, nop_nconnections := b, nop_partitions := c,
     op_partition_cdeg_matrix := d, op_partition_ncontractions := e\<rparr>" using assms by (auto simp: same_but_meta_def)
  show ?thesis unfolding same_but_links_def s'
    by (intro exI [of _ a] exI [of _ "connections s"] exI [of _ "nop_adjacency_matrix s"] exI [of _ b] exI [of _ c] exI [of _ d] exI [of _ e]) simp
qed

lemma same_but_links_trans:
  assumes "same_but_links s s'" "same_but_links s' s''"
  shows "same_but_links s s''"
proof -
  obtain a b c d e f g where s': "s' = s\<lparr>contractions := a, connections := b, nop_adjacency_matrix := c, nop_nconnections := d,
     nop_partitions := e, op_partition_cdeg_matrix := f, op_partition_ncontractions := g\<rparr>" using assms(1) unfolding same_but_links_def by blast
  obtain a2 b2 c2 d2 e2 f2 g2 where s'': "s'' = s'\<lparr>contractions := a2, connections := b2, nop_adjacency_matrix := c2, nop_nconnections := d2,
     nop_partitions := e2, op_partition_cdeg_matrix := f2, op_partition_ncontractions := g2\<rparr>" using assms(2) unfolding same_but_links_def by blast
  show ?thesis unfolding same_but_links_def s'' s'
    by (intro exI [of _ a2] exI [of _ b2] exI [of _ c2] exI [of _ d2] exI [of _ e2] exI [of _ f2] exI [of _ g2]) simp
qed

lemma same_but_links_links: "same_but_links s (s\<lparr>connections := b, nop_adjacency_matrix := c\<rparr>)" "same_but_links s (s\<lparr>nop_adjacency_matrix := c, connections := b\<rparr>)"
  unfolding same_but_links_def by (intro exI [of _ "contractions s"] exI [of _ b] exI [of _ c]
    exI [of _ "nop_nconnections s"] exI [of _ "nop_partitions s"] exI [of _ "op_partition_cdeg_matrix s"]
    exI [of _ "op_partition_ncontractions s"], simp)+

lemma bit_link:
  assumes "m \<noteq> n" "m < length c" "n < length c" "m < 32" "n < 32" "j < length c"
  shows "bit (link m n c ! j) k \<longleftrightarrow> bit (c ! j) k \<or> {j, k} = {m, n}"
  using assms by (auto simp: link_def Let_def nth_list_update bit_set_bit_iff doubleton_eq_iff)

lemma bit_unlink:
  assumes "m \<noteq> n" "m < length c" "n < length c" "j < length c"
  shows "bit (unlink m n c ! j) k \<longleftrightarrow> bit (c ! j) k \<and> {j, k} \<noteq> {m, n}"
  using assms by (auto simp: unlink_def Let_def nth_list_update bit_unset_bit_iff doubleton_eq_iff)

lemma length_link [simp]: "length (link m n c) = length c" "length (unlink m n c) = length c"
  by (simp_all add: link_def unlink_def Let_def)

lemma unlink_link:
  assumes "m \<noteq> n" "m < length c" "n < length c" "m < 32" "n < 32" "\<not> bit (c ! m) n" "\<not> bit (c ! n) m"
  shows "unlink m n (link m n c) = c"
proof (rule nth_equalityI)
  fix j assume "j < length (unlink m n (link m n c))"
  then have j: "j < length c" by simp
  show "unlink m n (link m n c) ! j = c ! j"
  proof (rule bit_word_eqI)
    fix k
    show "bit (unlink m n (link m n c) ! j) k = bit (c ! j) k"
      using assms j bit_unlink [of m n "link m n c" j k] bit_link [OF assms(1-5) j, of k] by (auto simp: doubleton_eq_iff)
  qed
qed simp

lemma needs_eq:
  assumes "\<And>j. bit (conn ! k) j \<longleftrightarrow> 0 < t k j"
  shows "needs w conn k = needs_of w t k"
proof -
  have neither: "bit (not (or a b)) j \<longleftrightarrow> \<not> bit a j \<and> \<not> bit b j" if "j \<in> set [0..<32]" for a b :: "32 word" and j
    using that by (simp add: bit_and_iff bit_not_iff)
  have "needs w conn k = length (filter (\<lambda>j. \<not> bit (target_connections w ! k) j \<and> t k j = 0) [0..<32])"
  proof -
    have "filter (bit (not (or (conn ! k) (target_connections w ! k)))) [0..<32]
        = filter (\<lambda>j. \<not> bit (target_connections w ! k) j \<and> t k j = 0) [0..<32]"
      by (intro filter_cong refl) (subst neither, assumption, simp only: assms not_gr_zero, blast)
    then show ?thesis unfolding needs_def popcount_def by simp
  qed
  also have "\<dots> = card (set (filter (\<lambda>j. \<not> bit (target_connections w ! k) j \<and> t k j = 0) [0..<32]))"
    by (intro distinct_card [symmetric]) simp
  also have "set (filter (\<lambda>j. \<not> bit (target_connections w ! k) j \<and> t k j = 0) [0..<32]) = {j. j < 32 \<and> \<not> bit (target_connections w ! k) j \<and> t k j = 0}"
    by auto
  finally show ?thesis by (simp add: needs_of_def)
qed

lemma link_meta_cong:
  "connections s = connections s' \<Longrightarrow> nop_adjacency_matrix s = nop_adjacency_matrix s' \<Longrightarrow> link_meta w t s = link_meta w t s'"
  by (simp add: link_meta_def)

lemma same_but_metaD:
  assumes "same_but_meta s s'"
  shows "connections s' = connections s" "nop_adjacency_matrix s' = nop_adjacency_matrix s" "nopseq s' = nopseq s"
  using assms by (auto simp: same_but_meta_def)

lemma meta_links: "meta w f g h c (s\<lparr>connections := a, nop_adjacency_matrix := b\<rparr>) = meta w f g h c s"
  "meta w f g h c (s\<lparr>nop_adjacency_matrix := b, connections := a\<rparr>) = meta w f g h c s"
  by (simp_all add: meta_def nop_meta_def op_meta_def)

lemma adjacency_more:
  assumes "link_meta w t s" "target_connections w \<noteq> []" "m < n" "n < length (input w)" "j < k" "k < length (input w)"
  defines "u \<equiv> tri (length (input w)) m n"
  shows "(nop_adjacency_matrix s)[u := nop_adjacency_matrix s ! u + 1] ! tri (length (input w)) j k = joined_more t m n j k"
proof -
  have len: "u < length (nop_adjacency_matrix s)" using assms(1,2) tri_bound [OF assms(3,4)] by (simp add: link_meta_def u_def)
  have adj: "nop_adjacency_matrix s ! tri (length (input w)) j k = t j k" if "j < k" "k < length (input w)" for j k
    using assms(1,2) that by (simp add: link_meta_def)
  show ?thesis
  proof (cases "j = m \<and> k = n")
    case True
    then show ?thesis using len adj [OF assms(3,4)] by (simp add: joined_more_def u_def)
  next
    case False
    then have "tri (length (input w)) j k \<noteq> u" using tri_inj [OF assms(5,6,3,4)] by (auto simp: u_def)
    moreover have "{j, k} \<noteq> {m, n}" using False assms(3,5) by (auto simp: doubleton_eq_iff)
    ultimately show ?thesis using adj [OF assms(5,6)] by (simp add: joined_more_def)
  qed
qed

lemma connect_meta:
  assumes "plain w" "meta w f g h c s" "link_meta w t s" "\<And>j k. t j k = t k j" "l < r" "r < nops w"
    "m < n" "n < length (input w)" "(all_ops w ! l, all_ops w ! r) \<notin> set c" "length (nopseq s) = length (input w)"
  defines "a \<equiv> all_ops w ! l" and "b \<equiv> all_ops w ! r"
  shows "if accepts w t (\<lambda>k. length (nopseq s ! k)) m n
    then \<exists>s'. connect w m n a b s = Inr (True, s') \<and> same_but_links s s'
      \<and> meta w (bump (bump f m) n) (bump2 g l r) (bump (bump h l) r) (c @ [(a, b)]) s' \<and> link_meta w (joined_more t m n) s'
    else connect w m n a b s = Inr (False, s)"
proof -
  have m: "m < length (input w)" "m < 32" "n < 32" using assms(1,7,8) by (auto simp: plain_def)
  note join = join_all_meta [OF assms(1) _ assms(5,6) m(1) assms(8,9), folded a_def b_def]
  show ?thesis
  proof (cases "nop_avoided_connections w \<noteq> [] \<and> \<not> bit (nop_avoided_connections w ! m) n")
    case True
    then show ?thesis by (simp add: connect_def accepts_def)
  next
    case allowed: False
    show ?thesis
    proof (cases "target_connections w = []")
      case True
      obtain s' where s': "join_all w m n a b s = Inr s'" "same_but_meta s s'"
        "meta w (bump (bump f m) n) (bump2 g l r) (bump (bump h l) r) (c @ [(a, b)]) s'"
        using join [OF assms(2)] by blast
      have "connect w m n a b s = Inr (True, s')" unfolding connect_def using allowed True s'(1) by simp
      moreover have "link_meta w (joined_more t m n) s'" using True by (simp add: link_meta_def)
      moreover have "accepts w t (\<lambda>k. length (nopseq s ! k)) m n" using allowed True by (auto simp: accepts_def)
      ultimately show ?thesis using s'(3) same_but_links_meta [OF s'(2)] by auto
    next
      case False
      have L: "length (connections s) = length (input w)" "\<And>j k. j < length (input w) \<Longrightarrow> bit (connections s ! j) k \<longleftrightarrow> 0 < t j k"
        using assms(3) False by (auto simp: link_meta_def)
      define linked where "linked = bit (connections s ! m) n"
      define conn where "conn = (if linked then connections s else link m n (connections s))"
      have tmn: "linked \<longleftrightarrow> 0 < t m n" using L(2) [OF m(1)] by (simp add: linked_def)
      have bits: "bit (conn ! j) k \<longleftrightarrow> 0 < joined_more t m n j k" if "j < length (input w)" for j k
        using bit_link [of m n "connections s" j k] m assms(4,7,8) L that tmn
        by (auto simp: conn_def joined_more_def doubleton_eq_iff)
      let ?s1 = "s\<lparr>connections := conn\<rparr>"
      have s1: "(if linked then s else s\<lparr>connections := link m n (connections s)\<rparr>) = ?s1" by (simp add: conn_def)
      have undone: "(if linked then ?s1 else ?s1\<lparr>connections := unlink m n (connections ?s1)\<rparr>) = s"
      proof (cases linked)
        case False
        have "\<not> bit (connections s ! n) m" using L(2) [OF assms(8)] tmn False assms(4) [of m n] by simp
        then have "unlink m n conn = connections s"
          using unlink_link [of m n "connections s"] False m assms(7,8) L(1) by (simp add: conn_def linked_def)
        then show ?thesis using False by simp
      qed (simp add: conn_def)
      have needs: "needs w conn m = needs_of w (joined_more t m n) m" "needs w conn n = needs_of w (joined_more t m n) n"
        by (rule needs_eq, rule bits, rule m(1), rule needs_eq, rule bits, rule assms(8))
      have acc: "accepts w t (\<lambda>k. length (nopseq s ! k)) m n \<longleftrightarrow>
          \<not> length (nopseq s ! m) - 1 < needs w conn m \<and> \<not> length (nopseq s ! n) - 1 < needs w conn n"
        using allowed False by (auto simp: accepts_def needs not_less)
      let ?adj = "(nop_adjacency_matrix s)[tri (length (input w)) m n := nop_adjacency_matrix s ! tri (length (input w)) m n + 1]"
      let ?s2 = "s\<lparr>connections := conn, nop_adjacency_matrix := ?adj\<rparr>"
      have "meta w f g h c ?s2" using assms(2) by (simp only: meta_links)
      then obtain s' where s': "join_all w m n a b ?s2 = Inr s'" "same_but_meta ?s2 s'"
        "meta w (bump (bump f m) n) (bump2 g l r) (bump (bump h l) r) (c @ [(a, b)]) s'"
        using join by blast
      have u: "uptri_idx m n (length (nopseq ?s1)) = Inr (tri (length (input w)) m n)"
        using uptri_idx_tri [OF assms(7,8)] assms(10) by simp
      have cn: "connect w m n a b s = (if accepts w t (\<lambda>k. length (nopseq s ! k)) m n then Inr (True, s') else Inr (False, s))"
      proof -
        have "connect w m n a b s =
            (if length (nopseq ?s1 ! m) - 1 < needs w (connections ?s1) m then Inr (False, s)
             else if length (nopseq ?s1 ! n) - 1 < needs w (connections ?s1) n then Inr (False, s)
             else bind_res (uptri_idx m n (length (nopseq ?s1))) (\<lambda>u.
                  let adj = nop_adjacency_matrix ?s1
                  in bind_res (join_all w m n a b (?s1\<lparr>nop_adjacency_matrix := adj[u := adj ! u + 1]\<rparr>)) (\<lambda>s. Inr (True, s))))"
          unfolding connect_def Let_def if_not_P [OF allowed] if_not_P [OF False] linked_def [symmetric] s1 undone ..
        also have "\<dots> = (if accepts w t (\<lambda>k. length (nopseq s ! k)) m n then Inr (True, s') else Inr (False, s))"
          unfolding u bind_res_simps Let_def acc using s'(1) by simp
        finally show ?thesis .
      qed
      have "link_meta w (joined_more t m n) ?s2"
        using bits adjacency_more [OF assms(3) False assms(7,8)] assms(3) False L(1)
        by (auto simp: link_meta_def conn_def)
      then have "link_meta w (joined_more t m n) s'"
        using link_meta_cong [of s' ?s2] same_but_metaD [OF s'(2)] by simp
      moreover have "same_but_links s s'"
        using same_but_links_trans [OF same_but_links_links(1) same_but_links_meta [OF s'(2)]] .
      ultimately show ?thesis using cn s'(3) by simp
    qed
  qed
qed

lemma adjacency_less:
  assumes "link_meta w (joined_more t m n) s" "target_connections w \<noteq> []" "m < n" "n < length (input w)" "j < k" "k < length (input w)"
  defines "u \<equiv> tri (length (input w)) m n"
  shows "(nop_adjacency_matrix s)[u := t m n] ! tri (length (input w)) j k = t j k"
proof -
  have len: "u < length (nop_adjacency_matrix s)" using assms(1,2) tri_bound [OF assms(3,4)] by (simp add: link_meta_def u_def)
  have adj: "nop_adjacency_matrix s ! tri (length (input w)) j k = joined_more t m n j k"
    using assms(1,2,5,6) by (simp add: link_meta_def)
  show ?thesis
  proof (cases "j = m \<and> k = n")
    case False
    then have "tri (length (input w)) j k \<noteq> u" using tri_inj [OF assms(5,6,3,4)] by (auto simp: u_def)
    moreover have "{j, k} \<noteq> {m, n}" using False assms(3,5) by (auto simp: doubleton_eq_iff)
    ultimately show ?thesis using adj by (simp add: joined_more_def)
  qed (use len in \<open>simp add: u_def\<close>)
qed

lemma disconnect_meta:
  assumes "plain w" "\<And>j k. t j k = t k j" "l < r" "r < nops w" "m < n" "n < length (input w)"
    "(all_ops w ! l, all_ops w ! r) \<notin> set c" "length (nopseq s) = length (input w)"
  defines "a \<equiv> all_ops w ! l" and "b \<equiv> all_ops w ! r"
  assumes "meta w (bump (bump f m) n) (bump2 g l r) (bump (bump h l) r) (c @ [(a, b)]) s" "link_meta w (joined_more t m n) s"
  shows "\<exists>s'. disconnect w m n a b s = Inr s' \<and> same_but_links s s' \<and> meta w f g h c s' \<and> link_meta w t s'"
proof -
  have m: "m < length (input w)" "m \<noteq> n" using assms(5,6) by auto
  obtain s1 where s1: "leave_all w m n a b s = Inr s1" "same_but_meta s s1" "meta w f g h c s1"
    using leave_all_meta [OF assms(1) _ assms(3,4) m(1) assms(6) m(2) assms(7)] assms(11) unfolding a_def b_def by blast
  note fields = same_but_metaD [OF s1(2)]
  show ?thesis
  proof (cases "target_connections w = []")
    case True
    then have "disconnect w m n a b s = Inr s1" unfolding disconnect_def using s1(1) by simp
    moreover have "link_meta w t s1" using True by (simp add: link_meta_def)
    ultimately show ?thesis using s1(3) same_but_links_meta [OF s1(2)] by blast
  next
    case False
    have link1: "link_meta w (joined_more t m n) s1" using assms(12) link_meta_cong [of s1 s] fields by simp
    have L: "length (connections s1) = length (input w)"
      "\<And>j k. j < length (input w) \<Longrightarrow> bit (connections s1 ! j) k \<longleftrightarrow> 0 < joined_more t m n j k"
      "nop_adjacency_matrix s1 ! tri (length (input w)) m n = Suc (t m n)"
      using link1 False assms(5,6) by (auto simp: link_meta_def joined_more_def)
    let ?c = "if t m n = 0 then unlink m n (connections s1) else connections s1"
    let ?s2 = "s1\<lparr>nop_adjacency_matrix := (nop_adjacency_matrix s1)[tri (length (input w)) m n := t m n], connections := ?c\<rparr>"
    have bitmn: "bit (connections s1 ! m) n" using L(2) [OF m(1)] by (simp add: joined_more_def)
    have u: "uptri_idx m n (length (nopseq s1)) = Inr (tri (length (input w)) m n)"
      using uptri_idx_tri [OF assms(5,6)] assms(8) fields(3) by simp
    have "disconnect w m n a b s = Inr ?s2"
      unfolding disconnect_def s1(1) bind_res_simps u Let_def L(3) using False bitmn by simp
    moreover have "bit (?c ! j) k \<longleftrightarrow> 0 < t j k" if "j < length (input w)" for j k
      using bit_unlink [of m n "connections s1" j k] m assms(2,6) L that by (auto simp: joined_more_def doubleton_eq_iff)
    then have "link_meta w t ?s2"
      using adjacency_less [OF link1 False assms(5,6)] link1 False L(1) by (simp add: link_meta_def)
    moreover have "meta w f g h c ?s2" using s1(3) by (simp only: meta_links)
    moreover have "same_but_links s ?s2" using same_but_links_trans [OF same_but_links_meta [OF s1(2)] same_but_links_links(2)] .
    ultimately show ?thesis by blast
  qed
qed

end
