(* ===== verification/WickRecursion.thy ===== *)
theory WickRecursion
  imports WickMetadata
begin

text \<open>
  The recursion of the contraction engine (SeQuant/core/wick.hpp) against a function without state: it never fails,
  restores the state it was given and emits the terms that the function lists.
\<close>

section \<open>The invariant\<close>

definition valid_pairing :: "('i, 'a) wick_theorem \<Rightarrow> pairing \<Rightarrow> bool" where
  "valid_pairing w ps \<longleftrightarrow> distinct (map fst ps @ map snd ps) \<and> (\<forall>(l, r)\<in>set ps. l < r \<and> r < nops w \<and> nop_of w l \<noteq> nop_of w r)"

definition involved :: "pairing \<Rightarrow> nat \<Rightarrow> nat" where
  "involved ps i = length (filter (\<lambda>(l, r). l = i \<or> r = i) ps)"

definition pair_count :: "pairing \<Rightarrow> nat \<Rightarrow> nat \<Rightarrow> nat" where
  "pair_count ps i j = length (filter ((=) (i, j)) ps)"

definition op_pairs :: "('i, 'a) wick_theorem \<Rightarrow> pairing \<Rightarrow> ('i op \<times> 'i op) list" where
  "op_pairs w ps = map (\<lambda>(l, r). (all_ops w ! l, all_ops w ! r)) ps"

definition wick_inv :: "('i, 'a) wick_theorem \<Rightarrow> pairing \<Rightarrow> ('i, 'a) wick_state \<Rightarrow> bool" where
  "wick_inv w ps s \<longleftrightarrow> valid_pairing w ps \<and> length (nopseq s) = length (input w)
     \<and> flat (nopseq s) = map ((!) (flat (input w))) (rest w ps)
     \<and> op_input_ordinals s = rest w ps \<and> nopseq_size s = length (rest w ps)
     \<and> meta w (touches w ps) (pair_count ps) (involved ps) (op_pairs w ps) s \<and> link_meta w (joined w ps) s
     \<and> sp_initial_size s + length ps \<le> length (snd (sp s))"

lemma counts_snoc:
  assumes "nop_of w l \<noteq> nop_of w r" "l \<noteq> r"
  shows "touches w (ps @ [(l, r)]) = bump (bump (touches w ps) (nop_of w l)) (nop_of w r)"
    "pair_count (ps @ [(l, r)]) = bump2 (pair_count ps) l r"
    "involved (ps @ [(l, r)]) = bump (bump (involved ps) l) r"
    "joined w (ps @ [(l, r)]) = joined_more (joined w ps) (nop_of w l) (nop_of w r)"
    "op_pairs w (ps @ [(l, r)]) = op_pairs w ps @ [(all_ops w ! l, all_ops w ! r)]"
  using assms by (auto simp: fun_eq_iff touches_def pair_count_def involved_def joined_def joined_more_def op_pairs_def)

lemma joined_commute: "joined w ps j k = joined w ps k j"
  by (simp add: joined_def insert_commute)

lemma rest_simps:
  "sorted (rest w ps)" "distinct (rest w ps)" "set (rest w ps) = {i. i < nops w \<and> i \<notin> used ps}"
  by (auto simp: rest_def sorted_filter [of id, simplified])

lemma erase_two:
  assumes "distinct xs" "l < r" "r < length xs"
  shows "erase_at l (erase_at r xs) = filter (\<lambda>x. x \<noteq> xs ! l \<and> x \<noteq> xs ! r) xs"
proof -
  have one: "erase_at n ys = filter (\<lambda>x. x \<noteq> ys ! n) ys" if "distinct ys" "n < length ys" for n and ys :: "'a list"
  proof -
    have ys: "ys = take n ys @ ys ! n # drop (Suc n) ys" using that by (simp add: id_take_nth_drop [symmetric])
    have d: "distinct (take n ys @ ys ! n # drop (Suc n) ys)" using that ys by simp
    have "filter (\<lambda>x. x \<noteq> ys ! n) ys = filter (\<lambda>x. x \<noteq> ys ! n) (take n ys) @ filter (\<lambda>x. x \<noteq> ys ! n) (drop (Suc n) ys)"
      by (subst ys) (simp del: append_take_drop_id)
    also have "\<dots> = take n ys @ drop (Suc n) ys"
      using d by (intro arg_cong2 [where f = append]) (auto simp: filter_id_conv)
    finally show ?thesis by (simp add: erase_at_def)
  qed
  have "erase_at r xs ! l = xs ! l" using assms by (simp add: erase_at_def nth_append)
  moreover have "l < length (erase_at r xs)" using assms by (simp add: erase_at_def)
  ultimately show ?thesis
    using one [of "erase_at r xs" l] one [of xs r] assms by (auto simp: conj_commute)
qed

lemma rest_snoc:
  assumes "l < r" "r < length (rest w ps)"
  shows "rest w (ps @ [(rest w ps ! l, rest w ps ! r)]) = erase_at l (erase_at r (rest w ps))"
  unfolding erase_two [OF rest_simps(2) assms] by (auto simp: rest_def used_def intro!: filter_cong)

lemma rest_nth:
  assumes "l < r" "r < length (rest w ps)"
  shows "rest w ps ! l < rest w ps ! r" "rest w ps ! r < nops w" "rest w ps ! l \<notin> used ps" "rest w ps ! r \<notin> used ps"
proof -
  have "rest w ps ! l \<le> rest w ps ! r" "rest w ps ! l \<noteq> rest w ps ! r"
    using assms rest_simps(1,2) [of w ps] by (auto simp: sorted_iff_nth_mono nth_eq_iff_index_eq)
  then show "rest w ps ! l < rest w ps ! r" by simp
  have "rest w ps ! l \<in> set (rest w ps)" "rest w ps ! r \<in> set (rest w ps)" using assms by simp_all
  then show "rest w ps ! r < nops w" "rest w ps ! l \<notin> used ps" "rest w ps ! r \<notin> used ps" using rest_simps(3) by blast+
qed

lemma valid_snoc:
  assumes "valid_pairing w ps" "l < r" "r < nops w" "l \<notin> used ps" "r \<notin> used ps" "nop_of w l \<noteq> nop_of w r"
  shows "valid_pairing w (ps @ [(l, r)])"
  using assms by (auto simp: valid_pairing_def used_def)

lemma unused_counts: "l \<notin> used ps \<Longrightarrow> involved ps l = 0" "l \<notin> used ps \<Longrightarrow> pair_count ps l j = 0"
  by (force simp: involved_def pair_count_def used_def filter_empty_conv)+

text \<open>The invariant determines the sequence of operators.\<close>

definition ops_of :: "('i, 'a) wick_theorem \<Rightarrow> pairing \<Rightarrow> 'i op list list" where
  "ops_of w ps = map (\<lambda>k. map ((!) (all_ops w)) (filter (\<lambda>i. nop_of w i = k) (rest w ps))) [0..<length (input w)]"

lemma snd_flat: "i < length (concat xss) \<Longrightarrow> snd (flat_from k xss ! i) = concat xss ! i"
  by (metis length_flat map_snd_flat nth_map)

lemma nopseq_eq:
  assumes "wick_inv w ps s"
  shows "nopseq s = ops_of w ps"
proof -
  have "nopseq s = map (\<lambda>j. map snd (filter (\<lambda>y. fst y = j) (map ((!) (flat (input w))) (rest w ps)))) [0..<length (input w)]"
    using nested_of_flat [of "nopseq s" 0] assms by (simp add: wick_inv_def)
  also have "\<dots> = ops_of w ps"
    unfolding ops_of_def filter_map map_map
    by (intro map_cong refl) (auto simp: nop_of_def comp_def rest_simps(3) snd_flat)
  finally show ?thesis .
qed

lemma located:
  assumes "wick_inv w ps s" "p < length (rest w ps)"
  obtains c where "locate (nopseq s) p = Some c" "fst c = nop_of w (rest w ps ! p)" "op_at s c = all_ops w ! (rest w ps ! p)"
    "fst c < length (nopseq s)" "snd c < length (nopseq s ! fst c)"
proof -
  have f: "flat (nopseq s) = map ((!) (flat (input w))) (rest w ps)" using assms(1) by (simp add: wick_inv_def)
  then have "length (flat (nopseq s)) = length (rest w ps)" by (simp only: length_map)
  then have "p < length (concat (nopseq s))" using assms(2) by simp
  from locate_flat [OF this, of 0] obtain r e where c: "locate (nopseq s) p = Some (r, e)" "r < length (nopseq s)"
    "e < length (nopseq s ! r)" "flat (nopseq s) ! p = (r, nopseq s ! r ! e)" by auto
  have "rest w ps ! p \<in> set (rest w ps)" using assms(2) by simp
  then have "rest w ps ! p < nops w" using rest_simps(3) by blast
  then have "snd (flat (input w) ! (rest w ps ! p)) = all_ops w ! (rest w ps ! p)" by (rule snd_flat)
  then show thesis using that [of "(r, e)"] c f assms(2) by (auto simp: nop_of_def op_at_def)
qed

section \<open>No symmetry to exploit\<close>

lemma plain_unique:
  assumes "plain w" "wick_inv w ps s" "l < r" "r < nops w" "l \<notin> used ps" "r \<notin> used ps"
  shows "is_topologically_unique w s l r = Inr True"
proof -
  have P: "op_partition_idx w ! l = Suc l" "op_partition_idx w ! r = Suc r" "op_partitions w ! l = [l]" "op_partitions w ! r = [r]"
    "op_npartitions w = nops w"
    using assms(1,3,4) by (simp_all add: plain_def)
  have M: "op_meta w (pair_count ps) (involved ps) s" using assms(2) by (simp add: wick_inv_def meta_def)
  then have n: "op_partition_ncontractions s ! l = 0" "op_partition_ncontractions s ! r = 0"
    using assms(3-6) unused_counts(1) by (simp_all add: op_meta_def)
  have past: "\<not> list_ex (\<lambda>x. 0 < x) (take (nops w - Suc r) (drop (tri (nops w) l (Suc r)) (op_partition_cdeg_matrix s)))"
    if "Suc r < nops w"
  proof -
    have "op_partition_cdeg_matrix s ! (tri (nops w) l (Suc r) + j) = 0" if "j < nops w - Suc r" for j
    proof -
      have "tri (nops w) l (Suc r) + j = tri (nops w) l (Suc r + j)" using assms(3) by (simp add: tri_def)
      then show ?thesis using M that assms(3) unused_counts(2) [OF assms(5)] by (simp add: op_meta_def)
    qed
    then show ?thesis by (auto simp: list_ex_iff in_set_conv_nth)
  qed
  have u: "Suc r < nops w \<Longrightarrow> uptri_idx l (Suc r) (nops w) = Inr (tri (nops w) l (Suc r))" using assms(3) by (simp add: uptri_idx_tri)
  show ?thesis
    using past u n P by (simp add: is_topologically_unique_def Let_def position_in_def)
qed

lemma plain_degeneracy:
  assumes "plain w"
  shows "op_permutational_degeneracy w s = Inr 1"
proof -
  have deg: "degeneracy w s is v = Inr v" if "set is \<subseteq> {..<nops w}" for "is" v
    using that assms by (induction "is" arbitrary: v) (auto simp: plain_def Let_def)
  have "degeneracy w s [0..<nops w] 1 = Inr 1" by (rule deg) auto
  moreover have "op_npartitions w = nops w" using assms by (simp add: plain_def)
  ultimately show ?thesis unfolding op_permutational_degeneracy_def by simp
qed

section \<open>The function without state\<close>

definition admissible :: "('i, 'a) wick_theorem \<Rightarrow> pairing \<Rightarrow> nat \<Rightarrow> nat \<Rightarrow> bool" where
  "admissible w ps l r \<longleftrightarrow> nop_of w l \<noteq> nop_of w r \<and> may_contract w (all_ops w ! l) (all_ops w ! r)
     \<and> accepts w (joined w ps) (\<lambda>k. length (filter (\<lambda>i. nop_of w i = k) (rest w ps))) (nop_of w l) (nop_of w r)"

type_synonym 'a wick_visit = "pairing \<times> 'a factors"

primrec visits :: "nat \<Rightarrow> ('i, 'a) wick_theorem \<Rightarrow> pairing \<Rightarrow> 'a factors \<Rightarrow> nat \<Rightarrow> 'a wick_visit list" where
  "visits 0 w ps f off = []"
| "visits (Suc n) w ps f off =
     (let R = rest w ps
      in concat (map (\<lambda>l. concat (map (\<lambda>r.
           if admissible w ps (R ! l) (R ! r)
           then let ps' = ps @ [(R ! l, R ! r)];
                    f' = append_scaled Recursively f (phase_of w l r) (contraction w (all_ops w ! (R ! l)) (all_ops w ! (R ! r)))
                in (if \<not> full_contractions w \<or> rest w ps' = [] then [(ps', f')] else []) @ (if rest w ps' = [] then [] else visits n w ps' f' l)
           else []) [Suc l..<length R])) (if full_contractions w then [off] else [off..<length R])))"

definition partners_of :: "('i, 'a) wick_theorem \<Rightarrow> pairing \<Rightarrow> ('i \<times> 'i) list \<times> nat" where
  "partners_of w ps = foldl merge_partners (input_partner_indices w, 0) (op_pairs w ps)"

definition spin_factor :: "('i, 'a) wick_theorem \<Rightarrow> pairing \<Rightarrow> rat" where
  "spin_factor w ps = (if closed_shell w \<and> (full_contractions w \<longrightarrow> fermionic w) then 2 ^ snd (partners_of w ps) else 1)"

definition term_of :: "('i, 'a) wick_theorem \<Rightarrow> 'a wick_visit \<Rightarrow> ('i, 'a) wick_term" where
  "term_of w v = \<lparr>term_factors = scale_rat (snd v) (spin_factor w (fst v)), term_ops = ops_of w (fst v),
     term_partners = (if full_contractions w then [] else fst (partners_of w (fst v)))\<rparr>"

text \<open>
  Contractions are overlaps, or overlaps times deltas, and only a quasiparticle annihilator is contracted with an operator
  to its right.  Where spin is summed over, complete contractions close all loops.
\<close>

definition proper_contraction :: "'a expr \<Rightarrow> bool" where
  "proper_contraction e \<longleftrightarrow> (case e of Atom a \<Rightarrow> True | Product k c fs \<Rightarrow> fs \<noteq> [] \<and> (\<forall>f\<in>set fs. \<exists>a. f = Atom a) | _ \<Rightarrow> False)"

definition proper :: "('i, 'a) wick_theorem \<Rightarrow> bool" where
  "proper w \<longleftrightarrow> plain w \<and> (\<forall>a b. may_contract w a b \<longrightarrow> is_annihilator w a \<and> proper_contraction (contraction w a b))
     \<and> (full_contractions w \<and> fermionic w \<and> closed_shell w \<longrightarrow> (\<forall>ps. valid_pairing w ps \<and> rest w ps = [] \<longrightarrow> fst (partners_of w ps) = []))"

lemma proper_longer:
  assumes "proper_contraction e"
  shows "length (snd st) < length (snd (append_scaled Recursively st c e))"
proof (cases e)
  case (Product k d gs)
  have "length (snd (foldl (append_factor Recursively) st' hs)) = length (snd st') + length hs" if "\<forall>f\<in>set hs. \<exists>a. f = Atom a" for hs :: "'a expr list" and st'
    using that
  proof (induction hs arbitrary: st')
    case (Cons h hs)
    then obtain a where "h = Atom a" by auto
    then show ?case using Cons by (cases st') simp
  qed simp
  then show ?thesis using assms Product by (simp add: proper_contraction_def append_scaled_def)
qed (use assms in \<open>simp_all add: proper_contraction_def append_scaled_def\<close>)

definition outcome :: "('i, 'a) wick_theorem \<Rightarrow> 'a wick_visit list \<Rightarrow> ('i, 'a) wick_state \<Rightarrow> ('i, 'a) wick_state \<Rightarrow> bool" where
  "outcome w vs s s' \<longleftrightarrow> count_only s' = count_only s \<and> sp s' = sp s \<and> sp_initial_size s' = sp_initial_size s
     \<and> counter s' = (if count_only s then counter s + length vs else counter s)
     \<and> result_terms s' = (if count_only s then result_terms s else result_terms s @ map (term_of w) vs)"

lemma outcome_refl: "outcome w [] s s"
  by (simp add: outcome_def)

lemma outcome_trans: "outcome w vs s s' \<Longrightarrow> outcome w us s' s'' \<Longrightarrow> outcome w (vs @ us) s s''"
  by (auto simp: outcome_def)

lemma fold_outcome:
  assumes "\<And>x s. x \<in> set xs \<Longrightarrow> wick_inv w ps s \<Longrightarrow> sp s = f \<Longrightarrow> \<exists>s'. g s x = Inr s' \<and> wick_inv w ps s' \<and> outcome w (v x) s s'"
    "wick_inv w ps s" "sp s = f"
  shows "\<exists>s'. fold_res g s xs = Inr s' \<and> wick_inv w ps s' \<and> outcome w (concat (map v xs)) s s'"
  using assms
proof (induction xs arbitrary: s)
  case (Cons x xs)
  obtain s1 where s1: "g s x = Inr s1" "wick_inv w ps s1" "outcome w (v x) s s1" using Cons.prems(1) [of x s] Cons.prems(2,3) by auto
  then have "sp s1 = f" using Cons.prems(3) by (simp add: outcome_def)
  with Cons.IH [of s1] Cons.prems(1) s1(2) obtain s2 where s2: "fold_res g s1 xs = Inr s2" "wick_inv w ps s2"
    "outcome w (concat (map v xs)) s1 s2" by auto
  then show ?case using s1 outcome_trans [OF s1(3) s2(3)] by auto
qed (auto simp: outcome_refl)

lemma make_term_eq:
  assumes "proper w" "wick_inv w ps s" "full_contractions w \<Longrightarrow> rest w ps = []"
  shows "make_term w s = Inr (term_of w (ps, sp s))"
proof -
  have P: "make_target_partner_indices w s = partners_of w ps"
    using assms(2) by (simp add: make_target_partner_indices_def partners_of_def wick_inv_def meta_def)
  have v: "valid_pairing w ps" "plain w" using assms(1,2) by (simp_all add: wick_inv_def proper_def)
  have closed: "full_contractions w \<Longrightarrow> fermionic w \<Longrightarrow> closed_shell w \<Longrightarrow> fst (partners_of w ps) = []"
    using assms(1,3) v by (simp add: proper_def)
  obtain q nc where q: "partners_of w ps = (q, nc)" by fastforce
  show ?thesis
    using closed unfolding make_term_def plain_degeneracy [OF v(2)] P q term_of_def spin_factor_def nopseq_eq [OF assms(2)]
    by (auto simp: q)
qed

section \<open>One step\<close>

definition step_visits ::
  "nat \<Rightarrow> ('i, 'a) wick_theorem \<Rightarrow> pairing \<Rightarrow> 'a factors \<Rightarrow> nat \<Rightarrow> nat \<Rightarrow> 'a wick_visit list" where
  "step_visits n w ps f l r =
     (let R = rest w ps; ps' = ps @ [(R ! l, R ! r)];
          f' = append_scaled Recursively f (phase_of w l r) (contraction w (all_ops w ! (R ! l)) (all_ops w ! (R ! r)))
      in if admissible w ps (R ! l) (R ! r)
         then (if \<not> full_contractions w \<or> rest w ps' = [] then [(ps', f')] else []) @ (if rest w ps' = [] then [] else visits n w ps' f' l)
         else [])"

lemma visits_Suc:
  "visits (Suc n) w ps f off = concat (map (\<lambda>l. concat (map (step_visits n w ps f l) [Suc l..<length (rest w ps)]))
     (if full_contractions w then [off] else [off..<length (rest w ps)]))"
  by (simp only: visits.simps Let_def step_visits_def [abs_def])

lemma meta_cong:
  assumes "nop_nconnections s = nop_nconnections s'" "nop_partitions s = nop_partitions s'"
    "op_partition_cdeg_matrix s = op_partition_cdeg_matrix s'" "op_partition_ncontractions s = op_partition_ncontractions s'"
    "contractions s = contractions s'"
  shows "meta w f g h c s = meta w f g h c s'"
  using assms by (simp add: meta_def nop_meta_def op_meta_def)

text \<open>What the recursion is required to do from a state, for the offset given.\<close>

definition recursion_ok ::
  "nat \<Rightarrow> ('i, 'a) wick_theorem \<Rightarrow> (('i, 'a) wick_state \<Rightarrow> (wick_error, ('i, 'a) wick_state) result) \<Rightarrow> pairing \<Rightarrow> nat \<Rightarrow> bool" where
  "recursion_ok n w rc ps l \<longleftrightarrow> (\<forall>s. wick_inv w ps s \<and> left_op_offset s = l \<and> rest w ps \<noteq> [] \<longrightarrow>
     (\<exists>s'. rc s = Inr s' \<and> wick_inv w ps s' \<and> outcome w (visits n w ps (sp s) l) s s'))"

lemma emit_ok:
  assumes "proper w" "wick_inv w ps s" "ps \<noteq> []"
  shows "\<exists>s'. emit w s = Inr s' \<and> wick_inv w ps s'
    \<and> outcome w (if \<not> full_contractions w \<or> rest w ps = [] then [(ps, sp s)] else []) s s'"
proof -
  have len: "length (snd (sp s)) \<noteq> sp_initial_size s" using assms(2,3) by (cases ps) (auto simp: wick_inv_def)
  have size: "nopseq_size s = 0 \<longleftrightarrow> rest w ps = []" using assms(2) by (simp add: wick_inv_def)
  show ?thesis
  proof (cases "\<not> full_contractions w \<or> rest w ps = []")
    case True
    have t: "make_term w s = Inr (term_of w (ps, sp s))" using True by (intro make_term_eq [OF assms(1,2)]) auto
    define s' where "s' = (if count_only s then s\<lparr>counter := counter s + 1, num_useful := num_useful s + 1\<rparr>
      else s\<lparr>result_terms := result_terms s @ [term_of w (ps, sp s)], num_useful := num_useful s + 1\<rparr>)"
    have "emit w s = Inr s'" using True len size t by (auto simp: emit_def s'_def)
    moreover have "wick_inv w ps s'"
      using assms(2) meta_cong [of s' s w] link_meta_cong [of s' s w] by (simp add: wick_inv_def s'_def)
    moreover have "outcome w [(ps, sp s)] s s'" by (simp add: outcome_def s'_def)
    ultimately show ?thesis using True by auto
  next
    case False
    then have "emit w s = Inr s" using size by (simp add: emit_def)
    then show ?thesis using False assms(2) outcome_refl by auto
  qed
qed

lemma descend_ok:
  assumes "recursion_ok n w rc ps l" "wick_inv w ps s"
  shows "\<exists>s'. descend rc l s = Inr s' \<and> wick_inv w ps s' \<and> outcome w (if rest w ps = [] then [] else visits n w ps (sp s) l) s s'"
proof (cases "rest w ps = []")
  case True
  then have "descend rc l s = Inr s" using assms(2) by (simp add: descend_def wick_inv_def)
  then show ?thesis using True assms(2) outcome_refl by auto
next
  case False
  let ?s = "s\<lparr>level := level s + 1, left_op_offset := l\<rparr>"
  have "wick_inv w ps ?s" using assms(2) meta_cong [of ?s s w] link_meta_cong [of ?s s w] by (simp add: wick_inv_def)
  then obtain s1 where s1: "rc ?s = Inr s1" "wick_inv w ps s1" "outcome w (visits n w ps (sp ?s) l) ?s s1"
    using assms(1) False unfolding recursion_ok_def by fastforce
  let ?s1 = "s1\<lparr>level := level s1 - 1, num_useful := (if num_useful s1 \<noteq> num_useful s then num_useful s1 + 1 else num_useful s1)\<rparr>"
  have "descend rc l s = Inr ?s1" using False assms(2) s1(1) by (simp add: descend_def wick_inv_def)
  moreover have "wick_inv w ps ?s1" using s1(2) meta_cong [of ?s1 s1 w] link_meta_cong [of ?s1 s1 w] by (simp add: wick_inv_def)
  moreover have "outcome w (visits n w ps (sp s) l) s ?s1" using s1(3) by (simp add: outcome_def)
  ultimately show ?thesis using False by auto
qed

lemma contract_ops_ok:
  assumes "proper w" "wick_inv w ps s" "sp s = f" "l < r" "r < length (rest w ps)"
    "recursion_ok n w rc (ps @ [(rest w ps ! l, rest w ps ! r)]) l"
  shows "\<exists>s'. contract_ops w rc l r s = Inr s' \<and> wick_inv w ps s' \<and> outcome w (step_visits n w ps f l r) s s'"
proof -
  define lo where "lo = rest w ps ! l"
  define ro where "ro = rest w ps ! r"
  define a where "a = all_ops w ! lo"
  define b where "b = all_ops w ! ro"
  define ps' where "ps' = ps @ [(lo, ro)]"
  note R = rest_nth [OF assms(4,5), folded lo_def ro_def]
  have plain: "plain w" and contr: "\<And>a b. may_contract w a b \<Longrightarrow> proper_contraction (contraction w a b)"
    using assms(1) by (auto simp: proper_def)
  have inv: "valid_pairing w ps \<and> length (nopseq s) = length (input w)
     \<and> flat (nopseq s) = map ((!) (flat (input w))) (rest w ps)
     \<and> op_input_ordinals s = rest w ps \<and> nopseq_size s = length (rest w ps)
     \<and> meta w (touches w ps) (pair_count ps) (involved ps) (op_pairs w ps) s \<and> link_meta w (joined w ps) s
     \<and> sp_initial_size s + length ps \<le> length (snd (sp s))"
    using assms(2) unfolding wick_inv_def .
  have I: "valid_pairing w ps" "length (nopseq s) = length (input w)" "op_input_ordinals s = rest w ps" "nopseq_size s = length (rest w ps)"
    "meta w (touches w ps) (pair_count ps) (involved ps) (op_pairs w ps) s" "link_meta w (joined w ps) s"
    "sp_initial_size s + length ps \<le> length (snd (sp s))" "flat (nopseq s) = map ((!) (flat (input w))) (rest w ps)"
    using inv by blast+
  have l: "l < length (rest w ps)" using assms(4,5) by simp
  obtain cl where cl: "locate (nopseq s) l = Some cl" "fst cl = nop_of w lo" "op_at s cl = a" "fst cl < length (nopseq s)"
    "snd cl < length (nopseq s ! fst cl)"
    using located [OF assms(2) l] unfolding lo_def a_def by blast
  obtain cr where cr: "locate (nopseq s) r = Some cr" "fst cr = nop_of w ro" "op_at s cr = b" "fst cr < length (nopseq s)"
    "snd cr < length (nopseq s ! fst cr)"
    using located [OF assms(2,5)] unfolding ro_def b_def by blast
  have look: "map_of (op_to_input_ordinal w) a = Some lo" "map_of (op_to_input_ordinal w) b = Some ro"
    using plain_lookup [OF plain] R unfolding a_def b_def by auto
  have unique: "is_topologically_unique w s lo ro = Inr True" by (rule plain_unique [OF plain assms(2) R])
  have unfold: "contract_ops w rc l r s =
      (if nop_of w lo = nop_of w ro \<or> \<not> may_contract w a b then Inr s
       else bind_res (connect w (nop_of w lo) (nop_of w ro) a b s) (\<lambda>(ok, s1).
         if \<not> ok then Inr s1
         else bind_res (emit w (erase_pair w l r cl cr s1)) (\<lambda>s2. bind_res (descend rc l s2) (\<lambda>s3.
           disconnect w (nop_of w lo) (nop_of w ro) a b (restore_pair l r cl cr s1 s3)))))"
    unfolding contract_ops_def cl(1) cr(1) prod.case option.case Let_def cl(2,3) cr(2,3) I(3) lo_def [symmetric] ro_def [symmetric] look unique
    by simp
  have rest': "rest w ps' = erase_at l (erase_at r (rest w ps))"
    using rest_snoc [OF assms(4,5)] by (simp add: ps'_def lo_def ro_def)
  show ?thesis
  proof (cases "nop_of w lo = nop_of w ro \<or> \<not> may_contract w a b")
    case True
    then have "step_visits n w ps f l r = []" by (auto simp: step_visits_def Let_def admissible_def lo_def [symmetric] ro_def [symmetric] a_def b_def)
    then show ?thesis using True unfold assms(2) outcome_refl by auto
  next
    case False
    have mn: "nop_of w lo < nop_of w ro" "nop_of w ro < length (input w)"
      using nop_of_mono [OF R(1,2)] False nop_of_less [OF R(2)] by auto
    have "(lo, ro) \<notin> set ps" using R(3) by (force simp: used_def)
    have fresh: "(all_ops w ! lo, all_ops w ! ro) \<notin> set (op_pairs w ps)"
    proof
      assume "(all_ops w ! lo, all_ops w ! ro) \<in> set (op_pairs w ps)"
      then obtain x y where xy: "(x, y) \<in> set ps" "all_ops w ! x = all_ops w ! lo" by (auto simp: op_pairs_def)
      then have "x < nops w" using I(1) by (auto simp: valid_pairing_def)
      then have "x = lo" using xy(2) plain R(1,2) by (simp add: plain_def nth_eq_iff_index_eq)
      then show False using xy(1) R(3) by (force simp: used_def)
    qed
    have lens: "(\<lambda>k. length (nopseq s ! k)) k = (\<lambda>k. length (filter (\<lambda>i. nop_of w i = k) (rest w ps))) k" if "k < length (input w)" for k
      using that by (simp add: nopseq_eq [OF assms(2)] ops_of_def)
    have acc: "accepts w (joined w ps) (\<lambda>k. length (nopseq s ! k)) (nop_of w lo) (nop_of w ro)
        \<longleftrightarrow> admissible w ps lo ro"
      using False lens mn by (auto simp: admissible_def accepts_def a_def b_def)
    have step: "step_visits n w ps f l r =
       (if admissible w ps lo ro
        then (if \<not> full_contractions w \<or> rest w ps' = [] then [(ps', append_scaled Recursively f (phase_of w l r) (contraction w a b))] else [])
          @ (if rest w ps' = [] then [] else visits n w ps' (append_scaled Recursively f (phase_of w l r) (contraction w a b)) l)
        else [])"
      by (simp add: step_visits_def Let_def ps'_def lo_def ro_def a_def b_def)
    note cm = connect_meta [OF plain I(5,6) joined_commute R(1,2) mn fresh I(2), folded a_def b_def, unfolded acc]
    show ?thesis
    proof (cases "admissible w ps lo ro")
      case no: False
      then have "connect w (nop_of w lo) (nop_of w ro) a b s = Inr (False, s)" using cm by simp
      then show ?thesis using unfold False step no assms(2) outcome_refl by auto
    next
      case True
      then obtain s1 where s1: "connect w (nop_of w lo) (nop_of w ro) a b s = Inr (True, s1)" "same_but_links s s1"
        "meta w (bump (bump (touches w ps) (nop_of w lo)) (nop_of w ro)) (bump2 (pair_count ps) lo ro)
          (bump (bump (involved ps) lo) ro) (op_pairs w ps @ [(a, b)]) s1"
        "link_meta w (joined_more (joined w ps) (nop_of w lo) (nop_of w ro)) s1"
        using cm [unfolded if_P [OF True]] by blast
      note F1 = same_but_linksD [OF s1(2)]
      have ne: "nop_of w lo \<noteq> nop_of w ro" "lo \<noteq> ro" using mn R(1) by auto
      have meta1: "meta w (touches w ps') (pair_count ps') (involved ps') (op_pairs w ps') s1" "link_meta w (joined w ps') s1"
        using s1(3,4) unfolding ps'_def counts_snoc [OF ne] a_def b_def by blast+
      let ?e = "erase_pair w l r cl cr s1"
      have at1: "op_at s1 cl = a" "op_at s1 cr = b" using cl(3) cr(3) F1(1) by (simp_all add: op_at_def)
      have fne: "fst cl \<noteq> fst cr" using ne cl(2) cr(2) by simp
      have flat_e: "flat (nopseq ?e) = map ((!) (flat (input w))) (rest w ps')"
      proof -
        have "flat (nopseq ?e) = erase_at l (erase_at r (flat (nopseq s)))"
          using flat_erase [OF locate_erase [OF cl(1) cr(1) assms(4) fne], of 0] flat_erase [OF cr(1), of 0]
          by (simp add: erase_pair_def F1(1))
        then show ?thesis by (simp only: I(8) erase_at_map rest')
      qed
      have inv_e: "wick_inv w ps' ?e"
      proof -
        have "sp_initial_size s + length ps < length (snd (append_scaled Recursively (sp s) (phase_of w l r) (contraction w a b)))"
          using proper_longer [OF contr [of a b], of "sp s" "phase_of w l r"] False I(7) by simp
        moreover have "length (rest w ps') = length (rest w ps) - 2" using assms(4,5) by (simp add: rest' erase_at_def)
        moreover have "length (nopseq ?e) = length (input w)" by (simp add: erase_pair_def F1(1) I(2))
        moreover have "valid_pairing w ps'" unfolding ps'_def by (rule valid_snoc [OF I(1) R ne(1)])
        moreover have "meta w (touches w ps') (pair_count ps') (involved ps') (op_pairs w ps') ?e" "link_meta w (joined w ps') ?e"
          using meta1 meta_cong [of ?e s1 w] link_meta_cong [of ?e s1 w] by (simp_all add: erase_pair_def)
        moreover have "op_input_ordinals ?e = rest w ps'" "nopseq_size ?e = length (rest w ps) - 2"
          "sp ?e = append_scaled Recursively (sp s) (phase_of w l r) (contraction w a b)" "sp_initial_size ?e = sp_initial_size s"
          by (simp_all add: erase_pair_def F1 I(3,4) rest' at1)
        moreover have "length ps' = Suc (length ps)" by (simp add: ps'_def)
        ultimately show ?thesis using flat_e unfolding wick_inv_def by simp
      qed
      have sp_e: "sp ?e = append_scaled Recursively f (phase_of w l r) (contraction w a b)"
        by (simp add: erase_pair_def F1 at1 assms(3))
      obtain s2 where s2: "emit w ?e = Inr s2" "wick_inv w ps' s2"
        "outcome w (if \<not> full_contractions w \<or> rest w ps' = [] then [(ps', sp ?e)] else []) ?e s2"
        using emit_ok [OF assms(1) inv_e] by (auto simp: ps'_def)
      have sp2: "sp s2 = sp ?e" using s2(3) by (simp add: outcome_def)
      obtain s3 where s3: "descend rc l s2 = Inr s3" "wick_inv w ps' s3"
        "outcome w (if rest w ps' = [] then [] else visits n w ps' (sp s2) l) s2 s3"
        using descend_ok [OF _ s2(2), of n rc l] assms(6) unfolding ps'_def lo_def ro_def by blast
      have out: "outcome w (step_visits n w ps f l r) ?e s3"
        using outcome_trans [OF s2(3) s3(3)] True unfolding step sp2 sp_e by simp
      let ?r = "restore_pair l r cl cr s1 s3"
      have nop3: "nopseq s3 = erase_op cl (erase_op cr (nopseq s))"
        using nopseq_eq [OF s3(2)] nopseq_eq [OF inv_e] by (simp add: erase_pair_def F1)
      have nop_r: "nopseq ?r = nopseq s"
      proof -
        obtain r1 e1 r2 e2 where c: "cl = (r1, e1)" "cr = (r2, e2)" by fastforce
        show ?thesis using restore_two [of r1 "nopseq s" e1 r2 e2] cl(4,5) cr(4,5) fne
          by (simp add: restore_pair_def nop3 op_at_def F1 c)
      qed
      have ord_r: "op_input_ordinals ?r = rest w ps"
      proof -
        have el: "erase_at r (rest w ps) ! l = rest w ps ! l" "l < length (erase_at r (rest w ps))"
          using assms(4,5) by (simp_all add: erase_at_def nth_append)
        have "insert_at l (rest w ps ! l) (erase_at l (erase_at r (rest w ps))) = erase_at r (rest w ps)"
          using insert_erase_at [OF el(2)] el(1) by simp
        moreover have "op_input_ordinals s3 = erase_at l (erase_at r (rest w ps))" using s3(2) by (simp add: wick_inv_def rest')
        ultimately show ?thesis using insert_erase_at [OF assms(5)] by (simp add: restore_pair_def F1 I(3))
      qed
      have meta_r: "meta w (bump (bump (touches w ps) (nop_of w lo)) (nop_of w ro)) (bump2 (pair_count ps) lo ro)
          (bump (bump (involved ps) lo) ro) (op_pairs w ps @ [(a, b)]) ?r"
        "link_meta w (joined_more (joined w ps) (nop_of w lo) (nop_of w ro)) ?r"
      proof -
        have "meta w (touches w ps') (pair_count ps') (involved ps') (op_pairs w ps') ?r" "link_meta w (joined w ps') ?r"
          using s3(2) meta_cong [of ?r s3 w] link_meta_cong [of ?r s3 w] by (simp_all add: wick_inv_def restore_pair_def)
        then show "meta w (bump (bump (touches w ps) (nop_of w lo)) (nop_of w ro)) (bump2 (pair_count ps) lo ro)
          (bump (bump (involved ps) lo) ro) (op_pairs w ps @ [(a, b)]) ?r"
          "link_meta w (joined_more (joined w ps) (nop_of w lo) (nop_of w ro)) ?r"
          unfolding ps'_def counts_snoc [OF ne] a_def b_def by blast+
      qed
      have "length (nopseq ?r) = length (input w)" using nop_r I(2) by simp
      from disconnect_meta [OF plain joined_commute R(1,2) mn fresh this, folded a_def b_def, OF meta_r]
      obtain s4 where s4: "disconnect w (nop_of w lo) (nop_of w ro) a b ?r = Inr s4" "same_but_links ?r s4"
        "meta w (touches w ps) (pair_count ps) (involved ps) (op_pairs w ps) s4" "link_meta w (joined w ps) s4" by blast
      note F4 = same_but_linksD [OF s4(2)]
      have size3: "nopseq_size s3 + 2 = length (rest w ps)"
        using s3(2) assms(4,5) by (simp add: wick_inv_def rest' erase_at_def)
      have sp4: "sp s4 = sp s" "sp_initial_size s4 = sp_initial_size s"
        using out by (simp_all add: F4 restore_pair_def F1 outcome_def erase_pair_def)
      have "wick_inv w ps s4"
        unfolding wick_inv_def using I s4(3,4) nop_r ord_r size3 sp4 by (simp add: F4) (simp add: restore_pair_def)
      moreover have "outcome w (step_visits n w ps f l r) s s4"
        using out by (simp add: outcome_def F4 restore_pair_def F1 erase_pair_def)
      moreover have "contract_ops w rc l r s = Inr s4"
        unfolding unfold using False s1(1) s2(1) s3(1) s4(1) by simp
      ultimately show ?thesis by blast
    qed
  qed
qed

section \<open>All of it\<close>

lemma full_stop:
  assumes "proper w" "wick_inv w ps s" "rest w ps \<noteq> []" "\<not> is_annihilator w (concat (nopseq s) ! 0)"
  shows "step_visits n w ps f 0 r = []"
proof -
  have f: "flat (nopseq s) = map ((!) (flat (input w))) (rest w ps)" using assms(2) by (simp add: wick_inv_def)
  then have "map snd (flat (nopseq s)) = map (snd \<circ> (!) (flat (input w))) (rest w ps)" by simp
  then have "concat (nopseq s) = map (snd \<circ> (!) (flat (input w))) (rest w ps)" by (simp only: map_snd_flat)
  moreover have "rest w ps ! 0 \<in> set (rest w ps)" using assms(3) by simp
  then have "rest w ps ! 0 < nops w" using rest_simps(3) by blast
  ultimately have "concat (nopseq s) ! 0 = all_ops w ! (rest w ps ! 0)"
    using assms(3) snd_flat [of "rest w ps ! 0" "input w" 0] by (simp add: nth_map)
  then have "\<not> may_contract w (all_ops w ! (rest w ps ! 0)) b" for b using assms(1,4) by (auto simp: proper_def)
  then show ?thesis by (simp add: step_visits_def Let_def admissible_def)
qed

theorem recursion_correct:
  assumes "proper w" "length (rest w ps) < n" "full_contractions w \<Longrightarrow> l = 0"
  shows "recursion_ok n w (recursive_nontensor_wick n w) ps l"
  using assms(2,3)
proof (induction n arbitrary: ps l)
  case (Suc n)
  show ?case
    unfolding recursion_ok_def
  proof (intro allI impI, elim conjE)
    fix s
    assume s: "wick_inv w ps s" "left_op_offset s = l" "rest w ps \<noteq> []"
    have f: "flat (nopseq s) = map ((!) (flat (input w))) (rest w ps)" using s(1) by (simp add: wick_inv_def)
    then have "length (flat (nopseq s)) = length (rest w ps)" by simp
    then have len: "length (concat (nopseq s)) = length (rest w ps)" by (simp only: length_flat)
    let ?ls = "if full_contractions w then [l] else [l..<length (rest w ps)]"
    have one: "\<exists>s'. contract_ops w (recursive_nontensor_wick n w) k r s = Inr s' \<and> wick_inv w ps s' \<and> outcome w (step_visits n w ps f k r) s s'"
      if "wick_inv w ps s" "sp s = f" "k \<in> set ?ls" "r \<in> set [Suc k..<length (rest w ps)]" for s f k r
    proof (rule contract_ops_ok [OF assms(1) that(1,2)])
      show kr: "k < r" "r < length (rest w ps)" using that(4) by auto
      show "recursion_ok n w (recursive_nontensor_wick n w) (ps @ [(rest w ps ! k, rest w ps ! r)]) k"
      proof (rule Suc.IH)
        show "length (rest w (ps @ [(rest w ps ! k, rest w ps ! r)])) < n"
          using Suc.prems(1) kr by (simp add: rest_snoc [OF kr] erase_at_def)
        show "full_contractions w \<Longrightarrow> k = 0" using that(3) Suc.prems(2) by simp
      qed
    qed
    have inner: "\<exists>s'. fold_res (\<lambda>s r. contract_ops w (recursive_nontensor_wick n w) k r s) s [Suc k..<length (rest w ps)] = Inr s'
        \<and> wick_inv w ps s' \<and> outcome w (concat (map (step_visits n w ps f k) [Suc k..<length (rest w ps)])) s s'"
      if "wick_inv w ps s" "sp s = f" "k \<in> set ?ls" for s f k
      by (rule fold_outcome [OF _ that(1,2)]) (rule one [OF _ _ that(3)], assumption+)
    have outer: "\<exists>s'. fold_res (\<lambda>s k. fold_res (\<lambda>s r. contract_ops w (recursive_nontensor_wick n w) k r s) s [Suc k..<length (rest w ps)]) s ?ls = Inr s'
        \<and> wick_inv w ps s' \<and> outcome w (visits (Suc n) w ps (sp s) l) s s'"
      unfolding visits_Suc by (rule fold_outcome [OF _ s(1) refl]) (rule inner, assumption+)
    show "\<exists>s'. recursive_nontensor_wick (Suc n) w s = Inr s' \<and> wick_inv w ps s' \<and> outcome w (visits (Suc n) w ps (sp s) l) s s'"
    proof (cases "full_contractions w \<and> \<not> is_annihilator w (concat (nopseq s) ! l)")
      case True
      then have "l = 0" using Suc.prems(2) by simp
      then have "visits (Suc n) w ps (sp s) l = []"
        using True full_stop [OF assms(1) s(1,3)] unfolding visits_Suc by simp
      moreover have "\<not> length (concat (nopseq s)) \<le> l" using \<open>l = 0\<close> len s(3) by simp
      then have "recursive_nontensor_wick (Suc n) w s = Inr s" using True s(2) by (simp add: Let_def del: concat_eq_Nil_conv)
      ultimately show ?thesis using s(1) outcome_refl by auto
    next
      case False
      have "\<not> (full_contractions w \<and> length (concat (nopseq s)) \<le> l)" using Suc.prems(2) s(3) len by auto
      then have "recursive_nontensor_wick (Suc n) w s =
          fold_res (\<lambda>s k. fold_res (\<lambda>s r. contract_ops w (recursive_nontensor_wick n w) k r s) s [Suc k..<length (rest w ps)]) s ?ls"
        using False s(2) unfolding len [symmetric] recursive_nontensor_wick.simps Let_def s(2) by (simp only: if_False simp_thms split: if_splits)
      then show ?thesis using outer by simp
    qed
  qed
qed simp

section \<open>From the initial state\<close>

definition bare_term :: "('i, 'a) wick_theorem \<Rightarrow> 'a factors \<Rightarrow> ('i, 'a) wick_term list" where
  "bare_term w pre = (if \<not> full_contractions w \<and> (nop_nconnections_total w = 0 \<or> vacuum_of w = MultiProduct)
     then [\<lparr>term_factors = pre, term_ops = input w, term_partners = input_partner_indices w\<rparr>] else [])"

definition all_visits :: "('i, 'a) wick_theorem \<Rightarrow> 'a factors \<Rightarrow> 'a wick_visit list" where
  "all_visits w pre = visits (Suc (nops w)) w [] pre 0"

lemma rest_Nil: "rest w [] = [0..<nops w]"
  by (simp add: rest_def used_def)

lemma initial_ok:
  assumes "plain w"
  shows "\<exists>s. initial_state w co pre = Inr s \<and> wick_inv w [] s \<and> left_op_offset s = 0 \<and> count_only s = co \<and> counter s = 0
     \<and> result_terms s = [] \<and> sp s = pre \<and> nopseq s = input w"
proof -
  have pl: "0 < nops w" "op_npartitions w = nops w" "length (nop_partition_idx w) = length (input w)"
    "\<And>p. p < nop_npartitions w \<Longrightarrow> Suc p \<in> set (nop_partition_idx w)"
    using assms by (auto simp: plain_def)
  then have n: "0 < length (input w)" by auto
  have parts: "initial_partitions w = map (\<lambda>p. {k. k < length (input w) \<and> nop_partition_idx w ! k = Suc p}) [0..<nop_npartitions w]"
    by (auto simp: initial_partitions_def pl(3))
  have "\<not> list_ex ((=) {}) (initial_partitions w)"
  proof -
    have "{} \<noteq> {k. k < length (input w) \<and> nop_partition_idx w ! k = Suc p}" if "p < nop_npartitions w" for p
      using pl(4) [OF that] pl(3) by (auto simp: in_set_conv_nth)
    then show ?thesis unfolding parts list_ex_iff by (metis (no_types, lifting) atLeastLessThan_iff imageE set_map set_upt)
  qed
  moreover have look: "map_of (op_to_input_ordinal w) (all_ops w ! i) = Some i" if "i < nops w" for i
    using plain_lookup [OF assms that] .
  then have "map_of (op_to_input_ordinal w) a \<noteq> None" if "a \<in> set (all_ops w)" for a
    using that unfolding in_set_conv_nth by force
  then have "\<not> list_ex (\<lambda>a. map_of (op_to_input_ordinal w) a = None) (all_ops w)"
    unfolding list_ex_iff by blast
  moreover have ords: "map (\<lambda>a. the (map_of (op_to_input_ordinal w) a)) (all_ops w) = [0..<nops w]"
    using look by (intro nth_equalityI) auto
  ultimately obtain s where s: "initial_state w co pre = Inr s" "nopseq s = input w" "op_input_ordinals s = [0..<nops w]" "nopseq_size s = nops w"
    "sp s = pre" "sp_initial_size s = length (snd pre)" "contractions s = []" "left_op_offset s = 0" "count_only s = co" "counter s = 0"
    "connections s = replicate (length (input w)) 0" "nop_adjacency_matrix s = replicate (length (input w) * (length (input w) - 1) div 2) 0"
    "nop_nconnections s = replicate (length (input w)) 0" "nop_partitions s = initial_partitions w"
    "op_partition_cdeg_matrix s = replicate (nops w * (nops w - 1) div 2) 0" "op_partition_ncontractions s = replicate (nops w) 0" "result_terms s = []"
    unfolding initial_state_def ntri_def if_P [OF n] pl(2) if_P [OF pl(1)] bind_res_simps Let_def ords
    by (simp del: concat_eq_Nil_conv)
  have zeros: "map (\<lambda>i. 0) [0..<m] = replicate m (0 :: nat)" for m :: nat by (simp add: map_replicate_const)
  have "nop_meta w (touches w []) s" using s(13,14) parts unfolding zeros [symmetric] nop_meta_def by (simp add: touches_def)
  moreover have "op_meta w (pair_count []) (involved []) s"
    using s(15,16) tri_bound unfolding zeros [symmetric] op_meta_def by (auto simp: involved_def pair_count_def)
  moreover have "link_meta w (joined w []) s"
    using s(11,12) tri_bound by (auto simp: link_meta_def joined_def)
  moreover have "flat (input w) = map ((!) (flat (input w))) [0..<nops w]"
    using map_nth [of "flat (input w)"] by (simp del: length_concat)
  ultimately have "wick_inv w [] s"
    using s(2-7) by (simp add: wick_inv_def valid_pairing_def meta_def op_pairs_def rest_Nil)
  then show ?thesis using s by blast
qed

theorem compute_ok:
  assumes "proper w"
  shows "\<exists>s. compute_nontensor_wick w co pre = Inr s \<and> wick_inv w [] s \<and> sp s = pre
    \<and> counter s = (if co then length (all_visits w pre) + length (bare_term w pre) else 0)
    \<and> result_terms s = (if co then [] else map (term_of w) (all_visits w pre) @ bare_term w pre)"
proof -
  have plain: "plain w" using assms by (simp add: proper_def)
  obtain s where s: "initial_state w co pre = Inr s" "wick_inv w [] s" "left_op_offset s = 0" "count_only s = co" "counter s = 0"
    "result_terms s = []" "sp s = pre" using initial_ok [OF plain, of co pre] by blast
  have "recursion_ok (Suc (nops w)) w (recursive_nontensor_wick (Suc (nops w)) w) [] 0"
    by (rule recursion_correct [OF assms]) (simp_all add: rest_Nil)
  moreover have "rest w [] \<noteq> []" using plain by (simp add: rest_Nil plain_def)
  ultimately obtain t where t: "recursive_nontensor_wick (Suc (nops w)) w s = Inr t" "wick_inv w [] t"
    "outcome w (all_visits w pre) s t" using s(2,3,7) unfolding recursion_ok_def all_visits_def by metis
  have t': "count_only t = co" "sp t = pre" "counter t = (if co then length (all_visits w pre) else 0)"
    "result_terms t = (if co then [] else map (term_of w) (all_visits w pre))"
    using t(3) s(4-7) by (auto simp: outcome_def)
  define u where "u = (if bare_term w pre = [] then t else if co then t\<lparr>counter := counter t + 1\<rparr>
    else t\<lparr>result_terms := result_terms t @ bare_term w pre\<rparr>)"
  have "compute_nontensor_wick w co pre = Inr u"
    by (simp add: compute_nontensor_wick_def s(1) t(1) t'(1) u_def bare_term_def del: recursive_nontensor_wick.simps)
  moreover have "wick_inv w [] u"
    using t(2) meta_cong [of u t w] link_meta_cong [of u t w] by (simp add: wick_inv_def u_def)
  moreover have "sp u = pre" "counter u = (if co then length (all_visits w pre) + length (bare_term w pre) else 0)"
    "result_terms u = (if co then [] else map (term_of w) (all_visits w pre) @ bare_term w pre)"
    using t' by (auto simp: u_def bare_term_def)
  ultimately show ?thesis by blast
qed

end
