(* ===== verification/WickPairings.thy ===== *)
theory WickPairings
  imports WickRecursion
begin

text \<open>
  Which pairings the contraction engine visits (SeQuant/core/wick.hpp), said without its loops: the perfect matchings of
  the operators by contractible pairs that connect what has to be connected, and each of them once.
\<close>

section \<open>Pairings\<close>

definition allowed_pair :: "('i, 'a) wick_theorem \<Rightarrow> nat \<times> nat \<Rightarrow> bool" where
  "allowed_pair w q \<longleftrightarrow> fst q < snd q \<and> nop_of w (fst q) \<noteq> nop_of w (snd q) \<and> may_contract w (all_ops w ! fst q) (all_ops w ! snd q)
     \<and> (nop_avoided_connections w \<noteq> [] \<longrightarrow> bit (nop_avoided_connections w ! nop_of w (fst q)) (nop_of w (snd q)))"

definition extends_by :: "('i, 'a) wick_theorem \<Rightarrow> pairing \<Rightarrow> pairing \<Rightarrow> bool" where
  "extends_by w ps qs \<longleftrightarrow> distinct (map fst qs @ map snd qs) \<and> used qs \<subseteq> set (rest w ps) \<and> (\<forall>q\<in>set qs. allowed_pair w q)"

definition ops_left :: "('i, 'a) wick_theorem \<Rightarrow> pairing \<Rightarrow> nat \<Rightarrow> nat" where
  "ops_left w ps k = length (filter (\<lambda>i. nop_of w i = k) (rest w ps))"

definition missing_of :: "('i, 'a) wick_theorem \<Rightarrow> pairing \<Rightarrow> nat \<Rightarrow> nat set" where
  "missing_of w ps k = {j. j < 32 \<and> \<not> bit (target_connections w ! k) j \<and> joined w ps k j = 0}"

definition keeps :: "('i, 'a) wick_theorem \<Rightarrow> pairing \<Rightarrow> nat \<times> nat \<Rightarrow> bool" where
  "keeps w ps q \<longleftrightarrow> (target_connections w \<noteq> [] \<longrightarrow>
     (\<forall>k\<in>{nop_of w (fst q), nop_of w (snd q)}. card (missing_of w (ps @ [q]) k) \<le> ops_left w ps k - 1))"

primrec kept :: "('i, 'a) wick_theorem \<Rightarrow> pairing \<Rightarrow> pairing \<Rightarrow> bool" where
  "kept w ps [] = True"
| "kept w ps (q # qs) = (keeps w ps q \<and> kept w (ps @ [q]) qs)"

text \<open>Every operator is joined to those it has to be connected with.\<close>

definition required_met :: "('i, 'a) wick_theorem \<Rightarrow> pairing \<Rightarrow> bool" where
  "required_met w ps \<longleftrightarrow> (target_connections w \<noteq> [] \<longrightarrow>
     (\<forall>i<nops w. \<forall>j<32. bit (target_connections w ! nop_of w i) j \<or> 0 < joined w ps (nop_of w i) j))"

lemma admissible_iff:
  assumes "fst q < snd q"
  shows "admissible w ps (fst q) (snd q) \<longleftrightarrow> allowed_pair w q \<and> keeps w ps q"
proof (cases "nop_of w (fst q) = nop_of w (snd q)")
  case False
  have m: "{j. j < 32 \<and> \<not> bit (target_connections w ! k) j \<and> joined_more (joined w ps) (nop_of w (fst q)) (nop_of w (snd q)) k j = 0}
      = missing_of w (ps @ [q]) k" for k
    using counts_snoc(4) [OF False, of ps] assms by (cases q) (simp add: missing_of_def)
  show ?thesis using assms by (auto simp: admissible_def accepts_def needs_of_def m keeps_def allowed_pair_def ops_left_def)
qed (simp add: admissible_def allowed_pair_def)

lemma used_simps [simp]: "used [] = {}" "used (q # qs) = insert (fst q) (insert (snd q) (used qs))" "used (ps @ qs) = used ps \<union> used qs"
  by (auto simp: used_def)

lemma set_rest: "x \<in> set (rest w ps) \<longleftrightarrow> x < nops w \<and> x \<notin> used ps"
  by (simp add: rest_simps(3))

lemma extends_by_Cons:
  "extends_by w ps (q # qs) \<longleftrightarrow> allowed_pair w q \<and> fst q \<in> set (rest w ps) \<and> snd q \<in> set (rest w ps) \<and> extends_by w (ps @ [q]) qs"
proof -
  have d: "distinct (map fst (q # qs) @ map snd (q # qs)) \<longleftrightarrow>
      fst q \<noteq> snd q \<and> fst q \<notin> used qs \<and> snd q \<notin> used qs \<and> distinct (map fst qs @ map snd qs)"
    unfolding used_def by auto
  have u: "used qs \<subseteq> set (rest w (ps @ [q])) \<longleftrightarrow> used qs \<subseteq> set (rest w ps) \<and> fst q \<notin> used qs \<and> snd q \<notin> used qs"
    unfolding subset_iff set_rest by auto
  have "fst q \<noteq> snd q" if "allowed_pair w q" using that by (auto simp: allowed_pair_def)
  then show ?thesis unfolding extends_by_def d u by (simp del: map_append) blast
qed

lemma extends_by_Nil: "extends_by w ps []"
  by (simp add: extends_by_def)

section \<open>Soundness and completeness of the pruning\<close>

definition closed_met :: "('i, 'a) wick_theorem \<Rightarrow> pairing \<Rightarrow> bool" where
  "closed_met w ps \<longleftrightarrow> (target_connections w \<noteq> [] \<longrightarrow> (\<forall>i<nops w. ops_left w ps (nop_of w i) = 0 \<longrightarrow> missing_of w ps (nop_of w i) = {}))"

lemma finite_missing: "finite (missing_of w ps k)"
  by (simp add: missing_of_def)

lemma joined_append: "joined w (ps @ qs) k j = joined w ps k j + joined w qs k j"
  by (simp add: joined_def)

lemma missing_mono: "missing_of w (ps @ qs) k \<subseteq> missing_of w ps k"
  by (auto simp: missing_of_def joined_append)

lemma ops_left_card: "ops_left w ps k = card {i \<in> set (rest w ps). nop_of w i = k}"
  unfolding ops_left_def by (subst distinct_card [symmetric]) (simp_all add: rest_simps(2))

lemma ops_left_snoc:
  assumes "fst q \<in> set (rest w ps)" "snd q \<in> set (rest w ps)" "nop_of w (fst q) \<noteq> nop_of w (snd q)"
  shows "ops_left w (ps @ [q]) k = ops_left w ps k - (if k \<in> {nop_of w (fst q), nop_of w (snd q)} then 1 else 0)"
proof -
  let ?A = "{i \<in> set (rest w ps). nop_of w i = k}"
  have eq: "{i \<in> set (rest w (ps @ [q])). nop_of w i = k} = ?A - {fst q, snd q}" by (auto simp: set_rest)
  show ?thesis
  proof (cases "k \<in> {nop_of w (fst q), nop_of w (snd q)}")
    case True
    then consider "nop_of w (fst q) = k" "nop_of w (snd q) \<noteq> k" | "nop_of w (snd q) = k" "nop_of w (fst q) \<noteq> k" using assms(3) by blast
    then obtain x where x: "x \<in> ?A" "?A - {fst q, snd q} = ?A - {x}"
    proof cases
      case a: 1
      show thesis by (rule that [of "fst q"]) (use a assms(1) in blast)+
    next
      case a: 2
      show thesis by (rule that [of "snd q"]) (use a assms(2) in blast)+
    qed
    have "card (?A - {x}) = card ?A - 1" using x(1) by simp
    then show ?thesis unfolding ops_left_card eq x(2) using True by simp
  next
    case False
    then have "?A - {fst q, snd q} = ?A" by auto
    then show ?thesis unfolding ops_left_card eq using False by simp
  qed
qed

lemma closed_met_step:
  assumes "closed_met w ps" "keeps w ps q" "fst q \<in> set (rest w ps)" "snd q \<in> set (rest w ps)" "nop_of w (fst q) \<noteq> nop_of w (snd q)"
  shows "closed_met w (ps @ [q])"
  unfolding closed_met_def
proof (intro impI allI)
  fix i
  assume t: "target_connections w \<noteq> []" and i: "i < nops w" "ops_left w (ps @ [q]) (nop_of w i) = 0"
  show "missing_of w (ps @ [q]) (nop_of w i) = {}"
  proof (cases "nop_of w i \<in> {nop_of w (fst q), nop_of w (snd q)}")
    case True
    then have "card (missing_of w (ps @ [q]) (nop_of w i)) \<le> ops_left w ps (nop_of w i) - 1" using assms(2) t unfolding keeps_def by blast
    then have "card (missing_of w (ps @ [q]) (nop_of w i)) = 0" using True i(2) ops_left_snoc [OF assms(3-5), of "nop_of w i"] by simp
    then show ?thesis unfolding card_0_eq [OF finite_missing] .
  next
    case False
    then have "missing_of w ps (nop_of w i) = {}"
      using assms(1) t i ops_left_snoc [OF assms(3-5), of "nop_of w i"] by (simp add: closed_met_def)
    then show ?thesis using missing_mono [of w ps "[q]" "nop_of w i"] by simp
  qed
qed

lemma kept_sound:
  assumes "extends_by w ps qs" "kept w ps qs" "closed_met w ps" "rest w (ps @ qs) = []"
  shows "required_met w (ps @ qs)"
  using assms
proof (induction qs arbitrary: ps)
  case Nil
  then have "missing_of w ps (nop_of w i) = {}" if "i < nops w" "target_connections w \<noteq> []" for i
    using that by (simp add: closed_met_def ops_left_def)
  then show ?case by (auto simp: required_met_def missing_of_def)
next
  case (Cons q qs)
  then have "closed_met w (ps @ [q])" by (intro closed_met_step) (auto simp: extends_by_Cons allowed_pair_def)
  then show ?case using Cons.IH [of "ps @ [q]"] Cons.prems by (simp add: extends_by_Cons)
qed

lemma missing_few:
  assumes "extends_by w ps qs" "\<And>j. j \<in> missing_of w ps k \<Longrightarrow> 0 < joined w qs k j"
  shows "card (missing_of w ps k) \<le> ops_left w ps k"
proof -
  let ?Q = "{q \<in> set qs. nop_of w (fst q) = k \<or> nop_of w (snd q) = k}"
  define g where "g q = (if nop_of w (fst q) = k then nop_of w (snd q) else nop_of w (fst q))" for q
  define h where "h q = (if nop_of w (fst q) = k then fst q else snd q)" for q :: "nat \<times> nat"
  have "missing_of w ps k \<subseteq> g ` ?Q"
  proof
    fix j
    assume "j \<in> missing_of w ps k"
    then have "filter (\<lambda>(l, r). {nop_of w l, nop_of w r} = {k, j}) qs \<noteq> []" using assms(2) by (simp add: joined_def)
    then obtain l r where q: "(l, r) \<in> set qs" "{nop_of w l, nop_of w r} = {k, j}" by (auto simp: filter_empty_conv)
    then have "(l, r) \<in> ?Q" "g (l, r) = j" by (auto simp: g_def doubleton_eq_iff)
    then show "j \<in> g ` ?Q" by force
  qed
  then have "card (missing_of w ps k) \<le> card (g ` ?Q)" by (intro card_mono) auto
  also have "\<dots> \<le> card ?Q" by (intro card_image_le) auto
  also have "\<dots> \<le> card {i \<in> set (rest w ps). nop_of w i = k}"
  proof (rule card_inj_on_le)
    have d: "distinct (map fst qs)" "distinct (map snd qs)" "fst ` set qs \<inter> snd ` set qs = {}"
      using assms(1) by (auto simp: extends_by_def)
    show "inj_on h ?Q"
    proof (rule inj_onI)
      fix x y
      assume xy: "x \<in> ?Q" "y \<in> ?Q" "h x = h y"
      have one: "x = y" if "fst x = fst y \<or> snd x = snd y" using that xy(1,2) d(1,2) by (auto simp: distinct_map inj_on_def)
      have "fst x \<noteq> snd y" "snd x \<noteq> fst y" using xy(1,2) d(3) by force+
      then show "x = y" using xy(3) one by (simp add: h_def split: if_splits)
    qed
    show "h ` ?Q \<subseteq> {i \<in> set (rest w ps). nop_of w i = k}"
      using assms(1) by (auto simp: h_def extends_by_def used_def)
  qed simp
  finally show ?thesis by (simp add: ops_left_card)
qed

lemma kept_complete:
  assumes "extends_by w ps qs" "required_met w (ps @ qs)"
  shows "kept w ps qs"
  using assms
proof (induction qs arbitrary: ps)
  case (Cons q qs)
  have q: "fst q \<in> set (rest w ps)" "snd q \<in> set (rest w ps)" "nop_of w (fst q) \<noteq> nop_of w (snd q)" "extends_by w (ps @ [q]) qs"
    using Cons.prems(1) by (auto simp: extends_by_Cons allowed_pair_def)
  have "card (missing_of w (ps @ [q]) k) \<le> ops_left w ps k - 1"
    if t: "target_connections w \<noteq> []" and k: "k \<in> {nop_of w (fst q), nop_of w (snd q)}" for k
  proof -
    obtain i where i: "i < nops w" "nop_of w i = k" using k q(1,2) by (auto simp: set_rest)
    have "0 < joined w qs k j" if j: "j \<in> missing_of w (ps @ [q]) k" for j
    proof -
      have "0 < joined w (ps @ q # qs) k j" using Cons.prems(2) t i j by (auto simp: required_met_def missing_of_def)
      then show ?thesis using j joined_append [of w "ps @ [q]" qs k j] by (simp add: missing_of_def)
    qed
    from missing_few [OF q(4) this] show ?thesis using ops_left_snoc [OF q(1-3), of k] k by simp
  qed
  then have "keeps w ps q" by (auto simp: keeps_def)
  then show ?case using Cons.IH [OF q(4)] Cons.prems(2) by simp
qed simp

section \<open>The loops visit the routes\<close>

definition route :: "('i, 'a) wick_theorem \<Rightarrow> pairing \<Rightarrow> pairing \<Rightarrow> bool" where
  "route w ps qs \<longleftrightarrow> extends_by w ps qs \<and> kept w ps qs \<and> sorted (map fst qs)"

lemma route_Nil: "route w ps []"
  by (simp add: route_def extends_by_Nil)

lemma sorted_Cons_hd: "sorted (x # xs) \<longleftrightarrow> sorted xs \<and> (xs \<noteq> [] \<longrightarrow> x \<le> hd xs)" for x :: "'b::linorder"
  by (cases xs) auto

lemma route_Cons:
  "route w ps (q # qs) \<longleftrightarrow> admissible w ps (fst q) (snd q) \<and> fst q < snd q \<and> fst q \<in> set (rest w ps) \<and> snd q \<in> set (rest w ps)
     \<and> route w (ps @ [q]) qs \<and> (qs \<noteq> [] \<longrightarrow> fst q < fst (hd qs))"
proof -
  have "fst q \<noteq> fst (hd qs)" if "extends_by w (ps @ [q]) qs" "qs \<noteq> []"
    using that by (cases qs) (auto simp: extends_by_Cons set_rest)
  then have "extends_by w (ps @ [q]) qs \<Longrightarrow> sorted (map fst (q # qs)) \<longleftrightarrow> sorted (map fst qs) \<and> (qs \<noteq> [] \<longrightarrow> fst q < fst (hd qs))"
    unfolding list.map sorted_Cons_hd by (auto simp: hd_map)
  moreover have "fst q < snd q" if "allowed_pair w q" using that by (simp add: allowed_pair_def)
  moreover note admissible_iff [of q w ps]
  ultimately show ?thesis unfolding route_def extends_by_Cons kept.simps by blast
qed

lemma position_pair:
  assumes "x \<in> set (rest w ps)" "y \<in> set (rest w ps)" "x < y"
  obtains l r where "l < r" "r < length (rest w ps)" "x = rest w ps ! l" "y = rest w ps ! r"
proof -
  obtain l r where lr: "l < length (rest w ps)" "r < length (rest w ps)" "x = rest w ps ! l" "y = rest w ps ! r"
    using assms(1,2) by (auto simp: in_set_conv_nth)
  have "l < r"
  proof (rule ccontr)
    assume "\<not> l < r"
    then have "rest w ps ! r \<le> rest w ps ! l" using lr(1) rest_simps(1) [of w ps] by (intro sorted_nth_mono) auto
    then show False using assms(3) lr by simp
  qed
  then show thesis using that lr by blast
qed

lemma drop_position:
  assumes "l < length (rest w ps)"
  shows "rest w ps ! l \<in> set (drop k (rest w ps)) \<longleftrightarrow> k \<le> l"
proof
  assume "rest w ps ! l \<in> set (drop k (rest w ps))"
  then obtain m where "m < length (rest w ps) - k" "rest w ps ! l = rest w ps ! (k + m)" by (auto simp: in_set_conv_nth)
  then show "k \<le> l" using assms rest_simps(2) [of w ps] by (simp add: nth_eq_iff_index_eq)
next
  assume "k \<le> l"
  then have "drop k (rest w ps) ! (l - k) = rest w ps ! l" "l - k < length (drop k (rest w ps))" using assms by auto
  then show "rest w ps ! l \<in> set (drop k (rest w ps))" by (metis nth_mem)
qed

lemma after_left:
  assumes "l < r" "r < length (rest w ps)"
  shows "x \<in> set (drop l (rest w (ps @ [(rest w ps ! l, rest w ps ! r)]))) \<longleftrightarrow>
    x \<in> set (rest w (ps @ [(rest w ps ! l, rest w ps ! r)])) \<and> rest w ps ! l < x"
proof -
  let ?R = "rest w ps"
  let ?R' = "rest w (ps @ [(?R ! l, ?R ! r)])"
  define P where "P = (\<lambda>x. x \<noteq> ?R ! l \<and> x \<noteq> ?R ! r)"
  have R': "?R' = filter P ?R" unfolding rest_snoc [OF assms] P_def by (rule erase_two [OF rest_simps(2) assms])
  have split: "?R = take l ?R @ ?R ! l # drop (Suc l) ?R" using assms by (simp add: id_take_nth_drop [symmetric])
  have lower: "y < ?R ! l" if "y \<in> set (take l ?R)" for y
  proof -
    from that obtain m where m: "m < l" "y = ?R ! m" using assms by (auto simp: in_set_conv_nth)
    have "?R ! m \<le> ?R ! l" using m(1) assms rest_simps(1) [of w ps] by (intro sorted_nth_mono) auto
    moreover have "?R ! m \<noteq> ?R ! l" using m(1) assms rest_simps(2) [of w ps] by (simp add: nth_eq_iff_index_eq)
    ultimately show ?thesis using m(2) by simp
  qed
  have upper: "?R ! l < y" if "y \<in> set (drop (Suc l) ?R)" for y
  proof -
    from that obtain m where "m < length ?R - Suc l" "y = ?R ! Suc (l + m)" by (auto simp: in_set_conv_nth)
    then have m: "Suc (l + m) < length ?R" "y = ?R ! Suc (l + m)" by simp_all
    have "?R ! l \<le> y" using m rest_simps(1) [of w ps] by (auto intro: sorted_nth_mono)
    moreover have "?R ! l \<noteq> y" using m assms rest_simps(2) [of w ps] by (simp add: nth_eq_iff_index_eq)
    ultimately show ?thesis by simp
  qed
  have "?R ! l < ?R ! r" by (rule rest_nth(1) [OF assms])
  then have "filter P (take l ?R) = take l ?R" using lower by (intro filter_True ballI) (force simp: P_def)
  moreover have "\<not> P (?R ! l)" by (simp add: P_def)
  ultimately have form: "?R' = take l ?R @ filter P (drop (Suc l) ?R)"
    unfolding R' by (subst split) (simp del: append_take_drop_id)
  have "length (take l ?R) = l" using assms by simp
  then have tail: "drop l ?R' = filter P (drop (Suc l) ?R)" unfolding form by simp
  have low: "y \<le> ?R ! l" if "y \<in> set (take l ?R)" for y using lower [OF that] by simp
  show ?thesis unfolding tail using lower upper form by (auto dest: low)
qed

lemma in_step:
  "pr \<in> fst ` set (step_visits n w ps f l r) \<longleftrightarrow> admissible w ps (rest w ps ! l) (rest w ps ! r)
     \<and> (pr = ps @ [(rest w ps ! l, rest w ps ! r)] \<and> (\<not> full_contractions w \<or> rest w pr = [])
        \<or> rest w (ps @ [(rest w ps ! l, rest w ps ! r)]) \<noteq> []
          \<and> pr \<in> fst ` set (visits n w (ps @ [(rest w ps ! l, rest w ps ! r)]) (append_scaled Recursively f (phase_of w l r)
               (contraction w (all_ops w ! (rest w ps ! l)) (all_ops w ! (rest w ps ! r)))) l))"
  by (cases "admissible w ps (rest w ps ! l) (rest w ps ! r)"; cases "full_contractions w";
      cases "rest w (ps @ [(rest w ps ! l, rest w ps ! r)]) = []") (auto simp: step_visits_def Let_def)

lemma in_loops:
  "pr \<in> fst ` set (concat (map (\<lambda>l. concat (map (g l) [Suc l..<m])) ls)) \<longleftrightarrow>
     (\<exists>l r. l \<in> set ls \<and> l < r \<and> r < m \<and> pr \<in> fst ` set (g l r))"
proof -
  have flat: "pr \<in> fst ` set (concat (map h xs)) \<longleftrightarrow> (\<exists>x\<in>set xs. pr \<in> fst ` set (h x))" for h :: "nat \<Rightarrow> ('a \<times> 'b) list" and xs
    by auto
  show ?thesis unfolding flat set_upt atLeastLessThan_iff Bex_def by (metis Suc_le_eq)
qed

lemma visits_routes:
  assumes "length (rest w ps) < n" "full_contractions w \<Longrightarrow> off = 0"
  shows "pr \<in> fst ` set (visits n w ps f off) \<longleftrightarrow> (\<exists>qs. qs \<noteq> [] \<and> pr = ps @ qs \<and> route w ps qs
    \<and> fst (hd qs) \<in> set (drop off (rest w ps)) \<and> (full_contractions w \<longrightarrow> rest w pr = []))"
  using assms
proof (induction n arbitrary: ps f off)
  case (Suc n)
  let ?R = "rest w ps"
  let ?ls = "if full_contractions w then [off] else [off..<length ?R]"
  let ?ps = "\<lambda>l r. ps @ [(?R ! l, ?R ! r)]"
  let ?f = "\<lambda>l r. append_scaled Recursively f (phase_of w l r) (contraction w (all_ops w ! (?R ! l)) (all_ops w ! (?R ! r)))"
  have lists: "pr \<in> fst ` set (visits (Suc n) w ps f off) \<longleftrightarrow>
      (\<exists>l r. l \<in> set ?ls \<and> l < r \<and> r < length ?R \<and> pr \<in> fst ` set (step_visits n w ps f l r))"
    unfolding visits_Suc by (rule in_loops)
  have IH: "pr \<in> fst ` set (visits n w (?ps l r) (?f l r) l) \<longleftrightarrow> (\<exists>qs. qs \<noteq> [] \<and> pr = ?ps l r @ qs \<and> route w (?ps l r) qs
      \<and> fst (hd qs) \<in> set (drop l (rest w (?ps l r))) \<and> (full_contractions w \<longrightarrow> rest w pr = []))"
    if "l < r" "r < length ?R" "full_contractions w \<Longrightarrow> l = 0" for l r
    using Suc.prems(1) that by (intro Suc.IH) (simp_all add: rest_snoc [OF that(1,2)] erase_at_def)
  have hd_rest: "fst (hd qs) \<in> set (rest w ps')" if "route w ps' qs" "qs \<noteq> []" for ps' qs
    using that by (cases qs) (auto simp: route_Cons)
  show ?case
  proof
    assume "pr \<in> fst ` set (visits (Suc n) w ps f off)"
    then obtain l r where lr: "l \<in> set ?ls" "l < r" "r < length ?R" "pr \<in> fst ` set (step_visits n w ps f l r)"
      unfolding lists by blast
    have l0: "full_contractions w \<Longrightarrow> l = 0" using lr(1) Suc.prems(2) by simp
    have in_R: "?R ! l \<in> set ?R" "?R ! r \<in> set ?R" using lr(2,3) by simp_all
    have "off \<le> l" using lr(1) by (cases "full_contractions w") simp_all
    then have off: "?R ! l \<in> set (drop off ?R)" using lr(2,3) drop_position [of l w ps off] by simp
    have ad: "admissible w ps (?R ! l) (?R ! r)" using lr(4) unfolding in_step by blast
    consider "pr = ?ps l r" "full_contractions w \<Longrightarrow> rest w pr = []" | "pr \<in> fst ` set (visits n w (?ps l r) (?f l r) l)"
      using lr(4) unfolding in_step by blast
    then show "\<exists>qs. qs \<noteq> [] \<and> pr = ps @ qs \<and> route w ps qs \<and> fst (hd qs) \<in> set (drop off ?R) \<and> (full_contractions w \<longrightarrow> rest w pr = [])"
    proof cases
      case 1
      then show ?thesis using ad in_R off rest_nth(1) [OF lr(2,3)] route_Nil
        by (intro exI [of _ "[(?R ! l, ?R ! r)]"]) (simp add: route_Cons)
    next
      case 2
      from iffD1 [OF IH [OF lr(2,3) l0] 2] obtain qs where qs: "qs \<noteq> []" "pr = ?ps l r @ qs" "route w (?ps l r) qs"
        "fst (hd qs) \<in> set (drop l (rest w (?ps l r)))" "full_contractions w \<longrightarrow> rest w pr = []" by blast
      have "?R ! l < fst (hd qs)" using qs(4) unfolding after_left [OF lr(2,3)] by blast
      then have "route w ps ((?R ! l, ?R ! r) # qs)" using ad in_R rest_nth(1) [OF lr(2,3)] qs(3) by (simp add: route_Cons)
      then show ?thesis using off qs(1,2,5) by (intro exI [of _ "(?R ! l, ?R ! r) # qs"]) simp
    qed
  next
    assume "\<exists>qs. qs \<noteq> [] \<and> pr = ps @ qs \<and> route w ps qs \<and> fst (hd qs) \<in> set (drop off ?R) \<and> (full_contractions w \<longrightarrow> rest w pr = [])"
    then obtain q qs where q: "pr = ps @ q # qs" "route w ps (q # qs)" "fst q \<in> set (drop off ?R)" "full_contractions w \<Longrightarrow> rest w pr = []"
      by (metis list.exhaust_sel list.sel(1))
    note step = q(2) [unfolded route_Cons]
    obtain l r where lr: "l < r" "r < length ?R" "fst q = ?R ! l" "snd q = ?R ! r"
      using position_pair [of "fst q" w ps "snd q"] step by metis
    have qq: "q = (?R ! l, ?R ! r)" using lr(3,4) by (simp add: prod_eq_iff)
    have l_off: "off \<le> l" using q(3) lr drop_position [of l w ps off] by simp
    have l0: "l = 0" if "full_contractions w"
    proof (rule ccontr)
      assume "l \<noteq> 0"
      then have less: "?R ! 0 < ?R ! l" using rest_nth(1) [of 0 l w ps] lr(1,2) by simp
      have "?R ! 0 \<in> set ?R" using lr(1,2) by (intro nth_mem) linarith
      then have "?R ! 0 \<in> used (q # qs)" using q(4) [OF that] q(1) rest_simps(3) [of w pr] by (auto simp: set_rest)
      moreover have "?R ! l \<le> x" if "x \<in> used (q # qs)" for x
      proof -
        from that obtain p where p: "p \<in> set (q # qs)" "x = fst p \<or> x = snd p" unfolding used_def by blast
        have "fst p < snd p" using q(2) p(1) unfolding route_def extends_by_def by (meson allowed_pair_def)
        moreover have "sorted (map fst (q # qs))" using q(2) by (simp add: route_def)
        then have "fst q \<le> fst p" using p(1) by auto
        ultimately show ?thesis using p(2) lr(3) by auto
      qed
      ultimately show False using less by force
    qed
    have "l \<in> set ?ls" using l_off l0 lr(1,2) Suc.prems(2) by auto
    moreover have "pr \<in> fst ` set (step_visits n w ps f l r)"
    proof (cases "qs = []")
      case True
      then show ?thesis using q(1,4) step unfolding in_step qq by auto
    next
      case False
      have "?R ! l < fst (hd qs)" using step False lr(3) by simp
      then have "fst (hd qs) \<in> set (drop l (rest w (?ps l r)))"
        using hd_rest [of "?ps l r" qs] step False unfolding after_left [OF lr(1,2)] qq by blast
      moreover from this have ne: "rest w (?ps l r) \<noteq> []" by auto
      moreover have "route w (?ps l r) qs" using step by (simp add: qq)
      ultimately have ex: "\<exists>qs. qs \<noteq> [] \<and> pr = ?ps l r @ qs \<and> route w (?ps l r) qs
          \<and> fst (hd qs) \<in> set (drop l (rest w (?ps l r))) \<and> (full_contractions w \<longrightarrow> rest w pr = [])"
        using False q(1,4) by (intro exI [of _ qs]) (simp add: qq)
      have "pr \<in> fst ` set (visits n w (?ps l r) (?f l r) l)"
        by (rule iffD2 [OF IH [OF lr(1,2)] ex]) (rule l0)
      moreover have "admissible w ps (?R ! l) (?R ! r)" using step lr(3,4) by simp
      ultimately show ?thesis using ne unfolding in_step by blast
    qed
    ultimately show "pr \<in> fst ` set (visits (Suc n) w ps f off)" unfolding lists using lr(1,2) by blast
  qed
qed simp

end
