(* ===== verification/WickSigns.thy ===== *)
theory WickSigns
  imports WickPairings
begin

text \<open>
  Wick's theorem for the contraction engine (SeQuant/core/wick.hpp): the terms are the pairings, each once, with the
  product of the contractions and the sign of the pairing.
\<close>

section \<open>Every pairing once\<close>

lemma visits_longer:
  "pr \<in> fst ` set (visits n w ps f off) \<Longrightarrow> \<exists>qs. pr = ps @ qs \<and> qs \<noteq> []"
proof (induction n arbitrary: ps f off)
  case (Suc n)
  then obtain l r where "pr \<in> fst ` set (step_visits n w ps f l r)" unfolding visits_Suc in_loops by blast
  then consider "pr = ps @ [(rest w ps ! l, rest w ps ! r)]"
    | qs where "pr = (ps @ [(rest w ps ! l, rest w ps ! r)]) @ qs" unfolding in_step using Suc.IH by blast
  then show ?case by cases auto
qed simp

lemma step_shape:
  "pr \<in> fst ` set (step_visits n w ps f l r) \<Longrightarrow> \<exists>qs. pr = ps @ (rest w ps ! l, rest w ps ! r) # qs"
  unfolding in_step by (elim conjE disjE) (auto dest!: visits_longer)

lemma distinct_concat_map:
  assumes "distinct xs" "\<And>x. x \<in> set xs \<Longrightarrow> distinct (map fst (h x))"
    "\<And>x y. x \<in> set xs \<Longrightarrow> y \<in> set xs \<Longrightarrow> x \<noteq> y \<Longrightarrow> fst ` set (h x) \<inter> fst ` set (h y) = {}"
  shows "distinct (map fst (concat (map h xs)))"
  using assms
proof (induction xs)
  case (Cons x xs)
  have "fst ` set (h x) \<inter> fst ` set (h y) = {}" if "y \<in> set xs" for y
    using Cons.prems(3) [of x y] Cons.prems(1) that by auto
  moreover have "fst ` set (concat (map h xs)) = (\<Union>y\<in>set xs. fst ` set (h y))" by (simp add: image_UN)
  ultimately have "fst ` set (h x) \<inter> fst ` set (concat (map h xs)) = {}" by blast
  then show ?case using Cons by simp
qed simp

lemma row_loop:
  assumes "pr \<in> fst ` set (concat (map h [Suc k..<m]))"
  shows "\<exists>r. k < r \<and> r < m \<and> pr \<in> fst ` set (h r)"
proof -
  from assms obtain v where v: "v \<in> set (concat (map h [Suc k..<m]))" "pr = fst v" by blast
  then obtain r where "r \<in> set [Suc k..<m]" "v \<in> set (h r)" by auto
  then show ?thesis using v(2) by (intro exI [of _ r]) simp
qed

lemma visits_distinct:
  assumes "length (rest w ps) < n" "full_contractions w \<Longrightarrow> off = 0"
  shows "distinct (map fst (visits n w ps f off))"
  using assms
proof (induction n arbitrary: ps f off)
  case (Suc n)
  let ?R = "rest w ps"
  let ?m = "length ?R"
  have row: "distinct (map fst (step_visits n w ps f l r))" if "l < r" "r < ?m" "full_contractions w \<Longrightarrow> l = 0" for l r
  proof -
    let ?ps = "ps @ [(?R ! l, ?R ! r)]"
    have "distinct (map fst (visits n w ?ps g l))" for g
      using Suc.prems(1) that by (intro Suc.IH) (simp_all add: rest_snoc [OF that(1,2)] erase_at_def)
    moreover have "?ps \<notin> fst ` set (visits n w ?ps g l)" for g using visits_longer [of ?ps n w ?ps g l] by auto
    ultimately show ?thesis by (simp add: step_visits_def Let_def)
  qed
  have apart: "fst ` set (step_visits n w ps f l r) \<inter> fst ` set (step_visits n w ps f l' r') = {}"
    if "l < r" "r < ?m" "l' < r'" "r' < ?m" "l \<noteq> l' \<or> r \<noteq> r'" for l r l' r'
  proof -
    have "(?R ! l, ?R ! r) \<noteq> (?R ! l', ?R ! r')" using that rest_simps(2) [of w ps] by (auto simp: nth_eq_iff_index_eq)
    then show ?thesis using step_shape [of _ n w ps f l r] step_shape [of _ n w ps f l' r'] by fastforce
  qed
  have one: "distinct (map fst (concat (map (step_visits n w ps f l) [Suc l..<?m])))" if "full_contractions w \<Longrightarrow> l = 0" for l
  proof (rule distinct_concat_map)
    show "distinct (map fst (step_visits n w ps f l r))" if "r \<in> set [Suc l..<?m]" for r
      using that \<open>full_contractions w \<Longrightarrow> l = 0\<close> by (intro row) auto
    show "fst ` set (step_visits n w ps f l r) \<inter> fst ` set (step_visits n w ps f l r') = {}"
      if "r \<in> set [Suc l..<?m]" "r' \<in> set [Suc l..<?m]" "r \<noteq> r'" for r r'
      using that by (intro apart) auto
  qed simp
  show ?case
    unfolding visits_Suc
  proof (rule distinct_concat_map)
    show "distinct (if full_contractions w then [off] else [off..<?m])" by simp
    show "distinct (map fst (concat (map (step_visits n w ps f l) [Suc l..<?m])))"
      if "l \<in> set (if full_contractions w then [off] else [off..<?m])" for l
      using that Suc.prems(2) by (intro one) auto
    show "fst ` set (concat (map (step_visits n w ps f l) [Suc l..<?m])) \<inter> fst ` set (concat (map (step_visits n w ps f l') [Suc l'..<?m])) = {}"
      if "l \<in> set (if full_contractions w then [off] else [off..<?m])" "l' \<in> set (if full_contractions w then [off] else [off..<?m])"
        "l \<noteq> l'" for l l'
    proof -
      have row_member: "\<exists>r. k < r \<and> r < ?m \<and> pr \<in> fst ` set (step_visits n w ps f k r)"
        if "pr \<in> fst ` set (concat (map (step_visits n w ps f k) [Suc k..<?m]))" for k pr
        using that by (rule row_loop)
      show ?thesis
      proof (rule equals0I)
        fix pr
        assume "pr \<in> fst ` set (concat (map (step_visits n w ps f l) [Suc l..<?m]))
          \<inter> fst ` set (concat (map (step_visits n w ps f l') [Suc l'..<?m]))"
        then have both: "pr \<in> fst ` set (concat (map (step_visits n w ps f l) [Suc l..<?m]))"
          "pr \<in> fst ` set (concat (map (step_visits n w ps f l') [Suc l'..<?m]))" by (simp_all only: Int_iff)
        obtain r where r: "l < r" "r < ?m" "pr \<in> fst ` set (step_visits n w ps f l r)" using row_member [OF both(1)] by (elim exE conjE)
        obtain r' where r': "l' < r'" "r' < ?m" "pr \<in> fst ` set (step_visits n w ps f l' r')"
          using row_member [OF both(2)] by (elim exE conjE)
        show False using IntI [OF r(3) r'(3)] apart [OF r(1,2) r'(1,2)] that(3) by simp
      qed
    qed
  qed
qed simp

section \<open>What a pairing contributes\<close>

definition between :: "('i, 'a) wick_theorem \<Rightarrow> pairing \<Rightarrow> nat \<times> nat \<Rightarrow> nat" where
  "between w ps q = length (filter (\<lambda>i. fst q < i \<and> i < snd q) (rest w ps))"

definition pair_phase :: "('i, 'a) wick_theorem \<Rightarrow> pairing \<Rightarrow> nat \<times> nat \<Rightarrow> scalar" where
  "pair_phase w ps q = (if fermionic w \<and> odd (between w ps q) then - 1 else 1)"

abbreviation pair_contraction :: "('i, 'a) wick_theorem \<Rightarrow> nat \<times> nat \<Rightarrow> 'a expr" where
  "pair_contraction w q \<equiv> contraction w (all_ops w ! fst q) (all_ops w ! snd q)"

primrec pairing_factors :: "('i, 'a) wick_theorem \<Rightarrow> pairing \<Rightarrow> 'a factors \<Rightarrow> pairing \<Rightarrow> 'a factors" where
  "pairing_factors w ps f [] = f"
| "pairing_factors w ps f (q # qs) =
     pairing_factors w (ps @ [q]) (append_scaled Recursively f (pair_phase w ps q) (pair_contraction w q)) qs"

primrec phases :: "('i, 'a) wick_theorem \<Rightarrow> pairing \<Rightarrow> pairing \<Rightarrow> scalar" where
  "phases w ps [] = 1"
| "phases w ps (q # qs) = pair_phase w ps q * phases w (ps @ [q]) qs"

lemma phase_between:
  assumes "l < r" "r < length (rest w ps)"
  shows "phase_of w l r = pair_phase w ps (rest w ps ! l, rest w ps ! r)"
proof -
  let ?R = "rest w ps"
  have mono: "?R ! i < ?R ! j \<longleftrightarrow> i < j" if "i < length ?R" "j < length ?R" for i j
    using that rest_nth(1) [of i j w ps] rest_nth(1) [of j i w ps] by (metis linorder_less_linear order_less_asym)
  have "{i. i < length ?R \<and> ?R ! l < ?R ! i \<and> ?R ! i < ?R ! r} = {l<..<r}" using assms mono by auto
  then show ?thesis by (simp add: phase_of_def pair_phase_def between_def length_filter_conv_card)
qed

lemma loop_member:
  assumes "v \<in> set (concat (map (\<lambda>l. concat (map (g l) [Suc l..<m])) ls))"
  obtains l r where "l < r" "r < m" "v \<in> set (g l r)"
proof -
  from assms obtain l where "v \<in> set (concat (map (g l) [Suc l..<m]))" by auto
  then obtain r where "r \<in> set [Suc l..<m]" "v \<in> set (g l r)" by auto
  then show thesis by (intro that [of l r]) auto
qed

lemma visits_factors:
  assumes "v \<in> set (visits n w ps f off)"
  shows "\<exists>qs. fst v = ps @ qs \<and> snd v = pairing_factors w ps f qs"
  using assms
proof (induction n arbitrary: ps f off)
  case (Suc n)
  let ?R = "rest w ps"
  from Suc.prems obtain l r where lr: "l < r" "r < length ?R" "v \<in> set (step_visits n w ps f l r)"
    unfolding visits_Suc by (rule loop_member)
  let ?ps = "ps @ [(?R ! l, ?R ! r)]"
  let ?f = "append_scaled Recursively f (pair_phase w ps (?R ! l, ?R ! r)) (pair_contraction w (?R ! l, ?R ! r))"
  have "v = (?ps, ?f) \<or> v \<in> set (visits n w ?ps ?f l)"
    using lr(3) unfolding step_visits_def Let_def phase_between [OF lr(1,2)] by (auto split: if_splits)
  then show ?case
  proof
    assume "v = (?ps, ?f)"
    then show ?thesis by (intro exI [of _ "[(?R ! l, ?R ! r)]"]) simp
  next
    assume "v \<in> set (visits n w ?ps ?f l)"
    then obtain qs where "fst v = ?ps @ qs" "snd v = pairing_factors w ?ps ?f qs" using Suc.IH by blast
    then show ?thesis by (intro exI [of _ "(?R ! l, ?R ! r) # qs"]) simp
  qed
qed simp

lemma val_pairing_factors:
  assumes "sound I"
  shows "val_factors I (pairing_factors w ps f qs) =
    scal I (phases w ps qs) * (val_factors I f * prod_list (map (\<lambda>q. val I (pair_contraction w q)) qs))"
proof (induction qs arbitrary: ps f)
  case (Cons q qs)
  have comm: "r * scal I c = scal I c * r" for c r using assms by (simp add: sound_def)
  show ?case
    unfolding pairing_factors.simps Cons.IH phases.simps val_append_scaled [OF assms] sound_simps(4) [OF assms]
    by (simp only: comm [of "val_factors I f"] comm [of "scal I (pair_phase w ps q)"] mult.assoc prod_list.Cons list.map)
qed (simp add: sound_simps(2) [OF assms])

section \<open>The sign of a pairing\<close>

text \<open>Pairs that cross, and the uncontracted operators that the pairs span.\<close>

primrec crossings :: "pairing \<Rightarrow> nat" where
  "crossings [] = 0"
| "crossings (q # qs) = length (filter (\<lambda>p. fst p < snd q \<and> snd q < snd p) qs) + crossings qs"

definition spanned :: "('i, 'a) wick_theorem \<Rightarrow> pairing \<Rightarrow> nat" where
  "spanned w ps = sum_list (map (between w ps) ps)"

lemma between_split:
  assumes "extends_by w ps (q # qs)"
  shows "between w ps q = between w (ps @ q # qs) q + length (filter (\<lambda>i. fst q < i \<and> i < snd q) (map fst qs @ map snd qs))"
proof -
  let ?B = "\<lambda>i. fst q < i \<and> i < snd q"
  have size: "length (filter P xs) = card {i \<in> set xs. P i}" if "distinct xs" for P and xs :: "nat list"
    using that by (subst distinct_card [symmetric]) simp_all
  have d: "distinct (map fst qs @ map snd qs)" "used qs \<subseteq> set (rest w ps)" "set (map fst qs @ map snd qs) = used qs"
    using assms by (auto simp: extends_by_def used_def)
  have "{i \<in> set (rest w ps). ?B i} = {i \<in> set (rest w (ps @ q # qs)). ?B i} \<union> {i \<in> used qs. ?B i}"
    using d(2) by (auto simp: set_rest)
  moreover have "card ({i \<in> set (rest w (ps @ q # qs)). ?B i} \<union> {i \<in> used qs. ?B i})
      = card {i \<in> set (rest w (ps @ q # qs)). ?B i} + card {i \<in> used qs. ?B i}"
    using d(3) by (intro card_Un_disjoint) (auto simp: set_rest simp flip: d(3))
  ultimately show ?thesis unfolding between_def size [OF rest_simps(2)] size [OF d(1)] d(3) by simp
qed

lemma inner_parity:
  fixes qs :: pairing
  assumes "\<forall>p\<in>set qs. fst q < fst p \<and> fst p < snd p \<and> snd p \<noteq> snd q"
  shows "even (length (filter (\<lambda>i. fst q < i \<and> i < snd q) (map fst qs @ map snd qs))
    + length (filter (\<lambda>p. fst p < snd q \<and> snd q < snd p) qs))"
  using assms
proof (induction qs)
  case (Cons p qs)
  then have p: "fst q < fst p" "fst p < snd p" "snd p \<noteq> snd q" by simp_all
  consider "snd p < snd q" | "fst p < snd q" "snd q < snd p" | "snd q \<le> fst p" using p(3) by linarith
  then show ?case using Cons p by cases simp_all
qed simp

lemma phases_sign:
  assumes "extends_by w ps qs" "sorted (map fst qs)" "fermionic w"
  shows "phases w ps qs = (- 1) ^ (crossings qs + sum_list (map (between w (ps @ qs)) qs))"
  using assms
proof (induction qs arbitrary: ps)
  case (Cons q qs)
  have E: "extends_by w (ps @ [q]) qs" "sorted (map fst qs)" using Cons.prems(1,2) by (auto simp: extends_by_Cons)
  have "fst q < fst p \<and> fst p < snd p \<and> snd p \<noteq> snd q" if "p \<in> set qs" for p
  proof -
    have "fst q \<le> fst p" using Cons.prems(2) that by auto
    moreover have "fst p \<in> used qs" "snd p \<in> used qs" using that by (auto simp: used_def)
    then have "fst p \<notin> used (ps @ [q])" "snd p \<notin> used (ps @ [q])" using E(1) unfolding extends_by_def by (meson set_rest subsetD)+
    moreover have "allowed_pair w p" using E(1) that by (simp add: extends_by_def)
    ultimately show ?thesis by (auto simp: allowed_pair_def)
  qed
  then have "even (length (filter (\<lambda>i. fst q < i \<and> i < snd q) (map fst qs @ map snd qs))
      + length (filter (\<lambda>p. fst p < snd q \<and> snd q < snd p) qs))" by (intro inner_parity) blast
  then have "even (between w ps q) \<longleftrightarrow> even (between w (ps @ q # qs) q + length (filter (\<lambda>p. fst p < snd q \<and> snd q < snd p) qs))"
    unfolding between_split [OF Cons.prems(1)] even_add by blast
  then have "pair_phase w ps q = (- 1) ^ (between w (ps @ q # qs) q + length (filter (\<lambda>p. fst p < snd q \<and> snd q < snd p) qs))"
    using Cons.prems(3) by (auto simp: pair_phase_def neg_one_odd_power)
  moreover have "phases w (ps @ [q]) qs = (- 1) ^ (crossings qs + sum_list (map (between w (ps @ q # qs)) qs))"
    using Cons.IH [OF E Cons.prems(3)] by simp
  ultimately show ?case by (simp add: power_add)
qed simp

lemma phases_bosonic: "\<not> fermionic w \<Longrightarrow> phases w ps qs = 1"
  by (induction qs arbitrary: ps) (simp_all add: pair_phase_def)

definition pairing_sign :: "('i, 'a) wick_theorem \<Rightarrow> pairing \<Rightarrow> scalar" where
  "pairing_sign w ps = (if fermionic w \<and> odd (crossings ps + spanned w ps) then - 1 else 1)"

lemma phases_eq_sign:
  assumes "extends_by w [] ps" "sorted (map fst ps)"
  shows "phases w [] ps = pairing_sign w ps"
  using phases_sign [OF assms] phases_bosonic [of w "[]" ps]
  by (cases "fermionic w") (auto simp: pairing_sign_def spanned_def neg_one_odd_power)

text \<open>Nothing is spanned once everything is contracted.\<close>

lemma spanned_complete: "rest w ps = [] \<Longrightarrow> spanned w ps = 0"
  by (simp add: spanned_def between_def)

end
