(* ===== verification/WickContractions.thy ===== *)
theory WickContractions
  imports WickSigns
begin

text \<open>
  Wick's theorem for \<open>compute_nontensor_wick\<close> (SeQuant/core/wick.hpp): complete contractions, all contractions, and the
  number of them.
\<close>

section \<open>Pairings from the start\<close>

definition wick_pairing :: "('i, 'a) wick_theorem \<Rightarrow> pairing \<Rightarrow> bool" where
  "wick_pairing w ps \<longleftrightarrow> extends_by w [] ps \<and> sorted (map fst ps)"

definition complete_pairing :: "('i, 'a) wick_theorem \<Rightarrow> pairing \<Rightarrow> bool" where
  "complete_pairing w ps \<longleftrightarrow> wick_pairing w ps \<and> used ps = {..<nops w} \<and> required_met w ps"

definition pairing_value :: "('a, 'r::ring_1) interp \<Rightarrow> ('i, 'a) wick_theorem \<Rightarrow> 'a factors \<Rightarrow> pairing \<Rightarrow> 'r" where
  "pairing_value I w pre ps = scal I (Scalar (spin_factor w ps) 0 * pairing_sign w ps)
     * (val_factors I pre * prod_list (map (\<lambda>q. val I (pair_contraction w q)) ps))"

lemma ops_of_Nil: "plain w \<Longrightarrow> ops_of w [] = input w"
  using initial_ok [of w True "(1, [])"] nopseq_eq by metis

lemma rest_empty: "used ps \<subseteq> {..<nops w} \<Longrightarrow> rest w ps = [] \<longleftrightarrow> used ps = {..<nops w}"
  using rest_simps(3) [of w ps] by (auto simp: filter_empty_conv rest_def)

lemma sign_complete: "used ps = {..<nops w} \<Longrightarrow> pairing_sign w ps = (if fermionic w \<and> odd (crossings ps) then - 1 else 1)"
  using spanned_complete [of w ps] rest_empty [of ps w] by (simp add: pairing_sign_def)

lemma all_visits_shape:
  assumes "plain w"
  shows "distinct (map fst (all_visits w pre))"
    "ps \<in> fst ` set (all_visits w pre) \<longleftrightarrow> ps \<noteq> [] \<and> route w [] ps \<and> (full_contractions w \<longrightarrow> rest w ps = [])"
    "v \<in> set (all_visits w pre) \<Longrightarrow> snd v = pairing_factors w [] pre (fst v)"
proof -
  show "distinct (map fst (all_visits w pre))"
    unfolding all_visits_def by (rule visits_distinct) (simp_all add: rest_Nil)
  have hd: "fst (hd qs) \<in> set (rest w [])" if "route w [] qs" "qs \<noteq> []" for qs
    using that by (cases qs) (auto simp: route_Cons)
  have "length (rest w []) < Suc (nops w)" by (simp add: rest_Nil)
  from visits_routes [OF this, of 0 ps pre]
  show "ps \<in> fst ` set (all_visits w pre) \<longleftrightarrow> ps \<noteq> [] \<and> route w [] ps \<and> (full_contractions w \<longrightarrow> rest w ps = [])"
    unfolding all_visits_def using hd [of ps] by auto
  show "snd v = pairing_factors w [] pre (fst v)" if "v \<in> set (all_visits w pre)"
    using visits_factors [OF that [unfolded all_visits_def]] by auto
qed

lemma term_value:
  assumes "sound I" "wick_pairing w ps"
  shows "val_factors I (term_factors (term_of w (ps, pairing_factors w [] pre ps))) = pairing_value I w pre ps"
proof -
  have comm: "r * scal I c = scal I c * r" for c r using assms(1) by (simp add: sound_def)
  have ph: "phases w [] ps = pairing_sign w ps" using assms(2) by (intro phases_eq_sign) (simp_all add: wick_pairing_def)
  have scale: "val_factors I (scale_rat f q) = scal I (Scalar q 0) * val_factors I f" for f q
    by (simp only: val_factors_def scale_rat_def fst_conv snd_conv sound_simps(4) [OF assms(1)] comm [of "scal I (fst f)"] mult.assoc)
  show ?thesis
    by (simp add: term_of_def scale val_pairing_factors [OF assms(1)] ph pairing_value_def sound_simps(4) [OF assms(1)] mult.assoc)
qed

lemma route_complete:
  assumes "plain w" "full_contractions w"
  shows "ps \<noteq> [] \<and> route w [] ps \<and> rest w ps = [] \<longleftrightarrow> complete_pairing w ps"
proof -
  have "0 < nops w" using assms(1) by (simp add: plain_def)
  have closed: "closed_met w []"
  proof -
    have "ops_left w [] (nop_of w i) \<noteq> 0" if "i < nops w" for i
      using that by (auto simp: ops_left_def rest_Nil filter_empty_conv)
    then show ?thesis unfolding closed_met_def by blast
  qed
  have sub: "used ps \<subseteq> {..<nops w}" if "extends_by w [] ps" using that by (auto simp: extends_by_def rest_Nil)
  have "kept w [] ps \<longleftrightarrow> required_met w ps" if e: "extends_by w [] ps" "rest w ps = []"
  proof
    show "required_met w ps" if "kept w [] ps" by (rule kept_sound [OF e(1) that closed, unfolded append_Nil, OF e(2)])
    show "kept w [] ps" if "required_met w ps" by (rule kept_complete [OF e(1), unfolded append_Nil, OF that])
  qed
  moreover have "ps \<noteq> []" if "used ps = {..<nops w}"
  proof -
    have "0 \<in> used ps" unfolding that using \<open>0 < nops w\<close> by blast
    then show ?thesis by (metis empty_iff used_simps(1))
  qed
  ultimately show ?thesis
    using sub rest_empty [of ps w] unfolding route_def complete_pairing_def wick_pairing_def by blast
qed

lemma terms_valued:
  assumes "proper w" "sound I" "\<And>ps. ps \<in> fst ` set (all_visits w pre) \<Longrightarrow> wick_pairing w ps"
  shows "map (\<lambda>t. (val_factors I (term_factors t), term_ops t)) (map (term_of w) (all_visits w pre))
    = map (\<lambda>ps. (pairing_value I w pre ps, ops_of w ps)) (map fst (all_visits w pre))"
  unfolding map_map
proof (rule map_cong [OF refl])
  fix v
  assume v: "v \<in> set (all_visits w pre)"
  have "plain w" using assms(1) by (simp add: proper_def)
  from all_visits_shape(3) [OF this v] have "v = (fst v, pairing_factors w [] pre (fst v))" by (simp add: prod_eq_iff)
  moreover have "wick_pairing w (fst v)" using assms(3) v by auto
  moreover have "term_ops (term_of w v) = ops_of w (fst v)" by (simp add: term_of_def)
  ultimately show "((\<lambda>t. (val_factors I (term_factors t), term_ops t)) \<circ> term_of w) v
      = ((\<lambda>ps. (pairing_value I w pre ps, ops_of w ps)) \<circ> fst) v"
    using term_value [OF assms(2), of w "fst v" pre] by simp
qed

section \<open>Wick's theorem\<close>

text \<open>
  C1: With \<open>full_contractions\<close> and no symmetry to exploit, \<open>compute_nontensor_wick\<close> does not fail, leaves the sequence as
  it was, and returns the terms of the complete pairings, each exactly once: the operators are paired by contractible pairs
  from different normal operators, the required connections are present and the avoided ones absent.  The value of a term is
  the product of the contractions, with the sign of the number of crossing pairs for fermions and the factor for closed
  loops; when it only counts, the count is the number of complete pairings.
\<close>

theorem wick_full_contractions:
  assumes "proper w" "full_contractions w" "sound I"
  shows "\<exists>s s' pss. compute_nontensor_wick w False pre = Inr s \<and> nopseq s = input w \<and> contractions s = [] \<and> sp s = pre
    \<and> distinct pss \<and> set pss = {ps. complete_pairing w ps}
    \<and> map (\<lambda>t. val_factors I (term_factors t)) (result_terms s) = map (\<lambda>ps.
        scal I (Scalar (spin_factor w ps) 0 * (if fermionic w \<and> odd (crossings ps) then - 1 else 1))
        * (val_factors I pre * prod_list (map (\<lambda>q. val I (pair_contraction w q)) ps))) pss
    \<and> compute_nontensor_wick w True pre = Inr s' \<and> nopseq s' = input w \<and> counter s' = card {ps. complete_pairing w ps}"
proof -
  have plain: "plain w" using assms(1) by (simp add: proper_def)
  define pss where "pss = map fst (all_visits w pre)"
  have "ps \<in> set pss \<longleftrightarrow> complete_pairing w ps" for ps
    using all_visits_shape(2) [OF plain, of ps pre] route_complete [OF plain assms(2), of ps] assms(2) unfolding pss_def set_map by blast
  then have shape: "distinct pss" "set pss = {ps. complete_pairing w ps}"
    using all_visits_shape(1) [OF plain, of pre] unfolding pss_def by blast+
  then have wp: "wick_pairing w ps \<and> used ps = {..<nops w}" if "ps \<in> set pss" for ps
    using that by (simp add: complete_pairing_def)
  have sign: "pairing_sign w ps = (if fermionic w \<and> odd (crossings ps) then - 1 else 1)" if "ps \<in> set pss" for ps
    using sign_complete [of ps w] wp [OF that] by blast
  have bare: "bare_term w pre = []" using assms(2) by (simp add: bare_term_def)
  obtain s where s: "compute_nontensor_wick w False pre = Inr s" "wick_inv w [] s" "sp s = pre"
    "result_terms s = map (term_of w) (all_visits w pre)"
    using compute_ok [OF assms(1), of False pre] bare by auto
  obtain s' where s': "compute_nontensor_wick w True pre = Inr s'" "wick_inv w [] s'" "counter s' = length (all_visits w pre)"
    using compute_ok [OF assms(1), of True pre] bare by auto
  have restored: "nopseq s = input w" "contractions s = []" "nopseq s' = input w"
    using nopseq_eq [OF s(2)] nopseq_eq [OF s'(2)] ops_of_Nil [OF plain] s(2) by (simp_all add: wick_inv_def meta_def op_pairs_def)
  have "map (\<lambda>t. (val_factors I (term_factors t), term_ops t)) (result_terms s) = map (\<lambda>ps. (pairing_value I w pre ps, ops_of w ps)) pss"
    unfolding s(4) pss_def using wp unfolding pss_def set_map by (intro terms_valued [OF assms(1,3)]) blast
  then have "map fst (map (\<lambda>t. (val_factors I (term_factors t), term_ops t)) (result_terms s))
      = map fst (map (\<lambda>ps. (pairing_value I w pre ps, ops_of w ps)) pss)" by simp
  then have "map (\<lambda>t. val_factors I (term_factors t)) (result_terms s) = map (pairing_value I w pre) pss"
    by (simp add: comp_def)
  also have "\<dots> = map (\<lambda>ps. scal I (Scalar (spin_factor w ps) 0 * (if fermionic w \<and> odd (crossings ps) then - 1 else 1))
        * (val_factors I pre * prod_list (map (\<lambda>q. val I (pair_contraction w q)) ps))) pss"
    by (intro map_cong refl) (simp only: pairing_value_def sign)
  finally have valued: "map (\<lambda>t. val_factors I (term_factors t)) (result_terms s) = \<dots>" .
  have "counter s' = card {ps. complete_pairing w ps}"
    unfolding s'(3) shape(2) [symmetric] distinct_card [OF shape(1)] by (simp add: pss_def)
  then show ?thesis using s(1,3) s'(1) restored shape valued by blast
qed

text \<open>
  C6: Without \<open>full_contractions\<close> and without required connections, \<open>compute_nontensor_wick\<close> returns the terms of all
  pairings, the empty one included, each exactly once.  A term leaves the operators that are not paired, in their order, and
  its sign also counts the unpaired operators between the two of a pair.
\<close>

theorem wick_partial_contractions:
  assumes "proper w" "\<not> full_contractions w" "nop_connections w = []" "nop_nconnections_total w = 0" "sound I"
  shows "\<exists>s pss. compute_nontensor_wick w False pre = Inr s \<and> nopseq s = input w \<and> contractions s = [] \<and> sp s = pre
    \<and> distinct pss \<and> set pss = {ps. wick_pairing w ps}
    \<and> map (\<lambda>t. (val_factors I (term_factors t), term_ops t)) (result_terms s) = map (\<lambda>ps.
        (scal I (Scalar (spin_factor w ps) 0 * (if fermionic w \<and> odd (crossings ps + spanned w ps) then - 1 else 1))
         * (val_factors I pre * prod_list (map (\<lambda>q. val I (pair_contraction w q)) ps)), ops_of w ps)) pss"
proof -
  have plain: "plain w" using assms(1) by (simp add: proper_def)
  have target: "target_connections w = []" using assms(3) by simp
  define vs where "vs = map fst (all_visits w pre)"
  have kept: "kept w ps qs" for ps qs
    by (induction qs arbitrary: ps) (simp_all add: keeps_def assms(3))
  then have in_vs: "ps \<in> set vs \<longleftrightarrow> ps \<noteq> [] \<and> wick_pairing w ps" for ps
    using all_visits_shape(2) [OF plain, of ps pre] assms(2) unfolding vs_def set_map route_def wick_pairing_def by blast
  have "wick_pairing w []" by (simp add: wick_pairing_def extends_by_Nil)
  then have shape: "distinct (vs @ [[]])" "set (vs @ [[]]) = {ps. wick_pairing w ps}"
    using all_visits_shape(1) [OF plain, of pre] in_vs unfolding vs_def [symmetric] by auto
  obtain s where s: "compute_nontensor_wick w False pre = Inr s" "wick_inv w [] s" "sp s = pre"
    "result_terms s = map (term_of w) (all_visits w pre) @ bare_term w pre"
    using compute_ok [OF assms(1), of False pre] by auto
  have restored: "nopseq s = input w" "contractions s = []"
    using nopseq_eq [OF s(2)] ops_of_Nil [OF plain] s(2) by (simp_all add: wick_inv_def meta_def op_pairs_def)
  have main: "map (\<lambda>t. (val_factors I (term_factors t), term_ops t)) (map (term_of w) (all_visits w pre))
      = map (\<lambda>ps. (pairing_value I w pre ps, ops_of w ps)) vs"
    using in_vs unfolding vs_def set_map by (intro terms_valued [OF assms(1,5)]) blast
  have one: "pairing_value I w pre [] = val_factors I pre"
    using sound_simps(2) [OF assms(5)]
    by (simp add: pairing_value_def spin_factor_def partners_of_def op_pairs_def pairing_sign_def spanned_def one_scalar_def [symmetric])
  have "map (\<lambda>t. (val_factors I (term_factors t), term_ops t)) (bare_term w pre) = map (\<lambda>ps. (pairing_value I w pre ps, ops_of w ps)) [[]]"
    using assms(2,4) one ops_of_Nil [OF plain] by (simp add: bare_term_def)
  then have "map (\<lambda>t. (val_factors I (term_factors t), term_ops t)) (result_terms s)
      = map (\<lambda>ps. (pairing_value I w pre ps, ops_of w ps)) (vs @ [[]])"
    unfolding s(4) map_append main by simp
  then show ?thesis using s(1,3) restored shape unfolding pairing_value_def pairing_sign_def by blast
qed

section \<open>A sequence to apply them to\<close>

text \<open>Two annihilators in one normal operator, a creator in each of two others.\<close>

definition sample_wick :: "bool \<Rightarrow> (nat, nat) wick_theorem" where
  "sample_wick fc = \<lparr>input = [[Op 0 Annihilate, Op 1 Annihilate], [Op 2 Create], [Op 3 Create]], full_contractions = fc, use_topology = True,
     fermionic = True, vacuum_of = Physical, spinfree = False, nop_connections = [], nop_nconnections_total = 0,
     nop_avoided_connections = [], input_partner_indices = [], nop_npartitions = 1, nop_partition_idx = [0, 1, 1],
     op_npartitions = 4, op_partitions = [[0], [1], [2], [3]], op_partition_idx = [1, 2, 3, 4],
     op_to_input_ordinal = [(Op 0 Annihilate, 0), (Op 1 Annihilate, 1), (Op 2 Create, 2), (Op 3 Create, 3)],
     may_contract = (\<lambda>a b. action a = Annihilate \<and> action b = Create), is_annihilator = (\<lambda>a. action a = Annihilate),
     contraction = (\<lambda>a b. Atom (10 * index a + index b))\<rparr>"

lemma sample_proper: "proper (sample_wick fc)"
proof -
  have "plain (sample_wick fc)" by (simp add: plain_def sample_wick_def symmetric_mask_def numeral_eq_Suc less_Suc_eq)
  then show ?thesis by (simp add: proper_def proper_contraction_def) (simp add: sample_wick_def closed_shell_def)
qed

lemma sample_pairings:
  "complete_pairing (sample_wick True) [(0, 2), (1, 3)]" "complete_pairing (sample_wick True) [(0, 3), (1, 2)]"
  "wick_pairing (sample_wick False) [(0, 3)]" "ops_of (sample_wick False) [(0, 3)] = [[Op 1 Annihilate], [Op 2 Create], []]"
  by code_simp+

definition plain_interp :: "(nat, scalar) interp" where
  "plain_interp = \<lparr>scal = (\<lambda>c. c), vari = (\<lambda>l j. 0), pwr = (\<lambda>b e j. 0), atom = of_nat\<rparr>"

lemma plain_interp_sound: "sound plain_interp"
  by (simp add: sound_def plain_interp_def mult.commute)

theorem wick_full_contractions_witness:
  "\<exists>s s' pss. compute_nontensor_wick (sample_wick True) False (1, []) = Inr s \<and> nopseq s = input (sample_wick True)
    \<and> distinct pss \<and> [(0, 2), (1, 3)] \<in> set pss \<and> [(0, 3), (1, 2)] \<in> set pss
    \<and> map (\<lambda>t. val_factors plain_interp (term_factors t)) (result_terms s) = map (\<lambda>ps.
        scal plain_interp (Scalar (spin_factor (sample_wick True) ps) 0 * (if fermionic (sample_wick True) \<and> odd (crossings ps) then - 1 else 1))
        * (val_factors plain_interp (1, []) * prod_list (map (\<lambda>q. val plain_interp (pair_contraction (sample_wick True) q)) ps))) pss
    \<and> compute_nontensor_wick (sample_wick True) True (1, []) = Inr s' \<and> counter s' = card {ps. complete_pairing (sample_wick True) ps}"
proof -
  have "full_contractions (sample_wick True)" by (simp add: sample_wick_def)
  from wick_full_contractions [OF sample_proper this plain_interp_sound, of "(1, [])"] show ?thesis
    using sample_pairings(1,2) by blast
qed

theorem wick_partial_contractions_witness:
  "\<exists>s pss. compute_nontensor_wick (sample_wick False) False (1, []) = Inr s \<and> distinct pss \<and> [(0, 3)] \<in> set pss
    \<and> map (\<lambda>t. (val_factors plain_interp (term_factors t), term_ops t)) (result_terms s) = map (\<lambda>ps.
        (scal plain_interp (Scalar (spin_factor (sample_wick False) ps) 0
           * (if fermionic (sample_wick False) \<and> odd (crossings ps + spanned (sample_wick False) ps) then - 1 else 1))
         * (val_factors plain_interp (1, []) * prod_list (map (\<lambda>q. val plain_interp (pair_contraction (sample_wick False) q)) ps)),
         ops_of (sample_wick False) ps)) pss
    \<and> ops_of (sample_wick False) [(0, 3)] = [[Op 1 Annihilate], [Op 2 Create], []]"
proof -
  have "\<not> full_contractions (sample_wick False)" "nop_connections (sample_wick False) = []" "nop_nconnections_total (sample_wick False) = 0"
    by (simp_all add: sample_wick_def)
  from wick_partial_contractions [OF sample_proper this plain_interp_sound, of "(1, [])"] show ?thesis
    using sample_pairings(3,4) by blast
qed

text \<open>
  Without \<open>full_contractions\<close> a term can miss a required connection: the operator it concerns only has to have operators
  left.  Here the first two normal operators have to be connected; the third and the last term connect the first with the third only.
\<close>

definition sample_required :: "(nat, nat) wick_theorem" where
  "sample_required = (sample_wick False)\<lparr>nop_connections := [- 3, - 2, - 1], nop_nconnections_total := 1\<rparr>"

lemma required_connection_missed:
  "map_option (map (\<lambda>t. (term_factors t, term_ops t)))
     (case compute_nontensor_wick sample_required False (1, []) of Inl e \<Rightarrow> None | Inr s \<Rightarrow> Some (result_terms s)) = Some
     [((- 1, [Atom 2]), [[Op 1 Annihilate], [], [Op 3 Create]]),
      ((- 1, [Atom 2, Atom 13]), [[], [], []]),
      ((1, [Atom 3]), [[Op 1 Annihilate], [Op 2 Create], []]),
      ((1, [Atom 3, Atom 12]), [[], [], []]),
      ((1, [Atom 12]), [[Op 0 Annihilate], [], [Op 3 Create]]),
      ((- 1, [Atom 13]), [[Op 0 Annihilate], [Op 2 Create], []])]"
  by code_simp

end
