(* ===== verification/WickNormalize.thy ===== *)
theory WickNormalize
  imports WickContractions Permutations
begin

text \<open>
  SeQuant/core/op.hpp: \<open>normalize\<close>, which brings a sequence of normal operators to normal order and restores the pairs of
  partner indices where it can.
\<close>

section \<open>Normal order\<close>

text \<open>The loop over the flattened sequence: the position, the creators, the groups of annihilators and the phase.\<close>

type_synonym 'i collected = "nat \<times> 'i op list \<times> 'i op list list \<times> int"

definition collect_op :: "bool \<Rightarrow> nat \<Rightarrow> nat \<Rightarrow> 'i collected \<Rightarrow> nat \<times> 'i op \<Rightarrow> 'i collected" where
  "collect_op fermi opsize nnops st kx =
     (let (pos, creators, groups, phase) = st; (k, x) = kx; g = nnops - k - 1;
          total_distance = opsize - pos - 1 + length (groups ! g)
      in if action x = Create then (pos + 1, creators @ [x], groups, phase)
         else (pos + 1, creators, groups[g := groups ! g @ [x]], if fermi \<and> odd total_distance then - phase else phase))"

definition collect_ops :: "bool \<Rightarrow> 'i op list list \<Rightarrow> 'i op list \<times> 'i op list \<times> int" where
  "collect_ops fermi opseq =
     (let (pos, creators, groups, phase) =
            foldl (collect_op fermi (length (concat opseq)) (length opseq)) (0, [], replicate (length opseq) [], 1) (flat opseq)
      in (creators, concat (map rev (rev groups)), phase))"

text \<open>One round of the loops that put the partners of creators, or of annihilators, in their columns.\<close>

definition swap_to :: "bool \<Rightarrow> 'i \<Rightarrow> nat \<Rightarrow> 'i op list \<times> int \<Rightarrow> 'i op list \<times> int" where
  "swap_to fermi i target st =
     (case find_pos (\<lambda>v. index v = i) (fst st) of
        None \<Rightarrow> st
      | Some source \<Rightarrow> if target \<noteq> source then (iter_swap (fst st) source target, if fermi then - snd st else snd st) else st)"

fun align :: "bool \<Rightarrow> (nat \<Rightarrow> 'i option) \<Rightarrow> nat \<Rightarrow> nat \<Rightarrow> 'i op list \<times> int \<Rightarrow> 'i op list \<times> int" where
  "align fermi partner extra 0 st = st"
| "align fermi partner extra (Suc p) st =
     align fermi partner extra p (case partner p of None \<Rightarrow> st | Some i \<Rightarrow> swap_to fermi i (p + extra) st)"

definition partner_of_creator :: "('i \<times> 'i) list \<Rightarrow> 'i op list \<Rightarrow> nat \<Rightarrow> 'i option" where
  "partner_of_creator targets creators p = map_option snd (List.find (\<lambda>pr. fst pr = index (creators ! p)) targets)"

definition partner_of_annihilator :: "('i \<times> 'i) list \<Rightarrow> 'i op list \<Rightarrow> nat \<Rightarrow> 'i option" where
  "partner_of_annihilator targets annihilators p = map_option fst (List.find (\<lambda>pr. snd pr = index (annihilators ! p)) targets)"

text \<open>The operators of a \<open>NormalOperator\<close> are its creators and then its annihilators from the last to the first.\<close>

definition normal_operator :: "'i op list \<Rightarrow> 'i op list \<Rightarrow> 'i op list" where
  "normal_operator creators annihilators = creators @ rev annihilators"

definition normalize :: "bool \<Rightarrow> 'i op list list \<Rightarrow> ('i \<times> 'i) list \<Rightarrow> (int \<times> 'i op list \<times> 'i op list) option" where
  "normalize fermi opseq targets =
     (if opseq = [] then None
      else let (creators, annihilators, phase) = collect_ops fermi opseq;
               ncre = length creators; nann = length annihilators; rank = min ncre nann
           in if targets = [] then Some (phase, creators, annihilators)
              else if ncre = rank
              then let (annihilators, phase) = align fermi (partner_of_creator targets creators) (nann - rank) rank (annihilators, phase)
                   in Some (phase, creators, annihilators)
              else let (creators, phase) = align fermi (partner_of_annihilator targets annihilators) (ncre - rank) rank (creators, phase)
                   in Some (phase, creators, annihilators))"

section \<open>Signs of rearrangements\<close>

text \<open>The list is a rearrangement of the original operators and the phase is its sign.\<close>

definition rearranged :: "bool \<Rightarrow> 'x list \<Rightarrow> 'x list \<Rightarrow> int \<Rightarrow> bool" where
  "rearranged fermi xs ys phase \<longleftrightarrow> (\<exists>p. mset p = mset [0..<length xs] \<and> map ((!) xs) p = ys
     \<and> phase = (if fermi \<and> odd (inversions (<) p) then - 1 else 1))"

lemma rearranged_refl: "rearranged fermi xs xs 1"
proof -
  have "inversions (<) [0..<length xs] = 0" by (rule inversions_sorted) (simp add: sorted_wrt_iff_nth_less)
  then show ?thesis unfolding rearranged_def by (intro exI [of _ "[0..<length xs]"]) (simp add: map_nth)
qed

lemma rearranged_move:
  assumes "rearranged fermi xs (as @ x # bs @ cs) phase"
  shows "rearranged fermi xs (as @ bs @ x # cs) (if fermi \<and> odd (length bs) then - phase else phase)"
proof -
  obtain p where p: "mset p = mset [0..<length xs]" "map ((!) xs) p = as @ x # bs @ cs"
    "phase = (if fermi \<and> odd (inversions (<) p) then - 1 else 1)" using assms unfolding rearranged_def by blast
  have d: "distinct p" using p(1) by (metis distinct_upt mset_eq_imp_distinct_iff)
  obtain a q where q: "p = a @ q" "map ((!) xs) a = as" "map ((!) xs) q = x # bs @ cs" using p(2) by (metis map_eq_append_conv)
  obtain i r where r: "q = i # r" "xs ! i = x" "map ((!) xs) r = bs @ cs" using q(3) by auto
  obtain b c where "r = b @ c" "map ((!) xs) b = bs" "map ((!) xs) c = cs" using r(3) by (metis map_eq_append_conv)
  then have s: "p = a @ i # b @ c" "map ((!) xs) a = as" "xs ! i = x" "map ((!) xs) b = bs" "map ((!) xs) c = cs" using q r by simp_all
  have "even (inversions (<) p) \<longleftrightarrow> even (inversions (<) (a @ b @ i # c) + length b)"
    unfolding s(1) using d s(1) by (intro parity_move) simp
  moreover have "length b = length bs" using s(4) by auto
  moreover have "mset (a @ b @ i # c) = mset [0..<length xs]" using p(1) s(1) by simp
  moreover have "map ((!) xs) (a @ b @ i # c) = as @ bs @ x # cs" using s by simp
  ultimately show ?thesis using p(3) unfolding rearranged_def by (intro exI [of _ "a @ b @ i # c"]) auto
qed

lemma rearranged_iter_swap:
  assumes "rearranged fermi xs ys phase" "i < length ys" "j < length ys" "i \<noteq> j"
  shows "rearranged fermi xs (iter_swap ys i j) (if fermi then - phase else phase)"
proof -
  obtain p where p: "mset p = mset [0..<length xs]" "map ((!) xs) p = ys"
    "phase = (if fermi \<and> odd (inversions (<) p) then - 1 else 1)" using assms(1) unfolding rearranged_def by blast
  have d: "distinct p" using p(1) by (metis distinct_upt mset_eq_imp_distinct_iff)
  have len: "length p = length ys" using p(2) by auto
  have "even (inversions (<) (iter_swap p i j)) \<longleftrightarrow> odd (inversions (<) p)"
    using d assms(2-4) len by (intro parity_iter_swap) simp_all
  moreover have "mset (iter_swap p i j) = mset [0..<length xs]" using p(1) assms(2,3) len by (simp add: iter_swap_def mset_swap)
  moreover have "xs ! (p ! k) = ys ! k" if "k < length ys" for k
    unfolding p(2) [symmetric] using that len by simp
  then have "map ((!) xs) (iter_swap p i j) = iter_swap ys i j"
    unfolding iter_swap_def map_update p(2) using assms(2,3) by simp
  ultimately show ?thesis using p(3) unfolding rearranged_def by (intro exI [of _ "iter_swap p i j"]) auto
qed

section \<open>Collecting\<close>

lemma concat_update:
  assumes "g < length groups" "\<forall>i<g. groups ! i = []"
  shows "concat groups = groups ! g @ concat (drop (Suc g) groups)"
    "concat (groups[g := ys]) = ys @ concat (drop (Suc g) groups)"
proof -
  have none: "concat (take g groups) = []" using assms by (auto simp: in_set_conv_nth)
  have "groups = take g groups @ groups ! g # drop (Suc g) groups" using assms(1) by (simp add: id_take_nth_drop)
  then have "concat groups = concat (take g groups @ groups ! g # drop (Suc g) groups)" by simp
  then show "concat groups = groups ! g @ concat (drop (Suc g) groups)" using none by simp
  have "concat (groups[g := ys]) = concat (take g groups @ ys # drop (Suc g) groups)" using assms(1) by (simp add: upd_conv_take_nth_drop)
  then show "concat (groups[g := ys]) = ys @ concat (drop (Suc g) groups)" using none by simp
qed

lemma collect_loop:
  assumes "rearranged fermi xs (creators @ map snd rs @ concat groups) phase" "sorted (map fst rs)" "length groups = m"
    "\<forall>(k, x)\<in>set rs. k < m \<and> (\<forall>i < m - k - 1. groups ! i = [])"
    "list_all (\<lambda>x. action x = Create) creators" "list_all (\<lambda>x. action x = Annihilate) (concat groups)"
  shows "case foldl (collect_op fermi (pos + length rs) m) (pos, creators, groups, phase) rs of (pos', creators', groups', phase') \<Rightarrow>
    rearranged fermi xs (creators' @ concat groups') phase' \<and> list_all (\<lambda>x. action x = Create) creators'
    \<and> list_all (\<lambda>x. action x = Annihilate) (concat groups')"
  using assms
proof (induction rs arbitrary: pos creators groups phase)
  case (Cons kx rs)
  obtain k x where kx: "kx = (k, x)" by fastforce
  define g where "g = m - k - 1"
  have k: "k < m" "\<forall>i<g. groups ! i = []" "g < m" using Cons.prems(4) kx by (auto simp: g_def)
  show ?case
  proof (cases "action x = Create")
    case True
    then have "collect_op fermi (pos + length (kx # rs)) m (pos, creators, groups, phase) kx = (Suc pos, creators @ [x], groups, phase)"
      by (simp add: collect_op_def kx)
    then show ?thesis using Cons.IH [of "creators @ [x]" groups phase "Suc pos"] Cons.prems True by (simp add: kx)
  next
    case False
    then have ann: "action x = Annihilate" using action.exhaust by blast
    define phase' where "phase' = (if fermi \<and> odd (length (map snd rs @ groups ! g)) then - phase else phase)"
    have step: "collect_op fermi (pos + length (kx # rs)) m (pos, creators, groups, phase) kx
        = (Suc pos, creators, groups[g := groups ! g @ [x]], phase')"
    proof -
      have "pos + length ((k, x) # rs) - pos - 1 + length (groups ! g) = length (map snd rs @ groups ! g)" by simp
      then show ?thesis unfolding collect_op_def kx prod.case Let_def g_def [symmetric] phase'_def using False by simp
    qed
    note split = concat_update [of g groups, OF _ k(2)]
    have cg: "concat groups = groups ! g @ concat (drop (Suc g) groups)" using split(1) k(3) Cons.prems(3) by simp
    have cu: "concat (groups[g := groups ! g @ [x]]) = groups ! g @ x # concat (drop (Suc g) groups)" using split(2) k(3) Cons.prems(3) by simp
    have "rearranged fermi xs (creators @ x # (map snd rs @ groups ! g) @ concat (drop (Suc g) groups)) phase"
      using Cons.prems(1) by (simp add: kx cg)
    from rearranged_move [OF this] have re: "rearranged fermi xs (creators @ map snd rs @ concat (groups[g := groups ! g @ [x]])) phase'"
      by (simp add: cu phase'_def)
    have other: "k' < m \<and> (\<forall>i < m - k' - 1. groups[g := groups ! g @ [x]] ! i = [])" if "(k', y) \<in> set rs" for k' y
    proof -
      have "k' < m" "\<forall>i < m - k' - 1. groups ! i = []" using Cons.prems(4) that by auto
      moreover have "k \<le> k'" using Cons.prems(2) that by (force simp: kx)
      then have "g \<noteq> i" if "i < m - k' - 1" for i using that by (simp add: g_def)
      ultimately show ?thesis by simp
    qed
    have "list_all (\<lambda>x. action x = Annihilate) (concat (groups[g := groups ! g @ [x]]))" using Cons.prems(6) ann by (simp add: cu cg)
    moreover have "\<forall>(k', y)\<in>set rs. k' < m \<and> (\<forall>i < m - k' - 1. groups[g := groups ! g @ [x]] ! i = [])" using other by blast
    moreover have "sorted (map fst rs)" "length (groups[g := groups ! g @ [x]]) = m" using Cons.prems(2,3) by auto
    ultimately have "case foldl (collect_op fermi (Suc pos + length rs) m) (Suc pos, creators, groups[g := groups ! g @ [x]], phase') rs of
      (pos', creators', groups', phase') \<Rightarrow> rearranged fermi xs (creators' @ concat groups') phase'
        \<and> list_all (\<lambda>x. action x = Create) creators' \<and> list_all (\<lambda>x. action x = Annihilate) (concat groups')"
      using Cons.prems(5) by (intro Cons.IH [OF re]) simp_all
    moreover have "Suc pos + length rs = pos + length (kx # rs)" by simp
    ultimately show ?thesis using step by simp
  qed
qed simp

lemma flat_bounds: "\<forall>(j, x)\<in>set (flat_from k xss). k \<le> j \<and> j < k + length xss"
  by (induction k xss rule: flat_from.induct) fastforce+

lemma flat_sorted: "sorted (map fst (flat_from k xss))"
proof (induction k xss rule: flat_from.induct)
  case (2 k xs xss)
  have "map fst (map (Pair k) xs) = replicate (length xs) k" by (induction xs) simp_all
  moreover have "k \<le> j" if "j \<in> set (map fst (flat_from (Suc k) xss))" for j using that flat_bounds [of "Suc k" xss] by force
  ultimately show ?case using 2 by (simp add: sorted_append)
qed simp

lemma collect_ops_rearranges:
  assumes "collect_ops fermi opseq = (creators, annihilators, phase)"
  shows "rearranged fermi (concat opseq) (normal_operator creators annihilators) phase" "list_all (\<lambda>x. action x = Create) creators"
    "list_all (\<lambda>x. action x = Annihilate) annihilators"
proof -
  let ?m = "length opseq"
  have none: "concat (replicate ?m []) = ([] :: 'a op list)" by simp
  have start: "rearranged fermi (concat opseq) ([] @ map snd (flat opseq) @ concat (replicate ?m [])) 1" by (simp add: rearranged_refl)
  have "case foldl (collect_op fermi (0 + length (flat opseq)) ?m) (0, [], replicate ?m [], 1) (flat opseq) of (pos', creators', groups', phase') \<Rightarrow>
      rearranged fermi (concat opseq) (creators' @ concat groups') phase' \<and> list_all (\<lambda>x. action x = Create) creators'
      \<and> list_all (\<lambda>x. action x = Annihilate) (concat groups')"
    using flat_bounds [of 0 opseq] flat_sorted [of 0 opseq] by (intro collect_loop [OF start]) auto
  moreover have "concat (map rev (rev gs)) = rev (concat gs)" for gs :: "'a op list list" by (simp add: rev_concat)
  ultimately show "rearranged fermi (concat opseq) (normal_operator creators annihilators) phase" "list_all (\<lambda>x. action x = Create) creators"
    "list_all (\<lambda>x. action x = Annihilate) annihilators"
    using assms by (auto simp: collect_ops_def normal_operator_def Let_def list_all_iff split: prod.splits)
qed

section \<open>Aligning\<close>

lemma find_posD:
  assumes "find_pos P xs = Some k"
  shows "k < length xs \<and> P (xs ! k)"
proof -
  have k: "k = length (takeWhile (Not \<circ> P) xs)" "list_ex P xs" using assms by (simp_all add: find_pos_def split: if_splits)
  then have "takeWhile (Not \<circ> P) xs \<noteq> xs" by (auto simp: list_ex_iff takeWhile_eq_all_conv)
  then have "k < length xs" unfolding k(1) by (metis length_takeWhile_le nat_less_le takeWhile_eq_take take_all_iff)
  moreover have "P (xs ! k)" using nth_length_takeWhile [of "Not \<circ> P" xs] \<open>k < length xs\<close> unfolding k(1) by simp
  ultimately show ?thesis by blast
qed

lemma find_pos_ex: "x \<in> set xs \<Longrightarrow> P x \<Longrightarrow> \<exists>k. find_pos P xs = Some k"
  by (auto simp: find_pos_def list_ex_iff)

lemma swap_to_cases:
  assumes "target < length xs"
  obtains "swap_to fermi i target (xs, ph) = (xs, ph)" "\<And>x. x \<in> set xs \<Longrightarrow> index x = i \<Longrightarrow> index (xs ! target) = i"
    | source where "source < length xs" "source \<noteq> target" "index (xs ! source) = i"
      "swap_to fermi i target (xs, ph) = (iter_swap xs source target, if fermi then - ph else ph)"
proof (cases "find_pos (\<lambda>v. index v = i) xs")
  case None
  then have "\<not> (x \<in> set xs \<and> index x = i)" for x using find_pos_ex [of x xs "\<lambda>v. index v = i"] by auto
  then show thesis using None that(1) by (auto simp: swap_to_def)
next
  case (Some source)
  from find_posD [OF this] have s: "source < length xs" "index (xs ! source) = i" by auto
  then show thesis using Some that by (cases "source = target") (auto simp: swap_to_def)
qed

lemma mset_iter_swap: "i < length xs \<Longrightarrow> j < length xs \<Longrightarrow> mset (iter_swap xs i j) = mset xs"
  by (simp add: iter_swap_def mset_swap)

text \<open>Whatever swaps do to the sign in the list, they do in the list with something around it.\<close>

definition in_place :: "('x list \<Rightarrow> 'x list) \<Rightarrow> bool" where
  "in_place h \<longleftrightarrow> (\<forall>xs i j. i < length xs \<longrightarrow> j < length xs \<longrightarrow> i \<noteq> j \<longrightarrow>
     (\<exists>i' j'. i' < length (h xs) \<and> j' < length (h xs) \<and> i' \<noteq> j' \<and> h (iter_swap xs i j) = iter_swap (h xs) i' j'))"

lemma rev_iter_swap:
  assumes "i < length xs" "j < length xs"
  shows "rev (iter_swap xs i j) = iter_swap (rev xs) (length xs - 1 - i) (length xs - 1 - j)"
  using assms by (simp add: iter_swap_def rev_update rev_nth)

lemma in_place_rev: "in_place (\<lambda>ann. as @ rev ann)"
  unfolding in_place_def
proof (intro allI impI)
  fix xs :: "'a list" and i j
  assume ij: "i < length xs" "j < length xs" "i \<noteq> j"
  let ?i = "length as + (length xs - 1 - i)" and ?j = "length as + (length xs - 1 - j)"
  have "as @ rev (iter_swap xs i j) = iter_swap (as @ rev xs) ?i ?j"
    unfolding rev_iter_swap [OF ij(1,2)] by (simp add: iter_swap_def nth_append list_update_append)
  moreover have "?i \<noteq> ?j" using ij by linarith
  moreover have "?i < length (as @ rev xs)" "?j < length (as @ rev xs)" unfolding length_append length_rev using ij by linarith+
  ultimately show "\<exists>i' j'. i' < length (as @ rev xs) \<and> j' < length (as @ rev xs) \<and> i' \<noteq> j' \<and> as @ rev (iter_swap xs i j) = iter_swap (as @ rev xs) i' j'"
    by blast
qed

lemma in_place_append: "in_place (\<lambda>cre. cre @ bs)"
  by (auto simp: in_place_def iter_swap_def nth_append list_update_append intro!: exI)

lemma align_sign:
  assumes "in_place h" "rearranged fermi ys (h xs) ph" "p + extra \<le> length xs"
  shows "case align fermi partner extra p (xs, ph) of (xs', ph') \<Rightarrow> rearranged fermi ys (h xs') ph' \<and> mset xs' = mset xs"
  using assms(2,3)
proof (induction p arbitrary: xs ph)
  case (Suc p)
  show ?case
  proof (cases "partner p")
    case None
    then show ?thesis using Suc by simp
  next
    case (Some i)
    have t: "p + extra < length xs" using Suc.prems(2) by simp
    show ?thesis
    proof (rule swap_to_cases [OF t, of fermi i ph])
      assume "swap_to fermi i (p + extra) (xs, ph) = (xs, ph)"
      then show ?thesis using Suc Some by simp
    next
      fix source
      assume s: "source < length xs" "source \<noteq> p + extra"
        "swap_to fermi i (p + extra) (xs, ph) = (iter_swap xs source (p + extra), if fermi then - ph else ph)"
      obtain i' j' where ij: "i' < length (h xs)" "j' < length (h xs)" "i' \<noteq> j'" "h (iter_swap xs source (p + extra)) = iter_swap (h xs) i' j'"
        using assms(1) s(1,2) t unfolding in_place_def by meson
      have "rearranged fermi ys (h (iter_swap xs source (p + extra))) (if fermi then - ph else ph)"
        unfolding ij(4) by (rule rearranged_iter_swap [OF Suc.prems(1) ij(1-3)])
      from Suc.IH [OF this] show ?thesis using s t Some by (simp add: mset_iter_swap split: prod.splits)
    qed
  qed
qed simp

lemma iter_swap_nths:
  assumes "i < length xs" "j < length xs"
  shows "iter_swap xs i j ! j = xs ! i" "k \<noteq> i \<Longrightarrow> k \<noteq> j \<Longrightarrow> iter_swap xs i j ! k = xs ! k"
  using assms by (simp_all add: iter_swap_def nth_list_update)

lemma align_columns:
  assumes "distinct (map index xs)" "\<And>q q' i. partner q = Some i \<Longrightarrow> partner q' = Some i \<Longrightarrow> q < m \<Longrightarrow> q' < m \<Longrightarrow> q = q'"
    "p \<le> m" "m + extra \<le> length xs"
    "\<And>q i. p \<le> q \<Longrightarrow> q < m \<Longrightarrow> partner q = Some i \<Longrightarrow> i \<in> index ` set xs \<Longrightarrow> index (xs ! (q + extra)) = i"
    "align fermi partner extra p (xs, ph) = (xs', ph')" "q < m" "partner q = Some i" "i \<in> index ` set xs"
  shows "index (xs' ! (q + extra)) = i"
  using assms(1,3-)
proof (induction p arbitrary: xs ph)
  case (Suc p)
  have t: "p + extra < length xs" using Suc.prems(2,3) by simp
  define ys ph1 where "ys = fst (case partner p of None \<Rightarrow> (xs, ph) | Some i \<Rightarrow> swap_to fermi i (p + extra) (xs, ph))"
    and "ph1 = snd (case partner p of None \<Rightarrow> (xs, ph) | Some i \<Rightarrow> swap_to fermi i (p + extra) (xs, ph))"
  have rest: "align fermi partner extra p (ys, ph1) = (xs', ph')" using Suc.prems(5) by (simp add: ys_def ph1_def)
  have ys: "mset ys = mset xs \<and> (\<forall>q i. p \<le> q \<longrightarrow> q < m \<longrightarrow> partner q = Some i \<longrightarrow> i \<in> index ` set xs \<longrightarrow> index (ys ! (q + extra)) = i)"
  proof (cases "partner p")
    case None
    then have "ys = xs" by (simp add: ys_def)
    moreover have "Suc p \<le> q" if "p \<le> q" "partner q = Some i" for q i using that None by (cases "p = q") auto
    ultimately show ?thesis using Suc.prems(4) by blast
  next
    case (Some a)
    show ?thesis
    proof (rule swap_to_cases [OF t, of fermi a ph])
      assume s: "swap_to fermi a (p + extra) (xs, ph) = (xs, ph)" "\<And>x. x \<in> set xs \<Longrightarrow> index x = a \<Longrightarrow> index (xs ! (p + extra)) = a"
      then have "ys = xs" using Some by (simp add: ys_def)
      moreover have "index (xs ! (q + extra)) = i" if "p \<le> q" "q < m" "partner q = Some i" "i \<in> index ` set xs" for q i
        using that s(2) Some Suc.prems(4) [of q i] by (cases "p = q") auto
      ultimately show ?thesis by blast
    next
      fix source
      assume s: "source < length xs" "source \<noteq> p + extra" "index (xs ! source) = a"
        "swap_to fermi a (p + extra) (xs, ph) = (iter_swap xs source (p + extra), if fermi then - ph else ph)"
      then have y: "ys = iter_swap xs source (p + extra)" using Some by (simp add: ys_def)
      have "index (ys ! (q + extra)) = i" if q: "p \<le> q" "q < m" "partner q = Some i" "i \<in> index ` set xs" for q i
      proof (cases "p = q")
        case True
        then show ?thesis using iter_swap_nths(1) [OF s(1) t] s(3) Some q(3) y by simp
      next
        case False
        then have old: "index (xs ! (q + extra)) = i" using q Suc.prems(4) by simp
        have "i \<noteq> a" using assms(2) [of q i p] q(2,3) Some False Suc.prems(2) by auto
        then have "q + extra \<noteq> source" using old s(3) by auto
        then show ?thesis using iter_swap_nths(2) [OF s(1) t] False old y by simp
      qed
      then show ?thesis using mset_iter_swap [OF s(1) t] y by blast
    qed
  qed
  then have same: "set ys = set xs" "length ys = length xs" "distinct (map index ys)"
    using Suc.prems(1) by (metis mset_eq_setD, metis size_mset, metis mset_map mset_eq_imp_distinct_iff)
  show ?case
    by (rule Suc.IH [of ys ph1]) (use same ys rest Suc.prems(2,3,6-8) in auto)
qed auto

section \<open>What normalize returns\<close>

lemma find_pair:
  "distinct (map fst ts) \<Longrightarrow> (c, a) \<in> set ts \<Longrightarrow> List.find (\<lambda>pr. fst pr = c) ts = Some (c, a)"
  "distinct (map snd ts) \<Longrightarrow> (c, a) \<in> set ts \<Longrightarrow> List.find (\<lambda>pr. snd pr = a) ts = Some (c, a)"
  by (induction ts) (force simp: image_iff)+

lemma find_pairD: "List.find P ts = Some x \<Longrightarrow> x \<in> set ts \<and> P x"
  by (metis find_Some_iff nth_mem)

lemma index_position:
  assumes "distinct (map index xs)" "q < length xs" "q' < length xs" "index (xs ! q) = index (xs ! q')"
  shows "q = q'"
  using assms by (metis length_map nth_eq_iff_index_eq nth_map)

lemma partner_of_creator_inj:
  assumes "distinct (map index xs)" "distinct (map snd targets)" "partner_of_creator targets xs q = Some i"
    "partner_of_creator targets xs q' = Some i" "q < length xs" "q' < length xs"
  shows "q = q'"
proof -
  obtain x where x: "List.find (\<lambda>pr. fst pr = index (xs ! q)) targets = Some x" "snd x = i"
    using assms(3) by (auto simp: partner_of_creator_def)
  obtain y where y: "List.find (\<lambda>pr. fst pr = index (xs ! q')) targets = Some y" "snd y = i"
    using assms(4) by (auto simp: partner_of_creator_def)
  note mem = find_pairD [OF x(1)] find_pairD [OF y(1)]
  have "x = y" by (rule inj_onD [of snd "set targets"]) (use assms(2) mem x(2) y(2) in \<open>auto simp: distinct_map\<close>)
  then show ?thesis using index_position [OF assms(1,5,6)] mem by simp
qed

lemma partner_of_annihilator_inj:
  assumes "distinct (map index xs)" "distinct (map fst targets)" "partner_of_annihilator targets xs q = Some i"
    "partner_of_annihilator targets xs q' = Some i" "q < length xs" "q' < length xs"
  shows "q = q'"
proof -
  obtain x where x: "List.find (\<lambda>pr. snd pr = index (xs ! q)) targets = Some x" "fst x = i"
    using assms(3) by (auto simp: partner_of_annihilator_def)
  obtain y where y: "List.find (\<lambda>pr. snd pr = index (xs ! q')) targets = Some y" "fst y = i"
    using assms(4) by (auto simp: partner_of_annihilator_def)
  note mem = find_pairD [OF x(1)] find_pairD [OF y(1)]
  have "x = y" by (rule inj_onD [of fst "set targets"]) (use assms(2) mem x(2) y(2) in \<open>auto simp: distinct_map\<close>)
  then show ?thesis using index_position [OF assms(1,5,6)] mem by simp
qed

lemma length_swap_to: "length (fst (swap_to fermi i t st)) = length (fst st)"
  by (simp add: swap_to_def split: option.splits)

lemma length_align: "length (fst (align fermi partner extra p st)) = length (fst st)"
proof (induction p arbitrary: st)
  case (Suc p)
  then show ?case by (simp add: length_swap_to split: option.splits)
qed simp

definition in_one_column :: "'i op list \<Rightarrow> 'i op list \<Rightarrow> 'i \<times> 'i \<Rightarrow> bool" where
  "in_one_column creators annihilators pr \<longleftrightarrow> (let rank = min (length creators) (length annihilators) in
     \<exists>q<rank. index (creators ! (q + (length creators - rank))) = fst pr \<and> index (annihilators ! (q + (length annihilators - rank))) = snd pr)"

lemma align_pairs:
  assumes "collect_ops fermi opseq = (creators, annihilators, phase)" "normalize fermi opseq targets = Some (phase', creators', annihilators')"
    "distinct (map index creators)" "distinct (map index annihilators)" "distinct (map fst targets)" "distinct (map snd targets)"
    "(c, a) \<in> set targets" "c \<in> index ` set creators" "a \<in> index ` set annihilators"
  shows "in_one_column creators' annihilators' (c, a)"
proof -
  have ne: "opseq \<noteq> []" "targets \<noteq> []" using assms(2,7) by (auto simp: normalize_def)
  show ?thesis
  proof (cases "length creators \<le> length annihilators")
    case True
    obtain xs' where al: "align fermi (partner_of_creator targets creators) (length annihilators - length creators) (length creators) (annihilators, phase)
        = (xs', phase')" "creators' = creators" "annihilators' = xs'"
      using assms(2) ne True by (simp add: normalize_def assms(1) min_absorb1 Let_def split: prod.splits)
    obtain q where q: "q < length creators" "index (creators ! q) = c" using assms(8) by (auto simp: in_set_conv_nth)
    have p: "partner_of_creator targets creators q = Some a" by (simp add: partner_of_creator_def q(2) find_pair(1) [OF assms(5,7)])
    have "index (xs' ! (q + (length annihilators - length creators))) = a"
      by (rule align_columns [OF assms(4) partner_of_creator_inj [OF assms(3,6)] le_refl _ _ al(1) q(1) p assms(9)]) (use True in auto)
    moreover have "length xs' = length annihilators"
      using length_align [of fermi "partner_of_creator targets creators" _ _ "(annihilators, phase)"] al(1) by (metis fst_conv)
    ultimately show ?thesis using q True by (auto simp: in_one_column_def Let_def al(2,3) min_absorb1)
  next
    case False
    then have less: "length annihilators \<le> length creators" by simp
    obtain xs' where al: "align fermi (partner_of_annihilator targets annihilators) (length creators - length annihilators) (length annihilators) (creators, phase)
        = (xs', phase')" "creators' = xs'" "annihilators' = annihilators"
      using assms(2) ne False by (simp add: normalize_def assms(1) min_absorb2 Let_def split: prod.splits)
    obtain q where q: "q < length annihilators" "index (annihilators ! q) = a" using assms(9) by (auto simp: in_set_conv_nth)
    have p: "partner_of_annihilator targets annihilators q = Some c" by (simp add: partner_of_annihilator_def q(2) find_pair(2) [OF assms(6,7)])
    have "index (xs' ! (q + (length creators - length annihilators))) = c"
      by (rule align_columns [OF assms(3) partner_of_annihilator_inj [OF assms(4,5)] le_refl _ _ al(1) q(1) p assms(8)]) (use less in auto)
    moreover have "length xs' = length creators"
      using length_align [of fermi "partner_of_annihilator targets annihilators" _ _ "(creators, phase)"] al(1) by (metis fst_conv)
    ultimately show ?thesis using q less by (auto simp: in_one_column_def Let_def al(2,3) min_absorb2)
  qed
qed

text \<open>
  C40: \<open>normalize\<close> succeeds on every nonempty sequence of normal operators and returns a rearrangement of its operators, creators
  before annihilators; the phase is the sign of the rearrangement for fermions and one for bosons.  When no index occurs
  twice, the target partners that are both left end up in one column, the columns being aligned at the right.
\<close>

theorem normalize_correct:
  assumes "opseq \<noteq> []"
  shows "\<exists>phase creators annihilators p. normalize fermi opseq targets = Some (phase, creators, annihilators)
    \<and> mset p = mset [0..<length (concat opseq)] \<and> map ((!) (concat opseq)) p = normal_operator creators annihilators
    \<and> phase = (if fermi \<and> odd (inversions (<) p) then - 1 else 1)
    \<and> list_all (\<lambda>x. action x = Create) creators \<and> list_all (\<lambda>x. action x = Annihilate) annihilators
    \<and> (distinct (map index creators) \<and> distinct (map index annihilators) \<and> distinct (map fst targets) \<and> distinct (map snd targets)
       \<longrightarrow> (\<forall>pr\<in>set targets. fst pr \<in> index ` set creators \<and> snd pr \<in> index ` set annihilators \<longrightarrow> in_one_column creators annihilators pr))"
proof -
  obtain cre ann ph where c: "collect_ops fermi opseq = (cre, ann, ph)" by (metis prod_cases3)
  note C = collect_ops_rearranges [OF c]
  let ?rank = "min (length cre) (length ann)"
  have "\<exists>ph' cre' ann'. normalize fermi opseq targets = Some (ph', cre', ann') \<and> rearranged fermi (concat opseq) (normal_operator cre' ann') ph'
      \<and> mset cre' = mset cre \<and> mset ann' = mset ann"
  proof (cases "targets = []")
    case True
    then show ?thesis using assms c C(1) by (simp add: normalize_def)
  next
    case t: False
    show ?thesis
    proof (cases "length cre = ?rank")
      case True
      obtain xs' ph' where al: "align fermi (partner_of_creator targets cre) (length ann - ?rank) ?rank (ann, ph) = (xs', ph')" by fastforce
      have "rearranged fermi (concat opseq) (cre @ rev xs') ph' \<and> mset xs' = mset ann"
        using align_sign [OF in_place_rev [of cre], of fermi "concat opseq" ann ph ?rank "length ann - ?rank" "partner_of_creator targets cre"]
          C(1) al by (simp add: normal_operator_def)
      then show ?thesis using assms t True al by (simp add: normalize_def c Let_def normal_operator_def)
    next
      case False
      obtain xs' ph' where al: "align fermi (partner_of_annihilator targets ann) (length cre - ?rank) ?rank (cre, ph) = (xs', ph')" by fastforce
      have "rearranged fermi (concat opseq) (xs' @ rev ann) ph' \<and> mset xs' = mset cre"
        using align_sign [OF in_place_append [of "rev ann"], of fermi "concat opseq" cre ph ?rank "length cre - ?rank" "partner_of_annihilator targets ann"]
          C(1) al by (simp add: normal_operator_def)
      moreover have "\<not> length cre \<le> length ann" using False by simp
      ultimately show ?thesis using assms t False al by (simp add: normalize_def c Let_def normal_operator_def)
    qed
  qed
  then obtain ph' cre' ann' where n: "normalize fermi opseq targets = Some (ph', cre', ann')"
    "rearranged fermi (concat opseq) (normal_operator cre' ann') ph'" "mset cre' = mset cre" "mset ann' = mset ann" by blast
  have sets: "set cre' = set cre" "set ann' = set ann" using n(3,4) by (metis set_mset_mset)+
  have d: "distinct (map index cre') = distinct (map index cre)" "distinct (map index ann') = distinct (map index ann)"
    using n(3,4) by (metis mset_map mset_eq_imp_distinct_iff)+
  have cols: "in_one_column cre' ann' pr"
    if "distinct (map index cre')" "distinct (map index ann')" "distinct (map fst targets)" "distinct (map snd targets)" "pr \<in> set targets"
      "fst pr \<in> index ` set cre'" "snd pr \<in> index ` set ann'" for pr
    using align_pairs [OF c n(1), of "fst pr" "snd pr"] that unfolding d sets by simp
  have all: "list_all (\<lambda>x. action x = Create) cre'" "list_all (\<lambda>x. action x = Annihilate) ann'" using C(2,3) sets by (simp_all add: list_all_iff)
  show ?thesis using n(1,2) all cols unfolding rearranged_def by blast
qed

theorem normalize_correct_witness:
  "\<exists>p. normalize True [[Op 0 Create, Op 1 Annihilate], [Op 2 Create, Op (3 :: nat) Annihilate]] [(0, 3), (2, 1)]
      = Some (- 1, [Op 0 Create, Op 2 Create], [Op 3 Annihilate, Op 1 Annihilate])
    \<and> map ((!) (concat [[Op 0 Create, Op 1 Annihilate], [Op 2 Create, Op (3 :: nat) Annihilate]])) p
        = normal_operator [Op 0 Create, Op 2 Create] [Op 3 Annihilate, Op 1 Annihilate]
    \<and> (- 1 :: int) = (if odd (inversions (<) p) then - 1 else 1)
    \<and> in_one_column [Op 0 Create, Op 2 Create] [Op 3 Annihilate, Op 1 Annihilate] (0 :: nat, 3)"
proof -
  have e: "normalize True [[Op 0 Create, Op 1 Annihilate], [Op 2 Create, Op (3 :: nat) Annihilate]] [(0, 3), (2, 1)]
      = Some (- 1, [Op 0 Create, Op 2 Create], [Op 3 Annihilate, Op 1 Annihilate])" by code_simp
  let ?opseq = "[[Op 0 Create, Op 1 Annihilate], [Op 2 Create, Op (3 :: nat) Annihilate]]"
  have "?opseq \<noteq> []" by simp
  from normalize_correct [OF this, of True "[(0, 3), (2, 1)]"] obtain phase creators annihilators p where n:
    "normalize True ?opseq [(0, 3), (2, 1)] = Some (phase, creators, annihilators)"
    "map ((!) (concat ?opseq)) p = normal_operator creators annihilators"
    "phase = (if True \<and> odd (inversions (<) p) then - 1 else 1)"
    and cols: "distinct (map index creators) \<and> distinct (map index annihilators) \<and> distinct (map fst [(0 :: nat, 3 :: nat), (2, 1)])
      \<and> distinct (map snd [(0 :: nat, 3 :: nat), (2, 1)]) \<longrightarrow> (\<forall>pr\<in>set [(0, 3), (2, 1)].
        fst pr \<in> index ` set creators \<and> snd pr \<in> index ` set annihilators \<longrightarrow> in_one_column creators annihilators pr)"
    by (elim exE conjE) blast
  have r: "phase = - 1" "creators = [Op 0 Create, Op 2 Create]" "annihilators = [Op 3 Annihilate, Op 1 Annihilate]"
    using n(1) unfolding e by simp_all
  have "in_one_column creators annihilators (0, 3)" using cols unfolding r by simp
  then show ?thesis using n(2,3) e unfolding r by (intro exI [of _ p] conjI) simp_all
qed

end
