(* ===== verification/CacheManager.thy ===== *)
theory CacheManager
  imports ValueKey
begin

text \<open>
  SeQuant/core/eval/cache_manager.hpp: the entries of the evaluation cache with their lifetime counters, the
  cache manager and its chain of parent scopes, the persistent value store, and the builders that count the
  uses of the nodes of a forest.  A \<open>ResultPtr\<close> is the address of a buffer.  The map of a manager is the list
  of its keys and entries; \<open>eq\<close> is its comparator, and the head of a list of managers is the local scope, the
  rest its chain of parents.
\<close>

section \<open>Entries\<close>

record entry =
  max_life :: "64 word"
  life_c :: "64 word"
  data_p :: "nat option"
  persistent :: bool
  stored_this_eval :: bool

definition new_entry :: "64 word \<Rightarrow> bool \<Rightarrow> entry" where
  "new_entry n p = \<lparr>max_life = n, life_c = n, data_p = None, persistent = p, stored_this_eval = False\<rparr>"

text \<open>\<open>decay\<close>: the counter is decremented at its width and returned as an \<open>int\<close>.\<close>

definition decay :: "entry \<Rightarrow> 32 word \<times> entry" where
  "decay e = (if life_c e > 0 then (let n = life_c e - 1 in (ucast n, e\<lparr>life_c := n\<rparr>)) else (0, e))"

definition access_entry :: "entry \<Rightarrow> nat option \<times> entry" where
  "access_entry e =
     (case data_p e of
        None \<Rightarrow> (None, e)
      | Some a \<Rightarrow>
          if persistent e then (Some a, e)
          else (let (n, e') = decay e
                in if n = 0 then (Some a, e'\<lparr>stored_this_eval := False, data_p := None\<rparr>) else (Some a, e')))"

datatype cache_error = FillOnceViolated | StoreAssertion

definition store_entry :: "bool \<Rightarrow> nat \<Rightarrow> entry \<Rightarrow> (cache_error, entry) result" where
  "store_entry strict a e =
     (if \<not> persistent e \<and> stored_this_eval e then Inl (if strict then FillOnceViolated else StoreAssertion)
      else Inr (e\<lparr>stored_this_eval := \<not> persistent e \<or> stored_this_eval e, data_p := Some a\<rparr>))"

definition reset_entry :: "entry \<Rightarrow> entry" where
  "reset_entry e =
     (let e' = e\<lparr>life_c := max_life e, stored_this_eval := False\<rparr>
      in if persistent e then e' else e'\<lparr>data_p := None\<rparr>)"

definition alive_entry :: "entry \<Rightarrow> bool" where
  "alive_entry e \<longleftrightarrow> data_p e \<noteq> None"

definition holds :: "nat \<Rightarrow> entry \<Rightarrow> bool" where
  "holds a e \<longleftrightarrow> data_p e = Some a"

section \<open>The persistent value store\<close>

type_synonym value_store = "64 word \<rightharpoonup> nat"

definition put_value :: "64 word \<Rightarrow> nat \<Rightarrow> value_store \<Rightarrow> value_store" where
  "put_value h a vs = vs(h \<mapsto> a)"

definition get_value :: "64 word \<Rightarrow> value_store \<Rightarrow> nat option" where
  "get_value h vs = vs h"

definition erase_value :: "64 word \<Rightarrow> value_store \<Rightarrow> value_store" where
  "erase_value h vs = vs(h := None)"

section \<open>The cache manager\<close>

record 'k cache_manager =
  cache_map :: "('k \<times> entry) list"
  strict_fill_once :: bool
  persistent_values :: value_store

definition find_entry :: "('k \<Rightarrow> 'k \<Rightarrow> bool) \<Rightarrow> 'k cache_manager \<Rightarrow> 'k \<Rightarrow> entry option" where
  "find_entry eq c k = map_option snd (List.find (\<lambda>(k', e). eq k' k) (cache_map c))"

fun set_first :: "('k \<Rightarrow> 'k \<Rightarrow> bool) \<Rightarrow> 'k \<Rightarrow> entry \<Rightarrow> ('k \<times> entry) list \<Rightarrow> ('k \<times> entry) list" where
  "set_first eq k e [] = []"
| "set_first eq k e ((k', e') # m) = (if eq k' k then (k', e) # m else (k', e') # set_first eq k e m)"

definition set_entry :: "('k \<Rightarrow> 'k \<Rightarrow> bool) \<Rightarrow> 'k \<Rightarrow> entry \<Rightarrow> 'k cache_manager \<Rightarrow> 'k cache_manager" where
  "set_entry eq k e c = c\<lparr>cache_map := set_first eq k e (cache_map c)\<rparr>"

definition try_emplace_entry :: "('k \<Rightarrow> 'k \<Rightarrow> bool) \<Rightarrow> 'k \<Rightarrow> entry \<Rightarrow> 'k cache_manager \<Rightarrow> 'k cache_manager" where
  "try_emplace_entry eq k e c = (if find_entry eq c k = None then c\<lparr>cache_map := cache_map c @ [(k, e)]\<rparr> else c)"

text \<open>The constructor from pairs of a node and its use count, and \<open>empty\<close>; the environment gives the strictness.\<close>

definition empty_cache :: "bool \<Rightarrow> 'k cache_manager" where
  "empty_cache strict = \<lparr>cache_map = [], strict_fill_once = strict, persistent_values = (\<lambda>_. None)\<rparr>"

definition mk_cache ::
    "('k \<Rightarrow> 'k \<Rightarrow> bool) \<Rightarrow> bool \<Rightarrow> ('k \<times> 64 word) list \<Rightarrow> ('k \<Rightarrow> bool) \<Rightarrow> 'k cache_manager" where
  "mk_cache eq strict decaying is_persistent =
     foldl (\<lambda>c (k, n). try_emplace_entry eq k (new_entry n (is_persistent k)) c) (empty_cache strict) decaying"

definition ensure_hoist_slot :: "('k \<Rightarrow> 'k \<Rightarrow> bool) \<Rightarrow> 'k \<Rightarrow> 'k cache_manager \<Rightarrow> 'k cache_manager" where
  "ensure_hoist_slot eq k c = try_emplace_entry eq k (new_entry (- 1) False) c"

definition reset :: "'k cache_manager \<Rightarrow> 'k cache_manager" where
  "reset c = c\<lparr>cache_map := map (\<lambda>(k, e). (k, reset_entry e)) (cache_map c)\<rparr>"

definition exists_key :: "('k \<Rightarrow> 'k \<Rightarrow> bool) \<Rightarrow> 'k cache_manager \<Rightarrow> 'k \<Rightarrow> bool" where
  "exists_key eq c k \<longleftrightarrow> find_entry eq c k \<noteq> None"

definition alive :: "('k \<Rightarrow> 'k \<Rightarrow> bool) \<Rightarrow> 'k cache_manager \<Rightarrow> 'k \<Rightarrow> bool" where
  "alive eq c k \<longleftrightarrow> (case find_entry eq c k of None \<Rightarrow> False | Some e \<Rightarrow> alive_entry e)"

definition current_life :: "('k \<Rightarrow> 'k \<Rightarrow> bool) \<Rightarrow> 'k cache_manager \<Rightarrow> 'k \<Rightarrow> 32 word" where
  "current_life eq c k = (case find_entry eq c k of None \<Rightarrow> - 1 | Some e \<Rightarrow> ucast (life_c e))"

definition registered_life :: "('k \<Rightarrow> 'k \<Rightarrow> bool) \<Rightarrow> 'k cache_manager \<Rightarrow> 'k \<Rightarrow> 32 word" where
  "registered_life eq c k = (case find_entry eq c k of None \<Rightarrow> - 1 | Some e \<Rightarrow> ucast (max_life e))"

definition alive_count :: "'k cache_manager \<Rightarrow> 64 word" where
  "alive_count c = sum_list (map life_c (filter alive_entry (map snd (cache_map c))))"

section \<open>The scope chain\<close>

fun access_at :: "('k \<Rightarrow> 'k \<Rightarrow> bool) \<Rightarrow> 'k cache_manager list \<Rightarrow> 'k
    \<Rightarrow> (nat option \<times> nat) \<times> 'k cache_manager list" where
  "access_at eq [] k = ((None, 0), [])"
| "access_at eq (c # ps) k =
     (case find_entry eq c k of
        Some e \<Rightarrow>
          (case access_entry e of
             (Some a, e') \<Rightarrow> ((Some a, 0), set_entry eq k e' c # ps)
           | (None, e') \<Rightarrow>
               if ps = [] then ((None, 0), set_entry eq k e' c # ps)
               else (let ((p, hops), ps') = access_at eq ps k in ((p, hops + 1), set_entry eq k e' c # ps')))
      | None \<Rightarrow>
          if ps = [] then ((None, 0), c # ps)
          else (let ((p, hops), ps') = access_at eq ps k in ((p, hops + 1), c # ps')))"

definition store_and_access :: "('k \<Rightarrow> 'k \<Rightarrow> bool) \<Rightarrow> 'k \<Rightarrow> nat \<Rightarrow> 'k cache_manager
    \<Rightarrow> (cache_error, nat option \<times> 'k cache_manager) result" where
  "store_and_access eq k a c =
     (case find_entry eq c k of
        None \<Rightarrow> Inr (Some a, c)
      | Some e \<Rightarrow>
          bind_res (store_entry (strict_fill_once c) a e)
            (\<lambda>e'. let (p, e'') = access_entry e' in Inr (p, set_entry eq k e'' c)))"

definition holds_local :: "'k cache_manager \<Rightarrow> nat \<Rightarrow> bool" where
  "holds_local c a \<longleftrightarrow> list_ex (\<lambda>(k, e). holds a e) (cache_map c)"

definition chain_holds :: "'k cache_manager list \<Rightarrow> nat \<Rightarrow> bool" where
  "chain_holds cs a \<longleftrightarrow> list_ex (\<lambda>c. holds_local c a) cs"

definition chain_holds_shared :: "'k cache_manager list \<Rightarrow> nat \<Rightarrow> bool" where
  "chain_holds_shared cs a \<longleftrightarrow>
     list_ex (\<lambda>c. list_ex (\<lambda>(k, e). holds a e \<and> (persistent e \<or> max_life e > 1)) (cache_map c)) cs"

definition resident_in_chain :: "('k \<Rightarrow> 'k \<Rightarrow> bool) \<Rightarrow> 'k cache_manager list \<Rightarrow> 'k \<Rightarrow> bool" where
  "resident_in_chain eq cs k \<longleftrightarrow> list_ex (\<lambda>c. alive eq c k) cs"

section \<open>Counting the uses of the nodes of a forest\<close>

text \<open>
  \<open>cache_manager\<close> without volatility: the visitor counts an internal node and declines the subtree of one
  it has seen; the nodes counted at least \<open>min_repeats\<close> times are registered.
\<close>

definition count_of :: "('k \<Rightarrow> 'k \<Rightarrow> bool) \<Rightarrow> ('k \<times> nat) list \<Rightarrow> 'k \<Rightarrow> nat option" where
  "count_of eq m k = map_option snd (List.find (\<lambda>(k', n). eq k' k) m)"

fun bump_count :: "('k \<Rightarrow> 'k \<Rightarrow> bool) \<Rightarrow> 'k \<Rightarrow> ('k \<times> nat) list \<Rightarrow> ('k \<times> nat) list" where
  "bump_count eq k [] = []"
| "bump_count eq k ((k', n) # m) = (if eq k' k then (k', Suc n) # m else (k', n) # bump_count eq k m)"

definition imed_visitor :: "('a node \<Rightarrow> 'a node \<Rightarrow> bool) \<Rightarrow> ('a, ('a node \<times> nat) list) visitor" where
  "imed_visitor eq n ctx m =
     (case count_of eq m n of Some _ \<Rightarrow> (False, bump_count eq n m) | None \<Rightarrow> (True, m @ [(n, 1)]))"

fun count_uses :: "('a node \<Rightarrow> 'a node \<Rightarrow> bool) \<Rightarrow> 'a node list \<Rightarrow> ('a node \<times> nat) list
    \<Rightarrow> (node_error, ('a node \<times> nat) list) result option" where
  "count_uses eq [] m = Some (Inr m)"
| "count_uses eq (t # ts) m =
     (case visit PreOrder VisitInternal (imed_visitor eq) t [] m of
        Some (Inr m') \<Rightarrow> count_uses eq ts m'
      | r \<Rightarrow> r)"

definition cache_manager_for :: "('a node \<Rightarrow> 'a node \<Rightarrow> bool) \<Rightarrow> bool \<Rightarrow> 'a node list \<Rightarrow> nat
    \<Rightarrow> (node_error, 'a node cache_manager) result option" where
  "cache_manager_for eq strict nodes min_repeats =
     map_option (map_sum id (\<lambda>m. mk_cache eq strict
         (map (\<lambda>(k, n). (k, of_nat n)) (filter (\<lambda>(k, n). min_repeats \<le> n) m)) (\<lambda>_. False)))
       (count_uses eq nodes [])"

section \<open>Corners of the interface\<close>

text \<open>\<open>decay\<close> returns the new counter as an \<open>int\<close>: an entry with 2^32 reads left counts as drained and gives its data away.\<close>

lemma decay_truncates:
  "access_entry \<lparr>max_life = - 1, life_c = 2 ^ 32 + 1, data_p = Some a, persistent = False, stored_this_eval = True\<rparr>
     = (Some a, \<lparr>max_life = - 1, life_c = 2 ^ 32, data_p = None, persistent = False, stored_this_eval = False\<rparr>)"
  by (simp add: access_entry_def decay_def)

text \<open>The unbounded life of a hoisted slot reads as -1, as if the key were not registered.\<close>

lemma hoist_slot_reads_absent:
  assumes "eq k k"
  shows "exists_key eq (ensure_hoist_slot eq k (empty_cache strict)) k"
    and "current_life eq (ensure_hoist_slot eq k (empty_cache strict)) k = current_life eq (empty_cache strict) k"
    and "registered_life eq (ensure_hoist_slot eq k (empty_cache strict)) k = registered_life eq (empty_cache strict) k"
proof -
  have "ucast (- 1 :: 64 word) = (- 1 :: 32 word)" by code_simp
  then show "exists_key eq (ensure_hoist_slot eq k (empty_cache strict)) k"
    "current_life eq (ensure_hoist_slot eq k (empty_cache strict)) k = current_life eq (empty_cache strict) k"
    "registered_life eq (ensure_hoist_slot eq k (empty_cache strict)) k = registered_life eq (empty_cache strict) k"
    using assms by (simp_all add: ensure_hoist_slot_def try_emplace_entry_def empty_cache_def find_entry_def exists_key_def
        current_life_def registered_life_def new_entry_def)
qed

text \<open>A miss on the whole chain reports the number of links, not 0.\<close>

lemma miss_reports_hops: "fst (access_at eq [empty_cache s, empty_cache s', empty_cache s''] k) = (None, 2)"
  by (simp add: empty_cache_def find_entry_def)

text \<open>\<open>alive_count\<close> adds up the remaining lives of the entries that hold data.\<close>

lemma alive_count_adds_lives:
  "alive_count \<lparr>cache_map = [(k, \<lparr>max_life = 4, life_c = 3, data_p = Some a, persistent = False, stored_this_eval = True\<rparr>)],
     strict_fill_once = False, persistent_values = (\<lambda>_. None)\<rparr> = 3"
  by (simp add: alive_count_def alive_entry_def)

end
