(* ===== verification/Evaluate.thy ===== *)
theory Evaluate
  imports CacheManager
begin

text \<open>
  SeQuant/core/eval/eval.hpp: the evaluation of a tree against the cache (\<open>apply_one_op\<close>,
  \<open>apply_canon_phase\<close>, \<open>sum_in_place_traced\<close>, the stack machine \<open>evaluate_impl\<close>, \<open>evaluate\<close> of a tree and
  of a forest).  Results live in a heap of buffers, so that the accumulation in place writes through every
  pointer to its buffer.  The backend's methods on values, the leaf evaluator, the hooks and the annotations
  are a parameter of the model; tracing and timing are left out.
\<close>

section \<open>The state and the context of an evaluation\<close>

record ('n, 'v) eval_state =
  heap :: "'v list"
  scopes :: "'n cache_manager list"
  builds :: "'n list"

datatype eval_failure = StoreFailure cache_error | NoArrayOps | EvalAssert

record 'i batch_entry =
  axis :: 'i
  block :: "nat \<times> nat"
  exact_axis :: "'i option"

record ('i, 'e, 'g, 'an, 'v) eval_ctx =
  compare :: "('e, 'g) node_compare"
  annot :: "('i, 'e, 'g) eval_expr \<Rightarrow> 'an"
  tot :: "('i, 'e, 'g) eval_expr \<Rightarrow> bool"
  leaf_evaluator :: "('i, 'e, 'g) eval_node \<Rightarrow> 'v list \<Rightarrow> nat \<times> 'v list"
  r_sum :: "'v \<Rightarrow> 'v \<Rightarrow> 'an \<times> 'an \<times> 'an \<Rightarrow> 'v"
  r_prod :: "'v \<Rightarrow> 'v \<Rightarrow> 'an \<times> 'an \<times> 'an \<Rightarrow> bool \<Rightarrow> 'v"
  r_adjoint :: "'v \<Rightarrow> 'an \<times> 'an \<Rightarrow> 'v"
  r_pow :: "'v \<Rightarrow> 'e held_expr \<Rightarrow> 'v"
  r_broadcast :: "'v \<Rightarrow> 'an \<times> 'an \<Rightarrow> 'v list \<Rightarrow> 'v"
  r_permute :: "'v \<Rightarrow> 'an \<times> 'an \<Rightarrow> 'v"
  r_add :: "'v \<Rightarrow> 'v \<Rightarrow> 'v"
  r_phase :: "int \<Rightarrow> 'v \<Rightarrow> 'v"
  r_slice :: "'v \<Rightarrow> nat \<Rightarrow> nat \<times> nat \<Rightarrow> 'v"
  array_ops :: "('i \<Rightarrow> 'v) option"
  shaped_product_hook :: "(('i, 'e, 'g) eval_node \<Rightarrow> 'v \<Rightarrow> 'v \<Rightarrow> 'an \<times> 'an \<times> 'an \<Rightarrow> 'v option) option"
  custom_evaluator :: "(('i, 'e, 'g) eval_node \<Rightarrow> (('i, 'e, 'g) eval_node, 'v) eval_state
      \<Rightarrow> (eval_failure, nat option \<times> (('i, 'e, 'g) eval_node, 'v) eval_state) result) option"
  batch_context :: "'i batch_entry list"

type_synonym ('i, 'e, 'g, 'v) estate = "(('i, 'e, 'g) eval_node, 'v) eval_state"

definition eq_of :: "('i, 'e, 'g, 'an, 'v) eval_ctx \<Rightarrow> ('i, 'e, 'g) eval_node \<Rightarrow> ('i, 'e, 'g) eval_node \<Rightarrow> bool" where
  "eq_of ctx = node_equal (compare ctx)"

definition alloc :: "'v \<Rightarrow> ('n, 'v) eval_state \<Rightarrow> nat \<times> ('n, 'v) eval_state" where
  "alloc v st = (length (heap st), st\<lparr>heap := heap st @ [v]\<rparr>)"

section \<open>The kernels\<close>

definition batch_range_of :: "'i batch_entry list \<Rightarrow> 'i \<Rightarrow> (nat \<times> nat) option" where
  "batch_range_of bctx ix = map_option block (List.find (\<lambda>e. axis e = ix) bctx)"

text \<open>\<open>apply_one_op\<close>: the operands' values; a unary node has no right one.\<close>

fun apply_one_op :: "('i, 'e, 'g, 'an, 'v) eval_ctx \<Rightarrow> ('i, 'e, 'g) eval_node \<Rightarrow> 'v \<Rightarrow> 'v option
    \<Rightarrow> (eval_failure, 'v) result" where
  "apply_one_op ctx (Leaf d k) x y = Inl EvalAssert"
| "apply_one_op ctx (Node d l r k) x y =
     (case op_type d of
        Some BroadcastOp \<Rightarrow>
          (case array_ops ctx of
             None \<Rightarrow> Inl NoArrayOps
           | Some make_zeros \<Rightarrow>
               Inr (r_broadcast ctx x (annot ctx (data_of l), annot ctx d)
                 (map (\<lambda>ix. case batch_range_of (batch_context ctx) ix of
                              None \<Rightarrow> make_zeros ix
                            | Some blk \<Rightarrow> r_slice ctx (make_zeros ix) 0 blk)
                   (filter (\<lambda>ix. ix \<notin> set (canon_indices (data_of l))) (canon_indices d)))))
      | Some AdjointOp \<Rightarrow> Inr (r_adjoint ctx x (annot ctx (data_of l), annot ctx d))
      | Some PowerOp \<Rightarrow> Inr (r_pow ctx x (held (data_of r)))
      | Some SumOp \<Rightarrow>
          (case y of
             None \<Rightarrow> Inl EvalAssert
           | Some y \<Rightarrow> Inr (r_sum ctx x y (annot ctx (data_of l), annot ctx (data_of r), annot ctx d)))
      | Some ProductOp \<Rightarrow>
          (case y of
             None \<Rightarrow> Inl EvalAssert
           | Some y \<Rightarrow> Inr (r_prod ctx x y (annot ctx (data_of l), annot ctx (data_of r), annot ctx d)
                          (tot ctx (data_of l) \<and> tot ctx (data_of r) \<and> \<not> tot ctx d)))
      | None \<Rightarrow> Inl EvalAssert)"

text \<open>\<open>apply_one_op_traced\<close>: the shaped-product hook may replace a product.\<close>

definition apply_one_op_traced :: "('i, 'e, 'g, 'an, 'v) eval_ctx \<Rightarrow> ('i, 'e, 'g) eval_node \<Rightarrow> 'v \<Rightarrow> 'v option
    \<Rightarrow> (eval_failure, 'v) result" where
  "apply_one_op_traced ctx n x y =
     (case (n, shaped_product_hook ctx, y) of
        (Node d l r k, Some hook, Some y') \<Rightarrow>
          if op_type d = Some ProductOp
          then (case hook n x y' (annot ctx (data_of l), annot ctx (data_of r), annot ctx d) of
                  Some v \<Rightarrow> Inr v
                | None \<Rightarrow> apply_one_op ctx n x y)
          else apply_one_op ctx n x y
      | _ \<Rightarrow> apply_one_op ctx n x y)"

text \<open>\<open>apply_canon_phase\<close>: a phase of 1 gives the same buffer, another one a new buffer.\<close>

definition apply_canon_phase :: "('i, 'e, 'g, 'an, 'v) eval_ctx \<Rightarrow> ('i, 'e, 'g) eval_node \<Rightarrow> nat
    \<Rightarrow> ('i, 'e, 'g, 'v) estate \<Rightarrow> nat \<times> ('i, 'e, 'g, 'v) estate" where
  "apply_canon_phase ctx n a st =
     (if canon_phase (data_of n) = 1 then (a, st)
      else alloc (r_phase ctx (canon_phase (data_of n)) (heap st ! a)) st)"

text \<open>\<open>sum_in_place_traced\<close>: the right addend of a tensor sum is permuted into the layout of the left one.\<close>

fun sum_in_place :: "('i, 'e, 'g, 'an, 'v) eval_ctx \<Rightarrow> ('i, 'e, 'g) eval_node \<Rightarrow> nat \<Rightarrow> nat
    \<Rightarrow> ('i, 'e, 'g, 'v) estate \<Rightarrow> nat \<times> ('i, 'e, 'g, 'v) estate" where
  "sum_in_place ctx (Leaf d k) a b st = (a, st)"
| "sum_in_place ctx (Node d l r k) a b st =
     (let (b', st1) =
        (if result_type_of d = TensorResult
         then alloc (r_permute ctx (heap st ! b) (annot ctx (data_of r), annot ctx (data_of l))) st
         else (b, st))
      in (a, st1\<lparr>heap := (heap st1)[a := r_add ctx (heap st1 ! a) (heap st1 ! b')]\<rparr>))"

text \<open>The slices of a value fetched \<open>hops\<close> scopes up, for the innermost loops the fetch crossed.\<close>

fun slice_modes :: "('i, 'e, 'g, 'an, 'v) eval_ctx \<Rightarrow> ('i, 'e, 'g) eval_node \<Rightarrow> 'i batch_entry list \<Rightarrow> nat
    \<Rightarrow> ('i, 'e, 'g, 'v) estate \<Rightarrow> nat \<times> ('i, 'e, 'g, 'v) estate" where
  "slice_modes ctx n [] a st = (a, st)"
| "slice_modes ctx n (e # es) a st =
     (case Option.bind (exact_axis e) (index_position n) of
        None \<Rightarrow> slice_modes ctx n es a st
      | Some p \<Rightarrow> (let (a', st') = alloc (r_slice ctx (heap st ! a) p (block e)) st in slice_modes ctx n es a' st'))"

definition slice_to_use :: "('i, 'e, 'g, 'an, 'v) eval_ctx \<Rightarrow> nat \<Rightarrow> ('i, 'e, 'g) eval_node \<Rightarrow> nat
    \<Rightarrow> ('i, 'e, 'g, 'v) estate \<Rightarrow> (eval_failure, nat \<times> ('i, 'e, 'g, 'v) estate) result" where
  "slice_to_use ctx a n hops st =
     (let d = length (batch_context ctx)
      in if hops > d then Inl EvalAssert
         else Inr (slice_modes ctx n (drop (d - hops) (batch_context ctx)) a st))"

section \<open>The stack machine\<close>

datatype eval_stage = EnterNode | NeedLeft | NeedRight | NeedLeftUnary

record 'n eval_frame =
  node_p :: 'n
  checked :: bool
  estage :: eval_stage
  store_after :: bool
  left_result :: "nat option"

definition new_frame :: "'n \<Rightarrow> bool \<Rightarrow> 'n eval_frame" where
  "new_frame n chk = \<lparr>node_p = n, checked = chk, estage = EnterNode, store_after = False, left_result = None\<rparr>"

definition local_scope :: "('n, 'v) eval_state \<Rightarrow> 'n cache_manager" where
  "local_scope st = hd (scopes st)"

text \<open>The checked lookup: the fetched value, phased and sliced, or else whether the result is to be stored.\<close>

definition probe :: "('i, 'e, 'g, 'an, 'v) eval_ctx \<Rightarrow> bool \<Rightarrow> ('i, 'e, 'g) eval_node \<Rightarrow> ('i, 'e, 'g, 'v) estate
    \<Rightarrow> (eval_failure, (nat option \<times> bool) \<times> ('i, 'e, 'g, 'v) estate) result" where
  "probe ctx chk n st =
     (if \<not> chk then Inr ((None, False), st)
      else case access_at (eq_of ctx) (scopes st) n of
        ((Some a, hops), cs) \<Rightarrow>
          (let (a', st') = apply_canon_phase ctx n a (st\<lparr>scopes := cs\<rparr>)
           in bind_res (slice_to_use ctx a' n hops st') (\<lambda>(a'', st''). Inr ((Some a'', False), st'')))
      | ((None, hops), cs) \<Rightarrow>
          (let st' = st\<lparr>scopes := cs\<rparr> in Inr ((None, exists_key (eq_of ctx) (local_scope st') n), st')))"

text \<open>\<open>finish_phase_b\<close> with \<open>note_fresh_build\<close>: a stored result is phased into and out of the cache.\<close>

definition finish_phase_b :: "('i, 'e, 'g, 'an, 'v) eval_ctx \<Rightarrow> ('i, 'e, 'g) eval_node \<Rightarrow> bool \<Rightarrow> nat
    \<Rightarrow> ('i, 'e, 'g, 'v) estate \<Rightarrow> (eval_failure, nat \<times> ('i, 'e, 'g, 'v) estate) result" where
  "finish_phase_b ctx n store rb st0 =
     (let st = (if leaf n then st0 else st0\<lparr>builds := builds st0 @ [n]\<rparr>)
      in if \<not> store then Inr (rb, st)
         else (let (a, st1) = apply_canon_phase ctx n rb st
               in case store_and_access (eq_of ctx) n a (local_scope st1) of
                    Inl e \<Rightarrow> Inl (StoreFailure e)
                  | Inr (None, c) \<Rightarrow> Inl EvalAssert
                  | Inr (Some p, c) \<Rightarrow> Inr (apply_canon_phase ctx n p (st1\<lparr>scopes := c # tl (scopes st1)\<rparr>))))"

text \<open>The guard of the accumulation in place.\<close>

fun inplace_eligible :: "('i, 'e, 'g) eval_node \<Rightarrow> nat \<Rightarrow> ('i, 'e, 'g, 'v) estate \<Rightarrow> bool" where
  "inplace_eligible (Leaf d k) a st = False"
| "inplace_eligible (Node d l r k) a st \<longleftrightarrow>
     op_type d = Some SumOp \<and> accumulate_in_place d \<and> \<not> leaf l \<and> \<not> chain_holds_shared (scopes st) a"

text \<open>The result of a node from its operands: accumulated in place, or a new buffer.\<close>

definition combine_binary :: "('i, 'e, 'g, 'an, 'v) eval_ctx \<Rightarrow> ('i, 'e, 'g) eval_node \<Rightarrow> nat \<Rightarrow> nat
    \<Rightarrow> ('i, 'e, 'g, 'v) estate \<Rightarrow> (eval_failure, nat \<times> ('i, 'e, 'g, 'v) estate) result" where
  "combine_binary ctx n a b st =
     (if inplace_eligible n a st then Inr (sum_in_place ctx n a b st)
      else bind_res (apply_one_op_traced ctx n (heap st ! a) (Some (heap st ! b))) (\<lambda>v. Inr (alloc v st)))"

definition combine_unary :: "('i, 'e, 'g, 'an, 'v) eval_ctx \<Rightarrow> ('i, 'e, 'g) eval_node \<Rightarrow> nat
    \<Rightarrow> ('i, 'e, 'g, 'v) estate \<Rightarrow> (eval_failure, nat \<times> ('i, 'e, 'g, 'v) estate) result" where
  "combine_unary ctx n a st =
     bind_res (apply_one_op_traced ctx n (heap st ! a) None) (\<lambda>v. Inr (alloc v st))"

text \<open>\<open>try_custom_eval\<close>: no evaluator and a null result decline.\<close>

definition try_custom_eval :: "('i, 'e, 'g, 'an, 'v) eval_ctx \<Rightarrow> ('i, 'e, 'g) eval_node \<Rightarrow> ('i, 'e, 'g, 'v) estate
    \<Rightarrow> (eval_failure, nat option \<times> ('i, 'e, 'g, 'v) estate) result" where
  "try_custom_eval ctx n st = (case custom_evaluator ctx of None \<Rightarrow> Inr (None, st) | Some ce \<Rightarrow> ce n st)"

text \<open>A leaf is fetched whole, stored if registered, and sliced for every enclosing loop.\<close>

definition fetch_leaf :: "('i, 'e, 'g, 'an, 'v) eval_ctx \<Rightarrow> ('i, 'e, 'g) eval_node \<Rightarrow> bool
    \<Rightarrow> ('i, 'e, 'g, 'v) estate \<Rightarrow> (eval_failure, nat \<times> ('i, 'e, 'g, 'v) estate) result" where
  "fetch_leaf ctx n store st =
     (let (a, h) = leaf_evaluator ctx n (heap st)
      in bind_res (finish_phase_b ctx n store a (st\<lparr>heap := h\<rparr>))
           (\<lambda>(a', st'). slice_to_use ctx a' n (length (batch_context ctx)) st'))"

text \<open>
  One turn of the loop on the top frame \<open>f\<close>; \<open>ret\<close> is the result of the last finished frame.  A finished
  frame is popped, a frame that needs an operand advances its stage and pushes the operand's frame.
\<close>

type_synonym ('i, 'e, 'g, 'v) machine =
  "('i, 'e, 'g) eval_node eval_frame list \<times> nat option \<times> ('i, 'e, 'g, 'v) estate"

definition finalize :: "('i, 'e, 'g) eval_node eval_frame list
    \<Rightarrow> (eval_failure, nat \<times> ('i, 'e, 'g, 'v) estate) result \<Rightarrow> (eval_failure, ('i, 'e, 'g, 'v) machine) result" where
  "finalize fs res = bind_res res (\<lambda>(a, st). Inr (fs, Some a, st))"

definition eval_step :: "('i, 'e, 'g, 'an, 'v) eval_ctx \<Rightarrow> ('i, 'e, 'g) eval_node eval_frame
    \<Rightarrow> ('i, 'e, 'g) eval_node eval_frame list \<Rightarrow> nat option \<Rightarrow> ('i, 'e, 'g, 'v) estate
    \<Rightarrow> (eval_failure, ('i, 'e, 'g, 'v) machine) result" where
  "eval_step ctx f fs ret st =
     (let n = node_p f
      in case estage f of
        EnterNode \<Rightarrow>
          bind_res (probe ctx (checked f) n st) (\<lambda>((hit, store), st1).
            case hit of
              Some a \<Rightarrow> Inr (fs, Some a, st1)
            | None \<Rightarrow>
               (case n of
                  Leaf d k \<Rightarrow> finalize fs (fetch_leaf ctx n store st1)
                | Node d l r k \<Rightarrow>
                    bind_res (try_custom_eval ctx n st1) (\<lambda>(intercepted, st2).
                      case intercepted of
                        Some a \<Rightarrow> finalize fs (finish_phase_b ctx n store a st2)
                      | None \<Rightarrow>
                         (case op_type d of
                            None \<Rightarrow> Inl EvalAssert
                          | Some op \<Rightarrow>
                             Inr (new_frame l True
                                    # f\<lparr>store_after := store, estage := (if is_unary op then NeedLeftUnary else NeedLeft)\<rparr>
                                    # fs, ret, st2)))))
      | NeedLeftUnary \<Rightarrow>
          (case ret of
             None \<Rightarrow> Inl EvalAssert
           | Some a \<Rightarrow> finalize fs (bind_res (combine_unary ctx n a st)
                         (\<lambda>(p, st1). finish_phase_b ctx n (store_after f) p st1)))
      | NeedLeft \<Rightarrow>
          (case (ret, n) of
             (Some a, Node d l r k) \<Rightarrow>
               Inr (new_frame r True # f\<lparr>left_result := Some a, estage := NeedRight\<rparr> # fs, None, st)
           | _ \<Rightarrow> Inl EvalAssert)
      | NeedRight \<Rightarrow>
          (case (left_result f, ret) of
             (Some a, Some b) \<Rightarrow>
               finalize fs (bind_res (combine_binary ctx n a b st)
                 (\<lambda>(p, st1). finish_phase_b ctx n (store_after f) p st1))
           | _ \<Rightarrow> Inl EvalAssert))"

partial_function (option) eval_loop :: "('i, 'e, 'g, 'an, 'v) eval_ctx \<Rightarrow> ('i, 'e, 'g) eval_node eval_frame list
    \<Rightarrow> nat option \<Rightarrow> ('i, 'e, 'g, 'v) estate \<Rightarrow> (eval_failure, nat option \<times> ('i, 'e, 'g, 'v) estate) result option" where
  "eval_loop ctx stk ret st =
     (case stk of
        [] \<Rightarrow> Some (Inr (ret, st))
      | f # fs \<Rightarrow>
         (case eval_step ctx f fs ret st of
            Inl e \<Rightarrow> Some (Inl e)
          | Inr (stk', ret', st') \<Rightarrow> eval_loop ctx stk' ret' st'))"

declare eval_loop.simps [code]

definition evaluate_impl :: "('i, 'e, 'g, 'an, 'v) eval_ctx \<Rightarrow> bool \<Rightarrow> ('i, 'e, 'g) eval_node
    \<Rightarrow> ('i, 'e, 'g, 'v) estate \<Rightarrow> (eval_failure, nat option \<times> ('i, 'e, 'g, 'v) estate) result option" where
  "evaluate_impl ctx chk n st = eval_loop ctx [new_frame n chk] None st"

text \<open>\<open>evaluate\<close> of a node with a layout (\<open>None\<close> is the default layout), and of a forest.\<close>

definition evaluate :: "('i, 'e, 'g, 'an, 'v) eval_ctx \<Rightarrow> ('i, 'e, 'g) eval_node \<Rightarrow> 'an option
    \<Rightarrow> ('i, 'e, 'g, 'v) estate \<Rightarrow> (eval_failure, nat \<times> ('i, 'e, 'g, 'v) estate) result option" where
  "evaluate ctx n layout st =
     map_option (\<lambda>res. bind_res res (\<lambda>(a, st1).
       case a of
         None \<Rightarrow> Inl EvalAssert
       | Some pre \<Rightarrow>
           (case layout of
              None \<Rightarrow> Inr (pre, st1)
            | Some lay \<Rightarrow> Inr (alloc (r_permute ctx (heap st1 ! pre) (annot ctx (data_of n), lay)) st1))))
       (evaluate_impl ctx True n st)"

fun evaluate_forest :: "('i, 'e, 'g, 'an, 'v) eval_ctx \<Rightarrow> ('i, 'e, 'g) eval_node list \<Rightarrow> 'an option
    \<Rightarrow> nat option \<Rightarrow> ('i, 'e, 'g, 'v) estate \<Rightarrow> (eval_failure, nat option \<times> ('i, 'e, 'g, 'v) estate) result option" where
  "evaluate_forest ctx [] layout result st = Some (Inr (result, st))"
| "evaluate_forest ctx (n # ns) layout result st =
     (case evaluate ctx n layout st of
        None \<Rightarrow> None
      | Some (Inl e) \<Rightarrow> Some (Inl e)
      | Some (Inr (pre, st1)) \<Rightarrow>
         (case result of
            None \<Rightarrow> evaluate_forest ctx ns layout (Some pre) st1
          | Some acc \<Rightarrow>
              evaluate_forest ctx ns layout (Some acc)
                (st1\<lparr>heap := (heap st1)[acc := r_add ctx (heap st1 ! acc) (heap st1 ! pre)]\<rparr>)))"

section \<open>The machine is the recursion over the tree\<close>

fun eval_rec :: "('i, 'e, 'g, 'an, 'v) eval_ctx \<Rightarrow> bool \<Rightarrow> ('i, 'e, 'g) eval_node \<Rightarrow> ('i, 'e, 'g, 'v) estate
    \<Rightarrow> (eval_failure, nat \<times> ('i, 'e, 'g, 'v) estate) result" where
  "eval_rec ctx chk (Leaf d k) st =
     bind_res (probe ctx chk (Leaf d k) st) (\<lambda>((hit, store), st1).
       case hit of Some a \<Rightarrow> Inr (a, st1) | None \<Rightarrow> fetch_leaf ctx (Leaf d k) store st1)"
| "eval_rec ctx chk (Node d l r k) st =
     bind_res (probe ctx chk (Node d l r k) st) (\<lambda>((hit, store), st1).
       case hit of
         Some a \<Rightarrow> Inr (a, st1)
       | None \<Rightarrow>
          bind_res (try_custom_eval ctx (Node d l r k) st1) (\<lambda>(intercepted, st2).
            case intercepted of
              Some a \<Rightarrow> finish_phase_b ctx (Node d l r k) store a st2
            | None \<Rightarrow>
               (case op_type d of
                  None \<Rightarrow> Inl EvalAssert
                | Some op \<Rightarrow>
                    bind_res (eval_rec ctx True l st2) (\<lambda>(a, st3).
                      if is_unary op
                      then bind_res (combine_unary ctx (Node d l r k) a st3)
                             (\<lambda>(p, st4). finish_phase_b ctx (Node d l r k) store p st4)
                      else bind_res (eval_rec ctx True r st3) (\<lambda>(b, st4).
                             bind_res (combine_binary ctx (Node d l r k) a b st4)
                               (\<lambda>(p, st5). finish_phase_b ctx (Node d l r k) store p st5))))))"

definition deliver :: "('i, 'e, 'g, 'an, 'v) eval_ctx \<Rightarrow> ('i, 'e, 'g) eval_node eval_frame list
    \<Rightarrow> (eval_failure, nat \<times> ('i, 'e, 'g, 'v) estate) result
    \<Rightarrow> (eval_failure, nat option \<times> ('i, 'e, 'g, 'v) estate) result option" where
  "deliver ctx fs res = (case res of Inl e \<Rightarrow> Some (Inl e) | Inr (a, st) \<Rightarrow> eval_loop ctx fs (Some a) st)"

lemma deliver_simps [simp]:
  "deliver ctx fs (Inl e) = Some (Inl e)"
  "deliver ctx fs (Inr (a, st)) = eval_loop ctx fs (Some a) st"
  by (simp_all add: deliver_def)

lemma eval_loop_Cons:
  "eval_loop ctx (f # fs) ret st =
     (case eval_step ctx f fs ret st of
        Inl e \<Rightarrow> Some (Inl e)
      | Inr (stk', ret', st') \<Rightarrow> eval_loop ctx stk' ret' st')"
  by (subst eval_loop.simps) simp

lemma loop_finalize:
  "(case finalize fs res of Inl e \<Rightarrow> Some (Inl e) | Inr (stk', ret', st') \<Rightarrow> eval_loop ctx stk' ret' st')
     = deliver ctx fs res"
  by (cases res) (auto simp: finalize_def)

lemma new_frame_simps [simp]:
  "node_p (new_frame n chk) = n" "checked (new_frame n chk) = chk" "estage (new_frame n chk) = EnterNode"
  by (simp_all add: new_frame_def)

lemma loop_need_left:
  assumes "estage f = NeedLeft" "node_p f = Node d l r k"
  shows "eval_loop ctx (f # fs) (Some a) st
     = eval_loop ctx (new_frame r True # f\<lparr>left_result := Some a, estage := NeedRight\<rparr> # fs) None st"
  using assms by (simp add: eval_loop_Cons eval_step_def Let_def)

lemma loop_need_right:
  assumes "estage f = NeedRight" "left_result f = Some a"
  shows "eval_loop ctx (f # fs) (Some b) st
     = deliver ctx fs (bind_res (combine_binary ctx (node_p f) a b st)
                        (\<lambda>(p, st1). finish_phase_b ctx (node_p f) (store_after f) p st1))"
  using assms by (simp add: eval_loop_Cons eval_step_def loop_finalize Let_def)

lemma loop_need_unary:
  assumes "estage f = NeedLeftUnary"
  shows "eval_loop ctx (f # fs) (Some a) st
     = deliver ctx fs (bind_res (combine_unary ctx (node_p f) a st)
                        (\<lambda>(p, st1). finish_phase_b ctx (node_p f) (store_after f) p st1))"
  using assms by (simp add: eval_loop_Cons eval_step_def loop_finalize Let_def)

lemma eval_loop_rec:
  "eval_loop ctx (new_frame n chk # fs) ret st = deliver ctx fs (eval_rec ctx chk n st)"
proof (induction n arbitrary: chk fs ret st)
  case (Leaf d k)
  show ?case
  proof (cases "probe ctx chk (Leaf d k) st")
    case (Inl e)
    then show ?thesis by (simp add: eval_loop_Cons eval_step_def Let_def)
  next
    case (Inr t)
    obtain hit store st1 where t: "t = ((hit, store), st1)" by (metis surj_pair)
    show ?thesis
      using Inr t by (cases hit) (simp_all add: eval_loop_Cons eval_step_def loop_finalize)
  qed
next
  case (Node d l r k)
  let ?n = "Node d l r k"
  show ?case
  proof (cases "probe ctx chk ?n st")
    case (Inl e)
    then show ?thesis by (simp add: eval_loop_Cons eval_step_def Let_def)
  next
    case p: (Inr t)
    obtain hit store st1 where t: "t = ((hit, store), st1)" by (metis surj_pair)
    show ?thesis
    proof (cases hit)
      case (Some a)
      then show ?thesis using p t by (simp add: eval_loop_Cons eval_step_def Let_def)
    next
      case miss: None
      show ?thesis
      proof (cases "try_custom_eval ctx ?n st1")
        case (Inl e)
        then show ?thesis using p t miss by (simp add: eval_loop_Cons eval_step_def Let_def)
      next
        case c: (Inr u)
        obtain ic st2 where u: "u = (ic, st2)" by (metis surj_pair)
        show ?thesis
        proof (cases ic)
          case (Some a)
          then show ?thesis using p t miss c u by (simp add: eval_loop_Cons eval_step_def loop_finalize Let_def)
        next
          case decl: None
          show ?thesis
          proof (cases "op_type d")
            case None
            then show ?thesis using p t miss c u decl by (simp add: eval_loop_Cons eval_step_def Let_def)
          next
            case op: (Some op)
            let ?f = "(new_frame ?n chk)\<lparr>store_after := store, estage := (if is_unary op then NeedLeftUnary else NeedLeft)\<rparr>"
            have start: "eval_loop ctx (new_frame ?n chk # fs) ret st
                = deliver ctx (?f # fs) (eval_rec ctx True l st2)"
              using p t miss c u decl op Node.IH(1) [of True "?f # fs" ret st2]
              by (subst eval_loop_Cons) (simp add: eval_step_def Let_def)
            have rest: "deliver ctx (?f # fs) (Inr (a, st3)) = deliver ctx fs
                (if is_unary op
                 then bind_res (combine_unary ctx ?n a st3) (\<lambda>(p, st4). finish_phase_b ctx ?n store p st4)
                 else bind_res (eval_rec ctx True r st3) (\<lambda>(b, st4).
                        bind_res (combine_binary ctx ?n a b st4) (\<lambda>(p, st5). finish_phase_b ctx ?n store p st5)))"
              for a st3
            proof (cases "is_unary op")
              case True
              then show ?thesis by (simp add: loop_need_unary)
            next
              case False
              then have "deliver ctx (?f # fs) (Inr (a, st3))
                  = deliver ctx (?f\<lparr>left_result := Some a, estage := NeedRight\<rparr> # fs) (eval_rec ctx True r st3)"
                by (simp add: loop_need_left Node.IH(2))
              then show ?thesis
                using False by (cases "eval_rec ctx True r st3") (auto simp: loop_need_right)
            qed
            show ?thesis
              unfolding start using p t miss c u decl op rest
              by (cases "eval_rec ctx True l st2") auto
          qed
        qed
      qed
    qed
  qed
qed

lemma evaluate_impl_rec:
  "evaluate_impl ctx chk n st = Some (map_sum id (\<lambda>(a, st'). (Some a, st')) (eval_rec ctx chk n st))"
proof -
  have "eval_loop ctx [] ret st = Some (Inr (ret, st))" for ret st by (subst eval_loop.simps) simp
  then show ?thesis
    by (cases "eval_rec ctx chk n st") (auto simp: evaluate_impl_def eval_loop_rec)
qed

end
