(* ===== verification/CachedEvaluation.thy ===== *)
theory CachedEvaluation
  imports Evaluate
begin

text \<open>
  The evaluation against the cache computes what the plain recursion over the tree does, although results
  are shared through the cache and sums accumulate in place.
\<close>

section \<open>The specification\<close>

text \<open>The value of a tree, with no cache and no buffers; \<open>lv\<close> gives the values of the leaves.\<close>

fun denote :: "('i, 'e, 'g, 'an, 'v) eval_ctx \<Rightarrow> (('i, 'e, 'g) eval_node \<Rightarrow> 'v) \<Rightarrow> ('i, 'e, 'g) eval_node
    \<Rightarrow> (eval_failure, 'v) result" where
  "denote ctx lv (Leaf d k) = Inr (lv (Leaf d k))"
| "denote ctx lv (Node d l r k) =
     bind_res (denote ctx lv l) (\<lambda>x.
       case op_type d of
         None \<Rightarrow> Inl EvalAssert
       | Some op \<Rightarrow>
           if is_unary op then apply_one_op ctx (Node d l r k) x None
           else bind_res (denote ctx lv r) (\<lambda>y. apply_one_op ctx (Node d l r k) x (Some y)))"

definition phased :: "('i, 'e, 'g, 'an, 'v) eval_ctx \<Rightarrow> ('i, 'e, 'g) eval_node \<Rightarrow> 'v \<Rightarrow> 'v" where
  "phased ctx n v = (if canon_phase (data_of n) = 1 then v else r_phase ctx (canon_phase (data_of n)) v)"

text \<open>The value in its canonical orientation, which is what the cache holds.\<close>

definition canonical :: "('i, 'e, 'g, 'an, 'v) eval_ctx \<Rightarrow> (('i, 'e, 'g) eval_node \<Rightarrow> 'v) \<Rightarrow> ('i, 'e, 'g) eval_node
    \<Rightarrow> (eval_failure, 'v) result" where
  "canonical ctx lv n = map_sum id (phased ctx n) (denote ctx lv n)"

definition marked_sum :: "('i, 'e, 'g) eval_expr \<Rightarrow> ('i, 'e, 'g) eval_node \<Rightarrow> bool" where
  "marked_sum d l \<longleftrightarrow> op_type d = Some SumOp \<and> accumulate_in_place d \<and> \<not> leaf l"

text \<open>
  What the evaluation relies on: the node comparison is an equivalence on the trees of the forest, equal nodes
  have one canonical value, a canonicalization phase is an involution, \<open>add_inplace\<close> of the permuted right
  addend is \<open>sum\<close>, a hook's product is the product, and the leaf evaluator hands out buffers of its own (the
  first ones of the heap) or new ones.
\<close>

definition leaf_source :: "('i, 'e, 'g, 'an, 'v) eval_ctx \<Rightarrow> (('i, 'e, 'g) eval_node \<Rightarrow> 'v) \<Rightarrow> 'v list
    \<Rightarrow> ('i, 'e, 'g) eval_node \<Rightarrow> bool" where
  "leaf_source ctx lv h0 n \<longleftrightarrow>
     (\<forall>ext. case leaf_evaluator ctx n (h0 @ ext) of
        (a, h') \<Rightarrow> (\<exists>new. h' = h0 @ ext @ new) \<and> a < length h' \<and> h' ! a = lv n
                   \<and> (a < length h0 \<or> length h0 + length ext \<le> a))"

definition sound_eval :: "('i, 'e, 'g, 'an, 'v) eval_ctx \<Rightarrow> (('i, 'e, 'g) eval_node \<Rightarrow> 'v) \<Rightarrow> 'v list
    \<Rightarrow> ('i, 'e, 'g) eval_node set \<Rightarrow> bool" where
  "sound_eval ctx lv h0 S \<longleftrightarrow>
     compares_equivalences (compare ctx) \<and> eval_forest (compare ctx) S
     \<and> custom_evaluator ctx = None \<and> batch_context ctx = []
     \<and> (\<forall>n\<in>S. leaf n \<longrightarrow> leaf_source ctx lv h0 n)
     \<and> (\<forall>n\<in>S. \<forall>v. phased ctx n (phased ctx n v) = v)
     \<and> (\<forall>a\<in>S. \<forall>b\<in>S. eq_of ctx a b \<longrightarrow> canonical ctx lv a = canonical ctx lv b)
     \<and> (\<forall>d l r k. Node d l r k \<in> S \<longrightarrow> marked_sum d l \<longrightarrow> (\<forall>x y.
           r_add ctx x (if result_type_of d = TensorResult then r_permute ctx y (annot ctx (data_of r), annot ctx (data_of l)) else y)
           = r_sum ctx x y (annot ctx (data_of l), annot ctx (data_of r), annot ctx d)))
     \<and> (\<forall>hook d l r k x y v. shaped_product_hook ctx = Some hook \<longrightarrow> Node d l r k \<in> S \<longrightarrow>
           hook (Node d l r k) x y (annot ctx (data_of l), annot ctx (data_of r), annot ctx d) = Some v \<longrightarrow>
           apply_one_op ctx (Node d l r k) x (Some y) = Inr v)"

text \<open>
  The left operands of the sums that may accumulate in place, and the condition on the tree: no sum below a
  right operand accumulates into a left operand equal to the pending left operand.
\<close>

definition binary_node :: "('i, 'e, 'g) eval_expr \<Rightarrow> bool" where
  "binary_node d \<longleftrightarrow> (case op_type d of Some op \<Rightarrow> \<not> is_unary op | None \<Rightarrow> False)"

fun inplace_lefts :: "('i, 'e, 'g) eval_node \<Rightarrow> ('i, 'e, 'g) eval_node list" where
  "inplace_lefts (Leaf d k) = []"
| "inplace_lefts (Node d l r k) =
     (if marked_sum d l then [l] else []) @ inplace_lefts l @ (if binary_node d then inplace_lefts r else [])"

fun no_pending_alias :: "('i, 'e, 'g, 'an, 'v) eval_ctx \<Rightarrow> ('i, 'e, 'g) eval_node \<Rightarrow> bool" where
  "no_pending_alias ctx (Leaf d k) \<longleftrightarrow> True"
| "no_pending_alias ctx (Node d l r k) \<longleftrightarrow>
     no_pending_alias ctx l
     \<and> (binary_node d \<longrightarrow> no_pending_alias ctx r \<and> (leaf l \<or> list_all (\<lambda>m. \<not> eq_of ctx l m) (inplace_lefts r)))"

section \<open>The invariant of the cache\<close>

definition holders :: "'k cache_manager \<Rightarrow> nat \<Rightarrow> 'k set" where
  "holders c a = {k. \<exists>e. (k, e) \<in> set (cache_map c) \<and> data_p e = Some a}"

definition entry_ok :: "('i, 'e, 'g, 'an, 'v) eval_ctx \<Rightarrow> (('i, 'e, 'g) eval_node \<Rightarrow> 'v) \<Rightarrow> 'v list \<Rightarrow> 'v list
    \<Rightarrow> ('i, 'e, 'g) eval_node \<Rightarrow> entry \<Rightarrow> bool" where
  "entry_ok ctx lv h0 h k e \<longleftrightarrow>
     life_c e \<le> max_life e
     \<and> (\<not> persistent e \<and> stored_this_eval e \<longrightarrow> data_p e \<noteq> None)
     \<and> (\<forall>a. data_p e = Some a \<longrightarrow> length h0 \<le> a \<and> a < length h
           \<and> canonical ctx lv k = Inr (h ! a) \<and> (persistent e \<or> 1 < max_life e))"

definition cache_ok :: "('i, 'e, 'g, 'an, 'v) eval_ctx \<Rightarrow> (('i, 'e, 'g) eval_node \<Rightarrow> 'v) \<Rightarrow> 'v list
    \<Rightarrow> ('i, 'e, 'g) eval_node set \<Rightarrow> 'v list \<Rightarrow> ('i, 'e, 'g) eval_node cache_manager \<Rightarrow> bool" where
  "cache_ok ctx lv h0 S h c \<longleftrightarrow>
     (\<exists>ext. h = h0 @ ext)
     \<and> (\<forall>(k, e)\<in>set (cache_map c). k \<in> S \<and> \<not> leaf k \<and> entry_ok ctx lv h0 h k e)
     \<and> (\<forall>a. \<forall>k\<in>holders c a. \<forall>k'\<in>holders c a. eq_of ctx k k')"

section \<open>Lookup and update\<close>

lemma find_split:
  "List.find P xs = Some x \<Longrightarrow> \<exists>ys zs. xs = ys @ x # zs \<and> P x \<and> (\<forall>y\<in>set ys. \<not> P y)"
proof (induction xs)
  case (Cons a xs)
  show ?case
  proof (cases "P a")
    case True
    then show ?thesis using Cons.prems by (intro exI [of _ "[]"] exI [of _ xs]) auto
  next
    case False
    then obtain ys zs where "xs = ys @ x # zs" "P x" "\<forall>y\<in>set ys. \<not> P y" using Cons by auto
    then show ?thesis using False by (intro exI [of _ "a # ys"] exI [of _ zs]) auto
  qed
qed simp

lemma find_entry_split:
  assumes "find_entry eq c k = Some e"
  obtains xs k' ys where "cache_map c = xs @ (k', e) # ys" "eq k' k" "\<forall>(k'', e')\<in>set xs. \<not> eq k'' k"
proof -
  obtain p where "List.find (\<lambda>(k', e). eq k' k) (cache_map c) = Some p" "snd p = e"
    using assms by (auto simp: find_entry_def)
  from find_split [OF this(1)] this(2) show ?thesis by (cases p) (auto intro: that)
qed

lemma set_first_split:
  "eq k' k \<Longrightarrow> \<forall>(k'', e')\<in>set xs. \<not> eq k'' k \<Longrightarrow> set_first eq k e (xs @ (k', e0) # ys) = xs @ (k', e) # ys"
  by (induction xs) auto

lemma set_entry_fields [simp]:
  "strict_fill_once (set_entry eq k e c) = strict_fill_once c"
  "persistent_values (set_entry eq k e c) = persistent_values c"
  by (simp_all add: set_entry_def)

text \<open>An update of a found entry exchanges it and leaves every other one.\<close>

lemma set_entry_split:
  assumes "find_entry eq c k = Some e0"
  obtains xs k' ys where "cache_map c = xs @ (k', e0) # ys" "eq k' k"
    "\<And>e. cache_map (set_entry eq k e c) = xs @ (k', e) # ys"
    "\<forall>(k'', e')\<in>set xs. \<not> eq k'' k"
proof -
  obtain xs k' ys where s: "cache_map c = xs @ (k', e0) # ys" "eq k' k" "\<forall>(k'', e')\<in>set xs. \<not> eq k'' k"
    by (rule find_entry_split [OF assms])
  have "cache_map (set_entry eq k e c) = xs @ (k', e) # ys" for e
    using set_first_split [of eq k' k, OF s(2,3)] by (simp add: set_entry_def s(1))
  with s show ?thesis by (intro that)
qed

lemma find_entry_append:
  "find_entry eq c k = (case List.find (\<lambda>(k', e). eq k' k) (cache_map c) of None \<Rightarrow> None | Some (k', e) \<Rightarrow> Some e)"
  by (auto simp: find_entry_def split: option.splits)

lemma find_in_append:
  "List.find P (xs @ ys) = (case List.find P xs of None \<Rightarrow> List.find P ys | Some x \<Rightarrow> Some x)"
  by (induction xs) auto

lemma find_none: "\<forall>(k', e)\<in>set xs. \<not> eq k' k \<Longrightarrow> List.find (\<lambda>(k', e). eq k' k) xs = None"
  by (induction xs) auto

lemma find_set_same:
  assumes "find_entry eq c k = Some e0"
  shows "find_entry eq (set_entry eq k e c) k = Some e"
  by (rule set_entry_split [OF assms]) (auto simp: find_entry_append find_in_append find_none)

lemma find_set_other:
  assumes "find_entry eq c k = Some e0" and "\<And>k'. eq k' k \<Longrightarrow> (k', e0) \<in> set (cache_map c) \<Longrightarrow> \<not> eq k' m"
  shows "find_entry eq (set_entry eq k e c) m = find_entry eq c m"
proof -
  obtain xs k' ys where s: "cache_map c = xs @ (k', e0) # ys" "eq k' k"
    "\<And>e. cache_map (set_entry eq k e c) = xs @ (k', e) # ys" using set_entry_split [OF assms(1)] by metis
  moreover have "\<not> eq k' m" using assms(2) s by simp
  ultimately show ?thesis by (simp add: find_entry_append find_in_append split: option.splits)
qed

lemma find_entry_mem: "find_entry eq c k = Some e \<Longrightarrow> \<exists>k'. (k', e) \<in> set (cache_map c) \<and> eq k' k"
  by (erule find_entry_split) auto

lemma set_entry_keys: "map fst (cache_map (set_entry eq k e c)) = map fst (cache_map c)"
proof -
  have "map fst (set_first eq k e m) = map fst m" for m by (induction eq k e m rule: set_first.induct) auto
  then show ?thesis by (simp add: set_entry_def)
qed

lemma holders_set_entry:
  assumes "find_entry eq c k = Some e0"
  shows "holders (set_entry eq k e c) a \<subseteq> holders c a \<union> (if data_p e = Some a then {k'. eq k' k} else {})"
  by (rule set_entry_split [OF assms]) (auto simp: holders_def)

section \<open>Equal nodes\<close>

lemma node_equal_size:
  assumes eq: "compares_equivalences nc" and S: "eval_forest nc S"
  shows "a \<in> S \<Longrightarrow> b \<in> S \<Longrightarrow> node_equal nc a b \<Longrightarrow> size a = size b"
proof (induction a arbitrary: b rule: measure_induct_rule [where f = size])
  case (less a)
  have pay: "same_payload nc a b" by (rule node_equal_payload [OF less.prems(3)])
  have leaves: "leaf a = leaf b" using pay by (simp add: same_payload_def Let_def split: if_splits)
  show ?case
  proof (cases "leaf a")
    case True
    with leaves show ?thesis by (cases a; cases b) auto
  next
    case False
    then obtain d l r k d' l' r' k' where ab: "a = Node d l r k" "b = Node d' l' r' k'"
      using leaves by (cases a; cases b) auto
    have op: "op_type d = op_type d'"
      using forest_op [OF S less.prems(1,2) pay] ab by simp
    note ne = less.prems(3) [unfolded ab node_equal_Node [OF op]]
    have s: "size (fst (operand_view d l r)) = size (fst (operand_view d' l' r'))"
      "size (snd (operand_view d l r)) = size (snd (operand_view d' l' r'))"
      using ne less.IH forest_children [OF S] less.prems(1,2) operand_view_sizes unfolding ab by blast+
    have "size (fst (operand_view d l r)) + size (snd (operand_view d l r)) = size l + size r" for d l r
      by (simp add: operand_view_def canonical_pair_def)
    then show ?thesis using s ab by (metis add_Suc_right node.size(4))
  qed
qed


section \<open>Reads and stores keep the invariant\<close>

lemma access_entry_cases:
  assumes "access_entry e = (p, e')"
  shows "p = data_p e" "max_life e' = max_life e" "persistent e' = persistent e" "life_c e' \<le> life_c e"
    "data_p e' = None \<or> e' = e\<lparr>life_c := life_c e'\<rparr>" "data_p e' = None \<Longrightarrow> data_p e \<noteq> None \<Longrightarrow> \<not> stored_this_eval e'"
    "data_p e = None \<Longrightarrow> e' = e"
proof -
  have dec: "x > 0 \<Longrightarrow> x - 1 \<le> x" for x :: "64 word"
    by (simp add: word_le_nat_alt unat_minus_one word_gt_0)
  show "p = data_p e" "max_life e' = max_life e" "persistent e' = persistent e" "life_c e' \<le> life_c e"
    "data_p e' = None \<or> e' = e\<lparr>life_c := life_c e'\<rparr>" "data_p e' = None \<Longrightarrow> data_p e \<noteq> None \<Longrightarrow> \<not> stored_this_eval e'"
    "data_p e = None \<Longrightarrow> e' = e"
    using assms dec by (auto simp: access_entry_def decay_def Let_def split: option.splits if_splits)
qed

lemma entry_ok_access:
  assumes "entry_ok ctx lv h0 h k e" "access_entry e = (p, e')"
  shows "entry_ok ctx lv h0 h k e'"
proof (cases "data_p e")
  case None
  then show ?thesis using assms access_entry_cases(7) by metis
next
  case (Some a)
  note c = access_entry_cases [OF assms(2)]
  have life: "life_c e' \<le> max_life e'"
    using assms(1) c(2,4) unfolding entry_ok_def by (metis order_trans)
  show ?thesis
  proof (cases "data_p e' = None")
    case True
    then show ?thesis using life c(6) Some by (simp add: entry_ok_def)
  next
    case False
    with c(5) have e': "e' = e\<lparr>life_c := life_c e'\<rparr>" by simp
    have "data_p e' = Some a" "stored_this_eval e' = stored_this_eval e" by (subst e', simp add: Some)+
    then show ?thesis
      using assms(1) life c(2,3) Some by (simp add: entry_ok_def)
  qed
qed

lemma holders_eq: "k \<in> holders c a \<Longrightarrow> cache_ok ctx lv h0 S h c \<Longrightarrow> k' \<in> holders c a \<Longrightarrow> eq_of ctx k k'"
  unfolding cache_ok_def by blast

lemma cache_entry:
  assumes "cache_ok ctx lv h0 S h c" "(k, e) \<in> set (cache_map c)"
  shows "k \<in> S" "\<not> leaf k" "entry_ok ctx lv h0 h k e"
  using assms unfolding cache_ok_def by auto

lemma holder_entry:
  assumes "cache_ok ctx lv h0 S h c" "k \<in> holders c a"
  shows "k \<in> S" "\<not> leaf k" "length h0 \<le> a" "a < length h" "canonical ctx lv k = Inr (h ! a)"
proof -
  obtain e where e: "(k, e) \<in> set (cache_map c)" "data_p e = Some a" using assms(2) by (auto simp: holders_def)
  note k = cache_entry [OF assms(1) e(1)]
  show "k \<in> S" "\<not> leaf k" "length h0 \<le> a" "a < length h" "canonical ctx lv k = Inr (h ! a)"
    using k e(2) by (simp_all add: entry_ok_def)
qed

lemma cache_ok_set:
  assumes ok: "cache_ok ctx lv h0 S h c" and f: "find_entry (eq_of ctx) c n = Some e0"
    and new: "\<And>k. (k, e0) \<in> set (cache_map c) \<Longrightarrow> eq_of ctx k n \<Longrightarrow> entry_ok ctx lv h0 h k e"
    and data: "data_p e = None \<or> data_p e = data_p e0 \<or> (\<exists>a. data_p e = Some a \<and> holders c a = {})"
    and refl: "\<And>k. k \<in> S \<Longrightarrow> eq_of ctx k k"
  shows "cache_ok ctx lv h0 S h (set_entry (eq_of ctx) n e c)"
proof -
  obtain xs k' ys where s: "cache_map c = xs @ (k', e0) # ys" "eq_of ctx k' n"
    "\<And>e. cache_map (set_entry (eq_of ctx) n e c) = xs @ (k', e) # ys" using set_entry_split [OF f] by metis
  have mem: "(k, e') \<in> set (cache_map (set_entry (eq_of ctx) n e c)) \<Longrightarrow>
      (k, e') \<in> set (cache_map c) \<or> (k = k' \<and> e' = e)" for k e'
    by (auto simp: s)
  have k': "(k', e0) \<in> set (cache_map c)" by (simp add: s)
  have hold: "holders (set_entry (eq_of ctx) n e c) a \<subseteq> (if data_p e = Some a \<and> data_p e0 \<noteq> Some a then {k'} else holders c a)"
    for a
  proof -
    have "holders (set_entry (eq_of ctx) n e c) a \<subseteq> holders c a \<union> (if data_p e = Some a then {k'} else {})"
      by (auto simp: holders_def s)
    moreover have "data_p e0 = Some a \<Longrightarrow> k' \<in> holders c a" using k' by (auto simp: holders_def)
    moreover have "data_p e = Some a \<Longrightarrow> data_p e0 \<noteq> Some a \<Longrightarrow> holders c a = {}" using data by auto
    ultimately show ?thesis by (auto split: if_splits)
  qed
  show ?thesis
    unfolding cache_ok_def
  proof (intro conjI allI ballI)
    show "\<exists>ext. h = h0 @ ext" using ok by (simp add: cache_ok_def)
  next
    fix x
    assume x: "x \<in> set (cache_map (set_entry (eq_of ctx) n e c))"
    obtain k e' where xe: "x = (k, e')" by (cases x)
    have "k \<in> S \<and> \<not> leaf k \<and> entry_ok ctx lv h0 h k e'"
      using mem [OF x [unfolded xe]] cache_entry [OF ok] new [OF k' s(2)] k' by metis
    then show "case x of (k, e) \<Rightarrow> k \<in> S \<and> \<not> leaf k \<and> entry_ok ctx lv h0 h k e" by (simp add: xe)
  next
    fix a k1 k2
    assume k: "k1 \<in> holders (set_entry (eq_of ctx) n e c) a" "k2 \<in> holders (set_entry (eq_of ctx) n e c) a"
    show "eq_of ctx k1 k2"
    proof (cases "data_p e = Some a \<and> data_p e0 \<noteq> Some a")
      case True
      then have "k1 = k'" "k2 = k'" using k hold [of a] by auto
      then show ?thesis using refl cache_entry(1) [OF ok k'] by simp
    next
      case False
      then have "k1 \<in> holders c a" "k2 \<in> holders c a" using k hold [of a] by auto
      then show ?thesis using holders_eq [OF _ ok] by blast
    qed
  qed
qed


section \<open>One node\<close>

lemma sound_facts:
  assumes "sound_eval ctx lv h0 S"
  shows sound_refl: "\<And>a. eq_of ctx a a"
    and sound_sym: "\<And>a b. a \<in> S \<Longrightarrow> b \<in> S \<Longrightarrow> eq_of ctx a b \<Longrightarrow> eq_of ctx b a"
    and sound_trans: "\<And>a b d. a \<in> S \<Longrightarrow> b \<in> S \<Longrightarrow> d \<in> S \<Longrightarrow> eq_of ctx a b \<Longrightarrow> eq_of ctx b d \<Longrightarrow> eq_of ctx a d"
    and sound_size: "\<And>a b. a \<in> S \<Longrightarrow> b \<in> S \<Longrightarrow> eq_of ctx a b \<Longrightarrow> size a = size b"
    and sound_canonical: "\<And>a b. a \<in> S \<Longrightarrow> b \<in> S \<Longrightarrow> eq_of ctx a b \<Longrightarrow> canonical ctx lv a = canonical ctx lv b"
    and sound_phased: "\<And>a v. a \<in> S \<Longrightarrow> phased ctx a (phased ctx a v) = v"
    and sound_children: "\<And>d l r k. Node d l r k \<in> S \<Longrightarrow> l \<in> S \<and> r \<in> S"
    and sound_context: "custom_evaluator ctx = None" "batch_context ctx = []"
    and sound_leaf: "\<And>n. n \<in> S \<Longrightarrow> leaf n \<Longrightarrow> leaf_source ctx lv h0 n"
proof -
  note s = assms [unfolded sound_eval_def]
  note s1 = s [THEN conjunct1] note s2 = s [THEN conjunct2] note s3 = s2 [THEN conjunct2] note s4 = s3 [THEN conjunct2]
  note s5 = s4 [THEN conjunct2] note s6 = s5 [THEN conjunct2] note s7 = s6 [THEN conjunct2]
  note eqs = s1 s2 [THEN conjunct1]
  show "\<And>a. eq_of ctx a a" unfolding eq_of_def by (rule node_equal_refl [OF eqs(1)])
  show "\<And>a b. a \<in> S \<Longrightarrow> b \<in> S \<Longrightarrow> eq_of ctx a b \<Longrightarrow> eq_of ctx b a"
    unfolding eq_of_def by (rule node_equal_sym [OF eqs])
  show "\<And>a b d. a \<in> S \<Longrightarrow> b \<in> S \<Longrightarrow> d \<in> S \<Longrightarrow> eq_of ctx a b \<Longrightarrow> eq_of ctx b d \<Longrightarrow> eq_of ctx a d"
    unfolding eq_of_def by (rule node_equal_trans [OF eqs])
  show "\<And>a b. a \<in> S \<Longrightarrow> b \<in> S \<Longrightarrow> eq_of ctx a b \<Longrightarrow> size a = size b"
    unfolding eq_of_def by (rule node_equal_size [OF eqs])
  show "\<And>a b. a \<in> S \<Longrightarrow> b \<in> S \<Longrightarrow> eq_of ctx a b \<Longrightarrow> canonical ctx lv a = canonical ctx lv b"
    by (rule s7 [THEN conjunct1, rule_format])
  show "\<And>a v. a \<in> S \<Longrightarrow> phased ctx a (phased ctx a v) = v"
    by (rule s6 [THEN conjunct1, rule_format])
  show "\<And>d l r k. Node d l r k \<in> S \<Longrightarrow> l \<in> S \<and> r \<in> S"
    using eqs(2) unfolding eval_forest_def closed_children_def by blast
  show "custom_evaluator ctx = None" "batch_context ctx = []"
    by (rule s3 [THEN conjunct1], rule s4 [THEN conjunct1])
  show "\<And>n. n \<in> S \<Longrightarrow> leaf n \<Longrightarrow> leaf_source ctx lv h0 n"
    by (rule s5 [THEN conjunct1, rule_format])
qed

lemma eq_leaf: "eq_of ctx a b \<Longrightarrow> leaf a = leaf b"
  unfolding eq_of_def using node_equal_payload [of "compare ctx" a b] by (auto simp: same_payload_def Let_def split: if_splits)

lemma cache_ok_extend: "cache_ok ctx lv h0 S h c \<Longrightarrow> cache_ok ctx lv h0 S (h @ x) c"
  unfolding cache_ok_def entry_ok_def by (force simp: nth_append)

lemma cache_ok_write:
  assumes "cache_ok ctx lv h0 S h c" "holders c p = {}" "length h0 \<le> p"
  shows "cache_ok ctx lv h0 S (h[p := v]) c"
proof -
  have "\<exists>ext. h[p := v] = h0 @ ext"
    using assms(1,3) by (auto simp: cache_ok_def list_update_append)
  moreover have "entry_ok ctx lv h0 (h[p := v]) k e" if "(k, e) \<in> set (cache_map c)" for k e
  proof -
    have "data_p e \<noteq> Some p" using assms(2) that by (auto simp: holders_def)
    then show ?thesis using cache_entry(3) [OF assms(1) that] by (auto simp: entry_ok_def)
  qed
  ultimately show ?thesis using assms(1) by (auto simp: cache_ok_def)
qed

text \<open>
  What evaluating \<open>n\<close> does to the heap and the cache: the result has the value of the tree and is held by no
  entry of another class, and only the buffers cached for left operands of marked sums may be overwritten.
\<close>

definition eval_post :: "('i, 'e, 'g, 'an, 'v) eval_ctx \<Rightarrow> (('i, 'e, 'g) eval_node \<Rightarrow> 'v) \<Rightarrow> 'v list
    \<Rightarrow> ('i, 'e, 'g) eval_node set \<Rightarrow> ('i, 'e, 'g) eval_node \<Rightarrow> 'v \<Rightarrow> 'v list \<Rightarrow> ('i, 'e, 'g) eval_node cache_manager
    \<Rightarrow> nat \<Rightarrow> 'v list \<Rightarrow> ('i, 'e, 'g) eval_node cache_manager \<Rightarrow> bool" where
  "eval_post ctx lv h0 S n v h c p h' c' \<longleftrightarrow>
     cache_ok ctx lv h0 S h' c' \<and> length h \<le> length h' \<and> p < length h' \<and> h' ! p = v
     \<and> (\<forall>k\<in>holders c' p. eq_of ctx k n)
     \<and> (\<forall>a<length h. (\<forall>k\<in>holders c a. \<forall>m\<in>set (inplace_lefts n). \<not> eq_of ctx k m) \<longrightarrow>
          h' ! a = h ! a \<and> holders c' a \<subseteq> holders c a)
     \<and> (\<not> leaf n \<longrightarrow> length h0 \<le> p
          \<and> (p < length h \<longrightarrow> (\<exists>k\<in>holders c p. eq_of ctx k n \<or> (\<exists>m\<in>set (inplace_lefts n). eq_of ctx k m))))
     \<and> (\<forall>m\<in>S. size n < size m \<longrightarrow> find_entry (eq_of ctx) c' m = find_entry (eq_of ctx) c m)"

lemma set_entry_same:
  assumes "find_entry eq c k = Some e"
  shows "set_entry eq k e c = c"
proof -
  obtain xs k' ys where "cache_map c = xs @ (k', e) # ys"
    "cache_map (set_entry eq k e c) = xs @ (k', e) # ys" using set_entry_split [OF assms] by metis
  then show ?thesis by (simp add: set_entry_def)
qed

lemma probe_miss:
  assumes "scopes st = [c]" "\<not> chk \<or> \<not> alive (eq_of ctx) c n"
  shows "probe ctx chk n st = Inr ((None, chk \<and> exists_key (eq_of ctx) c n), st)"
proof (cases "chk \<and> find_entry (eq_of ctx) c n \<noteq> None")
  case True
  then obtain e where e: "find_entry (eq_of ctx) c n = Some e" by blast
  then have "data_p e = None" using True assms(2) by (simp add: alive_def alive_entry_def)
  then have "access_at (eq_of ctx) [c] n = ((None, 0), [c])"
    using e by (simp add: access_entry_def set_entry_same)
  then show ?thesis using True assms(1) by (simp add: probe_def local_scope_def exists_key_def)
next
  case False
  then show ?thesis using assms(1) by (auto simp: probe_def local_scope_def exists_key_def)
qed

lemma size_find_other:
  assumes snd: "sound_eval ctx lv h0 S" and ok: "cache_ok ctx lv h0 S h c" and n: "n \<in> S"
    and f: "find_entry (eq_of ctx) c n = Some e0" and m: "m \<in> S" "size n < size m"
  shows "find_entry (eq_of ctx) (set_entry (eq_of ctx) n e c) m = find_entry (eq_of ctx) c m"
proof (rule find_set_other [OF f])
  fix k' assume k': "eq_of ctx k' n" "(k', e0) \<in> set (cache_map c)"
  have "k' \<in> S" by (rule cache_entry(1) [OF ok k'(2)])
  then show "\<not> eq_of ctx k' m"
    using sound_size [OF snd, of k' n] sound_size [OF snd, of k' m] k'(1) n m by auto
qed

lemma probe_hit:
  assumes snd: "sound_eval ctx lv h0 S" and ok: "cache_ok ctx lv h0 S (heap st) c" and n: "n \<in> S" and sc: "scopes st = [c]"
    and al: "find_entry (eq_of ctx) c n = Some e" "data_p e = Some a" and v: "denote ctx lv n = Inr v"
  shows "\<exists>p h' c'. probe ctx True n st = Inr ((Some p, False), st\<lparr>heap := h', scopes := [c']\<rparr>)
    \<and> eval_post ctx lv h0 S n v (heap st) c p h' c'
    \<and> c' = set_entry (eq_of ctx) n (snd (access_entry e)) c"
proof -
  obtain q e' where acc: "access_entry e = (q, e')" by (metis surj_pair)
  note ac = access_entry_cases [OF acc]
  have q: "q = Some a" using ac(1) al(2) by simp
  let ?c = "set_entry (eq_of ctx) n e' c"
  obtain k' where k': "(k', e) \<in> set (cache_map c)" "eq_of ctx k' n" using find_entry_mem [OF al(1)] by blast
  have hold: "k' \<in> holders c a" using k'(1) al(2) by (auto simp: holders_def)
  note kk = holder_entry [OF ok hold]
  have val: "heap st ! a = phased ctx n v"
    using kk(5) sound_canonical [OF snd kk(1) n k'(2)] v by (simp add: canonical_def)
  have e'data: "data_p e' = None \<or> data_p e' = data_p e"
    using ac(5) by (metis entry.select_convs(3) entry.surjective entry.update_convs(2))
  have ok': "cache_ok ctx lv h0 S (heap st) ?c"
  proof (rule cache_ok_set [OF ok al(1)])
    show "entry_ok ctx lv h0 (heap st) k e'" if "(k, e) \<in> set (cache_map c)" for k
      by (rule entry_ok_access [OF cache_entry(3) [OF ok that] acc])
  qed (use e'data sound_refl [OF snd] in blast)+
  have hsub: "holders ?c x \<subseteq> holders c x" for x
  proof (cases "data_p e' = Some x")
    case True
    then have x: "x = a" using e'data al(2) by auto
    obtain xs k ys where s: "cache_map c = xs @ (k, e) # ys"
      "\<And>e. cache_map (set_entry (eq_of ctx) n e c) = xs @ (k, e) # ys" using set_entry_split [OF al(1)] by metis
    show ?thesis using True x al(2) by (auto simp: holders_def s)
  next
    case False
    then show ?thesis using holders_set_entry [OF al(1), of e' x] by auto
  qed
  have near: "eq_of ctx k n" if "k \<in> holders ?c a" for k
  proof -
    have k: "k \<in> holders c a" using that hsub by blast
    show ?thesis
      by (rule sound_trans [OF snd holder_entry(1) [OF ok k] kk(1) n holders_eq [OF k ok hold] k'(2)])
  qed
  have others: "\<forall>m\<in>S. size n < size m \<longrightarrow> find_entry (eq_of ctx) ?c m = find_entry (eq_of ctx) c m"
    using size_find_other [OF snd ok n al(1)] by blast
  have at: "access_at (eq_of ctx) [c] n = ((Some a, 0), [?c])" using al acc q by simp
  show ?thesis
  proof (cases "canon_phase (data_of n) = 1")
    case True
    then have pr: "probe ctx True n st = Inr ((Some a, False), st\<lparr>scopes := [?c]\<rparr>)"
      using at sc sound_context(2) [OF snd] by (simp add: probe_def apply_canon_phase_def slice_to_use_def)
    have "eval_post ctx lv h0 S n v (heap st) c a (heap st) ?c"
      unfolding eval_post_def using ok' hsub near others kk val True hold k'(2) by (auto simp: phased_def)
    with pr show ?thesis using acc by (intro exI [of _ a] exI [of _ "heap st"] exI [of _ ?c]) simp
  next
    case False
    let ?h = "heap st @ [v]" and ?p = "length (heap st)"
    have "r_phase ctx (canon_phase (data_of n)) (heap st ! a) = v"
      using sound_phased [OF snd n, of v] False val by (simp add: phased_def)
    then have pr: "probe ctx True n st = Inr ((Some ?p, False), st\<lparr>heap := ?h, scopes := [?c]\<rparr>)"
      using at sc sound_context(2) [OF snd] False
      by (simp add: probe_def apply_canon_phase_def slice_to_use_def alloc_def)
    have none: "holders ?c ?p = {}" using holder_entry(4) [OF ok'] by blast
    have "length h0 \<le> ?p" using kk by simp
    then have "eval_post ctx lv h0 S n v (heap st) c ?p ?h ?c"
      unfolding eval_post_def using cache_ok_extend [OF ok'] hsub none others by (auto simp: nth_append)
    with pr show ?thesis using acc by (intro exI [of _ ?p] exI [of _ ?h] exI [of _ ?c]) simp
  qed
qed


text \<open>An entry after its value was stored and read once.\<close>

definition stored_entry :: "nat \<Rightarrow> entry \<Rightarrow> entry" where
  "stored_entry a e = snd (access_entry (e\<lparr>stored_this_eval := \<not> persistent e \<or> stored_this_eval e, data_p := Some a\<rparr>))"

lemma store_and_access_miss:
  assumes "find_entry eq c n = Some e" "data_p e = None" "\<not> persistent e \<longrightarrow> \<not> stored_this_eval e"
  shows "store_and_access eq n a c = Inr (Some a, set_entry eq n (stored_entry a e) c)"
proof -
  let ?e = "e\<lparr>stored_this_eval := \<not> persistent e \<or> stored_this_eval e, data_p := Some a\<rparr>"
  obtain q e' where acc: "access_entry ?e = (q, e')" by (metis surj_pair)
  have "q = Some a" using access_entry_cases(1) [OF acc] by simp
  moreover have "store_entry (strict_fill_once c) a e = Inr ?e" using assms(3) by (auto simp: store_entry_def)
  ultimately show ?thesis using assms(1) acc by (simp add: store_and_access_def stored_entry_def)
qed

lemma stored_entry_ok:
  assumes "entry_ok ctx lv h0 h k e" "length h0 \<le> a" "a < length h" "canonical ctx lv k = Inr (h ! a)"
  shows "entry_ok ctx lv h0 h k (stored_entry a e)" "data_p (stored_entry a e) = None \<or> data_p (stored_entry a e) = Some a"
proof -
  let ?e = "e\<lparr>stored_this_eval := \<not> persistent e \<or> stored_this_eval e, data_p := Some a\<rparr>"
  obtain q e' where acc: "access_entry ?e = (q, e')" by (metis surj_pair)
  note ac = access_entry_cases [OF acc]
  have e': "stored_entry a e = e'" using acc by (simp add: stored_entry_def)
  have data: "data_p e' = None \<or> data_p e' = Some a"
    using ac(5) by (metis entry.select_convs(3) entry.surjective entry.update_convs(2,3))
  have life: "life_c e' \<le> max_life e'"
    using assms(1) ac(2,4) unfolding entry_ok_def by (metis order_trans entry.ext_inject entry.surjective entry.update_convs(3,5))
  have drained: "data_p e' = None" if "\<not> persistent e" "\<not> 1 < max_life e"
  proof -
    have "unat (life_c e) \<le> 1"
      using assms(1) that(2) by (simp add: entry_ok_def word_le_nat_alt word_less_nat_alt)
    then have "unat (life_c e) = 0 \<or> unat (life_c e) = 1" by linarith
    then have "life_c e = 0 \<or> life_c e = 1" by (metis unat_1 unat_0 word_unat_eq_iff)
    then show ?thesis using acc that(1) by (auto simp: access_entry_def decay_def Let_def)
  qed
  have stored: "data_p e' = None \<Longrightarrow> \<not> stored_this_eval e'" using ac(6) by simp
  have flags: "max_life e' = max_life e" "persistent e' = persistent e" using ac(2,3) by simp_all
  show "entry_ok ctx lv h0 h k (stored_entry a e)"
    unfolding e' entry_ok_def
  proof (intro conjI allI impI)
    show "life_c e' \<le> max_life e'" by (rule life)
    show "data_p e' \<noteq> None" if "\<not> persistent e' \<and> stored_this_eval e'" using stored that by blast
    fix b assume b: "data_p e' = Some b"
    then have "b = a" using data by simp
    then show "length h0 \<le> b" "b < length h" "canonical ctx lv k = Inr (h ! b)" using assms by simp_all
    show "persistent e' \<or> 1 < max_life e'" using drained b flags by auto
  qed
  show "data_p (stored_entry a e) = None \<or> data_p (stored_entry a e) = Some a" using data e' by simp
qed

lemma finish_unstored:
  assumes "\<not> leaf n"
  shows "finish_phase_b ctx n False p st = Inr (p, st\<lparr>builds := builds st @ [n]\<rparr>)"
  using assms by (simp add: finish_phase_b_def)

definition finish_post :: "('i, 'e, 'g, 'an, 'v) eval_ctx \<Rightarrow> (('i, 'e, 'g) eval_node \<Rightarrow> 'v) \<Rightarrow> 'v list
    \<Rightarrow> ('i, 'e, 'g) eval_node set \<Rightarrow> ('i, 'e, 'g) eval_node \<Rightarrow> 'v \<Rightarrow> nat \<Rightarrow> 'v list \<Rightarrow> ('i, 'e, 'g) eval_node cache_manager
    \<Rightarrow> nat \<Rightarrow> 'v list \<Rightarrow> ('i, 'e, 'g) eval_node cache_manager \<Rightarrow> bool" where
  "finish_post ctx lv h0 S n v p h c q h' c' \<longleftrightarrow>
     cache_ok ctx lv h0 S h' c' \<and> length h \<le> length h' \<and> q < length h' \<and> h' ! q = v
     \<and> (\<forall>k\<in>holders c' q. eq_of ctx k n)
     \<and> (\<forall>a<length h. h' ! a = h ! a) \<and> (\<forall>a<length h. a \<noteq> p \<longrightarrow> holders c' a \<subseteq> holders c a)
     \<and> (q = p \<or> length h \<le> q)
     \<and> (\<forall>m\<in>S. size n < size m \<longrightarrow> find_entry (eq_of ctx) c' m = find_entry (eq_of ctx) c m)"

lemma finish_correct:
  assumes snd: "sound_eval ctx lv h0 S" and ok: "cache_ok ctx lv h0 S (heap st) c" and n: "n \<in> S" "\<not> leaf n"
    and sc: "scopes st = [c]" and miss: "\<not> alive (eq_of ctx) c n" and v: "denote ctx lv n = Inr v"
    and p: "p < length (heap st)" "heap st ! p = v" "holders c p = {}" "length h0 \<le> p"
    and f: "find_entry (eq_of ctx) c n = Some e"
  shows "\<exists>q a h'. finish_phase_b ctx n True p st
      = Inr (q, st\<lparr>heap := h', scopes := [set_entry (eq_of ctx) n (stored_entry a e) c], builds := builds st @ [n]\<rparr>)
    \<and> finish_post ctx lv h0 S n v p (heap st) c q h' (set_entry (eq_of ctx) n (stored_entry a e) c)"
proof -
  have none: "data_p e = None" using miss f by (simp add: alive_def alive_entry_def)
  obtain k' where k': "(k', e) \<in> set (cache_map c)" "eq_of ctx k' n" using find_entry_mem [OF f] by blast
  have fresh: "\<not> persistent e \<longrightarrow> \<not> stored_this_eval e"
    using cache_entry(3) [OF ok k'(1)] none by (auto simp: entry_ok_def)
  note sa = store_and_access_miss [OF f none fresh]
  have others: "\<forall>m\<in>S. size n < size m \<longrightarrow> find_entry (eq_of ctx) (set_entry (eq_of ctx) n e' c) m = find_entry (eq_of ctx) c m"
    for e'
    using size_find_other [OF snd ok n(1) f] by blast
  have setok: "cache_ok ctx lv h0 S h (set_entry (eq_of ctx) n (stored_entry a e) c)
      \<and> (\<forall>b. b \<noteq> a \<longrightarrow> holders (set_entry (eq_of ctx) n (stored_entry a e) c) b \<subseteq> holders c b)
      \<and> (\<forall>k\<in>holders (set_entry (eq_of ctx) n (stored_entry a e) c) a. eq_of ctx k n)"
    if okh: "cache_ok ctx lv h0 S h c" and a: "length h0 \<le> a" "a < length h" "h ! a = phased ctx n v" "holders c a = {}"
    for h a
  proof -
    let ?e = "stored_entry a e"
    have can: "canonical ctx lv k = Inr (h ! a)" if "k \<in> S" "eq_of ctx k n" for k
      using sound_canonical [OF snd that(1) n(1) that(2)] v a(3) by (simp add: canonical_def)
    have new: "entry_ok ctx lv h0 h k ?e" "data_p ?e = None \<or> data_p ?e = Some a" if "(k, e) \<in> set (cache_map c)" "eq_of ctx k n" for k
      using stored_entry_ok [OF cache_entry(3) [OF okh that(1)] a(1,2) can [OF cache_entry(1) [OF okh that(1)] that(2)]]
      by simp_all
    have "cache_ok ctx lv h0 S h (set_entry (eq_of ctx) n ?e c)"
      by (rule cache_ok_set [OF okh f new(1)]) (use new(2) [OF k'] a(4) sound_refl [OF snd] in auto)
    moreover have "holders (set_entry (eq_of ctx) n ?e c) b \<subseteq> holders c b" if "b \<noteq> a" for b
      using holders_set_entry [OF f, of ?e b] new(2) [OF k'] that by auto
    moreover have "eq_of ctx k n" if "k \<in> holders (set_entry (eq_of ctx) n ?e c) a" for k
      using holders_set_entry [OF f, of ?e a] a(4) that by (auto split: if_splits)
    ultimately show ?thesis by blast
  qed
  show ?thesis
  proof (cases "canon_phase (data_of n) = 1")
    case True
    let ?c = "set_entry (eq_of ctx) n (stored_entry p e) c"
    have "heap st ! p = phased ctx n v" using p(2) True by (simp add: phased_def)
    note so = setok [OF ok p(4,1) this p(3)]
    have "finish_phase_b ctx n True p st = Inr (p, st\<lparr>heap := heap st, scopes := [?c], builds := builds st @ [n]\<rparr>)"
      using n(2) True sc sa [of p] by (simp add: finish_phase_b_def apply_canon_phase_def local_scope_def Let_def)
    moreover have "finish_post ctx lv h0 S n v p (heap st) c p (heap st) ?c"
      unfolding finish_post_def using so p others by auto
    ultimately show ?thesis by blast
  next
    case False
    let ?a = "length (heap st)"
    let ?c = "set_entry (eq_of ctx) n (stored_entry ?a e) c" and ?x = "phased ctx n v"
    let ?h = "(heap st @ [?x]) @ [v]"
    have hlen: "length h0 \<le> ?a" using p by simp
    have none1: "holders c ?a = {}" using holder_entry(4) [OF ok] by blast
    have ok1: "cache_ok ctx lv h0 S ?h c" by (intro cache_ok_extend ok)
    have so: "cache_ok ctx lv h0 S ?h ?c" "\<forall>b. b \<noteq> ?a \<longrightarrow> holders ?c b \<subseteq> holders c b" "\<forall>k\<in>holders ?c ?a. eq_of ctx k n"
      using setok [OF ok1 hlen _ _ none1] by (simp_all add: nth_append)
    have none2: "holders ?c (Suc ?a) = {}"
    proof -
      have "holders ?c (Suc ?a) \<subseteq> holders c (Suc ?a)" using so(2) by simp
      also have "\<dots> = {}" using holder_entry(4) [OF ok, of _ "Suc ?a"] by auto
      finally show ?thesis by simp
    qed
    have "r_phase ctx (canon_phase (data_of n)) v = ?x" "r_phase ctx (canon_phase (data_of n)) ?x = v"
      using sound_phased [OF snd n(1), of v] False by (simp_all add: phased_def)
    then have "finish_phase_b ctx n True p st = Inr (Suc ?a, st\<lparr>heap := ?h, scopes := [?c], builds := builds st @ [n]\<rparr>)"
      using n(2) False sc sa [of ?a] p(2)
      by (simp add: finish_phase_b_def apply_canon_phase_def local_scope_def Let_def alloc_def nth_append)
    moreover have "finish_post ctx lv h0 S n v p (heap st) c (Suc ?a) ?h ?c"
      unfolding finish_post_def using so none2 others by (auto simp: nth_append)
    ultimately show ?thesis by blast
  qed
qed


section \<open>Combining the operands\<close>

lemma traced_op:
  assumes "sound_eval ctx lv h0 S" "Node d l r k \<in> S" "apply_one_op ctx (Node d l r k) x y = Inr v"
  shows "apply_one_op_traced ctx (Node d l r k) x y = Inr v"
proof -
  have hook: "hook (Node d l r k) x y' (annot ctx (data_of l), annot ctx (data_of r), annot ctx d) = Some w \<Longrightarrow>
      apply_one_op ctx (Node d l r k) x (Some y') = Inr w"
    if "shaped_product_hook ctx = Some hook" for hook y' w
    using assms(1) [unfolded sound_eval_def, THEN conjunct2, THEN conjunct2, THEN conjunct2, THEN conjunct2, THEN conjunct2,
        THEN conjunct2, THEN conjunct2, THEN conjunct2] assms(2) that by blast
  show ?thesis
  proof (cases "shaped_product_hook ctx")
    case None
    then show ?thesis using assms(3) by (simp add: apply_one_op_traced_def)
  next
    case (Some hook)
    then show ?thesis
      using assms(3) hook [OF Some] by (cases y) (auto simp: apply_one_op_traced_def split: option.splits)
  qed
qed

lemma sound_add:
  assumes "sound_eval ctx lv h0 S" "Node d l r k \<in> S" "marked_sum d l"
  shows "r_add ctx x (if result_type_of d = TensorResult then r_permute ctx y (annot ctx (data_of r), annot ctx (data_of l)) else y)
     = r_sum ctx x y (annot ctx (data_of l), annot ctx (data_of r), annot ctx d)"
  using assms(1) [unfolded sound_eval_def, THEN conjunct2, THEN conjunct2, THEN conjunct2, THEN conjunct2, THEN conjunct2,
      THEN conjunct2, THEN conjunct2, THEN conjunct1] assms(2,3) by blast

lemma unshared_unheld:
  assumes ok: "cache_ok ctx lv h0 S h c" and ns: "\<not> chain_holds_shared [c] a"
  shows "holders c a = {}"
proof -
  have False if "(k, e) \<in> set (cache_map c)" "data_p e = Some a" for k e
    using cache_entry(3) [OF ok that(1)] that ns
    by (auto simp: entry_ok_def chain_holds_shared_def list_ex_iff holds_def)
  then show ?thesis by (auto simp: holders_def)
qed

definition combine_post :: "('i, 'e, 'g, 'an, 'v) eval_ctx \<Rightarrow> (('i, 'e, 'g) eval_node \<Rightarrow> 'v) \<Rightarrow> 'v list
    \<Rightarrow> ('i, 'e, 'g) eval_node set \<Rightarrow> 'v \<Rightarrow> bool \<Rightarrow> nat \<Rightarrow> 'v list \<Rightarrow> ('i, 'e, 'g) eval_node cache_manager
    \<Rightarrow> nat \<Rightarrow> 'v list \<Rightarrow> bool" where
  "combine_post ctx lv h0 S v inplace a h c p h' \<longleftrightarrow>
     cache_ok ctx lv h0 S h' c \<and> length h \<le> length h' \<and> p < length h' \<and> h' ! p = v \<and> holders c p = {} \<and> length h0 \<le> p
     \<and> (\<forall>i<length h. i \<noteq> p \<longrightarrow> h' ! i = h ! i) \<and> (length h \<le> p \<or> (p = a \<and> inplace))"

lemma fresh_post:
  assumes ok: "cache_ok ctx lv h0 S h c"
  shows "combine_post ctx lv h0 S v inplace a h c (length h) (h @ [v])"
proof -
  have "holders c (length h) = {}" using holder_entry(4) [OF ok] by blast
  moreover have "length h0 \<le> length h" using ok by (auto simp: cache_ok_def)
  ultimately show ?thesis using cache_ok_extend [OF ok] by (simp add: combine_post_def nth_append)
qed

lemma combine_unary_correct:
  assumes snd: "sound_eval ctx lv h0 S" and ok: "cache_ok ctx lv h0 S (heap st) c" and n: "Node d l r k \<in> S"
    and v: "apply_one_op ctx (Node d l r k) (heap st ! a) None = Inr v"
  shows "\<exists>p h'. combine_unary ctx (Node d l r k) a st = Inr (p, st\<lparr>heap := h'\<rparr>)
    \<and> combine_post ctx lv h0 S v (marked_sum d l) a (heap st) c p h'"
  using traced_op [OF snd n v] fresh_post [OF ok] by (auto simp: combine_unary_def alloc_def)

lemma combine_binary_correct:
  assumes snd: "sound_eval ctx lv h0 S" and ok: "cache_ok ctx lv h0 S (heap st) c" and n: "Node d l r k \<in> S"
    and sc: "scopes st = [c]" and a: "a < length (heap st)" "leaf l \<or> length h0 \<le> a" and b: "b < length (heap st)"
    and v: "apply_one_op ctx (Node d l r k) (heap st ! a) (Some (heap st ! b)) = Inr v"
  shows "\<exists>p h'. combine_binary ctx (Node d l r k) a b st = Inr (p, st\<lparr>heap := h'\<rparr>)
    \<and> combine_post ctx lv h0 S v (marked_sum d l) a (heap st) c p h'"
proof (cases "inplace_eligible (Node d l r k) a st")
  case False
  then show ?thesis
    using traced_op [OF snd n v] fresh_post [OF ok] by (auto simp: combine_binary_def alloc_def)
next
  case True
  let ?h = "heap st" and ?ann = "(annot ctx (data_of r), annot ctx (data_of l))"
  let ?y = "if result_type_of d = TensorResult then r_permute ctx (?h ! b) ?ann else ?h ! b"
  have m: "marked_sum d l" and ns: "\<not> chain_holds_shared [c] a"
    using True sc by (simp_all add: marked_sum_def)
  have a0: "length h0 \<le> a" using m a(2) by (auto simp: marked_sum_def)
  have un: "holders c a = {}" by (rule unshared_unheld [OF ok ns])
  have "r_add ctx (?h ! a) ?y = v"
    using sound_add [OF snd n m, of "?h ! a" "?h ! b"] v m by (simp add: marked_sum_def)
  moreover have "\<exists>x. sum_in_place ctx (Node d l r k) a b st = (a, st\<lparr>heap := (?h @ x)[a := r_add ctx (?h ! a) ?y]\<rparr>)"
  proof (cases "result_type_of d = TensorResult")
    case True
    then show ?thesis
      using a(1) by (intro exI [of _ "[r_permute ctx (?h ! b) ?ann]"]) (simp add: alloc_def nth_append)
  next
    case False
    then show ?thesis using a(1) by (intro exI [of _ "[]"]) (simp add: alloc_def)
  qed
  ultimately obtain x where x: "combine_binary ctx (Node d l r k) a b st = Inr (a, st\<lparr>heap := (?h @ x)[a := v]\<rparr>)"
    using True by (auto simp: combine_binary_def)
  have "cache_ok ctx lv h0 S ((?h @ x)[a := v]) c"
    by (rule cache_ok_write [OF cache_ok_extend [OF ok] un a0])
  then have "combine_post ctx lv h0 S v (marked_sum d l) a ?h c a ((?h @ x)[a := v])"
    using a(1) a0 un m by (simp add: combine_post_def nth_append)
  with x show ?thesis by blast
qed

section \<open>The tree\<close>

lemma denote_node:
  assumes "denote ctx lv (Node d l r k) = Inr v"
  obtains op x where "op_type d = Some op" "denote ctx lv l = Inr x"
    "is_unary op \<Longrightarrow> apply_one_op ctx (Node d l r k) x None = Inr v"
    "\<And>y. \<not> is_unary op \<Longrightarrow> denote ctx lv r = Inr y \<Longrightarrow> apply_one_op ctx (Node d l r k) x (Some y) = Inr v"
    "\<not> is_unary op \<Longrightarrow> \<exists>y. denote ctx lv r = Inr y"
proof -
  obtain x where x: "denote ctx lv l = Inr x" using assms by (cases "denote ctx lv l") auto
  obtain op where op: "op_type d = Some op" using assms x by (cases "op_type d") auto
  show ?thesis
    using assms x op by (intro that [OF op x]) (auto simp del: apply_one_op.simps simp: bind_res_Inr)
qed


text \<open>What evaluating the operands of \<open>n\<close> does; \<open>a\<close> is the left one's buffer.\<close>

definition operands_post :: "('i, 'e, 'g, 'an, 'v) eval_ctx \<Rightarrow> ('i, 'e, 'g) eval_node set \<Rightarrow> ('i, 'e, 'g) eval_node \<Rightarrow> bool
    \<Rightarrow> 'v list \<Rightarrow> ('i, 'e, 'g) eval_node cache_manager \<Rightarrow> nat \<Rightarrow> 'v list \<Rightarrow> ('i, 'e, 'g) eval_node cache_manager \<Rightarrow> bool" where
  "operands_post ctx S n inplace h c a h' c' \<longleftrightarrow>
     length h \<le> length h'
     \<and> (\<forall>i<length h. (\<forall>k\<in>holders c i. \<forall>m\<in>set (inplace_lefts n). \<not> eq_of ctx k m) \<longrightarrow>
          h' ! i = h ! i \<and> holders c' i \<subseteq> holders c i)
     \<and> (inplace \<longrightarrow> a < length h \<longrightarrow> (\<exists>k\<in>holders c a. \<exists>m\<in>set (inplace_lefts n). eq_of ctx k m))
     \<and> (\<forall>m\<in>S. size n \<le> size m \<longrightarrow> find_entry (eq_of ctx) c' m = find_entry (eq_of ctx) c m)"

lemma finish_node:
  assumes snd: "sound_eval ctx lv h0 S" and n: "n \<in> S" "\<not> leaf n" and v: "denote ctx lv n = Inr v"
    and miss: "store \<Longrightarrow> exists_key (eq_of ctx) c n \<and> \<not> alive (eq_of ctx) c n"
    and ops: "operands_post ctx S n inplace h c a h2 c2"
    and comb: "combine_post ctx lv h0 S v inplace a h2 c2 p (heap st)" and sc: "scopes st = [c2]"
  shows "\<exists>q h' c'. finish_phase_b ctx n store p st = Inr (q, st\<lparr>heap := h', scopes := [c'], builds := builds st @ [n]\<rparr>)
    \<and> eval_post ctx lv h0 S n v h c q h' c'
    \<and> (if store then \<exists>e b. find_entry (eq_of ctx) c2 n = Some e \<and> c' = set_entry (eq_of ctx) n (stored_entry b e) c2
       else c' = c2)"
proof -
  let ?h3 = "heap st"
  note cp = comb [unfolded combine_post_def]
  note op = ops [unfolded operands_post_def]
  have len: "length h \<le> length h2" "length h2 \<le> length ?h3" using op cp by blast+
  have frame: "?h3 ! i = h ! i \<and> holders c2 i \<subseteq> holders c i \<and> i \<noteq> p"
    if i: "i < length h" and un: "\<forall>k\<in>holders c i. \<forall>m\<in>set (inplace_lefts n). \<not> eq_of ctx k m" for i
  proof -
    have o: "h2 ! i = h ! i" "holders c2 i \<subseteq> holders c i" using op i un by blast+
    have "i \<noteq> p"
    proof
      assume "i = p"
      then have "p = a" "inplace" "a < length h" using cp i len by auto
      then show False using op un \<open>i = p\<close> by blast
    qed
    moreover from this have "?h3 ! i = h2 ! i" using cp i len by simp
    ultimately show ?thesis using o by simp
  qed
  have orig: "\<exists>k\<in>holders c p. \<exists>m\<in>set (inplace_lefts n). eq_of ctx k m" if "p < length h"
  proof -
    have "p = a" "inplace" using cp that len by auto
    then show ?thesis using op that by blast
  qed
  have same: "\<forall>m\<in>S. size n \<le> size m \<longrightarrow> find_entry (eq_of ctx) c2 m = find_entry (eq_of ctx) c m" using op by blast
  show ?thesis
  proof (cases store)
    case False
    have "eval_post ctx lv h0 S n v h c p ?h3 c2"
      unfolding eval_post_def
    proof (intro conjI)
      show "cache_ok ctx lv h0 S ?h3 c2" "p < length ?h3" "?h3 ! p = v" using cp by blast+
      show "length h \<le> length ?h3" using len by linarith
      show "\<forall>k\<in>holders c2 p. eq_of ctx k n" using cp by blast
      show "\<forall>i<length h. (\<forall>k\<in>holders c i. \<forall>m\<in>set (inplace_lefts n). \<not> eq_of ctx k m) \<longrightarrow>
          ?h3 ! i = h ! i \<and> holders c2 i \<subseteq> holders c i" using frame by blast
      show "\<not> leaf n \<longrightarrow> length h0 \<le> p
          \<and> (p < length h \<longrightarrow> (\<exists>k\<in>holders c p. eq_of ctx k n \<or> (\<exists>m\<in>set (inplace_lefts n). eq_of ctx k m)))"
        using cp orig by blast
      show "\<forall>m\<in>S. size n < size m \<longrightarrow> find_entry (eq_of ctx) c2 m = find_entry (eq_of ctx) c m" using same by auto
    qed
    then show ?thesis
      using False finish_unstored [OF n(2), of ctx p st] sc
      by (intro exI [of _ p] exI [of _ ?h3] exI [of _ c2]) simp
  next
    case True
    have fn: "find_entry (eq_of ctx) c2 n = find_entry (eq_of ctx) c n" using same n(1) by blast
    obtain e where e: "find_entry (eq_of ctx) c2 n = Some e"
      using miss [OF True] fn by (auto simp: exists_key_def)
    have na: "\<not> alive (eq_of ctx) c2 n" using miss [OF True] fn by (simp add: alive_def)
    have ok2: "cache_ok ctx lv h0 S ?h3 c2" and p: "p < length ?h3" "?h3 ! p = v" "holders c2 p = {}" "length h0 \<le> p"
      using cp by blast+
    obtain q b h' where q: "finish_phase_b ctx n True p st
        = Inr (q, st\<lparr>heap := h', scopes := [set_entry (eq_of ctx) n (stored_entry b e) c2], builds := builds st @ [n]\<rparr>)"
      and fp: "finish_post ctx lv h0 S n v p ?h3 c2 q h' (set_entry (eq_of ctx) n (stored_entry b e) c2)"
      using finish_correct [OF snd ok2 n sc na v p e] by blast
    let ?c = "set_entry (eq_of ctx) n (stored_entry b e) c2"
    note f = fp [unfolded finish_post_def]
    have "eval_post ctx lv h0 S n v h c q h' ?c"
      unfolding eval_post_def
    proof (intro conjI)
      show "cache_ok ctx lv h0 S h' ?c" "q < length h'" "h' ! q = v" "\<forall>k\<in>holders ?c q. eq_of ctx k n" using f by blast+
      show "length h \<le> length h'" using f len by linarith
      show "\<forall>i<length h. (\<forall>k\<in>holders c i. \<forall>m\<in>set (inplace_lefts n). \<not> eq_of ctx k m) \<longrightarrow>
          h' ! i = h ! i \<and> holders ?c i \<subseteq> holders c i"
      proof (intro allI impI)
        fix i assume i: "i < length h" and un: "\<forall>k\<in>holders c i. \<forall>m\<in>set (inplace_lefts n). \<not> eq_of ctx k m"
        have "i < length ?h3" using i len by simp
        then have "h' ! i = ?h3 ! i" "i \<noteq> p \<longrightarrow> holders ?c i \<subseteq> holders c2 i" using f by blast+
        then show "h' ! i = h ! i \<and> holders ?c i \<subseteq> holders c i" using frame [OF i un] by auto
      qed
      have q': "q = p \<or> length ?h3 \<le> q" using f by blast
      show "\<not> leaf n \<longrightarrow> length h0 \<le> q
          \<and> (q < length h \<longrightarrow> (\<exists>k\<in>holders c q. eq_of ctx k n \<or> (\<exists>m\<in>set (inplace_lefts n). eq_of ctx k m)))"
        using q' p len orig by auto
      show "\<forall>m\<in>S. size n < size m \<longrightarrow> find_entry (eq_of ctx) ?c m = find_entry (eq_of ctx) c m"
        using f same by auto
    qed
    with q e True show ?thesis by (intro exI [of _ q] exI [of _ h'] exI [of _ ?c]) auto
  qed
qed


section \<open>Lifetimes\<close>

text \<open>
  How often the nodes equal to \<open>k\<close> are visited when the trees are walked in order and the subtree of a node is
  walked on its first visit only; \<open>m\<close> counts what was visited before.
\<close>

definition add_use :: "('a node \<Rightarrow> 'a node \<Rightarrow> bool) \<Rightarrow> 'a node \<Rightarrow> ('a node \<Rightarrow> nat) \<Rightarrow> 'a node \<Rightarrow> nat" where
  "add_use eq n m = (\<lambda>k. if eq k n then Suc (m k) else m k)"

fun uses :: "('a node \<Rightarrow> 'a node \<Rightarrow> bool) \<Rightarrow> 'a node \<Rightarrow> ('a node \<Rightarrow> nat) \<Rightarrow> 'a node \<Rightarrow> nat" where
  "uses eq (Leaf d k) m = m"
| "uses eq (Node d l r k) m =
     (if 0 < m (Node d l r k) then add_use eq (Node d l r k) m
      else uses eq r (uses eq l (add_use eq (Node d l r k) m)))"

definition counted_entry :: "nat \<Rightarrow> nat \<Rightarrow> entry \<Rightarrow> bool" where
  "counted_entry M m e \<longleftrightarrow> M < 2 ^ 32 \<and> \<not> persistent e \<and> max_life e = of_nat M \<and> life_c e = of_nat (M - m)
     \<and> (data_p e \<noteq> None \<longleftrightarrow> 0 < m \<and> m < M)"

definition counted :: "('i, 'e, 'g, 'an, 'v) eval_ctx \<Rightarrow> ('i, 'e, 'g) eval_node set
    \<Rightarrow> (('i, 'e, 'g) eval_node \<Rightarrow> nat) \<Rightarrow> (('i, 'e, 'g) eval_node \<Rightarrow> nat) \<Rightarrow> ('i, 'e, 'g) eval_node cache_manager \<Rightarrow> bool" where
  "counted ctx S M m c \<longleftrightarrow>
     (\<forall>k\<in>S. 0 < M k \<longrightarrow> (\<exists>e. find_entry (eq_of ctx) c k = Some e \<and> counted_entry (M k) (m k) e))"

lemma unat_count: "j < 2 ^ 64 \<Longrightarrow> unat (of_nat j :: 64 word) = j"
  by (simp add: unat_of_nat)

lemma life_step:
  assumes "j < 2 ^ 32"
  shows "(ucast (of_nat j :: 64 word) :: 32 word) = 0 \<longleftrightarrow> j = 0"
proof -
  have "unat (of_nat j :: 64 word) = j" using assms by (intro unat_count) simp
  then have "unat (ucast (of_nat j :: 64 word) :: 32 word) = j" using assms by (simp add: unsigned_ucast_eq take_bit_eq_mod)
  then show ?thesis by (metis unat_eq_0)
qed

lemma counted_decay:
  assumes "life_c e = of_nat (Suc j)" "Suc j < 2 ^ 32"
  shows "decay e = (ucast (of_nat j :: 64 word), e\<lparr>life_c := of_nat j\<rparr>)"
proof -
  have "unat (of_nat (Suc j) :: 64 word) = Suc j" using assms(2) by (intro unat_count) simp
  then have "(of_nat (Suc j) :: 64 word) > 0" by (metis Zero_not_Suc unat_0 word_gt_0)
  then show ?thesis using assms(1) by (simp add: decay_def Let_def)
qed

lemma counted_access:
  assumes e: "counted_entry M m e" "0 < m" "m < M"
  shows "counted_entry M (Suc m) (snd (access_entry e))"
proof -
  obtain j where j: "M - m = Suc j" using e(3) by (cases "M - m") auto
  have lt: "Suc j < 2 ^ 32" using e(1) j unfolding counted_entry_def by linarith
  have dec: "decay e = (ucast (of_nat j :: 64 word), e\<lparr>life_c := of_nat j\<rparr>)"
    by (rule counted_decay [OF _ lt]) (use e(1) j in \<open>simp add: counted_entry_def\<close>)
  obtain a where a: "data_p e = Some a" using e by (auto simp: counted_entry_def)
  have mj: "M - Suc m = j" "j = 0 \<longleftrightarrow> \<not> Suc m < M" using j by auto
  have z: "(ucast (of_nat j :: 64 word) :: 32 word) = 0 \<longleftrightarrow> j = 0" by (rule life_step) (use lt in simp)
  show ?thesis
    using e(1) a dec z mj by (auto simp: counted_entry_def access_entry_def Let_def split: if_splits)
qed

lemma counted_store:
  assumes e: "counted_entry M 0 e" "0 < M"
  shows "counted_entry M 1 (stored_entry b e)"
proof -
  obtain j where j: "M = Suc j" using e(2) by (cases M) auto
  let ?e = "e\<lparr>stored_this_eval := \<not> persistent e \<or> stored_this_eval e, data_p := Some b\<rparr>"
  have lt: "Suc j < 2 ^ 32" using e(1) j unfolding counted_entry_def by linarith
  have dec: "decay ?e = (ucast (of_nat j :: 64 word), ?e\<lparr>life_c := of_nat j\<rparr>)"
    by (rule counted_decay [OF _ lt]) (use e(1) j in \<open>simp add: counted_entry_def\<close>)
  have z: "(ucast (of_nat j :: 64 word) :: 32 word) = 0 \<longleftrightarrow> j = 0" by (rule life_step) (use lt in simp)
  have mj: "j = 0 \<longleftrightarrow> \<not> 1 < M" "M - 1 = j" using j by auto
  show ?thesis
    using e(1) dec z mj by (auto simp: counted_entry_def stored_entry_def access_entry_def Let_def split: if_splits)
qed

lemma find_entry_cong:
  assumes snd: "sound_eval ctx lv h0 S" and keys: "\<And>k e. (k, e) \<in> set (cache_map c) \<Longrightarrow> k \<in> S"
    and S: "a \<in> S" "b \<in> S" and ab: "eq_of ctx a b"
  shows "find_entry (eq_of ctx) c a = find_entry (eq_of ctx) c b"
proof -
  have "eq_of ctx k a = eq_of ctx k b" if "(k, e) \<in> set (cache_map c)" for k e
    using sound_trans [OF snd keys [OF that] S ] sound_trans [OF snd keys [OF that] S(2,1)] ab sound_sym [OF snd S ab] by blast
  then have "List.find (\<lambda>(k', e). eq_of ctx k' a) xs = List.find (\<lambda>(k', e). eq_of ctx k' b) xs" if "set xs \<subseteq> set (cache_map c)" for xs
    using that by (induction xs) auto
  then show ?thesis by (simp add: find_entry_def)
qed

lemma counted_set:
  assumes snd: "sound_eval ctx lv h0 S" and keys: "\<And>k e. (k, e) \<in> set (cache_map c) \<Longrightarrow> k \<in> S"
    and n: "n \<in> S" and cnt: "counted ctx S M m c" and f: "find_entry (eq_of ctx) c n = Some e"
    and e': "\<And>M m. counted_entry M m e \<Longrightarrow> M = M0 \<Longrightarrow> m = m0 \<Longrightarrow> counted_entry M (Suc m) e'"
    and M: "\<And>k. k \<in> S \<Longrightarrow> eq_of ctx k n \<Longrightarrow> M k = M0 \<and> m k = m0"
  shows "counted ctx S M (add_use (eq_of ctx) n m) (set_entry (eq_of ctx) n e' c)"
  unfolding counted_def
proof (intro ballI impI)
  fix k assume k: "k \<in> S" "0 < M k"
  let ?c = "set_entry (eq_of ctx) n e' c"
  have keys': "(k, x) \<in> set (cache_map ?c) \<Longrightarrow> k \<in> S" for k x
  proof -
    assume "(k, x) \<in> set (cache_map ?c)"
    then have "k \<in> set (map fst (cache_map ?c))" by force
    then have "k \<in> set (map fst (cache_map c))" by (simp only: set_entry_keys)
    then show "k \<in> S" using keys by auto
  qed
  obtain e1 where e1: "find_entry (eq_of ctx) c k = Some e1" "counted_entry (M k) (m k) e1"
    using cnt k by (auto simp: counted_def)
  show "\<exists>e. find_entry (eq_of ctx) ?c k = Some e \<and> counted_entry (M k) (add_use (eq_of ctx) n m k) e"
  proof (cases "eq_of ctx k n")
    case True
    have "find_entry (eq_of ctx) ?c k = find_entry (eq_of ctx) ?c n"
      by (rule find_entry_cong [OF snd keys' k(1) n True])
    then have "find_entry (eq_of ctx) ?c k = Some e'" using find_set_same [OF f] by simp
    moreover have "e1 = e" using find_entry_cong [OF snd keys k(1) n True] e1 f by simp
    ultimately show ?thesis using e' [of "M k" "m k"] e1(2) M [OF k(1) True] True by (simp add: add_use_def)
  next
    case False
    have "find_entry (eq_of ctx) ?c k = find_entry (eq_of ctx) c k"
    proof (rule find_set_other [OF f])
      fix k' assume k': "eq_of ctx k' n" "(k', e) \<in> set (cache_map c)"
      have kS: "k' \<in> S" by (rule keys [OF k'(2)])
      show "\<not> eq_of ctx k' k"
      proof
        assume "eq_of ctx k' k"
        then have "eq_of ctx k k'" by (rule sound_sym [OF snd kS k(1)])
        then have "eq_of ctx k n" by (rule sound_trans [OF snd k(1) kS n _ k'(1)])
        with False show False by simp
      qed
    qed
    then show ?thesis using e1 False by (simp add: add_use_def)
  qed
qed


definition class_fun :: "('i, 'e, 'g, 'an, 'v) eval_ctx \<Rightarrow> ('i, 'e, 'g) eval_node set \<Rightarrow> (('i, 'e, 'g) eval_node \<Rightarrow> nat) \<Rightarrow> bool" where
  "class_fun ctx S m \<longleftrightarrow> (\<forall>a\<in>S. \<forall>b\<in>S. eq_of ctx a b \<longrightarrow> m a = m b)"

lemma class_fun_add:
  assumes snd: "sound_eval ctx lv h0 S" and n: "n \<in> S" and m: "class_fun ctx S m"
  shows "class_fun ctx S (add_use (eq_of ctx) n m)"
  unfolding class_fun_def
proof (intro ballI impI)
  fix a b assume ab: "a \<in> S" "b \<in> S" "eq_of ctx a b"
  have "eq_of ctx a n \<longleftrightarrow> eq_of ctx b n"
    using sound_trans [OF snd ab(1,2) n ab(3)] sound_trans [OF snd ab(2,1) n sound_sym [OF snd ab]] by blast
  moreover have "m a = m b" using m ab by (auto simp: class_fun_def)
  ultimately show "add_use (eq_of ctx) n m a = add_use (eq_of ctx) n m b" by (simp add: add_use_def)
qed

lemma class_fun_uses:
  assumes snd: "sound_eval ctx lv h0 S"
  shows "t \<in> S \<Longrightarrow> class_fun ctx S m \<Longrightarrow> class_fun ctx S (uses (eq_of ctx) t m)"
proof (induction t arbitrary: m)
  case (Node d l r k)
  have lr: "l \<in> S" "r \<in> S" using sound_children [OF snd Node.prems(1)] by simp_all
  show ?case
    using class_fun_add [OF snd Node.prems] Node.IH lr by simp
qed simp

lemma uses_mono: "m k \<le> uses eq t m k"
proof (induction t arbitrary: m)
  case (Node d l r x)
  let ?m = "add_use eq (Node d l r x) m"
  have "m k \<le> ?m k" by (simp add: add_use_def)
  also have "\<dots> \<le> uses eq l ?m k" by (rule Node.IH(1))
  also have "\<dots> \<le> uses eq r (uses eq l ?m) k" by (rule Node.IH(2))
  finally show ?case by (simp add: add_use_def)
qed simp

lemma uses_larger:
  assumes snd: "sound_eval ctx lv h0 S"
  shows "t \<in> S \<Longrightarrow> k \<in> S \<Longrightarrow> size t < size k \<Longrightarrow> uses (eq_of ctx) t m k = m k"
proof (induction t arbitrary: m)
  case (Node d l r x)
  have lr: "l \<in> S" "r \<in> S" using sound_children [OF snd Node.prems(1)] by simp_all
  have "\<not> eq_of ctx k (Node d l r x)"
    using sound_size [OF snd Node.prems(2,1)] Node.prems(3) by auto
  then show ?case using Node lr by (simp add: add_use_def)
qed simp

lemma uses_cong:
  assumes snd: "sound_eval ctx lv h0 S"
  shows "t \<in> S \<Longrightarrow> \<forall>k\<in>S. m k = m' k \<Longrightarrow> \<forall>k\<in>S. uses (eq_of ctx) t m k = uses (eq_of ctx) t m' k"
proof (induction t arbitrary: m m')
  case (Node d l r x)
  have lr: "l \<in> S" "r \<in> S" using sound_children [OF snd Node.prems(1)] by simp_all
  have a: "\<forall>k\<in>S. add_use (eq_of ctx) (Node d l r x) m k = add_use (eq_of ctx) (Node d l r x) m' k"
    using Node.prems(2) by (simp add: add_use_def)
  have b: "\<forall>k\<in>S. uses (eq_of ctx) r (uses (eq_of ctx) l (add_use (eq_of ctx) (Node d l r x) m)) k
      = uses (eq_of ctx) r (uses (eq_of ctx) l (add_use (eq_of ctx) (Node d l r x) m')) k"
    by (rule Node.IH(2) [OF lr(2) Node.IH(1) [OF lr(1) a]])
  have "m (Node d l r x) = m' (Node d l r x)" using Node.prems by blast
  then show ?case using a b by simp
qed simp

lemma uses_add:
  assumes snd: "sound_eval ctx lv h0 S" and n: "n \<in> S"
  shows "t \<in> S \<Longrightarrow> size t < size n \<Longrightarrow>
    \<forall>k\<in>S. uses (eq_of ctx) t (add_use (eq_of ctx) n m) k = add_use (eq_of ctx) n (uses (eq_of ctx) t m) k"
proof (induction t arbitrary: m)
  case (Leaf d x)
  then show ?case by simp
next
  case (Node d l r x)
  let ?t = "Node d l r x" and ?eq = "eq_of ctx"
  have lr: "l \<in> S" "r \<in> S" using sound_children [OF snd Node.prems(1)] by simp_all
  have ne: "\<not> ?eq ?t n" using sound_size [OF snd Node.prems(1) n] Node.prems(2) by auto
  then have mt: "add_use ?eq n m ?t = m ?t" by (simp add: add_use_def)
  have comm: "add_use ?eq ?t (add_use ?eq n m) = add_use ?eq n (add_use ?eq ?t m)" by (auto simp: add_use_def)
  show ?case
  proof (cases "0 < m ?t")
    case True
    then show ?thesis using mt comm by simp
  next
    case False
    have "\<forall>k\<in>S. uses ?eq l (add_use ?eq n (add_use ?eq ?t m)) k = add_use ?eq n (uses ?eq l (add_use ?eq ?t m)) k"
      by (rule Node.IH(1) [OF lr(1)]) (use Node.prems(2) in simp)
    from uses_cong [OF snd lr(2) this]
    have "\<forall>k\<in>S. uses ?eq r (uses ?eq l (add_use ?eq n (add_use ?eq ?t m))) k
        = uses ?eq r (add_use ?eq n (uses ?eq l (add_use ?eq ?t m))) k" .
    moreover have "\<forall>k\<in>S. uses ?eq r (add_use ?eq n (uses ?eq l (add_use ?eq ?t m))) k
        = add_use ?eq n (uses ?eq r (uses ?eq l (add_use ?eq ?t m))) k"
      by (rule Node.IH(2) [OF lr(2)]) (use Node.prems(2) in simp)
    ultimately show ?thesis using False mt comm by simp
  qed
qed

text \<open>The first visit of a node, with its own use counted after its operands instead of before them.\<close>

lemma uses_first:
  assumes snd: "sound_eval ctx lv h0 S" and n: "Node d l r x \<in> S" and m: "m (Node d l r x) = 0" and k: "k \<in> S"
  shows "uses (eq_of ctx) (Node d l r x) m k
    = add_use (eq_of ctx) (Node d l r x) (uses (eq_of ctx) r (uses (eq_of ctx) l m)) k"
proof -
  let ?n = "Node d l r x" and ?eq = "eq_of ctx"
  have lr: "l \<in> S" "r \<in> S" using sound_children [OF snd n] by simp_all
  have "\<forall>k\<in>S. uses ?eq l (add_use ?eq ?n m) k = add_use ?eq ?n (uses ?eq l m) k"
    by (rule uses_add [OF snd n lr(1)]) simp
  from uses_cong [OF snd lr(2) this] uses_add [OF snd n lr(2), of "uses ?eq l m"] k
  show ?thesis by (simp add: m)
qed

lemma counted_cong: "counted ctx S M m c \<Longrightarrow> \<forall>k\<in>S. m k = m' k \<Longrightarrow> counted ctx S M m' c"
  by (simp add: counted_def)

text \<open>The right child of a unary node is a leaf, the sentinel.\<close>

fun unary_sentinels :: "('i, 'e, 'g) eval_node \<Rightarrow> bool" where
  "unary_sentinels (Leaf d k) \<longleftrightarrow> True"
| "unary_sentinels (Node d l r k) \<longleftrightarrow> unary_sentinels l \<and> unary_sentinels r \<and> (binary_node d \<or> leaf r)"

text \<open>
  What evaluating \<open>n\<close> does to lifetimes that agree with the visits: they still do, and each class is built
  if and only if it is visited for the first time, and then once.
\<close>

definition times_built :: "('i, 'e, 'g, 'an, 'v) eval_ctx \<Rightarrow> ('i, 'e, 'g) eval_node list \<Rightarrow> ('i, 'e, 'g) eval_node \<Rightarrow> nat" where
  "times_built ctx bs k = length (filter (eq_of ctx k) bs)"

definition lives_post :: "('i, 'e, 'g, 'an, 'v) eval_ctx \<Rightarrow> ('i, 'e, 'g) eval_node set \<Rightarrow> ('i, 'e, 'g) eval_node
    \<Rightarrow> ('i, 'e, 'g) eval_node cache_manager \<Rightarrow> ('i, 'e, 'g) eval_node cache_manager \<Rightarrow> ('i, 'e, 'g) eval_node list \<Rightarrow> bool" where
  "lives_post ctx S n c c' bs \<longleftrightarrow>
     (\<forall>M m. class_fun ctx S M \<longrightarrow> class_fun ctx S m \<longrightarrow> counted ctx S M m c \<longrightarrow>
        (\<forall>k\<in>S. uses (eq_of ctx) n m k \<le> M k) \<longrightarrow>
        counted ctx S M (uses (eq_of ctx) n m) c'
        \<and> (\<forall>k\<in>S. times_built ctx bs k = (if m k = 0 \<and> 0 < uses (eq_of ctx) n m k then 1 else 0)))"

lemma lives_leaf: "leaf n \<Longrightarrow> lives_post ctx S n c c []"
  by (cases n) (auto simp: lives_post_def times_built_def)

lemma cache_keys: "cache_ok ctx lv h0 S h c \<Longrightarrow> (k, e) \<in> set (cache_map c) \<Longrightarrow> k \<in> S"
  by (rule cache_entry(1))

lemma class_const: "class_fun ctx S m \<Longrightarrow> k \<in> S \<Longrightarrow> n \<in> S \<Longrightarrow> eq_of ctx k n \<Longrightarrow> m k = m n"
  by (auto simp: class_fun_def)

lemma lives_hit:
  assumes snd: "sound_eval ctx lv h0 S" and ok: "cache_ok ctx lv h0 S h c" and n: "n \<in> S"
    and f: "find_entry (eq_of ctx) c n = Some e" "data_p e = Some a"
  shows "lives_post ctx S n c (set_entry (eq_of ctx) n (snd (access_entry e)) c) []"
  unfolding lives_post_def
proof (intro allI impI)
  fix M m
  assume M: "class_fun ctx S M" and m: "class_fun ctx S m" and cnt: "counted ctx S M m c"
    and le: "\<forall>k\<in>S. uses (eq_of ctx) n m k \<le> M k"
  obtain k' where k': "(k', e) \<in> set (cache_map c)" "eq_of ctx k' n" using find_entry_mem [OF f(1)] by blast
  have "\<not> leaf n" using cache_entry(2) [OF ok k'(1)] eq_leaf [OF k'(2)] by simp
  then obtain d l r x where nd: "n = Node d l r x" by (cases n) auto
  have add: "add_use (eq_of ctx) n m n = Suc (m n)" using sound_refl [OF snd] by (simp add: add_use_def)
  have "Suc (m n) \<le> uses (eq_of ctx) n m n"
  proof -
    have "add_use (eq_of ctx) n m n \<le> uses (eq_of ctx) n m n"
      using uses_mono [of "add_use (eq_of ctx) n m" n "eq_of ctx" l]
        uses_mono [of "uses (eq_of ctx) l (add_use (eq_of ctx) n m)" n "eq_of ctx" r] by (simp add: nd)
    then show ?thesis using add by simp
  qed
  then have lt: "m n < M n" using le n by fastforce
  then have ce: "counted_entry (M n) (m n) e" using cnt n f(1) by (auto simp: counted_def)
  then have pos: "0 < m n" using f(2) by (auto simp: counted_entry_def)
  then have u: "uses (eq_of ctx) n m = add_use (eq_of ctx) n m" by (simp add: nd)
  have "counted ctx S M (add_use (eq_of ctx) n m) (set_entry (eq_of ctx) n (snd (access_entry e)) c)"
  proof (rule counted_set [OF snd cache_keys [OF ok] n cnt f(1)])
    show "M k = M n \<and> m k = m n" if "k \<in> S" "eq_of ctx k n" for k
      using class_const [OF M that(1) n that(2)] class_const [OF m that(1) n that(2)] by simp
    show "counted_entry M' (Suc m') (snd (access_entry e))" if "counted_entry M' m' e" "M' = M n" "m' = m n" for M' m'
      using counted_access [OF that(1)] that pos lt by simp
  qed
  moreover have "m k > 0 \<or> \<not> 0 < add_use (eq_of ctx) n m k" if "k \<in> S" for k
    using class_const [OF m that n] pos by (auto simp: add_use_def)
  ultimately show "counted ctx S M (uses (eq_of ctx) n m) (set_entry (eq_of ctx) n (snd (access_entry e)) c)
      \<and> (\<forall>k\<in>S. times_built ctx [] k = (if m k = 0 \<and> 0 < uses (eq_of ctx) n m k then 1 else 0))"
    unfolding u by (auto simp: times_built_def)
qed


lemma lives_miss:
  assumes snd: "sound_eval ctx lv h0 S" and n: "Node d l r x \<in> S"
    and ok2: "cache_ok ctx lv h0 S h2 c2" and left: "lives_post ctx S l c c1 bl" and right: "lives_post ctx S r c1 c2 br"
    and dead: "\<not> alive (eq_of ctx) c (Node d l r x)"
    and same: "find_entry (eq_of ctx) c2 (Node d l r x) = find_entry (eq_of ctx) c (Node d l r x)"
    and c': "if exists_key (eq_of ctx) c (Node d l r x)
      then \<exists>e b. find_entry (eq_of ctx) c2 (Node d l r x) = Some e \<and> c' = set_entry (eq_of ctx) (Node d l r x) (stored_entry b e) c2
      else c' = c2"
  shows "lives_post ctx S (Node d l r x) c c' (bl @ br @ [Node d l r x])"
  unfolding lives_post_def
proof (intro allI impI)
  let ?n = "Node d l r x" and ?eq = "eq_of ctx"
  fix M m
  assume M: "class_fun ctx S M" and m: "class_fun ctx S m" and cnt: "counted ctx S M m c"
    and le: "\<forall>k\<in>S. uses ?eq ?n m k \<le> M k"
  have lr: "l \<in> S" "r \<in> S" using sound_children [OF snd n] by simp_all
  let ?ml = "uses ?eq l m" and ?mr = "uses ?eq r (uses ?eq l m)"
  have self: "add_use ?eq ?n m ?n = Suc (m ?n)" using sound_refl [OF snd] by (simp add: add_use_def)
  have "add_use ?eq ?n m ?n \<le> uses ?eq ?n m ?n"
    using uses_mono [of "add_use ?eq ?n m" ?n ?eq l] uses_mono [of "uses ?eq l (add_use ?eq ?n m)" ?n ?eq r] by simp
  then have lt: "m ?n < M ?n" using le n self by fastforce
  then obtain e where e: "find_entry ?eq c ?n = Some e" "counted_entry (M ?n) (m ?n) e" using cnt n by (auto simp: counted_def)
  have m0: "m ?n = 0" using e dead lt by (auto simp: counted_entry_def alive_def alive_entry_def)
  have u: "uses ?eq ?n m k = add_use ?eq ?n ?mr k" if "k \<in> S" for k by (rule uses_first [where m = m, OF snd n m0 that])
  have le': "\<forall>k\<in>S. ?mr k \<le> M k"
  proof
    fix k assume k: "k \<in> S"
    show "?mr k \<le> M k" using u [OF k] le k by (auto simp: add_use_def split: if_splits dest!: bspec)
  qed
  then have lel: "\<forall>k\<in>S. ?ml k \<le> M k" using uses_mono [of ?ml _ ?eq r] order_trans by blast
  have cl: "class_fun ctx S ?ml" by (rule class_fun_uses [OF snd lr(1) m])
  have cr: "class_fun ctx S ?mr" by (rule class_fun_uses [OF snd lr(2) cl])
  have l: "counted ctx S M ?ml c1" "\<forall>k\<in>S. times_built ctx bl k = (if m k = 0 \<and> 0 < ?ml k then 1 else 0)"
    using left M m cnt lel unfolding lives_post_def by blast+
  have r: "counted ctx S M ?mr c2" "\<forall>k\<in>S. times_built ctx br k = (if ?ml k = 0 \<and> 0 < ?mr k then 1 else 0)"
    using right M cl l(1) le' unfolding lives_post_def by blast+
  have mr0: "?mr ?n = 0" using uses_larger [OF snd lr(2) n] uses_larger [OF snd lr(1) n] m0 by simp
  obtain b where b: "c' = set_entry ?eq ?n (stored_entry b e) c2" "find_entry ?eq c2 ?n = Some e"
    using c' e(1) same by (auto simp: exists_key_def)
  have "counted ctx S M (add_use ?eq ?n ?mr) c'"
    unfolding b(1)
  proof (rule counted_set [OF snd cache_keys [OF ok2] n r(1) b(2)])
    show "M k = M ?n \<and> ?mr k = 0" if "k \<in> S" "?eq k ?n" for k
      using class_const [OF M that(1) n that(2)] class_const [OF cr that(1) n that(2)] mr0 by simp
    show "counted_entry M' (Suc m') (stored_entry b e)" if "counted_entry M' m' e" "M' = M ?n" "m' = 0" for M' m'
      using counted_store [of M' e b] that lt by simp
  qed
  then have "counted ctx S M (uses ?eq ?n m) c'" by (rule counted_cong) (use u in simp)
  moreover have "times_built ctx (bl @ br @ [?n]) k = (if m k = 0 \<and> 0 < uses ?eq ?n m k then 1 else 0)" if k: "k \<in> S" for k
  proof (cases "?eq k ?n")
    case True
    have "?mr k = 0" using class_const [OF cr k n True] mr0 by simp
    moreover have "m k \<le> ?ml k" "?ml k \<le> ?mr k" by (rule uses_mono)+
    ultimately show ?thesis
      using l(2) r(2) k True u [OF k] by (simp add: times_built_def add_use_def)
  next
    case False
    have "m k \<le> ?ml k" "?ml k \<le> ?mr k" by (rule uses_mono)+
    then show ?thesis
      using l(2) r(2) k False u [OF k] by (auto simp: times_built_def add_use_def)
  qed
  ultimately show "counted ctx S M (uses ?eq ?n m) c'
      \<and> (\<forall>k\<in>S. times_built ctx (bl @ br @ [?n]) k = (if m k = 0 \<and> 0 < uses ?eq ?n m k then 1 else 0))"
    by blast
qed

section \<open>The tree\<close>

definition eval_result :: "('i, 'e, 'g, 'an, 'v) eval_ctx \<Rightarrow> (('i, 'e, 'g) eval_node \<Rightarrow> 'v) \<Rightarrow> 'v list
    \<Rightarrow> ('i, 'e, 'g) eval_node set \<Rightarrow> bool \<Rightarrow> ('i, 'e, 'g) eval_node \<Rightarrow> 'v \<Rightarrow> ('i, 'e, 'g, 'v) estate
    \<Rightarrow> ('i, 'e, 'g) eval_node cache_manager \<Rightarrow> bool" where
  "eval_result ctx lv h0 S chk n v st c \<longleftrightarrow>
     (\<exists>p h' c' bs. eval_rec ctx chk n st = Inr (p, st\<lparr>heap := h', scopes := [c'], builds := builds st @ bs\<rparr>)
        \<and> eval_post ctx lv h0 S n v (heap st) c p h' c'
        \<and> (chk \<longrightarrow> unary_sentinels n \<longrightarrow> lives_post ctx S n c c' bs))"

lemma eval_leaf:
  assumes snd: "sound_eval ctx lv h0 S" and n: "Leaf d k \<in> S" and v: "denote ctx lv (Leaf d k) = Inr v"
    and ok: "cache_ok ctx lv h0 S (heap st) c" and sc: "scopes st = [c]"
  shows "eval_result ctx lv h0 S chk (Leaf d k) v st c"
proof -
  let ?n = "Leaf d k"
  have nf: "find_entry (eq_of ctx) c ?n = None"
  proof (rule ccontr)
    assume "\<not> ?thesis"
    then obtain e where "find_entry (eq_of ctx) c ?n = Some e" by blast
    then obtain k' where k': "(k', e) \<in> set (cache_map c)" "eq_of ctx k' ?n" using find_entry_mem by metis
    then show False using cache_entry(2) [OF ok k'(1)] eq_leaf [OF k'(2)] by simp
  qed
  obtain ext where ext: "heap st = h0 @ ext" using ok by (auto simp: cache_ok_def)
  obtain a h' where lf: "leaf_evaluator ctx ?n (heap st) = (a, h')" by (metis surj_pair)
  have src: "(\<exists>new. h' = h0 @ ext @ new) \<and> a < length h' \<and> h' ! a = lv ?n \<and> (a < length h0 \<or> length h0 + length ext \<le> a)"
    using sound_leaf [OF snd n] lf ext by (auto simp: leaf_source_def dest!: spec [of _ ext])
  then obtain new where new: "h' = heap st @ new" using ext by auto
  have pr: "probe ctx chk ?n st = Inr ((None, False), st)"
    using probe_miss [OF sc, of chk ctx ?n] nf by (simp add: alive_def exists_key_def)
  have ev: "eval_rec ctx chk ?n st = Inr (a, st\<lparr>heap := h', scopes := [c], builds := builds st @ []\<rparr>)"
    using pr lf sc sound_context(2) [OF snd]
    by (simp add: fetch_leaf_def finish_phase_b_def slice_to_use_def)
  have "holders c a = {}"
  proof -
    have "length h0 \<le> b \<and> b < length (heap st)" if "holders c b \<noteq> {}" for b
      using that holder_entry(3,4) [OF ok] by blast
    then show ?thesis using src ext by (metis add.commute le_trans length_append not_le)
  qed
  then have "eval_post ctx lv h0 S ?n v (heap st) c a h' c"
    using cache_ok_extend [OF ok, of new] src v new by (simp add: eval_post_def nth_append)
  then show ?thesis
    unfolding eval_result_def using ev lives_leaf [of ?n ctx S c] by (metis leaf.simps(1))
qed


text \<open>The left operand is the pending buffer while the right one is evaluated; this is what protects it.\<close>

lemma pending_left_kept:
  assumes snd: "sound_eval ctx lv h0 S" and S: "l \<in> S" "\<forall>m\<in>set (inplace_lefts r). m \<in> S"
    and safe: "leaf l \<or> list_all (\<lambda>m. \<not> eq_of ctx l m) (inplace_lefts r)"
    and l: "eval_post ctx lv h0 S l x h c a h1 c1" and r: "eval_post ctx lv h0 S r y h1 c1 b h2 c2"
  shows "h2 ! a = x"
proof -
  have ok: "cache_ok ctx lv h0 S h1 c1" and a: "a < length h1" "h1 ! a = x" and near: "\<forall>k\<in>holders c1 a. eq_of ctx k l"
    using l unfolding eval_post_def by blast+
  have "\<not> eq_of ctx k m" if k: "k \<in> holders c1 a" and m: "m \<in> set (inplace_lefts r)" for k m
  proof
    assume km: "eq_of ctx k m"
    have kS: "k \<in> S" "\<not> leaf k" using holder_entry [OF ok k] by simp_all
    have kl: "eq_of ctx k l" using near k by blast
    have "\<not> leaf l" using eq_leaf [OF kl] kS(2) by simp
    then have "\<not> eq_of ctx l m" using safe m by (simp add: list_all_iff)
    moreover have "eq_of ctx l m"
      by (rule sound_trans [OF snd S(1) kS(1) _ sound_sym [OF snd kS(1) S(1) kl] km]) (use S(2) m in blast)
    ultimately show False by blast
  qed
  then have "h2 ! a = h1 ! a" using r a(1) unfolding eval_post_def by blast
  then show ?thesis using a(2) by simp
qed

lemma inplace_lefts_closed:
  assumes snd: "sound_eval ctx lv h0 S"
  shows "n \<in> S \<Longrightarrow> \<forall>m\<in>set (inplace_lefts n). m \<in> S"
proof (induction n)
  case (Node d l r k)
  have "l \<in> S" "r \<in> S" using sound_children [OF snd Node.prems(1)] by simp_all
  then show ?case using Node.IH by auto
qed simp

lemma operands_unary:
  assumes l: "eval_post ctx lv h0 S l x h c a h1 c1"
  shows "operands_post ctx S (Node d l r k) (marked_sum d l) h c a h1 c1"
  unfolding operands_post_def
proof (intro conjI)
  note lp = l [unfolded eval_post_def]
  show "length h \<le> length h1" using lp by blast
  have sub: "set (inplace_lefts l) \<subseteq> set (inplace_lefts (Node d l r k))" by auto
  show "\<forall>i<length h. (\<forall>k'\<in>holders c i. \<forall>m\<in>set (inplace_lefts (Node d l r k)). \<not> eq_of ctx k' m) \<longrightarrow>
      h1 ! i = h ! i \<and> holders c1 i \<subseteq> holders c i"
    using lp sub by blast
  show "marked_sum d l \<longrightarrow> a < length h \<longrightarrow>
      (\<exists>k'\<in>holders c a. \<exists>m\<in>set (inplace_lefts (Node d l r k)). eq_of ctx k' m)"
  proof (intro impI)
    assume m: "marked_sum d l" "a < length h"
    then have "l \<in> set (inplace_lefts (Node d l r k))" "\<not> leaf l" by (auto simp: marked_sum_def)
    then show "\<exists>k'\<in>holders c a. \<exists>m\<in>set (inplace_lefts (Node d l r k)). eq_of ctx k' m"
      using lp m(2) sub by blast
  qed
  show "\<forall>m\<in>S. size (Node d l r k) \<le> size m \<longrightarrow> find_entry (eq_of ctx) c1 m = find_entry (eq_of ctx) c m"
    using lp by auto
qed

lemma operands_binary:
  assumes bin: "binary_node d"
    and l: "eval_post ctx lv h0 S l x h c a h1 c1" and r: "eval_post ctx lv h0 S r y h1 c1 b h2 c2"
  shows "operands_post ctx S (Node d l r k) (marked_sum d l) h c a h2 c2"
  unfolding operands_post_def
proof (intro conjI)
  note ol = operands_unary [OF l, of d r k, unfolded operands_post_def]
  note rp = r [unfolded eval_post_def]
  show "length h \<le> length h2" using ol rp by linarith
  have sub: "set (inplace_lefts r) \<subseteq> set (inplace_lefts (Node d l r k))" using bin by auto
  show "\<forall>i<length h. (\<forall>k'\<in>holders c i. \<forall>m\<in>set (inplace_lefts (Node d l r k)). \<not> eq_of ctx k' m) \<longrightarrow>
      h2 ! i = h ! i \<and> holders c2 i \<subseteq> holders c i"
  proof (intro allI impI)
    fix i assume i: "i < length h" and un: "\<forall>k'\<in>holders c i. \<forall>m\<in>set (inplace_lefts (Node d l r k)). \<not> eq_of ctx k' m"
    have a: "h1 ! i = h ! i" "holders c1 i \<subseteq> holders c i" using ol i un by blast+
    have "i < length h1" using ol i by linarith
    moreover have "\<forall>k'\<in>holders c1 i. \<forall>m\<in>set (inplace_lefts r). \<not> eq_of ctx k' m" using a(2) un sub by blast
    ultimately have "h2 ! i = h1 ! i" "holders c2 i \<subseteq> holders c1 i" using rp by blast+
    then show "h2 ! i = h ! i \<and> holders c2 i \<subseteq> holders c i" using a by auto
  qed
  show "marked_sum d l \<longrightarrow> a < length h \<longrightarrow>
      (\<exists>k'\<in>holders c a. \<exists>m\<in>set (inplace_lefts (Node d l r k)). eq_of ctx k' m)"
    using ol by blast
  show "\<forall>m\<in>S. size (Node d l r k) \<le> size m \<longrightarrow> find_entry (eq_of ctx) c2 m = find_entry (eq_of ctx) c m"
  proof (intro ballI impI)
    fix m assume m: "m \<in> S" "size (Node d l r k) \<le> size m"
    then have "size r < size m" by simp
    then have "find_entry (eq_of ctx) c2 m = find_entry (eq_of ctx) c1 m" using rp m(1) by blast
    then show "find_entry (eq_of ctx) c2 m = find_entry (eq_of ctx) c m" using ol m by auto
  qed
qed


lemma eval_hit:
  assumes snd: "sound_eval ctx lv h0 S" and ok: "cache_ok ctx lv h0 S (heap st) c" and n: "n \<in> S" and sc: "scopes st = [c]"
    and al: "alive (eq_of ctx) c n" and v: "denote ctx lv n = Inr v"
  shows "eval_result ctx lv h0 S True n v st c"
proof -
  obtain e a where e: "find_entry (eq_of ctx) c n = Some e" "data_p e = Some a"
    using al by (auto simp: alive_def alive_entry_def split: option.splits)
  obtain p h' c' where p: "probe ctx True n st = Inr ((Some p, False), st\<lparr>heap := h', scopes := [c']\<rparr>)"
    "eval_post ctx lv h0 S n v (heap st) c p h' c'" "c' = set_entry (eq_of ctx) n (snd (access_entry e)) c"
    using probe_hit [OF snd ok n sc e v] by blast
  have "eval_rec ctx True n st = Inr (p, st\<lparr>heap := h', scopes := [c'], builds := builds st @ []\<rparr>)"
    using p(1) by (cases n) simp_all
  moreover have "lives_post ctx S n c c' []" using lives_hit [OF snd ok n e] p(3) by simp
  ultimately show ?thesis unfolding eval_result_def using p(2) by blast
qed

text \<open>The end of a missed node: combine, store, and put the parts together.\<close>

lemma eval_finish:
  assumes snd: "sound_eval ctx lv h0 S" and n: "Node d l r k \<in> S" and v: "denote ctx lv (Node d l r k) = Inr v"
    and dead: "\<not> chk \<or> \<not> alive (eq_of ctx) c (Node d l r k)"
    and ops: "operands_post ctx S (Node d l r k) (marked_sum d l) h c a h2 c2"
    and left: "unary_sentinels l \<Longrightarrow> lives_post ctx S l c c1 bl" and right: "unary_sentinels r \<Longrightarrow> binary_node d \<or> leaf r \<Longrightarrow> lives_post ctx S r c1 c2 br"
    and ok2: "cache_ok ctx lv h0 S h2 c2"
    and comb: "combine_post ctx lv h0 S v (marked_sum d l) a h2 c2 p h3"
    and st: "st' = st\<lparr>heap := h3, scopes := [c2], builds := builds st @ bl @ br\<rparr>"
  shows "\<exists>q h' c' bs. finish_phase_b ctx (Node d l r k) (chk \<and> exists_key (eq_of ctx) c (Node d l r k)) p st'
        = Inr (q, st\<lparr>heap := h', scopes := [c'], builds := builds st @ bs\<rparr>)
    \<and> eval_post ctx lv h0 S (Node d l r k) v h c q h' c'
    \<and> (chk \<longrightarrow> unary_sentinels (Node d l r k) \<longrightarrow> lives_post ctx S (Node d l r k) c c' bs)"
proof -
  let ?n = "Node d l r k" and ?store = "chk \<and> exists_key (eq_of ctx) c (Node d l r k)"
  have nl: "\<not> leaf ?n" by simp
  have miss: "?store \<Longrightarrow> exists_key (eq_of ctx) c ?n \<and> \<not> alive (eq_of ctx) c ?n" using dead by blast
  have comb': "combine_post ctx lv h0 S v (marked_sum d l) a h2 c2 p (heap st')" using comb st by simp
  have sc: "scopes st' = [c2]" using st by simp
  obtain q h' c' where q: "finish_phase_b ctx ?n ?store p st' = Inr (q, st'\<lparr>heap := h', scopes := [c'], builds := builds st' @ [?n]\<rparr>)"
    and post: "eval_post ctx lv h0 S ?n v h c q h' c'"
    and c': "if ?store then \<exists>e b. find_entry (eq_of ctx) c2 ?n = Some e \<and> c' = set_entry (eq_of ctx) ?n (stored_entry b e) c2
       else c' = c2"
    using finish_node [OF snd n nl v miss ops comb' sc] by blast
  have same: "find_entry (eq_of ctx) c2 ?n = find_entry (eq_of ctx) c ?n" using ops n unfolding operands_post_def by blast
  have "lives_post ctx S ?n c c' (bl @ br @ [?n])" if "chk" "unary_sentinels ?n"
  proof (rule lives_miss [OF snd n ok2 left right _ same])
    show "unary_sentinels l" "unary_sentinels r" "binary_node d \<or> leaf r" using that(2) by simp_all
    show "\<not> alive (eq_of ctx) c ?n" using dead that(1) by blast
    show "if exists_key (eq_of ctx) c ?n
      then \<exists>e b. find_entry (eq_of ctx) c2 ?n = Some e \<and> c' = set_entry (eq_of ctx) ?n (stored_entry b e) c2
      else c' = c2" using c' that(1) by simp
  qed
  moreover have "finish_phase_b ctx ?n ?store p st' = Inr (q, st\<lparr>heap := h', scopes := [c'], builds := builds st @ (bl @ br @ [?n])\<rparr>)"
    using q st by simp
  ultimately show ?thesis using post by blast
qed

lemma eval_rec_correct:
  assumes snd: "sound_eval ctx lv h0 S"
  shows "n \<in> S \<Longrightarrow> no_pending_alias ctx n \<Longrightarrow> denote ctx lv n = Inr v \<Longrightarrow> cache_ok ctx lv h0 S (heap st) c
    \<Longrightarrow> scopes st = [c] \<Longrightarrow> eval_result ctx lv h0 S chk n v st c"
proof (induction n arbitrary: v st c chk)
  case (Leaf d k)
  show ?case by (rule eval_leaf [OF snd Leaf.prems(1,3,4,5)])
next
  case (Node d l r k)
  let ?n = "Node d l r k"
  have lr: "l \<in> S" "r \<in> S" using sound_children [OF snd Node.prems(1)] by simp_all
  show ?case
  proof (cases "chk \<and> alive (eq_of ctx) c ?n")
    case True
    then show ?thesis using eval_hit [OF snd Node.prems(4,1,5) _ Node.prems(3)] by simp
  next
    case False
    let ?store = "chk \<and> exists_key (eq_of ctx) c ?n"
    have dead: "\<not> chk \<or> \<not> alive (eq_of ctx) c ?n" using False by blast
    have pr: "probe ctx chk ?n st = Inr ((None, ?store), st)" by (rule probe_miss [OF Node.prems(5) dead])
    obtain op x where op: "op_type d = Some op" and x: "denote ctx lv l = Inr x"
      and un: "is_unary op \<Longrightarrow> apply_one_op ctx ?n x None = Inr v"
      and bin: "\<And>y. \<not> is_unary op \<Longrightarrow> denote ctx lv r = Inr y \<Longrightarrow> apply_one_op ctx ?n x (Some y) = Inr v"
      and ry: "\<not> is_unary op \<Longrightarrow> \<exists>y. denote ctx lv r = Inr y"
      using denote_node [OF Node.prems(3)] by metis
    have alias_l: "no_pending_alias ctx l" using Node.prems(2) by simp
    obtain a h1 c1 bl where a: "eval_rec ctx True l st = Inr (a, st\<lparr>heap := h1, scopes := [c1], builds := builds st @ bl\<rparr>)"
      and pl: "eval_post ctx lv h0 S l x (heap st) c a h1 c1"
      and ll: "unary_sentinels l \<longrightarrow> lives_post ctx S l c c1 bl"
      using Node.IH(1) [OF lr(1) alias_l x Node.prems(4,5), of True] unfolding eval_result_def by blast
    let ?st1 = "st\<lparr>heap := h1, scopes := [c1], builds := builds st @ bl\<rparr>"
    have ok1: "cache_ok ctx lv h0 S h1 c1" and a1: "a < length h1" "h1 ! a = x"
      using pl unfolding eval_post_def by blast+
    show ?thesis
    proof (cases "is_unary op")
      case True
      have "apply_one_op ctx ?n (heap ?st1 ! a) None = Inr v" using un [OF True] a1 by (simp del: apply_one_op.simps)
      then obtain p h3 where p: "combine_unary ctx ?n a ?st1 = Inr (p, ?st1\<lparr>heap := h3\<rparr>)"
        and cp: "combine_post ctx lv h0 S v (marked_sum d l) a h1 c1 p h3"
        using combine_unary_correct [OF snd _ Node.prems(1), of ?st1 c1 a v] ok1 by auto
      have nb: "\<not> binary_node d" using True op by (simp add: binary_node_def)
      obtain q h' c' bs where q: "finish_phase_b ctx ?n ?store p (?st1\<lparr>heap := h3\<rparr>)
          = Inr (q, st\<lparr>heap := h', scopes := [c'], builds := builds st @ bs\<rparr>)"
        and post: "eval_post ctx lv h0 S ?n v (heap st) c q h' c'"
        and lives: "chk \<longrightarrow> unary_sentinels ?n \<longrightarrow> lives_post ctx S ?n c c' bs"
        using eval_finish [where bl = bl and br = "[]" and st = st and ?c1.0 = c1 and st' = "?st1\<lparr>heap := h3\<rparr>",
            OF snd Node.prems(1,3) dead operands_unary [OF pl] _ _ ok1 cp]
          ll nb lives_leaf [of r ctx S c1] by auto
      have "eval_rec ctx chk ?n st = Inr (q, st\<lparr>heap := h', scopes := [c'], builds := builds st @ bs\<rparr>)"
        using pr op True a p q sound_context(1) [OF snd] by (simp add: try_custom_eval_def)
      then show ?thesis unfolding eval_result_def using post lives by blast
    next
      case False
      have b: "binary_node d" using False op by (simp add: binary_node_def)
      obtain y where y: "denote ctx lv r = Inr y" using ry [OF False] by blast
      have alias_r: "no_pending_alias ctx r" "leaf l \<or> list_all (\<lambda>m. \<not> eq_of ctx l m) (inplace_lefts r)"
        using Node.prems(2) b by simp_all
      obtain b' h2 c2 br where r: "eval_rec ctx True r ?st1 = Inr (b', ?st1\<lparr>heap := h2, scopes := [c2], builds := (builds st @ bl) @ br\<rparr>)"
        and pr2: "eval_post ctx lv h0 S r y h1 c1 b' h2 c2"
        and lr2: "unary_sentinels r \<longrightarrow> lives_post ctx S r c1 c2 br"
        using Node.IH(2) [OF lr(2) alias_r(1) y, of ?st1 c1 True] ok1 unfolding eval_result_def by auto
      let ?st2 = "?st1\<lparr>heap := h2, scopes := [c2], builds := (builds st @ bl) @ br\<rparr>"
      have ok2: "cache_ok ctx lv h0 S h2 c2" and b2: "b' < length h2" "h2 ! b' = y" and len: "length h1 \<le> length h2"
        using pr2 unfolding eval_post_def by blast+
      have kept: "h2 ! a = x"
        by (rule pending_left_kept [OF snd lr(1) inplace_lefts_closed [OF snd lr(2)] alias_r(2) pl pr2])
      have a2: "a < length (heap ?st2)" "leaf l \<or> length h0 \<le> a" using a1 len pl unfolding eval_post_def by auto
      have "apply_one_op ctx ?n (heap ?st2 ! a) (Some (heap ?st2 ! b')) = Inr v"
        using bin [OF False y] kept b2 by (simp del: apply_one_op.simps)
      then obtain p h3 where p: "combine_binary ctx ?n a b' ?st2 = Inr (p, ?st2\<lparr>heap := h3\<rparr>)"
        and cp: "combine_post ctx lv h0 S v (marked_sum d l) a h2 c2 p h3"
        using combine_binary_correct [OF snd _ Node.prems(1) _ a2, of c2 b' v] ok2 b2(1) by auto
      obtain q h' c' bs where q: "finish_phase_b ctx ?n ?store p (?st2\<lparr>heap := h3\<rparr>)
          = Inr (q, st\<lparr>heap := h', scopes := [c'], builds := builds st @ bs\<rparr>)"
        and post: "eval_post ctx lv h0 S ?n v (heap st) c q h' c'"
        and lives: "chk \<longrightarrow> unary_sentinels ?n \<longrightarrow> lives_post ctx S ?n c c' bs"
        using eval_finish [where bl = bl and br = br and st = st and ?c1.0 = c1 and st' = "?st2\<lparr>heap := h3\<rparr>",
            OF snd Node.prems(1,3) dead operands_binary [OF b pl pr2] _ _ ok2 cp]
          ll lr2 by auto
      have "eval_rec ctx chk ?n st = Inr (q, st\<lparr>heap := h', scopes := [c'], builds := builds st @ bs\<rparr>)"
        using pr op False a r p q sound_context(1) [OF snd] by (simp add: try_custom_eval_def)
      then show ?thesis unfolding eval_result_def using post lives by blast
    qed
  qed
qed

end
