(* ===== verification/ForestEvaluation.thy ===== *)
theory ForestEvaluation
  imports CachedEvaluation
begin

text \<open>
  The cache built for a forest and the evaluation of the forest against it: the counts of the builder are the
  numbers of visits, so every value is built once and every entry is drained at the end.
\<close>

section \<open>The builder counts the visits\<close>

definition counts_visits :: "('i, 'e, 'g, 'an, 'v) eval_ctx \<Rightarrow> ('i, 'e, 'g) eval_node set
    \<Rightarrow> (('i, 'e, 'g) eval_node \<times> nat) list \<Rightarrow> (('i, 'e, 'g) eval_node \<Rightarrow> nat) \<Rightarrow> bool" where
  "counts_visits ctx S cs m \<longleftrightarrow>
     class_fun ctx S m
     \<and> (\<forall>(k, n)\<in>set cs. k \<in> S \<and> \<not> leaf k \<and> 0 < n)
     \<and> (\<forall>k\<in>S. count_of (eq_of ctx) cs k = (if m k = 0 then None else Some (m k)))"

lemma count_of_simps [simp]:
  "count_of eq [] k = None"
  "count_of eq ((k', n) # cs) k = (if eq k' k then Some n else count_of eq cs k)"
  by (simp_all add: count_of_def)

lemma count_of_append:
  "count_of eq (cs @ [(k', n)]) k = (case count_of eq cs k of None \<Rightarrow> if eq k' k then Some n else None | Some x \<Rightarrow> Some x)"
  by (induction cs) auto

lemma count_of_bump:
  assumes "\<And>k' n. (k', n) \<in> set cs \<Longrightarrow> eq k' k \<longleftrightarrow> eq k' q"
  shows "count_of eq (bump_count eq k cs) q = map_option Suc (count_of eq cs q)"
  using assms
proof (induction cs)
  case (Cons a cs)
  obtain k' n where a: "a = (k', n)" by (cases a)
  have "eq k' k \<longleftrightarrow> eq k' q" using Cons.prems [of k' n] a by simp
  moreover have "count_of eq (bump_count eq k cs) q = map_option Suc (count_of eq cs q)"
    by (rule Cons.IH) (use Cons.prems in auto)
  ultimately show ?case using a by simp
qed simp

lemma count_of_bump_other:
  assumes "\<And>k' n. (k', n) \<in> set cs \<Longrightarrow> \<not> (eq k' k \<and> eq k' q)"
  shows "count_of eq (bump_count eq k cs) q = count_of eq cs q"
  using assms
proof (induction cs)
  case (Cons a cs)
  obtain k' n where a: "a = (k', n)" by (cases a)
  have "\<not> (eq k' k \<and> eq k' q)" using Cons.prems [of k' n] a by simp
  moreover have "count_of eq (bump_count eq k cs) q = count_of eq cs q"
    by (rule Cons.IH) (use Cons.prems in auto)
  ultimately show ?case using a by auto
qed simp

lemma bump_keys: "map fst (bump_count eq k cs) = map fst cs"
  by (induction eq k cs rule: bump_count.induct) auto

lemma bump_pos: "\<forall>(k, n)\<in>set cs. 0 < n \<Longrightarrow> \<forall>(k, n)\<in>set (bump_count eq q cs). 0 < n"
  by (induction eq q cs rule: bump_count.induct) auto

lemma visitor_counts:
  assumes snd: "sound_eval ctx lv h0 S" and n: "n \<in> S" "\<not> leaf n" and cv: "counts_visits ctx S cs m"
  shows "fst (imed_visitor (eq_of ctx) n o' cs) \<longleftrightarrow> m n = 0"
    "counts_visits ctx S (snd (imed_visitor (eq_of ctx) n o' cs)) (add_use (eq_of ctx) n m)"
proof -
  let ?eq = "eq_of ctx"
  have cl: "class_fun ctx S m" and keys: "\<And>k x. (k, x) \<in> set cs \<Longrightarrow> k \<in> S \<and> \<not> leaf k \<and> 0 < x"
    and cnt: "\<And>k. k \<in> S \<Longrightarrow> count_of ?eq cs k = (if m k = 0 then None else Some (m k))"
    using cv unfolding counts_visits_def by blast+
  show "fst (imed_visitor ?eq n o' cs) \<longleftrightarrow> m n = 0" using cnt [OF n(1)] by (simp add: imed_visitor_def)
  have same: "?eq k' n \<longleftrightarrow> ?eq k' q" if "k' \<in> S" "q \<in> S" "?eq q n" for k' q
    using sound_trans [OF snd that(1,2) n(1) _ that(3)]
      sound_trans [OF snd that(1) n(1) that(2) _ sound_sym [OF snd that(2) n(1) that(3)]] by blast
  have diff: "\<not> (?eq k' n \<and> ?eq k' q)" if "k' \<in> S" "q \<in> S" "\<not> ?eq q n" for k' q
    using sound_trans [OF snd that(2,1) n(1)] sound_sym [OF snd that(1,2)] that(3) by blast
  have keys': "(k, x) \<in> set (bump_count ?eq n cs) \<Longrightarrow> k \<in> S \<and> \<not> leaf k" for k x
  proof -
    assume "(k, x) \<in> set (bump_count ?eq n cs)"
    then have "k \<in> set (map fst (bump_count ?eq n cs))" by force
    then have "k \<in> set (map fst cs)" by (simp only: bump_keys)
    then show "k \<in> S \<and> \<not> leaf k" using keys by auto
  qed
  have step: "count_of ?eq (snd (imed_visitor ?eq n o' cs)) q
      = (if add_use ?eq n m q = 0 then None else Some (add_use ?eq n m q))" if q: "q \<in> S" for q
  proof (cases "m n = 0")
    case True
    then have v: "snd (imed_visitor ?eq n o' cs) = cs @ [(n, 1)]" using cnt [OF n(1)] by (simp add: imed_visitor_def)
    show ?thesis
    proof (cases "?eq q n")
      case True
      then have "m q = 0" "?eq n q" using \<open>m n = 0\<close> class_const [OF cl q n(1)] sound_sym [OF snd q n(1)] by simp_all
      then show ?thesis using True cnt [OF q] by (simp add: v count_of_append add_use_def)
    next
      case False
      then have "\<not> ?eq n q" using sound_sym [OF snd n(1) q] by blast
      then show ?thesis using False cnt [OF q] by (simp add: v count_of_append add_use_def)
    qed
  next
    case False
    then have v: "snd (imed_visitor ?eq n o' cs) = bump_count ?eq n cs" using cnt [OF n(1)] by (simp add: imed_visitor_def)
    show ?thesis
    proof (cases "?eq q n")
      case True
      have "count_of ?eq (bump_count ?eq n cs) q = map_option Suc (count_of ?eq cs q)"
        by (rule count_of_bump) (use keys same [OF _ q True] in blast)
      moreover have "m q \<noteq> 0" using False class_const [OF cl q n(1) True] by simp
      ultimately show ?thesis using True cnt [OF q] by (simp add: v add_use_def)
    next
      case neq: False
      have "count_of ?eq (bump_count ?eq n cs) q = count_of ?eq cs q"
        by (rule count_of_bump_other) (use keys diff [OF _ q neq] in blast)
      then show ?thesis using neq cnt [OF q] by (simp add: v add_use_def)
    qed
  qed
  have "\<forall>(k, x)\<in>set (bump_count ?eq n cs). 0 < x" by (rule bump_pos) (use keys in blast)
  then have "\<forall>(k, x)\<in>set (snd (imed_visitor ?eq n o' cs)). k \<in> S \<and> \<not> leaf k \<and> 0 < x"
    using keys keys' n by (auto simp: imed_visitor_def split: option.splits)
  then show "counts_visits ctx S (snd (imed_visitor ?eq n o' cs)) (add_use ?eq n m)"
    unfolding counts_visits_def using step class_fun_add [OF snd n(1) cl] by blast
qed

lemma preorder_bits: "PreOrder AND PreOrder = PreOrder" "PreOrder AND InOrder \<noteq> InOrder" "PreOrder AND PostOrder \<noteq> PostOrder"
  "PreOrder \<noteq> NoOrder" "\<not> AnyOrder < PreOrder"
  by (simp_all add: PreOrder_def InOrder_def PostOrder_def NoOrder_def AnyOrder_def)

lemma tree_counts:
  assumes snd: "sound_eval ctx lv h0 S"
  shows "t \<in> S \<Longrightarrow> counts_visits ctx S cs m \<Longrightarrow>
    counts_visits ctx S (visit_rec PreOrder VisitInternal (imed_visitor (eq_of ctx)) t cs) (uses (eq_of ctx) t m)"
proof (induction t arbitrary: cs m)
  case (Leaf d k)
  then show ?case by (simp add: call_if_def)
next
  case (Node d l r k)
  have lr: "l \<in> S" "r \<in> S" using sound_children [OF snd Node.prems(1)] by simp_all
  note v = visitor_counts [OF snd Node.prems(1) _ Node.prems(2), of PreOrder]
  show ?case
    using v Node.IH(2) [OF lr(2) Node.IH(1) [OF lr(1)]]
    by (auto simp: call_if_def preorder_bits split: prod.splits)
qed

definition uses_forest :: "('a node \<Rightarrow> 'a node \<Rightarrow> bool) \<Rightarrow> 'a node list \<Rightarrow> ('a node \<Rightarrow> nat) \<Rightarrow> 'a node \<Rightarrow> nat" where
  "uses_forest eq ts m = fold (uses eq) ts m"

lemma uses_forest_simps [simp]:
  "uses_forest eq [] m = m"
  "uses_forest eq (t # ts) m = uses_forest eq ts (uses eq t m)"
  by (simp_all add: uses_forest_def)

lemma forest_counts:
  assumes snd: "sound_eval ctx lv h0 S"
  shows "set ts \<subseteq> S \<Longrightarrow> counts_visits ctx S cs m \<Longrightarrow>
    \<exists>cs'. count_uses (eq_of ctx) ts cs = Some (Inr cs') \<and> counts_visits ctx S cs' (uses_forest (eq_of ctx) ts m)"
proof (induction ts arbitrary: cs m)
  case (Cons t ts)
  have "visit PreOrder VisitInternal (imed_visitor (eq_of ctx)) t [] cs
      = Some (Inr (visit_rec PreOrder VisitInternal (imed_visitor (eq_of ctx)) t cs))"
    by (simp add: visit_is_rec preorder_bits)
  then show ?case
    using Cons.IH [OF _ tree_counts [OF snd _ Cons.prems(2)]] Cons.prems(1) by simp
qed simp


section \<open>The initial cache\<close>

lemma find_try_emplace_entry:
  assumes snd: "sound_eval ctx lv h0 S" and keys: "\<And>k e. (k, e) \<in> set (cache_map c) \<Longrightarrow> k \<in> S" and k: "k \<in> S" and q: "q \<in> S"
  shows "find_entry (eq_of ctx) (try_emplace_entry (eq_of ctx) k e c) q
    = (case find_entry (eq_of ctx) c q of None \<Rightarrow> if eq_of ctx k q then Some e else None | Some x \<Rightarrow> Some x)"
proof (cases "find_entry (eq_of ctx) c k")
  case None
  then show ?thesis
    by (auto simp: try_emplace_entry_def find_entry_append find_in_append split: option.splits)
next
  case (Some x)
  have "find_entry (eq_of ctx) c q \<noteq> None" if "eq_of ctx k q"
    using find_entry_cong [OF snd keys k q that] Some by simp
  then show ?thesis using Some by (auto simp: try_emplace_entry_def split: option.splits)
qed

lemma mk_cache_find:
  assumes snd: "sound_eval ctx lv h0 S" and ds: "\<forall>(k, n)\<in>set ds. k \<in> S \<and> \<not> leaf k"
  shows "(\<forall>(k, e)\<in>set (cache_map (mk_cache (eq_of ctx) strict ds pers)). k \<in> S \<and> \<not> leaf k \<and> (\<exists>n. e = new_entry n (pers k)))
    \<and> (\<forall>q\<in>S. find_entry (eq_of ctx) (mk_cache (eq_of ctx) strict ds pers) q
        = map_option (\<lambda>(k, n). new_entry n (pers k)) (List.find (\<lambda>(k, n). eq_of ctx k q) ds))"
  using ds
proof (induction ds rule: rev_induct)
  case Nil
  then show ?case by (simp add: mk_cache_def empty_cache_def find_entry_def)
next
  case (snoc d ds)
  obtain k n where d: "d = (k, n)" by (cases d)
  let ?c = "mk_cache (eq_of ctx) strict ds pers"
  have new: "mk_cache (eq_of ctx) strict (ds @ [d]) pers = try_emplace_entry (eq_of ctx) k (new_entry n (pers k)) ?c"
    by (simp add: mk_cache_def d)
  have k: "k \<in> S" "\<not> leaf k" using snoc.prems d by simp_all
  have IH: "\<forall>(k, e)\<in>set (cache_map ?c). k \<in> S \<and> \<not> leaf k \<and> (\<exists>n. e = new_entry n (pers k))"
    "\<forall>q\<in>S. find_entry (eq_of ctx) ?c q = map_option (\<lambda>(k, n). new_entry n (pers k)) (List.find (\<lambda>(k, n). eq_of ctx k q) ds)"
    using snoc.IH snoc.prems by simp_all
  have keys: "(k, e) \<in> set (cache_map ?c) \<Longrightarrow> k \<in> S" for k e using IH(1) by blast
  have "\<forall>(k, e)\<in>set (cache_map (try_emplace_entry (eq_of ctx) k (new_entry n (pers k)) ?c)).
      k \<in> S \<and> \<not> leaf k \<and> (\<exists>n. e = new_entry n (pers k))"
    using IH(1) k by (auto simp: try_emplace_entry_def)
  moreover have "find_entry (eq_of ctx) (try_emplace_entry (eq_of ctx) k (new_entry n (pers k)) ?c) q
      = map_option (\<lambda>(k, n). new_entry n (pers k)) (List.find (\<lambda>(k, n). eq_of ctx k q) (ds @ [d]))" if q: "q \<in> S" for q
    using find_try_emplace_entry [OF snd keys k(1) q] IH(2) q by (auto simp: find_in_append d split: option.splits)
  ultimately show ?case unfolding new by blast
qed

lemma cache_ok_initial:
  assumes snd: "sound_eval ctx lv h0 S" and ds: "\<forall>(k, n)\<in>set ds. k \<in> S \<and> \<not> leaf k"
  shows "cache_ok ctx lv h0 S h0 (mk_cache (eq_of ctx) strict ds pers)"
proof -
  let ?c = "mk_cache (eq_of ctx) strict ds pers"
  have e: "k \<in> S \<and> \<not> leaf k \<and> (\<exists>n. e = new_entry n (pers k))" if "(k, e) \<in> set (cache_map ?c)" for k e
    using mk_cache_find [OF snd ds, of strict pers, THEN conjunct1] that by blast
  have "entry_ok ctx lv h0 h0 k e" if "(k, e) \<in> set (cache_map ?c)" for k e
    using e [OF that] by (auto simp: entry_ok_def new_entry_def)
  moreover have "holders ?c a = {}" for a using e by (fastforce simp: holders_def new_entry_def)
  ultimately show ?thesis using e by (auto simp: cache_ok_def)
qed

lemma find_map_counts:
  "List.find (\<lambda>(k, n). eq k q) (map (\<lambda>(k, n). (k, f n)) cs) = map_option (\<lambda>(k, n). (k, f n)) (List.find (\<lambda>(k, n). eq k q) cs)"
  by (induction cs) auto

lemma counted_initial:
  assumes snd: "sound_eval ctx lv h0 S" and cv: "counts_visits ctx S cs M" and small: "\<And>k. k \<in> S \<Longrightarrow> M k < 2 ^ 32"
  shows "counted ctx S M (\<lambda>_. 0) (mk_cache (eq_of ctx) strict (map (\<lambda>(k, n). (k, of_nat n)) (filter (\<lambda>(k, n). 1 \<le> n) cs)) (\<lambda>_. False))"
  unfolding counted_def
proof (intro ballI impI)
  fix q assume q: "q \<in> S" "0 < M q"
  have pos: "filter (\<lambda>(k, n). 1 \<le> n) cs = cs"
    using cv by (fastforce simp: counts_visits_def Suc_le_eq intro: filter_True)
  let ?ds = "map (\<lambda>(k, n). (k, of_nat n :: 64 word)) cs"
  have ds: "\<forall>(k, n)\<in>set ?ds. k \<in> S \<and> \<not> leaf k" using cv by (auto simp: counts_visits_def)
  have "count_of (eq_of ctx) cs q = Some (M q)" using cv q by (simp add: counts_visits_def)
  then obtain k where "List.find (\<lambda>(k, n). eq_of ctx k q) cs = Some (k, M q)" by (auto simp: count_of_def)
  then have "find_entry (eq_of ctx) (mk_cache (eq_of ctx) strict ?ds (\<lambda>_. False)) q = Some (new_entry (of_nat (M q)) False)"
    using mk_cache_find [OF snd ds] q(1) by (simp add: find_map_counts)
  moreover have "counted_entry (M q) 0 (new_entry (of_nat (M q)) False)"
    using small [OF q(1)] by (simp add: counted_entry_def new_entry_def)
  ultimately show "\<exists>e. find_entry (eq_of ctx) (mk_cache (eq_of ctx) strict
        (map (\<lambda>(k, n). (k, of_nat n)) (filter (\<lambda>(k, n). 1 \<le> n) cs)) (\<lambda>_. False)) q = Some e \<and> counted_entry (M q) 0 e"
    unfolding pos by blast
qed

lemma cache_manager_for_ok:
  assumes snd: "sound_eval ctx lv h0 S" and ts: "set ts \<subseteq> S"
  shows "\<exists>c. cache_manager_for (eq_of ctx) strict ts min_repeats = Some (Inr c) \<and> cache_ok ctx lv h0 S h0 c
    \<and> (min_repeats = 1 \<longrightarrow> (\<forall>k\<in>S. uses_forest (eq_of ctx) ts (\<lambda>_. 0) k < 2 ^ 32) \<longrightarrow>
         counted ctx S (uses_forest (eq_of ctx) ts (\<lambda>_. 0)) (\<lambda>_. 0) c)
    \<and> class_fun ctx S (uses_forest (eq_of ctx) ts (\<lambda>_. 0))"
proof -
  have "counts_visits ctx S [] (\<lambda>_. 0)" by (simp add: counts_visits_def class_fun_def)
  from forest_counts [OF snd ts this] obtain cs where cs: "count_uses (eq_of ctx) ts [] = Some (Inr cs)"
    and cv: "counts_visits ctx S cs (uses_forest (eq_of ctx) ts (\<lambda>_. 0))" by blast
  let ?ds = "map (\<lambda>(k, n). (k, of_nat n :: 64 word)) (filter (\<lambda>(k, n). min_repeats \<le> n) cs)"
  have ds: "\<forall>(k, n)\<in>set ?ds. k \<in> S \<and> \<not> leaf k" using cv by (auto simp: counts_visits_def)
  have "cache_manager_for (eq_of ctx) strict ts min_repeats = Some (Inr (mk_cache (eq_of ctx) strict ?ds (\<lambda>_. False)))"
    using cs by (simp add: cache_manager_for_def)
  moreover have "cache_ok ctx lv h0 S h0 (mk_cache (eq_of ctx) strict ?ds (\<lambda>_. False))"
    by (rule cache_ok_initial [OF snd ds])
  moreover have "counted ctx S (uses_forest (eq_of ctx) ts (\<lambda>_. 0)) (\<lambda>_. 0) (mk_cache (eq_of ctx) strict ?ds (\<lambda>_. False))"
    if "min_repeats = 1" "\<forall>k\<in>S. uses_forest (eq_of ctx) ts (\<lambda>_. 0) k < 2 ^ 32"
    unfolding that(1) by (rule counted_initial [OF snd cv]) (use that(2) in blast)
  moreover have "class_fun ctx S (uses_forest (eq_of ctx) ts (\<lambda>_. 0))" using cv by (simp add: counts_visits_def)
  ultimately show ?thesis by blast
qed

section \<open>The forest\<close>

definition laid_out :: "('i, 'e, 'g, 'an, 'v) eval_ctx \<Rightarrow> 'an \<Rightarrow> ('i, 'e, 'g) eval_node \<Rightarrow> 'v \<Rightarrow> 'v" where
  "laid_out ctx lay n v = r_permute ctx v (annot ctx (data_of n), lay)"

definition forest_lives :: "('i, 'e, 'g, 'an, 'v) eval_ctx \<Rightarrow> ('i, 'e, 'g) eval_node set \<Rightarrow> ('i, 'e, 'g) eval_node list
    \<Rightarrow> ('i, 'e, 'g) eval_node cache_manager \<Rightarrow> ('i, 'e, 'g) eval_node cache_manager \<Rightarrow> ('i, 'e, 'g) eval_node list \<Rightarrow> bool" where
  "forest_lives ctx S ns c c' bs \<longleftrightarrow>
     (\<forall>M m. class_fun ctx S M \<longrightarrow> class_fun ctx S m \<longrightarrow> counted ctx S M m c \<longrightarrow>
        (\<forall>k\<in>S. uses_forest (eq_of ctx) ns m k \<le> M k) \<longrightarrow>
        counted ctx S M (uses_forest (eq_of ctx) ns m) c'
        \<and> (\<forall>k\<in>S. times_built ctx bs k = (if m k = 0 \<and> 0 < uses_forest (eq_of ctx) ns m k then 1 else 0)))"

lemma uses_forest_mono: "m k \<le> uses_forest eq ns m k"
proof (induction ns arbitrary: m)
  case (Cons n ns)
  then show ?case using uses_mono [of m k eq n] order_trans by (metis uses_forest_simps(2))
qed simp

lemma forest_lives_Cons:
  assumes snd: "sound_eval ctx lv h0 S" and n: "n \<in> S"
    and 1: "lives_post ctx S n c c1 b1" and 2: "forest_lives ctx S ns c1 c2 b2"
  shows "forest_lives ctx S (n # ns) c c2 (b1 @ b2)"
  unfolding forest_lives_def
proof (intro allI impI)
  fix M m
  let ?m1 = "uses (eq_of ctx) n m"
  assume M: "class_fun ctx S M" and m: "class_fun ctx S m" and cnt: "counted ctx S M m c"
    and le: "\<forall>k\<in>S. uses_forest (eq_of ctx) (n # ns) m k \<le> M k"
  have le1: "\<forall>k\<in>S. ?m1 k \<le> M k" using le uses_forest_mono [of ?m1 _ "eq_of ctx" ns] order_trans by fastforce
  have a: "counted ctx S M ?m1 c1" "\<forall>k\<in>S. times_built ctx b1 k = (if m k = 0 \<and> 0 < ?m1 k then 1 else 0)"
    using 1 M m cnt le1 unfolding lives_post_def by blast+
  have m1: "class_fun ctx S ?m1" by (rule class_fun_uses [OF snd n m])
  have b: "counted ctx S M (uses_forest (eq_of ctx) ns ?m1) c2"
    "\<forall>k\<in>S. times_built ctx b2 k = (if ?m1 k = 0 \<and> 0 < uses_forest (eq_of ctx) ns ?m1 k then 1 else 0)"
    using 2 M m1 a(1) le unfolding forest_lives_def by simp_all
  have "times_built ctx (b1 @ b2) k = (if m k = 0 \<and> 0 < uses_forest (eq_of ctx) (n # ns) m k then 1 else 0)" if k: "k \<in> S" for k
    using a(2) b(2) k uses_mono [of m k "eq_of ctx" n] uses_forest_mono [of ?m1 k "eq_of ctx" ns]
    by (auto simp: times_built_def)
  then show "counted ctx S M (uses_forest (eq_of ctx) (n # ns) m) c2
      \<and> (\<forall>k\<in>S. times_built ctx (b1 @ b2) k = (if m k = 0 \<and> 0 < uses_forest (eq_of ctx) (n # ns) m k then 1 else 0))"
    using b(1) by simp
qed

lemma evaluate_correct:
  assumes snd: "sound_eval ctx lv h0 S" and n: "n \<in> S" "no_pending_alias ctx n" "denote ctx lv n = Inr v"
    and ok: "cache_ok ctx lv h0 S (heap st) c" and sc: "scopes st = [c]"
  shows "\<exists>q h' c' bs. evaluate ctx n (Some lay) st = Some (Inr (q, st\<lparr>heap := h', scopes := [c'], builds := builds st @ bs\<rparr>))
    \<and> cache_ok ctx lv h0 S h' c' \<and> length (heap st) \<le> q \<and> q < length h' \<and> length h0 \<le> q
    \<and> h' ! q = laid_out ctx lay n v \<and> holders c' q = {}
    \<and> (\<forall>a<length (heap st). holders c a = {} \<longrightarrow> h' ! a = heap st ! a \<and> holders c' a = {})
    \<and> (unary_sentinels n \<longrightarrow> lives_post ctx S n c c' bs)"
proof -
  obtain p h' c' bs where r: "eval_rec ctx True n st = Inr (p, st\<lparr>heap := h', scopes := [c'], builds := builds st @ bs\<rparr>)"
    and post: "eval_post ctx lv h0 S n v (heap st) c p h' c'"
    and lives: "unary_sentinels n \<longrightarrow> lives_post ctx S n c c' bs"
    using eval_rec_correct [OF snd n ok sc, of True] unfolding eval_result_def by blast
  let ?h = "h' @ [laid_out ctx lay n v]"
  have ok': "cache_ok ctx lv h0 S h' c'" and p: "p < length h'" "h' ! p = v" and len: "length (heap st) \<le> length h'"
    using post unfolding eval_post_def by blast+
  have "evaluate ctx n (Some lay) st = Some (Inr (length h', st\<lparr>heap := ?h, scopes := [c'], builds := builds st @ bs\<rparr>))"
    using r p by (simp add: evaluate_def evaluate_impl_rec alloc_def laid_out_def)
  moreover have "holders c' (length h') = {}" using holder_entry(4) [OF ok'] by blast
  moreover have "?h ! a = heap st ! a \<and> holders c' a = {}" if "a < length (heap st)" "holders c a = {}" for a
  proof -
    have "h' ! a = heap st ! a \<and> holders c' a \<subseteq> holders c a" using post that unfolding eval_post_def by blast
    then show ?thesis using that len by (simp add: nth_append)
  qed
  moreover have "length h0 \<le> length h'" using ok' by (auto simp: cache_ok_def)
  ultimately show ?thesis
    using cache_ok_extend [OF ok'] len lives
    by (intro exI [of _ "length h'"] exI [of _ ?h] exI [of _ c'] exI [of _ bs]) simp
qed

lemma forest_step:
  assumes snd: "sound_eval ctx lv h0 S"
  shows "list_all2 (\<lambda>n v. denote ctx lv n = Inr v) ns vs \<Longrightarrow> set ns \<subseteq> S \<Longrightarrow> list_all (no_pending_alias ctx) ns \<Longrightarrow>
    cache_ok ctx lv h0 S (heap st) c \<Longrightarrow> scopes st = [c] \<Longrightarrow>
    holders c acc = {} \<Longrightarrow> length h0 \<le> acc \<Longrightarrow> acc < length (heap st) \<Longrightarrow>
    \<exists>h' c' bs. evaluate_forest ctx ns (Some lay) (Some acc) st
        = Some (Inr (Some acc, st\<lparr>heap := h', scopes := [c'], builds := builds st @ bs\<rparr>))
      \<and> cache_ok ctx lv h0 S h' c' \<and> acc < length h'
      \<and> h' ! acc = foldl (r_add ctx) (heap st ! acc) (map2 (laid_out ctx lay) ns vs)
      \<and> (list_all unary_sentinels ns \<longrightarrow> forest_lives ctx S ns c c' bs)"
proof (induction ns vs arbitrary: st c rule: list_all2_induct)
  case Nil
  have "st = st\<lparr>heap := heap st, scopes := [c], builds := builds st @ []\<rparr>" using Nil by simp
  moreover have "forest_lives ctx S [] c c []" by (auto simp: forest_lives_def times_built_def)
  ultimately show ?case using Nil
    by (intro exI [of _ "heap st"] exI [of _ c] exI [of _ "[]"]) simp
next
  case (Cons n ns v vs)
  have n: "n \<in> S" "no_pending_alias ctx n" using Cons.prems by simp_all
  obtain q h1 c1 b1 where q: "evaluate ctx n (Some lay) st = Some (Inr (q, st\<lparr>heap := h1, scopes := [c1], builds := builds st @ b1\<rparr>))"
    and ok1: "cache_ok ctx lv h0 S h1 c1" and qv: "length (heap st) \<le> q" "q < length h1" "h1 ! q = laid_out ctx lay n v"
    and keep: "\<forall>a<length (heap st). holders c a = {} \<longrightarrow> h1 ! a = heap st ! a \<and> holders c1 a = {}"
    and lives: "unary_sentinels n \<longrightarrow> lives_post ctx S n c c1 b1"
    using evaluate_correct [OF snd n Cons.hyps(1) Cons.prems(3,4), of lay] by blast
  have acc: "h1 ! acc = heap st ! acc" "holders c1 acc = {}" "acc < length h1" using keep Cons.prems(5,7) qv by auto
  let ?v = "r_add ctx (heap st ! acc) (laid_out ctx lay n v)"
  let ?st = "st\<lparr>heap := h1[acc := ?v], scopes := [c1], builds := builds st @ b1\<rparr>"
  have "cache_ok ctx lv h0 S (heap ?st) c1" using cache_ok_write [OF ok1 acc(2) Cons.prems(6)] by simp
  from Cons.IH [OF _ _ this _ acc(2) Cons.prems(6)] Cons.prems(1,2) acc(3)
  obtain h' c' bs where rest: "evaluate_forest ctx ns (Some lay) (Some acc) ?st
        = Some (Inr (Some acc, ?st\<lparr>heap := h', scopes := [c'], builds := builds ?st @ bs\<rparr>))"
      and ok': "cache_ok ctx lv h0 S h' c'" "acc < length h'"
      and val: "h' ! acc = foldl (r_add ctx) (heap ?st ! acc) (map2 (laid_out ctx lay) ns vs)"
      and l2: "list_all unary_sentinels ns \<longrightarrow> forest_lives ctx S ns c1 c' bs" by auto
  have order: "st\<lparr>scopes := x, builds := y, heap := z\<rparr> = st\<lparr>heap := z, scopes := x, builds := y\<rparr>" for x y z
    by (cases st) simp
  have "evaluate_forest ctx (n # ns) (Some lay) (Some acc) st
      = Some (Inr (Some acc, st\<lparr>heap := h', scopes := [c'], builds := builds st @ (b1 @ bs)\<rparr>))"
    using q rest acc(1) qv(3) by (simp add: order)
  moreover have "h' ! acc = foldl (r_add ctx) (heap st ! acc) (map2 (laid_out ctx lay) (n # ns) (v # vs))"
    using val acc(3) by simp
  moreover have "list_all unary_sentinels (n # ns) \<longrightarrow> forest_lives ctx S (n # ns) c c' (b1 @ bs)"
    using forest_lives_Cons [OF snd n(1)] lives l2 by auto
  ultimately show ?case using ok' by blast
qed

lemma forest_from_empty:
  assumes snd: "sound_eval ctx lv h0 S" and ns: "list_all2 (\<lambda>n v. denote ctx lv n = Inr v) (n # ns) (v # vs)" "set (n # ns) \<subseteq> S"
    "list_all (no_pending_alias ctx) (n # ns)" and ok: "cache_ok ctx lv h0 S (heap st) c" and sc: "scopes st = [c]"
  shows "\<exists>p h' c' bs. evaluate_forest ctx (n # ns) (Some lay) None st
        = Some (Inr (Some p, st\<lparr>heap := h', scopes := [c'], builds := builds st @ bs\<rparr>))
      \<and> cache_ok ctx lv h0 S h' c' \<and> p < length h' \<and> length (heap st) \<le> p
      \<and> h' ! p = foldl (r_add ctx) (laid_out ctx lay n v) (map2 (laid_out ctx lay) ns vs)
      \<and> (list_all unary_sentinels (n # ns) \<longrightarrow> forest_lives ctx S (n # ns) c c' bs)"
proof -
  have n: "n \<in> S" "no_pending_alias ctx n" "denote ctx lv n = Inr v" using ns by simp_all
  obtain q h1 c1 b1 where q: "evaluate ctx n (Some lay) st = Some (Inr (q, st\<lparr>heap := h1, scopes := [c1], builds := builds st @ b1\<rparr>))"
    and ok1: "cache_ok ctx lv h0 S h1 c1" and qv: "length (heap st) \<le> q" "q < length h1" "length h0 \<le> q" "h1 ! q = laid_out ctx lay n v"
    and un: "holders c1 q = {}" and lives: "unary_sentinels n \<longrightarrow> lives_post ctx S n c c1 b1"
    using evaluate_correct [OF snd n ok sc, of lay] by blast
  let ?st = "st\<lparr>heap := h1, scopes := [c1], builds := builds st @ b1\<rparr>"
  obtain h' c' bs where rest: "evaluate_forest ctx ns (Some lay) (Some q) ?st
        = Some (Inr (Some q, ?st\<lparr>heap := h', scopes := [c'], builds := builds ?st @ bs\<rparr>))"
      and ok': "cache_ok ctx lv h0 S h' c'" "q < length h'"
      and val: "h' ! q = foldl (r_add ctx) (heap ?st ! q) (map2 (laid_out ctx lay) ns vs)"
      and l2: "list_all unary_sentinels ns \<longrightarrow> forest_lives ctx S ns c1 c' bs"
    using forest_step [OF snd _ _ _ _ _ un qv(3), of ns vs ?st lay] ns qv(2) ok1 by auto
  have "evaluate_forest ctx (n # ns) (Some lay) None st
      = Some (Inr (Some q, st\<lparr>heap := h', scopes := [c'], builds := builds st @ (b1 @ bs)\<rparr>))"
    using q rest by simp
  moreover have "list_all unary_sentinels (n # ns) \<longrightarrow> forest_lives ctx S (n # ns) c c' (b1 @ bs)"
    using forest_lives_Cons [OF snd n(1)] lives l2 by auto
  ultimately show ?thesis using ok' val qv by auto
qed

section \<open>What the visits reach\<close>

fun internal_nodes :: "'a node \<Rightarrow> 'a node list" where
  "internal_nodes (Leaf d k) = []"
| "internal_nodes (Node d l r k) = Node d l r k # internal_nodes l @ internal_nodes r"

lemma uses_bound: "uses eq t m k \<le> m k + length (internal_nodes t)"
proof (induction t arbitrary: m)
  case (Node d l r x)
  let ?n = "Node d l r x"
  have "uses eq r (uses eq l (add_use eq ?n m)) k \<le> m k + length (internal_nodes ?n)"
    using Node.IH(2) [of "uses eq l (add_use eq ?n m)"] Node.IH(1) [of "add_use eq ?n m"]
    by (simp add: add_use_def split: if_splits)
  then show ?case by (simp add: add_use_def)
qed simp

lemma uses_forest_bound: "uses_forest eq ts m k \<le> m k + length (concat (map internal_nodes ts))"
proof (induction ts arbitrary: m)
  case (Cons t ts)
  have "uses_forest eq ts (uses eq t m) k \<le> uses eq t m k + length (concat (map internal_nodes ts))" by (rule Cons.IH)
  then show ?case using uses_bound [of eq t m k] by simp
qed simp

definition covered :: "('i, 'e, 'g) eval_node set \<Rightarrow> (('i, 'e, 'g) eval_node \<Rightarrow> nat) \<Rightarrow> bool" where
  "covered S m \<longleftrightarrow> (\<forall>n\<in>S. 0 < m n \<longrightarrow> (\<forall>u\<in>set (internal_nodes n). 0 < m u))"

lemma internal_head: "\<not> leaf n \<Longrightarrow> n \<in> set (internal_nodes n)"
  by (cases n) auto

lemma internal_in_forest:
  assumes snd: "sound_eval ctx lv h0 S"
  shows "n \<in> S \<Longrightarrow> set (internal_nodes n) \<subseteq> S"
proof (induction n)
  case (Node d l r k)
  then show ?case using sound_children [OF snd Node.prems] by simp
qed simp

lemma equal_children:
  assumes snd: "sound_eval ctx lv h0 S" and S: "Node d l r k \<in> S" "Node d' l' r' k' \<in> S"
    and eq: "eq_of ctx (Node d' l' r' k') (Node d l r k)" and x: "x = l' \<or> x = r'"
  shows "\<exists>y. (y = l \<or> y = r) \<and> eq_of ctx x y"
proof -
  have "eval_forest (compare ctx) S" using snd by (simp add: sound_eval_def)
  from forest_op [OF this S(2,1) node_equal_payload] eq have op: "op_type d' = op_type d" by (simp add: eq_of_def)
  have "eq_of ctx (fst (operand_view d' l' r')) (fst (operand_view d l r))"
    "eq_of ctx (snd (operand_view d' l' r')) (snd (operand_view d l r))"
    using eq unfolding eq_of_def node_equal_Node [OF op] by simp_all
  then show ?thesis using x by (auto simp: operand_view_def canonical_pair_def split: if_splits)
qed

lemma uses_covers:
  assumes snd: "sound_eval ctx lv h0 S"
  shows "t \<in> S \<Longrightarrow> class_fun ctx S m \<Longrightarrow> covered S m \<Longrightarrow>
    covered S (uses (eq_of ctx) t m) \<and> (\<forall>u\<in>set (internal_nodes t). 0 < uses (eq_of ctx) t m u)"
proof (induction t arbitrary: m)
  case (Node d l r k)
  let ?eq = "eq_of ctx" and ?n = "Node d l r k"
  have lr: "l \<in> S" "r \<in> S" using sound_children [OF snd Node.prems(1)] by simp_all
  show ?case
  proof (cases "0 < m ?n")
    case True
    have "0 < add_use ?eq ?n m u \<longleftrightarrow> 0 < m u" if "u \<in> S" for u
      using class_const [OF Node.prems(2) that Node.prems(1)] True by (simp add: add_use_def)
    moreover have "set (internal_nodes u) \<subseteq> S" if "u \<in> S" for u by (rule internal_in_forest [OF snd that])
    ultimately have "covered S (add_use ?eq ?n m)" "\<forall>u\<in>set (internal_nodes ?n). 0 < add_use ?eq ?n m u"
      using Node.prems(1,3) True unfolding covered_def by blast+
    then show ?thesis using True by simp
  next
    case False
    let ?m1 = "uses ?eq l m" let ?m2 = "uses ?eq r ?m1"
    have cl: "class_fun ctx S ?m1" "class_fun ctx S ?m2"
      using class_fun_uses [OF snd lr(1) Node.prems(2)] class_fun_uses [OF snd lr(2)] by blast+
    have c1: "covered S ?m1" "\<forall>u\<in>set (internal_nodes l). 0 < ?m1 u" using Node.IH(1) [OF lr(1) Node.prems(2,3)] by blast+
    have c2: "covered S ?m2" "\<forall>u\<in>set (internal_nodes r). 0 < ?m2 u" using Node.IH(2) [OF lr(2) cl(1) c1(1)] by blast+
    have both: "0 < ?m2 u" if "u \<in> set (internal_nodes l) \<union> set (internal_nodes r)" for u
    proof -
      have "0 < ?m1 u \<Longrightarrow> 0 < ?m2 u" using uses_mono [of ?m1 u ?eq r] by linarith
      then show ?thesis using that c1(2) c2(2) by auto
    qed
    have first: "uses ?eq ?n m u = add_use ?eq ?n ?m2 u" if "u \<in> S" for u
      using uses_first [OF snd Node.prems(1) _ that] False by simp
    have child: "0 < ?m2 u" if y: "y = l \<or> y = r" and x: "x \<in> S" "?eq x y" and u: "u \<in> set (internal_nodes x)" for x y u
    proof -
      have yS: "y \<in> S" using y lr by blast
      have "\<not> leaf x" using u by (cases x) auto
      then have "\<not> leaf y" using eq_leaf [OF x(2)] by simp
      then have "0 < ?m2 y" using both y internal_head by blast
      then have "0 < ?m2 x" using class_const [OF cl(2) x(1) yS x(2)] by simp
      then show ?thesis using c2(1) x(1) u unfolding covered_def by blast
    qed
    have cov: "0 < add_use ?eq ?n ?m2 u" if v: "v \<in> S" "0 < add_use ?eq ?n ?m2 v" "u \<in> set (internal_nodes v)" for u v
    proof (cases "0 < ?m2 v")
      case True
      then have "0 < ?m2 u" using c2(1) v(1,3) unfolding covered_def by blast
      then show ?thesis by (simp add: add_use_def)
    next
      case False
      then have eq: "?eq v ?n" using v(2) by (auto simp: add_use_def split: if_splits)
      obtain d' l' r' k' where V: "v = Node d' l' r' k'" using v(3) by (cases v) auto
      show ?thesis
      proof (cases "u = v")
        case True
        then show ?thesis using eq by (simp add: add_use_def)
      next
        case False
        then obtain x where x: "x = l' \<or> x = r'" "u \<in> set (internal_nodes x)" using v(3) V by auto
        have xS: "x \<in> S" using sound_children [OF snd v(1) [unfolded V]] x(1) by blast
        obtain y where y: "y = l \<or> y = r" "?eq x y"
          using equal_children [OF snd Node.prems(1) v(1) [unfolded V] eq [unfolded V] x(1)] by blast
        have "0 < ?m2 u" by (rule child [OF y(1) xS y(2) x(2)])
        then show ?thesis by (simp add: add_use_def)
      qed
    qed
    have sub: "u \<in> set (internal_nodes v) \<Longrightarrow> v \<in> S \<Longrightarrow> u \<in> S" for u v using internal_in_forest [OF snd] by blast
    have "covered S (uses ?eq ?n m)" unfolding covered_def using cov first sub by simp
    moreover have "0 < uses ?eq ?n m u" if "u \<in> set (internal_nodes ?n)" for u
    proof -
      have "0 < add_use ?eq ?n ?m2 ?n" using sound_refl [OF snd] by (simp add: add_use_def)
      then show ?thesis using cov [OF Node.prems(1) _ that] first [OF sub [OF that Node.prems(1)]] by simp
    qed
    ultimately show ?thesis by blast
  qed
qed simp

lemma uses_forest_covers:
  assumes snd: "sound_eval ctx lv h0 S"
  shows "set ts \<subseteq> S \<Longrightarrow> class_fun ctx S m \<Longrightarrow> covered S m \<Longrightarrow> t \<in> set ts \<Longrightarrow> u \<in> set (internal_nodes t) \<Longrightarrow>
    0 < uses_forest (eq_of ctx) ts m u"
proof (induction ts arbitrary: m)
  case (Cons t' ts)
  let ?m = "uses (eq_of ctx) t' m"
  have t': "t' \<in> S" using Cons.prems(1) by simp
  note c = uses_covers [OF snd t' Cons.prems(2,3)]
  show ?case
  proof (cases "t = t'")
    case True
    then have "0 < ?m u" using c Cons.prems(5) by blast
    then show ?thesis using uses_forest_mono [of ?m u "eq_of ctx" ts] by simp
  next
    case False
    then show ?thesis using Cons.IH [of ?m] Cons.prems class_fun_uses [OF snd t' Cons.prems(2)] c by simp
  qed
qed simp

section \<open>Cached evaluation of a forest\<close>

text \<open>The value of a forest in a layout, without a cache: the trees' values are permuted and added in order.\<close>

fun forest_value :: "('i, 'e, 'g, 'an, 'v) eval_ctx \<Rightarrow> 'an \<Rightarrow> ('i, 'e, 'g) eval_node list \<Rightarrow> 'v list \<Rightarrow> 'v option" where
  "forest_value ctx lay (n # ns) (v # vs) = Some (foldl (r_add ctx) (laid_out ctx lay n v) (map2 (laid_out ctx lay) ns vs))"
| "forest_value ctx lay _ _ = None"

lemma cached_forest:
  assumes snd: "sound_eval ctx lv h0 S" and ns: "list_all2 (\<lambda>n v. denote ctx lv n = Inr v) ns vs" "ns \<noteq> []" "set ns \<subseteq> S"
    and safe: "list_all (no_pending_alias ctx) ns"
  shows "\<exists>c p h' c' bs. cache_manager_for (eq_of ctx) strict ns min_repeats = Some (Inr c)
    \<and> evaluate_forest ctx ns (Some lay) None \<lparr>heap = h0, scopes = [c], builds = []\<rparr>
        = Some (Inr (Some p, \<lparr>heap = h', scopes = [c'], builds = bs\<rparr>))
    \<and> p < length h' \<and> forest_value ctx lay ns vs = Some (h' ! p) \<and> take (length h0) h' = h0
    \<and> (min_repeats = 1 \<longrightarrow> list_all unary_sentinels ns \<longrightarrow> length (concat (map internal_nodes ns)) < 2 ^ 32 \<longrightarrow>
         (\<forall>t\<in>set ns. \<forall>n\<in>set (internal_nodes t).
            times_built ctx bs n = 1 \<and> current_life (eq_of ctx) c' n = 0 \<and> \<not> alive (eq_of ctx) c' n))"
proof -
  let ?M = "uses_forest (eq_of ctx) ns (\<lambda>_. 0)"
  obtain c where c: "cache_manager_for (eq_of ctx) strict ns min_repeats = Some (Inr c)" and ok: "cache_ok ctx lv h0 S h0 c"
    and cnt: "min_repeats = 1 \<longrightarrow> (\<forall>k\<in>S. ?M k < 2 ^ 32) \<longrightarrow> counted ctx S ?M (\<lambda>_. 0) c" and cl: "class_fun ctx S ?M"
    using cache_manager_for_ok [OF snd ns(3)] by blast
  obtain n ns' v vs' where nv: "ns = n # ns'" "vs = v # vs'" using ns(1,2) by (cases ns; cases vs) auto
  note nv1 = ns(1) [unfolded nv] and nv2 = ns(3) [unfolded nv] and nv3 = safe [unfolded nv]
  let ?st = "\<lparr>heap = h0, scopes = [c], builds = []\<rparr>"
  obtain p h' c' bs where ev: "evaluate_forest ctx ns (Some lay) None ?st
        = Some (Inr (Some p, ?st\<lparr>heap := h', scopes := [c'], builds := builds ?st @ bs\<rparr>))"
    and ok': "cache_ok ctx lv h0 S h' c'" and p: "p < length h'"
    and val: "h' ! p = foldl (r_add ctx) (laid_out ctx lay n v) (map2 (laid_out ctx lay) ns' vs')"
    and lives: "list_all unary_sentinels ns \<longrightarrow> forest_lives ctx S ns c c' bs"
    using forest_from_empty [OF snd nv1 nv2 nv3, of ?st c lay] ok unfolding nv by auto
  have "take (length h0) h' = h0" using ok' by (auto simp: cache_ok_def)
  moreover have "times_built ctx bs u = 1 \<and> current_life (eq_of ctx) c' u = 0 \<and> \<not> alive (eq_of ctx) c' u"
    if single: "min_repeats = 1" and sent: "list_all unary_sentinels ns" and few: "length (concat (map internal_nodes ns)) < 2 ^ 32"
      and u: "t \<in> set ns" "u \<in> set (internal_nodes t)" for t u
  proof -
    have uS: "u \<in> S" using internal_in_forest [OF snd, of t] ns(3) u by blast
    have small: "?M k < 2 ^ 32" for k
      using uses_forest_bound [of "eq_of ctx" ns "\<lambda>_. 0" k] few by linarith
    have zero: "class_fun ctx S (\<lambda>_. 0)" "covered S (\<lambda>_. 0)" by (simp_all add: class_fun_def covered_def)
    have pos: "0 < ?M u" by (rule uses_forest_covers [OF snd ns(3) zero u])
    have "counted ctx S ?M (\<lambda>_. 0) c" using cnt single small by blast
    moreover have "forest_lives ctx S ns c c' bs" using lives sent by blast
    ultimately have "counted ctx S ?M ?M c'" and built: "\<forall>k\<in>S. times_built ctx bs k = (if 0 < ?M k then 1 else 0)"
      unfolding forest_lives_def using cl zero(1) by auto
    then obtain e where "find_entry (eq_of ctx) c' u = Some e" "counted_entry (?M u) (?M u) e"
      using uS pos unfolding counted_def by blast
    then show ?thesis using built uS pos by (simp add: current_life_def alive_def alive_entry_def counted_entry_def)
  qed
  ultimately show ?thesis using c ev p val unfolding nv by auto
qed

section \<open>An instance\<close>

text \<open>Tensors with integers for values; the hash values of different nodes differ.\<close>

definition demo_leaf :: "nat \<Rightarrow> (nat, nat, nat) eval_node" where
  "demo_leaf e = Leaf ((eval_expr_default (TensorExpr e) TensorResult)\<lparr>hash_value := of_nat e, canon_indices := [e]\<rparr>) 1"

definition demo_node :: "eval_op \<Rightarrow> nat \<Rightarrow> int \<Rightarrow> (nat, nat, nat) eval_node \<Rightarrow> (nat, nat, nat) eval_node \<Rightarrow> (nat, nat, nat) eval_node" where
  "demo_node op h ph l r =
     Node ((eval_expr_default (TensorExpr 0) TensorResult)
       \<lparr>op_type := Some op, hash_value := of_nat h, canon_phase := ph, accumulate_in_place := (op = SumOp)\<rparr>) l r (1 + csize l + csize r)"

fun demo_value :: "(nat, nat, nat) eval_node \<Rightarrow> int" where
  "demo_value (Leaf d k) = (case held d of TensorExpr e \<Rightarrow> int e | _ \<Rightarrow> 0)"
| "demo_value (Node d l r k) = 0"

definition demo_ctx :: "(nat, nat, nat, nat list, int) eval_ctx" where
  "demo_ctx =
     \<lparr>compare = \<lparr>expr_equal = (=), block_equal = (=), graph_equal = (=)\<rparr>, annot = canon_indices, tot = (\<lambda>_. False),
      leaf_evaluator = (\<lambda>n h. (length h, h @ [demo_value n])),
      r_sum = (\<lambda>x y _. x + y), r_prod = (\<lambda>x y _ _. x * y), r_adjoint = (\<lambda>x _. x), r_pow = (\<lambda>x _. x), r_broadcast = (\<lambda>x _ _. x),
      r_permute = (\<lambda>x _. x), r_add = (+), r_phase = (*), r_slice = (\<lambda>x _ _. x), array_ops = None,
      shaped_product_hook = None, custom_evaluator = None, batch_context = []\<rparr>"

definition demo_ab :: "int \<Rightarrow> (nat, nat, nat) eval_node" where
  "demo_ab ph = demo_node ProductOp 20 ph (demo_leaf 2) (demo_leaf 3)"

definition demo_cd :: "(nat, nat, nat) eval_node" where
  "demo_cd = demo_node ProductOp 21 1 (demo_leaf 5) (demo_leaf 7)"

definition demo_sum :: "int \<Rightarrow> (nat, nat, nat) eval_node" where
  "demo_sum ph = demo_node SumOp 30 1 (demo_ab ph) demo_cd"

definition demo_nodes :: "(nat, nat, nat) eval_node set" where
  "demo_nodes = {demo_leaf 2, demo_leaf 3, demo_leaf 5, demo_leaf 7, demo_ab (-1), demo_cd, demo_sum (-1)}"

lemmas demo_defs = demo_leaf_def demo_node_def demo_ab_def demo_cd_def demo_sum_def eval_expr_default_def

lemma demo_sound: "sound_eval demo_ctx demo_value [] demo_nodes"
proof -
  have forest: "eval_forest (compare demo_ctx) demo_nodes"
    by (simp add: eval_forest_def closed_children_def demo_nodes_def demo_ctx_def demo_defs payload_ok_def same_payload_def)
  have same: "a = b" if "a \<in> demo_nodes" "b \<in> demo_nodes" "eq_of demo_ctx a b" for a b
  proof -
    have "hash_value (data_of a) = hash_value (data_of b)"
      using node_equal_payload [OF that(3) [unfolded eq_of_def]] by (simp add: same_payload_def Let_def split: if_splits)
    then show ?thesis using that(1,2) by (auto simp: demo_nodes_def demo_defs)
  qed
  show ?thesis
    unfolding sound_eval_def
  proof (intro conjI)
    show "compares_equivalences (compare demo_ctx)" by (simp add: compares_equivalences_def demo_ctx_def identity_equivp)
    show "eval_forest (compare demo_ctx) demo_nodes" by (rule forest)
    show "\<forall>n\<in>demo_nodes. leaf n \<longrightarrow> leaf_source demo_ctx demo_value [] n" by (simp add: leaf_source_def demo_ctx_def)
    show "\<forall>n\<in>demo_nodes. \<forall>v. phased demo_ctx n (phased demo_ctx n v) = v"
      by (simp add: demo_nodes_def phased_def demo_ctx_def demo_defs)
    show "\<forall>a\<in>demo_nodes. \<forall>b\<in>demo_nodes. eq_of demo_ctx a b \<longrightarrow> canonical demo_ctx demo_value a = canonical demo_ctx demo_value b"
      using same by metis
  qed (simp_all add: demo_ctx_def)
qed

lemma demo_forest:
  "set [demo_sum (-1), demo_ab (-1)] \<subseteq> demo_nodes" "list_all (no_pending_alias demo_ctx) [demo_sum (-1), demo_ab (-1)]"
  "list_all unary_sentinels [demo_sum (-1), demo_ab (-1)]"
  "list_all2 (\<lambda>n v. denote demo_ctx demo_value n = Inr v) [demo_sum (-1), demo_ab (-1)] [41, 6]"
  "length (concat (map internal_nodes [demo_sum (-1), demo_ab (-1)])) < 2 ^ 32"
  by (simp_all add: demo_nodes_def demo_defs binary_node_def is_unary_def marked_sum_def demo_ctx_def)

section \<open>The properties\<close>



text \<open>
  C25: with every node cached (\<open>min_repeats\<close> 1) and fewer than 2^32 internal nodes, the use counts of the builder are
  exact: evaluating the forest builds every internal node once, all equal nodes sharing one build, and at the
  end every entry is drained, so that no value stays resident.
\<close>

theorem cached_forest_drains:
  assumes "sound_eval ctx lv h0 S" "list_all2 (\<lambda>n v. denote ctx lv n = Inr v) ns vs" "ns \<noteq> []" "set ns \<subseteq> S"
    and "list_all (no_pending_alias ctx) ns" "list_all unary_sentinels ns" "length (concat (map internal_nodes ns)) < 2 ^ 32"
  shows "\<exists>c p h' c' bs. cache_manager_for (eq_of ctx) strict ns 1 = Some (Inr c)
    \<and> evaluate_forest ctx ns (Some lay) None \<lparr>heap = h0, scopes = [c], builds = []\<rparr>
        = Some (Inr (Some p, \<lparr>heap = h', scopes = [c'], builds = bs\<rparr>))
    \<and> (\<forall>t\<in>set ns. \<forall>n\<in>set (internal_nodes t).
         length (filter (eq_of ctx n) bs) = 1 \<and> current_life (eq_of ctx) c' n = 0 \<and> \<not> alive (eq_of ctx) c' n)"
  using cached_forest [OF assms(1-5), of strict 1 lay] assms(6,7) unfolding times_built_def by blast

lemma cached_forest_drains_witness:
  "\<exists>c p h' c' bs. cache_manager_for (eq_of demo_ctx) True [demo_sum (-1), demo_ab (-1)] 1 = Some (Inr c)
    \<and> evaluate_forest demo_ctx [demo_sum (-1), demo_ab (-1)] (Some []) None \<lparr>heap = [], scopes = [c], builds = []\<rparr>
        = Some (Inr (Some p, \<lparr>heap = h', scopes = [c'], builds = bs\<rparr>))
    \<and> length (filter (eq_of demo_ctx (demo_ab (-1))) bs) = 1 \<and> \<not> alive (eq_of demo_ctx) c' (demo_ab (-1))"
proof -
  have "demo_ab (-1) \<in> set (internal_nodes (demo_ab (-1)))" by (simp add: demo_ab_def demo_node_def)
  then show ?thesis
    using cached_forest_drains [OF demo_sound demo_forest(4) _ demo_forest(1,2,3,5), of True "[]"] by fastforce
qed

section \<open>Where sharing changes a value\<close>

text \<open>The value that a forest or a tree evaluates to with a cache of its own, or nothing.\<close>

definition cached_value :: "(nat, nat, nat) eval_node list \<Rightarrow> nat list option \<Rightarrow> int option" where
  "cached_value ns lay =
     (case cache_manager_for (eq_of demo_ctx) True ns 1 of
        Some (Inr c) \<Rightarrow>
          (case evaluate_forest demo_ctx ns lay None \<lparr>heap = [], scopes = [c], builds = []\<rparr> of
             Some (Inr (Some p, st)) \<Rightarrow> Some (heap st ! p)
           | _ \<Rightarrow> None)
      | _ \<Rightarrow> None)"

text \<open>
  In AB (AB + CD) the left factor is pending while the sum is evaluated.  The sum's read of AB is the last one,
  so the entry is drained, no entry holds the buffer and the sum accumulates into it: the product is the square
  of the sum.
\<close>

lemma pending_left_overwritten:
  "denote demo_ctx demo_value (demo_node ProductOp 40 1 (demo_ab 1) (demo_sum 1)) = Inr 246"
  "cached_value [demo_node ProductOp 40 1 (demo_ab 1) (demo_sum 1)] (Some []) = Some 1681"
  by code_simp+

text \<open>
  With the default layout the first result of a forest is not copied: if the tree is used again below, the
  accumulator is the buffer of its entry, and adding to it changes what the entry holds.
\<close>

lemma default_layout_aliases_entry:
  "map_option (map (denote demo_ctx demo_value)) (Some [demo_ab 1, demo_cd, demo_node ProductOp 41 1 (demo_ab 1) (demo_leaf 11)])
     = Some [Inr 6, Inr 35, Inr 66]"
  "cached_value [demo_ab 1, demo_cd, demo_node ProductOp 41 1 (demo_ab 1) (demo_leaf 11)] (Some []) = Some 107"
  "cached_value [demo_ab 1, demo_cd, demo_node ProductOp 41 1 (demo_ab 1) (demo_leaf 11)] None = Some 492"
  by code_simp+

end
