(* ===== verification/Spec2Isabelle.thy ===== *)
theory Spec2Isabelle
  imports Z2Names IrrepPropagation AsyCost BitSets Permutations Topological ValueKey IndexUtils SingleTermOpt Accumulator RapidTermination WickContractions WickNormalize ForestEvaluation
begin

text \<open>
  SeQuant: a verification development of the core of the symbolic tensor algebra library (C++, SeQuant/core).

  \<^bold>\<open>What the program does.\<close>  SeQuant derives and evaluates equations of many-body theory.  Expressions (trees of scalars,
  variables, powers, tensors and normal-ordered operators under sums and products) are built, expanded and simplified;
  Wick's theorem turns products of normal operators into tensors; a product of tensors is a network whose contraction
  order the optimizer chooses; the order is evaluated as a binary tree, with values kept in a table of cells while they
  are needed.  Labels of irreducible representations (IRREPs), asymptotic costs, permutations and integer arithmetic
  serve these stages.

  \<^bold>\<open>Conventions.\<close>  One definition per function, loop or step of the code, with the names of the code.  An exception, a failed
  assertion and an early return are values: the left summand of \<open>('e, 'a) result\<close> (Prelude) or None.  A loop that may not
  end is a \<open>partial_function (option)\<close> or takes fuel, and that it ends is proved.  Masks are machine words, counts are
  natural numbers taken not to exceed their type, rational and multiprecision numbers are exact, a double is a real number.
  Mutable objects are threaded as records; an \<open>ExprPtr\<close> is the tree it points to.  What is not under src/, and types such
  as \<open>Index\<close>, \<open>Tensor\<close> or a hash function that the code reaches through a few operations, are parameters.

  \<^bold>\<open>Theories, in the order they build on each other.\<close>

  Prelude: results, ordered containers as sorted lists over a comparator (locale \<open>strict_weak_order\<close>), loops that may throw.

  Wick's theorem (SeQuant/core/wick.hpp, op.hpp, ranges.hpp).  WickEngine is \<open>compute_nontensor_wick\<close>: the backtracking
  recursion on one mutable state, \<open>connect\<close> and \<open>disconnect\<close> with their metadata, topological uniqueness, degeneracies,
  phases and loops of partner indices.  WickMetadata says what the metadata of a state are after a list of contractions and
  that the updates and their inverses keep to it; WickRecursion proves that the recursion never fails, restores its state and
  emits what a function without state lists; WickPairings that this list is the set of pairings, each once, the pruning by
  required connections being sound and complete; WickSigns gives the factors and the signs; WickContractions states Wick's
  theorem for complete and for partial contractions.  The recursion takes fuel for its depth; the number of operators is
  enough because every call removes two.  The theorems assume what \<open>make_default_op_partitions\<close> sets up, every operator in
  a partition of its own (predicate \<open>plain\<close>); the definitions cover the partitions given by symmetry too.  WickNormalize is
  \<open>normalize\<close> of op.hpp, with the sign of the reordering and the columns of partner indices.

  Expressions (SeQuant/core/expressions, complex.hpp).  Expressions: trees, clone, append and prepend under the flattening
  tags, the operators, their values in rings with central scalars.  Adjoints; SumCache (the class Sum with its cached
  position of the constant); Expand and Flatten (visitors of expr_algorithms.cpp); RapidSimplify, PowerValues (locale
  \<open>power_semantics\<close>) and RapidTermination (locale \<open>hereditary\<close>) for rapid_simplify and the folding of powers; Accumulator for
  \<open>HashingAccumulator\<close> and its unordered set.  CoprimeBase and Radicals model math.hpp.

  Optimization (SeQuant/core/optimize, utility/indices.hpp).  IndexUtils: unique, external and open indices.  SingleTerm:
  the tables over subsets of a network.  CostModel: the dynamic programming over subsets with the hooks of a cost model
  (locale \<open>optimal_substructure\<close>, interpreted on the additive model), PeakModel: the Pareto frontiers of peak memory and
  flops; SingleTermOpt: the arms of \<open>single_term_opt\<close>.  The plans found are optimal among all contraction orders.

  Evaluation (SeQuant/core/eval, binary_node.hpp).  BinaryNode: trees with cached sizes, stack machines, traversals.
  EvalExprs: node payloads and the comparison of nodes.  CellTable: the schedule table and its validator.  LifetimeMask and
  ValueKey: residency of values over the occurrences in a forest and the keys of values.  CacheManager (cache_manager.hpp):
  entries that count their remaining reads, the chain of scopes, the builder that counts the uses in a forest.  Evaluate
  (eval.hpp): the kernels and the stack machine \<open>evaluate_impl\<close>, on a heap of buffers so that values stored in the cache and
  sums accumulated in place may alias; its loop is a partial function, and that it ends without an error is part of the
  theorems.  CachedEvaluation proves that the machine computes what the plain recursion over the
  tree computes while the cache keeps its entries at their canonical values; ForestEvaluation proves it for a whole forest
  with the cache that the builder makes, that every internal node is built once and that the cache is drained at the end,
  and shows the two ways in which a buffer that is still wanted is overwritten.  These theorems are for one scope, without
  batch loops and custom evaluator; the backend obeys the laws in \<open>sound_eval\<close>.

  IRREPs (SeQuant/core/irreps).  IrrepSets and IrrepAlgebra (locales \<open>irrep_algebra\<close>, \<open>irrep_group\<close>), provided by Z2Irreps,
  Z2Reduce, Z2Names (the elementary abelian groups with symbols and relations) and by TableAlgebra (multiplication tables);
  IrrepPropagation computes the IRREPs of a tree.

  Algorithms (SeQuant/core/algorithm.hpp, utility, bitset.hpp, asy_cost).  Sorting: bubble sort with its parity, next
  permutation; Permutations: parity and cycles; BitSets: subsets and bipartitions of masks; Topological: Kahn's algorithm;
  AsyCost: polynomials of costs.

  \<^bold>\<open>What the lemmas show.\<close>  Functional correctness against a specification that is not the code's loop (a set of pairings, a
  plan of least cost, a normal form, a sign), preservation of invariants (cached sizes, the position of a constant, tables),
  termination of every loop modelled, errors exactly where they are due, and values: transformations of expressions keep the
  value in every ring that interprets the leaves.

  \<^bold>\<open>Not modelled.\<close>  Canonicalization and graph isomorphism of tensor networks (tensor_network, the vendored bliss): their
  contracts are global and rest on an external search.  \<open>reduce\<close>, the treatment of expression input and the cumulant
  expansion of Wick's theorem (wick.impl.hpp, wick_extended).  The registry of index bases and the index class beyond the
  operations used as parameters.  The execution of schedules by the ordered executor and the
  batched evaluator (ordered_executor, ordered_schedule, the rest of eval.hpp) and the tensor backends: they call template parameters
  throughout.  Batched cost models and the
  multi-term optimizer.  Parsing, serialization, export, LaTeX output, logging, contexts and options: input, output and
  configuration.  The derived many-body models (domain/mbpt), the Python bindings, utilities, tests and documentation.
\<close>

end
